(* ===== verification/Prelude.thy ===== *)
theory Prelude
  imports Main "HOL-Library.Word"
begin

text \<open>
  Shared vocabulary of the imagetool development.

  Machine integers. A \<open>uint64_t\<close> or \<open>size_t\<close> quantity is a \<^typ>\<open>nat\<close>; where the source
  computes on it with an operation that can leave the range, the model uses \<open>add64\<close>,
  \<open>sub64\<close> and \<open>mul64\<close>, which write the wrap-around out. Bytes and bit fields are words.

  Effects. A C function that may fail and changes an object is a function from the object's
  state to a pair of an optional result and the new state (\<open>io\<close>): \<^const>\<open>None\<close> is the
  \<open>-1\<close> (or \<open>NULL\<close>) return, and the state beside it is the state the failure leaves behind.

  Memory. The contents of a byte addressed medium are a function \<open>nat \<Rightarrow> byte\<close>;
  \<open>peek\<close> reads a range of it and \<open>poke\<close> replaces one.
\<close>

unbundle bit_operations_syntax

named_theorems wrap_simps \<open>wrap-around operations that stay in range\<close>
named_theorems mem_simps \<open>reading back poked memory\<close>

type_synonym byte = "8 word"

type_synonym ('a, 's) io = "'a option \<times> 's"

section \<open>Wrap-around arithmetic on 64 bit unsigned quantities\<close>

abbreviation max64 :: nat where
  "max64 \<equiv> 2 ^ 64"

definition add64 :: "nat \<Rightarrow> nat \<Rightarrow> nat" where
  "add64 a b = (a + b) mod max64"

definition sub64 :: "nat \<Rightarrow> nat \<Rightarrow> nat" where
  "sub64 a b = (if b \<le> a then a - b else (a + max64 - b) mod max64)"

definition mul64 :: "nat \<Rightarrow> nat \<Rightarrow> nat" where
  "mul64 a b = (a * b) mod max64"

lemma add64_exact [wrap_simps]: "a + b < max64 \<Longrightarrow> add64 a b = a + b"
  by (simp add: add64_def)

lemma sub64_exact [wrap_simps]: "b \<le> a \<Longrightarrow> sub64 a b = a - b"
  by (simp add: sub64_def)

lemma mul64_exact [wrap_simps]: "a * b < max64 \<Longrightarrow> mul64 a b = a * b"
  by (simp add: mul64_def)

lemma sub64_wraps: "a < b \<Longrightarrow> b < max64 \<Longrightarrow> sub64 a b = max64 - (b - a)"
  by (simp add: sub64_def)

text \<open>Storing into a \<open>uint32_t\<close>.\<close>

definition u32 :: "nat \<Rightarrow> nat" where
  "u32 x = x mod 2 ^ 32"

lemma u32_exact [wrap_simps]: "x < 2 ^ 32 \<Longrightarrow> u32 x = x"
  by (simp add: u32_def)

text \<open>The number of \<open>b\<close>-sized units that hold \<open>x\<close> bytes: the source's
  \<open>n = x / b; if (x % b) n += 1;\<close>.\<close>

definition div_up :: "nat \<Rightarrow> nat \<Rightarrow> nat" where
  "div_up x b = x div b + (if x mod b \<noteq> 0 then 1 else 0)"

lemma div_up_mult [simp]: "0 < b \<Longrightarrow> div_up (k * b) b = k"
  by (simp add: div_up_def)

lemma div_up_0 [simp]: "div_up 0 b = 0"
  by (simp add: div_up_def)

lemma div_up_less: "0 < b \<Longrightarrow> i < div_up x b \<longleftrightarrow> i * b < x"
proof -
  assume b: "0 < b"
  have x: "x = x div b * b + x mod b" "x mod b < b" using b by simp_all
  show ?thesis
  proof (cases "x mod b = 0")
    case True
    then show ?thesis using b x by (simp add: div_up_def) (metis add_0_right mult_less_cancel2)
  next
    case False
    have "i * b < x \<longleftrightarrow> i \<le> x div b"
      using False b x
      by (metis add_lessD1 bot_nat_0.not_eq_extremum div_mult2_eq div_mult_self1_is_m
          less_add_eq_less less_eq_div_iff_mult_less_eq linorder_not_le nat_add_left_cancel_less
          nat_neq_iff order_le_less)
    then show ?thesis using False by (simp add: div_up_def less_Suc_eq_le)
  qed
qed

lemma div_up_ge: "0 < b \<Longrightarrow> x \<le> div_up x b * b"
  using div_up_less [of b "div_up x b" x] by simp

lemma div_up_le: "0 < b \<Longrightarrow> x \<le> k * b \<Longrightarrow> div_up x b \<le> k"
  using div_up_less [of b k x] by simp

lemma div_up_mono: "0 < b \<Longrightarrow> x \<le> y \<Longrightarrow> div_up x b \<le> div_up y b"
  using div_up_ge [of b y] by (intro div_up_le) simp_all

lemma div_up_block: "0 < k \<Longrightarrow> k \<le> b \<Longrightarrow> div_up (i * b + k) b = Suc i"
proof (rule antisym)
  assume k: "0 < k" "k \<le> b"
  then show "div_up (i * b + k) b \<le> Suc i" by (intro div_up_le) simp_all
  show "Suc i \<le> div_up (i * b + k) b" using div_up_less [of b i "i * b + k"] k by simp
qed

section \<open>Byte addressed memory\<close>

definition peek :: "(nat \<Rightarrow> 'a) \<Rightarrow> nat \<Rightarrow> nat \<Rightarrow> 'a list" where
  "peek f a n = map f [a..<a + n]"

definition poke :: "(nat \<Rightarrow> 'a) \<Rightarrow> nat \<Rightarrow> 'a list \<Rightarrow> nat \<Rightarrow> 'a" where
  "poke f a xs = (\<lambda>p. if a \<le> p \<and> p < a + length xs then xs ! (p - a) else f p)"

definition zeros :: "nat \<Rightarrow> byte list" where
  "zeros n = replicate n 0"

lemma length_peek [simp]: "length (peek f a n) = n"
  by (simp add: peek_def)

lemma nth_peek [simp]: "i < n \<Longrightarrow> peek f a n ! i = f (a + i)"
  by (simp add: peek_def)

lemma peek_0 [simp]: "peek f a 0 = []"
  by (simp add: peek_def)

lemma peek_append: "peek f a m @ peek f (a + m) n = peek f a (m + n)"
  by (rule nth_equalityI) (auto simp: nth_append)

lemma take_peek: "take k (peek f a n) = peek f a (min k n)"
  by (rule nth_equalityI) simp_all

lemma drop_peek: "drop k (peek f a n) = peek f (a + k) (n - k)"
  by (rule nth_equalityI) (simp_all add: add.assoc)

lemma peek_cong: "(\<And>p. a \<le> p \<Longrightarrow> p < a + n \<Longrightarrow> f p = g p) \<Longrightarrow> peek f a n = peek g a n"
  by (simp add: peek_def)

lemma peek_eq_iff: "peek f a n = peek g b n \<longleftrightarrow> (\<forall>i<n. f (a + i) = g (b + i))"
  by (auto simp: list_eq_iff_nth_eq)

lemma length_zeros [simp]: "length (zeros n) = n"
  by (simp add: zeros_def)

lemma nth_zeros [simp]: "i < n \<Longrightarrow> zeros n ! i = 0"
  by (simp add: zeros_def)

lemma peek_zero: "(\<And>p. a \<le> p \<Longrightarrow> p < a + n \<Longrightarrow> f p = 0) \<Longrightarrow> peek f a n = zeros n"
  by (rule nth_equalityI) simp_all

lemma poke_Nil [simp]: "poke f a [] = f"
  by (auto simp: poke_def fun_eq_iff)

lemma poke_in [mem_simps]: "a \<le> p \<Longrightarrow> p < a + length xs \<Longrightarrow> poke f a xs p = xs ! (p - a)"
  by (simp add: poke_def)

lemma poke_out [mem_simps]: "p < a \<or> a + length xs \<le> p \<Longrightarrow> poke f a xs p = f p"
  by (auto simp: poke_def)

lemma poke_append: "poke f a (xs @ ys) = poke (poke f a xs) (a + length xs) ys"
  by (auto simp: poke_def fun_eq_iff nth_append)

lemma peek_poke_same [simp]: "peek (poke f a xs) a (length xs) = xs"
  by (rule nth_equalityI) (simp_all add: poke_def)

lemma peek_poke_other:
  "a + n \<le> b \<or> b + length xs \<le> a \<Longrightarrow> peek (poke f b xs) a n = peek f a n"
  by (rule peek_cong) (auto simp: poke_def)

lemma poke_peek_self [simp]: "poke f a (peek f a n) = f"
  by (auto simp: poke_def fun_eq_iff)

section \<open>Little endian numbers\<close>

text \<open>The bytes of a 16 or 32 bit number as \<open>htole16\<close> and \<open>htole32\<close> lay them out, and their readers.\<close>

definition le16_bytes :: "nat \<Rightarrow> byte list" where
  "le16_bytes x = [of_nat x, of_nat (x div 2 ^ 8)]"

definition le32_bytes :: "nat \<Rightarrow> byte list" where
  "le32_bytes x = [of_nat x, of_nat (x div 2 ^ 8), of_nat (x div 2 ^ 16), of_nat (x div 2 ^ 24)]"

definition le16 :: "byte list \<Rightarrow> nat" where
  "le16 bs = unat (bs ! 0) + unat (bs ! 1) * 2 ^ 8"

definition le32 :: "byte list \<Rightarrow> nat" where
  "le32 bs = unat (bs ! 0) + unat (bs ! 1) * 2 ^ 8 + unat (bs ! 2) * 2 ^ 16 + unat (bs ! 3) * 2 ^ 24"

lemma unat_of_nat_byte: "unat (of_nat x :: byte) = x mod 256"
  by (simp add: unat_of_nat)

lemma le32_le32_bytes: "x < 2 ^ 32 \<Longrightarrow> le32 (le32_bytes x @ rest) = x"
proof -
  assume x: "x < 2 ^ 32"
  have q: "x div 2 ^ 24 < 256" using x by (simp add: div_less_iff_less_mult)
  have "x = x mod 256 + (x div 2 ^ 8 mod 256) * 2 ^ 8 + (x div 2 ^ 16 mod 256) * 2 ^ 16 + x div 2 ^ 24 * 2 ^ 24"
  proof -
    have "x = x mod 2 ^ 8 + x div 2 ^ 8 * 2 ^ 8" by simp
    also have "x div 2 ^ 8 = x div 2 ^ 8 mod 2 ^ 8 + x div 2 ^ 16 * 2 ^ 8" using div_mult2_eq [of x "2 ^ 8" "2 ^ 8"] by simp
    also have "x div 2 ^ 16 = x div 2 ^ 16 mod 2 ^ 8 + x div 2 ^ 24 * 2 ^ 8" using div_mult2_eq [of x "2 ^ 16" "2 ^ 8"] by simp
    finally show ?thesis by (simp add: algebra_simps)
  qed
  then show ?thesis using q by (simp add: le32_def le32_bytes_def unat_of_nat_byte)
qed

lemma le16_le16_bytes: "x < 2 ^ 16 \<Longrightarrow> le16 (le16_bytes x @ rest) = x"
  using div_less_iff_less_mult [of 256 x 256] by (simp add: le16_def le16_bytes_def unat_of_nat_byte)

lemma length_le_bytes [simp]: "length (le16_bytes x) = 2" "length (le32_bytes x) = 4"
  by (simp_all add: le16_bytes_def le32_bytes_def)

end
