(* ===== verification/Util.thy ===== *)
theory Util
  imports Prelude
begin

text \<open>
  libutil: \<open>lib/util/is_memory_zero.c\<close>, \<open>read_retry.c\<close> and \<open>write_retry.c\<close>.

  Process memory is a function from addresses to bytes, so that the alignment prologue of
  \<open>is_memory_zero\<close> is modelled. A Unix file is a record of its bytes and of a schedule of
  how the coming \<open>pread\<close>/\<open>pwrite\<close> calls behave: interrupted, short, failing, stalled (0 bytes) or,
  once the schedule is empty, complete. The retry loops are shown to mask every benign
  schedule and to return the failure of every other one.
\<close>

section \<open>Testing a memory region for zero\<close>

fun test_u8 :: "(nat \<Rightarrow> byte) \<Rightarrow> nat \<Rightarrow> nat \<Rightarrow> bool" where
  "test_u8 mem blob 0 = True"
| "test_u8 mem blob (Suc sz) = (if mem blob \<noteq> 0 then False else test_u8 mem (blob + 1) sz)"

text \<open>An aligned 64 bit load (little endian).\<close>

definition load64 :: "(nat \<Rightarrow> byte) \<Rightarrow> nat \<Rightarrow> nat" where
  "load64 mem p = foldr (\<lambda>i acc. unat (mem (p + i)) + 256 * acc) [0..<8] 0"

function test_u64 :: "(nat \<Rightarrow> byte) \<Rightarrow> nat \<Rightarrow> nat \<Rightarrow> bool" where
  "test_u64 mem u64ptr sz =
     (if 8 \<le> sz
      then (if load64 mem u64ptr \<noteq> 0 then False else test_u64 mem (u64ptr + 8) (sz - 8))
      else test_u8 mem u64ptr sz)"
  by pat_completeness auto
termination
  by (relation "measure (\<lambda>(mem, p, sz). sz)") auto

declare test_u64.simps [simp del]

definition U64THRESHOLD :: nat where
  "U64THRESHOLD = 128"

definition is_memory_zero :: "(nat \<Rightarrow> byte) \<Rightarrow> nat \<Rightarrow> nat \<Rightarrow> bool" where
  "is_memory_zero mem blob sz =
     (if sz < U64THRESHOLD then test_u8 mem blob sz
      else let diff = blob mod 8 in
        if diff \<noteq> 0
        then (let diff' = 8 - diff in
              if \<not> test_u8 mem blob diff' then False
              else test_u64 mem (blob + diff') (sz - diff'))
        else test_u64 mem blob sz)"

text \<open>The call \<open>is_memory_zero(data, size)\<close> on a buffer held as a byte list. The address of the
  buffer does not matter (\<open>is_memory_zero_iff\<close>), so the list is placed at address 0.\<close>

definition buffer_is_zero :: "byte list \<Rightarrow> nat \<Rightarrow> bool" where
  "buffer_is_zero data sz = is_memory_zero (\<lambda>i. data ! i) 0 sz"

section \<open>Unix files\<close>

datatype io_event = Intr | Failing | Stall | Short nat

datatype 'a sysret = RIntr | RErr | RVal 'a

record osfile =
  fbytes :: "byte list"
  sched :: "io_event list"

definition fbyte :: "osfile \<Rightarrow> nat \<Rightarrow> byte" where
  "fbyte f p = (if p < length (fbytes f) then fbytes f ! p else 0)"

text \<open>How many of \<open>n\<close> requested bytes the next call transfers, and what is left of the
  schedule. \<^term>\<open>RVal m\<close> with \<open>m < n\<close> is a short transfer; offsets that are negative as
  \<open>off_t\<close> are refused.\<close>

definition os_next :: "osfile \<Rightarrow> nat \<Rightarrow> nat \<Rightarrow> nat sysret \<times> osfile" where
  "os_next f off n =
     (if 2 ^ 63 \<le> off then (RErr, f)
      else case sched f of
        [] \<Rightarrow> (RVal n, f)
      | e # es \<Rightarrow>
          (case e of Intr \<Rightarrow> RIntr | Failing \<Rightarrow> RErr | Stall \<Rightarrow> RVal 0 | Short k \<Rightarrow> RVal (min n (Suc k)),
           f\<lparr>sched := es\<rparr>))"

definition os_pread :: "osfile \<Rightarrow> nat \<Rightarrow> nat \<Rightarrow> byte list sysret \<times> osfile" where
  "os_pread f off n =
     (case os_next f off n of
        (RIntr, f') \<Rightarrow> (RIntr, f')
      | (RErr, f') \<Rightarrow> (RErr, f')
      | (RVal m, f') \<Rightarrow> (RVal (take m (drop off (fbytes f))), f'))"

text \<open>Bytes written past the end of the file extend it; a gap reads as zero.\<close>

definition put_bytes :: "byte list \<Rightarrow> nat \<Rightarrow> byte list \<Rightarrow> byte list" where
  "put_bytes old off new =
     (if new = [] then old
      else take off old @ zeros (off - length old) @ new @ drop (off + length new) old)"

definition os_pwrite :: "osfile \<Rightarrow> nat \<Rightarrow> byte list \<Rightarrow> nat sysret \<times> osfile" where
  "os_pwrite f off data =
     (case os_next f off (length data) of
        (RIntr, f') \<Rightarrow> (RIntr, f')
      | (RErr, f') \<Rightarrow> (RErr, f')
      | (RVal m, f') \<Rightarrow> (RVal m, f'\<lparr>fbytes := put_bytes (fbytes f') off (take m data)\<rparr>))"

definition os_ftruncate :: "osfile \<Rightarrow> nat \<Rightarrow> osfile" where
  "os_ftruncate f n = f\<lparr>fbytes := take n (fbytes f) @ zeros (n - length (fbytes f))\<rparr>"

section \<open>The retry loops\<close>

lemma os_next_progress:
  "os_next f off n = (r, f') \<Longrightarrow>
     r = RErr \<or> r = RVal n \<or> length (sched f') < length (sched f)"
  by (auto simp: os_next_def split: if_splits list.splits io_event.splits)

lemma os_next_sched_le: "os_next f off n = (r, f') \<Longrightarrow> length (sched f') \<le> length (sched f)"
  by (auto simp: os_next_def split: if_splits list.splits io_event.splits)

lemma os_pread_len: "os_pread f off n = (RVal d, f') \<Longrightarrow> length (sched f') \<le> length (sched f)"
  by (auto simp: os_pread_def split: prod.splits sysret.splits dest: os_next_sched_le)

lemma os_pread_intr: "os_pread f off n = (RIntr, f') \<Longrightarrow> length (sched f') < length (sched f)"
  by (auto simp: os_pread_def split: prod.splits sysret.splits dest: os_next_progress)

lemma os_pwrite_len: "os_pwrite f off d = (RVal m, f') \<Longrightarrow> length (sched f') \<le> length (sched f)"
  by (auto simp: os_pwrite_def split: prod.splits sysret.splits dest: os_next_sched_le)

lemma os_pwrite_intr: "os_pwrite f off d = (RIntr, f') \<Longrightarrow> length (sched f') < length (sched f)"
  by (auto simp: os_pwrite_def split: prod.splits sysret.splits dest: os_next_progress)

function read_retry :: "osfile \<Rightarrow> nat \<Rightarrow> nat \<Rightarrow> (byte list, osfile) io" where
  "read_retry f offset sz =
     (if sz = 0 then (Some [], f)
      else case os_pread f offset sz of
        (RIntr, f') \<Rightarrow> read_retry f' offset sz
      | (RErr, f') \<Rightarrow> (None, f')
      | (RVal d, f') \<Rightarrow>
          (if d = [] then (None, f')
           else case read_retry f' (offset + length d) (sz - length d) of
               (None, f'') \<Rightarrow> (None, f'')
             | (Some ds, f'') \<Rightarrow> (Some (d @ ds), f'')))"
  by pat_completeness auto
termination
  by (relation "measure (\<lambda>(f, off, sz). sz + length (sched f))")
    (auto dest: os_pread_intr os_pread_len [OF sym] os_pread_intr [OF sym] intro: add_less_le_mono)

function write_retry :: "osfile \<Rightarrow> nat \<Rightarrow> byte list \<Rightarrow> (unit, osfile) io" where
  "write_retry f offset data =
     (if data = [] then (Some (), f)
      else case os_pwrite f offset data of
        (RIntr, f') \<Rightarrow> write_retry f' offset data
      | (RErr, f') \<Rightarrow> (None, f')
      | (RVal m, f') \<Rightarrow>
          (if m = 0 then (None, f')
           else write_retry f' (offset + m) (drop m data)))"
  by pat_completeness auto
termination
  by (relation "measure (\<lambda>(f, off, data). length data + length (sched f))")
    (auto dest: os_pwrite_len [OF sym] os_pwrite_intr [OF sym] intro: add_less_le_mono)

declare read_retry.simps [simp del]
declare write_retry.simps [simp del]

section \<open>Correctness of the zero test\<close>

lemma test_u8_iff: "test_u8 mem p n \<longleftrightarrow> (\<forall>i<n. mem (p + i) = 0)"
proof (induction n arbitrary: p)
  case (Suc n)
  show ?case
    using Suc.IH [of "p + 1"] by (auto simp: less_Suc_eq_0_disj)
qed simp

lemma foldr_bytes_eq_0:
  "foldr (\<lambda>i acc. unat (mem (p + i)) + 256 * acc) is 0 = 0 \<longleftrightarrow> (\<forall>i\<in>set is. (mem (p + i) :: byte) = 0)"
  by (induction "is") (simp_all add: unat_eq_zero)

lemma load64_eq_0_iff: "load64 mem p = 0 \<longleftrightarrow> (\<forall>i<8. mem (p + i) = 0)"
  by (simp only: load64_def foldr_bytes_eq_0) auto

lemma all_less_split: "m \<le> n \<Longrightarrow> (\<forall>i<m. P i) \<and> (\<forall>i<n - m. P (m + i)) \<longleftrightarrow> (\<forall>i<(n::nat). P i)"
  by (metis add_diff_inverse_nat less_diff_conv2 linorder_not_less nat_add_left_cancel_less
      order_less_le_trans)

lemma test_u64_iff: "test_u64 mem p n \<longleftrightarrow> (\<forall>i<n. mem (p + i) = 0)"
proof (induction mem p n rule: test_u64.induct)
  case (1 mem p n)
  show ?case
  proof (cases "8 \<le> n")
    case True
    then show ?thesis
      using "1.IH" all_less_split [OF True, of "\<lambda>i. mem (p + i) = 0"]
      by (subst test_u64.simps) (auto simp: load64_eq_0_iff add.assoc)
  next
    case False
    then show ?thesis by (subst test_u64.simps) (simp add: test_u8_iff)
  qed
qed

lemma is_memory_zero_spec: "is_memory_zero mem p n \<longleftrightarrow> (\<forall>i<n. mem (p + i) = 0)"
proof (cases "n < U64THRESHOLD \<or> p mod 8 = 0")
  case True
  then show ?thesis by (auto simp: is_memory_zero_def test_u8_iff test_u64_iff)
next
  case False
  then have "8 - p mod 8 \<le> n" unfolding U64THRESHOLD_def by linarith
  from all_less_split [OF this, of "\<lambda>i. mem (p + i) = 0"] False show ?thesis
    by (auto simp: is_memory_zero_def test_u8_iff test_u64_iff Let_def add.assoc)
qed

lemma buffer_is_zero_iff: "buffer_is_zero data n \<longleftrightarrow> (\<forall>i<n. data ! i = 0)"
  by (simp add: buffer_is_zero_def is_memory_zero_spec)

lemma buffer_is_zero_zeros: "buffer_is_zero data (length data) \<Longrightarrow> data = zeros (length data)"
  by (rule nth_equalityI) (simp_all add: buffer_is_zero_iff)

section \<open>Correctness of the retry loops\<close>

definition benign :: "osfile \<Rightarrow> bool" where
  "benign f \<longleftrightarrow> (\<forall>e\<in>set (sched f). e \<noteq> Failing \<and> e \<noteq> Stall)"

lemma os_next_fbytes: "os_next f off n = (r, f') \<Longrightarrow> fbytes f' = fbytes f"
  by (auto simp: os_next_def split: if_splits list.splits)

lemma os_next_benign:
  assumes "benign f" "off < 2 ^ 63" "0 < n" "os_next f off n = (r, f')"
  shows "benign f' \<and> (r = RIntr \<or> (\<exists>m. r = RVal m \<and> 0 < m \<and> m \<le> n))"
proof (cases "sched f")
  case Nil
  then show ?thesis using assms by (auto simp: os_next_def)
next
  case (Cons e es)
  then show ?thesis using assms by (cases e) (auto simp: os_next_def benign_def)
qed

lemma length_put_bytes [simp]:
  "length (put_bytes old off new) =
     (if new = [] then length old else max (length old) (off + length new))"
  by (auto simp: put_bytes_def)

lemma nth_put_bytes:
  assumes "p < length (put_bytes old off new)"
  shows "put_bytes old off new ! p =
     (if off \<le> p \<and> p < off + length new then new ! (p - off)
      else if p < length old then old ! p else 0)"
proof (cases "new = []")
  case True
  then show ?thesis using assms by (auto simp: put_bytes_def)
next
  case False
  consider "p < off" | "off \<le> p" "p < off + length new" | "off + length new \<le> p" by linarith
  then show ?thesis
  proof cases
    case 1
    then show ?thesis using False
      by (cases "p < length old") (auto simp: put_bytes_def nth_append)
  next
    case 2
    then show ?thesis using False
      by (auto simp: put_bytes_def nth_append min_def)
  next
    case 3
    then show ?thesis using False assms
      by (auto simp: put_bytes_def nth_append split: if_splits intro!: arg_cong [where f = "(!) old"])
  qed
qed

lemma fbyte_cong: "fbytes g = fbytes f \<Longrightarrow> fbyte g = fbyte f"
  by (auto simp: fbyte_def)

lemma fbyte_put_bytes: "fbyte (f\<lparr>fbytes := put_bytes (fbytes f) off d\<rparr>) p = poke (fbyte f) off d p"
proof (cases "p < length (put_bytes (fbytes f) off d)")
  case True
  then show ?thesis by (simp add: fbyte_def poke_def nth_put_bytes)
next
  case False
  then show ?thesis by (cases "d = []") (auto simp: fbyte_def poke_def)
qed

lemma put_bytes_append:
  assumes "0 < m" "m \<le> length d"
  shows "put_bytes (put_bytes old off (take m d)) (off + m) (drop m d) = put_bytes old off d"
proof (rule nth_equalityI)
  have d: "d \<noteq> []" and t: "take m d \<noteq> []" using assms by auto
  show len: "length (put_bytes (put_bytes old off (take m d)) (off + m) (drop m d))
      = length (put_bytes old off d)"
    using assms d t by auto
  fix p assume p: "p < length (put_bytes (put_bytes old off (take m d)) (off + m) (drop m d))"
  then have "p < length (put_bytes old off d)" using len by simp
  then show "put_bytes (put_bytes old off (take m d)) (off + m) (drop m d) ! p = put_bytes old off d ! p"
    using p assms by (auto simp: nth_put_bytes split: if_splits)
qed

text \<open>Whatever the kernel does, a successful read delivers the bytes of the file and a read
  never changes the file.\<close>

lemma read_retry_sound:
  "read_retry f off n = (r, f') \<Longrightarrow>
     fbytes f' = fbytes f \<and> (\<forall>d. r = Some d \<longrightarrow> off + n \<le> max off (length (fbytes f)) \<and> d = peek (fbyte f) off n)"
proof (induction f off n arbitrary: r f' rule: read_retry.induct)
  case (1 f off n)
  show ?case
  proof (cases "n = 0")
    case True
    then show ?thesis using "1.prems" by (subst (asm) read_retry.simps) auto
  next
    case False
    obtain q g where q: "os_pread f off n = (q, g)" by fastforce
    then have g: "fbytes g = fbytes f"
      by (auto simp: os_pread_def split: prod.splits sysret.splits dest: os_next_fbytes)
    show ?thesis
    proof (cases q)
      case RIntr
      with "1.prems" False q have "read_retry g off n = (r, f')"
        by (subst (asm) read_retry.simps) simp
      from "1.IH"(1) [OF False q [symmetric] RIntr this] show ?thesis
        by (simp add: g fbyte_cong [OF g])
    next
      case RErr
      with "1.prems" False q g show ?thesis by (subst (asm) read_retry.simps) simp
    next
      case (RVal d)
      from q RVal obtain m where d: "d = take m (drop off (fbytes f))"
        by (auto simp: os_pread_def split: prod.splits sysret.splits)
      then have dl: "off + length d \<le> max off (length (fbytes f))" by auto
      have dn: "length d \<le> n"
        using q RVal by (auto simp: os_pread_def os_next_def split: prod.splits sysret.splits
            if_splits list.splits io_event.splits)
      have ds: "d = peek (fbyte f) off (length d)"
        by (rule nth_equalityI) (auto simp: d fbyte_def)
      show ?thesis
      proof (cases "d = []")
        case True
        with "1.prems" False q g RVal show ?thesis by (subst (asm) read_retry.simps) simp
      next
        case d0: False
        obtain s h where s: "read_retry g (off + length d) (n - length d) = (s, h)" by fastforce
        from "1.IH"(2) [OF False q [symmetric] RVal d0 this]
        have ih: "fbytes h = fbytes g" "\<And>e. s = Some e \<Longrightarrow>
            off + length d + (n - length d) \<le> max (off + length d) (length (fbytes g)) \<and>
            e = peek (fbyte g) (off + length d) (n - length d)"
          by auto
        have rf: "f' = h" "r = (case s of None \<Rightarrow> None | Some e \<Rightarrow> Some (d @ e))"
          using "1.prems" False q RVal d0 s
          by (subst (asm) read_retry.simps; auto split: option.splits)+
        show ?thesis
        proof (intro conjI allI impI)
          show "fbytes f' = fbytes f" using ih(1) rf g by simp
          fix e assume "r = Some e"
          with rf obtain e' where e': "s = Some e'" "e = d @ e'" by (auto split: option.splits)
          with ih(2) [OF e'(1)] dn dl g
          show "off + n \<le> max off (length (fbytes f))" by auto
          have "fbyte g = fbyte f" using g by (rule fbyte_cong)
          then show "e = peek (fbyte f) off n"
            using ih(2) [OF e'(1)] e'(2) ds dn peek_append [of "fbyte f" off "length d" "n - length d"]
            by simp
        qed
      qed
    qed
  qed
qed

text \<open>Interrupts and short transfers alone never make a request fail.\<close>

lemma os_pread_benign:
  assumes "benign f" "off < 2 ^ 63" "0 < n" "os_pread f off n = (r, f')"
  shows "benign f' \<and> fbytes f' = fbytes f \<and>
     (r = RIntr \<or> (\<exists>m. r = RVal (take m (drop off (fbytes f))) \<and> 0 < m \<and> m \<le> n))"
  using assms os_next_benign [OF assms(1-3)] os_next_fbytes
  by (auto simp: os_pread_def split: prod.splits sysret.splits)

lemma read_retry_benign:
  "benign f \<Longrightarrow> off + n \<le> length (fbytes f) \<Longrightarrow> length (fbytes f) \<le> 2 ^ 63 \<Longrightarrow>
     \<exists>f'. read_retry f off n = (Some (peek (fbyte f) off n), f') \<and> fbytes f' = fbytes f \<and> benign f'"
proof (induction f off n rule: read_retry.induct)
  case (1 f off n)
  show ?case
  proof (cases "n = 0")
    case True
    then show ?thesis using "1.prems" by (subst read_retry.simps) simp
  next
    case False
    obtain q g where q: "os_pread f off n = (q, g)" by fastforce
    have off: "off < 2 ^ 63" using "1.prems" False by linarith
    from os_pread_benign [OF "1.prems"(1) off _ q] False
    have g: "benign g" "fbytes g = fbytes f" and
      q': "q = RIntr \<or> (\<exists>m. q = RVal (take m (drop off (fbytes f))) \<and> 0 < m \<and> m \<le> n)"
      by simp_all
    from q' show ?thesis
    proof (elim disjE exE conjE)
      assume "q = RIntr"
      with "1.IH"(1) [OF False q [symmetric]] "1.prems" g q False fbyte_cong [OF g(2)]
      show ?thesis by (subst read_retry.simps) simp
    next
      fix m assume m: "q = RVal (take m (drop off (fbytes f)))" "0 < m" "m \<le> n"
      let ?d = "take m (drop off (fbytes f))"
      have d: "length ?d = m" using m "1.prems" by auto
      have "?d \<noteq> []" using d m(2) by (metis length_0_conv less_numeral_extra(3))
      from "1.IH"(2) [OF False q [symmetric] m(1) this] "1.prems" g d m(3)
      obtain h where h: "read_retry g (off + m) (n - m) = (Some (peek (fbyte g) (off + m) (n - m)), h)"
        "fbytes h = fbytes g" "benign h"
        by auto
      have "?d = peek (fbyte f) off m"
        using d by (intro nth_equalityI) (auto simp: fbyte_def)
      then have "?d @ peek (fbyte g) (off + m) (n - m) = peek (fbyte f) off n"
        using peek_append [of "fbyte f" off m "n - m"] m(3) fbyte_cong [OF g(2)] by simp
      with h g q m False d \<open>?d \<noteq> []\<close> show ?thesis by (subst read_retry.simps) simp
    qed
  qed
qed

lemma os_pwrite_benign:
  assumes "benign f" "off < 2 ^ 63" "d \<noteq> []" "os_pwrite f off d = (r, f')"
  shows "benign f' \<and>
     ((r = RIntr \<and> fbytes f' = fbytes f) \<or>
      (\<exists>m. r = RVal m \<and> 0 < m \<and> m \<le> length d \<and> fbytes f' = put_bytes (fbytes f) off (take m d)))"
proof -
  obtain q g where q: "os_next f off (length d) = (q, g)" by fastforce
  have "fbytes g = fbytes f" using q by (rule os_next_fbytes)
  with assms os_next_benign [OF assms(1,2) _ q] q show ?thesis
    by (cases q) (auto simp: os_pwrite_def benign_def)
qed

lemma write_retry_benign:
  "benign f \<Longrightarrow> off + length d \<le> 2 ^ 63 \<Longrightarrow>
     \<exists>f'. write_retry f off d = (Some (), f') \<and> fbytes f' = put_bytes (fbytes f) off d \<and> benign f'"
proof (induction f off d rule: write_retry.induct)
  case (1 f off d)
  show ?case
  proof (cases "d = []")
    case True
    then show ?thesis using "1.prems" by (subst write_retry.simps) (simp add: put_bytes_def)
  next
    case False
    obtain q g where q: "os_pwrite f off d = (q, g)" by fastforce
    have "0 < length d" using False by simp
    then have off: "off < 2 ^ 63" using "1.prems"(2) by linarith
    from os_pwrite_benign [OF "1.prems"(1) off False q]
    have g: "benign g" and
      q': "q = RIntr \<and> fbytes g = fbytes f \<or>
        (\<exists>m. q = RVal m \<and> 0 < m \<and> m \<le> length d \<and> fbytes g = put_bytes (fbytes f) off (take m d))"
      by simp_all
    from q' show ?thesis
    proof (elim disjE exE conjE)
      assume "q = RIntr" "fbytes g = fbytes f"
      with "1.IH"(1) [OF False q [symmetric]] "1.prems" g q False
      show ?thesis by (subst write_retry.simps) simp
    next
      fix m assume m: "q = RVal m" "0 < m" "m \<le> length d"
        and gm: "fbytes g = put_bytes (fbytes f) off (take m d)"
      have "m \<noteq> 0" using m(2) by simp
      from "1.IH"(2) [OF False q [symmetric] m(1) this] "1.prems" g m(3)
      obtain h where "write_retry g (off + m) (drop m d) = (Some (), h)" "benign h"
        "fbytes h = put_bytes (fbytes g) (off + m) (drop m d)"
        by auto
      with q m False gm put_bytes_append [OF m(2,3)] show ?thesis
        by (subst write_retry.simps) simp
    qed
  qed
qed

lemma fbyte_write_retry:
  "fbytes f' = put_bytes (fbytes f) off d \<Longrightarrow> fbyte f' = poke (fbyte f) off d"
  using fbyte_cong [of f' "f\<lparr>fbytes := put_bytes (fbytes f) off d\<rparr>"]
  by (auto simp: fbyte_put_bytes)

lemma fbyte_ftruncate: "fbyte (os_ftruncate f n) p = (if p < n then fbyte f p else 0)"
  by (auto simp: os_ftruncate_def fbyte_def nth_append)

lemma length_ftruncate [simp]: "length (fbytes (os_ftruncate f n)) = n"
  by (simp add: os_ftruncate_def)

lemma benign_ftruncate [simp]: "benign (os_ftruncate f n) = benign f"
  by (simp add: os_ftruncate_def benign_def)

end
