(* ===== verification/Volume.thy ===== *)
theory Volume
  imports Util
begin

text \<open>
  libimage: the block device abstraction \<open>volume_t\<close> (\<open>include/volume.h\<close>) and the byte
  oriented helpers on top of it: \<open>volume_read.c\<close>, \<open>volume_write.c\<close>, \<open>volume_memmove.c\<close> and
  \<open>volume_ostream.c\<close>.

  \<open>volume_t\<close> is a structure of function pointers; the model is a record of functions over
  the state type \<open>'v\<close> of the implementation. A \<open>NULL\<close> buffer is \<^const>\<open>None\<close>.

  The locale \<open>volume\<close> is the contract of the interface, over a \<open>view\<close> of the device:
  \<^item> \<open>vblocks\<close>, how many blocks the device may have,
  \<^item> \<open>content\<close>, the bytes of the device (a byte never written is 0),
  \<^item> \<open>readable\<close>, the bytes at which a read may start and whose block may be moved once all of
    them are readable: an implementation may refuse the part of a block behind a partial
    write, and
  \<^item> \<open>solid\<close>, the bytes that stay readable when their block is partially overwritten.
  The helpers are proved correct once, against this contract.
\<close>

record 'v volume =
  blocksize :: nat
  get_min_block_count :: "'v \<Rightarrow> nat"
  get_max_block_count :: "'v \<Rightarrow> nat"
  get_block_count :: "'v \<Rightarrow> nat"
  vol_truncate :: "'v \<Rightarrow> nat \<Rightarrow> (unit, 'v) io"
  read_block :: "'v \<Rightarrow> nat \<Rightarrow> (byte list, 'v) io"
  read_partial_block :: "'v \<Rightarrow> nat \<Rightarrow> nat \<Rightarrow> nat \<Rightarrow> (byte list, 'v) io"
  write_block :: "'v \<Rightarrow> nat \<Rightarrow> byte list option \<Rightarrow> (unit, 'v) io"
  write_partial_block :: "'v \<Rightarrow> nat \<Rightarrow> byte list option \<Rightarrow> nat \<Rightarrow> nat \<Rightarrow> (unit, 'v) io"
  move_block :: "'v \<Rightarrow> nat \<Rightarrow> nat \<Rightarrow> (unit, 'v) io"
  move_block_partial :: "'v \<Rightarrow> nat \<Rightarrow> nat \<Rightarrow> nat \<Rightarrow> nat \<Rightarrow> nat \<Rightarrow> (unit, 'v) io"
  discard_blocks :: "'v \<Rightarrow> nat \<Rightarrow> nat \<Rightarrow> (unit, 'v) io"
  vol_commit :: "'v \<Rightarrow> (unit, 'v) io"

section \<open>Byte oriented helpers\<close>

text \<open>The loop of \<open>volume_read\<close>. A transfer of 0 bytes is only possible with a block size
  of 0, for which the source divides by zero before it reaches the loop.\<close>

function volume_read_loop ::
  "'v volume \<Rightarrow> 'v \<Rightarrow> nat \<Rightarrow> nat \<Rightarrow> nat \<Rightarrow> nat \<Rightarrow> (byte list, 'v) io" where
  "volume_read_loop vol v blk_index blk_offset blk_size sz =
     (if sz = 0 then (Some [], v)
      else let n = (if sz < blk_size then sz else blk_size)
      in if n = 0 then (None, v)
         else case (if blk_offset = 0 \<and> n = blocksize vol then read_block vol v blk_index
                    else read_partial_block vol v blk_index blk_offset n) of
             (None, v') \<Rightarrow> (None, v')
           | (Some d, v') \<Rightarrow>
               (case volume_read_loop vol v' (add64 blk_index 1) 0 (blocksize vol) (sz - n) of
                  (None, v'') \<Rightarrow> (None, v'')
                | (Some ds, v'') \<Rightarrow> (Some (d @ ds), v'')))"
  by pat_completeness auto
termination
  by (relation "measure (\<lambda>(vol, v, i, off, n, sz). sz)") (auto split: if_splits)

declare volume_read_loop.simps [simp del]

definition volume_read :: "'v volume \<Rightarrow> 'v \<Rightarrow> nat \<Rightarrow> nat \<Rightarrow> (byte list, 'v) io" where
  "volume_read vol v offset sz =
     (let blk_index = offset div blocksize vol;
          blk_offset = offset mod blocksize vol;
          blk_size = blocksize vol - blk_offset
      in volume_read_loop vol v blk_index blk_offset blk_size sz)"

function volume_write_loop ::
  "'v volume \<Rightarrow> 'v \<Rightarrow> nat \<Rightarrow> nat \<Rightarrow> nat \<Rightarrow> byte list option \<Rightarrow> nat \<Rightarrow> (unit, 'v) io" where
  "volume_write_loop vol v blk_index blk_offset blk_size data sz =
     (if sz = 0 then (Some (), v)
      else let n = (if sz < blk_size then sz else blk_size)
      in if n = 0 then (None, v)
         else case (if blk_offset = 0 \<and> n = blocksize vol
                    then (if data = None \<or> buffer_is_zero (the data) n
                          then discard_blocks vol v blk_index 1
                          else write_block vol v blk_index (map_option (take n) data))
                    else write_partial_block vol v blk_index (map_option (take n) data) blk_offset n) of
             (None, v') \<Rightarrow> (None, v')
           | (Some _, v') \<Rightarrow>
               volume_write_loop vol v' (add64 blk_index 1) 0 (blocksize vol)
                 (map_option (drop n) data) (sz - n))"
  by pat_completeness auto
termination
  by (relation "measure (\<lambda>(vol, v, i, off, n, d, sz). sz)") (auto split: if_splits)

declare volume_write_loop.simps [simp del]

definition volume_write :: "'v volume \<Rightarrow> 'v \<Rightarrow> nat \<Rightarrow> byte list option \<Rightarrow> nat \<Rightarrow> (unit, 'v) io" where
  "volume_write vol v offset data sz =
     (let blk_index = offset div blocksize vol;
          blk_offset = offset mod blocksize vol;
          blk_size = blocksize vol - blk_offset
      in volume_write_loop vol v blk_index blk_offset blk_size data sz)"

text \<open>\<open>copy_forward\<close> and \<open>copy_backward\<close>: the transfer unit is what fits into both the
  source and the destination block.\<close>

function copy_forward :: "'v volume \<Rightarrow> 'v \<Rightarrow> nat \<Rightarrow> nat \<Rightarrow> nat \<Rightarrow> (unit, 'v) io" where
  "copy_forward vol v dst src sz =
     (if sz = 0 then (Some (), v)
      else let src_idx = src div blocksize vol;
               src_offset = src mod blocksize vol;
               src_diff = blocksize vol - src_offset;
               dst_idx = dst div blocksize vol;
               dst_offset = dst mod blocksize vol;
               dst_diff = blocksize vol - dst_offset;
               diff0 = (if src_diff < dst_diff then src_diff else dst_diff);
               diff = (if sz < diff0 then sz else diff0)
      in if diff = 0 then (None, v)
         else case (if src_offset = 0 \<and> dst_offset = 0 \<and> diff = blocksize vol
                    then move_block vol v src_idx dst_idx
                    else move_block_partial vol v src_idx dst_idx src_offset dst_offset diff) of
             (None, v') \<Rightarrow> (None, v')
           | (Some _, v') \<Rightarrow> copy_forward vol v' (add64 dst diff) (add64 src diff) (sz - diff))"
  by pat_completeness auto
termination
  by (relation "measure (\<lambda>(vol, v, dst, src, sz). sz)") (auto simp: Let_def split: if_splits)

declare copy_forward.simps [simp del]

text \<open>The loop of \<open>copy_backward\<close>; \<open>src\<close> and \<open>dst\<close> are the last bytes still to be moved.\<close>

function copy_backward_loop :: "'v volume \<Rightarrow> 'v \<Rightarrow> nat \<Rightarrow> nat \<Rightarrow> nat \<Rightarrow> (unit, 'v) io" where
  "copy_backward_loop vol v dst src sz =
     (if sz = 0 then (Some (), v)
      else let src_idx = src div blocksize vol;
               src_diff = src mod blocksize vol + 1;
               dst_idx = dst div blocksize vol;
               dst_diff = dst mod blocksize vol + 1;
               diff0 = (if dst_diff < src_diff then dst_diff else src_diff);
               diff = (if sz < diff0 then sz else diff0);
               src_offset = (if diff < src_diff then src_diff - diff else 0);
               dst_offset = (if diff < dst_diff then dst_diff - diff else 0)
      in case (if src_offset = 0 \<and> dst_offset = 0 \<and> diff = blocksize vol
               then move_block vol v src_idx dst_idx
               else move_block_partial vol v src_idx dst_idx src_offset dst_offset diff) of
             (None, v') \<Rightarrow> (None, v')
           | (Some _, v') \<Rightarrow> copy_backward_loop vol v' (sub64 dst diff) (sub64 src diff) (sz - diff))"
  by pat_completeness auto
termination
  by (relation "measure (\<lambda>(vol, v, dst, src, sz). sz)") (auto simp: Let_def split: if_splits)

declare copy_backward_loop.simps [simp del]

definition copy_backward :: "'v volume \<Rightarrow> 'v \<Rightarrow> nat \<Rightarrow> nat \<Rightarrow> nat \<Rightarrow> (unit, 'v) io" where
  "copy_backward vol v dst src sz =
     copy_backward_loop vol v (add64 dst (sz - 1)) (add64 src (sz - 1)) sz"

definition volume_memmove :: "'v volume \<Rightarrow> 'v \<Rightarrow> nat \<Rightarrow> nat \<Rightarrow> nat \<Rightarrow> (unit, 'v) io" where
  "volume_memmove vol v dst src sz =
     (if src = dst \<or> sz = 0 then (Some (), v)
      else if src < dst \<and> dst \<le> sub64 (add64 src sz) 1
           then copy_backward vol v dst src sz
           else copy_forward vol v dst src sz)"

section \<open>The volume as an output stream\<close>

text \<open>\<open>vol_ostream_t\<close>. The wrapped volume is part of the stream's state.\<close>

record 'v vol_ostream =
  wrapped :: 'v
  vs_offset :: nat
  written :: nat
  max_size :: nat

definition volume_ostream_create :: "'v \<Rightarrow> nat \<Rightarrow> nat \<Rightarrow> 'v vol_ostream" where
  "volume_ostream_create v offset max_sz =
     \<lparr>wrapped = v, vs_offset = offset, written = 0, max_size = max_sz\<rparr>"

definition vol_ostream_append ::
  "'v volume \<Rightarrow> 'v vol_ostream \<Rightarrow> byte list option \<Rightarrow> nat \<Rightarrow> (unit, 'v vol_ostream) io" where
  "vol_ostream_append vol s data sz =
     (if sz = 0 then (Some (), s)
      else if max_size s \<le> written s \<or> max_size s - written s < sz then (None, s)
      else case volume_write vol (wrapped s) (add64 (vs_offset s) (written s)) data sz of
          (None, v') \<Rightarrow> (None, s\<lparr>wrapped := v'\<rparr>)
        | (Some _, v') \<Rightarrow> (Some (), s\<lparr>wrapped := v', written := add64 (written s) sz\<rparr>))"

definition vol_ostream_append_sparse :: "'v volume \<Rightarrow> 'v vol_ostream \<Rightarrow> nat \<Rightarrow> (unit, 'v vol_ostream) io" where
  "vol_ostream_append_sparse vol s sz = vol_ostream_append vol s None sz"

definition vol_ostream_flush :: "'v vol_ostream \<Rightarrow> (unit, 'v vol_ostream) io" where
  "vol_ostream_flush s = (Some (), s)"

section \<open>The contract of a volume\<close>

record view =
  vblocks :: nat
  content :: "nat \<Rightarrow> byte"
  readable :: "nat \<Rightarrow> bool"
  solid :: "nat \<Rightarrow> bool"

text \<open>The effect of writing the bytes \<open>d\<close> at the offset \<open>off\<close>: everything from the start of the
  first block touched up to the end of the range is readable, and solid in the blocks that are
  only partially written; other blocks keep what they had.\<close>

definition wrote :: "nat \<Rightarrow> view \<Rightarrow> view \<Rightarrow> nat \<Rightarrow> byte list \<Rightarrow> bool" where
  "wrote bs w w' off d \<longleftrightarrow>
     vblocks w' = vblocks w \<and> content w' = poke (content w) off d \<and>
     (\<forall>p. off div bs * bs \<le> p \<and> p < off + length d \<longrightarrow> readable w' p) \<and>
     (\<forall>p. off div bs * bs \<le> p \<and> p < off + length d \<and>
        (p div bs = off div bs \<and> off mod bs \<noteq> 0 \<or> p div bs = (off + length d) div bs) \<longrightarrow> solid w' p) \<and>
     (\<forall>p. solid w p \<and> \<not> (off \<le> p \<and> p < off + length d) \<longrightarrow> solid w' p) \<and>
     (\<forall>p. readable w p \<and> (p < off div bs * bs \<or> div_up (off + length d) bs * bs \<le> p) \<longrightarrow> readable w' p)"

lemma wroteD:
  assumes "wrote bs w w' off d"
  shows wrote_blocks: "vblocks w' = vblocks w"
    and wrote_content: "content w' = poke (content w) off d"
    and wrote_readable: "off div bs * bs \<le> p \<Longrightarrow> p < off + length d \<Longrightarrow> readable w' p"
    and wrote_solid: "off div bs * bs \<le> p \<Longrightarrow> p < off + length d \<Longrightarrow>
        p div bs = off div bs \<and> off mod bs \<noteq> 0 \<or> p div bs = (off + length d) div bs \<Longrightarrow> solid w' p"
    and wrote_keeps_solid: "solid w p \<Longrightarrow> p < off \<or> off + length d \<le> p \<Longrightarrow> solid w' p"
    and wrote_keeps_readable: "readable w p \<Longrightarrow> p < off div bs * bs \<or> div_up (off + length d) bs * bs \<le> p \<Longrightarrow>
        readable w' p"
proof -
  note a = assms [unfolded wrote_def]
  show "vblocks w' = vblocks w" "content w' = poke (content w) off d" using a by blast+
  show "off div bs * bs \<le> p \<Longrightarrow> p < off + length d \<Longrightarrow> readable w' p" using a by blast
  show "off div bs * bs \<le> p \<Longrightarrow> p < off + length d \<Longrightarrow>
      p div bs = off div bs \<and> off mod bs \<noteq> 0 \<or> p div bs = (off + length d) div bs \<Longrightarrow> solid w' p"
    using a by blast
  show "solid w p \<Longrightarrow> p < off \<or> off + length d \<le> p \<Longrightarrow> solid w' p"
    using a by (meson leD)
  show "readable w p \<Longrightarrow> p < off div bs * bs \<or> div_up (off + length d) bs * bs \<le> p \<Longrightarrow> readable w' p"
    using a by blast
qed

lemma less_div_mult: "0 < bs \<Longrightarrow> p < k * bs \<longleftrightarrow> p div bs < (k :: nat)"
  by (simp add: div_less_iff_less_mult)

text \<open>Consecutive writes that meet at a block boundary are one write.\<close>

lemma wrote_trans:
  assumes bs: "0 < bs" and 1: "wrote bs w w1 off d1" and 2: "wrote bs w1 w2 (off + length d1) d2"
    and al: "(off + length d1) mod bs = 0" and ne: "d1 \<noteq> []"
  shows "wrote bs w w2 off (d1 @ d2)"
proof -
  let ?m = "off + length d1"
  let ?e = "off + length (d1 @ d2)"
  have m: "?m div bs * bs = ?m" using al by (metis add.right_neutral div_mult_mod_eq)
  have e: "?e = ?m + length d2" by simp
  have offm: "off < ?m" using ne by simp
  have blk: "q div bs < ?m div bs" if "q < ?m" for q
    using that m less_div_mult [OF bs] by metis
  have ge: "?m div bs \<le> q div bs" if "?m \<le> q" for q
    using that by (rule div_le_mono)
  show ?thesis
    unfolding wrote_def
  proof (intro conjI allI impI)
    show "vblocks w2 = vblocks w" using wrote_blocks [OF 1] wrote_blocks [OF 2] by simp
    show "content w2 = poke (content w) off (d1 @ d2)"
      using wrote_content [OF 1] wrote_content [OF 2] by (simp add: poke_append)
  next
    fix p assume p: "off div bs * bs \<le> p \<and> p < ?e"
    show "readable w2 p"
    proof (cases "p < ?m")
      case True
      then show ?thesis
        using p wrote_readable [OF 1] wrote_keeps_readable [OF 2] m by simp
    next
      case False
      then show ?thesis using p wrote_readable [OF 2, of p] m by simp
    qed
  next
    fix p assume p: "off div bs * bs \<le> p \<and> p < ?e \<and>
      (p div bs = off div bs \<and> off mod bs \<noteq> 0 \<or> p div bs = ?e div bs)"
    show "solid w2 p"
    proof (cases "p < ?m")
      case True
      with blk [of p] ge [of ?e] have "p div bs = off div bs \<and> off mod bs \<noteq> 0" using p by auto
      then have "solid w1 p" using wrote_solid [OF 1, of p] p True by blast
      then show ?thesis using wrote_keeps_solid [OF 2] True by blast
    next
      case False
      then have "p div bs = ?e div bs" using p ge [of p] blk [of off] offm by auto
      then show ?thesis using wrote_solid [OF 2, of p] p False m by (simp add: add.assoc)
    qed
  next
    fix p assume p: "solid w p \<and> \<not> (off \<le> p \<and> p < ?e)"
    then show "solid w2 p"
      using wrote_keeps_solid [OF 1, of p] wrote_keeps_solid [OF 2, of p] by auto
  next
    fix p assume p: "readable w p \<and> (p < off div bs * bs \<or> div_up ?e bs * bs \<le> p)"
    have "div_up ?m bs * bs \<le> div_up ?e bs * bs"
      using div_up_mono [OF bs, of ?m ?e] by simp
    moreover have "off div bs * bs \<le> ?m div bs * bs" using div_le_mono [of off ?m bs] by simp
    ultimately have "readable w1 p" "p < ?m div bs * bs \<or> div_up ?e bs * bs \<le> p"
      using p wrote_keeps_readable [OF 1, of p] by linarith+
    then show "readable w2 p" using wrote_keeps_readable [OF 2, of p] by (simp add: add.assoc)
  qed
qed

text \<open>The effect of moving \<open>n\<close> bytes from \<open>src\<close> to \<open>dst\<close>.\<close>

definition moved :: "view \<Rightarrow> view \<Rightarrow> nat \<Rightarrow> nat \<Rightarrow> nat \<Rightarrow> bool" where
  "moved w w' dst src n \<longleftrightarrow>
     vblocks w' = vblocks w \<and>
     content w' = poke (content w) dst (peek (content w) src n) \<and>
     (\<forall>k<n. readable w' (dst + k)) \<and>
     (\<forall>k<n. solid w (src + k) \<longrightarrow> solid w' (dst + k)) \<and>
     (\<forall>p. p < dst \<or> dst + n \<le> p \<longrightarrow> (readable w p \<longrightarrow> readable w' p) \<and> (solid w p \<longrightarrow> solid w' p))"

lemma moved_refl: "(\<forall>k<n. readable w (dst + k)) \<Longrightarrow> n = 0 \<or> dst = src \<Longrightarrow> moved w w dst src n"
  by (auto simp: moved_def)

lemma moved_append_forward:
  assumes 1: "moved w w1 dst src a" and 2: "moved w1 w2 (dst + a) (src + a) b"
    and no: "dst \<le> src \<or> src + a + b \<le> dst"
  shows "moved w w2 dst src (a + b)"
proof -
  have c: "content w1 (src + a + k) = content w (src + a + k)" if "k < b" for k
    using 1 no that by (auto simp: moved_def poke_def)
  have "peek (content w1) (src + a) b = peek (content w) (src + a) b"
    using c by (simp add: peek_eq_iff)
  then have "content w2 = poke (content w) dst (peek (content w) src a @ peek (content w) (src + a) b)"
    using 1 2 by (simp add: moved_def poke_append)
  then have "content w2 = poke (content w) dst (peek (content w) src (a + b))"
    by (simp add: peek_append)
  moreover have "readable w2 (dst + k)" if "k < a + b" for k
  proof (cases "k < a")
    case True
    then show ?thesis using 1 2 by (simp add: moved_def)
  next
    case False
    then have "k = a + (k - a)" "k - a < b" using that by auto
    then show ?thesis using 2 by (metis moved_def add.assoc)
  qed
  moreover have "solid w2 (dst + k)" if k: "k < a + b" "solid w (src + k)" for k
  proof (cases "k < a")
    case True
    then show ?thesis using 1 2 k by (simp add: moved_def)
  next
    case False
    then have e: "k = a + (k - a)" "k - a < b" using k by auto
    have "solid w1 (src + k)" using 1 k no False by (auto simp: moved_def)
    then show ?thesis using 2 e by (metis moved_def add.assoc)
  qed
  ultimately show ?thesis using 1 2 by (auto simp: moved_def)
qed

lemma moved_append_backward:
  assumes 1: "moved w w1 (dst + a) (src + a) b" and 2: "moved w1 w2 dst src a" and no: "src \<le> dst"
  shows "moved w w2 dst src (a + b)"
proof -
  have c: "content w1 (src + k) = content w (src + k)" if "k < a" for k
    using 1 no that by (auto simp: moved_def poke_def)
  have "content w2 p = poke (content w) dst (peek (content w) src (a + b)) p" for p
    using 1 2 c [of "p - dst"] by (auto simp: moved_def poke_def add.assoc)
  moreover have "readable w2 (dst + k)" if "k < a + b" for k
  proof (cases "k < a")
    case True
    then show ?thesis using 2 by (simp add: moved_def)
  next
    case False
    then have "k = a + (k - a)" "k - a < b" using that by auto
    then have "readable w1 (dst + k)" using 1 by (metis moved_def add.assoc)
    then show ?thesis using 2 False by (simp add: moved_def)
  qed
  moreover have "solid w2 (dst + k)" if k: "k < a + b" "solid w (src + k)" for k
  proof (cases "k < a")
    case True
    then show ?thesis using 1 2 k no by (simp add: moved_def)
  next
    case False
    then have e: "k = a + (k - a)" "k - a < b" using k by auto
    then have "solid w1 (dst + k)" using 1 k by (metis moved_def add.assoc)
    then show ?thesis using 2 False by (simp add: moved_def)
  qed
  ultimately show ?thesis using 1 2 by (auto simp: moved_def)
qed

lemma wrote_moved:
  assumes bs: "0 < bs" and w: "wrote bs w w' (dst * bs) (peek (content w) (src * bs) bs)"
    and s: "\<forall>k<bs. solid w (src * bs + k) \<longrightarrow> solid w' (dst * bs + k)"
  shows "moved w w' (dst * bs) (src * bs) bs"
proof -
  have "div_up (dst * bs + bs) bs * bs = dst * bs + bs"
    using div_up_mult [OF bs, of "Suc dst"] by (simp add: add.commute)
  then show ?thesis
    using wroteD [OF w] s bs by (simp add: moved_def)
qed

text \<open>The bytes a buffer argument stands for.\<close>

definition buf_bytes :: "byte list option \<Rightarrow> nat \<Rightarrow> byte list" where
  "buf_bytes data sz = (case data of None \<Rightarrow> zeros sz | Some d \<Rightarrow> take sz d)"

definition valid_buf :: "byte list option \<Rightarrow> nat \<Rightarrow> bool" where
  "valid_buf data sz \<longleftrightarrow> (case data of None \<Rightarrow> True | Some d \<Rightarrow> sz \<le> length d)"

lemma valid_buf_simps [simp]: "valid_buf None sz" "valid_buf (Some d) sz \<longleftrightarrow> sz \<le> length d"
  by (simp_all add: valid_buf_def)

lemma length_buf_bytes [simp]: "valid_buf data sz \<Longrightarrow> length (buf_bytes data sz) = sz"
  by (cases data) (simp_all add: buf_bytes_def)

lemma buf_bytes_simps [simp]: "buf_bytes None sz = zeros sz" "buf_bytes (Some d) sz = take sz d"
  by (simp_all add: buf_bytes_def)

lemma buf_bytes_split:
  assumes "valid_buf data sz" "n \<le> sz"
  shows "valid_buf (map_option (take n) data) n" "valid_buf (map_option (drop n) data) (sz - n)"
    "buf_bytes (map_option (take n) data) n @ buf_bytes (map_option (drop n) data) (sz - n) = buf_bytes data sz"
  using assms by (cases data; auto simp: zeros_def min_def simp flip: replicate_add take_add)+

lemma buf_bytes_zero:
  "data = None \<or> buffer_is_zero (the data) n \<Longrightarrow> valid_buf data n \<Longrightarrow> buf_bytes data n = zeros n"
  by (cases data) (auto simp: buffer_is_zero_iff intro!: nth_equalityI)

locale volume =
  fixes vol :: "'v volume"
    and view :: "'v \<Rightarrow> view"
    and inv :: "'v \<Rightarrow> bool"
  assumes bs_pos: "inv v \<Longrightarrow> 0 < blocksize vol"
    and max_bound: "inv v \<Longrightarrow> vblocks (view v) * blocksize vol \<le> 2 ^ 63"
    and max_blocks: "inv v \<Longrightarrow> get_max_block_count vol v = vblocks (view v)"
    and solid_readable: "inv v \<Longrightarrow> solid (view v) p \<Longrightarrow> readable (view v) p"
    and read_block_eq: "read_block vol v i = read_partial_block vol v i 0 (blocksize vol)"
    and write_block_eq: "write_block vol v i (Some d) = write_partial_block vol v i (Some d) 0 (blocksize vol)"
    and write_block_None: "write_block vol v i None = discard_blocks vol v i 1"
    and read_partial: "\<lbrakk>inv v; i < vblocks (view v); off + n \<le> blocksize vol; 0 < n;
        off = 0 \<or> readable (view v) (i * blocksize vol + off)\<rbrakk> \<Longrightarrow>
      \<exists>v'. read_partial_block vol v i off n = (Some (peek (content (view v)) (i * blocksize vol + off) n), v') \<and>
        inv v' \<and> view v' = view v"
    and write_partial: "\<lbrakk>inv v; i < vblocks (view v); off + n \<le> blocksize vol; 0 < n; valid_buf data n\<rbrakk> \<Longrightarrow>
      \<exists>v'. write_partial_block vol v i data off n = (Some (), v') \<and> inv v' \<and>
        wrote (blocksize vol) (view v) (view v') (i * blocksize vol + off) (buf_bytes data n)"
    and discard: "\<lbrakk>inv v; i + n \<le> vblocks (view v); 0 < n\<rbrakk> \<Longrightarrow>
      \<exists>v'. discard_blocks vol v i n = (Some (), v') \<and> inv v' \<and>
        wrote (blocksize vol) (view v) (view v') (i * blocksize vol) (zeros (n * blocksize vol))"
    and move: "\<lbrakk>inv v; src < vblocks (view v); dst < vblocks (view v);
        \<And>k. k < blocksize vol \<Longrightarrow> readable (view v) (src * blocksize vol + k)\<rbrakk> \<Longrightarrow>
      \<exists>v'. move_block vol v src dst = (Some (), v') \<and> inv v' \<and>
        wrote (blocksize vol) (view v) (view v') (dst * blocksize vol)
          (peek (content (view v)) (src * blocksize vol) (blocksize vol)) \<and>
        (\<forall>k<blocksize vol. solid (view v) (src * blocksize vol + k) \<longrightarrow>
            solid (view v') (dst * blocksize vol + k))"
begin

abbreviation bs :: nat where
  "bs \<equiv> blocksize vol"

abbreviation capacity :: "'v \<Rightarrow> nat" where
  "capacity v \<equiv> vblocks (view v) * bs"

lemma block_in_range:
  assumes "inv v" "i * bs + k < capacity v"
  shows "i < vblocks (view v)" and "i + 1 < max64"
proof -
  have "i * bs < vblocks (view v) * bs" using assms(2) by (rule add_lessD1)
  then show i: "i < vblocks (view v)" by simp
  have "vblocks (view v) \<le> capacity v" using bs_pos [OF assms(1)] by simp
  then have "vblocks (view v) \<le> 2 ^ 63" using max_bound [OF assms(1)] by (rule order_trans)
  then show "i + 1 < max64" using i by simp
qed

lemma capacity_less: "inv v \<Longrightarrow> capacity v < max64"
  using max_bound [of v] by simp

lemma next_block: "inv v \<Longrightarrow> i * bs + k < capacity v \<Longrightarrow> add64 i 1 = i + 1"
  using block_in_range(2) by (simp add: add64_exact)

lemma read_loop:
  "\<lbrakk>inv v; bo < bs; i * bs + bo + sz \<le> capacity v; bo = 0 \<or> readable (view v) (i * bs + bo)\<rbrakk> \<Longrightarrow>
     \<exists>v'. volume_read_loop vol v i bo (bs - bo) sz = (Some (peek (content (view v)) (i * bs + bo) sz), v') \<and>
       inv v' \<and> view v' = view v"
proof (induction sz arbitrary: v i bo rule: less_induct)
  case (less sz)
  show ?case
  proof (cases "sz = 0")
    case True
    then show ?thesis using less.prems by (simp add: volume_read_loop.simps)
  next
    case False
    define n where "n = (if sz < bs - bo then sz else bs - bo)"
    have n: "0 < n" "bo + n \<le> bs" "n \<le> sz" and tail: "sz - n \<noteq> 0 \<Longrightarrow> (i + 1) * bs = i * bs + bo + n"
      using False less.prems(2) by (auto simp: n_def split: if_splits)
    have "i * bs + bo < capacity v" using less.prems False by linarith
    note i = block_in_range(1) [OF less.prems(1) this] and nx = next_block [OF less.prems(1) this]
    from read_partial [OF less.prems(1) i n(2,1) less.prems(4)] obtain v1 where
      v1: "read_partial_block vol v i bo n = (Some (peek (content (view v)) (i * bs + bo) n), v1)"
        "inv v1" "view v1 = view v"
      by blast
    have rd: "(if bo = 0 \<and> n = bs then read_block vol v i else read_partial_block vol v i bo n)
        = (Some (peek (content (view v)) (i * bs + bo) n), v1)"
      using v1(1) by (auto simp: read_block_eq)
    have "\<exists>v'. volume_read_loop vol v1 (i + 1) 0 (bs - 0) (sz - n) =
        (Some (peek (content (view v1)) ((i + 1) * bs + 0) (sz - n)), v') \<and> inv v' \<and> view v' = view v1"
      if "sz - n \<noteq> 0"
    proof (rule less.IH)
      show "sz - n < sz" using n False by linarith
      show "(i + 1) * bs + 0 + (sz - n) \<le> capacity v1"
        using tail [OF that] v1(3) less.prems(3) n(3) by simp
    qed (use v1 bs_pos [OF v1(2)] in simp_all)
    then obtain v2 where v2: "volume_read_loop vol v1 (i + 1) 0 bs (sz - n) =
        (Some (peek (content (view v)) (i * bs + bo + n) (sz - n)), v2)" "inv v2" "view v2 = view v"
      using v1(2,3) tail by (cases "sz - n = 0") (auto simp: volume_read_loop.simps [of _ _ _ _ _ 0] add_ac)
    have "peek (content (view v)) (i * bs + bo) n @ peek (content (view v)) (i * bs + bo + n) (sz - n)
        = peek (content (view v)) (i * bs + bo) sz"
      using peek_append [of "content (view v)" "i * bs + bo" n "sz - n"] n(3) by simp
    with False n(1) rd v2 nx show ?thesis
      by (subst volume_read_loop.simps) (simp add: Let_def flip: n_def)
  qed
qed

text \<open>A read inside the device delivers the bytes of the device.\<close>

lemma read_correct:
  assumes "inv v" "off + sz \<le> capacity v" "off mod bs = 0 \<or> readable (view v) off"
  shows "\<exists>v'. volume_read vol v off sz = (Some (peek (content (view v)) off sz), v') \<and>
    inv v' \<and> view v' = view v"
  using read_loop [of v "off mod bs" "off div bs" sz] assms bs_pos [OF assms(1)]
  by (simp add: volume_read_def Let_def)

lemma write_loop:
  "\<lbrakk>inv v; bo < bs; 0 < sz; i * bs + bo + sz \<le> capacity v; valid_buf data sz\<rbrakk> \<Longrightarrow>
     \<exists>v'. volume_write_loop vol v i bo (bs - bo) data sz = (Some (), v') \<and> inv v' \<and>
       wrote bs (view v) (view v') (i * bs + bo) (buf_bytes data sz)"
proof (induction sz arbitrary: v i bo data rule: less_induct)
  case (less sz)
  define n where "n = (if sz < bs - bo then sz else bs - bo)"
  have n: "0 < n" "bo + n \<le> bs" "n \<le> sz" and tail: "sz - n \<noteq> 0 \<Longrightarrow> (i + 1) * bs = i * bs + bo + n"
    using less.prems(2,3) by (auto simp: n_def split: if_splits)
  have "i * bs + bo < capacity v" using less.prems by linarith
  note i = block_in_range(1) [OF less.prems(1) this] and nx = next_block [OF less.prems(1) this]
  note sp = buf_bytes_split [OF less.prems(5) n(3)]
  let ?a = "map_option (take n) data" and ?b = "map_option (drop n) data"
  let ?op = "if bo = 0 \<and> n = bs
     then (if data = None \<or> buffer_is_zero (the data) n then discard_blocks vol v i 1
           else write_block vol v i ?a)
     else write_partial_block vol v i ?a bo n"
  have "\<exists>v1. ?op = (Some (), v1) \<and> inv v1 \<and> wrote bs (view v) (view v1) (i * bs + bo) (buf_bytes ?a n)"
  proof (cases "bo = 0 \<and> n = bs \<and> (data = None \<or> buffer_is_zero (the data) n)")
    case True
    then have "buf_bytes ?a n = zeros bs"
      by (cases data) (auto simp: buffer_is_zero_iff intro!: nth_equalityI, use less.prems(5) n(3) in auto)
    with True discard [OF less.prems(1), of i 1] i show ?thesis by auto
  next
    case False
    have "write_block vol v i ?a = write_partial_block vol v i ?a 0 bs" if "data \<noteq> None"
      using that by (auto simp: write_block_eq)
    then have "?op = write_partial_block vol v i ?a bo n" using False by auto
    then show ?thesis using write_partial [OF less.prems(1) i n(2,1) sp(1)] by simp
  qed
  then obtain v1 where v1: "?op = (Some (), v1)" "inv v1"
    "wrote bs (view v) (view v1) (i * bs + bo) (buf_bytes ?a n)" by blast
  have unf: "volume_write_loop vol v i bo (bs - bo) data sz =
      volume_write_loop vol v1 (i + 1) 0 bs ?b (sz - n)"
    using v1(1) less.prems(3) n(1) nx by (subst volume_write_loop.simps) (simp add: Let_def flip: n_def)
  show ?case
  proof (cases "sz - n = 0")
    case True
    then have "n = sz" using n(3) by simp
    moreover from this have "buf_bytes ?a n = buf_bytes data sz" by (cases data) auto
    ultimately show ?thesis using unf v1 by (simp add: volume_write_loop.simps [of _ _ _ _ _ _ 0])
  next
    case False
    note t = tail [OF False]
    have "\<exists>v'. volume_write_loop vol v1 (i + 1) 0 (bs - 0) ?b (sz - n) = (Some (), v') \<and> inv v' \<and>
        wrote bs (view v1) (view v') ((i + 1) * bs + 0) (buf_bytes ?b (sz - n))"
    proof (rule less.IH)
      show "(i + 1) * bs + 0 + (sz - n) \<le> capacity v1"
        using t less.prems(4) n(3) wrote_blocks [OF v1(3)] by simp
    qed (use v1 n False bs_pos [OF v1(2)] sp in simp_all)
    then obtain v2 where v2: "volume_write_loop vol v1 (i + 1) 0 bs ?b (sz - n) = (Some (), v2)" "inv v2"
        "wrote bs (view v1) (view v2) (i * bs + bo + n) (buf_bytes ?b (sz - n))"
      unfolding t by auto
    have "wrote bs (view v) (view v2) (i * bs + bo) (buf_bytes ?a n @ buf_bytes ?b (sz - n))"
    proof (rule wrote_trans [OF bs_pos [OF v1(2)] v1(3)])
      show "wrote bs (view v1) (view v2) (i * bs + bo + length (buf_bytes ?a n)) (buf_bytes ?b (sz - n))"
        using v2(3) sp(1) by simp
      show "(i * bs + bo + length (buf_bytes ?a n)) mod bs = 0" using sp(1) t by (simp flip: t)
      show "buf_bytes ?a n \<noteq> []" using length_buf_bytes [OF sp(1)] n(1) by auto
    qed
    then show ?thesis using unf v2 sp(3) by simp
  qed
qed

text \<open>A write inside the device replaces exactly the bytes of its range.\<close>

lemma write_correct:
  assumes "inv v" "off + sz \<le> capacity v" "0 < sz" "valid_buf data sz"
  shows "\<exists>v'. volume_write vol v off data sz = (Some (), v') \<and> inv v' \<and>
    wrote bs (view v) (view v') off (buf_bytes data sz)"
  using write_loop [of v "off mod bs" sz "off div bs" data] assms bs_pos [OF assms(1)]
  by (simp add: volume_write_def Let_def)

lemma write_read:
  assumes v: "inv v" "off + length d \<le> capacity v"
  shows "\<exists>v1 v2. volume_write vol v off (Some d) (length d) = (Some (), v1) \<and>
    content (view v1) = poke (content (view v)) off d \<and>
    volume_read vol v1 off (length d) = (Some d, v2) \<and> content (view v2) = content (view v1) \<and> inv v2"
proof (cases "d = []")
  case True
  then show ?thesis
    using v by (simp add: volume_write_def volume_read_def volume_read_loop.simps volume_write_loop.simps)
next
  case False
  then obtain v1 where v1: "volume_write vol v off (Some d) (length d) = (Some (), v1)" "inv v1"
      "wrote bs (view v) (view v1) off d"
    using write_correct [of v off "length d" "Some d"] v by auto
  have "readable (view v1) off" using wrote_readable [OF v1(3), of off] False bs_pos [OF v(1)] by simp
  then show ?thesis
    using read_correct [OF v1(2), of off "length d"] v1 v(2) wrote_blocks [OF v1(3)] wrote_content [OF v1(3)]
    by auto
qed

lemma move_one:
  assumes "inv v" "src < vblocks (view v)" "dst < vblocks (view v)"
    "\<And>k. k < bs \<Longrightarrow> readable (view v) (src * bs + k)"
  shows "\<exists>v'. move_block vol v src dst = (Some (), v') \<and> inv v' \<and>
    moved (view v) (view v') (dst * bs) (src * bs) bs"
  using move [OF assms(1-3)] assms(4) wrote_moved [OF bs_pos [OF assms(1)]] by blast

lemma block_addr_less:
  assumes "inv v" "i \<le> vblocks (view v)"
  shows "i * bs < max64"
proof -
  have "i * bs \<le> capacity v" using assms(2) by simp
  then show ?thesis using capacity_less [OF assms(1)] by linarith
qed

lemma copy_forward_aligned:
  "\<lbrakk>inv v; dst + n \<le> vblocks (view v); src + n \<le> vblocks (view v);
    dst \<le> src \<or> src + n \<le> dst; \<And>k. k < n * bs \<Longrightarrow> readable (view v) (src * bs + k)\<rbrakk> \<Longrightarrow>
   \<exists>v'. copy_forward vol v (dst * bs) (src * bs) (n * bs) = (Some (), v') \<and> inv v' \<and>
     moved (view v) (view v') (dst * bs) (src * bs) (n * bs)"
proof (induction n arbitrary: v dst src)
  case 0
  then show ?case by (auto simp: copy_forward.simps intro: moved_refl)
next
  case (Suc n)
  from move_one [of v src dst] Suc.prems obtain v1 where
    v1: "move_block vol v src dst = (Some (), v1)" "inv v1" "moved (view v) (view v1) (dst * bs) (src * bs) bs"
    by auto
  have bl: "vblocks (view v1) = vblocks (view v)" using v1(3) by (simp add: moved_def)
  have nx: "add64 (dst * bs) bs = Suc dst * bs" "add64 (src * bs) bs = Suc src * bs"
    using block_addr_less [OF Suc.prems(1), of "Suc dst"] block_addr_less [OF Suc.prems(1), of "Suc src"] Suc.prems
    by (simp_all add: add64_def add.commute)
  have "copy_forward vol v (dst * bs) (src * bs) (Suc n * bs) = copy_forward vol v1 (Suc dst * bs) (Suc src * bs) (n * bs)"
    using v1(1) bs_pos [OF v1(2)] nx by (subst copy_forward.simps) (simp add: Let_def)
  moreover have "\<exists>v'. copy_forward vol v1 (Suc dst * bs) (Suc src * bs) (n * bs) = (Some (), v') \<and> inv v' \<and>
      moved (view v1) (view v') (Suc dst * bs) (Suc src * bs) (n * bs)"
  proof (rule Suc.IH [OF v1(2)])
    fix k assume k: "k < n * bs"
    have "dst * bs + bs \<le> Suc src * bs \<or> Suc src * bs + n * bs \<le> dst * bs"
    proof (cases "dst \<le> src")
      case False
      then have "(src + Suc n) * bs \<le> dst * bs" using Suc.prems(4) by (intro mult_le_mono1) auto
      then show ?thesis by (simp add: algebra_simps)
    qed simp
    then have "Suc src * bs + k < dst * bs \<or> dst * bs + bs \<le> Suc src * bs + k" using k by linarith
    moreover have "readable (view v) (Suc src * bs + k)"
      using Suc.prems(5) [of "bs + k"] k by (simp add: algebra_simps)
    ultimately show "readable (view v1) (Suc src * bs + k)" using v1(3) unfolding moved_def by blast
  qed (use Suc.prems bl in auto)
  then obtain v2 where v2: "copy_forward vol v1 (Suc dst * bs) (Suc src * bs) (n * bs) = (Some (), v2)" "inv v2"
    "moved (view v1) (view v2) (dst * bs + bs) (src * bs + bs) (n * bs)"
    by (auto simp: add.commute)
  moreover have "dst * bs \<le> src * bs \<or> src * bs + bs + n * bs \<le> dst * bs"
  proof (cases "dst \<le> src")
    case False
    then have "(src + Suc n) * bs \<le> dst * bs" using Suc.prems(4) by (intro mult_le_mono1) auto
    then show ?thesis by (simp add: algebra_simps)
  qed simp
  ultimately show ?case using moved_append_forward [OF v1(3) v2(3)] by (simp add: add.commute)
qed

lemma copy_backward_step:
  assumes "0 < bs" "src mod bs = bs - 1" "dst mod bs = bs - 1" "bs \<le> sz"
    "move_block vol v (src div bs) (dst div bs) = (Some (), v1)"
  shows "copy_backward_loop vol v dst src sz = copy_backward_loop vol v1 (sub64 dst bs) (sub64 src bs) (sz - bs)"
  using assms by (subst copy_backward_loop.simps) (simp add: Let_def)

lemma copy_backward_aligned:
  "\<lbrakk>inv v; dst + n \<le> vblocks (view v); src \<le> dst; \<And>k. k < n * bs \<Longrightarrow> readable (view v) (src * bs + k)\<rbrakk> \<Longrightarrow>
   \<exists>v'. copy_backward_loop vol v (dst * bs + n * bs - 1) (src * bs + n * bs - 1) (n * bs) = (Some (), v') \<and>
     inv v' \<and> moved (view v) (view v') (dst * bs) (src * bs) (n * bs)"
proof (induction n arbitrary: v)
  case 0
  then show ?case by (auto simp: copy_backward_loop.simps intro: moved_refl)
next
  case (Suc n)
  have "readable (view v) ((src + n) * bs + k)" if "k < bs" for k
    using Suc.prems(4) [of "n * bs + k"] that by (simp add: algebra_simps)
  from move_one [of v "src + n" "dst + n", OF _ _ _ this] Suc.prems obtain v1 where
    v1: "move_block vol v (src + n) (dst + n) = (Some (), v1)" "inv v1"
      "moved (view v) (view v1) ((dst + n) * bs) ((src + n) * bs) bs"
    by auto
  have bl: "vblocks (view v1) = vblocks (view v)" using v1(3) by (simp add: moved_def)
  have last: "(i * bs + Suc n * bs - 1) div bs = i + n" "(i * bs + Suc n * bs - 1) mod bs = bs - 1" for i
  proof -
    have e: "i * bs + Suc n * bs - 1 = (bs - 1) + (i + n) * bs" using bs_pos [OF v1(2)] by (simp add: algebra_simps)
    have "((bs - 1) + (i + n) * bs) div bs = i + n" "((bs - 1) + (i + n) * bs) mod bs = bs - 1"
      using bs_pos [OF v1(2)] by (simp_all del: add_diff_assoc2 add_diff_assoc)
    then show "(i * bs + Suc n * bs - 1) div bs = i + n" "(i * bs + Suc n * bs - 1) mod bs = bs - 1"
      unfolding e .
  qed
  have nx: "sub64 (i * bs + Suc n * bs - 1) bs = i * bs + n * bs - 1" if "n \<noteq> 0" for i
  proof -
    have "0 < n * bs" using that bs_pos [OF v1(2)] by simp
    then have "bs \<le> i * bs + Suc n * bs - 1" unfolding mult_Suc by linarith
    then show ?thesis by (simp add: sub64_exact)
  qed
  have "copy_backward_loop vol v (dst * bs + Suc n * bs - 1) (src * bs + Suc n * bs - 1) (Suc n * bs) =
      copy_backward_loop vol v1 (sub64 (dst * bs + Suc n * bs - 1) bs) (sub64 (src * bs + Suc n * bs - 1) bs) (n * bs)"
    using copy_backward_step [OF bs_pos [OF v1(2)] last(2) last(2), where sz = "Suc n * bs"] v1(1) unfolding last by simp
  also have "\<dots> = copy_backward_loop vol v1 (dst * bs + n * bs - 1) (src * bs + n * bs - 1) (n * bs)"
  proof (cases "n = 0")
    case True
    then show ?thesis by (simp only: mult_0 copy_backward_loop.simps [of _ _ _ _ 0] if_True simp_thms)
  next
    case False
    then show ?thesis by (simp only: nx [OF False])
  qed
  finally have unf: "copy_backward_loop vol v (dst * bs + Suc n * bs - 1) (src * bs + Suc n * bs - 1) (Suc n * bs) =
      copy_backward_loop vol v1 (dst * bs + n * bs - 1) (src * bs + n * bs - 1) (n * bs)" .
  have sd: "src * bs \<le> dst * bs" using Suc.prems(3) by simp
  have "\<exists>v'. copy_backward_loop vol v1 (dst * bs + n * bs - 1) (src * bs + n * bs - 1) (n * bs) = (Some (), v') \<and>
      inv v' \<and> moved (view v1) (view v') (dst * bs) (src * bs) (n * bs)"
  proof (rule Suc.IH [OF v1(2)])
    fix k assume k: "k < n * bs"
    then have "src * bs + k < (dst + n) * bs" using sd unfolding add_mult_distrib by linarith
    moreover have "readable (view v) (src * bs + k)" using Suc.prems(4) [of k] k by simp
    ultimately show "readable (view v1) (src * bs + k)" using v1(3) unfolding moved_def by blast
  qed (use Suc.prems bl in auto)
  then obtain v2 where v2: "copy_backward_loop vol v1 (dst * bs + n * bs - 1) (src * bs + n * bs - 1) (n * bs) = (Some (), v2)"
    "inv v2" "moved (view v1) (view v2) (dst * bs) (src * bs) (n * bs)" by blast
  have "moved (view v) (view v1) (dst * bs + n * bs) (src * bs + n * bs) bs"
    using v1(3) by (simp add: algebra_simps)
  from moved_append_backward [OF this v2(3) sd] v2 unf show ?case by (simp add: add.commute)
qed

text \<open>Moving whole blocks behaves like \<open>memmove\<close>, whether or not the regions overlap.\<close>

lemma memmove_aligned:
  assumes v: "inv v" "dst + n \<le> vblocks (view v)" "src + n \<le> vblocks (view v)"
    and rd: "\<And>k. k < n * bs \<Longrightarrow> readable (view v) (src * bs + k)"
  shows "\<exists>v'. volume_memmove vol v (dst * bs) (src * bs) (n * bs) = (Some (), v') \<and> inv v' \<and>
    moved (view v) (view v') (dst * bs) (src * bs) (n * bs)"
proof (cases "src = dst \<or> n = 0")
  case True
  then have "volume_memmove vol v (dst * bs) (src * bs) (n * bs) = (Some (), v)"
    by (auto simp: volume_memmove_def)
  then show ?thesis using True v rd by (auto intro!: moved_refl)
next
  case False
  have e: "add64 (i * bs) (n * bs) = i * bs + n * bs" if "i + n \<le> vblocks (view v)" for i
    using block_addr_less [OF v(1) that] by (simp add: add64_def algebra_simps)
  have e1: "add64 (i * bs) (n * bs - 1) = i * bs + n * bs - 1" if "i + n \<le> vblocks (view v)" for i
  proof -
    have "0 < n * bs" using False bs_pos [OF v(1)] by simp
    then show ?thesis using block_addr_less [OF v(1) that] by (simp add: add64_def algebra_simps)
  qed
  have pos: "0 < n * bs" using False bs_pos [OF v(1)] by simp
  have cond: "src * bs < dst * bs \<and> dst * bs \<le> sub64 (add64 (src * bs) (n * bs)) 1 \<longleftrightarrow> src < dst \<and> dst < src + n"
  proof -
    have "dst * bs \<le> src * bs + n * bs - 1 \<longleftrightarrow> dst * bs < (src + n) * bs"
      using pos unfolding add_mult_distrib by linarith
    moreover have "1 \<le> src * bs + n * bs" using pos by linarith
    ultimately show ?thesis using e [OF v(3)] bs_pos [OF v(1)] by (simp add: sub64_exact)
  qed
  show ?thesis
  proof (cases "src < dst \<and> dst < src + n")
    case True
    then have "volume_memmove vol v (dst * bs) (src * bs) (n * bs) =
        copy_backward_loop vol v (dst * bs + n * bs - 1) (src * bs + n * bs - 1) (n * bs)"
      using False cond pos e1 [OF v(2)] e1 [OF v(3)] by (simp add: volume_memmove_def copy_backward_def)
    then show ?thesis using copy_backward_aligned [OF v(1,2) _ rd] True by simp
  next
    case nb: False
    then have "volume_memmove vol v (dst * bs) (src * bs) (n * bs) = copy_forward vol v (dst * bs) (src * bs) (n * bs)"
      using False pos bs_pos [OF v(1)] unfolding volume_memmove_def cond by auto
    then show ?thesis using copy_forward_aligned [OF v(1,2,3) _ rd] nb by (simp add: not_less)
  qed
qed

end

end
