(* ===== verification/Sparse.thy ===== *)
theory Sparse
  imports Prelude
begin

text \<open>
  The sparse region accounting of files in the file system tree:
  \<open>lib/filesystem/fstree/file_mark_sparse.c\<close>, \<open>file_mark_not_sparse.c\<close>, \<open>file_accounting.c\<close> and
  \<open>truncate_sparse\<close> of \<open>file_truncate.c\<close>.

  The linked list of \<open>file_sparse_holes_t\<close> is a list of records; its \<open>uint32_t\<close> members wrap.
  The abstract meaning of a list is the set \<open>hole_blocks\<close> of block indices it covers, and the
  operations are shown to compute on that set.
\<close>

record hole =
  h_index :: nat
  h_count :: nat

record file_data =
  f_size :: nat
  start_index :: nat
  sparse :: "hole list"

section \<open>Operations\<close>

definition link_prev :: "hole option \<Rightarrow> hole list \<Rightarrow> hole list" where
  "link_prev prev xs = (case prev of None \<Rightarrow> xs | Some q \<Rightarrow> q # xs)"

text \<open>The loop of \<open>try_merge\<close>; \<open>prev\<close> is the element before the list and is part of the result.
  \<^const>\<open>None\<close> is the return value \<open>-1\<close>.\<close>

fun try_merge_from :: "hole option \<Rightarrow> hole list \<Rightarrow> nat \<Rightarrow> hole list option" where
  "try_merge_from prev [] index = None"
| "try_merge_from prev (it # rest) index =
     (if h_index it \<le> index \<and> index - h_index it < h_count it then Some (link_prev prev (it # rest))
      else if h_index it \<le> index \<and> h_count it = index - h_index it then
        (let it1 = it\<lparr>h_count := u32 (h_count it + 1)\<rparr>
         in case rest of
              [] \<Rightarrow> Some (link_prev prev [it1])
            | r # rs \<Rightarrow>
                (if h_index r = u32 (h_index it1 + h_count it1)
                 then Some (link_prev prev (it1\<lparr>h_count := u32 (h_count it1 + h_count r)\<rparr> # rs))
                 else Some (link_prev prev (it1 # r # rs))))
      else if index < h_index it \<and> index + 1 = h_index it then
        (let it1 = it\<lparr>h_index := h_index it - 1, h_count := u32 (h_count it + 1)\<rparr>
         in case prev of
              None \<Rightarrow> Some (it1 # rest)
            | Some q \<Rightarrow>
                (if h_index it1 = u32 (h_index q + h_count q)
                 then Some (q\<lparr>h_count := u32 (h_count q + h_count it1)\<rparr> # rest)
                 else Some (q # it1 # rest)))
      else map_option (link_prev prev) (try_merge_from (Some it) rest index))"

definition try_merge :: "hole list \<Rightarrow> nat \<Rightarrow> hole list option" where
  "try_merge holes index = try_merge_from None holes index"

fun insert_new_region :: "hole list \<Rightarrow> hole \<Rightarrow> hole list" where
  "insert_new_region [] s = [s]"
| "insert_new_region (it # rest) s =
     (if h_index it < h_index s then it # insert_new_region rest s else s # it # rest)"

text \<open>\<open>can_alloc\<close> says whether the \<open>calloc\<close> of a list element succeeds.\<close>

definition fstree_file_mark_sparse :: "bool \<Rightarrow> hole list \<Rightarrow> nat \<Rightarrow> (unit, hole list) io" where
  "fstree_file_mark_sparse can_alloc holes index =
     (case try_merge holes index of
        Some holes' \<Rightarrow> (Some (), holes')
      | None \<Rightarrow>
          (if \<not> can_alloc then (None, holes)
           else (Some (), insert_new_region holes \<lparr>h_index = u32 index, h_count = 1\<rparr>)))"

fun fstree_file_mark_not_sparse :: "bool \<Rightarrow> hole list \<Rightarrow> nat \<Rightarrow> (unit, hole list) io" where
  "fstree_file_mark_not_sparse can_alloc [] index = (Some (), [])"
| "fstree_file_mark_not_sparse can_alloc (it # rest) index =
     (if h_index it \<le> index \<and> index - h_index it < h_count it then
        (let rel_idx = index - h_index it
         in if rel_idx = 0 \<or> rel_idx = h_count it - 1
            then (let c = h_count it - 1
                  in if c = 0 then (Some (), rest)
                     else if rel_idx = 0 then (Some (), \<lparr>h_index = u32 (h_index it + 1), h_count = c\<rparr> # rest)
                     else (Some (), it\<lparr>h_count := c\<rparr> # rest))
            else if \<not> can_alloc then (None, it # rest)
            else (Some (), it\<lparr>h_count := u32 rel_idx\<rparr>
                    # \<lparr>h_index = u32 (h_index it + rel_idx + 1), h_count = u32 (h_count it - rel_idx - 1)\<rparr>
                    # rest))
      else (case fstree_file_mark_not_sparse can_alloc rest index of
              (r, rest') \<Rightarrow> (r, it # rest')))"

fun truncate_holes :: "hole list \<Rightarrow> nat \<Rightarrow> hole list" where
  "truncate_holes [] count = []"
| "truncate_holes (it # rest) count =
     (if count \<le> h_index it then truncate_holes rest count
      else (if count - h_index it \<le> h_count it then it\<lparr>h_count := u32 (count - h_index it)\<rparr> else it)
           # truncate_holes rest count)"

definition truncate_sparse :: "nat \<Rightarrow> hole list \<Rightarrow> nat \<Rightarrow> hole list" where
  "truncate_sparse bs holes sz = truncate_holes holes (div_up sz bs)"

fun sparse_bytes_loop :: "nat \<Rightarrow> nat \<Rightarrow> hole list \<Rightarrow> nat \<Rightarrow> nat" where
  "sparse_bytes_loop bs sz [] count = count"
| "sparse_bytes_loop bs sz (it # rest) count =
     (let start = mul64 (h_index it) bs; len = mul64 (h_count it) bs
      in if sz \<le> start then sparse_bytes_loop bs sz rest count
         else sparse_bytes_loop bs sz rest (add64 count (if sz - start < len then sz - start else len)))"

definition fstree_file_sparse_bytes :: "nat \<Rightarrow> file_data \<Rightarrow> nat" where
  "fstree_file_sparse_bytes bs n = sparse_bytes_loop bs (f_size n) (sparse n) 0"

definition fstree_file_physical_size :: "nat \<Rightarrow> file_data \<Rightarrow> nat" where
  "fstree_file_physical_size bs n =
     (let s = fstree_file_sparse_bytes bs n in if f_size n \<le> s then 0 else f_size n - s)"

section \<open>The set of sparse blocks\<close>

definition hole_set :: "hole \<Rightarrow> nat set" where
  "hole_set h = {h_index h..<h_index h + h_count h}"

definition hole_blocks :: "hole list \<Rightarrow> nat set" where
  "hole_blocks hs = (\<Union>h\<in>set hs. hole_set h)"

lemma hole_blocks_simps [simp]:
  "hole_blocks [] = {}" "hole_blocks (h # hs) = hole_set h \<union> hole_blocks hs"
  by (simp_all add: hole_blocks_def)

lemma mem_hole_set [simp]: "b \<in> hole_set h \<longleftrightarrow> h_index h \<le> b \<and> b < h_index h + h_count h"
  by (simp add: hole_set_def)

lemma finite_hole_set [simp]: "finite (hole_set h)" and card_hole_set [simp]: "card (hole_set h) = h_count h"
  by (simp_all add: hole_set_def)

text \<open>Well-formed lists: sorted, not empty, apart from each other, and inside 32 bits. The
  bound \<open>lo\<close> is the first block a hole may start at.\<close>

fun holes_from :: "nat \<Rightarrow> hole list \<Rightarrow> bool" where
  "holes_from lo [] = True"
| "holes_from lo (h # hs) \<longleftrightarrow>
     lo \<le> h_index h \<and> 0 < h_count h \<and> h_index h + h_count h < 2 ^ 32 \<and>
     holes_from (h_index h + h_count h + 1) hs"

abbreviation holes_wf :: "hole list \<Rightarrow> bool" where
  "holes_wf hs \<equiv> holes_from 0 hs"

lemma holes_from_mono: "holes_from lo hs \<Longrightarrow> lo' \<le> lo \<Longrightarrow> holes_from lo' hs"
  by (cases hs) auto

lemma holes_from_lower: "holes_from lo hs \<Longrightarrow> b \<in> hole_blocks hs \<Longrightarrow> lo \<le> b"
  by (induction hs arbitrary: lo) (fastforce dest: holes_from_mono)+

lemma holes_from_below: "holes_from lo hs \<Longrightarrow> b < lo \<Longrightarrow> b \<notin> hole_blocks hs"
  using holes_from_lower by (meson leD)

lemma holes_bounded: "holes_from lo hs \<Longrightarrow> b \<in> hole_blocks hs \<Longrightarrow> b < 2 ^ 32 - 1"
  by (induction hs arbitrary: lo) auto

lemma finite_hole_blocks [simp]: "finite (hole_blocks hs)"
  by (simp add: hole_blocks_def hole_set_def)

section \<open>Marking a block\<close>

text \<open>A block that touches no hole of the list.\<close>

definition apart :: "nat \<Rightarrow> hole \<Rightarrow> bool" where
  "apart index h \<longleftrightarrow> h_index h + h_count h < index \<or> index + 1 < h_index h"

lemma try_merge_before:
  "holes_from lo hs \<Longrightarrow> index + 1 < lo \<Longrightarrow> try_merge_from prev hs index = None"
proof (induction hs arbitrary: prev lo)
  case (Cons it rest)
  have "try_merge_from (Some it) rest index = None"
    using Cons.prems by (intro Cons.IH [of "h_index it + h_count it + 1"]) auto
  then show ?case using Cons.prems by auto
qed simp

lemma try_merge_from_ok:
  assumes "holes_from lo (link_prev prev hs)" "\<forall>q. prev = Some q \<longrightarrow> h_index q + h_count q < index"
    "index + 1 < 2 ^ 32" "lo \<le> index"
  shows "case try_merge_from prev hs index of
      None \<Rightarrow> \<forall>h\<in>set hs. apart index h
    | Some r \<Rightarrow> holes_from lo r \<and> hole_blocks r = insert index (hole_blocks (link_prev prev hs))"
  using assms
proof (induction hs arbitrary: prev lo)
  case (Cons it rest)
  let ?lo = "case prev of None \<Rightarrow> lo | Some q \<Rightarrow> h_index q + h_count q + 1"
  have it: "?lo \<le> h_index it" "0 < h_count it" "h_index it + h_count it < 2 ^ 32"
    and rest: "holes_from (h_index it + h_count it + 1) rest"
    using Cons.prems(1) by (auto simp: link_prev_def split: option.splits)
  have lo: "?lo \<le> index" using Cons.prems(2,4) by (auto split: option.splits)
  have hp: "holes_from lo (link_prev prev xs)" if "holes_from ?lo xs" for xs
    using that Cons.prems(1) by (auto simp: link_prev_def split: option.splits)
  have sp: "hole_blocks (link_prev prev xs) = insert index (hole_blocks (link_prev prev (it # rest)))"
    if "hole_blocks xs = insert index (hole_blocks (it # rest))" for xs
    using that by (auto simp: link_prev_def split: option.splits)
  have res: "case Some (link_prev prev xs) of
      None \<Rightarrow> \<forall>h\<in>set (it # rest). apart index h
    | Some r \<Rightarrow> holes_from lo r \<and> hole_blocks r = insert index (hole_blocks (link_prev prev (it # rest)))"
    if "holes_from ?lo xs" "hole_blocks xs = insert index (hole_blocks (it # rest))" for xs
    using hp [OF that(1)] sp [OF that(2)] by simp
  consider (inside) "h_index it \<le> index" "index < h_index it + h_count it"
    | (behind) "h_index it + h_count it = index"
    | (before) "index + 1 = h_index it"
    | (after) "h_index it + h_count it < index"
    | (early) "index + 1 < h_index it" by linarith
  then show ?case
  proof cases
    case inside
    then have "try_merge_from prev (it # rest) index = Some (link_prev prev (it # rest))" by auto
    then show ?thesis
      using res [of "it # rest"] it rest inside by (auto simp: insert_absorb)
  next
    case behind
    let ?it = "it\<lparr>h_count := h_count it + 1\<rparr>"
    have u: "u32 (h_count it + 1) = h_count it + 1" "u32 (h_index it + (h_count it + 1)) = index + 1"
      using behind Cons.prems(3) by (simp_all add: u32_def)
    have c: "\<not> (h_index it \<le> index \<and> index - h_index it < h_count it)"
      "h_index it \<le> index \<and> h_count it = index - h_index it" using behind by auto
    have step: "try_merge_from prev (it # rest) index =
        (case rest of [] \<Rightarrow> Some (link_prev prev [?it])
         | r # rs \<Rightarrow>
             (if h_index r = index + 1
              then Some (link_prev prev (it\<lparr>h_count := u32 (h_count it + 1 + h_count r)\<rparr> # rs))
              else Some (link_prev prev (?it # r # rs))))"
      unfolding try_merge_from.simps if_not_P [OF c(1)] if_P [OF c(2)] Let_def u(1)
      using u(2) by (simp split: list.split)
    show ?thesis
    proof (cases rest)
      case Nil
      have "try_merge_from prev (it # rest) index = Some (link_prev prev [?it])"
        by (simp only: step) (simp add: Nil)
      moreover have "holes_from ?lo [?it]" using it(1) behind Cons.prems(3) by simp
      moreover have "hole_blocks [?it] = insert index (hole_blocks (it # rest))"
        unfolding Nil using behind by (simp add: set_eq_iff) linarith
      ultimately show ?thesis using res [of "[?it]"] by simp
    next
      case (Cons r rs)
      have r: "index < h_index r" "0 < h_count r" "h_index r + h_count r < 2 ^ 32"
        and rs: "holes_from (h_index r + h_count r + 1) rs"
        using rest Cons behind by auto
      show ?thesis
      proof (cases "h_index r = index + 1")
        case True
        have ur: "u32 (h_count it + 1 + h_count r) = h_count it + 1 + h_count r"
          using r True behind by (intro u32_exact) linarith
        let ?m = "it\<lparr>h_count := h_count it + 1 + h_count r\<rparr>"
        have "try_merge_from prev (it # rest) index = Some (link_prev prev (?m # rs))"
          by (simp only: step) (simp add: Cons ur [simplified] True)
        moreover have "holes_from ?lo (?m # rs)"
        proof -
          have e: "h_index ?m + h_count ?m = h_index r + h_count r" using True behind by simp
          have "?lo \<le> h_index ?m" "0 < h_count ?m" using it(1) by simp_all
          then show ?thesis unfolding holes_from.simps e using r rs by blast
        qed
        moreover have "hole_blocks (?m # rs) = insert index (hole_blocks (it # rest))"
          using Cons True behind by auto
        ultimately show ?thesis using res [of "?m # rs"] by simp
      next
        case False
        have "try_merge_from prev (it # rest) index = Some (link_prev prev (?it # r # rs))"
          by (simp only: step) (simp add: Cons False [simplified])
        moreover have "holes_from ?lo (?it # r # rs)"
          using it r rs False behind Cons.prems(3) by auto
        moreover have "hole_blocks (?it # r # rs) = insert index (hole_blocks (it # rest))"
          using Cons behind by auto
        ultimately show ?thesis using res [of "?it # r # rs"] by simp
      qed
    qed
  next
    case before
    let ?it = "it\<lparr>h_index := h_index it - 1, h_count := h_count it + 1\<rparr>"
    have u: "u32 (h_count it + 1) = h_count it + 1" using before it(3) by (intro u32_exact) linarith
    have "h_index it - 1 \<noteq> u32 (h_index q + h_count q)" if "prev = Some q" for q
      using that Cons.prems(1,2,3) before by (auto simp: link_prev_def u32_def)
    then have "try_merge_from prev (it # rest) index = Some (link_prev prev (?it # rest))"
      using before it(2) u by (auto simp: Let_def link_prev_def split: option.splits)
    moreover have "holes_from ?lo (?it # rest)" using it rest before lo by auto
    moreover have "hole_blocks (?it # rest) = insert index (hole_blocks (it # rest))" using before by auto
    ultimately show ?thesis using res [of "?it # rest"] by simp
  next
    case after
    then have step: "try_merge_from prev (it # rest) index = map_option (link_prev prev) (try_merge_from (Some it) rest index)"
      by auto
    have "case try_merge_from (Some it) rest index of None \<Rightarrow> \<forall>h\<in>set rest. apart index h
        | Some r \<Rightarrow> holes_from ?lo r \<and> hole_blocks r = insert index (hole_blocks (link_prev (Some it) rest))"
      using it rest after lo Cons.prems(3) by (intro Cons.IH) (auto simp: link_prev_def)
    then show ?thesis
      using after step hp sp by (auto simp: apart_def link_prev_def split: option.splits)
  next
    case early
    have "try_merge_from (Some it) rest index = None"
      using rest early by (intro try_merge_before [OF rest]) linarith
    moreover have "apart index h" if "h \<in> set rest" for h
      using rest that early
    proof (induction rest arbitrary: it)
      case (Cons a rest)
      then show ?case by (cases "h = a") (auto simp: apart_def elim: Cons.IH [of a])
    qed simp
    ultimately show ?thesis using early by (auto simp: apart_def)
  qed
qed simp

lemma insert_new_region_ok:
  "\<lbrakk>holes_from lo hs; \<forall>h\<in>set hs. apart index h; lo \<le> index; index + 1 < 2 ^ 32\<rbrakk> \<Longrightarrow>
   holes_from lo (insert_new_region hs \<lparr>h_index = index, h_count = 1\<rparr>) \<and>
   hole_blocks (insert_new_region hs \<lparr>h_index = index, h_count = 1\<rparr>) = insert index (hole_blocks hs)"
proof (induction hs arbitrary: lo)
  case (Cons a hs)
  show ?case
  proof (cases "h_index a < index")
    case True
    then have e: "h_index a + h_count a < index" using Cons.prems(2) by (auto simp: apart_def)
    from Cons.IH [of "h_index a + h_count a + 1"] Cons.prems e True show ?thesis by auto
  next
    case False
    then have "index + 1 < h_index a" using Cons.prems(1,2) by (auto simp: apart_def)
    then show ?thesis using Cons.prems by auto
  qed
qed auto

lemma mark_sparse_ok:
  assumes "holes_wf hs" "index + 1 < 2 ^ 32"
  shows "\<exists>hs'. fstree_file_mark_sparse True hs index = (Some (), hs') \<and> holes_wf hs' \<and>
    hole_blocks hs' = insert index (hole_blocks hs)"
proof -
  have u: "u32 index = index" using assms(2) by (simp add: u32_def)
  from try_merge_from_ok [of 0 None hs index] assms
  show ?thesis
    using insert_new_region_ok [OF assms(1), of index] assms(2)
    by (cases "try_merge hs index") (auto simp: fstree_file_mark_sparse_def try_merge_def link_prev_def u)
qed

lemma mark_not_sparse_ok:
  "holes_from lo hs \<Longrightarrow>
   \<exists>hs'. fstree_file_mark_not_sparse True hs index = (Some (), hs') \<and> holes_from lo hs' \<and>
     hole_blocks hs' = hole_blocks hs - {index}"
proof (induction hs arbitrary: lo)
  case (Cons it rest)
  have it: "lo \<le> h_index it" "0 < h_count it" "h_index it + h_count it < 2 ^ 32"
    and rest: "holes_from (h_index it + h_count it + 1) rest"
    using Cons.prems by auto
  show ?case
  proof (cases "h_index it \<le> index \<and> index - h_index it < h_count it")
    case True
    define k where "k = index - h_index it"
    have k: "index = h_index it + k" "k < h_count it" using True by (auto simp: k_def)
    have out: "index \<notin> hole_blocks rest" using holes_from_below [OF rest] k by simp
    have u: "u32 (h_index it + 1) = h_index it + 1" "u32 k = k" "u32 (h_index it + k + 1) = h_index it + k + 1"
      "u32 (h_count it - k - 1) = h_count it - k - 1"
      using it(3) k(2) by (auto intro!: u32_exact)
    have step: "fstree_file_mark_not_sparse True (it # rest) index =
        (if k = 0 \<or> k = h_count it - 1
         then (if h_count it - 1 = 0 then (Some (), rest)
               else if k = 0 then (Some (), \<lparr>h_index = h_index it + 1, h_count = h_count it - 1\<rparr> # rest)
               else (Some (), it\<lparr>h_count := h_count it - 1\<rparr> # rest))
         else (Some (), it\<lparr>h_count := k\<rparr>
            # \<lparr>h_index = h_index it + k + 1, h_count = h_count it - k - 1\<rparr> # rest))"
      by (simp only: fstree_file_mark_not_sparse.simps True simp_thms if_True if_False Let_def u k(2) flip: k_def)
    consider (one) "h_count it = 1" | (first) "k = 0" "1 < h_count it"
      | (last) "0 < k" "k = h_count it - 1" | (mid) "0 < k" "k < h_count it - 1"
      using k(2) it(2) by linarith
    then show ?thesis
    proof cases
      case one
      then have "fstree_file_mark_not_sparse True (it # rest) index = (Some (), rest)" using step one k by simp
      then show ?thesis using rest it one k out by (auto elim: holes_from_mono)
    next
      case first
      let ?h = "\<lparr>h_index = h_index it + 1, h_count = h_count it - 1\<rparr>"
      have "fstree_file_mark_not_sparse True (it # rest) index = (Some (), ?h # rest)"
        using step first by simp
      then show ?thesis using rest it first k out by auto
    next
      case last
      let ?h = "it\<lparr>h_count := h_count it - 1\<rparr>"
      have "fstree_file_mark_not_sparse True (it # rest) index = (Some (), ?h # rest)"
        using step last by auto
      moreover have "holes_from (h_index it + (h_count it - 1) + 1) rest"
        using rest by (rule holes_from_mono) simp
      ultimately show ?thesis using it last k out by auto
    next
      case mid
      let ?a = "it\<lparr>h_count := k\<rparr>" and ?b = "\<lparr>h_index = h_index it + k + 1, h_count = h_count it - k - 1\<rparr>"
      have "fstree_file_mark_not_sparse True (it # rest) index = (Some (), ?a # ?b # rest)"
        using step mid by auto
      moreover have "holes_from lo (?a # ?b # rest)"
        using it rest mid by (auto elim: holes_from_mono)
      moreover have "hole_blocks (?a # ?b # rest) = hole_blocks (it # rest) - {index}"
        using mid k out by auto
      ultimately show ?thesis by blast
    qed
  next
    case False
    from Cons.IH [OF rest] obtain hs' where
      "fstree_file_mark_not_sparse True rest index = (Some (), hs')" "holes_from (h_index it + h_count it + 1) hs'"
      "hole_blocks hs' = hole_blocks rest - {index}" by blast
    moreover from this have "fstree_file_mark_not_sparse True (it # rest) index = (Some (), it # hs')"
      by (simp only: fstree_file_mark_not_sparse.simps if_not_P [OF False] prod.case)
    moreover have "index \<notin> hole_set it" using False by auto
    ultimately show ?thesis using it by (intro exI [of _ "it # hs'"]) (simp add: Un_Diff)
  qed
qed simp

lemma truncate_holes_ok:
  "holes_from lo hs \<Longrightarrow>
     holes_from lo (truncate_holes hs c) \<and> hole_blocks (truncate_holes hs c) = hole_blocks hs \<inter> {..<c}"
proof (induction hs arbitrary: lo)
  case (Cons h hs)
  have h: "lo \<le> h_index h" "0 < h_count h" "h_index h + h_count h < 2 ^ 32"
    and hs: "holes_from (h_index h + h_count h + 1) hs"
    using Cons.prems by auto
  note ih = Cons.IH [OF hs]
  show ?case
  proof (cases "c \<le> h_index h")
    case True
    then have "hole_set h \<inter> {..<c} = {}" by (auto simp: hole_set_def)
    then show ?thesis using True ih h by (auto elim: holes_from_mono)
  next
    case False
    define h' where "h' = (if c - h_index h \<le> h_count h then h\<lparr>h_count := u32 (c - h_index h)\<rparr> else h)"
    have e: "h_index h' = h_index h" "h_count h' = min (h_count h) (c - h_index h)"
      using h(3) False by (auto simp: h'_def u32_def)
    have "hole_set h' = hole_set h \<inter> {..<c}" using e False by (auto simp: hole_set_def)
    moreover have "truncate_holes (h # hs) c = h' # truncate_holes hs c" using False by (simp add: h'_def)
    moreover have "holes_from (h_index h' + h_count h' + 1) (truncate_holes hs c)"
      using ih by (elim conjE holes_from_mono) (simp add: e)
    moreover have "0 < h_count h'" "h_index h' + h_count h' < 2 ^ 32" using e h False by auto
    ultimately show ?thesis using ih h(1) e(1) by auto
  qed
qed simp

section \<open>Counting\<close>

text \<open>The number of blocks before \<open>b\<close> that are stored, and the bytes of a file of \<open>sz\<close> bytes that
  are stored.\<close>

definition stored_before :: "nat set \<Rightarrow> nat \<Rightarrow> nat" where
  "stored_before H b = card {c. c < b \<and> c \<notin> H}"

definition stored_bytes :: "nat \<Rightarrow> nat set \<Rightarrow> nat \<Rightarrow> nat" where
  "stored_bytes bs H sz = card {p. p < sz \<and> p div bs \<notin> H}"

lemma stored_before_0 [simp]: "stored_before H 0 = 0"
  by (simp add: stored_before_def)

lemma stored_before_Suc [simp]: "stored_before H (Suc b) = stored_before H b + (if b \<in> H then 0 else 1)"
proof -
  have "{c. c < Suc b \<and> c \<notin> H} = (if b \<in> H then {c. c < b \<and> c \<notin> H} else insert b {c. c < b \<and> c \<notin> H})"
    by (auto simp: less_Suc_eq)
  then show ?thesis by (simp add: stored_before_def)
qed

lemma stored_before_mono: "a \<le> b \<Longrightarrow> stored_before H a \<le> stored_before H b"
  unfolding stored_before_def by (rule card_mono) auto

lemma stored_before_strict: "a < b \<Longrightarrow> a \<notin> H \<Longrightarrow> stored_before H a < stored_before H b"
  using stored_before_mono [of "Suc a" b H] by simp

lemma stored_before_cong: "(\<And>c. c < b \<Longrightarrow> c \<in> H \<longleftrightarrow> c \<in> H') \<Longrightarrow> stored_before H b = stored_before H' b"
  unfolding stored_before_def by (rule arg_cong [where f = card]) auto

lemma stored_before_le: "stored_before H b \<le> b"
proof -
  have "stored_before H b \<le> card {..<b}" unfolding stored_before_def by (rule card_mono) auto
  then show ?thesis by simp
qed

lemma stored_bytes_add:
  assumes "0 < bs" "t \<le> bs"
  shows "stored_bytes bs H (k * bs + t) = stored_bytes bs H (k * bs) + (if k \<in> H then 0 else t)"
proof -
  let ?A = "{p. p < k * bs \<and> p div bs \<notin> H}"
  have d: "p div bs = k" if "k * bs \<le> p" "p < k * bs + t" for p
    using that assms by (intro div_nat_eqI) (auto simp: mult.commute)
  have "{p. p < k * bs + t \<and> p div bs \<notin> H} = ?A \<union> (if k \<in> H then {} else {k * bs..<k * bs + t})"
    using d by (auto simp: not_less) (metis d leI)+
  moreover have "card (?A \<union> {k * bs..<k * bs + t}) = card ?A + t"
    by (subst card_Un_disjoint) auto
  ultimately show ?thesis by (auto simp: stored_bytes_def)
qed

lemma stored_bytes_blocks: "0 < bs \<Longrightarrow> stored_bytes bs H (k * bs) = stored_before H k * bs"
proof (induction k)
  case (Suc k)
  have "stored_bytes bs H (Suc k * bs) = stored_bytes bs H (k * bs + bs)" by (simp add: add.commute)
  then show ?case using Suc stored_bytes_add [of bs bs H k] by simp
qed (simp add: stored_bytes_def)

text \<open>The stored bytes fill exactly the stored blocks.\<close>

lemma stored_bytes_div_up:
  assumes "0 < bs"
  shows "div_up (stored_bytes bs H sz) bs = stored_before H (div_up sz bs)"
proof -
  let ?k = "sz div bs" and ?t = "sz mod bs"
  have t: "?t < bs" using assms by simp
  have "stored_bytes bs H sz = stored_before H ?k * bs + (if ?k \<in> H then 0 else ?t)"
    using stored_bytes_add [OF assms, of ?t H ?k] stored_bytes_blocks [OF assms, of H ?k] t by simp
  moreover have "div_up (n * bs + r) bs = n + (if r = 0 then 0 else 1)" if "r < bs" for n r
    using that by (auto simp: div_up_def)
  ultimately show ?thesis using t by (auto simp: div_up_def)
qed

lemma sparse_bytes_loop_ok:
  assumes bs: "0 < bs" "bs < 2 ^ 32" and sz: "sz < max64"
  shows "holes_from lo hs \<Longrightarrow> c + card {p. p < sz \<and> p div bs \<in> hole_blocks hs} < max64 \<Longrightarrow>
    sparse_bytes_loop bs sz hs c = c + card {p. p < sz \<and> p div bs \<in> hole_blocks hs}"
proof (induction hs arbitrary: lo c)
  case (Cons h hs)
  have h: "h_index h + h_count h < 2 ^ 32" and hs: "holes_from (h_index h + h_count h + 1) hs"
    using Cons.prems(1) by auto
  have lim: "(h_index h + h_count h) * bs < 2 ^ 32 * 2 ^ 32"
    using h bs by (intro mult_strict_mono) auto
  then have ex: "mul64 (h_index h) bs = h_index h * bs" "mul64 (h_count h) bs = h_count h * bs"
    by (simp_all add: mul64_def add_mult_distrib)
  let ?P = "\<lambda>H. {p. p < sz \<and> p div bs \<in> H}"
  have dis: "?P (hole_set h) \<inter> ?P (hole_blocks hs) = {}"
    using holes_from_below [OF hs] by fastforce
  have fin: "finite (?P H)" for H by simp
  have un: "?P (hole_blocks (h # hs)) = ?P (hole_set h) \<union> ?P (hole_blocks hs)" by auto
  have sum: "card (?P (hole_blocks (h # hs))) = card (?P (hole_set h)) + card (?P (hole_blocks hs))"
    unfolding un by (rule card_Un_disjoint [OF fin fin dis])
  have rng: "?P (hole_set h) = {h_index h * bs..<min sz ((h_index h + h_count h) * bs)}"
    using bs(1) by (auto simp: less_eq_div_iff_mult_less_eq div_less_iff_less_mult)
  then have ch: "card (?P (hole_set h)) = min sz ((h_index h + h_count h) * bs) - h_index h * bs" by simp
  show ?case
  proof (cases "sz \<le> h_index h * bs")
    case True
    then have "card (?P (hole_set h)) = 0" using ch by simp
    then show ?thesis using True ex sum Cons.IH [OF hs, of c] Cons.prems(2) by (simp add: Let_def)
  next
    case False
    have l: "(if sz - h_index h * bs < h_count h * bs then sz - h_index h * bs else h_count h * bs)
        = card (?P (hole_set h))"
      unfolding ch add_mult_distrib min_def using False by (simp split: if_split) linarith
    have a: "add64 c (card (?P (hole_set h))) = c + card (?P (hole_set h))"
      using Cons.prems(2) sum by (intro add64_exact) linarith
    have "sparse_bytes_loop bs sz (h # hs) c = sparse_bytes_loop bs sz hs (c + card (?P (hole_set h)))"
      using False ex l a by (simp add: Let_def)
    then show ?thesis using Cons.IH [OF hs, of "c + card (?P (hole_set h))"] Cons.prems(2) sum by simp
  qed
qed simp

lemma card_split: "card {p. p < sz \<and> P p} + card {p. p < sz \<and> \<not> P p} = (sz :: nat)"
proof -
  have "card ({p. p < sz \<and> P p} \<union> {p. p < sz \<and> \<not> P p}) = card {p. p < sz \<and> P p} + card {p. p < sz \<and> \<not> P p}"
    by (rule card_Un_disjoint) auto
  moreover have "{p. p < sz \<and> P p} \<union> {p. p < sz \<and> \<not> P p} = {..<sz}" by auto
  ultimately show ?thesis by simp
qed

definition file_wf :: "nat \<Rightarrow> file_data \<Rightarrow> bool" where
  "file_wf bs n \<longleftrightarrow> 0 < bs \<and> bs < 2 ^ 32 \<and> holes_wf (sparse n) \<and> f_size n < 2 ^ 63 \<and>
     hole_blocks (sparse n) \<subseteq> {..<div_up (f_size n) bs}"

text \<open>The physical size counts the bytes outside the holes.\<close>

lemma physical_size_ok:
  assumes "file_wf bs n"
  shows "fstree_file_sparse_bytes bs n = card {p. p < f_size n \<and> p div bs \<in> hole_blocks (sparse n)}"
    and "fstree_file_physical_size bs n = stored_bytes bs (hole_blocks (sparse n)) (f_size n)"
proof -
  let ?s = "card {p. p < f_size n \<and> p div bs \<in> hole_blocks (sparse n)}"
  note sp = card_split [of "f_size n" "\<lambda>p. p div bs \<in> hole_blocks (sparse n)"]
  have "f_size n < 2 ^ 63" using assms by (simp add: file_wf_def)
  moreover have "?s \<le> f_size n" using sp by linarith
  ultimately have "0 + ?s < max64" by simp
  then show s: "fstree_file_sparse_bytes bs n = ?s"
    using sparse_bytes_loop_ok [of bs "f_size n" 0 "sparse n" 0] assms
    by (simp add: fstree_file_sparse_bytes_def file_wf_def)
  show "fstree_file_physical_size bs n = stored_bytes bs (hole_blocks (sparse n)) (f_size n)"
    unfolding fstree_file_physical_size_def s stored_bytes_def Let_def
    by (rule if_split [THEN iffD2]) (use sp in linarith)
qed

end
