(* ===== verification/FsTree.thy ===== *)
theory FsTree
  imports Volume Sparse
begin

text \<open>
  libfilesystem: the file system tree \<open>fstree_t\<close> (\<open>include/fstree.h\<close>) and the data of its files:
  \<open>file_read.c\<close>, \<open>file_move_to_end.c\<close>, \<open>file_append.c\<close>, \<open>file_write.c\<close>, \<open>file_truncate.c\<close> and
  \<open>add_gap.c\<close>.

  Nodes are numbered, and \<open>nodes\<close> maps a number to its node; a chain of \<open>next\<close> or \<open>next_by_type\<close>
  pointers is a list of numbers. The members of the union \<open>data\<close> are separate fields, of which a
  node uses those of its type. The volume below the tree is part of its state, and its
  operations are the parameter \<open>vol\<close>.
\<close>

datatype node_type = TREE_NODE_DIR | TREE_NODE_FILE | TREE_NODE_FIFO | TREE_NODE_SOCKET
  | TREE_NODE_CHAR_DEV | TREE_NODE_BLOCK_DEV | TREE_NODE_SYMLINK | TREE_NODE_HARD_LINK

record tree_node =
  n_ctime :: nat
  n_mtime :: nat
  n_uid :: nat
  n_gid :: nat
  inode_num :: nat
  link_count :: nat
  n_parent :: "nat option"
  n_name :: string
  n_type :: node_type
  permissions :: nat
  children :: "nat list"
  dir_start :: nat
  dir_size :: nat
  created_implicitly :: bool
  n_file :: file_data
  link_target :: string
  link_resolved :: "nat option"
  device_number :: nat

record 'v fstree =
  nodes :: "nat \<Rightarrow> tree_node"
  node_count :: nat
  nodes_by_type :: "node_type \<Rightarrow> nat list"
  default_ctime :: nat
  default_mtime :: nat
  default_uid :: nat
  default_gid :: nat
  default_permissions :: nat
  root :: nat
  inode_table :: "nat option list"
  fs_volume :: 'v
  data_offset :: nat
  no_sparse :: bool

abbreviation files :: "'v fstree \<Rightarrow> nat list" where
  "files fs \<equiv> nodes_by_type fs TREE_NODE_FILE"

abbreviation file_of :: "'v fstree \<Rightarrow> nat \<Rightarrow> file_data" where
  "file_of fs n \<equiv> n_file (nodes fs n)"

definition set_file :: "'v fstree \<Rightarrow> nat \<Rightarrow> file_data \<Rightarrow> 'v fstree" where
  "set_file fs n f = fs\<lparr>nodes := (nodes fs)(n := (nodes fs n)\<lparr>n_file := f\<rparr>)\<rparr>"

lemma set_file_simps [simp]:
  "file_of (set_file fs n f) m = (if m = n then f else file_of fs m)"
  "nodes_by_type (set_file fs n f) = nodes_by_type fs"
  "fs_volume (set_file fs n f) = fs_volume fs"
  "data_offset (set_file fs n f) = data_offset fs"
  "no_sparse (set_file fs n f) = no_sparse fs"
  by (simp_all add: set_file_def)

section \<open>Reading\<close>

text \<open>Walk the holes of a file to find the block of the volume that holds block \<open>index\<close> of the file;
  \<^const>\<open>None\<close> when the block is sparse.\<close>

fun locate_block :: "hole list \<Rightarrow> nat \<Rightarrow> nat \<Rightarrow> nat option" where
  "locate_block [] index start = Some start"
| "locate_block (s # rest) index start =
     (if h_index s \<le> index \<and> index - h_index s < h_count s then None
      else locate_block rest index (if h_index s < index then sub64 start (h_count s) else start))"

definition ft_read_partial_block ::
  "'v volume \<Rightarrow> 'v fstree \<Rightarrow> nat \<Rightarrow> nat \<Rightarrow> nat \<Rightarrow> nat \<Rightarrow> (byte list, 'v fstree) io" where
  "ft_read_partial_block vol fs n index offset sz =
     (case locate_block (sparse (file_of fs n)) index (add64 (start_index (file_of fs n)) index) of
        None \<Rightarrow> (Some (zeros sz), fs)
      | Some start \<Rightarrow>
          (case (if offset = 0 \<and> sz = blocksize vol then read_block vol (fs_volume fs) start
                 else read_partial_block vol (fs_volume fs) start offset sz) of
             (r, v) \<Rightarrow> (r, fs\<lparr>fs_volume := v\<rparr>)))"

function ft_read_loop ::
  "'v volume \<Rightarrow> 'v fstree \<Rightarrow> nat \<Rightarrow> nat \<Rightarrow> nat \<Rightarrow> nat \<Rightarrow> nat \<Rightarrow> (byte list, 'v fstree) io" where
  "ft_read_loop vol fs n blk_index blk_offset blk_size sz =
     (if sz = 0 then (Some [], fs)
      else if blk_size = 0 \<or> sz < blk_size then (None, fs)
      else case ft_read_partial_block vol fs n blk_index blk_offset blk_size of
          (None, fs') \<Rightarrow> (None, fs')
        | (Some d, fs') \<Rightarrow>
            (let sz' = sz - blk_size
             in case ft_read_loop vol fs' n (blk_index + 1) 0 (if sz' < blocksize vol then sz' else blocksize vol) sz' of
                  (None, fs'') \<Rightarrow> (None, fs'')
                | (Some ds, fs'') \<Rightarrow> (Some (d @ ds), fs'')))"
  by pat_completeness auto
termination
  by (relation "measure (\<lambda>(vol, fs, n, i, off, b, sz). sz)") auto

declare ft_read_loop.simps [simp del]

definition fstree_file_read :: "'v volume \<Rightarrow> 'v fstree \<Rightarrow> nat \<Rightarrow> nat \<Rightarrow> nat \<Rightarrow> (byte list, 'v fstree) io" where
  "fstree_file_read vol fs n offset sz0 =
     (if sz0 = 0 then (Some [], fs)
      else if f_size (file_of fs n) \<le> offset then (Some (zeros sz0), fs)
      else let available = f_size (file_of fs n) - offset;
               sz = (if available < sz0 then available else sz0);
               blk_index = offset div blocksize vol;
               blk_offset = offset mod blocksize vol;
               blk_size = blocksize vol - blk_offset
           in case ft_read_loop vol fs n blk_index blk_offset (if sz < blk_size then sz else blk_size) sz of
                (None, fs') \<Rightarrow> (None, fs')
              | (Some d, fs') \<Rightarrow> (Some (d @ zeros (sz0 - sz)), fs'))"

section \<open>Moving a file to the end\<close>

text \<open>The loops over the file list that adjust the start of every file with stored data.\<close>

definition shift_starts :: "nat \<Rightarrow> (nat \<Rightarrow> bool) \<Rightarrow> (nat \<Rightarrow> nat) \<Rightarrow> nat list \<Rightarrow> 'v fstree \<Rightarrow> 'v fstree" where
  "shift_starts bs P g ns fs =
     fold (\<lambda>m fs. if fstree_file_physical_size bs (file_of fs m) = 0 then fs
                  else if P (start_index (file_of fs m))
                  then set_file fs m ((file_of fs m)\<lparr>start_index := g (start_index (file_of fs m))\<rparr>)
                  else fs) ns fs"

definition fstree_file_move_to_end :: "'v volume \<Rightarrow> 'v fstree \<Rightarrow> nat \<Rightarrow> (unit, 'v fstree) io" where
  "fstree_file_move_to_end vol fs n =
     (let bs = blocksize vol;
          f = file_of fs n;
          phys_size = fstree_file_physical_size bs f
      in if phys_size = 0 then (Some (), set_file fs n (f\<lparr>start_index := data_offset fs\<rparr>))
         else let blk_count = div_up phys_size bs
         in if sub64 (data_offset fs) (start_index f) \<le> blk_count then (Some (), fs)
         else let src = mul64 (start_index f) bs;
                  dst = mul64 (data_offset fs) bs;
                  sz = mul64 blk_count bs
         in case volume_memmove vol (fs_volume fs) dst src sz of
              (None, v) \<Rightarrow> (None, fs\<lparr>fs_volume := v\<rparr>)
            | (Some _, v) \<Rightarrow>
           (case volume_memmove vol v src (add64 src sz) (mul64 (sub64 (data_offset fs) (start_index f)) bs) of
              (None, v) \<Rightarrow> (None, fs\<lparr>fs_volume := v\<rparr>)
            | (Some _, v) \<Rightarrow>
           (case discard_blocks vol v (data_offset fs) blk_count of
              (None, v) \<Rightarrow> (None, fs\<lparr>fs_volume := v\<rparr>)
            | (Some _, v) \<Rightarrow>
                (let fs1 = set_file (fs\<lparr>fs_volume := v\<rparr>) n (f\<lparr>start_index := data_offset fs\<rparr>)
                 in (Some (), shift_starts bs (\<lambda>s. start_index f \<le> s) (\<lambda>s. sub64 s blk_count) (files fs1) fs1)))))"

section \<open>Appending\<close>

text \<open>The search of \<open>append_to_tail\<close>: the holes passed, the block on the volume and the holes from
  the one the loop stopped at.\<close>

fun skip_holes :: "hole list \<Rightarrow> nat \<Rightarrow> nat \<Rightarrow> hole list \<times> nat \<times> hole list" where
  "skip_holes [] tail_index real_index = ([], real_index, [])"
| "skip_holes (it # rest) tail_index real_index =
     (if h_count it < sub64 tail_index (h_index it)
      then (case skip_holes rest tail_index (sub64 real_index (h_count it)) of
              (pre, r, post) \<Rightarrow> (it # pre, r, post))
      else ([], real_index, it # rest))"

definition append_to_tail ::
  "'v volume \<Rightarrow> 'v fstree \<Rightarrow> nat \<Rightarrow> nat \<Rightarrow> nat \<Rightarrow> byte list option \<Rightarrow> nat \<Rightarrow> (unit, 'v fstree) io" where
  "append_to_tail vol fs n tail_index tail_size data sz =
     (case skip_holes (sparse (file_of fs n)) tail_index (add64 (start_index (file_of fs n)) tail_index) of
        (pre, real_index, []) \<Rightarrow>
          (case write_partial_block vol (fs_volume fs) real_index data tail_size sz of
             (r, v) \<Rightarrow> (r, fs\<lparr>fs_volume := v\<rparr>))
      | (pre, real_index, it # post) \<Rightarrow>
          (if data = None \<or> buffer_is_zero (the data) sz then (Some (), fs)
           else case fstree_file_move_to_end vol fs n of
               (None, fs1) \<Rightarrow> (None, fs1)
             | (Some _, fs1) \<Rightarrow>
            (case write_partial_block vol (fs_volume fs1) (data_offset fs1) None 0 tail_size of
               (None, v) \<Rightarrow> (None, fs1\<lparr>fs_volume := v\<rparr>)
             | (Some _, v) \<Rightarrow>
                 (let real_index' = data_offset fs1;
                      c = u32 (h_count it + (2 ^ 32 - 1));
                      fs2 = set_file (fs1\<lparr>fs_volume := v, data_offset := add64 (data_offset fs1) 1\<rparr>) n
                              ((file_of fs1 n)\<lparr>sparse := pre @ (if c = 0 then [] else [it\<lparr>h_count := c\<rparr>]) @ post\<rparr>)
                  in case write_partial_block vol (fs_volume fs2) real_index' data tail_size sz of
                       (r, v) \<Rightarrow> (r, fs2\<lparr>fs_volume := v\<rparr>)))))"

definition append_block :: "'v volume \<Rightarrow> 'v fstree \<Rightarrow> nat \<Rightarrow> byte list option \<Rightarrow> nat \<Rightarrow> (unit, 'v fstree) io" where
  "append_block vol fs n data sz =
     (case fstree_file_move_to_end vol fs n of
        (None, fs1) \<Rightarrow> (None, fs1)
      | (Some _, fs1) \<Rightarrow>
          (if sz = blocksize vol then
             (case write_block vol (fs_volume fs1) (data_offset fs1) data of
                (None, v) \<Rightarrow> (None, fs1\<lparr>fs_volume := v\<rparr>)
              | (Some _, v) \<Rightarrow> (Some (), fs1\<lparr>fs_volume := v, data_offset := add64 (data_offset fs1) 1\<rparr>))
           else
             (case write_partial_block vol (fs_volume fs1) (data_offset fs1) data 0 sz of
                (None, v) \<Rightarrow> (None, fs1\<lparr>fs_volume := v\<rparr>)
              | (Some _, v) \<Rightarrow>
             (case write_partial_block vol v (data_offset fs1) None sz (blocksize vol - sz) of
                (None, v) \<Rightarrow> (None, fs1\<lparr>fs_volume := v\<rparr>)
              | (Some _, v) \<Rightarrow> (Some (), fs1\<lparr>fs_volume := v, data_offset := add64 (data_offset fs1) 1\<rparr>)))))"

text \<open>One pass through the loop of \<open>fstree_file_append\<close>, up to the update of the file size;
  \<open>mem\<close> says whether a list element for a sparse region can be allocated.\<close>

definition append_chunk ::
  "'v volume \<Rightarrow> bool \<Rightarrow> 'v fstree \<Rightarrow> nat \<Rightarrow> nat \<Rightarrow> nat \<Rightarrow> byte list option \<Rightarrow> nat \<Rightarrow> (unit, 'v fstree) io" where
  "append_chunk vol mem fs n tail_index tail_size data diff =
     (if 0 < tail_size then append_to_tail vol fs n tail_index tail_size (map_option (take diff) data) diff
      else if \<not> no_sparse fs \<and> (data = None \<or> buffer_is_zero (the data) diff) then
        (case fstree_file_mark_sparse mem (sparse (file_of fs n)) tail_index of
           (r, hs) \<Rightarrow> (r, set_file fs n ((file_of fs n)\<lparr>sparse := hs\<rparr>)))
      else append_block vol fs n (map_option (take diff) data) diff)"

function append_loop ::
  "'v volume \<Rightarrow> bool \<Rightarrow> 'v fstree \<Rightarrow> nat \<Rightarrow> nat \<Rightarrow> nat \<Rightarrow> byte list option \<Rightarrow> nat \<Rightarrow> (unit, 'v fstree) io" where
  "append_loop vol mem fs n tail_index tail_size data sz =
     (if sz = 0 then (Some (), fs)
      else let room = blocksize vol - tail_size;
               diff = (if sz < room then sz else room)
      in if diff = 0 then (None, fs)
         else case append_chunk vol mem fs n tail_index tail_size data diff of
             (None, fs') \<Rightarrow> (None, fs')
           | (Some _, fs') \<Rightarrow>
               append_loop vol mem
                 (set_file fs' n ((file_of fs' n)\<lparr>f_size := add64 (f_size (file_of fs' n)) diff\<rparr>))
                 n (tail_index + 1) 0 (map_option (drop diff) data) (sz - diff))"
  by pat_completeness auto
termination
  by (relation "measure (\<lambda>(vol, mem, fs, n, i, t, d, sz). sz)") (auto simp: Let_def split: if_splits)

declare append_loop.simps [simp del]

definition fstree_file_append ::
  "'v volume \<Rightarrow> bool \<Rightarrow> 'v fstree \<Rightarrow> nat \<Rightarrow> byte list option \<Rightarrow> nat \<Rightarrow> (unit, 'v fstree) io" where
  "fstree_file_append vol mem fs n data sz =
     append_loop vol mem fs n (f_size (file_of fs n) div blocksize vol) (f_size (file_of fs n) mod blocksize vol) data sz"

section \<open>Writing\<close>

definition insert_sparse_block ::
  "'v volume \<Rightarrow> bool \<Rightarrow> 'v fstree \<Rightarrow> nat \<Rightarrow> nat \<Rightarrow> nat \<Rightarrow> (unit, 'v fstree) io" where
  "insert_sparse_block vol mem fs n real_index index =
     (let src = mul64 real_index (blocksize vol);
          dst = add64 src (blocksize vol);
          sz = mul64 (sub64 (data_offset fs) real_index) (blocksize vol)
      in case volume_memmove vol (fs_volume fs) dst src sz of
           (None, v) \<Rightarrow> (None, fs\<lparr>fs_volume := v\<rparr>)
         | (Some _, v) \<Rightarrow>
             (let fs1 = fs\<lparr>fs_volume := v, data_offset := add64 (data_offset fs) 1\<rparr>
              in case fstree_file_mark_not_sparse mem (sparse (file_of fs1 n)) index of
                   (None, hs) \<Rightarrow> (None, set_file fs1 n ((file_of fs1 n)\<lparr>sparse := hs\<rparr>))
                 | (Some _, hs) \<Rightarrow>
                     (case discard_blocks vol (fs_volume fs1) real_index 1 of
                        (r, v) \<Rightarrow> (r, set_file (fs1\<lparr>fs_volume := v\<rparr>) n ((file_of fs1 n)\<lparr>sparse := hs\<rparr>)))))"

definition remove_file_block ::
  "'v volume \<Rightarrow> bool \<Rightarrow> 'v fstree \<Rightarrow> nat \<Rightarrow> nat \<Rightarrow> nat \<Rightarrow> (unit, 'v fstree) io" where
  "remove_file_block vol mem fs n real_index index =
     (let dst = mul64 real_index (blocksize vol);
          src = add64 dst (blocksize vol);
          sz = sub64 (sub64 (data_offset fs) real_index) 1
      in case volume_memmove vol (fs_volume fs) dst src (mul64 sz (blocksize vol)) of
           (None, v) \<Rightarrow> (None, fs\<lparr>fs_volume := v\<rparr>)
         | (Some _, v) \<Rightarrow>
             (let fs1 = fs\<lparr>fs_volume := v, data_offset := sub64 (data_offset fs) 1\<rparr>
              in case fstree_file_mark_sparse mem (sparse (file_of fs1 n)) index of
                   (None, hs) \<Rightarrow> (None, set_file fs1 n ((file_of fs1 n)\<lparr>sparse := hs\<rparr>))
                 | (Some _, hs) \<Rightarrow>
                     (case discard_blocks vol (fs_volume fs1) (data_offset fs1) 1 of
                        (r, v) \<Rightarrow> (r, set_file (fs1\<lparr>fs_volume := v\<rparr>) n ((file_of fs1 n)\<lparr>sparse := hs\<rparr>)))))"

text \<open>The search loop of \<open>write_partial_block\<close>: either the block is stored at the returned index, or
  it lies in a hole, and the returned values are the index reached so far and the hole.\<close>

fun find_hole :: "hole list \<Rightarrow> nat \<Rightarrow> nat \<Rightarrow> nat \<times> hole option" where
  "find_hole [] index start = (start, None)"
| "find_hole (it # rest) index start =
     (if h_index it \<le> index \<and> index - h_index it < h_count it then (start, Some it)
      else find_hole rest index (if h_index it < index then sub64 start (h_count it) else start))"

definition remove_at_end ::
  "'v volume \<Rightarrow> bool \<Rightarrow> 'v fstree \<Rightarrow> nat \<Rightarrow> nat \<Rightarrow> nat \<Rightarrow> (unit, 'v fstree) io" where
  "remove_at_end vol mem fs n start index =
     (let rel = sub64 start (start_index (file_of fs n))
      in case fstree_file_move_to_end vol fs n of
           (None, fs1) \<Rightarrow> (None, fs1)
         | (Some _, fs1) \<Rightarrow>
             remove_file_block vol mem fs1 n (add64 rel (start_index (file_of fs1 n))) index)"

text \<open>The rest of \<open>write_partial_block\<close>, with the block on the volume known.\<close>

definition write_found_block ::
  "'v volume \<Rightarrow> bool \<Rightarrow> 'v fstree \<Rightarrow> nat \<Rightarrow> nat \<Rightarrow> nat \<Rightarrow> byte list option \<Rightarrow> nat \<Rightarrow> nat \<Rightarrow> (unit, 'v fstree) io" where
  "write_found_block vol mem fs n start index data offset sz =
     (let zero = (data = None \<or> buffer_is_zero (the data) sz)
      in if offset = 0 \<and> sz = blocksize vol then
           (if \<not> no_sparse fs \<and> zero then remove_at_end vol mem fs n start index
            else case write_block vol (fs_volume fs) start data of (r, v) \<Rightarrow> (r, fs\<lparr>fs_volume := v\<rparr>))
         else if \<not> no_sparse fs \<and> offset = 0 \<and> index = f_size (file_of fs n) div blocksize vol \<and>
                 sz = f_size (file_of fs n) mod blocksize vol \<and> zero
         then remove_at_end vol mem fs n start index
         else case write_partial_block vol (fs_volume fs) start data offset sz of (r, v) \<Rightarrow> (r, fs\<lparr>fs_volume := v\<rparr>))"

definition ft_write_partial_block ::
  "'v volume \<Rightarrow> bool \<Rightarrow> 'v fstree \<Rightarrow> nat \<Rightarrow> nat \<Rightarrow> byte list option \<Rightarrow> nat \<Rightarrow> nat \<Rightarrow> (unit, 'v fstree) io" where
  "ft_write_partial_block vol mem fs n index data offset sz =
     (case find_hole (sparse (file_of fs n)) index (add64 (start_index (file_of fs n)) index) of
        (start, None) \<Rightarrow> write_found_block vol mem fs n start index data offset sz
      | (start, Some it) \<Rightarrow>
          (if data = None \<or> buffer_is_zero (the data) sz then (Some (), fs)
           else let rel = sub64 start (start_index (file_of fs n))
           in case fstree_file_move_to_end vol fs n of
                (None, fs1) \<Rightarrow> (None, fs1)
              | (Some _, fs1) \<Rightarrow>
                  (let start' = sub64 (add64 rel (start_index (file_of fs1 n))) (index - h_index it)
                   in case insert_sparse_block vol mem fs1 n start' index of
                        (None, fs2) \<Rightarrow> (None, fs2)
                      | (Some _, fs2) \<Rightarrow> write_found_block vol mem fs2 n start' index data offset sz)))"

function ft_write_loop ::
  "'v volume \<Rightarrow> bool \<Rightarrow> 'v fstree \<Rightarrow> nat \<Rightarrow> nat \<Rightarrow> byte list option \<Rightarrow> nat \<Rightarrow> nat \<Rightarrow> nat \<Rightarrow> (unit, 'v fstree) io" where
  "ft_write_loop vol mem fs n blk_index data blk_offset blk_size sz =
     (if sz = 0 then (Some (), fs)
      else if blk_size = 0 \<or> sz < blk_size then (None, fs)
      else case ft_write_partial_block vol mem fs n blk_index (map_option (take blk_size) data) blk_offset blk_size of
          (None, fs') \<Rightarrow> (None, fs')
        | (Some _, fs') \<Rightarrow>
            (let sz' = sz - blk_size
             in ft_write_loop vol mem fs' n (blk_index + 1) (map_option (drop blk_size) data) 0
                  (if sz' < blocksize vol then sz' else blocksize vol) sz'))"
  by pat_completeness auto
termination
  by (relation "measure (\<lambda>(vol, mem, fs, n, i, d, off, b, sz). sz)") auto

declare ft_write_loop.simps [simp del]

text \<open>For a \<open>NULL\<close> buffer that reaches past a not empty rest of the file the source passes
  \<open>NULL + available\<close> on, which is no valid pointer: that outcome is \<^const>\<open>None\<close>.\<close>

definition fstree_file_write ::
  "'v volume \<Rightarrow> bool \<Rightarrow> 'v fstree \<Rightarrow> nat \<Rightarrow> nat \<Rightarrow> byte list option \<Rightarrow> nat \<Rightarrow> (unit, 'v fstree) io" where
  "fstree_file_write vol mem fs n offset data sz0 =
     (if sz0 = 0 then (Some (), fs)
      else case (if f_size (file_of fs n) < offset
                 then fstree_file_append vol mem fs n None (offset - f_size (file_of fs n))
                 else (Some (), fs)) of
          (None, fs1) \<Rightarrow> (None, fs1)
        | (Some _, fs1) \<Rightarrow>
            (let available = sub64 (f_size (file_of fs1 n)) offset
             in case (if available < sz0
                      then (if data = None \<and> available \<noteq> 0 then (None, fs1)
                            else fstree_file_append vol mem fs1 n (map_option (drop available) data) (sz0 - available))
                      else (Some (), fs1)) of
                  (None, fs2) \<Rightarrow> (None, fs2)
                | (Some _, fs2) \<Rightarrow>
                    (let sz = (if available < sz0 then available else sz0);
                         blk_index = offset div blocksize vol;
                         blk_offset = offset mod blocksize vol;
                         blk_size = blocksize vol - blk_offset
                     in ft_write_loop vol mem fs2 n blk_index data blk_offset (if sz < blk_size then sz else blk_size) sz)))"

section \<open>Truncating and gaps\<close>

definition fstree_file_truncate :: "'v volume \<Rightarrow> bool \<Rightarrow> 'v fstree \<Rightarrow> nat \<Rightarrow> nat \<Rightarrow> (unit, 'v fstree) io" where
  "fstree_file_truncate vol mem fs n sz =
     (let bs = blocksize vol; f = file_of fs n
      in if f_size f < sz then fstree_file_append vol mem fs n None (sz - f_size f)
         else if sz = f_size f then (Some (), fs)
         else let old_count = div_up (fstree_file_physical_size bs f) bs;
                  f1 = f\<lparr>sparse := truncate_sparse bs (sparse f) sz, f_size := sz\<rparr>;
                  fs1 = set_file fs n f1;
                  new_size = fstree_file_physical_size bs f1;
                  new_count = div_up new_size bs
         in case (if new_count < old_count then
                    (let src = add64 (start_index f1) old_count;
                         dst = add64 (start_index f1) new_count;
                         diff = sub64 (data_offset fs1) src
                     in case volume_memmove vol (fs_volume fs1) (mul64 dst bs) (mul64 src bs) (mul64 diff bs) of
                          (None, v) \<Rightarrow> (None, fs1\<lparr>fs_volume := v\<rparr>)
                        | (Some _, v) \<Rightarrow>
                       (let diff = old_count - new_count;
                            src = sub64 (data_offset fs1) diff
                        in case discard_blocks vol v src diff of
                             (None, v) \<Rightarrow> (None, fs1\<lparr>fs_volume := v\<rparr>)
                           | (Some _, v) \<Rightarrow>
                               (let fs2 = fs1\<lparr>fs_volume := v, data_offset := sub64 (data_offset fs1) diff\<rparr>
                                in (Some (), shift_starts bs (\<lambda>s. start_index f1 < s) (\<lambda>s. sub64 s diff) (files fs2) fs2))))
                  else (Some (), fs1)) of
              (None, fs2) \<Rightarrow> (None, fs2)
            | (Some _, fs2) \<Rightarrow>
                (let tail_size = new_size mod bs
                 in if tail_size = 0 then (Some (), fs2)
                    else case write_partial_block vol (fs_volume fs2)
                                (sub64 (add64 (start_index (file_of fs2 n)) new_count) 1) None tail_size (bs - tail_size) of
                           (r, v) \<Rightarrow> (r, fs2\<lparr>fs_volume := v\<rparr>)))"

definition fstree_add_gap :: "'v volume \<Rightarrow> 'v fstree \<Rightarrow> nat \<Rightarrow> nat \<Rightarrow> (unit, 'v fstree) io" where
  "fstree_add_gap vol fs index sz0 =
     (let bs = blocksize vol
      in if sz0 = 0 then (Some (), fs)
         else let sz = (if sz0 mod bs \<noteq> 0 then add64 sz0 (bs - sz0 mod bs) else sz0);
                  count = sz div bs
         in case (if index < data_offset fs then
                    (let src = mul64 index bs
                     in case volume_memmove vol (fs_volume fs) (add64 src sz) src (mul64 (data_offset fs - index) bs) of
                          (None, v) \<Rightarrow> (None, fs\<lparr>fs_volume := v\<rparr>)
                        | (Some _, v) \<Rightarrow>
                            (let fs1 = fold (\<lambda>m fs. if index \<le> start_index (file_of fs m)
                                        then set_file fs m ((file_of fs m)\<lparr>start_index := add64 (start_index (file_of fs m)) count\<rparr>)
                                        else fs) (files fs) (fs\<lparr>fs_volume := v\<rparr>)
                             in (Some (), fs1\<lparr>data_offset := add64 (data_offset fs) count\<rparr>)))
                  else (Some (), fs\<lparr>data_offset := add64 index count\<rparr>)) of
              (None, fs1) \<Rightarrow> (None, fs1)
            | (Some _, fs1) \<Rightarrow>
                (case discard_blocks vol (fs_volume fs1) index count of
                   (r, v) \<Rightarrow> (r, fs1\<lparr>fs_volume := v\<rparr>)))"

end
