(* ===== verification/Bitmap.thy ===== *)
theory Bitmap
  imports Prelude
begin

text \<open>
  \<open>lib/util/bitmap.c\<close>: a growable bitmap over 64 bit words, used by the file volume to
  remember which blocks of the image were written.

  The model keeps the array of words; \<open>word_count\<close> is its length. The allocator is a
  parameter \<open>alloc\<close>, which says whether a request for that many bytes succeeds.
  The interface locale \<open>bit_store\<close> states the contract as operations on a set of numbers
  and proves what its clients need about ranges; the interpretation shows that the bitmap
  keeps the contract.
\<close>

section \<open>The interface: a set of numbers\<close>

locale bit_store =
  fixes wf :: "'b \<Rightarrow> bool"
    and test :: "'b \<Rightarrow> nat \<Rightarrow> bool"
    and set_bit' :: "'b \<Rightarrow> nat \<Rightarrow> 'b"
    and clear_bit :: "'b \<Rightarrow> nat \<Rightarrow> 'b"
    and msb :: "'b \<Rightarrow> nat"
  assumes wf_set: "wf b \<Longrightarrow> wf (set_bit' b i)"
    and wf_clear: "wf b \<Longrightarrow> wf (clear_bit b i)"
    and test_set: "wf b \<Longrightarrow> test (set_bit' b i) j \<longleftrightarrow> j = i \<or> test b j"
    and test_clear: "wf b \<Longrightarrow> test (clear_bit b i) j \<longleftrightarrow> j \<noteq> i \<and> test b j"
    and msb_upper: "wf b \<Longrightarrow> test b j \<Longrightarrow> j \<le> msb b"
    and msb_test: "wf b \<Longrightarrow> test b j \<Longrightarrow> test b (msb b)"
    and msb_empty: "wf b \<Longrightarrow> (\<And>j. \<not> test b j) \<Longrightarrow> msb b = 0"
begin

lemma wf_clear_list: "wf b \<Longrightarrow> wf (fold (\<lambda>i b. clear_bit b i) is b)"
  by (induction "is" arbitrary: b) (simp_all add: wf_clear)

lemma test_clear_list:
  "wf b \<Longrightarrow> test (fold (\<lambda>i b. clear_bit b i) is b) j \<longleftrightarrow> j \<notin> set is \<and> test b j"
  by (induction "is" arbitrary: b) (auto simp: wf_clear test_clear)

lemma wf_set_list: "wf b \<Longrightarrow> wf (fold (\<lambda>i b. set_bit' b i) is b)"
  by (induction "is" arbitrary: b) (simp_all add: wf_set)

lemma test_set_list:
  "wf b \<Longrightarrow> test (fold (\<lambda>i b. set_bit' b i) is b) j \<longleftrightarrow> j \<in> set is \<or> test b j"
  by (induction "is" arbitrary: b) (auto simp: wf_set test_set)

text \<open>The emptiness test the file volume makes: the highest index is 0 and bit 0 is clear.\<close>

lemma empty_iff: "wf b \<Longrightarrow> (msb b = 0 \<and> \<not> test b 0) \<longleftrightarrow> (\<forall>j. \<not> test b j)"
  using msb_empty msb_test msb_upper by (metis le_zero_eq)

end

section \<open>The bitmap\<close>

record bitmap =
  words :: "64 word list"

definition word_count :: "bitmap \<Rightarrow> nat" where
  "word_count bm = length (words bm)"

definition MIN_BITMAP_WORDS :: nat where
  "MIN_BITMAP_WORDS = 64"

text \<open>\<open>1UL << off\<close>\<close>

definition bit_mask :: "nat \<Rightarrow> 64 word" where
  "bit_mask off = push_bit off 1"

lemma bit_push_1: "bit (bit_mask k) n \<longleftrightarrow> n = k \<and> n < 64"
  by (auto simp: bit_mask_def bit_exp_iff)

definition bitmap_create :: "(nat \<Rightarrow> bool) \<Rightarrow> nat \<Rightarrow> bitmap option" where
  "bitmap_create alloc bit_count =
     (let bits1 = (if bit_count mod 64 \<noteq> 0 then add64 bit_count (64 - bit_count mod 64) else bit_count);
          bits2 = (if bits1 div 64 < MIN_BITMAP_WORDS then MIN_BITMAP_WORDS * 64 else bits1);
          n = bits2 div 64
      in if \<not> alloc (n * 8) then None else Some \<lparr>words = replicate n 0\<rparr>)"

definition bitmap_is_set :: "bitmap \<Rightarrow> nat \<Rightarrow> bool" where
  "bitmap_is_set bm index =
     (let word_idx = index div 64; word_off = index mod 64
      in if word_count bm \<le> word_idx then False
         else words bm ! word_idx AND bit_mask word_off \<noteq> 0)"

text \<open>The doubling loop of \<open>bitmap_set\<close>. On a bitmap without words the C loop would not
  end; \<open>bitmap_wf\<close> excludes that, and every operation keeps it.\<close>

function grow_count :: "nat \<Rightarrow> nat \<Rightarrow> nat" where
  "grow_count word_idx new_count =
     (if new_count \<le> word_idx \<and> new_count \<noteq> 0 then grow_count word_idx (new_count * 2) else new_count)"
  by pat_completeness auto
termination
  by (relation "measure (\<lambda>(w, n). Suc w - n)") auto

declare grow_count.simps [simp del]

definition bitmap_set :: "(nat \<Rightarrow> bool) \<Rightarrow> bitmap \<Rightarrow> nat \<Rightarrow> (unit, bitmap) io" where
  "bitmap_set alloc bm index =
     (let word_idx = index div 64; word_off = index mod 64
      in if word_count bm \<le> word_idx
         then (let new_count = grow_count word_idx (word_count bm * 2)
               in if \<not> alloc (new_count * 8) then (None, bm)
                  else let new = words bm @ replicate (new_count - word_count bm) 0
                       in (Some (), bm\<lparr>words := new[word_idx := new ! word_idx OR bit_mask word_off]\<rparr>))
         else (Some (), bm\<lparr>words := (words bm)[word_idx := words bm ! word_idx OR bit_mask word_off]\<rparr>))"

definition bitmap_clear :: "bitmap \<Rightarrow> nat \<Rightarrow> bitmap" where
  "bitmap_clear bm index =
     (let word_idx = index div 64; word_off = index mod 64
      in if word_idx < word_count bm
         then bm\<lparr>words := (words bm)[word_idx := words bm ! word_idx AND NOT (bit_mask word_off)]\<rparr>
         else bm)"

definition bitmap_set_value :: "(nat \<Rightarrow> bool) \<Rightarrow> bitmap \<Rightarrow> nat \<Rightarrow> bool \<Rightarrow> (unit, bitmap) io" where
  "bitmap_set_value alloc bm index b =
     (if b then bitmap_set alloc bm index else (Some (), bitmap_clear bm index))"

text \<open>\<open>while (i > 0 && words[i - 1] == 0) --i;\<close>\<close>

fun shrink_count :: "64 word list \<Rightarrow> nat \<Rightarrow> nat" where
  "shrink_count ws 0 = 0"
| "shrink_count ws (Suc i) = (if ws ! i = 0 then shrink_count ws i else Suc i)"

definition bitmap_shrink :: "(nat \<Rightarrow> bool) \<Rightarrow> bitmap \<Rightarrow> bitmap" where
  "bitmap_shrink alloc bm =
     (let i = shrink_count (words bm) (word_count bm)
      in if 0 < i \<and> i \<le> word_count bm div 2
         then (if alloc (i * 8) then bm\<lparr>words := take i (words bm)\<rparr> else bm)
         else bm)"

text \<open>\<open>while (i > 0 && words[i] == 0) --i;\<close>\<close>

fun msb_word :: "64 word list \<Rightarrow> nat \<Rightarrow> nat" where
  "msb_word ws 0 = 0"
| "msb_word ws (Suc i) = (if ws ! Suc i = 0 then msb_word ws i else Suc i)"

text \<open>\<open>while (word != 0x01) { word = (word >> 1) & mask; index += 1; }\<close>\<close>

lemma drop_bit_mask: "drop_bit (Suc 0) w AND NOT (bit_mask 63) = drop_bit (Suc 0) (w :: 64 word)"
proof (rule bit_word_eqI)
  fix n assume n: "n < LENGTH(64)"
  show "bit (drop_bit (Suc 0) w AND NOT (bit_mask 63)) n = bit (drop_bit (Suc 0) w) n"
    using n bit_imp_le_length [of w "1 + n"]
    by (auto simp: bit_and_iff bit_not_iff bit_push_1 bit_drop_bit_eq)
qed

lemma unat_drop_bit_1: "unat (drop_bit (Suc 0) (w :: 64 word)) = unat w div 2"
  by (simp only: unat_drop_bit_eq) (simp add: drop_bit_Suc)

function msb_bit :: "64 word \<Rightarrow> nat \<Rightarrow> nat" where
  "msb_bit word index =
     (if word = 1 \<or> word = 0 then index
      else msb_bit (drop_bit 1 word AND NOT (bit_mask 63)) (index + 1))"
  by pat_completeness auto
termination
proof (relation "measure (\<lambda>(w, i). unat w)", goal_cases)
  case (2 w i)
  have "0 < unat w" using 2 by (simp add: unat_gt_0)
  then show ?case by (simp add: drop_bit_mask unat_drop_bit_1)
qed simp

declare msb_bit.simps [simp del]

definition bitmap_msb_index :: "bitmap \<Rightarrow> nat" where
  "bitmap_msb_index bm =
     (if word_count bm = 0 then 0
      else let i = msb_word (words bm) (word_count bm - 1); word = words bm ! i
           in if word = 0 then 0 else msb_bit word (i * 64))"

section \<open>Correctness\<close>

definition bitmap_wf :: "bitmap \<Rightarrow> bool" where
  "bitmap_wf bm \<longleftrightarrow> words bm \<noteq> []"

lemma bitmap_is_set_iff:
  "bitmap_is_set bm i \<longleftrightarrow> i div 64 < length (words bm) \<and> bit (words bm ! (i div 64)) (i mod 64)"
proof -
  have "w AND bit_mask k \<noteq> 0 \<longleftrightarrow> bit w k" if "k < 64" for w :: "64 word" and k
  proof
    assume "w AND bit_mask k \<noteq> 0"
    then obtain n where "bit (w AND bit_mask k) n"
      using bit_word_eqI [of "w AND bit_mask k" 0] by auto
    then show "bit w k" by (auto simp: bit_and_iff bit_push_1)
  next
    assume "bit w k"
    with that have "bit (w AND bit_mask k) k" by (simp add: bit_and_iff bit_push_1)
    then show "w AND bit_mask k \<noteq> 0" by (auto simp del: bit_and_iff)
  qed
  then show ?thesis by (auto simp: bitmap_is_set_def word_count_def Let_def)
qed

lemma grow_count_gt: "0 < n \<Longrightarrow> w < grow_count w n \<and> n \<le> grow_count w n"
proof (induction w n rule: grow_count.induct)
  case (1 w n)
  show ?case
  proof (cases "n \<le> w")
    case True
    with "1" show ?thesis by (auto simp: grow_count.simps [of w n])
  next
    case False
    with "1" show ?thesis by (auto simp: grow_count.simps [of w n])
  qed
qed

lemma div_mod_64_eq: "(j :: nat) div 64 = i div 64 \<and> j mod 64 = i mod 64 \<longleftrightarrow> j = i"
  by (metis div_mult_mod_eq)

lemma bit_or_push: "k < 64 \<Longrightarrow> bit (w OR bit_mask k) n \<longleftrightarrow> bit w n \<or> n = k"
  by (auto simp: bit_or_iff bit_push_1)

lemma bit_and_not_push:
  "n < 64 \<Longrightarrow> bit (w AND NOT (bit_mask k)) n \<longleftrightarrow> bit w n \<and> n \<noteq> k"
  by (auto simp: bit_and_iff bit_not_iff bit_push_1)

lemma is_set_word_update:
  assumes "i div 64 < length ws"
  shows "bitmap_is_set \<lparr>words = ws[i div 64 := ws ! (i div 64) OR bit_mask (i mod 64)]\<rparr> j
    \<longleftrightarrow> j = i \<or> bitmap_is_set \<lparr>words = ws\<rparr> j"
proof (cases "j div 64 = i div 64")
  case True
  then show ?thesis
    using assms div_mod_64_eq [of j i] by (auto simp: bitmap_is_set_iff bit_or_push)
next
  case False
  then show ?thesis by (auto simp: bitmap_is_set_iff)
qed

lemma is_set_pad: "bitmap_is_set \<lparr>words = ws @ replicate k 0\<rparr> j \<longleftrightarrow> bitmap_is_set \<lparr>words = ws\<rparr> j"
  by (auto simp: bitmap_is_set_iff nth_append)

text \<open>The set operation with an allocator that always delivers.\<close>

lemma bitmap_set_ok:
  assumes "bitmap_wf bm" "\<And>n. alloc n"
  shows "\<exists>bm'. bitmap_set alloc bm i = (Some (), bm') \<and> bitmap_wf bm' \<and>
    (\<forall>j. bitmap_is_set bm' j \<longleftrightarrow> j = i \<or> bitmap_is_set bm j)"
proof (cases "word_count bm \<le> i div 64")
  case False
  then show ?thesis
    using assms is_set_word_update [of i "words bm"]
    by (cases bm) (auto simp: bitmap_set_def Let_def bitmap_wf_def word_count_def)
next
  case True
  let ?n = "grow_count (i div 64) (word_count bm * 2)"
  let ?ws = "words bm @ replicate (?n - word_count bm) 0"
  have "0 < word_count bm * 2" using assms(1) by (simp add: bitmap_wf_def word_count_def)
  from grow_count_gt [OF this, of "i div 64"] True have "i div 64 < length ?ws"
    by (simp add: word_count_def)
  then show ?thesis
    using True assms is_set_word_update [of i ?ws] is_set_pad
    by (cases bm) (auto simp: bitmap_set_def Let_def bitmap_wf_def)
qed

lemma bitmap_set_fails: "bitmap_set alloc bm i = (None, bm') \<Longrightarrow> bm' = bm"
  by (auto simp: bitmap_set_def Let_def split: if_splits)

lemma bitmap_clear_is_set: "bitmap_is_set (bitmap_clear bm i) j \<longleftrightarrow> j \<noteq> i \<and> bitmap_is_set bm j"
proof (cases "j div 64 = i div 64")
  case True
  then show ?thesis
    using div_mod_64_eq [of j i]
    by (auto simp: bitmap_is_set_iff bitmap_clear_def word_count_def Let_def bit_and_not_push)
next
  case False
  then show ?thesis by (auto simp: bitmap_is_set_iff bitmap_clear_def word_count_def Let_def)
qed

lemma bitmap_clear_wf: "bitmap_wf bm \<Longrightarrow> bitmap_wf (bitmap_clear bm i)"
  by (simp add: bitmap_wf_def bitmap_clear_def Let_def)

lemma bitmap_create_ok:
  assumes "bitmap_create alloc n = Some bm"
  shows "bitmap_wf bm" and "\<not> bitmap_is_set bm j"
  using assms by (auto simp: bitmap_create_def Let_def bitmap_wf_def bitmap_is_set_iff
      MIN_BITMAP_WORDS_def split: if_splits)

lemma shrink_count_props:
  "shrink_count ws n \<le> n \<and> (\<forall>k. shrink_count ws n \<le> k \<and> k < n \<longrightarrow> ws ! k = 0)"
  by (induction n) (auto simp: less_Suc_eq)

lemma bitmap_shrink_is_set: "bitmap_is_set (bitmap_shrink alloc bm) j \<longleftrightarrow> bitmap_is_set bm j"
proof -
  have "bit ((take n ws :: 64 word list) ! k) m = bit (ws ! k) m" if "k < n" for n ws k m
    using that by simp
  then show ?thesis
    using shrink_count_props [of "words bm" "word_count bm"]
    by (cases "j div 64 < shrink_count (words bm) (word_count bm)")
      (auto simp: bitmap_is_set_iff bitmap_shrink_def word_count_def Let_def)
qed

lemma bitmap_shrink_wf: "bitmap_wf bm \<Longrightarrow> bitmap_wf (bitmap_shrink alloc bm)"
  by (auto simp: bitmap_wf_def bitmap_shrink_def Let_def)

lemma msb_word_props:
  "msb_word ws n \<le> n \<and> (\<forall>k. msb_word ws n < k \<and> k \<le> n \<longrightarrow> ws ! k = 0) \<and>
     (msb_word ws n \<noteq> 0 \<longrightarrow> ws ! msb_word ws n \<noteq> 0)"
  by (induction n) (auto simp: le_Suc_eq)

lemma msb_bit_props:
  "w \<noteq> 0 \<Longrightarrow> \<exists>k<64. msb_bit w b = b + k \<and> bit w k \<and> (\<forall>n. bit w n \<longrightarrow> n \<le> k)"
proof (induction w b rule: msb_bit.induct)
  case (1 w b)
  show ?case
  proof (cases "w = 1")
    case True
    then show ?thesis by (auto simp: msb_bit.simps bit_1_iff)
  next
    case False
    let ?v = "drop_bit (Suc 0) w"
    have "?v \<noteq> 0"
    proof
      assume "?v = 0"
      then have "unat w div 2 = 0" using unat_drop_bit_1 [of w] by simp
      then have "unat w = 0 \<or> unat w = 1" by linarith
      then show False using "1.prems" False by (metis unat_eq_zero word_unat_eq_iff unat_1)
    qed
    with "1.IH" False "1.prems" obtain k where
      k: "k < 64" "msb_bit ?v (b + 1) = b + 1 + k" "bit ?v k" "\<forall>n. bit ?v n \<longrightarrow> n \<le> k"
      by (auto simp: drop_bit_mask)
    have wk: "bit w (Suc k)" using k(3) by (simp add: bit_drop_bit_eq)
    then have "Suc k < 64" using bit_imp_le_length [OF wk] by simp
    moreover have "n \<le> Suc k" if "bit w n" for n
    proof (cases n)
      case (Suc m)
      then show ?thesis using k(4) that by (auto simp: bit_drop_bit_eq)
    qed simp
    moreover have "msb_bit w b = b + Suc k"
      using k(2) False "1.prems" by (simp add: msb_bit.simps [of w b] drop_bit_mask)
    ultimately show ?thesis using wk by blast
  qed
qed

lemma bitmap_msb_index_props:
  assumes "bitmap_is_set bm j"
  shows "j \<le> bitmap_msb_index bm" and "bitmap_is_set bm (bitmap_msb_index bm)"
proof -
  let ?n = "word_count bm - 1"
  let ?i = "msb_word (words bm) ?n"
  have j: "j div 64 < word_count bm" "bit (words bm ! (j div 64)) (j mod 64)"
    using assms by (simp_all add: bitmap_is_set_iff word_count_def)
  then have wj: "words bm ! (j div 64) \<noteq> 0" by auto
  note m = msb_word_props [of "words bm" ?n]
  have le: "j div 64 \<le> ?i"
  proof (rule ccontr)
    assume "\<not> ?thesis"
    then have "words bm ! (j div 64) = 0" using m j(1) by auto
    then show False using wj by simp
  qed
  have wi: "words bm ! ?i \<noteq> 0"
    using m wj le by (cases "?i = 0") auto
  from msb_bit_props [OF wi] obtain k where
    k: "k < 64" "msb_bit (words bm ! ?i) (?i * 64) = ?i * 64 + k" "bit (words bm ! ?i) k"
      "\<forall>n. bit (words bm ! ?i) n \<longrightarrow> n \<le> k"
    by blast
  have idx: "bitmap_msb_index bm = ?i * 64 + k"
    using wi k(2) j(1) by (simp add: bitmap_msb_index_def Let_def)
  show "bitmap_is_set bm (bitmap_msb_index bm)"
    using idx k m j(1) by (simp add: bitmap_is_set_iff word_count_def) linarith
  show "j \<le> bitmap_msb_index bm"
  proof (cases "j div 64 = ?i")
    case True
    then have "j mod 64 \<le> k" using k(4) j(2) by simp
    moreover have "j = ?i * 64 + j mod 64" using True by (metis div_mult_mod_eq)
    ultimately show ?thesis using idx by simp
  next
    case False
    with le have "j div 64 + 1 \<le> ?i" by simp
    then have "(j div 64 + 1) * 64 \<le> ?i * 64" by (rule mult_right_mono) simp
    moreover have "j < 64 + j div 64 * 64" by (rule dividend_less_div_times) simp
    ultimately show ?thesis using idx by simp
  qed
qed

lemma bitmap_msb_index_empty: "(\<And>j. \<not> bitmap_is_set bm j) \<Longrightarrow> bitmap_msb_index bm = 0"
proof -
  assume none: "\<And>j. \<not> bitmap_is_set bm j"
  have "words bm ! i = 0" if "i < word_count bm" for i
  proof (rule bit_word_eqI)
    fix n assume "n < LENGTH(64)"
    then have n: "(i * 64 + n) div 64 = i" "(i * 64 + n) mod 64 = n" by simp_all
    show "bit (words bm ! i) n = bit 0 n"
      using none [of "i * 64 + n"] that n by (simp add: bitmap_is_set_iff word_count_def)
  qed
  moreover have "msb_word (words bm) (word_count bm - 1) \<le> word_count bm - 1"
    using msb_word_props [of "words bm" "word_count bm - 1"] by simp
  ultimately show ?thesis
    by (cases "word_count bm") (simp_all add: bitmap_msb_index_def Let_def)
qed

interpretation bm: bit_store bitmap_wf bitmap_is_set
  "\<lambda>b i. snd (bitmap_set (\<lambda>_. True) b i)" bitmap_clear bitmap_msb_index
proof (unfold_locales, goal_cases)
  case (1 b i) from bitmap_set_ok [OF this, of "\<lambda>_. True" i] show ?case by force
next
  case (2 b i) then show ?case by (rule bitmap_clear_wf)
next
  case (3 b i j) from bitmap_set_ok [OF this, of "\<lambda>_. True" i] show ?case by force
next
  case (4 b i j) show ?case by (rule bitmap_clear_is_set)
next
  case (5 b j) from 5(2) show ?case by (rule bitmap_msb_index_props(1))
next
  case (6 b j) from 6(2) show ?case by (rule bitmap_msb_index_props(2))
next
  case (7 b) show ?case by (rule bitmap_msb_index_empty) (rule 7(2))
qed

end
