(* ===== verification/Reflect.thy ===== *)
theory Reflect
  imports Prelude
begin

text \<open>
  \<open>lib/util/reflect.c\<close> and the property types of \<open>include/predef.h\<close>: objects carry a chain of
  meta objects, from the most derived type to its base, and a property index counts through
  the chain. A chain is a list of meta objects; the state of the object is \<open>'o\<close>. The locale
  \<open>property_access\<close> is what the configuration reader relies on: a stored property reads back.
\<close>

datatype property_type = PROPERTY_TYPE_NONE | PROPERTY_TYPE_STRING | PROPERTY_TYPE_BOOL
  | PROPERTY_TYPE_U32_NUMBER | PROPERTY_TYPE_U64_NUMBER | PROPERTY_TYPE_U64_SIZE | PROPERTY_TYPE_ENUM

datatype property_value = PropNone | PropString string | PropBool bool | PropU32 nat | PropU64 nat
  | PropSize nat | PropEnum int

fun prop_type :: "property_value \<Rightarrow> property_type" where
  "prop_type PropNone = PROPERTY_TYPE_NONE"
| "prop_type (PropString s) = PROPERTY_TYPE_STRING"
| "prop_type (PropBool b) = PROPERTY_TYPE_BOOL"
| "prop_type (PropU32 n) = PROPERTY_TYPE_U32_NUMBER"
| "prop_type (PropU64 n) = PROPERTY_TYPE_U64_NUMBER"
| "prop_type (PropSize n) = PROPERTY_TYPE_U64_SIZE"
| "prop_type (PropEnum i) = PROPERTY_TYPE_ENUM"

record property_desc =
  pd_type :: property_type
  pd_name :: string
  pd_enum :: "(string \<times> int) list"

record 'o meta_object =
  meta_name :: string
  meta_count :: nat
  meta_desc :: "nat \<Rightarrow> property_desc option"
  meta_set :: "nat \<Rightarrow> 'o \<Rightarrow> property_value \<Rightarrow> 'o option"
  meta_get :: "nat \<Rightarrow> 'o \<Rightarrow> property_value option"

definition object_get_property_count :: "'o meta_object list \<Rightarrow> nat" where
  "object_get_property_count chain = foldl (\<lambda>n m. n + meta_count m) 0 chain"

fun meta_from_property_index :: "'o meta_object list \<Rightarrow> nat \<Rightarrow> ('o meta_object \<times> nat) option" where
  "meta_from_property_index [] idx = None"
| "meta_from_property_index (m # ms) idx =
     (if idx < meta_count m then Some (m, idx) else meta_from_property_index ms (idx - meta_count m))"

definition object_get_property_desc :: "'o meta_object list \<Rightarrow> nat \<Rightarrow> property_desc option" where
  "object_get_property_desc chain idx =
     (case meta_from_property_index chain idx of None \<Rightarrow> None | Some (m, i) \<Rightarrow> meta_desc m i)"

definition object_get_property :: "'o meta_object list \<Rightarrow> 'o \<Rightarrow> nat \<Rightarrow> property_value option" where
  "object_get_property chain obj idx =
     (case meta_from_property_index chain idx of None \<Rightarrow> None | Some (m, i) \<Rightarrow> meta_get m i obj)"

definition object_set_property :: "'o meta_object list \<Rightarrow> 'o \<Rightarrow> nat \<Rightarrow> property_value \<Rightarrow> 'o option" where
  "object_set_property chain obj idx value =
     (case meta_from_property_index chain idx of None \<Rightarrow> None | Some (m, i) \<Rightarrow> meta_set m i obj value)"

section \<open>Resolution of property indices\<close>

lemma count_sum: "foldl (\<lambda>n m. n + meta_count m) k chain = k + (\<Sum>m\<leftarrow>chain. meta_count m)"
  by (induction chain arbitrary: k) simp_all

lemma property_count_Cons [simp]:
  "object_get_property_count (m # ms) = meta_count m + object_get_property_count ms"
  by (simp add: object_get_property_count_def count_sum)

lemma property_count_Nil [simp]: "object_get_property_count [] = 0"
  by (simp add: object_get_property_count_def)

text \<open>An index below the count names exactly one meta object of the chain, behind all the
  properties of the more derived ones; every other index is refused.\<close>

lemma meta_from_property_index_iff:
  "meta_from_property_index chain idx = Some (m, i) \<longleftrightarrow>
     (\<exists>pre post. chain = pre @ m # post \<and> idx = object_get_property_count pre + i \<and> i < meta_count m)"
proof (induction chain arbitrary: idx)
  case (Cons a chain)
  show ?case
  proof (cases "idx < meta_count a")
    case True
    then show ?thesis
    proof (intro iffI)
      assume "meta_from_property_index (a # chain) idx = Some (m, i)"
      then show "\<exists>pre post. a # chain = pre @ m # post \<and> idx = object_get_property_count pre + i \<and> i < meta_count m"
        using True by (intro exI [of _ "[]"] exI [of _ chain]) auto
    next
      assume "\<exists>pre post. a # chain = pre @ m # post \<and> idx = object_get_property_count pre + i \<and> i < meta_count m"
      then obtain pre post where p: "a # chain = pre @ m # post" "idx = object_get_property_count pre + i" by blast
      then show "meta_from_property_index (a # chain) idx = Some (m, i)"
        using True by (cases pre) auto
    qed
  next
    case False
    have "(\<exists>pre post. a # chain = pre @ m # post \<and> idx = object_get_property_count pre + i \<and> i < meta_count m) \<longleftrightarrow>
        (\<exists>pre post. chain = pre @ m # post \<and> idx - meta_count a = object_get_property_count pre + i \<and> i < meta_count m)"
    proof
      assume "\<exists>pre post. a # chain = pre @ m # post \<and> idx = object_get_property_count pre + i \<and> i < meta_count m"
      then obtain pre post where p: "a # chain = pre @ m # post" "idx = object_get_property_count pre + i" "i < meta_count m"
        by blast
      with False obtain pre' where "pre = a # pre'" by (cases pre) auto
      then show "\<exists>pre post. chain = pre @ m # post \<and> idx - meta_count a = object_get_property_count pre + i \<and> i < meta_count m"
        using p by (intro exI [of _ pre'] exI [of _ post]) auto
    next
      assume "\<exists>pre post. chain = pre @ m # post \<and> idx - meta_count a = object_get_property_count pre + i \<and> i < meta_count m"
      then obtain pre post where "chain = pre @ m # post" "idx - meta_count a = object_get_property_count pre + i" "i < meta_count m"
        by blast
      then show "\<exists>pre post. a # chain = pre @ m # post \<and> idx = object_get_property_count pre + i \<and> i < meta_count m"
        using False by (intro exI [of _ "a # pre"] exI [of _ post]) auto
    qed
    then show ?thesis using Cons False by simp
  qed
qed simp

lemma meta_from_property_index_None:
  "meta_from_property_index chain idx = None \<longleftrightarrow> object_get_property_count chain \<le> idx"
proof (induction chain arbitrary: idx)
  case (Cons m ms)
  show ?case
  proof (cases "idx < meta_count m")
    case False
    then show ?thesis using Cons.IH [of "idx - meta_count m"] by (simp add: le_diff_conv2 add.commute)
  qed simp
qed simp

section \<open>The contract of a meta object\<close>

text \<open>\<open>kept m\<close> are the objects that can be configured; a value the meta object accepts is the
  value it reports, up to the rounding \<open>rnd\<close> the object type applies.\<close>

locale property_access =
  fixes m :: "'o meta_object" and kept :: "'o \<Rightarrow> bool" and rnd :: "nat \<Rightarrow> 'o \<Rightarrow> property_value \<Rightarrow> property_value"
  assumes desc_total: "i < meta_count m \<longleftrightarrow> meta_desc m i \<noteq> None"
    and set_kept: "kept x \<Longrightarrow> meta_set m i x v = Some y \<Longrightarrow> kept y"
    and get_set: "kept x \<Longrightarrow> meta_set m i x v = Some y \<Longrightarrow> meta_get m i y = Some (rnd i x v)"
begin

lemma object_get_set:
  assumes "kept x" "object_set_property (m # ms) x idx v = Some y" "idx < meta_count m"
  shows "object_get_property (m # ms) y idx = Some (rnd idx x v)" "kept y"
  using assms get_set set_kept by (auto simp: object_set_property_def object_get_property_def)

lemma object_desc_total: "idx < meta_count m \<Longrightarrow> \<exists>d. object_get_property_desc (m # ms) idx = Some d"
  using desc_total [of idx] by (auto simp: object_get_property_desc_def)

end

end
