(* ===== verification/FileVolume.thy ===== *)
theory FileVolume
  imports Volume Bitmap Reflect
begin

text \<open>
  \<open>lib/image/basic/file_volume.c\<close>: a volume kept in a Unix file.

  The state is the open file, the bitmap of the blocks that were written, \<open>bytes_used\<close> (the
  size the file will be cut to) and the limits on the block count; the block size is fixed when
  the volume is made and is a parameter of the operations. What the program asks of the
  system beyond \<open>pread\<close> and \<open>pwrite\<close> is described by \<open>os_env\<close>: whether an allocation succeeds, and
  whether \<open>copy_file_range\<close>, \<open>fallocate\<close> with hole punching, \<open>ftruncate\<close> and \<open>fsync\<close> work on
  this file.

  The theory shows that the file volume keeps the contract \<open>volume\<close>: the interpretation
  \<open>fv\<close> makes the helpers of \<open>Volume\<close> correct on it.
\<close>

record os_env =
  alloc :: "nat \<Rightarrow> bool"
  has_copy_range :: bool
  has_punch :: bool
  has_truncate :: bool
  has_fsync :: bool

record file_volume =
  fd :: osfile
  bitmap :: bitmap
  bytes_used :: nat
  min_block_count :: nat
  max_block_count :: nat

section \<open>System calls and helpers\<close>

definition os_copy_file_range :: "osfile \<Rightarrow> nat \<Rightarrow> nat \<Rightarrow> nat \<Rightarrow> nat sysret \<times> osfile" where
  "os_copy_file_range f off_in off_out n =
     (case os_next f off_in n of
        (RIntr, f') \<Rightarrow> (RIntr, f')
      | (RErr, f') \<Rightarrow> (RErr, f')
      | (RVal m, f') \<Rightarrow>
          (let d = take m (drop off_in (fbytes f'))
           in (RVal (length d), f'\<lparr>fbytes := put_bytes (fbytes f') off_out d\<rparr>)))"

lemma os_copy_sched:
  "os_copy_file_range f a b n = (r, f') \<Longrightarrow>
     length (sched f') \<le> length (sched f) \<and> (r = RIntr \<longrightarrow> length (sched f') < length (sched f)) \<and>
     (sched f' \<noteq> [] \<and> r \<noteq> RErr \<longrightarrow> length (sched f') < length (sched f))"
  by (auto simp: os_copy_file_range_def os_next_def Let_def
      split: prod.splits sysret.splits if_splits list.splits io_event.splits)

text \<open>The \<open>copy_file_range\<close> loop of \<open>transfer_blocks\<close> for the last \<open>n\<close> bytes: the result is where
  it stopped and how many bytes are left. At the end of the file the kernel reports 0 bytes
  on every call and the loop does not end; that outcome is \<^const>\<open>None\<close>.\<close>

function copy_range_loop :: "osfile \<Rightarrow> nat \<Rightarrow> nat \<Rightarrow> nat \<Rightarrow> (nat \<times> nat \<times> nat, osfile) io" where
  "copy_range_loop f off_in off_out n =
     (if n = 0 then (Some (off_in, off_out, 0), f)
      else case os_copy_file_range f off_in off_out n of
        (RIntr, f') \<Rightarrow> copy_range_loop f' off_in off_out n
      | (RErr, f') \<Rightarrow> (Some (off_in, off_out, n), f')
      | (RVal m, f') \<Rightarrow>
          (if m = 0 \<and> sched f' = [] then (None, f')
           else copy_range_loop f' (off_in + m) (off_out + m) (n - m)))"
  by pat_completeness auto
termination
proof (relation "measure (\<lambda>(f, a, b, n). n + length (sched f))", goal_cases)
  case (2 f a b n x y) then show ?case using os_copy_sched [of f a b n x y] by auto
next
  case (3 f a b n x y m)
  then show ?case using os_copy_sched [of f a b n x y] by (cases "m = 0") auto
qed simp

declare copy_range_loop.simps [simp del]

definition transfer_blocks :: "os_env \<Rightarrow> nat \<Rightarrow> osfile \<Rightarrow> nat \<Rightarrow> nat \<Rightarrow> nat \<Rightarrow> (unit, osfile) io" where
  "transfer_blocks env bs f src dst count =
     (let sz = mul64 bs count;
          off_in = mul64 src sz;
          off_out = mul64 dst sz
      in case (if has_copy_range env then copy_range_loop f off_in off_out sz
               else (Some (off_in, off_out, sz), f)) of
           (None, f') \<Rightarrow> (None, f')
         | (Some (a, b, left), f') \<Rightarrow>
             (if left = 0 then (Some (), f')
              else let diff = (if bs < left then bs else left)
                   in case read_retry f' a diff of
                        (None, f'') \<Rightarrow> (None, f'')
                      | (Some d, f'') \<Rightarrow> write_retry f'' b d))"

definition check_bounds :: "nat \<Rightarrow> file_volume \<Rightarrow> nat \<Rightarrow> nat \<Rightarrow> nat \<Rightarrow> bool" where
  "check_bounds bs v index offset sz \<longleftrightarrow>
     index < max_block_count v \<and> offset \<le> bs \<and> sz \<le> bs - offset"

definition truncate_file :: "os_env \<Rightarrow> osfile \<Rightarrow> nat \<Rightarrow> (unit, osfile) io" where
  "truncate_file env f sz =
     (if has_truncate env \<and> sz < 2 ^ 63 then (Some (), os_ftruncate f sz) else (None, f))"

text \<open>\<open>fallocate(FALLOC_FL_PUNCH_HOLE | FALLOC_FL_KEEP_SIZE)\<close>: the range reads as zero, the size
  of the file stays.\<close>

definition punch_hole :: "os_env \<Rightarrow> osfile \<Rightarrow> nat \<Rightarrow> nat \<Rightarrow> (unit, osfile) io" where
  "punch_hole env f offset sz =
     (if has_punch env
      then (Some (), f\<lparr>fbytes := map (\<lambda>p. if offset \<le> p \<and> p < offset + sz then 0 else fbytes f ! p)
                              [0..<length (fbytes f)]\<rparr>)
      else (None, f))"

section \<open>The operations\<close>

definition fv_read_partial_block ::
  "nat \<Rightarrow> file_volume \<Rightarrow> nat \<Rightarrow> nat \<Rightarrow> nat \<Rightarrow> (byte list, file_volume) io" where
  "fv_read_partial_block bs v index offset sz =
     (if \<not> check_bounds bs v index offset sz then (None, v)
      else if sz = 0 then (Some [], v)
      else if \<not> bitmap_is_set (bitmap v) index then (Some (zeros sz), v)
      else let pos = add64 (mul64 index bs) offset;
               avail = sub64 (bytes_used v) pos;
               sz' = (if avail \<le> sz then avail else sz)
           in case read_retry (fd v) pos sz' of
                (None, f) \<Rightarrow> (None, v\<lparr>fd := f\<rparr>)
              | (Some d, f) \<Rightarrow> (Some (d @ zeros (sz - sz')), v\<lparr>fd := f\<rparr>))"

definition fv_read_block :: "nat \<Rightarrow> file_volume \<Rightarrow> nat \<Rightarrow> (byte list, file_volume) io" where
  "fv_read_block bs v index = fv_read_partial_block bs v index 0 bs"

definition fv_write_partial_block ::
  "os_env \<Rightarrow> nat \<Rightarrow> file_volume \<Rightarrow> nat \<Rightarrow> byte list option \<Rightarrow> nat \<Rightarrow> nat \<Rightarrow> (unit, file_volume) io" where
  "fv_write_partial_block env bs v index buffer offset sz =
     (if \<not> check_bounds bs v index offset sz then (None, v)
      else case bitmap_set (alloc env) (bitmap v) index of
          (None, bm) \<Rightarrow> (None, v\<lparr>bitmap := bm\<rparr>)
        | (Some _, bm) \<Rightarrow>
            (let data = (case buffer of None \<Rightarrow> zeros sz | Some d \<Rightarrow> take sz d);
                 last = add64 (add64 (mul64 index bs) offset) sz;
                 v1 = v\<lparr>bitmap := bm, bytes_used := (if bytes_used v < last then last else bytes_used v)\<rparr>
             in case write_retry (fd v1) (add64 (mul64 index bs) offset) data of
                  (r, f) \<Rightarrow> (r, v1\<lparr>fd := f\<rparr>)))"

text \<open>The fallback of \<open>discard_blocks\<close>: overwrite the used blocks of the range with zeros.\<close>

fun discard_fallback :: "nat \<Rightarrow> file_volume \<Rightarrow> nat \<Rightarrow> nat \<Rightarrow> (unit, file_volume) io" where
  "discard_fallback bs v index 0 = (Some (), v)"
| "discard_fallback bs v index (Suc count) =
     (if \<not> bitmap_is_set (bitmap v) index then discard_fallback bs v (index + 1) count
      else case write_retry (fd v) (mul64 index bs) (zeros bs) of
          (None, f) \<Rightarrow> (None, v\<lparr>fd := f\<rparr>)
        | (Some _, f) \<Rightarrow>
            discard_fallback bs (v\<lparr>fd := f, bitmap := bitmap_clear (bitmap v) index\<rparr>) (index + 1) count)"

text \<open>The code after the label \<open>out\<close>.\<close>

definition discard_shrink :: "nat \<Rightarrow> file_volume \<Rightarrow> file_volume" where
  "discard_shrink bs v =
     (let last_index = bitmap_msb_index (bitmap v);
          total_size = (if last_index = 0 \<and> \<not> bitmap_is_set (bitmap v) 0 then 0
                        else mul64 (add64 last_index 1) bs)
      in if total_size < bytes_used v then v\<lparr>bytes_used := total_size\<rparr> else v)"

definition fv_discard_blocks :: "os_env \<Rightarrow> nat \<Rightarrow> file_volume \<Rightarrow> nat \<Rightarrow> nat \<Rightarrow> (unit, file_volume) io" where
  "fv_discard_blocks env bs v index count0 =
     (if max_block_count v \<le> index then (Some (), v)
      else let count = (if max_block_count v - index < count0 then max_block_count v - index else count0)
      in if count = 0 then (Some (), v)
         else case (if count = max_block_count v - index then truncate_file env (fd v) (mul64 index bs)
                    else punch_hole env (fd v) (mul64 index bs) (mul64 count bs)) of
             (Some _, f) \<Rightarrow>
               (Some (), discard_shrink bs
                  (v\<lparr>fd := f, bitmap := fold (\<lambda>i bm. bitmap_clear bm i) [index..<index + count] (bitmap v)\<rparr>))
           | (None, f) \<Rightarrow>
               (case discard_fallback bs (v\<lparr>fd := f\<rparr>) index count of
                  (None, v') \<Rightarrow> (None, v')
                | (Some _, v') \<Rightarrow> (Some (), discard_shrink bs v')))"

definition fv_write_block :: "os_env \<Rightarrow> nat \<Rightarrow> file_volume \<Rightarrow> nat \<Rightarrow> byte list option \<Rightarrow> (unit, file_volume) io" where
  "fv_write_block env bs v index buffer =
     (case buffer of None \<Rightarrow> fv_discard_blocks env bs v index 1
      | Some d \<Rightarrow> fv_write_partial_block env bs v index (Some d) 0 bs)"

definition fv_move_block :: "os_env \<Rightarrow> nat \<Rightarrow> file_volume \<Rightarrow> nat \<Rightarrow> nat \<Rightarrow> (unit, file_volume) io" where
  "fv_move_block env bs v src dst =
     (if \<not> check_bounds bs v src 0 bs then (None, v)
      else if \<not> check_bounds bs v dst 0 bs then (None, v)
      else let src_set = bitmap_is_set (bitmap v) src;
               dst_set = bitmap_is_set (bitmap v) dst
      in if src = dst \<or> \<not> src_set \<and> \<not> dst_set then (Some (), v)
         else if \<not> src_set then fv_discard_blocks env bs v dst 1
         else case transfer_blocks env bs (fd v) src dst 1 of
             (None, f) \<Rightarrow> (None, v\<lparr>fd := f\<rparr>)
           | (Some _, f) \<Rightarrow>
               (let sz = mul64 (add64 dst 1) bs;
                    v1 = v\<lparr>fd := f, bytes_used := (if bytes_used v < sz then sz else bytes_used v)\<rparr>
                in case bitmap_set (alloc env) (bitmap v1) dst of
                     (r, bm) \<Rightarrow> (r, v1\<lparr>bitmap := bm\<rparr>)))"

text \<open>The \<open>size_t\<close> arguments are cut to 32 bits on their way into \<open>check_bounds\<close>.\<close>

definition fv_move_block_partial ::
  "nat \<Rightarrow> file_volume \<Rightarrow> nat \<Rightarrow> nat \<Rightarrow> nat \<Rightarrow> nat \<Rightarrow> nat \<Rightarrow> (unit, file_volume) io" where
  "fv_move_block_partial bs v src dst src_offset dst_offset sz =
     (if \<not> check_bounds bs v src (src_offset mod 2 ^ 32) (sz mod 2 ^ 32) then (None, v)
      else if \<not> check_bounds bs v dst (dst_offset mod 2 ^ 32) (sz mod 2 ^ 32) then (None, v)
      else case read_retry (fd v) (add64 (mul64 src bs) src_offset) sz of
          (None, f) \<Rightarrow> (None, v\<lparr>fd := f\<rparr>)
        | (Some d, f) \<Rightarrow>
            (let maxsz = add64 (add64 (mul64 dst bs) dst_offset) sz;
                 v1 = v\<lparr>fd := f, bytes_used := (if bytes_used v < maxsz then maxsz else bytes_used v)\<rparr>
             in case write_retry (fd v1) (add64 (mul64 dst bs) dst_offset) d of
                  (r, f') \<Rightarrow> (r, v1\<lparr>fd := f'\<rparr>)))"

definition fv_commit :: "os_env \<Rightarrow> file_volume \<Rightarrow> (unit, file_volume) io" where
  "fv_commit env v =
     (case truncate_file env (fd v) (bytes_used v) of
        (None, f) \<Rightarrow> (None, v\<lparr>fd := f\<rparr>)
      | (Some _, f) \<Rightarrow> (if has_fsync env then Some () else None, v\<lparr>fd := f\<rparr>))"

definition fv_get_block_count :: "nat \<Rightarrow> file_volume \<Rightarrow> nat" where
  "fv_get_block_count bs v =
     (let count = bytes_used v div bs in if bytes_used v mod bs \<noteq> 0 then count + 1 else count)"

text \<open>The two loops of \<open>file_volume_truncate\<close>: mark \<open>n\<close> blocks from \<open>idx\<close> on as used, and
  \<open>while (end > idx) bitmap_clear(bitmap, end--);\<close>.\<close>

fun mark_used :: "os_env \<Rightarrow> bitmap \<Rightarrow> nat \<Rightarrow> nat \<Rightarrow> (unit, bitmap) io" where
  "mark_used env bm idx 0 = (Some (), bm)"
| "mark_used env bm idx (Suc n) =
     (case bitmap_set (alloc env) bm idx of
        (None, bm') \<Rightarrow> (None, bm')
      | (Some _, bm') \<Rightarrow> mark_used env bm' (idx + 1) n)"

definition mark_unused :: "bitmap \<Rightarrow> nat \<Rightarrow> nat \<Rightarrow> bitmap" where
  "mark_unused bm idx end_idx = fold (\<lambda>i b. bitmap_clear b i) (rev [idx + 1..<end_idx + 1]) bm"

definition file_volume_truncate :: "os_env \<Rightarrow> nat \<Rightarrow> file_volume \<Rightarrow> nat \<Rightarrow> (unit, file_volume) io" where
  "file_volume_truncate env bs v sz =
     (let count = div_up sz bs
      in if max_block_count v < count then (None, v)
         else if count \<le> min_block_count v then (Some (), v)
         else case truncate_file env (fd v) sz of
             (None, f) \<Rightarrow> (None, v\<lparr>fd := f\<rparr>)
           | (Some _, f) \<Rightarrow>
               (if bytes_used v < sz
                then (let idx = bytes_used v div bs
                      in case mark_used env (bitmap v) idx (count + 1 - idx) of
                           (None, bm) \<Rightarrow> (None, v\<lparr>fd := f, bitmap := bm\<rparr>)
                         | (Some _, bm) \<Rightarrow> (Some (), v\<lparr>fd := f, bitmap := bm, bytes_used := sz\<rparr>))
                else if sz < bytes_used v
                then (Some (), v\<lparr>fd := f, bitmap := mark_unused (bitmap v) (sz div bs) (div_up (bytes_used v) bs),
                              bytes_used := sz\<rparr>)
                else (Some (), v\<lparr>fd := f, bytes_used := sz\<rparr>)))"

definition file_volume_ops :: "os_env \<Rightarrow> nat \<Rightarrow> file_volume volume" where
  "file_volume_ops env bs =
     \<lparr>blocksize = bs,
      get_min_block_count = min_block_count,
      get_max_block_count = max_block_count,
      get_block_count = fv_get_block_count bs,
      vol_truncate = file_volume_truncate env bs,
      read_block = fv_read_block bs,
      read_partial_block = fv_read_partial_block bs,
      write_block = fv_write_block env bs,
      write_partial_block = fv_write_partial_block env bs,
      move_block = fv_move_block env bs,
      move_block_partial = fv_move_block_partial bs,
      discard_blocks = fv_discard_blocks env bs,
      vol_commit = fv_commit env\<rparr>"

section \<open>Construction and properties\<close>

record stat_buf =
  st_blk :: bool
  st_blksize :: nat
  st_size :: nat

text \<open>\<open>volume_from_fd\<close> returns the block size and the state. Failures of the last loop's
  \<open>bitmap_set\<close> are ignored by the source.\<close>

definition volume_from_fd ::
  "os_env \<Rightarrow> osfile \<Rightarrow> stat_buf option \<Rightarrow> nat \<Rightarrow> (nat \<times> file_volume, osfile) io" where
  "volume_from_fd env f sb max_sz =
     (case sb of None \<Rightarrow> (None, f)
      | Some st \<Rightarrow>
          (let bs = (if st_blk st then (if st_blksize st = 0 then 512 else st_blksize st) else 4096);
               partial = \<not> st_blk st \<and> st_size st mod bs \<noteq> 0;
               used = (if partial then st_size st div bs + 1 else st_size st div bs);
               max_count = (if st_blk st then st_size st div bs else div_up max_sz bs)
           in case (if partial then truncate_file env f (used * bs) else (Some (), f)) of
                (None, f') \<Rightarrow> (None, f')
              | (Some _, f') \<Rightarrow>
                  (if \<not> alloc env (2 * bs) then (None, f')
                   else case bitmap_create (alloc env) used of
                       None \<Rightarrow> (None, f')
                     | Some bm \<Rightarrow>
                         (Some (bs, \<lparr>fd = f',
                                   bitmap = fold (\<lambda>i b. snd (bitmap_set (alloc env) b i)) [0..<used] bm,
                                   bytes_used = mul64 used bs,
                                   min_block_count = 0,
                                   max_block_count = max_count\<rparr>), f'))))"

definition PROP_MIN_SIZE :: nat where
  "PROP_MIN_SIZE = 0"

definition PROP_MAX_SIZE :: nat where
  "PROP_MAX_SIZE = 1"

definition PROP_COUNT :: nat where
  "PROP_COUNT = 2"

definition fv_get_property_desc :: "nat \<Rightarrow> property_desc option" where
  "fv_get_property_desc i =
     (if PROP_COUNT \<le> i then None
      else if i = PROP_MIN_SIZE
      then Some \<lparr>pd_type = PROPERTY_TYPE_U64_SIZE, pd_name = ''minsize'', pd_enum = []\<rparr>
      else Some \<lparr>pd_type = PROPERTY_TYPE_U64_SIZE, pd_name = ''maxsize'', pd_enum = []\<rparr>)"

definition fv_set_property :: "nat \<Rightarrow> nat \<Rightarrow> file_volume \<Rightarrow> property_value \<Rightarrow> file_volume option" where
  "fv_set_property bs i v value =
     (if i = PROP_MIN_SIZE then
        (case value of
           PropSize u64 \<Rightarrow>
             (let c = div_up u64 bs
              in Some (v\<lparr>min_block_count := (if max_block_count v < c then max_block_count v else c)\<rparr>))
         | _ \<Rightarrow> None)
      else if i = PROP_MAX_SIZE then
        (case value of
           PropSize u64 \<Rightarrow>
             (let c = u64 div bs
              in Some (v\<lparr>max_block_count := (if c < min_block_count v then min_block_count v else c)\<rparr>))
         | _ \<Rightarrow> None)
      else None)"

definition fv_get_property :: "nat \<Rightarrow> nat \<Rightarrow> file_volume \<Rightarrow> property_value option" where
  "fv_get_property bs i v =
     (if i = PROP_MIN_SIZE then Some (PropSize (mul64 bs (min_block_count v)))
      else if i = PROP_MAX_SIZE then Some (PropSize (mul64 bs (max_block_count v)))
      else None)"

definition file_volume_meta :: "nat \<Rightarrow> file_volume meta_object" where
  "file_volume_meta bs =
     \<lparr>meta_name = ''file_volume_t'', meta_count = PROP_COUNT, meta_desc = fv_get_property_desc,
      meta_set = fv_set_property bs, meta_get = fv_get_property bs\<rparr>"

text \<open>The size a stored limit reads back as: a minimum is rounded up to whole blocks and cut to
  the maximum, a maximum is rounded down and raised to the minimum.\<close>

definition fv_rounded :: "nat \<Rightarrow> nat \<Rightarrow> file_volume \<Rightarrow> property_value \<Rightarrow> property_value" where
  "fv_rounded bs i v value =
     (case value of
        PropSize u64 \<Rightarrow>
          PropSize (mul64 bs (if i = PROP_MIN_SIZE then min (div_up u64 bs) (max_block_count v)
                              else max (u64 div bs) (min_block_count v)))
      | _ \<Rightarrow> value)"

interpretation fvp: property_access "file_volume_meta bs"
  "\<lambda>v. min_block_count v \<le> max_block_count v" "fv_rounded bs" for bs
proof (unfold_locales, goal_cases)
  case (1 i) show ?case by (auto simp: file_volume_meta_def fv_get_property_desc_def)
next
  case (2 x i v y) then show ?case
    by (auto simp: file_volume_meta_def fv_set_property_def Let_def split: if_splits property_value.splits)
next
  case (3 x i v y) then show ?case
    by (auto simp: file_volume_meta_def fv_set_property_def fv_get_property_def fv_rounded_def Let_def
        PROP_MIN_SIZE_def PROP_MAX_SIZE_def max_def min_def split: if_splits property_value.splits)
qed

section \<open>The file volume keeps the contract\<close>

definition fv_view :: "nat \<Rightarrow> file_volume \<Rightarrow> view" where
  "fv_view bs v =
     \<lparr>vblocks = max_block_count v,
      content = fbyte (fd v),
      readable = (\<lambda>p. \<not> bitmap_is_set (bitmap v) (p div bs) \<or> p < bytes_used v),
      solid = (\<lambda>p. bitmap_is_set (bitmap v) (p div bs) \<and> p < bytes_used v)\<rparr>"

lemma fv_view_simps [simp]:
  "vblocks (fv_view bs v) = max_block_count v"
  "content (fv_view bs v) = fbyte (fd v)"
  "readable (fv_view bs v) p \<longleftrightarrow> \<not> bitmap_is_set (bitmap v) (p div bs) \<or> p < bytes_used v"
  "solid (fv_view bs v) p \<longleftrightarrow> bitmap_is_set (bitmap v) (p div bs) \<and> p < bytes_used v"
  by (simp_all add: fv_view_def)

text \<open>The invariant: the file holds every used byte, what is not marked as used is zero, the
  bitmap marks no block without used bytes, and the environment is benign (allocations
  succeed, system calls are at most interrupted or short).\<close>

definition fv_inv :: "os_env \<Rightarrow> nat \<Rightarrow> file_volume \<Rightarrow> bool" where
  "fv_inv env bs v \<longleftrightarrow>
     0 < bs \<and> (\<forall>n. alloc env n) \<and> benign (fd v) \<and> bitmap_wf (bitmap v) \<and>
     max_block_count v * bs < 2 ^ 63 \<and>
     bytes_used v \<le> length (fbytes (fd v)) \<and> length (fbytes (fd v)) < 2 ^ 63 \<and>
     (\<forall>p. bytes_used v \<le> p \<longrightarrow> fbyte (fd v) p = 0) \<and>
     (\<forall>p. \<not> bitmap_is_set (bitmap v) (p div bs) \<longrightarrow> fbyte (fd v) p = 0) \<and>
     (\<forall>i. bitmap_is_set (bitmap v) i \<longrightarrow> i * bs < bytes_used v \<and> i < max_block_count v)"

lemma fv_invD:
  assumes "fv_inv env bs v"
  shows "0 < bs" "alloc env n" "benign (fd v)" "bitmap_wf (bitmap v)" "max_block_count v * bs < 2 ^ 63"
    "bytes_used v \<le> length (fbytes (fd v))" "length (fbytes (fd v)) < 2 ^ 63"
    "bytes_used v \<le> p \<Longrightarrow> fbyte (fd v) p = 0"
    "\<not> bitmap_is_set (bitmap v) (p div bs) \<Longrightarrow> fbyte (fd v) p = 0"
    "bitmap_is_set (bitmap v) i \<Longrightarrow> i * bs < bytes_used v"
    "bitmap_is_set (bitmap v) i \<Longrightarrow> i < max_block_count v"
  using assms unfolding fv_inv_def by blast+

lemma block_range:
  fixes bs :: nat
  assumes "i < n" "off + k \<le> bs"
  shows "i * bs + off + k \<le> n * bs"
proof -
  have "i * bs + bs \<le> n * bs" using mult_le_mono1 [of "Suc i" n bs] assms(1) by simp
  then show ?thesis using assms(2) by linarith
qed

lemma block_pos_exact:
  assumes "fv_inv env bs v" "i < max_block_count v" "off + k \<le> bs"
  shows "mul64 i bs = i * bs" "add64 (i * bs) off = i * bs + off"
    "add64 (i * bs + off) k = i * bs + off + k" "i * bs + off + k < 2 ^ 63"
proof -
  from block_range [OF assms(2,3)] fv_invD(5) [OF assms(1)]
  show le: "i * bs + off + k < 2 ^ 63" by linarith
  show "mul64 i bs = i * bs" "add64 (i * bs) off = i * bs + off"
    "add64 (i * bs + off) k = i * bs + off + k"
    using le by (simp_all add: mul64_def add64_def)
qed

lemma div_block: "i * bs \<le> p \<Longrightarrow> p < i * bs + bs \<Longrightarrow> p div bs = (i :: nat)"
  by (metis add.commute div_nat_eqI mult.commute mult_Suc_right)

lemma fv_read_partial:
  assumes v: "fv_inv env bs v" and i: "i < max_block_count v" and b: "off + n \<le> bs" "0 < n"
    and rd: "off = 0 \<or> readable (fv_view bs v) (i * bs + off)"
  shows "\<exists>v'. fv_read_partial_block bs v i off n = (Some (peek (fbyte (fd v)) (i * bs + off) n), v') \<and>
    fv_inv env bs v' \<and> fv_view bs v' = fv_view bs v"
proof -
  note d = fv_invD [OF v] and ex = block_pos_exact [OF v i b(1)]
  have blk: "p div bs = i" if "i * bs + off \<le> p" "p < i * bs + off + n" for p
    using that b by (intro div_block) auto
  have chk: "check_bounds bs v i off n" using i b by (auto simp: check_bounds_def)
  show ?thesis
  proof (cases "bitmap_is_set (bitmap v) i")
    case False
    then have "peek (fbyte (fd v)) (i * bs + off) n = zeros n"
      using d(9) blk by (intro peek_zero) simp
    then show ?thesis using False chk b(2) v by (auto simp: fv_read_partial_block_def)
  next
    case True
    let ?pos = "i * bs + off"
    have pos: "?pos < bytes_used v" using rd True d(10) [OF True] blk [of ?pos] b(2) by auto
    define m where "m = (if bytes_used v - ?pos \<le> n then bytes_used v - ?pos else n)"
    have "?pos + m \<le> length (fbytes (fd v))" using pos d(6) by (auto simp: m_def)
    from read_retry_benign [OF d(3) this less_imp_le [OF d(7)]] obtain f where
      f: "read_retry (fd v) ?pos m = (Some (peek (fbyte (fd v)) ?pos m), f)" "fbytes f = fbytes (fd v)" "benign f"
      by blast
    have "peek (fbyte (fd v)) (?pos + m) (n - m) = zeros (n - m)"
      using d(8) pos by (intro peek_zero) (auto simp: m_def split: if_splits)
    then have "peek (fbyte (fd v)) ?pos m @ zeros (n - m) = peek (fbyte (fd v)) ?pos n"
      using peek_append [of "fbyte (fd v)" ?pos m "n - m"] by (simp add: m_def)
    moreover have "fv_inv env bs (v\<lparr>fd := f\<rparr>)" "fv_view bs (v\<lparr>fd := f\<rparr>) = fv_view bs v"
      using v f(2,3) fbyte_cong [OF f(2)] by (simp_all add: fv_inv_def fv_view_def)
    moreover have "sub64 (bytes_used v) ?pos = bytes_used v - ?pos" using pos by (simp add: sub64_exact)
    ultimately show ?thesis
      using True chk b(2) f(1) ex(1,2)
      by (cases "bytes_used v - ?pos \<le> n") (auto simp: fv_read_partial_block_def Let_def m_def)
  qed
qed

lemma wrote_block:
  assumes b: "off + length d \<le> bs" "d \<noteq> []"
    and "vblocks w' = vblocks w" "content w' = poke (content w) (i * bs + off) d"
    and sol: "\<And>p. i * bs \<le> p \<Longrightarrow> p < i * bs + off + length d \<Longrightarrow> solid w' p"
    and rd: "\<And>p. solid w' p \<Longrightarrow> readable w' p" and "\<And>p. solid w p \<Longrightarrow> solid w' p"
    and oth: "\<And>p. p div bs \<noteq> i \<Longrightarrow> readable w p \<Longrightarrow> readable w' p"
  shows "wrote bs w w' (i * bs + off) d"
proof -
  have ln: "0 < length d" using b(2) by simp
  then have bs: "0 < bs" "off < bs" using b(1) by linarith+
  have i: "(i * bs + off) div bs = i" using bs by simp
  have e: "div_up (i * bs + off + length d) bs = Suc i"
  proof (rule antisym)
    show "div_up (i * bs + off + length d) bs \<le> Suc i" using b(1) by (intro div_up_le [OF bs(1)]) simp
    show "Suc i \<le> div_up (i * bs + off + length d) bs"
      using div_up_less [OF bs(1), of i "i * bs + off + length d"] ln by simp
  qed
  have "readable w' p" if "readable w p" "p < i * bs \<or> Suc i * bs \<le> p" for p
  proof (rule oth [OF _ that(1)])
    show "p div bs \<noteq> i"
      using that(2) bs(1) by (metis dividend_less_div_times add.commute mult_Suc not_le div_times_less_eq_dividend)
  qed
  then show ?thesis using assms i e unfolding wrote_def by (simp only: i e) blast
qed

lemma bitmap_set_env:
  assumes "fv_inv env bs v"
  shows "\<exists>bm. bitmap_set (alloc env) (bitmap v) i = (Some (), bm) \<and> bitmap_wf bm \<and>
    (\<forall>j. bitmap_is_set bm j \<longleftrightarrow> j = i \<or> bitmap_is_set (bitmap v) j)"
  using bitmap_set_ok [of "bitmap v" "alloc env" i] fv_invD(2,4) [OF assms] by blast

text \<open>Storing the bytes \<open>d\<close> inside block \<open>i\<close> and marking it keeps the invariant.\<close>

lemma fv_store:
  assumes v: "fv_inv env bs v" and i: "i < max_block_count v" and b: "off + length d \<le> bs" "d \<noteq> []"
    and f: "benign f" "fbyte f = poke (fbyte (fd v)) (i * bs + off) d"
      "length (fbytes f) = max (length (fbytes (fd v))) (i * bs + off + length d)"
    and bm: "bitmap_wf bm" "\<And>j. bitmap_is_set bm j \<longleftrightarrow> j = i \<or> bitmap_is_set (bitmap v) j"
    and v': "v' = v\<lparr>fd := f, bitmap := bm, bytes_used := max (bytes_used v) (i * bs + off + length d)\<rparr>"
  shows "fv_inv env bs v' \<and> wrote bs (fv_view bs v) (fv_view bs v') (i * bs + off) d \<and>
    (\<forall>p. i * bs \<le> p \<and> p < i * bs + off + length d \<longrightarrow> solid (fv_view bs v') p)"
proof -
  note d = fv_invD [OF v]
  have ln: "0 < length d" using b(2) by simp
  have blk: "p div bs = i" if "i * bs \<le> p" "p < i * bs + off + length d" for p
    using that b(1) by (intro div_block) auto
  have fin: "i * bs + off + length d < 2 ^ 63" by (rule block_pos_exact(4) [OF v i b(1)])
  have sol: "\<forall>p. i * bs \<le> p \<and> p < i * bs + off + length d \<longrightarrow> solid (fv_view bs v') p"
    using blk bm(2) by (auto simp: v')
  have inv: "fv_inv env bs v'"
    unfolding fv_inv_def
  proof (intro conjI allI impI)
    fix p assume "bytes_used v' \<le> p"
    then show "fbyte (fd v') p = 0" using d(8) by (simp add: v' f(2) poke_out)
  next
    fix p assume p: "\<not> bitmap_is_set (bitmap v') (p div bs)"
    then have "p div bs \<noteq> i" "fbyte (fd v) p = 0" using bm(2) d(9) by (auto simp: v')
    then show "fbyte (fd v') p = 0"
      using blk [of p] by (auto simp: v' f(2) poke_def)
  next
    fix j assume "bitmap_is_set (bitmap v') j"
    then show "j * bs < bytes_used v'" "j < max_block_count v'"
      using bm(2) d(10,11) i ln by (auto simp: v' less_max_iff_disj)
  qed (use d f bm(1) fin in \<open>auto simp: v'\<close>)
  moreover have "wrote bs (fv_view bs v) (fv_view bs v') (i * bs + off) d"
    using b sol bm(2) by (intro wrote_block) (auto simp: v' f(2))
  ultimately show ?thesis using sol by blast
qed

lemma fv_write_partial:
  assumes v: "fv_inv env bs v" and i: "i < max_block_count v" and b: "off + n \<le> bs" "0 < n"
    and val: "valid_buf data n"
  shows "\<exists>v'. fv_write_partial_block env bs v i data off n = (Some (), v') \<and> fv_inv env bs v' \<and>
    wrote bs (fv_view bs v) (fv_view bs v') (i * bs + off) (buf_bytes data n)"
proof -
  note ex = block_pos_exact [OF v i b(1)]
  let ?d = "buf_bytes data n"
  have dl: "length ?d = n" using val by simp
  obtain bm where bm: "bitmap_set (alloc env) (bitmap v) i = (Some (), bm)" "bitmap_wf bm"
    "\<And>j. bitmap_is_set bm j \<longleftrightarrow> j = i \<or> bitmap_is_set (bitmap v) j"
    using bitmap_set_env [OF v] by blast
  have "i * bs + off + length ?d < 2 ^ 63" using ex(4) dl by simp
  from write_retry_benign [OF fv_invD(3) [OF v] less_imp_le [OF this]] obtain f where
    f: "write_retry (fd v) (i * bs + off) ?d = (Some (), f)" "benign f"
      "fbytes f = put_bytes (fbytes (fd v)) (i * bs + off) ?d" by blast
  let ?v = "v\<lparr>fd := f, bitmap := bm, bytes_used := max (bytes_used v) (i * bs + off + n)\<rparr>"
  have "?d \<noteq> []" using dl b(2) by auto
  then have "fv_inv env bs ?v \<and> wrote bs (fv_view bs v) (fv_view bs ?v) (i * bs + off) ?d"
    using fv_store [OF v i _ _ f(2) fbyte_write_retry [OF f(3)] _ bm(2,3), of ?v] b f(3) dl by auto
  moreover have "fv_write_partial_block env bs v i data off n = (Some (), ?v)"
    using bm(1) f(1) ex i b
    by (auto simp: fv_write_partial_block_def check_bounds_def Let_def buf_bytes_def max_def)
  ultimately show ?thesis by blast
qed

text \<open>What the three ways of zeroing a range of blocks have in common before \<open>bytes_used\<close> is
  adjusted.\<close>

definition discarded :: "nat \<Rightarrow> file_volume \<Rightarrow> file_volume \<Rightarrow> nat \<Rightarrow> nat \<Rightarrow> bool" where
  "discarded bs v v' index count \<longleftrightarrow>
     max_block_count v' = max_block_count v \<and> bytes_used v' = bytes_used v \<and>
     benign (fd v') \<and> bitmap_wf (bitmap v') \<and> length (fbytes (fd v')) < 2 ^ 63 \<and>
     (\<forall>j. bitmap_is_set (bitmap v') j \<longleftrightarrow> bitmap_is_set (bitmap v) j \<and> \<not> (index \<le> j \<and> j < index + count)) \<and>
     fbyte (fd v') = poke (fbyte (fd v)) (index * bs) (zeros (count * bs)) \<and>
     (\<forall>j. bitmap_is_set (bitmap v') j \<longrightarrow> min (bytes_used v) ((j + 1) * bs) \<le> length (fbytes (fd v')))"

lemma poke_zeros: "poke f a (zeros n) p = (if a \<le> p \<and> p < a + n then 0 else f p)"
  by (auto simp: poke_def)

lemma in_blocks: "0 < bs \<Longrightarrow> index * bs \<le> p \<and> p < index * bs + count * bs \<longleftrightarrow>
    index \<le> p div bs \<and> p div bs < index + (count :: nat)"
  by (metis add_mult_distrib div_less_iff_less_mult less_eq_div_iff_mult_less_eq)

lemma discard_shrink_total:
  assumes "bitmap_wf (bitmap v)" "0 < bs" "\<And>j. bitmap_is_set (bitmap v) j \<Longrightarrow> (j + 1) * bs < 2 ^ 63"
  obtains t where "discard_shrink bs v = v\<lparr>bytes_used := min (bytes_used v) t\<rparr>"
    "\<And>j. bitmap_is_set (bitmap v) j \<Longrightarrow> (j + 1) * bs \<le> t"
    "t = 0 \<or> (\<exists>j. bitmap_is_set (bitmap v) j \<and> t = (j + 1) * bs)"
proof -
  let ?l = "bitmap_msb_index (bitmap v)"
  have sh: "discard_shrink bs v = v\<lparr>bytes_used := min (bytes_used v) t\<rparr>"
    if "t = (if ?l = 0 \<and> \<not> bitmap_is_set (bitmap v) 0 then 0 else mul64 (add64 ?l 1) bs)" for t
    using that by (auto simp: discard_shrink_def Let_def min_def)
  show thesis
  proof (cases "\<exists>j. bitmap_is_set (bitmap v) j")
    case False
    then have e: "?l = 0 \<and> \<not> bitmap_is_set (bitmap v) 0" using bm.empty_iff [OF assms(1)] by blast
    show ?thesis
    proof (rule that)
      show "discard_shrink bs v = v\<lparr>bytes_used := min (bytes_used v) 0\<rparr>" using sh [of 0] e by simp
    qed (use False in auto)
  next
    case True
    then have l: "bitmap_is_set (bitmap v) ?l" using bm.msb_test [OF assms(1)] by blast
    have le: "(?l + 1) * bs < 2 ^ 63" by (rule assms(3) [OF l])
    have "(?l + 1) * 1 \<le> (?l + 1) * bs" using assms(2) by (intro mult_le_mono2) simp
    then have e: "mul64 (add64 ?l 1) bs = (?l + 1) * bs" using le by (simp add: add64_def mul64_def)
    have ne: "\<not> (?l = 0 \<and> \<not> bitmap_is_set (bitmap v) 0)" using l by metis
    show ?thesis
    proof (rule that)
      show "discard_shrink bs v = v\<lparr>bytes_used := min (bytes_used v) ((?l + 1) * bs)\<rparr>"
        by (rule sh) (simp only: ne e if_False)
      show "(j + 1) * bs \<le> (?l + 1) * bs" if "bitmap_is_set (bitmap v) j" for j
        using bm.msb_upper [OF assms(1) that] by (intro mult_le_mono1) simp
      show "(?l + 1) * bs = 0 \<or> (\<exists>j. bitmap_is_set (bitmap v) j \<and> (?l + 1) * bs = (j + 1) * bs)"
        using l by blast
    qed
  qed
qed

lemma fv_discard_finish:
  assumes v: "fv_inv env bs v" and d: "discarded bs v v1 index count" and c: "0 < count"
  shows "fv_inv env bs (discard_shrink bs v1) \<and>
    wrote bs (fv_view bs v) (fv_view bs (discard_shrink bs v1)) (index * bs) (zeros (count * bs))"
proof -
  note inv = fv_invD [OF v]
  have dd: "max_block_count v1 = max_block_count v" "bytes_used v1 = bytes_used v" "benign (fd v1)"
      "bitmap_wf (bitmap v1)" "length (fbytes (fd v1)) < 2 ^ 63"
      "fbyte (fd v1) = poke (fbyte (fd v)) (index * bs) (zeros (count * bs))"
    and st: "\<And>j. bitmap_is_set (bitmap v1) j \<longleftrightarrow> bitmap_is_set (bitmap v) j \<and> \<not> (index \<le> j \<and> j < index + count)"
    and ln: "\<And>j. bitmap_is_set (bitmap v1) j \<Longrightarrow> min (bytes_used v) ((j + 1) * bs) \<le> length (fbytes (fd v1))"
    using d unfolding discarded_def by blast+
  have lim: "(j + 1) * bs < 2 ^ 63" if "bitmap_is_set (bitmap v1) j" for j
  proof -
    have "(j + 1) * bs \<le> max_block_count v * bs" using inv(11) [of j] st [of j] that by (intro mult_le_mono1) simp
    then show ?thesis using inv(5) by linarith
  qed
  from discard_shrink_total [OF dd(4) inv(1) lim] obtain t where
    t: "discard_shrink bs v1 = v1\<lparr>bytes_used := min (bytes_used v1) t\<rparr>"
      "\<And>j. bitmap_is_set (bitmap v1) j \<Longrightarrow> (j + 1) * bs \<le> t"
      "t = 0 \<or> (\<exists>j. bitmap_is_set (bitmap v1) j \<and> t = (j + 1) * bs)" by blast
  let ?v = "discard_shrink bs v1"
  have blkt: "p < t" if "bitmap_is_set (bitmap v1) (p div bs)" for p
  proof -
    have "p < (p div bs + 1) * bs" using dividend_less_div_times [OF inv(1), of p] by simp
    then show ?thesis using t(2) [OF that] by linarith
  qed
  have zero: "fbyte (fd v1) p = 0" if "\<not> bitmap_is_set (bitmap v1) (p div bs)" for p
    using that inv(9) [of p] in_blocks [OF inv(1), of index p count] by (auto simp: dd(6) poke_zeros st)
  have "fv_inv env bs ?v"
    unfolding fv_inv_def
  proof (intro conjI allI impI)
    show "bytes_used ?v \<le> length (fbytes (fd ?v))" using t(1,3) ln dd(2) by auto
    fix p assume "bytes_used ?v \<le> p"
    then have "bytes_used v \<le> p \<or> t \<le> p" using t(1) dd(2) by auto
    then have "fbyte (fd v1) p = 0"
    proof
      assume "bytes_used v \<le> p"
      then show ?thesis using inv(8) by (simp add: dd(6) poke_zeros)
    next
      assume "t \<le> p"
      then show ?thesis using zero blkt [of p] by (meson leD)
    qed
    then show "fbyte (fd ?v) p = 0" using t(1) by simp
  next
    fix p assume "\<not> bitmap_is_set (bitmap ?v) (p div bs)"
    then show "fbyte (fd ?v) p = 0" using zero t(1) by simp
  next
    fix j assume j: "bitmap_is_set (bitmap ?v) j"
    then have s: "bitmap_is_set (bitmap v) j" "bitmap_is_set (bitmap v1) j" using st t(1) by auto
    then show "j * bs < bytes_used ?v" "j < max_block_count ?v"
      using t(1) t(2) [of j] inv(10,11) [of j] dd(1,2) inv(1) by auto
  qed (use inv t(1) dd in auto)
  moreover have "wrote bs (fv_view bs v) (fv_view bs ?v) (index * bs) (zeros (count * bs))"
    unfolding wrote_def
  proof (intro conjI allI impI)
    show "vblocks (fv_view bs ?v) = vblocks (fv_view bs v)" using t(1) dd(1) by simp
    show "content (fv_view bs ?v) = poke (content (fv_view bs v)) (index * bs) (zeros (count * bs))"
      using t(1) dd(6) by simp
  next
    fix p assume "index * bs div bs * bs \<le> p \<and> p < index * bs + length (zeros (count * bs))"
    then show "readable (fv_view bs ?v) p"
      using in_blocks [OF inv(1), of index p count] t(1) inv(1) st by simp
  next
    fix p assume p: "index * bs div bs * bs \<le> p \<and> p < index * bs + length (zeros (count * bs)) \<and>
      (p div bs = index * bs div bs \<and> index * bs mod bs \<noteq> 0 \<or>
       p div bs = (index * bs + length (zeros (count * bs))) div bs)"
    have "(index * bs + count * bs) div bs = index + count"
      using inv(1) by (simp flip: add_mult_distrib)
    then show "solid (fv_view bs ?v) p"
      using p in_blocks [OF inv(1), of index p count] inv(1) by simp
  next
    fix p assume p: "solid (fv_view bs v) p \<and> \<not> (index * bs \<le> p \<and> p < index * bs + length (zeros (count * bs)))"
    then have "bitmap_is_set (bitmap v1) (p div bs)"
      using in_blocks [OF inv(1), of index p count] st by auto
    then show "solid (fv_view bs ?v) p" using t(1) blkt p dd(2) by simp
  next
    fix p assume p: "readable (fv_view bs v) p \<and>
      (p < index * bs div bs * bs \<or> div_up (index * bs + length (zeros (count * bs))) bs * bs \<le> p)"
    then show "readable (fv_view bs ?v) p" using t(1) blkt [of p] st dd(2) by auto
  qed
  ultimately show ?thesis by blast
qed

lemma fbyte_punch:
  assumes "punch_hole env f off n = (Some u, f')"
  shows "fbyte f' = poke (fbyte f) off (zeros n)" "length (fbytes f') = length (fbytes f)" "benign f' = benign f"
  using assms by (auto simp: punch_hole_def fbyte_def poke_zeros fun_eq_iff benign_def split: if_splits)

lemma discard_fallback_ok:
  "fv_inv env bs v0 \<Longrightarrow> max_block_count v = max_block_count v0 \<Longrightarrow> benign (fd v) \<Longrightarrow> bitmap_wf (bitmap v) \<Longrightarrow>
   length (fbytes (fd v)) < 2 ^ 63 \<Longrightarrow> bytes_used v \<le> length (fbytes (fd v)) \<Longrightarrow>
   (\<And>p. \<not> bitmap_is_set (bitmap v) (p div bs) \<Longrightarrow> fbyte (fd v) p = 0) \<Longrightarrow>
   index + count \<le> max_block_count v0 \<Longrightarrow>
   \<exists>v'. discard_fallback bs v index count = (Some (), v') \<and> discarded bs v v' index count"
proof (induction count arbitrary: v index)
  case 0
  then show ?case by (auto simp: discarded_def zeros_def)
next
  case (Suc count)
  note v0 = fv_invD [OF Suc.prems(1)]
  let ?z = "\<lambda>i n. zeros (n * bs)"
  have grow: "poke g (index * bs) (zeros (Suc count * bs)) = poke (poke g (index * bs) (zeros bs)) ((index + 1) * bs) (zeros (count * bs))" for g
    using poke_append [of g "index * bs" "zeros bs" "zeros (count * bs)"]
    by (simp add: zeros_def add.commute flip: replicate_add)
  have rng: "(index \<le> j \<and> j < index + Suc count) \<longleftrightarrow> (j = index \<or> (index + 1 \<le> j \<and> j < index + 1 + count))" for j
    by auto
  show ?case
  proof (cases "bitmap_is_set (bitmap v) index")
    case False
    have z: "poke (fbyte (fd v)) (index * bs) (zeros bs) = fbyte (fd v)"
      using False Suc.prems(7) by (auto simp: fun_eq_iff poke_zeros div_block)
    from Suc.IH [OF Suc.prems(1-7), of "index + 1"] Suc.prems(8) False obtain v' where
      v': "discard_fallback bs v (index + 1) count = (Some (), v')" "discarded bs v v' (index + 1) count" by auto
    have "discarded bs v v' index (Suc count)"
      using v'(2) False unfolding discarded_def grow z rng by auto
    then show ?thesis using v'(1) False by auto
  next
    case True
    have ib: "index < max_block_count v0" using Suc.prems(8) by simp
    note ex = block_pos_exact [OF Suc.prems(1) ib, of 0 bs]
    have "index * bs + length (zeros bs) < 2 ^ 63" using ex(4) by simp
    from write_retry_benign [OF Suc.prems(3) less_imp_le [OF this]] obtain f where
      f: "write_retry (fd v) (index * bs) (zeros bs) = (Some (), f)" "benign f"
        "fbytes f = put_bytes (fbytes (fd v)) (index * bs) (zeros bs)" by blast
    note fb = fbyte_write_retry [OF f(3)]
    define w where "w = v\<lparr>fd := f, bitmap := bitmap_clear (bitmap v) index\<rparr>"
    have lw: "length (fbytes (fd v)) \<le> length (fbytes (fd w))" "length (fbytes (fd w)) < 2 ^ 63"
      using f(3) Suc.prems(5) ex(4) by (auto simp: w_def)
    have zw: "fbyte (fd w) p = 0" if "\<not> bitmap_is_set (bitmap w) (p div bs)" for p
      using that Suc.prems(7) [of p] in_blocks [OF v0(1), of index p 1]
      by (auto simp: w_def fb poke_zeros bitmap_clear_is_set)
    have "\<exists>v'. discard_fallback bs w (index + 1) count = (Some (), v') \<and> discarded bs w v' (index + 1) count"
      using Suc.prems f(2) lw zw by (intro Suc.IH [OF Suc.prems(1)]) (auto simp: w_def bitmap_clear_wf)
    then obtain v' where
      v': "discard_fallback bs w (index + 1) count = (Some (), v')" "discarded bs w v' (index + 1) count"
      by blast
    have "bitmap_is_set (bitmap w) j \<longleftrightarrow> j \<noteq> index \<and> bitmap_is_set (bitmap v) j" for j
      by (simp add: w_def bitmap_clear_is_set)
    moreover have "bytes_used w = bytes_used v" "max_block_count w = max_block_count v"
      "fbyte (fd w) = poke (fbyte (fd v)) (index * bs) (zeros bs)"
      by (simp_all add: w_def fb)
    ultimately have "discarded bs v v' index (Suc count)"
      using v'(2) unfolding discarded_def grow rng by auto
    moreover have "discard_fallback bs v index (Suc count) = (Some (), v')"
      using True f(1) ex(1) v'(1) by (simp add: w_def)
    ultimately show ?thesis by blast
  qed
qed

lemma clear_range:
  assumes "bitmap_wf b"
  shows "bitmap_wf (fold (\<lambda>i bm. bitmap_clear bm i) [index..<index + count] b)"
    "bitmap_is_set (fold (\<lambda>i bm. bitmap_clear bm i) [index..<index + count] b) j \<longleftrightarrow>
       bitmap_is_set b j \<and> \<not> (index \<le> j \<and> j < index + count)"
  using bm.wf_clear_list [OF assms, of "[index..<index + count]"]
    bm.test_clear_list [OF assms, of "[index..<index + count]" j] by auto

lemma fv_discard:
  assumes v: "fv_inv env bs v" and b: "index + count \<le> max_block_count v" "0 < count"
  shows "\<exists>v'. fv_discard_blocks env bs v index count = (Some (), v') \<and> fv_inv env bs v' \<and>
    wrote bs (fv_view bs v) (fv_view bs v') (index * bs) (zeros (count * bs))"
proof -
  note d = fv_invD [OF v]
  have ib: "index < max_block_count v" using b by simp
  note ex = block_pos_exact [OF v ib, of 0 0]
  have "(index + count) * bs \<le> max_block_count v * bs" using b(1) by (rule mult_le_mono1)
  then have lim: "index * bs + count * bs < 2 ^ 63" using d(5) by (simp add: add_mult_distrib)
  then have cm: "mul64 count bs = count * bs" by (simp add: mul64_def)
  let ?op = "if count = max_block_count v - index then truncate_file env (fd v) (mul64 index bs)
     else punch_hole env (fd v) (mul64 index bs) (mul64 count bs)"
  let ?bm = "fold (\<lambda>i bm. bitmap_clear bm i) [index..<index + count] (bitmap v)"
  have unf: "fv_discard_blocks env bs v index count = (case ?op of
      (Some _, f) \<Rightarrow> (Some (), discard_shrink bs (v\<lparr>fd := f, bitmap := ?bm\<rparr>))
    | (None, f) \<Rightarrow> (case discard_fallback bs (v\<lparr>fd := f\<rparr>) index count of
          (None, v') \<Rightarrow> (None, v') | (Some _, v') \<Rightarrow> (Some (), discard_shrink bs v')))"
  proof -
    have "\<not> max_block_count v - index < count" "\<not> max_block_count v \<le> index" using b by auto
    then show ?thesis using b(2) by (simp only: fv_discard_blocks_def Let_def if_False not_gr_zero) simp
  qed
  obtain r f where op: "?op = (r, f)" by fastforce
  have "\<exists>v1. fv_discard_blocks env bs v index count = (Some (), discard_shrink bs v1) \<and>
      discarded bs v v1 index count"
  proof (cases r)
    case None
    have "f = fd v" using op None by (auto simp: truncate_file_def punch_hole_def split: if_splits)
    then show ?thesis
      using discard_fallback_ok [OF v, of v index count] unf op None d b(1) by auto
  next
    case (Some u)
    have set': "\<And>j. bitmap_is_set ?bm j \<longleftrightarrow> bitmap_is_set (bitmap v) j \<and> \<not> (index \<le> j \<and> j < index + count)"
      and wf': "bitmap_wf ?bm" using clear_range [OF d(4)] by simp_all
    have fl: "benign f" "length (fbytes f) < 2 ^ 63" "fbyte f = poke (fbyte (fd v)) (index * bs) (zeros (count * bs))"
      and ln: "\<And>j. bitmap_is_set ?bm j \<Longrightarrow> min (bytes_used v) ((j + 1) * bs) \<le> length (fbytes f)"
    proof -
      show "benign f" "length (fbytes f) < 2 ^ 63"
        using op Some d(3,7) ex(1) lim fbyte_punch [of env "fd v" _ _ u f]
        by (auto simp: truncate_file_def split: if_splits)
      show "fbyte f = poke (fbyte (fd v)) (index * bs) (zeros (count * bs))"
      proof (cases "count = max_block_count v - index")
        case True
        then have f': "f = os_ftruncate (fd v) (index * bs)"
          using op Some ex(1) by (auto simp: truncate_file_def split: if_splits)
        have "fbyte (fd v) p = 0" if "index * bs + count * bs \<le> p" for p
        proof -
          have "max_block_count v \<le> p div bs"
            using that True b d(1) by (simp add: less_eq_div_iff_mult_less_eq flip: add_mult_distrib)
          then show ?thesis using d(9,11) by (meson leD)
        qed
        then show ?thesis by (auto simp: f' fbyte_ftruncate poke_zeros fun_eq_iff)
      next
        case False
        then show ?thesis using op Some ex(1) cm fbyte_punch(1) [of env "fd v" _ _ u f] by simp
      qed
      fix j assume j: "bitmap_is_set ?bm j"
      show "min (bytes_used v) ((j + 1) * bs) \<le> length (fbytes f)"
      proof (cases "count = max_block_count v - index")
        case True
        then have "length (fbytes f) = index * bs"
          using op Some ex(1) by (auto simp: truncate_file_def split: if_splits)
        moreover have "j + 1 \<le> index" using j set' [of j] d(11) [of j] True b by auto
        then have "(j + 1) * bs \<le> index * bs" by (rule mult_le_mono1)
        ultimately show ?thesis by simp
      next
        case False
        then show ?thesis using op Some d(6) fbyte_punch(2) [of env "fd v" _ _ u f] by simp
      qed
    qed
    have "discarded bs v (v\<lparr>fd := f, bitmap := ?bm\<rparr>) index count"
      using fl ln set' wf' by (simp add: discarded_def)
    then show ?thesis using unf op Some by auto
  qed
  then show ?thesis using fv_discard_finish [OF v _ b(2)] by blast
qed

lemma put_bytes_split:
  assumes "0 < m" "m \<le> n" "a + n \<le> length old" "a + n \<le> b \<or> b + n \<le> a"
  shows "put_bytes (put_bytes old b (take m (drop a old))) (b + m)
      (take (n - m) (drop (a + m) (put_bytes old b (take m (drop a old))))) =
    put_bytes old b (take n (drop a old))"
proof -
  have "take (n - m) (drop (a + m) (put_bytes old b (take m (drop a old)))) = drop m (take n (drop a old))"
    using assms by (intro nth_equalityI) (auto simp: nth_put_bytes add.assoc)
  moreover have "take m (drop a old) = take m (take n (drop a old))" using assms by simp
  moreover have "m \<le> length (take n (drop a old))" using assms by simp
  ultimately show ?thesis using put_bytes_append [OF assms(1)] by metis
qed

text \<open>On a benign schedule, with the source range inside the file, the kernel copies it all.\<close>

lemma copy_range_benign:
  "\<lbrakk>benign f; a + n \<le> length (fbytes f); a + n \<le> b \<or> b + n \<le> a; a + n < 2 ^ 63\<rbrakk> \<Longrightarrow>
   \<exists>f' a' b'. copy_range_loop f a b n = (Some (a', b', 0), f') \<and> benign f' \<and>
     fbytes f' = put_bytes (fbytes f) b (take n (drop a (fbytes f)))"
proof (induction f a b n rule: copy_range_loop.induct)
  case (1 f a b n)
  show ?case
  proof (cases "n = 0")
    case True
    then show ?thesis using "1.prems"(1) by (simp add: copy_range_loop.simps put_bytes_def)
  next
    case False
    obtain q g where q: "os_next f a n = (q, g)" by fastforce
    have a: "a < 2 ^ 63" using "1.prems"(2,4) False by linarith
    have g: "benign g" "fbytes g = fbytes f" "q = RIntr \<or> (\<exists>m. q = RVal m \<and> 0 < m \<and> m \<le> n)"
      using os_next_benign [OF "1.prems"(1) a _ q] os_next_fbytes [OF q] False by auto
    from g(3) show ?thesis
    proof (elim disjE exE conjE)
      assume "q = RIntr"
      then have c: "os_copy_file_range f a b n = (RIntr, g)" using q by (simp add: os_copy_file_range_def)
      show ?thesis
        using "1.IH"(1) [OF False c [symmetric] refl] g "1.prems" c False
        by (subst copy_range_loop.simps) simp
    next
      fix m assume m: "q = RVal m" "0 < m" "m \<le> n"
      let ?d = "take m (drop a (fbytes f))"
      let ?g = "g\<lparr>fbytes := put_bytes (fbytes f) b ?d\<rparr>"
      have c: "os_copy_file_range f a b n = (RVal m, ?g)"
        using q m g(2) "1.prems"(2) by (simp add: os_copy_file_range_def Let_def)
      have dl: "length ?d = m" using m "1.prems"(2) by simp
      then have "?d \<noteq> []" using m(2) by auto
      then have ln: "length (fbytes ?g) = max (length (fbytes f)) (b + m)" using dl by simp
      have ex: "\<exists>f' a' b'. copy_range_loop ?g (a + m) (b + m) (n - m) = (Some (a', b', 0), f') \<and> benign f' \<and>
          fbytes f' = put_bytes (fbytes ?g) (b + m) (take (n - m) (drop (a + m) (fbytes ?g)))"
      proof (rule "1.IH"(2) [OF False c [symmetric] refl])
        show "\<not> (m = 0 \<and> sched ?g = [])" using m(2) by simp
        show "benign ?g" using g(1) by (simp add: benign_def)
        show "a + m + (n - m) \<le> length (fbytes ?g)" using ln "1.prems"(2) m(3) by simp
        show "a + m + (n - m) \<le> b + m \<or> b + m + (n - m) \<le> a + m" using "1.prems"(3) m(3) by auto
        show "a + m + (n - m) < 2 ^ 63" using "1.prems"(4) m(3) by simp
      qed
      have "copy_range_loop f a b n = copy_range_loop ?g (a + m) (b + m) (n - m)"
        using c False m(2) by (subst copy_range_loop.simps) simp
      then show ?thesis
        using ex put_bytes_split [OF m(2,3) "1.prems"(2,3)] by simp
    qed
  qed
qed

lemma fv_transfer:
  assumes v: "fv_inv env bs v" and i: "src < max_block_count v" "dst < max_block_count v" "src \<noteq> dst"
    and full: "src * bs + bs \<le> length (fbytes (fd v))"
  shows "\<exists>f. transfer_blocks env bs (fd v) src dst 1 = (Some (), f) \<and> benign f \<and>
    fbyte f = poke (fbyte (fd v)) (dst * bs) (peek (fbyte (fd v)) (src * bs) bs) \<and>
    length (fbytes f) = max (length (fbytes (fd v))) (dst * bs + bs)"
proof -
  note d = fv_invD [OF v]
  note es = block_pos_exact [OF v i(1), of 0 bs] and ed = block_pos_exact [OF v i(2), of 0 bs]
  have bs1: "mul64 bs 1 = bs" using es(4) by (simp add: mul64_def)
  have dis: "src * bs + bs \<le> dst * bs \<or> dst * bs + bs \<le> src * bs"
    using i(3) mult_le_mono1 [of "Suc src" dst bs] mult_le_mono1 [of "Suc dst" src bs] by (auto simp: not_less_eq_eq linorder_neq_iff)
  let ?p = "peek (fbyte (fd v)) (src * bs) bs"
  have pk: "take bs (drop (src * bs) (fbytes (fd v))) = ?p"
    using full by (intro nth_equalityI) (auto simp: fbyte_def)
  have put: "fbyte f = poke (fbyte (fd v)) (dst * bs) ?p \<and> length (fbytes f) = max (length (fbytes (fd v))) (dst * bs + bs)"
    if "fbytes f = put_bytes (fbytes (fd v)) (dst * bs) ?p" for f
  proof -
    have "?p \<noteq> []" using d(1) by (metis length_peek list.size(3) less_numeral_extra(3))
    then show ?thesis using that fbyte_write_retry [OF that] by simp
  qed
  show ?thesis
  proof (cases "has_copy_range env")
    case True
    have "src * bs + bs < 2 ^ 63" using es(4) by simp
    from copy_range_benign [OF d(3) full dis this] obtain f a b where
      f: "copy_range_loop (fd v) (src * bs) (dst * bs) bs = (Some (a, b, 0), f)" "benign f"
        "fbytes f = put_bytes (fbytes (fd v)) (dst * bs) ?p" unfolding pk by blast
    then show ?thesis using True es(1) ed(1) bs1 put [OF f(3)] by (simp add: transfer_blocks_def Let_def)
  next
    case False
    from read_retry_benign [OF d(3) full less_imp_le [OF d(7)]] obtain g where
      g: "read_retry (fd v) (src * bs) bs = (Some ?p, g)" "fbytes g = fbytes (fd v)" "benign g" by blast
    have "dst * bs + length ?p < 2 ^ 63" using ed(4) by simp
    from write_retry_benign [OF g(3) less_imp_le [OF this]] obtain f where
      f: "write_retry g (dst * bs) ?p = (Some (), f)" "benign f" "fbytes f = put_bytes (fbytes (fd v)) (dst * bs) ?p"
      using g(2) by auto
    then show ?thesis
      using False es(1) ed(1) bs1 g(1) d(1) put [OF f(3)] by (simp add: transfer_blocks_def Let_def)
  qed
qed

lemma fv_move:
  assumes v: "fv_inv env bs v" and i: "src < max_block_count v" "dst < max_block_count v"
    and rd: "\<And>k. k < bs \<Longrightarrow> readable (fv_view bs v) (src * bs + k)"
  shows "\<exists>v'. fv_move_block env bs v src dst = (Some (), v') \<and> fv_inv env bs v' \<and>
    wrote bs (fv_view bs v) (fv_view bs v') (dst * bs) (peek (fbyte (fd v)) (src * bs) bs) \<and>
    (\<forall>k<bs. solid (fv_view bs v) (src * bs + k) \<longrightarrow> solid (fv_view bs v') (dst * bs + k))"
proof -
  note d = fv_invD [OF v]
  have chk: "check_bounds bs v src 0 bs" "check_bounds bs v dst 0 bs" using i by (simp_all add: check_bounds_def)
  let ?p = "peek (fbyte (fd v)) (src * bs) bs"
  have un: "peek (fbyte (fd v)) (k * bs) bs = zeros bs" if "\<not> bitmap_is_set (bitmap v) k" for k
    using d(9) that by (intro peek_zero) (simp add: div_block)
  have keep: "\<exists>v'. (Some (), v) = (Some (), v') \<and> fv_inv env bs v' \<and>
    wrote bs (fv_view bs v) (fv_view bs v') (dst * bs) ?p \<and>
    (\<forall>k<bs. solid (fv_view bs v) (src * bs + k) \<longrightarrow> solid (fv_view bs v') (dst * bs + k))"
    if same: "peek (fbyte (fd v)) (dst * bs) bs = ?p"
      "\<And>k. k < bs \<Longrightarrow> readable (fv_view bs v) (dst * bs + k)" "src = dst \<or> \<not> bitmap_is_set (bitmap v) src"
  proof -
    have "wrote bs (fv_view bs v) (fv_view bs v) (dst * bs) ?p"
      unfolding wrote_def
    proof (intro conjI allI impI, goal_cases)
      case 2 show ?case using poke_peek_self [of "fbyte (fd v)" "dst * bs" bs] same(1) by simp
    next
      case (3 p) then show ?case using same(2) [of "p - dst * bs"] d(1) by auto
    next
      case (4 p) then have "p div bs = dst" using d(1) by (intro div_block) auto
      then show ?case using 4 d(1) by simp
    qed auto
    moreover have "solid (fv_view bs v) (dst * bs + k)" if "k < bs" "solid (fv_view bs v) (src * bs + k)" for k
      using that same(3) by (auto simp: d(1))
    ultimately show ?thesis using v by blast
  qed
  show ?thesis
  proof (cases "src = dst \<or> \<not> bitmap_is_set (bitmap v) src \<and> \<not> bitmap_is_set (bitmap v) dst")
    case True
    then have "peek (fbyte (fd v)) (dst * bs) bs = ?p" using un by auto
    moreover have "readable (fv_view bs v) (dst * bs + k)" if "k < bs" for k
      using True rd [OF that] that by auto
    moreover have "fv_move_block env bs v src dst = (Some (), v)"
      using True chk by (auto simp: fv_move_block_def Let_def)
    ultimately show ?thesis using keep True by auto
  next
    case ne: False
    show ?thesis
    proof (cases "bitmap_is_set (bitmap v) src")
      case False
      then have "fv_move_block env bs v src dst = fv_discard_blocks env bs v dst 1"
        using chk ne by (simp add: fv_move_block_def Let_def)
      then show ?thesis
        using fv_discard [OF v, of dst 1] i(2) un [OF False] False by (auto simp: d(1))
    next
      case True
      have "readable (fv_view bs v) (src * bs + (bs - 1))"
        using d(1) by (intro rd) simp
      moreover have "(src * bs + (bs - 1)) div bs = src" using d(1) by (intro div_block) auto
      ultimately have "src * bs + (bs - 1) < bytes_used v" using True unfolding fv_view_simps by simp
      then have "src * bs + bs \<le> length (fbytes (fd v))" using d(1,6) by linarith
      from fv_transfer [OF v i _ this] ne obtain f where
        f: "transfer_blocks env bs (fd v) src dst 1 = (Some (), f)" "benign f"
          "fbyte f = poke (fbyte (fd v)) (dst * bs) ?p" "length (fbytes f) = max (length (fbytes (fd v))) (dst * bs + bs)"
        by auto
      obtain bm where bm: "bitmap_set (alloc env) (bitmap v) dst = (Some (), bm)" "bitmap_wf bm"
        "\<And>j. bitmap_is_set bm j \<longleftrightarrow> j = dst \<or> bitmap_is_set (bitmap v) j"
        using bitmap_set_env [OF v] by blast
      let ?v = "v\<lparr>fd := f, bitmap := bm, bytes_used := max (bytes_used v) (dst * bs + bs)\<rparr>"
      have "?p \<noteq> []" using d(1) by (metis length_peek list.size(3) less_numeral_extra(3))
      then have st: "fv_inv env bs ?v \<and> wrote bs (fv_view bs v) (fv_view bs ?v) (dst * bs) ?p \<and>
          (\<forall>p. dst * bs \<le> p \<and> p < dst * bs + bs \<longrightarrow> solid (fv_view bs ?v) p)"
        using fv_store [OF v i(2) _ _ f(2) _ _ bm(2,3), of 0 ?p ?v] f(3,4) by simp
      have "dst + 1 \<le> max_block_count v" using i(2) by simp
      then have "(dst + 1) * bs < 2 ^ 63" using mult_le_mono1 [of "dst + 1" "max_block_count v" bs] d(5) by linarith
      moreover have "(dst + 1) * 1 \<le> (dst + 1) * bs" using d(1) by (intro mult_le_mono2) simp
      ultimately have "mul64 (add64 dst 1) bs = dst * bs + bs" by (simp add: mul64_def add64_def)
      then have "fv_move_block env bs v src dst = (Some (), ?v)"
        using chk ne True f(1) bm(1) by (auto simp: fv_move_block_def Let_def max_def)
      then show ?thesis using st by auto
    qed
  qed
qed

text \<open>The file volume is a volume.\<close>

interpretation fv: volume "file_volume_ops env bs" "fv_view bs" "fv_inv env bs" for env bs
proof (unfold_locales, goal_cases)
  case (1 v) then show ?case by (simp add: file_volume_ops_def fv_invD(1))
next
  case (2 v) then show ?case using fv_invD(5) [of env bs v] by (simp add: file_volume_ops_def)
next
  case (8 v i off n) then show ?case using fv_read_partial [of env bs v i off n] by (simp add: file_volume_ops_def)
next
  case (9 v i off n data) then show ?case
    using fv_write_partial [of env bs v i off n data] by (simp add: file_volume_ops_def)
next
  case (10 v i n) then show ?case using fv_discard [of env bs v i n] by (simp add: file_volume_ops_def)
next
  case (11 v src dst) then show ?case using fv_move [of env bs v src dst] by (simp add: file_volume_ops_def)
qed (auto simp: file_volume_ops_def fv_read_block_def fv_write_block_def)

section \<open>Opening and committing\<close>

lemma set_range:
  assumes "bitmap_wf b" "\<And>n. a n"
  shows "bitmap_wf (fold (\<lambda>i b. snd (bitmap_set a b i)) is b) \<and>
    (\<forall>j. bitmap_is_set (fold (\<lambda>i b. snd (bitmap_set a b i)) is b) j \<longleftrightarrow> j \<in> set is \<or> bitmap_is_set b j)"
  using assms(1)
proof (induction "is" arbitrary: b)
  case (Cons i "is")
  from bitmap_set_ok [OF Cons.prems, of a i] assms(2) obtain b' where
    b': "bitmap_set a b i = (Some (), b')" "bitmap_wf b'"
    "\<And>j. bitmap_is_set b' j \<longleftrightarrow> j = i \<or> bitmap_is_set b j"
    by blast
  then show ?case using Cons.IH [OF b'(2)] by auto
qed simp

text \<open>Opening a regular file that fits below the maximum size gives a volume with the bytes of
  the file.\<close>

lemma div_up_bound: "0 < b \<Longrightarrow> div_up x b * b \<le> x + b - 1"
proof -
  assume b: "0 < b"
  have x: "x div b * b + x mod b = x" by simp
  show ?thesis
  proof (cases "x mod b = 0")
    case True
    then show ?thesis using x b unfolding div_up_def by simp
  next
    case False
    then have "div_up x b * b = x div b * b + b" by (simp add: div_up_def)
    then show ?thesis using x b False by linarith
  qed
qed

lemma open_pad:
  assumes "has_truncate env" "benign f" "div_up (length (fbytes f)) 4096 * 4096 < 2 ^ 63"
  shows "\<exists>g. (if length (fbytes f) mod 4096 \<noteq> 0 then truncate_file env f (div_up (length (fbytes f)) 4096 * 4096)
      else (Some (), f)) = (Some (), g) \<and> benign g \<and> fbyte g = fbyte f \<and>
    length (fbytes g) = div_up (length (fbytes f)) 4096 * 4096"
proof (cases "length (fbytes f) mod 4096 = 0")
  case True
  then show ?thesis using assms(2) by (auto simp: div_up_def)
next
  case False
  let ?n = "div_up (length (fbytes f)) 4096 * 4096"
  have "length (fbytes f) \<le> ?n" by (rule div_up_ge) simp
  then have "fbyte f p = 0" if "\<not> p < ?n" for p using that by (simp add: fbyte_def)
  then have "fbyte (os_ftruncate f ?n) = fbyte f"
    by (simp only: fun_eq_iff fbyte_ftruncate) simp
  then show ?thesis using False assms by (simp add: truncate_file_def)
qed

lemma open_inv:
  assumes env: "\<And>n. alloc env n" and g: "benign g" "length (fbytes g) = used * 4096" "used * 4096 < 2 ^ 63"
    and bm: "bitmap_wf bm" "\<And>j. bitmap_is_set bm j \<longleftrightarrow> j < used" and m: "used \<le> mx" "mx * 4096 < 2 ^ 63"
    and v: "v = \<lparr>fd = g, bitmap = bm, bytes_used = used * 4096, min_block_count = 0, max_block_count = mx\<rparr>"
  shows "fv_inv env 4096 v \<and> (\<forall>p. readable (fv_view 4096 v) p)"
proof -
  have blk: "p div 4096 < used \<longleftrightarrow> p < used * 4096" for p by (simp add: div_less_iff_less_mult)
  have z: "fbyte g p = 0" if "used * 4096 \<le> p" for p using that g(2) by (simp add: fbyte_def)
  have "fv_inv env 4096 v"
    unfolding fv_inv_def
  proof (intro conjI allI impI)
    fix p assume "\<not> bitmap_is_set (bitmap v) (p div 4096)"
    then show "fbyte (fd v) p = 0" using z [of p] bm(2) blk [of p] by (simp add: v)
  next
    fix j assume "bitmap_is_set (bitmap v) j"
    then show "j * 4096 < bytes_used v" "j < max_block_count v" using bm(2) m(1) by (simp_all add: v)
  qed (use env g m(2) bm(1) z in \<open>simp_all add: v\<close>)
  moreover have "readable (fv_view 4096 v) p" for p
    using bm(2) blk [of p] by (simp add: v)
  ultimately show ?thesis by blast
qed

lemma volume_from_fd_regular:
  assumes env: "\<And>n. alloc env n" "has_truncate env" and f: "benign f" "length (fbytes f) \<le> max_sz"
    and st: "\<not> st_blk st" "st_size st = length (fbytes f)" and m: "max_sz + 4096 \<le> 2 ^ 63"
  shows "\<exists>v f'. volume_from_fd env f (Some st) max_sz = (Some (4096, v), f') \<and> fv_inv env 4096 v \<and>
    fbyte (fd v) = fbyte f \<and> max_block_count v = div_up max_sz 4096 \<and>
    (\<forall>p. readable (fv_view 4096 v) p)"
proof -
  define used where "used = div_up (length (fbytes f)) 4096"
  have um: "used \<le> div_up max_sz 4096" unfolding used_def by (rule div_up_mono) (use f in simp_all)
  have mm: "div_up max_sz 4096 * 4096 < 2 ^ 63" using div_up_bound [of 4096 max_sz] m by simp
  moreover have "used * 4096 \<le> div_up max_sz 4096 * 4096" using um by (rule mult_le_mono1)
  ultimately have ul: "used * 4096 < 2 ^ 63" by linarith
  from open_pad [OF env(2) f(1)] ul obtain g where
    g: "(if length (fbytes f) mod 4096 \<noteq> 0 then truncate_file env f (used * 4096) else (Some (), f)) = (Some (), g)"
      "benign g" "fbyte g = fbyte f" "length (fbytes g) = used * 4096"
    unfolding used_def by blast
  obtain bm where bm: "bitmap_create (alloc env) used = Some bm"
    using env(1) by (simp add: bitmap_create_def Let_def)
  let ?bm = "fold (\<lambda>i b. snd (bitmap_set (alloc env) b i)) [0..<used] bm"
  have bmf: "bitmap_wf ?bm" "\<And>j. bitmap_is_set ?bm j \<longleftrightarrow> j < used"
    using set_range [OF bitmap_create_ok(1) [OF bm], of "alloc env" "[0..<used]"] env(1) bitmap_create_ok(2) [OF bm] by simp_all
  define v where "v = \<lparr>fd = g, bitmap = ?bm, bytes_used = used * 4096, min_block_count = 0,
    max_block_count = div_up max_sz 4096\<rparr>"
  have mu: "mul64 used 4096 = used * 4096" using ul by (simp add: mul64_def)
  have us: "(if length (fbytes f) mod 4096 \<noteq> 0 then length (fbytes f) div 4096 + 1
      else length (fbytes f) div 4096) = used" by (simp add: used_def div_up_def)
  have "volume_from_fd env f (Some st) max_sz = (Some (4096, v), g)"
    using env(1) by (simp only: volume_from_fd_def option.case prod.case Let_def st if_False if_True simp_thms us mu v_def g(1) bm)
  moreover have "fv_inv env 4096 v \<and> (\<forall>p. readable (fv_view 4096 v) p)"
    by (rule open_inv [OF env(1) g(2,4) _ bmf um _ v_def]) (use ul mm in simp_all)
  ultimately show ?thesis using g(3) by (auto simp: v_def)
qed

text \<open>Committing cuts the file to the used bytes and loses none of them.\<close>

lemma fv_commit_ok:
  assumes v: "fv_inv env bs v" and env: "has_truncate env" "has_fsync env"
  shows "\<exists>v'. fv_commit env v = (Some (), v') \<and> fv_inv env bs v' \<and> fv_view bs v' = fv_view bs v \<and>
    length (fbytes (fd v')) = bytes_used v"
proof -
  note d = fv_invD [OF v]
  have "bytes_used v < 2 ^ 63" using d(6,7) by linarith
  moreover have "fbyte (os_ftruncate (fd v) (bytes_used v)) = fbyte (fd v)"
    using d(8) by (auto simp: fbyte_ftruncate fun_eq_iff)
  ultimately show ?thesis
    using v env d by (auto simp: fv_commit_def truncate_file_def fv_inv_def fv_view_def)
qed

section \<open>Properties\<close>

text \<open>A small volume for the examples: blocks of 4 bytes, at most 4 of them, on an empty
  file whose next system calls are interrupted and short.\<close>

definition demo_env :: os_env where
  "demo_env = \<lparr>alloc = (\<lambda>_. True), has_copy_range = True, has_punch = True, has_truncate = True, has_fsync = True\<rparr>"

definition demo_volume :: file_volume where
  "demo_volume =
     \<lparr>fd = \<lparr>fbytes = [], sched = [Intr, Short 1]\<rparr>, bitmap = \<lparr>words = [0, 0]\<rparr>, bytes_used = 0,
      min_block_count = 0, max_block_count = 4\<rparr>"

lemma empty_bitmap: "\<not> bitmap_is_set \<lparr>words = [0, 0]\<rparr> i"
  by (cases "i div 64" rule: nat.exhaust) (auto simp: bitmap_is_set_iff less_Suc_eq)

lemma demo_inv: "fv_inv demo_env 4 demo_volume"
  by (simp add: fv_inv_def demo_env_def demo_volume_def benign_def bitmap_wf_def fbyte_def empty_bitmap)

text \<open>C1: on a file volume, writing any bytes at any byte offset inside the volume succeeds, changes
  exactly the addressed bytes, and reading the range gives them back.\<close>

theorem file_volume_write_read:
  assumes "fv_inv env bs v" "off + length d \<le> max_block_count v * bs"
  shows "\<exists>v1 v2. volume_write (file_volume_ops env bs) v off (Some d) (length d) = (Some (), v1) \<and>
    fbyte (fd v1) = poke (fbyte (fd v)) off d \<and>
    volume_read (file_volume_ops env bs) v1 off (length d) = (Some d, v2) \<and>
    fbyte (fd v2) = fbyte (fd v1) \<and> fv_inv env bs v2"
  using fv.write_read [of env bs v off d] assms by (simp add: file_volume_ops_def)

text \<open>The theorem at an unaligned range over three blocks of the example volume.\<close>

theorem file_volume_write_read_witness:
  "\<exists>v1 v2. volume_write (file_volume_ops demo_env 4) demo_volume 3 (Some [1, 2, 3, 4, 5, 6]) 6 = (Some (), v1) \<and>
    fbyte (fd v1) = poke (fbyte (fd demo_volume)) 3 [1, 2, 3, 4, 5, 6] \<and>
    volume_read (file_volume_ops demo_env 4) v1 3 6 = (Some [1, 2, 3, 4, 5, 6], v2) \<and>
    fbyte (fd v2) = fbyte (fd v1) \<and> fv_inv demo_env 4 v2"
proof -
  have l: "length [1, 2, 3, 4, 5, 6 :: byte] = 6" by simp
  have "3 + length [1, 2, 3, 4, 5, 6 :: byte] \<le> max_block_count demo_volume * 4" by (simp add: demo_volume_def)
  from file_volume_write_read [OF demo_inv this] show ?thesis unfolding l .
qed

section \<open>Partial moves onto a block that is not marked\<close>

text \<open>\<open>move_block_partial\<close> copies the bytes in the file but, unlike \<open>move_block\<close>, does not mark the destination
  block in the bitmap. If the destination was not marked before, a successful move is followed by reads of zeros there,
  whatever was moved.\<close>

theorem move_block_partial_unmarked:
  assumes "fv_move_block_partial bs v src dst src_off dst_off sz = (Some (), v')" "\<not> bitmap_is_set (bitmap v) dst"
    and "check_bounds bs v dst off n"
  shows "fv_read_partial_block bs v' dst off n = (Some (zeros n), v')"
proof -
  have "bitmap v' = bitmap v" "max_block_count v' = max_block_count v"
    using assms(1) by (auto simp: fv_move_block_partial_def Let_def split: if_splits prod.splits option.splits)
  then show ?thesis using assms(2,3) by (simp add: fv_read_partial_block_def check_bounds_def zeros_def)
qed

end
