(* ===== verification/FileData.thy ===== *)
theory FileData
  imports FsTree FileVolume
begin

text \<open>
  Correctness of the file data operations of the file system tree (\<open>FsTree\<close>), proved once against
  the contract \<open>volume\<close> and therefore valid on the file volume.

  A file of the tree is, abstractly, a list of bytes: \<open>file_byte\<close> is 0 inside a hole and otherwise
  the byte of the volume that the block accounting names. The invariant \<open>fs_wf\<close> says that the
  stored blocks of the files lie apart from each other below \<open>data_offset\<close> and can be read.
\<close>

section \<open>The abstract contents of a file\<close>

abbreviation holes_of :: "file_data \<Rightarrow> nat set" where
  "holes_of f \<equiv> hole_blocks (sparse f)"

definition file_blocks :: "nat \<Rightarrow> file_data \<Rightarrow> nat" where
  "file_blocks bs f = stored_before (holes_of f) (div_up (f_size f) bs)"

definition file_addr :: "nat \<Rightarrow> file_data \<Rightarrow> nat \<Rightarrow> nat" where
  "file_addr bs f p = (start_index f + stored_before (holes_of f) (p div bs)) * bs + p mod bs"

definition file_byte :: "nat \<Rightarrow> view \<Rightarrow> file_data \<Rightarrow> nat \<Rightarrow> byte" where
  "file_byte bs w f p =
     (if p < f_size f \<and> p div bs \<notin> holes_of f then content w (file_addr bs f p) else 0)"

definition file_content :: "nat \<Rightarrow> view \<Rightarrow> file_data \<Rightarrow> byte list" where
  "file_content bs w f = peek (file_byte bs w f) 0 (f_size f)"

text \<open>Two files own no common block.\<close>

definition blocks_apart :: "nat \<Rightarrow> file_data \<Rightarrow> file_data \<Rightarrow> bool" where
  "blocks_apart bs f g \<longleftrightarrow>
     file_blocks bs f = 0 \<or> file_blocks bs g = 0 \<or>
     start_index f + file_blocks bs f \<le> start_index g \<or> start_index g + file_blocks bs g \<le> start_index f"

definition fs_wf :: "nat \<Rightarrow> view \<Rightarrow> 'v fstree \<Rightarrow> bool" where
  "fs_wf bs w fs \<longleftrightarrow>
     distinct (files fs) \<and> data_offset fs \<le> vblocks w \<and>
     (\<forall>p<data_offset fs * bs. readable w p) \<and>
     (\<forall>m\<in>set (files fs). file_wf bs (file_of fs m) \<and>
        (0 < file_blocks bs (file_of fs m) \<longrightarrow>
           start_index (file_of fs m) + file_blocks bs (file_of fs m) \<le> data_offset fs) \<and>
        (\<forall>p. f_size (file_of fs m) \<le> p \<and> p div bs < div_up (f_size (file_of fs m)) bs \<and>
           p div bs \<notin> holes_of (file_of fs m) \<longrightarrow> solid w (file_addr bs (file_of fs m) p)) \<and>
        (\<forall>l\<in>set (files fs). l \<noteq> m \<longrightarrow> blocks_apart bs (file_of fs m) (file_of fs l)))"

lemma fs_wfD:
  assumes "fs_wf bs w fs"
  shows "distinct (files fs)" "data_offset fs \<le> vblocks w"
    "p < data_offset fs * bs \<Longrightarrow> readable w p"
    "m \<in> set (files fs) \<Longrightarrow> file_wf bs (file_of fs m)"
    "m \<in> set (files fs) \<Longrightarrow> 0 < file_blocks bs (file_of fs m) \<Longrightarrow>
       start_index (file_of fs m) + file_blocks bs (file_of fs m) \<le> data_offset fs"
    "m \<in> set (files fs) \<Longrightarrow> f_size (file_of fs m) \<le> p \<Longrightarrow> p div bs < div_up (f_size (file_of fs m)) bs \<Longrightarrow>
       p div bs \<notin> holes_of (file_of fs m) \<Longrightarrow> solid w (file_addr bs (file_of fs m) p)"
    "m \<in> set (files fs) \<Longrightarrow> l \<in> set (files fs) \<Longrightarrow> l \<noteq> m \<Longrightarrow>
       blocks_apart bs (file_of fs m) (file_of fs l)"
  using assms unfolding fs_wf_def by blast+

lemma file_wfD:
  assumes "file_wf bs f"
  shows "0 < bs" "bs < 2 ^ 32" "holes_wf (sparse f)" "f_size f < 2 ^ 63"
    "b \<in> holes_of f \<Longrightarrow> b < div_up (f_size f) bs"
  using assms unfolding file_wf_def by auto

text \<open>The block count the operations compute from the physical size.\<close>

lemma blocks_of_physical_size:
  "file_wf bs f \<Longrightarrow> div_up (fstree_file_physical_size bs f) bs = file_blocks bs f"
  by (simp add: physical_size_ok(2) stored_bytes_div_up file_wfD(1) file_blocks_def)

lemma physical_size_0: "file_wf bs f \<Longrightarrow> fstree_file_physical_size bs f = 0 \<longleftrightarrow> file_blocks bs f = 0"
proof -
  assume f: "file_wf bs f"
  have "div_up x bs = 0 \<longleftrightarrow> x = 0" for x
    using div_up_less [OF file_wfD(1) [OF f], of 0 x] by linarith
  then show ?thesis by (simp flip: blocks_of_physical_size [OF f])
qed

lemma stored_block_lt:
  assumes "file_wf bs f" "p div bs < div_up (f_size f) bs" "p div bs \<notin> holes_of f"
  shows "stored_before (holes_of f) (p div bs) < file_blocks bs f"
  unfolding file_blocks_def using assms by (intro stored_before_strict)

lemma size_block_lt:
  assumes "0 < bs" "p < sz"
  shows "p div bs < div_up sz bs"
proof -
  have "p div bs * bs < sz" using div_times_less_eq_dividend [of p bs] assms(2) by linarith
  then show ?thesis using assms(1) by (simp add: div_up_less)
qed

section \<open>Finding blocks\<close>

lemma hole_count_before:
  assumes "holes_from lo (h # hs)" "b \<notin> hole_blocks (h # hs)"
  shows "card (hole_blocks (h # hs) \<inter> {..<b}) =
    (if h_index h < b then h_count h else 0) + card (hole_blocks hs \<inter> {..<b})"
proof -
  have nb: "\<not> (h_index h \<le> b \<and> b < h_index h + h_count h)" using assms(2) by simp
  have "hole_set h \<inter> {..<b} = (if h_index h < b then hole_set h else {})"
    using nb by (auto simp: hole_set_def)
  then have c: "card (hole_set h \<inter> {..<b}) = (if h_index h < b then h_count h else 0)"
    by (simp add: hole_set_def)
  have "(hole_set h \<inter> {..<b}) \<inter> (hole_blocks hs \<inter> {..<b}) = {}"
    using assms(1) holes_from_below [of "h_index h + h_count h + 1" hs] by (auto simp: hole_set_def)
  moreover have "hole_blocks (h # hs) \<inter> {..<b} = (hole_set h \<inter> {..<b}) \<union> (hole_blocks hs \<inter> {..<b})" by auto
  ultimately show ?thesis using c by (simp add: card_Un_disjoint)
qed

lemma stored_before_holes: "finite H \<Longrightarrow> stored_before H b + card (H \<inter> {..<b}) = b"
proof -
  have "card {c. c < b \<and> c \<in> H} + card {c. c < b \<and> c \<notin> H} = b" by (rule card_split)
  moreover have "{c. c < b \<and> c \<in> H} = H \<inter> {..<b}" by auto
  ultimately show ?thesis by (simp add: stored_before_def)
qed

lemma locate_block_ok:
  "\<lbrakk>holes_from lo hs; b \<notin> hole_blocks hs; card (hole_blocks hs \<inter> {..<b}) \<le> start\<rbrakk> \<Longrightarrow>
     locate_block hs b start = Some (start - card (hole_blocks hs \<inter> {..<b}))"
proof (induction hs arbitrary: lo start)
  case (Cons h hs)
  note c = hole_count_before [OF Cons.prems(1,2)]
  have "holes_from (h_index h + h_count h + 1) hs" "b \<notin> hole_blocks hs" using Cons.prems by auto
  note ih = Cons.IH [OF this]
  have nb: "\<not> (h_index h \<le> b \<and> b - h_index h < h_count h)" using Cons.prems(2) by auto
  show ?case
  proof (cases "h_index h < b")
    case True
    then show ?thesis
      using nb c ih [of "start - h_count h"] Cons.prems(3) by (auto simp: sub64_exact)
  next
    case False
    then show ?thesis using nb c ih [of start] Cons.prems(3) by auto
  qed
qed simp

lemma locate_block_hole: "b \<in> hole_blocks hs \<Longrightarrow> locate_block hs b start = None"
  by (induction hs arbitrary: start) auto

lemma locate_file_block:
  assumes "file_wf bs f" "b \<notin> holes_of f" "start_index f + b < max64"
  shows "locate_block (sparse f) b (add64 (start_index f) b) = Some (start_index f + stored_before (holes_of f) b)"
proof -
  have s: "stored_before (holes_of f) b + card (holes_of f \<inter> {..<b}) = b" by (rule stored_before_holes) simp
  have "locate_block (sparse f) b (start_index f + b) = Some (start_index f + b - card (holes_of f \<inter> {..<b}))"
    using s assms(2) by (intro locate_block_ok [OF file_wfD(3) [OF assms(1)]]) auto
  moreover have "start_index f + b - card (holes_of f \<inter> {..<b}) = start_index f + stored_before (holes_of f) b"
    using s by linarith
  ultimately show ?thesis using assms(3) by (simp add: add64_exact)
qed

section \<open>Reading\<close>

context volume
begin

text \<open>What the invariant gives about one stored block of a file.\<close>

lemma stored_block:
  assumes v: "inv v" and wf: "fs_wf bs (view v) fs" and n: "n \<in> set (files fs)"
    and b: "b < div_up (f_size (file_of fs n)) bs" "b \<notin> holes_of (file_of fs n)"
  defines "r \<equiv> start_index (file_of fs n) + stored_before (holes_of (file_of fs n)) b"
  shows "locate_block (sparse (file_of fs n)) b (add64 (start_index (file_of fs n)) b) = Some r"
    and "r < data_offset fs" "r < vblocks (view v)" "r < max64"
    and "off < bs \<Longrightarrow> readable (view v) (r * bs + off)"
proof -
  note f = fs_wfD(4) [OF wf n]
  have lt: "stored_before (holes_of (file_of fs n)) b < file_blocks bs (file_of fs n)"
    unfolding file_blocks_def using b by (intro stored_before_strict)
  then show d: "r < data_offset fs" using fs_wfD(5) [OF wf n] by (simp add: r_def)
  then show vb: "r < vblocks (view v)" using fs_wfD(2) [OF wf] by simp
  have "r * bs < capacity v" using vb bs_pos [OF v] by simp
  then show "r < max64" using block_in_range(2) [OF v, of r 0] by simp
  have "vblocks (view v) * 1 \<le> capacity v" using bs_pos [OF v] by (intro mult_le_mono2) simp
  then have "start_index (file_of fs n) < 2 ^ 63" using max_bound [OF v] vb unfolding r_def by linarith
  moreover have "div_up (f_size (file_of fs n)) bs \<le> f_size (file_of fs n)"
    using div_up_le [OF bs_pos [OF v], of "f_size (file_of fs n)" "f_size (file_of fs n)"] bs_pos [OF v] by simp
  then have "b < 2 ^ 63" using b(1) file_wfD(4) [OF f] by linarith
  ultimately have "start_index (file_of fs n) + b < max64" by simp
  then show "locate_block (sparse (file_of fs n)) b (add64 (start_index (file_of fs n)) b) = Some r"
    unfolding r_def by (rule locate_file_block [OF f b(2)])
  assume "off < bs"
  moreover have "(r + 1) * bs \<le> data_offset fs * bs" using d by (intro mult_le_mono1) simp
  ultimately have "r * bs + off < data_offset fs * bs" by simp
  then show "readable (view v) (r * bs + off)" by (rule fs_wfD(3) [OF wf])
qed

lemma ft_read_partial_ok:
  assumes v: "inv (fs_volume fs)" and wf: "fs_wf bs (view (fs_volume fs)) fs" and n: "n \<in> set (files fs)"
    and rng: "off + k \<le> bs" "0 < k" "b * bs + off + k \<le> f_size (file_of fs n)"
  shows "\<exists>v'. ft_read_partial_block vol fs n b off k =
      (Some (peek (file_byte bs (view (fs_volume fs)) (file_of fs n)) (b * bs + off) k), fs\<lparr>fs_volume := v'\<rparr>) \<and>
    inv v' \<and> view v' = view (fs_volume fs)"
proof -
  let ?f = "file_of fs n" and ?w = "view (fs_volume fs)"
  have blk: "(b * bs + off + i) div bs = b" "(b * bs + off + i) mod bs = off + i" if "i < k" for i
    using that rng(1) by (simp_all add: add.assoc)
  have b: "b < div_up (f_size ?f) bs"
    using size_block_lt [OF bs_pos [OF v], of "b * bs + off" "f_size ?f"] rng blk [of 0] by simp
  show ?thesis
  proof (cases "b \<in> holes_of ?f")
    case True
    then have "peek (file_byte bs ?w ?f) (b * bs + off) k = zeros k"
      using blk(1) by (intro nth_equalityI) (simp_all add: file_byte_def)
    then show ?thesis
      using True v by (intro exI [of _ "fs_volume fs"]) (simp add: ft_read_partial_block_def locate_block_hole)
  next
    case False
    let ?r = "start_index ?f + stored_before (holes_of ?f) b"
    note sb = stored_block [OF v wf n b False]
    have "off = 0 \<or> readable ?w (?r * bs + off)" using sb(5) rng(1,2) by simp
    from read_partial [OF v sb(3) rng(1,2) this] obtain v' where
      v': "read_partial_block vol (fs_volume fs) ?r off k = (Some (peek (content ?w) (?r * bs + off) k), v')"
        "inv v'" "view v' = ?w" by blast
    have "peek (content ?w) (?r * bs + off) k = peek (file_byte bs ?w ?f) (b * bs + off) k"
      using blk rng(3) False by (intro nth_equalityI) (simp_all add: file_byte_def file_addr_def add.assoc)
    moreover have "(if off = 0 \<and> k = bs then read_block vol (fs_volume fs) ?r
        else read_partial_block vol (fs_volume fs) ?r off k) = (Some (peek (content ?w) (?r * bs + off) k), v')"
      using v'(1) by (auto simp: read_block_eq)
    ultimately show ?thesis
      using v'(2,3) sb(1) by (intro exI [of _ v']) (simp add: ft_read_partial_block_def)
  qed
qed

lemma ft_read_loop_ok:
  "\<lbrakk>inv (fs_volume fs); fs_wf bs (view (fs_volume fs)) fs; n \<in> set (files fs); off < bs;
    b * bs + off + sz \<le> f_size (file_of fs n)\<rbrakk> \<Longrightarrow>
   \<exists>v'. ft_read_loop vol fs n b off (if sz < bs - off then sz else bs - off) sz =
      (Some (peek (file_byte bs (view (fs_volume fs)) (file_of fs n)) (b * bs + off) sz), fs\<lparr>fs_volume := v'\<rparr>) \<and>
    inv v' \<and> view v' = view (fs_volume fs)"
proof (induction sz arbitrary: fs b off rule: less_induct)
  case (less sz)
  let ?fb = "file_byte bs (view (fs_volume fs)) (file_of fs n)"
  show ?case
  proof (cases "sz = 0")
    case True
    then show ?thesis using less.prems(1)
      by (intro exI [of _ "fs_volume fs"]) (simp add: ft_read_loop.simps)
  next
    case False
    define k where "k = (if sz < bs - off then sz else bs - off)"
    have k: "0 < k" "off + k \<le> bs" "k \<le> sz" and tail: "sz - k \<noteq> 0 \<Longrightarrow> (b + 1) * bs = b * bs + off + k"
      using False less.prems(4) by (auto simp: k_def split: if_splits)
    have "b * bs + off + k \<le> f_size (file_of fs n)" using k(3) less.prems(5) by linarith
    from ft_read_partial_ok [OF less.prems(1-3) k(2,1) this] obtain v1 where
      v1: "ft_read_partial_block vol fs n b off k = (Some (peek ?fb (b * bs + off) k), fs\<lparr>fs_volume := v1\<rparr>)"
        "inv v1" "view v1 = view (fs_volume fs)" by blast
    let ?fs1 = "fs\<lparr>fs_volume := v1\<rparr>"
    have wf1: "fs_wf bs (view v1) ?fs1" using less.prems(2) v1(3) by (simp add: fs_wf_def)
    have "\<exists>v'. ft_read_loop vol ?fs1 n (b + 1) 0 (if sz - k < bs - 0 then sz - k else bs - 0) (sz - k) =
        (Some (peek ?fb (b * bs + off + k) (sz - k)), ?fs1\<lparr>fs_volume := v'\<rparr>) \<and> inv v' \<and> view v' = view v1"
    proof (cases "sz - k = 0")
      case True
      then show ?thesis using v1 by (intro exI [of _ v1]) (simp add: ft_read_loop.simps)
    next
      case ne: False
      have "sz - k < sz" using k(1) False by linarith
      moreover have "(b + 1) * bs + 0 + (sz - k) \<le> f_size (file_of ?fs1 n)" using tail [OF ne] k(3) less.prems(5) by simp
      ultimately show ?thesis
        using less.IH [of "sz - k" ?fs1 0 "b + 1"] v1 wf1 less.prems(3) bs_pos [OF v1(2)] tail [OF ne]
        by (simp add: add_ac)
    qed
    then obtain v2 where v2: "ft_read_loop vol ?fs1 n (b + 1) 0 (if sz - k < bs then sz - k else bs) (sz - k) =
        (Some (peek ?fb (b * bs + off + k) (sz - k)), fs\<lparr>fs_volume := v2\<rparr>)" "inv v2" "view v2 = view v1"
      unfolding minus_nat.diff_0 by auto
    have "peek ?fb (b * bs + off) k @ peek ?fb (b * bs + off + k) (sz - k) = peek ?fb (b * bs + off) sz"
      using peek_append [of ?fb "b * bs + off" k "sz - k"] k(3) by simp
    then show ?thesis
      using v1 v2 False k
      by (intro exI [of _ v2], subst ft_read_loop.simps) (simp add: Let_def flip: k_def)
  qed
qed

text \<open>Reading returns the bytes of the file, and zeros behind its end.\<close>

lemma file_read_ok:
  assumes v: "inv (fs_volume fs)" and wf: "fs_wf bs (view (fs_volume fs)) fs" and n: "n \<in> set (files fs)"
  shows "\<exists>v'. fstree_file_read vol fs n off sz =
      (Some (peek (file_byte bs (view (fs_volume fs)) (file_of fs n)) off sz), fs\<lparr>fs_volume := v'\<rparr>) \<and>
    inv v' \<and> view v' = view (fs_volume fs)"
proof -
  let ?f = "file_of fs n" and ?fb = "file_byte bs (view (fs_volume fs)) (file_of fs n)"
  have beyond: "?fb p = 0" if "f_size ?f \<le> p" for p using that by (simp add: file_byte_def)
  show ?thesis
  proof (cases "sz = 0 \<or> f_size ?f \<le> off")
    case True
    then have "peek ?fb off sz = zeros sz" using beyond by (intro peek_zero) auto
    then show ?thesis
      using True v by (intro exI [of _ "fs_volume fs"]) (auto simp: fstree_file_read_def zeros_def)
  next
    case False
    define k where "k = (if f_size ?f - off < sz then f_size ?f - off else sz)"
    have k: "k \<le> sz" "off + k \<le> f_size ?f" "k = sz \<or> off + k = f_size ?f" using False by (auto simp: k_def)
    have "peek ?fb (off + k) (sz - k) = zeros (sz - k)" using k beyond by (intro peek_zero) auto
    then have pk: "peek ?fb off k @ zeros (sz - k) = peek ?fb off sz"
      using peek_append [of ?fb off k "sz - k"] k(1) by simp
    have "off div bs * bs + off mod bs + k \<le> f_size ?f" using k(2) by simp
    from ft_read_loop_ok [OF v wf n _ this] bs_pos [OF v] obtain v' where
      v': "ft_read_loop vol fs n (off div bs) (off mod bs) (if k < bs - off mod bs then k else bs - off mod bs) k =
        (Some (peek ?fb off k), fs\<lparr>fs_volume := v'\<rparr>)" "inv v'" "view v' = view (fs_volume fs)" by auto
    have "fstree_file_read vol fs n off sz = (Some (peek ?fb off sz), fs\<lparr>fs_volume := v'\<rparr>)"
      using False by (simp only: fstree_file_read_def Let_def v'(1) prod.case option.case pk flip: k_def) simp
    then show ?thesis using v' by blast
  qed
qed

end

section \<open>Moving a file to the end\<close>

lemma shift_starts_ok:
  assumes "distinct ns"
  shows "file_of (shift_starts bs P g ns fs) m =
      (if m \<in> set ns \<and> fstree_file_physical_size bs (file_of fs m) \<noteq> 0 \<and> P (start_index (file_of fs m))
       then (file_of fs m)\<lparr>start_index := g (start_index (file_of fs m))\<rparr> else file_of fs m)"
    and "nodes_by_type (shift_starts bs P g ns fs) = nodes_by_type fs"
    "fs_volume (shift_starts bs P g ns fs) = fs_volume fs"
    "data_offset (shift_starts bs P g ns fs) = data_offset fs"
    "no_sparse (shift_starts bs P g ns fs) = no_sparse fs"
  using assms
proof (induction ns arbitrary: fs)
  case (Cons a ns)
  {
    case 1
    then show ?case using Cons.IH(1) by (auto simp: shift_starts_def)
  next
    case 2
    then show ?case using Cons.IH(2) by (auto simp: shift_starts_def)
  next
    case 3
    then show ?case using Cons.IH(3) by (auto simp: shift_starts_def)
  next
    case 4
    then show ?case using Cons.IH(4) by (auto simp: shift_starts_def)
  next
    case 5
    then show ?case using Cons.IH(5) by (auto simp: shift_starts_def)
  }
qed (simp_all add: shift_starts_def)

text \<open>Where the byte at \<open>a\<close> ends up when the region of \<open>K\<close> bytes at \<open>S\<close> is moved to the end \<open>E\<close> and the
  gap is closed.\<close>

definition rotated :: "nat \<Rightarrow> nat \<Rightarrow> nat \<Rightarrow> nat \<Rightarrow> nat" where
  "rotated S K E a = (if a < S then a else if a < S + K then a + (E - S - K) else a - K)"

lemma rotate_ok:
  assumes 1: "moved w0 w1 E S K" and 2: "moved w1 w2 S (S + K) (E - S)"
    and 3: "wrote bs w2 w3 E (zeros K)" and al: "E mod bs = 0" and le: "S + K \<le> E"
  shows "a < E \<Longrightarrow> content w3 (rotated S K E a) = content w0 a"
    and "a < E \<Longrightarrow> solid w0 a \<Longrightarrow> solid w3 (rotated S K E a)"
    and "(\<And>p. p < E \<Longrightarrow> readable w0 p) \<Longrightarrow> a < E \<Longrightarrow> readable w3 a"
    and "vblocks w3 = vblocks w0"
proof -
  have E: "E div bs * bs = E" using al by (metis add.right_neutral div_mult_mod_eq)
  have c3: "content w3 p = content w2 p" if "p < E" for p
    using wrote_content [OF 3] that by (simp add: poke_def)
  have c2: "content w2 p = (if S \<le> p \<and> p < E then content w1 (p + K) else content w1 p)" for p
    using 2 le by (auto simp: moved_def poke_def add_ac)
  have c1: "content w1 q = (if E \<le> q \<and> q < E + K then content w0 (S + q - E) else content w0 q)" for q
    using 1 by (auto simp: moved_def poke_def)
  have s3: "solid w3 p" if "p < E" "solid w2 p" for p
    using wrote_keeps_solid [OF 3] that by blast
  have s2: "solid w2 p" if "if S \<le> p \<and> p < E then solid w1 (p + K) else solid w1 p" for p
  proof (cases "S \<le> p \<and> p < E")
    case True
    then have "p - S < E - S" "S + K + (p - S) = p + K" "S + (p - S) = p" by auto
    then show ?thesis using 2 that True unfolding moved_def by metis
  next
    case False
    then show ?thesis using 2 that le by (auto simp: moved_def)
  qed
  have s1: "solid w1 q" if "if E \<le> q \<and> q < E + K then solid w0 (S + q - E) else solid w0 q" for q
  proof (cases "E \<le> q \<and> q < E + K")
    case True
    then have "q - E < K" "S + (q - E) = S + q - E" "E + (q - E) = q" by auto
    then show ?thesis using 1 that True unfolding moved_def by metis
  next
    case False
    then show ?thesis using 1 that by (auto simp: moved_def)
  qed
  show "content w3 (rotated S K E a) = content w0 a" if "a < E"
    using that le by (auto simp: rotated_def c1 c2 c3)
  show "solid w3 (rotated S K E a)" if a: "a < E" "solid w0 a"
  proof (rule s3)
    show "rotated S K E a < E" using a le by (auto simp: rotated_def)
    show "solid w2 (rotated S K E a)"
      using a le by (intro s2) (auto simp: rotated_def intro!: s1)
  qed
  show "readable w3 a" if r: "\<And>p. p < E \<Longrightarrow> readable w0 p" and a: "a < E"
  proof -
    have "readable w2 a"
    proof (cases "a < S")
      case True
      then have "readable w1 a" using 1 r [OF a] a by (auto simp: moved_def)
      then show ?thesis using 2 True by (auto simp: moved_def)
    next
      case False
      then have "a - S < E - S" "S + (a - S) = a" using a by auto
      then show ?thesis using 2 unfolding moved_def by metis
    qed
    then show ?thesis using wrote_keeps_readable [OF 3, of a] a E by simp
  qed
  show "vblocks w3 = vblocks w0" using 1 2 wrote_blocks [OF 3] by (simp add: moved_def)
qed

text \<open>The files are the same, only stored elsewhere.\<close>

definition relocated :: "nat \<Rightarrow> view \<Rightarrow> 'v fstree \<Rightarrow> view \<Rightarrow> 'v fstree \<Rightarrow> bool" where
  "relocated bs w fs w' fs' \<longleftrightarrow>
     vblocks w' = vblocks w \<and> nodes_by_type fs' = nodes_by_type fs \<and> data_offset fs' = data_offset fs \<and>
     no_sparse fs' = no_sparse fs \<and>
     (\<forall>m. f_size (file_of fs' m) = f_size (file_of fs m) \<and> sparse (file_of fs' m) = sparse (file_of fs m)) \<and>
     (\<forall>m\<in>set (files fs). file_byte bs w' (file_of fs' m) = file_byte bs w (file_of fs m))"

lemma relocated_refl: "relocated bs w fs w fs"
  by (simp add: relocated_def)

lemma file_blocks_cong:
  "f_size g = f_size f \<Longrightarrow> sparse g = sparse f \<Longrightarrow> file_blocks bs g = file_blocks bs f"
  by (simp add: file_blocks_def)

lemma physical_size_cong:
  "f_size g = f_size f \<Longrightarrow> sparse g = sparse f \<Longrightarrow> fstree_file_physical_size bs g = fstree_file_physical_size bs f"
  unfolding fstree_file_physical_size_def fstree_file_sparse_bytes_def by (simp only:)

lemma file_wf_cong: "f_size g = f_size f \<Longrightarrow> sparse g = sparse f \<Longrightarrow> file_wf bs g = file_wf bs f"
  by (simp add: file_wf_def)

lemma file_addr_range:
  assumes f: "file_wf bs f" and p: "p div bs < div_up (f_size f) bs" "p div bs \<notin> holes_of f"
  shows "start_index f * bs \<le> file_addr bs f p" "file_addr bs f p < (start_index f + file_blocks bs f) * bs"
proof -
  show "start_index f * bs \<le> file_addr bs f p" by (simp add: file_addr_def add_mult_distrib)
  have "stored_before (holes_of f) (p div bs) + 1 \<le> file_blocks bs f" using stored_block_lt [OF f p] by simp
  then have "(start_index f + (stored_before (holes_of f) (p div bs) + 1)) * bs \<le> (start_index f + file_blocks bs f) * bs"
    by (intro mult_le_mono1) simp
  moreover have "p mod bs < bs" using file_wfD(1) [OF f] by simp
  ultimately show "file_addr bs f p < (start_index f + file_blocks bs f) * bs"
    by (simp add: file_addr_def add_mult_distrib)
qed

text \<open>The new starts of the files after the move of a file with \<open>k\<close> blocks at \<open>s\<close>, and that they are
  where the rotation puts the bytes.\<close>

definition new_start :: "nat \<Rightarrow> nat \<Rightarrow> nat \<Rightarrow> nat \<Rightarrow> nat \<Rightarrow> bool \<Rightarrow> nat" where
  "new_start s k D b start me = (if b = 0 then start else if me then D - k else if s \<le> start then start - k else start)"

lemma relocate_file:
  assumes wf: "fs_wf bs w fs" and n: "n \<in> set (files fs)" and m: "m \<in> set (files fs)"
    and s: "s = start_index (file_of fs n)" and k: "k = file_blocks bs (file_of fs n)" "0 < k"
    and D: "D = data_offset fs"
    and f': "f' = (file_of fs m)\<lparr>start_index := new_start s k D (file_blocks bs (file_of fs m)) (start_index (file_of fs m)) (m = n)\<rparr>"
    and p: "p div bs < div_up (f_size (file_of fs m)) bs" "p div bs \<notin> holes_of (file_of fs m)"
  shows "file_addr bs f' p = rotated (s * bs) (k * bs) (D * bs) (file_addr bs (file_of fs m) p)"
    and "file_addr bs (file_of fs m) p < D * bs"
proof -
  let ?f = "file_of fs m" and ?r = "stored_before (holes_of (file_of fs m)) (p div bs)"
  note f = fs_wfD(4) [OF wf m]
  note rg = file_addr_range [OF f p]
  have pos: "0 < file_blocks bs ?f" using stored_block_lt [OF f p] by simp
  have D': "start_index ?f + file_blocks bs ?f \<le> D" using fs_wfD(5) [OF wf m pos] D by simp
  then have "(start_index ?f + file_blocks bs ?f) * bs \<le> D * bs" by (rule mult_le_mono1)
  then show lt: "file_addr bs ?f p < D * bs" using rg(2) by linarith
  have sk: "s + k \<le> D" using fs_wfD(5) [OF wf n] k s D by simp
  have a': "file_addr bs f' p = (start_index f' + ?r) * bs + p mod bs" by (simp add: file_addr_def f')
  consider (me) "m = n" | (low) "m \<noteq> n" "start_index ?f + file_blocks bs ?f \<le> s"
    | (high) "m \<noteq> n" "s + k \<le> start_index ?f"
    using fs_wfD(7) [OF wf n m] pos k s by (auto simp: blocks_apart_def)
  then show "file_addr bs f' p = rotated (s * bs) (k * bs) (D * bs) (file_addr bs ?f p)"
  proof cases
    case me
    then have st: "start_index f' = D - k" "start_index ?f = s" using pos s by (simp_all add: f' new_start_def)
    have "s * bs \<le> file_addr bs ?f p" "file_addr bs ?f p < s * bs + k * bs"
      using rg me s k by (simp_all add: add_mult_distrib)
    then have "rotated (s * bs) (k * bs) (D * bs) (file_addr bs ?f p) = file_addr bs ?f p + (D * bs - s * bs - k * bs)"
      by (simp add: rotated_def)
    moreover have "(D - k) * bs = s * bs + (D * bs - s * bs - k * bs)"
      using mult_le_mono1 [OF sk, of bs] by (simp add: diff_mult_distrib add_mult_distrib)
    ultimately show ?thesis unfolding a' using st by (simp add: file_addr_def add_mult_distrib)
  next
    case low
    then have "start_index f' = start_index ?f" using pos by (simp add: f' new_start_def)
    moreover have "(start_index ?f + file_blocks bs ?f) * bs \<le> s * bs" using low(2) by (rule mult_le_mono1)
    then have "file_addr bs ?f p < s * bs" using rg(2) by linarith
    ultimately show ?thesis unfolding a' by (simp add: rotated_def file_addr_def)
  next
    case high
    then have st: "start_index f' = start_index ?f - k" using pos by (simp add: f' new_start_def)
    have le: "(s + k) * bs \<le> start_index ?f * bs" using high(2) by (rule mult_le_mono1)
    then have "rotated (s * bs) (k * bs) (D * bs) (file_addr bs ?f p) = file_addr bs ?f p - k * bs"
      using rg(1) by (simp add: rotated_def add_mult_distrib)
    moreover have "(start_index ?f - k) * bs = start_index ?f * bs - k * bs" by (rule diff_mult_distrib)
    moreover have "k * bs \<le> start_index ?f * bs" using high(2) by (intro mult_le_mono1) simp
    moreover have "file_addr bs ?f p = start_index ?f * bs + ?r * bs + p mod bs"
      by (simp add: file_addr_def add_mult_distrib)
    moreover have "file_addr bs f' p = (start_index ?f - k) * bs + ?r * bs + p mod bs"
      unfolding a' st by (simp add: add_mult_distrib)
    ultimately show ?thesis by linarith
  qed
qed

lemma new_start_apart:
  assumes wf: "fs_wf bs w fs" and n: "n \<in> set (files fs)"
    and s: "s = start_index (file_of fs n)" and k: "k = file_blocks bs (file_of fs n)" "0 < k"
    and D: "D = data_offset fs"
    and ns: "\<And>m. m \<in> set (files fs) \<Longrightarrow> f_size (g m) = f_size (file_of fs m) \<and> sparse (g m) = sparse (file_of fs m) \<and>
      start_index (g m) = new_start s k D (file_blocks bs (file_of fs m)) (start_index (file_of fs m)) (m = n)"
    and m: "m \<in> set (files fs)"
  shows "0 < file_blocks bs (g m) \<Longrightarrow> start_index (g m) + file_blocks bs (g m) \<le> D"
    and "l \<in> set (files fs) \<Longrightarrow> l \<noteq> m \<Longrightarrow> blocks_apart bs (g m) (g l)"
proof -
  have fb: "file_blocks bs (g x) = file_blocks bs (file_of fs x)" if "x \<in> set (files fs)" for x
    using ns [OF that] by (intro file_blocks_cong) simp_all
  have D': "0 < file_blocks bs (file_of fs x) \<Longrightarrow> start_index (file_of fs x) + file_blocks bs (file_of fs x) \<le> D"
    if "x \<in> set (files fs)" for x using fs_wfD(5) [OF wf that] D by simp
  have sk: "s + k \<le> D" using D' [OF n] k s by simp
  have ap: "blocks_apart bs (file_of fs x) (file_of fs y)" if "x \<in> set (files fs)" "y \<in> set (files fs)" "y \<noteq> x" for x y
    by (rule fs_wfD(7) [OF wf that])
  have side: "start_index (file_of fs x) + file_blocks bs (file_of fs x) \<le> s \<or> s + k \<le> start_index (file_of fs x)"
    if "x \<in> set (files fs)" "x \<noteq> n" "0 < file_blocks bs (file_of fs x)" for x
    using ap [OF n that(1,2)] that(3) s k by (auto simp: blocks_apart_def)
  have cases: "(start_index (file_of fs x) + file_blocks bs (file_of fs x) \<le> s \<and> start_index (g x) = start_index (file_of fs x)) \<or>
      (s + k \<le> start_index (file_of fs x) \<and> start_index (g x) = start_index (file_of fs x) - k)"
    if "x \<in> set (files fs)" "x \<noteq> n" "0 < file_blocks bs (file_of fs x)" for x
    using side [OF that] ns [OF that(1)] that(2,3) by (auto simp: new_start_def)
  have me: "start_index (g n) = D - k" using ns [OF n] k by (simp add: new_start_def)
  show "start_index (g m) + file_blocks bs (g m) \<le> D" if pos: "0 < file_blocks bs (g m)"
  proof (cases "m = n")
    case True
    then show ?thesis using me fb [OF m] k sk by simp
  next
    case False
    then show ?thesis using cases [OF m] pos fb [OF m] sk D' [OF m] by auto
  qed
  assume l: "l \<in> set (files fs)" "l \<noteq> m"
  have end': "start_index (g x) + file_blocks bs (file_of fs x) \<le> D - k"
    if "x \<in> set (files fs)" "x \<noteq> n" "0 < file_blocks bs (file_of fs x)" for x
    using cases [OF that] D' [OF that(1,3)] sk by linarith
  show "blocks_apart bs (g m) (g l)"
  proof (cases "file_blocks bs (file_of fs m) = 0 \<or> file_blocks bs (file_of fs l) = 0")
    case True
    then show ?thesis using fb [OF m] fb [OF l(1)] by (auto simp: blocks_apart_def)
  next
    case False
    then have pos: "0 < file_blocks bs (file_of fs m)" "0 < file_blocks bs (file_of fs l)" by auto
    consider "m = n" | "l = n" | "m \<noteq> n" "l \<noteq> n" by blast
    then show ?thesis
    proof cases
      case 1
      then show ?thesis
        using end' [OF l(1) _ pos(2)] l me by (simp add: blocks_apart_def fb [OF m] fb [OF l(1)])
    next
      case 2
      then show ?thesis
        using end' [OF m _ pos(1)] l me by (simp add: blocks_apart_def fb [OF m] fb [OF l(1)])
    next
      case 3
      have "start_index (file_of fs m) + file_blocks bs (file_of fs m) \<le> start_index (file_of fs l) \<or>
          start_index (file_of fs l) + file_blocks bs (file_of fs l) \<le> start_index (file_of fs m)"
        using ap [OF m l] pos by (simp add: blocks_apart_def)
      then have "start_index (g m) + file_blocks bs (file_of fs m) \<le> start_index (g l) \<or>
          start_index (g l) + file_blocks bs (file_of fs l) \<le> start_index (g m)"
        using cases [OF m 3(1) pos(1)] cases [OF l(1) 3(2) pos(2)] pos by linarith
      then show ?thesis by (simp add: blocks_apart_def fb [OF m] fb [OF l(1)])
    qed
  qed
qed

context volume
begin

lemma move_region:
  assumes v: "inv v" and le: "s + k \<le> D" and room: "D + k \<le> vblocks (view v)" and k: "0 < k"
    and rd: "\<And>p. p < D * bs \<Longrightarrow> readable (view v) p"
  shows "\<exists>v1 v2 v3. volume_memmove vol v (D * bs) (s * bs) (k * bs) = (Some (), v1) \<and>
    volume_memmove vol v1 (s * bs) (s * bs + k * bs) ((D - s) * bs) = (Some (), v2) \<and>
    discard_blocks vol v2 D k = (Some (), v3) \<and> inv v3 \<and>
    (\<forall>a<D * bs. content (view v3) (rotated (s * bs) (k * bs) (D * bs) a) = content (view v) a \<and>
       (solid (view v) a \<longrightarrow> solid (view v3) (rotated (s * bs) (k * bs) (D * bs) a)) \<and>
       readable (view v3) a) \<and> vblocks (view v3) = vblocks (view v)"
proof -
  have "readable (view v) (s * bs + i)" if "i < k * bs" for i
  proof (rule rd)
    have "(s + k) * bs \<le> D * bs" using le by (rule mult_le_mono1)
    then show "s * bs + i < D * bs" using that by (simp add: add_mult_distrib)
  qed
  from memmove_aligned [OF v, of D k s, OF room _ this] le room obtain v1 where
    v1: "volume_memmove vol v (D * bs) (s * bs) (k * bs) = (Some (), v1)" "inv v1"
      "moved (view v) (view v1) (D * bs) (s * bs) (k * bs)" by auto
  have b1: "vblocks (view v1) = vblocks (view v)" using v1(3) by (simp add: moved_def)
  have "readable (view v1) ((s + k) * bs + i)" if i: "i < (D - s) * bs" for i
  proof -
    have e: "(D - s) * bs = D * bs - s * bs" by (rule diff_mult_distrib)
    have lt: "(s + k) * bs + i < D * bs + k * bs" using i e by (simp add: add_mult_distrib)
    show ?thesis
    proof (cases "(s + k) * bs + i < D * bs")
      case True
      then show ?thesis using v1(3) rd by (simp add: moved_def)
    next
      case False
      then have "(s + k) * bs + i = D * bs + ((s + k) * bs + i - D * bs)" "(s + k) * bs + i - D * bs < k * bs"
        using lt by linarith+
      then show ?thesis using v1(3) unfolding moved_def by metis
    qed
  qed
  moreover have "s + (D - s) \<le> vblocks (view v1)" "s + k + (D - s) \<le> vblocks (view v1)"
    using b1 room le by auto
  ultimately obtain v2 where
    v2: "volume_memmove vol v1 (s * bs) ((s + k) * bs) ((D - s) * bs) = (Some (), v2)" "inv v2"
      "moved (view v1) (view v2) (s * bs) ((s + k) * bs) ((D - s) * bs)"
    using memmove_aligned [OF v1(2), of s "D - s" "s + k"] by blast
  have b2: "vblocks (view v2) = vblocks (view v)" using v2(3) b1 by (simp add: moved_def)
  from discard [OF v2(2), of D k] b2 room k obtain v3 where
    v3: "discard_blocks vol v2 D k = (Some (), v3)" "inv v3"
      "wrote bs (view v2) (view v3) (D * bs) (zeros (k * bs))" by auto
  have m2: "moved (view v1) (view v2) (s * bs) (s * bs + k * bs) (D * bs - s * bs)"
    using v2(3) by (simp add: add_mult_distrib diff_mult_distrib)
  have "s * bs + k * bs \<le> D * bs" using mult_le_mono1 [OF le, of bs] by (simp add: add_mult_distrib)
  note rot = rotate_ok [OF v1(3) m2 v3(3) _ this]
  have "(s + k) * bs = s * bs + k * bs" by (rule add_mult_distrib)
  then show ?thesis using v1(1) v2(1) v3(1,2) rot rd by auto
qed

lemma move_to_end_ok:
  assumes v: "inv (fs_volume fs)" and wf: "fs_wf bs (view (fs_volume fs)) fs" and n: "n \<in> set (files fs)"
    and room: "data_offset fs + file_blocks bs (file_of fs n) \<le> vblocks (view (fs_volume fs))"
  shows "\<exists>fs'. fstree_file_move_to_end vol fs n = (Some (), fs') \<and> inv (fs_volume fs') \<and>
    fs_wf bs (view (fs_volume fs')) fs' \<and> relocated bs (view (fs_volume fs)) fs (view (fs_volume fs')) fs' \<and>
    start_index (file_of fs' n) + file_blocks bs (file_of fs' n) = data_offset fs'"
proof -
  let ?f = "file_of fs n" and ?w = "view (fs_volume fs)"
  define k where "k = file_blocks bs ?f"
  define s where "s = start_index ?f"
  define D where "D = data_offset fs"
  note f = fs_wfD(4) [OF wf n]
  have pk: "div_up (fstree_file_physical_size bs ?f) bs = k" using blocks_of_physical_size [OF f] by (simp add: k_def)
  have "0 < k \<Longrightarrow> s + k \<le> D" using fs_wfD(5) [OF wf n] by (simp add: k_def s_def D_def)
  then consider (empty) "k = 0" | (last) "0 < k" "s + k = D" | (mid) "0 < k" "s + k < D" by linarith
  then show ?thesis
  proof cases
    case empty
    let ?fs = "set_file fs n (?f\<lparr>start_index := D\<rparr>)"
    have no: "\<not> (p div bs < div_up (f_size ?f) bs \<and> p div bs \<notin> holes_of ?f)" for p
      using stored_block_lt [OF f, of p] empty by (auto simp: k_def)
    have fb: "file_blocks bs (?f\<lparr>start_index := D\<rparr>) = 0" using empty by (simp add: k_def file_blocks_def)
    have "fstree_file_move_to_end vol fs n = (Some (), ?fs)"
      using physical_size_0 [OF f] empty by (simp add: fstree_file_move_to_end_def k_def D_def Let_def)
    moreover have "fs_wf bs ?w ?fs"
      using wf no fb unfolding fs_wf_def
      by (auto simp: file_wf_def blocks_apart_def file_addr_def)
    moreover have "file_byte bs ?w (?f\<lparr>start_index := D\<rparr>) = file_byte bs ?w ?f"
      using no size_block_lt [OF bs_pos [OF v]] by (fastforce simp: file_byte_def fun_eq_iff)
    then have "relocated bs ?w fs ?w ?fs" by (auto simp: relocated_def)
    ultimately show ?thesis using v fb by (auto simp: D_def)
  next
    case last
    have "fstree_file_move_to_end vol fs n = (Some (), fs)"
      using physical_size_0 [OF f] last pk
      by (auto simp: fstree_file_move_to_end_def k_def [symmetric] D_def [symmetric] s_def [symmetric] Let_def sub64_exact)
    then show ?thesis using v wf last relocated_refl by (auto simp: k_def s_def D_def)
  next
    case mid
    have sk: "s + k \<le> D" using mid by simp
    have rm: "D + k \<le> vblocks ?w" using room by (simp add: D_def k_def)
    have rd: "readable ?w p" if "p < D * bs" for p using fs_wfD(3) [OF wf] that by (simp add: D_def)
    from move_region [OF v sk rm mid(1) rd] obtain v1 v2 v3 where
      mv: "volume_memmove vol (fs_volume fs) (D * bs) (s * bs) (k * bs) = (Some (), v1)"
        "volume_memmove vol v1 (s * bs) (s * bs + k * bs) ((D - s) * bs) = (Some (), v2)"
        "discard_blocks vol v2 D k = (Some (), v3)" "inv v3" "vblocks (view v3) = vblocks ?w"
      and rot: "\<And>a. a < D * bs \<Longrightarrow> content (view v3) (rotated (s * bs) (k * bs) (D * bs) a) = content ?w a"
        "\<And>a. a < D * bs \<Longrightarrow> solid ?w a \<Longrightarrow> solid (view v3) (rotated (s * bs) (k * bs) (D * bs) a)"
        "\<And>a. a < D * bs \<Longrightarrow> readable (view v3) a"
      by blast
    have lim: "D * bs + k * bs < max64" using block_addr_less [OF v rm] by (simp add: add_mult_distrib)
    have sl: "s * bs + k * bs \<le> D * bs" using mult_le_mono1 [OF sk, of bs] by (simp add: add_mult_distrib)
    have "(D - s) * bs \<le> D * bs" by (intro mult_le_mono1) simp
    then have "(D - s) * bs < max64" using lim by linarith
    then have ex: "mul64 s bs = s * bs" "mul64 D bs = D * bs" "mul64 k bs = k * bs" "add64 (s * bs) (k * bs) = s * bs + k * bs"
        "sub64 D s = D - s" "mul64 (D - s) bs = (D - s) * bs"
      using lim sl mid by (simp_all add: mul64_def add64_def sub64_def)
    define fs1 where "fs1 = set_file (fs\<lparr>fs_volume := v3\<rparr>) n (?f\<lparr>start_index := D\<rparr>)"
    define fs2 where "fs2 = shift_starts bs (\<lambda>x. s \<le> x) (\<lambda>x. sub64 x k) (files fs1) fs1"
    have run: "fstree_file_move_to_end vol fs n = (Some (), fs2)"
      using physical_size_0 [OF f] mid pk ex mv(1-3)
      by (simp add: fstree_file_move_to_end_def k_def [symmetric] D_def [symmetric] s_def [symmetric] Let_def fs2_def fs1_def)
    have dist: "distinct (files fs1)" using fs_wfD(1) [OF wf] by (simp add: fs1_def)
    note sh = shift_starts_ok [OF dist, of bs "\<lambda>x. s \<le> x" "\<lambda>x. sub64 x k" fs1, folded fs2_def]
    have fl: "nodes_by_type fs2 = nodes_by_type fs" "data_offset fs2 = D" "fs_volume fs2 = v3" "no_sparse fs2 = no_sparse fs"
      using sh(2-5) by (simp_all add: fs1_def D_def)
    have same: "f_size (file_of fs2 m) = f_size (file_of fs m)" "sparse (file_of fs2 m) = sparse (file_of fs m)" for m
      by (simp_all add: sh(1) fs1_def)
    have st: "file_of fs2 m = (file_of fs m)\<lparr>start_index :=
        new_start s k D (file_blocks bs (file_of fs m)) (start_index (file_of fs m)) (m = n)\<rparr>" if m: "m \<in> set (files fs)" for m
    proof -
      have z: "fstree_file_physical_size bs (file_of fs1 m) = 0 \<longleftrightarrow> file_blocks bs (file_of fs m) = 0"
        using physical_size_0 [OF fs_wfD(4) [OF wf m]] physical_size_cong [of "file_of fs1 m" "file_of fs m" bs]
        by (simp add: fs1_def)
      have "k \<le> start_index (file_of fs m)" if "m \<noteq> n" "0 < file_blocks bs (file_of fs m)" "s \<le> start_index (file_of fs m)"
        using fs_wfD(7) [OF wf n m] that mid(1) by (auto simp: blocks_apart_def k_def s_def)
      then show ?thesis
        using m z mid sk by (auto simp: sh(1) new_start_def fs1_def k_def [symmetric] sub64_exact)
    qed
    have wf2: "fs_wf bs (view v3) fs2"
      unfolding fs_wf_def fl
    proof (intro conjI ballI allI impI)
      show "distinct (files fs)" by (rule fs_wfD(1) [OF wf])
      show "D \<le> vblocks (view v3)" using mv(5) rm by simp
      show "readable (view v3) p" if "p < D * bs" for p using rot(3) that .
      fix m assume m: "m \<in> set (files fs)"
      show "file_wf bs (file_of fs2 m)" using fs_wfD(4) [OF wf m] file_wf_cong [OF same] by simp
      note nsa = new_start_apart [OF wf n s_def k_def mid(1) D_def, of "file_of fs2"]
      show "start_index (file_of fs2 m) + file_blocks bs (file_of fs2 m) \<le> D" if "0 < file_blocks bs (file_of fs2 m)"
        using nsa(1) [OF _ m] st that by simp
      show "blocks_apart bs (file_of fs2 m) (file_of fs2 l)" if "l \<in> set (files fs)" "l \<noteq> m" for l
        using nsa(2) [OF _ m] st that by simp
      fix p assume p: "f_size (file_of fs2 m) \<le> p \<and> p div bs < div_up (f_size (file_of fs2 m)) bs \<and>
        p div bs \<notin> holes_of (file_of fs2 m)"
      then have p': "p div bs < div_up (f_size (file_of fs m)) bs" "p div bs \<notin> holes_of (file_of fs m)"
        "f_size (file_of fs m) \<le> p" using same by simp_all
      note rf = relocate_file [OF wf n m s_def k_def mid(1) D_def st [OF m] p'(1,2)]
      show "solid (view v3) (file_addr bs (file_of fs2 m) p)"
        unfolding rf(1) using rot(2) [OF rf(2)] fs_wfD(6) [OF wf m p'(3,1,2)] by blast
    qed
    have "file_byte bs (view v3) (file_of fs2 m) p = file_byte bs ?w (file_of fs m) p" if m: "m \<in> set (files fs)" for m p
    proof (cases "p < f_size (file_of fs m) \<and> p div bs \<notin> holes_of (file_of fs m)")
      case True
      then have p': "p div bs < div_up (f_size (file_of fs m)) bs" "p div bs \<notin> holes_of (file_of fs m)"
        using size_block_lt [OF bs_pos [OF v]] by simp_all
      note rf = relocate_file [OF wf n m s_def k_def mid(1) D_def st [OF m] p']
      show ?thesis using True rot(1) [OF rf(2)] rf(1) same by (simp add: file_byte_def)
    next
      case False
      then show ?thesis using same by (auto simp: file_byte_def)
    qed
    then have "relocated bs ?w fs (view v3) fs2" using fl same mv(5) by (auto simp: relocated_def D_def)
    moreover have "start_index (file_of fs2 n) + file_blocks bs (file_of fs2 n) = D"
      using st [OF n] mid sk file_blocks_cong [OF same, of bs n] by (simp add: new_start_def k_def [symmetric])
    ultimately show ?thesis using run mv(4) wf2 fl by auto
  qed
qed

end

section \<open>Appending\<close>

lemma file_addr_div:
  assumes "0 < bs"
  shows "file_addr bs f p div bs = start_index f + stored_before (holes_of f) (p div bs)"
    and "file_addr bs f p mod bs = p mod bs"
  using assms by (simp_all add: file_addr_def)

lemma file_addr_owned:
  assumes "file_wf bs f" "p div bs < div_up (f_size f) bs" "p div bs \<notin> holes_of f"
  shows "start_index f \<le> file_addr bs f p div bs" "file_addr bs f p div bs < start_index f + file_blocks bs f"
  using stored_block_lt [OF assms] file_addr_div(1) [OF file_wfD(1) [OF assms(1)]] by simp_all

text \<open>A change of the view that leaves everything outside block \<open>R\<close> alone.\<close>

definition only_block :: "nat \<Rightarrow> nat \<Rightarrow> view \<Rightarrow> view \<Rightarrow> bool" where
  "only_block bs R w w' \<longleftrightarrow> vblocks w' = vblocks w \<and>
     (\<forall>a. a div bs \<noteq> R \<longrightarrow> content w' a = content w a \<and> (readable w a \<longrightarrow> readable w' a) \<and> (solid w a \<longrightarrow> solid w' a))"

lemma only_block_trans: "only_block bs R w w1 \<Longrightarrow> only_block bs R w1 w2 \<Longrightarrow> only_block bs R w w2"
  by (auto simp: only_block_def)

lemma wrote_only_block:
  assumes "wrote bs w w' (R * bs + t) d" "t + length d \<le> bs" "d \<noteq> []"
  shows "only_block bs R w w'"
proof -
  have ln: "0 < length d" using assms(3) by simp
  then have bs: "0 < bs" "t < bs" using assms(2) by linarith+
  have R: "(R * bs + t) div bs * bs = R * bs" using bs by simp
  have e: "div_up (R * bs + t + length d) bs * bs \<le> R * bs + bs"
  proof -
    have "div_up (R * bs + t + length d) bs \<le> Suc R" using assms(2) by (intro div_up_le [OF bs(1)]) simp
    then have "div_up (R * bs + t + length d) bs * bs \<le> Suc R * bs" by (rule mult_le_mono1)
    then show ?thesis by simp
  qed
  have out: "a < R * bs \<or> R * bs + bs \<le> a" if "a div bs \<noteq> R" for a
    using that div_block [of R bs a] by (meson not_le)
  show ?thesis
    unfolding only_block_def
  proof (intro conjI allI impI)
    show "vblocks w' = vblocks w" by (rule wrote_blocks [OF assms(1)])
    fix a assume a: "a div bs \<noteq> R"
    show "content w' a = content w a"
      using out [OF a] assms(2) by (auto simp: wrote_content [OF assms(1)] poke_def)
    show "solid w' a" if "solid w a"
      using wrote_keeps_solid [OF assms(1) that] out [OF a] assms(2) by auto
    show "readable w' a" if "readable w a"
      using wrote_keeps_readable [OF assms(1) that] out [OF a] e R by auto
  qed
qed

lemma only_block_file:
  assumes ob: "only_block bs R w w'" and f: "file_wf bs f" "\<not> (start_index f \<le> R \<and> R < start_index f + file_blocks bs f)"
  shows "file_byte bs w' f = file_byte bs w f"
    and "p div bs < div_up (f_size f) bs \<Longrightarrow> p div bs \<notin> holes_of f \<Longrightarrow>
      solid w (file_addr bs f p) \<Longrightarrow> solid w' (file_addr bs f p)"
proof -
  have ne: "file_addr bs f p div bs \<noteq> R" if "p div bs < div_up (f_size f) bs" "p div bs \<notin> holes_of f" for p
    using file_addr_owned [OF f(1) that] f(2) by auto
  show "file_byte bs w' f = file_byte bs w f"
    using ob ne size_block_lt [OF file_wfD(1) [OF f(1)]] by (auto simp: file_byte_def only_block_def fun_eq_iff)
  show "solid w' (file_addr bs f p)"
    if "p div bs < div_up (f_size f) bs" "p div bs \<notin> holes_of f" "solid w (file_addr bs f p)"
    using ob ne [OF that(1,2)] that(3) by (simp add: only_block_def)
qed

text \<open>What appending the bytes \<open>d\<close> to the file \<open>n\<close> does to all files.\<close>

definition appended :: "nat \<Rightarrow> view \<Rightarrow> 'v fstree \<Rightarrow> view \<Rightarrow> 'v fstree \<Rightarrow> nat \<Rightarrow> byte list \<Rightarrow> bool" where
  "appended bs w fs w' fs' n d \<longleftrightarrow>
     vblocks w' = vblocks w \<and> files fs' = files fs \<and> no_sparse fs' = no_sparse fs \<and>
     f_size (file_of fs' n) = f_size (file_of fs n) + length d \<and>
     (\<forall>p. file_byte bs w' (file_of fs' n) p = poke (file_byte bs w (file_of fs n)) (f_size (file_of fs n)) d p) \<and>
     (\<forall>m\<in>set (files fs). m \<noteq> n \<longrightarrow> f_size (file_of fs' m) = f_size (file_of fs m) \<and>
        file_byte bs w' (file_of fs' m) = file_byte bs w (file_of fs m))"

lemma appended_trans:
  assumes "appended bs w fs w1 fs1 n d" "appended bs w1 fs1 w2 fs2 n e"
  shows "appended bs w fs w2 fs2 n (d @ e)"
proof -
  have "file_byte bs w1 (file_of fs1 n) = poke (file_byte bs w (file_of fs n)) (f_size (file_of fs n)) d"
    using assms(1) by (auto simp: appended_def fun_eq_iff)
  then show ?thesis using assms by (simp add: appended_def poke_append)
qed

lemma appended_refl: "appended bs w fs w fs n []"
  by (simp add: appended_def)

lemma appended_content:
  assumes "appended bs w fs w' fs' n d" "n \<in> set (files fs)"
  shows "file_content bs w' (file_of fs' n) = file_content bs w (file_of fs n) @ d"
    and "m \<in> set (files fs) \<Longrightarrow> m \<noteq> n \<Longrightarrow> file_content bs w' (file_of fs' m) = file_content bs w (file_of fs m)"
proof -
  show "file_content bs w' (file_of fs' n) = file_content bs w (file_of fs n) @ d"
    using assms(1) unfolding appended_def
    by (intro nth_equalityI) (auto simp: file_content_def nth_append poke_def)
  show "m \<in> set (files fs) \<Longrightarrow> m \<noteq> n \<Longrightarrow> file_content bs w' (file_of fs' m) = file_content bs w (file_of fs m)"
    using assms(1) by (simp add: appended_def file_content_def)
qed

lemma relocated_appended:
  assumes "relocated bs w fs w1 fs1" "appended bs w1 fs1 w2 fs2 n d" "n \<in> set (files fs)"
  shows "appended bs w fs w2 fs2 n d"
  using assms unfolding relocated_def appended_def by simp

text \<open>The first case: the block is full so far and the new data is zero, so the next block becomes
  sparse.\<close>

lemma append_hole:
  assumes wf: "fs_wf bs w fs" and n: "n \<in> set (files fs)"
    and sz: "f_size (file_of fs n) = T * bs" "0 < k" "k \<le> bs" "f_size (file_of fs n) + k < 2 ^ 63"
    and hs: "holes_wf hs" "hole_blocks hs = insert T (holes_of (file_of fs n))"
  defines "f' \<equiv> (file_of fs n)\<lparr>sparse := hs, f_size := f_size (file_of fs n) + k\<rparr>"
  shows "fs_wf bs w (set_file fs n f') \<and> appended bs w fs w (set_file fs n f') n (zeros k) \<and>
    file_blocks bs f' = file_blocks bs (file_of fs n)"
proof -
  let ?f = "file_of fs n"
  note f = fs_wfD(4) [OF wf n]
  note bs = file_wfD(1) [OF f]
  have T: "div_up (f_size ?f) bs = T" using bs sz(1) by simp
  have T': "div_up (f_size f') bs = Suc T"
    using sz div_up_block [of k bs T] by (simp add: f'_def)
  have H: "holes_of f' = insert T (holes_of ?f)" by (simp add: f'_def hs)
  have sz': "f_size f' = f_size ?f + k" by (simp add: f'_def)
  have low: "stored_before (holes_of f') b = stored_before (holes_of ?f) b" if "b \<le> T" for b
    using that H by (intro stored_before_cong) auto
  have fb: "file_blocks bs f' = file_blocks bs ?f"
    using low [of T] H by (simp add: file_blocks_def T T')
  have wf': "file_wf bs f'"
    using f hs(1) sz(4) H T T' by (auto simp: file_wf_def f'_def)
  have addr: "file_addr bs f' p = file_addr bs ?f p" if "p div bs \<le> T" for p
    using low [OF that] by (simp add: file_addr_def) (simp add: f'_def)
  have byte: "file_byte bs w f' p = poke (file_byte bs w ?f) (f_size ?f) (zeros k) p" for p
  proof (cases "p < f_size ?f")
    case True
    then have "p div bs < T" using size_block_lt [OF bs True] T by simp
    then show ?thesis using True addr H by (auto simp: file_byte_def poke_def f'_def)
  next
    case False
    have "p div bs = T" if "p < f_size ?f + k"
      using False that sz by (intro div_block) auto
    then have "file_byte bs w f' p = 0" using H sz' unfolding file_byte_def by auto
    moreover have "file_byte bs w ?f p = 0" using False by (simp add: file_byte_def)
    ultimately show ?thesis by (simp add: poke_zeros)
  qed
  have tail: "\<not> (f_size f' \<le> p \<and> p div bs < div_up (f_size f') bs \<and> p div bs \<notin> holes_of f')" for p
  proof
    assume p: "f_size f' \<le> p \<and> p div bs < div_up (f_size f') bs \<and> p div bs \<notin> holes_of f'"
    then have "T * bs \<le> p" using sz by (simp add: f'_def)
    then have "T \<le> p div bs" using bs by (simp add: less_eq_div_iff_mult_less_eq)
    then show False using p T' H by auto
  qed
  have ap: "blocks_apart bs f' g \<longleftrightarrow> blocks_apart bs ?f g" "blocks_apart bs g f' \<longleftrightarrow> blocks_apart bs g ?f" for g
    by (simp_all add: blocks_apart_def fb) (simp_all add: f'_def)
  have "fs_wf bs w (set_file fs n f')"
    using wf wf' tail ap fb n unfolding fs_wf_def by (auto simp: f'_def)
  moreover have "appended bs w fs w (set_file fs n f') n (zeros k)"
    using byte by (simp add: appended_def f'_def)
  ultimately show ?thesis using fb by blast
qed

text \<open>The second case: the data goes into the stored tail block, at block \<open>R\<close> of the volume.\<close>

lemma append_tail:
  assumes wf: "fs_wf bs w fs" and n: "n \<in> set (files fs)"
    and sz: "f_size (file_of fs n) = T * bs + t" "0 < t" "0 < length d" "t + length d \<le> bs"
      "f_size (file_of fs n) + length d < 2 ^ 63"
    and T: "T \<notin> holes_of (file_of fs n)"
    and R: "R = start_index (file_of fs n) + stored_before (holes_of (file_of fs n)) T"
    and w': "wrote bs w w' (R * bs + t) d" "\<And>p. solid w' p \<Longrightarrow> readable w' p"
    and fs1: "nodes fs1 = nodes fs" "files fs1 = files fs" "data_offset fs1 = data_offset fs" "no_sparse fs1 = no_sparse fs"
  defines "f' \<equiv> (file_of fs n)\<lparr>f_size := f_size (file_of fs n) + length d\<rparr>"
  shows "fs_wf bs w' (set_file fs1 n f') \<and> appended bs w fs w' (set_file fs1 n f') n d \<and>
    file_blocks bs f' = file_blocks bs (file_of fs n)"
proof -
  let ?f = "file_of fs n"
  note f = fs_wfD(4) [OF wf n]
  note bs = file_wfD(1) [OF f]
  have d: "d \<noteq> []" using sz(3) by auto
  have Tu: "div_up (f_size ?f) bs = Suc T" using div_up_block [of t bs T] sz by simp
  have Tu': "div_up (f_size f') bs = Suc T" using div_up_block [of "t + length d" bs T] sz by (simp add: f'_def add.assoc)
  have H: "holes_of f' = holes_of ?f" and st: "start_index f' = start_index ?f" and sz': "f_size f' = f_size ?f + length d"
    by (simp_all add: f'_def)
  have fb: "file_blocks bs f' = file_blocks bs ?f" by (simp add: file_blocks_def Tu Tu' H)
  have addr: "file_addr bs f' p = file_addr bs ?f p" for p by (simp add: file_addr_def H st)
  have wf': "file_wf bs f'" using f sz(5) by (simp add: file_wf_def H Tu Tu') (simp add: f'_def)
  have ob: "only_block bs R w w'" by (rule wrote_only_block [OF w'(1) sz(4) d])
  have Rd: "R < data_offset fs" "start_index ?f \<le> R" "R < start_index ?f + file_blocks bs ?f"
  proof -
    have "stored_before (holes_of ?f) T < file_blocks bs ?f"
      unfolding file_blocks_def Tu using T by (intro stored_before_strict) auto
    then show "R < data_offset fs" "start_index ?f \<le> R" "R < start_index ?f + file_blocks bs ?f"
      using fs_wfD(5) [OF wf n] R by simp_all
  qed
  have tail_addr: "file_addr bs ?f (T * bs + j) = R * bs + j" if "j < bs" for j
    using that bs by (simp add: file_addr_def R)
  have tail_solid: "solid w (R * bs + j)" if "t \<le> j" "j < bs" for j
    using fs_wfD(6) [OF wf n, of "T * bs + j"] that sz(1) Tu T bs tail_addr by simp
  have solid': "solid w' (R * bs + j)" if "t + length d \<le> j" "j < bs" for j
    using wrote_keeps_solid [OF w'(1) tail_solid] that by simp
  have "t < bs" using sz(3,4) by linarith
  then have nR: "(R * bs + t) div bs * bs = R * bs" by simp
  have rd': "readable w' p" if p: "p < data_offset fs * bs" for p
  proof (cases "p div bs = R")
    case True
    then obtain j where j: "p = R * bs + j" "j < bs" using bs by (metis div_mult_mod_eq mod_less_divisor)
    show ?thesis
    proof (cases "j < t + length d")
      case True
      then show ?thesis using wrote_readable [OF w'(1), of p] j nR by simp
    next
      case False
      then show ?thesis using w'(2) solid' j by simp
    qed
  next
    case False
    then show ?thesis using ob fs_wfD(3) [OF wf p] by (simp add: only_block_def)
  qed
  have byte: "file_byte bs w' f' p = poke (file_byte bs w ?f) (f_size ?f) d p" for p
  proof (cases "p div bs = T")
    case True
    then obtain j where j: "p = T * bs + j" "j < bs" using bs by (metis div_mult_mod_eq mod_less_divisor)
    have "content w' (R * bs + j) = (if t \<le> j \<and> j < t + length d then d ! (j - t) else content w (R * bs + j))"
      by (auto simp: wrote_content [OF w'(1)] poke_def)
    moreover have "(T * bs + j) div bs = T" using j True by simp
    ultimately show ?thesis
      using j T sz(1) sz' H addr tail_addr [OF j(2)] by (auto simp: file_byte_def poke_def)
  next
    case False
    have out: "\<not> (f_size ?f \<le> p \<and> p < f_size ?f + length d)"
    proof
      assume "f_size ?f \<le> p \<and> p < f_size ?f + length d"
      then have "p div bs = T" using sz by (intro div_block) auto
      then show False using False by simp
    qed
    show ?thesis
    proof (cases "p < f_size ?f \<and> p div bs \<notin> holes_of ?f")
      case True
      have "p div bs < Suc T" using size_block_lt [OF bs, of p "f_size ?f"] True Tu by simp
      then have "stored_before (holes_of ?f) (p div bs) < stored_before (holes_of ?f) T"
        using True False by (intro stored_before_strict) auto
      then have "file_addr bs ?f p div bs \<noteq> R" by (simp add: file_addr_div(1) [OF bs] R)
      then show ?thesis using ob out True sz' H addr by (auto simp: file_byte_def poke_def only_block_def)
    next
      case False
      then show ?thesis using out sz' H by (auto simp: file_byte_def poke_def)
    qed
  qed
  have oth: "\<not> (start_index (file_of fs m) \<le> R \<and> R < start_index (file_of fs m) + file_blocks bs (file_of fs m))"
    if "m \<in> set (files fs)" "m \<noteq> n" for m
    using fs_wfD(7) [OF wf n that] Rd by (auto simp: blocks_apart_def)
  have solid_n: "solid w' (file_addr bs f' p)"
    if p: "f_size f' \<le> p" "p div bs < div_up (f_size f') bs" "p div bs \<notin> holes_of f'" for p
  proof -
    have "T * bs \<le> p" using p(1) sz sz' by simp
    then have "p div bs = T" using p(2) Tu' bs by (simp add: less_Suc_eq_le le_antisym less_eq_div_iff_mult_less_eq)
    then obtain j where j: "p = T * bs + j" "j < bs" using bs by (metis div_mult_mod_eq mod_less_divisor)
    then show ?thesis using solid' p(1) sz sz' addr tail_addr by simp
  qed
  have ap: "blocks_apart bs f' g \<longleftrightarrow> blocks_apart bs ?f g" "blocks_apart bs g f' \<longleftrightarrow> blocks_apart bs g ?f" for g
    by (simp_all add: blocks_apart_def fb st)
  have "fs_wf bs w' (set_file fs1 n f')"
    unfolding fs_wf_def set_file_simps fs1
  proof (intro conjI ballI allI impI)
    show "distinct (files fs)" by (rule fs_wfD(1) [OF wf])
    show "data_offset fs \<le> vblocks w'" using fs_wfD(2) [OF wf] ob by (simp add: only_block_def)
    show "readable w' p" if "p < data_offset fs * bs" for p by (rule rd' [OF that])
    fix m assume m: "m \<in> set (files fs)"
    let ?g = "if m = n then f' else file_of fs m"
    show "file_wf bs ?g" using wf' fs_wfD(4) [OF wf m] by simp
    show "start_index ?g + file_blocks bs ?g \<le> data_offset fs" if "0 < file_blocks bs ?g"
      using that fs_wfD(5) [OF wf m] fb st by (auto split: if_splits)
    show "blocks_apart bs ?g (if l = n then f' else file_of fs l)" if "l \<in> set (files fs)" "l \<noteq> m" for l
      using fs_wfD(7) [OF wf m that] ap that(2) by auto
    fix p assume p: "f_size ?g \<le> p \<and> p div bs < div_up (f_size ?g) bs \<and> p div bs \<notin> holes_of ?g"
    show "solid w' (file_addr bs ?g p)"
    proof (cases "m = n")
      case True
      then show ?thesis using p solid_n by simp
    next
      case False
      then show ?thesis
        using p only_block_file(2) [OF ob fs_wfD(4) [OF wf m] oth [OF m False]] fs_wfD(6) [OF wf m] by simp
    qed
  qed
  moreover have "appended bs w fs w' (set_file fs1 n f') n d"
    using byte sz' ob fs1 only_block_file(1) [OF ob fs_wfD(4) [OF wf] oth]
    by (auto simp: appended_def only_block_def)
  ultimately show ?thesis using fb by blast
qed

text \<open>The third case: the file is last on the volume and a block \<open>D\<close> is added behind it, filled up
  with zeros.\<close>

lemma append_new_block:
  assumes wf: "fs_wf bs w fs" and n: "n \<in> set (files fs)"
    and sz: "f_size (file_of fs n) = T * bs" "0 < length d" "length d \<le> bs" "f_size (file_of fs n) + length d < 2 ^ 63"
    and last: "start_index (file_of fs n) + file_blocks bs (file_of fs n) = data_offset fs"
    and room: "data_offset fs < vblocks w"
    and w': "only_block bs (data_offset fs) w w'"
      "\<And>j. j < bs \<Longrightarrow> readable w' (data_offset fs * bs + j)"
      "\<And>j. j < length d \<Longrightarrow> content w' (data_offset fs * bs + j) = d ! j"
      "\<And>j. length d \<le> j \<Longrightarrow> j < bs \<Longrightarrow> solid w' (data_offset fs * bs + j)"
    and fs1: "nodes fs1 = nodes fs" "files fs1 = files fs" "data_offset fs1 = data_offset fs + 1" "no_sparse fs1 = no_sparse fs"
  defines "f' \<equiv> (file_of fs n)\<lparr>f_size := f_size (file_of fs n) + length d\<rparr>"
  shows "fs_wf bs w' (set_file fs1 n f') \<and> appended bs w fs w' (set_file fs1 n f') n d \<and>
    file_blocks bs f' = file_blocks bs (file_of fs n) + 1"
proof -
  let ?f = "file_of fs n" and ?D = "data_offset fs"
  note f = fs_wfD(4) [OF wf n]
  note bs = file_wfD(1) [OF f]
  have T: "div_up (f_size ?f) bs = T" using bs sz(1) by simp
  have T': "div_up (f_size f') bs = Suc T" using div_up_block [of "length d" bs T] sz by (simp add: f'_def)
  have H: "holes_of f' = holes_of ?f" and st: "start_index f' = start_index ?f" and sz': "f_size f' = f_size ?f + length d"
    by (simp_all add: f'_def)
  have nT: "T \<notin> holes_of ?f" using file_wfD(5) [OF f, of T] T by auto
  have fb: "file_blocks bs f' = file_blocks bs ?f + 1" using nT by (simp add: file_blocks_def T T' H)
  have addr: "file_addr bs f' p = file_addr bs ?f p" for p by (simp add: file_addr_def H st)
  have wf': "file_wf bs f'" using f sz(4) by (auto simp: file_wf_def H T T') (simp_all add: f'_def)
  have new_addr: "file_addr bs ?f (T * bs + j) = ?D * bs + j" if "j < bs" for j
    using that bs last by (simp add: file_addr_def file_blocks_def T)
  have old: "file_addr bs (file_of fs m) p div bs < ?D"
    if "m \<in> set (files fs)" "p div bs < div_up (f_size (file_of fs m)) bs" "p div bs \<notin> holes_of (file_of fs m)" for m p
  proof -
    note o = file_addr_owned [OF fs_wfD(4) [OF wf that(1)] that(2,3)]
    then have "0 < file_blocks bs (file_of fs m)" by linarith
    then show ?thesis using o(2) fs_wfD(5) [OF wf that(1)] by linarith
  qed
  have oth: "\<not> (start_index (file_of fs m) \<le> ?D \<and> ?D < start_index (file_of fs m) + file_blocks bs (file_of fs m))"
    if "m \<in> set (files fs)" for m
    using fs_wfD(5) [OF wf that] by auto
  have byte: "file_byte bs w' f' p = poke (file_byte bs w ?f) (f_size ?f) d p" for p
  proof (cases "p < f_size ?f")
    case True
    then have "p div bs < T" using size_block_lt [OF bs True] T by simp
    then have "p div bs \<notin> holes_of ?f \<Longrightarrow> file_addr bs ?f p div bs \<noteq> ?D" using old [OF n, of p] T by auto
    then show ?thesis using True w'(1) sz' H addr by (auto simp: file_byte_def poke_def only_block_def)
  next
    case False
    have "file_byte bs w' f' p = d ! (p - f_size ?f)" if p: "p < f_size ?f + length d"
    proof -
      obtain j where j: "p = T * bs + j" "j < length d" using p False sz(1)
        by (metis add_less_cancel_left le_Suc_ex not_less)
      then have "p div bs = T" using sz(3) by (intro div_block) auto
      then show ?thesis using j p sz(1,3) sz' H nT addr new_addr [of j] w'(3) by (simp add: file_byte_def)
    qed
    moreover have "file_byte bs w' f' p = 0" "file_byte bs w ?f p = 0" if "f_size ?f + length d \<le> p"
      using that sz' by (simp_all add: file_byte_def)
    ultimately show ?thesis using False by (auto simp: poke_def not_less)
  qed
  have solid_n: "solid w' (file_addr bs f' p)"
    if p: "f_size f' \<le> p" "p div bs < div_up (f_size f') bs" "p div bs \<notin> holes_of f'" for p
  proof -
    have "T * bs \<le> p" using p(1) sz sz' by simp
    then have "p div bs = T" using p(2) T' bs by (simp add: less_Suc_eq_le le_antisym less_eq_div_iff_mult_less_eq)
    then obtain j where j: "p = T * bs + j" "j < bs" using bs by (metis div_mult_mod_eq mod_less_divisor)
    then show ?thesis using w'(4) p(1) sz sz' addr new_addr by simp
  qed
  have "fs_wf bs w' (set_file fs1 n f')"
    unfolding fs_wf_def set_file_simps fs1
  proof (intro conjI ballI allI impI)
    show "distinct (files fs)" by (rule fs_wfD(1) [OF wf])
    show "?D + 1 \<le> vblocks w'" using room w'(1) by (simp add: only_block_def)
    show "readable w' p" if p: "p < (?D + 1) * bs" for p
    proof (cases "p < ?D * bs")
      case True
      then have "p div bs \<noteq> ?D" using bs by (simp add: less_div_mult)
      then show ?thesis using w'(1) fs_wfD(3) [OF wf True] by (simp add: only_block_def)
    next
      case False
      then show ?thesis using w'(2) [of "p - ?D * bs"] p by simp
    qed
    fix m assume m: "m \<in> set (files fs)"
    let ?g = "if m = n then f' else file_of fs m"
    show "file_wf bs ?g" using wf' fs_wfD(4) [OF wf m] by simp
    show "start_index ?g + file_blocks bs ?g \<le> ?D + 1" if "0 < file_blocks bs ?g"
      using that fs_wfD(5) [OF wf m] fb st last by (auto split: if_splits)
    show "blocks_apart bs ?g (if l = n then f' else file_of fs l)" if l: "l \<in> set (files fs)" "l \<noteq> m" for l
    proof -
      have c: "file_blocks bs (file_of fs x) = 0 \<or> start_index (file_of fs x) + file_blocks bs (file_of fs x) \<le> start_index ?f \<or>
          (file_blocks bs ?f = 0 \<and> start_index (file_of fs x) + file_blocks bs (file_of fs x) \<le> ?D)"
        if "x \<in> set (files fs)" "x \<noteq> n" for x
        using fs_wfD(7) [OF wf n that] fs_wfD(5) [OF wf that(1)] last by (auto simp: blocks_apart_def)
      show ?thesis
        using c [OF m] c [OF l(1)] fs_wfD(7) [OF wf m l] l(2) last
        by (auto simp: blocks_apart_def fb st)
    qed
    fix p assume p: "f_size ?g \<le> p \<and> p div bs < div_up (f_size ?g) bs \<and> p div bs \<notin> holes_of ?g"
    show "solid w' (file_addr bs ?g p)"
    proof (cases "m = n")
      case True
      then show ?thesis using p solid_n by simp
    next
      case False
      then show ?thesis
        using p only_block_file(2) [OF w'(1) fs_wfD(4) [OF wf m] oth [OF m]] fs_wfD(6) [OF wf m] by simp
    qed
  qed
  moreover have "appended bs w fs w' (set_file fs1 n f') n d"
    using byte sz' w'(1) fs1 only_block_file(1) [OF w'(1) fs_wfD(4) [OF wf] oth]
    by (auto simp: appended_def only_block_def)
  ultimately show ?thesis using fb by blast
qed

text \<open>The search of \<open>append_to_tail\<close> leaves all holes behind when none of them reaches up to the tail
  block.\<close>

lemma skip_holes_ok:
  assumes "\<forall>h\<in>set hs. h_index h + h_count h < T" "holes_from lo hs" "card (hole_blocks hs) \<le> r"
  shows "skip_holes hs T r = (hs, r - card (hole_blocks hs), [])"
  using assms
proof (induction hs arbitrary: lo r)
  case (Cons h hs)
  have "h_index h + h_count h < T" using Cons.prems(1) by simp
  then have "h_count h < sub64 T (h_index h)" by (simp add: sub64_exact)
  have dis: "hole_set h \<inter> hole_blocks hs = {}"
    using Cons.prems(2) holes_from_below [of "h_index h + h_count h + 1" hs] by (auto simp: hole_set_def)
  then have c: "card (hole_blocks (h # hs)) = h_count h + card (hole_blocks hs)"
    by (simp add: card_Un_disjoint)
  have "skip_holes hs T (r - h_count h) = (hs, r - h_count h - card (hole_blocks hs), [])"
    using Cons.prems c by (intro Cons.IH) auto
  then show ?case using \<open>h_count h < sub64 T (h_index h)\<close> c Cons.prems(3) by (simp add: sub64_exact)
qed simp

definition tail_clear :: "nat \<Rightarrow> file_data \<Rightarrow> bool" where
  "tail_clear bs f \<longleftrightarrow>
     f_size f mod bs = 0 \<or> (\<forall>h\<in>set (sparse f). h_index h + h_count h < f_size f div bs)"

context volume
begin

lemma append_chunk_tail:
  assumes v: "inv (fs_volume fs)" and wf: "fs_wf bs (view (fs_volume fs)) fs" and n: "n \<in> set (files fs)"
    and t: "0 < f_size (file_of fs n) mod bs" and cl: "tail_clear bs (file_of fs n)"
    and k: "0 < k" "f_size (file_of fs n) mod bs + k \<le> bs" "f_size (file_of fs n) + k < 2 ^ 63" "valid_buf data k"
  defines "T \<equiv> f_size (file_of fs n) div bs" and "u \<equiv> f_size (file_of fs n) mod bs"
  shows "\<exists>v'. append_to_tail vol fs n T u data k = (Some (), fs\<lparr>fs_volume := v'\<rparr>) \<and> inv v' \<and>
    fs_wf bs (view v') (set_file (fs\<lparr>fs_volume := v'\<rparr>) n ((file_of fs n)\<lparr>f_size := f_size (file_of fs n) + k\<rparr>)) \<and>
    appended bs (view (fs_volume fs)) fs (view v')
      (set_file (fs\<lparr>fs_volume := v'\<rparr>) n ((file_of fs n)\<lparr>f_size := f_size (file_of fs n) + k\<rparr>)) n (buf_bytes data k) \<and>
    file_blocks bs ((file_of fs n)\<lparr>f_size := f_size (file_of fs n) + k\<rparr>) = file_blocks bs (file_of fs n)"
proof -
  let ?f = "file_of fs n" and ?w = "view (fs_volume fs)"
  note f = fs_wfD(4) [OF wf n]
  have sz: "f_size ?f = T * bs + u" by (simp add: T_def u_def)
  have u: "u < bs" "0 < u" using bs_pos [OF v] t by (simp_all add: u_def)
  have hl: "\<forall>h\<in>set (sparse ?f). h_index h + h_count h < T" using cl t by (auto simp: tail_clear_def T_def)
  have below: "holes_of ?f \<subseteq> {..<T}" using hl by (auto simp: hole_blocks_def)
  then have nT: "T \<notin> holes_of ?f" by auto
  have TT: "T < div_up (f_size ?f) bs" using div_up_block [of u bs T] u sz by simp
  define R where "R = start_index ?f + stored_before (holes_of ?f) T"
  note sb = stored_block [OF v wf n TT nT, folded R_def]
  have card: "stored_before (holes_of ?f) T + card (holes_of ?f) = T"
    using stored_before_holes [of "holes_of ?f" T] below by (simp add: Int_absorb2)
  have lim: "start_index ?f + T < max64"
  proof -
    have "vblocks ?w * 1 \<le> capacity (fs_volume fs)" using bs_pos [OF v] by (intro mult_le_mono2) simp
    then have "R < 2 ^ 63" using sb(3) max_bound [OF v] by linarith
    then have "start_index ?f < 2 ^ 63" unfolding R_def by linarith
    moreover have "T \<le> f_size ?f" by (simp add: T_def)
    then have "T < 2 ^ 63" using file_wfD(4) [OF f] by linarith
    ultimately show ?thesis by simp
  qed
  have "card (holes_of ?f) \<le> start_index ?f + T" using card by linarith
  from skip_holes_ok [OF hl file_wfD(3) [OF f] this]
  have skip: "skip_holes (sparse ?f) T (add64 (start_index ?f) T) = (sparse ?f, R, [])"
    using lim card by (simp add: add64_exact R_def)
  have d: "length (buf_bytes data k) = k" using k(4) by simp
  have uk: "u + k \<le> bs" using k(2) by (simp add: u_def)
  from write_partial [OF v sb(3) uk k(1,4)] obtain v' where
    v': "write_partial_block vol (fs_volume fs) R data u k = (Some (), v')" "inv v'"
      "wrote bs ?w (view v') (R * bs + u) (buf_bytes data k)" by blast
  have "append_to_tail vol fs n T u data k = (Some (), fs\<lparr>fs_volume := v'\<rparr>)"
    using skip v'(1) by (simp add: append_to_tail_def)
  moreover note append_tail [OF wf n sz u(2) _ _ _ nT R_def v'(3) solid_readable [OF v'(2)],
      of "fs\<lparr>fs_volume := v'\<rparr>", unfolded d]
  ultimately show ?thesis using v'(2) k uk by auto
qed

lemma append_block_ok:
  assumes v: "inv (fs_volume fs)" and wf: "fs_wf bs (view (fs_volume fs)) fs" and n: "n \<in> set (files fs)"
    and t: "f_size (file_of fs n) mod bs = 0"
    and k: "0 < k" "k \<le> bs" "f_size (file_of fs n) + k < 2 ^ 63" "valid_buf data k"
    and room: "data_offset fs + file_blocks bs (file_of fs n) + 1 \<le> vblocks (view (fs_volume fs))"
  shows "\<exists>fs1. append_block vol fs n data k = (Some (), fs1) \<and> inv (fs_volume fs1) \<and>
    data_offset fs1 = data_offset fs + 1 \<and> f_size (file_of fs1 n) = f_size (file_of fs n) \<and>
    fs_wf bs (view (fs_volume fs1)) (set_file fs1 n ((file_of fs1 n)\<lparr>f_size := f_size (file_of fs n) + k\<rparr>)) \<and>
    appended bs (view (fs_volume fs)) fs (view (fs_volume fs1))
      (set_file fs1 n ((file_of fs1 n)\<lparr>f_size := f_size (file_of fs n) + k\<rparr>)) n (buf_bytes data k) \<and>
    file_blocks bs ((file_of fs1 n)\<lparr>f_size := f_size (file_of fs n) + k\<rparr>) = file_blocks bs (file_of fs n) + 1"
proof -
  let ?w = "view (fs_volume fs)"
  from move_to_end_ok [OF v wf n] room obtain fs1 where
    m: "fstree_file_move_to_end vol fs n = (Some (), fs1)" "inv (fs_volume fs1)" "fs_wf bs (view (fs_volume fs1)) fs1"
      "relocated bs ?w fs (view (fs_volume fs1)) fs1"
      "start_index (file_of fs1 n) + file_blocks bs (file_of fs1 n) = data_offset fs1" by auto
  let ?w1 = "view (fs_volume fs1)" and ?D = "data_offset fs1"
  have rel: "vblocks ?w1 = vblocks ?w" "files fs1 = files fs" "?D = data_offset fs" "no_sparse fs1 = no_sparse fs"
    "f_size (file_of fs1 n) = f_size (file_of fs n)" "sparse (file_of fs1 n) = sparse (file_of fs n)"
    using m(4) by (simp_all add: relocated_def)
  have D: "?D < vblocks ?w1" using room rel by simp
  have d: "length (buf_bytes data k) = k" using k(4) by simp
  then have dn: "buf_bytes data k \<noteq> []" using k(1) by auto
  have D1: "add64 ?D 1 = ?D + 1"
  proof -
    have "?D * bs + 0 < capacity (fs_volume fs1)" using D bs_pos [OF v] by simp
    then show ?thesis by (rule next_block [OF m(2)])
  qed
  have "\<exists>v'. append_block vol fs n data k = (Some (), fs1\<lparr>fs_volume := v', data_offset := ?D + 1\<rparr>) \<and> inv v' \<and>
      only_block bs ?D ?w1 (view v') \<and> (\<forall>j<bs. readable (view v') (?D * bs + j)) \<and>
      (\<forall>j<k. content (view v') (?D * bs + j) = buf_bytes data k ! j) \<and>
      (\<forall>j. k \<le> j \<and> j < bs \<longrightarrow> solid (view v') (?D * bs + j))"
  proof (cases "k = bs")
    case True
    have "\<exists>v'. write_block vol (fs_volume fs1) ?D data = (Some (), v') \<and> inv v' \<and>
        wrote bs ?w1 (view v') (?D * bs) (buf_bytes data k)"
    proof (cases data)
      case None
      then show ?thesis using discard [OF m(2), of ?D 1] D True by (simp add: write_block_None)
    next
      case (Some x)
      then show ?thesis using write_partial [OF m(2) D, of 0 bs "Some x"] k True by (simp add: write_block_eq)
    qed
    then obtain v' where v': "write_block vol (fs_volume fs1) ?D data = (Some (), v')" "inv v'"
        "wrote bs ?w1 (view v') (?D * bs) (buf_bytes data k)" by blast
    have w0: "wrote bs ?w1 (view v') (?D * bs + 0) (buf_bytes data k)" using v'(3) by simp
    have "only_block bs ?D ?w1 (view v')"
      using wrote_only_block [OF w0 _ dn] d k by simp
    moreover have "readable (view v') (?D * bs + j)" if "j < bs" for j
      using wrote_readable [OF v'(3), of "?D * bs + j"] that d True bs_pos [OF v] by simp
    moreover have "content (view v') (?D * bs + j) = buf_bytes data k ! j" if "j < k" for j
      using that d by (simp add: wrote_content [OF v'(3)] poke_def)
    ultimately show ?thesis
      using m(1) v' True D1 by (intro exI [of _ v']) (auto simp: append_block_def)
  next
    case False
    then have kb: "k < bs" using k(2) by simp
    from write_partial [OF m(2) D, of 0 k data] k obtain v1 where
      v1: "write_partial_block vol (fs_volume fs1) ?D data 0 k = (Some (), v1)" "inv v1"
        "wrote bs ?w1 (view v1) (?D * bs + 0) (buf_bytes data k)" by auto
    have "?D < vblocks (view v1)" using D wrote_blocks [OF v1(3)] by simp
    from write_partial [OF v1(2) this, of k "bs - k" None] kb obtain v2 where
      v2: "write_partial_block vol v1 ?D None k (bs - k) = (Some (), v2)" "inv v2"
        "wrote bs (view v1) (view v2) (?D * bs + k) (zeros (bs - k))" by auto
    have kd: "(?D * bs + k) div bs = ?D" "(?D * bs + k) mod bs = k" "(?D * bs) div bs = ?D"
      using kb by simp_all
    have fin: "?D * bs + k + length (zeros (bs - k)) = ?D * bs + bs" using kb by simp
    have "only_block bs ?D ?w1 (view v1)" using wrote_only_block [OF v1(3) _ dn] d k by simp
    moreover have "only_block bs ?D (view v1) (view v2)"
      using kb by (intro wrote_only_block [OF v2(3)]) (auto simp: zeros_def)
    ultimately have "only_block bs ?D ?w1 (view v2)" by (rule only_block_trans)
    moreover have "readable (view v2) (?D * bs + j)" if "j < bs" for j
      using wrote_readable [OF v2(3), of "?D * bs + j"] that fin kd by simp
    moreover have "content (view v2) (?D * bs + j) = buf_bytes data k ! j" if "j < k" for j
      using that d by (simp add: wrote_content [OF v2(3)] wrote_content [OF v1(3)] poke_def)
    moreover have "solid (view v2) (?D * bs + j)" if "k \<le> j" "j < bs" for j
    proof (rule wrote_solid [OF v2(3)])
      have "(?D * bs + j) div bs = ?D" using that by simp
      then show "(?D * bs + j) div bs = (?D * bs + k) div bs \<and> (?D * bs + k) mod bs \<noteq> 0 \<or>
          (?D * bs + j) div bs = (?D * bs + k + length (zeros (bs - k))) div bs"
        using kd k(1) by simp
    qed (use that fin kd in simp_all)
    ultimately show ?thesis
      using m(1) v1(1) v2(1,2) False D1 by (intro exI [of _ v2]) (auto simp: append_block_def)
  qed
  then obtain v' where
    run: "append_block vol fs n data k = (Some (), fs1\<lparr>fs_volume := v', data_offset := ?D + 1\<rparr>)" "inv v'"
    and w': "only_block bs ?D ?w1 (view v')" "\<And>j. j < bs \<Longrightarrow> readable (view v') (?D * bs + j)"
      "\<And>j. j < k \<Longrightarrow> content (view v') (?D * bs + j) = buf_bytes data k ! j"
      "\<And>j. k \<le> j \<Longrightarrow> j < bs \<Longrightarrow> solid (view v') (?D * bs + j)"
    by blast
  let ?fs = "fs1\<lparr>fs_volume := v', data_offset := ?D + 1\<rparr>"
  have n1: "n \<in> set (files fs1)" using n rel by simp
  have al: "f_size (file_of fs1 n) = (f_size (file_of fs n) div bs) * bs" using t rel by (metis add.right_neutral div_mult_mod_eq)
  note ab = append_new_block [OF m(3) n1 al _ _ _ m(5) D w'(1,2), of "buf_bytes data k" ?fs, unfolded d]
  have "fs_wf bs (view v') (set_file ?fs n ((file_of fs1 n)\<lparr>f_size := f_size (file_of fs1 n) + k\<rparr>)) \<and>
     appended bs ?w1 fs1 (view v') (set_file ?fs n ((file_of fs1 n)\<lparr>f_size := f_size (file_of fs1 n) + k\<rparr>)) n (buf_bytes data k) \<and>
     file_blocks bs ((file_of fs1 n)\<lparr>f_size := f_size (file_of fs1 n) + k\<rparr>) = file_blocks bs (file_of fs1 n) + 1"
    by (rule ab) (use k w' rel in simp_all)
  then show ?thesis
    using run rel relocated_appended [OF m(4) _ n] file_blocks_cong [OF rel(5,6), of bs] by auto
qed

lemma append_chunk_ok:
  assumes v: "inv (fs_volume fs)" and wf: "fs_wf bs (view (fs_volume fs)) fs" and n: "n \<in> set (files fs)"
    and cl: "tail_clear bs (file_of fs n)"
    and k: "0 < k" "f_size (file_of fs n) mod bs + k \<le> bs" "f_size (file_of fs n) + k < 2 ^ 63" "valid_buf data k"
    and ix: "f_size (file_of fs n) div bs + 1 < 2 ^ 32"
    and room: "data_offset fs + file_blocks bs (file_of fs n) + 1 \<le> vblocks (view (fs_volume fs))"
    and d': "valid_buf data' k" "map_option (take k) data' = data"
  shows "\<exists>fs1. append_chunk vol True fs n (f_size (file_of fs n) div bs) (f_size (file_of fs n) mod bs) data' k = (Some (), fs1) \<and>
    inv (fs_volume fs1) \<and> f_size (file_of fs1 n) = f_size (file_of fs n) \<and>
    (let fs2 = set_file fs1 n ((file_of fs1 n)\<lparr>f_size := f_size (file_of fs n) + k\<rparr>)
     in fs_wf bs (view (fs_volume fs1)) fs2 \<and>
        appended bs (view (fs_volume fs)) fs (view (fs_volume fs1)) fs2 n (buf_bytes data k) \<and>
        data_offset fs2 + file_blocks bs (file_of fs2 n) \<le> data_offset fs + file_blocks bs (file_of fs n) + 2)"
proof -
  let ?f = "file_of fs n"
  let ?T = "f_size ?f div bs" and ?u = "f_size ?f mod bs"
  consider (tail) "0 < ?u"
    | (hole) "?u = 0" "\<not> no_sparse fs \<and> (data' = None \<or> buffer_is_zero (the data') k)"
    | (block) "?u = 0" "\<not> (\<not> no_sparse fs \<and> (data' = None \<or> buffer_is_zero (the data') k))" by (meson neq0_conv)
  then show ?thesis
  proof cases
    case tail
    from append_chunk_tail [OF v wf n tail cl k] obtain v' where
      "append_to_tail vol fs n ?T ?u data k = (Some (), fs\<lparr>fs_volume := v'\<rparr>)" "inv v'"
      "fs_wf bs (view v') (set_file (fs\<lparr>fs_volume := v'\<rparr>) n (?f\<lparr>f_size := f_size ?f + k\<rparr>))"
      "appended bs (view (fs_volume fs)) fs (view v')
        (set_file (fs\<lparr>fs_volume := v'\<rparr>) n (?f\<lparr>f_size := f_size ?f + k\<rparr>)) n (buf_bytes data k)"
      "file_blocks bs (?f\<lparr>f_size := f_size ?f + k\<rparr>) = file_blocks bs ?f" by blast
    then show ?thesis
      using tail d'(2) by (intro exI [of _ "fs\<lparr>fs_volume := v'\<rparr>"]) (simp add: append_chunk_def Let_def)
  next
    case hole
    have al: "f_size ?f = ?T * bs" using hole(1) by (metis add.right_neutral div_mult_mod_eq)
    from mark_sparse_ok [OF file_wfD(3) [OF fs_wfD(4) [OF wf n]] ix] obtain hs where
      hs: "fstree_file_mark_sparse True (sparse ?f) ?T = (Some (), hs)" "holes_wf hs" "hole_blocks hs = insert ?T (holes_of ?f)"
      by blast
    have "buf_bytes data k = zeros k"
      using d' hole(2) by (cases data') (auto simp: buffer_is_zero_iff intro!: nth_equalityI)
    moreover have "?f\<lparr>sparse := hs, f_size := f_size ?f + k\<rparr> = (?f\<lparr>sparse := hs\<rparr>)\<lparr>f_size := f_size ?f + k\<rparr>" by simp
    ultimately show ?thesis
      using append_hole [OF wf n al k(1) _ k(3) hs(2,3)] hole hs(1) v k(2)
      by (intro exI [of _ "set_file fs n (?f\<lparr>sparse := hs\<rparr>)"])
        (auto simp: append_chunk_def Let_def set_file_def)
  next
    case block
    have kb: "k \<le> bs" using k(2) by simp
    from append_block_ok [OF v wf n block(1) k(1) kb k(3,4) room] obtain fs1 where
      "append_block vol fs n data k = (Some (), fs1)" "inv (fs_volume fs1)"
      "data_offset fs1 = data_offset fs + 1" "f_size (file_of fs1 n) = f_size ?f"
      "fs_wf bs (view (fs_volume fs1)) (set_file fs1 n ((file_of fs1 n)\<lparr>f_size := f_size ?f + k\<rparr>))"
      "appended bs (view (fs_volume fs)) fs (view (fs_volume fs1))
        (set_file fs1 n ((file_of fs1 n)\<lparr>f_size := f_size ?f + k\<rparr>)) n (buf_bytes data k)"
      "file_blocks bs ((file_of fs1 n)\<lparr>f_size := f_size ?f + k\<rparr>) = file_blocks bs ?f + 1" by blast
    moreover have "append_chunk vol True fs n ?T ?u data' k = append_block vol fs n data k"
      using block d'(2) by (auto simp: append_chunk_def)
    ultimately show ?thesis by (intro exI [of _ fs1]) (simp add: Let_def)
  qed
qed

text \<open>The blocks an append may need, counting twice because the file may first be moved.\<close>

lemma append_loop_ok:
  "\<lbrakk>inv (fs_volume fs); fs_wf bs (view (fs_volume fs)) fs; n \<in> set (files fs); tail_clear bs (file_of fs n);
    f_size (file_of fs n) + sz < 2 ^ 63; (f_size (file_of fs n) + sz) div bs + 1 < 2 ^ 32; valid_buf data sz;
    data_offset fs + file_blocks bs (file_of fs n) + 2 * div_up (f_size (file_of fs n) mod bs + sz) bs
      \<le> vblocks (view (fs_volume fs))\<rbrakk> \<Longrightarrow>
   \<exists>fs'. append_loop vol True fs n (f_size (file_of fs n) div bs) (f_size (file_of fs n) mod bs) data sz = (Some (), fs') \<and>
     inv (fs_volume fs') \<and> fs_wf bs (view (fs_volume fs')) fs' \<and>
     appended bs (view (fs_volume fs)) fs (view (fs_volume fs')) fs' n (buf_bytes data sz)"
proof (induction sz arbitrary: fs data rule: less_induct)
  case (less sz)
  let ?f = "file_of fs n"
  let ?T = "f_size ?f div bs" and ?u = "f_size ?f mod bs"
  note bs = bs_pos [OF less.prems(1)]
  show ?case
  proof (cases "sz = 0")
    case True
    then show ?thesis
      using less.prems(1,2) appended_refl by (cases data) (auto simp: append_loop.simps zeros_def)
  next
    case False
    define k where "k = (if sz < bs - ?u then sz else bs - ?u)"
    have u: "?u < bs" using bs by simp
    have k: "0 < k" "?u + k \<le> bs" "k \<le> sz" and full: "k < sz \<Longrightarrow> ?u + k = bs"
      using False u by (auto simp: k_def split: if_splits)
    note sp = buf_bytes_split [OF less.prems(7) k(3)]
    have "0 < div_up (?u + sz) bs" using div_up_less [OF bs, of 0 "?u + sz"] False by simp
    then have r1: "data_offset fs + file_blocks bs ?f + 1 \<le> vblocks (view (fs_volume fs))"
      using less.prems(8) by linarith
    have "?T \<le> (f_size ?f + sz) div bs" by (rule div_le_mono) simp
    then have ix: "?T + 1 < 2 ^ 32" using less.prems(6) by linarith
    have k3: "f_size ?f + k < 2 ^ 63" using k(3) less.prems(5) by linarith
    have vk: "valid_buf data k" using less.prems(7) k(3) by (cases data) auto
    from append_chunk_ok [OF less.prems(1-4) k(1,2) k3 sp(1) ix r1 vk refl] obtain fs1 where
      c: "append_chunk vol True fs n ?T ?u data k = (Some (), fs1)" "inv (fs_volume fs1)" "f_size (file_of fs1 n) = f_size ?f"
      and c2: "fs_wf bs (view (fs_volume fs1)) (set_file fs1 n ((file_of fs1 n)\<lparr>f_size := f_size ?f + k\<rparr>))"
        "appended bs (view (fs_volume fs)) fs (view (fs_volume fs1))
          (set_file fs1 n ((file_of fs1 n)\<lparr>f_size := f_size ?f + k\<rparr>)) n (buf_bytes (map_option (take k) data) k)"
        "data_offset (set_file fs1 n ((file_of fs1 n)\<lparr>f_size := f_size ?f + k\<rparr>)) +
          file_blocks bs (file_of (set_file fs1 n ((file_of fs1 n)\<lparr>f_size := f_size ?f + k\<rparr>)) n)
          \<le> data_offset fs + file_blocks bs ?f + 2"
      unfolding Let_def by blast
    define fs2 where "fs2 = set_file fs1 n ((file_of fs1 n)\<lparr>f_size := f_size ?f + k\<rparr>)"
    have f2: "f_size (file_of fs2 n) = f_size ?f + k" "fs_volume fs2 = fs_volume fs1" by (simp_all add: fs2_def)
    have ex: "add64 (f_size ?f) k = f_size ?f + k" using k3 by (intro add64_exact) simp
    have unf: "append_loop vol True fs n ?T ?u data sz =
        append_loop vol True fs2 n (?T + 1) 0 (map_option (drop k) data) (sz - k)"
      using False c(1,3) k(1) ex
      by (subst append_loop.simps) (simp add: Let_def fs2_def flip: k_def)
    show ?thesis
    proof (cases "k = sz")
      case True
      then have "append_loop vol True fs n ?T ?u data sz = (Some (), fs2)"
        using unf by (simp add: append_loop.simps)
      moreover have "buf_bytes (map_option (take k) data) k = buf_bytes data sz" using True by (cases data) auto
      ultimately show ?thesis using c(2) c2 f2(2) by (simp add: fs2_def)
    next
      case lt: False
      then have uk: "?u + k = bs" using full k(3) by simp
      have sz2: "f_size ?f + k = (?T + 1) * bs" using uk by (metis add.assoc add.commute div_mult_mod_eq mult_Suc Suc_eq_plus1)
      have dm: "f_size (file_of fs2 n) div bs = ?T + 1" "f_size (file_of fs2 n) mod bs = 0"
        unfolding f2(1) sz2 using bs by simp_all
      have n2: "n \<in> set (files fs2)" "files fs2 = files fs" "vblocks (view (fs_volume fs1)) = vblocks (view (fs_volume fs))"
        using c2(2) less.prems(3) by (simp_all add: appended_def fs2_def)
      have "div_up (?u + sz) bs = Suc (div_up (sz - k) bs)"
      proof -
        have "?u + sz = 1 * bs + (sz - k)" using uk k(3) by simp
        moreover have "div_up (1 * bs + x) bs = Suc (div_up x bs)" for x
          unfolding div_up_def using div_add_self1 [of bs x] mod_add_self1 [of bs x] bs by simp
        ultimately show ?thesis by presburger
      qed
      then have room2: "data_offset fs2 + file_blocks bs (file_of fs2 n) + 2 * div_up (0 + (sz - k)) bs
          \<le> vblocks (view (fs_volume fs1))"
        using less.prems(8) c2(3) n2(3) by (simp add: fs2_def)
      have "\<exists>fs'. append_loop vol True fs2 n (f_size (file_of fs2 n) div bs) (f_size (file_of fs2 n) mod bs)
          (map_option (drop k) data) (sz - k) = (Some (), fs') \<and> inv (fs_volume fs') \<and>
          fs_wf bs (view (fs_volume fs')) fs' \<and>
          appended bs (view (fs_volume fs2)) fs2 (view (fs_volume fs')) fs' n (buf_bytes (map_option (drop k) data) (sz - k))"
      proof (rule less.IH)
        show "sz - k < sz" using k(1) False by linarith
        show "tail_clear bs (file_of fs2 n)" using dm(2) by (simp add: tail_clear_def)
        show "f_size (file_of fs2 n) + (sz - k) < 2 ^ 63" "(f_size (file_of fs2 n) + (sz - k)) div bs + 1 < 2 ^ 32"
          using less.prems(5,6) f2(1) k(3) by simp_all
        show "fs_wf bs (view (fs_volume fs2)) fs2" using c2(1) by (simp add: fs2_def)
      qed (use c(2) f2 n2 dm sp(2) room2 in simp_all)
      then obtain fs' where fs': "append_loop vol True fs2 n (?T + 1) 0 (map_option (drop k) data) (sz - k) = (Some (), fs')"
          "inv (fs_volume fs')" "fs_wf bs (view (fs_volume fs')) fs'"
          "appended bs (view (fs_volume fs2)) fs2 (view (fs_volume fs')) fs' n (buf_bytes (map_option (drop k) data) (sz - k))"
        unfolding dm by blast
      have "appended bs (view (fs_volume fs)) fs (view (fs_volume fs1)) fs2 n (buf_bytes (map_option (take k) data) k)"
        using c2(2) by (simp add: fs2_def)
      from appended_trans [OF this [folded f2(2)] fs'(4)] fs' unf sp(3) show ?thesis by auto
    qed
  qed
qed

text \<open>Appending adds exactly the given bytes to the file and leaves every other file alone.\<close>

lemma file_append_ok:
  assumes "inv (fs_volume fs)" "fs_wf bs (view (fs_volume fs)) fs" "n \<in> set (files fs)" "tail_clear bs (file_of fs n)"
    and "f_size (file_of fs n) + sz < 2 ^ 63" "(f_size (file_of fs n) + sz) div bs + 1 < 2 ^ 32" "valid_buf data sz"
    and "data_offset fs + file_blocks bs (file_of fs n) + 2 * div_up (f_size (file_of fs n) mod bs + sz) bs
      \<le> vblocks (view (fs_volume fs))"
  shows "\<exists>fs'. fstree_file_append vol True fs n data sz = (Some (), fs') \<and> inv (fs_volume fs') \<and>
    fs_wf bs (view (fs_volume fs')) fs' \<and> files fs' = files fs \<and>
    file_content bs (view (fs_volume fs')) (file_of fs' n) =
      file_content bs (view (fs_volume fs)) (file_of fs n) @ buf_bytes data sz \<and>
    (\<forall>m\<in>set (files fs). m \<noteq> n \<longrightarrow>
      file_content bs (view (fs_volume fs')) (file_of fs' m) = file_content bs (view (fs_volume fs)) (file_of fs m))"
proof -
  from append_loop_ok [OF assms] obtain fs' where
    r: "fstree_file_append vol True fs n data sz = (Some (), fs')" "inv (fs_volume fs')"
      "fs_wf bs (view (fs_volume fs')) fs'"
      "appended bs (view (fs_volume fs)) fs (view (fs_volume fs')) fs' n (buf_bytes data sz)"
    unfolding fstree_file_append_def by blast
  have "files fs' = files fs" using r(4) by (simp add: appended_def)
  then show ?thesis using r appended_content [OF r(4) assms(3)] by blast
qed

end

section \<open>Properties\<close>

text \<open>A tree with two empty files, 1 and 2, on the example volume.\<close>

definition blank_node :: tree_node where
  "blank_node =
     \<lparr>n_ctime = 0, n_mtime = 0, n_uid = 0, n_gid = 0, inode_num = 0, link_count = 0, n_parent = None, n_name = [],
      n_type = TREE_NODE_DIR, permissions = 0, children = [], dir_start = 0, dir_size = 0, created_implicitly = False,
      n_file = \<lparr>f_size = 0, start_index = 0, sparse = []\<rparr>, link_target = [], link_resolved = None, device_number = 0\<rparr>"

definition demo_tree :: "file_volume fstree" where
  "demo_tree =
     \<lparr>nodes = (\<lambda>_. blank_node), node_count = 3,
      nodes_by_type = (\<lambda>t. if t = TREE_NODE_FILE then [1, 2] else if t = TREE_NODE_DIR then [0] else []),
      default_ctime = 0, default_mtime = 0, default_uid = 0, default_gid = 0, default_permissions = 0,
      root = 0, inode_table = [], fs_volume = demo_volume, data_offset = 0, no_sparse = False\<rparr>"

lemma demo_wf: "fs_wf 4 (fv_view 4 demo_volume) demo_tree"
  by (simp add: fs_wf_def demo_tree_def blank_node_def file_wf_def file_blocks_def blocks_apart_def)

text \<open>C2: appending to a file of a tree on a file volume succeeds, adds exactly the given bytes at its
  end, changes no other file, and the whole file can be read back. The file must not have a partial tail
  block that lies in or directly behind a hole (a tail directly behind a hole is corrupted by the append), and there must be
  room to move it.\<close>

theorem file_append_read:
  assumes "fv_inv env bs (fs_volume fs)" "fs_wf bs (fv_view bs (fs_volume fs)) fs" "n \<in> set (files fs)"
    "tail_clear bs (file_of fs n)" "valid_buf data sz"
    "f_size (file_of fs n) + sz < 2 ^ 63" "(f_size (file_of fs n) + sz) div bs + 1 < 2 ^ 32"
    "data_offset fs + file_blocks bs (file_of fs n) + 2 * div_up (f_size (file_of fs n) mod bs + sz) bs
      \<le> max_block_count (fs_volume fs)"
  shows "\<exists>fs' v. fstree_file_append (file_volume_ops env bs) True fs n data sz = (Some (), fs') \<and>
    fs_wf bs (fv_view bs (fs_volume fs')) fs' \<and>
    fstree_file_read (file_volume_ops env bs) fs' n 0 (f_size (file_of fs n) + sz) =
      (Some (file_content bs (fv_view bs (fs_volume fs)) (file_of fs n) @ buf_bytes data sz), fs'\<lparr>fs_volume := v\<rparr>) \<and>
    (\<forall>m\<in>set (files fs). m \<noteq> n \<longrightarrow> file_content bs (fv_view bs (fs_volume fs')) (file_of fs' m) =
      file_content bs (fv_view bs (fs_volume fs)) (file_of fs m))"
proof -
  have bs: "blocksize (file_volume_ops env bs) = bs" by (simp add: file_volume_ops_def)
  from fv.file_append_ok [of env bs fs n sz data, unfolded bs] assms obtain fs' where
    fs': "fstree_file_append (file_volume_ops env bs) True fs n data sz = (Some (), fs')" "fv_inv env bs (fs_volume fs')"
      "fs_wf bs (fv_view bs (fs_volume fs')) fs'" "files fs' = files fs"
    and c: "file_content bs (fv_view bs (fs_volume fs')) (file_of fs' n) =
        file_content bs (fv_view bs (fs_volume fs)) (file_of fs n) @ buf_bytes data sz"
      "\<forall>m\<in>set (files fs). m \<noteq> n \<longrightarrow> file_content bs (fv_view bs (fs_volume fs')) (file_of fs' m) =
        file_content bs (fv_view bs (fs_volume fs)) (file_of fs m)" by auto
  have "length (file_content bs (fv_view bs (fs_volume fs')) (file_of fs' n)) = f_size (file_of fs n) + sz"
    unfolding c(1) using assms(5) by (simp add: file_content_def)
  then have sz': "f_size (file_of fs' n) = f_size (file_of fs n) + sz" by (simp add: file_content_def)
  from fv.file_read_ok [of env bs fs' n 0 "f_size (file_of fs n) + sz", unfolded bs] fs' assms(3) c
  show ?thesis by (auto simp: file_content_def sz')
qed

text \<open>The theorem for five bytes appended to file 1 of the example tree.\<close>

theorem file_append_read_witness:
  "\<exists>fs' v. fstree_file_append (file_volume_ops demo_env 4) True demo_tree 1 (Some [1, 2, 3, 4, 5]) 5 = (Some (), fs') \<and>
    fstree_file_read (file_volume_ops demo_env 4) fs' 1 0 5 = (Some [1, 2, 3, 4, 5], fs'\<lparr>fs_volume := v\<rparr>) \<and>
    file_content 4 (fv_view 4 (fs_volume fs')) (file_of fs' 2) = []"
proof -
  have f: "file_of demo_tree n = \<lparr>f_size = 0, start_index = 0, sparse = []\<rparr>" for n
    by (simp add: demo_tree_def blank_node_def)
  have v: "fs_volume demo_tree = demo_volume" "data_offset demo_tree = 0" "files demo_tree = [1, 2]"
    by (simp_all add: demo_tree_def)
  have e: "file_content 4 w \<lparr>f_size = 0, start_index = 0, sparse = []\<rparr> = []" for w by (simp add: file_content_def)
  show ?thesis
    using file_append_read [of demo_env 4 demo_tree 1 "Some [1, 2, 3, 4, 5]" 5] demo_inv demo_wf
    by (auto simp: f v e tail_clear_def file_blocks_def div_up_def demo_volume_def)
qed

section \<open>A file whose tail follows a hole\<close>

text \<open>The condition \<open>tail_clear\<close> of the append theorem is needed: the loop of \<open>append_to_tail\<close> also stops at a hole that
  ends directly before the tail block and then takes the tail for sparse. It takes the last block off that hole, which
  makes the stored tail block the contents of the block before it, and adds a new block for the tail, in which the bytes
  of the tail that were there are zero.\<close>

definition shrunk_hole :: "hole \<Rightarrow> hole list" where
  "shrunk_hole h = (if h_count h = 1 then [] else [h\<lparr>h_count := h_count h - 1\<rparr>])"

lemma holes_from_last: "holes_from lo (pre @ [h]) \<Longrightarrow> lo \<le> h_index h \<and> 0 < h_count h \<and> h_index h + h_count h < 2 ^ 32"
  by (induction pre arbitrary: lo) fastforce+

lemma last_hole_above: "holes_from lo (pre @ [h]) \<Longrightarrow> x \<in> set pre \<Longrightarrow> h_index x + h_count x < h_index h"
proof (induction pre arbitrary: lo)
  case (Cons y pre)
  have "holes_from (h_index y + h_count y + 1) (pre @ [h])" using Cons.prems(1) by simp
  moreover from this have "h_index y + h_count y < h_index h" by (auto dest: holes_from_last)
  ultimately show ?case using Cons by auto
qed simp

lemma skip_to_last_hole:
  assumes "\<forall>x\<in>set pre. h_index x + h_count x < h_index h" "h_index h + h_count h = T"
  shows "\<exists>r'. skip_holes (pre @ [h]) T r = (pre, r', [h])"
  using assms(1)
proof (induction pre arbitrary: r)
  case Nil
  then show ?case using assms(2) by (auto simp: sub64_exact)
next
  case (Cons x pre)
  have "h_count x < sub64 T (h_index x)" using Cons.prems assms(2) by (auto simp: sub64_exact)
  moreover obtain r' where "skip_holes (pre @ [h]) T (sub64 r (h_count x)) = (pre, r', [h])" using Cons by auto
  ultimately show ?case by simp
qed

lemma shrunk_hole_blocks:
  assumes "holes_from lo (pre @ [h])"
  shows "holes_from lo (pre @ shrunk_hole h)"
    "hole_blocks (pre @ shrunk_hole h) = hole_blocks (pre @ [h]) - {h_index h + h_count h - 1}"
    "b \<in> hole_blocks (pre @ [h]) \<Longrightarrow> b < h_index h + h_count h" "h_index h + h_count h - 1 \<in> hole_blocks (pre @ [h])"
proof -
  show "holes_from lo (pre @ shrunk_hole h)"
    using assms by (induction pre arbitrary: lo) (auto simp: shrunk_hole_def)
  have h: "0 < h_count h" using holes_from_last [OF assms] by simp
  have app: "hole_blocks (xs @ ys) = hole_blocks xs \<union> hole_blocks ys" for xs ys by (simp add: hole_blocks_def)
  have pre: "b < h_index h" if "b \<in> hole_blocks pre" for b
    using that last_hole_above [OF assms] unfolding hole_blocks_def by fastforce
  have "hole_blocks (shrunk_hole h) = hole_set h - {h_index h + h_count h - 1}" using h by (auto simp: shrunk_hole_def)
  then show "hole_blocks (pre @ shrunk_hole h) = hole_blocks (pre @ [h]) - {h_index h + h_count h - 1}"
    using pre h unfolding app by fastforce
  show "b \<in> hole_blocks (pre @ [h]) \<Longrightarrow> b < h_index h + h_count h" using pre [of b] unfolding app by auto
  show "h_index h + h_count h - 1 \<in> hole_blocks (pre @ [h])" using h unfolding app by auto
qed

text \<open>The file without the last block of its last hole and without its tail: the stored tail block now belongs to the
  block that was the hole's last.\<close>

lemma tail_becomes_hole_block:
  assumes wf: "fs_wf bs w fs" and n: "n \<in> set (files fs)"
    and f: "sparse (file_of fs n) = pre @ [h]" "h_index h + h_count h = Suc T" "f_size (file_of fs n) = Suc T * bs + u" "0 < u" "u < bs"
  defines "g \<equiv> (file_of fs n)\<lparr>f_size := Suc T * bs, sparse := pre @ shrunk_hole h\<rparr>"
  shows "fs_wf bs w (set_file fs n g)" "file_blocks bs g = file_blocks bs (file_of fs n)"
    "\<And>j. j < u \<Longrightarrow> file_byte bs w g (T * bs + j) = file_byte bs w (file_of fs n) (Suc T * bs + j)"
    "\<And>p. p < T * bs \<Longrightarrow> file_byte bs w g p = file_byte bs w (file_of fs n) p"
    "\<And>j. j < u \<Longrightarrow> file_byte bs w (file_of fs n) (T * bs + j) = 0"
proof -
  let ?f = "file_of fs n"
  note wff = fs_wfD(4) [OF wf n]
  have hw: "holes_from 0 (pre @ [h])" using file_wfD(3) [OF wff] f(1) by simp
  note S = shrunk_hole_blocks [OF hw]
  have H: "holes_of g = holes_of ?f - {T}" "T \<in> holes_of ?f" "Suc T \<notin> holes_of ?f" "\<And>b. b \<in> holes_of ?f \<Longrightarrow> b < Suc T"
    using S(2-4) f(1,2) by (auto simp: g_def)
  have bs: "0 < bs" using f(5) by simp
  have du: "div_up (f_size ?f) bs = Suc (Suc T)" "div_up (f_size g) bs = Suc T"
    using div_up_block [of u bs "Suc T"] f(3-5) div_up_block [of bs bs T] bs by (simp_all add: g_def add.commute)
  have below: "stored_before (holes_of g) T = stored_before (holes_of ?f) T" by (rule stored_before_cong) (auto simp: H(1))
  show fb: "file_blocks bs g = file_blocks bs ?f" using H below unfolding file_blocks_def du by simp
  have gw: "file_wf bs g"
    using wff S(1) H(1,4) du f(3) unfolding file_wf_def by (auto simp: g_def)
  have st: "start_index g = start_index ?f" by (simp add: g_def)
  show "fs_wf bs w (set_file fs n g)"
    unfolding fs_wf_def set_file_simps
  proof (intro conjI ballI allI impI)
    show "distinct (files fs)" "data_offset fs \<le> vblocks w" using fs_wfD(1,2) [OF wf] by simp_all
    show "readable w p" if "p < data_offset fs * bs" for p using fs_wfD(3) [OF wf that] .
    fix m assume m: "m \<in> set (files fs)"
    let ?m = "if m = n then g else file_of fs m"
    show "file_wf bs ?m" using gw fs_wfD(4) [OF wf m] by simp
    show "start_index ?m + file_blocks bs ?m \<le> data_offset fs" if "0 < file_blocks bs ?m"
      using that fs_wfD(5) [OF wf m] fb st by (auto split: if_splits)
    show "solid w (file_addr bs ?m p)" if p: "f_size ?m \<le> p \<and> p div bs < div_up (f_size ?m) bs \<and> p div bs \<notin> holes_of ?m" for p
    proof (cases "m = n")
      case True
      then have "Suc T * bs \<le> p" "p div bs < Suc T" using p du(2) by (simp_all add: g_def)
      then show ?thesis using bs by (simp add: div_less_iff_less_mult)
    qed (use p fs_wfD(6) [OF wf m, of p] in simp)
    show "blocks_apart bs ?m (if l = n then g else file_of fs l)" if "l \<in> set (files fs)" "l \<noteq> m" for l
      using fs_wfD(7) [OF wf m that] fb st by (auto simp: blocks_apart_def)
  qed
  show "file_byte bs w g (T * bs + j) = file_byte bs w ?f (Suc T * bs + j)" if "j < u" for j
  proof -
    have "(T * bs + j) div bs = T" "(Suc T * bs + j) div bs = Suc T" "(T * bs + j) mod bs = j" "(Suc T * bs + j) mod bs = j"
      using that f(5) by (simp_all only: div_mult_self3 mod_mult_self3) (simp_all add: bs)
    moreover have "T * bs + j < f_size g" "Suc T * bs + j < f_size ?f" using that f(3,5) by (simp_all add: g_def)
    ultimately show ?thesis using H below by (simp add: file_byte_def file_addr_def st)
  qed
  show "file_byte bs w g p = file_byte bs w ?f p" if "p < T * bs" for p
  proof -
    have T: "p div bs < T" using that bs by (simp add: div_less_iff_less_mult)
    have "stored_before (holes_of g) (p div bs) = stored_before (holes_of ?f) (p div bs)"
      by (rule stored_before_cong) (use T in \<open>auto simp: H(1)\<close>)
    moreover have "p < f_size g" "p < f_size ?f" using that f(3) by (simp_all add: g_def)
    ultimately show ?thesis using T H(1) by (simp add: file_byte_def file_addr_def st)
  qed
  show "file_byte bs w ?f (T * bs + j) = 0" if "j < u" for j
  proof -
    have "(T * bs + j) div bs = T" using that f(5) by (simp only: div_mult_self3) (simp add: bs)
    then show ?thesis using H(2) by (simp add: file_byte_def)
  qed
qed

context volume
begin

lemma append_behind_hole:
  assumes v: "inv (fs_volume fs)" and wf: "fs_wf bs (view (fs_volume fs)) fs" and n: "n \<in> set (files fs)"
    and f: "sparse (file_of fs n) = pre @ [h]" "h_index h + h_count h = Suc T" "f_size (file_of fs n) = Suc T * bs + u" "0 < u" "u < bs"
    and d: "length d = bs - u" "\<not> (\<forall>i<bs - u. d ! i = 0)"
    and lim: "Suc (Suc T) * bs < 2 ^ 63"
    and room: "data_offset fs + file_blocks bs (file_of fs n) + 1 \<le> vblocks (view (fs_volume fs))"
  shows "\<exists>fs'. fstree_file_append vol True fs n (Some d) (bs - u) = (Some (), fs') \<and> inv (fs_volume fs') \<and>
    fs_wf bs (view (fs_volume fs')) fs' \<and> files fs' = files fs \<and> f_size (file_of fs' n) = Suc (Suc T) * bs \<and>
    (\<forall>p<T * bs. file_byte bs (view (fs_volume fs')) (file_of fs' n) p = file_byte bs (view (fs_volume fs)) (file_of fs n) p) \<and>
    (\<forall>j<u. file_byte bs (view (fs_volume fs')) (file_of fs' n) (T * bs + j) =
       file_byte bs (view (fs_volume fs)) (file_of fs n) (Suc T * bs + j)) \<and>
    (\<forall>j<bs. file_byte bs (view (fs_volume fs')) (file_of fs' n) (Suc T * bs + j) = (zeros u @ d) ! j)"
proof -
  from move_to_end_ok [OF v wf n] room obtain fs1 where
    m: "fstree_file_move_to_end vol fs n = (Some (), fs1)" "inv (fs_volume fs1)" "fs_wf bs (view (fs_volume fs1)) fs1"
      "relocated bs (view (fs_volume fs)) fs (view (fs_volume fs1)) fs1"
      "start_index (file_of fs1 n) + file_blocks bs (file_of fs1 n) = data_offset fs1" by auto
  let ?w1 = "view (fs_volume fs1)" and ?D = "data_offset fs1"
  have rel: "vblocks ?w1 = vblocks (view (fs_volume fs))" "files fs1 = files fs" "?D = data_offset fs" "no_sparse fs1 = no_sparse fs"
    "f_size (file_of fs1 n) = f_size (file_of fs n)" "sparse (file_of fs1 n) = sparse (file_of fs n)"
    "file_byte bs ?w1 (file_of fs1 n) = file_byte bs (view (fs_volume fs)) (file_of fs n)"
    using m(4) n by (simp_all add: relocated_def)
  have n1: "n \<in> set (files fs1)" using n rel by simp
  define g where "g = (file_of fs1 n)\<lparr>f_size := Suc T * bs, sparse := pre @ shrunk_hole h\<rparr>"
  note G = tail_becomes_hole_block [OF m(3) n1, of pre h T u, folded g_def, unfolded rel(5,6), OF f]
  have D: "?D < vblocks ?w1" using room rel by simp
  have D1: "add64 ?D 1 = ?D + 1"
  proof -
    have "?D * bs + 0 < capacity (fs_volume fs1)" using D bs_pos [OF v] by simp
    then show ?thesis by (rule next_block [OF m(2)])
  qed
  from write_partial [OF m(2) D, of 0 u None] f(4,5) obtain v1 where
    v1: "write_partial_block vol (fs_volume fs1) ?D None 0 u = (Some (), v1)" "inv v1"
      "wrote bs ?w1 (view v1) (?D * bs + 0) (zeros u)" by auto
  have "?D < vblocks (view v1)" using D wrote_blocks [OF v1(3)] by simp
  from write_partial [OF v1(2) this, of u "bs - u" "Some d"] f(4,5) d(1) obtain v2 where
    v2: "write_partial_block vol v1 ?D (Some d) u (bs - u) = (Some (), v2)" "inv v2"
      "wrote bs (view v1) (view v2) (?D * bs + u) d" by auto
  have kd: "(?D * bs + u) div bs * bs = ?D * bs" "?D * bs + u + length d = ?D * bs + bs" using f(5) d(1) by simp_all
  have ob: "only_block bs ?D ?w1 (view v2)"
  proof (rule only_block_trans)
    show "only_block bs ?D ?w1 (view v1)" using f(4,5) by (intro wrote_only_block [OF v1(3)]) (auto simp: zeros_def)
    show "only_block bs ?D (view v1) (view v2)" using f(5) d(1) by (intro wrote_only_block [OF v2(3)]) auto
  qed
  have rd: "readable (view v2) (?D * bs + j)" if "j < bs" for j
    using wrote_readable [OF v2(3), of "?D * bs + j"] that unfolding kd by simp
  have ct: "content (view v2) (?D * bs + j) = (zeros u @ d) ! j" if "j < bs" for j
    using that d(1) by (auto simp: wrote_content [OF v2(3)] wrote_content [OF v1(3)] poke_def nth_append)
  let ?X = "(set_file fs1 n g)\<lparr>fs_volume := v2, data_offset := ?D + 1\<rparr>"
  have len: "length (zeros u @ d) = bs" using f(5) d(1) by simp
  have A: "fs_wf bs (view v2) (set_file ?X n (g\<lparr>f_size := f_size g + bs\<rparr>)) \<and>
      appended bs ?w1 (set_file fs1 n g) (view v2) (set_file ?X n (g\<lparr>f_size := f_size g + bs\<rparr>)) n (zeros u @ d)"
    using append_new_block [OF G(1), of n "Suc T" "zeros u @ d" "view v2" ?X, unfolded len] n1 f(5) lim m(5) G(2) D ob rd ct
    by (simp add: g_def add.assoc)
  have c: "u32 (h_count h + (2 ^ 32 - 1)) = h_count h - 1"
  proof -
    have "holes_from 0 (pre @ [h])" using file_wfD(3) [OF fs_wfD(4) [OF wf n]] f(1) by simp
    then have "0 < h_count h" "h_count h < 2 ^ 32" using holes_from_last [of 0 pre h] by auto
    then have "h_count h + (2 ^ 32 - 1) = (h_count h - 1) + 2 ^ 32" by simp
    then show ?thesis using \<open>h_count h < 2 ^ 32\<close> by (simp only: u32_def mod_add_self2) simp
  qed
  have sh: "(if h_count h - 1 = 0 then [] else [h\<lparr>h_count := h_count h - 1\<rparr>]) = shrunk_hole h"
    using holes_from_last [of 0 pre h] file_wfD(3) [OF fs_wfD(4) [OF wf n]] f(1) by (auto simp: shrunk_hole_def)
  obtain r where sk: "skip_holes (sparse (file_of fs n)) (Suc T) (add64 (start_index (file_of fs n)) (Suc T)) = (pre, r, [h])"
    using skip_to_last_hole [of pre h "Suc T"] last_hole_above [of 0 pre h] file_wfD(3) [OF fs_wfD(4) [OF wf n]] f(1,2) by auto
  have T1: "f_size (file_of fs n) div bs = Suc T" unfolding f(3) by (rule div_block) (use f(5) in simp_all)
  have T2: "f_size (file_of fs n) mod bs = u" unfolding f(3) using f(5) by (simp only: mod_mult_self3 mod_less)
  note T = T1 T2
  let ?R = "(set_file (fs1\<lparr>fs_volume := v1, data_offset := ?D + 1\<rparr>) n ((file_of fs1 n)\<lparr>sparse := pre @ shrunk_hole h\<rparr>))\<lparr>fs_volume := v2\<rparr>"
  have tail: "append_to_tail vol fs n (Suc T) u (Some d) (bs - u) = (Some (), ?R)"
  proof -
    have nz: "(Some d = None \<or> buffer_is_zero (the (Some d)) (bs - u)) = False" using d(2) by (simp add: buffer_is_zero_iff)
    show ?thesis
      unfolding append_to_tail_def sk prod.case list.case nz if_False m(1) option.case v1(1) Let_def c D1 sh by (simp add: v2(1))
  qed
  have sz: "add64 (f_size (file_of fs1 n)) (bs - u) = f_size g + bs"
    using f(3,5) rel(5) lim by (simp add: g_def add64_exact)
  have "set_file ?R n ((file_of ?R n)\<lparr>f_size := f_size g + bs\<rparr>) = set_file ?X n (g\<lparr>f_size := f_size g + bs\<rparr>)"
    by (simp add: set_file_def g_def)
  then have run: "fstree_file_append vol True fs n (Some d) (bs - u) = (Some (), set_file ?X n (g\<lparr>f_size := f_size g + bs\<rparr>))"
    using f(4,5) d(1) tail sz unfolding fstree_file_append_def T
    by (simp add: append_loop.simps [of _ _ fs] append_loop.simps [of _ _ _ _ _ _ _ 0] append_chunk_def Let_def)
  have gs: "f_size g = Suc T * bs" by (simp add: g_def)
  have "\<forall>p. file_byte bs (view v2) (file_of (set_file ?X n (g\<lparr>f_size := f_size g + bs\<rparr>)) n) p =
      poke (file_byte bs ?w1 (file_of (set_file fs1 n g) n)) (f_size (file_of (set_file fs1 n g) n)) (zeros u @ d) p"
    using conjunct2 [OF A] unfolding appended_def by blast
  then have byte: "file_byte bs (view v2) (g\<lparr>f_size := f_size g + bs\<rparr>) p = poke (file_byte bs ?w1 g) (Suc T * bs) (zeros u @ d) p" for p
    by (simp add: gs del: mult_Suc)
  let ?F = "set_file ?X n (g\<lparr>f_size := f_size g + bs\<rparr>)"
  have old: "file_byte bs (view (fs_volume ?F)) (file_of ?F n) p = file_byte bs ?w1 g p" if "p < Suc T * bs" for p
    using that byte [of p] by (simp add: poke_def del: mult_Suc)
  have new: "file_byte bs (view (fs_volume ?F)) (file_of ?F n) (Suc T * bs + j) = (zeros u @ d) ! j" if "j < bs" for j
    using that byte [of "Suc T * bs + j"] len by (simp add: poke_def del: mult_Suc length_append)
  have lo: "p < Suc T * bs" if "p < T * bs" for p using that by simp
  have mid: "T * bs + j < Suc T * bs" if "j < u" for j using that f(5) by simp
  show ?thesis
  proof (intro exI [of _ ?F] conjI allI impI)
    show "fs_wf bs (view (fs_volume ?F)) ?F" using conjunct1 [OF A] by simp
    show "f_size (file_of ?F n) = Suc (Suc T) * bs" by (simp add: gs)
    fix j assume "j < bs"
    then show "file_byte bs (view (fs_volume ?F)) (file_of ?F n) (Suc T * bs + j) = (zeros u @ d) ! j" by (rule new)
  next
    fix p assume p: "p < T * bs"
    show "file_byte bs (view (fs_volume ?F)) (file_of ?F n) p = file_byte bs (view (fs_volume fs)) (file_of fs n) p"
      unfolding old [OF lo [OF p]] G(4) [OF p] rel(7) by (rule refl)
  next
    fix j assume j: "j < u"
    show "file_byte bs (view (fs_volume ?F)) (file_of ?F n) (T * bs + j) = file_byte bs (view (fs_volume fs)) (file_of fs n) (Suc T * bs + j)"
      unfolding old [OF mid [OF j]] G(3) [OF j] rel(7) by (rule refl)
  qed (use run v2(2) rel in simp_all)
qed

end

section \<open>Appending behind a hole\<close>

lemma peek_eqI: "(\<And>j. j < k \<Longrightarrow> f (a + j) = g (b + j)) \<Longrightarrow> peek f a k = peek g b k"
  by (intro nth_equalityI) simp_all

text \<open>C40: an append corrupts a file whose partial tail block directly follows a hole. In every such file on a file volume,
  data that are not all zero and fill up the tail block are appended with success; but afterwards the bytes that the tail
  block had before read as zero, and what the tail was is found one block earlier, where the file had zeros.\<close>

theorem append_behind_hole_corrupts:
  assumes "fv_inv env bs (fs_volume fs)" "fs_wf bs (fv_view bs (fs_volume fs)) fs" "n \<in> set (files fs)"
    "sparse (file_of fs n) = pre @ [h]" "h_index h + h_count h = Suc T"
    "f_size (file_of fs n) = Suc T * bs + u" "0 < u" "u < bs" "length d = bs - u" "\<exists>x\<in>set d. x \<noteq> 0"
    "Suc (Suc T) * bs < 2 ^ 63" "data_offset fs + file_blocks bs (file_of fs n) + 1 \<le> max_block_count (fs_volume fs)"
  shows "\<exists>tail fs'. fst (fstree_file_read (file_volume_ops env bs) fs n (T * bs) u) = Some (zeros u) \<and>
    fst (fstree_file_read (file_volume_ops env bs) fs n (Suc T * bs) u) = Some tail \<and>
    fstree_file_append (file_volume_ops env bs) True fs n (Some d) (length d) = (Some (), fs') \<and>
    fst (fstree_file_read (file_volume_ops env bs) fs' n (T * bs) u) = Some tail \<and>
    fst (fstree_file_read (file_volume_ops env bs) fs' n (Suc T * bs) bs) = Some (zeros u @ d)"
proof -
  let ?ops = "file_volume_ops env bs"
  let ?b = "\<lambda>fs. file_byte bs (fv_view bs (fs_volume fs)) (file_of fs n)"
  have bs: "blocksize ?ops = bs" by (simp add: file_volume_ops_def)
  have nz: "\<not> (\<forall>i<bs - u. d ! i = 0)" using assms(9,10) by (metis in_set_conv_nth)
  from fv.append_behind_hole [of env bs fs n pre h T u d, unfolded bs] assms nz obtain fs' where
    a: "fstree_file_append ?ops True fs n (Some d) (bs - u) = (Some (), fs')" "fv_inv env bs (fs_volume fs')"
      "fs_wf bs (fv_view bs (fs_volume fs')) fs'" "files fs' = files fs"
    and b: "\<And>j. j < u \<Longrightarrow> ?b fs' (T * bs + j) = ?b fs (Suc T * bs + j)" "\<And>j. j < bs \<Longrightarrow> ?b fs' (Suc T * bs + j) = (zeros u @ d) ! j"
    by (auto simp del: mult_Suc)
  have rd: "fst (fstree_file_read ?ops fs n off k) = Some (peek (?b fs) off k)" "fst (fstree_file_read ?ops fs' n off k) = Some (peek (?b fs') off k)" for off k
    using fv.file_read_ok [of env bs fs n off k, unfolded bs] fv.file_read_ok [of env bs fs' n off k, unfolded bs] assms(1-3) a(2-4) by auto
  have "peek (?b fs) (T * bs) u = zeros u"
    using tail_becomes_hole_block(5) [OF assms(2-8)] by (intro nth_equalityI) simp_all
  moreover have "peek (?b fs') (T * bs) u = peek (?b fs) (Suc T * bs) u" by (rule peek_eqI) (rule b(1))
  moreover have "peek (?b fs') (Suc T * bs) bs = zeros u @ d"
    using b(2) assms(8,9) by (intro nth_equalityI) (simp_all del: mult_Suc)
  ultimately show ?thesis using a(1) rd assms(9) by auto
qed

text \<open>A file with the contents 0, 0, 0, 0, 1, 2 in blocks of four bytes: block 0 is a hole and block 1 is stored.\<close>

definition tail_after_hole :: "file_volume fstree" where
  "tail_after_hole = demo_tree\<lparr>
     fs_volume := \<lparr>fd = \<lparr>fbytes = [1, 2, 0, 0], sched = []\<rparr>, bitmap = \<lparr>words = [1, 0]\<rparr>, bytes_used = 4,
       min_block_count = 0, max_block_count = 4\<rparr>,
     data_offset := 1,
     nodes := (\<lambda>_. blank_node)(1 := blank_node\<lparr>n_file :=
       \<lparr>f_size = 6, start_index = 0, sparse = [\<lparr>h_index = 0, h_count = 1\<rparr>]\<rparr>\<rparr>)\<rparr>"

lemma tail_after_hole_ok:
  "fv_inv demo_env 4 (fs_volume tail_after_hole)" "fs_wf 4 (fv_view 4 (fs_volume tail_after_hole)) tail_after_hole"
proof -
  have b: "bitmap_is_set \<lparr>words = [1, 0]\<rparr> i \<longleftrightarrow> i = 0" for i
    by (auto simp: bitmap_is_set_def word_count_def bit_mask_def Let_def nth_Cons' and_exp_eq_0_iff_not_bit bit_1_iff)
  show "fv_inv demo_env 4 (fs_volume tail_after_hole)"
    by (auto simp: fv_inv_def demo_env_def tail_after_hole_def benign_def bitmap_wf_def fbyte_def b nth_Cons')
  have v: "vblocks (fv_view 4 (fs_volume tail_after_hole)) = 4"
    "readable (fv_view 4 (fs_volume tail_after_hole)) p \<longleftrightarrow> p div 4 \<noteq> 0 \<or> p < 4" "solid (fv_view 4 (fs_volume tail_after_hole)) p \<longleftrightarrow> p div 4 = 0 \<and> p < 4" for p
    by (auto simp: fv_view_def tail_after_hole_def b)
  have s: "stored_before (hole_set \<lparr>h_index = 0, h_count = Suc 0\<rparr>) q = 0" if "q < Suc (Suc 0)" for q
    using that by (auto simp: less_Suc_eq)
  show "fs_wf 4 (fv_view 4 (fs_volume tail_after_hole)) tail_after_hole"
    unfolding fs_wf_def v
    by (auto simp: s tail_after_hole_def demo_tree_def blank_node_def file_wf_def file_blocks_def blocks_apart_def file_addr_def div_up_def)
qed

lemma tail_after_hole_read: "fst (fstree_file_read (file_volume_ops demo_env 4) tail_after_hole 1 4 2) = Some [1, 2]"
  by (simp add: tail_after_hole_def demo_tree_def blank_node_def fstree_file_read_def ft_read_loop.simps ft_read_partial_block_def
      fv_read_partial_block_def check_bounds_def bitmap_is_set_def word_count_def bit_mask_def read_retry.simps os_pread_def os_next_def
      file_volume_ops_def demo_env_def zeros_def add64_def sub64_def mul64_def Let_def)

theorem append_behind_hole_corrupts_witness:
  "fst (fstree_file_read (file_volume_ops demo_env 4) tail_after_hole 1 4 2) = Some [1, 2] \<and>
   (\<exists>fs'. fstree_file_append (file_volume_ops demo_env 4) True tail_after_hole 1 (Some [3, 4]) 2 = (Some (), fs') \<and>
     fst (fstree_file_read (file_volume_ops demo_env 4) fs' 1 0 2) = Some [1, 2] \<and>
     fst (fstree_file_read (file_volume_ops demo_env 4) fs' 1 4 4) = Some [0, 0, 3, 4])"
proof -
  have f: "file_of tail_after_hole 1 = \<lparr>f_size = 6, start_index = 0, sparse = [\<lparr>h_index = 0, h_count = 1\<rparr>]\<rparr>"
    "data_offset tail_after_hole = 1" "1 \<in> set (files tail_after_hole)" "max_block_count (fs_volume tail_after_hole) = 4"
    by (simp_all add: tail_after_hole_def demo_tree_def)
  have b: "file_blocks 4 (file_of tail_after_hole 1) \<le> 1"
    unfolding f by (simp add: file_blocks_def div_up_def)
  have "\<exists>tail fs'. fst (fstree_file_read (file_volume_ops demo_env 4) tail_after_hole 1 (0 * 4) 2) = Some (zeros 2) \<and>
      fst (fstree_file_read (file_volume_ops demo_env 4) tail_after_hole 1 (Suc 0 * 4) 2) = Some tail \<and>
      fstree_file_append (file_volume_ops demo_env 4) True tail_after_hole 1 (Some [3, 4]) (length [3, 4 :: byte]) = (Some (), fs') \<and>
      fst (fstree_file_read (file_volume_ops demo_env 4) fs' 1 (0 * 4) 2) = Some tail \<and>
      fst (fstree_file_read (file_volume_ops demo_env 4) fs' 1 (Suc 0 * 4) 4) = Some (zeros 2 @ [3, 4])"
    by (rule append_behind_hole_corrupts [OF tail_after_hole_ok f(3), of "[]" "\<lparr>h_index = 0, h_count = 1\<rparr>" 0 2 "[3, 4]"]) (use b in \<open>simp_all add: f f(1) [unfolded One_nat_def]\<close>)
  then show ?thesis using tail_after_hole_read by (auto simp: zeros_def numeral_2_eq_2)
qed

end
