(* ===== verification/Adapter.thy ===== *)
theory Adapter
  imports FileVolume FsTree
begin

text \<open>
  Volumes on top of other storage: \<open>lib/image/basic/blocksize_adapter.c\<close>, which shows a volume with a
  different block size and a byte offset, and \<open>lib/filesystem/fstree/file_volume.c\<close>, which shows a file
  of the file system tree as a volume.

  The adapter has no state besides the wrapped volume, so its operations work on the state of the
  wrapped volume; the state of the file based volume is the tree. The adapter is proved correct
  over every volume that keeps the contract \<open>volume\<close>.
\<close>

section \<open>The block size adapter\<close>

definition MAX_U64 :: nat where
  "MAX_U64 = 2 ^ 64 - 1"

definition conv_blk_count :: "'v volume \<Rightarrow> nat \<Rightarrow> nat \<Rightarrow> nat \<Rightarrow> nat" where
  "conv_blk_count vol bsz offset count =
     (let bytes = (if max64 \<le> count * blocksize vol then MAX_U64 else count * blocksize vol)
      in if bytes < offset then 0 else (bytes - offset) div bsz)"

definition adapter_get_min_block_count :: "'v volume \<Rightarrow> nat \<Rightarrow> nat \<Rightarrow> 'v \<Rightarrow> nat" where
  "adapter_get_min_block_count vol bsz offset v = conv_blk_count vol bsz offset (get_min_block_count vol v)"

definition adapter_get_max_block_count :: "'v volume \<Rightarrow> nat \<Rightarrow> nat \<Rightarrow> 'v \<Rightarrow> nat" where
  "adapter_get_max_block_count vol bsz offset v = conv_blk_count vol bsz offset (get_max_block_count vol v)"

definition adapter_get_block_count :: "'v volume \<Rightarrow> nat \<Rightarrow> nat \<Rightarrow> 'v \<Rightarrow> nat" where
  "adapter_get_block_count vol bsz offset v = conv_blk_count vol bsz offset (get_block_count vol v)"

definition adapter_truncate :: "'v volume \<Rightarrow> nat \<Rightarrow> nat \<Rightarrow> 'v \<Rightarrow> nat \<Rightarrow> (unit, 'v) io" where
  "adapter_truncate vol bsz offset v sz =
     (let count = div_up sz bsz
      in if count \<le> adapter_get_min_block_count vol bsz offset v then (Some (), v)
         else let sz1 = (if max64 \<le> count * blocksize vol then MAX_U64 else count * blocksize vol);
                  sz2 = (if max64 \<le> sz1 + offset then MAX_U64 else sz1 + offset)
              in vol_truncate vol v sz2)"

definition adapter_check_bounds :: "'v volume \<Rightarrow> nat \<Rightarrow> nat \<Rightarrow> 'v \<Rightarrow> nat \<Rightarrow> nat \<Rightarrow> nat \<Rightarrow> bool" where
  "adapter_check_bounds vol bsz offset v index blk_offset sz \<longleftrightarrow>
     \<not> (adapter_get_max_block_count vol bsz offset v \<le> index \<or> bsz < blk_offset \<or> bsz - blk_offset < sz)"

definition adapter_read_partial_block ::
  "'v volume \<Rightarrow> nat \<Rightarrow> nat \<Rightarrow> 'v \<Rightarrow> nat \<Rightarrow> nat \<Rightarrow> nat \<Rightarrow> (byte list, 'v) io" where
  "adapter_read_partial_block vol bsz offset v index blk_offset sz =
     (if \<not> adapter_check_bounds vol bsz offset v index blk_offset sz then (None, v)
      else volume_read vol v (add64 (add64 offset (mul64 index bsz)) blk_offset) sz)"

definition adapter_write_partial_block ::
  "'v volume \<Rightarrow> nat \<Rightarrow> nat \<Rightarrow> 'v \<Rightarrow> nat \<Rightarrow> byte list option \<Rightarrow> nat \<Rightarrow> nat \<Rightarrow> (unit, 'v) io" where
  "adapter_write_partial_block vol bsz offset v index buffer blk_offset sz =
     (if \<not> adapter_check_bounds vol bsz offset v index blk_offset sz then (None, v)
      else volume_write vol v (add64 (add64 offset (mul64 index bsz)) blk_offset) buffer sz)"

definition adapter_discard_blocks :: "'v volume \<Rightarrow> nat \<Rightarrow> nat \<Rightarrow> 'v \<Rightarrow> nat \<Rightarrow> nat \<Rightarrow> (unit, 'v) io" where
  "adapter_discard_blocks vol bsz offset v index count0 =
     (let mx = adapter_get_max_block_count vol bsz offset v
      in if mx \<le> index then (Some (), v)
         else let count = (if mx - index < count0 then mx - index else count0)
              in volume_write vol v (add64 offset (mul64 index bsz)) None (mul64 count bsz))"

definition adapter_move_block :: "'v volume \<Rightarrow> nat \<Rightarrow> nat \<Rightarrow> 'v \<Rightarrow> nat \<Rightarrow> nat \<Rightarrow> (unit, 'v) io" where
  "adapter_move_block vol bsz offset v src dst =
     volume_memmove vol v (add64 offset (mul64 dst bsz)) (add64 offset (mul64 src bsz)) bsz"

text \<open>The \<open>size_t\<close> arguments are passed on as \<open>uint32_t\<close>.\<close>

definition adapter_move_block_partial ::
  "'v volume \<Rightarrow> nat \<Rightarrow> nat \<Rightarrow> 'v \<Rightarrow> nat \<Rightarrow> nat \<Rightarrow> nat \<Rightarrow> nat \<Rightarrow> nat \<Rightarrow> (unit, 'v) io" where
  "adapter_move_block_partial vol bsz offset v src dst src_offset dst_offset sz =
     (case adapter_read_partial_block vol bsz offset v src (u32 src_offset) (u32 sz) of
        (None, v1) \<Rightarrow> (None, v1)
      | (Some d, v1) \<Rightarrow> adapter_write_partial_block vol bsz offset v1 dst (Some d) (u32 dst_offset) (u32 sz))"

definition volume_blocksize_adapter_create :: "'v volume \<Rightarrow> nat \<Rightarrow> nat \<Rightarrow> 'v volume" where
  "volume_blocksize_adapter_create vol bsz offset =
     \<lparr>blocksize = bsz,
      get_min_block_count = adapter_get_min_block_count vol bsz offset,
      get_max_block_count = adapter_get_max_block_count vol bsz offset,
      get_block_count = adapter_get_block_count vol bsz offset,
      vol_truncate = adapter_truncate vol bsz offset,
      read_block = (\<lambda>v i. adapter_read_partial_block vol bsz offset v i 0 bsz),
      read_partial_block = adapter_read_partial_block vol bsz offset,
      write_block = (\<lambda>v i b. adapter_write_partial_block vol bsz offset v i b 0 bsz),
      write_partial_block = adapter_write_partial_block vol bsz offset,
      move_block = adapter_move_block vol bsz offset,
      move_block_partial = adapter_move_block_partial vol bsz offset,
      discard_blocks = adapter_discard_blocks vol bsz offset,
      vol_commit = vol_commit vol\<rparr>"

section \<open>A file of the tree as a volume\<close>

text \<open>The file \<open>n\<close> of a tree over the volume \<open>vol\<close>; \<open>mem\<close> as in \<open>FsTree\<close>.\<close>

record fsvol =
  fsvol_node :: nat
  fsvol_blocksize :: nat
  fsvol_max_block_count :: nat
  fsvol_min_block_count :: nat

definition fsvol_check_bounds :: "fsvol \<Rightarrow> nat \<Rightarrow> nat \<Rightarrow> nat \<Rightarrow> bool" where
  "fsvol_check_bounds s index blk_offset sz \<longleftrightarrow>
     \<not> (fsvol_max_block_count s \<le> index \<or> fsvol_blocksize s < blk_offset \<or> fsvol_blocksize s - blk_offset < sz)"

definition fsvol_read_partial_block ::
  "'v volume \<Rightarrow> fsvol \<Rightarrow> 'v fstree \<Rightarrow> nat \<Rightarrow> nat \<Rightarrow> nat \<Rightarrow> (byte list, 'v fstree) io" where
  "fsvol_read_partial_block vol s fs index offset sz =
     (if \<not> fsvol_check_bounds s index offset sz then (None, fs)
      else fstree_file_read vol fs (fsvol_node s) (add64 (mul64 index (fsvol_blocksize s)) offset) sz)"

definition fsvol_write_partial_block ::
  "'v volume \<Rightarrow> bool \<Rightarrow> fsvol \<Rightarrow> 'v fstree \<Rightarrow> nat \<Rightarrow> byte list option \<Rightarrow> nat \<Rightarrow> nat \<Rightarrow> (unit, 'v fstree) io" where
  "fsvol_write_partial_block vol mem s fs index buffer offset sz =
     (if \<not> fsvol_check_bounds s index offset sz then (None, fs)
      else fstree_file_write vol mem fs (fsvol_node s) (add64 (mul64 index (fsvol_blocksize s)) offset) buffer sz)"

definition fsvol_get_block_count :: "fsvol \<Rightarrow> 'v fstree \<Rightarrow> nat" where
  "fsvol_get_block_count s fs = div_up (f_size (file_of fs (fsvol_node s))) (fsvol_blocksize s)"

definition fsvol_discard_blocks ::
  "'v volume \<Rightarrow> bool \<Rightarrow> fsvol \<Rightarrow> 'v fstree \<Rightarrow> nat \<Rightarrow> nat \<Rightarrow> (unit, 'v fstree) io" where
  "fsvol_discard_blocks vol mem s fs index count =
     (let blk_count = fsvol_get_block_count s fs; bs = fsvol_blocksize s
      in if blk_count \<le> index then (Some (), fs)
         else if count < blk_count - index
         then fstree_file_write vol mem fs (fsvol_node s) (mul64 index bs) None (mul64 count bs)
         else case fstree_file_truncate vol mem fs (fsvol_node s) (mul64 index bs) of
             (None, fs1) \<Rightarrow> (None, fs1)
           | (Some _, fs1) \<Rightarrow>
               (if index < fsvol_min_block_count s
                then fstree_file_truncate vol mem fs1 (fsvol_node s) (mul64 (fsvol_min_block_count s) bs)
                else (Some (), fs1)))"

definition fsvol_move_block ::
  "'v volume \<Rightarrow> bool \<Rightarrow> fsvol \<Rightarrow> 'v fstree \<Rightarrow> nat \<Rightarrow> nat \<Rightarrow> (unit, 'v fstree) io" where
  "fsvol_move_block vol mem s fs src dst =
     (case fsvol_read_partial_block vol s fs src 0 (fsvol_blocksize s) of
        (None, fs1) \<Rightarrow> (None, fs1)
      | (Some d, fs1) \<Rightarrow> fsvol_write_partial_block vol mem s fs1 dst (Some d) 0 (fsvol_blocksize s))"

definition fsvol_move_block_partial ::
  "'v volume \<Rightarrow> bool \<Rightarrow> fsvol \<Rightarrow> 'v fstree \<Rightarrow> nat \<Rightarrow> nat \<Rightarrow> nat \<Rightarrow> nat \<Rightarrow> nat \<Rightarrow> (unit, 'v fstree) io" where
  "fsvol_move_block_partial vol mem s fs src dst src_offset dst_offset sz =
     (case fsvol_read_partial_block vol s fs src (u32 src_offset) (u32 sz) of
        (None, fs1) \<Rightarrow> (None, fs1)
      | (Some d, fs1) \<Rightarrow> fsvol_write_partial_block vol mem s fs1 dst (Some d) (u32 dst_offset) (u32 sz))"

definition fsvol_truncate :: "'v volume \<Rightarrow> bool \<Rightarrow> fsvol \<Rightarrow> 'v fstree \<Rightarrow> nat \<Rightarrow> (unit, 'v fstree) io" where
  "fsvol_truncate vol mem s fs sz =
     (let count = div_up sz (fsvol_blocksize s)
      in if count \<le> fsvol_min_block_count s then (Some (), fs)
         else if fsvol_max_block_count s < count then (None, fs)
         else fstree_file_truncate vol mem fs (fsvol_node s) sz)"

definition fsvol_ops :: "'v volume \<Rightarrow> bool \<Rightarrow> fsvol \<Rightarrow> 'v fstree volume" where
  "fsvol_ops vol mem s =
     \<lparr>blocksize = fsvol_blocksize s,
      get_min_block_count = (\<lambda>_. fsvol_min_block_count s),
      get_max_block_count = (\<lambda>_. fsvol_max_block_count s),
      get_block_count = fsvol_get_block_count s,
      vol_truncate = fsvol_truncate vol mem s,
      read_block = (\<lambda>fs i. fsvol_read_partial_block vol s fs i 0 (fsvol_blocksize s)),
      read_partial_block = fsvol_read_partial_block vol s,
      write_block = (\<lambda>fs i b. fsvol_write_partial_block vol mem s fs i b 0 (fsvol_blocksize s)),
      write_partial_block = fsvol_write_partial_block vol mem s,
      move_block = fsvol_move_block vol mem s,
      move_block_partial = fsvol_move_block_partial vol mem s,
      discard_blocks = fsvol_discard_blocks vol mem s,
      vol_commit = (\<lambda>fs. (Some (), fs))\<rparr>"

definition fstree_file_volume_create ::
  "'v volume \<Rightarrow> bool \<Rightarrow> 'v fstree \<Rightarrow> nat \<Rightarrow> nat \<Rightarrow> nat \<Rightarrow> nat \<Rightarrow> (fsvol, 'v fstree) io" where
  "fstree_file_volume_create vol mem fs n bsz min_sz max_sz =
     (let s = \<lparr>fsvol_node = n, fsvol_blocksize = bsz, fsvol_max_block_count = max_sz div bsz,
               fsvol_min_block_count = div_up min_sz bsz\<rparr>;
          blk_used = div_up (f_size (file_of fs n)) bsz
      in if 0 < fsvol_min_block_count s \<and> blk_used < fsvol_min_block_count s
         then (case fstree_file_truncate vol mem fs n (mul64 (fsvol_min_block_count s) bsz) of
                 (None, fs1) \<Rightarrow> (None, fs1)
               | (Some _, fs1) \<Rightarrow> (Some s, fs1))
         else (Some s, fs))"

section \<open>Correctness of the adapter\<close>

context volume
begin

lemma adapter_range:
  assumes v: "inv v" and chk: "adapter_check_bounds vol bsz offset v i off n" and b: "0 < bsz"
  shows "add64 (add64 offset (mul64 i bsz)) off = offset + i * bsz + off"
    and "offset + i * bsz + off + n \<le> capacity v"
proof -
  have c: "capacity v < max64" by (rule capacity_less [OF v])
  have i: "i < (capacity v - offset) div bsz" "offset \<le> capacity v" and n: "off + n \<le> bsz"
    using chk c by (auto simp: adapter_check_bounds_def adapter_get_max_block_count_def conv_blk_count_def
        max_blocks [OF v] Let_def split: if_splits)
  have "(i + 1) * bsz \<le> capacity v - offset"
    using i(1) mult_le_mono1 [of "i + 1" "(capacity v - offset) div bsz" bsz] div_times_less_eq_dividend [of "capacity v - offset" bsz]
    by linarith
  then show le: "offset + i * bsz + off + n \<le> capacity v" using n i(2) by simp
  then have "offset + i * bsz + off < max64" using c by linarith
  then show "add64 (add64 offset (mul64 i bsz)) off = offset + i * bsz + off"
    by (simp add: add64_def mul64_def)
qed

text \<open>A block of the adapter is the byte range of the wrapped volume that it stands for.\<close>

lemma adapter_write_ok:
  assumes "inv v" "adapter_check_bounds vol bsz offset v i off n" "0 < bsz" "0 < n" "valid_buf data n"
  shows "\<exists>v'. adapter_write_partial_block vol bsz offset v i data off n = (Some (), v') \<and> inv v' \<and>
    wrote bs (view v) (view v') (offset + i * bsz + off) (buf_bytes data n)"
  using write_correct [OF assms(1) adapter_range(2) [OF assms(1-3)] assms(4,5)] assms(2)
  by (simp add: adapter_write_partial_block_def adapter_range(1) [OF assms(1-3)])

lemma adapter_read_ok:
  assumes "inv v" "adapter_check_bounds vol bsz offset v i off n" "0 < bsz"
    "(offset + i * bsz + off) mod bs = 0 \<or> readable (view v) (offset + i * bsz + off)"
  shows "\<exists>v'. adapter_read_partial_block vol bsz offset v i off n =
      (Some (peek (content (view v)) (offset + i * bsz + off) n), v') \<and> inv v' \<and> view v' = view v"
  using read_correct [OF assms(1) adapter_range(2) [OF assms(1-3)] assms(4)] assms(2)
  by (simp add: adapter_read_partial_block_def adapter_range(1) [OF assms(1-3)])

lemma adapter_out_of_range:
  "\<not> adapter_check_bounds vol bsz offset v i off n \<Longrightarrow>
     adapter_read_partial_block vol bsz offset v i off n = (None, v) \<and>
     adapter_write_partial_block vol bsz offset v i data off n = (None, v)"
  by (simp add: adapter_read_partial_block_def adapter_write_partial_block_def)

lemma adapter_write_read:
  assumes v: "inv v" and b: "adapter_check_bounds vol bsz offset v i off (length d)" "0 < bsz" "d \<noteq> []"
  shows "\<exists>v1 v2. adapter_write_partial_block vol bsz offset v i (Some d) off (length d) = (Some (), v1) \<and>
    content (view v1) = poke (content (view v)) (offset + i * bsz + off) d \<and>
    adapter_read_partial_block vol bsz offset v1 i off (length d) = (Some d, v2) \<and> inv v2"
proof -
  from adapter_write_ok [OF v b(1,2), of "Some d"] b(3) obtain v1 where
    v1: "adapter_write_partial_block vol bsz offset v i (Some d) off (length d) = (Some (), v1)" "inv v1"
      "wrote bs (view v) (view v1) (offset + i * bsz + off) d" by auto
  have chk: "adapter_check_bounds vol bsz offset v1 i off (length d)"
    using b(1) wrote_blocks [OF v1(3)]
    by (simp add: adapter_check_bounds_def adapter_get_max_block_count_def max_blocks v v1(2))
  have "readable (view v1) (offset + i * bsz + off)"
    using wrote_readable [OF v1(3), of "offset + i * bsz + off"] b(3) by simp
  then show ?thesis
    using adapter_read_ok [OF v1(2) chk b(2)] v1(1,2) wrote_content [OF v1(3)] by auto
qed

end

text \<open>C5: on a block size adapter over a file volume, every access inside the adapter's bounds
  reaches exactly the bytes of the file it stands for, and what was written is read back.\<close>

theorem adapter_on_file_volume:
  assumes "fv_inv env bs v" "adapter_check_bounds (file_volume_ops env bs) bsz offset v i off (length d)" "0 < bsz" "d \<noteq> []"
  shows "\<exists>v1 v2. adapter_write_partial_block (file_volume_ops env bs) bsz offset v i (Some d) off (length d) = (Some (), v1) \<and>
    fbyte (fd v1) = poke (fbyte (fd v)) (offset + i * bsz + off) d \<and>
    adapter_read_partial_block (file_volume_ops env bs) bsz offset v1 i off (length d) = (Some d, v2) \<and> fv_inv env bs v2"
  using fv.adapter_write_read [OF assms] by simp

theorem adapter_on_file_volume_witness:
  "\<exists>v1 v2. adapter_write_partial_block (file_volume_ops demo_env 4) 6 1 demo_volume 1 (Some [7, 8]) 3 2 = (Some (), v1) \<and>
    fbyte (fd v1) = poke (fbyte (fd demo_volume)) 10 [7, 8] \<and>
    adapter_read_partial_block (file_volume_ops demo_env 4) 6 1 v1 1 3 2 = (Some [7, 8], v2) \<and> fv_inv demo_env 4 v2"
proof -
  have l: "length [7, 8 :: byte] = 2" by simp
  have "adapter_check_bounds (file_volume_ops demo_env 4) 6 1 demo_volume 1 3 (length [7, 8 :: byte])"
    by (simp add: adapter_check_bounds_def adapter_get_max_block_count_def conv_blk_count_def file_volume_ops_def
        demo_volume_def)
  from adapter_on_file_volume [OF demo_inv this] show ?thesis unfolding l by simp
qed

text \<open>Truncating through the adapter multiplies the number of adapter blocks with the block size of
  the wrapped volume. For a request of 8 adapter blocks of 512 bytes on a volume with blocks of 4096 bytes the
  wrapped volume is asked for 32768 bytes, not for 4096.\<close>

lemma adapter_truncate_size:
  assumes "blocksize vol = 4096" "get_min_block_count vol v = 0"
  shows "adapter_truncate vol 512 0 v 4096 = vol_truncate vol v 32768"
  using assms by (simp add: adapter_truncate_def adapter_get_min_block_count_def conv_blk_count_def div_up_def Let_def)

end
