(* ===== verification/Paths.thy ===== *)
theory Paths
  imports Prelude
begin

text \<open>
  \<open>lib/filesystem/fstree/canonicalize_path.c\<close>: the canonical form of a path.

  A C string is the list of its characters before the terminator. The source rewrites the
  buffer in place with a read and a write position; the write position never overtakes the
  read position, so the result is the list of the characters written.

  The meaning of a path is the list of its components between slashes; the function is shown to
  drop the empty components and the components ``.'' and nothing else.
\<close>

definition slash :: char where
  "slash = CHR ''/''"

definition dot :: char where
  "dot = CHR ''.''"

lemma slash_neq_dot [simp]: "slash \<noteq> dot" "dot \<noteq> slash"
  by (simp_all add: slash_def dot_def)

section \<open>Operations\<close>

text \<open>The second loop of \<open>normalize_slashes\<close>.\<close>

function squeeze :: "string \<Rightarrow> string" where
  "squeeze [] = []"
| "squeeze (c # cs) =
     (if c = slash
      then (case dropWhile (\<lambda>x. x = slash) cs of [] \<Rightarrow> [] | r # rs \<Rightarrow> slash # squeeze (r # rs))
      else c # squeeze cs)"
  by pat_completeness auto
termination
proof (relation "measure length", goal_cases)
  case (2 c cs r rs)
  then have "length (r # rs) \<le> length cs" by (metis length_dropWhile_le)
  then show ?case by simp
qed simp_all

definition normalize_slashes :: "string \<Rightarrow> string" where
  "normalize_slashes filename = squeeze (dropWhile (\<lambda>x. x = slash) filename)"

text \<open>The loop of \<open>fstree_canonicalize_path\<close>.\<close>

function drop_dots :: "string \<Rightarrow> string" where
  "drop_dots [] = []"
| "drop_dots (c # cs) =
     (if c = dot \<and> cs = [] then []
      else if c = dot \<and> hd cs = slash then drop_dots (tl cs)
      else takeWhile (\<lambda>x. x \<noteq> slash) (c # cs) @
        (case dropWhile (\<lambda>x. x \<noteq> slash) (c # cs) of [] \<Rightarrow> [] | s # rs \<Rightarrow> s # drop_dots rs))"
  by pat_completeness auto
termination
proof (relation "measure length", goal_cases)
  case (3 c cs s rs)
  then have "length (s # rs) \<le> length (c # cs)" by (metis length_dropWhile_le)
  then show ?case by simp
qed (auto simp: less_Suc_eq_le)

definition fstree_canonicalize_path :: "string \<Rightarrow> string" where
  "fstree_canonicalize_path path = normalize_slashes (drop_dots (normalize_slashes path))"

section \<open>Components\<close>

text \<open>The components of a path, empty ones included.\<close>

fun components :: "string \<Rightarrow> string list" where
  "components [] = [[]]"
| "components (c # cs) =
     (if c = slash then [] # components cs
      else case components cs of [] \<Rightarrow> [[c]] | x # xs \<Rightarrow> (c # x) # xs)"

definition names :: "string \<Rightarrow> string list" where
  "names p = filter (\<lambda>x. x \<noteq> []) (components p)"

definition proper :: "string \<Rightarrow> bool" where
  "proper x \<longleftrightarrow> x \<noteq> [] \<and> x \<noteq> [dot]"

fun join :: "string list \<Rightarrow> string" where
  "join [] = []"
| "join [x] = x"
| "join (x # y # xs) = x @ slash # join (y # xs)"

lemma components_ne [simp]: "components p \<noteq> []"
  by (induction p) (auto split: list.splits)

lemma components_append_slash: "components (p @ slash # q) = components p @ components q"
proof (induction p)
  case (Cons c p)
  then show ?case using components_ne [of p] by (cases "components p") auto
qed simp

lemma components_no_slash: "slash \<notin> set p \<Longrightarrow> components p = [p]"
  by (induction p) auto

lemma set_components: "x \<in> set (components p) \<Longrightarrow> slash \<notin> set x"
proof (induction p arbitrary: x)
  case (Cons c p)
  then show ?case using components_ne [of p] by (cases "components p") (auto split: if_splits)
qed simp

lemma join_components: "join (components p) = p"
proof (induction p)
  case (Cons c p)
  then show ?case using components_ne [of p] by (cases "components p"; cases "tl (components p)") auto
qed simp

lemma components_join: "xs \<noteq> [] \<Longrightarrow> (\<And>x. x \<in> set xs \<Longrightarrow> slash \<notin> set x) \<Longrightarrow> components (join xs) = xs"
  by (induction xs rule: join.induct) (auto simp: components_append_slash components_no_slash)

lemma names_append_slash: "names (p @ slash # q) = names p @ names q"
  by (simp add: names_def components_append_slash)

lemma names_Nil [simp]: "names [] = []"
  by (simp add: names_def)

lemma names_slash [simp]: "names (slash # q) = names q"
  using names_append_slash [of "[]" q] by simp

lemma names_dropWhile: "names (dropWhile (\<lambda>x. x = slash) p) = names p"
  by (induction p) auto

lemma names_join:
  assumes "\<And>x. x \<in> set xs \<Longrightarrow> slash \<notin> set x \<and> x \<noteq> []"
  shows "names (join xs) = xs"
proof (cases "xs = []")
  case False
  then show ?thesis using assms components_join [of xs] by (simp add: names_def filter_id_conv)
qed simp

text \<open>A path without superfluous slashes is the join of its names.\<close>

lemma squeeze_spec: "p = [] \<or> hd p \<noteq> slash \<Longrightarrow> squeeze p = join (names p)"
proof (induction "length p" arbitrary: p rule: less_induct)
  case less
  show ?case
  proof (cases p)
    case (Cons c cs)
    let ?a = "takeWhile (\<lambda>x. x \<noteq> slash) p" and ?b = "dropWhile (\<lambda>x. x \<noteq> slash) p"
    have c: "c \<noteq> slash" using less.prems Cons by simp
    have sq: "slash \<notin> set u \<Longrightarrow> squeeze (u @ v) = u @ squeeze v" for u v by (induction u) auto
    have a: "slash \<notin> set ?a" "?a \<noteq> []" using c Cons by (auto dest: set_takeWhileD)
    have pab: "p = ?a @ ?b" by simp
    show ?thesis
    proof (cases ?b)
      case Nil
      then have "slash \<notin> set p" using pab a(1) by (metis append_Nil2)
      then show ?thesis using sq [of p "[]"] Cons by (auto simp: names_def components_no_slash)
    next
      case (Cons s rs)
      have s: "s = slash" using Cons hd_dropWhile [of "\<lambda>x. x \<noteq> slash" p] by (metis list.sel(1) list.distinct(1))
      let ?r = "dropWhile (\<lambda>x. x = slash) rs"
      have n: "names p = ?a # names rs"
        using pab Cons s names_append_slash [of ?a rs] a by (simp add: names_def components_no_slash)
      have sp: "squeeze p = ?a @ squeeze (slash # rs)" using pab sq [OF a(1), of "slash # rs"] Cons s by metis
      show ?thesis
      proof (cases ?r)
        case Nil
        then have "names rs = []" using names_dropWhile [of rs] by (metis names_Nil)
        then show ?thesis using sp n Nil by simp
      next
        case (Cons q qs)
        have "length ?r < length p"
        proof -
          have "length p = length ?a + length ?b" using pab by (metis length_append)
          moreover have "length ?r \<le> length rs" by (rule length_dropWhile_le)
          ultimately show ?thesis using \<open>?b = s # rs\<close> by simp
        qed
        moreover have "hd ?r \<noteq> slash" using Cons hd_dropWhile [of "\<lambda>x. x = slash" rs] by simp
        ultimately have "squeeze ?r = join (names rs)" using less.hyps [of ?r] names_dropWhile [of rs] by simp
        moreover have "names rs \<noteq> []"
        proof -
          have "q \<noteq> slash" using Cons hd_dropWhile [of "\<lambda>x. x = slash" rs] by simp
          then have "names ?r \<noteq> []" using Cons by (auto simp: names_def split: list.splits)
          then show ?thesis by (simp add: names_dropWhile)
        qed
        ultimately show ?thesis using sp n Cons by (cases "names rs") auto
      qed
    qed
  qed simp
qed

lemma normalize_slashes_spec: "normalize_slashes p = join (names p)"
proof -
  have "dropWhile (\<lambda>x. x = slash) p = [] \<or> hd (dropWhile (\<lambda>x. x = slash) p) \<noteq> slash"
    using hd_dropWhile [of "\<lambda>x. x = slash" p] by blast
  then show ?thesis by (simp add: normalize_slashes_def squeeze_spec names_dropWhile)
qed

lemma names_props: "x \<in> set (names p) \<Longrightarrow> x \<noteq> [] \<and> slash \<notin> set x"
  using set_components by (auto simp: names_def)

lemma drop_dots_names:
  "(\<And>x. x \<in> set xs \<Longrightarrow> slash \<notin> set x \<and> x \<noteq> []) \<Longrightarrow> names (drop_dots (join xs)) = filter proper xs"
proof (induction xs rule: join.induct)
  case (2 x)
  have x: "slash \<notin> set x" "x \<noteq> []" using 2 by auto
  then obtain c cs where c: "x = c # cs" by (cases x) auto
  have tw: "takeWhile (\<lambda>y. y \<noteq> slash) x = x" "dropWhile (\<lambda>y. y \<noteq> slash) x = []" using x by (auto simp: takeWhile_eq_all_conv)
  show ?case
  proof (cases "x = [dot]")
    case True
    then show ?thesis by (simp add: proper_def)
  next
    case False
    then have "\<not> (c = dot \<and> cs = [])" "\<not> (c = dot \<and> hd cs = slash)" using c x by (cases cs; auto)+
    then have "drop_dots (c # cs) = c # cs"
      using tw unfolding c by (simp only: drop_dots.simps if_False list.case append_Nil2)
    then have "drop_dots x = x" by (simp only: c)
    then show ?thesis using x False by (simp add: names_def components_no_slash proper_def)
  qed
next
  case (3 x y xs)
  have x: "slash \<notin> set x" "x \<noteq> []" using 3(2) [of x] by auto
  have ih: "names (drop_dots (join (y # xs))) = filter proper (y # xs)" using 3 by auto
  obtain c cs where c: "x = c # cs" using x by (cases x) auto
  show ?case
  proof (cases "x = [dot]")
    case True
    then have "\<not> proper x" by (simp add: proper_def)
    then show ?thesis using ih True by simp
  next
    case False
    let ?p = "x @ slash # join (y # xs)"
    have "\<not> (c = dot \<and> hd (cs @ slash # join (y # xs)) = slash)" using c x False by (cases cs) auto
    moreover have "takeWhile (\<lambda>z. z \<noteq> slash) ?p = x" "dropWhile (\<lambda>z. z \<noteq> slash) ?p = slash # join (y # xs)"
      using x by (auto simp: takeWhile_append dropWhile_append)
    moreover have "\<not> (c = dot \<and> cs @ slash # join (y # xs) = [])" by simp
    ultimately have "drop_dots (c # cs @ slash # join (y # xs)) = x @ slash # drop_dots (join (y # xs))"
      unfolding c append_Cons by (simp only: drop_dots.simps if_False list.case append_Cons)
    then have "drop_dots ?p = x @ slash # drop_dots (join (y # xs))" by (simp only: c append_Cons)
    moreover have "names x = [x]" using x by (simp add: names_def components_no_slash)
    moreover have "proper x" using x False by (simp add: proper_def)
    ultimately show ?thesis using ih names_append_slash [of x] by simp
  qed
qed simp

text \<open>C6: the canonical form of a path is its components without the empty ones and without ``.'', joined
  by single slashes.\<close>

theorem canonicalize_path_spec: "fstree_canonicalize_path p = join (filter proper (components p))"
proof -
  have "names (drop_dots (join (names p))) = filter proper (names p)"
    using names_props by (intro drop_dots_names) blast
  moreover have "filter proper (names p) = filter proper (components p)"
    by (auto simp: names_def proper_def intro: filter_cong)
  ultimately show ?thesis by (simp add: fstree_canonicalize_path_def normalize_slashes_spec)
qed

lemma canonicalize_join:
  assumes "\<And>x. x \<in> set xs \<Longrightarrow> slash \<notin> set x \<and> proper x"
  shows "fstree_canonicalize_path (join xs) = join xs"
proof -
  have ne: "\<And>x. x \<in> set xs \<Longrightarrow> slash \<notin> set x \<and> x \<noteq> []" using assms by (auto simp: proper_def)
  have n: "names (join xs) = xs" by (rule names_join [OF ne])
  have "names (drop_dots (join xs)) = filter proper xs" by (rule drop_dots_names [OF ne])
  also have "\<dots> = xs" using assms by (simp add: filter_id_conv)
  finally show ?thesis by (simp add: fstree_canonicalize_path_def normalize_slashes_spec n)
qed

end
