(* ===== verification/Tree.thy ===== *)
theory Tree
  imports FsTree Paths
begin

text \<open>
  The structure of the file system tree: \<open>lib/filesystem/fstree/fstree.c\<close>, \<open>node_from_path.c\<close>,
  \<open>mknode.c\<close> and \<open>get_path.c\<close>.

  The operations return an error number or a node, and the tree they leave behind. \<open>mem n\<close> says
  whether the allocation of the node with number \<open>n\<close> succeeds. The invariant \<open>tree_wf\<close> says that the nodes form a tree in
  which siblings have different names and that the lists by type hold exactly the nodes of the type; nodes are
  numbered in the order of their creation, so a parent has a smaller number than its children.
\<close>

datatype errno = ENOTDIR | ENOENT | EEXIST | EINVAL | ENOMEM

definition calloc_node :: tree_node where
  "calloc_node =
     \<lparr>n_ctime = 0, n_mtime = 0, n_uid = 0, n_gid = 0, inode_num = 0, link_count = 0, n_parent = None, n_name = [],
      n_type = TREE_NODE_DIR, permissions = 0, children = [], dir_start = 0, dir_size = 0, created_implicitly = False,
      n_file = \<lparr>f_size = 0, start_index = 0, sparse = []\<rparr>, link_target = [], link_resolved = None, device_number = 0\<rparr>"

section \<open>Operations\<close>

definition fstree_create :: "'v \<Rightarrow> 'v fstree" where
  "fstree_create v =
     \<lparr>nodes = (\<lambda>_. calloc_node)(0 := calloc_node\<lparr>n_type := TREE_NODE_DIR, permissions := 493, created_implicitly := True\<rparr>),
      node_count = 1,
      nodes_by_type = (\<lambda>t. if t = TREE_NODE_DIR then [0] else []),
      default_ctime = 0, default_mtime = 0, default_uid = 0, default_gid = 0, default_permissions = 493,
      root = 0, inode_table = [], fs_volume = v, data_offset = 0, no_sparse = False\<rparr>"

definition upd_node :: "'v fstree \<Rightarrow> nat \<Rightarrow> (tree_node \<Rightarrow> tree_node) \<Rightarrow> 'v fstree" where
  "upd_node fs n g = fs\<lparr>nodes := (nodes fs)(n := g (nodes fs n))\<rparr>"

text \<open>What both places that create a node do: take the defaults, link the node as the first child of its
  parent and as the first node of its type.\<close>

definition link_node :: "'v fstree \<Rightarrow> nat \<Rightarrow> node_type \<Rightarrow> string \<Rightarrow> tree_node \<Rightarrow> nat \<times> 'v fstree" where
  "link_node fs parent ty nm base =
     (let n = node_count fs;
          node = base\<lparr>n_ctime := default_ctime fs, n_mtime := default_mtime fs, n_uid := default_uid fs,
                      n_gid := default_gid fs, n_parent := Some parent, n_name := nm, n_type := ty,
                      permissions := default_permissions fs\<rparr>;
          fs1 = upd_node (fs\<lparr>nodes := (nodes fs)(n := node)\<rparr>) parent (\<lambda>p. p\<lparr>children := n # children p\<rparr>)
      in (n, fs1\<lparr>node_count := n + 1, nodes_by_type := (nodes_by_type fs)(ty := n # nodes_by_type fs ty)\<rparr>))"

definition child_by_name :: "'v fstree \<Rightarrow> nat \<Rightarrow> string \<Rightarrow> nat option" where
  "child_by_name fs n nm = find (\<lambda>m. n_name (nodes fs m) = nm) (children (nodes fs n))"

function walk :: "(nat \<Rightarrow> bool) \<Rightarrow> bool \<Rightarrow> 'v fstree \<Rightarrow> nat \<Rightarrow> string \<Rightarrow> (errno + nat) \<times> 'v fstree" where
  "walk mem create fs n [] = (Inr n, fs)"
| "walk mem create fs n (c # cs) =
     (if c = slash then walk mem create fs n cs
      else let comp = takeWhile (\<lambda>x. x \<noteq> slash) (c # cs);
               rest = dropWhile (\<lambda>x. x \<noteq> slash) cs
      in if n_type (nodes fs n) \<noteq> TREE_NODE_DIR then (Inl ENOTDIR, fs)
         else if comp = [dot] then walk mem create fs n rest
         else if comp = [dot, dot]
         then walk mem create fs (case n_parent (nodes fs n) of None \<Rightarrow> n | Some p \<Rightarrow> p) rest
         else case child_by_name fs n comp of
             Some m \<Rightarrow> walk mem create fs m rest
           | None \<Rightarrow>
               (if \<not> create then (Inl ENOENT, fs)
                else if \<not> mem (node_count fs) then (Inl ENOMEM, fs)
                else case link_node fs n TREE_NODE_DIR comp (calloc_node\<lparr>created_implicitly := True\<rparr>) of
                       (m, fs1) \<Rightarrow> walk mem create fs1 m rest))"
  by pat_completeness auto
termination
  by (relation "measure (\<lambda>(mem, create, fs, n, p). length p)") (auto simp: le_imp_less_Suc length_dropWhile_le)

declare walk.simps(2) [simp del]

definition fstree_node_from_path ::
  "(nat \<Rightarrow> bool) \<Rightarrow> 'v fstree \<Rightarrow> nat option \<Rightarrow> string \<Rightarrow> nat \<Rightarrow> bool \<Rightarrow> (errno + nat) \<times> 'v fstree" where
  "fstree_node_from_path mem fs start path len create_implicit =
     walk mem create_implicit fs (case start of None \<Rightarrow> root fs | Some r \<Rightarrow> r) (take len path)"

text \<open>\<open>strrchr\<close>: the part behind the last slash and the length of the part before it.\<close>

definition path_suffix :: "string \<Rightarrow> string" where
  "path_suffix path = rev (takeWhile (\<lambda>x. x \<noteq> slash) (rev path))"

definition prefix_len :: "string \<Rightarrow> nat" where
  "prefix_len path = (if slash \<in> set path then length path - length (path_suffix path) - 1 else 0)"

definition mknode_at ::
  "(nat \<Rightarrow> bool) \<Rightarrow> 'v fstree \<Rightarrow> string \<Rightarrow> node_type \<Rightarrow> string option \<Rightarrow> (errno + nat) \<times> 'v fstree" where
  "mknode_at mem fs path ty extra =
     (if (ty = TREE_NODE_SYMLINK \<or> ty = TREE_NODE_HARD_LINK) \<and> extra = None then (Inl EINVAL, fs)
      else case fstree_node_from_path mem fs None path (prefix_len path) True of
          (Inl e, fs1) \<Rightarrow> (Inl e, fs1)
        | (Inr parent, fs1) \<Rightarrow>
            (if n_type (nodes fs1 parent) \<noteq> TREE_NODE_DIR then (Inl ENOTDIR, fs1)
             else case child_by_name fs1 parent (path_suffix path) of
                 Some n \<Rightarrow>
                   (if n_type (nodes fs1 n) \<noteq> TREE_NODE_DIR \<or> ty \<noteq> TREE_NODE_DIR then (Inl EEXIST, fs1)
                    else if \<not> created_implicitly (nodes fs1 n) then (Inl EEXIST, fs1)
                    else (Inr n, upd_node fs1 n (\<lambda>x. x\<lparr>created_implicitly := False\<rparr>)))
               | None \<Rightarrow>
                   (if \<not> mem (node_count fs1) then (Inl ENOMEM, fs1)
                    else let base = (if ty = TREE_NODE_SYMLINK then calloc_node\<lparr>link_target := the extra\<rparr>
                                     else if ty = TREE_NODE_HARD_LINK
                                     then calloc_node\<lparr>link_target := fstree_canonicalize_path (the extra)\<rparr>
                                     else calloc_node)
                         in case link_node fs1 parent ty (path_suffix path) base of (n, fs2) \<Rightarrow> (Inr n, fs2))))"

text \<open>The \<open>fstree_add_...\<close> functions change the node that \<open>mknode_at\<close> returned.\<close>

definition mknode_then ::
  "(nat \<Rightarrow> bool) \<Rightarrow> 'v fstree \<Rightarrow> string \<Rightarrow> node_type \<Rightarrow> string option \<Rightarrow> (tree_node \<Rightarrow> tree_node) \<Rightarrow> (errno + nat) \<times> 'v fstree" where
  "mknode_then mem fs path ty extra g =
     (case mknode_at mem fs path ty extra of
        (Inl e, fs1) \<Rightarrow> (Inl e, fs1)
      | (Inr n, fs1) \<Rightarrow> (Inr n, upd_node fs1 n g))"

definition fstree_add_directory :: "(nat \<Rightarrow> bool) \<Rightarrow> 'v fstree \<Rightarrow> string \<Rightarrow> (errno + nat) \<times> 'v fstree" where
  "fstree_add_directory mem fs path = mknode_at mem fs path TREE_NODE_DIR None"

definition fstree_add_file :: "(nat \<Rightarrow> bool) \<Rightarrow> 'v fstree \<Rightarrow> string \<Rightarrow> (errno + nat) \<times> 'v fstree" where
  "fstree_add_file mem fs path =
     mknode_then mem fs path TREE_NODE_FILE None (\<lambda>n. n\<lparr>permissions := permissions n AND 438\<rparr>)"

definition fstree_add_fifo :: "(nat \<Rightarrow> bool) \<Rightarrow> 'v fstree \<Rightarrow> string \<Rightarrow> (errno + nat) \<times> 'v fstree" where
  "fstree_add_fifo mem fs path =
     mknode_then mem fs path TREE_NODE_FIFO None (\<lambda>n. n\<lparr>permissions := permissions n AND 438\<rparr>)"

definition fstree_add_socket :: "(nat \<Rightarrow> bool) \<Rightarrow> 'v fstree \<Rightarrow> string \<Rightarrow> (errno + nat) \<times> 'v fstree" where
  "fstree_add_socket mem fs path =
     mknode_then mem fs path TREE_NODE_SOCKET None (\<lambda>n. n\<lparr>permissions := permissions n AND 438\<rparr>)"

definition fstree_add_block_device :: "(nat \<Rightarrow> bool) \<Rightarrow> 'v fstree \<Rightarrow> string \<Rightarrow> nat \<Rightarrow> (errno + nat) \<times> 'v fstree" where
  "fstree_add_block_device mem fs path devno =
     mknode_then mem fs path TREE_NODE_BLOCK_DEV None
       (\<lambda>n. n\<lparr>permissions := permissions n AND 438, device_number := devno\<rparr>)"

definition fstree_add_character_device :: "(nat \<Rightarrow> bool) \<Rightarrow> 'v fstree \<Rightarrow> string \<Rightarrow> nat \<Rightarrow> (errno + nat) \<times> 'v fstree" where
  "fstree_add_character_device mem fs path devno =
     mknode_then mem fs path TREE_NODE_CHAR_DEV None
       (\<lambda>n. n\<lparr>permissions := permissions n AND 438, device_number := devno\<rparr>)"

definition fstree_add_symlink :: "(nat \<Rightarrow> bool) \<Rightarrow> 'v fstree \<Rightarrow> string \<Rightarrow> string \<Rightarrow> (errno + nat) \<times> 'v fstree" where
  "fstree_add_symlink mem fs path target =
     mknode_then mem fs path TREE_NODE_SYMLINK (Some target) (\<lambda>n. n\<lparr>permissions := 511\<rparr>)"

definition fstree_add_hard_link :: "(nat \<Rightarrow> bool) \<Rightarrow> 'v fstree \<Rightarrow> string \<Rightarrow> string \<Rightarrow> (errno + nat) \<times> 'v fstree" where
  "fstree_add_hard_link mem fs path target =
     mknode_then mem fs path TREE_NODE_HARD_LINK (Some target) (\<lambda>n. n\<lparr>permissions := 511\<rparr>)"

text \<open>\<open>path_length\<close> and \<open>path_print\<close> climb to the root; a parent has a smaller number than its child.\<close>

function path_length :: "'v fstree \<Rightarrow> nat \<Rightarrow> nat" where
  "path_length fs n =
     (case n_parent (nodes fs n) of None \<Rightarrow> 0
      | Some p \<Rightarrow> (if p < n then path_length fs p + 1 + length (n_name (nodes fs n)) else 0))"
  by pat_completeness auto
termination by (relation "measure snd") auto

function path_print :: "'v fstree \<Rightarrow> nat \<Rightarrow> string" where
  "path_print fs n =
     (case n_parent (nodes fs n) of None \<Rightarrow> []
      | Some p \<Rightarrow> (if p < n then path_print fs p @ slash # n_name (nodes fs n) else []))"
  by pat_completeness auto
termination by (relation "measure snd") auto

declare path_length.simps [simp del]
declare path_print.simps [simp del]

definition fstree_get_path :: "bool \<Rightarrow> 'v fstree \<Rightarrow> nat \<Rightarrow> string option" where
  "fstree_get_path mem fs n =
     (if \<not> mem then None
      else if n_parent (nodes fs n) = None then Some [slash]
      else Some (path_print fs n))"

section \<open>The tree invariant\<close>

definition tree_wf :: "'v fstree \<Rightarrow> bool" where
  "tree_wf fs \<longleftrightarrow>
     root fs = 0 \<and> 0 < node_count fs \<and> n_type (nodes fs 0) = TREE_NODE_DIR \<and> n_parent (nodes fs 0) = None \<and>
     (\<forall>n. 0 < n \<and> n < node_count fs \<longrightarrow>
        (\<exists>p<n. n_parent (nodes fs n) = Some p \<and> n_type (nodes fs p) = TREE_NODE_DIR \<and> n \<in> set (children (nodes fs p))) \<and>
        slash \<notin> set (n_name (nodes fs n))) \<and>
     (\<forall>n<node_count fs. distinct (map (\<lambda>m. n_name (nodes fs m)) (children (nodes fs n))) \<and>
        (\<forall>c\<in>set (children (nodes fs n)). 0 < c \<and> c < node_count fs \<and> n_parent (nodes fs c) = Some n)) \<and>
     (\<forall>t. distinct (nodes_by_type fs t) \<and> set (nodes_by_type fs t) = {n. n < node_count fs \<and> n_type (nodes fs n) = t})"

lemma tree_wfD:
  assumes "tree_wf fs"
  shows "root fs = 0" "0 < node_count fs" "n_type (nodes fs 0) = TREE_NODE_DIR" "n_parent (nodes fs 0) = None"
    "0 < n \<Longrightarrow> n < node_count fs \<Longrightarrow> \<exists>p<n. n_parent (nodes fs n) = Some p \<and>
       n_type (nodes fs p) = TREE_NODE_DIR \<and> n \<in> set (children (nodes fs p))"
    "0 < n \<Longrightarrow> n < node_count fs \<Longrightarrow> slash \<notin> set (n_name (nodes fs n))"
    "n < node_count fs \<Longrightarrow> distinct (map (\<lambda>m. n_name (nodes fs m)) (children (nodes fs n)))"
    "n < node_count fs \<Longrightarrow> c \<in> set (children (nodes fs n)) \<Longrightarrow> 0 < c \<and> c < node_count fs \<and> n_parent (nodes fs c) = Some n"
    "distinct (nodes_by_type fs t)" "set (nodes_by_type fs t) = {n. n < node_count fs \<and> n_type (nodes fs n) = t}"
  using assms unfolding tree_wf_def by blast+

lemma fstree_create_wf: "tree_wf (fstree_create v)"
  by (auto simp: tree_wf_def fstree_create_def calloc_node_def)

lemma child_by_name_Some:
  "child_by_name fs n nm = Some m \<Longrightarrow> m \<in> set (children (nodes fs n)) \<and> n_name (nodes fs m) = nm"
  by (auto simp: child_by_name_def find_Some_iff)

lemma child_by_name_None: "child_by_name fs n nm = None \<longleftrightarrow> (\<forall>m\<in>set (children (nodes fs n)). n_name (nodes fs m) \<noteq> nm)"
  by (auto simp: child_by_name_def find_None_iff)

text \<open>Names identify the children of a node.\<close>

lemma child_by_name_unique:
  assumes "tree_wf fs" "n < node_count fs" "m \<in> set (children (nodes fs n))"
  shows "child_by_name fs n (n_name (nodes fs m)) = Some m"
proof -
  obtain k where k: "child_by_name fs n (n_name (nodes fs m)) = Some k"
    using assms(3) child_by_name_None [of fs n "n_name (nodes fs m)"] by (cases "child_by_name fs n (n_name (nodes fs m))") auto
  have "inj_on (\<lambda>m. n_name (nodes fs m)) (set (children (nodes fs n)))"
    using tree_wfD(7) [OF assms(1,2)] by (simp add: distinct_map)
  then have "k = m" using child_by_name_Some [OF k] assms(3) by (auto dest: inj_onD)
  then show ?thesis using k by simp
qed

section \<open>Creating nodes\<close>

text \<open>The nodes of \<open>fs\<close> are nodes of \<open>fs'\<close> with the same place in the tree.\<close>

definition extends :: "'v fstree \<Rightarrow> 'v fstree \<Rightarrow> bool" where
  "extends fs fs' \<longleftrightarrow> node_count fs \<le> node_count fs' \<and>
     (\<forall>n<node_count fs. n_name (nodes fs' n) = n_name (nodes fs n) \<and> n_type (nodes fs' n) = n_type (nodes fs n) \<and>
        n_parent (nodes fs' n) = n_parent (nodes fs n) \<and> set (children (nodes fs n)) \<subseteq> set (children (nodes fs' n)))"

lemma extends_refl [simp]: "extends fs fs"
  by (simp add: extends_def)

lemma extendsD:
  assumes "extends a b"
  shows "node_count a \<le> node_count b" "n < node_count a \<Longrightarrow> n_name (nodes b n) = n_name (nodes a n)"
    "n < node_count a \<Longrightarrow> n_type (nodes b n) = n_type (nodes a n)"
    "n < node_count a \<Longrightarrow> n_parent (nodes b n) = n_parent (nodes a n)"
    "n < node_count a \<Longrightarrow> c \<in> set (children (nodes a n)) \<Longrightarrow> c \<in> set (children (nodes b n))"
  using assms unfolding extends_def by auto

lemma extends_trans:
  assumes "extends a b" "extends b c"
  shows "extends a c"
proof -
  have "n < node_count b" if "n < node_count a" for n
    using extendsD(1) [OF assms(1)] that by simp
  then show ?thesis
    unfolding extends_def using extendsD [OF assms(1)] extendsD [OF assms(2)] by (auto intro: order_trans)
qed

lemma child_extends:
  assumes "child_by_name fs n nm = Some m" "extends fs fs'" "tree_wf fs" "tree_wf fs'" "n < node_count fs"
  shows "child_by_name fs' n nm = Some m"
proof -
  have m: "m \<in> set (children (nodes fs n))" "n_name (nodes fs m) = nm"
    using child_by_name_Some [OF assms(1)] by auto
  moreover have "m < node_count fs" using tree_wfD(8) [OF assms(3,5) m(1)] by simp
  ultimately show ?thesis
    using child_by_name_unique [OF assms(4), of n m] extendsD [OF assms(2)] assms(5) by auto
qed

text \<open>Linking a fresh name under a directory keeps the invariant and everything that was in the tree.\<close>

lemma link_node_ok:
  assumes wf: "tree_wf fs" and p: "p < node_count fs" "n_type (nodes fs p) = TREE_NODE_DIR"
    and nm: "slash \<notin> set nm" "child_by_name fs p nm = None" and base: "children base = []"
    and link: "link_node fs p ty nm base = (n, fs')"
  shows "tree_wf fs'" "extends fs fs'" "n < node_count fs'" "n_type (nodes fs' n) = ty" "child_by_name fs' p nm = Some n"
    "n_name (nodes fs' n) = nm" "n_parent (nodes fs' n) = Some p"
proof -
  define c where "c = node_count fs"
  have n: "n = c" and fs': "node_count fs' = c + 1" "root fs' = root fs"
      "nodes_by_type fs' = (nodes_by_type fs)(ty := c # nodes_by_type fs ty)"
      "nodes fs' c = base\<lparr>n_ctime := default_ctime fs, n_mtime := default_mtime fs, n_uid := default_uid fs,
                      n_gid := default_gid fs, n_parent := Some p, n_name := nm, n_type := ty,
                      permissions := default_permissions fs\<rparr>"
      "nodes fs' p = (nodes fs p)\<lparr>children := c # children (nodes fs p)\<rparr>"
      "\<And>m. m \<noteq> c \<Longrightarrow> m \<noteq> p \<Longrightarrow> nodes fs' m = nodes fs m"
    using link p by (auto simp: link_node_def upd_node_def Let_def c_def)
  have keep: "n_name (nodes fs' m) = n_name (nodes fs m)" "n_type (nodes fs' m) = n_type (nodes fs m)"
      "n_parent (nodes fs' m) = n_parent (nodes fs m)"
      "children (nodes fs' m) = (if m = p then [c] else []) @ children (nodes fs m)" if "m < c" for m
    using fs'(5,6) that by (cases "m = p"; simp)+
  have pc: "p < c" using p c_def by simp
  have kids: "x < c" if "m < c" "x \<in> set (children (nodes fs m))" for m x
    using tree_wfD(8) [OF wf] that c_def by blast
  have names: "map (\<lambda>x. n_name (nodes fs' x)) (children (nodes fs m)) = map (\<lambda>x. n_name (nodes fs x)) (children (nodes fs m))"
    if "m < c" for m using kids [OF that] keep(1) by auto
  have fresh: "nm \<notin> set (map (\<lambda>x. n_name (nodes fs x)) (children (nodes fs p)))"
    using nm(2) by (auto simp: child_by_name_None)
  have d: "distinct (map (\<lambda>m. n_name (nodes fs' m)) (children (nodes fs' m)))" if "m < c + 1" for m
  proof (cases "m = c")
    case True
    then show ?thesis using fs'(4) base by simp
  next
    case False
    then have m: "m < c" using that by simp
    have "map (\<lambda>m. n_name (nodes fs' m)) (children (nodes fs' m)) =
        (if m = p then [nm] else []) @ map (\<lambda>x. n_name (nodes fs x)) (children (nodes fs m))"
      by (simp add: keep(4) [OF m] names [OF m] fs'(4) del: map_eq_conv)
    then show ?thesis using tree_wfD(7) [OF wf m [unfolded c_def]] fresh by auto
  qed
  have ch: "0 < x \<and> x < c + 1 \<and> n_parent (nodes fs' x) = Some m" if "m < c + 1" "x \<in> set (children (nodes fs' m))" for m x
  proof (cases "m = c \<or> x = c")
    case True
    show ?thesis
    proof (cases "m = c")
      case True
      then show ?thesis using that fs'(4) base by simp
    next
      case False
      then have m: "m < c" using that by simp
      then have "m = p" "x = c" using True False that keep(4) [OF m] kids [OF m] by (auto split: if_splits)
      then show ?thesis using fs'(4) pc by simp
    qed
  next
    case False
    then have m: "m < c" "x \<in> set (children (nodes fs m))" using that keep(4) [of m] by (auto split: if_splits)
    show ?thesis using tree_wfD(8) [OF wf m(1) [unfolded c_def] m(2)] keep(3) [of x] c_def by auto
  qed
  have pa: "(\<exists>q<m. n_parent (nodes fs' m) = Some q \<and> n_type (nodes fs' q) = TREE_NODE_DIR \<and> m \<in> set (children (nodes fs' q))) \<and>
      slash \<notin> set (n_name (nodes fs' m))" if m0: "0 < m" and m1: "m < c + 1" for m
  proof (cases "m = c")
    case True
    then show ?thesis using fs'(4) nm(1) pc p(2) keep [OF pc] by auto
  next
    case False
    then have m: "m < c" using m1 by simp
    obtain q where "q < m" "n_parent (nodes fs m) = Some q" "n_type (nodes fs q) = TREE_NODE_DIR" "m \<in> set (children (nodes fs q))"
      using tree_wfD(5) [OF wf m0 m [unfolded c_def]] by blast
    then show ?thesis using keep [OF m] keep [of q] m tree_wfD(6) [OF wf m0 m [unfolded c_def]] by auto
  qed
  have ty: "distinct (nodes_by_type fs' t) \<and> set (nodes_by_type fs' t) = {n. n < c + 1 \<and> n_type (nodes fs' n) = t}" for t
  proof -
    have "{n. n < c + 1 \<and> n_type (nodes fs' n) = t} = {n. n < c \<and> n_type (nodes fs n) = t} \<union> (if t = ty then {c} else {})"
      using keep(2) fs'(4) by (auto simp: less_Suc_eq)
    then show ?thesis using tree_wfD(9,10) [OF wf, of t] fs'(3) c_def by auto
  qed
  have c0: "0 < c" using pc by simp
  show wf': "tree_wf fs'"
    unfolding tree_wf_def using tree_wfD(1-4) [OF wf] fs'(1,2) keep(2,3) [OF c0] c0 pa d ch ty by auto
  show "extends fs fs'" unfolding extends_def using keep fs'(1) c_def by auto
  show "n < node_count fs'" "n_type (nodes fs' n) = ty" "n_name (nodes fs' n) = nm" "n_parent (nodes fs' n) = Some p"
    using n fs' by auto
  then show "child_by_name fs' p nm = Some n"
    using child_by_name_unique [OF wf', of p c] keep(4) [OF pc] n fs'(1) pc by auto
qed

lemma calloc_children [simp]: "children calloc_node = []"
  by (simp add: calloc_node_def)

section \<open>Walking along a path\<close>

text \<open>The loop takes one step per component of the path.\<close>

definition walk_step :: "(nat \<Rightarrow> bool) \<Rightarrow> bool \<Rightarrow> 'v fstree \<Rightarrow> nat \<Rightarrow> string \<Rightarrow> (errno + nat) \<times> 'v fstree" where
  "walk_step mem create fs n nm =
     (if n_type (nodes fs n) \<noteq> TREE_NODE_DIR then (Inl ENOTDIR, fs)
      else if nm = [dot] then (Inr n, fs)
      else if nm = [dot, dot] then (Inr (case n_parent (nodes fs n) of None \<Rightarrow> n | Some p \<Rightarrow> p), fs)
      else case child_by_name fs n nm of
          Some m \<Rightarrow> (Inr m, fs)
        | None \<Rightarrow>
            (if \<not> create then (Inl ENOENT, fs)
             else if \<not> mem (node_count fs) then (Inl ENOMEM, fs)
             else case link_node fs n TREE_NODE_DIR nm (calloc_node\<lparr>created_implicitly := True\<rparr>) of (m, fs1) \<Rightarrow> (Inr m, fs1)))"

fun walk_steps :: "(nat \<Rightarrow> bool) \<Rightarrow> bool \<Rightarrow> 'v fstree \<Rightarrow> nat \<Rightarrow> string list \<Rightarrow> (errno + nat) \<times> 'v fstree" where
  "walk_steps mem create fs n [] = (Inr n, fs)"
| "walk_steps mem create fs n (x # xs) =
     (case walk_step mem create fs n x of
        (Inl e, fs1) \<Rightarrow> (Inl e, fs1)
      | (Inr m, fs1) \<Rightarrow> walk_steps mem create fs1 m xs)"

lemma names_Cons:
  assumes "c \<noteq> slash"
  shows "names (c # cs) = takeWhile (\<lambda>x. x \<noteq> slash) (c # cs) # names (dropWhile (\<lambda>x. x \<noteq> slash) cs)"
proof (cases "slash \<in> set cs")
  case False
  then have "takeWhile (\<lambda>x. x \<noteq> slash) cs = cs" "dropWhile (\<lambda>x. x \<noteq> slash) cs = []"
    by (auto simp: takeWhile_eq_all_conv)
  moreover have "names (c # cs) = [c # cs]" using assms False by (simp add: names_def components_no_slash)
  ultimately show ?thesis using assms by (simp only: takeWhile.simps if_True names_Nil not_False_eq_True)
next
  case True
  then obtain a b where cs: "cs = a @ slash # b" "slash \<notin> set a" by (meson split_list_first)
  have "takeWhile (\<lambda>x. x \<noteq> slash) cs = a" "dropWhile (\<lambda>x. x \<noteq> slash) cs = slash # b"
    using cs by (auto simp: takeWhile_append dropWhile_append)
  moreover have "names (c # cs) = names (c # a) @ names b" using names_append_slash [of "c # a" b] cs(1) by simp
  moreover have "names (c # a) = [c # a]" using assms cs(2) by (simp add: names_def components_no_slash)
  ultimately show ?thesis using assms by simp
qed

lemma walk_steps: "walk mem create (fs :: 'v fstree) n path = walk_steps mem create fs n (names path)"
proof (induction path arbitrary: fs n rule: length_induct)
  case (1 path)
  show ?case
  proof (cases path)
    case Nil
    then show ?thesis by simp
  next
    case (Cons c cs)
    show ?thesis
    proof (cases "c = slash")
      case True
      then show ?thesis using 1 Cons by (simp add: walk.simps(2))
    next
      case False
      define rest where "rest = dropWhile (\<lambda>x. x \<noteq> slash) cs"
      have "length rest < length path" using Cons length_dropWhile_le [of _ cs] by (simp add: rest_def le_imp_less_Suc)
      then have IH: "walk mem create fs n rest = walk_steps mem create fs n (names rest)" for fs :: "'v fstree" and n using 1 by blast
      show ?thesis
        unfolding Cons names_Cons [OF False] walk.simps(2) [of _ _ _ _ c] walk_steps.simps walk_step_def
          rest_def [symmetric] IH Let_def
        using False by (auto split: option.splits prod.splits)
    qed
  qed
qed

lemma walk_steps_append:
  "walk_steps mem create fs n (a @ b) =
     (case walk_steps mem create fs n a of (Inl e, fs1) \<Rightarrow> (Inl e, fs1) | (Inr m, fs1) \<Rightarrow> walk_steps mem create fs1 m b)"
  by (induction mem create fs n a rule: walk_steps.induct) (auto split: prod.splits sum.splits)

text \<open>Following a path, with or without creating directories, keeps the tree.\<close>

lemma walk_step_ok:
  assumes wf: "tree_wf fs" "n < node_count fs" and sl: "slash \<notin> set x" and w: "walk_step mem create fs n x = (r, fs')"
  shows "tree_wf fs' \<and> extends fs fs' \<and> (\<forall>m. r = Inr m \<longrightarrow> m < node_count fs') \<and> (\<not> create \<longrightarrow> fs' = fs)"
proof -
  have up: "(case n_parent (nodes fs n) of None \<Rightarrow> n | Some p \<Rightarrow> p) < node_count fs"
  proof (cases "n = 0")
    case True
    then show ?thesis using tree_wfD(4) [OF wf(1)] wf(2) by simp
  next
    case False
    then obtain q where "q < n" "n_parent (nodes fs n) = Some q" using tree_wfD(5) [OF wf(1), of n] wf(2) by auto
    then show ?thesis using wf(2) by simp
  qed
  have child: "m < node_count fs" if "child_by_name fs n x = Some m" for m
    using tree_wfD(8) [OF wf] child_by_name_Some [OF that] by blast
  obtain m fs1 where l: "link_node fs n TREE_NODE_DIR x (calloc_node\<lparr>created_implicitly := True\<rparr>) = (m, fs1)"
    by fastforce
  have new: "tree_wf fs1 \<and> extends fs fs1 \<and> m < node_count fs1"
    if "n_type (nodes fs n) = TREE_NODE_DIR" "child_by_name fs n x = None"
    using link_node_ok [OF wf that(1) sl that(2) _ l] by simp
  show ?thesis
    using w wf up child new unfolding walk_step_def l by (auto split: if_splits option.splits)
qed

lemma walk_steps_ok:
  assumes "tree_wf fs" "n < node_count fs" "\<forall>x\<in>set xs. slash \<notin> set x" "walk_steps mem create fs n xs = (r, fs')"
  shows "tree_wf fs' \<and> extends fs fs' \<and> (\<forall>m. r = Inr m \<longrightarrow> m < node_count fs') \<and> (\<not> create \<longrightarrow> fs' = fs)"
  using assms
proof (induction xs arbitrary: fs n)
  case Nil
  then show ?case by auto
next
  case (Cons x xs)
  obtain q fs1 where s: "walk_step mem create fs n x = (q, fs1)" by fastforce
  note ok = walk_step_ok [OF Cons.prems(1,2) _ s]
  show ?case
  proof (cases q)
    case (Inl e)
    then show ?thesis using ok Cons.prems s by auto
  next
    case (Inr m)
    then have "tree_wf fs' \<and> extends fs1 fs' \<and> (\<forall>m. r = Inr m \<longrightarrow> m < node_count fs') \<and> (\<not> create \<longrightarrow> fs' = fs1)"
      using Cons.IH [of fs1 m] Cons.prems s ok by simp
    then show ?thesis using ok Cons.prems(3) extends_trans [of fs fs1 fs'] by auto
  qed
qed

text \<open>A path that was followed once leads to the same node in every later tree.\<close>

lemma walk_step_again:
  assumes wf: "tree_wf fs" "n < node_count fs" and sl: "slash \<notin> set x" and w: "walk_step mem create fs n x = (Inr m, fs1)"
    and later: "extends fs1 fs'" "tree_wf fs'"
  shows "walk_step mem' create' fs' n x = (Inr m, fs')"
proof -
  note ok = walk_step_ok [OF wf sl w]
  have ext: "extends fs fs'" using ok later(1) extends_trans by blast
  have keep: "n_type (nodes fs' n) = n_type (nodes fs n)" "n_parent (nodes fs' n) = n_parent (nodes fs n)"
    using extendsD [OF ext] wf(2) by auto
  have dir: "n_type (nodes fs n) = TREE_NODE_DIR" using w by (auto simp: walk_step_def split: if_splits)
  show ?thesis
  proof (cases "x = [dot] \<or> x = [dot, dot]")
    case True
    then show ?thesis using w keep dir by (auto simp: walk_step_def split: if_splits)
  next
    case False
    have "child_by_name fs1 n x = Some m"
    proof (cases "child_by_name fs n x")
      case (Some k)
      then show ?thesis using w dir False by (auto simp: walk_step_def)
    next
      case None
      then have l: "link_node fs n TREE_NODE_DIR x (calloc_node\<lparr>created_implicitly := True\<rparr>) = (m, fs1)"
        using w dir False by (auto simp: walk_step_def split: if_splits prod.splits)
      show ?thesis using link_node_ok(5) [OF wf dir sl None _ l] by simp
    qed
    moreover have "n < node_count fs1" using extendsD(1) [of fs fs1] ok wf(2) by auto
    ultimately have "child_by_name fs' n x = Some m" using child_extends later ok by blast
    then show ?thesis using False dir keep by (auto simp: walk_step_def)
  qed
qed

lemma walk_steps_again:
  assumes "tree_wf fs" "n < node_count fs" "\<forall>x\<in>set xs. slash \<notin> set x" "walk_steps mem create fs n xs = (Inr m, fs1)"
    "extends fs1 fs'" "tree_wf fs'"
  shows "walk_steps mem' create' fs' n xs = (Inr m, fs')"
  using assms
proof (induction xs arbitrary: fs n)
  case Nil
  then show ?case by simp
next
  case (Cons x xs)
  obtain k fs0 where s: "walk_step mem create fs n x = (Inr k, fs0)" "walk_steps mem create fs0 k xs = (Inr m, fs1)"
    using Cons.prems(4) by (auto split: prod.splits sum.splits)
  have sl: "slash \<notin> set x" using Cons.prems(3) by simp
  note ok = walk_step_ok [OF Cons.prems(1,2) sl s(1)]
  have "tree_wf fs0" "k < node_count fs0" "\<forall>x\<in>set xs. slash \<notin> set x" using ok Cons.prems(3) by auto
  then have rest: "extends fs0 fs1" "walk_steps mem' create' fs' k xs = (Inr m, fs')"
    using walk_steps_ok [OF _ _ _ s(2)] Cons.IH [OF _ _ _ s(2)] Cons.prems(5,6) by auto
  have "extends fs0 fs'" using rest(1) Cons.prems(5) extends_trans by blast
  then show ?case using walk_step_again [OF Cons.prems(1,2) sl s(1)] Cons.prems(6) rest(2) by simp
qed

section \<open>Adding nodes\<close>

lemma path_suffix_no_slash: "slash \<notin> set (path_suffix path)"
  using set_takeWhileD [of _ "\<lambda>x. x \<noteq> slash" "rev path"] by (auto simp: path_suffix_def)

text \<open>\<open>strrchr\<close> splits the path in front of its last component.\<close>

lemma path_split:
  assumes "slash \<in> set path"
  shows "path = take (prefix_len path) path @ slash # path_suffix path"
proof -
  obtain a b where ab: "path = a @ slash # b" "slash \<notin> set b" using split_list_last [OF assms] by blast
  have "rev path = rev b @ slash # rev a" using ab by simp
  then have "path_suffix path = b" unfolding path_suffix_def
    using ab(2) by (simp add: takeWhile_append takeWhile_eq_all_conv)
  then show ?thesis using ab assms by (simp add: prefix_len_def)
qed

lemma path_no_split:
  assumes "slash \<notin> set path"
  shows "path_suffix path = path" "prefix_len path = 0"
proof -
  have "takeWhile (\<lambda>x. x \<noteq> slash) (rev path) = rev path" using assms by (intro takeWhile_eq_all_conv [THEN iffD2]) auto
  then show "path_suffix path = path" by (simp only: path_suffix_def rev_rev_ident)
  show "prefix_len path = 0" using assms by (simp add: prefix_len_def)
qed

lemma names_path:
  assumes "path_suffix path \<noteq> []"
  shows "names path = names (take (prefix_len path) path) @ [path_suffix path]"
proof -
  have suffix: "names (path_suffix path) = [path_suffix path]"
    using assms path_suffix_no_slash by (simp add: names_def components_no_slash)
  show ?thesis
  proof (cases "slash \<in> set path")
    case True
    then have "names path = names (take (prefix_len path) path @ slash # path_suffix path)" using path_split by metis
    then show ?thesis using suffix by (simp add: names_append_slash)
  next
    case False
    then show ?thesis using path_no_split suffix by simp
  qed
qed

lemma upd_node_wf:
  assumes "tree_wf fs" "\<And>x. n_name (g x) = n_name x" "\<And>x. n_type (g x) = n_type x" "\<And>x. n_parent (g x) = n_parent x"
    "\<And>x. children (g x) = children x"
  shows "tree_wf (upd_node fs n g)" "extends fs (upd_node fs n g)"
    "node_count (upd_node fs n g) = node_count fs" "n_type (nodes (upd_node fs n g) m) = n_type (nodes fs m)"
    "child_by_name (upd_node fs n g) m nm = child_by_name fs m nm"
proof -
  have eq: "n_name (nodes (upd_node fs n g) m) = n_name (nodes fs m)" "n_type (nodes (upd_node fs n g) m) = n_type (nodes fs m)"
    "n_parent (nodes (upd_node fs n g) m) = n_parent (nodes fs m)" "children (nodes (upd_node fs n g) m) = children (nodes fs m)"
    for m using assms(2-) by (auto simp: upd_node_def)
  show "tree_wf (upd_node fs n g)"
    using assms(1) unfolding tree_wf_def eq by (simp add: upd_node_def)
  show "extends fs (upd_node fs n g)" unfolding extends_def eq by (simp add: upd_node_def)
  show "node_count (upd_node fs n g) = node_count fs" by (simp add: upd_node_def)
  show "n_type (nodes (upd_node fs n g) m) = n_type (nodes fs m)" by (rule eq)
  show "child_by_name (upd_node fs n g) m nm = child_by_name fs m nm" by (simp add: child_by_name_def eq)
qed

text \<open>What \<open>mknode_at\<close> leaves behind, whether it fails or not.\<close>

lemma mknode_at_ok:
  assumes wf: "tree_wf fs" and mk: "mknode_at mem fs path ty extra = (r, fs')"
  shows "tree_wf fs' \<and> extends fs fs'" and
    "r = Inr n \<Longrightarrow> n < node_count fs' \<and> n_type (nodes fs' n) = ty \<and>
       (\<exists>p<node_count fs'. walk_steps mem' create' fs' 0 (names (take (prefix_len path) path)) = (Inr p, fs') \<and>
          n_type (nodes fs' p) = TREE_NODE_DIR \<and> child_by_name fs' p (path_suffix path) = Some n)"
proof -
  let ?pre = "names (take (prefix_len path) path)"
  have sl: "\<forall>x\<in>set ?pre. slash \<notin> set x" using names_props by blast
  obtain q fs1 where w: "walk_steps mem True fs 0 ?pre = (q, fs1)" by fastforce
  then have nfp: "fstree_node_from_path mem fs None path (prefix_len path) True = (q, fs1)"
    using tree_wfD(1) [OF wf] by (simp add: fstree_node_from_path_def walk_steps)
  have ok: "tree_wf fs1" "extends fs fs1" "q = Inr p \<Longrightarrow> p < node_count fs1" for p
    using walk_steps_ok [OF wf tree_wfD(2) [OF wf] sl w] by auto
  have again: "walk_steps mem' create' fs2 0 ?pre = (Inr p, fs2)" if "q = Inr p" "extends fs1 fs2" "tree_wf fs2" for p fs2
    using walk_steps_again [OF wf tree_wfD(2) [OF wf] sl _ that(2,3)] w that(1) by simp
  have "(tree_wf fs' \<and> extends fs fs') \<and> (r = Inr n \<longrightarrow> n < node_count fs' \<and> n_type (nodes fs' n) = ty \<and>
       (\<exists>p<node_count fs'. walk_steps mem' create' fs' 0 ?pre = (Inr p, fs') \<and> n_type (nodes fs' p) = TREE_NODE_DIR \<and>
          child_by_name fs' p (path_suffix path) = Some n))" for n
  proof (cases "(\<exists>p. q = Inr p) \<and> \<not> ((ty = TREE_NODE_SYMLINK \<or> ty = TREE_NODE_HARD_LINK) \<and> extra = None)")
    case False
    then show ?thesis using mk wf ok unfolding mknode_at_def nfp by (auto split: if_splits sum.splits)
  next
    case True
    then obtain p where q: "q = Inr p" by blast
    note p = ok(3) [OF q]
    show ?thesis
    proof (cases "n_type (nodes fs1 p) = TREE_NODE_DIR")
      case False
      then show ?thesis using mk wf ok q True unfolding mknode_at_def nfp by (auto split: if_splits)
    next
      case dir: True
      show ?thesis
      proof (cases "child_by_name fs1 p (path_suffix path)")
        case None
        define base where "base = (if ty = TREE_NODE_SYMLINK then calloc_node\<lparr>link_target := the extra\<rparr>
            else if ty = TREE_NODE_HARD_LINK then calloc_node\<lparr>link_target := fstree_canonicalize_path (the extra)\<rparr>
            else calloc_node)"
        obtain n' fs2 where l: "link_node fs1 p ty (path_suffix path) base = (n', fs2)" by fastforce
        have "children base = []" by (simp add: base_def)
        note L = link_node_ok [OF ok(1) p dir path_suffix_no_slash None this l]
        have "p < node_count fs2" "n_type (nodes fs2 p) = TREE_NODE_DIR" using extendsD [OF L(2)] p dir by auto
        moreover have "r = (if mem (node_count fs1) then Inr n' else Inl ENOMEM) \<and> fs' = (if mem (node_count fs1) then fs2 else fs1)"
          using mk True q dir None l unfolding mknode_at_def nfp by (auto simp: base_def split: if_splits)
        ultimately show ?thesis
          using L ok(1,2) extends_trans [OF ok(2) L(2)] again [OF q L(2,1)] by auto
      next
        case (Some k)
        let ?fs2 = "upd_node fs1 k (\<lambda>x. x\<lparr>created_implicitly := False\<rparr>)"
        note U = upd_node_wf [OF ok(1), of "\<lambda>x. x\<lparr>created_implicitly := False\<rparr>" k, simplified]
        have "k < node_count fs1" using tree_wfD(8) [OF ok(1) p] child_by_name_Some [OF Some] by blast
        moreover have "(\<exists>e. r = Inl e) \<and> fs' = fs1 \<or>
            r = Inr k \<and> fs' = ?fs2 \<and> n_type (nodes fs1 k) = TREE_NODE_DIR \<and> ty = TREE_NODE_DIR"
          using mk True q dir Some unfolding mknode_at_def nfp by (auto split: if_splits)
        ultimately show ?thesis
          using U(3-5) p dir Some ok extends_trans [OF ok(2) U(2)] again [OF q U(2,1)] U(1) by auto
      qed
    qed
  qed
  then show "tree_wf fs' \<and> extends fs fs'" and
    "r = Inr n \<Longrightarrow> n < node_count fs' \<and> n_type (nodes fs' n) = ty \<and>
       (\<exists>p<node_count fs'. walk_steps mem' create' fs' 0 ?pre = (Inr p, fs') \<and> n_type (nodes fs' p) = TREE_NODE_DIR \<and>
          child_by_name fs' p (path_suffix path) = Some n)" by blast+
qed

text \<open>A component that is a name: not empty and not one of the two special names.\<close>

definition real_name :: "string \<Rightarrow> bool" where
  "real_name x \<longleftrightarrow> x \<noteq> [] \<and> x \<noteq> [dot] \<and> x \<noteq> [dot, dot]"

text \<open>C7: creating a node keeps the tree well formed and every node in its place, whatever the outcome; the node
  created has the type asked for and is what a lookup of the path it was created with finds.\<close>

theorem mknode_lookup:
  assumes "tree_wf fs" and "mknode_at mem fs path ty extra = (r, fs')"
  shows "tree_wf fs' \<and> extends fs fs' \<and>
     (\<forall>n. r = Inr n \<longrightarrow> n < node_count fs' \<and> n_type (nodes fs' n) = ty \<and>
        (real_name (path_suffix path) \<longrightarrow>
           fstree_node_from_path mem' fs' None path (length path) create = (Inr n, fs')))"
proof -
  note ok = mknode_at_ok [OF assms]
  have "fstree_node_from_path mem' fs' None path (length path) create = (Inr n, fs')"
    if r: "r = Inr n" and real: "real_name (path_suffix path)" for n
  proof -
    obtain p where p: "walk_steps mem' create fs' 0 (names (take (prefix_len path) path)) = (Inr p, fs')"
      "n_type (nodes fs' p) = TREE_NODE_DIR" "child_by_name fs' p (path_suffix path) = Some n"
      using ok(2) [OF r, of mem' create] by blast
    have "walk_step mem' create fs' p (path_suffix path) = (Inr n, fs')"
      using p real by (simp add: walk_step_def real_name_def)
    then show ?thesis
      using p(1) real tree_wfD(1) [of fs'] ok(1)
      by (simp add: fstree_node_from_path_def walk_steps names_path real_name_def walk_steps_append)
  qed
  then show ?thesis using ok by blast
qed

theorem mknode_lookup_witness:
  "\<exists>n fs'. fstree_add_directory (\<lambda>_. True) (fstree_create ()) ''a/b'' = (Inr n, fs') \<and> tree_wf fs' \<and>
     fstree_node_from_path (\<lambda>_. True) fs' None ''a/b'' (length ''a/b'') False = (Inr n, fs')"
proof -
  obtain r fs' where mk: "mknode_at (\<lambda>_. True) (fstree_create ()) ''a/b'' TREE_NODE_DIR None = (r, fs')" by fastforce
  have "r = Inr 2"
    using mk by (auto simp: mknode_at_def fstree_node_from_path_def walk.simps(2) path_suffix_def prefix_len_def
        fstree_create_def calloc_node_def link_node_def child_by_name_def upd_node_def slash_def dot_def Let_def)
  moreover have "real_name (path_suffix ''a/b'')" by (simp add: real_name_def path_suffix_def slash_def dot_def)
  ultimately show ?thesis
    using mknode_lookup [OF fstree_create_wf mk, of "\<lambda>_. True" False] mk by (auto simp: fstree_add_directory_def)
qed

section \<open>Printing paths\<close>

lemma path_length_print: "path_length fs n = length (path_print fs n)"
proof (induction n rule: less_induct)
  case (less n)
  then show ?case by (simp add: path_length.simps [of fs n] path_print.simps [of fs n] split: option.splits)
qed

lemma walk_path_print:
  assumes "tree_wf fs" "\<forall>k. 0 < k \<and> k < node_count fs \<longrightarrow> real_name (n_name (nodes fs k))" "n < node_count fs"
  shows "walk_steps mem create fs 0 (names (path_print fs n)) = (Inr n, fs)"
  using assms(3)
proof (induction n rule: less_induct)
  case (less n)
  show ?case
  proof (cases "n = 0")
    case True
    then show ?thesis using tree_wfD(4) [OF assms(1)] by (simp add: path_print.simps [of fs 0])
  next
    case False
    then obtain p where p: "p < n" "n_parent (nodes fs n) = Some p" "n_type (nodes fs p) = TREE_NODE_DIR"
        "n \<in> set (children (nodes fs p))"
      using tree_wfD(5) [OF assms(1), of n] less.prems by auto
    let ?x = "n_name (nodes fs n)"
    have x: "real_name ?x" "slash \<notin> set ?x" using False assms tree_wfD(6) [OF assms(1), of n] less.prems by auto
    have "child_by_name fs p ?x = Some n" using child_by_name_unique [OF assms(1)] p less.prems by simp
    then have "walk_step mem create fs p ?x = (Inr n, fs)" using x p by (simp add: walk_step_def real_name_def)
    moreover have "names (path_print fs n) = names (path_print fs p) @ [?x]"
      using p x by (simp add: path_print.simps [of fs n] names_append_slash real_name_def)
        (simp add: names_def components_no_slash)
    ultimately show ?thesis using less.IH [OF p(1)] p(1) less.prems by (simp add: walk_steps_append)
  qed
qed

text \<open>C8: the path printed for a node leads back to the node, and its length is the length the buffer was
  allocated for.\<close>

theorem get_path_lookup:
  assumes "tree_wf fs" "\<forall>k. 0 < k \<and> k < node_count fs \<longrightarrow> real_name (n_name (nodes fs k))" "n < node_count fs"
  shows "\<exists>path. fstree_get_path True fs n = Some path \<and>
     fstree_node_from_path mem fs None path (length path) create = (Inr n, fs) \<and>
     (n \<noteq> root fs \<longrightarrow> length path = path_length fs n)"
proof (cases "n = 0")
  case True
  then have "fstree_get_path True fs n = Some [slash]" using tree_wfD(4) [OF assms(1)] by (simp add: fstree_get_path_def)
  then show ?thesis using True tree_wfD(1) [OF assms(1)] by (simp add: fstree_node_from_path_def walk_steps)
next
  case False
  then have "fstree_get_path True fs n = Some (path_print fs n)"
    using tree_wfD(5) [OF assms(1), of n] assms(3) by (auto simp: fstree_get_path_def)
  then show ?thesis
    using walk_path_print [OF assms] tree_wfD(1) [OF assms(1)]
    by (simp add: fstree_node_from_path_def walk_steps path_length_print)
qed

theorem get_path_lookup_witness:
  "\<exists>fs path. tree_wf fs \<and> 1 < node_count fs \<and> fstree_get_path True fs 1 = Some path \<and>
     fstree_node_from_path (\<lambda>_. True) (fs :: unit fstree) None path (length path) False = (Inr 1, fs)"
proof -
  obtain r fs' where mk: "mknode_at (\<lambda>_. True) (fstree_create ()) ''a'' TREE_NODE_FILE None = (r, fs')" by fastforce
  have fs: "node_count fs' = 2" "n_name (nodes fs' 1) = ''a''"
    using mk by (auto simp: mknode_at_def fstree_node_from_path_def walk.simps(2) path_suffix_def prefix_len_def
        fstree_create_def calloc_node_def link_node_def child_by_name_def upd_node_def slash_def dot_def Let_def)
  have wf: "tree_wf fs'" using mknode_at_ok(1) [OF fstree_create_wf mk] by simp
  have "real_name (n_name (nodes fs' k))" if "0 < k \<and> k < node_count fs'" for k
  proof -
    have "k = 1" using that fs(1) by simp
    then show ?thesis using fs(2) by (simp add: real_name_def dot_def)
  qed
  then obtain path where "fstree_get_path True fs' 1 = Some path"
      "fstree_node_from_path (\<lambda>_. True) fs' None path (length path) False = (Inr 1, fs')"
    using get_path_lookup [OF wf, of 1 "\<lambda>_. True" False] fs(1) by auto
  then show ?thesis using wf fs(1) by (intro exI [of _ fs'] exI [of _ path]) simp
qed

end
