(* ===== verification/TreeOrder.thy ===== *)
theory TreeOrder
  imports Tree "HOL-Library.Char_ord" "HOL-Library.List_Lexorder" "HOL-Library.Multiset"
begin

text \<open>
  Ordering of the file system tree: \<open>lib/filesystem/fstree/sort.c\<close> and \<open>create_inode_table.c\<close>.

  The merge sort works on a list of nodes, that is on a chain of \<open>next\<close> or of \<open>next_by_type\<close> pointers; the source
  has the same function twice, once for each chain. The recursion over the tree carries fuel; as a node has a
  smaller number than its children, the number of nodes is enough of it. The sort is shown to be the stable sort of
  the library, the lists by type to hold every node once, and the inode table to be a bijection between inode numbers
  and the nodes that are not hard links.
\<close>

section \<open>Sorting a list of nodes\<close>

text \<open>\<open>strcmp\<close>, of which the sign is specified.\<close>

fun strcmp :: "string \<Rightarrow> string \<Rightarrow> int" where
  "strcmp [] [] = 0"
| "strcmp [] (y # ys) = - 1"
| "strcmp (x # xs) [] = 1"
| "strcmp (x # xs) (y # ys) =
     (if x = y then strcmp xs ys else int (of_char x) - int (of_char y))"

definition name_compare_cb :: "'v fstree \<Rightarrow> nat \<Rightarrow> nat \<Rightarrow> int" where
  "name_compare_cb fs lhs rhs = strcmp (n_name (nodes fs lhs)) (n_name (nodes fs rhs))"

fun merge :: "('a \<Rightarrow> 'a \<Rightarrow> int) \<Rightarrow> 'a list \<Rightarrow> 'a list \<Rightarrow> 'a list" where
  "merge cb [] rhs = rhs"
| "merge cb lhs [] = lhs"
| "merge cb (l # lhs) (r # rhs) =
     (if cb l r \<le> 0 then l # merge cb lhs (r # rhs) else r # merge cb (l # lhs) rhs)"

text \<open>The loop with two pointers: \<open>half\<close> advances once for every one or two elements.\<close>

fun half_steps :: "'a list \<Rightarrow> nat" where
  "half_steps [] = 0"
| "half_steps [x] = 1"
| "half_steps (x # y # it) = Suc (half_steps it)"

lemma half_steps_bounds: "half_steps xs \<le> length xs" "2 \<le> length xs \<Longrightarrow> 0 < half_steps xs \<and> half_steps xs < length xs"
proof (induction xs rule: half_steps.induct)
  case (3 x y it)
  { case 1 then show ?case using 3(1) by simp
  next
    case 2 then show ?case using 3(1) by simp }
qed auto

lemma half_rest_length: "drop (half_steps xs) xs \<noteq> [] \<Longrightarrow> 0 < half_steps xs \<and> half_steps xs < length xs"
  by (cases xs rule: half_steps.cases) (use half_steps_bounds in auto)

function fstree_sort_node_list :: "('a \<Rightarrow> 'a \<Rightarrow> int) \<Rightarrow> 'a list \<Rightarrow> 'a list" where
  "fstree_sort_node_list cb head =
     (let k = half_steps head; half = drop k head
      in if half = [] then head
         else merge cb (fstree_sort_node_list cb (take k head)) (fstree_sort_node_list cb half))"
  by pat_completeness auto
termination
  by (relation "measure (\<lambda>(cb, xs). length xs)") (use half_rest_length in fastforce)+

declare fstree_sort_node_list.simps [simp del]

text \<open>The same sort on the chain of \<open>next_by_type\<close> pointers.\<close>

definition fstree_sort_node_list_by_type :: "('a \<Rightarrow> 'a \<Rightarrow> int) \<Rightarrow> 'a list \<Rightarrow> 'a list" where
  "fstree_sort_node_list_by_type cb head = fstree_sort_node_list cb head"

lemma strcmp_le: "strcmp x y \<le> 0 \<longleftrightarrow> x \<le> y"
  by (induction x y rule: strcmp.induct) (auto simp: less_char_def less_le)

lemma merge_mset: "mset (merge cb xs ys) = mset xs + mset ys"
  by (induction cb xs ys rule: merge.induct) auto

lemma merge_set: "set (merge cb xs ys) = set xs \<union> set ys"
  using merge_mset [of cb xs ys] by (metis set_mset_mset set_mset_union)

lemma merge_sorted:
  fixes f :: "'a \<Rightarrow> 'k :: linorder"
  assumes "\<And>a b. cb a b \<le> 0 \<longleftrightarrow> f a \<le> f b" "sorted (map f xs)" "sorted (map f ys)"
  shows "sorted (map f (merge cb xs ys))"
  using assms
proof (induction cb xs ys rule: merge.induct)
  case (3 cb l lhs r rhs)
  note IH = 3(1) [OF _ 3(3)] 3(2) [OF _ 3(3)]
  show ?case
  proof (cases "cb l r \<le> 0")
    case True
    then have "f l \<le> f r" using 3(3) by blast
    then show ?thesis using IH(1) [OF True] 3(4,5) True by (auto simp: merge_set)
  next
    case False
    then have "f r \<le> f l" using 3(3) by (meson linear)
    then show ?thesis using IH(2) [OF False] 3(4,5) False by (auto simp: merge_set)
  qed
qed auto

lemma merge_filter:
  fixes f :: "'a \<Rightarrow> 'k :: linorder"
  assumes "\<And>a b. cb a b \<le> 0 \<longleftrightarrow> f a \<le> f b" "sorted (map f xs)" "sorted (map f ys)"
  shows "filter (\<lambda>x. f x = k) (merge cb xs ys) = filter (\<lambda>x. f x = k) xs @ filter (\<lambda>x. f x = k) ys"
  using assms
proof (induction cb xs ys rule: merge.induct)
  case (3 cb l lhs r rhs)
  have tails: "sorted (map f lhs)" "sorted (map f rhs)" using 3(4,5) by auto
  show ?case
  proof (cases "cb l r \<le> 0")
    case True
    then have "merge cb (l # lhs) (r # rhs) = l # merge cb lhs (r # rhs)" by simp
    then show ?thesis using 3(1) [OF True 3(3) tails(1) 3(5)] by (cases "f l = k") (simp_all only: filter.simps(2) [of _ l] refl if_True if_False append_Cons)
  next
    case False
    then have m: "merge cb (l # lhs) (r # rhs) = r # merge cb (l # lhs) rhs" by simp
    have "f r < f l" using 3(3) [of l r] False by simp
    moreover have "f l \<le> f x" if "x \<in> set (l # lhs)" for x
      using that 3(4) unfolding list.map sorted_simps(2) by fastforce
    ultimately have lt: "f r < f x" if "x \<in> set (l # lhs)" for x
      using that order.strict_trans2 by blast
    have "f x \<noteq> k" if "f r = k" "x \<in> set (l # lhs)" for x using lt [OF that(2)] that(1) by simp
    then have "f r = k \<Longrightarrow> filter (\<lambda>x. f x = k) (l # lhs) = []"
      using filter_False [of "l # lhs" "\<lambda>x. f x = k"] by blast
    then show ?thesis unfolding m using 3(2) [OF False 3(3,4) tails(2)]
      by (cases "f r = k") (simp_all only: filter.simps(2) [of _ r] refl if_True if_False append_Nil)
  qed
qed auto

lemma sort_node_list_key:
  fixes f :: "'a \<Rightarrow> 'k :: linorder"
  assumes cb: "\<And>a b. cb a b \<le> 0 \<longleftrightarrow> f a \<le> f b"
  shows "fstree_sort_node_list cb xs = sort_key f xs"
proof -
  have "mset (fstree_sort_node_list cb xs) = mset xs \<and> sorted (map f (fstree_sort_node_list cb xs)) \<and>
      (\<forall>k. filter (\<lambda>x. f x = k) (fstree_sort_node_list cb xs) = filter (\<lambda>x. f x = k) xs)"
  proof (induction xs rule: length_induct)
    case (1 xs)
    let ?k = "half_steps xs" and ?s = "fstree_sort_node_list cb"
    show ?case
    proof (cases "drop ?k xs = []")
      case True
      then have "length xs \<le> 1" using half_steps_bounds [of xs] by (cases "2 \<le> length xs") auto
      then show ?thesis using True by (cases xs) (auto simp: fstree_sort_node_list.simps [of cb])
    next
      case False
      then have "length (take ?k xs) < length xs" "length (drop ?k xs) < length xs" using half_rest_length [OF False] by auto
      then have IH: "mset (?s (take ?k xs)) = mset (take ?k xs)" "sorted (map f (?s (take ?k xs)))"
          "mset (?s (drop ?k xs)) = mset (drop ?k xs)" "sorted (map f (?s (drop ?k xs)))"
          "\<And>k. filter (\<lambda>x. f x = k) (?s (take ?k xs)) = filter (\<lambda>x. f x = k) (take ?k xs)"
          "\<And>k. filter (\<lambda>x. f x = k) (?s (drop ?k xs)) = filter (\<lambda>x. f x = k) (drop ?k xs)"
        using 1 by blast+
      have eq: "?s xs = merge cb (?s (take ?k xs)) (?s (drop ?k xs))"
        using False by (simp add: fstree_sort_node_list.simps [of cb xs] Let_def)
      have "mset (take ?k xs) + mset (drop ?k xs) = mset xs" by (metis append_take_drop_id mset_append)
      moreover have "filter P (take ?k xs) @ filter P (drop ?k xs) = filter P xs" for P
        by (metis append_take_drop_id filter_append)
      ultimately show ?thesis
        unfolding eq using IH merge_sorted [OF cb IH(2,4)] merge_filter [OF cb IH(2,4)] by (simp add: merge_mset)
    qed
  qed
  moreover have "(\<lambda>x. f k = f x) = (\<lambda>x. f x = f k)" for k by auto
  ultimately show ?thesis by (intro properties_for_sort_key [symmetric]) auto
qed

text \<open>C9: the merge sort of a node list is the stable sort by the key that the comparison function compares.\<close>

theorem sort_node_list_stable:
  fixes f :: "'a \<Rightarrow> 'k :: linorder"
  assumes "\<And>a b. cb a b \<le> 0 \<longleftrightarrow> f a \<le> f b"
  shows "fstree_sort_node_list cb xs = sort_key f xs \<and> fstree_sort_node_list_by_type cb xs = sort_key f xs"
  using sort_node_list_key [OF assms] by (simp add: fstree_sort_node_list_by_type_def)

theorem sort_node_list_stable_witness:
  "fstree_sort_node_list (\<lambda>a b. int (snd a) - int (snd b)) [(1 :: nat, 5 :: nat), (2, 3), (3, 5), (4, 3)] = [(2, 3), (4, 3), (1, 5), (3, 5)]"
  using sort_node_list_stable [of "\<lambda>a b. int (snd a) - int (snd b)" snd "[(1 :: nat, 5 :: nat), (2, 3), (3, 5), (4, 3)]"]
  by simp

section \<open>Sorting the tree\<close>

fun fstree_sort_node_recursive :: "nat \<Rightarrow> 'v fstree \<Rightarrow> nat \<Rightarrow> 'v fstree" where
  "fstree_sort_node_recursive 0 fs n = fs"
| "fstree_sort_node_recursive (Suc k) fs n =
     (if n_type (nodes fs n) \<noteq> TREE_NODE_DIR then fs
      else let list = fstree_sort_node_list (name_compare_cb fs) (children (nodes fs n))
           in fold (\<lambda>c fs1. fstree_sort_node_recursive k fs1 c) list (upd_node fs n (\<lambda>x. x\<lparr>children := list\<rparr>)))"

fun linearize_dir_tree :: "nat \<Rightarrow> 'v fstree \<Rightarrow> nat \<Rightarrow> node_type \<Rightarrow> nat list" where
  "linearize_dir_tree 0 fs n ty = []"
| "linearize_dir_tree (Suc k) fs n ty =
     filter (\<lambda>c. n_type (nodes fs c) = ty) (children (nodes fs n)) @
     concat (map (\<lambda>c. linearize_dir_tree k fs c ty)
       (filter (\<lambda>c. n_type (nodes fs c) = TREE_NODE_DIR) (children (nodes fs n))))"

definition fstree_sort :: "'v fstree \<Rightarrow> 'v fstree" where
  "fstree_sort fs =
     (let fs1 = fstree_sort_node_recursive (node_count fs) fs (root fs);
          by_type = (\<lambda>ty. linearize_dir_tree (node_count fs) fs1 (root fs) ty)
      in fs1\<lparr>nodes_by_type := by_type(TREE_NODE_DIR := root fs # by_type TREE_NODE_DIR)\<rparr>)"

section \<open>The inode table\<close>

fun count_inodes_dfs :: "nat \<Rightarrow> 'v fstree \<Rightarrow> nat \<Rightarrow> nat" where
  "count_inodes_dfs 0 fs n = 0"
| "count_inodes_dfs (Suc k) fs n =
     (if n_type (nodes fs n) = TREE_NODE_HARD_LINK then 0
      else if n_type (nodes fs n) = TREE_NODE_DIR
      then sum_list (map (count_inodes_dfs k fs) (children (nodes fs n))) + 1
      else 1)"

text \<open>The first loop of \<open>map_inodes_dfs\<close> gives a node the next inode number and enters it in the table.\<close>

definition map_inode :: "nat \<Rightarrow> 'v fstree \<times> nat \<Rightarrow> 'v fstree \<times> nat" where
  "map_inode c = (\<lambda>(fs, index).
     if n_type (nodes fs c) \<noteq> TREE_NODE_HARD_LINK
     then let num = u32 index; fs1 = upd_node fs c (\<lambda>x. x\<lparr>inode_num := num\<rparr>)
          in (fs1\<lparr>inode_table := (inode_table fs1)[num := Some c]\<rparr>, index + 1)
     else (fs, index))"

fun map_inodes_dfs :: "nat \<Rightarrow> nat \<Rightarrow> 'v fstree \<times> nat \<Rightarrow> 'v fstree \<times> nat" where
  "map_inodes_dfs 0 n st = st"
| "map_inodes_dfs (Suc k) n st =
     fold (\<lambda>c st. if n_type (nodes (fst st) c) = TREE_NODE_DIR then map_inodes_dfs k c st else st)
       (children (nodes (fst st) n))
       (fold map_inode (children (nodes (fst st) n)) st)"

definition fstree_create_inode_table :: "bool \<Rightarrow> 'v fstree \<Rightarrow> int \<times> 'v fstree" where
  "fstree_create_inode_table mem fs =
     (let num_inodes = count_inodes_dfs (node_count fs) fs (root fs)
      in if \<not> mem then (- 1, fs\<lparr>inode_table := []\<rparr>)
         else let fs1 = upd_node (fs\<lparr>inode_table := replicate num_inodes None\<rparr>) (root fs) (\<lambda>x. x\<lparr>inode_num := 0\<rparr>);
                  fs2 = fs1\<lparr>inode_table := (inode_table fs1)[0 := Some (root fs)]\<rparr>
              in (0, fst (map_inodes_dfs (node_count fs) (root fs) (fs2, 1))))"

section \<open>The order of the nodes\<close>

text \<open>The nodes below a node in the order both functions visit them, restricted to those that satisfy \<open>P\<close>.\<close>

fun below :: "(nat \<Rightarrow> bool) \<Rightarrow> nat \<Rightarrow> 'v fstree \<Rightarrow> nat \<Rightarrow> nat list" where
  "below P 0 fs n = []"
| "below P (Suc k) fs n = filter P (children (nodes fs n)) @ concat (map (below P k fs) (children (nodes fs n)))"

definition child_rel :: "'v fstree \<Rightarrow> (nat \<times> nat) set" where
  "child_rel fs = {(p, c). p < node_count fs \<and> c \<in> set (children (nodes fs p))}"

lemma child_relD:
  assumes "tree_wf fs" "(p, c) \<in> child_rel fs"
  shows "p < c" "c < node_count fs" "n_parent (nodes fs c) = Some p" "n_type (nodes fs p) = TREE_NODE_DIR"
proof -
  have c: "0 < c" "c < node_count fs" "n_parent (nodes fs c) = Some p"
    using tree_wfD(8) [OF assms(1), of p c] assms(2) by (auto simp: child_rel_def)
  then show "p < c" "n_type (nodes fs p) = TREE_NODE_DIR" using tree_wfD(5) [OF assms(1), of c] by auto
  show "c < node_count fs" "n_parent (nodes fs c) = Some p" using c by auto
qed

lemma child_rel_up:
  assumes "tree_wf fs" "(n, m) \<in> (child_rel fs)\<^sup>+"
  shows "n < m \<and> m < node_count fs"
  using assms(2)
proof (induction rule: trancl_induct)
  case (base y)
  then show ?case using child_relD(1,2) [OF assms(1)] by blast
next
  case (step y z)
  then show ?case using child_relD(1,2) [OF assms(1) step(2)] by simp
qed

lemma all_below_root:
  assumes "tree_wf fs" "0 < m" "m < node_count fs"
  shows "(0, m) \<in> (child_rel fs)\<^sup>+"
  using assms(2,3)
proof (induction m rule: less_induct)
  case (less m)
  obtain p where p: "p < m" "m \<in> set (children (nodes fs p))" using tree_wfD(5) [OF assms(1), of m] less.prems by blast
  then have "(p, m) \<in> child_rel fs" using less.prems by (simp add: child_rel_def)
  then show ?case using less.IH [OF p(1)] p(1) less.prems by (cases "p = 0") auto
qed

text \<open>The subtrees of two children of a node have no node in common.\<close>

lemma siblings_disjoint:
  assumes wf: "tree_wf fs" and c: "(n, c) \<in> child_rel fs" "(n, d) \<in> child_rel fs" "c \<noteq> d"
    and m: "(c, m) \<in> (child_rel fs)\<^sup>*" "(d, m) \<in> (child_rel fs)\<^sup>*"
  shows False
proof -
  have chain: "(c, d) \<in> (child_rel fs)\<^sup>* \<or> (d, c) \<in> (child_rel fs)\<^sup>*"
    using m(1,2)
  proof (induction arbitrary: rule: rtrancl_induct)
    case base
    then show ?case by simp
  next
    case (step y z)
    show ?case
    proof (cases "d = z")
      case True
      then show ?thesis using step(1,2) by auto
    next
      case False
      then obtain w where "(d, w) \<in> (child_rel fs)\<^sup>*" "(w, z) \<in> child_rel fs" using step(4) by (meson rtranclE)
      moreover from this have "w = y" using step(2) child_relD(3) [OF wf] by (metis option.inject)
      ultimately show ?thesis using step(3) by simp
    qed
  qed
  have "False" if ab: "(a, b) \<in> (child_rel fs)\<^sup>*" "a \<noteq> b" "(n, a) \<in> child_rel fs" "(n, b) \<in> child_rel fs" for a b
  proof -
    obtain w where w: "(a, w) \<in> (child_rel fs)\<^sup>*" "(w, b) \<in> child_rel fs" using ab(1,2) by (meson rtranclE)
    then have "w = n" using child_relD(3) [OF wf] ab(4) by (metis option.inject)
    then have "a \<le> n" using w(1) child_rel_up [OF wf, of a n] by (auto simp: rtrancl_eq_or_trancl)
    then show False using child_relD(1) [OF wf ab(3)] by simp
  qed
  then show False using chain c by blast
qed

lemma child_step:
  assumes "tree_wf fs" "n < node_count fs" "c \<in> set (children (nodes fs n))"
  shows "(n, c) \<in> child_rel fs" "n < c" "c < node_count fs"
  using child_relD(1,2) [OF assms(1), of n c] assms(2,3) by (auto simp: child_rel_def)

lemma below_set:
  assumes "tree_wf fs" "node_count fs \<le> n + k" "n < node_count fs"
  shows "set (below P k fs n) = {m. (n, m) \<in> (child_rel fs)\<^sup>+ \<and> P m}"
  using assms(2,3)
proof (induction k arbitrary: n)
  case 0
  then show ?case using child_rel_up [OF assms(1)] by auto
next
  case (Suc k)
  have IH: "set (below P k fs c) = {m. (c, m) \<in> (child_rel fs)\<^sup>+ \<and> P m}" if "c \<in> set (children (nodes fs n))" for c
    using Suc.IH [of c] child_step [OF assms(1) Suc.prems(2) that] Suc.prems by simp
  have "(n, m) \<in> (child_rel fs)\<^sup>+ \<longleftrightarrow> (\<exists>c\<in>set (children (nodes fs n)). c = m \<or> (c, m) \<in> (child_rel fs)\<^sup>+)" for m
    using Suc.prems(2) by (subst trancl_unfold_left) (auto simp: child_rel_def rtrancl_eq_or_trancl)
  then show ?case using IH by auto
qed

lemma distinct_concat_map:
  assumes "distinct xs" "\<And>x. x \<in> set xs \<Longrightarrow> distinct (g x)"
    "\<And>x y. x \<in> set xs \<Longrightarrow> y \<in> set xs \<Longrightarrow> x \<noteq> y \<Longrightarrow> set (g x) \<inter> set (g y) = {}"
  shows "distinct (concat (map g xs))"
  using assms by (induction xs) fastforce+

lemma below_distinct:
  assumes "tree_wf fs" "node_count fs \<le> n + k" "n < node_count fs"
  shows "distinct (below P k fs n)"
  using assms(2,3)
proof (induction k arbitrary: n)
  case 0
  then show ?case by simp
next
  case (Suc k)
  let ?cs = "children (nodes fs n)"
  have c: "node_count fs \<le> c + k" "c < node_count fs" "(n, c) \<in> child_rel fs" if "c \<in> set ?cs" for c
    using child_step [OF assms(1) Suc.prems(2) that] Suc.prems by auto
  have dist: "distinct ?cs" using tree_wfD(7) [OF assms(1) Suc.prems(2)] by (simp add: distinct_map)
  have sub: "(c, m) \<in> (child_rel fs)\<^sup>+" if "c \<in> set ?cs" "m \<in> set (below P k fs c)" for c m
    using below_set [OF assms(1) c(1,2)] that by blast
  have disj: "set (below P k fs c) \<inter> set (below P k fs d) = {}" if "c \<in> set ?cs" "d \<in> set ?cs" "c \<noteq> d" for c d
    using siblings_disjoint [OF assms(1) c(3) [OF that(1)] c(3) [OF that(2)] that(3)] sub that by (blast dest: trancl_into_rtrancl)
  have new: "m \<notin> set (below P k fs c)" if "c \<in> set ?cs" "m \<in> set ?cs" for c m
  proof
    assume "m \<in> set (below P k fs c)"
    then have "(c, m) \<in> (child_rel fs)\<^sup>+" using sub that by blast
    moreover from this have "c \<noteq> m" using child_rel_up [OF assms(1), of c m] by auto
    ultimately show False using siblings_disjoint [OF assms(1) c(3) c(3), of c m m] that by (simp add: trancl_into_rtrancl)
  qed
  have "distinct (concat (map (below P k fs) ?cs))"
    using dist disj Suc.IH c by (intro distinct_concat_map) auto
  then show ?case using dist new by auto
qed

lemma no_children:
  assumes "tree_wf fs" "n < node_count fs" "n_type (nodes fs n) \<noteq> TREE_NODE_DIR"
  shows "children (nodes fs n) = []"
  using child_relD(4) [OF assms(1), of n] assms(2,3) by (cases "children (nodes fs n)") (auto simp: child_rel_def)

lemma below_no_dir:
  assumes "tree_wf fs" "n < node_count fs" "n_type (nodes fs n) \<noteq> TREE_NODE_DIR"
  shows "below P k fs n = []"
  using no_children [OF assms] by (cases k) auto

lemma concat_map_filter: "(\<And>x. x \<in> set xs \<Longrightarrow> \<not> P x \<Longrightarrow> g x = []) \<Longrightarrow> concat (map g (filter P xs)) = concat (map g xs)"
  by (induction xs) auto

lemma linearize_below:
  assumes "tree_wf fs" "n < node_count fs"
  shows "linearize_dir_tree k fs n ty = below (\<lambda>m. n_type (nodes fs m) = ty) k fs n"
  using assms(2)
proof (induction k arbitrary: n)
  case (Suc k)
  have c: "c < node_count fs" if "c \<in> set (children (nodes fs n))" for c
    using child_step(3) [OF assms(1) Suc.prems that] .
  let ?P = "\<lambda>m. n_type (nodes fs m) = ty" and ?D = "\<lambda>c. n_type (nodes fs c) = TREE_NODE_DIR"
  have "map (\<lambda>c. linearize_dir_tree k fs c ty) (filter ?D (children (nodes fs n))) =
      map (below ?P k fs) (filter ?D (children (nodes fs n)))"
    using Suc.IH c by simp
  moreover have "concat (map (below ?P k fs) (filter ?D (children (nodes fs n)))) = concat (map (below ?P k fs) (children (nodes fs n)))"
    using below_no_dir [OF assms(1) c] by (intro concat_map_filter) auto
  ultimately show ?case by (simp only: linearize_dir_tree.simps below.simps)
qed simp

text \<open>What the recursive sort does to the nodes: every directory below the start gets its children sorted by name.\<close>

definition sort_children :: "'v fstree \<Rightarrow> tree_node \<Rightarrow> tree_node" where
  "sort_children fs x = x\<lparr>children := sort_key (\<lambda>c. n_name (nodes fs c)) (children x)\<rparr>"

lemma sort_by_name: "fstree_sort_node_list (name_compare_cb fs) xs = sort_key (\<lambda>c. n_name (nodes fs c)) xs"
  by (rule sort_node_list_key) (simp add: name_compare_cb_def strcmp_le)

lemma sort_key_idem: "sort_key f (sort_key f xs) = sort_key f xs"
  by (simp add: sort_key_id_if_sorted)

definition resort :: "'v fstree \<Rightarrow> nat set \<Rightarrow> 'v fstree" where
  "resort fs A = fs\<lparr>nodes := (\<lambda>m. if m \<in> A then sort_children fs (nodes fs m) else nodes fs m)\<rparr>"

lemma resort_simps [simp]:
  "n_name (nodes (resort fs A) m) = n_name (nodes fs m)" "n_type (nodes (resort fs A) m) = n_type (nodes fs m)"
  "n_parent (nodes (resort fs A) m) = n_parent (nodes fs m)" "set (children (nodes (resort fs A) m)) = set (children (nodes fs m))"
  "node_count (resort fs A) = node_count fs" "root (resort fs A) = root fs" "nodes_by_type (resort fs A) = nodes_by_type fs"
  by (simp_all add: resort_def sort_children_def)

lemma resort_children: "children (nodes (resort fs A) m) =
   (if m \<in> A then sort_key (\<lambda>c. n_name (nodes fs c)) (children (nodes fs m)) else children (nodes fs m))"
  by (simp add: resort_def sort_children_def)

lemma resort_wf:
  assumes "tree_wf fs"
  shows "tree_wf (resort fs A)" "child_rel (resort fs A) = child_rel fs"
proof -
  have "distinct (map (\<lambda>m. n_name (nodes (resort fs A) m)) (children (nodes (resort fs A) n)))" if "n < node_count fs" for n
    using tree_wfD(7) [OF assms that] by (simp add: distinct_map resort_children)
  then show "tree_wf (resort fs A)" using assms unfolding tree_wf_def resort_simps by blast
  show "child_rel (resort fs A) = child_rel fs" by (simp add: child_rel_def)
qed

lemma resort_resort: "resort (resort fs A) B = resort fs (A \<union> B)"
proof -
  have s: "sort_children (resort fs A) = sort_children fs" by (rule ext) (simp add: sort_children_def)
  have "sort_children fs (sort_children fs x) = sort_children fs x" for x
    by (simp add: sort_children_def sort_key_idem)
  then have "(\<lambda>m. if m \<in> B then sort_children fs (nodes (resort fs A) m) else nodes (resort fs A) m) = nodes (resort fs (A \<union> B))"
    by (intro ext) (simp add: resort_def)
  then show ?thesis unfolding resort_def [of "resort fs A" B] s by (simp add: resort_def)
qed

lemma fold_resort:
  assumes "tree_wf fs" "\<And>c fs'. c \<in> set cs \<Longrightarrow> tree_wf fs' \<Longrightarrow> node_count fs' = node_count fs \<Longrightarrow>
      child_rel fs' = child_rel fs \<Longrightarrow> g c fs' = resort fs' (S c)"
  shows "fold g cs fs = resort fs (\<Union>c\<in>set cs. S c)"
  using assms
proof (induction cs arbitrary: fs)
  case Nil
  then show ?case by (simp add: resort_def)
next
  case (Cons c cs)
  have "fold g cs (resort fs (S c)) = resort (resort fs (S c)) (\<Union>c\<in>set cs. S c)"
    by (rule Cons.IH) (auto simp: resort_wf Cons.prems)
  then show ?case using Cons.prems by (simp add: resort_resort)
qed

lemma sort_recursive_resort:
  assumes "tree_wf fs" "node_count fs \<le> n + k" "n < node_count fs"
  shows "fstree_sort_node_recursive k fs n = resort fs {m. (n, m) \<in> (child_rel fs)\<^sup>*}"
  using assms
proof (induction k arbitrary: fs n)
  case 0
  then show ?case by simp
next
  case (Suc k)
  let ?sub = "\<lambda>n. {m. (n, m) \<in> (child_rel fs)\<^sup>*}" and ?list = "children (nodes (resort fs {n}) n)"
  have sub: "?sub n = insert n (\<Union>c\<in>set (children (nodes fs n)). ?sub c)"
    using Suc.prems(3) by (auto simp: child_rel_def intro: converse_rtrancl_into_rtrancl elim: converse_rtranclE)
  show ?case
  proof (cases "n_type (nodes fs n) = TREE_NODE_DIR")
    case False
    note none = no_children [OF Suc.prems(1,3) False]
    then have "sort_children fs (nodes fs n) = nodes fs n" by (simp add: sort_children_def)
    then have "(\<lambda>m. if m \<in> {n} then sort_children fs (nodes fs m) else nodes fs m) = nodes fs" by auto
    then have "resort fs {n} = fs" unfolding resort_def by simp
    moreover have "?sub n = {n}" using sub none by simp
    ultimately show ?thesis using False by simp
  next
    case True
    have upd: "upd_node fs n (\<lambda>x. x\<lparr>children := fstree_sort_node_list (name_compare_cb fs) (children (nodes fs n))\<rparr>) = resort fs {n}"
      unfolding sort_by_name by (auto simp: upd_node_def resort_def sort_children_def fun_eq_iff)
    have list: "fstree_sort_node_list (name_compare_cb fs) (children (nodes fs n)) = ?list"
      by (simp add: sort_by_name resort_children)
    have "fold (\<lambda>c fs1. fstree_sort_node_recursive k fs1 c) ?list (resort fs {n}) = resort (resort fs {n}) (\<Union>c\<in>set ?list. ?sub c)"
    proof (rule fold_resort)
      fix c and fs' :: "'a fstree"
      assume c: "c \<in> set ?list" and fs': "tree_wf fs'" "node_count fs' = node_count (resort fs {n})"
        "child_rel fs' = child_rel (resort fs {n})"
      have "c < node_count fs" "n < c" using child_step [OF Suc.prems(1,3)] c by auto
      then show "fstree_sort_node_recursive k fs' c = resort fs' (?sub c)"
        using Suc.IH [OF fs'(1), of c] fs' Suc.prems(2) resort_wf(2) [OF Suc.prems(1)] by simp
    qed (rule resort_wf [OF Suc.prems(1)])
    then have "fold (\<lambda>c fs1. fstree_sort_node_recursive k fs1 c) ?list (resort fs {n}) = resort fs (?sub n)"
      unfolding sub by (simp add: resort_resort)
    then show ?thesis using True upd by (simp add: list Let_def)
  qed
qed

lemma sorted_tree:
  assumes wf: "tree_wf fs"
  shows "tree_wf (fstree_sort fs) \<and> node_count (fstree_sort fs) = node_count fs \<and>
    (\<forall>n<node_count fs. nodes (fstree_sort fs) n =
       (nodes fs n)\<lparr>children := sort_key (\<lambda>c. n_name (nodes fs c)) (children (nodes fs n))\<rparr>)"
proof -
  let ?A = "{m. (0, m) \<in> (child_rel fs)\<^sup>*}" and ?N = "node_count fs"
  let ?r = "resort fs ?A"
  have N: "0 < ?N" and root0: "root fs = 0" using tree_wfD(1,2) [OF wf] by auto
  have all: "m \<in> ?A" if "m < ?N" for m
    using all_below_root [OF wf, of m] that by (cases "m = 0") (auto simp: trancl_into_rtrancl)
  have rec: "fstree_sort_node_recursive ?N fs (root fs) = ?r"
    using sort_recursive_resort [OF wf, of 0 ?N] N root0 by simp
  have rwf: "tree_wf ?r" by (rule resort_wf [OF wf])
  have lin: "linearize_dir_tree ?N ?r 0 t = below (\<lambda>m. n_type (nodes fs m) = t) ?N ?r 0" for t
    using linearize_below [OF rwf, of 0 ?N t] N by simp
  have set_lin: "set (linearize_dir_tree ?N ?r 0 t) = {m. 0 < m \<and> m < ?N \<and> n_type (nodes fs m) = t}" for t
  proof -
    have "set (linearize_dir_tree ?N ?r 0 t) = {m. (0, m) \<in> (child_rel fs)\<^sup>+ \<and> n_type (nodes fs m) = t}"
      unfolding lin using below_set [OF rwf, of 0 ?N] N resort_wf(2) [OF wf] by simp
    then show ?thesis using all_below_root [OF wf] child_rel_up [OF wf] by fastforce
  qed
  have dist: "distinct (linearize_dir_tree ?N ?r 0 t)" for t
    unfolding lin using below_distinct [OF rwf, of 0 ?N] N by simp
  define bt where "bt = nodes_by_type (fstree_sort fs)"
  have sort: "fstree_sort fs = ?r\<lparr>nodes_by_type := bt\<rparr>"
    and bt: "bt = (\<lambda>t. (if t = TREE_NODE_DIR then [0] else []) @ linearize_dir_tree ?N ?r 0 t)"
    unfolding bt_def using rec root0 by (auto simp: fstree_sort_def Let_def fun_eq_iff)
  have "distinct (bt t) \<and> set (bt t) = {m. m < ?N \<and> n_type (nodes fs m) = t}" for t
  proof -
    have "{m. m < ?N \<and> n_type (nodes fs m) = t} =
        (if t = TREE_NODE_DIR then {0} else {}) \<union> {m. 0 < m \<and> m < ?N \<and> n_type (nodes fs m) = t}"
      using N tree_wfD(3) [OF wf] by (auto intro: gr0I)
    then show ?thesis unfolding bt using set_lin dist by auto
  qed
  then have "tree_wf (?r\<lparr>nodes_by_type := bt\<rparr>)" using rwf unfolding tree_wf_def by simp
  moreover have "nodes ?r n = (nodes fs n)\<lparr>children := sort_key (\<lambda>c. n_name (nodes fs c)) (children (nodes fs n))\<rparr>" if "n < ?N" for n
    using all [OF that] by (simp add: resort_def sort_children_def)
  ultimately show ?thesis unfolding sort by simp
qed

text \<open>C10: sorting the tree keeps it well formed and every node in its place, lists the children of every directory
  in the order of their names and leaves the rest of the nodes alone; the lists by type are rebuilt with every
  node of the type once.\<close>

theorem fstree_sort_ok:
  assumes wf: "tree_wf fs"
  shows "tree_wf (fstree_sort fs) \<and> node_count (fstree_sort fs) = node_count fs \<and>
    (\<forall>n<node_count fs. nodes (fstree_sort fs) n =
       (nodes fs n)\<lparr>children := sort_key (\<lambda>c. n_name (nodes fs c)) (children (nodes fs n))\<rparr>)"
  by (rule sorted_tree [OF assms])

theorem fstree_sort_ok_witness:
  "tree_wf (fstree_sort (fstree_create ())) \<and> node_count (fstree_sort (fstree_create ())) = 1"
  using fstree_sort_ok [OF fstree_create_wf [of "()"]] by (simp add: fstree_create_def)

section \<open>Inode numbers\<close>

text \<open>What the table functions do to a node that gets a number.\<close>

definition assign :: "nat \<Rightarrow> 'v fstree \<times> nat \<Rightarrow> 'v fstree \<times> nat" where
  "assign c = (\<lambda>(fs, index).
     (fs\<lparr>nodes := (nodes fs)(c := (nodes fs c)\<lparr>inode_num := u32 index\<rparr>), inode_table := (inode_table fs)[u32 index := Some c]\<rparr>,
      index + 1))"

definition same_shape :: "'v fstree \<Rightarrow> 'v fstree \<Rightarrow> bool" where
  "same_shape fs fs' \<longleftrightarrow> (\<forall>m. n_type (nodes fs' m) = n_type (nodes fs m) \<and> children (nodes fs' m) = children (nodes fs m))"

abbreviation numbered :: "'v fstree \<Rightarrow> nat \<Rightarrow> bool" where
  "numbered fs m \<equiv> n_type (nodes fs m) \<noteq> TREE_NODE_HARD_LINK"

lemma assign_shape: "same_shape fs (fst st) \<Longrightarrow> same_shape fs (fst (assign c st))"
  by (auto simp: same_shape_def assign_def split: prod.splits)

lemma fold_assign_shape: "same_shape fs (fst st) \<Longrightarrow> same_shape fs (fst (fold assign xs st))"
  by (induction xs arbitrary: st) (auto simp: assign_shape)

lemma map_inode_assign: "same_shape fs (fst st) \<Longrightarrow> map_inode c st = (if numbered fs c then assign c st else st)"
  by (cases st) (auto simp: map_inode_def assign_def same_shape_def upd_node_def Let_def)

lemma fold_map_inode: "same_shape fs (fst st) \<Longrightarrow> fold map_inode cs st = fold assign (filter (numbered fs) cs) st"
  by (induction cs arbitrary: st) (auto simp: map_inode_assign assign_shape)

lemma fold_fold_assign:
  assumes "\<And>c st. c \<in> set cs \<Longrightarrow> same_shape fs (fst st) \<Longrightarrow> g c st = fold assign (h c) st" "same_shape fs (fst st)"
  shows "fold g cs st = fold assign (concat (map h cs)) st"
  using assms by (induction cs arbitrary: st) (auto simp: fold_assign_shape)

lemma map_inodes_assign:
  assumes "tree_wf fs" "n < node_count fs" "same_shape fs (fst st)"
  shows "map_inodes_dfs k n st = fold assign (below (numbered fs) k fs n) st"
  using assms(2,3)
proof (induction k arbitrary: n st)
  case 0
  then show ?case by simp
next
  case (Suc k)
  let ?cs = "children (nodes fs n)"
  have cs: "children (nodes (fst st) n) = ?cs" using Suc.prems(2) by (simp add: same_shape_def)
  define st1 where "st1 = fold assign (filter (numbered fs) ?cs) st"
  have st1: "same_shape fs (fst st1)" using fold_assign_shape [OF Suc.prems(2)] by (simp add: st1_def)
  have "fold (\<lambda>c st. if n_type (nodes (fst st) c) = TREE_NODE_DIR then map_inodes_dfs k c st else st) ?cs st1 =
      fold assign (concat (map (below (numbered fs) k fs) ?cs)) st1"
  proof (rule fold_fold_assign [OF _ st1])
    fix c st' assume c: "c \<in> set ?cs" and sh: "same_shape fs (fst (st' :: 'a fstree \<times> nat))"
    have N: "c < node_count fs" using child_step(3) [OF assms(1) Suc.prems(1) c] .
    show "(if n_type (nodes (fst st') c) = TREE_NODE_DIR then map_inodes_dfs k c st' else st') =
        fold assign (below (numbered fs) k fs c) st'"
      using Suc.IH [OF N sh] sh below_no_dir [OF assms(1) N] by (auto simp: same_shape_def)
  qed
  then show ?case by (simp add: cs fold_map_inode [OF Suc.prems(2)] st1_def [symmetric])
qed

lemma sum_list_filter_concat:
  "sum_list (map (\<lambda>c. (if P c then 1 else 0) + length (g c)) cs) = length (filter P cs) + length (concat (map g cs))"
  by (induction cs) auto

lemma count_inodes_below:
  assumes "tree_wf fs" "node_count fs \<le> n + k" "n < node_count fs"
  shows "count_inodes_dfs k fs n = (if numbered fs n then 1 else 0) + length (below (numbered fs) k fs n)"
  using assms(2,3)
proof (induction k arbitrary: n)
  case 0
  then show ?case by simp
next
  case (Suc k)
  let ?cs = "children (nodes fs n)"
  have c: "c < node_count fs" "n < c" if "c \<in> set ?cs" for c using child_step [OF assms(1) Suc.prems(2) that] by auto
  have IH: "count_inodes_dfs k fs c = (if numbered fs c then 1 else 0) + length (below (numbered fs) k fs c)"
    if "c \<in> set ?cs" for c
    using Suc.IH [of c] c [OF that] Suc.prems by linarith
  have "sum_list (map (count_inodes_dfs k fs) ?cs) =
      sum_list (map (\<lambda>c. (if numbered fs c then 1 else 0) + length (below (numbered fs) k fs c)) ?cs)"
    by (intro arg_cong [of _ _ sum_list] map_cong refl IH)
  also have "\<dots> = length (filter (numbered fs) ?cs) + length (concat (map (below (numbered fs) k fs) ?cs))"
    by (rule sum_list_filter_concat)
  finally have "sum_list (map (count_inodes_dfs k fs) ?cs) = length (below (numbered fs) (Suc k) fs n)" by simp
  moreover have "n_type (nodes fs n) \<noteq> TREE_NODE_DIR \<Longrightarrow> below (numbered fs) (Suc k) fs n = []"
    using below_no_dir [OF assms(1) Suc.prems(2)] by blast
  ultimately show ?case by auto
qed

text \<open>Numbering a list of nodes from \<open>i\<close> on: the table holds the list from there, and each node its place.\<close>

lemma fold_assign:
  assumes "distinct xs" "i + length xs \<le> length (inode_table fs)" "i + length xs \<le> 2 ^ 32" "fold assign xs (fs, i) = (fs', j)"
  shows "length (inode_table fs') = length (inode_table fs) \<and>
    (\<forall>l<length (inode_table fs). inode_table fs' ! l =
       (if i \<le> l \<and> l < i + length xs then Some (xs ! (l - i)) else inode_table fs ! l)) \<and>
    (\<forall>l<length xs. inode_num (nodes fs' (xs ! l)) = i + l) \<and>
    (\<forall>m. m \<notin> set xs \<longrightarrow> nodes fs' m = nodes fs m) \<and>
    (\<forall>m. \<exists>k. nodes fs' m = (nodes fs m)\<lparr>inode_num := k\<rparr>) \<and>
    (\<exists>t. fs' = fs\<lparr>nodes := nodes fs', inode_table := t\<rparr>)"
  using assms
proof (induction xs arbitrary: fs i)
  case Nil
  have "\<exists>k. x = x\<lparr>inode_num := k\<rparr>" for x :: tree_node by (intro exI [of _ "inode_num x"]) simp
  moreover have "\<exists>t. fs = fs\<lparr>nodes := nodes fs, inode_table := t\<rparr>" by (intro exI [of _ "inode_table fs"]) simp
  ultimately show ?case using Nil by auto
next
  case (Cons x xs)
  define fs1 where "fs1 = fst (assign x (fs, i))"
  have i: "u32 i = i" "i < length (inode_table fs)" using Cons.prems by (auto simp: u32_def)
  have fs1: "inode_table fs1 = (inode_table fs)[i := Some x]" "nodes fs1 = (nodes fs)(x := (nodes fs x)\<lparr>inode_num := i\<rparr>)"
      "fs1 = fs\<lparr>nodes := nodes fs1, inode_table := inode_table fs1\<rparr>"
    by (simp_all add: fs1_def assign_def i)
  have run: "fold assign xs (fs1, i + 1) = (fs', j)" using Cons.prems(4) by (simp add: assign_def [of x] fs1_def)
  have IH: "length (inode_table fs') = length (inode_table fs1)"
      "\<And>l. l < length (inode_table fs1) \<Longrightarrow> inode_table fs' ! l =
         (if i + 1 \<le> l \<and> l < i + 1 + length xs then Some (xs ! (l - (i + 1))) else inode_table fs1 ! l)"
      "\<And>l. l < length xs \<Longrightarrow> inode_num (nodes fs' (xs ! l)) = i + 1 + l"
      "\<And>m. m \<notin> set xs \<Longrightarrow> nodes fs' m = nodes fs1 m" "\<And>m. \<exists>k. nodes fs' m = (nodes fs1 m)\<lparr>inode_num := k\<rparr>"
      "\<exists>t. fs' = fs1\<lparr>nodes := nodes fs', inode_table := t\<rparr>"
    using Cons.IH [OF _ _ _ run] Cons.prems fs1(1) by simp_all
  have tab: "inode_table fs' ! l = (if i \<le> l \<and> l < i + length (x # xs) then Some ((x # xs) ! (l - i)) else inode_table fs ! l)"
    if "l < length (inode_table fs)" for l
  proof -
    consider "l < i" | "l = i" | "i < l" by linarith
    then show ?thesis
    proof cases
      case 3
      then have "l - i = Suc (l - (i + 1))" by simp
      then show ?thesis using IH(2) [of l] that fs1(1) 3 by simp
    qed (use IH(2) [of l] that fs1(1) in auto)
  qed
  have "inode_num (nodes fs' ((x # xs) ! l)) = i + l" if "l < length (x # xs)" for l
    using IH(3) [of "l - 1"] IH(4) [of x] that Cons.prems(1) fs1(2) by (cases l) auto
  moreover have "\<exists>k. nodes fs' m = (nodes fs m)\<lparr>inode_num := k\<rparr>" for m
    using IH(5) [of m] fs1(2) by (cases "m = x") auto
  moreover have upd: "fs1\<lparr>nodes := g, inode_table := t\<rparr> = fs\<lparr>nodes := g, inode_table := t\<rparr>" for g t
    by (simp add: fs1_def assign_def)
  moreover have "\<exists>t. fs' = fs\<lparr>nodes := nodes fs', inode_table := t\<rparr>"
    using fs1(3) IH(6) upd by metis
  moreover have "nodes fs' m = nodes fs m" if "m \<notin> set (x # xs)" for m using IH(4) [of m] fs1(2) that by simp
  ultimately show ?case using IH(1) tab fs1(1) by simp
qed

lemma numbered_tree:
  assumes wf: "tree_wf fs" and small: "node_count fs \<le> 2 ^ 32"
  shows "\<exists>fs'. fstree_create_inode_table True fs = (0, fs') \<and>
     distinct (inode_table fs') \<and> set (inode_table fs') = Some ` {n. n < node_count fs \<and> n_type (nodes fs n) \<noteq> TREE_NODE_HARD_LINK} \<and>
     inode_table fs' ! 0 = Some (root fs) \<and>
     (\<forall>i n. i < length (inode_table fs') \<and> inode_table fs' ! i = Some n \<longrightarrow> inode_num (nodes fs' n) = i) \<and>
     (\<forall>n. \<exists>k. nodes fs' n = (nodes fs n)\<lparr>inode_num := k\<rparr>) \<and>
     (\<exists>t. fs' = fs\<lparr>nodes := nodes fs', inode_table := t\<rparr>)"
proof -
  let ?N = "node_count fs"
  define xs where "xs = below (numbered fs) ?N fs 0"
  have N: "0 < ?N" and root0: "root fs = 0" "n_type (nodes fs 0) = TREE_NODE_DIR" using tree_wfD(1-3) [OF wf] by auto
  have dist: "distinct xs" unfolding xs_def using below_distinct [OF wf, of 0 ?N] N by simp
  have sxs: "set xs = {m. 0 < m \<and> m < ?N \<and> numbered fs m}"
  proof -
    have "set xs = {m. (0, m) \<in> (child_rel fs)\<^sup>+ \<and> numbered fs m}"
      unfolding xs_def using below_set [OF wf, of 0 ?N] N by simp
    then show ?thesis using all_below_root [OF wf] child_rel_up [OF wf] by fastforce
  qed
  have len: "1 + length xs \<le> ?N"
  proof -
    have "set (0 # xs) \<subseteq> {..<?N}" using sxs N by auto
    then have "card (set (0 # xs)) \<le> ?N" by (metis card_lessThan card_mono finite_lessThan)
    moreover have "card (set (0 # xs)) = 1 + length xs" using dist sxs by (subst distinct_card) auto
    ultimately show ?thesis by simp
  qed
  have num: "count_inodes_dfs ?N fs (root fs) = 1 + length xs"
    using count_inodes_below [OF wf, of 0 ?N] N root0 by (simp add: xs_def)
  define fs2 where "fs2 = fs\<lparr>nodes := (nodes fs)(0 := (nodes fs 0)\<lparr>inode_num := 0\<rparr>),
      inode_table := (replicate (1 + length xs) None)[0 := Some 0]\<rparr>"
  obtain fs' j where run: "fold assign xs (fs2, 1) = (fs', j)" by fastforce
  have "same_shape fs fs2" by (simp add: same_shape_def fs2_def)
  then have "map_inodes_dfs ?N 0 (fs2, 1) = (fs', j)"
    using map_inodes_assign [OF wf N, of "(fs2, 1)" ?N] run by (simp add: xs_def)
  then have main: "fstree_create_inode_table True fs = (0, fs')"
    unfolding fstree_create_inode_table_def num by (simp add: root0 upd_node_def fs2_def)
  have pre: "1 + length xs \<le> length (inode_table fs2)" "1 + length xs \<le> 2 ^ 32" using len small by (auto simp: fs2_def)
  note fa = fold_assign [OF dist pre run]
  have tab: "inode_table fs' = map Some (0 # xs)"
  proof (rule nth_equalityI)
    show "length (inode_table fs') = length (map Some (0 # xs))" using fa by (simp add: fs2_def)
    fix l assume "l < length (inode_table fs')"
    then show "inode_table fs' ! l = map Some (0 # xs) ! l"
      using fa by (cases l) (auto simp: fs2_def)
  qed
  have "inode_num (nodes fs' n) = i" if "i < length (inode_table fs')" "inode_table fs' ! i = Some n" for i n
  proof (cases i)
    case 0
    then show ?thesis using that tab fa sxs by (simp add: fs2_def)
  next
    case (Suc l)
    then have l: "l < length xs" "n = xs ! l" using that tab by auto
    show ?thesis unfolding l(2) using fa l(1) Suc by simp
  qed
  moreover have "\<exists>k. nodes fs' n = (nodes fs n)\<lparr>inode_num := k\<rparr>" for n
  proof -
    obtain k where "nodes fs' n = (nodes fs2 n)\<lparr>inode_num := k\<rparr>" using fa by blast
    then show ?thesis by (intro exI [of _ k]) (simp add: fs2_def)
  qed
  moreover have "\<exists>t. fs' = fs\<lparr>nodes := nodes fs', inode_table := t\<rparr>"
  proof -
    obtain t where "fs' = fs2\<lparr>nodes := nodes fs', inode_table := t\<rparr>" using fa by blast
    moreover have "fs2\<lparr>nodes := g, inode_table := t\<rparr> = fs\<lparr>nodes := g, inode_table := t\<rparr>" for g by (simp add: fs2_def)
    ultimately show ?thesis by metis
  qed
  moreover have "distinct (inode_table fs')" "inode_table fs' ! 0 = Some (root fs)"
    unfolding tab using dist sxs root0 by (auto simp: distinct_map)
  moreover have "set (inode_table fs') = Some ` {n. n < ?N \<and> numbered fs n}"
  proof -
    have "m < ?N \<and> numbered fs m \<longleftrightarrow> m = 0 \<or> m \<in> set xs" for m using sxs N root0 by (cases "m = 0") auto
    then have "{n. n < ?N \<and> numbered fs n} = insert 0 (set xs)" by blast
    then show ?thesis unfolding tab by simp
  qed
  ultimately show ?thesis using main by blast
qed

text \<open>C11: the inode table holds every node that is not a hard link exactly once, the root first, and the inode
  number of a node is its index in the table; nothing else of the tree changes.\<close>

theorem inode_table_ok:
  assumes wf: "tree_wf fs" and small: "node_count fs \<le> 2 ^ 32"
  shows "\<exists>fs'. fstree_create_inode_table True fs = (0, fs') \<and>
     distinct (inode_table fs') \<and> set (inode_table fs') = Some ` {n. n < node_count fs \<and> n_type (nodes fs n) \<noteq> TREE_NODE_HARD_LINK} \<and>
     inode_table fs' ! 0 = Some (root fs) \<and>
     (\<forall>i n. i < length (inode_table fs') \<and> inode_table fs' ! i = Some n \<longrightarrow> inode_num (nodes fs' n) = i) \<and>
     (\<forall>n. \<exists>k. nodes fs' n = (nodes fs n)\<lparr>inode_num := k\<rparr>) \<and>
     (\<exists>t. fs' = fs\<lparr>nodes := nodes fs', inode_table := t\<rparr>)"
  by (rule numbered_tree [OF assms])

theorem inode_table_ok_witness:
  "\<exists>fs'. fstree_create_inode_table True (fstree_create ()) = (0, fs') \<and> set (inode_table fs') = {Some 0}"
proof -
  have "{n. n < node_count (fstree_create ()) \<and> n_type (nodes (fstree_create ()) n) \<noteq> TREE_NODE_HARD_LINK} = {0}"
    by (auto simp: fstree_create_def calloc_node_def)
  then show ?thesis
    using inode_table_ok [OF fstree_create_wf [of "()"]] by (auto simp: fstree_create_def)
qed

end
