(* ===== verification/Links.thy ===== *)
theory Links
  imports Tree
begin

text \<open>
  Hard links of the file system tree: \<open>lib/filesystem/fstree/resolve_hard_links.c\<close>.

  A hard link names its target by a path. The function looks up every target, then shortens chains of links until
  every link refers to a node that is not a link, and counts the links of every node. The loop that shortens chains
  ends because each round that does not end it brings a link to its destination. The outcome is shown to be exactly
  the end of the chain of each link, and the function to fail exactly if a path leads nowhere or a chain has no end.
\<close>

section \<open>Operations\<close>

text \<open>The two lookups of the first loop; the tree does not change as no directory is created.\<close>

definition find_target :: "'v fstree \<Rightarrow> nat \<Rightarrow> nat option" where
  "find_target fs n =
     (let target = link_target (nodes fs n)
      in case fstree_node_from_path (\<lambda>_. False) fs None target (length target) False of
           (Inr t, _) \<Rightarrow> Some t
         | (Inl _, _) \<Rightarrow>
             (case fstree_node_from_path (\<lambda>_. False) fs (n_parent (nodes fs n)) target (length target) False of
                (Inr t, _) \<Rightarrow> Some t
              | (Inl _, _) \<Rightarrow> None))"

abbreviation set_resolved :: "'v fstree \<Rightarrow> nat \<Rightarrow> nat option \<Rightarrow> 'v fstree" where
  "set_resolved fs n t \<equiv> upd_node fs n (\<lambda>x. x\<lparr>link_resolved := t\<rparr>)"

fun resolve_links :: "'v fstree \<Rightarrow> nat list \<Rightarrow> bool \<times> 'v fstree" where
  "resolve_links fs [] = (True, fs)"
| "resolve_links fs (n # ns) =
     (case find_target fs n of
        None \<Rightarrow> (False, fs)
      | Some t \<Rightarrow> resolve_links (set_resolved fs n (Some t)) ns)"

abbreviation is_link :: "'v fstree \<Rightarrow> nat \<Rightarrow> bool" where
  "is_link fs n \<equiv> n_type (nodes fs n) = TREE_NODE_HARD_LINK"

text \<open>One pass of the inner loop, with the counters \<open>remaining\<close> and \<open>resolved\<close>. The pointer \<open>resolved\<close> of a link is
  set when the loop runs; the case where it is \<open>NULL\<close> does not arise.\<close>

definition shorten_link :: "nat \<Rightarrow> 'v fstree \<times> nat \<times> nat \<Rightarrow> 'v fstree \<times> nat \<times> nat" where
  "shorten_link n = (\<lambda>(fs, remaining, resolved).
     case link_resolved (nodes fs n) of
       None \<Rightarrow> (fs, remaining, resolved)
     | Some target \<Rightarrow>
         (if is_link fs target then
            (case link_resolved (nodes fs target) of
               None \<Rightarrow> (fs, remaining, resolved)
             | Some target' \<Rightarrow>
                 (let fs1 = set_resolved fs n (Some target')
                  in if is_link fs1 target' then (fs1, remaining + 1, resolved) else (fs1, remaining, resolved + 1)))
          else (fs, remaining, resolved)))"

definition shorten_round :: "'v fstree \<Rightarrow> 'v fstree \<times> nat \<times> nat" where
  "shorten_round fs = fold shorten_link (nodes_by_type fs TREE_NODE_HARD_LINK) (fs, 0, 0)"

text \<open>The links that still refer to a link.\<close>

definition pending :: "'v fstree \<Rightarrow> nat set" where
  "pending fs = {n \<in> set (nodes_by_type fs TREE_NODE_HARD_LINK). \<exists>t. link_resolved (nodes fs n) = Some t \<and> is_link fs t}"

definition relink :: "'v fstree \<Rightarrow> (nat \<Rightarrow> nat option) \<Rightarrow> 'v fstree" where
  "relink fs p = fs\<lparr>nodes := (\<lambda>m. (nodes fs m)\<lparr>link_resolved := p m\<rparr>)\<rparr>"

lemma relink_id: "relink fs (\<lambda>m. link_resolved (nodes fs m)) = fs"
  by (simp add: relink_def)

lemma relink_simps [simp]:
  "n_type (nodes (relink fs p) m) = n_type (nodes fs m)" "link_resolved (nodes (relink fs p) m) = p m"
  "nodes_by_type (relink fs p) = nodes_by_type fs" "node_count (relink fs p) = node_count fs" "root (relink fs p) = root fs"
  "n_parent (nodes (relink fs p) m) = n_parent (nodes fs m)" "link_target (nodes (relink fs p) m) = link_target (nodes fs m)"
  "link_count (nodes (relink fs p) m) = link_count (nodes fs m)"
  by (simp_all add: relink_def)

lemma set_resolved_relink: "set_resolved (relink fs p) n t = relink fs (p(n := t))"
  by (auto simp: relink_def upd_node_def fun_eq_iff)

text \<open>A pass on the pointers alone.\<close>

definition shorten_ptr :: "'v fstree \<Rightarrow> nat \<Rightarrow> (nat \<Rightarrow> nat option) \<times> nat \<times> nat \<Rightarrow> (nat \<Rightarrow> nat option) \<times> nat \<times> nat" where
  "shorten_ptr fs n = (\<lambda>(p, remaining, resolved).
     case p n of None \<Rightarrow> (p, remaining, resolved)
     | Some t \<Rightarrow> (if is_link fs t then
         (case p t of None \<Rightarrow> (p, remaining, resolved)
          | Some t' \<Rightarrow> (if is_link fs t' then (p(n := Some t'), remaining + 1, resolved) else (p(n := Some t'), remaining, resolved + 1)))
         else (p, remaining, resolved)))"

lemma shorten_link_ptr: "shorten_link n (relink fs p, a, b) = (case shorten_ptr fs n (p, a, b) of (p', a', b') \<Rightarrow> (relink fs p', a', b'))"
  by (auto simp: shorten_link_def shorten_ptr_def set_resolved_relink Let_def split: option.splits)

lemma fold_shorten_ptr: "fold shorten_link ns (relink fs p, a, b) = (case fold (shorten_ptr fs) ns (p, a, b) of (p', a', b') \<Rightarrow> (relink fs p', a', b'))"
proof (induction ns arbitrary: p a b)
  case (Cons n ns)
  obtain p1 a1 b1 where "shorten_ptr fs n (p, a, b) = (p1, a1, b1)" by (metis prod_cases3)
  then show ?case using Cons by (simp add: shorten_link_ptr)
qed simp

definition bad :: "'v fstree \<Rightarrow> (nat \<Rightarrow> nat option) \<Rightarrow> nat \<Rightarrow> bool" where
  "bad fs p n \<longleftrightarrow> (\<exists>t. p n = Some t \<and> is_link fs t)"

lemma fold_shorten_bad:
  assumes "fold (shorten_ptr fs) ns (p, a, b) = (p', a', b')"
  shows "a \<le> a' \<and> b \<le> b' \<and> (\<forall>n. bad fs p' n \<longrightarrow> bad fs p n) \<and> (b < b' \<longrightarrow> (\<exists>n\<in>set ns. bad fs p n \<and> \<not> bad fs p' n))"
  using assms
proof (induction ns arbitrary: p a b)
  case (Cons m ns)
  obtain p1 a1 b1 where s: "shorten_ptr fs m (p, a, b) = (p1, a1, b1)" by (metis prod_cases3)
  have step: "a \<le> a1" "b \<le> b1" "bad fs p1 n \<Longrightarrow> bad fs p n" "b < b1 \<Longrightarrow> bad fs p m \<and> \<not> bad fs p1 m" for n
    using s by (auto simp: shorten_ptr_def bad_def split: option.splits if_splits)
  have run: "fold (shorten_ptr fs) ns (p1, a1, b1) = (p', a', b')" using Cons.prems s by simp
  note IH = Cons.IH [OF run]
  have "\<exists>n\<in>set (m # ns). bad fs p n \<and> \<not> bad fs p' n" if "b < b'"
  proof (cases "b < b1")
    case True
    then show ?thesis using step(4) IH by auto
  next
    case False
    then have "b1 < b'" using that step(2) by simp
    then show ?thesis using IH step(3) by auto
  qed
  then show ?case using IH step(1-3) by auto
qed auto

lemma shorten_round_ptr:
  "shorten_round (relink fs p) = (case fold (shorten_ptr fs) (nodes_by_type fs TREE_NODE_HARD_LINK) (p, 0, 0) of (p', a, b) \<Rightarrow> (relink fs p', a, b))"
  by (simp add: shorten_round_def fold_shorten_ptr)

lemma pending_bad: "pending (relink fs p) = {n \<in> set (nodes_by_type fs TREE_NODE_HARD_LINK). bad fs p n}"
  by (simp add: pending_def bad_def)

lemma shorten_round_less:
  assumes "shorten_round fs = (fs', a, b)" "0 < b"
  shows "card (pending fs') < card (pending fs)"
proof -
  obtain p' a' b' where p': "fold (shorten_ptr fs) (nodes_by_type fs TREE_NODE_HARD_LINK) (\<lambda>m. link_resolved (nodes fs m), 0, 0) = (p', a', b')"
    by (metis prod_cases3)
  then have fs': "fs' = relink fs p'" "b' = b"
    using assms(1) shorten_round_ptr [of fs "\<lambda>m. link_resolved (nodes fs m)"] by (auto simp: relink_id)
  note B = fold_shorten_bad [OF p']
  have "pending fs' \<subseteq> pending fs"
    unfolding fs' using pending_bad [of fs "\<lambda>m. link_resolved (nodes fs m)"] B by (auto simp: pending_bad relink_id)
  moreover have "pending fs' \<noteq> pending fs"
    unfolding fs' using pending_bad [of fs "\<lambda>m. link_resolved (nodes fs m)"] B assms(2) fs'(2)
    by (auto simp: pending_bad relink_id)
  ultimately have "pending fs' \<subset> pending fs" by blast
  then show ?thesis by (intro psubset_card_mono) (auto simp: pending_def)
qed

function shorten_loop :: "'v fstree \<Rightarrow> bool \<times> 'v fstree" where
  "shorten_loop fs =
     (case shorten_round fs of (fs1, remaining, resolved) \<Rightarrow>
        if remaining = 0 then (True, fs1)
        else if resolved = 0 then (False, fs1)
        else shorten_loop fs1)"
  by pat_completeness auto
termination
  by (relation "measure (\<lambda>fs. card (pending fs))") (auto intro: shorten_round_less [OF sym])

declare shorten_loop.simps [simp del]

definition count_link :: "nat \<Rightarrow> 'v fstree \<Rightarrow> 'v fstree" where
  "count_link n fs =
     (case link_resolved (nodes fs n) of
        None \<Rightarrow> fs
      | Some target \<Rightarrow> upd_node fs target (\<lambda>x. x\<lparr>link_count := u32 (link_count x + 1)\<rparr>))"

definition fstree_resolve_hard_links :: "'v fstree \<Rightarrow> int \<times> 'v fstree" where
  "fstree_resolve_hard_links fs =
     (case resolve_links fs (nodes_by_type fs TREE_NODE_HARD_LINK) of
        (False, fs1) \<Rightarrow> (- 1, fs1)
      | (True, fs1) \<Rightarrow>
          (case shorten_loop fs1 of
             (False, fs2) \<Rightarrow> (- 1, fs2)
           | (True, fs2) \<Rightarrow> (0, fold count_link (nodes_by_type fs2 TREE_NODE_HARD_LINK) fs2)))"

section \<open>The destination of a link\<close>

lemma relink_wf:
  assumes "tree_wf fs"
  shows "tree_wf (relink fs p)" "extends fs (relink fs p)" "extends (relink fs p) fs"
proof -
  have n: "n_name (nodes (relink fs p) m) = n_name (nodes fs m)" "children (nodes (relink fs p) m) = children (nodes fs m)" for m
    by (simp_all add: relink_def)
  show "tree_wf (relink fs p)" using assms unfolding tree_wf_def by (simp add: n)
  show "extends fs (relink fs p)" "extends (relink fs p) fs" by (simp_all add: extends_def n)
qed

lemma walk_relink:
  assumes "tree_wf fs" "n < node_count fs"
  shows "fst (walk mem False (relink fs p) n path) = Inr m \<longleftrightarrow> fst (walk mem False fs n path) = Inr m"
proof -
  have sl: "\<forall>x\<in>set (names path). slash \<notin> set x" using names_props by blast
  have "fst (walk_steps mem False fs' n (names path)) = Inr m"
    if h: "fst (walk_steps mem False fs n (names path)) = Inr m" "tree_wf fs" "n < node_count fs" "extends fs fs'" "tree_wf fs'"
    for fs fs' :: "'a fstree"
  proof -
    obtain fs1 where w: "walk_steps mem False fs n (names path) = (Inr m, fs1)" using h(1) by (cases "walk_steps mem False fs n (names path)") simp
    then have "fs1 = fs" using walk_steps_ok [OF h(2,3) sl w] by simp
    then show ?thesis using walk_steps_again [OF h(2,3) sl w _ h(5)] h(4) by simp
  qed
  from this [of fs "relink fs p"] this [of "relink fs p" fs] show ?thesis
    unfolding walk_steps using assms relink_wf [OF assms(1), of p] by auto
qed

lemma find_target_relink:
  assumes "tree_wf fs" "n < node_count fs"
  shows "find_target (relink fs p) n = find_target fs n"
proof -
  have up: "(case n_parent (nodes fs n) of None \<Rightarrow> root fs | Some r \<Rightarrow> r) < node_count fs"
  proof (cases "n = 0")
    case True
    then show ?thesis using tree_wfD(1,2,4) [OF assms(1)] by simp
  next
    case False
    then obtain q where "q < n" "n_parent (nodes fs n) = Some q" using tree_wfD(5) [OF assms(1), of n] assms(2) by auto
    then show ?thesis using assms(2) by simp
  qed
  have found: "find_target fs' n = Some t \<longleftrightarrow>
      fst (walk (\<lambda>_. False) False fs' (root fs') (link_target (nodes fs' n))) = Inr t \<or>
      (\<nexists>t. fst (walk (\<lambda>_. False) False fs' (root fs') (link_target (nodes fs' n))) = Inr t) \<and>
      fst (walk (\<lambda>_. False) False fs' (case n_parent (nodes fs' n) of None \<Rightarrow> root fs' | Some r \<Rightarrow> r) (link_target (nodes fs' n))) = Inr t"
    for fs' :: "'a fstree" and t
    by (auto simp: find_target_def fstree_node_from_path_def Let_def split: prod.splits sum.splits)
  have "root fs < node_count fs" using tree_wfD(1,2) [OF assms(1)] by simp
  then have "find_target (relink fs p) n = Some t \<longleftrightarrow> find_target fs n = Some t" for t
    unfolding found relink_simps using walk_relink [OF assms(1), where p = p] up by simp
  then show ?thesis by (metis not_Some_eq)
qed

lemma find_target_less:
  assumes "tree_wf fs" "n < node_count fs" "find_target fs n = Some t"
  shows "t < node_count fs"
proof -
  have w: "m < node_count fs" if "walk mem False fs k path = (Inr m, fs')" "k < node_count fs" for mem k path m fs'
  proof -
    have "\<forall>x\<in>set (names path). slash \<notin> set x" using names_props by blast
    then show ?thesis using walk_steps_ok [OF assms(1) that(2) _ that(1) [unfolded walk_steps]] by auto
  qed
  have "(case n_parent (nodes fs n) of None \<Rightarrow> root fs | Some r \<Rightarrow> r) < node_count fs"
  proof (cases "n = 0")
    case True
    then show ?thesis using tree_wfD(1,2,4) [OF assms(1)] by simp
  next
    case False
    then obtain q where "q < n" "n_parent (nodes fs n) = Some q" using tree_wfD(5) [OF assms(1), of n] assms(2) by auto
    then show ?thesis using assms(2) by simp
  qed
  then show ?thesis
    using assms(3) w tree_wfD(1,2) [OF assms(1)]
    by (auto simp: find_target_def fstree_node_from_path_def Let_def split: prod.splits sum.splits)
qed

text \<open>The relation from a link to the node its path names.\<close>

definition link_rel :: "'v fstree \<Rightarrow> (nat \<times> nat) set" where
  "link_rel fs = {(n, t). n < node_count fs \<and> is_link fs n \<and> find_target fs n = Some t}"

abbreviation links :: "'v fstree \<Rightarrow> nat set" where
  "links fs \<equiv> {n. n < node_count fs \<and> is_link fs n}"

text \<open>Every pointer leads along the chain of its link.\<close>

definition on_chain :: "'v fstree \<Rightarrow> (nat \<Rightarrow> nat option) \<Rightarrow> bool" where
  "on_chain fs p \<longleftrightarrow> (\<forall>n\<in>links fs. \<exists>t. p n = Some t \<and> (n, t) \<in> (link_rel fs)\<^sup>+)"

lemma link_rel_less:
  assumes "tree_wf fs" "(n, t) \<in> (link_rel fs)\<^sup>+"
  shows "n \<in> links fs \<and> t < node_count fs"
  using assms(2)
proof (induction rule: trancl_induct)
  case (base y)
  then show ?case using find_target_less [OF assms(1)] by (auto simp: link_rel_def)
next
  case (step y z)
  then show ?case using find_target_less [OF assms(1)] by (auto simp: link_rel_def)
qed

lemma resolve_links_ptr:
  assumes "tree_wf fs" "\<forall>n\<in>set ns. n < node_count fs"
  shows "\<exists>p'. resolve_links (relink fs p) ns = ((\<forall>n\<in>set ns. find_target fs n \<noteq> None), relink fs p') \<and>
     ((\<forall>n\<in>set ns. find_target fs n \<noteq> None) \<longrightarrow> p' = (\<lambda>m. if m \<in> set ns then find_target fs m else p m))"
  using assms(2)
proof (induction ns arbitrary: p)
  case Nil
  then show ?case by auto
next
  case (Cons n ns)
  have ft: "find_target (relink fs p) n = find_target fs n" using find_target_relink [OF assms(1)] Cons.prems by simp
  show ?case
  proof (cases "find_target fs n")
    case None
    then show ?thesis using ft by auto
  next
    case (Some t)
    have tl: "\<forall>m\<in>set ns. m < node_count fs" using Cons.prems by simp
    obtain p' where p': "resolve_links (relink fs (p(n := Some t))) ns = ((\<forall>n\<in>set ns. find_target fs n \<noteq> None), relink fs p')"
        "(\<forall>n\<in>set ns. find_target fs n \<noteq> None) \<longrightarrow> p' = (\<lambda>m. if m \<in> set ns then find_target fs m else (p(n := Some t)) m)"
      using Cons.IH [of "p(n := Some t)", OF tl] by (elim exE conjE)
    have "p' = (\<lambda>m. if m \<in> set (n # ns) then find_target fs m else p m)" if "\<forall>n\<in>set ns. find_target fs n \<noteq> None"
      using p'(2) that Some by (simp add: fun_eq_iff)
    then show ?thesis
      using p'(1) Some ft by (intro exI [of _ p']) (simp add: set_resolved_relink)
  qed
qed

section \<open>Shortening the chains\<close>

lemma shorten_ptr_chain:
  assumes wf: "tree_wf fs" and oc: "on_chain fs p" and n: "n \<in> links fs" and s: "shorten_ptr fs n (p, a, b) = (p', a', b')"
  shows "on_chain fs p'"
proof -
  obtain t where t: "p n = Some t" "(n, t) \<in> (link_rel fs)\<^sup>+" using oc n by (auto simp: on_chain_def)
  show ?thesis
  proof (cases "is_link fs t")
    case True
    then have "t \<in> links fs" using link_rel_less [OF wf t(2)] by simp
    then obtain u where u: "p t = Some u" "(t, u) \<in> (link_rel fs)\<^sup>+" using oc by (auto simp: on_chain_def)
    have "p' = p(n := Some u)" using s t(1) u(1) True by (auto simp: shorten_ptr_def split: if_splits)
    then show ?thesis using oc trancl_trans [OF t(2) u(2)] by (auto simp: on_chain_def)
  next
    case False
    then show ?thesis using s t(1) oc by (simp add: shorten_ptr_def)
  qed
qed

text \<open>After a pass: the pointers are still on the chains, no link is left pending if none remained, and a link
  whose target has arrived arrives as well.\<close>

lemma shorten_ptrs_chain:
  assumes wf: "tree_wf fs" and oc: "on_chain fs p" and ns: "set ns \<subseteq> links fs" and run: "fold (shorten_ptr fs) ns (p, a, b) = (p', a', b')"
  shows "on_chain fs p'" "a = a' \<Longrightarrow> n \<in> set ns \<Longrightarrow> \<not> bad fs p' n"
    "n \<in> set ns \<Longrightarrow> p n = Some t \<Longrightarrow> is_link fs t \<Longrightarrow> \<not> bad fs p t \<Longrightarrow> b < b'"
proof -
  have "on_chain fs p' \<and> (a = a' \<longrightarrow> (\<forall>n\<in>set ns. \<not> bad fs p' n)) \<and>
     (\<forall>n\<in>set ns. \<forall>t. p n = Some t \<and> is_link fs t \<and> \<not> bad fs p t \<longrightarrow> b < b')"
    using oc ns run
  proof (induction ns arbitrary: p a b)
    case Nil
    then show ?case by auto
  next
    case (Cons m ns)
    obtain p1 a1 b1 where s: "shorten_ptr fs m (p, a, b) = (p1, a1, b1)" by (metis prod_cases3)
    have m: "m \<in> links fs" using Cons.prems(2) by simp
    note oc1 = shorten_ptr_chain [OF wf Cons.prems(1) m s]
    have run1: "fold (shorten_ptr fs) ns (p1, a1, b1) = (p', a', b')" using Cons.prems(3) s by simp
    note IH = Cons.IH [OF oc1 _ run1] and B = fold_shorten_bad [OF run1]
    have step: "a \<le> a1" "b \<le> b1" "bad fs p1 n \<Longrightarrow> bad fs p n" for n
      using s by (auto simp: shorten_ptr_def bad_def split: option.splits if_splits)
    obtain t where t: "p m = Some t" "(m, t) \<in> (link_rel fs)\<^sup>+" using Cons.prems(1) m by (auto simp: on_chain_def)
    have tgt: "\<exists>u. p t = Some u" if "is_link fs t"
      using Cons.prems(1) that link_rel_less [OF wf t(2)] by (auto simp: on_chain_def)
    have rem: "bad fs p1 m \<Longrightarrow> a < a1"
      using s t(1) tgt by (auto simp: shorten_ptr_def bad_def split: option.splits if_splits)
    have res: "is_link fs t \<Longrightarrow> \<not> bad fs p t \<Longrightarrow> b < b1"
      using s t(1) tgt by (auto simp: shorten_ptr_def bad_def split: option.splits if_splits)
    have other: "p1 n = p n" if "n \<noteq> m" for n
      using s that by (auto simp: shorten_ptr_def split: option.splits if_splits)
    have "\<not> bad fs p' m" if "a = a'" using rem B step(1) that by auto
    moreover have "b < b'" if h: "n \<in> set ns" "p n = Some u" "is_link fs u" "\<not> bad fs p u" for n u
    proof (cases "n = m")
      case True
      then show ?thesis using res h t(1) B by auto
    next
      case False
      then have "p1 n = Some u" "\<not> bad fs p1 u" using other h(2,4) step(3) by auto
      then show ?thesis using IH Cons.prems(2) h(1,3) step(2) by auto
    qed
    ultimately show ?case using IH Cons.prems(2) res t(1) B step by auto
  qed
  then show "on_chain fs p'" "a = a' \<Longrightarrow> n \<in> set ns \<Longrightarrow> \<not> bad fs p' n"
    "n \<in> set ns \<Longrightarrow> p n = Some t \<Longrightarrow> is_link fs t \<Longrightarrow> \<not> bad fs p t \<Longrightarrow> b < b'" by blast+
qed

text \<open>If every chain has an end, a pass that leaves links pending brings one to its destination.\<close>

lemma shorten_progress:
  assumes wf: "tree_wf fs" and oc: "on_chain fs p" and ends: "wf ((link_rel fs)\<inverse>)" and ns: "set ns = links fs"
    and run: "fold (shorten_ptr fs) ns (p, 0, 0) = (p', a', 0)"
  shows "a' = 0"
proof (rule ccontr)
  assume "a' \<noteq> 0"
  have nobad: "\<not> bad fs p n" if "n \<in> links fs" for n
    using wf_trancl [OF ends] that
  proof (induction n rule: wf_induct_rule)
    case (less n)
    show ?case
    proof
      assume "bad fs p n"
      then obtain t where t: "p n = Some t" "is_link fs t" by (auto simp: bad_def)
      then have tr: "(n, t) \<in> (link_rel fs)\<^sup>+" using oc less.prems by (auto simp: on_chain_def)
      then have "\<not> bad fs p t" using less.IH [of t] t(2) link_rel_less [OF wf tr] by (auto simp: trancl_converse)
      then show False using shorten_ptrs_chain(3) [OF wf oc _ run, of n t] ns less.prems t by simp
    qed
  qed
  have "a' = a" if "fold (shorten_ptr fs) ms (p, a, b) = (p', a', b')" "set ms \<subseteq> links fs" for ms a b b'
    using that
  proof (induction ms arbitrary: a b)
    case (Cons m ms)
    have "\<not> bad fs p m" using nobad Cons.prems(2) by simp
    then have "shorten_ptr fs m (p, a, b) = (p, a, b)"
      by (auto simp: shorten_ptr_def bad_def split: option.splits)
    then show ?case using Cons by simp
  qed simp
  then show False using run ns \<open>a' \<noteq> 0\<close> by blast
qed

lemma shorten_loop_chain:
  assumes wf: "tree_wf fs" and oc: "on_chain fs p"
  shows "\<exists>ok p'. shorten_loop (relink fs p) = (ok, relink fs p') \<and> on_chain fs p' \<and>
     (ok \<longrightarrow> (\<forall>n\<in>links fs. \<not> bad fs p' n)) \<and> (wf ((link_rel fs)\<inverse>) \<longrightarrow> ok)"
  using oc
proof (induction "card (pending (relink fs p))" arbitrary: p rule: less_induct)
  case less
  let ?L = "nodes_by_type fs TREE_NODE_HARD_LINK"
  have L: "set ?L = links fs" using tree_wfD(10) [OF wf] by simp
  obtain p1 a b where run: "fold (shorten_ptr fs) ?L (p, 0, 0) = (p1, a, b)" by (metis prod_cases3)
  have rnd: "shorten_round (relink fs p) = (relink fs p1, a, b)" using run by (simp add: shorten_round_ptr)
  note C = shorten_ptrs_chain [OF wf less.prems equalityD1 [OF L] run]
  note loop = shorten_loop.simps [of "relink fs p", unfolded rnd, simplified]
  consider "a = 0" | "a \<noteq> 0" "b = 0" | "a \<noteq> 0" "0 < b" by blast
  then show ?case
  proof cases
    case 1
    then show ?thesis using loop C(1,2) L by (intro exI [of _ True] exI [of _ p1]) auto
  next
    case 2
    then have "\<not> wf ((link_rel fs)\<inverse>)" using shorten_progress [OF wf less.prems _ L] run by blast
    then show ?thesis using loop 2 C(1) by (intro exI [of _ False] exI [of _ p1]) auto
  next
    case 3
    then have "card (pending (relink fs p1)) < card (pending (relink fs p))" using shorten_round_less [OF rnd] by simp
    then show ?thesis using less.hyps [OF _ C(1)] loop 3 by simp
  qed
qed

section \<open>The result\<close>

lemma fold_count_link:
  assumes "\<forall>m. link_count (nodes fs m) < 2 ^ 32"
  shows "\<exists>c. fold count_link ns fs = fs\<lparr>nodes := (\<lambda>m. (nodes fs m)\<lparr>link_count := c m\<rparr>)\<rparr> \<and>
     (\<forall>m. c m = u32 (link_count (nodes fs m) + length (filter (\<lambda>n. link_resolved (nodes fs n) = Some m) ns)))"
  using assms
proof (induction ns arbitrary: fs)
  case Nil
  then show ?case by (intro exI [of _ "\<lambda>m. link_count (nodes fs m)"]) (simp add: u32_def)
next
  case (Cons n ns)
  define fs1 where "fs1 = count_link n fs"
  define d where "d = (\<lambda>m. if link_resolved (nodes fs n) = Some m then u32 (link_count (nodes fs m) + 1) else link_count (nodes fs m))"
  have fs1: "fs1 = fs\<lparr>nodes := (\<lambda>m. (nodes fs m)\<lparr>link_count := d m\<rparr>)\<rparr>"
    by (auto simp: fs1_def count_link_def d_def upd_node_def fun_eq_iff split: option.splits)
  have "\<forall>m. link_count (nodes fs1 m) < 2 ^ 32" using Cons.prems by (simp add: fs1 d_def u32_def)
  from Cons.IH [OF this] obtain c where c: "fold count_link ns fs1 = fs1\<lparr>nodes := (\<lambda>m. (nodes fs1 m)\<lparr>link_count := c m\<rparr>)\<rparr>"
    "\<forall>m. c m = u32 (link_count (nodes fs1 m) + length (filter (\<lambda>n. link_resolved (nodes fs1 n) = Some m) ns))" by blast
  have "c m = u32 (link_count (nodes fs m) + length (filter (\<lambda>n. link_resolved (nodes fs n) = Some m) (n # ns)))" for m
    using c(2) by (simp add: fs1 d_def u32_def mod_simps)
  then show ?case using c(1) by (intro exI [of _ c]) (simp add: fs1_def [symmetric], simp add: fs1)
qed

lemma on_cycle:
  assumes "(n, t) \<in> (link_rel fs)\<^sup>*" "(n, n) \<in> (link_rel fs)\<^sup>+"
  shows "(t, t) \<in> (link_rel fs)\<^sup>+"
  using assms
proof (induction rule: rtrancl_induct)
  case (step y z)
  then obtain w where w: "(y, w) \<in> link_rel fs" "(w, y) \<in> (link_rel fs)\<^sup>*" by (meson tranclD)
  then have "w = z" using step(2) by (simp add: link_rel_def)
  then show ?case using w(2) step(2) by (meson rtrancl_into_trancl1)
qed

lemma ends_iff: "tree_wf fs \<Longrightarrow> acyclic (link_rel fs) \<longleftrightarrow> wf ((link_rel fs)\<inverse>)"
proof -
  assume wf: "tree_wf fs"
  have "link_rel fs \<subseteq> {..<node_count fs} \<times> {..<node_count fs}"
    using find_target_less [OF wf] by (auto simp: link_rel_def)
  then have "finite (link_rel fs)" by (rule finite_subset) simp
  then show ?thesis by (metis acyclic_converse finite_acyclic_wf_converse wf_acyclic)
qed

lemma resolved_tree:
  assumes wf: "tree_wf fs" and small: "\<forall>m. link_count (nodes fs m) < 2 ^ 32"
  shows "if (\<forall>n\<in>links fs. find_target fs n \<noteq> None) \<and> acyclic (link_rel fs)
    then \<exists>p c. fstree_resolve_hard_links fs =
             (0, fs\<lparr>nodes := (\<lambda>m. (nodes fs m)\<lparr>link_resolved := p m, link_count := c m\<rparr>)\<rparr>) \<and>
           (\<forall>n\<in>links fs. \<exists>t. p n = Some t \<and> (n, t) \<in> (link_rel fs)\<^sup>+ \<and> \<not> is_link fs t) \<and>
           (\<forall>m. c m = u32 (link_count (nodes fs m) + card {n \<in> links fs. p n = Some m}))
    else fst (fstree_resolve_hard_links fs) = - 1"
proof -
  let ?L = "nodes_by_type fs TREE_NODE_HARD_LINK" and ?p0 = "\<lambda>m. link_resolved (nodes fs m)"
  have L: "set ?L = links fs" "distinct ?L" using tree_wfD(9,10) [OF wf] by auto
  let ?found = "\<forall>n\<in>links fs. find_target fs n \<noteq> None"
  obtain p1 where p1: "resolve_links fs ?L = (?found, relink fs p1)"
      "?found \<longrightarrow> p1 = (\<lambda>m. if m \<in> links fs then find_target fs m else ?p0 m)"
    using resolve_links_ptr [OF wf, of ?L ?p0] L(1) relink_id [of fs] by auto
  show ?thesis
  proof (cases ?found)
    case False
    then have "?found = False" by blast
    then have "resolve_links fs ?L = (False, relink fs p1)" using p1(1) by (simp only:)
    then have "fst (fstree_resolve_hard_links fs) = - 1" by (simp add: fstree_resolve_hard_links_def)
    then show ?thesis using False by (simp only: if_False simp_thms)
  next
    case found: True
    have "on_chain fs p1" unfolding on_chain_def using p1(2) found by (auto simp: link_rel_def)
    from shorten_loop_chain [OF wf this] obtain ok p2 where p2: "shorten_loop (relink fs p1) = (ok, relink fs p2)" "on_chain fs p2"
        "ok \<longrightarrow> (\<forall>n\<in>links fs. \<not> bad fs p2 n)" "wf ((link_rel fs)\<inverse>) \<longrightarrow> ok" by blast
    have res: "resolve_links fs ?L = (True, relink fs p1)" using p1(1) found by simp
    have ends: "\<exists>t. p2 n = Some t \<and> (n, t) \<in> (link_rel fs)\<^sup>+ \<and> \<not> is_link fs t" if "ok" "n \<in> links fs" for n
      using p2(2,3) that by (auto simp: on_chain_def bad_def)
    have iff: "ok \<longleftrightarrow> acyclic (link_rel fs)"
    proof
      assume ok: ok
      show "acyclic (link_rel fs)"
      proof (rule acyclicI, rule allI, rule notI)
        fix n assume cyc: "(n, n) \<in> (link_rel fs)\<^sup>+"
        then have "n \<in> links fs" using link_rel_less [OF wf cyc] by blast
        then obtain t where "(n, t) \<in> (link_rel fs)\<^sup>+" "\<not> is_link fs t" using ends [OF ok] by blast
        then show False using on_cycle [OF _ cyc] link_rel_less [OF wf, of t t] by (auto simp: trancl_into_rtrancl)
      qed
    qed (use p2(4) ends_iff [OF wf] in blast)
    show ?thesis
    proof (cases ok)
      case False
      then show ?thesis using iff found res p2(1) by (simp add: fstree_resolve_hard_links_def)
    next
      case True
      from fold_count_link [of "relink fs p2" ?L] small obtain c where c:
        "fold count_link ?L (relink fs p2) = (relink fs p2)\<lparr>nodes := (\<lambda>m. (nodes (relink fs p2) m)\<lparr>link_count := c m\<rparr>)\<rparr>"
        "\<forall>m. c m = u32 (link_count (nodes fs m) + length (filter (\<lambda>n. p2 n = Some m) ?L))" by auto
      have "length (filter (\<lambda>n. p2 n = Some m) ?L) = card {n \<in> links fs. p2 n = Some m}" for m
        using distinct_length_filter [OF L(2)] L(1) by (simp add: Int_def conj_commute)
      then have cnt: "\<forall>m. c m = u32 (link_count (nodes fs m) + card {n \<in> links fs. p2 n = Some m})" using c(2) by simp
      have "fstree_resolve_hard_links fs = (0, fs\<lparr>nodes := (\<lambda>m. (nodes fs m)\<lparr>link_resolved := p2 m, link_count := c m\<rparr>)\<rparr>)"
        using res p2(1) True c(1) by (simp add: fstree_resolve_hard_links_def relink_def)
      moreover have cond: "?found \<and> acyclic (link_rel fs)" using found iff True by blast
      ultimately show ?thesis unfolding if_P [OF cond] using ends [OF True] cnt by blast
    qed
  qed
qed

text \<open>C12: resolving hard links succeeds exactly if the path of every link leads to a node and no chain of links
  runs in a circle. Every link then refers to the node at the end of its chain, which is not a link, every node
  counts the links that refer to it, and the tree is unchanged otherwise.\<close>

theorem resolve_hard_links_ok:
  assumes wf: "tree_wf fs" and small: "\<forall>m. link_count (nodes fs m) < 2 ^ 32"
  shows "if (\<forall>n\<in>links fs. find_target fs n \<noteq> None) \<and> acyclic (link_rel fs)
    then \<exists>p c. fstree_resolve_hard_links fs =
             (0, fs\<lparr>nodes := (\<lambda>m. (nodes fs m)\<lparr>link_resolved := p m, link_count := c m\<rparr>)\<rparr>) \<and>
           (\<forall>n\<in>links fs. \<exists>t. p n = Some t \<and> (n, t) \<in> (link_rel fs)\<^sup>+ \<and> \<not> is_link fs t) \<and>
           (\<forall>m. c m = u32 (link_count (nodes fs m) + card {n \<in> links fs. p n = Some m}))
    else fst (fstree_resolve_hard_links fs) = - 1"
  by (rule resolved_tree [OF assms])

theorem resolve_hard_links_ok_witness:
  "\<exists>fs :: unit fstree. tree_wf fs \<and> links fs = {2} \<and> (\<exists>fs'. fstree_resolve_hard_links fs = (0, fs') \<and>
     link_resolved (nodes fs' 2) = Some 1 \<and> link_count (nodes fs' 1) = 1)"
proof -
  obtain r1 fs1 where mk1: "mknode_at (\<lambda>_. True) (fstree_create ()) ''a'' TREE_NODE_FILE None = (r1, fs1)" by fastforce
  obtain r fs where mk: "mknode_at (\<lambda>_. True) fs1 ''b'' TREE_NODE_HARD_LINK (Some ''a'') = (r, fs)" by fastforce
  have wf: "tree_wf fs" using mknode_at_ok(1) [OF fstree_create_wf mk1] mknode_at_ok(1) [OF _ mk] by blast
  have fs1: "fs1 = snd (mknode_at (\<lambda>_. True) (fstree_create ()) ''a'' TREE_NODE_FILE None)" using mk1 by simp
  have fs: "fs = snd (mknode_at (\<lambda>_. True) fs1 ''b'' TREE_NODE_HARD_LINK (Some ''a''))" using mk by simp
  note eval = mknode_at_def fstree_node_from_path_def walk.simps(2) path_suffix_def prefix_len_def
    fstree_create_def calloc_node_def link_node_def child_by_name_def upd_node_def slash_def dot_def Let_def
  have "fstree_canonicalize_path ''a'' = ''a''" by (simp add: canonicalize_join [of "[''a'']", simplified] proper_def slash_def dot_def)
  then have F: "node_count fs = 3" "n_type (nodes fs 0) = TREE_NODE_DIR" "n_type (nodes fs 1) = TREE_NODE_FILE" "n_type (nodes fs 2) = TREE_NODE_HARD_LINK"
    "link_count (nodes fs m) = 0" "find_target fs 2 = Some 1" for m
    unfolding fs fs1 by (simp_all add: eval find_target_def)
  have "links fs = {2}" using F(1-4) by (auto simp: less_Suc_eq numeral_eq_Suc)
  moreover have rel: "link_rel fs = {(2, 1)}" using F by (auto simp: link_rel_def less_Suc_eq numeral_eq_Suc)
  moreover have "acyclic {(2 :: nat, 1 :: nat)}" by (rule acyclicI_order [where f = "\<lambda>x. x"]) auto
  moreover have tr: "t = 1" if "(2, t) \<in> {(2 :: nat, 1 :: nat)}\<^sup>+" for t
    using that by (induction rule: trancl_induct) auto
  ultimately have "\<exists>p c. fstree_resolve_hard_links fs =
        (0, fs\<lparr>nodes := (\<lambda>m. (nodes fs m)\<lparr>link_resolved := p m, link_count := c m\<rparr>)\<rparr>) \<and>
      (\<forall>n\<in>{2}. \<exists>t. p n = Some t \<and> (n, t) \<in> {(2, 1)}\<^sup>+ \<and> \<not> is_link fs t) \<and>
      (\<forall>m. c m = u32 (link_count (nodes fs m) + card {n \<in> {2}. p n = Some m}))"
    using resolve_hard_links_ok [OF wf] F(5,6) by simp
  then obtain p c where pc: "fstree_resolve_hard_links fs =
        (0, fs\<lparr>nodes := (\<lambda>m. (nodes fs m)\<lparr>link_resolved := p m, link_count := c m\<rparr>)\<rparr>)"
      "p 2 = Some 1" "c 1 = u32 (link_count (nodes fs 1) + card {n \<in> {2}. p n = Some (1 :: nat)})"
    using tr by blast
  have "{n \<in> {2}. p n = Some (1 :: nat)} = {2 :: nat}" using pc(2) by auto
  then show ?thesis using pc wf \<open>links fs = {2}\<close> F(5) by (intro exI [of _ fs]) (simp add: u32_def)
qed

end
