(* ===== verification/Gcfg.thy ===== *)
theory Gcfg
  imports Prelude
begin

text \<open>
  libgcfg, the scalar parsers: \<open>xdigit.c\<close>, \<open>dec_num.c\<close>, \<open>parse_size.c\<close>, \<open>parse_number.c\<close>, \<open>parse_vector.c\<close>,
  \<open>parse_enum.c\<close>, \<open>parse_boolean.c\<close>, \<open>is_valid_utf8.c\<close> and \<open>parse_string.c\<close>.

  A parser takes the text that its pointer points to, up to the terminating NUL character, and returns an error or
  a value with the text the returned pointer points to; \<open>cur\<close> reads the character under the pointer. A character
  is a byte. The arithmetic on 32 and 64 bit integers keeps its wrap-around.
\<close>

datatype gcfg_error = ExpectedDigit | LeadingZero | Overflow | ExpectedToken char | UnexpectedToken
  | ExpectedBoolean | StringStart | UnknownEscape | StringEnd | InvalidCodePoint

type_synonym 'a parsed = "gcfg_error + 'a \<times> string"

definition cur :: "string \<Rightarrow> char" where
  "cur s = (case s of [] \<Rightarrow> CHR 0x00 | c # _ \<Rightarrow> c)"

lemma cur_simps [simp]: "cur [] = CHR 0x00" "cur (c # s) = c"
  by (simp_all add: cur_def)

abbreviation code :: "char \<Rightarrow> nat" where
  "code c \<equiv> of_char c"

section \<open>Numbers\<close>

definition gcfg_xdigit :: "nat \<Rightarrow> int" where
  "gcfg_xdigit c =
     (if 65 \<le> c \<and> c \<le> 70 then int c - 65 + 10
      else if 97 \<le> c \<and> c \<le> 102 then int c - 97 + 10
      else if 48 \<le> c \<and> c \<le> 57 then int c - 48
      else - 1)"

definition is_digit :: "char \<Rightarrow> bool" where
  "is_digit c \<longleftrightarrow> 48 \<le> code c \<and> code c \<le> 57"

fun dec_loop :: "nat \<Rightarrow> nat \<Rightarrow> string \<Rightarrow> nat parsed" where
  "dec_loop limit out [] = Inr (out, [])"
| "dec_loop limit out (c # str) =
     (if is_digit c then
        (let x = code c - 48
         in if limit div 10 < out \<or> sub64 limit x < mul64 out 10 then Inl Overflow
            else dec_loop limit (add64 (mul64 out 10) x) str)
      else Inr (out, c # str))"

definition gcfg_dec_num :: "nat \<Rightarrow> string \<Rightarrow> nat parsed" where
  "gcfg_dec_num limit str =
     (if \<not> is_digit (cur str) then Inl ExpectedDigit
      else if cur str = CHR ''0'' \<and> is_digit (cur (tl str)) then Inl LeadingZero
      else dec_loop limit 0 str)"

definition size_shift :: "char \<Rightarrow> nat" where
  "size_shift c =
     (if c = CHR ''k'' \<or> c = CHR ''K'' then 10
      else if c = CHR ''m'' \<or> c = CHR ''M'' then 20
      else if c = CHR ''g'' \<or> c = CHR ''G'' then 30
      else if c = CHR ''t'' \<or> c = CHR ''T'' then 40
      else 0)"

definition gcfg_parse_size :: "string \<Rightarrow> nat parsed" where
  "gcfg_parse_size s =
     (case gcfg_dec_num (2 ^ 64 - 1) s of
        Inl e \<Rightarrow> Inl e
      | Inr (ret, s1) \<Rightarrow>
          (let shift = size_shift (cur s1);
               s2 = (if shift = 0 then s1 else tl s1)
           in if drop_bit shift (2 ^ 64 - 1) < ret then Inl Overflow
              else Inr (push_bit shift ret mod 2 ^ 64, s2)))"

record gcfg_number =
  num_sign :: int
  num_integer :: nat
  num_fraction :: nat
  num_fraction_digits :: nat
  num_exponent :: int

definition i16 :: "int \<Rightarrow> int" where
  "i16 x = (x + 2 ^ 15) mod 2 ^ 16 - 2 ^ 15"

definition gcfg_parse_number :: "string \<Rightarrow> gcfg_number parsed" where
  "gcfg_parse_number s =
     (let sgn = (if cur s = CHR ''-'' then - 1 else 1);
          s1 = (if cur s = CHR ''+'' \<or> cur s = CHR ''-'' then tl s else s)
      in case gcfg_dec_num (2 ^ 32 - 1) s1 of
           Inl e \<Rightarrow> Inl e
         | Inr (n, s2) \<Rightarrow>
             (case (if cur s2 = CHR ''.'' then
                      (case gcfg_dec_num (2 ^ 32 - 1) (tl s2) of
                         Inl e \<Rightarrow> Inl e
                       | Inr (frac, s3) \<Rightarrow> Inr ((length (takeWhile is_digit (tl s2)) mod 2 ^ 16, u32 frac), s3))
                    else Inr ((0, 0), s2)) of
                Inl e \<Rightarrow> Inl e
              | Inr ((digits, frac), s3) \<Rightarrow>
                  (case (if cur s3 = CHR ''e'' \<or> cur s3 = CHR ''E'' then
                           (let i = (if cur (tl s3) = CHR ''-'' then - 1 else 1);
                                s4 = (if cur (tl s3) = CHR ''-'' \<or> cur (tl s3) = CHR ''+'' then tl (tl s3) else tl s3)
                            in case gcfg_dec_num (2 ^ 15 - 1) s4 of
                                 Inl e \<Rightarrow> Inl e
                               | Inr (x, s5) \<Rightarrow> Inr (i16 (int x * i), s5))
                         else if cur s3 = CHR ''%'' then Inr (- 2, tl s3)
                         else Inr (0, s3)) of
                     Inl e \<Rightarrow> Inl e
                   | Inr (ex, s5) \<Rightarrow>
                       Inr (\<lparr>num_sign = sgn, num_integer = u32 n, num_fraction = frac, num_fraction_digits = digits,
                             num_exponent = ex\<rparr>, s5))))"

definition is_blank :: "char \<Rightarrow> bool" where
  "is_blank c \<longleftrightarrow> c = CHR '' '' \<or> c = CHR 0x09"

abbreviation skip_space :: "string \<Rightarrow> string" where
  "skip_space \<equiv> dropWhile is_blank"

text \<open>The loop over the elements of a vector; \<open>first\<close> is the test \<open>i > 0\<close>.\<close>

fun vector_loop :: "bool \<Rightarrow> nat \<Rightarrow> string \<Rightarrow> gcfg_number list parsed" where
  "vector_loop first 0 s = Inr ([], s)"
| "vector_loop first (Suc k) s =
     (if \<not> first \<and> cur s \<noteq> CHR '','' then Inl (ExpectedToken (CHR '',''))
      else case gcfg_parse_number (skip_space (if first then s else tl s)) of
          Inl e \<Rightarrow> Inl e
        | Inr (n, s1) \<Rightarrow>
            (case vector_loop False k (skip_space s1) of
               Inl e \<Rightarrow> Inl e
             | Inr (ns, s2) \<Rightarrow> Inr (n # ns, s2)))"

definition gcfg_parse_vector :: "nat \<Rightarrow> string \<Rightarrow> gcfg_number list parsed" where
  "gcfg_parse_vector count s =
     (if cur s \<noteq> CHR ''('' then Inl (ExpectedToken (CHR ''(''))
      else case vector_loop True count (tl s) of
          Inl e \<Rightarrow> Inl e
        | Inr (ns, s1) \<Rightarrow>
            (if cur s1 \<noteq> CHR '')'' then Inl (ExpectedToken (CHR '')''))
             else Inr (ns, skip_space (tl s1))))"

section \<open>Tokens\<close>

definition token_end :: "char \<Rightarrow> bool" where
  "token_end c \<longleftrightarrow> is_blank c \<or> c = CHR 0x00"

text \<open>\<open>strncmp(name, in, strlen(name)) == 0\<close>, and the character behind it.\<close>

definition has_token :: "string \<Rightarrow> string \<Rightarrow> bool" where
  "has_token name s \<longleftrightarrow> take (length name) s = name \<and> token_end (cur (drop (length name) s))"

fun gcfg_parse_enum :: "(string \<times> int) list \<Rightarrow> string \<Rightarrow> int parsed" where
  "gcfg_parse_enum [] s = Inl UnexpectedToken"
| "gcfg_parse_enum ((name, val) # tokens) s =
     (if has_token name s then Inr (val, drop (length name) s) else gcfg_parse_enum tokens s)"

definition bool_mapping :: "(string \<times> int) list" where
  "bool_mapping = [(''on'', 1), (''yes'', 1), (''true'', 1), (''off'', 0), (''no'', 0), (''false'', 0)]"

fun boolean_loop :: "(string \<times> int) list \<Rightarrow> string \<Rightarrow> int parsed" where
  "boolean_loop [] s = Inl ExpectedBoolean"
| "boolean_loop ((name, val) # rest) s =
     (if has_token name s then Inr (val, drop (length name) s) else boolean_loop rest s)"

definition gcfg_parse_boolean :: "string \<Rightarrow> int parsed" where
  "gcfg_parse_boolean s = boolean_loop bool_mapping s"

section \<open>UTF-8\<close>

definition min_val_by_count :: "nat list" where
  "min_val_by_count = [0xFFFFFFFF, 0x20, 0x80, 0x800, 0x10000, 0x200000, 0x4000000]"

definition mask_by_count :: "nat list" where
  "mask_by_count = [0xFF, 0xFF, 0x1F, 0x0F, 0x07, 0x03]"

definition seq_length :: "nat list" where
  "seq_length =
    [1, 1, 1, 1, 1, 1, 1, 1, 1, 1, 1, 1, 1, 1, 1, 1,
     1, 1, 1, 1, 1, 1, 1, 1, 1, 1, 1, 1, 1, 1, 1, 1,
     0, 0, 0, 0, 0, 0, 0, 0, 0, 0, 0, 0, 0, 0, 0, 0,
     2, 2, 2, 2, 2, 2, 2, 2, 3, 3, 3, 3, 4, 4, 5, 0]"

definition gcfg_is_valid_cp :: "nat \<Rightarrow> bool" where
  "gcfg_is_valid_cp cp \<longleftrightarrow>
     \<not> 0x10FFFF < cp \<and> \<not> (0xD800 \<le> cp \<and> cp \<le> 0xDBFF \<or> 0xDC00 \<le> cp \<and> cp \<le> 0xDFFF) \<and>
     \<not> (0xFDD0 \<le> cp \<and> cp \<le> 0xFDEF) \<and> cp AND 0xFFFE \<noteq> 0xFFFE"

text \<open>The loop over the bytes that continue a sequence.\<close>

fun utf8_cont :: "nat \<Rightarrow> nat \<Rightarrow> string \<Rightarrow> (nat \<times> string) option" where
  "utf8_cont 0 cp str = Some (cp, str)"
| "utf8_cont (Suc k) cp [] = None"
| "utf8_cont (Suc k) cp (x # str) =
     (if code x AND 0xC0 \<noteq> 0x80 then None
      else utf8_cont k (u32 (push_bit 6 cp) OR (code x AND 0x3F)) str)"

lemma utf8_cont_length: "utf8_cont k cp s = Some (cp', s') \<Longrightarrow> length s' + k = length s"
  by (induction k cp s rule: utf8_cont.induct) (auto split: if_splits)

function gcfg_is_valid_utf8 :: "string \<Rightarrow> bool" where
  "gcfg_is_valid_utf8 [] \<longleftrightarrow> True"
| "gcfg_is_valid_utf8 (x # str) \<longleftrightarrow>
     (let count = seq_length ! (drop_bit 2 (code x) AND 0x3F);
          cp0 = code x AND mask_by_count ! count
      in if 1 < count \<and> length str < count - 1 then False
         else case utf8_cont (count - 1) cp0 str of
             None \<Rightarrow> False
           | Some (cp, rest) \<Rightarrow>
               (if cp < min_val_by_count ! count \<and> cp \<noteq> 0x09 then False
                else if \<not> gcfg_is_valid_cp cp \<or> cp = 0x7F then False
                else gcfg_is_valid_utf8 rest))"
  by pat_completeness auto
termination
  by (relation "measure length") (auto dest!: utf8_cont_length)

declare gcfg_is_valid_utf8.simps(2) [simp del]

definition encode_utf8 :: "nat \<Rightarrow> string" where
  "encode_utf8 cp =
     (let out1 = [char_of (0x80 OR (cp AND 0x3F))];
          out2 = char_of (0x80 OR (drop_bit 6 cp AND 0x3F)) # out1;
          out3 = char_of (0x80 OR (drop_bit 12 cp AND 0x3F)) # out2
      in if 0x10000 \<le> cp then char_of (0xF0 OR (drop_bit 18 cp AND 0x07)) # out3
         else if 0x800 \<le> cp then char_of (0xE0 OR (drop_bit 12 cp AND 0x0F)) # out2
         else if 0x80 \<le> cp then char_of (0xC0 OR (drop_bit 6 cp AND 0x1F)) # out1
         else [char_of cp])"

section \<open>Strings\<close>

text \<open>The loop over hexadecimal digits; its bound \<open>i < 6\<close> always holds, as \<open>i\<close> stays 0.\<close>

fun hex_loop :: "nat \<Rightarrow> string \<Rightarrow> nat \<times> string" where
  "hex_loop cp [] = (cp, [])"
| "hex_loop cp (c # s) =
     (if 0 \<le> gcfg_xdigit (code c) then hex_loop (u32 (push_bit 4 cp) OR nat (gcfg_xdigit (code c))) s
      else (cp, c # s))"

definition simple_escape :: "char \<Rightarrow> char option" where
  "simple_escape e =
     (if e = CHR ''b'' then Some (CHR 0x08)
      else if e = CHR ''t'' then Some (CHR 0x09)
      else if e = CHR ''n'' then Some (CHR 0x0A)
      else if e = CHR ''r'' then Some (CHR 0x0D)
      else if e = CHR 0x5C then Some (CHR 0x5C)
      else if e = CHR 0x22 then Some (CHR 0x22)
      else None)"

definition unicode_escape :: "string \<Rightarrow> string parsed" where
  "unicode_escape s =
     (if cur s \<noteq> CHR ''+'' then Inl UnknownEscape
      else case hex_loop 0 (tl s) of (cp, s1) \<Rightarrow>
        (if \<not> gcfg_is_valid_cp cp then Inl InvalidCodePoint else Inr (encode_utf8 cp, s1)))"

text \<open>One pass through the loop of \<open>gcfg_parse_string\<close>: the characters written and the text that follows.\<close>

fun string_step :: "string \<Rightarrow> string parsed" where
  "string_step [] = Inl StringEnd"
| "string_step (c # s1) =
     (if c = CHR 0x5C then
        (case s1 of
           [] \<Rightarrow> Inl UnknownEscape
         | e # s2 \<Rightarrow>
             (case simple_escape e of
                Some x \<Rightarrow> Inr ([x], s2)
              | None \<Rightarrow> (if e = CHR ''u'' \<or> e = CHR ''U'' then unicode_escape s2 else Inl UnknownEscape)))
      else Inr ([c], s1))"

lemma hex_loop_length: "hex_loop cp s = (cp', s') \<Longrightarrow> length s' \<le> length s"
  by (induction cp s rule: hex_loop.induct) (auto split: if_splits)

lemma unicode_escape_less: "unicode_escape s = Inr (w, s') \<Longrightarrow> length s' < length s"
  using hex_loop_length [of 0 "tl s"] by (cases s) (auto simp: unicode_escape_def split: if_splits prod.splits)

lemma string_step_less: "string_step s = Inr (w, s') \<Longrightarrow> length s' < length s"
  using unicode_escape_less by (cases s rule: string_step.cases) (fastforce split: list.splits option.splits if_splits)+

function string_loop :: "string \<Rightarrow> string parsed" where
  "string_loop s =
     (if cur s = CHR 0x22 then Inr ([], tl s)
      else case string_step s of
          Inl e \<Rightarrow> Inl e
        | Inr (w, s1) \<Rightarrow>
            (case string_loop s1 of Inl e \<Rightarrow> Inl e | Inr (out, s2) \<Rightarrow> Inr (w @ out, s2)))"
  by pat_completeness auto
termination
  by (relation "measure length") (auto simp: string_step_less)

declare string_loop.simps [simp del]

definition gcfg_parse_string :: "string \<Rightarrow> string parsed" where
  "gcfg_parse_string s = (if cur s \<noteq> CHR 0x22 then Inl StringStart else string_loop (tl s))"

section \<open>Decimal numbers\<close>

text \<open>The value of a sequence of digits, and the digits of a number.\<close>

definition dec_value :: "nat \<Rightarrow> string \<Rightarrow> nat" where
  "dec_value acc ds = foldl (\<lambda>a c. a * 10 + (code c - 48)) acc ds"

fun dec :: "nat \<Rightarrow> string" where
  "dec n = (if n < 10 then [char_of (48 + n)] else dec (n div 10) @ [char_of (48 + n mod 10)])"

declare dec.simps [simp del]

lemma dec_value_simps [simp]: "dec_value acc [] = acc" "dec_value acc (c # ds) = dec_value (acc * 10 + (code c - 48)) ds"
  "dec_value acc (ds @ es) = dec_value (dec_value acc ds) es"
  by (simp_all add: dec_value_def)

lemma dec_value_mono: "acc \<le> dec_value acc ds"
proof (induction ds arbitrary: acc)
  case (Cons c ds)
  have "acc \<le> acc * 10 + (code c - 48)" by simp
  then show ?case using Cons [of "acc * 10 + (code c - 48)"] by simp
qed simp

lemma digit_char: "n < (10 :: nat) \<Longrightarrow> code (char_of (48 + n) :: char) = 48 + n"
  by (simp add: of_char_of)

lemma is_digit_char: "n < (10 :: nat) \<Longrightarrow> is_digit (char_of (48 + n))"
  by (simp add: is_digit_def digit_char)

lemma dec_props: "dec n \<noteq> [] \<and> list_all is_digit (dec n) \<and> dec_value 0 (dec n) = n"
proof (induction n rule: dec.induct)
  case (1 n)
  then show ?case using is_digit_char [of n] is_digit_char [of "n mod 10"] digit_char [of n] digit_char [of "n mod 10"]
    by (simp add: dec.simps [of n])
qed

lemma dec_lead: "hd (dec n) = CHR ''0'' \<Longrightarrow> n = 0"
proof (induction n rule: dec.induct)
  case (1 n)
  show ?case
  proof (cases "n < 10")
    case True
    then have "char_of (48 + n) = CHR ''0''" using 1 by (simp add: dec.simps [of n])
    then have "code (char_of (48 + n) :: char) = code (CHR ''0'')" by (rule arg_cong)
    then show ?thesis unfolding digit_char [OF True] by simp
  next
    case False
    then have "hd (dec n) = hd (dec (n div 10))" using dec_props [of "n div 10"] by (simp add: dec.simps [of n])
    then show ?thesis using 1 False by simp
  qed
qed

lemma no_digit_nul: "\<not> is_digit (CHR 0x00)"
  by (simp add: is_digit_def)

lemma dec_loop_spec:
  assumes "list_all is_digit ds" "\<not> is_digit (cur rest)" "9 \<le> limit" "limit < 2 ^ 64" "acc \<le> limit"
  shows "dec_loop limit acc (ds @ rest) = (if dec_value acc ds \<le> limit then Inr (dec_value acc ds, rest) else Inl Overflow)"
  using assms(1,5)
proof (induction ds arbitrary: acc)
  case Nil
  then show ?case using assms(2) by (cases rest) auto
next
  case (Cons c ds)
  define x where "x = code c - 48"
  have c: "is_digit c" "x \<le> 9" using Cons.prems by (auto simp: is_digit_def x_def)
  define out where "out = acc * 10 + x"
  have sub: "sub64 limit x = limit - x" using c(2) assms(3) by (simp add: sub64_exact)
  show ?case
  proof (cases "limit div 10 < acc")
    case True
    then have "limit < acc * 10" by (simp add: div_less_iff_less_mult)
    then have "limit < dec_value out ds" using dec_value_mono [of out ds] by (simp add: out_def)
    then show ?thesis using c True by (simp add: x_def [symmetric] out_def [symmetric] Let_def)
  next
    case False
    then have "acc * 10 \<le> limit" using less_eq_div_iff_mult_less_eq [of 10 acc limit] by simp
    then have mul: "mul64 acc 10 = acc * 10" using assms(4) by (intro mul64_exact) linarith
    show ?thesis
    proof (cases "limit - x < acc * 10")
      case True
      then have "limit < out" using c(2) assms(3) by (simp add: out_def)
      then have "limit < dec_value out ds" using dec_value_mono [of out ds] by simp
      then show ?thesis using c True sub mul by (simp add: x_def [symmetric] out_def [symmetric] Let_def)
    next
      case ok: False
      then have le: "out \<le> limit" using c(2) assms(3) by (simp add: out_def)
      then have "add64 (acc * 10) x = out" unfolding out_def using assms(4) by (intro add64_exact) linarith
      then show ?thesis
        using Cons.IH [OF _ le] Cons.prems(1) c False ok sub mul
        by (simp add: x_def [symmetric] out_def [symmetric] Let_def)
    qed
  qed
qed

lemma dec_num_digits:
  assumes "list_all is_digit ds" "ds \<noteq> []" "\<not> is_digit (cur rest)" "9 \<le> limit" "limit < 2 ^ 64"
  shows "gcfg_dec_num limit (ds @ rest) =
     (if hd ds = CHR ''0'' \<and> tl ds \<noteq> [] then Inl LeadingZero
      else if dec_value 0 ds \<le> limit then Inr (dec_value 0 ds, rest) else Inl Overflow)"
proof -
  have "cur (ds @ rest) = hd ds" "is_digit (hd ds)" using assms(1,2) by (cases ds; simp)+
  moreover have "is_digit (cur (tl (ds @ rest))) \<longleftrightarrow> tl ds \<noteq> []"
    using assms(1-3) by (cases ds; cases "tl ds") auto
  ultimately show ?thesis using dec_loop_spec [OF assms(1,3-5), of 0] by (simp add: gcfg_dec_num_def)
qed

text \<open>Parsing a decimal number. Text that does not start with a digit is refused; otherwise the longest run of
  digits is read, refused with a leading zero or if its value exceeds the limit, and otherwise its value is
  returned with the text behind it.\<close>

theorem dec_num_spec:
  assumes "9 \<le> limit" "limit < 2 ^ 64"
  shows "gcfg_dec_num limit s =
     (let ds = takeWhile is_digit s; rest = dropWhile is_digit s
      in if ds = [] then Inl ExpectedDigit
         else if hd ds = CHR ''0'' \<and> tl ds \<noteq> [] then Inl LeadingZero
         else if dec_value 0 ds \<le> limit then Inr (dec_value 0 ds, rest) else Inl Overflow)"
proof (cases "takeWhile is_digit s = []")
  case True
  then have "\<not> is_digit (cur s)" by (cases s) (auto simp: is_digit_def split: if_splits)
  then show ?thesis using True by (simp add: gcfg_dec_num_def)
next
  case False
  have ds: "list_all is_digit (takeWhile is_digit s)" by (auto simp: list_all_iff dest: set_takeWhileD)
  define r where "r = dropWhile is_digit s"
  have "\<not> is_digit (cur (dropWhile is_digit s))"
    using hd_dropWhile [of is_digit s] no_digit_nul unfolding r_def [symmetric] by (cases r) auto
  from dec_num_digits [OF ds False this assms] show ?thesis
    unfolding takeWhile_dropWhile_id Let_def using False by simp
qed

theorem dec_num_spec_witness:
  "gcfg_dec_num 255 ''255k'' = Inr (255, ''k'') \<and> gcfg_dec_num 255 ''256'' = Inl Overflow"
  using dec_num_spec [of 255 "''255k''"] dec_num_spec [of 255 "''256''"] by (simp add: is_digit_def Let_def)

lemma dec_num_dec:
  assumes "n \<le> limit" "\<not> is_digit (cur rest)" "9 \<le> limit" "limit < 2 ^ 64"
  shows "gcfg_dec_num limit (dec n @ rest) = Inr (n, rest)"
proof -
  have "\<not> (hd (dec n) = CHR ''0'' \<and> tl (dec n) \<noteq> [])"
    using dec_lead [of n] by (auto simp: dec.simps [of 0])
  then show ?thesis using dec_num_digits [of "dec n" rest limit] dec_props [of n] assms by auto
qed

lemma parse_size_shift:
  assumes "n < 2 ^ 64" "\<not> is_digit (cur rest)"
  shows "gcfg_parse_size (dec n @ rest) =
     (if n * 2 ^ size_shift (cur rest) < 2 ^ 64
      then Inr (n * 2 ^ size_shift (cur rest), if size_shift (cur rest) = 0 then rest else tl rest)
      else Inl Overflow)"
proof -
  let ?k = "size_shift (cur rest)"
  have dn: "gcfg_dec_num (2 ^ 64 - 1) (dec n @ rest) = Inr (n, rest)" using dec_num_dec [of n "2 ^ 64 - 1" rest] assms by simp
  have pred: "2 ^ 64 - 1 < x \<longleftrightarrow> \<not> x < (2 :: nat) ^ 64" for x by auto
  have "drop_bit ?k (2 ^ 64 - 1 :: nat) < n \<longleftrightarrow> 2 ^ 64 - 1 < n * 2 ^ ?k"
    unfolding drop_bit_eq_div by (simp only: div_less_iff_less_mult zero_less_power zero_less_numeral)
  also have "\<dots> \<longleftrightarrow> \<not> n * 2 ^ ?k < 2 ^ 64" by (rule pred)
  finally have lim: "drop_bit ?k (2 ^ 64 - 1 :: nat) < n \<longleftrightarrow> \<not> n * 2 ^ ?k < 2 ^ 64" .
  show ?thesis
    unfolding gcfg_parse_size_def dn sum.case prod.case Let_def lim push_bit_eq_mult by simp
qed

text \<open>The specification of sizes: the suffixes k, m, g and t, in either case, are the first to fourth power of
  1024.\<close>

definition suffixes :: "(char \<times> nat) list" where
  "suffixes = [(CHR ''k'', 1), (CHR ''K'', 1), (CHR ''m'', 2), (CHR ''M'', 2),
     (CHR ''g'', 3), (CHR ''G'', 3), (CHR ''t'', 4), (CHR ''T'', 4)]"

definition suffix_power :: "char \<Rightarrow> nat option" where
  "suffix_power = map_of suffixes"

definition suffix_factor :: "char \<Rightarrow> nat" where
  "suffix_factor c = (case suffix_power c of None \<Rightarrow> 1 | Some p \<Rightarrow> 1024 ^ p)"

lemma size_shift_factor: "2 ^ size_shift c = suffix_factor c"
  by (simp add: size_shift_def suffix_factor_def suffix_power_def suffixes_def)

lemma size_shift_suffix: "size_shift c = 0 \<longleftrightarrow> suffix_power c = None"
  by (simp add: size_shift_def suffix_power_def suffixes_def)

text \<open>C13: a size is the number in front of its suffix, times the power of 1024 the suffix stands for (k, m, g
  and t in either case: 1024 to the first, second, third and fourth), and is refused exactly if that does not fit
  64 bits. The suffix is consumed; any other character, or the end of the text, is left and stands for the
  factor 1.\<close>

theorem parse_size_spec:
  assumes "n < 2 ^ 64" "\<not> is_digit (cur rest)"
  shows "gcfg_parse_size (dec n @ rest) =
     (if n * suffix_factor (cur rest) < 2 ^ 64
      then Inr (n * suffix_factor (cur rest), if suffix_power (cur rest) = None then rest else tl rest)
      else Inl Overflow)"
  using parse_size_shift [OF assms] by (simp only: size_shift_factor size_shift_suffix)

theorem parse_size_spec_witness:
  "gcfg_parse_size (dec 12 @ ''M'') = Inr (12582912, []) \<and>
   gcfg_parse_size (dec 3 @ ''k'') = Inr (3072, []) \<and>
   gcfg_parse_size (dec 2 @ ''G,'') = Inr (2147483648, '','') \<and>
   gcfg_parse_size (dec 7 @ ''x'') = Inr (7, ''x'') \<and>
   gcfg_parse_size (dec 16777216 @ ''t'') = Inl Overflow"
  using parse_size_spec [of 12 "''M''"] parse_size_spec [of 3 "''k''"] parse_size_spec [of 2 "''G,''"]
    parse_size_spec [of 7 "''x''"] parse_size_spec [of 16777216 "''t''"]
  by (simp add: is_digit_def suffix_power_def suffix_factor_def suffixes_def)

section \<open>Bit fields\<close>

lemma bit_below:
  assumes "(b :: nat) < 2 ^ k" "bit b n"
  shows "n < k"
proof -
  have "bit (take_bit k b) n" using assms by (simp add: take_bit_nat_eq_self)
  then show ?thesis by (simp add: bit_take_bit_iff)
qed

lemma or_field:
  assumes "b < 2 ^ k"
  shows "(a * 2 ^ k) OR b = a * 2 ^ k + (b :: nat)"
proof -
  have "push_bit k a AND b = 0"
  proof (rule bit_eqI)
    fix n
    show "bit (push_bit k a AND b) n = bit (0 :: nat) n"
      using bit_below [OF assms, of n] by (auto simp: bit_and_iff bit_push_bit_iff)
  qed
  then show ?thesis using disjunctive_add_eq_or [of "push_bit k a" b] by (simp add: push_bit_eq_mult)
qed

lemma and_push: "x AND push_bit k m = push_bit k (drop_bit k x AND (m :: nat))"
  by (rule bit_eqI) (auto simp: bit_and_iff bit_push_bit_iff bit_drop_bit_eq)

lemma and_low: "(x :: nat) AND 0x3F = x mod 64" "x AND 0x1F = x mod 32" "x AND 0x0F = x mod 16" "x AND 0x07 = x mod 8"
    "x AND 0xFF = x mod 256"
  using take_bit_eq_mask [of 6 x] take_bit_eq_mask [of 5 x] take_bit_eq_mask [of 4 x] take_bit_eq_mask [of 3 x] take_bit_eq_mask [of 8 x]
  by (simp_all add: take_bit_eq_mod mask_eq_exp_minus_1)

lemma or_high: "y < 64 \<Longrightarrow> 0x80 OR y = 128 + (y :: nat)" "y < 32 \<Longrightarrow> 0xC0 OR y = 192 + (y :: nat)"
    "y < 16 \<Longrightarrow> 0xE0 OR y = 224 + (y :: nat)" "y < 8 \<Longrightarrow> 0xF0 OR y = 240 + (y :: nat)"
  using or_field [of y 6 2] or_field [of y 5 6] or_field [of y 4 14] or_field [of y 3 30] by simp_all

lemma top_bits:
  assumes "y < 64"
  shows "(128 + y) AND 0xC0 = (128 :: nat)"
proof -
  have "(128 + y) AND 0xC0 = push_bit 6 (drop_bit 6 (128 + y) AND 3)"
    using and_push [of "128 + y" 6 3] by (simp add: push_bit_eq_mult)
  also have "drop_bit 6 (128 + y) = 2" using assms by (simp add: drop_bit_eq_div)
  finally show ?thesis by (simp add: push_bit_eq_mult)
qed

section \<open>Encoding and checking UTF-8\<close>

lemma code_char_of: "n < 256 \<Longrightarrow> code (char_of n :: char) = n"
  by (simp add: of_char_of)

lemma cont_byte:
  assumes "c < 2 ^ 26"
  shows "utf8_cont (Suc k) c (char_of (0x80 OR (y AND 0x3F)) # s) = utf8_cont k (c * 64 + y mod 64) s"
proof -
  have y: "y mod 64 < 64" by simp
  define b where "b = (char_of (0x80 OR (y AND 0x3F)) :: char)"
  have code: "code b = 128 + y mod 64"
    unfolding b_def and_low or_high(1) [OF y] by (rule code_char_of) (use y in linarith)
  have "u32 (push_bit 6 c) = c * 64" using assms by (simp add: push_bit_eq_mult u32_def)
  moreover have "(128 + y mod 64) AND 0x3F = y mod 64" unfolding and_low by (simp add: mod_add_eq [symmetric])
  moreover have "(c * 64) OR (y mod 64) = c * 64 + y mod 64" using or_field [of "y mod 64" 6 c] by simp
  ultimately show ?thesis unfolding b_def [symmetric] using top_bits [OF y] by (simp add: code)
qed

lemma seq_length_runs: "seq_length = replicate 32 1 @ replicate 16 0 @ replicate 8 2 @ replicate 4 3 @ replicate 2 4 @ [5, 0]"
  by (simp add: seq_length_def numeral_eq_Suc)

lemma seq_length_nth: "j < 32 \<Longrightarrow> seq_length ! j = 1" "48 \<le> j \<Longrightarrow> j < 56 \<Longrightarrow> seq_length ! j = 2"
    "56 \<le> j \<Longrightarrow> j < 60 \<Longrightarrow> seq_length ! j = 3" "60 \<le> j \<Longrightarrow> j < 62 \<Longrightarrow> seq_length ! j = 4"
  unfolding seq_length_runs by (auto simp: nth_append)

lemma lead_byte:
  assumes "n < 256" "seq_length ! (n div 4) = Suc k" "k < 4"
  shows "gcfg_is_valid_utf8 (char_of n # s) \<longleftrightarrow>
     (\<not> (length s < k) \<and> (case utf8_cont k (n AND mask_by_count ! Suc k) s of None \<Rightarrow> False
        | Some (cp, rest) \<Rightarrow> \<not> (cp < min_val_by_count ! Suc k \<and> cp \<noteq> 9) \<and> gcfg_is_valid_cp cp \<and> cp \<noteq> 0x7F \<and> gcfg_is_valid_utf8 rest))"
proof -
  have "drop_bit 2 n AND 0x3F = n div 4" using assms(1) by (simp add: and_low drop_bit_eq_div)
  then show ?thesis
    using assms by (auto simp: gcfg_is_valid_utf8.simps(2) Let_def code_char_of split: option.splits)
qed

lemma cont_bytes:
  assumes "cp < 2 ^ 26"
  shows "utf8_cont (Suc k) (cp div 64) (char_of (0x80 OR (cp AND 0x3F)) # s) = utf8_cont k cp s"
proof -
  have "cp div 64 < 2 ^ 26" using assms div_le_dividend [of cp 64] by linarith
  moreover have "cp div 64 * 64 + cp mod 64 = cp" by simp
  ultimately show ?thesis using cont_byte [of "cp div 64" k cp s] by simp
qed

lemma drop_bits: "drop_bit 6 cp = cp div 64" "drop_bit 12 cp = cp div 64 div 64" "drop_bit 18 cp = cp div 64 div 64 div (64 :: nat)"
  by (simp_all add: drop_bit_eq_div div_mult2_eq [symmetric])

text \<open>What the string parser writes for an escaped code point passes the check for UTF-8, in front of
  whatever text follows, for every code point that the check allows at all.\<close>

theorem encode_utf8_valid:
  assumes "gcfg_is_valid_cp cp" "0x20 \<le> cp \<or> cp = 0x09" "cp \<noteq> 0x7F"
  shows "gcfg_is_valid_utf8 (encode_utf8 cp @ s) \<longleftrightarrow> gcfg_is_valid_utf8 s"
proof -
  have max: "cp \<le> 0x10FFFF" using assms(1) by (simp add: gcfg_is_valid_cp_def)
  consider "cp < 0x80" | "0x80 \<le> cp" "cp < 0x800" | "0x800 \<le> cp" "cp < 0x10000" | "0x10000 \<le> cp" by linarith
  then show ?thesis
  proof cases
    case 1
    then have "seq_length ! (cp div 4) = Suc 0" using seq_length_nth(1) [of "cp div 4"] by (simp add: less_mult_imp_div_less)
    then show ?thesis
      using lead_byte [of cp 0 s] 1 assms by (auto simp: encode_utf8_def mask_by_count_def min_val_by_count_def and_low)
  next
    case 2
    define h where "h = cp div 64"
    have h: "h < 32" "cp = h * 64 + cp mod 64" using 2 by (auto simp: h_def less_mult_imp_div_less)
    have lead: "0xC0 OR (drop_bit 6 cp AND 0x1F) = 192 + h"
      using h(1) or_high(2) [of h] by (simp add: and_low drop_bit_eq_div h_def)
    have "seq_length ! ((192 + h) div 4) = Suc 1" using h(1) seq_length_nth(2) [of "(192 + h) div 4"] by simp
    moreover have "(192 + h) AND mask_by_count ! Suc 1 = h" using h(1) by (simp add: mask_by_count_def and_low mod_add_eq [symmetric])
    moreover have "utf8_cont 1 h (char_of (0x80 OR (cp AND 0x3F)) # s) = Some (cp, s)"
      using cont_byte [of h 0 cp s] h by simp
    ultimately show ?thesis
      using 2 assms lead lead_byte [of "192 + h" 1 "char_of (0x80 OR (cp AND 0x3F)) # s"] h(1)
      by (simp add: encode_utf8_def min_val_by_count_def Let_def)
  next
    case 3
    define h where "h = cp div 64 div 64"
    have h: "h < 16" using 3 by (simp add: h_def less_mult_imp_div_less)
    have lead: "0xE0 OR (drop_bit 12 cp AND 0x0F) = 224 + h"
      using h or_high(3) [of h] by (simp add: and_low drop_bits h_def)
    let ?s1 = "char_of (0x80 OR (cp AND 0x3F)) # s"
    let ?s = "char_of (0x80 OR (cp div 64 AND 0x3F)) # ?s1"
    have "utf8_cont (Suc (Suc 0)) h ?s = utf8_cont (Suc 0) (cp div 64) ?s1"
      unfolding h_def by (rule cont_bytes) (use 3 in simp)
    also have "\<dots> = Some (cp, s)" using cont_bytes [of cp 0 s] 3 by (simp del: utf8_cont.simps(3))
    finally have "utf8_cont (Suc (Suc 0)) h ?s = Some (cp, s)" .
    moreover have "seq_length ! ((224 + h) div 4) = Suc (Suc (Suc 0))" using h seq_length_nth(3) [of "(224 + h) div 4"] by simp
    moreover have "(224 + h) AND mask_by_count ! Suc (Suc (Suc 0)) = h"
      using h by (simp add: mask_by_count_def and_low mod_add_eq [symmetric])
    moreover have "encode_utf8 cp @ s = char_of (224 + h) # ?s" using 3 lead by (simp add: encode_utf8_def drop_bits(1) Let_def)
    ultimately show ?thesis
      using 3 assms lead_byte [of "224 + h" "Suc (Suc 0)" ?s] h by (simp add: min_val_by_count_def del: utf8_cont.simps(3))
  next
    case 4
    define h where "h = cp div 64 div 64 div 64"
    have h: "h < 8" using max by (simp add: h_def less_mult_imp_div_less)
    have lead: "0xF0 OR (drop_bit 18 cp AND 0x07) = 240 + h"
      using h or_high(4) [of h] by (simp add: and_low drop_bits h_def)
    let ?s1 = "char_of (0x80 OR (cp AND 0x3F)) # s"
    let ?s2 = "char_of (0x80 OR (cp div 64 AND 0x3F)) # ?s1"
    let ?s = "char_of (0x80 OR (cp div 64 div 64 AND 0x3F)) # ?s2"
    have b: "cp div 64 div 64 < 2 ^ 26" "cp div 64 < 2 ^ 26" using max by (simp_all add: less_mult_imp_div_less)
    have "utf8_cont (Suc (Suc (Suc 0))) h ?s = utf8_cont (Suc (Suc 0)) (cp div 64 div 64) ?s2"
      unfolding h_def by (rule cont_bytes [OF b(1)])
    also have "\<dots> = utf8_cont (Suc 0) (cp div 64) ?s1" by (rule cont_bytes [OF b(2)])
    also have "\<dots> = Some (cp, s)" using cont_bytes [of cp 0 s] max by (simp del: utf8_cont.simps(3))
    finally have "utf8_cont (Suc (Suc (Suc 0))) h ?s = Some (cp, s)" .
    moreover have "seq_length ! ((240 + h) div 4) = Suc (Suc (Suc (Suc 0)))" using h seq_length_nth(4) [of "(240 + h) div 4"] by simp
    moreover have "(240 + h) AND mask_by_count ! Suc (Suc (Suc (Suc 0))) = h"
      using h by (simp add: mask_by_count_def and_low mod_add_eq [symmetric])
    moreover have "encode_utf8 cp @ s = char_of (240 + h) # ?s" using 4 lead by (simp add: encode_utf8_def drop_bits(1,2) Let_def)
    ultimately show ?thesis
      using 4 assms lead_byte [of "240 + h" "Suc (Suc (Suc 0))" ?s] h by (simp add: min_val_by_count_def del: utf8_cont.simps(3))
  qed
qed

theorem encode_utf8_valid_witness: "gcfg_is_valid_utf8 (encode_utf8 0x20AC @ ''x'') \<longleftrightarrow> gcfg_is_valid_utf8 ''x''"
  using encode_utf8_valid [of 8364 "''x''"] by (simp add: gcfg_is_valid_cp_def)

text \<open>The exception for the tabulator also lets its encoding with two bytes pass.\<close>

lemma overlong_tab_accepted: "gcfg_is_valid_utf8 [CHR 0xC0, CHR 0x89]"
  by (simp add: gcfg_is_valid_utf8.simps(2) seq_length_def mask_by_count_def min_val_by_count_def gcfg_is_valid_cp_def
      u32_def Let_def)

section \<open>Quoted strings\<close>

lemma encode_utf8_length: "length (encode_utf8 cp) \<le> 4" "cp = 0 \<Longrightarrow> length (encode_utf8 cp) = 1"
  by (simp_all add: encode_utf8_def Let_def)

lemma hex_loop_prefix: "hex_loop cp s = (cp', s') \<Longrightarrow> \<exists>p. s = p @ s' \<and> (p = [] \<longrightarrow> cp' = cp)"
proof (induction cp s rule: hex_loop.induct)
  case (2 cp c s)
  show ?case
  proof (cases "0 \<le> gcfg_xdigit (code c)")
    case True
    then obtain p where "s = p @ s'" using 2 by auto
    then show ?thesis by (intro exI [of _ "c # p"]) simp
  next
    case False
    then show ?thesis using 2 by auto
  qed
qed auto

lemma unicode_escape_prefix: "unicode_escape s = Inr (w, s') \<Longrightarrow> \<exists>p. s = p @ s' \<and> length w \<le> 2 + length p"
proof -
  assume u: "unicode_escape s = Inr (w, s')"
  then obtain cp t where t: "s = CHR ''+'' # t" "hex_loop 0 t = (cp, s')" "w = encode_utf8 cp"
    by (cases s) (auto simp: unicode_escape_def split: if_splits prod.splits)
  then obtain p where p: "t = p @ s'" "p = [] \<longrightarrow> cp = 0" using hex_loop_prefix by blast
  have "length w \<le> 3 + length p" using t(3) p(2) encode_utf8_length [of cp] by (cases p) auto
  then show ?thesis using t(1) p(1) by (intro exI [of _ "CHR ''+'' # p"]) simp
qed

lemma string_step_prefix: "string_step s = Inr (w, s') \<Longrightarrow> \<exists>p. s = p @ s' \<and> length w \<le> length p"
proof (cases s rule: string_step.cases)
  case (2 c s1)
  assume step: "string_step s = Inr (w, s')"
  show ?thesis
  proof (cases "c = CHR 0x5C")
    case False
    then show ?thesis using 2 step by auto
  next
    case True
    then obtain e s2 where s1: "s1 = e # s2" using 2 step by (cases s1) auto
    show ?thesis
    proof (cases "simple_escape e")
      case (Some x)
      then show ?thesis using 2 step True s1 by (intro exI [of _ "[c, e]"]) auto
    next
      case None
      then have "unicode_escape s2 = Inr (w, s')" using 2 step True s1 by (auto split: if_splits)
      then obtain p where "s2 = p @ s'" "length w \<le> 2 + length p" using unicode_escape_prefix by blast
      then show ?thesis using 2 s1 by (intro exI [of _ "c # e # p"]) simp
    qed
  qed
qed simp

text \<open>The states of the loop of \<open>gcfg_parse_string\<close>: the characters written so far and the text still to be read.\<close>

inductive string_state :: "string \<Rightarrow> string \<Rightarrow> string \<Rightarrow> bool" for s where
  start: "s = CHR 0x22 # t \<Longrightarrow> string_state s [] t"
| step: "string_state s out t \<Longrightarrow> cur t \<noteq> CHR 0x22 \<Longrightarrow> string_step t = Inr (w, t') \<Longrightarrow> string_state s (out @ w) t'"

text \<open>C14: the parser may write its result over the line it reads. In every state of its loop the characters
  written, with room for one more and the terminator, are fewer than the characters read; and the loop ends in such a
  state with the result it returns.\<close>

theorem parse_string_in_place:
  "(string_state s out t \<longrightarrow> (\<exists>p. s = p @ t \<and> length out + 1 \<le> length p)) \<and>
   (gcfg_parse_string s = Inr (res, rest) \<longrightarrow> string_state s res (CHR 0x22 # rest))"
proof (intro conjI impI)
  assume "string_state s out t"
  then show "\<exists>p. s = p @ t \<and> length out + 1 \<le> length p"
  proof (induction rule: string_state.induct)
    case (start t)
    then show ?case by (intro exI [of _ "[CHR 0x22]"]) simp
  next
    case (step out t w t')
    then obtain p q where "s = p @ t" "length out + 1 \<le> length p" "t = q @ t'" "length w \<le> length q"
      using string_step_prefix by blast
    then show ?case by (intro exI [of _ "p @ q"]) simp
  qed
next
  have loop: "string_state s (out @ res) (CHR 0x22 # rest)" if "string_state s out t" "string_loop t = Inr (res, rest)" for out res t
    using that
  proof (induction t arbitrary: out res rule: string_loop.induct)
    case (1 t)
    show ?case
    proof (cases "cur t = CHR 0x22")
      case True
      then obtain t1 where "t = CHR 0x22 # t1" by (cases t) auto
      then show ?thesis using 1(2,3) string_loop.simps [of "CHR 0x22 # t1"] by auto
    next
      case False
      then obtain w t1 where w: "string_step t = Inr (w, t1)" using 1(3)
        by (auto simp: string_loop.simps [of t] split: sum.splits)
      then obtain r where r: "string_loop t1 = Inr (r, rest)" "res = w @ r"
        using 1(3) False by (auto simp: string_loop.simps [of t] split: sum.splits)
      have "string_state s (out @ w) t1" using string_state.step [OF 1(2) False w] .
      from 1(1) [OF False w refl this r(1)] show ?thesis using r(2) by simp
    qed
  qed
  assume "gcfg_parse_string s = Inr (res, rest)"
  then obtain t where "s = CHR 0x22 # t" "string_loop t = Inr (res, rest)"
    by (cases s) (auto simp: gcfg_parse_string_def split: if_splits)
  then show "string_state s res (CHR 0x22 # rest)" using loop [OF string_state.start] by simp
qed

theorem parse_string_in_place_witness:
  "string_state (CHR 0x22 # ''a'' @ [CHR 0x22]) ''a'' [CHR 0x22] \<and>
   (\<exists>p. CHR 0x22 # ''a'' @ [CHR 0x22] = p @ [CHR 0x22] \<and> length ''a'' + 1 \<le> length p)"
proof -
  have "gcfg_parse_string (CHR 0x22 # ''a'' @ [CHR 0x22]) = Inr (''a'', [])"
    by (simp add: gcfg_parse_string_def string_loop.simps)
  then show ?thesis
    using parse_string_in_place [of "CHR 0x22 # ''a'' @ [CHR 0x22]" "''a''" "[CHR 0x22]" "''a''" "[]"] by blast
qed

text \<open>A reference printer for strings.\<close>

definition escape :: "char \<Rightarrow> string" where
  "escape c =
     (if c = CHR 0x08 then [CHR 0x5C, CHR ''b''] else if c = CHR 0x09 then [CHR 0x5C, CHR ''t'']
      else if c = CHR 0x0A then [CHR 0x5C, CHR ''n''] else if c = CHR 0x0D then [CHR 0x5C, CHR ''r'']
      else if c = CHR 0x5C then [CHR 0x5C, CHR 0x5C] else if c = CHR 0x22 then [CHR 0x5C, CHR 0x22] else [c])"

lemma escape_step: "string_step (escape c @ s) = Inr ([c], s) \<and> cur (escape c @ s) \<noteq> CHR 0x22"
  by (simp add: escape_def simple_escape_def)

text \<open>C15: a quoted string with its special characters escaped is parsed back to the string.\<close>

theorem parse_string_quoted: "gcfg_parse_string (CHR 0x22 # concat (map escape s) @ CHR 0x22 # rest) = Inr (s, rest)"
proof -
  have "string_loop (concat (map escape s) @ CHR 0x22 # rest) = Inr (s, rest)"
  proof (induction s)
    case Nil
    then show ?case by (simp add: string_loop.simps)
  next
    case (Cons c s)
    then show ?case using escape_step [of c "concat (map escape s) @ CHR 0x22 # rest"]
      by (simp add: string_loop.simps [of "escape c @ _"])
  qed
  then show ?thesis by (simp add: gcfg_parse_string_def)
qed

section \<open>Numbers with fraction and exponent\<close>

definition number_text :: "gcfg_number \<Rightarrow> string" where
  "number_text n =
     (if num_sign n < 0 then ''-'' else []) @ dec (num_integer n) @
     (if num_fraction_digits n = 0 then [] else CHR ''.'' # dec (num_fraction n)) @
     (if num_exponent n = 0 then [] else CHR ''e'' # (if num_exponent n < 0 then ''-'' else []) @ dec (nat \<bar>num_exponent n\<bar>))"

definition number_ok :: "gcfg_number \<Rightarrow> bool" where
  "number_ok n \<longleftrightarrow> (num_sign n = 1 \<or> num_sign n = - 1) \<and> num_integer n < 2 ^ 32 \<and> num_fraction n < 2 ^ 32 \<and>
     (num_fraction_digits n = 0 \<and> num_fraction n = 0 \<or> num_fraction_digits n = length (dec (num_fraction n))) \<and>
     \<bar>num_exponent n\<bar> \<le> 0x7FFF"

lemma dec_cur: "cur (dec n @ s) \<noteq> CHR ''-'' \<and> cur (dec n @ s) \<noteq> CHR ''+''"
  using dec_props [of n] by (cases "dec n") (auto simp: is_digit_def)

lemma dec_takeWhile: "\<not> is_digit (cur s) \<Longrightarrow> takeWhile is_digit (dec n @ s) = dec n"
  using dec_props [of n] by (cases s) (auto simp: list_all_iff takeWhile_append takeWhile_eq_all_conv [THEN iffD2])

lemma dec_length: "n < 10 ^ k \<Longrightarrow> 0 < k \<Longrightarrow> length (dec n) \<le> k"
proof (induction k arbitrary: n)
  case (Suc k)
  show ?case
  proof (cases "n < 10")
    case True
    then show ?thesis by (simp add: dec.simps [of n])
  next
    case False
    then have "n div 10 < 10 ^ k" using Suc.prems(1) by (simp add: less_mult_imp_div_less mult.commute)
    moreover have "0 < k" using False Suc.prems(1) by (cases k) auto
    ultimately show ?thesis using Suc.IH [of "n div 10"] False by (simp add: dec.simps [of n])
  qed
qed simp

text \<open>The text of a number, with its fraction and exponent, is parsed back to the number.\<close>

theorem parse_number_text:
  assumes n: "number_ok n" and rest: "\<not> is_digit (cur rest)" "cur rest \<notin> {CHR ''.'', CHR ''e'', CHR ''E'', CHR ''%''}"
  shows "gcfg_parse_number (number_text n @ rest) = Inr (n, rest)"
proof -
  define ex where "ex = (if num_exponent n = 0 then [] else CHR ''e'' # (if num_exponent n < 0 then ''-'' else []) @ dec (nat \<bar>num_exponent n\<bar>)) @ rest"
  define fr where "fr = (if num_fraction_digits n = 0 then [] else CHR ''.'' # dec (num_fraction n)) @ ex"
  have ex: "\<not> is_digit (cur ex)" "cur ex \<noteq> CHR ''.''" using rest by (auto simp: ex_def is_digit_def)
  have fr: "\<not> is_digit (cur fr)" using ex by (auto simp: fr_def is_digit_def)
  have shape: "number_text n @ rest = (if num_sign n < 0 then ''-'' else []) @ dec (num_integer n) @ fr"
    by (simp add: number_text_def fr_def ex_def)
  have int: "gcfg_dec_num (2 ^ 32 - 1) (dec (num_integer n) @ fr) = Inr (num_integer n, fr)"
    using n fr by (intro dec_num_dec) (auto simp: number_ok_def)
  have frac: "gcfg_dec_num (2 ^ 32 - 1) (dec (num_fraction n) @ ex) = Inr (num_fraction n, ex)"
    using n ex by (intro dec_num_dec) (auto simp: number_ok_def)
  have exp: "gcfg_dec_num (2 ^ 15 - 1) (dec (nat \<bar>num_exponent n\<bar>) @ rest) = Inr (nat \<bar>num_exponent n\<bar>, rest)"
    using n rest by (intro dec_num_dec) (auto simp: number_ok_def)
  have digits: "length (takeWhile is_digit (dec (num_fraction n) @ ex)) mod 2 ^ 16 = length (dec (num_fraction n))"
    using dec_takeWhile [OF ex(1), of "num_fraction n"] dec_length [of "num_fraction n" 10] n by (simp add: number_ok_def)
  have fpart: "(if cur fr = CHR ''.'' then
        (case gcfg_dec_num (2 ^ 32 - 1) (tl fr) of Inl e \<Rightarrow> Inl e
         | Inr (frac, s3) \<Rightarrow> Inr ((length (takeWhile is_digit (tl fr)) mod 2 ^ 16, u32 frac), s3))
      else Inr ((0, 0), fr)) = Inr ((num_fraction_digits n, num_fraction n), ex)"
  proof (cases "num_fraction_digits n = 0")
    case True
    then have "num_fraction n = 0" using n dec_props [of "num_fraction n"] by (auto simp: number_ok_def)
    then show ?thesis using True ex by (simp add: fr_def)
  next
    case False
    then show ?thesis using n frac digits by (simp add: fr_def number_ok_def u32_def)
  qed
  have epart: "(if cur ex = CHR ''e'' \<or> cur ex = CHR ''E'' then
        (let i = (if cur (tl ex) = CHR ''-'' then - 1 else 1);
             s4 = (if cur (tl ex) = CHR ''-'' \<or> cur (tl ex) = CHR ''+'' then tl (tl ex) else tl ex)
         in case gcfg_dec_num (2 ^ 15 - 1) s4 of Inl e \<Rightarrow> Inl e | Inr (x, s5) \<Rightarrow> Inr (i16 (int x * i), s5))
      else if cur ex = CHR ''%'' then Inr (- 2, tl ex) else Inr (0, ex)) = Inr (num_exponent n, rest)"
  proof (cases "num_exponent n = 0")
    case True
    then show ?thesis using rest by (simp add: ex_def)
  next
    case False
    have "0 \<le> num_exponent n + 32768" "num_exponent n + 32768 < 65536" using n by (auto simp: number_ok_def)
    then have "i16 (num_exponent n) = num_exponent n" by (simp add: i16_def mod_pos_pos_trivial)
    then show ?thesis
      using False exp dec_cur [of "nat \<bar>num_exponent n\<bar>" rest] by (cases "num_exponent n < 0") (simp_all add: ex_def Let_def)
  qed
  show ?thesis
  proof (cases "num_sign n < 0")
    case True
    then have "num_sign n = - 1" using n by (auto simp: number_ok_def)
    then show ?thesis
      unfolding shape gcfg_parse_number_def using int fpart epart n by (simp add: Let_def number_ok_def u32_def)
  next
    case False
    then have "num_sign n = 1" using n by (auto simp: number_ok_def)
    then show ?thesis
      unfolding shape gcfg_parse_number_def using int fpart epart n dec_cur [of "num_integer n" fr]
      by (simp add: Let_def number_ok_def u32_def)
  qed
qed

theorem parse_number_text_witness:
  "gcfg_parse_number (number_text \<lparr>num_sign = - 1, num_integer = 13, num_fraction = 37, num_fraction_digits = 2, num_exponent = - 42\<rparr> @ '' '')
    = Inr (\<lparr>num_sign = - 1, num_integer = 13, num_fraction = 37, num_fraction_digits = 2, num_exponent = - 42\<rparr>, '' '')"
  by (rule parse_number_text) (simp_all add: number_ok_def is_digit_def dec.simps)

text \<open>A fraction is parsed like an integer, so a fraction that starts with a zero is refused.\<close>

lemma fraction_with_zero_refused: "gcfg_parse_number ''1.05'' = Inl LeadingZero"
  by (simp add: gcfg_parse_number_def gcfg_dec_num_def is_digit_def mul64_def add64_def sub64_def Let_def)

end
