(* ===== verification/GcfgFile.thy ===== *)
theory GcfgFile
  imports Gcfg Reflect
begin

text \<open>
  libgcfg, the file parser: \<open>lib/gcfg/parse_file.c\<close>.

  A configuration file is a list of lines, as \<open>fetch_line\<close> delivers them; the end of the list is the end of the file.
  Objects are references \<open>'o\<close> into a state \<open>'s\<close>; the callbacks of a keyword are functions on that state, and
  \<open>chain\<close> gives the meta objects of an object. The parser nests one call per block. It carries fuel; the number of
  lines bounds the fuel it needs, as each pass through its loop takes a line. Reference counts are left out.
\<close>

datatype gcfg_arg_type = GCFG_ARG_NONE | GCFG_ARG_BOOLEAN | GCFG_ARG_STRING | GCFG_ARG_NUMBER | GCFG_ARG_VEC2
  | GCFG_ARG_VEC3 | GCFG_ARG_VEC4 | GCFG_ARG_SIZE | GCFG_ARG_OTHER nat

datatype gcfg_arg = ArgNone | ArgBool bool | ArgString string | ArgNumbers "gcfg_number list" | ArgSize nat

datatype ('o, 's) keyword = Keyword
  (kw_arg: gcfg_arg_type) (kw_name: string)
  (kw_handle: "gcfg_arg \<Rightarrow> 'o option \<Rightarrow> 's \<Rightarrow> 'o option \<times> 's")
  (kw_children: "('o, 's) keyword list")
  (kw_finalize: "('o \<Rightarrow> 's \<Rightarrow> bool \<times> 's) option")
  (kw_listing: "('o \<Rightarrow> string \<Rightarrow> 's \<Rightarrow> int \<times> 's) option")

datatype fetched = Line string | ReadError

datatype parse_error = FetchFailed | MissingClosingBrace | NotUtf8 | ValueError gcfg_error | ExpectedKeyword
  | UnknownKeyword | ArgumentBug | CallbackFailed | ListingFailed | FinalizeFailed | SetFailed | TypeBug
  | ExtraAfterBrace | ExtraAfterKeyword | UnexpectedBlock | UnexpectedClose | MissingArgument | UnexpectedArgument
  | UnexpectedText | OutOfFuel

section \<open>Keywords and arguments\<close>

definition is_line_end :: "char \<Rightarrow> bool" where
  "is_line_end c \<longleftrightarrow> c = CHR 0x00 \<or> c = CHR ''#''"

definition is_alpha :: "char \<Rightarrow> bool" where
  "is_alpha c \<longleftrightarrow> 97 \<le> code c \<and> code c \<le> 122 \<or> 65 \<le> code c \<and> code c \<le> 90"

text \<open>A name, followed by a blank, a comment or the end of the line.\<close>

definition has_name :: "string \<Rightarrow> string \<Rightarrow> bool" where
  "has_name name ptr \<longleftrightarrow> take (length name) ptr = name \<and>
     (is_blank (cur (drop (length name) ptr)) \<or> is_line_end (cur (drop (length name) ptr)))"

fun keyword_loop :: "('o, 's) keyword list \<Rightarrow> string \<Rightarrow> parse_error + ('o, 's) keyword \<times> string" where
  "keyword_loop [] ptr = Inl UnknownKeyword"
| "keyword_loop (kwd # keywords) ptr =
     (if has_name (kw_name kwd) ptr then Inr (kwd, skip_space (drop (length (kw_name kwd)) ptr))
      else keyword_loop keywords ptr)"

definition find_keyword :: "('o, 's) keyword list \<Rightarrow> string \<Rightarrow> parse_error + ('o, 's) keyword \<times> string" where
  "find_keyword keywords ptr =
     (if \<not> is_alpha (cur ptr) \<and> \<not> is_digit (cur ptr) then Inl ExpectedKeyword else keyword_loop keywords ptr)"

definition parse_arg :: "gcfg_arg_type \<Rightarrow> string \<Rightarrow> parse_error + gcfg_arg \<times> string" where
  "parse_arg ty ptr =
     (case ty of
        GCFG_ARG_NONE \<Rightarrow> Inr (ArgNone, ptr)
      | GCFG_ARG_BOOLEAN \<Rightarrow>
          (case gcfg_parse_boolean ptr of Inl e \<Rightarrow> Inl (ValueError e) | Inr (b, p) \<Rightarrow> Inr (ArgBool (b \<noteq> 0), p))
      | GCFG_ARG_STRING \<Rightarrow>
          (case gcfg_parse_string ptr of Inl e \<Rightarrow> Inl (ValueError e) | Inr (x, p) \<Rightarrow> Inr (ArgString x, p))
      | GCFG_ARG_NUMBER \<Rightarrow>
          (case gcfg_parse_number ptr of Inl e \<Rightarrow> Inl (ValueError e) | Inr (n, p) \<Rightarrow> Inr (ArgNumbers [n], p))
      | GCFG_ARG_SIZE \<Rightarrow>
          (case gcfg_parse_size ptr of Inl e \<Rightarrow> Inl (ValueError e) | Inr (n, p) \<Rightarrow> Inr (ArgSize n, p))
      | GCFG_ARG_VEC2 \<Rightarrow>
          (case gcfg_parse_vector 2 ptr of Inl e \<Rightarrow> Inl (ValueError e) | Inr (v, p) \<Rightarrow> Inr (ArgNumbers v, p))
      | GCFG_ARG_VEC3 \<Rightarrow>
          (case gcfg_parse_vector 3 ptr of Inl e \<Rightarrow> Inl (ValueError e) | Inr (v, p) \<Rightarrow> Inr (ArgNumbers v, p))
      | GCFG_ARG_VEC4 \<Rightarrow>
          (case gcfg_parse_vector 4 ptr of Inl e \<Rightarrow> Inl (ValueError e) | Inr (v, p) \<Rightarrow> Inr (ArgNumbers v, p))
      | GCFG_ARG_OTHER _ \<Rightarrow> Inl ArgumentBug)"

text \<open>A callback that returns \<open>NULL\<close> makes the caller give up.\<close>

definition apply_arg ::
  "('o, 's) keyword \<Rightarrow> string \<Rightarrow> 'o option \<Rightarrow> 's \<Rightarrow> (parse_error + 'o \<times> string) \<times> 's" where
  "apply_arg kwd ptr parent s =
     (case parse_arg (kw_arg kwd) ptr of
        Inl e \<Rightarrow> (Inl e, s)
      | Inr (a, p) \<Rightarrow>
          (case kw_handle kwd a parent s of
             (None, s1) \<Rightarrow> (Inl CallbackFailed, s1)
           | (Some child, s1) \<Rightarrow> (Inr (child, skip_space p), s1)))"

section \<open>Properties\<close>

definition parse_property :: "property_desc \<Rightarrow> string \<Rightarrow> parse_error + property_value \<times> string" where
  "parse_property desc ptr =
     (case pd_type desc of
        PROPERTY_TYPE_STRING \<Rightarrow>
          (case gcfg_parse_string ptr of Inl e \<Rightarrow> Inl (ValueError e) | Inr (x, p) \<Rightarrow> Inr (PropString x, p))
      | PROPERTY_TYPE_BOOL \<Rightarrow>
          (case gcfg_parse_boolean ptr of Inl e \<Rightarrow> Inl (ValueError e) | Inr (b, p) \<Rightarrow> Inr (PropBool (b \<noteq> 0), p))
      | PROPERTY_TYPE_U32_NUMBER \<Rightarrow>
          (case gcfg_dec_num 0xFFFFFFFF ptr of Inl e \<Rightarrow> Inl (ValueError e) | Inr (n, p) \<Rightarrow> Inr (PropU32 (u32 n), p))
      | PROPERTY_TYPE_U64_NUMBER \<Rightarrow>
          (case gcfg_dec_num (2 ^ 64 - 1) ptr of Inl e \<Rightarrow> Inl (ValueError e) | Inr (n, p) \<Rightarrow> Inr (PropU64 n, p))
      | PROPERTY_TYPE_U64_SIZE \<Rightarrow>
          (case gcfg_parse_size ptr of Inl e \<Rightarrow> Inl (ValueError e) | Inr (n, p) \<Rightarrow> Inr (PropSize n, p))
      | PROPERTY_TYPE_ENUM \<Rightarrow>
          (case gcfg_parse_enum (pd_enum desc) ptr of Inl e \<Rightarrow> Inl (ValueError e) | Inr (i, p) \<Rightarrow> Inr (PropEnum i, p))
      | PROPERTY_TYPE_NONE \<Rightarrow> Inl TypeBug)"

definition apply_reflection_arg ::
  "'s meta_object list \<Rightarrow> string \<Rightarrow> nat \<Rightarrow> property_desc \<Rightarrow> 's \<Rightarrow> (parse_error + string) \<times> 's" where
  "apply_reflection_arg mc ptr idx desc s =
     (case parse_property desc ptr of
        Inl e \<Rightarrow> (Inl e, s)
      | Inr (v, p) \<Rightarrow>
          (case object_set_property mc s idx v of
             None \<Rightarrow> (Inl SetFailed, s)
           | Some s1 \<Rightarrow> (Inr (skip_space p), s1)))"

text \<open>The search for a property of the parent that the line names.\<close>

definition match_property :: "'s meta_object list \<Rightarrow> string \<Rightarrow> (nat \<times> property_desc) option" where
  "match_property mc ptr =
     (case find (\<lambda>i. case object_get_property_desc mc i of None \<Rightarrow> False | Some d \<Rightarrow> has_name (pd_name d) ptr)
             [0..<object_get_property_count mc] of
        None \<Rightarrow> None
      | Some i \<Rightarrow> map_option (Pair i) (object_get_property_desc mc i))"

section \<open>Lines and blocks\<close>

text \<open>What a line asks for: nothing more, the end of the block, or an object, with or without a block.\<close>

datatype ('o, 's) line_action = Fail parse_error | Next | Close | Object "('o, 's) keyword" 'o bool

definition handle_property ::
  "'s meta_object list \<Rightarrow> nat \<Rightarrow> property_desc \<Rightarrow> string \<Rightarrow> 's \<Rightarrow> ('o, 's) line_action \<times> 's" where
  "handle_property mc i desc ptr s =
     (case apply_reflection_arg mc (skip_space (drop (length (pd_name desc)) ptr)) i desc s of
        (Inl e, s1) \<Rightarrow> (Fail e, s1)
      | (Inr p, s1) \<Rightarrow>
          (if cur p = CHR ''{'' then (Fail UnexpectedBlock, s1)
           else if \<not> is_line_end (cur p) then (Fail ExtraAfterKeyword, s1)
           else (Next, s1)))"

definition handle_keyword ::
  "('o, 's) keyword list \<Rightarrow> 'o option \<Rightarrow> string \<Rightarrow> 's \<Rightarrow> ('o, 's) line_action \<times> 's" where
  "handle_keyword keywords parent ptr s =
     (case find_keyword keywords ptr of
        Inl e \<Rightarrow> (Fail e, s)
      | Inr (kwd, p) \<Rightarrow>
          (let have_args = (\<not> is_line_end (cur p) \<and> cur p \<noteq> CHR ''{'' \<and> cur p \<noteq> CHR ''}'')
           in if \<not> have_args \<and> kw_arg kwd \<noteq> GCFG_ARG_NONE then (Fail MissingArgument, s)
              else if have_args \<and> kw_arg kwd = GCFG_ARG_NONE then (Fail UnexpectedArgument, s)
              else case apply_arg kwd p parent s of
                  (Inl e, s1) \<Rightarrow> (Fail e, s1)
                | (Inr (child, p1), s1) \<Rightarrow>
                    (if cur p1 = CHR ''{'' then
                       (if \<not> is_line_end (cur (skip_space (tl p1))) then (Fail ExtraAfterBrace, s1)
                        else (Object kwd child True, s1))
                     else if \<not> is_line_end (cur p1) then (Fail ExtraAfterKeyword, s1)
                     else (Object kwd child False, s1))))"

definition handle_line ::
  "('o \<Rightarrow> 's meta_object list) \<Rightarrow> ('o, 's) keyword list \<Rightarrow> 'o option \<Rightarrow> nat \<Rightarrow> string \<Rightarrow> 's \<Rightarrow> ('o, 's) line_action \<times> 's" where
  "handle_line chain keywords parent level buffer s =
     (if \<not> gcfg_is_valid_utf8 buffer then (Fail NotUtf8, s)
      else let ptr = skip_space buffer
      in case (case parent of None \<Rightarrow> None | Some p \<Rightarrow> match_property (chain p) ptr) of
           Some (i, desc) \<Rightarrow> handle_property (chain (the parent)) i desc ptr s
         | None \<Rightarrow>
             (if is_alpha (cur ptr) then handle_keyword keywords parent ptr s
              else if cur ptr = CHR ''}'' then
                (if level = 0 then (Fail UnexpectedClose, s)
                 else if \<not> is_line_end (cur (skip_space (tl ptr))) then (Fail ExtraAfterBrace, s)
                 else (Close, s))
              else if \<not> is_line_end (cur ptr) then (Fail UnexpectedText, s)
              else (Next, s)))"

fun plain_listing ::
  "('o \<Rightarrow> string \<Rightarrow> 's \<Rightarrow> int \<times> 's) \<Rightarrow> 'o \<Rightarrow> fetched list \<Rightarrow> 's \<Rightarrow> (parse_error + fetched list) \<times> 's" where
  "plain_listing h obj [] s = (Inl MissingClosingBrace, s)"
| "plain_listing h obj (ReadError # lines) s = (Inl FetchFailed, s)"
| "plain_listing h obj (Line ptr # lines) s =
     (if \<not> gcfg_is_valid_utf8 ptr then (Inl NotUtf8, s)
      else case h obj ptr s of (ret, s1) \<Rightarrow>
        (if ret < 0 then (Inl ListingFailed, s1)
         else if 0 < ret then
           (let p = skip_space ptr
            in if cur p \<noteq> CHR ''}'' then (Inl MissingClosingBrace, s1)
               else if \<not> is_line_end (cur (skip_space (tl p))) then (Inl ExtraAfterBrace, s1)
               else (Inr lines, s1))
         else plain_listing h obj lines s1))"

definition finalize_object :: "('o, 's) keyword \<Rightarrow> 'o \<Rightarrow> 's \<Rightarrow> bool \<times> 's" where
  "finalize_object kwd child s = (case kw_finalize kwd of None \<Rightarrow> (True, s) | Some fin \<Rightarrow> fin child s)"

fun parse ::
  "nat \<Rightarrow> ('o \<Rightarrow> 's meta_object list) \<Rightarrow> ('o, 's) keyword list \<Rightarrow> 'o option \<Rightarrow> nat \<Rightarrow> fetched list \<Rightarrow> 's \<Rightarrow>
   (parse_error + fetched list) \<times> 's" where
  "parse 0 chain keywords parent level lines s = (Inl OutOfFuel, s)"
| "parse (Suc k) chain keywords parent level [] s =
     (if level \<noteq> 0 then (Inl MissingClosingBrace, s) else (Inr [], s))"
| "parse (Suc k) chain keywords parent level (ReadError # lines) s = (Inl FetchFailed, s)"
| "parse (Suc k) chain keywords parent level (Line buffer # lines) s =
     (case handle_line chain keywords parent level buffer s of
        (Fail e, s1) \<Rightarrow> (Inl e, s1)
      | (Next, s1) \<Rightarrow> parse k chain keywords parent level lines s1
      | (Close, s1) \<Rightarrow> (Inr lines, s1)
      | (Object kwd child block, s1) \<Rightarrow>
          (case (if \<not> block then (Inr lines, s1)
                 else case kw_listing kwd of
                     Some h \<Rightarrow> plain_listing h child lines s1
                   | None \<Rightarrow>
                       (if kw_children kwd = [] then (Inl UnexpectedBlock, s1)
                        else parse k chain (kw_children kwd) (Some child) (u32 (level + 1)) lines s1)) of
             (Inl e, s2) \<Rightarrow> (Inl e, s2)
           | (Inr lines2, s2) \<Rightarrow>
               (case finalize_object kwd child s2 of
                  (False, s3) \<Rightarrow> (Inl FinalizeFailed, s3)
                | (True, s3) \<Rightarrow> parse k chain keywords parent level lines2 s3)))"

definition gcfg_parse_file ::
  "('o \<Rightarrow> 's meta_object list) \<Rightarrow> ('o, 's) keyword list \<Rightarrow> 'o option \<Rightarrow> fetched list \<Rightarrow> 's \<Rightarrow> (parse_error + fetched list) \<times> 's" where
  "gcfg_parse_file chain keywords usr lines s = parse (Suc (length lines)) chain keywords usr 0 lines s"

section \<open>The shape of accepted files\<close>

definition valid_line :: "fetched \<Rightarrow> bool" where
  "valid_line l \<longleftrightarrow> (\<exists>t. l = Line t \<and> gcfg_is_valid_utf8 t)"

definition closes :: "fetched \<Rightarrow> bool" where
  "closes l \<longleftrightarrow> (\<exists>t. l = Line t \<and> cur (skip_space t) = CHR ''}'' \<and> is_line_end (cur (skip_space (tl (skip_space t)))))"

lemma plain_listing_used:
  "plain_listing h obj lines s = (Inr rest, s') \<Longrightarrow>
     \<exists>used. lines = used @ rest \<and> used \<noteq> [] \<and> list_all valid_line used \<and> closes (last used)"
proof (induction h obj lines s rule: plain_listing.induct)
  case (3 h obj ptr lines s)
  obtain ret s1 where r: "h obj ptr s = (ret, s1)" by fastforce
  have utf: "gcfg_is_valid_utf8 ptr" using 3(2) by (auto split: if_splits)
  show ?case
  proof (cases "0 < ret")
    case True
    then have "rest = lines" "closes (Line ptr)" using 3(2) r utf by (auto simp: closes_def Let_def split: if_splits)
    then show ?thesis using utf by (intro exI [of _ "[Line ptr]"]) (simp add: valid_line_def)
  next
    case False
    then have "\<not> ret < 0" "plain_listing h obj lines s1 = (Inr rest, s')" using 3(2) r utf by (auto split: if_splits)
    then obtain used where "lines = used @ rest" "used \<noteq> []" "list_all valid_line used" "closes (last used)"
      using 3(1) [OF _ r [symmetric]] utf False by auto
    moreover have "valid_line (Line ptr)" using utf by (simp add: valid_line_def)
    ultimately show ?thesis by (intro exI [of _ "Line ptr # used"]) simp
  qed
qed auto

lemma handle_line_Close:
  assumes "handle_line chain keywords parent level buffer s = (Close, s1)"
  shows "level \<noteq> 0" "closes (Line buffer)"
  using assms
  by (auto simp: handle_line_def handle_property_def handle_keyword_def closes_def Let_def
      split: if_splits option.splits prod.splits sum.splits)

lemma handle_line_valid:
  assumes "handle_line chain keywords parent level buffer s = (a, s1)" "\<forall>e. a \<noteq> Fail e"
  shows "valid_line (Line buffer)"
  using assms by (auto simp: handle_line_def valid_line_def split: if_splits)

text \<open>What an accepted part of a file looks like: valid lines, up to the end of the file at the outermost level, and
  up to a line that closes the block inside a block.\<close>

definition accepted :: "nat \<Rightarrow> fetched list \<Rightarrow> fetched list \<Rightarrow> bool" where
  "accepted level lines rest \<longleftrightarrow>
     (\<exists>used. lines = used @ rest \<and> list_all valid_line used \<and>
        (if level = 0 then rest = [] else used \<noteq> [] \<and> closes (last used)))"

lemma accepted_Cons: "accepted level lines rest \<Longrightarrow> valid_line l \<Longrightarrow> accepted level (l # lines) rest"
  unfolding accepted_def by (elim exE conjE) (rule exI [of _ "l # _"], auto)

lemma accepted_append: "accepted level lines rest \<Longrightarrow> list_all valid_line used \<Longrightarrow> accepted level (used @ lines) rest"
  by (induction used) (auto simp: accepted_Cons)

lemma accepted_used: "accepted level lines rest \<Longrightarrow> \<exists>used. lines = used @ rest \<and> list_all valid_line used"
  unfolding accepted_def by blast

text \<open>The block behind a line that opens one.\<close>

definition block_result ::
  "nat \<Rightarrow> ('o \<Rightarrow> 's meta_object list) \<Rightarrow> ('o, 's) keyword \<Rightarrow> 'o \<Rightarrow> bool \<Rightarrow> nat \<Rightarrow> fetched list \<Rightarrow> 's \<Rightarrow> (parse_error + fetched list) \<times> 's" where
  "block_result k chain kwd child block level lines s =
     (if \<not> block then (Inr lines, s)
      else case kw_listing kwd of
          Some h \<Rightarrow> plain_listing h child lines s
        | None \<Rightarrow>
            (if kw_children kwd = [] then (Inl UnexpectedBlock, s)
             else parse k chain (kw_children kwd) (Some child) (u32 (level + 1)) lines s))"

lemma parse_Object:
  assumes "handle_line chain keywords parent level buffer s = (Object kwd child block, s1)"
  shows "parse (Suc k) chain keywords parent level (Line buffer # lines) s =
     (case block_result k chain kwd child block level lines s1 of
        (Inl e, s2) \<Rightarrow> (Inl e, s2)
      | (Inr lines2, s2) \<Rightarrow>
          (case finalize_object kwd child s2 of
             (False, s3) \<Rightarrow> (Inl FinalizeFailed, s3)
           | (True, s3) \<Rightarrow> parse k chain keywords parent level lines2 s3))"
  using assms by (simp add: block_result_def)

lemma parse_accepted:
  "parse k chain kws parent level lines s = (Inr rest, s') \<Longrightarrow> accepted level lines rest"
proof (induction k arbitrary: kws parent level lines s rest s')
  case 0
  then show ?case by simp
next
  case (Suc k)
  show ?case
  proof (cases lines)
    case Nil
    then show ?thesis using Suc.prems by (auto simp: accepted_def split: if_splits)
  next
    case (Cons l lines1)
    show ?thesis
    proof (cases l)
      case ReadError
      then show ?thesis using Suc.prems Cons by simp
    next
      case (Line buffer)
      obtain a s1 where h: "handle_line chain kws parent level buffer s = (a, s1)" by fastforce
      note run = Suc.prems [unfolded Cons Line]
      have valid: "valid_line l" if "\<forall>e. a \<noteq> Fail e" using handle_line_valid [OF h that] Line by simp
      show ?thesis
      proof (cases a)
        case (Fail e)
        then show ?thesis using run h by simp
      next
        case Next
        then show ?thesis using run h Suc.IH valid Cons by (auto intro: accepted_Cons)
      next
        case Close
        then have "rest = lines1" using run h by simp
        then show ?thesis using handle_line_Close [OF h [unfolded Close]] valid Cons Line Close
          unfolding accepted_def by (intro exI [of _ "[l]"]) simp
      next
        case (Object kwd child block)
        note eq = parse_Object [OF h [unfolded Object], of k lines1]
        obtain lines2 s2 s3 where b: "block_result k chain kwd child block level lines1 s1 = (Inr lines2, s2)"
            "finalize_object kwd child s2 = (True, s3)" "parse k chain kws parent level lines2 s3 = (Inr rest, s')"
          using run unfolding eq by (auto split: prod.splits sum.splits bool.splits)
        have "\<exists>used. lines1 = used @ lines2 \<and> list_all valid_line used"
        proof (cases "block")
          case False
          then show ?thesis using b(1) by (auto simp: block_result_def)
        next
          case True
          then show ?thesis
            using b(1) plain_listing_used [of _ child lines1 s1 lines2 s2] Suc.IH accepted_used
            by (auto simp: block_result_def split: option.splits if_splits) blast+
        qed
        then show ?thesis
          using Suc.IH [OF b(3)] valid Cons Object by (auto intro: accepted_Cons accepted_append)
      qed
    qed
  qed
qed

section \<open>The fuel is enough\<close>

lemma plain_listing_fuel: "fst (plain_listing h obj lines s) \<noteq> Inl OutOfFuel"
  by (induction h obj lines s rule: plain_listing.induct) (auto simp: Let_def split: prod.splits)

lemma keyword_loop_fuel: "keyword_loop kws ptr \<noteq> Inl OutOfFuel"
  by (induction kws) auto

lemma parse_arg_fuel: "parse_arg ty ptr \<noteq> Inl OutOfFuel"
  by (cases ty) (auto simp: parse_arg_def split: sum.splits)

lemma parse_property_fuel: "parse_property d ptr \<noteq> Inl OutOfFuel"
  by (cases "pd_type d") (auto simp: parse_property_def split: sum.splits)

lemma apply_arg_fuel: "fst (apply_arg kwd ptr parent s) \<noteq> Inl OutOfFuel"
  using parse_arg_fuel [of "kw_arg kwd" ptr] by (auto simp: apply_arg_def split: sum.splits prod.splits option.splits)

lemma handle_keyword_fuel: "fst (handle_keyword kws parent ptr s) \<noteq> Fail OutOfFuel"
proof (cases "find_keyword kws ptr")
  case (Inl e)
  then have "e \<noteq> OutOfFuel" using keyword_loop_fuel [of kws ptr] by (auto simp: find_keyword_def split: if_splits)
  then show ?thesis using Inl by (simp add: handle_keyword_def)
next
  case (Inr r)
  obtain kwd p where r: "r = (kwd, p)" by fastforce
  show ?thesis using Inr r apply_arg_fuel [of kwd p parent s]
    by (auto simp: handle_keyword_def Let_def split: if_splits sum.splits prod.splits)
qed

lemma handle_property_fuel: "fst (handle_property mc i d ptr s) \<noteq> Fail OutOfFuel"
  using parse_property_fuel [of d "skip_space (drop (length (pd_name d)) ptr)"]
  by (auto simp: handle_property_def apply_reflection_arg_def split: if_splits sum.splits prod.splits option.splits)

lemma handle_line_fuel: "fst (handle_line chain kws parent level buffer s) \<noteq> Fail OutOfFuel"
  by (auto simp: handle_line_def Let_def handle_keyword_fuel handle_property_fuel split: option.splits)

lemma parse_fuel: "length lines < k \<Longrightarrow> fst (parse k chain kws parent level lines s) \<noteq> Inl OutOfFuel"
proof (induction k arbitrary: kws parent level lines s)
  case 0
  then show ?case by simp
next
  case (Suc k)
  show ?case
  proof (cases "\<exists>buffer lines1. lines = Line buffer # lines1")
    case False
    then show ?thesis by (cases lines rule: list.exhaust; cases "hd lines") auto
  next
    case True
    then obtain buffer lines1 where l: "lines = Line buffer # lines1" by blast
    obtain a s1 where h: "handle_line chain kws parent level buffer s = (a, s1)" by fastforce
    have k: "length lines1 < k" using Suc.prems l by simp
    show ?thesis
    proof (cases a)
      case (Fail e)
      then show ?thesis using l h handle_line_fuel [of chain kws parent level buffer s] by simp
    next
      case Next
      then show ?thesis using l h Suc.IH [OF k] by simp
    next
      case Close
      then show ?thesis using l h by simp
    next
      case (Object kwd child block)
      obtain r s2 where b: "block_result k chain kwd child block level lines1 s1 = (r, s2)" by fastforce
      have r: "r \<noteq> Inl OutOfFuel"
      proof -
        have "fst (block_result k chain kwd child block level lines1 s1) \<noteq> Inl OutOfFuel"
          using Suc.IH [OF k] by (auto simp: block_result_def plain_listing_fuel split: option.splits)
        then show ?thesis using b by simp
      qed
      have "length lines2 < k" if "r = Inr lines2" for lines2
      proof -
        have "length lines2 \<le> length lines1"
          using b that plain_listing_used [of _ child lines1 s1 lines2 s2] parse_accepted accepted_used
          by (auto simp: block_result_def split: if_splits option.splits) fastforce+
        then show ?thesis using k by simp
      qed
      then show ?thesis
        using r parse_Object [OF h [unfolded Object], of k lines1] b Suc.IH l
        by (auto split: sum.splits prod.splits bool.splits)
    qed
  qed
qed

text \<open>C16: the parser of a configuration file always ends, and a file it accepts is read to its end, every line of
  it valid UTF-8.\<close>

theorem parse_file_ends:
  "fst (gcfg_parse_file chain kws usr lines s) \<noteq> Inl OutOfFuel \<and>
   (\<forall>rest. fst (gcfg_parse_file chain kws usr lines s) = Inr rest \<longrightarrow> rest = [] \<and> list_all valid_line lines)"
proof -
  have "rest = [] \<and> list_all valid_line lines" if r: "fst (gcfg_parse_file chain kws usr lines s) = Inr rest" for rest
  proof -
    obtain s' where "parse (Suc (length lines)) chain kws usr 0 lines s = (Inr rest, s')"
      using r by (metis gcfg_parse_file_def prod.collapse)
    from parse_accepted [OF this] show ?thesis by (auto simp: accepted_def)
  qed
  then show ?thesis using parse_fuel [of lines "Suc (length lines)"] by (simp add: gcfg_parse_file_def)
qed

theorem parse_file_ends_witness:
  "fst (gcfg_parse_file (\<lambda>_ :: unit. []) [Keyword GCFG_ARG_NONE ''a'' (\<lambda>_ _ s. (Some (), s)) [] None None] None
     [Line ''a'', Line ''#''] ()) = Inr [] \<and> list_all valid_line [Line ''a'', Line ''#'']"
proof -
  have utf: "gcfg_is_valid_utf8 ''a''" "gcfg_is_valid_utf8 ''#''"
    by (simp_all add: gcfg_is_valid_utf8.simps(2) seq_length_def mask_by_count_def min_val_by_count_def gcfg_is_valid_cp_def Let_def)
  have "handle_line (\<lambda>_ :: unit. []) [Keyword GCFG_ARG_NONE ''a'' (\<lambda>_ _ s. (Some (), s)) [] None None] None 0 ''a'' () =
      (Object (Keyword GCFG_ARG_NONE ''a'' (\<lambda>_ _ s. (Some (), s)) [] None None) () False, ())"
    using utf by (simp add: handle_line_def handle_keyword_def find_keyword_def has_name_def apply_arg_def parse_arg_def
        is_alpha_def is_blank_def is_line_end_def)
  moreover have "handle_line (\<lambda>_ :: unit. []) [Keyword GCFG_ARG_NONE ''a'' (\<lambda>_ _ s. (Some (), s)) [] None None] None 0 ''#'' () = (Next, ())"
    using utf by (simp add: handle_line_def is_alpha_def is_blank_def is_line_end_def)
  ultimately have "fst (gcfg_parse_file (\<lambda>_ :: unit. []) [Keyword GCFG_ARG_NONE ''a'' (\<lambda>_ _ s. (Some (), s)) [] None None] None
     [Line ''a'', Line ''#''] ()) = Inr []"
    by (simp add: gcfg_parse_file_def finalize_object_def)
  note res = this
  from parse_file_ends [THEN conjunct2, rule_format, OF res] show ?thesis using res by (simp only: simp_thms)
qed

end
