(* ===== verification/Streams.thy ===== *)
theory Streams
  imports Util
begin

text \<open>
  libfstream: \<open>istream.c\<close>, \<open>get_line.c\<close>, \<open>ostream.c\<close>, \<open>nullstream.c\<close>, \<open>istream_xfrm.c\<close>, \<open>ostream_xfrm.c\<close>
  and the Unix file streams \<open>unix/istream.c\<close> and \<open>unix/ostream.c\<close>.

  An \<open>istream_t\<close> is a buffer with a read position and an end flag in front of a source \<open>'s\<close>; \<open>buffer\<close> holds the
  first \<open>buffer_used\<close> bytes of the C buffer. The callback \<open>precache\<close> gets the buffer with the consumed part
  removed and gives the new contents of the buffer, the end flag and the new source, and whether it succeeded.

  The locale \<open>istream_source\<close> is the contract of the callback: called with an empty buffer it supplies the next
  bytes of the source, and none only at its end. The locale \<open>filling_source\<close> adds that it keeps what is buffered
  and fills the buffer. Reading and skipping are proved against the first, reading lines against the second; both
  are interpreted for files, whose \<open>read\<close> calls may be short or interrupted.
\<close>

section \<open>Input streams\<close>

record 's istream =
  buffer :: "byte list"
  buffer_offset :: nat
  eof :: bool
  src :: 's

type_synonym 's precache = "'s \<Rightarrow> byte list \<Rightarrow> bool \<times> byte list \<times> bool \<times> 's"

definition istream_precache :: "'s precache \<Rightarrow> 's istream \<Rightarrow> (unit, 's istream) io" where
  "istream_precache precache strm =
     (let used = length (buffer strm);
          strm = (if used \<le> buffer_offset strm then strm\<lparr>buffer_offset := 0, buffer := []\<rparr>
                  else if 0 < buffer_offset strm
                  then strm\<lparr>buffer := drop (buffer_offset strm) (buffer strm), buffer_offset := 0\<rparr>
                  else strm)
      in if eof strm then (Some (), strm)
         else case precache (src strm) (buffer strm) of
           (ok, b, e, s) \<Rightarrow> (if ok then Some () else None, strm\<lparr>buffer := b, eof := e, src := s\<rparr>))"

lemma istream_precache_offset: "istream_precache pc strm = (r, strm') \<Longrightarrow> buffer_offset strm' = 0"
  by (auto simp: istream_precache_def Let_def split: if_splits prod.splits)

text \<open>The loop of \<open>istream_read\<close>; the result is what was copied to the caller's buffer.\<close>

definition read_refill :: "'s precache \<Rightarrow> 's istream \<Rightarrow> (unit, 's istream) io" where
  "read_refill pc strm =
     (if length (buffer strm) \<le> buffer_offset strm then istream_precache pc strm else (Some (), strm))"

lemma read_refill_progress:
  "read_refill pc strm = (Some (), strm') \<Longrightarrow> buffer strm' \<noteq> [] \<Longrightarrow> buffer_offset strm' < length (buffer strm')"
  by (auto simp: read_refill_def dest: istream_precache_offset split: if_splits)

function istream_read_loop :: "'s precache \<Rightarrow> 's istream \<Rightarrow> nat \<Rightarrow> (byte list, 's istream) io" where
  "istream_read_loop pc strm sz =
     (if sz = 0 then (Some [], strm)
      else case read_refill pc strm of
          (None, strm) \<Rightarrow> (None, strm)
        | (Some _, strm) \<Rightarrow>
            (if buffer strm = [] then (Some [], strm)
             else let diff = min (length (buffer strm) - buffer_offset strm) sz;
                      d = take diff (drop (buffer_offset strm) (buffer strm))
               in case istream_read_loop pc (strm\<lparr>buffer_offset := buffer_offset strm + diff\<rparr>) (sz - diff) of
                   (None, strm) \<Rightarrow> (None, strm)
                 | (Some ds, strm) \<Rightarrow> (Some (d @ ds), strm)))"
  by pat_completeness auto
termination
  by (relation "measure (\<lambda>(pc, strm, sz). sz)") (auto dest: read_refill_progress [OF sym])

declare istream_read_loop.simps [simp del]

definition istream_read :: "'s precache \<Rightarrow> 's istream \<Rightarrow> nat \<Rightarrow> (byte list, 's istream) io" where
  "istream_read pc strm sz = istream_read_loop pc strm (if sz > 0x7FFFFFFF then 0x7FFFFFFF else sz)"

function istream_skip :: "'s precache \<Rightarrow> 's istream \<Rightarrow> nat \<Rightarrow> (unit, 's istream) io" where
  "istream_skip pc strm sz =
     (if sz = 0 then (Some (), strm)
      else case read_refill pc strm of
          (None, strm) \<Rightarrow> (None, strm)
        | (Some _, strm) \<Rightarrow>
            (if buffer strm = [] then (None, strm)
             else let diff = min (length (buffer strm) - buffer_offset strm) sz
               in istream_skip pc (strm\<lparr>buffer_offset := buffer_offset strm + diff\<rparr>) (sz - diff)))"
  by pat_completeness auto
termination
  by (relation "measure (\<lambda>(pc, strm, sz). sz)") (auto dest: read_refill_progress [OF sym])

declare istream_skip.simps [simp del]

section \<open>Reading lines\<close>

text \<open>The characters that \<open>isspace\<close> accepts in the C locale, and the C string at the start of a buffer.\<close>

definition isspace :: "byte \<Rightarrow> bool" where
  "isspace c \<longleftrightarrow> c = 0x20 \<or> (0x09 \<le> c \<and> c \<le> 0x0D)"

definition cstr :: "byte list \<Rightarrow> byte list" where
  "cstr s = takeWhile (\<lambda>c. c \<noteq> 0) s"

record line_flags =
  line_ltrim :: bool
  line_rtrim :: bool
  line_skip_empty :: bool

definition ltrim :: "byte list \<Rightarrow> byte list" where
  "ltrim s = dropWhile isspace s"

fun rtrim_len :: "byte list \<Rightarrow> nat \<Rightarrow> nat" where
  "rtrim_len s 0 = 0"
| "rtrim_len s (Suc i) = (if isspace (s ! i) then rtrim_len s i else Suc i)"

definition rtrim :: "byte list \<Rightarrow> byte list" where
  "rtrim s = take (rtrim_len s (length s)) s"

definition trim :: "byte list \<Rightarrow> line_flags \<Rightarrow> byte list" where
  "trim line flags =
     (let line = cstr line;
          line = (if line_ltrim flags then ltrim line else line)
      in if line_rtrim flags then rtrim line else line)"

datatype line_result = LineFail | LineEof | Line "byte list"

text \<open>The first newline of the buffer, or the length of the buffer.\<close>

definition find_newline :: "byte list \<Rightarrow> nat" where
  "find_newline b = length (takeWhile (\<lambda>c. c \<noteq> 0x0A) b)"

text \<open>The loop of \<open>istream_get_line\<close>: what is not read yet is in the stream, what was read of the line so far is in
  \<open>line\<close>. \<open>mem n\<close> tells whether \<open>realloc\<close> to \<open>n\<close> bytes succeeds. The loop ends for streams that end, which the
  source alone does not guarantee; \<^const>\<open>None\<close> stands for a call that does not return.\<close>

partial_function (option) get_line_loop ::
  "(nat \<Rightarrow> bool) \<Rightarrow> 's precache \<Rightarrow> 's istream \<Rightarrow> byte list \<Rightarrow> nat \<Rightarrow> line_flags
     \<Rightarrow> (line_result \<times> nat \<times> 's istream) option" where
  "get_line_loop mem pc strm line line_num flags =
     (case istream_precache pc strm of
        (None, strm) \<Rightarrow> Some (LineFail, line_num, strm)
      | (Some _, strm) \<Rightarrow>
          if buffer strm = [] then
            (if line = [] then Some (LineEof, line_num, strm)
             else if trim line flags = [] \<and> line_skip_empty flags then Some (LineEof, line_num, strm)
             else Some (Line (trim line flags), line_num, strm))
          else
            let i = find_newline (buffer strm);
                have_line = i < length (buffer strm);
                strm' = strm\<lparr>buffer_offset := (if have_line then i + 1 else i)\<rparr>;
                i = (if have_line \<and> 0 < i \<and> buffer strm ! (i - 1) = 0x0D then i - 1 else i);
                line' = line @ take i (buffer strm)
            in if \<not> mem (length line' + 1) then Some (LineFail, line_num, strm')
               else if have_line then
                 (if trim line' flags = [] \<and> line_skip_empty flags
                  then get_line_loop mem pc strm' [] (line_num + 1) flags
                  else Some (Line (trim line' flags), line_num, strm'))
               else get_line_loop mem pc strm' line' line_num flags)"

text \<open>After a line was skipped the source keeps \<open>line_len\<close>, which \<open>trim\<close> has set to 0 in that case.\<close>

definition istream_get_line ::
  "(nat \<Rightarrow> bool) \<Rightarrow> 's precache \<Rightarrow> 's istream \<Rightarrow> nat \<Rightarrow> line_flags \<Rightarrow> (line_result \<times> nat \<times> 's istream) option" where
  "istream_get_line mem pc strm line_num flags = get_line_loop mem pc strm [] line_num flags"

section \<open>Files as input\<close>

definition BUFSZ :: nat where
  "BUFSZ = 262144"

record file_istream =
  in_fd :: osfile
  in_pos :: nat
  in_eof :: bool

text \<open>\<open>file_precache\<close>. It records the end of the file in a field of its own and not in the stream's \<open>eof\<close>.\<close>

function file_fill :: "file_istream \<Rightarrow> byte list \<Rightarrow> bool \<times> byte list \<times> file_istream" where
  "file_fill f b =
     (if BUFSZ \<le> length b then (True, b, f)
      else case os_pread (in_fd f) (in_pos f) (BUFSZ - length b) of
          (RVal d, fd) \<Rightarrow>
            (if d = [] then (True, b, f\<lparr>in_fd := fd, in_eof := True\<rparr>)
             else file_fill (f\<lparr>in_fd := fd, in_pos := in_pos f + length d\<rparr>) (b @ d))
        | (RIntr, fd) \<Rightarrow> file_fill (f\<lparr>in_fd := fd\<rparr>) b
        | (RErr, fd) \<Rightarrow> (False, b, f\<lparr>in_fd := fd\<rparr>))"
  by pat_completeness auto
termination
proof (relation "measure (\<lambda>(f, b). (BUFSZ - length b) + length (sched (in_fd f)))", goal_cases)
  case (3 f b x fd d)
  then have "length (sched fd) \<le> length (sched (in_fd f))" by (auto dest: os_pread_len [OF sym])
  then show ?case using 3(1,4) by (cases d) auto
qed (auto dest: os_pread_intr [OF sym])

declare file_fill.simps [simp del]

definition file_precache :: "file_istream precache" where
  "file_precache f b = (case file_fill f b of (ok, b', f') \<Rightarrow> (ok, b', False, f'))"

definition istream_open_fd :: "osfile \<Rightarrow> file_istream istream" where
  "istream_open_fd fd = \<lparr>buffer = [], buffer_offset = 0, eof = False, src = \<lparr>in_fd = fd, in_pos = 0, in_eof = False\<rparr>\<rparr>"

section \<open>Output streams\<close>

text \<open>\<open>ostream_t\<close>: the callbacks over the state \<open>'o\<close> of the implementation. \<open>append_sparse\<close> may be \<open>NULL\<close>.\<close>

record 'o ostream =
  append :: "'o \<Rightarrow> byte list \<Rightarrow> (unit, 'o) io"
  append_sparse :: "('o \<Rightarrow> nat \<Rightarrow> (unit, 'o) io) option"
  flush :: "'o \<Rightarrow> (unit, 'o) io"

function append_sparse_fallback :: "'o ostream \<Rightarrow> 'o \<Rightarrow> nat \<Rightarrow> (unit, 'o) io" where
  "append_sparse_fallback strm s sz =
     (if sz = 0 then (Some (), s)
      else let diff = (if sz < 512 then sz else 512)
        in case append strm s (zeros diff) of
            (None, s) \<Rightarrow> (None, s)
          | (Some _, s) \<Rightarrow> append_sparse_fallback strm s (sz - diff))"
  by pat_completeness auto
termination
  by (relation "measure (\<lambda>(strm, s, sz). sz)") auto

declare append_sparse_fallback.simps [simp del]

definition ostream_append :: "'o ostream \<Rightarrow> 'o \<Rightarrow> byte list \<Rightarrow> (unit, 'o) io" where
  "ostream_append strm s d = append strm s d"

definition ostream_append_sparse :: "'o ostream \<Rightarrow> 'o \<Rightarrow> nat \<Rightarrow> (unit, 'o) io" where
  "ostream_append_sparse strm s sz =
     (case append_sparse strm of None \<Rightarrow> append_sparse_fallback strm s sz | Some f \<Rightarrow> f s sz)"

definition ostream_flush :: "'o ostream \<Rightarrow> 'o \<Rightarrow> (unit, 'o) io" where
  "ostream_flush strm s = flush strm s"

text \<open>\<open>nullstream.c\<close>: counts the bytes and drops them. The state is \<open>bytes_written\<close>.\<close>

definition null_append :: "nat \<Rightarrow> byte list \<Rightarrow> (unit, nat) io" where
  "null_append bytes_written d = (Some (), add64 bytes_written (length d))"

definition null_append_sparse :: "nat \<Rightarrow> nat \<Rightarrow> (unit, nat) io" where
  "null_append_sparse bytes_written sz = (Some (), add64 bytes_written sz)"

definition null_flush :: "nat \<Rightarrow> (unit, nat) io" where
  "null_flush bytes_written = (Some (), bytes_written)"

definition null_ostream :: "nat ostream" where
  "null_ostream = \<lparr>append = null_append, append_sparse = Some null_append_sparse, flush = null_flush\<rparr>"

text \<open>\<open>unix/ostream.c\<close>. \<open>out_pos\<close> is the file position kept by the kernel. \<open>lseek\<close> refuses positions that
  do not fit \<open>off_t\<close>; whether \<open>ftruncate\<close> and \<open>fsync\<close> succeed is a parameter.\<close>

record file_ostream =
  out_fd :: osfile
  out_pos :: nat
  sparse_count :: nat
  out_size :: nat

function file_write_loop :: "file_ostream \<Rightarrow> byte list \<Rightarrow> (unit, file_ostream) io" where
  "file_write_loop f data =
     (if data = [] then (Some (), f)
      else case os_pwrite (out_fd f) (out_pos f) data of
          (RVal m, fd) \<Rightarrow>
            (if m = 0 then (None, f\<lparr>out_fd := fd\<rparr>)
             else file_write_loop (f\<lparr>out_fd := fd, out_pos := out_pos f + m, out_size := out_size f + m\<rparr>) (drop m data))
        | (RIntr, fd) \<Rightarrow> file_write_loop (f\<lparr>out_fd := fd\<rparr>) data
        | (RErr, fd) \<Rightarrow> (None, f\<lparr>out_fd := fd\<rparr>))"
  by pat_completeness auto
termination
  by (relation "measure (\<lambda>(f, data). length data + length (sched (out_fd f)))")
    (auto dest: os_pwrite_len [OF sym] os_pwrite_intr [OF sym] intro: add_less_le_mono)

declare file_write_loop.simps [simp del]

definition file_append :: "file_ostream \<Rightarrow> byte list \<Rightarrow> (unit, file_ostream) io" where
  "file_append f data =
     (if data = [] then (Some (), f)
      else if 0 < sparse_count f then
        (if 2 ^ 63 \<le> out_pos f + sparse_count f then (None, f)
         else file_write_loop (f\<lparr>out_pos := out_pos f + sparse_count f, sparse_count := 0\<rparr>) data)
      else file_write_loop f data)"

definition file_append_sparse :: "file_ostream \<Rightarrow> nat \<Rightarrow> (unit, file_ostream) io" where
  "file_append_sparse f sz = (Some (), f\<lparr>sparse_count := sparse_count f + sz, out_size := out_size f + sz\<rparr>)"

definition file_flush :: "bool \<Rightarrow> bool \<Rightarrow> file_ostream \<Rightarrow> (unit, file_ostream) io" where
  "file_flush truncate_ok fsync_ok f =
     (if 0 < sparse_count f \<and> \<not> truncate_ok then (None, f)
      else let f = (if 0 < sparse_count f then f\<lparr>out_fd := os_ftruncate (out_fd f) (out_size f)\<rparr> else f)
        in (if fsync_ok then Some () else None, f))"

definition file_ostream_ops :: "bool \<Rightarrow> bool \<Rightarrow> bool \<Rightarrow> file_ostream ostream" where
  "file_ostream_ops sparse_flag truncate_ok fsync_ok =
     \<lparr>append = file_append, append_sparse = (if sparse_flag then Some file_append_sparse else None),
      flush = file_flush truncate_ok fsync_ok\<rparr>"

text \<open>\<open>ostream_open_file\<close> on a file descriptor that \<open>open\<close> has returned, for a new or truncated file.\<close>

definition ostream_open_file :: "osfile \<Rightarrow> file_ostream" where
  "ostream_open_file fd = \<lparr>out_fd = fd, out_pos = 0, sparse_count = 0, out_size = 0\<rparr>"

section \<open>Streams through a compressor or decompressor\<close>

text \<open>\<open>xfrm_stream_t\<close>: \<open>process_data\<close> is a callback of a compression library's wrapper and a parameter here. It gets its
  state, the input, the room for output and the flush mode, and gives the result, the number of bytes taken from the
  input, the output and its new state.\<close>

datatype xfrm_flush = FLUSH_NONE | FLUSH_SYNC | FLUSH_FULL

datatype xfrm_result = XFRM_ERROR | XFRM_OK | XFRM_END | XFRM_BUFFER_FULL

type_synonym 'x process_data =
  "'x \<Rightarrow> byte list \<Rightarrow> nat \<Rightarrow> xfrm_flush \<Rightarrow> xfrm_result \<times> nat \<times> byte list \<times> 'x"

lemma room_shrinks: "out \<noteq> [] \<Longrightarrow> \<not> n - k < length out \<Longrightarrow> n - (k + length out) < n - k"
  by (cases out) auto

text \<open>\<open>precache\<close> of \<open>istream_xfrm.c\<close>. A callback that writes more than the room it is given would overrun the
  buffer; the model ends with an error there.\<close>

function xfrm_precache_loop ::
  "'w precache \<Rightarrow> 'x process_data \<Rightarrow> 'w istream \<times> 'x \<Rightarrow> byte list \<Rightarrow> xfrm_flush
     \<Rightarrow> bool \<times> byte list \<times> bool \<times> 'w istream \<times> 'x" where
  "xfrm_precache_loop wpc process_data s b mode =
     (case s of (wrapped, x) \<Rightarrow>
        case istream_precache wpc wrapped of
          (None, wrapped) \<Rightarrow> (False, b, False, wrapped, x)
        | (Some _, wrapped) \<Rightarrow>
            let mode = (if eof wrapped then FLUSH_FULL else mode) in
            case process_data x (buffer wrapped) (BUFSZ - length b) mode of
              (ret, in_diff, out, x) \<Rightarrow>
                if ret = XFRM_ERROR then (False, b, False, wrapped, x)
                else if BUFSZ - length b < length out then (False, b, False, wrapped, x)
                else let b' = b @ out;
                         wrapped' = wrapped\<lparr>buffer_offset := buffer_offset wrapped + in_diff\<rparr>
                  in if ret = XFRM_END then (True, b', True, wrapped', x)
                     else if ret \<noteq> XFRM_OK \<or> out = [] then (True, b', False, wrapped', x)
                     else xfrm_precache_loop wpc process_data (wrapped', x) b' mode)"
  by pat_completeness auto
termination
  by (relation "measure (\<lambda>(wpc, p, s, b, mode). BUFSZ - length b)") (auto intro: room_shrinks)

declare xfrm_precache_loop.simps [simp del]

definition xfrm_precache :: "'w precache \<Rightarrow> 'x process_data \<Rightarrow> ('w istream \<times> 'x) precache" where
  "xfrm_precache wpc process_data s b = xfrm_precache_loop wpc process_data s b FLUSH_NONE"

definition istream_xfrm_create :: "'w istream \<Rightarrow> 'x \<Rightarrow> ('w istream \<times> 'x) istream" where
  "istream_xfrm_create strm xfrm = \<lparr>buffer = [], buffer_offset = 0, eof = False, src = (strm, xfrm)\<rparr>"

text \<open>\<open>ostream_xfrm.c\<close>. The first \<open>inbuf_used\<close> bytes of the input buffer are \<open>inbuf\<close>. When the callback takes only a part of
  them, the rest is meant to move to the front, but the length passed to \<open>memmove\<close> is
  \<open>inbuf_used - inbuf_used\<close>: nothing moves and the front of the old contents stays.\<close>

record ('o, 'x) ostream_xfrm =
  xf_wrapped :: 'o
  xf_state :: 'x
  inbuf :: "byte list"

definition flush_xfrm ::
  "'o ostream \<Rightarrow> 'x process_data \<Rightarrow> ('o, 'x) ostream_xfrm \<Rightarrow> xfrm_flush \<Rightarrow> (unit, ('o, 'x) ostream_xfrm) io" where
  "flush_xfrm strm process_data cs mode =
     (case process_data (xf_state cs) (inbuf cs) BUFSZ mode of
        (ret, in_diff, out, x) \<Rightarrow>
          if ret \<noteq> XFRM_OK \<and> ret \<noteq> XFRM_END then (None, cs\<lparr>xf_state := x\<rparr>)
          else case append strm (xf_wrapped cs) out of
              (None, w) \<Rightarrow> (None, cs\<lparr>xf_wrapped := w, xf_state := x\<rparr>)
            | (Some _, w) \<Rightarrow>
                (Some (), cs\<lparr>xf_wrapped := w, xf_state := x, inbuf := take (length (inbuf cs) - in_diff) (inbuf cs)\<rparr>))"

text \<open>\<open>comp_append\<close> goes on as long as each round takes some of the data. With a full buffer of which
  \<open>process_data\<close> takes nothing the source loops for ever; \<^const>\<open>None\<close> as the outer result stands for that.\<close>

partial_function (option) comp_append ::
  "'o ostream \<Rightarrow> 'x process_data \<Rightarrow> ('o, 'x) ostream_xfrm \<Rightarrow> byte list \<Rightarrow> ((unit, ('o, 'x) ostream_xfrm) io) option" where
  "comp_append strm process_data cs data =
     (if data = [] then Some (Some (), cs)
      else case (if BUFSZ \<le> length (inbuf cs) then flush_xfrm strm process_data cs FLUSH_NONE else (Some (), cs)) of
          (None, cs) \<Rightarrow> Some (None, cs)
        | (Some _, cs) \<Rightarrow>
            let diff = min (BUFSZ - length (inbuf cs)) (length data)
            in comp_append strm process_data (cs\<lparr>inbuf := inbuf cs @ take diff data\<rparr>) (drop diff data))"

definition comp_flush :: "'o ostream \<Rightarrow> 'x process_data \<Rightarrow> ('o, 'x) ostream_xfrm \<Rightarrow> (unit, ('o, 'x) ostream_xfrm) io" where
  "comp_flush strm process_data cs =
     (case (if inbuf cs \<noteq> [] then flush_xfrm strm process_data cs FLUSH_FULL else (Some (), cs)) of
        (None, cs) \<Rightarrow> (None, cs)
      | (Some _, cs) \<Rightarrow>
          (case flush strm (xf_wrapped cs) of (r, w) \<Rightarrow> (r, cs\<lparr>xf_wrapped := w\<rparr>)))"

definition ostream_xfrm_create :: "'o \<Rightarrow> 'x \<Rightarrow> ('o, 'x) ostream_xfrm" where
  "ostream_xfrm_create strm xfrm = \<lparr>xf_wrapped = strm, xf_state = xfrm, inbuf = []\<rparr>"

section \<open>The contract of an input stream\<close>

locale istream_source =
  fixes pc :: "'s precache"
    and remaining :: "'s \<Rightarrow> byte list"
    and good :: "'s \<Rightarrow> bool"
  assumes precache_empty:
    "good s \<Longrightarrow> pc s [] = (ok, b, e, s') \<Longrightarrow>
       ok \<and> good s' \<and> remaining s = b @ remaining s' \<and> (b = [] \<longrightarrow> remaining s' = []) \<and> (e \<longrightarrow> remaining s' = [])"
begin

definition pending :: "'s istream \<Rightarrow> byte list" where
  "pending strm = drop (buffer_offset strm) (buffer strm) @ (if eof strm then [] else remaining (src strm))"

definition good_stream :: "'s istream \<Rightarrow> bool" where
  "good_stream strm \<longleftrightarrow> good (src strm) \<and> (eof strm \<longrightarrow> remaining (src strm) = [])"

lemma read_refill_ok:
  assumes "good_stream strm"
  shows "\<exists>strm'. read_refill pc strm = (Some (), strm') \<and> good_stream strm' \<and> pending strm' = pending strm \<and>
    (buffer strm' = [] \<longrightarrow> pending strm = []) \<and>
    (buffer strm' \<noteq> [] \<longrightarrow> buffer_offset strm' < length (buffer strm'))"
proof (cases "length (buffer strm) \<le> buffer_offset strm \<and> \<not> eof strm")
  case True
  obtain ok b e s' where p: "pc (src strm) [] = (ok, b, e, s')" by (metis prod_cases4)
  from precache_empty [OF _ p] assms have
    "ok" "good s'" "remaining (src strm) = b @ remaining s'" "b = [] \<longrightarrow> remaining s' = []" "e \<longrightarrow> remaining s' = []"
    by (auto simp: good_stream_def)
  then show ?thesis
    using True p by (auto simp: read_refill_def istream_precache_def Let_def pending_def good_stream_def)
next
  case False
  then show ?thesis
    using assms by (auto simp: read_refill_def istream_precache_def Let_def pending_def good_stream_def)
qed

lemma pending_advance:
  assumes "n \<le> length (buffer strm) - buffer_offset strm"
  shows "pending (strm\<lparr>buffer_offset := buffer_offset strm + n\<rparr>) = drop n (pending strm)"
    and "take n (drop (buffer_offset strm) (buffer strm)) = take n (pending strm)"
  using assms by (simp_all add: pending_def add.commute)

lemma good_advance: "good_stream (strm\<lparr>buffer_offset := n\<rparr>) = good_stream strm"
  by (simp add: good_stream_def)

lemma istream_read_loop_ok:
  "good_stream strm \<Longrightarrow> \<exists>strm'. istream_read_loop pc strm n = (Some (take n (pending strm)), strm') \<and>
     good_stream strm' \<and> pending strm' = drop n (pending strm)"
proof (induction n arbitrary: strm rule: less_induct)
  case (less n)
  show ?case
  proof (cases "n = 0")
    case True
    then show ?thesis using less.prems by (simp add: istream_read_loop.simps)
  next
    case False
    obtain s1 where s1: "read_refill pc strm = (Some (), s1)" "good_stream s1" "pending s1 = pending strm"
      and e: "buffer s1 = [] \<longrightarrow> pending strm = []"
      and ne: "buffer s1 \<noteq> [] \<longrightarrow> buffer_offset s1 < length (buffer s1)"
      using read_refill_ok [OF less.prems] by blast
    show ?thesis
    proof (cases "buffer s1 = []")
      case True
      then show ?thesis using False s1 e by (subst istream_read_loop.simps) simp
    next
      case b: False
      define m where "m = min (length (buffer s1) - buffer_offset s1) n"
      have m: "0 < m" "m \<le> n" "m \<le> length (buffer s1) - buffer_offset s1" using b ne False by (auto simp: m_def)
      let ?s2 = "s1\<lparr>buffer_offset := buffer_offset s1 + m\<rparr>"
      have "good_stream ?s2" using s1(2) by (simp add: good_stream_def)
      moreover have "n - m < n" using m False by simp
      ultimately obtain s3 where s3: "istream_read_loop pc ?s2 (n - m) = (Some (take (n - m) (pending ?s2)), s3)"
        "good_stream s3" "pending s3 = drop (n - m) (pending ?s2)"
        using less.IH [of "n - m" ?s2] by blast
      have "take m (drop (buffer_offset s1) (buffer s1)) @ take (n - m) (pending ?s2) = take n (pending strm)"
        using pending_advance [OF m(3)] s1(3) m(2) by (metis le_add_diff_inverse take_add)
      then show ?thesis
        using False b s1 s3 m pending_advance(1) [OF m(3)]
        by (subst istream_read_loop.simps) (simp add: Let_def m_def [symmetric] add.commute)
    qed
  qed
qed

lemma istream_read_ok:
  assumes "good_stream strm" "n \<le> 0x7FFFFFFF"
  shows "\<exists>strm'. istream_read pc strm n = (Some (take n (pending strm)), strm') \<and>
     good_stream strm' \<and> pending strm' = drop n (pending strm)"
  using istream_read_loop_ok [OF assms(1), of n] assms(2) by (simp add: istream_read_def)

lemma istream_skip_ok:
  "good_stream strm \<Longrightarrow> \<exists>strm'. good_stream strm' \<and> pending strm' = drop n (pending strm) \<and>
     istream_skip pc strm n = (if n \<le> length (pending strm) then Some () else None, strm')"
proof (induction n arbitrary: strm rule: less_induct)
  case (less n)
  show ?case
  proof (cases "n = 0")
    case True
    then show ?thesis using less.prems by (simp add: istream_skip.simps)
  next
    case False
    obtain s1 where s1: "read_refill pc strm = (Some (), s1)" "good_stream s1" "pending s1 = pending strm"
      and e: "buffer s1 = [] \<longrightarrow> pending strm = []"
      and ne: "buffer s1 \<noteq> [] \<longrightarrow> buffer_offset s1 < length (buffer s1)"
      using read_refill_ok [OF less.prems] by blast
    show ?thesis
    proof (cases "buffer s1 = []")
      case True
      then show ?thesis using False s1 e by (subst istream_skip.simps) simp
    next
      case b: False
      define m where "m = min (length (buffer s1) - buffer_offset s1) n"
      have m: "0 < m" "m \<le> n" "m \<le> length (buffer s1) - buffer_offset s1" using b ne False by (auto simp: m_def)
      let ?s2 = "s1\<lparr>buffer_offset := buffer_offset s1 + m\<rparr>"
      have "m \<le> length (pending s1)" using m(3) by (simp add: pending_def)
      then have len: "m \<le> length (pending strm)" using s1(3) by simp
      have "good_stream ?s2" using s1(2) by (simp add: good_stream_def)
      moreover have "n - m < n" using m False by simp
      ultimately obtain s3 where s3: "good_stream s3" "pending s3 = drop (n - m) (pending ?s2)"
        "istream_skip pc ?s2 (n - m) = (if n - m \<le> length (pending ?s2) then Some () else None, s3)"
        using less.IH [of "n - m" ?s2] by blast
      then show ?thesis
        using False b s1 m len pending_advance(1) [OF m(3)]
        by (subst istream_skip.simps) (auto simp: Let_def m_def [symmetric] add.commute)
    qed
  qed
qed

end

section \<open>Lines of a stream\<close>

text \<open>What \<open>istream_get_line\<close> is to return for the bytes \<open>p\<close> that are left: the bytes up to the next newline without a
  carriage return at their end, trimmed, and skipping empty lines if asked to. One carriage return is not removed:
  if the line is a multiple of the buffer size long, the newline is alone in the next buffer.\<close>

definition strip_cr :: "byte list \<Rightarrow> byte list" where
  "strip_cr raw = (if raw \<noteq> [] \<and> last raw = 0x0D \<and> length raw mod BUFSZ \<noteq> 0 then butlast raw else raw)"

function line_spec :: "line_flags \<Rightarrow> nat \<Rightarrow> byte list \<Rightarrow> line_result \<times> nat \<times> byte list" where
  "line_spec flags num p =
     (if p = [] then (LineEof, num, [])
      else let raw = takeWhile (\<lambda>c. c \<noteq> 0x0A) p; rest = drop (Suc (length raw)) p in
        if length raw < length p then
          (if trim (strip_cr raw) flags = [] \<and> line_skip_empty flags then line_spec flags (num + 1) rest
           else (Line (trim (strip_cr raw) flags), num, rest))
        else if trim raw flags = [] \<and> line_skip_empty flags then (LineEof, num, [])
        else (Line (trim raw flags), num, []))"
  by pat_completeness auto
termination
  by (relation "measure (\<lambda>(flags, num, p). length p)") auto

declare line_spec.simps [simp del]

lemma BUFSZ_pos: "0 < BUFSZ"
  by (simp add: BUFSZ_def)

lemma line_spec_last:
  assumes "0x0A \<notin> set p"
  shows "line_spec flags num p =
    (if p = [] then LineEof else if trim p flags = [] \<and> line_skip_empty flags then LineEof else Line (trim p flags), num, [])"
proof -
  have tw: "takeWhile (\<lambda>c. c \<noteq> 0x0A) p = p" using assms by (subst takeWhile_eq_all_conv) auto
  show ?thesis by (subst line_spec.simps) (simp only: tw Let_def, simp)
qed

lemma line_spec_newline:
  assumes tw: "takeWhile (\<lambda>c. c \<noteq> 0x0A) p = raw" and "length raw < length p"
  shows "line_spec flags num p =
    (if trim (strip_cr raw) flags = [] \<and> line_skip_empty flags
     then line_spec flags (num + 1) (drop (Suc (length raw)) p)
     else (Line (trim (strip_cr raw) flags), num, drop (Suc (length raw)) p))"
  using assms(2) by (subst line_spec.simps) (simp only: tw Let_def, auto)

lemma find_newline_append:
  assumes "(0x0A :: byte) \<notin> set line" "i = find_newline b"
  shows "takeWhile (\<lambda>c. c \<noteq> 0x0A) (line @ b @ q) = line @ (if i < length b then take i b else b @ takeWhile (\<lambda>c. c \<noteq> 0x0A) q)"
proof -
  have l: "takeWhile (\<lambda>c. c \<noteq> 0x0A) (line @ b @ q) = line @ takeWhile (\<lambda>c. c \<noteq> 0x0A) (b @ q)"
    using assms(1) by (intro takeWhile_append2) auto
  show ?thesis
  proof (cases "i < length b")
    case True
    have "takeWhile (\<lambda>c. c \<noteq> 0x0A) b \<noteq> b" using True unfolding assms(2) find_newline_def by (metis less_irrefl)
    then obtain x where x: "x \<in> set b" "\<not> x \<noteq> 0x0A" by (auto simp: takeWhile_eq_all_conv)
    have "takeWhile (\<lambda>c. c \<noteq> 0x0A) (b @ q) = take i b"
      using takeWhile_append1 [of x b "\<lambda>c. c \<noteq> 0x0A" q, OF x] assms(2)
      by (simp add: find_newline_def takeWhile_eq_take [symmetric])
    then show ?thesis using True l by simp
  next
    case False
    then have "takeWhile (\<lambda>c. c \<noteq> 0x0A) b = b"
      using assms(2) takeWhile_eq_take [of "\<lambda>c. c \<noteq> 0x0A" b] by (simp add: find_newline_def)
    then have "0x0A \<notin> set b" by (auto simp: takeWhile_eq_all_conv)
    then have "takeWhile (\<lambda>c. c \<noteq> 0x0A) (b @ q) = b @ takeWhile (\<lambda>c. c \<noteq> 0x0A) q" by (intro takeWhile_append2) auto
    then show ?thesis using False l by simp
  qed
qed

lemma find_newline_le: "find_newline b \<le> length b"
  by (simp add: find_newline_def length_takeWhile_le)

lemma find_newline_take: "0x0A \<notin> set (take (find_newline b) b)"
  unfolding find_newline_def takeWhile_eq_take [symmetric] by (auto dest: set_takeWhileD)

lemma strip_cr_chunks:
  assumes "length line mod BUFSZ = 0" "i \<le> length b" "i < BUFSZ"
  shows "strip_cr (line @ take i b) = line @ take (if 0 < i \<and> b ! (i - 1) = 0x0D then i - 1 else i) b"
proof -
  have len: "length (line @ take i b) mod BUFSZ = i"
    using assms by (simp add: mod_add_eq min_def) (metis add_0 mod_add_left_eq mod_less)
  show ?thesis
  proof (cases "i = 0")
    case True
    then show ?thesis using len assms(1) by (simp add: strip_cr_def)
  next
    case False
    have ne: "take i b \<noteq> []" using False assms(2) by auto
    then have "last (take i b) = b ! (i - 1)" using False assms(2) by (subst last_conv_nth) (auto simp: min_def)
    then show ?thesis
      using False len assms(2) ne
      by (auto simp: strip_cr_def butlast_append butlast_take)
  qed
qed

locale filling_source =
  fixes pc :: "'s precache"
    and remaining :: "'s \<Rightarrow> byte list"
    and good :: "'s \<Rightarrow> bool"
  assumes precache_fill:
    "good s \<Longrightarrow> length b \<le> BUFSZ \<Longrightarrow> pc s b = (ok, b', e, s') \<Longrightarrow>
       ok \<and> good s' \<and> b' = b @ take (BUFSZ - length b) (remaining s) \<and>
       remaining s' = drop (BUFSZ - length b) (remaining s) \<and> (e \<longrightarrow> remaining s' = [])"
begin

lemma precache_from_empty:
  "good s \<Longrightarrow> pc s [] = (ok, b, e, s') \<Longrightarrow>
     ok \<and> good s' \<and> remaining s = b @ remaining s' \<and> (b = [] \<longrightarrow> remaining s' = []) \<and> (e \<longrightarrow> remaining s' = [])"
  using precache_fill [of s "[]" ok b e s'] BUFSZ_pos by auto

end

sublocale filling_source \<subseteq> istream_source
  by unfold_locales (rule precache_from_empty)

context filling_source
begin

definition fits :: "'s istream \<Rightarrow> bool" where
  "fits strm \<longleftrightarrow> good_stream strm \<and> length (buffer strm) \<le> BUFSZ"

lemma istream_precache_fill:
  assumes "fits strm"
  shows "\<exists>strm'. istream_precache pc strm = (Some (), strm') \<and> fits strm' \<and> buffer_offset strm' = 0 \<and>
    buffer strm' = take BUFSZ (pending strm) \<and> pending strm' = pending strm"
proof -
  define b where "b = drop (buffer_offset strm) (buffer strm)"
  define s1 where "s1 = strm\<lparr>buffer := b, buffer_offset := 0\<rparr>"
  have s1: "(if length (buffer strm) \<le> buffer_offset strm then strm\<lparr>buffer_offset := 0, buffer := []\<rparr>
      else if 0 < buffer_offset strm then strm\<lparr>buffer := drop (buffer_offset strm) (buffer strm), buffer_offset := 0\<rparr>
      else strm) = s1"
    by (cases strm) (simp add: s1_def b_def)
  have b: "length b \<le> BUFSZ" "pending strm = b @ (if eof strm then [] else remaining (src strm))"
    using assms by (auto simp: fits_def b_def pending_def intro: diff_le_self [THEN order_trans])
  show ?thesis
  proof (cases "eof strm")
    case True
    then show ?thesis
      using assms b s1 by (simp add: istream_precache_def Let_def fits_def good_stream_def pending_def s1_def)
  next
    case False
    obtain ok b' e s' where p: "pc (src strm) b = (ok, b', e, s')" by (metis prod_cases4)
    from precache_fill [OF _ b(1) p] assms have
      "ok" "good s'" "b' = b @ take (BUFSZ - length b) (remaining (src strm))"
      "remaining s' = drop (BUFSZ - length b) (remaining (src strm))" "e \<longrightarrow> remaining s' = []"
      by (auto simp: fits_def good_stream_def)
    then show ?thesis
      using False p b s1 by (auto simp: istream_precache_def Let_def fits_def good_stream_def pending_def s1_def)
  qed
qed

lemma fits_advance: "fits (strm\<lparr>buffer_offset := n\<rparr>) = fits strm"
  by (simp add: fits_def good_stream_def)

lemma get_line_loop_ok:
  "fits strm \<Longrightarrow> 0x0A \<notin> set line \<Longrightarrow> length line mod BUFSZ = 0 \<or> pending strm = [] \<Longrightarrow>
     \<exists>r n strm'. get_line_loop (\<lambda>_. True) pc strm line num flags = Some (r, n, strm') \<and> fits strm' \<and>
       line_spec flags num (line @ pending strm) = (r, n, pending strm')"
proof (induction "length (pending strm)" arbitrary: strm line num rule: less_induct)
  case less
  obtain s1 where s1: "istream_precache pc strm = (Some (), s1)" "fits s1" "buffer_offset s1 = 0"
      "buffer s1 = take BUFSZ (pending strm)" "pending s1 = pending strm"
    using istream_precache_fill [OF less.prems(1)] by blast
  define b i where "b = buffer s1" and "i = find_newline b"
  define q where "q = drop BUFSZ (pending strm)"
  have pb: "pending strm = b @ q" using s1(4) by (simp add: b_def q_def)
  show ?case
  proof (cases "b = []")
    case True
    then have p: "pending strm = []" using s1(4) BUFSZ_pos by (simp add: b_def)
    show ?thesis
      using True p s1 less.prems(2) unfolding b_def
      by (subst get_line_loop.simps) (simp add: line_spec_last)
  next
    case False
    then have ll: "length line mod BUFSZ = 0" using less.prems(3) pb by simp
    let ?s2 = "s1\<lparr>buffer_offset := (if i < length b then i + 1 else i)\<rparr>"
    have il: "i \<le> length b" by (simp add: i_def find_newline_le)
    have p2: "pending ?s2 = drop (if i < length b then i + 1 else i) (pending strm)"
      using pending_advance(1) [of "if i < length b then i + 1 else i" s1] il s1(3,5) by (simp add: b_def)
    have f2: "fits ?s2" using s1(2) by (simp add: fits_advance)
    show ?thesis
    proof (cases "i < length b")
      case True
      have "i < BUFSZ" using True s1(4) by (simp add: b_def)
      then have str: "strip_cr (line @ take i b) = line @ take (if 0 < i \<and> b ! (i - 1) = 0x0D then i - 1 else i) b"
        using ll il by (intro strip_cr_chunks) simp_all
      have tw: "takeWhile (\<lambda>c. c \<noteq> 0x0A) (line @ pending strm) = line @ take i b"
        using find_newline_append [OF less.prems(2) i_def] True pb by simp
      have rest: "drop (Suc (length line + i)) (line @ pending strm) = pending ?s2" using True p2 by simp
      have spec: "line_spec flags num (line @ pending strm) =
          (if trim (strip_cr (line @ take i b)) flags = [] \<and> line_skip_empty flags
           then line_spec flags (num + 1) (pending ?s2)
           else (Line (trim (strip_cr (line @ take i b)) flags), num, pending ?s2))"
        using line_spec_newline [OF tw, of flags num] True pb rest il by (simp add: min_def)
      have loop: "get_line_loop (\<lambda>_. True) pc strm line num flags =
          (if trim (strip_cr (line @ take i b)) flags = [] \<and> line_skip_empty flags
           then get_line_loop (\<lambda>_. True) pc ?s2 [] (num + 1) flags
           else Some (Line (trim (strip_cr (line @ take i b)) flags), num, ?s2))"
        using False True s1(1)
        by (subst get_line_loop.simps) (simp add: str b_def [symmetric] i_def [symmetric] Let_def)
      have "length (pending ?s2) < length (pending strm)" using p2 True pb by simp
      from less.hyps [OF this f2, of "[]" "num + 1"] f2 show ?thesis unfolding spec loop by auto
    next
      case nonl: False
      then have ib: "i = length b" using il by simp
      have loop: "get_line_loop (\<lambda>_. True) pc strm line num flags =
          get_line_loop (\<lambda>_. True) pc ?s2 (line @ b) num flags"
        using False nonl s1(1) ib
        by (subst get_line_loop.simps) (simp add: b_def [symmetric] i_def [symmetric] Let_def)
      have nl: "0x0A \<notin> set (line @ b)" using less.prems(2) find_newline_take [of b] ib by (simp add: i_def)
      have ps2: "pending ?s2 = q" using p2 ib pb by simp
      have "length b = BUFSZ" if "q \<noteq> []" using that by (simp add: b_def s1(4)) (simp add: q_def)
      then have "length (line @ b) mod BUFSZ = 0 \<or> pending ?s2 = []"
        using ll unfolding ps2 by (cases "q = []") simp_all
      moreover have "length (pending ?s2) < length (pending strm)" using p2 ib pb False by simp
      moreover have "(line @ b) @ pending ?s2 = line @ pending strm" using p2 ib pb by simp
      ultimately show ?thesis using less.hyps [OF _ f2 nl] unfolding loop by metis
    qed
  qed
qed

lemma istream_get_line_ok:
  assumes "fits strm"
  shows "\<exists>r n strm'. istream_get_line (\<lambda>_. True) pc strm num flags = Some (r, n, strm') \<and> fits strm' \<and>
    line_spec flags num (pending strm) = (r, n, pending strm')"
  using get_line_loop_ok [OF assms, of "[]"] by (simp add: istream_get_line_def)

end

section \<open>Files meet the contract\<close>

definition file_remaining :: "file_istream \<Rightarrow> byte list" where
  "file_remaining f = drop (in_pos f) (fbytes (in_fd f))"

definition file_good :: "file_istream \<Rightarrow> bool" where
  "file_good f \<longleftrightarrow> benign (in_fd f) \<and> in_pos f \<le> length (fbytes (in_fd f)) \<and> length (fbytes (in_fd f)) < 2 ^ 63"

lemma file_fill_ok:
  "file_good f \<Longrightarrow> length b \<le> BUFSZ \<Longrightarrow>
     \<exists>f'. file_fill f b = (True, b @ take (BUFSZ - length b) (file_remaining f), f') \<and> file_good f' \<and>
       file_remaining f' = drop (BUFSZ - length b) (file_remaining f)"
proof (induction f b rule: file_fill.induct)
  case (1 f b)
  show ?case
  proof (cases "BUFSZ \<le> length b")
    case True
    then show ?thesis using "1.prems" by (subst file_fill.simps) simp
  next
    case False
    let ?n = "BUFSZ - length b"
    obtain r fd where r: "os_pread (in_fd f) (in_pos f) ?n = (r, fd)" by fastforce
    have pos: "in_pos f < 2 ^ 63" "0 < ?n" using "1.prems"(1) False by (auto simp: file_good_def)
    from os_pread_benign [OF _ pos r] "1.prems"(1)
    have fd: "benign fd" "fbytes fd = fbytes (in_fd f)"
      and cases: "r = RIntr \<or> (\<exists>m. r = RVal (take m (file_remaining f)) \<and> 0 < m \<and> m \<le> ?n)"
      by (auto simp: file_good_def file_remaining_def)
    from cases show ?thesis
    proof (elim disjE exE conjE)
      assume ri: "r = RIntr"
      have "file_good (f\<lparr>in_fd := fd\<rparr>)" using "1.prems"(1) fd by (simp add: file_good_def)
      from "1.IH"(1) [OF False r [symmetric] ri this] "1.prems"(2) False r ri fd show ?thesis
        by (subst file_fill.simps) (auto simp: file_remaining_def)
    next
      fix m assume m: "r = RVal (take m (file_remaining f))" "0 < m" "m \<le> ?n"
      show ?thesis
      proof (cases "file_remaining f = []")
        case True
        then show ?thesis using "1.prems" False r m fd
          by (subst file_fill.simps) (auto simp: file_remaining_def file_good_def)
      next
        case rem: False
        define d where "d = take m (file_remaining f)"
        let ?f = "f\<lparr>in_fd := fd, in_pos := in_pos f + length d\<rparr>"
        have d: "d \<noteq> []" "length d \<le> ?n" using rem m by (auto simp: d_def)
        have fr: "file_remaining f = d @ file_remaining ?f"
        proof -
          have "d = take (length d) (file_remaining f)" unfolding d_def by (metis length_take min.commute take_take take_all order_refl)
          then show ?thesis
            using fd(2) append_take_drop_id [of "length d" "file_remaining f"]
            by (simp add: file_remaining_def add.commute)
        qed
        have "length d \<le> length (fbytes (in_fd f)) - in_pos f" by (simp add: d_def file_remaining_def)
        then have good: "file_good ?f" using "1.prems"(1) fd by (auto simp: file_good_def)
        have rd: "r = RVal d" using m(1) by (simp add: d_def)
        have "length (b @ d) \<le> BUFSZ" using d(2) "1.prems"(2) by simp
        from "1.IH"(2) [OF False r [symmetric] rd d(1) good this]
        obtain f' where "file_fill ?f (b @ d) = (True, (b @ d) @ take (BUFSZ - length (b @ d)) (file_remaining ?f), f')"
          "file_good f'" "file_remaining f' = drop (BUFSZ - length (b @ d)) (file_remaining ?f)"
          by blast
        then show ?thesis
          using False r rd d fr by (subst file_fill.simps) auto
      qed
    qed
  qed
qed

interpretation file_in: filling_source file_precache file_remaining file_good
proof
  fix s b ok b' e s'
  assume "file_good s" "length b \<le> BUFSZ" "file_precache s b = (ok, b', e, s')"
  then show "ok \<and> file_good s' \<and> b' = b @ take (BUFSZ - length b) (file_remaining s) \<and>
      file_remaining s' = drop (BUFSZ - length b) (file_remaining s) \<and> (e \<longrightarrow> file_remaining s' = [])"
    using file_fill_ok [of s b] by (auto simp: file_precache_def split: prod.splits)
qed

section \<open>The contract of an output stream\<close>

text \<open>\<open>view\<close> is what a stream has taken so far, \<open>upd\<close> how appended bytes change it, and \<open>room\<close> tells that a number of
  bytes can still be appended.\<close>

locale ostream_sink =
  fixes strm :: "'o ostream"
    and view :: "'o \<Rightarrow> 'w"
    and upd :: "'w \<Rightarrow> byte list \<Rightarrow> 'w"
    and room :: "'o \<Rightarrow> nat \<Rightarrow> bool"
  assumes upd_Nil: "upd w [] = w"
    and upd_append: "upd (upd w a) b = upd w (a @ b)"
    and append_ok: "room s (length d + m) \<Longrightarrow>
      \<exists>s'. append strm s d = (Some (), s') \<and> view s' = upd (view s) d \<and> room s' m"
    and append_sparse_ok: "append_sparse strm = Some f \<Longrightarrow> room s (n + m) \<Longrightarrow>
      \<exists>s'. f s n = (Some (), s') \<and> view s' = upd (view s) (zeros n) \<and> room s' m"
begin

lemma append_sparse_fallback_ok:
  "room s (n + m) \<Longrightarrow> \<exists>s'. append_sparse_fallback strm s n = (Some (), s') \<and> view s' = upd (view s) (zeros n) \<and> room s' m"
proof (induction n arbitrary: s rule: less_induct)
  case (less n)
  show ?case
  proof (cases "n = 0")
    case True
    then show ?thesis using less.prems by (simp add: append_sparse_fallback.simps zeros_def upd_Nil)
  next
    case False
    define k where "k = (if n < 512 then n else 512)"
    have k: "0 < k" "k \<le> n" using False by (auto simp: k_def)
    then have "room s (length (zeros k) + ((n - k) + m))" using less.prems by simp
    from append_ok [OF this] obtain s1 where s1: "append strm s (zeros k) = (Some (), s1)"
      "view s1 = upd (view s) (zeros k)" "room s1 ((n - k) + m)" by blast
    have "zeros k @ zeros (n - k) = zeros n" using k by (simp add: zeros_def replicate_add [symmetric])
    with less.IH [OF _ s1(3)] k s1 False show ?thesis
      by (subst append_sparse_fallback.simps) (auto simp: Let_def k_def [symmetric] upd_append)
  qed
qed

lemma ostream_append_ok:
  "room s (length d + m) \<Longrightarrow> \<exists>s'. ostream_append strm s d = (Some (), s') \<and> view s' = upd (view s) d \<and> room s' m"
  unfolding ostream_append_def by (rule append_ok)

lemma ostream_append_sparse_ok:
  "room s (n + m) \<Longrightarrow>
     \<exists>s'. ostream_append_sparse strm s n = (Some (), s') \<and> view s' = upd (view s) (zeros n) \<and> room s' m"
  using append_sparse_fallback_ok append_sparse_ok
  by (cases "append_sparse strm") (auto simp: ostream_append_sparse_def)

end

definition null_room :: "nat \<Rightarrow> nat \<Rightarrow> bool" where
  "null_room s n \<longleftrightarrow> s + n < max64"

interpretation null_out: ostream_sink null_ostream "\<lambda>s. s" "\<lambda>w d. w + length d" null_room
  by unfold_locales (auto simp: null_ostream_def null_append_def null_append_sparse_def null_room_def add64_exact)

text \<open>For a file that was empty when it was opened, the view is what the file contains once it is flushed.\<close>

definition file_view :: "file_ostream \<Rightarrow> byte list" where
  "file_view f = fbytes (out_fd f) @ zeros (sparse_count f)"

definition file_room :: "file_ostream \<Rightarrow> nat \<Rightarrow> bool" where
  "file_room f n \<longleftrightarrow> benign (out_fd f) \<and> out_pos f = length (fbytes (out_fd f)) \<and>
     out_size f = out_pos f + sparse_count f \<and> out_size f + n < 2 ^ 63"

lemma file_write_loop_ok:
  "benign (out_fd f) \<Longrightarrow> out_pos f + length d < 2 ^ 63 \<Longrightarrow>
     \<exists>fd. file_write_loop f d = (Some (), f\<lparr>out_fd := fd, out_pos := out_pos f + length d, out_size := out_size f + length d\<rparr>) \<and>
       fbytes fd = put_bytes (fbytes (out_fd f)) (out_pos f) d \<and> benign fd"
proof (induction f d rule: file_write_loop.induct)
  case (1 f d)
  show ?case
  proof (cases "d = []")
    case True
    then show ?thesis using "1.prems"
      by (subst file_write_loop.simps) (auto simp: put_bytes_def intro!: exI [of _ "out_fd f"])
  next
    case False
    obtain r fd where r: "os_pwrite (out_fd f) (out_pos f) d = (r, fd)" by fastforce
    have "out_pos f < 2 ^ 63" using "1.prems"(2) by simp
    from os_pwrite_benign [OF "1.prems"(1) this False r]
    have fd: "benign fd" and "r = RIntr \<and> fbytes fd = fbytes (out_fd f) \<or>
        (\<exists>m. r = RVal m \<and> 0 < m \<and> m \<le> length d \<and> fbytes fd = put_bytes (fbytes (out_fd f)) (out_pos f) (take m d))"
      by simp_all
    then consider "r = RIntr" "fbytes fd = fbytes (out_fd f)"
      | m where "r = RVal m" "0 < m" "m \<le> length d" "fbytes fd = put_bytes (fbytes (out_fd f)) (out_pos f) (take m d)"
      by blast
    then show ?thesis
    proof cases
      case 1
      with "1.IH"(1) [OF False r [symmetric] 1(1)] "1.prems" False r fd show ?thesis
        by (subst file_write_loop.simps) auto
    next
      case (2 m)
      with "1.IH"(2) [OF False r [symmetric] 2(1)] "1.prems" False r fd put_bytes_append [OF 2(2,3)] show ?thesis
        by (subst file_write_loop.simps) auto
    qed
  qed
qed

lemma put_bytes_end: "put_bytes old (length old + k) d = (if d = [] then old else old @ zeros k @ d)"
  by (simp add: put_bytes_def)

lemma file_sink_append:
  assumes "file_room f (length d + m)"
  shows "\<exists>f'. file_append f d = (Some (), f') \<and> file_view f' = file_view f @ d \<and> file_room f' m"
proof (cases "d = []")
  case True
  then show ?thesis using assms by (simp add: file_append_def)
next
  case False
  let ?g = "f\<lparr>out_pos := out_pos f + sparse_count f, sparse_count := 0\<rparr>"
  have room: "benign (out_fd f)" "out_pos f = length (fbytes (out_fd f))" "out_size f = out_pos f + sparse_count f"
    "out_size f + length d + m < 2 ^ 63" using assms by (simp_all add: file_room_def)
  have g: "file_append f d = file_write_loop ?g d"
  proof (cases "sparse_count f = 0")
    case True
    then have "?g = f" by (cases f) simp
    then show ?thesis using False True by (simp only: file_append_def) simp
  qed (use room False in \<open>auto simp: file_append_def\<close>)
  from file_write_loop_ok [of ?g d] room obtain fd where
    "file_write_loop ?g d = (Some (), ?g\<lparr>out_fd := fd, out_pos := out_pos ?g + length d, out_size := out_size ?g + length d\<rparr>)"
    "fbytes fd = put_bytes (fbytes (out_fd f)) (out_pos f + sparse_count f) d" "benign fd"
    by auto
  then show ?thesis
    using room False by (auto simp: g file_view_def file_room_def put_bytes_end zeros_def)
qed

interpretation file_out: ostream_sink "file_ostream_ops sparse_flag truncate_ok fsync_ok" file_view "(@)" file_room
proof
  fix s :: file_ostream and d :: "byte list" and m :: nat
  assume "file_room s (length d + m)"
  then show "\<exists>s'. append (file_ostream_ops sparse_flag truncate_ok fsync_ok) s d = (Some (), s') \<and>
      file_view s' = file_view s @ d \<and> file_room s' m"
    by (simp add: file_ostream_ops_def file_sink_append)
next
  fix f :: "file_ostream \<Rightarrow> nat \<Rightarrow> (unit, file_ostream) io" and s n m
  assume "append_sparse (file_ostream_ops sparse_flag truncate_ok fsync_ok) = Some f" "file_room s (n + m)"
  then show "\<exists>s'. f s n = (Some (), s') \<and> file_view s' = file_view s @ zeros n \<and> file_room s' m"
    by (auto simp: file_ostream_ops_def file_append_sparse_def file_view_def file_room_def zeros_def replicate_add
        split: if_splits)
qed simp_all

lemma file_flush_ok:
  assumes "file_room f 0"
  shows "\<exists>f'. file_flush True True f = (Some (), f') \<and> fbytes (out_fd f') = file_view f"
  using assms by (auto simp: file_flush_def file_room_def file_view_def os_ftruncate_def zeros_def)

section \<open>Properties of the file streams\<close>

text \<open>Reading a stream in pieces of given sizes.\<close>

fun read_pieces :: "'s precache \<Rightarrow> 's istream \<Rightarrow> nat list \<Rightarrow> (byte list list, 's istream) io" where
  "read_pieces pc strm [] = (Some [], strm)"
| "read_pieces pc strm (n # ns) =
     (case istream_read pc strm n of
        (None, strm) \<Rightarrow> (None, strm)
      | (Some d, strm) \<Rightarrow>
          (case read_pieces pc strm ns of (None, strm) \<Rightarrow> (None, strm) | (Some ds, strm) \<Rightarrow> (Some (d # ds), strm)))"

lemma read_pieces_ok:
  "file_in.good_stream strm \<Longrightarrow> \<forall>n\<in>set ns. n \<le> 0x7FFFFFFF \<Longrightarrow>
     \<exists>ds strm'. read_pieces file_precache strm ns = (Some ds, strm') \<and> length ds = length ns \<and>
       concat ds = take (sum_list ns) (file_in.pending strm) \<and>
       (\<forall>i<length ns. length (ds ! i) = min (ns ! i) (length (file_in.pending strm) - sum_list (take i ns)))"
proof (induction ns arbitrary: strm)
  case (Cons n ns)
  from file_in.istream_read_ok [OF Cons.prems(1), of n] Cons.prems(2) obtain s1 where
    s1: "istream_read file_precache strm n = (Some (take n (file_in.pending strm)), s1)" "file_in.good_stream s1"
      "file_in.pending s1 = drop n (file_in.pending strm)"
    by auto
  from Cons.IH [OF s1(2)] Cons.prems(2) obtain ds s2 where
    ds: "read_pieces file_precache s1 ns = (Some ds, s2)" "length ds = length ns"
      "concat ds = take (sum_list ns) (drop n (file_in.pending strm))"
      "\<forall>i<length ns. length (ds ! i) = min (ns ! i) (length (file_in.pending strm) - n - sum_list (take i ns))"
    using s1(3) by auto
  then show ?case
    using s1 by (auto simp: take_add less_Suc_eq_0_disj min.commute)
qed simp

lemma istream_open_fd_ok:
  assumes "benign fd" "length (fbytes fd) < 2 ^ 63"
  shows "file_in.fits (istream_open_fd fd)" "file_in.pending (istream_open_fd fd) = fbytes fd"
  using assms
  by (simp_all add: istream_open_fd_def file_in.fits_def file_in.good_stream_def file_in.pending_def file_good_def
      file_remaining_def)

text \<open>C17: reading an open file in pieces delivers its bytes in order. Whatever \<open>read\<close> calls are short or interrupted,
  every piece has the requested length as long as the file has bytes left.\<close>

theorem file_stream_read:
  assumes "benign fd" "length (fbytes fd) < 2 ^ 63" "\<forall>n\<in>set ns. n \<le> 0x7FFFFFFF"
  shows "\<exists>ds strm. read_pieces file_precache (istream_open_fd fd) ns = (Some ds, strm) \<and> length ds = length ns \<and>
    concat ds = take (sum_list ns) (fbytes fd) \<and>
    (\<forall>i<length ns. length (ds ! i) = min (ns ! i) (length (fbytes fd) - sum_list (take i ns)))"
  using read_pieces_ok [OF _ assms(3), of "istream_open_fd fd"] istream_open_fd_ok [OF assms(1,2)]
  by (simp add: file_in.fits_def)

theorem file_stream_read_witness:
  "\<exists>ds strm. read_pieces file_precache (istream_open_fd \<lparr>fbytes = [1, 2, 3, 4, 5], sched = [Intr, Short 0, Short 1]\<rparr>) [2, 0, 9]
      = (Some ds, strm) \<and> concat ds = [1, 2, 3, 4, 5]"
proof -
  let ?fd = "\<lparr>fbytes = [1, 2, 3, 4, 5], sched = [Intr, Short 0, Short 1]\<rparr> :: osfile"
  have "benign ?fd" "length (fbytes ?fd) < 2 ^ 63" "\<forall>n\<in>set [2, 0, 9]. n \<le> (0x7FFFFFFF :: nat)"
    by (simp_all add: benign_def)
  from file_stream_read [OF this] obtain ds strm where
    ds: "read_pieces file_precache (istream_open_fd ?fd) [2, 0, 9] = (Some ds, strm)"
      "concat ds = take (sum_list [2, 0, 9]) (fbytes ?fd)"
    by blast
  from ds(2) have "concat ds = [1, 2, 3, 4, 5]" by simp
  with ds(1) show ?thesis by blast
qed

text \<open>Calling \<open>istream_get_line\<close> a number of times, and what the calls are to deliver.\<close>

fun get_lines :: "'s precache \<Rightarrow> 's istream \<Rightarrow> nat \<Rightarrow> line_flags \<Rightarrow> nat \<Rightarrow> (line_result \<times> nat) list option" where
  "get_lines pc strm num flags 0 = Some []"
| "get_lines pc strm num flags (Suc k) =
     (case istream_get_line (\<lambda>_. True) pc strm num flags of
        None \<Rightarrow> None
      | Some (r, num, strm) \<Rightarrow> map_option ((#) (r, num)) (get_lines pc strm num flags k))"

fun spec_lines :: "line_flags \<Rightarrow> nat \<Rightarrow> byte list \<Rightarrow> nat \<Rightarrow> (line_result \<times> nat) list" where
  "spec_lines flags num p 0 = []"
| "spec_lines flags num p (Suc k) =
     (case line_spec flags num p of (r, num, rest) \<Rightarrow> (r, num) # spec_lines flags num rest k)"

lemma get_lines_ok:
  "file_in.fits strm \<Longrightarrow> get_lines file_precache strm num flags k = Some (spec_lines flags num (file_in.pending strm) k)"
proof (induction k arbitrary: strm num)
  case (Suc k)
  from file_in.istream_get_line_ok [OF Suc.prems, of num flags] Suc.IH show ?case by fastforce
qed simp

text \<open>The lines of a text as they are documented: the text is split at every newline, and a carriage return in front
  of the newline belongs to the line break. What follows the last newline is a line too, unless it is empty.\<close>

fun split_lf :: "byte list \<Rightarrow> byte list list" where
  "split_lf [] = [[]]"
| "split_lf (c # p) =
     (if c = 0x0A then [] # split_lf p else (c # List.hd (split_lf p)) # tl (split_lf p))"

definition ends_in_cr :: "byte list \<Rightarrow> bool" where
  "ends_in_cr l \<longleftrightarrow> l \<noteq> [] \<and> last l = 0x0D"

definition without_cr :: "byte list \<Rightarrow> byte list" where
  "without_cr l = (if ends_in_cr l then butlast l else l)"

definition text_lines :: "byte list \<Rightarrow> (byte list \<times> bool) list" where
  "text_lines p =
     map (\<lambda>l. (without_cr l, True)) (butlast (split_lf p)) @
     (if last (split_lf p) = [] then [] else [(last (split_lf p), False)])"

text \<open>White space is removed at the ends the flags name; a line is a C string and ends in front of a NUL.\<close>

definition white_space :: "byte \<Rightarrow> bool" where
  "white_space c \<longleftrightarrow> c \<in> {0x09, 0x0A, 0x0B, 0x0C, 0x0D, 0x20}"

definition trimmed :: "line_flags \<Rightarrow> byte list \<Rightarrow> byte list" where
  "trimmed flags l =
     (let l = takeWhile (\<lambda>c. c \<noteq> 0) l;
          l = (if line_ltrim flags then dropWhile white_space l else l)
      in if line_rtrim flags then rev (dropWhile white_space (rev l)) else l)"

text \<open>The next line, with empty ones skipped and counted on request. A blank rest without a newline is the end of
  the file and does not count as a skipped line.\<close>

fun next_line :: "line_flags \<Rightarrow> nat \<Rightarrow> (byte list \<times> bool) list \<Rightarrow> line_result \<times> nat \<times> (byte list \<times> bool) list" where
  "next_line flags num [] = (LineEof, num, [])"
| "next_line flags num ((l, terminated) # ls) =
     (if trimmed flags l = [] \<and> line_skip_empty flags then next_line flags (if terminated then num + 1 else num) ls
      else (Line (trimmed flags l), num, ls))"

fun documented_lines :: "line_flags \<Rightarrow> nat \<Rightarrow> (byte list \<times> bool) list \<Rightarrow> nat \<Rightarrow> (line_result \<times> nat) list" where
  "documented_lines flags num ls 0 = []"
| "documented_lines flags num ls (Suc k) =
     (case next_line flags num ls of (r, num, ls) \<Rightarrow> (r, num) # documented_lines flags num ls k)"

text \<open>The lines whose carriage return the code loses sight of: those that fill the buffer up to it, so that the newline
  starts the next buffer.\<close>

definition cr_in_buffer :: "byte list \<Rightarrow> bool" where
  "cr_in_buffer p \<longleftrightarrow> (\<forall>l \<in> set (butlast (split_lf p)). ends_in_cr l \<longrightarrow> \<not> BUFSZ dvd length l)"

lemma split_lf_not_Nil [simp]: "split_lf p \<noteq> []"
  by (cases p) simp_all

lemma split_lf_last: "0x0A \<notin> set p \<Longrightarrow> split_lf p = [p]"
  by (induction p) auto

lemma split_lf_newline:
  "0x0A \<in> set p \<Longrightarrow>
     split_lf p = takeWhile (\<lambda>c. c \<noteq> 0x0A) p # split_lf (drop (Suc (length (takeWhile (\<lambda>c. c \<noteq> 0x0A) p))) p)"
  by (induction p) auto

lemma white_space_isspace: "white_space = isspace"
proof
  fix c :: byte
  have n: "c = numeral k \<longleftrightarrow> unat c = unat (numeral k :: byte)" for k by (simp only: word_unat_eq_iff)
  show "white_space c = isspace c"
    unfolding white_space_def isspace_def insert_iff empty_iff n word_le_nat_alt by (simp, presburger)
qed

lemma rtrim_len_rev: "n \<le> length s \<Longrightarrow> take (rtrim_len s n) s = rev (dropWhile isspace (rev (take n s)))"
  by (induction n) (simp_all add: take_Suc_conv_app_nth)

lemma trimmed_trim: "trimmed flags l = trim l flags"
  by (simp add: trimmed_def trim_def cstr_def ltrim_def rtrim_def white_space_isspace rtrim_len_rev Let_def)

lemma text_lines_newline:
  assumes "0x0A \<in> set p" "raw = takeWhile (\<lambda>c. c \<noteq> 0x0A) p"
  shows "text_lines p = (without_cr raw, True) # text_lines (drop (Suc (length raw)) p)"
    "cr_in_buffer p \<longleftrightarrow> (ends_in_cr raw \<longrightarrow> \<not> BUFSZ dvd length raw) \<and> cr_in_buffer (drop (Suc (length raw)) p)"
  unfolding text_lines_def cr_in_buffer_def split_lf_newline [OF assms(1), folded assms(2)] by simp_all

lemma newline_in_set: "length (takeWhile (\<lambda>c. c \<noteq> x) p) < length p \<longleftrightarrow> x \<in> set p"
  by (induction p) auto

lemma line_spec_documented:
  "cr_in_buffer p \<Longrightarrow> line_spec flags num p = (r, n, rest) \<Longrightarrow>
     next_line flags num (text_lines p) = (r, n, text_lines rest) \<and> cr_in_buffer rest"
proof (induction flags num p rule: line_spec.induct)
  case (1 flags num p)
  define raw where "raw = takeWhile (\<lambda>c. c \<noteq> 0x0A) p"
  have Nil: "text_lines [] = []" "cr_in_buffer []" by (simp_all add: text_lines_def cr_in_buffer_def)
  show ?case
  proof (cases "0x0A \<in> set p")
    case True
    then have p: "p \<noteq> []" and len: "length raw < length p" by (auto simp: raw_def newline_in_set)
    note t = text_lines_newline [OF True raw_def]
    have s: "strip_cr raw = without_cr raw"
      using "1.prems"(1) t(2) by (auto simp: strip_cr_def without_cr_def ends_in_cr_def dvd_eq_mod_eq_0)
    show ?thesis
      using "1.IH" [OF p raw_def refl len] "1.prems" line_spec_newline [OF raw_def [symmetric] len, of flags num] t
      by (auto simp: s trimmed_trim split: if_splits)
  next
    case False
    then show ?thesis
      using "1.prems" line_spec_last [OF False, of flags num] Nil
      by (cases "p = []") (auto simp: text_lines_def split_lf_last trimmed_trim split: if_splits)
  qed
qed

lemma spec_lines_documented: "cr_in_buffer p \<Longrightarrow> spec_lines flags num p k = documented_lines flags num (text_lines p) k"
proof (induction k arbitrary: num p)
  case (Suc k)
  obtain r n rest where l: "line_spec flags num p = (r, n, rest)" by (rule prod_cases3)
  from line_spec_documented [OF Suc.prems l] Suc.IH show ?case by (simp add: l)
qed simp

text \<open>C18: on an open file every call of \<open>istream_get_line\<close> returns, and the calls deliver the documented lines one after
  the other: the pieces between the line breaks (LF or CR-LF), trimmed as the flags ask, with empty ones skipped
  and counted if they are to be, and then the end of the file. This is so as long as no line with a CR-LF break is,
  with the carriage return, a multiple of the buffer size long: the code keeps that carriage return.\<close>

theorem file_stream_lines:
  assumes "benign fd" "length (fbytes fd) < 2 ^ 63" "cr_in_buffer (fbytes fd)"
  shows "get_lines file_precache (istream_open_fd fd) num flags k =
    Some (documented_lines flags num (text_lines (fbytes fd)) k)"
  unfolding spec_lines_documented [OF assms(3), symmetric] using get_lines_ok istream_open_fd_ok [OF assms(1,2)] by metis

theorem file_stream_lines_witness:
  "get_lines file_precache (istream_open_fd \<lparr>fbytes = [0x61, 0x0D, 0x0A, 0x0A, 0x20, 0x62], sched = [Intr, Short 1]\<rparr>) 0
      \<lparr>line_ltrim = True, line_rtrim = False, line_skip_empty = True\<rparr> 3 = Some [(Line [0x61], 0), (Line [0x62], 1), (LineEof, 1)]"
  using file_stream_lines [of "\<lparr>fbytes = [0x61, 0x0D, 0x0A, 0x0A, 0x20, 0x62], sched = [Intr, Short 1]\<rparr>" 0
      "\<lparr>line_ltrim = True, line_rtrim = False, line_skip_empty = True\<rparr>" 3]
  by (simp add: benign_def numeral_3_eq_3 cr_in_buffer_def text_lines_def ends_in_cr_def without_cr_def BUFSZ_def
      trimmed_def white_space_def dvd_eq_mod_eq_0)

text \<open>A sequence of appends of data and of holes.\<close>

datatype chunk = Data "byte list" | Hole nat

fun chunk_bytes :: "chunk \<Rightarrow> byte list" where
  "chunk_bytes (Data d) = d"
| "chunk_bytes (Hole n) = zeros n"

fun append_chunks :: "'o ostream \<Rightarrow> 'o \<Rightarrow> chunk list \<Rightarrow> (unit, 'o) io" where
  "append_chunks strm s [] = (Some (), s)"
| "append_chunks strm s (c # cs) =
     (case (case c of Data d \<Rightarrow> ostream_append strm s d | Hole n \<Rightarrow> ostream_append_sparse strm s n) of
        (None, s) \<Rightarrow> (None, s)
      | (Some _, s) \<Rightarrow> append_chunks strm s cs)"

context ostream_sink
begin

lemma append_chunks_ok:
  "room s (length (concat (map chunk_bytes cs)) + m) \<Longrightarrow>
     \<exists>s'. append_chunks strm s cs = (Some (), s') \<and> view s' = upd (view s) (concat (map chunk_bytes cs)) \<and> room s' m"
proof (induction cs arbitrary: s)
  case Nil
  then show ?case by (simp add: upd_Nil)
next
  case (Cons c cs)
  let ?rest = "length (concat (map chunk_bytes cs)) + m"
  have room: "room s (length (chunk_bytes c) + ?rest)" using Cons.prems by (simp add: add.assoc)
  have "\<exists>s'. (case c of Data d \<Rightarrow> ostream_append strm s d | Hole n \<Rightarrow> ostream_append_sparse strm s n) = (Some (), s') \<and>
      view s' = upd (view s) (chunk_bytes c) \<and> room s' ?rest"
    using room ostream_append_ok [of s _ ?rest] ostream_append_sparse_ok [of s _ ?rest] by (cases c) simp_all
  then obtain s1 where "(case c of Data d \<Rightarrow> ostream_append strm s d | Hole n \<Rightarrow> ostream_append_sparse strm s n) = (Some (), s1)"
      "view s1 = upd (view s) (chunk_bytes c)" "room s1 ?rest"
    by blast
  with Cons.IH [of s1] show ?case by (auto simp: upd_append)
qed

end

text \<open>C19: a new file to which data and holes are appended in any order contains, once flushed, exactly the data with zero
  bytes in the place of the holes, whether the stream makes the holes by seeking or by writing zeros, and whatever
  \<open>write\<close> calls are short or interrupted.\<close>

theorem file_stream_write:
  assumes "benign fd" "fbytes fd = []" "length (concat (map chunk_bytes cs)) < 2 ^ 63"
  shows "\<exists>f1 f2. append_chunks (file_ostream_ops sparse_flag True True) (ostream_open_file fd) cs = (Some (), f1) \<and>
    ostream_flush (file_ostream_ops sparse_flag True True) f1 = (Some (), f2) \<and>
    fbytes (out_fd f2) = concat (map chunk_bytes cs)"
proof -
  have "file_room (ostream_open_file fd) (length (concat (map chunk_bytes cs)) + 0)"
    and v: "file_view (ostream_open_file fd) = []"
    using assms by (simp_all add: file_room_def file_view_def ostream_open_file_def zeros_def)
  from file_out.append_chunks_ok [OF this(1), of sparse_flag True True] obtain f1 where
    f1: "append_chunks (file_ostream_ops sparse_flag True True) (ostream_open_file fd) cs = (Some (), f1)"
      "file_view f1 = concat (map chunk_bytes cs)" "file_room f1 0"
    using v by auto
  with file_flush_ok [OF f1(3)] show ?thesis by (simp add: ostream_flush_def file_ostream_ops_def)
qed

theorem file_stream_write_witness:
  "\<exists>f1 f2. append_chunks (file_ostream_ops True True True) (ostream_open_file \<lparr>fbytes = [], sched = [Short 0, Intr]\<rparr>)
      [Hole 2, Data [7, 8], Hole 1] = (Some (), f1) \<and>
    ostream_flush (file_ostream_ops True True True) f1 = (Some (), f2) \<and> fbytes (out_fd f2) = [0, 0, 7, 8, 0]"
proof -
  have b: "concat (map chunk_bytes [Hole 2, Data [7, 8], Hole 1]) = [0, 0, 7, 8, 0]"
    by (simp add: zeros_def numeral_2_eq_2)
  have "length (concat (map chunk_bytes [Hole 2, Data [7, 8], Hole 1])) < 2 ^ 63" unfolding b by simp
  from file_stream_write [OF _ _ this, of "\<lparr>fbytes = [], sched = [Short 0, Intr]\<rparr>" True]
  show ?thesis unfolding b by (simp add: benign_def)
qed

end
