(* ===== verification/TarNumber.thy ===== *)
theory TarNumber
  imports Streams
begin

text \<open>
  libtar, the fields of a header: \<open>number.c\<close>, \<open>base64.c\<close> and \<open>urldecode.c\<close>, and the routines of
  \<open>lib/filesystem/tarfs/format.c\<close> that write numbers.

  A field is the list of its bytes; \<open>digits\<close> is always the size of the field. The properties are round trips: what
  the writer puts into a field is what the reader gets from it, and decoding undoes a reference encoder.
\<close>

section \<open>Reading numbers\<close>

fun octal_loop :: "nat \<Rightarrow> byte list \<Rightarrow> nat option" where
  "octal_loop result [] = Some result"
| "octal_loop result (c # str) =
     (if 0x30 \<le> c \<and> c \<le> 0x37 then
        (if result > 0x1FFFFFFFFFFFFFFF then None
         else octal_loop (result * 8 + (unat c - 0x30)) str)
      else Some result)"

definition read_octal :: "byte list \<Rightarrow> nat option" where
  "read_octal str = octal_loop 0 (dropWhile isspace str)"

fun binary_loop :: "bool \<Rightarrow> nat \<Rightarrow> byte list \<Rightarrow> nat option" where
  "binary_loop first result [] = Some result"
| "binary_loop first result (c # str) =
     (let x = unat c;
          result = (if first then (if x = 0xFF then 0xFFFFFFFFFFFFFFFF else 0) else result);
          x' = (if first \<and> x \<noteq> 0xFF then x mod 0x80 else x);
          ov = result div 2 ^ 56 mod 0x100
      in if first \<and> x \<noteq> 0xFF \<and> length str > 7 \<and> x' \<noteq> 0 then None
         else if ov \<noteq> 0 \<and> ov \<noteq> 0xFF then None
         else binary_loop False (result * 0x100 mod max64 + x') str)"

definition read_binary :: "byte list \<Rightarrow> nat option" where
  "read_binary str = binary_loop True 0 str"

definition read_number :: "byte list \<Rightarrow> nat option" where
  "read_number str = (if hd str AND 0x80 \<noteq> 0 then read_binary str else read_octal str)"

text \<open>The test for overflow lets a value pass that exceeds 64 bits with its last digit; it wraps around.\<close>

fun decimal_loop :: "nat \<Rightarrow> byte list \<Rightarrow> nat option" where
  "decimal_loop result [] = Some result"
| "decimal_loop result (c # str) =
     (if 0x30 \<le> c \<and> c \<le> 0x39 then
        (if result > 0xFFFFFFFFFFFFFFFF div 10 then None
         else decimal_loop (add64 (result * 10) (unat c - 0x30)) str)
      else Some result)"

definition pax_read_decimal :: "byte list \<Rightarrow> nat option" where
  "pax_read_decimal str = decimal_loop 0 str"

section \<open>Writing numbers\<close>

text \<open>\<open>printf\<close>'s conversion of an unsigned number to base 8 or 10, without and with zeros to a given width.\<close>

fun digits_of :: "nat \<Rightarrow> nat \<Rightarrow> byte list" where
  "digits_of base n =
     (if n < base \<or> base < 2 then [of_nat (0x30 + n)] else digits_of base (n div base) @ [of_nat (0x30 + n mod base)])"

declare digits_of.simps [simp del]

definition padded :: "nat \<Rightarrow> byte list \<Rightarrow> byte list" where
  "padded width ds = replicate (width - length ds) 0x30 @ ds"

fun write_bytes :: "nat \<Rightarrow> nat \<Rightarrow> byte list" where
  "write_bytes value 0 = []"
| "write_bytes value (Suc digits) = write_bytes (value div 0x100) digits @ [of_nat value]"

definition write_binary :: "nat \<Rightarrow> nat \<Rightarrow> byte list" where
  "write_binary value digits =
     (let dst = write_bytes value digits in (hd dst OR 0x80) # tl dst)"

fun number_mask :: "nat \<Rightarrow> nat" where
  "number_mask 0 = 0"
| "number_mask (Suc i) = (number_mask i * 8 + 7) mod max64"

text \<open>The value is cast to \<open>unsigned int\<close> before it is printed.\<close>

definition write_number :: "nat \<Rightarrow> nat \<Rightarrow> byte list" where
  "write_number value digits =
     (let mask = number_mask (digits - 1) in
      if value \<le> mask then take digits (padded (digits - 1) (digits_of 8 (u32 value)) @ [0x20])
      else if value \<le> (mask * 8 + 7) mod max64 then take digits (padded digits (digits_of 8 (u32 value)))
      else write_binary value digits)"

text \<open>\<open>neg = -value; ~neg + 1\<close> is the two's complement of the value.\<close>

definition write_number_signed :: "int \<Rightarrow> nat \<Rightarrow> byte list" where
  "write_number_signed value digits =
     (if value < 0
      then let neg = nat (- value mod 2 ^ 64) in write_binary ((max64 - neg) mod max64) digits
      else write_number (nat value) digits)"

section \<open>Base 64 and percent encoding\<close>

definition isupper :: "byte \<Rightarrow> bool" where
  "isupper c \<longleftrightarrow> 0x41 \<le> c \<and> c \<le> 0x5A"

definition islower :: "byte \<Rightarrow> bool" where
  "islower c \<longleftrightarrow> 0x61 \<le> c \<and> c \<le> 0x7A"

definition isdigit :: "byte \<Rightarrow> bool" where
  "isdigit c \<longleftrightarrow> 0x30 \<le> c \<and> c \<le> 0x39"

definition isxdigit :: "byte \<Rightarrow> bool" where
  "isxdigit c \<longleftrightarrow> isdigit c \<or> (0x41 \<le> c \<and> c \<le> 0x46) \<or> (0x61 \<le> c \<and> c \<le> 0x66)"

definition convert :: "byte \<Rightarrow> byte" where
  "convert c =
     (if isupper c then c - 0x41
      else if islower c then c - 0x61 + 26
      else if isdigit c then c - 0x30 + 52
      else if c = 0x2B then 62
      else if c = 0x2F \<or> c = 0x2D then 63
      else 0)"

text \<open>The inner loop: up to four characters into \<open>value\<close>. The number of characters taken, the value and what is left.\<close>

fun gather :: "nat \<Rightarrow> 32 word \<Rightarrow> byte list \<Rightarrow> nat \<times> 32 word \<times> byte list" where
  "gather diff value [] = (diff, value, [])"
| "gather diff value (c # str) =
     (if diff \<ge> 4 then (diff, value, c # str)
      else if c = 0x3D \<or> c = 0x5F \<or> c = 0 then (diff, value, [])
      else gather (Suc diff) (push_bit 6 value OR ucast (convert c)) str)"

lemma gather_shrinks: "gather n w str = (d, v, rest) \<Longrightarrow> length rest \<le> length str \<and> (n < d \<longrightarrow> length rest < length str)"
  by (induction n w str rule: gather.induct) (auto split: if_splits)

function base64_decode :: "byte list \<Rightarrow> byte list" where
  "base64_decode str =
     (if str = [] then []
      else case gather 0 0 str of
        (diff, value, rest) \<Rightarrow>
          if diff < 2 then []
          else let value = push_bit (6 * (4 - diff)) value;
                   out = [ucast (drop_bit 16 value), ucast (drop_bit 8 value), ucast value] :: byte list
            in take (diff * 3 div 4) out @ base64_decode rest)"
  by pat_completeness auto
termination
  by (relation "measure length") (auto dest: gather_shrinks [OF sym])

declare base64_decode.simps [simp del]

definition xdigit :: "byte \<Rightarrow> byte" where
  "xdigit x = (if isupper x then x - 0x41 + 0x0A else if islower x then x - 0x61 + 0x0A else x - 0x30)"

fun urldecode :: "byte list \<Rightarrow> byte list" where
  "urldecode [] = []"
| "urldecode [x] = [x]"
| "urldecode [x, y] = [x, y]"
| "urldecode (x # a # b # str) =
     (if x = 0x25 \<and> isxdigit a \<and> isxdigit b
      then (push_bit 4 (xdigit a) OR xdigit b) # urldecode str
      else x # urldecode (a # b # str))"

section \<open>Numbers written are read back\<close>

text \<open>The digits of a number and the value of a list of digits, most significant first.\<close>

definition digit_char :: "nat \<Rightarrow> byte" where
  "digit_char d = of_nat (0x30 + d)"

fun digit_list :: "nat \<Rightarrow> nat \<Rightarrow> nat list" where
  "digit_list base n = (if n < base \<or> base < 2 then [n] else digit_list base (n div base) @ [n mod base])"

declare digit_list.simps [simp del]

definition digits_val :: "nat \<Rightarrow> nat \<Rightarrow> nat list \<Rightarrow> nat" where
  "digits_val base r ds = foldl (\<lambda>r d. r * base + d) r ds"

lemma digits_val_simps [simp]:
  "digits_val base r [] = r"
  "digits_val base r (d # ds) = digits_val base (r * base + d) ds"
  "digits_val base r (ds @ [d]) = digits_val base r ds * base + d"
  by (simp_all add: digits_val_def)

lemma digits_of_list: "digits_of base n = map digit_char (digit_list base n)"
  by (induction base n rule: digits_of.induct) (subst digits_of.simps, subst digit_list.simps, simp add: digit_char_def)

lemma digit_list_ok:
  "2 \<le> base \<Longrightarrow> digits_val base 0 (digit_list base n) = n \<and> (\<forall>d\<in>set (digit_list base n). d < base) \<and> digit_list base n \<noteq> []"
  by (induction base n rule: digit_list.induct) (subst digit_list.simps, subst (2 3) digit_list.simps, auto)

lemma digit_list_length: "2 \<le> base \<Longrightarrow> n < base ^ w \<Longrightarrow> 0 < w \<Longrightarrow> length (digit_list base n) \<le> w"
proof (induction base n arbitrary: w rule: digit_list.induct)
  case (1 base n)
  show ?case
  proof (cases "n < base")
    case True
    then show ?thesis using "1.prems" by (subst digit_list.simps) simp
  next
    case False
    obtain v where v: "w = Suc v" using "1.prems"(3) by (cases w) simp_all
    have "0 < v"
    proof (rule ccontr)
      assume "\<not> 0 < v"
      then show False using "1.prems"(2) v False by simp
    qed
    moreover have "n div base < base ^ v" using "1.prems"(1,2) v by (simp add: less_mult_imp_div_less mult.commute)
    ultimately have "length (digit_list base (n div base)) \<le> v" using "1.IH" False "1.prems"(1) by simp
    then show ?thesis using False "1.prems"(1) v by (subst digit_list.simps) simp
  qed
qed

lemma digits_val_ge: "0 < base \<Longrightarrow> r \<le> digits_val base r ds"
proof (induction ds arbitrary: r)
  case (Cons d ds)
  have "r \<le> r * base + d" using Cons.prems by (simp add: trans_le_add1)
  also have "\<dots> \<le> digits_val base (r * base + d) ds" by (rule Cons.IH [OF Cons.prems])
  finally show ?case by simp
qed simp

lemma digits_val_zeros: "digits_val base 0 (replicate k 0 @ ds) = digits_val base 0 ds"
  by (induction k) simp_all

lemma unat_digit_char: "d < 10 \<Longrightarrow> unat (digit_char d) = 0x30 + d"
  unfolding digit_char_def unsigned_of_nat by (simp add: take_bit_eq_mod)

lemma digit_char_octal: "d < 8 \<Longrightarrow> 0x30 \<le> digit_char d \<and> digit_char d \<le> 0x37"
  by (simp add: word_le_nat_alt unat_digit_char)

lemma digit_char_decimal: "d < 10 \<Longrightarrow> 0x30 \<le> digit_char d \<and> digit_char d \<le> 0x39"
  by (simp add: word_le_nat_alt unat_digit_char)

lemma octal_loop_digits:
  "\<forall>d\<in>set ds. d < 8 \<Longrightarrow> digits_val 8 r ds < max64 \<Longrightarrow>
     octal_loop r (map digit_char ds @ rest) = octal_loop (digits_val 8 r ds) rest"
proof (induction ds arbitrary: r)
  case (Cons d ds)
  have "r * 8 + d \<le> digits_val 8 (r * 8 + d) ds" by (rule digits_val_ge) simp
  then have "r * 8 < 2 ^ 64" using Cons.prems(2) by simp
  then show ?case using Cons digit_char_octal [of d] unat_digit_char [of d] by simp
qed simp

lemma decimal_loop_digits:
  "\<forall>d\<in>set ds. d < 10 \<Longrightarrow> digits_val 10 r ds < max64 \<Longrightarrow>
     decimal_loop r (map digit_char ds @ rest) = decimal_loop (digits_val 10 r ds) rest"
proof (induction ds arbitrary: r)
  case (Cons d ds)
  have "r * 10 + d \<le> digits_val 10 (r * 10 + d) ds" by (rule digits_val_ge) simp
  then have "r * 10 + d < 2 ^ 64" using Cons.prems(2) by simp
  then show ?case using Cons digit_char_decimal [of d] unat_digit_char [of d] by (simp add: add64_exact)
qed simp

lemma digits_of_8:
  assumes "n < 8 ^ w" "0 < w" "n < max64"
  shows "length (padded w (digits_of 8 n)) = w" "octal_loop 0 (padded w (digits_of 8 n) @ rest) = octal_loop n rest"
    "0x30 \<le> hd (padded w (digits_of 8 n)) \<and> hd (padded w (digits_of 8 n)) \<le> 0x37"
proof -
  define ds where "ds = replicate (w - length (digit_list 8 n)) 0 @ digit_list 8 n"
  have z: "0x30 = digit_char 0" by (simp add: digit_char_def)
  have l: "length (digit_list 8 n) \<le> w" using assms by (intro digit_list_length) simp_all
  have p: "padded w (digits_of 8 n) = map digit_char ds"
    unfolding padded_def digits_of_list ds_def z by simp
  have ds: "\<forall>d\<in>set ds. d < 8" "digits_val 8 0 ds = n" "ds \<noteq> []"
    using digit_list_ok [of 8 n] digits_val_zeros [of 8 _ "digit_list 8 n"] by (auto simp: ds_def)
  show "length (padded w (digits_of 8 n)) = w" using l by (simp add: p ds_def)
  show "octal_loop 0 (padded w (digits_of 8 n) @ rest) = octal_loop n rest"
    using octal_loop_digits [of ds 0 rest] ds assms(3) by (simp add: p)
  show "0x30 \<le> hd (padded w (digits_of 8 n)) \<and> hd (padded w (digits_of 8 n)) \<le> 0x37"
    using ds digit_char_octal by (cases ds) (simp_all add: p)
qed

lemma byte_high_bit: "bit (c :: byte) 7 \<longleftrightarrow> 0x80 \<le> unat c"
proof -
  have "unat c < 256" using unsigned_less [of c] by simp
  then have "unat c div 2 ^ 7 < 2" by simp
  moreover have "bit c 7 \<longleftrightarrow> odd (unat c div 2 ^ 7)"
    using bit_unsigned_iff [where ?'a = nat, of c 7] by (simp add: bit_iff_odd)
  moreover have "unat c div 2 ^ 7 = 0 \<longleftrightarrow> unat c < 0x80" by (simp add: div_eq_0_iff)
  ultimately show ?thesis by (cases "unat c div 2 ^ 7 = 0") auto
qed

lemma byte_mask_80: "(c :: byte) AND 0x80 \<noteq> 0 \<longleftrightarrow> 0x80 \<le> unat c"
proof -
  have "(c AND 0x80 \<noteq> 0) = bit c 7"
    using bit_iff_and_push_bit_not_eq_0 [of c 7] by simp
  then show ?thesis by (simp add: byte_high_bit)
qed

lemma byte_or_80:
  assumes "unat (c :: byte) < 0x80"
  shows "unat (c OR 0x80) = unat c + 0x80"
proof -
  have "\<not> bit c n \<or> \<not> bit (0x80 :: byte) n" for n
  proof (cases "n = 7")
    case False
    have "bit (2 ^ 7 :: byte) n \<longleftrightarrow> False" using False by (simp only: bit_exp_iff) simp
    then show ?thesis by simp
  qed (use assms in \<open>simp add: byte_high_bit\<close>)
  then have "c OR 0x80 = c + 0x80" by (simp add: disjunctive_add)
  then show ?thesis using assms by (simp add: unat_word_ariths)
qed

lemma octal_hd:
  fixes c :: byte
  assumes "0x30 \<le> c" "c \<le> 0x37"
  shows "c AND 0x80 = 0" "\<not> isspace c"
proof -
  have "unat c < 0x80" using assms by (simp add: word_le_nat_alt)
  then show "c AND 0x80 = 0" using byte_mask_80 [of c] by simp
  have "\<not> (c \<le> 13)" using assms(1) by (simp add: word_le_nat_alt)
  then show "\<not> isspace c" using assms by (auto simp: isspace_def)
qed

lemma number_mask_eq: "k \<le> 21 \<Longrightarrow> number_mask k = 8 ^ k - 1"
proof (induction k)
  case (Suc k)
  have "(8 :: nat) ^ Suc k \<le> 8 ^ 21" using Suc.prems by (intro power_increasing) simp_all
  then have "(8 :: nat) ^ Suc k \<le> max64" by simp
  moreover have "((8 :: nat) ^ k - 1) * 8 + 7 = 8 ^ Suc k - 1"
    using one_le_power [of "8 :: nat" k] by (simp add: algebra_simps)
  ultimately show ?case using Suc by simp
qed simp

lemma read_octal_digits:
  assumes "n < 8 ^ w" "0 < w" "n < max64" "rest = [] \<or> rest = [0x20]"
  shows "read_number (padded w (digits_of 8 n) @ rest) = Some n"
proof -
  let ?p = "padded w (digits_of 8 n)"
  have p: "?p \<noteq> []" using digits_of_8(1) [OF assms(1-3)] assms(2) by auto
  then have hd: "hd (?p @ rest) = hd ?p" by simp
  note o = octal_hd [of "hd ?p"] digits_of_8(3) [OF assms(1-3)]
  have "dropWhile isspace (?p @ rest) = ?p @ rest" using p o by (cases ?p) simp_all
  moreover have "octal_loop n rest = Some n" using assms(4) by auto
  ultimately show ?thesis using hd o digits_of_8(2) [OF assms(1-3)] by (simp add: read_number_def read_octal_def)
qed

text \<open>Big endian bytes.\<close>

definition bytes_val :: "nat \<Rightarrow> byte list \<Rightarrow> nat" where
  "bytes_val r bs = digits_val 256 r (map unat bs)"

lemma length_write_bytes [simp]: "length (write_bytes v d) = d"
  by (induction v d rule: write_bytes.induct) simp_all

lemma write_bytes_val: "bytes_val 0 (write_bytes v d) = v mod 256 ^ d"
proof (induction v d rule: write_bytes.induct)
  case (2 v d)
  have "v mod 256 ^ Suc d = v div 256 mod 256 ^ d * 256 + v mod 256"
    by (simp add: mod_mult2_eq)
  then show ?case using 2 by (simp add: bytes_val_def unat_of_nat_byte)
qed (simp add: bytes_val_def)

lemma bytes_val_shift: "bytes_val r bs = r * 256 ^ length bs + bytes_val 0 bs"
proof (induction bs arbitrary: r)
  case (Cons b bs)
  have "bytes_val r (b # bs) = bytes_val (r * 256 + unat b) bs" "bytes_val 0 (b # bs) = bytes_val (unat b) bs"
    by (simp_all add: bytes_val_def)
  then show ?case using Cons.IH [of "r * 256 + unat b"] Cons.IH [of "unat b"] by (simp add: algebra_simps)
qed (simp add: bytes_val_def)

lemma binary_loop_bytes: "bytes_val r bs < max64 \<Longrightarrow> binary_loop False r bs = Some (bytes_val r bs)"
proof (induction bs arbitrary: r)
  case (Cons b bs)
  have v: "bytes_val r (b # bs) = bytes_val (r * 256 + unat b) bs" by (simp add: bytes_val_def)
  have "r * 256 + unat b \<le> bytes_val r (b # bs)"
    unfolding v unfolding bytes_val_def by (rule digits_val_ge) simp
  then have "r * 256 < 2 ^ 64" using Cons.prems by simp
  then have "r div 2 ^ 56 mod 256 = 0" by simp
  moreover have "r * 256 mod max64 + unat b = r * 256 + unat b" using \<open>r * 256 < 2 ^ 64\<close> by simp
  ultimately show ?case using Cons.IH [of "r * 256 + unat b"] Cons.prems v by (simp add: Let_def)
qed (simp add: bytes_val_def)

lemma read_write_binary:
  assumes "v < max64" "8 \<le> d" "9 \<le> d \<or> v < 2 ^ 62"
  shows "read_number (write_binary v d) = Some v" "length (write_binary v d) = d"
proof -
  obtain b bs where bs: "write_bytes v d = b # bs" using assms(2) by (metis length_0_conv length_write_bytes neq_Nil_conv not_numeral_le_zero)
  have lbs: "length bs = d - 1" using bs length_write_bytes [of v d] by simp
  have "(256 :: nat) ^ 8 \<le> 256 ^ d" using assms(2) by (intro power_increasing) simp_all
  then have val: "unat b * 256 ^ (d - 1) + bytes_val 0 bs = v"
    using write_bytes_val [of v d] assms(1) bytes_val_shift [of "unat b" bs] lbs bs by (simp add: bytes_val_def)
  have b: "unat b < 64 \<and> (7 < length bs \<longrightarrow> unat b = 0)"
  proof (cases "9 \<le> d")
    case True
    then have "(256 :: nat) ^ 8 \<le> 256 ^ (d - 1)" by (intro power_increasing) simp_all
    then have "unat b = 0" using val assms(1) by (cases "unat b") auto
    then show ?thesis by simp
  next
    case False
    then have "d = 8" using assms(2) by simp
    then have "unat b * 256 ^ 7 < 64 * 256 ^ 7" using val assms(3) by simp
    then show ?thesis using lbs \<open>d = 8\<close> by simp
  qed
  then have u: "unat (b OR 0x80) = unat b + 0x80" by (intro byte_or_80) simp
  have "bytes_val (unat b) bs = v" using val lbs by (simp add: bytes_val_shift [of "unat b"])
  then have "binary_loop True 0 ((b OR 0x80) # bs) = Some v"
    using b u binary_loop_bytes [of "unat b" bs] assms(1) by (simp add: Let_def)
  moreover have "(b OR 0x80) AND 0x80 \<noteq> 0" using u byte_mask_80 [of "b OR 0x80"] by simp
  ultimately show "read_number (write_binary v d) = Some v"
    by (simp add: write_binary_def bs read_number_def read_binary_def)
  show "length (write_binary v d) = d" using bs lbs assms(2) by (simp add: write_binary_def)
qed

lemma read_write_number:
  assumes "8 \<le> d" "d \<le> 20" "v < max64" "9 \<le> d \<or> v < 2 ^ 62"
  shows "read_number (write_number v d) = Some (if v < 8 ^ d then v mod 2 ^ 32 else v)"
    and "length (write_number v d) = d"
proof -
  have m: "number_mask (d - 1) = 8 ^ (d - 1) - 1" using assms by (intro number_mask_eq) simp
  have "(8 :: nat) ^ d \<le> 8 ^ 20" using assms by (intro power_increasing) simp_all
  moreover have d: "8 ^ d = 8 * (8 :: nat) ^ (d - 1)" using assms by (cases d) simp_all
  ultimately have m2: "(number_mask (d - 1) * 8 + 7) mod max64 = 8 ^ d - 1"
    unfolding m using one_le_power [of "8 :: nat" "d - 1"] by (simp add: algebra_simps)
  have u: "u32 v \<le> v" "u32 v < max64" by (simp_all add: u32_def order_le_less_trans [OF mod_less_eq_dividend])
  have gt0: "0 < d - 1" "0 < d" using assms by simp_all
  have num: "write_number v d =
      (if v < 8 ^ (d - 1) then take d (padded (d - 1) (digits_of 8 (u32 v)) @ [0x20])
       else if v < 8 ^ d then take d (padded d (digits_of 8 (u32 v)))
       else write_binary v d)"
  proof -
    have le: "v \<le> 8 ^ k - 1 \<longleftrightarrow> v < 8 ^ k" for k using one_le_power [of "8 :: nat" k] by (simp only: one_le_numeral True_implies_equals) linarith
    show ?thesis unfolding write_number_def Let_def m2 unfolding m le ..
  qed
  consider "v < 8 ^ (d - 1)" | "8 ^ (d - 1) \<le> v" "v < 8 ^ d" | "8 ^ d \<le> v" by linarith
  then show "read_number (write_number v d) = Some (if v < 8 ^ d then v mod 2 ^ 32 else v)"
    and "length (write_number v d) = d"
  proof (atomize (full), cases)
    case 1
    note l = digits_of_8(1) [OF order_le_less_trans [OF u(1) 1] gt0(1) u(2)]
    have "v < 8 ^ d" using 1 d by simp
    then show "read_number (write_number v d) = Some (if v < 8 ^ d then v mod 2 ^ 32 else v) \<and> length (write_number v d) = d"
      using 1 l gt0 read_octal_digits [OF order_le_less_trans [OF u(1) 1] gt0(1) u(2), of "[0x20]"] num
      by (simp add: u32_def)
  next
    case 2
    note l = digits_of_8(1) [OF order_le_less_trans [OF u(1) 2(2)] gt0(2) u(2)]
    then show "read_number (write_number v d) = Some (if v < 8 ^ d then v mod 2 ^ 32 else v) \<and> length (write_number v d) = d"
      using 2 gt0 read_octal_digits [OF order_le_less_trans [OF u(1) 2(2)] gt0(2) u(2), of "[]"] num
      by (simp add: u32_def)
  next
    case 3
    then have "\<not> v < 8 ^ (d - 1)" "\<not> v < 8 ^ d" using d by auto
    then show "read_number (write_number v d) = Some (if v < 8 ^ d then v mod 2 ^ 32 else v) \<and> length (write_number v d) = d"
      using num read_write_binary [OF assms(3,1,4)] by simp
  qed
qed

text \<open>C23: a number that the tar writer puts into a header field of 8 or 12 bytes is read back unchanged if it fits 32 bits
  or is too big for octal digits. A number in between, such as the size of a file from 4 GiB up to 64 GiB, loses its
  upper bits when it is written.\<close>

theorem write_number_read:
  assumes "digits = 8 \<and> n < 2 ^ 62 \<or> digits = 12 \<and> n < 2 ^ 64"
  shows "read_number (write_number n digits) = Some (if n < 8 ^ digits then n mod 2 ^ 32 else n) \<and>
    length (write_number n digits) = digits"
  using assms read_write_number [of digits n] by auto

theorem write_number_read_witness:
  "read_number (write_number 5000000000 12) = Some 705032704 \<and> read_number (write_number 4000000000 12) = Some 4000000000 \<and>
   read_number (write_number 20000000 8) = Some 20000000"
  using write_number_read [of 12 5000000000] write_number_read [of 12 4000000000] write_number_read [of 8 20000000]
  by simp

text \<open>How \<open>decode_header\<close> turns the field with the time into a signed number.\<close>

definition signed_field :: "nat \<Rightarrow> int" where
  "signed_field field = (if 2 ^ 63 \<le> field then - int ((max64 - field) mod max64) else int field)"

lemma read_write_number_signed:
  assumes "- (2 ^ 63) < value" "value < 2 ^ 63"
  shows "\<exists>field. read_number (write_number_signed value 12) = Some field \<and> length (write_number_signed value 12) = 12 \<and>
    signed_field field = (if 0 \<le> value \<and> value < 2 ^ 36 then value mod 2 ^ 32 else value)"
proof (cases "value < 0")
  case True
  define neg where "neg = nat (- value)"
  have neg: "0 < neg" "neg < 2 ^ 63" "value = - int neg" using assms True by (simp_all add: neg_def)
  have w: "write_number_signed value 12 = write_binary (max64 - neg) 12"
    using True neg by (simp add: write_number_signed_def neg_def [symmetric] nat_mod_distrib Let_def)
  have "read_number (write_binary (max64 - neg) 12) = Some (max64 - neg)" "length (write_binary (max64 - neg) 12) = 12"
    using neg by (auto intro!: read_write_binary)
  moreover have "signed_field (max64 - neg) = value" using neg by (simp add: signed_field_def)
  ultimately show ?thesis unfolding w using True by auto
next
  case False
  define n where "n = nat value"
  have n: "n < 2 ^ 63" "value = int n" using assms False by (simp_all add: n_def)
  have w: "write_number_signed value 12 = write_number n 12" using False by (simp add: write_number_signed_def n_def)
  have "n mod 2 ^ 32 < 2 ^ 63" by (rule order_less_trans [of _ "2 ^ 32"]) simp_all
  then show ?thesis
    unfolding w using n read_write_number [of 12 n] by (auto simp: signed_field_def zmod_int)
qed

lemma pax_read_decimal_digits:
  assumes "n < max64" "rest = [] \<or> \<not> isdigit (hd rest)"
  shows "pax_read_decimal (digits_of 10 n @ rest) = Some n"
proof -
  have "decimal_loop n rest = Some n" using assms(2) by (cases rest) (auto simp: isdigit_def)
  then show ?thesis
    using decimal_loop_digits [of "digit_list 10 n" 0 rest] digit_list_ok [of 10 n] assms(1)
    by (simp add: pax_read_decimal_def digits_of_list)
qed

text \<open>2 to the 64 is not refused but read as 0.\<close>

lemma pax_decimal_wraps: "pax_read_decimal (digits_of 10 18446744073709551616) = Some 0"
  by (simp add: pax_read_decimal_def digits_of.simps add64_def)

section \<open>Base 64\<close>

text \<open>The reference encoder of RFC 4648.\<close>

definition b64_char :: "byte \<Rightarrow> byte" where
  "b64_char x =
     (if x < 26 then 0x41 + x else if x < 52 then 0x61 + (x - 26) else if x < 62 then 0x30 + (x - 52)
      else if x = 62 then 0x2B else 0x2F)"

fun base64_encode :: "byte list \<Rightarrow> byte list" where
  "base64_encode [] = []"
| "base64_encode [a] = [b64_char (drop_bit 2 a), b64_char (push_bit 4 (take_bit 2 a)), 0x3D, 0x3D]"
| "base64_encode [a, b] =
     [b64_char (drop_bit 2 a), b64_char (push_bit 4 (take_bit 2 a) OR drop_bit 4 b),
      b64_char (push_bit 2 (take_bit 4 b)), 0x3D]"
| "base64_encode (a # b # c # r) =
     b64_char (drop_bit 2 a) # b64_char (push_bit 4 (take_bit 2 a) OR drop_bit 4 b) #
     b64_char (push_bit 2 (take_bit 4 b) OR drop_bit 6 c) # b64_char (take_bit 6 c) # base64_encode r"

lemma b64_char_ok:
  assumes "(x :: byte) < 64"
  shows "convert (b64_char x) = x \<and> b64_char x \<noteq> 0x3D \<and> b64_char x \<noteq> 0x5F \<and> b64_char x \<noteq> 0"
proof -
  let ?P = "\<lambda>n. let x = word_of_nat n :: byte in
    convert (b64_char x) = x \<and> b64_char x \<noteq> 0x3D \<and> b64_char x \<noteq> 0x5F \<and> b64_char x \<noteq> 0"
  have "list_all ?P [0..<64]" by code_simp
  moreover have "unat x < 64" using assms by (simp add: word_less_nat_alt)
  ultimately have "?P (unat x)" unfolding list_all_iff by (metis atLeastLessThan_iff set_upt zero_le)
  then show ?thesis by (simp add: Let_def)
qed

lemma byte_bit_high: "8 \<le> n \<Longrightarrow> \<not> bit (b :: byte) n"
  by (auto dest: bit_imp_le_length)

lemma byte_bits_eqI:
  assumes "bit x 0 = bit y 0" "bit x 1 = bit y 1" "bit x 2 = bit y 2" "bit x 3 = bit y 3"
    "bit x 4 = bit y 4" "bit x 5 = bit y 5" "bit x 6 = bit y 6" "bit x 7 = bit y 7"
  shows "(x :: byte) = y"
proof (rule bit_word_eqI)
  fix n assume "n < LENGTH(8)"
  then have "n \<in> {0, 1, 2, 3, 4, 5, 6, 7}" by auto
  then show "bit x n = bit y n" using assms by auto
qed

lemma b64_small:
  fixes a b c :: byte
  shows "drop_bit 2 a < 64" "push_bit 4 (take_bit 2 a) < 64" "push_bit 4 (take_bit 2 a) OR drop_bit 4 b < 64"
    "push_bit 2 (take_bit 4 b) < 64" "push_bit 2 (take_bit 4 b) OR drop_bit 6 c < 64" "take_bit 6 c < 64"
proof -
  have less: "x < 64" if "take_bit 6 x = x" for x :: byte
  proof -
    have "unat (take_bit 6 x) < 64" unfolding unsigned_take_bit_eq by (simp add: take_bit_eq_mod)
    then show ?thesis using that by (simp add: word_less_nat_alt)
  qed
  show "drop_bit 2 a < 64" by (rule less, rule byte_bits_eqI; simp add: bit_simps byte_bit_high)
  show "push_bit 4 (take_bit 2 a) < 64" by (rule less, rule byte_bits_eqI; simp add: bit_simps byte_bit_high)
  show "push_bit 4 (take_bit 2 a) OR drop_bit 4 b < 64" by (rule less, rule byte_bits_eqI; simp add: bit_simps byte_bit_high)
  show "push_bit 2 (take_bit 4 b) < 64" by (rule less, rule byte_bits_eqI; simp add: bit_simps byte_bit_high)
  show "push_bit 2 (take_bit 4 b) OR drop_bit 6 c < 64" by (rule less, rule byte_bits_eqI; simp add: bit_simps byte_bit_high)
  show "take_bit 6 c < 64" by (rule less, rule byte_bits_eqI; simp add: bit_simps byte_bit_high)
qed

lemma b64_join:
  fixes a b c :: byte
  defines "w1 \<equiv> push_bit 6 (ucast (drop_bit 2 a)) OR ucast (push_bit 4 (take_bit 2 a) OR drop_bit 4 b) :: 32 word"
  shows "ucast (drop_bit 16 (push_bit 12 (push_bit 6 (ucast (drop_bit 2 a)) OR ucast (push_bit 4 (take_bit 2 a)) :: 32 word))) = a"
    "ucast (drop_bit 16 (push_bit 6 (push_bit 6 w1 OR ucast (push_bit 2 (take_bit 4 b))))) = a"
    "ucast (drop_bit 8 (push_bit 6 (push_bit 6 w1 OR ucast (push_bit 2 (take_bit 4 b))))) = b"
    "ucast (drop_bit 16 (push_bit 6 (push_bit 6 w1 OR ucast (push_bit 2 (take_bit 4 b) OR drop_bit 6 c)) OR ucast (take_bit 6 c))) = a"
    "ucast (drop_bit 8 (push_bit 6 (push_bit 6 w1 OR ucast (push_bit 2 (take_bit 4 b) OR drop_bit 6 c)) OR ucast (take_bit 6 c))) = b"
    "ucast (push_bit 6 (push_bit 6 w1 OR ucast (push_bit 2 (take_bit 4 b) OR drop_bit 6 c)) OR ucast (take_bit 6 c)) = c"
  by (rule byte_bits_eqI; simp add: w1_def bit_simps byte_bit_high)+

lemma gather_chars:
  fixes x y z u :: byte
  assumes "x < 64" "y < 64" "z < 64" "u < 64"
  defines "w2 \<equiv> push_bit 6 (ucast x) OR ucast y :: 32 word"
  shows "gather 0 0 (b64_char x # b64_char y # 0x3D # str) = (2, w2, [])"
    "gather 0 0 (b64_char x # b64_char y # b64_char z # 0x3D # str) = (3, push_bit 6 w2 OR ucast z, [])"
    "gather 0 0 (b64_char x # b64_char y # b64_char z # b64_char u # str) = (4, push_bit 6 (push_bit 6 w2 OR ucast z) OR ucast u, str)"
proof -
  note ok = b64_char_ok [OF assms(1)] b64_char_ok [OF assms(2)] b64_char_ok [OF assms(3)] b64_char_ok [OF assms(4)]
  have full: "gather (Suc (Suc (Suc (Suc 0)))) w str = (4, w, str)" for w by (cases str) (simp_all add: numeral_eq_Suc)
  show "gather 0 0 (b64_char x # b64_char y # 0x3D # str) = (2, w2, [])"
    using ok by (simp add: w2_def)
  show "gather 0 0 (b64_char x # b64_char y # b64_char z # 0x3D # str) = (3, push_bit 6 w2 OR ucast z, [])"
    using ok by (simp add: w2_def)
  show "gather 0 0 (b64_char x # b64_char y # b64_char z # b64_char u # str) = (4, push_bit 6 (push_bit 6 w2 OR ucast z) OR ucast u, str)"
    using ok full by (simp add: w2_def)
qed

text \<open>Decoding base 64 gives back the bytes that were encoded, for every number of bytes.\<close>

theorem base64_roundtrip: "base64_decode (base64_encode s) = s"
proof (induction s rule: base64_encode.induct)
  case 1
  then show ?case by (simp add: base64_decode.simps)
next
  case (2 a)
  have g: "gather 0 0 (base64_encode [a]) = (2, push_bit 6 (ucast (drop_bit 2 a)) OR ucast (push_bit 4 (take_bit 2 a)), [])"
    unfolding base64_encode.simps by (rule gather_chars(1) [OF b64_small(1,2) b64_small(1,1)])
  show ?case
    by (subst base64_decode.simps) (simp only: g prod.case, simp add: base64_decode.simps [of "[]"] b64_join Let_def del: push_bit_or push_bit_push_bit drop_bit_or)
next
  case (3 a b)
  note g = gather_chars(2) [OF b64_small(1) [of a] b64_small(3) [of a b] b64_small(4) [of b] b64_small(1) [of a]]
  show ?case
    unfolding base64_encode.simps
    by (subst base64_decode.simps) (simp only: g prod.case, simp add: base64_decode.simps [of "[]"] b64_join Let_def del: push_bit_or push_bit_push_bit drop_bit_or)
next
  case (4 a b c r)
  note g = gather_chars(3) [OF b64_small(1) [of a] b64_small(3) [of a b] b64_small(5) [of b c] b64_small(6) [of c]]
  show ?case
    unfolding base64_encode.simps
    by (subst base64_decode.simps) (simp only: g prod.case, simp add: 4 b64_join Let_def del: push_bit_or push_bit_push_bit drop_bit_or)
qed

section \<open>Percent encoding\<close>

definition hex_char :: "byte \<Rightarrow> byte" where
  "hex_char d = (if d < 10 then 0x30 + d else 0x41 + (d - 10))"

text \<open>An encoder that leaves the bytes accepted by \<open>safe\<close> as they are, except for the percent sign itself.\<close>

definition urlencode :: "(byte \<Rightarrow> bool) \<Rightarrow> byte list \<Rightarrow> byte list" where
  "urlencode safe s =
     concat (map (\<lambda>c. if safe c \<and> c \<noteq> 0x25 then [c] else [0x25, hex_char (drop_bit 4 c), hex_char (take_bit 4 c)]) s)"

lemma hex_char_ok:
  assumes "(d :: byte) < 16"
  shows "isxdigit (hex_char d) \<and> xdigit (hex_char d) = d"
proof -
  let ?P = "\<lambda>n. isxdigit (hex_char (word_of_nat n)) \<and> xdigit (hex_char (word_of_nat n)) = word_of_nat n"
  have "list_all ?P [0..<16]" by code_simp
  moreover have "unat d < 16" using assms by (simp add: word_less_nat_alt)
  ultimately have "?P (unat d)" unfolding list_all_iff by (metis atLeastLessThan_iff set_upt zero_le)
  then show ?thesis by simp
qed

lemma nibbles:
  fixes c :: byte
  shows "drop_bit 4 c < 16" "take_bit 4 c < 16" "push_bit 4 (drop_bit 4 c) OR take_bit 4 c = c"
proof -
  have less: "x < 16" if "take_bit 4 x = x" for x :: byte
  proof -
    have "unat (take_bit 4 x) < 16" unfolding unsigned_take_bit_eq by (simp add: take_bit_eq_mod)
    then show ?thesis using that by (simp add: word_less_nat_alt)
  qed
  show "drop_bit 4 c < 16" by (rule less, rule byte_bits_eqI; simp add: bit_simps byte_bit_high)
  show "take_bit 4 c < 16" by (rule less) simp
  show "push_bit 4 (drop_bit 4 c) OR take_bit 4 c = c" by (rule byte_bits_eqI; simp add: bit_simps byte_bit_high)
qed

lemma urldecode_plain: "c \<noteq> 0x25 \<Longrightarrow> urldecode (c # s) = c # urldecode s"
  by (cases "c # s" rule: urldecode.cases) auto

text \<open>Decoding percent signs undoes an encoder that escapes at least the percent sign.\<close>

theorem urldecode_urlencode: "urldecode (urlencode safe s) = s"
proof (induction s)
  case (Cons c s)
  show ?case
  proof (cases "safe c \<and> c \<noteq> 0x25")
    case True
    then show ?thesis using Cons urldecode_plain [of c "urlencode safe s"] by (simp add: urlencode_def)
  next
    case False
    then have "urlencode safe (c # s) = 0x25 # hex_char (drop_bit 4 c) # hex_char (take_bit 4 c) # urlencode safe s"
      by (auto simp: urlencode_def)
    then show ?thesis using Cons hex_char_ok [OF nibbles(1) [of c]] hex_char_ok [OF nibbles(2) [of c]] nibbles(3) [of c] by simp
  qed
qed (simp add: urlencode_def)

end
