(* ===== verification/Tar.thy ===== *)
theory Tar
  imports TarNumber
begin

text \<open>
  libtar, reading archives: \<open>checksum.c\<close>, \<open>read_sparse_map.c\<close>, \<open>read_sparse_map_old.c\<close>, \<open>read_sparse_map_new.c\<close>,
  \<open>record_to_memory.c\<close>, \<open>pax_header.c\<close> and \<open>read_header.c\<close>.

  A header on disk is a record of its fields, each a list of bytes; \<open>header_of_bytes\<close> and \<open>header_bytes\<close> lay the
  structure over the 512 bytes of a block. The loops that read from a stream until the archive says stop are partial
  functions, \<^const>\<open>None\<close> standing for a call that does not return. \<open>mem n\<close> tells whether an allocation of \<open>n\<close> bytes succeeds.
\<close>

section \<open>Headers\<close>

record tar_header =
  h_name :: "byte list"
  h_mode :: "byte list"
  h_uid :: "byte list"
  h_gid :: "byte list"
  h_size :: "byte list"
  h_mtime :: "byte list"
  h_chksum :: "byte list"
  h_typeflag :: byte
  h_linkname :: "byte list"
  h_magic :: "byte list"
  h_version :: "byte list"
  h_uname :: "byte list"
  h_gname :: "byte list"
  h_devmajor :: "byte list"
  h_devminor :: "byte list"
  h_tail :: "byte list"

definition slice :: "nat \<Rightarrow> nat \<Rightarrow> byte list \<Rightarrow> byte list" where
  "slice off n b = take n (drop off b)"

definition header_of_bytes :: "byte list \<Rightarrow> tar_header" where
  "header_of_bytes b =
     \<lparr>h_name = slice 0 100 b, h_mode = slice 100 8 b, h_uid = slice 108 8 b, h_gid = slice 116 8 b, h_size = slice 124 12 b,
      h_mtime = slice 136 12 b, h_chksum = slice 148 8 b, h_typeflag = b ! 156, h_linkname = slice 157 100 b,
      h_magic = slice 257 6 b, h_version = slice 263 2 b, h_uname = slice 265 32 b, h_gname = slice 297 32 b,
      h_devmajor = slice 329 8 b, h_devminor = slice 337 8 b, h_tail = slice 345 167 b\<rparr>"

definition header_bytes :: "tar_header \<Rightarrow> byte list" where
  "header_bytes h =
     h_name h @ h_mode h @ h_uid h @ h_gid h @ h_size h @ h_mtime h @ h_chksum h @ [h_typeflag h] @ h_linkname h @
     h_magic h @ h_version h @ h_uname h @ h_gname h @ h_devmajor h @ h_devminor h @ h_tail h"

text \<open>The two layouts of the tail.\<close>

definition h_prefix :: "tar_header \<Rightarrow> byte list" where
  "h_prefix h = slice 0 155 (h_tail h)"

definition h_sparse :: "tar_header \<Rightarrow> (byte list \<times> byte list) list" where
  "h_sparse h = map (\<lambda>i. (slice (41 + 24 * i) 12 (h_tail h), slice (53 + 24 * i) 12 (h_tail h))) [0..<4]"

definition h_isextended :: "tar_header \<Rightarrow> byte" where
  "h_isextended h = h_tail h ! 137"

definition h_realsize :: "tar_header \<Rightarrow> byte list" where
  "h_realsize h = slice 138 12 (h_tail h)"

definition get_checksum :: "tar_header \<Rightarrow> nat" where
  "get_checksum h = u32 (sum_list (map unat (header_bytes (h\<lparr>h_chksum := replicate 8 0x20\<rparr>))))"

definition is_checksum_valid :: "tar_header \<Rightarrow> bool" where
  "is_checksum_valid h =
     (case read_octal (h_chksum h) of None \<Rightarrow> False | Some read_chksum \<Rightarrow> read_chksum = get_checksum h)"

section \<open>Sparse maps\<close>

record sparse_map =
  sp_offset :: nat
  sp_count :: nat

text \<open>\<open>read_sparse_map\<close>: pairs of decimal numbers, separated by commas. \<^const>\<open>None\<close> is \<open>NULL\<close>.\<close>

function read_sparse_map :: "(nat \<Rightarrow> bool) \<Rightarrow> byte list \<Rightarrow> sparse_map list option" where
  "read_sparse_map mem line =
     (if \<not> mem 24 then None
      else case pax_read_decimal line of
          None \<Rightarrow> None
        | Some off \<Rightarrow>
            (case dropWhile isdigit line of
               [] \<Rightarrow> None
             | c # line1 \<Rightarrow>
                 if c \<noteq> 0x2C then None
                 else case pax_read_decimal line1 of
                     None \<Rightarrow> None
                   | Some cnt \<Rightarrow>
                       let ent = \<lparr>sp_offset = off, sp_count = cnt\<rparr> in
                       (case dropWhile isdigit line1 of
                          [] \<Rightarrow> Some [ent]
                        | c # line2 \<Rightarrow>
                            if c = 0x2C then map_option ((#) ent) (read_sparse_map mem line2) else Some [ent])))"
  by pat_completeness auto
termination
proof (relation "measure (\<lambda>(mem, line). length line)", goal_cases)
  case (2 mem line off c line1 cnt ent c' line2)
  have "length (c # line1) \<le> length line" "length (c' # line2) \<le> length line1"
    using length_dropWhile_le [of isdigit line] length_dropWhile_le [of isdigit line1] 2 by simp_all
  then show ?case by simp
qed simp

declare read_sparse_map.simps [simp del]

text \<open>The table of offsets and sizes of the old GNU format; it ends at the first entry without digits.\<close>

fun sparse_entries :: "(nat \<Rightarrow> bool) \<Rightarrow> (byte list \<times> byte list) list \<Rightarrow> sparse_map list option" where
  "sparse_entries mem [] = Some []"
| "sparse_entries mem ((off, num) # es) =
     (if \<not> isdigit (hd off) \<or> \<not> isdigit (hd num) then Some []
      else case read_octal off of
          None \<Rightarrow> None
        | Some off \<Rightarrow>
            (case read_octal num of
               None \<Rightarrow> None
             | Some sz \<Rightarrow>
                 if \<not> mem 24 then None
                 else map_option ((#) \<lparr>sp_offset = off, sp_count = sz\<rparr>) (sparse_entries mem es)))"

partial_function (option) old_sparse_loop ::
  "(nat \<Rightarrow> bool) \<Rightarrow> 's precache \<Rightarrow> 's istream \<Rightarrow> sparse_map list \<Rightarrow> (sparse_map list option \<times> 's istream) option" where
  "old_sparse_loop mem pc fp list =
     (case istream_read pc fp 512 of
        (None, fp) \<Rightarrow> Some (None, fp)
      | (Some sph, fp) \<Rightarrow>
          if length sph < 512 then Some (None, fp)
          else case sparse_entries mem (map (\<lambda>i. (slice (24 * i) 12 sph, slice (24 * i + 12) 12 sph)) [0..<21]) of
              None \<Rightarrow> Some (None, fp)
            | Some es \<Rightarrow>
                if sph ! 504 \<noteq> 0 then old_sparse_loop mem pc fp (list @ es)
                else Some (Some (list @ es), fp))"

definition read_gnu_old_sparse ::
  "(nat \<Rightarrow> bool) \<Rightarrow> 's precache \<Rightarrow> 's istream \<Rightarrow> tar_header \<Rightarrow> (sparse_map list option \<times> 's istream) option" where
  "read_gnu_old_sparse mem pc fp hdr =
     (case sparse_entries mem (h_sparse hdr) of
        None \<Rightarrow> Some (None, fp)
      | Some es \<Rightarrow>
          if h_isextended hdr = 0 then Some (Some es, fp) else old_sparse_loop mem pc fp es)"

text \<open>\<open>decode\<close> of \<open>read_sparse_map_new.c\<close> on a buffer: how many bytes the number and the newline behind it take (0: there is
  not enough data; negative: an error), and the number.\<close>

fun decode_digits :: "nat \<Rightarrow> nat \<Rightarrow> byte list \<Rightarrow> (nat \<times> nat \<times> byte list) option" where
  "decode_digits count out [] = Some (count, out, [])"
| "decode_digits count out (c # str) =
     (if isdigit c then
        (if max64 \<le> out * 10 \<or> max64 \<le> out * 10 + (unat c - 0x30) then None
         else decode_digits (count + 1) (out * 10 + (unat c - 0x30)) str)
      else Some (count, out, c # str))"

definition decode :: "byte list \<Rightarrow> int \<times> nat" where
  "decode str =
     (case decode_digits 0 0 str of
        None \<Rightarrow> (-1, 0)
      | Some (count, out, rest) \<Rightarrow>
          if count = 0 \<or> count = length str then (0, out)
          else if hd rest = 0x0A then (int count + 1, out) else (-1, out))"

record tar_xattr =
  xa_key :: "byte list"
  xa_value :: "byte list"

record tar_header_decoded =
  st_mode :: nat
  st_uid :: nat
  st_gid :: nat
  st_rdev :: nat
  st_mtime :: int
  sb_size :: nat
  d_name :: "byte list option"
  d_link_target :: "byte list option"
  d_sparse :: "sparse_map list"
  actual_size :: nat
  record_size :: nat
  unknown_record :: bool
  is_hard_link :: bool
  xattr :: "tar_xattr list"
  d_mtime :: int

text \<open>The cleared structure.\<close>

definition no_header :: tar_header_decoded where
  "no_header =
     \<lparr>st_mode = 0, st_uid = 0, st_gid = 0, st_rdev = 0, st_mtime = 0, sb_size = 0, d_name = None, d_link_target = None,
      d_sparse = [], actual_size = 0, record_size = 0, unknown_record = False, is_hard_link = False, xattr = [], d_mtime = 0\<rparr>"

text \<open>The loop over the \<open>2 * count\<close> numbers of a sparse map in the GNU 1.0 format: \<open>buffer\<close> holds 512 bytes, of which
  the first \<open>diff\<close> are used up. An entry is allocated for every second number. A number that runs over the end of the buffer makes it read the next block. The
  result is the list of numbers.\<close>

fun new_sparse_loop ::
  "(nat \<Rightarrow> bool) \<Rightarrow> 's precache \<Rightarrow> 's istream \<Rightarrow> nat \<Rightarrow> byte list \<Rightarrow> nat \<Rightarrow> nat
     \<Rightarrow> nat list option \<times> nat \<times> 's istream" where
  "new_sparse_loop mem pc fp 0 buf diff rsize = (Some [], rsize, fp)"
| "new_sparse_loop mem pc fp (Suc i) buf diff rsize =
     (case decode (drop diff buf) of
        (ret, v) \<Rightarrow>
          if ret < 0 then (None, rsize, fp)
          else if ret > 0 then
            (if odd i \<and> \<not> mem 24 then (None, rsize, fp)
             else case new_sparse_loop mem pc fp i buf (diff + nat ret) rsize of
               (r, rsize, fp) \<Rightarrow> (map_option ((#) v) r, rsize, fp))
          else if rsize < 512 then (None, rsize, fp)
          else case istream_read pc fp 512 of
              (None, fp) \<Rightarrow> (None, rsize, fp)
            | (Some blk, fp) \<Rightarrow>
                if length blk < 512 then (None, rsize, fp)
                else case decode (drop diff (buf @ blk)) of
                    (ret, v) \<Rightarrow>
                      if ret \<le> 0 then (None, rsize, fp)
                      else if odd i \<and> \<not> mem 24 then (None, rsize - 512, fp)
                      else case new_sparse_loop mem pc fp i blk (nat (int diff + ret - 512)) (rsize - 512) of
                          (r, rsize, fp) \<Rightarrow> (map_option ((#) v) r, rsize, fp))"

fun pair_up :: "nat list \<Rightarrow> sparse_map list" where
  "pair_up (off # cnt # ns) = \<lparr>sp_offset = off, sp_count = cnt\<rparr> # pair_up ns"
| "pair_up _ = []"

definition TAR_MAX_SPARSE_ENT :: nat where
  "TAR_MAX_SPARSE_ENT = 65536"

definition read_gnu_new_sparse ::
  "(nat \<Rightarrow> bool) \<Rightarrow> 's precache \<Rightarrow> 's istream \<Rightarrow> tar_header_decoded
     \<Rightarrow> sparse_map list option \<times> tar_header_decoded \<times> 's istream" where
  "read_gnu_new_sparse mem pc fp out =
     (if record_size out < 512 then (None, out, fp)
      else case istream_read pc fp 512 of
          (None, fp) \<Rightarrow> (None, out, fp)
        | (Some buf, fp) \<Rightarrow>
            if length buf < 512 then (None, out, fp)
            else case decode buf of
                (diff, count) \<Rightarrow>
                  if diff \<le> 0 then (None, out, fp)
                  else let rsize = record_size out - 512 in
                    if count = 0 \<or> count > TAR_MAX_SPARSE_ENT then (None, out\<lparr>record_size := rsize\<rparr>, fp)
                    else case new_sparse_loop mem pc fp (2 * count) buf (nat diff) rsize of
                        (r, rsize, fp) \<Rightarrow> (map_option pair_up r, out\<lparr>record_size := rsize\<rparr>, fp))"

section \<open>Records\<close>

definition TAR_RECORD_SIZE :: nat where
  "TAR_RECORD_SIZE = 512"

definition skip_padding :: "'s precache \<Rightarrow> 's istream \<Rightarrow> nat \<Rightarrow> (unit, 's istream) io" where
  "skip_padding pc fp sz = (let tail = sz mod 512 in if tail \<noteq> 0 then istream_skip pc fp (512 - tail) else (Some (), fp))"

definition skip_entry :: "'s precache \<Rightarrow> 's istream \<Rightarrow> nat \<Rightarrow> (unit, 's istream) io" where
  "skip_entry pc fp sz =
     (let tail = sz mod 512 in istream_skip pc fp (if tail \<noteq> 0 then sub64 (add64 sz 512) tail else sz))"

definition record_to_memory :: "(nat \<Rightarrow> bool) \<Rightarrow> 's precache \<Rightarrow> 's istream \<Rightarrow> nat \<Rightarrow> (byte list, 's istream) io" where
  "record_to_memory mem pc fp sz =
     (if \<not> mem (sz + 1) then (None, fp)
      else case istream_read pc fp sz of
          (None, fp) \<Rightarrow> (None, fp)
        | (Some buf, fp) \<Rightarrow>
            if length buf < sz then (None, fp)
            else case skip_padding pc fp sz of
                (None, fp) \<Rightarrow> (None, fp)
              | (Some _, fp) \<Rightarrow> (Some buf, fp))"

section \<open>Extended headers\<close>

datatype pax_flag =
  PAX_SIZE | PAX_UID | PAX_GID | PAX_DEV_MAJ | PAX_DEV_MIN | PAX_NAME | PAX_SLINK_TARGET | PAX_MTIME | PAX_SPARSE_SIZE
  | PAX_SPARSE_GNU_1_X

text \<open>The type of a field and the callback that takes its value.\<close>

datatype pax_handler =
    PAX_TYPE_SINT "tar_header_decoded \<Rightarrow> int \<Rightarrow> tar_header_decoded"
  | PAX_TYPE_UINT "tar_header_decoded \<Rightarrow> nat \<Rightarrow> tar_header_decoded"
  | PAX_TYPE_STRING "tar_header_decoded \<Rightarrow> byte list \<Rightarrow> tar_header_decoded"
  | PAX_TYPE_PREFIXED_XATTR "tar_header_decoded \<Rightarrow> tar_xattr \<Rightarrow> tar_header_decoded"
  | PAX_TYPE_IGNORE

definition pax_uid :: "tar_header_decoded \<Rightarrow> nat \<Rightarrow> tar_header_decoded" where
  "pax_uid out v = out\<lparr>st_uid := u32 v\<rparr>"

definition pax_gid :: "tar_header_decoded \<Rightarrow> nat \<Rightarrow> tar_header_decoded" where
  "pax_gid out v = out\<lparr>st_gid := u32 v\<rparr>"

definition pax_size :: "tar_header_decoded \<Rightarrow> nat \<Rightarrow> tar_header_decoded" where
  "pax_size out sz = out\<lparr>record_size := sz\<rparr>"

definition pax_mtime :: "tar_header_decoded \<Rightarrow> int \<Rightarrow> tar_header_decoded" where
  "pax_mtime out t = out\<lparr>d_mtime := t\<rparr>"

definition pax_rsize :: "tar_header_decoded \<Rightarrow> nat \<Rightarrow> tar_header_decoded" where
  "pax_rsize out sz = out\<lparr>actual_size := sz\<rparr>"

definition pax_path :: "tar_header_decoded \<Rightarrow> byte list \<Rightarrow> tar_header_decoded" where
  "pax_path out path = out\<lparr>d_name := Some path\<rparr>"

definition pax_slink :: "tar_header_decoded \<Rightarrow> byte list \<Rightarrow> tar_header_decoded" where
  "pax_slink out path = out\<lparr>d_link_target := Some path\<rparr>"

definition pax_xattr_schily :: "tar_header_decoded \<Rightarrow> tar_xattr \<Rightarrow> tar_header_decoded" where
  "pax_xattr_schily out x = out\<lparr>xattr := x # xattr out\<rparr>"

definition pax_xattr_libarchive :: "tar_header_decoded \<Rightarrow> tar_xattr \<Rightarrow> tar_header_decoded" where
  "pax_xattr_libarchive out x =
     out\<lparr>xattr := \<lparr>xa_key = urldecode (xa_key x), xa_value = base64_decode (xa_value x)\<rparr> # xattr out\<rparr>"

definition ascii :: "string \<Rightarrow> byte list" where
  "ascii s = map of_char s"

definition pax_fields :: "(byte list \<times> pax_flag option \<times> pax_handler) list" where
  "pax_fields =
     [(ascii ''uid'', Some PAX_UID, PAX_TYPE_UINT pax_uid),
      (ascii ''gid'', Some PAX_GID, PAX_TYPE_UINT pax_gid),
      (ascii ''path'', Some PAX_NAME, PAX_TYPE_STRING pax_path),
      (ascii ''size'', Some PAX_SIZE, PAX_TYPE_UINT pax_size),
      (ascii ''linkpath'', Some PAX_SLINK_TARGET, PAX_TYPE_STRING pax_slink),
      (ascii ''mtime'', Some PAX_MTIME, PAX_TYPE_SINT pax_mtime),
      (ascii ''GNU.sparse.name'', Some PAX_NAME, PAX_TYPE_STRING pax_path),
      (ascii ''GNU.sparse.size'', Some PAX_SPARSE_SIZE, PAX_TYPE_UINT pax_rsize),
      (ascii ''GNU.sparse.realsize'', Some PAX_SPARSE_SIZE, PAX_TYPE_UINT pax_rsize),
      (ascii ''GNU.sparse.major'', Some PAX_SPARSE_GNU_1_X, PAX_TYPE_IGNORE),
      (ascii ''GNU.sparse.minor'', Some PAX_SPARSE_GNU_1_X, PAX_TYPE_IGNORE),
      (ascii ''SCHILY.xattr'', None, PAX_TYPE_PREFIXED_XATTR pax_xattr_schily),
      (ascii ''LIBARCHIVE.xattr'', None, PAX_TYPE_PREFIXED_XATTR pax_xattr_libarchive)]"

fun handler_loop :: "byte list \<Rightarrow> (byte list \<times> pax_flag option \<times> pax_handler) list
    \<Rightarrow> (byte list \<times> pax_flag option \<times> pax_handler) option" where
  "handler_loop key [] = None"
| "handler_loop key ((field, flag, h) # tab) =
     (if (case h of
            PAX_TYPE_PREFIXED_XATTR _ \<Rightarrow>
              take (length field) key = field \<and> length field < length key \<and> key ! length field = 0x2E
          | _ \<Rightarrow> key = field)
      then Some (field, flag, h)
      else handler_loop key tab)"

definition find_handler :: "byte list \<Rightarrow> (byte list \<times> pax_flag option \<times> pax_handler) option" where
  "find_handler key = handler_loop key pax_fields"

definition mkxattr :: "(nat \<Rightarrow> bool) \<Rightarrow> byte list \<Rightarrow> byte list \<Rightarrow> tar_xattr option" where
  "mkxattr mem key val = (if mem (34 + length key + length val) then Some \<lparr>xa_key = key, xa_value = val\<rparr> else None)"

text \<open>Conversion of a \<open>uint64_t\<close> to \<open>int64_t\<close>.\<close>

definition s64 :: "nat \<Rightarrow> int" where
  "s64 u = (if u < 2 ^ 63 then int u else int u - 2 ^ 64)"

text \<open>\<open>val\<close> is the value with its length; the callbacks for strings and numbers see it up to the first zero byte.\<close>

definition apply_handler ::
  "(nat \<Rightarrow> bool) \<Rightarrow> tar_header_decoded \<Rightarrow> byte list \<times> pax_flag option \<times> pax_handler \<Rightarrow> byte list \<Rightarrow> byte list
     \<Rightarrow> tar_header_decoded option" where
  "apply_handler mem out field key val =
     (case field of (fname, _, h) \<Rightarrow>
        (case h of
           PAX_TYPE_SINT cb \<Rightarrow>
             (if val \<noteq> [] \<and> hd val = 0x2D
              then map_option (\<lambda>u. cb out (- s64 u)) (pax_read_decimal (tl val))
              else map_option (\<lambda>u. cb out (s64 u)) (pax_read_decimal val))
         | PAX_TYPE_UINT cb \<Rightarrow> map_option (cb out) (pax_read_decimal val)
         | PAX_TYPE_STRING cb \<Rightarrow> if mem (length (cstr val) + 1) then Some (cb out (cstr val)) else None
         | PAX_TYPE_PREFIXED_XATTR cb \<Rightarrow> map_option (cb out) (mkxattr mem (drop (length fname + 1) key) val)
         | PAX_TYPE_IGNORE \<Rightarrow> Some out))"

text \<open>\<open>strtol\<close> with base 10: the value and the number of bytes it took, 0 if there is no number. The value saturates.\<close>

definition digits_value :: "byte list \<Rightarrow> nat" where
  "digits_value ds = foldl (\<lambda>r c. r * 10 + (unat c - 0x30)) 0 ds"

definition strtol :: "byte list \<Rightarrow> int \<times> nat" where
  "strtol line =
     (let sp = length (takeWhile isspace line);
          r = drop sp line;
          neg = (r \<noteq> [] \<and> hd r = 0x2D);
          sg = (if r \<noteq> [] \<and> (hd r = 0x2D \<or> hd r = 0x2B) then 1 else 0);
          ds = takeWhile isdigit (drop sg r);
          v = int (digits_value ds)
      in if ds = [] then (0, 0)
         else (if neg then max (- v) (- (2 ^ 63)) else min v (2 ^ 63 - 1), sp + sg + length ds))"

text \<open>One record of a PAX header, at the start of \<open>line\<close>, the rest of the buffer: the key, the value and the length of the record.
  The source puts a zero byte over the last byte of the record, so only the bytes before it count.\<close>

datatype pax_error = PaxMalformed | PaxOverflow | PaxFail

definition pax_record :: "byte list \<Rightarrow> pax_error + (byte list \<times> byte list \<times> nat)" where
  "pax_record line =
     (case strtol line of
        (len, p) \<Rightarrow>
          if p = 0 \<or> length line \<le> p \<or> \<not> isspace (line ! p) \<or> len \<le> 0 then Inl PaxMalformed
          else if int (length line) < len then Inl PaxOverflow
          else if nat len \<le> p then Inl PaxMalformed
          else let body = dropWhile isspace (drop p (take (nat len - 1) line));
                   key = takeWhile (\<lambda>c. c \<noteq> 0 \<and> c \<noteq> 0x3D) body
            in if key = [] \<or> length body \<le> length key \<or> body ! length key \<noteq> 0x3D then Inl PaxMalformed
               else Inr (key, drop (length key + 1) body, nat len))"

record pax_state =
  px_out :: tar_header_decoded
  px_set :: "pax_flag set"
  px_last :: bool
  px_offset :: nat

text \<open>\<open>px_last\<close> stands for \<open>sparse_last != NULL\<close>: the last entry of the list in \<open>out\<close>.\<close>

definition pax_field :: "(nat \<Rightarrow> bool) \<Rightarrow> pax_state \<Rightarrow> byte list \<Rightarrow> byte list \<Rightarrow> pax_state option" where
  "pax_field mem st key val =
     (case find_handler key of
        Some (fname, flag, h) \<Rightarrow>
          map_option (\<lambda>out. st\<lparr>px_out := out, px_set := px_set st \<union> set_option flag\<rparr>)
            (apply_handler mem (px_out st) (fname, flag, h) key val)
      | None \<Rightarrow>
          if key = ascii ''GNU.sparse.map'' then
            map_option (\<lambda>l. st\<lparr>px_out := (px_out st)\<lparr>d_sparse := l\<rparr>, px_last := False\<rparr>) (read_sparse_map mem (cstr val))
          else if key = ascii ''GNU.sparse.offset'' then
            map_option (\<lambda>off. st\<lparr>px_offset := off\<rparr>) (pax_read_decimal val)
          else if key = ascii ''GNU.sparse.numbytes'' then
            (case pax_read_decimal val of
               None \<Rightarrow> None
             | Some n \<Rightarrow>
                 if \<not> mem 24 then None
                 else let ent = \<lparr>sp_offset = px_offset st, sp_count = n\<rparr> in
                   Some (st\<lparr>px_out := (px_out st)\<lparr>d_sparse := (if px_last st then d_sparse (px_out st) @ [ent] else [ent])\<rparr>,
                            px_last := True\<rparr>))
          else Some st)"

lemma pax_record_length: "pax_record line = Inr (key, val, len) \<Longrightarrow> 0 < len \<and> len \<le> length line"
  by (auto simp: pax_record_def Let_def split: prod.splits if_splits)

function pax_loop :: "(nat \<Rightarrow> bool) \<Rightarrow> pax_state \<Rightarrow> byte list \<Rightarrow> pax_state option" where
  "pax_loop mem st line =
     (if line = [] then Some st
      else case pax_record line of
          Inl _ \<Rightarrow> None
        | Inr (key, val, len) \<Rightarrow>
            (case pax_field mem st key val of None \<Rightarrow> None | Some st \<Rightarrow> pax_loop mem st (drop len line)))"
  by pat_completeness auto
termination
  by (relation "measure (\<lambda>(mem, st, line). length line)") (auto dest: pax_record_length)

declare pax_loop.simps [simp del]

definition read_pax_header ::
  "(nat \<Rightarrow> bool) \<Rightarrow> 's precache \<Rightarrow> 's istream \<Rightarrow> nat \<Rightarrow> pax_flag set \<Rightarrow> tar_header_decoded
     \<Rightarrow> ((pax_flag set \<times> tar_header_decoded), 's istream) io" where
  "read_pax_header mem pc fp entsize set_by_pax out =
     (case record_to_memory mem pc fp entsize of
        (None, fp) \<Rightarrow> (None, fp)
      | (Some buf, fp) \<Rightarrow>
          (map_option (\<lambda>st. (px_set st, px_out st))
             (pax_loop mem \<lparr>px_out = out, px_set = set_by_pax, px_last = False, px_offset = 0\<rparr> buf), fp))"

section \<open>Reading a header\<close>

definition is_zero_block :: "byte list \<Rightarrow> bool" where
  "is_zero_block b \<longleftrightarrow> b ! 0 = 0 \<and> take 511 b = take 511 (drop 1 b)"

datatype tar_version = ETV_UNKNOWN | ETV_V7_UNIX | ETV_PRE_POSIX | ETV_POSIX

definition check_version :: "tar_header \<Rightarrow> tar_version" where
  "check_version hdr =
     (if h_magic hdr = zeros 6 \<and> h_version hdr = zeros 2 then ETV_V7_UNIX
      else if h_magic hdr = ascii ''ustar'' @ [0] \<and> h_version hdr = ascii ''00'' then ETV_POSIX
      else if h_magic hdr = ascii ''ustar '' \<and> h_version hdr = ascii '' '' @ [0] then ETV_PRE_POSIX
      else ETV_UNKNOWN)"

text \<open>\<open>makedev\<close>, \<open>major\<close> and \<open>minor\<close> of the C library. The arguments of \<open>makedev\<close> have 32 bits.\<close>

definition makedev :: "nat \<Rightarrow> nat \<Rightarrow> nat" where
  "makedev maj mnr =
     (let maj = u32 maj; mnr = u32 mnr
      in mnr mod 0x100 + maj mod 0x1000 * 2 ^ 8 + mnr div 0x100 * 2 ^ 20 + maj div 0x1000 * 2 ^ 44)"

definition major :: "nat \<Rightarrow> nat" where
  "major dev = dev div 2 ^ 8 mod 0x1000 + dev div 2 ^ 44 mod 2 ^ 20 * 0x1000"

definition minor :: "nat \<Rightarrow> nat" where
  "minor dev = dev mod 0x100 + dev div 2 ^ 20 mod 2 ^ 24 * 0x100"

definition S_IFMT :: nat where "S_IFMT = 0xF000"
definition S_IFIFO :: nat where "S_IFIFO = 0x1000"
definition S_IFCHR :: nat where "S_IFCHR = 0x2000"
definition S_IFDIR :: nat where "S_IFDIR = 0x4000"
definition S_IFBLK :: nat where "S_IFBLK = 0x6000"
definition S_IFREG :: nat where "S_IFREG = 0x8000"
definition S_IFLNK :: nat where "S_IFLNK = 0xA000"
definition S_IFSOCK :: nat where "S_IFSOCK = 0xC000"

definition TAR_TYPE_FILE :: byte where "TAR_TYPE_FILE = 0x30"
definition TAR_TYPE_LINK :: byte where "TAR_TYPE_LINK = 0x31"
definition TAR_TYPE_SLINK :: byte where "TAR_TYPE_SLINK = 0x32"
definition TAR_TYPE_CHARDEV :: byte where "TAR_TYPE_CHARDEV = 0x33"
definition TAR_TYPE_BLOCKDEV :: byte where "TAR_TYPE_BLOCKDEV = 0x34"
definition TAR_TYPE_DIR :: byte where "TAR_TYPE_DIR = 0x35"
definition TAR_TYPE_FIFO :: byte where "TAR_TYPE_FIFO = 0x36"
definition TAR_TYPE_GNU_SLINK :: byte where "TAR_TYPE_GNU_SLINK = 0x4B"
definition TAR_TYPE_GNU_PATH :: byte where "TAR_TYPE_GNU_PATH = 0x4C"
definition TAR_TYPE_GNU_SPARSE :: byte where "TAR_TYPE_GNU_SPARSE = 0x53"
definition TAR_TYPE_PAX :: byte where "TAR_TYPE_PAX = 0x78"
definition TAR_TYPE_PAX_GLOBAL :: byte where "TAR_TYPE_PAX_GLOBAL = 0x67"

text \<open>The name of an entry as \<open>decode_header\<close> builds it.\<close>

definition decode_name :: "tar_header \<Rightarrow> tar_version \<Rightarrow> byte list" where
  "decode_name hdr version =
     (if h_prefix hdr ! 0 \<noteq> 0 \<and> version = ETV_POSIX then cstr (h_prefix hdr) @ [0x2F] @ cstr (h_name hdr)
      else cstr (h_name hdr))"

text \<open>The fields with numbers, unless a PAX header has set them.\<close>

definition decode_numbers :: "tar_header \<Rightarrow> pax_flag set \<Rightarrow> tar_header_decoded \<Rightarrow> tar_header_decoded option" where
  "decode_numbers hdr set_by_pax out =
     (case (if PAX_SIZE \<in> set_by_pax then Some out
            else map_option (\<lambda>v. out\<lparr>record_size := v\<rparr>) (read_number (h_size hdr))) of
        None \<Rightarrow> None
      | Some out \<Rightarrow>
     (case (if PAX_UID \<in> set_by_pax then Some out
            else map_option (\<lambda>v. out\<lparr>st_uid := u32 v\<rparr>) (read_number (h_uid hdr))) of
        None \<Rightarrow> None
      | Some out \<Rightarrow>
     (case (if PAX_GID \<in> set_by_pax then Some out
            else map_option (\<lambda>v. out\<lparr>st_gid := u32 v\<rparr>) (read_number (h_gid hdr))) of
        None \<Rightarrow> None
      | Some out \<Rightarrow>
     (case (if PAX_DEV_MAJ \<in> set_by_pax then Some out
            else map_option (\<lambda>v. out\<lparr>st_rdev := makedev v (minor (st_rdev out))\<rparr>) (read_number (h_devmajor hdr))) of
        None \<Rightarrow> None
      | Some out \<Rightarrow>
     (case (if PAX_DEV_MIN \<in> set_by_pax then Some out
            else map_option (\<lambda>v. out\<lparr>st_rdev := makedev (major (st_rdev out)) v\<rparr>) (read_number (h_devminor hdr))) of
        None \<Rightarrow> None
      | Some out \<Rightarrow>
     (case (if PAX_MTIME \<in> set_by_pax then Some out
            else map_option (\<lambda>v. out\<lparr>d_mtime := signed_field v\<rparr>) (read_number (h_mtime hdr))) of
        None \<Rightarrow> None
      | Some out \<Rightarrow> map_option (\<lambda>v. out\<lparr>st_mode := v mod 0x1000\<rparr>) (read_octal (h_mode hdr))))))))"

definition decode_type :: "byte \<Rightarrow> tar_header_decoded \<Rightarrow> tar_header_decoded" where
  "decode_type typeflag out =
     (let mode = st_mode out; out = out\<lparr>unknown_record := False\<rparr> in
      if typeflag = 0 \<or> typeflag = TAR_TYPE_FILE \<or> typeflag = TAR_TYPE_GNU_SPARSE then out\<lparr>st_mode := mode OR S_IFREG\<rparr>
      else if typeflag = TAR_TYPE_LINK then out\<lparr>is_hard_link := True\<rparr>
      else if typeflag = TAR_TYPE_SLINK then out\<lparr>st_mode := S_IFLNK OR 0x1FF\<rparr>
      else if typeflag = TAR_TYPE_CHARDEV then out\<lparr>st_mode := mode OR S_IFCHR\<rparr>
      else if typeflag = TAR_TYPE_BLOCKDEV then out\<lparr>st_mode := mode OR S_IFBLK\<rparr>
      else if typeflag = TAR_TYPE_DIR then out\<lparr>st_mode := mode OR S_IFDIR\<rparr>
      else if typeflag = TAR_TYPE_FIFO then out\<lparr>st_mode := mode OR S_IFIFO\<rparr>
      else out\<lparr>unknown_record := True\<rparr>)"

text \<open>\<open>decode_header\<close>, for a 64 bit \<open>time_t\<close>.\<close>

definition decode_header ::
  "(nat \<Rightarrow> bool) \<Rightarrow> tar_header \<Rightarrow> pax_flag set \<Rightarrow> tar_header_decoded \<Rightarrow> tar_version \<Rightarrow> tar_header_decoded option" where
  "decode_header mem hdr set_by_pax out version =
     (if PAX_NAME \<notin> set_by_pax \<and> \<not> mem (length (decode_name hdr version) + 1) then None
      else let out = (if PAX_NAME \<notin> set_by_pax then out\<lparr>d_name := Some (decode_name hdr version)\<rparr> else out) in
        case decode_numbers hdr set_by_pax out of
          None \<Rightarrow> None
        | Some out \<Rightarrow>
            let link = ((h_typeflag hdr = TAR_TYPE_LINK \<or> h_typeflag hdr = TAR_TYPE_SLINK) \<and> PAX_SLINK_TARGET \<notin> set_by_pax)
            in if link \<and> \<not> mem (length (cstr (h_linkname hdr)) + 1) then None
               else let out = (if link then out\<lparr>d_link_target := Some (cstr (h_linkname hdr))\<rparr> else out);
                        out = decode_type (h_typeflag hdr) out
                 in Some (out\<lparr>st_mtime := d_mtime out\<rparr>))"

definition TAR_MAX_SYMLINK_LEN :: nat where "TAR_MAX_SYMLINK_LEN = 65536"
definition TAR_MAX_PATH_LEN :: nat where "TAR_MAX_PATH_LEN = 65536"
definition TAR_MAX_PAX_LEN :: nat where "TAR_MAX_PAX_LEN = 65536"

datatype header_result = HdrFail | HdrEof | Hdr tar_header_decoded

text \<open>What follows the loop: decoding the header of the entry itself, and the sparse map that the data of a GNU 1.0 sparse
  file starts with.\<close>

definition finish_header ::
  "(nat \<Rightarrow> bool) \<Rightarrow> 's precache \<Rightarrow> 's istream \<Rightarrow> tar_header \<Rightarrow> pax_flag set \<Rightarrow> tar_header_decoded \<Rightarrow> header_result \<times> 's istream" where
  "finish_header mem pc fp hdr set_by_pax out =
     (case decode_header mem hdr set_by_pax out (check_version hdr) of
        None \<Rightarrow> (HdrFail, fp)
      | Some out \<Rightarrow>
          (case (if PAX_SPARSE_GNU_1_X \<in> set_by_pax
                 then (case read_gnu_new_sparse mem pc fp out of
                         (r, out, fp) \<Rightarrow> (map_option (\<lambda>l. out\<lparr>d_sparse := l\<rparr>) r, fp))
                 else (Some out, fp)) of
             (None, fp) \<Rightarrow> (HdrFail, fp)
           | (Some out, fp) \<Rightarrow>
               (Hdr (if d_sparse out \<noteq> [] then out\<lparr>sb_size := actual_size out\<rparr>
                     else out\<lparr>sb_size := record_size out, actual_size := record_size out\<rparr>), fp)))"

text \<open>A record with a long name or link target: its size is read from the header and bounded.\<close>

definition read_gnu_record ::
  "(nat \<Rightarrow> bool) \<Rightarrow> 's precache \<Rightarrow> 's istream \<Rightarrow> tar_header \<Rightarrow> nat \<Rightarrow> (byte list, 's istream) io" where
  "read_gnu_record mem pc fp hdr max_len =
     (case read_number (h_size hdr) of
        None \<Rightarrow> (None, fp)
      | Some sz \<Rightarrow> if sz < 1 \<or> sz > max_len then (None, fp) else record_to_memory mem pc fp sz)"

text \<open>One round of the loop of \<open>read_header\<close>: it is done, or it goes on with the next block.\<close>

datatype 's header_step =
    Done header_result "'s istream"
  | Next "'s istream" "pax_flag set" bool tar_header_decoded

definition header_step ::
  "(nat \<Rightarrow> bool) \<Rightarrow> 's precache \<Rightarrow> 's istream \<Rightarrow> pax_flag set \<Rightarrow> bool \<Rightarrow> tar_header_decoded \<Rightarrow> 's header_step option" where
  "header_step mem pc fp set_by_pax prev_was_zero out =
     (case istream_read pc fp 512 of
        (None, fp) \<Rightarrow> Some (Done HdrFail fp)
      | (Some b, fp) \<Rightarrow>
          if length b < 512 then Some (Done HdrEof fp)
          else if is_zero_block b then
            Some (if prev_was_zero then Done HdrEof fp else Next fp set_by_pax True out)
          else let hdr = header_of_bytes b; t = h_typeflag hdr in
            if check_version hdr = ETV_UNKNOWN \<or> \<not> is_checksum_valid hdr then Some (Done HdrFail fp)
            else if t = TAR_TYPE_GNU_SLINK then
              (case read_gnu_record mem pc fp hdr TAR_MAX_SYMLINK_LEN of
                 (None, fp) \<Rightarrow> Some (Done HdrFail fp)
               | (Some s, fp) \<Rightarrow>
                   Some (Next fp (insert PAX_SLINK_TARGET set_by_pax) False (out\<lparr>d_link_target := Some (cstr s)\<rparr>)))
            else if t = TAR_TYPE_GNU_PATH then
              (case read_gnu_record mem pc fp hdr TAR_MAX_PATH_LEN of
                 (None, fp) \<Rightarrow> Some (Done HdrFail fp)
               | (Some s, fp) \<Rightarrow> Some (Next fp (insert PAX_NAME set_by_pax) False (out\<lparr>d_name := Some (cstr s)\<rparr>)))
            else if t = TAR_TYPE_PAX_GLOBAL then
              (case read_number (h_size hdr) of
                 None \<Rightarrow> Some (Done HdrFail fp)
               | Some sz \<Rightarrow> Some (Next (snd (skip_entry pc fp sz)) set_by_pax False out))
            else if t = TAR_TYPE_PAX then
              (case read_number (h_size hdr) of
                 None \<Rightarrow> Some (Done HdrFail fp)
               | Some sz \<Rightarrow>
                   if sz < 1 \<or> sz > TAR_MAX_PAX_LEN then Some (Done HdrFail fp)
                   else case read_pax_header mem pc fp sz {} no_header of
                       (None, fp) \<Rightarrow> Some (Done HdrFail fp)
                     | (Some (set_by_pax, out), fp) \<Rightarrow> Some (Next fp set_by_pax False out))
            else if t = TAR_TYPE_GNU_SPARSE then
              (case read_gnu_old_sparse mem pc fp hdr of
                 None \<Rightarrow> None
               | Some (None, fp) \<Rightarrow> Some (Done HdrFail fp)
               | Some (Some l, fp) \<Rightarrow>
                   if l = [] then Some (Done HdrFail fp)
                   else case read_number (h_realsize hdr) of
                       None \<Rightarrow> Some (Done HdrFail fp)
                     | Some sz \<Rightarrow>
                         (case finish_header mem pc fp hdr set_by_pax (out\<lparr>d_sparse := l, actual_size := sz\<rparr>) of
                            (r, fp) \<Rightarrow> Some (Done r fp)))
            else (case finish_header mem pc fp hdr set_by_pax out of (r, fp) \<Rightarrow> Some (Done r fp)))"

partial_function (option) read_header_loop ::
  "(nat \<Rightarrow> bool) \<Rightarrow> 's precache \<Rightarrow> 's istream \<Rightarrow> pax_flag set \<Rightarrow> bool \<Rightarrow> tar_header_decoded
     \<Rightarrow> (header_result \<times> 's istream) option" where
  "read_header_loop mem pc fp set_by_pax prev_was_zero out =
     (case header_step mem pc fp set_by_pax prev_was_zero out of
        None \<Rightarrow> None
      | Some step \<Rightarrow>
          (case step of
             Done r fp \<Rightarrow> Some (r, fp)
           | Next fp set_by_pax prev_was_zero out \<Rightarrow> read_header_loop mem pc fp set_by_pax prev_was_zero out))"

definition read_header :: "(nat \<Rightarrow> bool) \<Rightarrow> 's precache \<Rightarrow> 's istream \<Rightarrow> (header_result \<times> 's istream) option" where
  "read_header mem pc fp = read_header_loop mem pc fp {} False no_header"

end
