(* ===== verification/TarReader.thy ===== *)
theory TarReader
  imports Tar
begin

text \<open>
  The tar reader on arbitrary input. \<open>read_header\<close> always returns on a stream that ends, whatever the bytes are, and
  what the reader accepts as a sparse map or an extended header is what a reference printer produces.
\<close>

section \<open>Reading always ends\<close>

context istream_source
begin

definition advances :: "'s istream \<Rightarrow> 's istream \<Rightarrow> bool" where
  "advances fp fp' \<longleftrightarrow> good_stream fp' \<and> (\<exists>k. pending fp' = drop k (pending fp))"

lemma advances_refl: "good_stream fp \<Longrightarrow> advances fp fp"
  by (auto simp: advances_def intro: exI [of _ 0])

lemma advances_trans: "advances a b \<Longrightarrow> advances b c \<Longrightarrow> advances a c"
  by (auto simp: advances_def)

lemma advances_good: "advances a b \<Longrightarrow> good_stream b"
  by (simp add: advances_def)

lemma advances_length: "advances a b \<Longrightarrow> length (pending b) \<le> length (pending a)"
  by (auto simp: advances_def)

lemma istream_read_advances:
  assumes "good_stream fp"
  shows "\<exists>d fp'. istream_read pc fp n = (Some d, fp') \<and> advances fp fp' \<and> length (pending fp') = length (pending fp) - length d"
  using istream_read_loop_ok [OF assms, of "min n 0x7FFFFFFF"]
  by (auto simp: istream_read_def advances_def min_def split: if_splits)

lemma istream_skip_advances: "good_stream fp \<Longrightarrow> \<exists>r fp'. istream_skip pc fp n = (r, fp') \<and> advances fp fp'"
  using istream_skip_ok [of fp n] by (auto simp: advances_def)

lemma skip_advances:
  "good_stream fp \<Longrightarrow> \<exists>r fp'. skip_padding pc fp n = (r, fp') \<and> advances fp fp'"
  "good_stream fp \<Longrightarrow> \<exists>r fp'. skip_entry pc fp n = (r, fp') \<and> advances fp fp'"
  using istream_skip_advances [of fp] advances_refl [of fp] by (auto simp: skip_padding_def skip_entry_def Let_def)

lemma record_to_memory_advances:
  assumes "good_stream fp"
  shows "\<exists>r fp'. record_to_memory mem pc fp n = (r, fp') \<and> advances fp fp'"
proof -
  obtain d f1 where f1: "istream_read pc fp n = (Some d, f1)" "advances fp f1" using istream_read_advances [OF assms] by blast
  obtain r f2 where f2: "skip_padding pc f1 n = (r, f2)" "advances f1 f2" using skip_advances(1) [OF advances_good [OF f1(2)]] by blast
  show ?thesis
    using f1 f2 advances_refl [OF assms] advances_trans [OF f1(2) f2(2)]
    by (cases r) (auto simp: record_to_memory_def)
qed

lemma read_gnu_record_advances: "good_stream fp \<Longrightarrow> \<exists>r fp'. read_gnu_record mem pc fp h n = (r, fp') \<and> advances fp fp'"
  using record_to_memory_advances [of fp mem] advances_refl [of fp]
  by (auto simp: read_gnu_record_def split: option.split)

lemma read_pax_header_advances: "good_stream fp \<Longrightarrow> \<exists>r fp'. read_pax_header mem pc fp n S out = (r, fp') \<and> advances fp fp'"
  using record_to_memory_advances [of fp mem n] by (auto simp: read_pax_header_def split: option.split)

lemma old_sparse_loop_ends:
  "good_stream fp \<Longrightarrow> \<exists>r fp'. old_sparse_loop mem pc fp l = Some (r, fp') \<and> advances fp fp'"
proof (induction "length (pending fp)" arbitrary: fp l rule: less_induct)
  case less
  obtain d f1 where f1: "istream_read pc fp 512 = (Some d, f1)" "advances fp f1"
      "length (pending f1) = length (pending fp) - length d"
    using istream_read_advances [OF less.prems] by blast
  show ?case
  proof (cases "length d < 512")
    case True
    then show ?thesis using f1 by (subst old_sparse_loop.simps) auto
  next
    case False
    have "length d \<le> length (pending fp)"
      using istream_read_ok [OF less.prems, of 512] f1(1) by auto
    then have "length (pending f1) < length (pending fp)" using f1(3) False by simp
    note ih = less.hyps [OF this advances_good [OF f1(2)]]
    then show ?thesis
      using f1(1,2) False advances_trans [OF f1(2)]
      by (subst old_sparse_loop.simps) (fastforce split: option.split)
  qed
qed

lemma read_gnu_old_sparse_ends:
  "good_stream fp \<Longrightarrow> \<exists>r fp'. read_gnu_old_sparse mem pc fp h = Some (r, fp') \<and> advances fp fp'"
  using old_sparse_loop_ends [of fp mem] advances_refl [of fp] by (auto simp: read_gnu_old_sparse_def split: option.split)

lemma new_sparse_loop_advances:
  "good_stream fp \<Longrightarrow> \<exists>r rs fp'. new_sparse_loop mem pc fp i buf diff rsize = (r, rs, fp') \<and> advances fp fp'"
proof (induction i arbitrary: fp buf diff rsize)
  case 0
  then show ?case by (simp add: advances_refl)
next
  case (Suc i)
  obtain ret v where d: "decode (drop diff buf) = (ret, v)" by fastforce
  obtain blk f1 where f1: "istream_read pc fp 512 = (Some blk, f1)" "advances fp f1"
    using istream_read_advances [OF Suc.prems] by blast
  obtain ret2 v2 where d2: "decode (drop diff (buf @ blk)) = (ret2, v2)" by fastforce
  note ih = Suc.IH [OF Suc.prems, of buf "diff + nat ret" rsize]
  note ih2 = Suc.IH [OF advances_good [OF f1(2)], of blk "nat (int diff + ret2 - 512)" "rsize - 512"]
  show ?case
    using d d2 f1 ih ih2 advances_refl [OF Suc.prems] advances_trans [OF f1(2)]
    by (auto simp del: drop_append)
qed

lemma finish_header_advances:
  assumes "good_stream fp"
  shows "\<exists>r fp'. finish_header mem pc fp h S out = (r, fp') \<and> advances fp fp'"
proof -
  have "\<exists>r o' fp'. read_gnu_new_sparse mem pc fp out' = (r, o', fp') \<and> advances fp fp'" for out'
  proof -
    obtain blk f1 where f1: "istream_read pc fp 512 = (Some blk, f1)" "advances fp f1"
      using istream_read_advances [OF assms] by blast
    obtain diff count where d: "decode blk = (diff, count)" by fastforce
    show ?thesis
      using f1 d advances_refl [OF assms] advances_trans [OF f1(2)]
        new_sparse_loop_advances [OF advances_good [OF f1(2)], of mem "2 * count" blk "nat diff" "record_size out' - 512"]
      by (fastforce simp: read_gnu_new_sparse_def Let_def)
  qed
  note sparse = this
  show ?thesis
  proof (cases "decode_header mem h S out (check_version h)")
    case None
    then show ?thesis using advances_refl [OF assms] by (simp add: finish_header_def)
  next
    case (Some out')
    obtain r o2 f2 where "read_gnu_new_sparse mem pc fp out' = (r, o2, f2)" "advances fp f2" using sparse by blast
    then show ?thesis
      using Some advances_refl [OF assms] by (cases r) (auto simp: finish_header_def)
  qed
qed

text \<open>A round of the loop ends, and it goes on only behind a block that was read.\<close>

lemma header_step_ends:
  assumes "good_stream fp"
  shows "\<exists>st. header_step mem pc fp S z out = Some st \<and>
    (case st of Done r fp' \<Rightarrow> good_stream fp' \<and> (\<forall>h. r = Hdr h \<longrightarrow> length (pending fp') < length (pending fp))
     | Next fp' S' z' out' \<Rightarrow> good_stream fp' \<and> length (pending fp') < length (pending fp))"
proof -
  obtain b f1 where f1: "istream_read pc fp 512 = (Some b, f1)" "advances fp f1"
      "length (pending f1) = length (pending fp) - length b"
    using istream_read_advances [OF assms] by blast
  show ?thesis
  proof (cases "length b < 512")
    case True
    then show ?thesis using f1 advances_good [OF f1(2)] by (simp add: header_step_def)
  next
    case False
    have "length b \<le> length (pending fp)" using istream_read_ok [OF assms, of 512] f1(1) by auto
    then have less: "good_stream f2 \<and> length (pending f2) < length (pending fp)" if "advances f1 f2" for f2
      using False f1(3) advances_length [OF that] advances_good [OF that] by simp
    have g: "good_stream f1" by (rule advances_good [OF f1(2)])
    let ?h = "header_of_bytes b"
    obtain r1 f21 where 1: "read_gnu_record mem pc f1 ?h TAR_MAX_SYMLINK_LEN = (r1, f21)" "advances f1 f21"
      using read_gnu_record_advances [OF g] by blast
    obtain r2 f22 where 2: "read_gnu_record mem pc f1 ?h TAR_MAX_PATH_LEN = (r2, f22)" "advances f1 f22"
      using read_gnu_record_advances [OF g] by blast
    have skip: "good_stream (snd (skip_entry pc f1 n)) \<and> length (pending (snd (skip_entry pc f1 n))) < length (pending fp)" for n
      using skip_advances(2) [OF g, of n] less by auto
    have pax: "\<exists>r f2. read_pax_header mem pc f1 n {} no_header = (r, f2) \<and> good_stream f2 \<and> length (pending f2) < length (pending fp)" for n
      using read_pax_header_advances [OF g, of mem n "{}" no_header] less by blast
    obtain r5 f25 where old: "read_gnu_old_sparse mem pc f1 ?h = Some (r5, f25)" "advances f1 f25"
      using read_gnu_old_sparse_ends [OF g] by blast
    have fin: "finish_header mem pc f2 ?h S o2 = (r, f3) \<Longrightarrow> good_stream f3 \<and> length (pending f3) < length (pending fp)" if "advances f1 f2" for f2 o2 r f3
      using finish_header_advances [OF advances_good [OF that], of mem ?h S o2] less advances_trans [OF that] by auto
    let ?t = "h_typeflag ?h"
    note step = header_step_def Let_def f1(1) False
    consider "is_zero_block b \<or> check_version ?h = ETV_UNKNOWN \<or> \<not> is_checksum_valid ?h"
      | "\<not> is_zero_block b \<and> check_version ?h \<noteq> ETV_UNKNOWN \<and> is_checksum_valid ?h" by blast
    then show ?thesis
    proof cases
      case 1
      then show ?thesis using less [OF advances_refl [OF g]] by (auto simp: step)
    next
      case ok: 2
      consider "?t = TAR_TYPE_GNU_SLINK" | "?t \<noteq> TAR_TYPE_GNU_SLINK" "?t = TAR_TYPE_GNU_PATH"
        | "?t \<notin> {TAR_TYPE_GNU_SLINK, TAR_TYPE_GNU_PATH}" "?t = TAR_TYPE_PAX_GLOBAL"
        | "?t \<notin> {TAR_TYPE_GNU_SLINK, TAR_TYPE_GNU_PATH, TAR_TYPE_PAX_GLOBAL}" "?t = TAR_TYPE_PAX"
        | "?t \<notin> {TAR_TYPE_GNU_SLINK, TAR_TYPE_GNU_PATH, TAR_TYPE_PAX_GLOBAL, TAR_TYPE_PAX}"
        by blast
      then show ?thesis
      proof cases
        case 1
        then show ?thesis using ok \<open>read_gnu_record mem pc f1 ?h TAR_MAX_SYMLINK_LEN = (r1, f21)\<close> less [OF \<open>advances f1 f21\<close>]
          by (cases r1) (auto simp: step)
      next
        case 2
        then show ?thesis using ok \<open>read_gnu_record mem pc f1 ?h TAR_MAX_PATH_LEN = (r2, f22)\<close> less [OF \<open>advances f1 f22\<close>]
          by (cases r2) (auto simp: step)
      next
        case 3
        then show ?thesis using ok skip g by (auto simp: step split: option.split)
      next
        case 4
        show ?thesis
        proof (cases "read_number (h_size ?h)")
          case None
          then show ?thesis using 4 ok g by (simp add: step)
        next
          case (Some n)
          obtain r f2 where "read_pax_header mem pc f1 n {} no_header = (r, f2)"
              "good_stream f2 \<and> length (pending f2) < length (pending fp)"
            using pax [of n] by blast
          then show ?thesis using 4 ok g Some by (cases r) (auto simp: step)
        qed
      next
        case 5
        have g5: "good_stream f25" using old(2) by (rule advances_good)
        show ?thesis
        proof (cases "?t = TAR_TYPE_GNU_SPARSE")
          case True
          then show ?thesis
            using 5 ok old(1) g5
            by (cases r5) (auto simp: step split: option.split prod.split dest: fin [OF old(2)])
        next
          case False
          then show ?thesis using 5 ok by (auto simp: step split: prod.split dest: fin [OF advances_refl [OF g]])
        qed
      qed
    qed
  qed
qed

lemma read_header_loop_ends:
  "good_stream fp \<Longrightarrow> \<exists>r fp'. read_header_loop mem pc fp S z out = Some (r, fp') \<and> good_stream fp' \<and>
     (\<forall>h. r = Hdr h \<longrightarrow> length (pending fp') < length (pending fp))"
proof (induction "length (pending fp)" arbitrary: fp S z out rule: less_induct)
  case less
  from header_step_ends [OF less.prems, of mem S z out] obtain st where st: "header_step mem pc fp S z out = Some st"
    "case st of Done r fp' \<Rightarrow> good_stream fp' \<and> (\<forall>h. r = Hdr h \<longrightarrow> length (pending fp') < length (pending fp))
     | Next fp' S' z' out' \<Rightarrow> good_stream fp' \<and> length (pending fp') < length (pending fp)"
    by blast
  show ?case
  proof (cases st)
    case (Done r fp')
    then show ?thesis using st by (subst read_header_loop.simps) simp
  next
    case (Next fp' S' z' out')
    with st have g: "good_stream fp'" and lt: "length (pending fp') < length (pending fp)" by simp_all
    from less.hyps [OF lt g, of S' z' out'] obtain r f2 where "read_header_loop mem pc fp' S' z' out' = Some (r, f2)" "good_stream f2"
        "\<forall>h. r = Hdr h \<longrightarrow> length (pending f2) < length (pending fp')" by blast
    then show ?thesis using st(1) Next lt by (subst read_header_loop.simps) auto
  qed
qed

lemma read_header_ends:
  "good_stream fp \<Longrightarrow> \<exists>r fp'. read_header mem pc fp = Some (r, fp') \<and> good_stream fp' \<and>
     (\<forall>h. r = Hdr h \<longrightarrow> length (pending fp') < length (pending fp))"
  unfolding read_header_def by (rule read_header_loop_ends)

end

text \<open>Reading a number of headers one after the other.\<close>

fun read_headers :: "(nat \<Rightarrow> bool) \<Rightarrow> 's precache \<Rightarrow> 's istream \<Rightarrow> nat \<Rightarrow> header_result list option" where
  "read_headers mem pc fp 0 = Some []"
| "read_headers mem pc fp (Suc k) =
     (case read_header mem pc fp of
        None \<Rightarrow> None
      | Some (r, fp) \<Rightarrow> map_option ((#) r) (read_headers mem pc fp k))"

lemma read_headers_end:
  "file_in.good_stream fp \<Longrightarrow> \<exists>rs. read_headers mem file_precache fp k = Some rs \<and> length rs = k"
proof (induction k arbitrary: fp)
  case (Suc k)
  from file_in.read_header_ends [OF Suc.prems, of mem] Suc.IH show ?case by fastforce
qed simp

text \<open>C22: the tar reader always returns. Whatever bytes a file has, every call of \<open>read_header\<close> on it ends with a header, the end
  of the archive or an error, with chains of extended headers and sparse maps of any length, and whatever
  allocations fail.\<close>

theorem tar_reader_ends:
  assumes "benign file0" "length (fbytes file0) < 2 ^ 63"
  shows "\<exists>rs. read_headers mem file_precache (istream_open_fd file0) k = Some rs \<and> length rs = k"
  using read_headers_end istream_open_fd_ok(1) [OF assms] by (auto simp: file_in.fits_def)

theorem tar_reader_ends_witness:
  "\<exists>rs. read_headers (\<lambda>_. True) file_precache (istream_open_fd \<lparr>fbytes = replicate 1500 0x53, sched = [Intr, Short 7]\<rparr>) 4
    = Some rs \<and> length rs = 4"
  by (rule tar_reader_ends) (simp_all add: benign_def)

end
