(* ===== verification/VolStream.thy ===== *)
theory VolStream
  imports FileVolume Streams
begin

text \<open>
  The stream that appends to a volume (\<open>lib/image/volume_ostream.c\<close>, modelled in \<open>Volume\<close>) meets the contract
  \<open>ostream_sink\<close> over every volume that meets the contract \<open>volume\<close>: what is appended lands at the next
  position of the volume, and a hole is written as zeros.
\<close>

definition vol_ostream_ops :: "'v volume \<Rightarrow> 'v vol_ostream ostream" where
  "vol_ostream_ops vol =
     \<lparr>append = (\<lambda>s d. vol_ostream_append vol s (Some d) (length d)),
      append_sparse = Some (vol_ostream_append_sparse vol), flush = vol_ostream_flush\<rparr>"

text \<open>The view of such a stream: the bytes of the volume and the position.\<close>

definition put_at :: "(nat \<Rightarrow> byte) \<times> nat \<Rightarrow> byte list \<Rightarrow> (nat \<Rightarrow> byte) \<times> nat" where
  "put_at = (\<lambda>(c, p) d. (poke c p d, p + length d))"

lemma put_at_laws: "put_at w [] = w" "put_at (put_at w a) b = put_at w (a @ b)"
  by (cases w; simp add: put_at_def poke_append add.assoc)+

context volume
begin

definition vs_view :: "'v vol_ostream \<Rightarrow> (nat \<Rightarrow> byte) \<times> nat" where
  "vs_view s = (content (view (wrapped s)), vs_offset s + written s)"

definition vs_room :: "'v vol_ostream \<Rightarrow> nat \<Rightarrow> bool" where
  "vs_room s n \<longleftrightarrow> inv (wrapped s) \<and> vs_offset s + written s + n \<le> capacity (wrapped s) \<and>
     written s + n \<le> max_size s"

lemma vol_ostream_append_ok:
  assumes room: "vs_room s (n + m)" and buf: "valid_buf data n"
  shows "\<exists>s'. vol_ostream_append vol s data n = (Some (), s') \<and> vs_view s' = put_at (vs_view s) (buf_bytes data n) \<and>
    vs_room s' m"
proof (cases "n = 0")
  case True
  then have "buf_bytes data n = []" using buf length_buf_bytes [of data n] by (metis length_0_conv)
  then show ?thesis using True room by (simp add: vol_ostream_append_def put_at_laws)
next
  case False
  have inv: "inv (wrapped s)" and cap: "vs_offset s + written s + (n + m) \<le> capacity (wrapped s)"
    and mx: "written s + (n + m) \<le> max_size s"
    using room by (simp_all add: vs_room_def)
  have c63: "capacity (wrapped s) \<le> 2 ^ 63" using max_bound [OF inv] .
  then have add: "add64 (vs_offset s) (written s) = vs_offset s + written s" "add64 (written s) n = written s + n"
    using cap by (simp_all add: add64_def)
  obtain v where v: "volume_write vol (wrapped s) (vs_offset s + written s) data n = (Some (), v)" "inv v"
      "wrote bs (view (wrapped s)) (view v) (vs_offset s + written s) (buf_bytes data n)"
    using write_correct [OF inv _ _ buf, of "vs_offset s + written s"] False cap by auto
  have "content (view v) = poke (content (view (wrapped s))) (vs_offset s + written s) (buf_bytes data n)"
    "vblocks (view v) = vblocks (view (wrapped s))"
    using v(3) wrote_content wrote_blocks by blast+
  then show ?thesis
    using False mx cap v add buf
    by (simp add: vol_ostream_append_def vs_view_def vs_room_def put_at_def)
qed

end

sublocale volume \<subseteq> vs: ostream_sink "vol_ostream_ops vol" vs_view put_at vs_room
proof
  fix s :: "'v vol_ostream" and d :: "byte list" and m :: nat
  assume "vs_room s (length d + m)"
  then show "\<exists>s'. append (vol_ostream_ops vol) s d = (Some (), s') \<and> vs_view s' = put_at (vs_view s) d \<and> vs_room s' m"
    using vol_ostream_append_ok [of s "length d" m "Some d"] by (simp add: vol_ostream_ops_def)
next
  fix f :: "'v vol_ostream \<Rightarrow> nat \<Rightarrow> (unit, 'v vol_ostream) io" and s n m
  assume "append_sparse (vol_ostream_ops vol) = Some f" "vs_room s (n + m)"
  then show "\<exists>s'. f s n = (Some (), s') \<and> vs_view s' = put_at (vs_view s) (zeros n) \<and> vs_room s' m"
    using vol_ostream_append_ok [of s n m None] by (auto simp: vol_ostream_ops_def vol_ostream_append_sparse_def)
qed (simp_all add: put_at_laws)

text \<open>C24: appending data and holes to a stream over a file volume succeeds as long as it stays inside the stream's limit and
  the volume. It writes the data, and zeros for the holes, from the start of the stream on and changes no other
  byte of the file.\<close>

theorem volume_stream_append:
  assumes "fv_inv env bs v" "off + length (concat (map chunk_bytes cs)) \<le> max_block_count v * bs"
    "length (concat (map chunk_bytes cs)) \<le> max_sz"
  shows "\<exists>s. append_chunks (vol_ostream_ops (file_volume_ops env bs)) (volume_ostream_create v off max_sz) cs = (Some (), s) \<and>
    fbyte (fd (wrapped s)) = poke (fbyte (fd v)) off (concat (map chunk_bytes cs)) \<and> fv_inv env bs (wrapped s)"
proof -
  have bs: "blocksize (file_volume_ops env bs) = bs" by (simp add: file_volume_ops_def)
  let ?b = "concat (map chunk_bytes cs)"
  have "fv.vs_room env bs (volume_ostream_create v off max_sz) (length ?b + 0)"
    unfolding fv.vs_room_def bs using assms by (simp add: volume_ostream_create_def fv_view_def)
  from fv.vs.append_chunks_ok [OF this] obtain s where
    s: "append_chunks (vol_ostream_ops (file_volume_ops env bs)) (volume_ostream_create v off max_sz) cs = (Some (), s)"
      "fv.vs_view bs s = put_at (fv.vs_view bs (volume_ostream_create v off max_sz)) ?b" "fv.vs_room env bs s 0"
    by blast
  then have "fbyte (fd (wrapped s)) = poke (fbyte (fd v)) off ?b" "fv_inv env bs (wrapped s)"
    by (simp_all add: fv.vs_view_def fv.vs_room_def put_at_def volume_ostream_create_def fv_view_def)
  with s(1) show ?thesis by blast
qed

theorem volume_stream_append_witness:
  "\<exists>s. append_chunks (vol_ostream_ops (file_volume_ops demo_env 4)) (volume_ostream_create demo_volume 2 8)
      [Data [1, 2, 3], Hole 2, Data [4]] = (Some (), s) \<and>
    fbyte (fd (wrapped s)) = poke (fbyte (fd demo_volume)) 2 [1, 2, 3, 0, 0, 4] \<and> fv_inv demo_env 4 (wrapped s)"
proof -
  have b: "concat (map chunk_bytes [Data [1, 2, 3], Hole 2, Data [4]]) = [1, 2, 3, 0, 0, 4]"
    by (simp add: zeros_def numeral_2_eq_2)
  have l: "2 + length (concat (map chunk_bytes [Data [1, 2, 3], Hole 2, Data [4]])) \<le> max_block_count demo_volume * 4"
    "length (concat (map chunk_bytes [Data [1, 2, 3], Hole 2, Data [4]])) \<le> 8"
    unfolding b by (simp_all add: demo_volume_def)
  from volume_stream_append [OF demo_inv l] show ?thesis unfolding b .
qed

end
