(* ===== verification/Tarfs.thy ===== *)
theory Tarfs
  imports Tar VolStream Links TreeOrder Adapter
begin

text \<open>
  The tar file system: \<open>lib/filesystem/tarfs/format.c\<close>, which writes headers, and \<open>tarfs.c\<close>, which lays the tree out
  on a volume as an archive.

  A header is written to an output stream; the tree is only read by that. The main property is that the
  reader of libtar gets back what was written, for every type of node and for names and link targets of every length.
\<close>

section \<open>Writing a header\<close>

definition pad_to :: "nat \<Rightarrow> byte list \<Rightarrow> byte list" where
  "pad_to n s = s @ zeros (n - length s)"

definition update_checksum :: "tar_header \<Rightarrow> tar_header" where
  "update_checksum hdr = hdr\<lparr>h_chksum := padded 6 (digits_of 8 (get_checksum hdr)) @ [0, 0x20]\<rparr>"

text \<open>A device number part is an \<open>int\<close> on its way to \<open>write_number\<close>.\<close>

definition int_arg :: "nat \<Rightarrow> nat" where
  "int_arg x = (if x < 2 ^ 31 then x else x + (2 ^ 64 - 2 ^ 32))"

definition is_device :: "tree_node \<Rightarrow> bool" where
  "is_device n \<longleftrightarrow> n_type n = TREE_NODE_CHAR_DEV \<or> n_type n = TREE_NODE_BLOCK_DEV"

definition make_header :: "tree_node \<Rightarrow> byte list \<Rightarrow> byte list option \<Rightarrow> byte \<Rightarrow> tar_header" where
  "make_header n nm slink_target ty =
     (let maj = (if is_device n then major (device_number n) else 0);
          mnr = (if is_device n then minor (device_number n) else 0);
          sz = (if n_type n = TREE_NODE_FILE then f_size (n_file n) else 0)
      in update_checksum
        \<lparr>h_name = pad_to 100 (take 99 nm),
         h_mode = write_number (permissions n) 8, h_uid = write_number (n_uid n) 8, h_gid = write_number (n_gid n) 8,
         h_size = write_number sz 12, h_mtime = write_number_signed (s64 (n_mtime n)) 12, h_chksum = zeros 8,
         h_typeflag = ty,
         h_linkname = (case slink_target of None \<Rightarrow> zeros 100 | Some t \<Rightarrow> pad_to 100 (take 99 t)),
         h_magic = ascii ''ustar '', h_version = ascii '' '' @ [0],
         h_uname = pad_to 32 (digits_of 10 (n_uid n)), h_gname = pad_to 32 (digits_of 10 (n_gid n)),
         h_devmajor = write_number (int_arg maj) 8, h_devminor = write_number (int_arg mnr) 8,
         h_tail = zeros 167\<rparr>)"

definition write_header ::
  "'o ostream \<Rightarrow> 'o \<Rightarrow> tree_node \<Rightarrow> byte list \<Rightarrow> byte list option \<Rightarrow> byte \<Rightarrow> (unit, 'o) io" where
  "write_header strm fp n nm slink_target ty = ostream_append strm fp (header_bytes (make_header n nm slink_target ty))"

definition gnu_dummy :: "tree_node \<Rightarrow> nat \<Rightarrow> tree_node" where
  "gnu_dummy n payload_len =
     n\<lparr>n_type := TREE_NODE_FILE, permissions := 420, n_file := (n_file n)\<lparr>f_size := payload_len\<rparr>, n_parent := None, n_name := []\<rparr>"

definition write_gnu_header ::
  "'o ostream \<Rightarrow> 'o \<Rightarrow> tree_node \<Rightarrow> byte list \<Rightarrow> byte \<Rightarrow> byte list \<Rightarrow> (unit, 'o) io" where
  "write_gnu_header strm fp n payload ty nm =
     (case write_header strm fp (gnu_dummy n (length payload)) nm None ty of
        (None, fp) \<Rightarrow> (None, fp)
      | (Some _, fp) \<Rightarrow>
          (case ostream_append strm fp payload of
             (None, fp) \<Rightarrow> (None, fp)
           | (Some _, fp) \<Rightarrow>
               let padd_sz = length payload mod TAR_RECORD_SIZE in
               if padd_sz = 0 then (Some (), fp) else ostream_append_sparse strm fp (TAR_RECORD_SIZE - padd_sz)))"

definition with_counter :: "string \<Rightarrow> nat \<Rightarrow> byte list" where
  "with_counter s counter = ascii s @ digits_of 10 (u32 counter)"

definition tar_type :: "node_type \<Rightarrow> byte option" where
  "tar_type ty =
     (case ty of
        TREE_NODE_CHAR_DEV \<Rightarrow> Some TAR_TYPE_CHARDEV
      | TREE_NODE_BLOCK_DEV \<Rightarrow> Some TAR_TYPE_BLOCKDEV
      | TREE_NODE_SYMLINK \<Rightarrow> Some TAR_TYPE_SLINK
      | TREE_NODE_FILE \<Rightarrow> Some TAR_TYPE_FILE
      | TREE_NODE_DIR \<Rightarrow> Some TAR_TYPE_DIR
      | TREE_NODE_FIFO \<Rightarrow> Some TAR_TYPE_FIFO
      | _ \<Rightarrow> None)"

text \<open>The symbolic link's target and the name, with a GNU record first if they are too long for the header. The
  result is what goes into the header itself.\<close>

definition write_long_target ::
  "'o ostream \<Rightarrow> 'o \<Rightarrow> tree_node \<Rightarrow> nat \<Rightarrow> (byte list option, 'o) io" where
  "write_long_target strm fp n counter =
     (if n_type n = TREE_NODE_SYMLINK then
        (let target = ascii (link_target n) in
         if length target \<ge> 100 then
           (case write_gnu_header strm fp n target TAR_TYPE_GNU_SLINK (with_counter ''gnu/target'' counter) of
              (None, fp) \<Rightarrow> (None, fp)
            | (Some _, fp) \<Rightarrow> (Some None, fp))
         else (Some (Some target), fp))
      else (Some None, fp))"

definition write_long_name ::
  "'o ostream \<Rightarrow> 'o \<Rightarrow> tree_node \<Rightarrow> byte list \<Rightarrow> nat \<Rightarrow> (byte list, 'o) io" where
  "write_long_name strm fp n nm counter =
     (if length nm \<ge> 100 then
        (case write_gnu_header strm fp n nm TAR_TYPE_GNU_PATH (with_counter ''gnu/name'' counter) of
           (None, fp) \<Rightarrow> (None, fp)
         | (Some _, fp) \<Rightarrow> (Some (with_counter ''gnu/data'' counter), fp))
      else (Some nm, fp))"

text \<open>The result is 0 for an entry that was written and 1 for one that was skipped with a warning.\<close>

definition tarfs_write_header :: "bool \<Rightarrow> 'v fstree \<Rightarrow> 'o ostream \<Rightarrow> 'o \<Rightarrow> nat \<Rightarrow> nat \<Rightarrow> (nat, 'o) io" where
  "tarfs_write_header mem fs strm fp m counter =
     (let n = nodes fs m in
      case write_long_target strm fp n counter of
        (None, fp) \<Rightarrow> (None, fp)
      | (Some slink_target, fp) \<Rightarrow>
          (case fstree_get_path mem fs m of
             None \<Rightarrow> (None, fp)
           | Some path \<Rightarrow>
               (case write_long_name strm fp n (ascii (fstree_canonicalize_path path)) counter of
                  (None, fp) \<Rightarrow> (None, fp)
                | (Some nm, fp) \<Rightarrow>
                    (case tar_type (n_type n) of
                       None \<Rightarrow> (Some 1, fp)
                     | Some ty \<Rightarrow>
                         (case write_header strm fp n nm slink_target ty of
                            (None, fp) \<Rightarrow> (None, fp)
                          | (Some _, fp) \<Rightarrow> (Some 0, fp))))))"

text \<open>The header of a hard link. \<open>memcpy\<close> and \<open>sprintf\<close> put the name and target into zeroed fields.\<close>

definition hard_link_header :: "tree_node \<Rightarrow> byte list \<Rightarrow> byte list \<Rightarrow> tar_header" where
  "hard_link_header n nm target =
     update_checksum
       \<lparr>h_name = pad_to 100 nm,
        h_mode = write_number (permissions n) 8, h_uid = write_number (n_uid n) 8, h_gid = write_number (n_gid n) 8,
        h_size = write_number 0 12, h_mtime = write_number_signed (s64 (n_mtime n)) 12, h_chksum = zeros 8,
        h_typeflag = TAR_TYPE_LINK, h_linkname = pad_to 100 target,
        h_magic = ascii ''ustar '', h_version = ascii '' '' @ [0],
        h_uname = pad_to 32 (digits_of 10 (n_uid n)), h_gname = pad_to 32 (digits_of 10 (n_gid n)),
        h_devmajor = write_number 0 8, h_devminor = write_number 0 8, h_tail = zeros 167\<rparr>"

definition tarfs_write_hard_link :: "bool \<Rightarrow> 'v fstree \<Rightarrow> 'o ostream \<Rightarrow> 'o \<Rightarrow> nat \<Rightarrow> nat \<Rightarrow> (unit, 'o) io" where
  "tarfs_write_hard_link mem fs strm fp m counter =
     (let n = nodes fs m; target = ascii (link_target n) in
      case (if length target \<ge> 100
            then (case write_gnu_header strm fp n target TAR_TYPE_GNU_SLINK (with_counter ''gnu/target'' counter) of
                    (None, fp) \<Rightarrow> (None, fp)
                  | (Some _, fp) \<Rightarrow> (Some (with_counter ''hardlink_'' counter), fp))
            else (Some target, fp)) of
        (None, fp) \<Rightarrow> (None, fp)
      | (Some linkname, fp) \<Rightarrow>
          (case fstree_get_path mem fs m of
             None \<Rightarrow> (None, fp)
           | Some path \<Rightarrow>
               (case write_long_name strm fp n (ascii (fstree_canonicalize_path path)) counter of
                  (None, fp) \<Rightarrow> (None, fp)
                | (Some nm, fp) \<Rightarrow> ostream_append strm fp (header_bytes (hard_link_header n nm linkname)))))"

section \<open>Laying out an archive\<close>

fun append_zero_size_files ::
  "bool \<Rightarrow> nat \<Rightarrow> 'v fstree \<Rightarrow> 'o ostream \<Rightarrow> 'o \<Rightarrow> nat \<Rightarrow> nat list \<Rightarrow> (nat, 'o) io" where
  "append_zero_size_files mem bs fs strm fp counter [] = (Some counter, fp)"
| "append_zero_size_files mem bs fs strm fp counter (m # ms) =
     (if fstree_file_physical_size bs (file_of fs m) \<noteq> 0 then append_zero_size_files mem bs fs strm fp counter ms
      else case tarfs_write_header mem fs strm fp m counter of
          (Some 0, fp) \<Rightarrow> append_zero_size_files mem bs fs strm fp (counter + 1) ms
        | (_, fp) \<Rightarrow> (None, fp))"

fun append_hard_links ::
  "bool \<Rightarrow> 'v fstree \<Rightarrow> 'o ostream \<Rightarrow> 'o \<Rightarrow> nat \<Rightarrow> nat list \<Rightarrow> (nat, 'o) io" where
  "append_hard_links mem fs strm fp counter [] = (Some counter, fp)"
| "append_hard_links mem fs strm fp counter (m # ms) =
     (case tarfs_write_hard_link mem fs strm fp m counter of
        (None, fp) \<Rightarrow> (None, fp)
      | (Some _, fp) \<Rightarrow> append_hard_links mem fs strm fp (counter + 1) ms)"

text \<open>The header of a file goes directly before its data: its size is found with the null stream, the data is moved
  back by as much, and the header is written into the gap.\<close>

definition insert_file_header :: "'v volume \<Rightarrow> bool \<Rightarrow> 'v fstree \<Rightarrow> nat \<Rightarrow> nat \<Rightarrow> (unit, 'v fstree) io" where
  "insert_file_header vol mem fs m counter =
     (case tarfs_write_header mem fs null_ostream 0 m counter of
        (Some 0, bytes_written) \<Rightarrow>
          (let start = mul64 (start_index (file_of fs m)) (blocksize vol) in
           case fstree_add_gap vol fs (start_index (file_of fs m)) bytes_written of
             (None, fs) \<Rightarrow> (None, fs)
           | (Some _, fs) \<Rightarrow>
               (case tarfs_write_header mem fs (vol_ostream_ops vol)
                       (volume_ostream_create (fs_volume fs) start bytes_written) m counter of
                  (Some 0, vstrm) \<Rightarrow> (Some (), fs\<lparr>fs_volume := wrapped vstrm\<rparr>)
                | (_, vstrm) \<Rightarrow> (None, fs\<lparr>fs_volume := wrapped vstrm\<rparr>)))
      | _ \<Rightarrow> (None, fs))"

fun insert_file_headers :: "'v volume \<Rightarrow> bool \<Rightarrow> 'v fstree \<Rightarrow> nat \<Rightarrow> nat list \<Rightarrow> (nat, 'v fstree) io" where
  "insert_file_headers vol mem fs counter [] = (Some counter, fs)"
| "insert_file_headers vol mem fs counter (m # ms) =
     (if fstree_file_physical_size (blocksize vol) (file_of fs m) = 0 then insert_file_headers vol mem fs counter ms
      else case insert_file_header vol mem fs m counter of
          (None, fs) \<Rightarrow> (None, fs)
        | (Some _, fs) \<Rightarrow> insert_file_headers vol mem fs (counter + 1) ms)"

text \<open>\<open>write_tree_dfs\<close>. The first argument bounds the depth; the number of nodes is enough.\<close>

fun write_tree_dfs :: "nat \<Rightarrow> bool \<Rightarrow> 'v fstree \<Rightarrow> 'o ostream \<Rightarrow> nat \<Rightarrow> nat option \<times> 'o \<Rightarrow> nat option \<times> 'o" where
  "write_tree_dfs 0 mem fs strm m st = st"
| "write_tree_dfs (Suc k) mem fs strm m st =
     (case st of
        (None, fp) \<Rightarrow> (None, fp)
      | (Some counter, fp) \<Rightarrow>
          let n = nodes fs m in
          if n_type n = TREE_NODE_FILE \<or> n_type n = TREE_NODE_HARD_LINK then (Some counter, fp)
          else case (if n_parent n \<noteq> None
                     then (case tarfs_write_header mem fs strm fp m counter of
                             (Some 0, fp) \<Rightarrow> (Some (counter + 1), fp)
                           | (_, fp) \<Rightarrow> (None, fp))
                     else (Some counter, fp)) of
              (None, fp) \<Rightarrow> (None, fp)
            | (Some counter, fp) \<Rightarrow>
                if n_type n = TREE_NODE_DIR
                then fold (\<lambda>c st. write_tree_dfs k mem fs strm c st) (children n) (Some counter, fp)
                else (Some counter, fp))"

definition estimate_tree_size :: "bool \<Rightarrow> 'v fstree \<Rightarrow> nat option" where
  "estimate_tree_size mem fs =
     (if \<not> mem then None
      else case write_tree_dfs (node_count fs) mem fs null_ostream (root fs) (Some 0, 0) of
          (None, _) \<Rightarrow> None
        | (Some _, sz) \<Rightarrow> Some sz)"

text \<open>\<open>build_headers\<close> is the part of \<open>tarfs_build_format\<close> that follows the sorting and the links: the headers of
  what has no data, then those of the files, then files without data and hard links behind everything. \<open>mem\<close> tells whether
  the allocations of the whole run succeed.\<close>

definition build_headers :: "'v volume \<Rightarrow> bool \<Rightarrow> 'v fstree \<Rightarrow> (unit, 'v fstree) io" where
  "build_headers vol mem fs =
     (case estimate_tree_size mem fs of
        None \<Rightarrow> (None, fs)
      | Some sz \<Rightarrow>
     (case fstree_add_gap vol fs 0 sz of
        (None, fs) \<Rightarrow> (None, fs)
      | (Some _, fs) \<Rightarrow>
     (case write_tree_dfs (node_count fs) mem fs (vol_ostream_ops vol) (root fs)
             (Some 0, volume_ostream_create (fs_volume fs) 0 sz) of
        (None, vs) \<Rightarrow> (None, fs\<lparr>fs_volume := wrapped vs\<rparr>)
      | (Some counter, vs) \<Rightarrow>
     (case insert_file_headers vol mem (fs\<lparr>fs_volume := wrapped vs\<rparr>) counter (files fs) of
        (None, fs) \<Rightarrow> (None, fs)
      | (Some counter, fs) \<Rightarrow>
          let start = mul64 (data_offset fs) (blocksize vol) in
     (case append_zero_size_files mem (blocksize vol) fs (vol_ostream_ops vol)
             (volume_ostream_create (fs_volume fs) start 0xFFFFFFFFFFFFFFFF) counter (files fs) of
        (None, vs) \<Rightarrow> (None, fs\<lparr>fs_volume := wrapped vs\<rparr>)
      | (Some counter, vs) \<Rightarrow>
     (case append_hard_links mem fs (vol_ostream_ops vol) vs counter (nodes_by_type fs TREE_NODE_HARD_LINK) of
        (None, vs) \<Rightarrow> (None, fs\<lparr>fs_volume := wrapped vs\<rparr>)
      | (Some _, vs) \<Rightarrow> (Some (), fs\<lparr>fs_volume := wrapped vs\<rparr>)))))))"

definition tarfs_build_format :: "'v volume \<Rightarrow> bool \<Rightarrow> 'v fstree \<Rightarrow> (unit, 'v fstree) io" where
  "tarfs_build_format vol mem fs =
     (case fstree_resolve_hard_links (fstree_sort fs) of
        (ret, fs) \<Rightarrow> if ret \<noteq> 0 then (None, fs) else build_headers vol mem fs)"

text \<open>\<open>filesystem_tar_create\<close>: the operations of the volume that the file system uses, and the empty tree.\<close>

definition filesystem_tar_create :: "'v volume \<Rightarrow> 'v \<Rightarrow> 'v volume \<times> 'v fstree" where
  "filesystem_tar_create vol v =
     (if blocksize vol = TAR_RECORD_SIZE then vol else volume_blocksize_adapter_create vol TAR_RECORD_SIZE 0,
      (fstree_create v)\<lparr>no_sparse := True\<rparr>)"

end
