(* ===== verification/TarfsRound.thy ===== *)
theory TarfsRound
  imports Tarfs
begin

text \<open>
  Archives that the tar file system writes can be read: the reader of libtar gets back from a header that \<open>tarfs_write_header\<close>
  wrote what the node had. The bytes that are written do not depend on the stream, so the null stream counts
  exactly the bytes that another stream gets.
\<close>

section \<open>The layout of a header\<close>

definition header_wf :: "tar_header \<Rightarrow> bool" where
  "header_wf h \<longleftrightarrow>
     length (h_name h) = 100 \<and> length (h_mode h) = 8 \<and> length (h_uid h) = 8 \<and> length (h_gid h) = 8 \<and>
     length (h_size h) = 12 \<and> length (h_mtime h) = 12 \<and> length (h_chksum h) = 8 \<and> length (h_linkname h) = 100 \<and>
     length (h_magic h) = 6 \<and> length (h_version h) = 2 \<and> length (h_uname h) = 32 \<and> length (h_gname h) = 32 \<and>
     length (h_devmajor h) = 8 \<and> length (h_devminor h) = 8 \<and> length (h_tail h) = 167"

lemma length_header_bytes: "header_wf h \<Longrightarrow> length (header_bytes h) = 512"
  by (simp add: header_wf_def header_bytes_def)

lemma slice_append:
  "off = length a \<Longrightarrow> n = length b \<Longrightarrow> slice off n (a @ b @ c) = b"
  "off = length a \<Longrightarrow> n = length b \<Longrightarrow> slice off n (a @ b) = b"
  by (simp_all add: slice_def)

lemma header_of_header_bytes:
  assumes "header_wf h"
  shows "header_of_bytes (header_bytes h) = h"
  using assms by (cases h) (simp add: header_wf_def header_of_bytes_def header_bytes_def slice_def nth_append)

lemma is_zero_block_nth:
  assumes "is_zero_block b" "length b = 512" "i < 512"
  shows "b ! i = 0"
  using assms(3)
proof (induction i)
  case 0
  then show ?case using assms(1) by (simp add: is_zero_block_def)
next
  case (Suc i)
  then have "i < 511" by simp
  then have "take 511 b ! i = take 511 (drop 1 b) ! i" using assms(1) by (simp add: is_zero_block_def)
  then show ?case using Suc assms(2) \<open>i < 511\<close> by simp
qed

lemma header_bytes_magic: "header_wf h \<Longrightarrow> header_bytes h ! 257 = h_magic h ! 0"
  by (simp add: header_wf_def header_bytes_def nth_append)

section \<open>Checksums\<close>

lemma sum_bytes_bound: "sum_list (map unat (bs :: byte list)) \<le> 255 * length bs"
proof (induction bs)
  case (Cons b bs)
  have "unat b < 2 ^ 8" using unsigned_less [where ?'a = nat, of b] by simp
  then show ?case using Cons by simp
qed simp

lemma get_checksum_bound:
  assumes "header_wf h"
  shows "get_checksum h < 8 ^ 6"
proof -
  have "header_wf (h\<lparr>h_chksum := replicate 8 0x20\<rparr>)" using assms by (simp add: header_wf_def)
  from length_header_bytes [OF this] sum_bytes_bound [of "header_bytes (h\<lparr>h_chksum := replicate 8 0x20\<rparr>)"]
  have "sum_list (map unat (header_bytes (h\<lparr>h_chksum := replicate 8 0x20\<rparr>))) \<le> 255 * 512" by simp
  then show ?thesis by (simp add: get_checksum_def u32_def)
qed

lemma read_octal_digits':
  assumes "n < 8 ^ w" "0 < w" "n < max64" "rest = [] \<or> \<not> (0x30 \<le> hd rest \<and> hd rest \<le> 0x37)"
  shows "read_octal (padded w (digits_of 8 n) @ rest) = Some n"
proof -
  let ?p = "padded w (digits_of 8 n)"
  have p: "?p \<noteq> []" using digits_of_8(1) [OF assms(1-3)] assms(2) by auto
  note o = octal_hd [of "hd ?p"] digits_of_8(3) [OF assms(1-3)]
  have "dropWhile isspace (?p @ rest) = ?p @ rest" using p o by (cases ?p) simp_all
  moreover have "octal_loop n rest = Some n" using assms(4) by (cases rest) auto
  ultimately show ?thesis using digits_of_8(2) [OF assms(1-3)] by (simp add: read_octal_def)
qed

lemma update_checksum_ok:
  assumes "header_wf h"
  shows "header_wf (update_checksum h)" "is_checksum_valid (update_checksum h)"
proof -
  have b: "get_checksum h < 8 ^ 6" "get_checksum h < max64" using get_checksum_bound [OF assms] by simp_all
  show "header_wf (update_checksum h)"
    using assms digits_of_8(1) [OF b(1) _ b(2)] by (simp add: header_wf_def update_checksum_def)
  have "get_checksum (update_checksum h) = get_checksum h" by (simp add: get_checksum_def update_checksum_def)
  moreover have "read_octal (h_chksum (update_checksum h)) = Some (get_checksum h)"
    using read_octal_digits' [OF b(1) _ b(2), of "[0, 0x20]"] by (simp add: update_checksum_def)
  ultimately show "is_checksum_valid (update_checksum h)" by (simp add: is_checksum_valid_def)
qed

section \<open>The headers of the tar file system are well formed\<close>

definition node_numbers_ok :: "tree_node \<Rightarrow> bool" where
  "node_numbers_ok n \<longleftrightarrow>
     permissions n < 0x1000 \<and> n_uid n < 2 ^ 32 \<and> n_gid n < 2 ^ 32 \<and> n_mtime n < max64 \<and> n_mtime n \<noteq> 2 ^ 63 \<and>
     f_size (n_file n) < max64 \<and>
     (is_device n \<longrightarrow> device_number n < max64 \<and> major (device_number n) < 2 ^ 31 \<and> minor (device_number n) < 2 ^ 31)"

lemma length_pad_to: "length s \<le> n \<Longrightarrow> length (pad_to n s) = n"
  by (simp add: pad_to_def)

lemma digits_of_10_length: "n < 2 ^ 32 \<Longrightarrow> length (digits_of 10 n) \<le> 10"
  unfolding digits_of_list using digit_list_length [of 10 n 10] by simp

lemma write_number_length_8: "v < 2 ^ 62 \<Longrightarrow> length (write_number v 8) = 8"
  by (rule read_write_number) simp_all

lemma write_number_length_12: "v < max64 \<Longrightarrow> length (write_number v 12) = 12"
  by (rule read_write_number) simp_all

lemma s64_range: "u < max64 \<Longrightarrow> u \<noteq> 2 ^ 63 \<Longrightarrow> - (2 ^ 63) < s64 u \<and> s64 u < 2 ^ 63"
  by (auto simp: s64_def)

lemma write_number_signed_length:
  "u < max64 \<Longrightarrow> u \<noteq> 2 ^ 63 \<Longrightarrow> length (write_number_signed (s64 u) 12) = 12"
  using s64_range read_write_number_signed [of "s64 u"] by blast

lemma make_header_wf:
  assumes "node_numbers_ok n"
  shows "header_wf (make_header n nm slink ty)"
proof -
  have small: "permissions n < 2 ^ 62" "n_uid n < 2 ^ 62" "n_gid n < 2 ^ 62"
    using assms by (auto simp: node_numbers_ok_def)
  have dev: "int_arg (if is_device n then major (device_number n) else 0) < 2 ^ 62"
    "int_arg (if is_device n then minor (device_number n) else 0) < 2 ^ 62"
    using assms by (auto simp: node_numbers_ok_def int_arg_def)
  have "length (digits_of 10 (n_uid n)) \<le> 32" "length (digits_of 10 (n_gid n)) \<le> 32"
    using digits_of_10_length [of "n_uid n"] digits_of_10_length [of "n_gid n"] assms by (auto simp: node_numbers_ok_def)
  then show ?thesis
    using small dev assms unfolding make_header_def Let_def
    by (intro update_checksum_ok)
      (simp add: header_wf_def length_pad_to write_number_length_8 write_number_length_12 write_number_signed_length
        node_numbers_ok_def ascii_def split: option.split)
qed

section \<open>Device numbers\<close>

lemma split_dev:
  fixes a b c e :: nat
  assumes "a < 2 ^ 8" "b < 2 ^ 12" "c < 2 ^ 24"
  defines "x \<equiv> a + b * 2 ^ 8 + c * 2 ^ 20 + e * 2 ^ 44"
  shows "x mod 2 ^ 8 = a" "x div 2 ^ 8 mod 2 ^ 12 = b" "x div 2 ^ 20 mod 2 ^ 24 = c" "x div 2 ^ 44 = e"
proof -
  define z where "z = c + e * 2 ^ 24"
  define y where "y = b + z * 2 ^ 12"
  have "x = a + y * 2 ^ 8" by (simp add: x_def y_def z_def algebra_simps)
  then have 8: "x div 2 ^ 8 = y" and "x mod 2 ^ 8 = a" using assms(1) by simp_all
  then show "x mod 2 ^ 8 = a" "x div 2 ^ 8 mod 2 ^ 12 = b" using assms(2) by (simp_all add: y_def)
  have "x div 2 ^ 20 = x div 2 ^ 8 div 2 ^ 12" by (simp add: div_mult2_eq [symmetric])
  then have 20: "x div 2 ^ 20 = z" unfolding 8 using assms(2) by (simp add: y_def)
  then show "x div 2 ^ 20 mod 2 ^ 24 = c" using assms(3) by (simp add: z_def)
  have "x div 2 ^ 44 = x div 2 ^ 20 div 2 ^ 24" by (simp add: div_mult2_eq [symmetric])
  then show "x div 2 ^ 44 = e" unfolding 20 using assms(3) by (simp add: z_def)
qed

lemma makedev_parts:
  assumes "maj < 2 ^ 32" "mnr < 2 ^ 32"
  shows "major (makedev maj mnr) = maj" "minor (makedev maj mnr) = mnr"
proof -
  have m: "makedev maj mnr =
      mnr mod 2 ^ 8 + maj mod 2 ^ 12 * 2 ^ 8 + mnr div 2 ^ 8 * 2 ^ 20 + maj div 2 ^ 12 * 2 ^ 44"
    using assms by (simp add: makedev_def u32_def)
  have "mnr div 2 ^ 8 < 2 ^ 24" "maj div 2 ^ 12 < 2 ^ 20" using assms by simp_all
  note s = split_dev [OF _ _ this(1), of "mnr mod 2 ^ 8" "maj mod 2 ^ 12" "maj div 2 ^ 12", folded m] this
  show "major (makedev maj mnr) = maj" "minor (makedev maj mnr) = mnr"
    using s by (simp_all add: major_def minor_def)
qed

lemma makedev_major_minor:
  assumes "d < max64"
  shows "makedev (major d) (minor d) = d" "major d < 2 ^ 32" "minor d < 2 ^ 32"
proof -
  define a b c e where "a = d mod 2 ^ 8" and "b = d div 2 ^ 8 mod 2 ^ 12" and "c = d div 2 ^ 20 mod 2 ^ 24"
    and "e = d div 2 ^ 44"
  have r: "a < 2 ^ 8" "b < 2 ^ 12" "c < 2 ^ 24" "e < 2 ^ 20" using assms by (simp_all add: a_def b_def c_def e_def)
  have "d div 2 ^ 20 = d div 2 ^ 8 div 2 ^ 12" "d div 2 ^ 44 = d div 2 ^ 20 div 2 ^ 24" by (simp_all add: div_mult2_eq [symmetric])
  then have "d = a + (b + (c + e * 2 ^ 24) * 2 ^ 12) * 2 ^ 8"
    unfolding a_def b_def c_def e_def by (simp only: mod_div_mult_eq)
  then have d: "d = a + b * 2 ^ 8 + c * 2 ^ 20 + e * 2 ^ 44" by (simp add: algebra_simps)
  have mm: "major d = b + e * 2 ^ 12" "minor d = a + c * 2 ^ 8"
    using r by (simp_all add: major_def minor_def a_def b_def c_def e_def)
  show l: "major d < 2 ^ 32" "minor d < 2 ^ 32" unfolding mm using r by simp_all
  have "makedev (b + e * 2 ^ 12) (a + c * 2 ^ 8) = a + b * 2 ^ 8 + c * 2 ^ 20 + e * 2 ^ 44"
    unfolding makedev_def Let_def u32_def using r l by (simp add: mm)
  then show "makedev (major d) (minor d) = d" unfolding mm d [symmetric] .
qed

section \<open>Reading one block\<close>

text \<open>What the reader checks of a block before it looks at the type.\<close>

definition readable_header :: "tar_header \<Rightarrow> bool" where
  "readable_header h \<longleftrightarrow> header_wf h \<and> is_checksum_valid h \<and> h_magic h = ascii ''ustar '' \<and> h_version h = ascii '' '' @ [0]"

lemma readable_version:
  assumes "readable_header h"
  shows "check_version h = ETV_PRE_POSIX"
proof -
  have "ascii ''ustar '' ! 0 \<noteq> zeros 6 ! 0" by (simp add: ascii_def)
  then have "ascii ''ustar '' \<noteq> zeros 6" by metis
  moreover have "ascii ''ustar '' \<noteq> ascii ''ustar'' @ [0]" by (simp add: ascii_def)
  ultimately show ?thesis using assms by (simp add: readable_header_def check_version_def)
qed

lemma readable_not_zero:
  assumes "readable_header h"
  shows "\<not> is_zero_block (header_bytes h)"
proof
  assume z: "is_zero_block (header_bytes h)"
  have wf: "header_wf h" using assms by (simp add: readable_header_def)
  have "header_bytes h ! 257 = 0" using is_zero_block_nth [OF z length_header_bytes [OF wf]] by simp
  then show False using header_bytes_magic [OF wf] assms by (simp add: readable_header_def ascii_def)
qed

definition padding :: "nat \<Rightarrow> nat" where
  "padding n = (if n mod 512 = 0 then 0 else 512 - n mod 512)"

context istream_source
begin

lemma read_block_ok:
  assumes "good_stream fp" "pending fp = header_bytes h @ rest" "readable_header h"
  shows "\<exists>fp'. istream_read pc fp 512 = (Some (header_bytes h), fp') \<and> good_stream fp' \<and> pending fp' = rest"
  using istream_read_ok [OF assms(1), of 512] assms(2) length_header_bytes [of h] assms(3)
  by (auto simp: readable_header_def)

lemma record_to_memory_ok:
  assumes "good_stream fp" "pending fp = payload @ zeros (padding (length payload)) @ rest" "length payload \<le> 0x7FFFFFFF"
    "mem (length payload + 1)"
  shows "\<exists>fp'. record_to_memory mem pc fp (length payload) = (Some payload, fp') \<and> good_stream fp' \<and> pending fp' = rest"
proof -
  obtain f1 where f1: "istream_read pc fp (length payload) = (Some payload, f1)" "good_stream f1"
      "pending f1 = zeros (padding (length payload)) @ rest"
    using istream_read_ok [OF assms(1,3)] assms(2) by auto
  have "\<exists>f2. skip_padding pc f1 (length payload) = (Some (), f2) \<and> good_stream f2 \<and> pending f2 = rest"
  proof (cases "length payload mod 512 = 0")
    case True
    then show ?thesis using f1 by (simp add: skip_padding_def padding_def zeros_def)
  next
    case False
    then show ?thesis
      using istream_skip_ok [OF f1(2), of "padding (length payload)"] f1(3)
      by (auto simp: skip_padding_def padding_def Let_def)
  qed
  then show ?thesis using f1 assms(4) by (auto simp: record_to_memory_def)
qed

lemma read_gnu_record_ok:
  assumes "good_stream fp" "pending fp = payload @ zeros (padding (length payload)) @ rest"
    "read_number (h_size h) = Some (length payload)" "1 \<le> length payload" "length payload \<le> 65536" "mem (length payload + 1)"
  shows "\<exists>fp'. read_gnu_record mem pc fp h 65536 = (Some payload, fp') \<and> good_stream fp' \<and> pending fp' = rest"
  using record_to_memory_ok [of fp payload rest mem] assms by (auto simp: read_gnu_record_def)

lemma header_step_block:
  assumes "good_stream fp" "pending fp = header_bytes h @ rest" "readable_header h"
  shows "\<exists>fp'. good_stream fp' \<and> pending fp' = rest \<and>
    (h_typeflag h = TAR_TYPE_GNU_SLINK \<longrightarrow>
       header_step mem pc fp S z out =
         (case read_gnu_record mem pc fp' h TAR_MAX_SYMLINK_LEN of
            (None, fp) \<Rightarrow> Some (Done HdrFail fp)
          | (Some s, fp) \<Rightarrow> Some (Next fp (insert PAX_SLINK_TARGET S) False (out\<lparr>d_link_target := Some (cstr s)\<rparr>)))) \<and>
    (h_typeflag h = TAR_TYPE_GNU_PATH \<longrightarrow>
       header_step mem pc fp S z out =
         (case read_gnu_record mem pc fp' h TAR_MAX_PATH_LEN of
            (None, fp) \<Rightarrow> Some (Done HdrFail fp)
          | (Some s, fp) \<Rightarrow> Some (Next fp (insert PAX_NAME S) False (out\<lparr>d_name := Some (cstr s)\<rparr>)))) \<and>
    (h_typeflag h \<notin> {TAR_TYPE_GNU_SLINK, TAR_TYPE_GNU_PATH, TAR_TYPE_PAX_GLOBAL, TAR_TYPE_PAX, TAR_TYPE_GNU_SPARSE} \<longrightarrow>
       header_step mem pc fp S z out = (case finish_header mem pc fp' h S out of (r, fp) \<Rightarrow> Some (Done r fp)))"
proof -
  obtain fp' where fp': "istream_read pc fp 512 = (Some (header_bytes h), fp')" "good_stream fp'" "pending fp' = rest"
    using read_block_ok [OF assms] by blast
  have wf: "header_wf h" "is_checksum_valid h" using assms(3) by (simp_all add: readable_header_def)
  note s = length_header_bytes [OF wf(1)] header_of_header_bytes [OF wf(1)] readable_not_zero [OF assms(3)]
    readable_version [OF assms(3)] wf(2)
  have types: "TAR_TYPE_GNU_PATH \<noteq> TAR_TYPE_GNU_SLINK" by (simp add: TAR_TYPE_GNU_PATH_def TAR_TYPE_GNU_SLINK_def)
  show ?thesis
    using fp' s types by (intro exI [of _ fp']) (simp add: header_step_def Let_def)
qed

end

section \<open>Decoding what was written\<close>

lemma cstr_pad_to: "0 \<notin> set s \<Longrightarrow> cstr (pad_to n s) = s"
proof -
  assume "0 \<notin> set s"
  then have "takeWhile (\<lambda>c. c \<noteq> 0) (s @ zeros (n - length s)) = s @ takeWhile (\<lambda>c. c \<noteq> 0) (zeros (n - length s))"
    by (intro takeWhile_append2) auto
  moreover have "takeWhile (\<lambda>c. c \<noteq> 0) (zeros k) = []" for k by (cases k) (simp_all add: zeros_def)
  ultimately show ?thesis by (simp add: cstr_def pad_to_def)
qed

lemma cstr_id: "0 \<notin> set s \<Longrightarrow> cstr s = s"
  using cstr_pad_to [of s 0] by (simp add: pad_to_def zeros_def)

lemma cstr_zeros: "cstr (zeros n) = []"
  by (cases n) (simp_all add: cstr_def zeros_def)

lemma read_octal_write_number:
  assumes "p < 0x1000"
  shows "read_octal (write_number p 8) = Some p"
proof -
  have m: "number_mask 7 = 8 ^ 7 - 1" by (rule number_mask_eq) simp
  have p: "p < 8 ^ 7" "p < max64" using assms by simp_all
  have "write_number p 8 = padded 7 (digits_of 8 p) @ [0x20]"
    using assms digits_of_8(1) [OF p(1) _ p(2)] m by (simp add: write_number_def Let_def u32_def)
  then show ?thesis using read_octal_digits' [OF p(1) _ p(2), of "[0x20]"] by simp
qed

lemma read_small_8: "v < 2 ^ 32 \<Longrightarrow> read_number (write_number v 8) = Some v"
  using read_write_number(1) [of 8 v] by simp

definition stored_size :: "nat \<Rightarrow> nat" where
  "stored_size sz = (if sz < 8 ^ 12 then sz mod 2 ^ 32 else sz)"

definition stored_mtime :: "nat \<Rightarrow> int" where
  "stored_mtime t = (if t < 2 ^ 36 then int t mod 2 ^ 32 else s64 t)"

lemma read_mtime:
  assumes "t < max64" "t \<noteq> 2 ^ 63"
  shows "\<exists>field. read_number (write_number_signed (s64 t) 12) = Some field \<and> signed_field field = stored_mtime t"
proof -
  have "(0 \<le> s64 t \<and> s64 t < 2 ^ 36) = (t < 2 ^ 36)" using assms(1) by (auto simp: s64_def)
  then show ?thesis
    using read_write_number_signed [of "s64 t"] s64_range [OF assms] by (auto simp: stored_mtime_def s64_def)
qed

lemma decode_numbers_ok:
  assumes "read_number (h_size h) = Some sz" "read_number (h_uid h) = Some uid" "read_number (h_gid h) = Some gid"
    "read_number (h_devmajor h) = Some maj" "read_number (h_devminor h) = Some mnr" "read_number (h_mtime h) = Some mt"
    "read_octal (h_mode h) = Some md" "md < 0x1000" "uid < 2 ^ 32" "gid < 2 ^ 32" "maj < 2 ^ 32" "mnr < 2 ^ 32"
    "S \<subseteq> {PAX_NAME, PAX_SLINK_TARGET}" "st_rdev out = 0"
  shows "decode_numbers h S out = Some (out\<lparr>record_size := sz, st_uid := uid, st_gid := gid, st_rdev := makedev maj mnr,
    d_mtime := signed_field mt, st_mode := md\<rparr>)"
proof -
  have "minor 0 = 0" by (simp add: minor_def)
  then have "major (makedev maj (minor 0)) = maj" using makedev_parts [of maj 0] assms(11) by simp
  moreover have "PAX_SIZE \<notin> S" "PAX_UID \<notin> S" "PAX_GID \<notin> S" "PAX_DEV_MAJ \<notin> S" "PAX_DEV_MIN \<notin> S" "PAX_MTIME \<notin> S"
    using assms(13) by auto
  ultimately show ?thesis using assms(1-12,14) by (simp add: decode_numbers_def u32_def)
qed

definition tar_mode :: "tree_node \<Rightarrow> nat" where
  "tar_mode n =
     (case n_type n of
        TREE_NODE_FILE \<Rightarrow> permissions n OR S_IFREG
      | TREE_NODE_DIR \<Rightarrow> permissions n OR S_IFDIR
      | TREE_NODE_CHAR_DEV \<Rightarrow> permissions n OR S_IFCHR
      | TREE_NODE_BLOCK_DEV \<Rightarrow> permissions n OR S_IFBLK
      | TREE_NODE_FIFO \<Rightarrow> permissions n OR S_IFIFO
      | TREE_NODE_SYMLINK \<Rightarrow> S_IFLNK OR 0x1FF
      | _ \<Rightarrow> permissions n)"

definition node_size :: "tree_node \<Rightarrow> nat" where
  "node_size n = (if n_type n = TREE_NODE_FILE then f_size (n_file n) else 0)"

text \<open>What the reader is to find for a node. The size and the time are as the header can represent them.\<close>

definition tar_entry :: "tree_node \<Rightarrow> byte list \<Rightarrow> byte list option \<Rightarrow> tar_header_decoded" where
  "tar_entry n nm target =
     \<lparr>st_mode = tar_mode n, st_uid = n_uid n, st_gid = n_gid n, st_rdev = (if is_device n then device_number n else 0),
      st_mtime = stored_mtime (n_mtime n), sb_size = stored_size (node_size n), d_name = Some nm, d_link_target = target,
      d_sparse = [], actual_size = stored_size (node_size n), record_size = stored_size (node_size n),
      unknown_record = False, is_hard_link = False, xattr = [], d_mtime = stored_mtime (n_mtime n)\<rparr>"

lemma make_header_readable: "node_numbers_ok n \<Longrightarrow> readable_header (make_header n nm slink ty)"
proof -
  assume n: "node_numbers_ok n"
  have "header_wf ((make_header n nm slink ty)\<lparr>h_chksum := zeros 8\<rparr>)"
    using make_header_wf [OF n, of nm slink ty] by (simp add: header_wf_def)
  then have "is_checksum_valid (update_checksum ((make_header n nm slink ty)\<lparr>h_chksum := zeros 8\<rparr>))"
    by (rule update_checksum_ok)
  moreover have "update_checksum ((make_header n nm slink ty)\<lparr>h_chksum := zeros 8\<rparr>) = make_header n nm slink ty"
    by (simp add: make_header_def update_checksum_def get_checksum_def Let_def)
  ultimately show ?thesis
    using make_header_wf [OF n] by (simp add: readable_header_def) (simp add: make_header_def update_checksum_def Let_def)
qed

lemma make_header_fields:
  "h_name (make_header n nm slink ty) = pad_to 100 (take 99 nm)"
  "h_linkname (make_header n nm slink ty) = (case slink of None \<Rightarrow> zeros 100 | Some t \<Rightarrow> pad_to 100 (take 99 t))"
  "h_typeflag (make_header n nm slink ty) = ty"
  "h_tail (make_header n nm slink ty) = zeros 167"
  "h_size (make_header n nm slink ty) = write_number (node_size n) 12"
  by (simp_all add: make_header_def update_checksum_def Let_def node_size_def)

lemma decode_make_header:
  assumes n: "node_numbers_ok n" and S: "S \<subseteq> {PAX_NAME, PAX_SLINK_TARGET}" and "st_rdev out = 0"
  shows "decode_numbers (make_header n nm slink ty) S out =
    Some (out\<lparr>record_size := stored_size (node_size n), st_uid := n_uid n, st_gid := n_gid n,
      st_rdev := (if is_device n then device_number n else 0), d_mtime := stored_mtime (n_mtime n), st_mode := permissions n\<rparr>)"
proof -
  let ?h = "make_header n nm slink ty"
  obtain mt where mt: "read_number (write_number_signed (s64 (n_mtime n)) 12) = Some mt"
      "signed_field mt = stored_mtime (n_mtime n)"
    using read_mtime [of "n_mtime n"] n by (auto simp: node_numbers_ok_def)
  let ?maj = "if is_device n then major (device_number n) else 0"
  let ?mnr = "if is_device n then minor (device_number n) else 0"
  have dev: "int_arg ?maj = ?maj" "int_arg ?mnr = ?mnr" "?maj < 2 ^ 32" "?mnr < 2 ^ 32"
    using n by (auto simp: node_numbers_ok_def int_arg_def)
  have mk: "makedev ?maj ?mnr = (if is_device n then device_number n else 0)"
    using n makedev_major_minor(1) [of "device_number n"] by (simp add: node_numbers_ok_def) (simp add: makedev_def u32_def)
  have "h_uid ?h = write_number (n_uid n) 8" "h_gid ?h = write_number (n_gid n) 8" "h_mode ?h = write_number (permissions n) 8"
    "h_devmajor ?h = write_number ?maj 8" "h_devminor ?h = write_number ?mnr 8"
    "h_mtime ?h = write_number_signed (s64 (n_mtime n)) 12"
    using dev(1,2) by (simp_all add: make_header_def update_checksum_def Let_def)
  moreover have "read_number (write_number (node_size n) 12) = Some (stored_size (node_size n))"
    using read_write_number(1) [of 12 "node_size n"] n by (simp add: node_numbers_ok_def stored_size_def node_size_def)
  ultimately have "decode_numbers ?h S out = Some (out\<lparr>record_size := stored_size (node_size n), st_uid := n_uid n, st_gid := n_gid n,
      st_rdev := makedev ?maj ?mnr, d_mtime := signed_field mt, st_mode := permissions n\<rparr>)"
    using n dev(3,4) S assms(3) mt(1) by (intro decode_numbers_ok)
      (simp_all add: make_header_fields read_small_8 read_octal_write_number node_numbers_ok_def)
  then show ?thesis unfolding mk mt(2) .
qed

lemmas type_defs = TAR_TYPE_FILE_def TAR_TYPE_LINK_def TAR_TYPE_SLINK_def TAR_TYPE_CHARDEV_def TAR_TYPE_BLOCKDEV_def
  TAR_TYPE_DIR_def TAR_TYPE_FIFO_def TAR_TYPE_GNU_SLINK_def TAR_TYPE_GNU_PATH_def TAR_TYPE_GNU_SPARSE_def TAR_TYPE_PAX_def
  TAR_TYPE_PAX_GLOBAL_def

lemma decode_type_node:
  assumes "tar_type (n_type n) = Some ty" "st_mode out = permissions n" "\<not> is_hard_link out"
  shows "decode_type ty out = out\<lparr>unknown_record := False, st_mode := tar_mode n\<rparr>"
  using assms by (cases "n_type n"; force simp: tar_type_def decode_type_def tar_mode_def type_defs Let_def)

lemma tar_type_facts:
  assumes "tar_type (n_type n) = Some ty"
  shows "ty \<noteq> TAR_TYPE_LINK" "ty = TAR_TYPE_SLINK \<longleftrightarrow> n_type n = TREE_NODE_SYMLINK"
    and "ty \<notin> {TAR_TYPE_GNU_SLINK, TAR_TYPE_GNU_PATH, TAR_TYPE_PAX_GLOBAL, TAR_TYPE_PAX, TAR_TYPE_GNU_SPARSE}"
  using assms by (cases "n_type n"; force simp: tar_type_def type_defs)+

lemma finish_make_header:
  fixes n nm slink ty
  defines "h \<equiv> make_header n nm slink ty"
  assumes n: "node_numbers_ok n" and ty: "tar_type (n_type n) = Some ty" and S: "S \<subseteq> {PAX_NAME, PAX_SLINK_TARGET}"
    and nm: "PAX_NAME \<notin> S \<longrightarrow> length nm < 100 \<and> 0 \<notin> set nm"
  shows "finish_header (\<lambda>_. True) pc fp h S (no_header\<lparr>d_name := x, d_link_target := y\<rparr>) =
    (Hdr ((tar_entry n nm (if n_type n = TREE_NODE_SYMLINK \<and> PAX_SLINK_TARGET \<notin> S then Some (cstr (h_linkname h)) else y))
       \<lparr>d_name := (if PAX_NAME \<in> S then x else Some nm)\<rparr>), fp)"
proof -
  have v: "check_version h = ETV_PRE_POSIX" using readable_version [OF make_header_readable [OF n]] by (simp add: h_def)
  have name: "decode_name h ETV_PRE_POSIX = nm" if "PAX_NAME \<notin> S"
    using nm that by (simp add: decode_name_def h_def make_header_fields cstr_pad_to)
  have sp: "PAX_SPARSE_GNU_1_X \<notin> S" using S by auto
  let ?o = "no_header\<lparr>d_name := (if PAX_NAME \<in> S then x else Some nm), d_link_target := y\<rparr>"
  have num: "decode_numbers h S ?o =
      Some (?o\<lparr>record_size := stored_size (node_size n), st_uid := n_uid n, st_gid := n_gid n,
        st_rdev := (if is_device n then device_number n else 0), d_mtime := stored_mtime (n_mtime n), st_mode := permissions n\<rparr>)"
    unfolding h_def by (rule decode_make_header [OF n S]) (simp add: no_header_def)
  have out: "(if PAX_NAME \<notin> S then (no_header\<lparr>d_name := x, d_link_target := y\<rparr>)\<lparr>d_name := Some (decode_name h ETV_PRE_POSIX)\<rparr>
      else no_header\<lparr>d_name := x, d_link_target := y\<rparr>) = ?o"
    using name by simp
  note t = decode_type_node [OF ty] tar_type_facts [OF ty]
  have tf: "h_typeflag h = ty" by (simp add: h_def make_header_fields)
  have "decode_header (\<lambda>_. True) h S (no_header\<lparr>d_name := x, d_link_target := y\<rparr>) ETV_PRE_POSIX =
      Some ((tar_entry n nm (if n_type n = TREE_NODE_SYMLINK \<and> PAX_SLINK_TARGET \<notin> S then Some (cstr (h_linkname h)) else y))
       \<lparr>d_name := (if PAX_NAME \<in> S then x else Some nm), sb_size := 0, actual_size := 0\<rparr>)"
    unfolding decode_header_def out num Let_def tf
    using t(2,3) by (simp add: decode_header_def t(1) no_header_def tar_entry_def)
  then show ?thesis
    using sp by (simp add: finish_header_def v tar_entry_def)
qed

section \<open>The bytes of an entry\<close>

definition gnu_record :: "tree_node \<Rightarrow> byte list \<Rightarrow> byte \<Rightarrow> byte list \<Rightarrow> byte list" where
  "gnu_record n payload ty nm =
     header_bytes (make_header (gnu_dummy n (length payload)) nm None ty) @ payload @ zeros (padding (length payload))"

definition target_record :: "tree_node \<Rightarrow> nat \<Rightarrow> byte list" where
  "target_record n counter =
     (if n_type n = TREE_NODE_SYMLINK \<and> length (link_target n) \<ge> 100
      then gnu_record n (ascii (link_target n)) TAR_TYPE_GNU_SLINK (with_counter ''gnu/target'' counter) else [])"

definition name_record :: "tree_node \<Rightarrow> byte list \<Rightarrow> nat \<Rightarrow> byte list" where
  "name_record n nm counter =
     (if length nm \<ge> 100 then gnu_record n nm TAR_TYPE_GNU_PATH (with_counter ''gnu/name'' counter) else [])"

definition last_record :: "tree_node \<Rightarrow> byte list \<Rightarrow> nat \<Rightarrow> byte list" where
  "last_record n nm counter =
     (case tar_type (n_type n) of
        None \<Rightarrow> []
      | Some ty \<Rightarrow>
          header_bytes (make_header n (if length nm \<ge> 100 then with_counter ''gnu/data'' counter else nm)
            (if n_type n = TREE_NODE_SYMLINK \<and> length (link_target n) < 100 then Some (ascii (link_target n)) else None) ty))"

definition entry_bytes :: "tree_node \<Rightarrow> byte list \<Rightarrow> nat \<Rightarrow> byte list" where
  "entry_bytes n nm counter = target_record n counter @ name_record n nm counter @ last_record n nm counter"

lemma length_ascii [simp]: "length (ascii s) = length s"
  by (simp add: ascii_def)

context ostream_sink
begin

lemma write_gnu_header_ok:
  assumes "room fp (length (gnu_record n payload ty nm) + k)"
  shows "\<exists>fp'. write_gnu_header strm fp n payload ty nm = (Some (), fp') \<and> view fp' = upd (view fp) (gnu_record n payload ty nm) \<and>
    room fp' k"
proof -
  let ?h = "header_bytes (make_header (gnu_dummy n (length payload)) nm None ty)"
  have "room fp (length ?h + (length payload + (padding (length payload) + k)))"
    using assms by (simp add: gnu_record_def add.assoc)
  from ostream_append_ok [OF this] obtain f1 where f1: "ostream_append strm fp ?h = (Some (), f1)" "view f1 = upd (view fp) ?h"
      "room f1 (length payload + (padding (length payload) + k))"
    by blast
  from ostream_append_ok [OF f1(3)] obtain f2 where f2: "ostream_append strm f1 payload = (Some (), f2)"
      "view f2 = upd (view f1) payload" "room f2 (padding (length payload) + k)"
    by blast
  show ?thesis
  proof (cases "length payload mod 512 = 0")
    case True
    then have "gnu_record n payload ty nm = ?h @ payload" by (simp add: gnu_record_def padding_def zeros_def)
    then show ?thesis
      using f1 f2 True by (simp add: write_gnu_header_def write_header_def TAR_RECORD_SIZE_def padding_def upd_append)
  next
    case False
    then have p: "padding (length payload) = 512 - length payload mod 512" by (simp add: padding_def)
    from ostream_append_sparse_ok [OF f2(3)] f1 f2 False show ?thesis
      by (auto simp: write_gnu_header_def write_header_def TAR_RECORD_SIZE_def p gnu_record_def upd_append Let_def)
  qed
qed

lemma write_long_target_ok:
  assumes "room fp (length (target_record n counter) + k)"
  shows "\<exists>fp'. write_long_target strm fp n counter =
      (Some (if n_type n = TREE_NODE_SYMLINK \<and> length (link_target n) < 100 then Some (ascii (link_target n)) else None), fp') \<and>
    view fp' = upd (view fp) (target_record n counter) \<and> room fp' k"
proof (cases "n_type n = TREE_NODE_SYMLINK \<and> length (link_target n) \<ge> 100")
  case True
  with assms have "room fp (length (gnu_record n (ascii (link_target n)) TAR_TYPE_GNU_SLINK (with_counter ''gnu/target'' counter)) + k)"
    by (simp add: target_record_def)
  from write_gnu_header_ok [OF this] True show ?thesis by (auto simp: write_long_target_def target_record_def Let_def)
next
  case False
  then show ?thesis using assms by (auto simp: write_long_target_def target_record_def upd_Nil)
qed

lemma write_long_name_ok:
  assumes "room fp (length (name_record n nm counter) + k)"
  shows "\<exists>fp'. write_long_name strm fp n nm counter =
      (Some (if length nm \<ge> 100 then with_counter ''gnu/data'' counter else nm), fp') \<and>
    view fp' = upd (view fp) (name_record n nm counter) \<and> room fp' k"
proof (cases "length nm \<ge> 100")
  case True
  with assms have "room fp (length (gnu_record n nm TAR_TYPE_GNU_PATH (with_counter ''gnu/name'' counter)) + k)"
    by (simp add: name_record_def)
  from write_gnu_header_ok [OF this] True show ?thesis by (auto simp: write_long_name_def name_record_def)
next
  case False
  then show ?thesis using assms by (simp add: write_long_name_def name_record_def upd_Nil)
qed

lemma tarfs_write_header_ok:
  fixes fs :: "'v fstree"
  assumes path: "fstree_get_path True fs m = Some path"
    and room: "room fp (length (entry_bytes (nodes fs m) (ascii (fstree_canonicalize_path path)) counter) + k)"
  shows "\<exists>fp'. tarfs_write_header True fs strm fp m counter = (Some (if tar_type (n_type (nodes fs m)) = None then 1 else 0), fp') \<and>
    view fp' = upd (view fp) (entry_bytes (nodes fs m) (ascii (fstree_canonicalize_path path)) counter) \<and> room fp' k"
proof -
  let ?n = "nodes fs m" and ?nm = "ascii (fstree_canonicalize_path path)"
  have "room fp (length (target_record ?n counter) + (length (name_record ?n ?nm counter) + (length (last_record ?n ?nm counter) + k)))"
    using room by (simp add: entry_bytes_def add.assoc)
  from write_long_target_ok [OF this] obtain f1 where f1: "write_long_target strm fp ?n counter =
      (Some (if n_type ?n = TREE_NODE_SYMLINK \<and> length (link_target ?n) < 100 then Some (ascii (link_target ?n)) else None), f1)"
      "view f1 = upd (view fp) (target_record ?n counter)"
      "room f1 (length (name_record ?n ?nm counter) + (length (last_record ?n ?nm counter) + k))"
    by blast
  from write_long_name_ok [OF f1(3)] obtain f2 where f2: "write_long_name strm f1 ?n ?nm counter =
      (Some (if length ?nm \<ge> 100 then with_counter ''gnu/data'' counter else ?nm), f2)"
      "view f2 = upd (view f1) (name_record ?n ?nm counter)" "room f2 (length (last_record ?n ?nm counter) + k)"
    by blast
  show ?thesis
  proof (cases "tar_type (n_type ?n)")
    case None
    then show ?thesis
      using f1 f2 path by (auto simp: tarfs_write_header_def entry_bytes_def last_record_def upd_append Let_def)
  next
    case (Some ty)
    then have l: "last_record ?n ?nm counter = header_bytes (make_header ?n (if length ?nm \<ge> 100 then with_counter ''gnu/data'' counter else ?nm)
        (if n_type ?n = TREE_NODE_SYMLINK \<and> length (link_target ?n) < 100 then Some (ascii (link_target ?n)) else None) ty)"
      by (simp add: last_record_def)
    from ostream_append_ok [OF f2(3)] obtain f3 where f3: "ostream_append strm f2 (last_record ?n ?nm counter) = (Some (), f3)"
        "view f3 = upd (view f2) (last_record ?n ?nm counter)" "room f3 k"
      by blast
    have v: "view f3 = upd (view fp) (entry_bytes ?n ?nm counter)" using f1 f2 f3 by (simp add: entry_bytes_def upd_append)
    have "tarfs_write_header True fs strm fp m counter = (Some 0, f3)"
      unfolding tarfs_write_header_def Let_def f1(1) prod.case option.case path f2(1) Some write_header_def l [symmetric] f3(1) ..
    then show ?thesis using v f3(3) Some by simp
  qed
qed

end

section \<open>Reading an entry back\<close>

lemma gnu_dummy_ok: "node_numbers_ok n \<Longrightarrow> k < max64 \<Longrightarrow> node_numbers_ok (gnu_dummy n k)"
  by (simp add: node_numbers_ok_def gnu_dummy_def is_device_def)

lemma gnu_dummy_size:
  assumes "k \<le> 65536"
  shows "read_number (h_size (make_header (gnu_dummy n k) nm None ty)) = Some k"
  using assms read_write_number(1) [of 12 k] by (simp add: make_header_fields) (simp add: node_size_def gnu_dummy_def)

context istream_source
begin

lemma header_step_gnu:
  assumes "good_stream fp" "pending fp = gnu_record n payload ty nm @ rest" "node_numbers_ok n"
    "1 \<le> length payload" "length payload \<le> 65536" "0 \<notin> set payload"
  shows "ty = TAR_TYPE_GNU_SLINK \<Longrightarrow> \<exists>fp'. good_stream fp' \<and> pending fp' = rest \<and>
      header_step (\<lambda>_. True) pc fp S z out = Some (Next fp' (insert PAX_SLINK_TARGET S) False (out\<lparr>d_link_target := Some payload\<rparr>))"
    and "ty = TAR_TYPE_GNU_PATH \<Longrightarrow> \<exists>fp'. good_stream fp' \<and> pending fp' = rest \<and>
      header_step (\<lambda>_. True) pc fp S z out = Some (Next fp' (insert PAX_NAME S) False (out\<lparr>d_name := Some payload\<rparr>))"
proof -
  let ?h = "make_header (gnu_dummy n (length payload)) nm None ty"
  have rd: "readable_header ?h" using assms(3,5) by (intro make_header_readable gnu_dummy_ok) simp_all
  have pend: "pending fp = header_bytes ?h @ payload @ zeros (padding (length payload)) @ rest"
    using assms(2) by (simp add: gnu_record_def)
  note step = header_step_block [OF assms(1) pend rd, of "\<lambda>_. True" S z out]
  have tf: "h_typeflag ?h = ty" by (simp add: make_header_fields)
  have rec: "\<exists>fp'. read_gnu_record (\<lambda>_. True) pc f1 ?h 65536 = (Some payload, fp') \<and> good_stream fp' \<and> pending fp' = rest"
    if "good_stream f1" "pending f1 = payload @ zeros (padding (length payload)) @ rest" for f1
    using that assms(4,5) by (intro read_gnu_record_ok) (simp_all add: gnu_dummy_size)
  show "\<exists>fp'. good_stream fp' \<and> pending fp' = rest \<and>
      header_step (\<lambda>_. True) pc fp S z out = Some (Next fp' (insert PAX_SLINK_TARGET S) False (out\<lparr>d_link_target := Some payload\<rparr>))"
    if t: "ty = TAR_TYPE_GNU_SLINK"
  proof -
    from step obtain f1 where f1: "good_stream f1" "pending f1 = payload @ zeros (padding (length payload)) @ rest"
        "header_step (\<lambda>_. True) pc fp S z out = (case read_gnu_record (\<lambda>_. True) pc f1 ?h TAR_MAX_SYMLINK_LEN of
            (None, fp) \<Rightarrow> Some (Done HdrFail fp)
          | (Some s, fp) \<Rightarrow> Some (Next fp (insert PAX_SLINK_TARGET S) False (out\<lparr>d_link_target := Some (cstr s)\<rparr>)))"
      using t tf by blast
    from rec [OF f1(1,2)] f1(3) assms(6) show ?thesis by (auto simp: TAR_MAX_SYMLINK_LEN_def cstr_id)
  qed
  show "\<exists>fp'. good_stream fp' \<and> pending fp' = rest \<and>
      header_step (\<lambda>_. True) pc fp S z out = Some (Next fp' (insert PAX_NAME S) False (out\<lparr>d_name := Some payload\<rparr>))"
    if t: "ty = TAR_TYPE_GNU_PATH"
  proof -
    from step obtain f1 where f1: "good_stream f1" "pending f1 = payload @ zeros (padding (length payload)) @ rest"
        "header_step (\<lambda>_. True) pc fp S z out = (case read_gnu_record (\<lambda>_. True) pc f1 ?h TAR_MAX_PATH_LEN of
            (None, fp) \<Rightarrow> Some (Done HdrFail fp)
          | (Some s, fp) \<Rightarrow> Some (Next fp (insert PAX_NAME S) False (out\<lparr>d_name := Some (cstr s)\<rparr>)))"
      using t tf by blast
    from rec [OF f1(1,2)] f1(3) assms(6) show ?thesis by (auto simp: TAR_MAX_PATH_LEN_def cstr_id)
  qed
qed

text \<open>The three parts of an entry, from the last to the first.\<close>

lemma read_last_record:
  assumes fp: "good_stream fp" "pending fp = last_record n nm counter @ rest" and n: "node_numbers_ok n"
    and ty: "tar_type (n_type n) = Some ty" and nm: "0 \<notin> set nm" and tg: "n_type n = TREE_NODE_SYMLINK \<longrightarrow> 0 \<notin> set (ascii (link_target n))"
    and S: "S \<subseteq> {PAX_NAME, PAX_SLINK_TARGET}" "PAX_NAME \<in> S \<longleftrightarrow> 100 \<le> length nm" "PAX_NAME \<in> S \<longrightarrow> x = Some nm"
      "PAX_SLINK_TARGET \<in> S \<longleftrightarrow> n_type n = TREE_NODE_SYMLINK \<and> 100 \<le> length (link_target n)"
      "y = (if PAX_SLINK_TARGET \<in> S then Some (ascii (link_target n)) else None)"
  shows "\<exists>fp'. read_header_loop (\<lambda>_. True) pc fp S z (no_header\<lparr>d_name := x, d_link_target := y\<rparr>) =
      Some (Hdr (tar_entry n nm (if n_type n = TREE_NODE_SYMLINK then Some (ascii (link_target n)) else None)), fp') \<and>
    good_stream fp' \<and> pending fp' = rest"
proof -
  let ?nm = "if length nm \<ge> 100 then with_counter ''gnu/data'' counter else nm"
  let ?sl = "if n_type n = TREE_NODE_SYMLINK \<and> length (link_target n) < 100 then Some (ascii (link_target n)) else None"
  let ?h = "make_header n ?nm ?sl ty"
  have pend: "pending fp = header_bytes ?h @ rest" using fp(2) ty by (simp add: last_record_def)
  have tf: "h_typeflag ?h \<notin> {TAR_TYPE_GNU_SLINK, TAR_TYPE_GNU_PATH, TAR_TYPE_PAX_GLOBAL, TAR_TYPE_PAX, TAR_TYPE_GNU_SPARSE}"
    unfolding make_header_fields by (rule tar_type_facts(3) [OF ty])
  from header_step_block [OF fp(1) pend make_header_readable [OF n], of "\<lambda>_. True" S z "no_header\<lparr>d_name := x, d_link_target := y\<rparr>"]
  obtain f1 where f1: "good_stream f1" "pending f1 = rest"
      "header_step (\<lambda>_. True) pc fp S z (no_header\<lparr>d_name := x, d_link_target := y\<rparr>) =
        (case finish_header (\<lambda>_. True) pc f1 ?h S (no_header\<lparr>d_name := x, d_link_target := y\<rparr>) of (r, fp) \<Rightarrow> Some (Done r fp))"
    using tf by blast
  have fin: "finish_header (\<lambda>_. True) pc f1 ?h S (no_header\<lparr>d_name := x, d_link_target := y\<rparr>) =
      (Hdr ((tar_entry n ?nm (if n_type n = TREE_NODE_SYMLINK \<and> PAX_SLINK_TARGET \<notin> S then Some (cstr (h_linkname ?h)) else y))
        \<lparr>d_name := (if PAX_NAME \<in> S then x else Some ?nm)\<rparr>), f1)"
    using S nm by (intro finish_make_header [OF n ty]) auto
  have ln: "cstr (h_linkname ?h) = ascii (link_target n)" if "n_type n = TREE_NODE_SYMLINK" "length (link_target n) < 100"
    using that tg by (simp add: make_header_fields cstr_pad_to)
  have "(tar_entry n ?nm (if n_type n = TREE_NODE_SYMLINK \<and> PAX_SLINK_TARGET \<notin> S then Some (cstr (h_linkname ?h)) else y))
        \<lparr>d_name := (if PAX_NAME \<in> S then x else Some ?nm)\<rparr> =
      tar_entry n nm (if n_type n = TREE_NODE_SYMLINK then Some (ascii (link_target n)) else None)"
    using S ln by (auto simp: tar_entry_def)
  then show ?thesis using f1 fin by (subst read_header_loop.simps) simp
qed

end

definition entry_ok :: "tree_node \<Rightarrow> byte list \<Rightarrow> bool" where
  "entry_ok n nm \<longleftrightarrow> node_numbers_ok n \<and> tar_type (n_type n) \<noteq> None \<and> 0 \<notin> set nm \<and> length nm \<le> 65536 \<and>
     (n_type n = TREE_NODE_SYMLINK \<longrightarrow> 0 \<notin> set (ascii (link_target n)) \<and> length (link_target n) \<le> 65536)"

context istream_source
begin

lemma read_name_record:
  assumes fp: "good_stream fp" "pending fp = name_record n nm counter @ last_record n nm counter @ rest" and ok: "entry_ok n nm"
    and S: "S \<subseteq> {PAX_SLINK_TARGET}"
      "PAX_SLINK_TARGET \<in> S \<longleftrightarrow> n_type n = TREE_NODE_SYMLINK \<and> 100 \<le> length (link_target n)"
      "y = (if PAX_SLINK_TARGET \<in> S then Some (ascii (link_target n)) else None)"
  shows "\<exists>fp'. read_header_loop (\<lambda>_. True) pc fp S z (no_header\<lparr>d_name := None, d_link_target := y\<rparr>) =
      Some (Hdr (tar_entry n nm (if n_type n = TREE_NODE_SYMLINK then Some (ascii (link_target n)) else None)), fp') \<and>
    good_stream fp' \<and> pending fp' = rest"
proof -
  obtain ty where ty: "tar_type (n_type n) = Some ty" using ok by (auto simp: entry_ok_def)
  have n: "node_numbers_ok n" "0 \<notin> set nm" "n_type n = TREE_NODE_SYMLINK \<longrightarrow> 0 \<notin> set (ascii (link_target n))"
    using ok by (simp_all add: entry_ok_def)
  show ?thesis
  proof (cases "100 \<le> length nm")
    case True
    then have pend: "pending fp = gnu_record n nm TAR_TYPE_GNU_PATH (with_counter ''gnu/name'' counter) @ last_record n nm counter @ rest"
      using fp(2) by (simp add: name_record_def)
    have "1 \<le> length nm" "length nm \<le> 65536" using True ok by (simp_all add: entry_ok_def)
    from header_step_gnu(2) [OF fp(1) pend n(1) this n(2) refl, of S z "no_header\<lparr>d_name := None, d_link_target := y\<rparr>"]
    obtain f1 where f1: "good_stream f1" "pending f1 = last_record n nm counter @ rest"
      "header_step (\<lambda>_. True) pc fp S z (no_header\<lparr>d_name := None, d_link_target := y\<rparr>) =
        Some (Next f1 (insert PAX_NAME S) False ((no_header\<lparr>d_name := None, d_link_target := y\<rparr>)\<lparr>d_name := Some nm\<rparr>))"
      by blast
    have out: "(no_header\<lparr>d_name := None, d_link_target := y\<rparr>)\<lparr>d_name := Some nm\<rparr> = no_header\<lparr>d_name := Some nm, d_link_target := y\<rparr>"
      by simp
    have "\<exists>fp'. read_header_loop (\<lambda>_. True) pc f1 (insert PAX_NAME S) False (no_header\<lparr>d_name := Some nm, d_link_target := y\<rparr>) =
        Some (Hdr (tar_entry n nm (if n_type n = TREE_NODE_SYMLINK then Some (ascii (link_target n)) else None)), fp') \<and>
        good_stream fp' \<and> pending fp' = rest"
      using S True by (intro read_last_record [OF f1(1,2) n(1) ty n(2,3)]) auto
    then show ?thesis using f1(3) unfolding out by (subst read_header_loop.simps) simp
  next
    case False
    then have "pending fp = last_record n nm counter @ rest" using fp(2) by (simp add: name_record_def)
    from read_last_record [OF fp(1) this n(1) ty n(2,3)] show ?thesis using False S by blast
  qed
qed

lemma read_header_entry:
  assumes fp: "good_stream fp" "pending fp = entry_bytes n nm counter @ rest" and ok: "entry_ok n nm"
  shows "\<exists>fp'. read_header (\<lambda>_. True) pc fp =
      Some (Hdr (tar_entry n nm (if n_type n = TREE_NODE_SYMLINK then Some (ascii (link_target n)) else None)), fp') \<and>
    good_stream fp' \<and> pending fp' = rest"
proof -
  have n: "node_numbers_ok n" using ok by (simp add: entry_ok_def)
  have no: "no_header = no_header\<lparr>d_name := None, d_link_target := None\<rparr>" by (simp add: no_header_def)
  show ?thesis
  proof (cases "n_type n = TREE_NODE_SYMLINK \<and> 100 \<le> length (link_target n)")
    case True
    let ?t = "ascii (link_target n)"
    have pend: "pending fp = gnu_record n ?t TAR_TYPE_GNU_SLINK (with_counter ''gnu/target'' counter) @
        name_record n nm counter @ last_record n nm counter @ rest"
      using fp(2) True by (simp add: entry_bytes_def target_record_def)
    have t: "1 \<le> length ?t" "length ?t \<le> 65536" "0 \<notin> set ?t" using True ok by (simp_all add: entry_ok_def)
    from header_step_gnu(1) [OF fp(1) pend n t refl, of "{}" False no_header]
    obtain f1 where f1: "good_stream f1" "pending f1 = name_record n nm counter @ last_record n nm counter @ rest"
      "header_step (\<lambda>_. True) pc fp {} False no_header =
        Some (Next f1 {PAX_SLINK_TARGET} False (no_header\<lparr>d_link_target := Some ?t\<rparr>))"
      by blast
    have out: "no_header\<lparr>d_link_target := Some ?t\<rparr> = no_header\<lparr>d_name := None, d_link_target := Some ?t\<rparr>"
      by (simp add: no_header_def)
    from read_name_record [OF f1(1,2) ok, of "{PAX_SLINK_TARGET}" "Some ?t" False] True f1(3) show ?thesis
      unfolding read_header_def out by (subst read_header_loop.simps) simp
  next
    case False
    then have "pending fp = name_record n nm counter @ last_record n nm counter @ rest"
      using fp(2) by (auto simp: entry_bytes_def target_record_def)
    from read_name_record [OF fp(1) this ok, of "{}" None False] False show ?thesis
      unfolding read_header_def using no by auto
  qed
qed

end

lemma entry_bytes_length:
  assumes "entry_ok n nm"
  shows "length (entry_bytes n nm counter) \<le> 200000"
proof -
  have n: "node_numbers_ok n" using assms by (simp add: entry_ok_def)
  have g: "length (gnu_record n p ty x) \<le> 66560" if "length p \<le> 65536" for p ty x
  proof -
    have "padding (length p) \<le> 512" by (simp add: padding_def)
    moreover have "length (header_bytes (make_header (gnu_dummy n (length p)) x None ty)) = 512"
      using that by (intro length_header_bytes make_header_wf gnu_dummy_ok [OF n]) simp
    ultimately show ?thesis using that by (simp add: gnu_record_def)
  qed
  have "length (target_record n counter) \<le> 66560" using assms by (auto simp: target_record_def entry_ok_def intro!: g)
  moreover have "length (name_record n nm counter) \<le> 66560" using assms by (auto simp: name_record_def entry_ok_def intro!: g)
  moreover have "length (last_record n nm counter) \<le> 512"
    using length_header_bytes [OF make_header_wf [OF n]] by (auto simp: last_record_def split: option.split)
  ultimately show ?thesis by (simp add: entry_bytes_def)
qed

lemma tar_header_read_back:
  fixes fs :: "'v fstree"
  assumes "fstree_get_path True fs m = Some path" "entry_ok (nodes fs m) (ascii (fstree_canonicalize_path path))"
    "benign file0" "fbytes file0 = []" "\<forall>e\<in>set es. e \<noteq> Failing \<and> e \<noteq> Stall"
  shows "\<exists>f1 f2 strm. tarfs_write_header True fs (file_ostream_ops sparse_flag True True) (ostream_open_file file0) m counter = (Some 0, f1) \<and>
    ostream_flush (file_ostream_ops sparse_flag True True) f1 = (Some (), f2) \<and>
    read_header (\<lambda>_. True) file_precache (istream_open_fd \<lparr>fbytes = fbytes (out_fd f2), sched = es\<rparr>) =
      Some (Hdr (tar_entry (nodes fs m) (ascii (fstree_canonicalize_path path))
        (if n_type (nodes fs m) = TREE_NODE_SYMLINK then Some (ascii (link_target (nodes fs m))) else None)), strm)"
proof -
  let ?n = "nodes fs m" and ?nm = "ascii (fstree_canonicalize_path path)"
  let ?b = "entry_bytes ?n ?nm counter"
  have len: "length ?b \<le> 200000" by (rule entry_bytes_length [OF assms(2)])
  have room: "file_room (ostream_open_file file0) (length ?b + 0)" and v: "file_view (ostream_open_file file0) = []"
    using assms(3,4) len by (simp_all add: file_room_def file_view_def ostream_open_file_def zeros_def)
  have tt: "tar_type (n_type ?n) \<noteq> None" using assms(2) by (simp add: entry_ok_def)
  from file_out.tarfs_write_header_ok [OF assms(1) room, of sparse_flag True True] tt v obtain f1 where
    f1: "tarfs_write_header True fs (file_ostream_ops sparse_flag True True) (ostream_open_file file0) m counter = (Some 0, f1)"
      "file_view f1 = ?b" "file_room f1 0"
    by auto
  from file_flush_ok [OF f1(3)] f1(2) obtain f2 where
    f2: "ostream_flush (file_ostream_ops sparse_flag True True) f1 = (Some (), f2)" "fbytes (out_fd f2) = ?b"
    by (auto simp: ostream_flush_def file_ostream_ops_def)
  let ?fd = "\<lparr>fbytes = fbytes (out_fd f2), sched = es\<rparr>"
  have "file_in.good_stream (istream_open_fd ?fd)" "file_in.pending (istream_open_fd ?fd) = ?b @ []"
    using istream_open_fd_ok [of ?fd] assms(5) f2(2) len by (simp_all add: benign_def file_in.fits_def)
  from file_in.read_header_entry [OF this assms(2)] f1(1) f2(1) show ?thesis by blast
qed

text \<open>The entry with the node's own size and time.\<close>

definition exact_entry :: "tree_node \<Rightarrow> byte list \<Rightarrow> tar_header_decoded" where
  "exact_entry n nm =
     \<lparr>st_mode = tar_mode n, st_uid = n_uid n, st_gid = n_gid n, st_rdev = (if is_device n then device_number n else 0),
      st_mtime = s64 (n_mtime n), sb_size = node_size n, d_name = Some nm,
      d_link_target = (if n_type n = TREE_NODE_SYMLINK then Some (ascii (link_target n)) else None),
      d_sparse = [], actual_size = node_size n, record_size = node_size n,
      unknown_record = False, is_hard_link = False, xattr = [], d_mtime = s64 (n_mtime n)\<rparr>"

lemma tar_entry_exact:
  assumes "node_size n < 2 ^ 32 \<or> 2 ^ 36 \<le> node_size n" "n_mtime n < 2 ^ 32 \<or> 2 ^ 36 \<le> n_mtime n"
  shows "tar_entry n nm (if n_type n = TREE_NODE_SYMLINK then Some (ascii (link_target n)) else None) = exact_entry n nm"
proof -
  have "stored_size (node_size n) = node_size n" using assms(1) by (auto simp: stored_size_def)
  moreover have "stored_mtime (n_mtime n) = s64 (n_mtime n)" using assms(2) by (auto simp: stored_mtime_def s64_def)
  ultimately show ?thesis by (simp add: tar_entry_def exact_entry_def)
qed

text \<open>C20: what the tar file system writes for a node is read back by the tar reader. For every node except sockets and hard links
  the header, with the GNU records before it if the name or the link target is long, is written to a file; reading
  a header from that file gives the canonical path of the node, its link target, mode, owner, device number, size and
  time. Excluded are sizes from 4 GiB up to 64 GiB and times from \<open>2 ^ 32\<close> up to \<open>2 ^ 36\<close>, which the writer cuts to 32 bits;
  \<open>entry_ok\<close> further excludes only embedded zero bytes, names and targets above the reader's limit of 65536 bytes, and
  numbers outside the range of their C types.\<close>

theorem tar_header_roundtrip:
  fixes fs :: "'v fstree"
  assumes "fstree_get_path True fs m = Some path" "entry_ok (nodes fs m) (ascii (fstree_canonicalize_path path))"
    "node_size (nodes fs m) < 2 ^ 32 \<or> 2 ^ 36 \<le> node_size (nodes fs m)"
    "n_mtime (nodes fs m) < 2 ^ 32 \<or> 2 ^ 36 \<le> n_mtime (nodes fs m)"
    "benign file0" "fbytes file0 = []" "\<forall>e\<in>set es. e \<noteq> Failing \<and> e \<noteq> Stall"
  shows "\<exists>f1 f2 strm. tarfs_write_header True fs (file_ostream_ops sparse_flag True True) (ostream_open_file file0) m counter = (Some 0, f1) \<and>
    ostream_flush (file_ostream_ops sparse_flag True True) f1 = (Some (), f2) \<and>
    read_header (\<lambda>_. True) file_precache (istream_open_fd \<lparr>fbytes = fbytes (out_fd f2), sched = es\<rparr>) =
      Some (Hdr (exact_entry (nodes fs m) (ascii (fstree_canonicalize_path path))), strm)"
  unfolding tar_entry_exact [OF assms(3,4), symmetric] by (rule tar_header_read_back [OF assms(1,2,5-7)])

text \<open>A symbolic link in the root directory.\<close>

definition demo_link :: tree_node where
  "demo_link = calloc_node\<lparr>n_parent := Some 0, n_name := ''a'', n_type := TREE_NODE_SYMLINK, link_target := ''b'', n_uid := 1000,
     n_mtime := 1700000000, permissions := 511\<rparr>"

definition demo_fs :: "unit fstree" where
  "demo_fs = (let fs = fstree_create () in
     fs\<lparr>nodes := (nodes fs)(0 := (nodes fs 0)\<lparr>children := [1]\<rparr>, 1 := demo_link), node_count := 2\<rparr>)"

lemma demo_fs_facts:
  "nodes demo_fs 1 = demo_link" "fstree_get_path True demo_fs 1 = Some ''/a''" "path_print demo_fs 1 = ''/a''"
  "fstree_canonicalize_path ''/a'' = ''a''" "entry_ok demo_link (ascii ''a'')"
proof -
  show n: "nodes demo_fs 1 = demo_link" by (simp add: demo_fs_def Let_def)
  have "n_parent (nodes demo_fs 0) = None" by (simp add: demo_fs_def Let_def fstree_create_def calloc_node_def)
  then have "path_print demo_fs 0 = []" by (subst path_print.simps) simp
  then show p: "path_print demo_fs 1 = ''/a''" by (subst path_print.simps) (simp only: n, simp add: demo_link_def slash_def)
  show "fstree_get_path True demo_fs 1 = Some ''/a''" unfolding fstree_get_path_def n p by (simp add: demo_link_def)
  show "fstree_canonicalize_path ''/a'' = ''a''"
    by (simp add: fstree_canonicalize_path_def normalize_slashes_def drop_dots.simps squeeze.simps slash_def dot_def)
  show "entry_ok demo_link (ascii ''a'')"
    by (simp add: entry_ok_def node_numbers_ok_def demo_link_def calloc_node_def tar_type_def is_device_def ascii_def)
qed

theorem tar_header_roundtrip_witness:
  "\<exists>f1 f2 strm. tarfs_write_header True demo_fs (file_ostream_ops True True True)
      (ostream_open_file \<lparr>fbytes = [], sched = [Intr]\<rparr>) 1 0 = (Some 0, f1) \<and>
    ostream_flush (file_ostream_ops True True True) f1 = (Some (), f2) \<and>
    read_header (\<lambda>_. True) file_precache (istream_open_fd \<lparr>fbytes = fbytes (out_fd f2), sched = [Short 9]\<rparr>) =
      Some (Hdr \<lparr>st_mode = S_IFLNK OR 0x1FF, st_uid = 1000, st_gid = 0, st_rdev = 0, st_mtime = 1700000000, sb_size = 0,
        d_name = Some (ascii ''a''), d_link_target = Some (ascii ''b''), d_sparse = [], actual_size = 0, record_size = 0,
        unknown_record = False, is_hard_link = False, xattr = [], d_mtime = 1700000000\<rparr>, strm)"
proof -
  note n = demo_fs_facts(1) and p = demo_fs_facts(2) and c = demo_fs_facts(4)
  have ok: "entry_ok (nodes demo_fs 1) (ascii (fstree_canonicalize_path ''/a''))"
    unfolding n c by (rule demo_fs_facts(5))
  have d: "exact_entry demo_link nm = \<lparr>st_mode = S_IFLNK OR 0x1FF, st_uid = 1000, st_gid = 0, st_rdev = 0, st_mtime = 1700000000,
      sb_size = 0, d_name = Some nm, d_link_target = Some (ascii ''b''), d_sparse = [], actual_size = 0, record_size = 0,
      unknown_record = False, is_hard_link = False, xattr = [], d_mtime = 1700000000\<rparr>" for nm
    by (simp add: exact_entry_def demo_link_def calloc_node_def tar_mode_def node_size_def is_device_def s64_def)
  have b: "node_size (nodes demo_fs 1) < 2 ^ 32" "n_mtime (nodes demo_fs 1) < 2 ^ 32"
    unfolding n by (simp_all add: demo_link_def node_size_def)
  show ?thesis
    using tar_header_roundtrip [OF p ok disjI1 [OF b(1)] disjI1 [OF b(2)], of "\<lparr>fbytes = [], sched = [Intr]\<rparr>" "[Short 9]" True 0]
    unfolding n c d by (simp add: benign_def)
qed

section \<open>The size of the headers is known before they are written\<close>

text \<open>The headers that \<open>write_tree_dfs\<close> writes below a node, as one list of bytes, and the counter afterwards. There is no
  result for a tree with a socket, which the tar file system refuses.\<close>

definition node_bytes :: "'v fstree \<Rightarrow> nat \<Rightarrow> nat \<Rightarrow> (nat \<times> byte list) option" where
  "node_bytes fs m counter =
     (if n_parent (nodes fs m) = None then Some (counter, [])
      else if tar_type (n_type (nodes fs m)) = None then None
      else Some (counter + 1, entry_bytes (nodes fs m) (ascii (fstree_canonicalize_path (path_print fs m))) counter))"

fun tree_bytes :: "nat \<Rightarrow> 'v fstree \<Rightarrow> nat \<Rightarrow> nat \<Rightarrow> (nat \<times> byte list) option" where
  "tree_bytes 0 fs m counter = Some (counter, [])"
| "tree_bytes (Suc k) fs m counter =
     (if n_type (nodes fs m) = TREE_NODE_FILE \<or> n_type (nodes fs m) = TREE_NODE_HARD_LINK then Some (counter, [])
      else case node_bytes fs m counter of
          None \<Rightarrow> None
        | Some (c, b) \<Rightarrow>
            if n_type (nodes fs m) = TREE_NODE_DIR
            then fold (\<lambda>x acc. case acc of
                    None \<Rightarrow> None
                  | Some (c, b) \<Rightarrow> (case tree_bytes k fs x c of None \<Rightarrow> None | Some (c', b') \<Rightarrow> Some (c', b @ b')))
                  (children (nodes fs m)) (Some (c, b))
            else Some (c, b))"

lemma fold_None_case: "fold (\<lambda>x acc. case acc of None \<Rightarrow> None | Some y \<Rightarrow> f x y) xs None = None"
  by (induction xs) simp_all

lemma fold_bytes_prefix:
  "fold (\<lambda>x acc. case acc of None \<Rightarrow> None
      | Some (c, b) \<Rightarrow> (case g x c of None \<Rightarrow> None | Some (c', b') \<Rightarrow> Some (c', b @ b'))) xs (Some (c1, b1)) = Some (c2, b2) \<Longrightarrow>
     \<exists>d. b2 = b1 @ d"
proof (induction xs arbitrary: c1 b1)
  case (Cons x xs)
  then show ?case by (cases "g x c1") (fastforce simp: fold_None_case)+
qed simp

context ostream_sink
begin

lemma write_children_ok:
  fixes fs :: "'v fstree"
  assumes IH: "\<And>x c c' b' fp r. tree_bytes k fs x c = Some (c', b') \<Longrightarrow> room fp (length b' + r) \<Longrightarrow>
      \<exists>fp'. write_tree_dfs k True fs strm x (Some c, fp) = (Some c', fp') \<and> view fp' = upd (view fp) b' \<and> room fp' r"
  shows "fold (\<lambda>x acc. case acc of None \<Rightarrow> None
        | Some (c, b) \<Rightarrow> (case tree_bytes k fs x c of None \<Rightarrow> None | Some (c', b') \<Rightarrow> Some (c', b @ b'))) xs (Some (c, b)) = Some (c', b @ d) \<Longrightarrow>
      room fp (length d + r) \<Longrightarrow>
      \<exists>fp'. fold (\<lambda>x st. write_tree_dfs k True fs strm x st) xs (Some c, fp) = (Some c', fp') \<and> view fp' = upd (view fp) d \<and> room fp' r"
proof (induction xs arbitrary: c b d fp)
  case Nil
  then show ?case by (simp add: upd_Nil)
next
  case (Cons x xs)
  let ?f = "\<lambda>x acc. case acc of None \<Rightarrow> None
        | Some (c, b) \<Rightarrow> (case tree_bytes k fs x c of None \<Rightarrow> None | Some (c', b') \<Rightarrow> Some (c', b @ b'))"
  obtain c1 b1 where t: "tree_bytes k fs x c = Some (c1, b1)"
    using Cons.prems(1) by (cases "tree_bytes k fs x c") (auto simp: fold_None_case)
  then have rest: "fold ?f xs (Some (c1, b @ b1)) = Some (c', b @ d)" using Cons.prems(1) by simp
  from fold_bytes_prefix [OF this] obtain d1 where d1: "b @ d = (b @ b1) @ d1" ..
  then have d: "d = b1 @ d1" by simp
  have "room fp (length b1 + (length d1 + r))" using Cons.prems(2) by (simp add: d add.assoc)
  from IH [OF t this] obtain f1 where f1: "write_tree_dfs k True fs strm x (Some c, fp) = (Some c1, f1)"
      "view f1 = upd (view fp) b1" "room f1 (length d1 + r)"
    by blast
  from Cons.IH [OF _ f1(3), of c1 "b @ b1"] rest d1 f1 show ?case by (auto simp: d upd_append)
qed

lemma write_node_ok:
  fixes fs :: "'v fstree"
  assumes "node_bytes fs m c = Some (c1, b1)" "room fp (length b1 + r)"
  shows "\<exists>f1. (if n_parent (nodes fs m) \<noteq> None then (case tarfs_write_header True fs strm fp m c of
          (Some 0, fp) \<Rightarrow> (Some (c + 1), fp) | (_, fp) \<Rightarrow> (None, fp)) else (Some c, fp)) = (Some c1, f1) \<and>
    view f1 = upd (view fp) b1 \<and> room f1 r"
proof (cases "n_parent (nodes fs m) = None")
  case True
  then show ?thesis using assms by (auto simp: node_bytes_def upd_Nil)
next
  case False
  then have p: "fstree_get_path True fs m = Some (path_print fs m)" by (auto simp: fstree_get_path_def)
  have b: "tar_type (n_type (nodes fs m)) \<noteq> None" "c1 = c + 1"
    "b1 = entry_bytes (nodes fs m) (ascii (fstree_canonicalize_path (path_print fs m))) c"
    using assms(1) False by (auto simp: node_bytes_def split: if_splits)
  from tarfs_write_header_ok [OF p, of fp c r] assms(2) b False show ?thesis by auto
qed

lemma write_tree_dfs_ok:
  fixes fs :: "'v fstree"
  shows "tree_bytes k fs m c = Some (c', b) \<Longrightarrow> room fp (length b + r) \<Longrightarrow>
     \<exists>fp'. write_tree_dfs k True fs strm m (Some c, fp) = (Some c', fp') \<and> view fp' = upd (view fp) b \<and> room fp' r"
proof (induction k arbitrary: m c c' b fp r)
  case 0
  then show ?case by (simp add: upd_Nil)
next
  case (Suc k)
  let ?n = "nodes fs m"
  show ?case
  proof (cases "n_type ?n = TREE_NODE_FILE \<or> n_type ?n = TREE_NODE_HARD_LINK")
    case True
    then show ?thesis using Suc.prems by (auto simp: upd_Nil)
  next
    case False
    then obtain c1 b1 where nb: "node_bytes fs m c = Some (c1, b1)"
      using Suc.prems(1) by (cases "node_bytes fs m c") auto
    let ?f = "\<lambda>x acc. case acc of None \<Rightarrow> None
        | Some (c, b) \<Rightarrow> (case tree_bytes k fs x c of None \<Rightarrow> None | Some (c', b') \<Rightarrow> Some (c', b @ b'))"
    have kids: "(if n_type ?n = TREE_NODE_DIR then fold ?f (children ?n) (Some (c1, b1)) else Some (c1, b1)) = Some (c', b)"
      using Suc.prems(1) False nb by simp
    then obtain d where d: "b = b1 @ d" using fold_bytes_prefix [of "tree_bytes k fs" "children ?n" c1 b1] by (auto split: if_splits)
    have "\<exists>f1. (if n_parent ?n \<noteq> None then (case tarfs_write_header True fs strm fp m c of
              (Some 0, fp) \<Rightarrow> (Some (c + 1), fp) | (_, fp) \<Rightarrow> (None, fp)) else (Some c, fp)) = (Some c1, f1) \<and>
        view f1 = upd (view fp) b1 \<and> room f1 (length d + r)"
      using write_node_ok [OF nb, of fp "length d + r"] Suc.prems(2) by (simp add: d add.assoc)
    then obtain f1 where f1: "(if n_parent ?n \<noteq> None then (case tarfs_write_header True fs strm fp m c of
              (Some 0, fp) \<Rightarrow> (Some (c + 1), fp) | (_, fp) \<Rightarrow> (None, fp)) else (Some c, fp)) = (Some c1, f1)"
        "view f1 = upd (view fp) b1" "room f1 (length d + r)"
      by blast
    show ?thesis
    proof (cases "n_type ?n = TREE_NODE_DIR")
      case True
      then have "fold ?f (children ?n) (Some (c1, b1)) = Some (c', b1 @ d)" using kids d by simp
      from write_children_ok [OF Suc.IH this f1(3)] f1 False True show ?thesis by (auto simp: d upd_append)
    next
      case nd: False
      then show ?thesis using kids f1 False d by (auto simp: upd_Nil)
    qed
  qed
qed

end

text \<open>C21: the size that \<open>estimate_tree_size\<close> computes with the null stream is exactly the number of bytes that \<open>write_tree_dfs\<close> then
  writes, so the stream that is limited to this size never overflows: the headers of the tree fill the gap
  at the start of the volume and touch nothing else.\<close>

theorem tarfs_estimate_exact:
  fixes fs :: "'v fstree"
  assumes "tree_bytes (node_count fs) fs (root fs) 0 = Some (c, b)" "fv_inv env bs v" "length b \<le> max_block_count v * bs"
  shows "estimate_tree_size True fs = Some (length b) \<and>
    (\<exists>s. write_tree_dfs (node_count fs) True fs (vol_ostream_ops (file_volume_ops env bs)) (root fs)
        (Some 0, volume_ostream_create v 0 (length b)) = (Some c, s) \<and>
      fbyte (fd (wrapped s)) = poke (fbyte (fd v)) 0 b \<and> fv_inv env bs (wrapped s))"
proof -
  have bsz: "blocksize (file_volume_ops env bs) = bs" by (simp add: file_volume_ops_def)
  have "max_block_count v * bs \<le> 2 ^ 63" using fv.max_bound [OF assms(2)] by (simp add: bsz fv_view_def)
  then have "null_room 0 (length b + 0)" using assms(3) by (simp add: null_room_def)
  from null_out.write_tree_dfs_ok [OF assms(1) this]
  have est: "estimate_tree_size True fs = Some (length b)" by (auto simp: estimate_tree_size_def)
  have "fv.vs_room env bs (volume_ostream_create v 0 (length b)) (length b + 0)"
    unfolding fv.vs_room_def bsz using assms by (simp add: volume_ostream_create_def fv_view_def)
  from fv.vs.write_tree_dfs_ok [OF assms(1) this] obtain s where
    s: "write_tree_dfs (node_count fs) True fs (vol_ostream_ops (file_volume_ops env bs)) (root fs)
        (Some 0, volume_ostream_create v 0 (length b)) = (Some c, s)"
      "fv.vs_view bs s = put_at (fv.vs_view bs (volume_ostream_create v 0 (length b))) b" "fv.vs_room env bs s 0"
    by blast
  then have "fbyte (fd (wrapped s)) = poke (fbyte (fd v)) 0 b" "fv_inv env bs (wrapped s)"
    by (simp_all add: fv.vs_view_def fv.vs_room_def put_at_def volume_ostream_create_def fv_view_def)
  with est s(1) show ?thesis by blast
qed

text \<open>The tree with one symbolic link on a volume of four blocks.\<close>

definition tar_volume :: file_volume where
  "tar_volume =
     \<lparr>fd = \<lparr>fbytes = [], sched = [Short 100]\<rparr>, bitmap = \<lparr>words = [0, 0]\<rparr>, bytes_used = 0, min_block_count = 0, max_block_count = 4\<rparr>"

lemma tar_volume_inv: "fv_inv demo_env 512 tar_volume"
  by (simp add: fv_inv_def demo_env_def tar_volume_def benign_def bitmap_wf_def fbyte_def empty_bitmap)

lemma demo_tree_bytes:
  "tree_bytes (node_count demo_fs) demo_fs (root demo_fs) 0 = Some (1, last_record demo_link (ascii ''a'') 0)"
proof -
  have r: "node_count demo_fs = Suc (Suc 0)" "root demo_fs = 0" "n_type (nodes demo_fs 0) = TREE_NODE_DIR"
    "n_parent (nodes demo_fs 0) = None" "children (nodes demo_fs 0) = [1]"
    by (simp_all add: demo_fs_def Let_def fstree_create_def calloc_node_def)
  have l: "n_type demo_link = TREE_NODE_SYMLINK" "n_parent demo_link = Some 0" "length (link_target demo_link) < 100"
    by (simp_all add: demo_link_def)
  have "node_bytes demo_fs 1 0 = Some (1, last_record demo_link (ascii ''a'') 0)"
    unfolding node_bytes_def demo_fs_facts(1,3,4) l using l(3) by (simp add: tar_type_def entry_bytes_def target_record_def name_record_def)
  moreover have "nodes demo_fs (Suc 0) = demo_link" using demo_fs_facts(1) by simp
  ultimately show ?thesis unfolding r by (simp add: r node_bytes_def [of demo_fs 0] l(1))
qed

theorem tarfs_estimate_exact_witness:
  "estimate_tree_size True demo_fs = Some 512 \<and>
    (\<exists>s. write_tree_dfs 2 True demo_fs (vol_ostream_ops (file_volume_ops demo_env 512)) 0
        (Some 0, volume_ostream_create tar_volume 0 512) = (Some 1, s) \<and> fv_inv demo_env 512 (wrapped s))"
proof -
  have len: "length (last_record demo_link (ascii ''a'') 0) = 512"
    using demo_fs_facts(5) by (auto simp: last_record_def entry_ok_def intro!: length_header_bytes make_header_wf)
  then have "length (last_record demo_link (ascii ''a'') 0) \<le> max_block_count tar_volume * 512" by (simp add: tar_volume_def)
  from tarfs_estimate_exact [OF demo_tree_bytes tar_volume_inv this] show ?thesis
    unfolding len by (auto simp: demo_fs_def Let_def fstree_create_def)
qed

end
