(* ===== verification/Mbr.thy ===== *)
theory Mbr
  imports Adapter
begin

text \<open>
  The partition manager of \<open>lib/image/partition\<close>: a disk with an MBR partition table (\<open>mbr/disk.c\<close>), its partitions as
  volumes (\<open>mbr/part.c\<close>) and their properties (\<open>meta.c\<close>, \<open>mbr/meta.c\<close>).

  The disk is a record with the state of its volume and the array of partitions; a partition is the disk together with
  an index, so the operations of a partition work on the state of the disk. The operations \<open>vol\<close> of the disk's
  volume are a parameter.
\<close>

unbundle bit_operations_syntax

definition SECTOR_SIZE :: nat where "SECTOR_SIZE = 512"
definition MAX_MBR_PARTITIONS :: nat where "MAX_MBR_PARTITIONS = 4"
definition MBR_PART_ALIGN :: nat where "MBR_PART_ALIGN = 1024 * 1024 div SECTOR_SIZE"
definition MBR_RESERVED :: nat where "MBR_RESERVED = MBR_PART_ALIGN"
definition MAX_CHS :: nat where "MAX_CHS = 63 * 254 * 1023"
definition MAX_LBA :: nat where "MAX_LBA = 0x0FFFFFFF"

type_synonym flags = "64 word"

definition COMMON_PARTITION_FLAG_GROW :: flags where "COMMON_PARTITION_FLAG_GROW = 0x01"
definition COMMON_PARTITION_FLAG_FILL :: flags where "COMMON_PARTITION_FLAG_FILL = 0x02"
definition MBR_PARTITION_FLAG_BOOTABLE :: flags where "MBR_PARTITION_FLAG_BOOTABLE = 0x00010000"

record mbr_partition =
  p_index :: nat
  blk_count_min :: nat
  blk_count :: nat
  blk_used :: nat
  p_flags :: flags

record 'v mbr_disk =
  mbr_volume :: 'v
  part_used :: nat
  partitions :: "mbr_partition list"

abbreviation part_of :: "'v mbr_disk \<Rightarrow> nat \<Rightarrow> mbr_partition" where
  "part_of disk i \<equiv> partitions disk ! i"

definition set_part :: "nat \<Rightarrow> (mbr_partition \<Rightarrow> mbr_partition) \<Rightarrow> 'v mbr_disk \<Rightarrow> 'v mbr_disk" where
  "set_part i f disk = disk\<lparr>partitions := (partitions disk)[i := f (part_of disk i)]\<rparr>"

text \<open>The loops over the used entries of the array that change each entry on its own, and the one that finds the last
  block in use.\<close>

definition map_parts :: "(mbr_partition \<Rightarrow> mbr_partition) \<Rightarrow> 'v mbr_disk \<Rightarrow> 'v mbr_disk" where
  "map_parts f disk =
     disk\<lparr>partitions := map f (take (part_used disk) (partitions disk)) @ drop (part_used disk) (partitions disk)\<rparr>"

definition last_block :: "'v mbr_disk \<Rightarrow> nat" where
  "last_block disk =
     fold (\<lambda>p mx. let current = add64 (p_index p) (sub64 (blk_count p) 1) in if current > mx then current else mx)
       (take (part_used disk) (partitions disk)) 0"

section \<open>Resizing partitions\<close>

text \<open>How many blocks \<open>shrink_partition\<close> really takes away when asked for \<open>diff\<close>.\<close>

definition shrink_diff :: "mbr_partition \<Rightarrow> nat \<Rightarrow> nat" where
  "shrink_diff p diff =
     (let count = blk_count p;
          diff = (if diff mod MBR_PART_ALIGN \<noteq> 0 then diff - diff mod MBR_PART_ALIGN else diff);
          diff = (if diff > count then count else diff);
          diff = (if count - diff < MBR_PART_ALIGN then sub64 count MBR_PART_ALIGN else diff)
      in if sub64 count diff < blk_count_min p then sub64 count (blk_count_min p) else diff)"

definition shrink_partition :: "'v volume \<Rightarrow> 'v mbr_disk \<Rightarrow> nat \<Rightarrow> nat \<Rightarrow> (unit, 'v mbr_disk) io" where
  "shrink_partition vol disk index diff0 =
     (let start = p_index (part_of disk index);
          diff = shrink_diff (part_of disk index) diff0
      in if diff = 0 then (Some (), disk)
         else case discard_blocks vol (mbr_volume disk) (sub64 (last_block disk) diff) diff of
           (None, v) \<Rightarrow> (None, disk\<lparr>mbr_volume := v\<rparr>)
         | (Some _, v) \<Rightarrow>
             (Some (),
              set_part index (\<lambda>p. p\<lparr>blk_count := sub64 (blk_count p) diff\<rparr>)
                (map_parts (\<lambda>p. if p_index p > start then p\<lparr>p_index := sub64 (p_index p) diff\<rparr> else p)
                  (disk\<lparr>mbr_volume := v\<rparr>))))"

definition mbr_shrink_to_fit :: "'v volume \<Rightarrow> 'v mbr_disk \<Rightarrow> nat \<Rightarrow> (unit, 'v mbr_disk) io" where
  "mbr_shrink_to_fit vol disk index =
     (if blk_used (part_of disk index) \<ge> blk_count (part_of disk index) then (Some (), disk)
      else shrink_partition vol disk index (blk_count (part_of disk index) - blk_used (part_of disk index)))"

text \<open>A loop that applies a fallible step to the entries with the given numbers and stops at the first failure.\<close>

fun each_part :: "('v mbr_disk \<Rightarrow> nat \<Rightarrow> (unit, 'v mbr_disk) io) \<Rightarrow> 'v mbr_disk \<Rightarrow> nat list \<Rightarrow> (unit, 'v mbr_disk) io" where
  "each_part step disk [] = (Some (), disk)"
| "each_part step disk (i # is) =
     (case step disk i of (None, disk') \<Rightarrow> (None, disk') | (Some _, disk') \<Rightarrow> each_part step disk' is)"

definition grow_partition :: "'v volume \<Rightarrow> 'v mbr_disk \<Rightarrow> nat \<Rightarrow> nat \<Rightarrow> (unit, 'v mbr_disk) io" where
  "grow_partition vol disk index diff0 =
     (let start = p_index (part_of disk index);
          count = blk_count (part_of disk index)
      in case each_part (\<lambda>d i. if p_index (part_of d i) > start then mbr_shrink_to_fit vol d i else (Some (), d))
             disk [0..<part_used disk] of
           (None, d) \<Rightarrow> (None, d)
         | (Some _, d) \<Rightarrow>
             let diff = (if diff0 mod MBR_PART_ALIGN \<noteq> 0 \<or> diff0 = 0
                         then add64 diff0 (MBR_PART_ALIGN - diff0 mod MBR_PART_ALIGN) else diff0)
             in case volume_memmove vol (mbr_volume d)
                    (mul64 (add64 (add64 start count) diff) SECTOR_SIZE)
                    (mul64 (add64 start count) SECTOR_SIZE)
                    (mul64 (sub64 (last_block d) (sub64 (add64 start count) 1)) SECTOR_SIZE) of
                  (None, v) \<Rightarrow> (None, d\<lparr>mbr_volume := v\<rparr>)
                | (Some _, v) \<Rightarrow>
                    (case volume_write vol v (mul64 (add64 start count) SECTOR_SIZE) None (mul64 diff SECTOR_SIZE) of
                       (None, v) \<Rightarrow> (None, d\<lparr>mbr_volume := v\<rparr>)
                     | (Some _, v) \<Rightarrow>
                         (Some (),
                          set_part index (\<lambda>p. p\<lparr>blk_count := add64 (blk_count p) diff\<rparr>)
                            (map_parts (\<lambda>p. if p_index p > start then p\<lparr>p_index := add64 (p_index p) diff\<rparr> else p)
                              (d\<lparr>mbr_volume := v\<rparr>)))))"

definition get_free_space :: "'v volume \<Rightarrow> 'v mbr_disk \<Rightarrow> nat" where
  "get_free_space vol disk =
     (let free = get_max_block_count vol (mbr_volume disk);
          free = (if free > MAX_LBA then MAX_LBA else free);
          free = (if free mod MBR_PART_ALIGN \<noteq> 0 then free - free mod MBR_PART_ALIGN else free);
          used = fold (\<lambda>p used. add64 used (blk_count p)) (take (part_used disk) (partitions disk)) MBR_RESERVED
      in if used < free then free - used else 0)"

definition mbr_apply_expand_policy :: "'v volume \<Rightarrow> 'v mbr_disk \<Rightarrow> nat \<Rightarrow> (unit, 'v mbr_disk) io" where
  "mbr_apply_expand_policy vol disk index =
     (if p_flags (part_of disk index) AND COMMON_PARTITION_FLAG_FILL = 0 then (Some (), disk)
      else let avail = get_free_space vol disk
           in if blk_count (part_of disk index) \<ge> avail then (Some (), disk)
              else grow_partition vol disk index (avail - blk_count (part_of disk index)))"

section \<open>A partition as a volume\<close>

abbreviation can_grow :: "mbr_partition \<Rightarrow> bool" where
  "can_grow p \<equiv> p_flags p AND COMMON_PARTITION_FLAG_GROW \<noteq> 0"

text \<open>A read behind the end of a partition that can grow clears a whole block, whatever the size of the request is; the
  result holds the bytes that were asked for.\<close>

definition part_read_partial_block ::
  "'v volume \<Rightarrow> nat \<Rightarrow> 'v mbr_disk \<Rightarrow> nat \<Rightarrow> nat \<Rightarrow> nat \<Rightarrow> (byte list, 'v mbr_disk) io" where
  "part_read_partial_block vol k disk index offset sz =
     (let p = part_of disk k
      in if index \<ge> blk_count p then (if \<not> can_grow p then (None, disk) else (Some (zeros sz), disk))
         else case read_partial_block vol (mbr_volume disk) (add64 (p_index p) index) offset sz of
           (r, v) \<Rightarrow> (r, disk\<lparr>mbr_volume := v\<rparr>))"

definition part_write_partial_block ::
  "'v volume \<Rightarrow> nat \<Rightarrow> 'v mbr_disk \<Rightarrow> nat \<Rightarrow> byte list option \<Rightarrow> nat \<Rightarrow> nat \<Rightarrow> (unit, 'v mbr_disk) io" where
  "part_write_partial_block vol k disk index buffer offset sz =
     (let start = p_index (part_of disk k);
          count = blk_count (part_of disk k);
          used = blk_used (part_of disk k)
      in case (if index \<ge> count then
                 (if \<not> can_grow (part_of disk k) then (None, disk)
                  else grow_partition vol disk k (add64 (index - count) 1))
               else (Some (), disk)) of
           (None, d) \<Rightarrow> (None, d)
         | (Some _, d) \<Rightarrow>
             let d = (if index \<ge> used then set_part k (\<lambda>p. p\<lparr>blk_used := add64 index 1\<rparr>) d else d)
             in case write_partial_block vol (mbr_volume d) (add64 start index) buffer offset sz of
                  (r, v) \<Rightarrow> (r, d\<lparr>mbr_volume := v\<rparr>))"

definition part_discard_blocks ::
  "'v volume \<Rightarrow> nat \<Rightarrow> 'v mbr_disk \<Rightarrow> nat \<Rightarrow> nat \<Rightarrow> (unit, 'v mbr_disk) io" where
  "part_discard_blocks vol k disk index count0 =
     (let p = part_of disk k
      in if index \<ge> blk_used p then (Some (), disk)
         else let count = (if count0 > blk_used p - index then blk_used p - index else count0)
              in if count = 0 then (Some (), disk)
                 else let d = (if index + count = blk_used p then set_part k (\<lambda>p. p\<lparr>blk_used := index\<rparr>) disk else disk)
                      in case discard_blocks vol (mbr_volume d) (add64 (p_index p) index) count of
                           (r, v) \<Rightarrow> (r, d\<lparr>mbr_volume := v\<rparr>))"

definition part_move_block_partial ::
  "'v volume \<Rightarrow> nat \<Rightarrow> 'v mbr_disk \<Rightarrow> nat \<Rightarrow> nat \<Rightarrow> nat \<Rightarrow> nat \<Rightarrow> nat \<Rightarrow> (unit, 'v mbr_disk) io" where
  "part_move_block_partial vol k disk src dst src_offset dst_offset sz =
     (let p = part_of disk k; start = p_index p
      in if (src \<ge> blk_count p \<or> dst \<ge> blk_count p) \<and> \<not> can_grow p then (None, disk)
         else if src \<ge> blk_used p \<and> dst \<ge> blk_used p then (Some (), disk)
         else if src \<ge> blk_used p then part_discard_blocks vol k disk dst 1
         else case (if dst \<ge> blk_count p then grow_partition vol disk k (add64 (dst - blk_count p) 1)
                    else (Some (), disk)) of
           (None, d) \<Rightarrow> (None, d)
         | (Some _, d) \<Rightarrow>
             let d = (if dst \<ge> blk_used p then set_part k (\<lambda>p. p\<lparr>blk_used := dst\<rparr>) d else d)
             in case (if src_offset = 0 \<and> dst_offset = 0 \<and> sz = blocksize vol
                      then move_block vol (mbr_volume d) (add64 start src) (add64 start dst)
                      else move_block_partial vol (mbr_volume d) (add64 start src) (add64 start dst)
                             src_offset dst_offset sz) of
                  (r, v) \<Rightarrow> (r, d\<lparr>mbr_volume := v\<rparr>))"

definition part_read_block :: "'v volume \<Rightarrow> nat \<Rightarrow> 'v mbr_disk \<Rightarrow> nat \<Rightarrow> (byte list, 'v mbr_disk) io" where
  "part_read_block vol k disk index = part_read_partial_block vol k disk index 0 (blocksize vol)"

definition part_write_block :: "'v volume \<Rightarrow> nat \<Rightarrow> 'v mbr_disk \<Rightarrow> nat \<Rightarrow> byte list option \<Rightarrow> (unit, 'v mbr_disk) io" where
  "part_write_block vol k disk index buffer = part_write_partial_block vol k disk index buffer 0 (blocksize vol)"

definition part_move_block :: "'v volume \<Rightarrow> nat \<Rightarrow> 'v mbr_disk \<Rightarrow> nat \<Rightarrow> nat \<Rightarrow> (unit, 'v mbr_disk) io" where
  "part_move_block vol k disk src dst = part_move_block_partial vol k disk src dst 0 0 (blocksize vol)"

definition part_commit :: "'v mbr_disk \<Rightarrow> (unit, 'v mbr_disk) io" where
  "part_commit disk = (Some (), disk)"

definition part_set_base_block_count :: "'v volume \<Rightarrow> nat \<Rightarrow> 'v mbr_disk \<Rightarrow> nat \<Rightarrow> (unit, 'v mbr_disk) io" where
  "part_set_base_block_count vol k disk sz =
     (let p = part_of disk k
      in case (if sz > blk_count p then grow_partition vol disk k (sz - blk_count p)
               else if sz < blk_count p \<and> sz > blk_used p then shrink_partition vol disk k (sz - blk_used p)
               else (Some (), disk)) of
           (None, d) \<Rightarrow> (None, d)
         | (Some _, d) \<Rightarrow> (Some (), set_part k (\<lambda>p. p\<lparr>blk_count_min := sz\<rparr>) d))"

definition part_get_flags :: "nat \<Rightarrow> 'v mbr_disk \<Rightarrow> flags" where
  "part_get_flags k disk = p_flags (part_of disk k)"

definition clear_fill :: "'v mbr_disk \<Rightarrow> 'v mbr_disk" where
  "clear_fill = map_parts (\<lambda>p. p\<lparr>p_flags := p_flags p AND NOT COMMON_PARTITION_FLAG_FILL\<rparr>)"

definition part_set_flags :: "nat \<Rightarrow> 'v mbr_disk \<Rightarrow> flags \<Rightarrow> (unit, 'v mbr_disk) io" where
  "part_set_flags k disk flgs =
     (let d = (if flgs AND COMMON_PARTITION_FLAG_FILL \<noteq> 0 then clear_fill disk else disk)
      in (Some (), set_part k (\<lambda>p. p\<lparr>p_flags := flgs\<rparr>) d))"

definition get_min_count :: "nat \<Rightarrow> 'v mbr_disk \<Rightarrow> nat" where
  "get_min_count k disk = blk_count_min (part_of disk k)"

definition get_max_count :: "'v volume \<Rightarrow> nat \<Rightarrow> 'v mbr_disk \<Rightarrow> nat" where
  "get_max_count vol k disk =
     (let count = blk_count (part_of disk k)
      in if can_grow (part_of disk k) then add64 count (get_free_space vol disk) else count)"

definition get_blk_count :: "'v volume \<Rightarrow> nat \<Rightarrow> 'v mbr_disk \<Rightarrow> nat" where
  "get_blk_count vol k disk =
     (if p_flags (part_of disk k) AND COMMON_PARTITION_FLAG_FILL \<noteq> 0 then get_max_count vol k disk
      else blk_count (part_of disk k))"

definition part_truncate :: "'v volume \<Rightarrow> nat \<Rightarrow> 'v mbr_disk \<Rightarrow> nat \<Rightarrow> (unit, 'v mbr_disk) io" where
  "part_truncate vol k disk sz =
     (let p = part_of disk k;
          current = blk_count p;
          count = (if sz mod blocksize vol \<noteq> 0 then sz div blocksize vol + 1 else sz div blocksize vol);
          count = (if count mod MBR_PART_ALIGN \<noteq> 0 then add64 count (MBR_PART_ALIGN - count mod MBR_PART_ALIGN) else count)
      in if count \<le> blk_count_min p then (Some (), disk)
         else if count = current then (Some (), disk)
         else case (if count < current then shrink_partition vol disk k (current - count)
                    else grow_partition vol disk k (count - current)) of
           (None, d) \<Rightarrow> (None, d)
         | (Some _, d) \<Rightarrow> (Some (), set_part k (\<lambda>p. p\<lparr>blk_count := count, blk_used := count\<rparr>) d))"

definition mbr_part_create :: "'v volume \<Rightarrow> nat \<Rightarrow> 'v mbr_disk volume" where
  "mbr_part_create vol k =
     \<lparr>blocksize = blocksize vol,
      get_min_block_count = get_min_count k,
      get_max_block_count = get_max_count vol k,
      get_block_count = get_blk_count vol k,
      vol_truncate = part_truncate vol k,
      read_block = part_read_block vol k,
      read_partial_block = part_read_partial_block vol k,
      write_block = part_write_block vol k,
      write_partial_block = part_write_partial_block vol k,
      move_block = part_move_block vol k,
      move_block_partial = part_move_block_partial vol k,
      discard_blocks = part_discard_blocks vol k,
      vol_commit = part_commit\<rparr>"

section \<open>The disk\<close>

definition lba_to_chs :: "nat \<Rightarrow> byte list" where
  "lba_to_chs lba =
     (let (c, h, s) = (if lba \<ge> MAX_CHS then (1023, 254, 63)
                       else (lba div (254 * 63), lba div 63 mod 254, 1 + lba mod 63)) :: nat \<times> nat \<times> nat
      in [of_nat h, (of_nat (c div 4) AND 0xC0) OR (of_nat s AND 0x3F), of_nat c])"

text \<open>The loop that clears the blocks of a new partition.\<close>

fun clear_blocks :: "'v volume \<Rightarrow> 'v \<Rightarrow> nat \<Rightarrow> nat \<Rightarrow> (unit, 'v) io" where
  "clear_blocks vol v index 0 = (Some (), v)"
| "clear_blocks vol v index (Suc n) =
     (case write_block vol v index None of (None, v) \<Rightarrow> (None, v) | (Some _, v) \<Rightarrow> clear_blocks vol v (add64 index 1) n)"

definition next_free :: "'v mbr_disk \<Rightarrow> nat" where
  "next_free disk =
     fold (\<lambda>p index. let free = add64 (p_index p) (blk_count p) in if free > index then free else index)
       (take (part_used disk) (partitions disk)) MBR_RESERVED"

text \<open>The result is the index of the new partition. \<open>mem\<close> says whether the partition object can be allocated.\<close>

definition mbr_disk_create_parition :: "bool \<Rightarrow> 'v volume \<Rightarrow> 'v mbr_disk \<Rightarrow> nat \<Rightarrow> flags \<Rightarrow> (nat, 'v mbr_disk) io" where
  "mbr_disk_create_parition mem vol disk count0 flgs =
     (if part_used disk = MAX_MBR_PARTITIONS then (None, disk)
      else
        let count = (if count0 = 0 then MBR_PART_ALIGN else count0);
            count = (if count mod MBR_PART_ALIGN \<noteq> 0 then add64 count (MBR_PART_ALIGN - count mod MBR_PART_ALIGN) else count);
            index = next_free disk;
            k = part_used disk;
            d = set_part k (\<lambda>p. p\<lparr>p_index := index, blk_count := count, blk_count_min := count, p_flags := flgs\<rparr>) disk
        in case clear_blocks vol (mbr_volume d) index count of
             (None, v) \<Rightarrow> (None, d\<lparr>mbr_volume := v\<rparr>)
           | (Some _, v) \<Rightarrow>
               if \<not> mem then (None, d\<lparr>mbr_volume := v\<rparr>)
               else let d = d\<lparr>mbr_volume := v\<rparr>;
                        d = (if flgs AND COMMON_PARTITION_FLAG_FILL \<noteq> 0 then clear_fill d else d)
                    in (Some k, d\<lparr>part_used := k + 1\<rparr>))"

definition mbr_entry_bytes :: "mbr_partition \<Rightarrow> byte list" where
  "mbr_entry_bytes p =
     (let lba = u32 (p_index p); count = u32 (blk_count p)
      in [if p_flags p AND MBR_PARTITION_FLAG_BOOTABLE \<noteq> 0 then 0x80 else 0] @
         lba_to_chs lba @ [ucast (drop_bit 20 (p_flags p))] @
         lba_to_chs (if count > 0 then u32 (lba + count - 1) else lba) @
         le32_bytes lba @ le32_bytes count)"

definition mbr_header_bytes :: "'v mbr_disk \<Rightarrow> byte list" where
  "mbr_header_bytes disk =
     replicate 446 0x90 @ concat (map mbr_entry_bytes (take (part_used disk) (partitions disk))) @
     zeros (16 * (MAX_MBR_PARTITIONS - part_used disk)) @ [0x55, 0xAA]"

definition mbr_disk_commit :: "'v volume \<Rightarrow> 'v mbr_disk \<Rightarrow> (unit, 'v mbr_disk) io" where
  "mbr_disk_commit vol disk =
     (case each_part (mbr_shrink_to_fit vol) disk [0..<part_used disk] of
        (None, d) \<Rightarrow> (None, d)
      | (Some _, d) \<Rightarrow>
          (case each_part (mbr_apply_expand_policy vol) d [0..<part_used d] of
             (None, d) \<Rightarrow> (None, d)
           | (Some _, d) \<Rightarrow>
               (case write_block vol (mbr_volume d) 0 (Some (mbr_header_bytes d)) of
                  (None, v) \<Rightarrow> (None, d\<lparr>mbr_volume := v\<rparr>)
                | (Some _, v) \<Rightarrow> (case vol_commit vol v of (r, v) \<Rightarrow> (r, d\<lparr>mbr_volume := v\<rparr>)))))"

definition mbrdisk_create :: "'v volume \<Rightarrow> 'v \<Rightarrow> 'v volume \<times> 'v mbr_disk" where
  "mbrdisk_create base v =
     (if blocksize base = SECTOR_SIZE then base else volume_blocksize_adapter_create base SECTOR_SIZE 0,
      \<lparr>mbr_volume = v, part_used = 0,
       partitions = replicate MAX_MBR_PARTITIONS
         \<lparr>p_index = 0, blk_count_min = 0, blk_count = 0, blk_used = 0, p_flags = 0\<rparr>\<rparr>)"

section \<open>Properties of a partition\<close>

text \<open>The object of the meta objects is the disk with the number of the partition. The configuration reader passes only
  values of the described type, which the setters of the flags rely on without a check.\<close>

definition common_part_prop :: "property_desc list" where
  "common_part_prop =
     [\<lparr>pd_type = PROPERTY_TYPE_BOOL, pd_name = ''grow'', pd_enum = []\<rparr>,
      \<lparr>pd_type = PROPERTY_TYPE_BOOL, pd_name = ''fill'', pd_enum = []\<rparr>]"

definition with_flag :: "flags \<Rightarrow> flags \<Rightarrow> bool \<Rightarrow> flags" where
  "with_flag f m b = (if b then f OR m else f AND NOT m)"

definition part_set_property :: "nat \<Rightarrow> 'v mbr_disk \<times> nat \<Rightarrow> property_value \<Rightarrow> ('v mbr_disk \<times> nat) option" where
  "part_set_property i obj value =
     (let (disk, k) = obj; flgs = part_get_flags k disk
      in case value of
           PropBool b \<Rightarrow>
             (if i = 0 then Some (snd (part_set_flags k disk (with_flag flgs COMMON_PARTITION_FLAG_GROW b)), k)
              else if i = 1 then Some (snd (part_set_flags k disk (with_flag flgs COMMON_PARTITION_FLAG_FILL b)), k)
              else None)
         | _ \<Rightarrow> None)"

definition part_get_property :: "nat \<Rightarrow> 'v mbr_disk \<times> nat \<Rightarrow> property_value option" where
  "part_get_property i obj =
     (let (disk, k) = obj; flgs = part_get_flags k disk
      in if i = 0 then Some (PropBool (flgs AND COMMON_PARTITION_FLAG_GROW \<noteq> 0))
         else if i = 1 then Some (PropBool (flgs AND COMMON_PARTITION_FLAG_FILL \<noteq> 0))
         else None)"

definition partition_meta :: "('v mbr_disk \<times> nat) meta_object" where
  "partition_meta =
     \<lparr>meta_name = ''partition_t'', meta_count = length common_part_prop,
      meta_desc = (\<lambda>i. if i < length common_part_prop then Some (common_part_prop ! i) else None),
      meta_set = part_set_property, meta_get = part_get_property\<rparr>"

definition mbr_types :: "(string \<times> int) list" where
  "mbr_types =
     [(''LinuxSwap'', 0x08200000), (''Linux'', 0x08300000), (''FreeBSD'', 0x0A500000), (''OpenBSD'', 0x0A600000),
      (''NetBSD'', 0x0A900000), (''BSDI'', 0x0B700000), (''Minix'', 0x08100000), (''UnixWare'', 0x06300000)]"

definition mbr_part_prop :: "property_desc list" where
  "mbr_part_prop =
     [\<lparr>pd_type = PROPERTY_TYPE_ENUM, pd_name = ''type'', pd_enum = mbr_types\<rparr>,
      \<lparr>pd_type = PROPERTY_TYPE_BOOL, pd_name = ''bootable'', pd_enum = []\<rparr>]"

definition mbr_part_set_property :: "nat \<Rightarrow> 'v mbr_disk \<times> nat \<Rightarrow> property_value \<Rightarrow> ('v mbr_disk \<times> nat) option" where
  "mbr_part_set_property i obj value =
     (let (disk, k) = obj; flgs = part_get_flags k disk
      in if i = 0 then
           (case value of
              PropEnum ival \<Rightarrow>
                (if (word_of_int ival :: 32 word) AND NOT 0x0FF00000 \<noteq> 0 then None
                 else Some (snd (part_set_flags k disk
                   ((flgs AND NOT 0x0FF00000) OR push_bit 20 (word_of_int ival))), k))
            | _ \<Rightarrow> None)
         else if i = 1 then
           (case value of
              PropBool b \<Rightarrow> Some (snd (part_set_flags k disk (with_flag flgs MBR_PARTITION_FLAG_BOOTABLE b)), k)
            | _ \<Rightarrow> None)
         else None)"

definition mbr_part_get_property :: "nat \<Rightarrow> 'v mbr_disk \<times> nat \<Rightarrow> property_value option" where
  "mbr_part_get_property i obj =
     (let (disk, k) = obj; flgs = part_get_flags k disk
      in if i = 0 then Some (PropEnum (uint (drop_bit 20 flgs AND 0xFF)))
         else if i = 1 then Some (PropBool (flgs AND MBR_PARTITION_FLAG_BOOTABLE \<noteq> 0))
         else None)"

definition mbr_part_meta :: "('v mbr_disk \<times> nat) meta_object" where
  "mbr_part_meta =
     \<lparr>meta_name = ''mbr_part_t'', meta_count = length mbr_part_prop,
      meta_desc = (\<lambda>i. if i < length mbr_part_prop then Some (mbr_part_prop ! i) else None),
      meta_set = mbr_part_set_property, meta_get = mbr_part_get_property\<rparr>"

end
