(* ===== verification/MbrDisk.thy ===== *)
theory MbrDisk
  imports Mbr
begin

text \<open>
  What the partition manager does to the contents of the partitions. The partitions of a disk lie one behind the other, in
  the order in which they were created, and fill the disk from the first mebibyte on. On such a disk, writing to
  a partition is writing to a list of bytes of its own that grows in steps of a mebibyte, whichever partitions
  have to move out of the way; the lists of the other partitions stay the same.

  The proofs are made in the locale \<open>volume\<close>, for every volume with blocks of 512 bytes that keeps the contract.
\<close>

section \<open>Lists of partitions\<close>

definition total_blocks :: "mbr_partition list \<Rightarrow> nat" where
  "total_blocks ps = sum_list (map blk_count ps)"

fun layout :: "nat \<Rightarrow> mbr_partition list \<Rightarrow> bool" where
  "layout s [] \<longleftrightarrow> True"
| "layout s (p # ps) \<longleftrightarrow>
     p_index p = s \<and> 0 < blk_count p \<and> MBR_PART_ALIGN dvd blk_count p \<and> blk_count_min p \<le> blk_count p \<and>
     layout (s + blk_count p) ps"

definition parts :: "'v mbr_disk \<Rightarrow> mbr_partition list" where
  "parts d = take (part_used d) (partitions d)"

definition shift_up :: "nat \<Rightarrow> mbr_partition \<Rightarrow> mbr_partition" where
  "shift_up D p = p\<lparr>p_index := p_index p + D\<rparr>"

definition grown :: "mbr_partition list \<Rightarrow> nat \<Rightarrow> nat \<Rightarrow> mbr_partition list" where
  "grown ps k D = take k ps @ (ps ! k)\<lparr>blk_count := blk_count (ps ! k) + D\<rparr> # map (shift_up D) (drop (Suc k) ps)"

definition part_bytes :: "(nat \<Rightarrow> byte) \<Rightarrow> mbr_partition \<Rightarrow> byte list" where
  "part_bytes c p = peek c (p_index p * SECTOR_SIZE) (blk_count p * SECTOR_SIZE)"

lemma align_pos [simp]: "0 < MBR_PART_ALIGN" "0 < SECTOR_SIZE"
  by (simp_all add: MBR_PART_ALIGN_def SECTOR_SIZE_def)

lemma total_blocks_simps [simp]: "total_blocks [] = 0" "total_blocks (p # ps) = blk_count p + total_blocks ps" "total_blocks (ps @ qs) = total_blocks ps + total_blocks qs"
  by (simp_all add: total_blocks_def)

lemma shift_up_simps [simp]:
  "p_index (shift_up D p) = p_index p + D" "blk_count (shift_up D p) = blk_count p" "blk_used (shift_up D p) = blk_used p"
  "blk_count_min (shift_up D p) = blk_count_min p" "p_flags (shift_up D p) = p_flags p"
  by (simp_all add: shift_up_def)

lemma total_shift [simp]: "total_blocks (map (shift_up D) ps) = total_blocks ps"
  by (induction ps) simp_all

lemma layout_append: "layout s (ps @ qs) \<longleftrightarrow> layout s ps \<and> layout (s + total_blocks ps) qs"
  by (induction ps arbitrary: s) (auto simp: add.assoc)

lemma layout_shift: "layout s ps \<Longrightarrow> layout (s + D) (map (shift_up D) ps)"
proof (induction ps arbitrary: s)
  case (Cons p ps)
  have "layout (s + blk_count p + D) (map (shift_up D) ps)" using Cons by simp
  moreover have "s + blk_count p + D = s + D + blk_count p" by simp
  ultimately have "layout (s + D + blk_count p) (map (shift_up D) ps)" by metis
  then show ?case using Cons.prems by simp
qed simp

lemma layout_split:
  assumes "layout s ps" "k < length ps"
  obtains xs p ys where "ps = xs @ p # ys" "length xs = k" "p = ps ! k" "layout s xs" "p_index p = s + total_blocks xs"
    "0 < blk_count p" "MBR_PART_ALIGN dvd blk_count p" "blk_count_min p \<le> blk_count p"
    "layout (s + total_blocks xs + blk_count p) ys"
proof -
  have "ps = take k ps @ ps ! k # drop (Suc k) ps" using assms(2) by (rule id_take_nth_drop)
  then have "layout s (take k ps @ ps ! k # drop (Suc k) ps)" using assms(1) by simp
  then show thesis
    using assms(2) by (intro that [of "take k ps" "ps ! k" "drop (Suc k) ps"]) (auto simp: layout_append id_take_nth_drop)
qed

lemma layout_before: "layout s ps \<Longrightarrow> p \<in> set ps \<Longrightarrow> s \<le> p_index p \<and> p_index p + blk_count p \<le> s + total_blocks ps \<and> 0 < blk_count p"
proof (induction ps arbitrary: s)
  case (Cons q ps)
  from Cons.prems(2) consider "p = q" | "p \<in> set ps" by auto
  then show ?case
  proof cases
    case 1
    then show ?thesis using Cons.prems(1) by simp
  next
    case 2
    then show ?thesis using Cons.IH [of "s + blk_count q"] Cons.prems(1) by auto
  qed
qed simp

text \<open>Only the partitions behind partition \<open>k\<close> start behind its start, so the loops that compare start sectors move exactly
  those.\<close>

lemma layout_shift_if:
  assumes "layout s ps" "k < length ps"
  shows "map (\<lambda>p. if p_index p > p_index (ps ! k) then shift_up D p else p) ps =
    take (Suc k) ps @ map (shift_up D) (drop (Suc k) ps)"
proof -
  obtain xs p ys where l: "ps = xs @ p # ys" "length xs = k" "p = ps ! k" "layout s xs" "p_index p = s + total_blocks xs"
      "0 < blk_count p" "layout (s + total_blocks xs + blk_count p) ys"
    by (rule layout_split [OF assms])
  have x: "\<not> p_index q > p_index p" if "q \<in> set xs" for q using layout_before [OF l(4) that] l(5) by simp
  have y: "p_index q > p_index p" if "q \<in> set ys" for q using layout_before [OF l(7) that] l(5,6) by linarith
  have "map (\<lambda>q. if p_index q > p_index p then shift_up D q else q) xs = xs" using x by (simp add: map_idI)
  moreover have "map (\<lambda>q. if p_index q > p_index p then shift_up D q else q) ys = map (shift_up D) ys" using y by simp
  moreover have "take (Suc k) ps = xs @ [p]" "drop (Suc k) ps = ys" using l(1,2) by simp_all
  ultimately have "map (\<lambda>q. if p_index q > p_index p then shift_up D q else q) (xs @ p # ys) =
      take (Suc k) ps @ map (shift_up D) (drop (Suc k) ps)" by simp
  then show ?thesis unfolding l(3) [symmetric] using l(1) by simp
qed

lemma grown_eq:
  assumes "k < length ps"
  shows "(take (Suc k) ps @ map (shift_up D) (drop (Suc k) ps))[k := (ps ! k)\<lparr>blk_count := blk_count (ps ! k) + D\<rparr>] = grown ps k D"
  using assms by (simp add: take_Suc_conv_app_nth list_update_append grown_def)

lemma grown_facts:
  assumes "layout s ps" "k < length ps" "MBR_PART_ALIGN dvd D"
  shows "layout s (grown ps k D)" "total_blocks (grown ps k D) = total_blocks ps + D" "length (grown ps k D) = length ps"
    "grown ps k D ! k = (ps ! k)\<lparr>blk_count := blk_count (ps ! k) + D\<rparr>"
proof -
  obtain xs p ys where l: "ps = xs @ p # ys" "length xs = k" "p = ps ! k" "layout s xs" "p_index p = s + total_blocks xs"
      "0 < blk_count p" "MBR_PART_ALIGN dvd blk_count p" "blk_count_min p \<le> blk_count p" "layout (s + total_blocks xs + blk_count p) ys"
    by (rule layout_split [OF assms(1,2)])
  have g: "grown ps k D = xs @ p\<lparr>blk_count := blk_count p + D\<rparr> # map (shift_up D) ys"
    unfolding grown_def l(3) [symmetric] using l(1,2) by simp
  show "layout s (grown ps k D)" "total_blocks (grown ps k D) = total_blocks ps + D" "length (grown ps k D) = length ps"
    unfolding g using l(1,2,4-9) layout_shift [OF l(9), of D] assms(3) by (auto simp: layout_append add_ac)
  show "grown ps k D ! k = (ps ! k)\<lparr>blk_count := blk_count (ps ! k) + D\<rparr>" unfolding g l(3) [symmetric] using l(2) by (auto simp: nth_append)
qed

lemma grown_nth:
  assumes "k < length ps" "j < length ps"
  shows "grown ps k D ! j =
    (if j < k then ps ! j else if j = k then (ps ! k)\<lparr>blk_count := blk_count (ps ! k) + D\<rparr> else shift_up D (ps ! j))"
proof (cases "j \<le> k")
  case False
  then have "j = Suc k + (j - Suc k)" by simp
  then show ?thesis using assms False by (auto simp: grown_def nth_append nth_Cons')
qed (use assms in \<open>auto simp: grown_def nth_append\<close>)

text \<open>Moving everything behind partition \<open>k\<close> up by \<open>D\<close> sectors and clearing the gap appends zeros to the bytes of partition
  \<open>k\<close> and keeps those of all others.\<close>

lemma part_bytes_cong:
  "(\<And>q. p_index p * SECTOR_SIZE \<le> q \<Longrightarrow> q < (p_index p + blk_count p) * SECTOR_SIZE \<Longrightarrow> c q = c' q) \<Longrightarrow>
    part_bytes c p = part_bytes c' p"
  unfolding part_bytes_def by (rule peek_cong) (simp add: add_mult_distrib)

lemma grown_bytes:
  assumes l: "layout s ps" "k < length ps"
    and m: "m = p_index (ps ! k) + blk_count (ps ! k)" "s + total_blocks ps = m + n"
    and c': "c' = poke (poke c ((m + D) * SECTOR_SIZE) (peek c (m * SECTOR_SIZE) (n * SECTOR_SIZE)))
               (m * SECTOR_SIZE) (zeros (D * SECTOR_SIZE))"
  shows "map (part_bytes c') (grown ps k D) = (map (part_bytes c) ps)[k := part_bytes c (ps ! k) @ zeros (D * SECTOR_SIZE)]"
proof -
  let ?S = SECTOR_SIZE
  obtain xs p ys where sp: "ps = xs @ p # ys" "length xs = k" "p = ps ! k" "layout s xs" "p_index p = s + total_blocks xs"
      "layout (s + total_blocks xs + blk_count p) ys"
    by (rule layout_split [OF l])
  have me: "m = s + total_blocks xs + blk_count p" using m(1) sp(3,5) by simp
  have low: "c' q = c q" if "q < m * ?S" for q using that by (simp add: c' poke_out add_mult_distrib)
  have gap: "c' q = 0" if "m * ?S \<le> q" "q < (m + D) * ?S" for q
    using that by (simp add: c' poke_in add_mult_distrib)
  have high: "c' (q + D * ?S) = c q" if "m * ?S \<le> q" "q < (m + n) * ?S" for q
    using that by (simp add: c' poke_in poke_out add_mult_distrib)
  have x: "part_bytes c' q = part_bytes c q" if "q \<in> set xs" for q
  proof (rule part_bytes_cong)
    fix r assume "r < (p_index q + blk_count q) * ?S"
    moreover have "p_index q + blk_count q \<le> m" using layout_before [OF sp(4) that] me by linarith
    ultimately show "c' r = c r" by (meson low less_le_trans mult_le_mono1)
  qed
  have y: "part_bytes c' (shift_up D q) = part_bytes c q" if "q \<in> set ys" for q
    unfolding part_bytes_def shift_up_simps peek_eq_iff
  proof (intro allI impI)
    fix i assume i: "i < blk_count q * ?S"
    from layout_before [OF sp(6) that] have b: "m \<le> p_index q" "p_index q + blk_count q \<le> m + n"
      using m(2) me sp(1) by auto
    have "(p_index q + blk_count q) * ?S \<le> (m + n) * ?S" "m * ?S \<le> p_index q * ?S"
      using b by (meson mult_le_mono1)+
    then have "m * ?S \<le> p_index q * ?S + i" "p_index q * ?S + i < (m + n) * ?S"
      using i unfolding add_mult_distrib by linarith+
    then have "c' (p_index q * ?S + i + D * ?S) = c (p_index q * ?S + i)" by (rule high)
    then show "c' ((p_index q + D) * ?S + i) = c (p_index q * ?S + i)" by (simp add: add_mult_distrib add_ac)
  qed
  have p: "part_bytes c' (p\<lparr>blk_count := blk_count p + D\<rparr>) = part_bytes c p @ zeros (D * ?S)"
  proof -
    have "peek c' (p_index p * ?S) (blk_count p * ?S) = peek c (p_index p * ?S) (blk_count p * ?S)"
      by (rule peek_cong) (auto intro!: low simp: me sp(5) add_mult_distrib)
    moreover have "peek c' (p_index p * ?S + blk_count p * ?S) (D * ?S) = zeros (D * ?S)"
      by (rule peek_zero) (auto intro!: gap simp: me sp(5) add_mult_distrib)
    ultimately show ?thesis by (simp add: part_bytes_def peek_append [symmetric] add_mult_distrib)
  qed
  have "map (part_bytes c') (grown ps k D) =
      map (part_bytes c') xs @ part_bytes c' (p\<lparr>blk_count := blk_count p + D\<rparr>) # map (\<lambda>q. part_bytes c' (shift_up D q)) ys"
    unfolding grown_def sp(3) [symmetric] using sp(1,2) by simp
  also have "\<dots> = map (part_bytes c) xs @ (part_bytes c p @ zeros (D * ?S)) # map (part_bytes c) ys"
    using x y p by simp
  also have "\<dots> = (map (part_bytes c) ps)[k := part_bytes c (ps ! k) @ zeros (D * ?S)]"
    unfolding sp(3) [symmetric] using sp(1,2) by (auto simp: list_update_append)
  finally show ?thesis .
qed

section \<open>The state of a disk\<close>

definition disk_ok :: "('v \<Rightarrow> bool) \<Rightarrow> ('v \<Rightarrow> view) \<Rightarrow> 'v mbr_disk \<Rightarrow> bool" where
  "disk_ok vinv vw d \<longleftrightarrow>
     vinv (mbr_volume d) \<and> length (partitions d) = MAX_MBR_PARTITIONS \<and> part_used d \<le> MAX_MBR_PARTITIONS \<and>
     layout MBR_RESERVED (parts d) \<and>
     MBR_RESERVED + total_blocks (parts d) \<le> vblocks (vw (mbr_volume d)) \<and>
     (\<forall>q. MBR_RESERVED * SECTOR_SIZE \<le> q \<and> q < (MBR_RESERVED + total_blocks (parts d)) * SECTOR_SIZE \<longrightarrow>
        readable (vw (mbr_volume d)) q) \<and>
     (\<forall>p\<in>set (drop (part_used d) (partitions d)). blk_used p = 0)"

definition disk_bytes :: "('v \<Rightarrow> view) \<Rightarrow> 'v mbr_disk \<Rightarrow> byte list list" where
  "disk_bytes vw d = map (part_bytes (content (vw (mbr_volume d)))) (parts d)"

text \<open>Nothing of the partition can be given back: it has its minimal size, or its used blocks reach into its last mebibyte.\<close>

definition tight :: "mbr_partition \<Rightarrow> bool" where
  "tight p \<longleftrightarrow> blk_count p = blk_count_min p \<or> blk_count p < blk_used p + MBR_PART_ALIGN"

definition round_up :: "nat \<Rightarrow> nat" where
  "round_up n = (if n mod MBR_PART_ALIGN \<noteq> 0 \<or> n = 0 then n + (MBR_PART_ALIGN - n mod MBR_PART_ALIGN) else n)"

lemma round_up_facts: "MBR_PART_ALIGN dvd round_up n" "n \<le> round_up n" "0 < round_up n" "round_up n \<le> n + MBR_PART_ALIGN"
  "MBR_PART_ALIGN dvd n \<Longrightarrow> 0 < n \<Longrightarrow> round_up n = n"
proof -
  have "n + (MBR_PART_ALIGN - n mod MBR_PART_ALIGN) = n div MBR_PART_ALIGN * MBR_PART_ALIGN + MBR_PART_ALIGN"
    using div_mult_mod_eq [of n MBR_PART_ALIGN] mod_less_divisor [OF align_pos(1), of n] by linarith
  then have "MBR_PART_ALIGN dvd n + (MBR_PART_ALIGN - n mod MBR_PART_ALIGN)" by simp
  then show "MBR_PART_ALIGN dvd round_up n" by (auto simp: round_up_def)
  have m: "n mod MBR_PART_ALIGN < MBR_PART_ALIGN" by simp
  show ge: "n \<le> round_up n" unfolding round_up_def by (metis le_add1 order_refl)
  show "round_up n \<le> n + MBR_PART_ALIGN" unfolding round_up_def by auto
  show "0 < round_up n" using ge by (cases "n = 0") (simp_all add: round_up_def)
  show "MBR_PART_ALIGN dvd n \<Longrightarrow> 0 < n \<Longrightarrow> round_up n = n" by (auto simp: round_up_def)
qed

lemma parts_simps [simp]:
  "part_used d \<le> length (partitions d) \<Longrightarrow> parts (map_parts f d) = map f (parts d)"
  "k < part_used d \<Longrightarrow> part_used d \<le> length (partitions d) \<Longrightarrow> parts (set_part k f d) = (parts d)[k := f (parts d ! k)]"
  "parts (d\<lparr>mbr_volume := v\<rparr>) = parts d"
  "part_used d \<le> length (partitions d) \<Longrightarrow> length (parts d) = part_used d"
  "k < part_used d \<Longrightarrow> part_of d k = parts d ! k"
  by (auto simp: parts_def map_parts_def set_part_def take_update_swap)

lemma map_set_simps [simp]:
  "mbr_volume (map_parts f d) = mbr_volume d" "mbr_volume (set_part k g d) = mbr_volume d"
  "part_used (map_parts f d) = part_used d" "part_used (set_part k g d) = part_used d"
  "length (partitions (set_part k g d)) = length (partitions d)"
  "part_used d \<le> length (partitions d) \<Longrightarrow> length (partitions (map_parts f d)) = length (partitions d)"
  "part_used d \<le> length (partitions d) \<Longrightarrow> drop (part_used d) (partitions (map_parts f d)) = drop (part_used d) (partitions d)"
  "k < part_used d \<Longrightarrow> drop (part_used d) (partitions (set_part k g d)) = drop (part_used d) (partitions d)"
  by (auto simp: map_parts_def set_part_def)

lemma shrink_nothing:
  assumes "tight p" "0 < blk_count p" "MBR_PART_ALIGN dvd blk_count p" "blk_count_min p \<le> blk_count p"
  shows "shrink_diff p (blk_count p - blk_used p) = 0"
proof -
  let ?A = MBR_PART_ALIGN and ?d = "blk_count p - blk_used p"
  have ge: "?A \<le> blk_count p" using assms(2,3) by (simp add: dvd_imp_le)
  show ?thesis
  proof (cases "blk_count p = blk_count_min p")
    case False
    then have "?d < ?A" using assms(1) align_pos(1) unfolding tight_def by linarith
    then have "?d - ?d mod ?A = 0" "?d mod ?A = ?d" by simp_all
    then show ?thesis using ge assms(4) by (auto simp: shrink_diff_def Let_def sub64_exact)
  next
    case True
    define e where "e = (let diff = (if ?d mod ?A \<noteq> 0 then ?d - ?d mod ?A else ?d);
          diff = (if diff > blk_count p then blk_count p else diff)
      in if blk_count p - diff < ?A then sub64 (blk_count p) ?A else diff)"
    have "e \<le> blk_count p" unfolding e_def Let_def using ge by (auto simp: sub64_exact)
    moreover have "shrink_diff p ?d = (if sub64 (blk_count p) e < blk_count_min p then sub64 (blk_count p) (blk_count_min p) else e)"
      by (simp add: shrink_diff_def e_def Let_def)
    ultimately show ?thesis using True by (auto simp: sub64_exact)
  qed
qed

lemma each_part_none: "(\<And>i. i \<in> set is \<Longrightarrow> step d i = (Some (), d)) \<Longrightarrow> each_part step d is = (Some (), d)"
  by (induction "is") auto

lemma layout_nth:
  assumes "layout s ps" "k < length ps"
  shows "p_index (ps ! k) = s + total_blocks (take k ps)" "0 < blk_count (ps ! k)" "MBR_PART_ALIGN dvd blk_count (ps ! k)"
    "blk_count_min (ps ! k) \<le> blk_count (ps ! k)" "p_index (ps ! k) + blk_count (ps ! k) \<le> s + total_blocks ps"
proof -
  obtain xs p ys where sp: "ps = xs @ p # ys" "length xs = k" "p = ps ! k" "p_index p = s + total_blocks xs" "0 < blk_count p"
      "MBR_PART_ALIGN dvd blk_count p" "blk_count_min p \<le> blk_count p"
    by (rule layout_split [OF assms])
  have "take k ps = xs" using sp(1,2) by simp
  then show "p_index (ps ! k) = s + total_blocks (take k ps)" using sp(3,4) by simp
  show "0 < blk_count (ps ! k)" "MBR_PART_ALIGN dvd blk_count (ps ! k)" "blk_count_min (ps ! k) \<le> blk_count (ps ! k)"
    using sp(3,5-7) by simp_all
  show "p_index (ps ! k) + blk_count (ps ! k) \<le> s + total_blocks ps"
    using layout_before [OF assms(1) nth_mem [OF assms(2)]] by simp
qed

lemma layout_apart:
  assumes "layout s ps" "a < b" "b < length ps"
  shows "p_index (ps ! a) + blk_count (ps ! a) \<le> p_index (ps ! b)"
proof -
  obtain xs p ys where sp: "ps = xs @ p # ys" "length xs = b" "p = ps ! b" "layout s xs" "p_index p = s + total_blocks xs"
    by (rule layout_split [OF assms(1,3)])
  have "ps ! a = xs ! a" using sp(1,2) assms(2) by (simp add: nth_append)
  then have "ps ! a \<in> set xs" using sp(2) assms(2) by simp
  then show ?thesis using layout_before [OF sp(4)] sp(3,5) by fastforce
qed

lemma layout_less:
  assumes "layout s ps" "i < length ps" "k < length ps"
  shows "p_index (ps ! k) < p_index (ps ! i) \<longleftrightarrow> k < i"
proof -
  have "p_index (ps ! k) < p_index (ps ! i)" if a: "k < i" "i < length ps" for k i
    using layout_apart [OF assms(1) a] layout_nth(2) [OF assms(1), of k] a by simp
  from this [of k i] this [of i k] assms show ?thesis by (cases k i rule: linorder_cases) auto
qed

lemma last_block_layout:
  "layout s ps \<Longrightarrow> s + total_blocks ps < max64 \<Longrightarrow>
    fold (\<lambda>p mx. let current = add64 (p_index p) (sub64 (blk_count p) 1) in if current > mx then current else mx) ps a =
    (if ps = [] then a else max a (s + total_blocks ps - 1))"
proof (induction ps arbitrary: s a)
  case (Cons p ps)
  have "add64 (p_index p) (sub64 (blk_count p) 1) = s + blk_count p - 1"
    using Cons.prems by (simp add: sub64_exact add64_exact)
  moreover have "s + blk_count p - 1 \<le> s + blk_count p + total_blocks ps - 1" by simp
  ultimately show ?case using Cons.IH [of "s + blk_count p"] Cons.prems by (simp add: Let_def add.assoc)
qed simp

lemma next_free_layout:
  "layout s ps \<Longrightarrow> s + total_blocks ps < max64 \<Longrightarrow>
    fold (\<lambda>p index. let free = add64 (p_index p) (blk_count p) in if free > index then free else index) ps s = s + total_blocks ps"
  by (induction ps arbitrary: s) (auto simp: add64_exact add.assoc)

lemma last_block_eq:
  assumes "layout MBR_RESERVED (parts d)" "MBR_RESERVED + total_blocks (parts d) < max64" "parts d \<noteq> []"
  shows "last_block d = MBR_RESERVED + total_blocks (parts d) - 1"
  using last_block_layout [OF assms(1,2), of 0] assms(3) by (simp add: last_block_def parts_def)

section \<open>Growing a partition\<close>

lemma disk_okD:
  assumes "disk_ok vinv vw d"
  shows "vinv (mbr_volume d)" "length (partitions d) = MAX_MBR_PARTITIONS" "part_used d \<le> MAX_MBR_PARTITIONS"
    "part_used d \<le> length (partitions d)" "layout MBR_RESERVED (parts d)"
    "MBR_RESERVED + total_blocks (parts d) \<le> vblocks (vw (mbr_volume d))" "length (parts d) = part_used d"
  using assms unfolding disk_ok_def by auto

lemma disk_ok_readable:
  assumes "disk_ok vinv vw d" "MBR_RESERVED * SECTOR_SIZE \<le> q" "q < (MBR_RESERVED + total_blocks (parts d)) * SECTOR_SIZE"
  shows "readable (vw (mbr_volume d)) q"
  using assms unfolding disk_ok_def by blast

text \<open>Giving back space is a no-operation on a disk whose partitions are tight.\<close>

lemma shrink_to_fit_tight:
  assumes "disk_ok vinv vw d" "k < part_used d" "tight (parts d ! k)"
  shows "mbr_shrink_to_fit vol d k = (Some (), d)"
proof -
  note ok = disk_okD [OF assms(1)]
  have "k < length (parts d)" using assms(2) ok(7) by simp
  note l = layout_nth [OF ok(5) this]
  show ?thesis
    using assms(2) ok(4) shrink_nothing [OF assms(3) l(2-4)]
    by (auto simp: mbr_shrink_to_fit_def shrink_partition_def Let_def)
qed

context volume
begin

lemma sector_bound: "inv v \<Longrightarrow> bs = SECTOR_SIZE \<Longrightarrow> n \<le> vblocks (view v) \<Longrightarrow> n * SECTOR_SIZE < max64 \<and> n < max64"
  using max_bound [of v] mult_le_mono1 [of n "vblocks (view v)" SECTOR_SIZE] by (simp add: SECTOR_SIZE_def)

lemma move_up:
  assumes "inv v" "bs = SECTOR_SIZE" "m + n + D \<le> vblocks (view v)" "0 < D"
    and rd: "\<And>q. m * SECTOR_SIZE \<le> q \<Longrightarrow> q < (m + n) * SECTOR_SIZE \<Longrightarrow> readable (view v) q"
  shows "\<exists>v1 v2. volume_memmove vol v ((m + D) * SECTOR_SIZE) (m * SECTOR_SIZE) (n * SECTOR_SIZE) = (Some (), v1) \<and>
    volume_write vol v1 (m * SECTOR_SIZE) None (D * SECTOR_SIZE) = (Some (), v2) \<and> inv v2 \<and>
    vblocks (view v2) = vblocks (view v) \<and>
    content (view v2) = poke (poke (content (view v)) ((m + D) * SECTOR_SIZE)
      (peek (content (view v)) (m * SECTOR_SIZE) (n * SECTOR_SIZE))) (m * SECTOR_SIZE) (zeros (D * SECTOR_SIZE)) \<and>
    (\<forall>q. readable (view v) q \<and> q < m * SECTOR_SIZE \<or> m * SECTOR_SIZE \<le> q \<and> q < (m + n + D) * SECTOR_SIZE \<longrightarrow>
      readable (view v2) q)"
proof -
  let ?S = SECTOR_SIZE
  have rd': "readable (view v) (m * bs + k)" if "k < n * bs" for k
    using that rd [of "m * bs + k"] by (simp add: assms(2) add_mult_distrib)
  obtain v1 where v1: "volume_memmove vol v ((m + D) * ?S) (m * ?S) (n * ?S) = (Some (), v1)" "inv v1"
      "moved (view v) (view v1) ((m + D) * ?S) (m * ?S) (n * ?S)"
    using memmove_aligned [of v "m + D" n m, OF assms(1) _ _ rd'] assms(2,3) by auto
  note mv = v1(3) [unfolded moved_def]
  have "(m + D) * ?S \<le> vblocks (view v) * ?S" using assms(3) by (intro mult_le_mono1) simp
  then have cap: "m * ?S + D * ?S \<le> capacity v1" using mv assms(2) by (simp add: add_mult_distrib)
  from write_correct [OF v1(2) cap, of None] assms(4) obtain v2 where
    v2: "volume_write vol v1 (m * ?S) None (D * ?S) = (Some (), v2)" "inv v2"
      "wrote ?S (view v1) (view v2) (m * ?S) (zeros (D * ?S))" using assms(2) by auto
  have rd2: "readable (view v2) q"
    if q: "readable (view v) q \<and> q < m * ?S \<or> m * ?S \<le> q \<and> q < (m + n + D) * ?S" for q
  proof -
    consider "readable (view v) q" "q < m * ?S" | "m * ?S \<le> q" "q < (m + D) * ?S"
      | "(m + D) * ?S \<le> q" "q < (m + D) * ?S + n * ?S" using q by (fastforce simp: add_mult_distrib)
    then show ?thesis
    proof cases
      case 1
      have "m * ?S \<le> (m + D) * ?S" by simp
      then have "q < (m + D) * ?S" using 1(2) by linarith
      then have "readable (view v1) q" using mv 1(1) by blast
      then show ?thesis using wrote_keeps_readable [OF v2(3), of q] 1 by simp
    next
      case 2
      then show ?thesis using wrote_readable [OF v2(3), of q] by (simp add: add_mult_distrib)
    next
      case 3
      then have "q - (m + D) * ?S < n * ?S" by linarith
      then have "readable (view v1) ((m + D) * ?S + (q - (m + D) * ?S))" using mv by blast
      then have "readable (view v1) q" using 3(1) by simp
      moreover have "div_up ((m + D) * ?S) ?S * ?S = (m + D) * ?S" by simp
      ultimately show ?thesis using wrote_keeps_readable [OF v2(3), of q] 3(1) by (simp add: add_mult_distrib)
    qed
  qed
  have "vblocks (view v2) = vblocks (view v)" using mv wrote_blocks [OF v2(3)] by simp
  moreover have "content (view v2) = poke (poke (content (view v)) ((m + D) * ?S) (peek (content (view v)) (m * ?S) (n * ?S)))
      (m * ?S) (zeros (D * ?S))" using mv wrote_content [OF v2(3)] by simp
  ultimately show ?thesis using v1(1) v2(1,2) rd2 by blast
qed

lemma grow_ok:
  assumes ok: "disk_ok inv view d" and S: "bs = SECTOR_SIZE" and k: "k < part_used d"
    and t: "\<And>j. k < j \<Longrightarrow> j < part_used d \<Longrightarrow> tight (parts d ! j)"
    and room: "MBR_RESERVED + total_blocks (parts d) + round_up diff \<le> vblocks (view (mbr_volume d))"
  shows "\<exists>d'. grow_partition vol d k diff = (Some (), d') \<and> disk_ok inv view d' \<and>
    parts d' = grown (parts d) k (round_up diff) \<and> part_used d' = part_used d \<and>
    vblocks (view (mbr_volume d')) = vblocks (view (mbr_volume d)) \<and>
    disk_bytes view d' = (disk_bytes view d)[k := disk_bytes view d ! k @ zeros (round_up diff * SECTOR_SIZE)]"
proof -
  let ?S = SECTOR_SIZE and ?D = "round_up diff" and ?ps = "parts d" and ?v = "mbr_volume d"
  let ?E = "MBR_RESERVED + total_blocks ?ps"
  note okD = disk_okD [OF ok]
  have kl: "k < length ?ps" using k okD(7) by simp
  note l = layout_nth [OF okD(5) kl]
  define m where "m = p_index (?ps ! k) + blk_count (?ps ! k)"
  define n where "n = ?E - m"
  have mn: "m + n = ?E" using l(5) by (simp add: m_def n_def)
  have big: "(m + n + ?D) * ?S < max64" "m + n + ?D < max64" using sector_bound [OF okD(1) S room] mn by simp_all
  have each: "each_part (\<lambda>d' i. if p_index (part_of d' i) > p_index (part_of d k) then mbr_shrink_to_fit vol d' i else (Some (), d'))
      d [0..<part_used d] = (Some (), d)"
  proof (rule each_part_none)
    fix i assume "i \<in> set [0..<part_used d]"
    then have i: "i < part_used d" by simp
    show "(if p_index (part_of d i) > p_index (part_of d k) then mbr_shrink_to_fit vol d i else (Some (), d)) = (Some (), d)"
      using i k okD(4,7) layout_less [OF okD(5), of i k] shrink_to_fit_tight [OF ok i t] by auto
  qed
  have D: "(if diff mod MBR_PART_ALIGN \<noteq> 0 \<or> diff = 0 then add64 diff (MBR_PART_ALIGN - diff mod MBR_PART_ALIGN) else diff) = ?D"
    using big(2) by (auto simp: round_up_def add64_exact)
  have a1: "add64 (p_index (?ps ! k)) (blk_count (?ps ! k)) = m" using big(2) by (simp add: m_def add64_exact)
  have a2: "add64 m ?D = m + ?D" using big(2) by (simp add: add64_exact)
  have mul: "mul64 x ?S = x * ?S" if "x \<le> m + n + ?D" for x
    using big(1) mult_le_mono1 [OF that, of ?S] by (intro mul64_exact) linarith
  have m1: "1 \<le> m" using l(2) by (simp add: m_def)
  have last: "sub64 (last_block d) (sub64 m 1) = n"
  proof -
    have "last_block d = m + n - 1" using last_block_eq [OF okD(5)] kl big(2) mn by fastforce
    then show ?thesis using m1 by (simp add: sub64_exact)
  qed
  have res: "MBR_RESERVED \<le> m" using l(1) by (simp add: m_def)
  have rd: "readable (view ?v) q" if "m * ?S \<le> q" "q < (m + n) * ?S" for q
    using that mult_le_mono1 [OF res, of ?S] by (intro disk_ok_readable [OF ok]) (linarith, simp add: mn)
  from move_up [OF okD(1) S, of m n ?D, OF _ round_up_facts(3) rd] room mn obtain v1 v2 where
    v: "volume_memmove vol ?v ((m + ?D) * ?S) (m * ?S) (n * ?S) = (Some (), v1)"
      "volume_write vol v1 (m * ?S) None (?D * ?S) = (Some (), v2)" "inv v2" "vblocks (view v2) = vblocks (view ?v)"
      "content (view v2) = poke (poke (content (view ?v)) ((m + ?D) * ?S) (peek (content (view ?v)) (m * ?S) (n * ?S)))
         (m * ?S) (zeros (?D * ?S))"
      "\<And>q. readable (view ?v) q \<and> q < m * ?S \<or> m * ?S \<le> q \<and> q < (m + n + ?D) * ?S \<Longrightarrow> readable (view v2) q"
    by auto
  define d' where "d' = set_part k (\<lambda>p. p\<lparr>blk_count := add64 (blk_count p) ?D\<rparr>)
      (map_parts (\<lambda>p. if p_index p > p_index (?ps ! k) then p\<lparr>p_index := add64 (p_index p) ?D\<rparr> else p) (d\<lparr>mbr_volume := v2\<rparr>))"
  have g: "grow_partition vol d k diff = (Some (), d')"
  proof -
    have pk: "part_of d k = ?ps ! k" using k okD(4) by simp
    show ?thesis
      unfolding grow_partition_def Let_def each prod.case option.case D unfolding pk a1 a2 last
      by (simp add: mul v(1,2) d'_def)
  qed
  have ex: "add64 (p_index p) ?D = p_index p + ?D" if "p \<in> set ?ps" for p
    using layout_before [OF okD(5) that] big(2) mn by (simp add: add64_exact)
  have mp: "map (\<lambda>p. if p_index p > p_index (?ps ! k) then p\<lparr>p_index := add64 (p_index p) ?D\<rparr> else p) ?ps =
      take (Suc k) ?ps @ map (shift_up ?D) (drop (Suc k) ?ps)"
    unfolding layout_shift_if [OF okD(5) kl, of ?D, symmetric] by (intro map_cong) (auto simp: shift_up_def ex)
  have nk: "(take (Suc k) ?ps @ map (shift_up ?D) (drop (Suc k) ?ps)) ! k = ?ps ! k" using kl by (simp add: nth_append)
  have bk: "add64 (blk_count (?ps ! k)) ?D = blk_count (?ps ! k) + ?D" using big(2) by (simp add: m_def add64_exact)
  have parts': "parts d' = grown ?ps k ?D"
    unfolding d'_def using k okD(4) grown_eq [OF kl, of ?D] by (simp add: mp nk bk)
  note gf = grown_facts [OF okD(5) kl round_up_facts(1)]
  have vol': "mbr_volume d' = v2" "part_used d' = part_used d" by (simp_all add: d'_def)
  have dr: "drop (part_used d) (partitions d') = drop (part_used d) (partitions d)" "length (partitions d') = length (partitions d)"
    unfolding d'_def using k okD(4) by (simp_all add: drop_update_cancel map_parts_def set_part_def)
  have rd': "readable (view v2) q" if "MBR_RESERVED * ?S \<le> q" "q < (?E + ?D) * ?S" for q
  proof (cases "q < m * ?S")
    case True
    then have "q < ?E * ?S" using mult_le_mono1 [of m ?E ?S] mn by linarith
    then show ?thesis using v(6) [of q] True disk_ok_readable [OF ok that(1)] by blast
  next
    case False
    then show ?thesis using v(6) [of q] that(2) mn by simp
  qed
  have ok': "disk_ok inv view d'"
    unfolding disk_ok_def parts' gf(2) vol' using gf(1) ok room v(3,4) rd' dr
    by (simp add: disk_ok_def add.assoc)
  have "disk_bytes view d' = (disk_bytes view d)[k := disk_bytes view d ! k @ zeros (?D * ?S)]"
    using grown_bytes [OF okD(5) kl m_def mn [symmetric] v(5)] kl by (simp add: disk_bytes_def parts' vol')
  then show ?thesis using g ok' parts' vol' v(4) by blast
qed

end

section \<open>Writing to a partition\<close>

text \<open>What a write does to the bytes of a partition: they are extended with zeros to whole mebibytes if necessary, then
  overwritten.\<close>

definition MIB :: nat where
  "MIB = MBR_PART_ALIGN * SECTOR_SIZE"

definition extend :: "byte list \<Rightarrow> nat \<Rightarrow> byte list" where
  "extend xs n = xs @ zeros (div_up n MIB * MIB - length xs)"

definition part_store :: "byte list \<Rightarrow> nat \<Rightarrow> byte list \<Rightarrow> byte list" where
  "part_store xs pos data = put_bytes (extend xs (pos + length data)) pos data"

lemma div_up_eqI: "0 < b \<Longrightarrow> (\<And>i. i * b < x \<longleftrightarrow> i < k) \<Longrightarrow> div_up x b = k"
  using div_up_less [of b _ x] by (metis nat_neq_iff)

lemma round_up_div_up: "0 < n \<Longrightarrow> round_up n = div_up n MBR_PART_ALIGN * MBR_PART_ALIGN"
proof -
  assume n: "0 < n"
  have "n = n div MBR_PART_ALIGN * MBR_PART_ALIGN + n mod MBR_PART_ALIGN" by simp
  moreover have "n mod MBR_PART_ALIGN < MBR_PART_ALIGN" by simp
  ultimately have "n + (MBR_PART_ALIGN - n mod MBR_PART_ALIGN) = Suc (n div MBR_PART_ALIGN) * MBR_PART_ALIGN"
    unfolding mult_Suc by linarith
  then show ?thesis using n unfolding round_up_def div_up_def by auto
qed

lemma round_up_less: "0 < n \<Longrightarrow> round_up n < n + MBR_PART_ALIGN"
  by (auto simp: round_up_def)

lemma mib_blocks:
  assumes "0 < r" "r \<le> SECTOR_SIZE"
  shows "div_up (i * SECTOR_SIZE + r) MIB = div_up (i + 1) MBR_PART_ALIGN"
proof (rule div_up_eqI)
  show "0 < MIB" by (simp add: MIB_def)
  fix j
  have "j * MIB < i * SECTOR_SIZE + r \<longleftrightarrow> j * MBR_PART_ALIGN < i + 1"
  proof (cases "j * MBR_PART_ALIGN < i + 1")
    case True
    then have "j * MBR_PART_ALIGN * SECTOR_SIZE \<le> i * SECTOR_SIZE" by (intro mult_le_mono1) simp
    then have "j * MIB < i * SECTOR_SIZE + r" using assms(1) unfolding MIB_def mult.assoc by linarith
    then show ?thesis using True by simp
  next
    case False
    then have "(i + 1) * SECTOR_SIZE \<le> j * MBR_PART_ALIGN * SECTOR_SIZE" by (intro mult_le_mono1) simp
    then have "i * SECTOR_SIZE + SECTOR_SIZE \<le> j * MIB" by (simp add: MIB_def mult.assoc)
    then show ?thesis using False assms(2) by linarith
  qed
  then show "j * MIB < i * SECTOR_SIZE + r \<longleftrightarrow> j < div_up (i + 1) MBR_PART_ALIGN" by (simp add: div_up_less)
qed

lemma extend_blocks:
  assumes xs: "length xs = count * SECTOR_SIZE" "MBR_PART_ALIGN dvd count" and r: "0 < r" "r \<le> SECTOR_SIZE"
  shows "extend xs (i * SECTOR_SIZE + r) = (if i < count then xs else xs @ zeros (round_up (i - count + 1) * SECTOR_SIZE))"
proof -
  let ?A = MBR_PART_ALIGN and ?S = SECTOR_SIZE
  obtain c where c: "count = c * ?A" using xs(2) by (metis dvd_def mult.commute)
  have e: "extend xs (i * ?S + r) = xs @ zeros ((div_up (i + 1) ?A * ?A - count) * ?S)"
    unfolding extend_def mib_blocks [OF r] xs(1) unfolding diff_mult_distrib MIB_def mult.assoc by (rule refl)
  show ?thesis
  proof (cases "i < count")
    case True
    then have "div_up (i + 1) ?A \<le> c" using div_up_le [of ?A "i + 1" c] c by simp
    then have "div_up (i + 1) ?A * ?A - count = 0" using c by simp
    then show ?thesis using True e by (simp add: zeros_def)
  next
    case False
    have "div_up (i - count + 1) ?A = div_up (i + 1) ?A - c"
    proof (rule div_up_eqI)
      fix j
      have "j * ?A < i - count + 1 \<longleftrightarrow> (j + c) * ?A < i + 1" using False c by (auto simp: add_mult_distrib)
      also have "\<dots> \<longleftrightarrow> j + c < div_up (i + 1) ?A" by (simp add: div_up_less)
      finally show "j * ?A < i - count + 1 \<longleftrightarrow> j < div_up (i + 1) ?A - c" by auto
    qed simp
    then have "round_up (i - count + 1) = div_up (i + 1) ?A * ?A - count"
      using c by (simp add: round_up_div_up diff_mult_distrib)
    then show ?thesis using False e by simp
  qed
qed

lemma peek_poke_put:
  assumes "a \<le> pos" "pos + length d \<le> a + n"
  shows "peek (poke c pos d) a n = put_bytes (peek c a n) (pos - a) d"
proof (rule nth_equalityI)
  show len: "length (peek (poke c pos d) a n) = length (put_bytes (peek c a n) (pos - a) d)" using assms by auto
  fix i assume "i < length (peek (poke c pos d) a n)"
  then show "peek (poke c pos d) a n ! i = put_bytes (peek c a n) (pos - a) d ! i"
    using assms len by (auto simp: nth_put_bytes poke_def add.commute)
qed

lemma poke_one_part:
  assumes l: "layout s ps" "k < length ps" and d: "o' + length d \<le> blk_count (ps ! k) * SECTOR_SIZE"
  shows "map (part_bytes (poke c (p_index (ps ! k) * SECTOR_SIZE + o') d)) ps =
    (map (part_bytes c) ps)[k := put_bytes (part_bytes c (ps ! k)) o' d]"
proof (rule nth_equalityI)
  fix i assume "i < length (map (part_bytes (poke c (p_index (ps ! k) * SECTOR_SIZE + o') d)) ps)"
  then have i: "i < length ps" by simp
  show "map (part_bytes (poke c (p_index (ps ! k) * SECTOR_SIZE + o') d)) ps ! i =
      (map (part_bytes c) ps)[k := put_bytes (part_bytes c (ps ! k)) o' d] ! i"
  proof (cases "i = k")
    case True
    then show ?thesis using l(2) d by (simp add: part_bytes_def peek_poke_put)
  next
    case False
    note apart = layout_apart [OF l(1)]
    have "part_bytes (poke c (p_index (ps ! k) * SECTOR_SIZE + o') d) (ps ! i) = part_bytes c (ps ! i)"
    proof (rule part_bytes_cong)
      fix q assume q: "p_index (ps ! i) * SECTOR_SIZE \<le> q" "q < (p_index (ps ! i) + blk_count (ps ! i)) * SECTOR_SIZE"
      have "q < p_index (ps ! k) * SECTOR_SIZE \<or> (p_index (ps ! k) + blk_count (ps ! k)) * SECTOR_SIZE \<le> q"
        using False q apart [of i k] apart [of k i] i l(2)
        by (metis dual_order.strict_trans1 linorder_neqE_nat mult_le_mono1 order_trans)
      then show "poke c (p_index (ps ! k) * SECTOR_SIZE + o') d q = c q"
        using d by (intro poke_out) (auto simp: add_mult_distrib)
    qed
    then show ?thesis using False i by simp
  qed
qed simp

lemma layout_update:
  "layout s ps \<Longrightarrow> k < length ps \<Longrightarrow> p_index p = p_index (ps ! k) \<Longrightarrow> blk_count p = blk_count (ps ! k) \<Longrightarrow>
    blk_count_min p = blk_count_min (ps ! k) \<Longrightarrow> layout s (ps[k := p]) \<and> total_blocks (ps[k := p]) = total_blocks ps"
proof (induction ps arbitrary: s k)
  case (Cons q ps)
  then show ?case by (cases k) auto
qed simp

lemma part_bytes_update:
  assumes "k < length ps" "p_index p = p_index (ps ! k)" "blk_count p = blk_count (ps ! k)"
  shows "map (part_bytes c) (ps[k := p]) = map (part_bytes c) ps"
  using assms by (simp add: map_update part_bytes_def list_update_same_conv)

definition all_tight :: "'v mbr_disk \<Rightarrow> bool" where
  "all_tight d \<longleftrightarrow> (\<forall>p\<in>set (parts d). tight p)"

lemma all_tight_nth: "all_tight d \<Longrightarrow> disk_ok vinv vw d \<Longrightarrow> j < part_used d \<Longrightarrow> tight (parts d ! j)"
  using disk_okD(7) [of vinv vw d] by (simp add: all_tight_def)

context volume
begin

text \<open>A write to a whole block of partition \<open>k\<close> that is inside the partition.\<close>

lemma write_inside:
  assumes ok: "disk_ok inv view d" and S: "bs = SECTOR_SIZE" and k: "k < part_used d" and u: "index < blk_count (parts d ! k)"
    and d: "length data = SECTOR_SIZE"
  shows "\<exists>v'. write_partial_block vol (mbr_volume d) (add64 (p_index (parts d ! k)) index) (Some data) 0 bs = (Some (), v') \<and>
    disk_ok inv view (d\<lparr>mbr_volume := v'\<rparr>) \<and> vblocks (view v') = vblocks (view (mbr_volume d)) \<and>
    disk_bytes view (d\<lparr>mbr_volume := v'\<rparr>) =
      (disk_bytes view d)[k := put_bytes (disk_bytes view d ! k) (index * SECTOR_SIZE) data]"
proof -
  let ?S = SECTOR_SIZE and ?p = "parts d ! k" and ?v = "mbr_volume d"
  note okD = disk_okD [OF ok]
  have kl: "k < length (parts d)" using k okD(7) by simp
  note l = layout_nth [OF okD(5) kl]
  have i: "p_index ?p + index < vblocks (view ?v)" using l(5) u okD(6) by linarith
  have e: "add64 (p_index ?p) index = p_index ?p + index"
    using sector_bound [OF okD(1) S, of "p_index ?p + index"] i by (intro add64_exact) simp
  from write_partial [OF okD(1) i, of 0 ?S "Some data"] S d obtain v' where
    v': "write_partial_block vol ?v (p_index ?p + index) (Some data) 0 bs = (Some (), v')" "inv v'"
      "wrote ?S (view ?v) (view v') ((p_index ?p + index) * ?S) data" by auto
  have "(index + 1) * ?S \<le> blk_count ?p * ?S" using u by (intro mult_le_mono1) simp
  then have len: "index * ?S + length data \<le> blk_count ?p * ?S" using d by simp
  have "disk_bytes view (d\<lparr>mbr_volume := v'\<rparr>) = (disk_bytes view d)[k := put_bytes (disk_bytes view d ! k) (index * ?S) data]"
    using poke_one_part [OF okD(5) kl, of "index * ?S" data "content (view ?v)"] len kl wrote_content [OF v'(3)]
    by (simp add: disk_bytes_def add_mult_distrib)
  moreover have "disk_ok inv view (d\<lparr>mbr_volume := v'\<rparr>)"
  proof -
    let ?b = "(p_index ?p + index) * ?S"
    have "div_up (?b + ?S) ?S * ?S = ?b + ?S" using div_up_mult [of ?S "Suc (p_index ?p + index)"] by (simp add: add.commute)
    then have "readable (view v') q" if "readable (view ?v) q" for q
      using that wrote_readable [OF v'(3), of q] wrote_keeps_readable [OF v'(3), of q] d
      by (cases "?b \<le> q"; cases "q < ?b + ?S") (simp_all add: not_le not_less)
    then show ?thesis using ok v'(2) wrote_blocks [OF v'(3)] by (simp add: disk_ok_def)
  qed
  ultimately show ?thesis using v' wrote_blocks [OF v'(3)] unfolding e by blast
qed

lemma set_used_ok:
  assumes ok: "disk_ok inv view d" and k: "k < part_used d"
  shows "disk_ok inv view (set_part k (\<lambda>p. p\<lparr>blk_used := n\<rparr>) d) \<and>
    disk_bytes view (set_part k (\<lambda>p. p\<lparr>blk_used := n\<rparr>) d) = disk_bytes view d \<and>
    parts (set_part k (\<lambda>p. p\<lparr>blk_used := n\<rparr>) d) = (parts d)[k := (parts d ! k)\<lparr>blk_used := n\<rparr>]"
proof -
  note okD = disk_okD [OF ok]
  have kl: "k < length (parts d)" using k okD(7) by simp
  show ?thesis
    using ok k okD(4) layout_update [OF okD(5) kl, of "(parts d ! k)\<lparr>blk_used := n\<rparr>"]
      part_bytes_update [OF kl, of "(parts d ! k)\<lparr>blk_used := n\<rparr>"]
    by (simp add: disk_ok_def disk_bytes_def)
qed

text \<open>A write to any block of a partition that does not go over the end of the volume.\<close>

lemma part_write_ok:
  assumes ok: "disk_ok inv view d" "all_tight d" and S: "bs = SECTOR_SIZE" and k: "k < part_used d"
    and room: "index < blk_count (parts d ! k) \<or> can_grow (parts d ! k) \<and>
      MBR_RESERVED + total_blocks (parts d) + round_up (index - blk_count (parts d ! k) + 1) \<le> vblocks (view (mbr_volume d))"
    and d: "length data = SECTOR_SIZE"
  shows "\<exists>d'. part_write_block vol k d index (Some data) = (Some (), d') \<and> disk_ok inv view d' \<and> all_tight d' \<and>
    part_used d' = part_used d \<and> vblocks (view (mbr_volume d')) = vblocks (view (mbr_volume d)) \<and>
    map p_flags (parts d') = map p_flags (parts d) \<and>
    disk_bytes view d' = (disk_bytes view d)[k := part_store (disk_bytes view d ! k) (index * SECTOR_SIZE) data]"
proof -
  let ?S = SECTOR_SIZE and ?p = "parts d ! k" and ?B = "disk_bytes view d"
  let ?D = "round_up (index - blk_count ?p + 1)"
  note okD = disk_okD [OF ok(1)]
  have kl: "k < length (parts d)" using k okD(7) by simp
  note l = layout_nth [OF okD(5) kl]
  have pk: "part_of d k = ?p" using k okD(4) by simp
  define grow where "grow = (if index \<ge> blk_count ?p then
      (if \<not> can_grow ?p then (None, d) else grow_partition vol d k (add64 (index - blk_count ?p) 1)) else (Some (), d))"
  have "\<exists>d1. grow = (Some (), d1) \<and> disk_ok inv view d1 \<and> part_used d1 = part_used d \<and>
      vblocks (view (mbr_volume d1)) = vblocks (view (mbr_volume d)) \<and>
      parts d1 = (if index < blk_count ?p then parts d else grown (parts d) k ?D) \<and>
      disk_bytes view d1 = ?B[k := extend (?B ! k) (index * ?S + ?S)]"
  proof (cases "index < blk_count ?p")
    case True
    then have "extend (?B ! k) (index * ?S + ?S) = ?B ! k"
      using extend_blocks [of "?B ! k" "blk_count ?p" ?S index] l(3) kl by (simp add: disk_bytes_def part_bytes_def)
    then show ?thesis using ok(1) True by (simp add: grow_def)
  next
    case False
    then have r: "can_grow ?p" "MBR_RESERVED + total_blocks (parts d) + ?D \<le> vblocks (view (mbr_volume d))" using room by auto
    have "index - blk_count ?p + 1 < max64"
      using sector_bound [OF okD(1) S r(2)] round_up_facts(2) [of "index - blk_count ?p + 1"] by linarith
    then have "add64 (index - blk_count ?p) 1 = index - blk_count ?p + 1" by (rule add64_exact)
    then have g: "grow = grow_partition vol d k (index - blk_count ?p + 1)" using False r(1) by (simp add: grow_def)
    have "extend (?B ! k) (index * ?S + ?S) = ?B ! k @ zeros (?D * ?S)"
      using extend_blocks [of "?B ! k" "blk_count ?p" ?S index] l(3) kl False by (simp add: disk_bytes_def part_bytes_def)
    then show ?thesis
      using grow_ok [OF ok(1) S k _ r(2)] all_tight_nth [OF ok(2,1)] False g by auto
  qed
  then obtain d1 where d1: "grow = (Some (), d1)" "disk_ok inv view d1" "part_used d1 = part_used d"
      "vblocks (view (mbr_volume d1)) = vblocks (view (mbr_volume d))"
      "parts d1 = (if index < blk_count ?p then parts d else grown (parts d) k ?D)"
      "disk_bytes view d1 = ?B[k := extend (?B ! k) (index * ?S + ?S)]"
    by blast
  define d2 where "d2 = (if index \<ge> blk_used ?p then set_part k (\<lambda>p. p\<lparr>blk_used := add64 index 1\<rparr>) d1 else d1)"
  note gf = grown_facts [OF okD(5) kl round_up_facts(1)]
  have p1: "p_index (parts d1 ! k) = p_index ?p" "index < blk_count (parts d1 ! k)" "length (parts d1) = length (parts d)"
    "blk_used (parts d1 ! k) = blk_used ?p" "blk_count_min (parts d1 ! k) = blk_count_min ?p" "p_flags (parts d1 ! k) = p_flags ?p"
    "blk_count (parts d1 ! k) = (if index < blk_count ?p then blk_count ?p else blk_count ?p + ?D)"
    unfolding d1(5) using gf(3,4) round_up_facts(2) [of "index - blk_count ?p + 1"] by (simp_all, linarith)
  have ix: "add64 index 1 = index + 1"
  proof (rule add64_exact)
    note okD1 = disk_okD [OF d1(2)]
    have "k < length (parts d1)" using p1(3) kl by simp
    from layout_nth(5) [OF okD1(5) this] okD1(6) p1(2) have "index + 1 \<le> vblocks (view (mbr_volume d1))" by linarith
    then show "index + 1 < max64" using sector_bound [OF okD1(1) S] by blast
  qed
  have k1: "k < part_used d1" using k d1(3) by simp
  have "disk_ok inv view d2 \<and> disk_bytes view d2 = disk_bytes view d1 \<and> part_used d2 = part_used d \<and>
    mbr_volume d2 = mbr_volume d1 \<and>
    parts d2 = (parts d1)[k := (parts d1 ! k)\<lparr>blk_used := max (blk_used ?p) (index + 1)\<rparr>]"
  proof (cases "index \<ge> blk_used ?p")
    case True
    then have "max (blk_used ?p) (index + 1) = index + 1" by simp
    then show ?thesis using True set_used_ok [OF d1(2) k1, of "index + 1"] d1(3) by (simp add: d2_def ix del: One_nat_def add_0_right)
  next
    case False
    then have "max (blk_used ?p) (index + 1) = blk_used (parts d1 ! k)" using p1(4) by simp
    then show ?thesis using False d1(2,3) by (simp add: d2_def)
  qed
  then have d2: "disk_ok inv view d2" "disk_bytes view d2 = disk_bytes view d1" "part_used d2 = part_used d"
    "mbr_volume d2 = mbr_volume d1"
    "parts d2 = (parts d1)[k := (parts d1 ! k)\<lparr>blk_used := max (blk_used ?p) (index + 1)\<rparr>]"
    by blast+
  have k2: "k < part_used d2" using k d2(3) by simp
  have p2: "p_index (parts d2 ! k) = p_index ?p" "index < blk_count (parts d2 ! k)"
    unfolding d2(5) using p1 kl by simp_all
  from write_inside [OF d2(1) S k2 p2(2) d] obtain v' where
    v': "write_partial_block vol (mbr_volume d2) (add64 (p_index ?p) index) (Some data) 0 bs = (Some (), v')"
      "disk_ok inv view (d2\<lparr>mbr_volume := v'\<rparr>)" "vblocks (view v') = vblocks (view (mbr_volume d2))"
      "disk_bytes view (d2\<lparr>mbr_volume := v'\<rparr>) = (disk_bytes view d2)[k := put_bytes (disk_bytes view d2 ! k) (index * ?S) data]"
    by (auto simp: p2)
  have w: "part_write_block vol k d index (Some data) = (Some (), d2\<lparr>mbr_volume := v'\<rparr>)"
    unfolding part_write_block_def part_write_partial_block_def Let_def pk grow_def [symmetric] d1(1)
    using v'(1) by (simp add: d2_def [symmetric])
  have kB: "k < length ?B" using kl by (simp add: disk_bytes_def)
  have b: "disk_bytes view (d2\<lparr>mbr_volume := v'\<rparr>) = ?B[k := part_store (?B ! k) (index * ?S) data]"
    unfolding v'(4) d2(2) d1(6) using kB d by (simp add: part_store_def)
  have t: "all_tight (d2\<lparr>mbr_volume := v'\<rparr>)" "map p_flags (parts (d2\<lparr>mbr_volume := v'\<rparr>)) = map p_flags (parts d)"
  proof -
    have tk: "tight ((parts d1 ! k)\<lparr>blk_used := max (blk_used ?p) (index + 1)\<rparr>)"
    proof (cases "index < blk_count ?p")
      case True
      then show ?thesis using all_tight_nth [OF ok(2,1) k] p1 by (auto simp: tight_def)
    next
      case False
      then show ?thesis using round_up_less [of "index - blk_count ?p + 1"] p1 by (auto simp: tight_def)
    qed
    have oth: "tight (parts d1 ! j) \<and> p_flags (parts d1 ! j) = p_flags (parts d ! j)" if "j < length (parts d)" "j \<noteq> k" for j
      using all_tight_nth [OF ok(2,1), of j] okD(7) that kl by (simp add: d1(5) grown_nth tight_def)
    then show "all_tight (d2\<lparr>mbr_volume := v'\<rparr>)"
      using tk kl p1(3) by (auto simp: all_tight_def d2(5) all_set_conv_all_nth nth_list_update)
    show "map p_flags (parts (d2\<lparr>mbr_volume := v'\<rparr>)) = map p_flags (parts d)"
      using oth p1(3,6) kl by (intro nth_equalityI) (auto simp: d2(5) nth_list_update)
  qed
  show ?thesis using w v'(2,3) b t d2(3,4) d1(4) by simp
qed

end

section \<open>Creating and reading partitions\<close>

lemma layout_reserved: "0 < MBR_RESERVED"
  by (simp add: MBR_RESERVED_def)

text \<open>Clearing the flag of the other partitions does not touch anything else of them.\<close>

definition drop_fill :: "mbr_partition \<Rightarrow> mbr_partition" where
  "drop_fill p = p\<lparr>p_flags := p_flags p AND NOT COMMON_PARTITION_FLAG_FILL\<rparr>"

lemma drop_fill_simps [simp]:
  "p_index (drop_fill p) = p_index p" "blk_count (drop_fill p) = blk_count p" "blk_used (drop_fill p) = blk_used p"
  "blk_count_min (drop_fill p) = blk_count_min p" "tight (drop_fill p) = tight p" "part_bytes c (drop_fill p) = part_bytes c p"
  by (simp_all add: drop_fill_def tight_def part_bytes_def)

lemma grow_drop_fill [simp]: "p_flags (drop_fill p) AND COMMON_PARTITION_FLAG_GROW = p_flags p AND COMMON_PARTITION_FLAG_GROW"
proof -
  have "(f AND NOT COMMON_PARTITION_FLAG_FILL) AND COMMON_PARTITION_FLAG_GROW = f AND COMMON_PARTITION_FLAG_GROW" for f :: flags
  proof -
    have "NOT COMMON_PARTITION_FLAG_FILL AND COMMON_PARTITION_FLAG_GROW = COMMON_PARTITION_FLAG_GROW"
      by (simp add: COMMON_PARTITION_FLAG_FILL_def COMMON_PARTITION_FLAG_GROW_def)
    then show ?thesis by (simp add: and.assoc)
  qed
  then show ?thesis by (simp add: drop_fill_def)
qed

lemma layout_map_fill [simp]: "layout s (map drop_fill ps) = layout s ps" "total_blocks (map drop_fill ps) = total_blocks ps"
  by (induction ps arbitrary: s) auto

lemma round_up_create:
  assumes "round_up count0 < max64" "count = (if count0 = 0 then MBR_PART_ALIGN else count0)"
  shows "(if count mod MBR_PART_ALIGN \<noteq> 0 then add64 count (MBR_PART_ALIGN - count mod MBR_PART_ALIGN) else count) = round_up count0"
  using assms by (auto simp: round_up_def add64_exact)

context volume
begin

lemma clear_blocks_ok:
  assumes "inv v" "bs = SECTOR_SIZE" "i + n \<le> vblocks (view v)"
  shows "\<exists>v'. clear_blocks vol v i n = (Some (), v') \<and> inv v' \<and> vblocks (view v') = vblocks (view v) \<and>
    content (view v') = poke (content (view v)) (i * SECTOR_SIZE) (zeros (n * SECTOR_SIZE)) \<and>
    (\<forall>q. readable (view v) q \<or> i * SECTOR_SIZE \<le> q \<and> q < (i + n) * SECTOR_SIZE \<longrightarrow> readable (view v') q)"
  using assms
proof (induction n arbitrary: v i)
  case (Suc n)
  let ?S = SECTOR_SIZE
  from discard [OF Suc.prems(1), of i 1] Suc.prems(2,3) obtain v1 where
    v1: "discard_blocks vol v i 1 = (Some (), v1)" "inv v1" "wrote ?S (view v) (view v1) (i * ?S) (zeros ?S)" by auto
  have w: "write_block vol v i None = (Some (), v1)" using v1(1) by (simp add: write_block_None)
  have e: "add64 i 1 = i + 1"
    using sector_bound [OF Suc.prems(1,2), of "i + 1"] Suc.prems(3) by (intro add64_exact) simp
  from Suc.IH [of v1 "i + 1"] v1(2) Suc.prems(2,3) wrote_blocks [OF v1(3)] obtain v2 where
    v2: "clear_blocks vol v1 (i + 1) n = (Some (), v2)" "inv v2" "vblocks (view v2) = vblocks (view v1)"
      "content (view v2) = poke (content (view v1)) ((i + 1) * ?S) (zeros (n * ?S))"
      "\<And>q. readable (view v1) q \<or> (i + 1) * ?S \<le> q \<and> q < (i + 1 + n) * ?S \<Longrightarrow> readable (view v2) q"
    by auto
  have z: "zeros (Suc n * ?S) = zeros ?S @ zeros (n * ?S)" by (simp add: zeros_def replicate_add)
  have "content (view v2) = poke (content (view v)) (i * ?S) (zeros (Suc n * ?S))"
    unfolding z poke_append v2(4) wrote_content [OF v1(3)] by (simp add: add.commute)
  moreover have "readable (view v2) q" if q: "readable (view v) q \<or> i * ?S \<le> q \<and> q < (i + Suc n) * ?S" for q
  proof (cases "i * ?S \<le> q \<and> q < i * ?S + ?S")
    case True
    then show ?thesis using wrote_readable [OF v1(3), of q] v2(5) [of q] by simp
  next
    case False
    have "div_up (i * ?S + ?S) ?S * ?S = i * ?S + ?S" using div_up_mult [of ?S "Suc i"] by (simp add: add.commute)
    then have "readable (view v1) q" if "readable (view v) q"
      using wrote_keeps_readable [OF v1(3), of q] that False by (simp add: not_le not_less)
    then show ?thesis using v2(5) [of q] q False by (auto simp: add_mult_distrib add_ac)
  qed
  ultimately show ?case using v2(1,2,3) wrote_blocks [OF v1(3)] w e by auto
qed (auto simp: zeros_def)

lemma create_ok:
  assumes ok: "disk_ok inv view d" "all_tight d" and S: "bs = SECTOR_SIZE" and u: "part_used d < MAX_MBR_PARTITIONS"
    and room: "MBR_RESERVED + total_blocks (parts d) + round_up count0 \<le> vblocks (view (mbr_volume d))"
  shows "\<exists>d'. mbr_disk_create_parition True vol d count0 flgs = (Some (part_used d), d') \<and> disk_ok inv view d' \<and> all_tight d' \<and>
    part_used d' = part_used d + 1 \<and> vblocks (view (mbr_volume d')) = vblocks (view (mbr_volume d)) \<and>
    map can_grow (parts d') = map can_grow (parts d) @ [flgs AND COMMON_PARTITION_FLAG_GROW \<noteq> 0] \<and>
    disk_bytes view d' = disk_bytes view d @ [zeros (round_up count0 * SECTOR_SIZE)]"
proof -
  let ?S = SECTOR_SIZE and ?k = "part_used d" and ?R = "round_up count0" and ?E = "MBR_RESERVED + total_blocks (parts d)"
  note okD = disk_okD [OF ok(1)]
  note bnd = sector_bound [OF okD(1) S room]
  have nf: "next_free d = ?E"
    using next_free_layout [OF okD(5)] bnd by (simp add: next_free_def parts_def)
  have R: "?R < max64" using bnd by linarith
  define p where "p = (part_of d ?k)\<lparr>p_index := ?E, blk_count := ?R, blk_count_min := ?R, p_flags := flgs\<rparr>"
  define d1 where "d1 = set_part ?k (\<lambda>p. p\<lparr>p_index := ?E, blk_count := ?R, blk_count_min := ?R, p_flags := flgs\<rparr>) d"
  from clear_blocks_ok [OF okD(1) S room] obtain v' where
    v': "clear_blocks vol (mbr_volume d) ?E ?R = (Some (), v')" "inv v'" "vblocks (view v') = vblocks (view (mbr_volume d))"
      "content (view v') = poke (content (view (mbr_volume d))) (?E * ?S) (zeros (?R * ?S))"
      "\<And>q. readable (view (mbr_volume d)) q \<or> ?E * ?S \<le> q \<and> q < (?E + ?R) * ?S \<Longrightarrow> readable (view v') q"
    by blast
  define d2 where "d2 = (if flgs AND COMMON_PARTITION_FLAG_FILL \<noteq> 0 then clear_fill (d1\<lparr>mbr_volume := v'\<rparr>) else d1\<lparr>mbr_volume := v'\<rparr>)"
  define d' where "d' = d2\<lparr>part_used := ?k + 1\<rparr>"
  define f where "f = (if flgs AND COMMON_PARTITION_FLAG_FILL \<noteq> 0 then drop_fill else id)"
  have create: "mbr_disk_create_parition True vol d count0 flgs = (Some ?k, d')"
    using u v'(1) unfolding mbr_disk_create_parition_def Let_def round_up_create [OF R refl] nf
    by (simp add: d1_def d2_def d'_def)
  have kl: "?k < length (partitions d)" using u okD(2) by simp
  have split: "partitions d1 = parts d @ p # drop (Suc ?k) (partitions d)" "part_used d1 = ?k"
    unfolding d1_def set_part_def p_def parts_def using kl by (simp_all add: upd_conv_take_nth_drop)
  have lk: "length (parts d) = ?k" by (rule okD(7))
  have pd2: "partitions d2 = map f (parts d) @ p # drop (Suc ?k) (partitions d)" "mbr_volume d2 = v'" "part_used d2 = ?k"
    unfolding d2_def f_def clear_fill_def using split lk
    by (auto simp: map_parts_def drop_fill_def)
  have parts': "parts d' = map f (parts d) @ [p]" using pd2(1) lk by (simp add: parts_def d'_def)
  have fs: "layout s (map f ps) = layout s ps" "total_blocks (map f ps) = total_blocks ps" "part_bytes c (f q) = part_bytes c q"
    "tight (f q) = tight q" "can_grow (f q) = can_grow q" for s ps c q by (simp_all add: f_def)
  have lay: "layout MBR_RESERVED (parts d')" "total_blocks (parts d') = total_blocks (parts d) + ?R"
    unfolding parts' using okD(5) round_up_facts [of count0] by (simp_all add: layout_append fs p_def)
  have "MBR_RESERVED * ?S \<le> q \<Longrightarrow> q < (?E + ?R) * ?S \<Longrightarrow> readable (view v') q" for q
    using v'(5) [of q] disk_ok_readable [OF ok(1), of q] by (cases "q < ?E * ?S") auto
  moreover have "\<forall>p\<in>set (drop (part_used d') (partitions d')). blk_used p = 0" "length (partitions d') = MAX_MBR_PARTITIONS"
  proof -
    have "drop (part_used d') (partitions d') = drop (Suc ?k) (partitions d)" using pd2 lk by (simp add: d'_def)
    moreover have "set (drop (Suc ?k) (partitions d)) \<subseteq> set (drop ?k (partitions d))" by (rule set_drop_subset_set_drop) simp
    ultimately show "\<forall>p\<in>set (drop (part_used d') (partitions d')). blk_used p = 0" using ok(1) by (auto simp: disk_ok_def)
    show "length (partitions d') = MAX_MBR_PARTITIONS" using pd2 lk kl okD(2) by (simp add: d'_def)
  qed
  ultimately have ok': "disk_ok inv view d'"
    unfolding disk_ok_def lay(2) using lay(1) u v'(2,3) room pd2(2,3) by (simp add: d'_def add.assoc)
  have "tight p" by (simp add: tight_def p_def)
  then have t: "all_tight d'" using ok(2) by (auto simp: all_tight_def parts' fs)
  have low: "part_bytes (content (view v')) q = part_bytes (content (view (mbr_volume d))) q" if "q \<in> set (parts d)" for q
  proof (rule part_bytes_cong)
    fix r assume "r < (p_index q + blk_count q) * ?S"
    moreover have "p_index q + blk_count q \<le> ?E" using layout_before [OF okD(5) that] by simp
    ultimately have "r < ?E * ?S" by (meson less_le_trans mult_le_mono1)
    then show "content (view v') r = content (view (mbr_volume d)) r" by (simp add: v'(4) poke_out)
  qed
  have "part_bytes (content (view v')) p = zeros (?R * ?S)"
    using peek_poke_same [of "content (view (mbr_volume d))" "?E * ?S" "zeros (?R * ?S)"] by (simp add: part_bytes_def p_def v'(4))
  then have "disk_bytes view d' = disk_bytes view d @ [zeros (?R * ?S)]"
    unfolding disk_bytes_def parts' using low pd2(2) by (simp add: fs d'_def)
  moreover have "map can_grow (parts d') = map can_grow (parts d) @ [flgs AND COMMON_PARTITION_FLAG_GROW \<noteq> 0]"
    by (simp add: parts' fs p_def)
  ultimately show ?thesis using create ok' t pd2 v'(3) by (simp add: d'_def)
qed

lemma part_read_ok:
  assumes ok: "disk_ok inv view d" and S: "bs = SECTOR_SIZE" and k: "k < part_used d" and u: "index < blk_count (parts d ! k)"
  shows "\<exists>v'. part_read_block vol k d index =
      (Some (take SECTOR_SIZE (drop (index * SECTOR_SIZE) (disk_bytes view d ! k))), d\<lparr>mbr_volume := v'\<rparr>) \<and>
    inv v' \<and> view v' = view (mbr_volume d)"
proof -
  let ?S = SECTOR_SIZE and ?p = "parts d ! k" and ?v = "mbr_volume d"
  note okD = disk_okD [OF ok]
  have kl: "k < length (parts d)" using k okD(7) by simp
  have i: "p_index ?p + index < vblocks (view ?v)" using layout_nth(5) [OF okD(5) kl] u okD(6) by linarith
  have e: "add64 (p_index ?p) index = p_index ?p + index"
    using sector_bound [OF okD(1) S, of "p_index ?p + index"] i by (intro add64_exact) simp
  from read_partial [OF okD(1) i, of 0 ?S] S obtain v' where
    v': "read_partial_block vol ?v (p_index ?p + index) 0 bs = (Some (peek (content (view ?v)) ((p_index ?p + index) * ?S) ?S), v')"
      "inv v'" "view v' = view ?v" by auto
  have "(index + 1) * ?S \<le> blk_count ?p * ?S" using u by (intro mult_le_mono1) simp
  then have "take ?S (drop (index * ?S) (disk_bytes view d ! k)) = peek (content (view ?v)) ((p_index ?p + index) * ?S) ?S"
    using kl by (simp add: disk_bytes_def part_bytes_def drop_peek take_peek add_mult_distrib)
  then show ?thesis
    using v' u k okD(4) by (auto simp: part_read_block_def part_read_partial_block_def Let_def e)
qed

end

section \<open>The disk refines a list of growing files\<close>

text \<open>A client of the disk creates partitions and reads and writes their blocks.\<close>

datatype disk_op = CreatePart nat flags | WriteBlock nat nat "byte list" | ReadBlock nat nat

definition disk_step :: "'v volume \<Rightarrow> 'v mbr_disk \<Rightarrow> disk_op \<Rightarrow> (byte list, 'v mbr_disk) io" where
  "disk_step vol d op =
     (case op of
        CreatePart n flgs \<Rightarrow> (case mbr_disk_create_parition True vol d n flgs of (r, d') \<Rightarrow> (map_option (\<lambda>_. []) r, d'))
      | WriteBlock k index data \<Rightarrow>
          (case write_block (mbr_part_create vol k) d index (Some data) of (r, d') \<Rightarrow> (map_option (\<lambda>_. []) r, d'))
      | ReadBlock k index \<Rightarrow> read_block (mbr_part_create vol k) d index)"

fun disk_run :: "'v volume \<Rightarrow> 'v mbr_disk \<Rightarrow> disk_op list \<Rightarrow> (byte list list, 'v mbr_disk) io" where
  "disk_run vol d [] = (Some [], d)"
| "disk_run vol d (op # ops) =
     (case disk_step vol d op of
        (None, d) \<Rightarrow> (None, d)
      | (Some r, d) \<Rightarrow> (case disk_run vol d ops of (None, d) \<Rightarrow> (None, d) | (Some rs, d) \<Rightarrow> (Some (r # rs), d)))"

text \<open>The specification: a partition is a list of bytes and whether it may grow, on a disk of \<open>cap\<close> sectors. It has no
  value for what a client must not do: a fifth partition, a block outside of a partition that cannot grow, and
  more data than the disk can take.\<close>

type_synonym spec_disk = "(byte list \<times> bool) list"

definition spec_size :: "spec_disk \<Rightarrow> nat" where
  "spec_size st = MIB + sum_list (map (length \<circ> fst) st)"

definition spec_step :: "nat \<Rightarrow> spec_disk \<Rightarrow> disk_op \<Rightarrow> (byte list \<times> spec_disk) option" where
  "spec_step cap st op =
     (case op of
        CreatePart n flgs \<Rightarrow>
          (let st' = st @ [(extend [] (max 1 (n * SECTOR_SIZE)), flgs AND COMMON_PARTITION_FLAG_GROW \<noteq> 0)]
           in if length st < 4 \<and> spec_size st' \<le> cap * SECTOR_SIZE then Some ([], st') else None)
      | WriteBlock k index data \<Rightarrow>
          (if k < length st \<and> length data = SECTOR_SIZE then
             let (xs, grow) = st ! k; st' = st[k := (part_store xs (index * SECTOR_SIZE) data, grow)]
             in if (index * SECTOR_SIZE < length xs \<or> grow) \<and> spec_size st' \<le> cap * SECTOR_SIZE then Some ([], st') else None
           else None)
      | ReadBlock k index \<Rightarrow>
          (if k < length st \<and> index * SECTOR_SIZE < length (fst (st ! k))
           then Some (take SECTOR_SIZE (drop (index * SECTOR_SIZE) (fst (st ! k))), st) else None))"

fun spec_run :: "nat \<Rightarrow> spec_disk \<Rightarrow> disk_op list \<Rightarrow> (byte list list \<times> spec_disk) option" where
  "spec_run cap st [] = Some ([], st)"
| "spec_run cap st (op # ops) =
     (case spec_step cap st op of
        None \<Rightarrow> None
      | Some (r, st) \<Rightarrow> (case spec_run cap st ops of None \<Rightarrow> None | Some (rs, st) \<Rightarrow> Some (r # rs, st)))"

definition disk_rel :: "('v \<Rightarrow> bool) \<Rightarrow> ('v \<Rightarrow> view) \<Rightarrow> 'v mbr_disk \<Rightarrow> spec_disk \<Rightarrow> bool" where
  "disk_rel vinv vw d st \<longleftrightarrow> disk_ok vinv vw d \<and> all_tight d \<and>
     disk_bytes vw d = map fst st \<and> map can_grow (parts d) = map snd st"

lemma disk_relD:
  assumes "disk_rel vinv vw d st"
  shows "disk_ok vinv vw d" "all_tight d" "disk_bytes vw d = map fst st" "length st = part_used d"
    "k < part_used d \<Longrightarrow> fst (st ! k) = disk_bytes vw d ! k" "k < part_used d \<Longrightarrow> snd (st ! k) = can_grow (parts d ! k)"
    "k < part_used d \<Longrightarrow> length (fst (st ! k)) = blk_count (parts d ! k) * SECTOR_SIZE"
    "spec_size st = (MBR_RESERVED + total_blocks (parts d)) * SECTOR_SIZE"
proof -
  note r = assms [unfolded disk_rel_def]
  show ok: "disk_ok vinv vw d" "all_tight d" "disk_bytes vw d = map fst st" using r by blast+
  have lp: "length (parts d) = part_used d" by (rule disk_okD(7) [OF ok(1)])
  show ls: "length st = part_used d" using ok(3) lp by (metis disk_bytes_def length_map)
  show f: "fst (st ! k) = disk_bytes vw d ! k" if "k < part_used d" using ok(3) ls that by simp
  show "snd (st ! k) = can_grow (parts d ! k)" if "k < part_used d"
  proof -
    have "map snd st ! k = map can_grow (parts d) ! k" using r by simp
    then show ?thesis using ls lp that by simp
  qed
  show "length (fst (st ! k)) = blk_count (parts d ! k) * SECTOR_SIZE" if "k < part_used d"
    using f [OF that] that lp by (simp add: disk_bytes_def part_bytes_def)
  have "sum_list (map length (disk_bytes vw d)) = total_blocks (parts d) * SECTOR_SIZE"
    unfolding disk_bytes_def by (induction "parts d" rule: list.induct) (simp_all add: disk_bytes_def part_bytes_def add_mult_distrib total_blocks_def comp_def sum_list_mult_const)
  then show "spec_size st = (MBR_RESERVED + total_blocks (parts d)) * SECTOR_SIZE"
    by (simp add: spec_size_def ok(3) MIB_def MBR_RESERVED_def add_mult_distrib)
qed

lemma extend_new: "extend [] (max 1 (n * SECTOR_SIZE)) = zeros (round_up n * SECTOR_SIZE)"
proof (cases n)
  case 0
  have "round_up (0 - 0 + 1) = round_up 0" by (simp add: round_up_def MBR_PART_ALIGN_def SECTOR_SIZE_def)
  then show ?thesis using 0 extend_blocks [of "[]" 0 1 0] by (simp add: SECTOR_SIZE_def)
next
  case (Suc m)
  then have "max 1 (n * SECTOR_SIZE) = m * SECTOR_SIZE + SECTOR_SIZE" by (simp add: max_def SECTOR_SIZE_def)
  then show ?thesis using Suc extend_blocks [of "[]" 0 SECTOR_SIZE m] by simp
qed

lemma spec_size_update:
  assumes "k < length st"
  shows "spec_size (st[k := x]) + length (fst (st ! k)) = spec_size st + length (fst x)"
proof -
  have "length (fst (st ! k)) \<le> sum_list (map (length \<circ> fst) st)"
    using member_le_sum_list [of "length (fst (st ! k))" "map (length \<circ> fst) st"] assms by force
  then show ?thesis
    using assms sum_list_update [of k "map (length \<circ> fst) st" "length (fst x)"] by (simp add: spec_size_def map_update)
qed

context volume
begin

lemma disk_step_create:
  assumes r: "disk_rel inv view d st" and S: "bs = SECTOR_SIZE" and cap: "vblocks (view (mbr_volume d)) = cap"
    and s: "spec_step cap st (CreatePart n flgs) = Some (x, st')"
  shows "\<exists>d'. disk_step vol d (CreatePart n flgs) = (Some x, d') \<and> disk_rel inv view d' st' \<and> vblocks (view (mbr_volume d')) = cap"
proof -
  note rD = disk_relD [OF r]
  let ?new = "(zeros (round_up n * SECTOR_SIZE), flgs AND COMMON_PARTITION_FLAG_GROW \<noteq> 0)"
  have st': "st' = st @ [?new]" "x = []" "length st < 4" "spec_size st' \<le> cap * SECTOR_SIZE"
    using s by (auto simp: spec_step_def Let_def extend_new [unfolded One_nat_def] split: if_splits)
  have "spec_size st' = (MBR_RESERVED + total_blocks (parts d) + round_up n) * SECTOR_SIZE"
    using rD(8) by (simp add: st'(1) spec_size_def add_mult_distrib)
  then have room: "MBR_RESERVED + total_blocks (parts d) + round_up n \<le> vblocks (view (mbr_volume d))"
    using st'(4) cap by (simp add: SECTOR_SIZE_def)
  have "part_used d < MAX_MBR_PARTITIONS" using st'(3) rD(4) by (simp add: MAX_MBR_PARTITIONS_def)
  from create_ok [OF rD(1,2) S this room] obtain d' where
    d': "mbr_disk_create_parition True vol d n flgs = (Some (part_used d), d')" "disk_ok inv view d'" "all_tight d'"
      "vblocks (view (mbr_volume d')) = vblocks (view (mbr_volume d))"
      "map can_grow (parts d') = map can_grow (parts d) @ [flgs AND COMMON_PARTITION_FLAG_GROW \<noteq> 0]"
      "disk_bytes view d' = disk_bytes view d @ [zeros (round_up n * SECTOR_SIZE)]" by blast
  have "disk_rel inv view d' st'" using d' r by (simp add: disk_rel_def st'(1))
  then show ?thesis using d'(1,4) cap st'(2) by (simp add: disk_step_def)
qed

lemma disk_step_write:
  assumes r: "disk_rel inv view d st" and S: "bs = SECTOR_SIZE" and cap: "vblocks (view (mbr_volume d)) = cap"
    and s: "spec_step cap st (WriteBlock k index data) = Some (x, st')"
  shows "\<exists>d'. disk_step vol d (WriteBlock k index data) = (Some x, d') \<and> disk_rel inv view d' st' \<and> vblocks (view (mbr_volume d')) = cap"
proof -
  let ?S = SECTOR_SIZE and ?p = "parts d ! k"
  note rD = disk_relD [OF r]
  obtain xs g where xg: "st ! k = (xs, g)" by fastforce
  let ?new = "part_store xs (index * ?S) data"
  have st': "st' = st[k := (?new, g)]" "x = []" "k < length st" "length data = ?S" "index * ?S < length xs \<or> g"
      "spec_size st' \<le> cap * ?S"
    using s xg by (auto simp: spec_step_def Let_def split: if_splits)
  have k: "k < part_used d" "k < length (parts d)" using st'(3) rD(4) disk_okD(7) [OF rD(1)] by simp_all
  have xs: "xs = disk_bytes view d ! k" "g = can_grow ?p" "length xs = blk_count ?p * ?S"
    using rD(5-7) [OF k(1)] xg by simp_all
  have room: "index < blk_count ?p \<or> can_grow ?p \<and>
      MBR_RESERVED + total_blocks (parts d) + round_up (index - blk_count ?p + 1) \<le> vblocks (view (mbr_volume d))"
  proof (cases "index < blk_count ?p")
    case False
    have "MBR_PART_ALIGN dvd blk_count ?p" by (rule layout_nth(3) [OF disk_okD(5) [OF rD(1)] k(2)])
    then have ext: "extend xs (index * ?S + ?S) = xs @ zeros (round_up (index - blk_count ?p + 1) * ?S)"
      using extend_blocks [OF xs(3), of ?S index] False by simp
    have "length (extend xs (index * ?S + ?S)) \<le> length ?new" using st'(4) by (simp add: part_store_def)
    then have "length xs + round_up (index - blk_count ?p + 1) * ?S \<le> length ?new" by (simp add: ext)
    then have "spec_size st + round_up (index - blk_count ?p + 1) * ?S \<le> cap * ?S"
      using spec_size_update [OF st'(3), of "(?new, g)"] st'(1,6) xg by simp
    then have "(MBR_RESERVED + total_blocks (parts d) + round_up (index - blk_count ?p + 1)) * ?S \<le> cap * ?S"
      using rD(8) by (simp add: add_mult_distrib)
    then show ?thesis using False st'(5) xs cap by (auto simp: SECTOR_SIZE_def)
  qed simp
  from part_write_ok [OF rD(1,2) S k(1) room st'(4)] obtain d' where
    d': "part_write_block vol k d index (Some data) = (Some (), d')" "disk_ok inv view d'" "all_tight d'"
      "vblocks (view (mbr_volume d')) = vblocks (view (mbr_volume d))" "map p_flags (parts d') = map p_flags (parts d)"
      "disk_bytes view d' = (disk_bytes view d)[k := ?new]" by (auto simp: xs(1))
  have "map can_grow (parts d') = map can_grow (parts d)"
    using arg_cong [OF d'(5), of "map (\<lambda>f. f AND COMMON_PARTITION_FLAG_GROW \<noteq> 0)"] by (simp add: comp_def)
  moreover have "(map snd st)[k := g] = map snd st" using xg st'(3) by (simp add: list_update_same_conv)
  ultimately have "disk_rel inv view d' st'"
    using d' r by (simp add: disk_rel_def st'(1) map_update)
  then show ?thesis using d'(1,4) cap st'(2) by (simp add: disk_step_def mbr_part_create_def)
qed

lemma disk_step_read:
  assumes r: "disk_rel inv view d st" and S: "bs = SECTOR_SIZE" and cap: "vblocks (view (mbr_volume d)) = cap"
    and s: "spec_step cap st (ReadBlock k index) = Some (x, st')"
  shows "\<exists>d'. disk_step vol d (ReadBlock k index) = (Some x, d') \<and> disk_rel inv view d' st' \<and> vblocks (view (mbr_volume d')) = cap"
proof -
  note rD = disk_relD [OF r]
  have st': "st' = st" "x = take SECTOR_SIZE (drop (index * SECTOR_SIZE) (fst (st ! k)))" "k < part_used d"
      "index * SECTOR_SIZE < length (fst (st ! k))"
    using s rD(4) by (auto simp: spec_step_def split: if_splits)
  have "index < blk_count (parts d ! k)" using st'(4) rD(7) [OF st'(3)] by simp
  from part_read_ok [OF rD(1) S st'(3) this] obtain v' where
    v': "part_read_block vol k d index = (Some x, d\<lparr>mbr_volume := v'\<rparr>)" "inv v'" "view v' = view (mbr_volume d)"
    using st'(2) rD(5) [OF st'(3)] by auto
  have "disk_rel inv view (d\<lparr>mbr_volume := v'\<rparr>) st"
    using r v'(2,3) by (simp add: disk_rel_def disk_ok_def disk_bytes_def all_tight_def)
  then show ?thesis using v'(1,3) cap st'(1) by (simp add: disk_step_def mbr_part_create_def)
qed

lemma disk_run_ok:
  "disk_rel inv view d st \<Longrightarrow> bs = SECTOR_SIZE \<Longrightarrow> vblocks (view (mbr_volume d)) = cap \<Longrightarrow>
    spec_run cap st ops = Some (rs, st') \<Longrightarrow>
    \<exists>d'. disk_run vol d ops = (Some rs, d') \<and> disk_rel inv view d' st' \<and> vblocks (view (mbr_volume d')) = cap"
proof (induction ops arbitrary: d st rs)
  case (Cons op ops)
  from Cons.prems(4) obtain x st1 rs1 where
    s: "spec_step cap st op = Some (x, st1)" "spec_run cap st1 ops = Some (rs1, st')" "rs = x # rs1"
    by (auto split: option.splits)
  have "\<exists>d'. disk_step vol d op = (Some x, d') \<and> disk_rel inv view d' st1 \<and> vblocks (view (mbr_volume d')) = cap"
    using disk_step_create [OF Cons.prems(1-3)] disk_step_write [OF Cons.prems(1-3)] disk_step_read [OF Cons.prems(1-3)] s(1)
    by (cases op) simp_all
  then show ?case using Cons.IH [OF _ Cons.prems(2) _ s(2)] s(3) by fastforce
qed simp

end

section \<open>Committing the partition table\<close>

lemma fold_counts:
  "x + total_blocks ps < max64 \<Longrightarrow> fold (\<lambda>p used. add64 used (blk_count p)) ps x = x + total_blocks ps"
  by (induction ps arbitrary: x) (auto simp: add64_exact add.assoc)

lemma layout_dvd: "layout s ps \<Longrightarrow> MBR_PART_ALIGN dvd total_blocks ps"
  by (induction ps arbitrary: s) (auto intro: dvd_add)

definition padded_from :: "byte list list \<Rightarrow> byte list list \<Rightarrow> bool" where
  "padded_from new old \<longleftrightarrow> length new = length old \<and> (\<forall>k<length old. \<exists>z. new ! k = old ! k @ zeros z)"

lemma padded_from_refl [simp]: "padded_from xs xs"
  unfolding padded_from_def by (auto intro: exI [of _ 0] simp: zeros_def)

lemma padded_from_trans: "padded_from ys xs \<Longrightarrow> padded_from zs ys \<Longrightarrow> padded_from zs xs"
  unfolding padded_from_def by (simp add: zeros_def) (metis append.assoc replicate_add)

lemma padded_from_update: "k < length xs \<Longrightarrow> padded_from (xs[k := xs ! k @ zeros z]) xs"
  unfolding padded_from_def by (auto simp: nth_list_update intro: exI [of _ 0] simp: zeros_def)

context volume
begin

lemma expand_one:
  assumes ok: "disk_ok inv view d" and S: "bs = SECTOR_SIZE" and k: "k < part_used d"
    and t: "\<And>j. k < j \<Longrightarrow> j < part_used d \<Longrightarrow> tight (parts d ! j)"
  shows "\<exists>d'. mbr_apply_expand_policy vol d k = (Some (), d') \<and> disk_ok inv view d' \<and> part_used d' = part_used d \<and>
    vblocks (view (mbr_volume d')) = vblocks (view (mbr_volume d)) \<and>
    (\<forall>j. k < j \<and> j < part_used d \<longrightarrow> tight (parts d' ! j)) \<and> padded_from (disk_bytes view d') (disk_bytes view d)"
proof -
  let ?A = MBR_PART_ALIGN and ?V = "vblocks (view (mbr_volume d))" and ?E = "MBR_RESERVED + total_blocks (parts d)"
  note okD = disk_okD [OF ok]
  have kl: "k < length (parts d)" using k okD(7) by simp
  note l = layout_nth [OF okD(5) kl]
  have pk: "part_of d k = parts d ! k" using k okD(4) by simp
  define free where "free = min ?V MAX_LBA div ?A * ?A"
  have f1: "(if min ?V MAX_LBA mod ?A \<noteq> 0 then min ?V MAX_LBA - min ?V MAX_LBA mod ?A else min ?V MAX_LBA) = free"
    using minus_mod_eq_div_mult [of "min ?V MAX_LBA" ?A] by (auto simp: free_def)
  have f2: "(if ?V > MAX_LBA then MAX_LBA else ?V) = min ?V MAX_LBA" by (simp add: min_def)
  have f3: "fold (\<lambda>p used. add64 used (blk_count p)) (parts d) MBR_RESERVED = ?E"
    using fold_counts [of MBR_RESERVED "parts d"] sector_bound [OF okD(1) S okD(6)] by simp
  have avail: "get_free_space vol d = free - ?E"
    unfolding get_free_space_def Let_def max_blocks [OF okD(1)] f2 f1 parts_def [symmetric] f3 by simp
  show ?thesis
  proof (cases "p_flags (parts d ! k) AND COMMON_PARTITION_FLAG_FILL = 0 \<or> free - ?E \<le> blk_count (parts d ! k)")
    case True
    then have "mbr_apply_expand_policy vol d k = (Some (), d)"
      by (auto simp: mbr_apply_expand_policy_def pk avail Let_def)
    then show ?thesis using ok t by simp
  next
    case False
    define diff where "diff = free - ?E - blk_count (parts d ! k)"
    have e: "mbr_apply_expand_policy vol d k = grow_partition vol d k diff"
      using False by (simp add: mbr_apply_expand_policy_def pk avail Let_def diff_def)
    have "?A dvd ?E" using layout_dvd [OF okD(5)] by (simp add: MBR_RESERVED_def)
    then have "?A dvd diff" unfolding diff_def using l(3) by (intro dvd_diff_nat) (simp_all add: free_def)
    moreover have pos: "0 < diff" using False unfolding diff_def by linarith
    ultimately have "round_up diff = diff" by (rule round_up_facts(5))
    moreover have "?E + diff \<le> ?V"
    proof -
      have "?E + diff \<le> free" using pos by (simp add: diff_def)
      also have "free \<le> min ?V MAX_LBA" unfolding free_def by (rule div_times_less_eq_dividend)
      finally show ?thesis by simp
    qed
    ultimately have "?E + round_up diff \<le> ?V" by simp
    from grow_ok [OF ok S k t this] obtain d' where
      d': "grow_partition vol d k diff = (Some (), d')" "disk_ok inv view d'" "parts d' = grown (parts d) k (round_up diff)"
        "part_used d' = part_used d" "vblocks (view (mbr_volume d')) = ?V"
        "disk_bytes view d' = (disk_bytes view d)[k := disk_bytes view d ! k @ zeros (round_up diff * SECTOR_SIZE)]" by blast
    have "tight (parts d' ! j)" if "k < j" "j < part_used d" for j
      using t [OF that] that kl okD(7) by (simp add: d'(3) grown_nth tight_def)
    moreover have "k < length (disk_bytes view d)" using kl by (simp add: disk_bytes_def)
    ultimately show ?thesis using d' e padded_from_update by auto
  qed
qed

lemma expand_all:
  "disk_ok inv view d \<Longrightarrow> bs = SECTOR_SIZE \<Longrightarrow> (\<And>j. i \<le> j \<Longrightarrow> j < part_used d \<Longrightarrow> tight (parts d ! j)) \<Longrightarrow>
    \<exists>d'. each_part (mbr_apply_expand_policy vol) d [i..<part_used d] = (Some (), d') \<and> disk_ok inv view d' \<and>
      part_used d' = part_used d \<and> vblocks (view (mbr_volume d')) = vblocks (view (mbr_volume d)) \<and>
      padded_from (disk_bytes view d') (disk_bytes view d)"
proof (induction "part_used d - i" arbitrary: i d)
  case (Suc n)
  then have i: "i < part_used d" by simp
  from expand_one [OF Suc.prems(1,2) i] Suc.prems(3) obtain d1 where
    d1: "mbr_apply_expand_policy vol d i = (Some (), d1)" "disk_ok inv view d1" "part_used d1 = part_used d"
      "vblocks (view (mbr_volume d1)) = vblocks (view (mbr_volume d))"
      "\<And>j. i < j \<Longrightarrow> j < part_used d \<Longrightarrow> tight (parts d1 ! j)" "padded_from (disk_bytes view d1) (disk_bytes view d)"
    by auto
  have "n = part_used d1 - Suc i" using Suc.hyps(2) d1(3) by simp
  from Suc.hyps(1) [OF this d1(2) Suc.prems(2)] d1(3,5) obtain d2 where
    "each_part (mbr_apply_expand_policy vol) d1 [Suc i..<part_used d1] = (Some (), d2)" "disk_ok inv view d2"
      "part_used d2 = part_used d1" "vblocks (view (mbr_volume d2)) = vblocks (view (mbr_volume d1))"
      "padded_from (disk_bytes view d2) (disk_bytes view d1)"
    by (auto simp: Suc_le_eq)
  moreover have "[i..<part_used d] = i # [Suc i..<part_used d]" using i by (rule upt_conv_Cons)
  ultimately show ?case using d1 padded_from_trans by auto
qed simp

end

text \<open>A reader of the partition table: first sector and number of sectors of entry \<open>k\<close>, and its type.\<close>

definition table_entry :: "byte list \<Rightarrow> nat \<Rightarrow> nat \<times> nat \<times> byte" where
  "table_entry sector k =
     (let e = drop (446 + 16 * k) sector in (le32 (drop 8 e), le32 (drop 12 e), e ! 4))"

lemma chs_bytes: "\<exists>a b c. lba_to_chs lba = [a, b, c]"
  by (simp add: lba_to_chs_def Let_def split: prod.split)

lemma length_mbr_entry_bytes [simp]: "length (mbr_entry_bytes p) = 16"
  by (simp add: mbr_entry_bytes_def lba_to_chs_def le32_bytes_def Let_def split: prod.split)

lemma length_entries: "length (concat (map mbr_entry_bytes ps)) = 16 * length ps"
  by (induction ps) simp_all

lemma length_mbr_header: "part_used d \<le> 4 \<Longrightarrow> length (parts d) = part_used d \<Longrightarrow> length (mbr_header_bytes d) = 512"
  by (simp add: mbr_header_bytes_def parts_def [symmetric] length_entries MAX_MBR_PARTITIONS_def)

lemma drop_entries: "k < length ps \<Longrightarrow> drop (16 * k) (concat (map mbr_entry_bytes ps)) =
    mbr_entry_bytes (ps ! k) @ concat (map mbr_entry_bytes (drop (Suc k) ps))"
proof (induction ps arbitrary: k)
  case (Cons p ps)
  then show ?case by (cases k) simp_all
qed simp

lemma table_entry_header:
  assumes "k < length (parts d)" "p_index (parts d ! k) < 2 ^ 32" "blk_count (parts d ! k) < 2 ^ 32"
  shows "table_entry (mbr_header_bytes d) k =
    (p_index (parts d ! k), blk_count (parts d ! k), ucast (drop_bit 20 (p_flags (parts d ! k))))"
proof -
  let ?p = "parts d ! k"
  obtain rest where r: "drop (446 + 16 * k) (mbr_header_bytes d) = mbr_entry_bytes ?p @ rest"
    using drop_entries [OF assms(1)] assms(1)
    by (simp add: mbr_header_bytes_def parts_def [symmetric] length_entries)
  obtain a b c e f g where chs: "lba_to_chs (p_index ?p) = [a, b, c]"
      "lba_to_chs (if blk_count ?p > 0 then u32 (p_index ?p + blk_count ?p - 1) else p_index ?p) = [e, f, g]"
    using chs_bytes by metis
  have en: "mbr_entry_bytes ?p = [if p_flags ?p AND MBR_PARTITION_FLAG_BOOTABLE \<noteq> 0 then 0x80 else 0, a, b, c,
      ucast (drop_bit 20 (p_flags ?p)), e, f, g] @ le32_bytes (p_index ?p) @ le32_bytes (blk_count ?p)"
    using assms(2,3) chs by (simp add: mbr_entry_bytes_def u32_exact Let_def)
  have "length (le32_bytes (p_index ?p)) = 4" by (simp add: le32_bytes_def)
  then have "drop 12 (mbr_entry_bytes ?p @ rest) = le32_bytes (blk_count ?p) @ rest"
    "drop 8 (mbr_entry_bytes ?p @ rest) = le32_bytes (p_index ?p) @ le32_bytes (blk_count ?p) @ rest"
    by (simp_all add: en)
  then show ?thesis using r assms(2,3) by (simp add: table_entry_def Let_def le32_le32_bytes en)
qed

context volume
begin

lemma write_table:
  assumes ok: "disk_ok inv view d" and S: "bs = SECTOR_SIZE"
  shows "\<exists>v'. write_block vol (mbr_volume d) 0 (Some (mbr_header_bytes d)) = (Some (), v') \<and> inv v' \<and>
    peek (content (view v')) 0 SECTOR_SIZE = mbr_header_bytes d \<and>
    disk_bytes view (d\<lparr>mbr_volume := v'\<rparr>) = disk_bytes view d"
proof -
  let ?S = SECTOR_SIZE and ?h = "mbr_header_bytes d"
  note okD = disk_okD [OF ok]
  have len: "length ?h = ?S"
    using length_mbr_header okD(3,7) by (simp add: SECTOR_SIZE_def MAX_MBR_PARTITIONS_def)
  have "0 < vblocks (view (mbr_volume d))" using okD(6) layout_reserved by linarith
  from write_partial [OF okD(1) this, of 0 ?S "Some ?h"] S len obtain v' where
    v': "write_partial_block vol (mbr_volume d) 0 (Some ?h) 0 bs = (Some (), v')" "inv v'"
      "wrote ?S (view (mbr_volume d)) (view v') 0 ?h" by auto
  have "peek (content (view v')) 0 ?S = ?h" using len wrote_content [OF v'(3)] peek_poke_same [of _ 0 ?h] by simp
  moreover have "part_bytes (content (view v')) p = part_bytes (content (view (mbr_volume d))) p" if "p \<in> set (parts d)" for p
  proof (rule part_bytes_cong)
    fix q assume q: "p_index p * ?S \<le> q"
    have "1 \<le> p_index p" using layout_before [OF okD(5) that] layout_reserved by linarith
    then have "?S \<le> q" using q mult_le_mono1 [of 1 "p_index p" ?S] by linarith
    then show "content (view v') q = content (view (mbr_volume d)) q" using len by (simp add: wrote_content [OF v'(3)] poke_out)
  qed
  ultimately show ?thesis using v'(1,2) by (auto simp: write_block_eq disk_bytes_def)
qed

end

section \<open>Disks on a file\<close>

lemma new_disk_rel:
  assumes "fv_inv env SECTOR_SIZE v" "MBR_RESERVED \<le> max_block_count v"
  shows "disk_rel (fv_inv env SECTOR_SIZE) (fv_view SECTOR_SIZE) (snd (mbrdisk_create (file_volume_ops env SECTOR_SIZE) v)) []"
    "fst (mbrdisk_create (file_volume_ops env SECTOR_SIZE) v) = file_volume_ops env SECTOR_SIZE"
  using assms
  by (simp_all add: disk_rel_def disk_ok_def disk_bytes_def all_tight_def mbrdisk_create_def parts_def file_volume_ops_def)

lemma file_disk_run:
  assumes "fv_inv env SECTOR_SIZE v" "MBR_RESERVED \<le> max_block_count v" "spec_run (max_block_count v) [] ops = Some (rs, st)"
    and "(vol, d0) = mbrdisk_create (file_volume_ops env SECTOR_SIZE) v"
  shows "vol = file_volume_ops env SECTOR_SIZE" "blocksize vol = SECTOR_SIZE"
    "\<exists>d. disk_run vol d0 ops = (Some rs, d) \<and> disk_rel (fv_inv env SECTOR_SIZE) (fv_view SECTOR_SIZE) d st \<and>
       max_block_count (mbr_volume d) = max_block_count v"
proof -
  show e: "vol = file_volume_ops env SECTOR_SIZE" using new_disk_rel(2) [OF assms(1,2)] assms(4) by (metis fst_conv)
  then show b: "blocksize vol = SECTOR_SIZE" by (simp add: file_volume_ops_def)
  have d0: "d0 = snd (mbrdisk_create (file_volume_ops env SECTOR_SIZE) v)" using assms(4) by (metis snd_conv)
  have "vblocks (fv_view SECTOR_SIZE (mbr_volume d0)) = max_block_count v" by (simp add: d0 mbrdisk_create_def)
  from fv.disk_run_ok [OF new_disk_rel(1) [OF assms(1,2)] b [unfolded e] this [unfolded d0] assms(3)]
  show "\<exists>d. disk_run vol d0 ops = (Some rs, d) \<and> disk_rel (fv_inv env SECTOR_SIZE) (fv_view SECTOR_SIZE) d st \<and>
      max_block_count (mbr_volume d) = max_block_count v"
    unfolding e d0 by simp
qed

text \<open>C4: a disk with an MBR on a file volume with blocks of 512 bytes refines the specification of a list of growing
  files. Whatever partitions a client creates and whichever whole blocks it reads and writes in them, as long as the
  specification allows it: every operation succeeds, every read delivers what the specification delivers, and in the
  end the image holds in each partition exactly the bytes of the specification, no matter how often partitions had to
  move to make room. The block size matters: \<open>volume_from_fd\<close> gives a regular file blocks of 4096 bytes, and a disk on
  it works through the block size adapter, which moves partitions with the \<open>move_block_partial\<close> of the file volume;
  \<open>move_block_partial_unmarked\<close> shows that what is moved to unused blocks that way reads as zeros.\<close>

theorem mbr_disk_refines:
  assumes "fv_inv env SECTOR_SIZE v" "MBR_RESERVED \<le> max_block_count v"
    and "spec_run (max_block_count v) [] ops = Some (rs, st)"
    and "(vol, d0) = mbrdisk_create (file_volume_ops env SECTOR_SIZE) v"
  shows "\<exists>d. disk_run vol d0 ops = (Some rs, d) \<and> disk_bytes (fv_view SECTOR_SIZE) d = map fst st"
  using file_disk_run(3) [OF assms] by (auto simp: disk_rel_def)

text \<open>The operations of the test in \<open>tests/libimage/mbrdisk.c\<close>, in short: a partition that can grow, one that cannot, a
  write behind the end of the first one, and reading both.\<close>

definition demo_ops :: "disk_op list" where
  "demo_ops = [CreatePart 5 COMMON_PARTITION_FLAG_GROW, CreatePart 10 0, WriteBlock 1 0 (replicate 512 7),
     WriteBlock 0 2048 (replicate 512 9), ReadBlock 0 2048, ReadBlock 1 0]"

definition demo_disk :: file_volume where
  "demo_disk = \<lparr>fd = \<lparr>fbytes = [], sched = [Intr, Short 1]\<rparr>, bitmap = \<lparr>words = [0, 0]\<rparr>, bytes_used = 0,
      min_block_count = 0, max_block_count = 10000\<rparr>"

lemma demo_disk_inv: "fv_inv demo_env SECTOR_SIZE demo_disk"
  by (simp add: fv_inv_def demo_disk_def demo_env_def benign_def bitmap_wf_def fbyte_def empty_bitmap SECTOR_SIZE_def)

lemma part_store_length:
  assumes "length xs = count * SECTOR_SIZE" "MBR_PART_ALIGN dvd count" "length data = SECTOR_SIZE"
  shows "length (part_store xs (i * SECTOR_SIZE) data) =
    (if i < count then count else count + round_up (i - count + 1)) * SECTOR_SIZE"
proof -
  have "(i + 1) * SECTOR_SIZE \<le> (count + round_up (i - count + 1)) * SECTOR_SIZE"
    using round_up_facts(2) [of "i - count + 1"] by (intro mult_le_mono1) linarith
  moreover have "(i + 1) * SECTOR_SIZE \<le> count * SECTOR_SIZE" if "i < count" using that by (intro mult_le_mono1) simp
  ultimately show ?thesis
    using extend_blocks [OF assms(1,2), of SECTOR_SIZE i] assms(1,3) by (auto simp: part_store_def add_mult_distrib)
qed

lemma part_store_read:
  assumes "length data = SECTOR_SIZE" "pos + SECTOR_SIZE \<le> length (extend xs (pos + SECTOR_SIZE))"
  shows "take SECTOR_SIZE (drop pos (part_store xs pos data)) = data"
proof -
  have "data \<noteq> []" using assms(1) by (auto simp: SECTOR_SIZE_def)
  then show ?thesis using assms by (simp add: part_store_def put_bytes_def zeros_def)
qed

lemma extend_fits: "n \<le> length (extend xs n)"
  using div_up_ge [of MIB n] by (simp add: extend_def MIB_def)

abbreviation mebi :: "byte list" where
  "mebi \<equiv> zeros (2048 * SECTOR_SIZE)"

lemma demo_spec:
  "spec_run 10000 [] demo_ops =
     Some ([[], [], [], [], replicate 512 9, replicate 512 7],
       [(part_store mebi (2048 * SECTOR_SIZE) (replicate 512 9), True), (part_store mebi 0 (replicate 512 7), False)])"
proof -
  have R: "round_up 5 = 2048" "round_up 10 = 2048" "round_up 1 = 2048"
    by (simp_all add: round_up_def MBR_PART_ALIGN_def SECTOR_SIZE_def)
  have S: "length (replicate 512 x) = SECTOR_SIZE" for x :: byte by (simp add: SECTOR_SIZE_def)
  have al: "MBR_PART_ALIGN dvd 2048" by (simp add: MBR_PART_ALIGN_def SECTOR_SIZE_def)
  have g: "COMMON_PARTITION_FLAG_GROW \<noteq> 0" by (simp add: COMMON_PARTITION_FLAG_GROW_def)
  have e: "(512 = SECTOR_SIZE) = True" "mebi \<noteq> []" "length mebi = 2048 * SECTOR_SIZE" by (simp_all add: zeros_def SECTOR_SIZE_def)
  note len = part_store_length [of mebi 2048 "replicate 512 _", OF length_zeros al S]
  have l0: "length (part_store mebi 0 (replicate 512 7)) = 2048 * SECTOR_SIZE" using len [of 0 7] by simp
  then have ne: "part_store mebi 0 (replicate 512 7) \<noteq> []" using e(2) e(3) by (metis length_0_conv)
  have l1: "length (part_store mebi (2048 * SECTOR_SIZE) (replicate 512 9)) = 4096 * SECTOR_SIZE"
    using len [of 2048 9] R(3) by simp
  have rd: "take SECTOR_SIZE (drop pos (part_store mebi pos (replicate 512 x))) = replicate 512 x" for pos x
    by (rule part_store_read [OF S extend_fits])
  have sz: "spec_size st = 2048 * SECTOR_SIZE + sum_list (map (length \<circ> fst) st)" for st
    by (simp add: spec_size_def MIB_def MBR_PART_ALIGN_def SECTOR_SIZE_def)
  note new = extend_new [unfolded One_nat_def]

  have s1: "spec_step 10000 [] (CreatePart 5 COMMON_PARTITION_FLAG_GROW) = Some ([], [(mebi, True)])"
    unfolding spec_step_def Let_def by (simp add: new R g sz)
  have s2: "spec_step 10000 [(mebi, True)] (CreatePart 10 0) = Some ([], [(mebi, True), (mebi, False)])"
    unfolding spec_step_def Let_def by (simp add: new R sz)
  have s3: "spec_step 10000 [(mebi, True), (mebi, False)] (WriteBlock 1 0 (replicate 512 7)) =
      Some ([], [(mebi, True), (part_store mebi 0 (replicate 512 7), False)])"
    unfolding spec_step_def Let_def by (simp add: sz l0 e)
  have s4: "spec_step 10000 [(mebi, True), (part_store mebi 0 (replicate 512 7), False)] (WriteBlock 0 2048 (replicate 512 9)) =
      Some ([], [(part_store mebi (2048 * SECTOR_SIZE) (replicate 512 9), True), (part_store mebi 0 (replicate 512 7), False)])"
    unfolding spec_step_def Let_def by (simp add: sz l0 l1 e)
  show ?thesis
    unfolding demo_ops_def by (simp add: s1 s2 s3 [simplified] s4) (simp add: spec_step_def l0 l1 ne rd rd [of 0, simplified])
qed

lemma demo_disk_facts:
  "max_block_count demo_disk = 10000" "MBR_RESERVED \<le> max_block_count demo_disk"
  "(file_volume_ops demo_env SECTOR_SIZE, snd (mbrdisk_create (file_volume_ops demo_env SECTOR_SIZE) demo_disk)) =
     mbrdisk_create (file_volume_ops demo_env SECTOR_SIZE) demo_disk"
proof -
  show m: "max_block_count demo_disk = 10000" "MBR_RESERVED \<le> max_block_count demo_disk"
    by (simp_all add: demo_disk_def MBR_RESERVED_def MBR_PART_ALIGN_def SECTOR_SIZE_def)
  show "(file_volume_ops demo_env SECTOR_SIZE, snd (mbrdisk_create (file_volume_ops demo_env SECTOR_SIZE) demo_disk)) =
      mbrdisk_create (file_volume_ops demo_env SECTOR_SIZE) demo_disk"
    using new_disk_rel(2) [OF demo_disk_inv m(2)] by (metis prod.collapse)
qed

theorem mbr_disk_refines_witness:
  "\<exists>d. disk_run (file_volume_ops demo_env SECTOR_SIZE) (snd (mbrdisk_create (file_volume_ops demo_env SECTOR_SIZE) demo_disk)) demo_ops =
      (Some [[], [], [], [], replicate 512 9, replicate 512 7], d) \<and>
    disk_bytes (fv_view SECTOR_SIZE) d =
      [part_store mebi (2048 * SECTOR_SIZE) (replicate 512 9), part_store mebi 0 (replicate 512 7)]"
  using mbr_disk_refines [OF demo_disk_inv demo_disk_facts(2) demo_spec [folded demo_disk_facts(1)] demo_disk_facts(3)] by simp

lemma header_signature:
  assumes "part_used d \<le> 4" "length (parts d) = part_used d"
  shows "drop 510 (mbr_header_bytes d) = [0x55, 0xAA]"
  using assms by (simp add: mbr_header_bytes_def parts_def [symmetric] length_entries MAX_MBR_PARTITIONS_def)

lemma layout_consecutive:
  assumes "layout s ps" "k < length ps"
  shows "p_index (ps ! k) = (if k = 0 then s else p_index (ps ! (k - 1)) + blk_count (ps ! (k - 1)))"
proof (cases k)
  case 0
  then show ?thesis using layout_nth(1) [OF assms] by simp
next
  case (Suc j)
  then have "j < length ps" using assms(2) by simp
  then show ?thesis using Suc layout_nth(1) [OF assms] layout_nth(1) [OF assms(1), of j] by (simp add: take_Suc_conv_app_nth)
qed

lemma file_commit:
  assumes rel: "disk_rel (fv_inv env SECTOR_SIZE) (fv_view SECTOR_SIZE) d st" and env: "has_truncate env" "has_fsync env"
    and vol: "vol = file_volume_ops env SECTOR_SIZE"
  shows "\<exists>d' v'. mbr_disk_commit vol d = (Some (), d'\<lparr>mbr_volume := v'\<rparr>) \<and> disk_ok (fv_inv env SECTOR_SIZE) (fv_view SECTOR_SIZE) d' \<and>
    part_used d' = part_used d \<and> max_block_count (mbr_volume d') = max_block_count (mbr_volume d) \<and>
    peek (fbyte (fd v')) 0 SECTOR_SIZE = mbr_header_bytes d' \<and>
    padded_from (map (part_bytes (fbyte (fd v'))) (parts d')) (map fst st)"
proof -
  let ?S = SECTOR_SIZE and ?vw = "fv_view SECTOR_SIZE" and ?inv = "fv_inv env SECTOR_SIZE"
  have b: "blocksize (file_volume_ops env ?S) = ?S" by (simp add: file_volume_ops_def)
  note rD = disk_relD [OF rel]
  have shrink: "each_part (mbr_shrink_to_fit vol) d [0..<part_used d] = (Some (), d)"
    by (rule each_part_none) (use shrink_to_fit_tight [OF rD(1)] all_tight_nth [OF rD(2,1)] in auto)
  from fv.expand_all [OF rD(1) b, of 0] all_tight_nth [OF rD(2,1)] obtain d1 where
    d1: "each_part (mbr_apply_expand_policy vol) d [0..<part_used d] = (Some (), d1)" "disk_ok ?inv ?vw d1"
      "part_used d1 = part_used d" "vblocks (?vw (mbr_volume d1)) = vblocks (?vw (mbr_volume d))"
      "padded_from (disk_bytes ?vw d1) (disk_bytes ?vw d)" unfolding vol by blast
  from fv.write_table [OF d1(2) b] obtain v2 where
    v2: "write_block vol (mbr_volume d1) 0 (Some (mbr_header_bytes d1)) = (Some (), v2)" "?inv v2"
      "peek (fbyte (fd v2)) 0 ?S = mbr_header_bytes d1" "disk_bytes ?vw (d1\<lparr>mbr_volume := v2\<rparr>) = disk_bytes ?vw d1"
    unfolding vol by auto
  from fv_commit_ok [OF v2(2) env] obtain v3 where v3: "vol_commit vol v2 = (Some (), v3)" "?vw v3 = ?vw v2"
    unfolding vol by (auto simp: file_volume_ops_def)
  have img: "fbyte (fd v3) = fbyte (fd v2)" using arg_cong [OF v3(2), of content] by simp
  have "mbr_disk_commit vol d = (Some (), d1\<lparr>mbr_volume := v3\<rparr>)"
    by (simp add: mbr_disk_commit_def shrink d1(1) v2(1) v3(1))
  moreover have "map (part_bytes (fbyte (fd v3))) (parts d1) = disk_bytes ?vw d1"
    using v2(4) by (simp add: disk_bytes_def img)
  ultimately show ?thesis using d1 v2(3) rD(3) img by (intro exI [of _ d1] exI [of _ v3]) simp
qed

text \<open>C25: committing the disk writes a partition table that describes the partitions. On a file volume with blocks of
  512 bytes, after any sequence of creating partitions and reading and writing whole blocks that the specification
  allows, \<open>commit\<close> succeeds. Such a sequence leaves no partition with unused space that commit would have to give back,
  which is where data are lost. The image then has the boot signature, the entries of the table describe consecutive ranges of
  sectors from the first mebibyte on, and the range of an entry holds the bytes of the partition, filled up with
  zeros if the partition was expanded to fill the disk.\<close>

theorem mbr_commit_table:
  assumes "fv_inv env SECTOR_SIZE v" "MBR_RESERVED \<le> max_block_count v" "max_block_count v < 2 ^ 32" "has_truncate env" "has_fsync env"
    and "spec_run (max_block_count v) [] ops = Some (rs, st)"
    and "(vol, d0) = mbrdisk_create (file_volume_ops env SECTOR_SIZE) v" "disk_run vol d0 ops = (Some rs, d)"
  shows "\<exists>d'. mbr_disk_commit vol d = (Some (), d') \<and>
    (let image = fbyte (fd (mbr_volume d')); entry = table_entry (peek image 0 SECTOR_SIZE)
     in peek image 510 2 = [0x55, 0xAA] \<and>
        (\<forall>k<length st. case entry k of (first, count, _) \<Rightarrow>
           \<exists>z. peek image (first * SECTOR_SIZE) (count * SECTOR_SIZE) = fst (st ! k) @ zeros z) \<and>
        (\<forall>k<length st. fst (entry k) =
           (if k = 0 then MBR_RESERVED else fst (entry (k - 1)) + fst (snd (entry (k - 1))))))"
proof -
  let ?S = SECTOR_SIZE
  note run = file_disk_run [OF assms(1,2,6,7)]
  have rel: "disk_rel (fv_inv env ?S) (fv_view ?S) d st" and cap: "max_block_count (mbr_volume d) = max_block_count v"
    using run(3) assms(8) by auto
  obtain d' v' where c: "mbr_disk_commit vol d = (Some (), d'\<lparr>mbr_volume := v'\<rparr>)" "disk_ok (fv_inv env ?S) (fv_view ?S) d'"
      "part_used d' = part_used d" "max_block_count (mbr_volume d') = max_block_count (mbr_volume d)"
      "peek (fbyte (fd v')) 0 ?S = mbr_header_bytes d'" "padded_from (map (part_bytes (fbyte (fd v'))) (parts d')) (map fst st)"
    using file_commit [OF rel assms(4,5) run(1)] by blast
  note okD = disk_okD [OF c(2)]
  have n: "length st = length (parts d')" using disk_relD(4) [OF rel] c(3) okD(7) by simp
  have entry: "table_entry (peek (fbyte (fd v')) 0 ?S) k =
      (p_index (parts d' ! k), blk_count (parts d' ! k), ucast (drop_bit 20 (p_flags (parts d' ! k))))" if "k < length st" for k
  proof -
    have k: "k < length (parts d')" using that n by simp
    have "p_index (parts d' ! k) + blk_count (parts d' ! k) \<le> max_block_count v"
      using layout_nth(5) [OF okD(5) k] okD(6) c(4) cap by simp
    then show ?thesis using table_entry_header [OF k] assms(3) c(5) by simp
  qed
  have "peek (fbyte (fd v')) 510 2 = [0x55, 0xAA]"
    using drop_peek [of 510 "fbyte (fd v')" 0 ?S] c(5) header_signature [of d'] okD(3,7)
    by (simp add: SECTOR_SIZE_def MAX_MBR_PARTITIONS_def)
  moreover have "\<exists>z. peek (fbyte (fd v')) (p_index (parts d' ! k) * ?S) (blk_count (parts d' ! k) * ?S) = fst (st ! k) @ zeros z"
    if "k < length st" for k using c(6) that n unfolding padded_from_def by (simp add: part_bytes_def)
  ultimately show ?thesis
    using c(1) entry layout_consecutive [OF okD(5)] n by (auto simp: Let_def)
qed

theorem mbr_commit_table_witness:
  "\<exists>d d'. disk_run (file_volume_ops demo_env SECTOR_SIZE) (snd (mbrdisk_create (file_volume_ops demo_env SECTOR_SIZE) demo_disk)) demo_ops =
      (Some [[], [], [], [], replicate 512 9, replicate 512 7], d) \<and>
    mbr_disk_commit (file_volume_ops demo_env SECTOR_SIZE) d = (Some (), d') \<and>
    peek (fbyte (fd (mbr_volume d'))) 510 2 = [0x55, 0xAA]"
proof -
  let ?vol = "file_volume_ops demo_env SECTOR_SIZE"
  note sp = demo_spec [folded demo_disk_facts(1)]
  obtain d where d: "disk_run ?vol (snd (mbrdisk_create ?vol demo_disk)) demo_ops = (Some [[], [], [], [], replicate 512 9, replicate 512 7], d)"
    using file_disk_run(3) [OF demo_disk_inv demo_disk_facts(2) sp demo_disk_facts(3)] by blast
  have "max_block_count demo_disk < 2 ^ 32" "has_truncate demo_env" "has_fsync demo_env"
    by (simp_all add: demo_disk_facts(1) demo_env_def)
  from mbr_commit_table [OF demo_disk_inv demo_disk_facts(2) this sp demo_disk_facts(3) d]
  show ?thesis using d by (auto simp: Let_def)
qed

section \<open>Shrinking, and the type of a partition\<close>

definition shrunk :: "mbr_partition list \<Rightarrow> nat \<Rightarrow> nat \<Rightarrow> mbr_partition list" where
  "shrunk ps k D =
     take k ps @ (ps ! k)\<lparr>blk_count := blk_count (ps ! k) - D\<rparr> # map (\<lambda>p. p\<lparr>p_index := p_index p - D\<rparr>) (drop (Suc k) ps)"

lemma shrunk_Suc: "Suc k < length ps \<Longrightarrow> shrunk ps k D ! Suc k = (ps ! Suc k)\<lparr>p_index := p_index (ps ! Suc k) - D\<rparr>"
  by (simp add: shrunk_def nth_append)

lemma shrink_parts:
  assumes ok: "disk_ok vinv vw d" and k: "k < part_used d" and D: "D \<le> blk_count (parts d ! k)"
  shows "parts (set_part k (\<lambda>p. p\<lparr>blk_count := sub64 (blk_count p) D\<rparr>)
      (map_parts (\<lambda>p. if p_index p > p_index (parts d ! k) then p\<lparr>p_index := sub64 (p_index p) D\<rparr> else p) (d\<lparr>mbr_volume := v\<rparr>))) =
    shrunk (parts d) k D"
proof -
  let ?ps = "parts d"
  note okD = disk_okD [OF ok]
  have kl: "k < length ?ps" using k okD(7) by simp
  have "map (\<lambda>p. if p_index p > p_index (?ps ! k) then p\<lparr>p_index := sub64 (p_index p) D\<rparr> else p) ?ps =
      take (Suc k) ?ps @ map (\<lambda>p. p\<lparr>p_index := p_index p - D\<rparr>) (drop (Suc k) ?ps)" (is "map ?f ?ps = ?r")
  proof (rule nth_equalityI)
    fix i assume "i < length (map ?f ?ps)"
    then have i: "i < length ?ps" by simp
    have "sub64 (p_index (?ps ! i)) D = p_index (?ps ! i) - D" if "k < i"
    proof -
      have "blk_count (?ps ! k) \<le> p_index (?ps ! i)"
        using layout_apart [OF okD(5) that i] by simp
      then show ?thesis using D by (simp add: sub64_exact)
    qed
    then show "map ?f ?ps ! i = ?r ! i"
      using i kl layout_less [OF okD(5) i kl] by (cases "k < i") (auto simp: nth_append not_less)
  qed simp
  then show ?thesis
    using k okD(4) D kl by (simp add: shrunk_def take_Suc_conv_app_nth list_update_append nth_append sub64_exact)
qed

lemma shrink_diff_le:
  assumes "MBR_PART_ALIGN \<le> blk_count p" "blk_count_min p \<le> blk_count p"
  shows "shrink_diff p n \<le> blk_count p"
  unfolding shrink_diff_def Let_def using assms by (auto simp: sub64_exact)

context volume
begin

lemma shrink_moves_table_only:
  assumes ok: "disk_ok inv view d" and S: "bs = SECTOR_SIZE" and k: "Suc k < part_used d"
    and u: "blk_used (parts d ! k) < blk_count (parts d ! k)"
    and D: "D = shrink_diff (parts d ! k) (blk_count (parts d ! k) - blk_used (parts d ! k))" "0 < D" "D < blk_count (parts d ! Suc k)"
  shows "\<exists>d'. mbr_shrink_to_fit vol d k = (Some (), d') \<and> parts d' = shrunk (parts d) k D \<and>
    take (D * SECTOR_SIZE) (disk_bytes view d' ! Suc k) =
      drop ((blk_count (parts d ! k) - D) * SECTOR_SIZE) (disk_bytes view d ! k)"
proof -
  let ?S = SECTOR_SIZE and ?ps = "parts d" and ?E = "MBR_RESERVED + total_blocks (parts d)" and ?v = "mbr_volume d"
  note okD = disk_okD [OF ok]
  have kl: "k < length ?ps" "Suc k < length ?ps" "k < part_used d" using k okD(7) by simp_all
  note l = layout_nth [OF okD(5) kl(1)] and l' = layout_nth [OF okD(5) kl(2)]
  have "MBR_PART_ALIGN \<le> blk_count (?ps ! k)" using l(2,3) by (simp add: dvd_imp_le)
  then have Dle: "D \<le> blk_count (?ps ! k)" unfolding D(1) using l(4) by (rule shrink_diff_le)
  have nx: "p_index (?ps ! Suc k) = p_index (?ps ! k) + blk_count (?ps ! k)"
    using layout_consecutive [OF okD(5) kl(2)] by simp
  have E: "p_index (?ps ! Suc k) + D < ?E" using l'(5) D(3) by linarith
  have lb: "last_block d = ?E - 1"
    using last_block_eq [OF okD(5)] kl(1) sector_bound [OF okD(1) S okD(6)] by fastforce
  have sb: "sub64 (?E - 1) D = ?E - 1 - D" using E by (intro sub64_exact) linarith
  have fit: "?E - 1 - D + D \<le> vblocks (view ?v)" using E okD(6) by linarith
  from discard [OF okD(1) fit D(2)] obtain v' where
    v': "discard_blocks vol ?v (?E - 1 - D) D = (Some (), v')" "wrote ?S (view ?v) (view v') ((?E - 1 - D) * ?S) (zeros (D * ?S))"
    using S by auto
  have pk: "part_of d k = ?ps ! k" using kl(3) okD(4) by simp
  define d' where "d' = set_part k (\<lambda>p. p\<lparr>blk_count := sub64 (blk_count p) D\<rparr>)
      (map_parts (\<lambda>p. if p_index p > p_index (?ps ! k) then p\<lparr>p_index := sub64 (p_index p) D\<rparr> else p) (d\<lparr>mbr_volume := v'\<rparr>))"
  have run: "mbr_shrink_to_fit vol d k = (Some (), d')"
    unfolding mbr_shrink_to_fit_def shrink_partition_def Let_def pk D(1) [symmetric] lb sb
    using u D(2) v'(1) by (simp add: d'_def)
  have parts': "parts d' = shrunk ?ps k D" unfolding d'_def by (rule shrink_parts [OF ok kl(3) Dle])
  have len: "Suc k < length (parts d')" using kl(2) by (simp add: parts' shrunk_def)
  have "mbr_volume d' = v'" by (simp add: d'_def)
  then have "disk_bytes view d' ! Suc k =
      peek (content (view v')) ((p_index (?ps ! Suc k) - D) * ?S) (blk_count (?ps ! Suc k) * ?S)"
    using len by (simp add: disk_bytes_def part_bytes_def parts' shrunk_Suc [OF kl(2)])
  moreover have "D * ?S \<le> blk_count (?ps ! Suc k) * ?S" using D(3) by (intro mult_le_mono1) simp
  ultimately have "take (D * ?S) (disk_bytes view d' ! Suc k) =
      peek (content (view v')) ((p_index (?ps ! Suc k) - D) * ?S) (D * ?S)"
    by (simp add: take_peek min_absorb1)
  also have "\<dots> = peek (content (view ?v)) ((p_index (?ps ! Suc k) - D) * ?S) (D * ?S)"
  proof (rule peek_cong)
    fix q assume "q < (p_index (?ps ! Suc k) - D) * ?S + D * ?S"
    also have "\<dots> = p_index (?ps ! Suc k) * ?S" using nx Dle by (simp add: add_mult_distrib [symmetric])
    also have "\<dots> \<le> (?E - 1 - D) * ?S" using E by (intro mult_le_mono1) linarith
    finally show "content (view v') q = content (view ?v) q" by (simp add: wrote_content [OF v'(2)] poke_out)
  qed
  also have "\<dots> = drop ((blk_count (?ps ! k) - D) * ?S) (disk_bytes view d ! k)"
  proof -
    have "p_index (?ps ! k) * ?S + (blk_count (?ps ! k) - D) * ?S = (p_index (?ps ! Suc k) - D) * ?S"
      using nx Dle by (simp add: add_mult_distrib [symmetric])
    moreover have "blk_count (?ps ! k) * ?S - (blk_count (?ps ! k) - D) * ?S = D * ?S" using Dle by (simp add: diff_mult_distrib [symmetric])
    ultimately show ?thesis using kl(1) by (simp add: disk_bytes_def part_bytes_def drop_peek)
  qed
  finally show ?thesis using run parts' by blast
qed

end

text \<open>C26: giving back unused space of a partition, which happens before another one grows and on every commit, moves the
  start of the partitions behind it down but not their data. Afterwards the partition behind it begins with what
  used to be the end of the shrunk partition.\<close>

theorem mbr_shrink_loses_data:
  assumes "disk_ok (fv_inv env SECTOR_SIZE) (fv_view SECTOR_SIZE) d" "Suc k < part_used d"
    and "blk_used (parts d ! k) < blk_count (parts d ! k)"
    and "D = shrink_diff (parts d ! k) (blk_count (parts d ! k) - blk_used (parts d ! k))" "0 < D" "D < blk_count (parts d ! Suc k)"
  shows "\<exists>d'. mbr_shrink_to_fit (file_volume_ops env SECTOR_SIZE) d k = (Some (), d') \<and> parts d' = shrunk (parts d) k D \<and>
    take (D * SECTOR_SIZE) (disk_bytes (fv_view SECTOR_SIZE) d' ! Suc k) =
      drop ((blk_count (parts d ! k) - D) * SECTOR_SIZE) (disk_bytes (fv_view SECTOR_SIZE) d ! k)"
  using fv.shrink_moves_table_only [OF assms(1) _ assms(2-6)] by (simp add: file_volume_ops_def)

text \<open>Two partitions of two mebibytes, the first of which was written to up to there and then discarded down to one block.\<close>

definition slack_disk :: "file_volume mbr_disk" where
  "slack_disk =
     \<lparr>mbr_volume = demo_disk\<lparr>max_block_count := 20000\<rparr>, part_used = 2,
      partitions =
        [\<lparr>p_index = 2048, blk_count_min = 2048, blk_count = 4096, blk_used = 1, p_flags = COMMON_PARTITION_FLAG_GROW\<rparr>,
         \<lparr>p_index = 6144, blk_count_min = 4096, blk_count = 4096, blk_used = 4096, p_flags = 0\<rparr>,
         \<lparr>p_index = 0, blk_count_min = 0, blk_count = 0, blk_used = 0, p_flags = 0\<rparr>,
         \<lparr>p_index = 0, blk_count_min = 0, blk_count = 0, blk_used = 0, p_flags = 0\<rparr>]\<rparr>"

lemma slack_disk_ok: "disk_ok (fv_inv demo_env SECTOR_SIZE) (fv_view SECTOR_SIZE) slack_disk"
proof -
  have "fv_inv demo_env SECTOR_SIZE (demo_disk\<lparr>max_block_count := 20000\<rparr>)"
    by (simp add: fv_inv_def demo_disk_def demo_env_def benign_def bitmap_wf_def fbyte_def empty_bitmap SECTOR_SIZE_def)
  then show ?thesis
    by (simp add: disk_ok_def slack_disk_def parts_def MAX_MBR_PARTITIONS_def MBR_RESERVED_def MBR_PART_ALIGN_def SECTOR_SIZE_def
        demo_disk_def empty_bitmap)
qed

theorem mbr_shrink_loses_data_witness:
  "\<exists>d'. mbr_shrink_to_fit (file_volume_ops demo_env SECTOR_SIZE) slack_disk 0 = (Some (), d') \<and>
    parts d' = shrunk (parts slack_disk) 0 2048 \<and>
    take (2048 * SECTOR_SIZE) (disk_bytes (fv_view SECTOR_SIZE) d' ! 1) =
      drop (2048 * SECTOR_SIZE) (disk_bytes (fv_view SECTOR_SIZE) slack_disk ! 0)"
proof -
  have ps: "parts slack_disk ! 0 = \<lparr>p_index = 2048, blk_count_min = 2048, blk_count = 4096, blk_used = 1, p_flags = COMMON_PARTITION_FLAG_GROW\<rparr>"
    "parts slack_disk ! Suc 0 = \<lparr>p_index = 6144, blk_count_min = 4096, blk_count = 4096, blk_used = 4096, p_flags = 0\<rparr>"
    by (simp_all add: slack_disk_def parts_def)
  have h: "Suc 0 < part_used slack_disk" "blk_used (parts slack_disk ! 0) < blk_count (parts slack_disk ! 0)"
    "2048 = shrink_diff (parts slack_disk ! 0) (blk_count (parts slack_disk ! 0) - blk_used (parts slack_disk ! 0))"
    "0 < (2048 :: nat)" "2048 < blk_count (parts slack_disk ! Suc 0)" "blk_count (parts slack_disk ! 0) - 2048 = 2048"
    unfolding ps by (simp_all add: slack_disk_def shrink_diff_def MBR_PART_ALIGN_def SECTOR_SIZE_def sub64_def Let_def)
  from mbr_shrink_loses_data [OF slack_disk_ok h(1-5)] show ?thesis unfolding h(6) One_nat_def .
qed

text \<open>The property \<open>type\<close> of a partition is given as one of the constants \<open>MBR_PARTITION_TYPE_*\<close>, which have the type in bits 20
  to 27 already, and is shifted by 20 bits again.\<close>

text \<open>Setting the type of a partition to any of the named types succeeds and clears it: the byte for the type in the
  partition table becomes 0.\<close>

theorem mbr_type_property_lost:
  assumes "(name, val) \<in> set mbr_types" "k < length (partitions d)"
  shows "\<exists>d'. mbr_part_set_property 0 (d, k) (PropEnum val) = Some (d', k) \<and> mbr_entry_bytes (part_of d' k) ! 4 = 0"
proof -
  have v: "(word_of_int val :: 32 word) AND NOT 0x0FF00000 = 0" "push_bit 20 (word_of_int val :: 64 word) AND 0x0FF00000 = 0"
    using assms(1) by (auto simp: mbr_types_def)
  have ty: "ucast (drop_bit 20 (f :: flags)) = (ucast (drop_bit 20 (f AND 0x0FF00000)) :: byte)" for f
  proof (rule bit_eqI)
    fix n assume "possible_bit TYPE(byte) n"
    then have n: "n < 8" by simp
    have "bit (255 :: flags) n"
    proof -
      have "(255 :: flags) = mask 8" by (simp add: mask_eq_exp_minus_1)
      then show ?thesis using n by (simp only: bit_mask_iff) simp
    qed
    then show "bit (ucast (drop_bit 20 f) :: byte) n = bit (ucast (drop_bit 20 (f AND 0x0FF00000)) :: byte) n"
      using n by (simp add: bit_simps)
  qed
  let ?f = "(p_flags (part_of d k) AND NOT 0x0FF00000) OR push_bit 20 (word_of_int val)"
  have zero: "?f AND 0x0FF00000 = 0" using v(2) by (simp add: bit.conj_disj_distrib2 and.assoc)
  define d' where "d' = snd (part_set_flags k d ?f)"
  have s: "mbr_part_set_property 0 (d, k) (PropEnum val) = Some (d', k)"
    using v(1) by (simp add: mbr_part_set_property_def part_get_flags_def d'_def)
  have "p_flags (part_of d' k) = ?f"
    using assms(2) by (simp add: d'_def part_set_flags_def set_part_def clear_fill_def map_parts_def)
  then have "(ucast (drop_bit 20 (p_flags (part_of d' k))) :: byte) = ucast (drop_bit 20 (?f AND 0x0FF00000))"
    by (simp only: ty [of ?f])
  then have "(ucast (drop_bit 20 (p_flags (part_of d' k))) :: byte) = 0" unfolding zero by simp
  then have "mbr_entry_bytes (part_of d' k) ! 4 = 0"
    using chs_bytes [of "u32 (p_index (part_of d' k))"] by (auto simp: mbr_entry_bytes_def Let_def)
  then show ?thesis using s by blast
qed

theorem mbr_type_property_lost_witness:
  "\<exists>d'. mbr_part_set_property 0 (slack_disk, 1) (PropEnum 0x08300000) = Some (d', 1) \<and> mbr_entry_bytes (part_of d' 1) ! 4 = 0"
  by (rule mbr_type_property_lost [of "''Linux''"]) (simp_all add: mbr_types_def slack_disk_def)

text \<open>Seen through the interface for properties: the flags read back as they were set, the type always as 0.\<close>

lemma with_flag_and: "m \<noteq> 0 \<Longrightarrow> with_flag f m b AND m = 0 \<longleftrightarrow> \<not> b"
  by (auto simp: with_flag_def bit.conj_disj_distrib2 and.assoc or_eq_0_iff)

lemma set_flags_get:
  assumes "k < length (partitions d)"
  shows "part_get_flags k (snd (part_set_flags k d f)) = f" "length (partitions (snd (part_set_flags k d f))) = length (partitions d)"
  using assms by (simp_all add: part_get_flags_def part_set_flags_def set_part_def clear_fill_def map_parts_def min_def)

lemma flag_nonzero: "COMMON_PARTITION_FLAG_GROW \<noteq> 0" "COMMON_PARTITION_FLAG_FILL \<noteq> 0" "MBR_PARTITION_FLAG_BOOTABLE \<noteq> 0"
  by (simp_all add: COMMON_PARTITION_FLAG_GROW_def COMMON_PARTITION_FLAG_FILL_def MBR_PARTITION_FLAG_BOOTABLE_def)

interpretation partp: property_access partition_meta "\<lambda>(d, k). k < length (partitions d)" "\<lambda>i x v. v"
proof (unfold_locales, goal_cases)
  case (1 i) show ?case by (simp add: partition_meta_def)
next
  case (2 x i v y)
  then show ?case
    by (auto simp: partition_meta_def part_set_property_def set_flags_get Let_def split: prod.splits property_value.splits if_splits)
next
  case (3 x i v y)
  then show ?case
    by (auto simp: partition_meta_def part_set_property_def part_get_property_def set_flags_get with_flag_and flag_nonzero Let_def
        split: prod.splits property_value.splits if_splits)
qed

section \<open>Cylinders, heads and sectors\<close>

definition chs_to_lba :: "byte list \<Rightarrow> nat" where
  "chs_to_lba chs =
     (let h = unat (chs ! 0); s = unat (chs ! 1) mod 64; c = unat (chs ! 2) + unat (chs ! 1) div 64 * 256
      in (c * 254 + h) * 63 + s - 1)"

lemma byte_fields:
  assumes "a < 256" "b < 64"
  shows "unat ((of_nat a AND 0xC0) OR (of_nat b AND 0x3F) :: byte) = a div 64 * 64 + b"
proof -
  let ?w = "of_nat a :: byte" and ?v = "of_nat b :: byte"
  have eight: "n < 8 \<Longrightarrow> n = 0 \<or> n = 1 \<or> n = 2 \<or> n = 3 \<or> n = 4 \<or> n = 5 \<or> n = 6 \<or> n = (7 :: nat)" for n by auto
  have 1: "(?w AND 0xC0) OR (?v AND 0x3F) = push_bit 6 (drop_bit 6 ?w) OR take_bit 6 ?v"
  proof (rule bit_eqI)
    fix n assume "possible_bit TYPE(byte) n"
    then have "n < 8" by simp
    from eight [OF this] show "bit ((?w AND 0xC0) OR (?v AND 0x3F)) n = bit (push_bit 6 (drop_bit 6 ?w) OR take_bit 6 ?v) n"
      by (elim disjE) (simp_all only:, simp_all add: bit_or_iff bit_and_iff bit_push_bit_iff bit_drop_bit_eq bit_take_bit_iff)
  qed
  have 2: "push_bit 6 (drop_bit 6 ?w) OR take_bit 6 ?v = push_bit 6 (drop_bit 6 ?w) + take_bit 6 ?v"
    by (rule disjunctive_add [symmetric]) (auto simp: bit_push_bit_iff bit_take_bit_iff)
  have "a div 64 < 4" using assms(1) by simp
  then have "a div 64 * 64 + b < 256" using assms(2) by linarith
  then show ?thesis unfolding 1 2
    using assms by (simp add: push_bit_eq_mult unat_word_ariths unsigned_drop_bit_eq unsigned_take_bit_eq unat_of_nat
        drop_bit_eq_div take_bit_eq_mod)
qed

text \<open>Every sector below the limit has its own address, and every other one the largest.\<close>

lemma lba_chs:
  "lba < MAX_CHS \<Longrightarrow> chs_to_lba (lba_to_chs lba) = lba"
  "MAX_CHS \<le> lba \<Longrightarrow> lba_to_chs lba = [254, 0xFF, 0xFF]"
proof -
  assume a: "lba < MAX_CHS"
  define c h s where "c = lba div (254 * 63)" and "h = lba div 63 mod 254" and "s = 1 + lba mod 63"
  have c: "c < 1023" using a unfolding c_def MAX_CHS_def by (simp add: div_less_iff_less_mult)
  have hs: "h < 254" "s < 64" unfolding h_def s_def by simp_all
  have f: "unat ((of_nat (c div 4) AND 0xC0) OR (of_nat s AND 0x3F) :: byte) = c div 256 * 64 + s"
    using byte_fields [of "c div 4" s] c hs(2) div_mult2_eq [of c 4 64] by simp
  have chs: "lba_to_chs lba = [of_nat h, (of_nat (c div 4) AND 0xC0) OR (of_nat s AND 0x3F), of_nat c]"
    using a by (simp only: lba_to_chs_def c_def h_def s_def not_le [symmetric] if_False Let_def prod.case)
  have "c mod 256 + c div 256 * 256 = c" by simp
  moreover have "c * 254 + h = lba div 63"
    using div_mult_mod_eq [of "lba div 63" 254] div_mult2_eq [of lba 63 254] by (simp add: c_def h_def mult.commute)
  moreover have "lba div 63 * 63 + s - 1 = lba" by (simp add: s_def)
  ultimately show "chs_to_lba (lba_to_chs lba) = lba"
    using a hs c by (simp add: chs chs_to_lba_def f unat_of_nat Let_def)
qed (simp add: lba_to_chs_def)

end
