(* ===== verification/FatConv.thy ===== *)
theory FatConv
  imports Tar
begin

text \<open>
  \<open>lib/filesystem/fatfs/conv.c\<close>: timestamps and short names of FAT directory entries. A converted timestamp is read back
  against a calendar; the short names are shown to have the form that FAT requires.
\<close>

section \<open>Timestamps\<close>

definition SECS_PER_HOUR :: int where "SECS_PER_HOUR = 3600"
definition SECS_PER_DAY :: int where "SECS_PER_DAY = 24 * SECS_PER_HOUR"
definition MSDOS_EPOCH :: int where "MSDOS_EPOCH = 315532800"
definition MSDOS_MAX_TS :: int where "MSDOS_MAX_TS = 4102444799"

definition is_leap_year :: "nat \<Rightarrow> bool" where
  "is_leap_year year \<longleftrightarrow> year mod 4 = 0 \<and> (year mod 100 \<noteq> 0 \<or> year mod 400 = 0)"

definition mdays :: "nat list" where
  "mdays = [31, 28, 31, 30, 31, 30, 31, 31, 30, 31, 30, 31]"

definition days_in_year :: "nat \<Rightarrow> nat" where
  "days_in_year year = (if is_leap_year year then 366 else 365)"

definition days_in_month :: "nat \<Rightarrow> nat \<Rightarrow> nat" where
  "days_in_month year month = mdays ! (month - 1) + (if month = 2 \<and> is_leap_year year then 1 else 0)"

text \<open>The loops over the years and the months; the result is the year or month and the days that are left.\<close>

function year_loop :: "nat \<Rightarrow> nat \<Rightarrow> nat \<times> nat" where
  "year_loop year days = (if days < days_in_year year then (year, days) else year_loop (year + 1) (days - days_in_year year))"
  by pat_completeness auto
termination
  by (relation "measure snd") (auto simp: days_in_year_def split: if_splits)

declare year_loop.simps [simp del]

function month_loop :: "nat \<Rightarrow> nat \<Rightarrow> nat \<Rightarrow> nat \<times> nat" where
  "month_loop year month days =
     (if month > 12 \<or> days < days_in_month year month then (month, days)
      else month_loop year (month + 1) (days - days_in_month year month))"
  by pat_completeness auto
termination
  by (relation "measure (\<lambda>(y, m, d). 13 - m)") auto

declare month_loop.simps [simp del]

definition fatfs_convert_timestamp :: "int \<Rightarrow> 32 word" where
  "fatfs_convert_timestamp ts0 =
     (let ts = (if ts0 < MSDOS_EPOCH then 0 else ts0 - MSDOS_EPOCH);
          ts = (if ts > MSDOS_MAX_TS then MSDOS_MAX_TS else ts);
          days = nat (ts div SECS_PER_DAY);
          secs = ts mod SECS_PER_DAY;
          tm_hour = nat (secs div SECS_PER_HOUR);
          secs = secs mod SECS_PER_HOUR;
          tm_min = nat (secs div 60);
          tm_sec = nat (secs mod 60);
          (tm_year, days) = year_loop 1980 days;
          (tm_month, days) = month_loop tm_year 1 days;
          tm_day = days + 1
      in (of_nat (tm_sec div 2) AND 0x0000001F) OR (push_bit 5 (of_nat tm_min) AND 0x000007E0) OR
         (push_bit 11 (of_nat tm_hour) AND 0x0000F800) OR (push_bit 16 (of_nat tm_day) AND 0x001F0000) OR
         (push_bit 21 (of_nat tm_month) AND 0x01E00000) OR (push_bit 25 (of_nat (tm_year - 1980)) AND 0xFE000000))"

section \<open>Short names\<close>

datatype FAT_SHORTNAME = FAT_SHORTNAME_ERROR | FAT_SHORTNAME_OK | FAT_SHORTNAME_SAME | FAT_SHORTNAME_SUFFIXED

definition illegal :: "byte list" where
  "illegal = [0x22, 0x2A, 0x2B, 0x2C, 0x2E, 0x2F, 0x3A, 0x3B, 0x3C, 0x3D, 0x3E, 0x3F, 0x5B, 0x5C, 0x5D, 0x7C]"

definition is_illegal_char :: "byte \<Rightarrow> bool" where
  "is_illegal_char c \<longleftrightarrow> c \<le> 0x20 \<or> c = 0x7F \<or> c \<in> set illegal"

definition toupper :: "byte \<Rightarrow> byte" where
  "toupper c = (if islower c then c - 0x20 else c)"

abbreviation blank :: byte where "blank \<equiv> 0x20"
abbreviation full_stop :: byte where "full_stop \<equiv> 0x2E"

definition append_generation :: "byte list \<Rightarrow> nat \<Rightarrow> FAT_SHORTNAME \<times> byte list" where
  "append_generation shortname gen =
     (if gen > 999999 then (FAT_SHORTNAME_ERROR, shortname)
      else let i = length (dropWhile (\<lambda>c. c = blank) (rev (take 7 (tl shortname))));
               gentext = 0x7E # digits_of 10 gen;
               i = (if length gentext > 8 - i then 8 - length gentext else i)
           in (FAT_SHORTNAME_SUFFIXED, take i shortname @ gentext @ drop (i + length gentext) shortname))"

text \<open>The loop of \<open>convert\<close> with what is left of the name and of the space for the result.\<close>

fun convert_loop :: "FAT_SHORTNAME \<Rightarrow> byte list \<Rightarrow> nat \<Rightarrow> FAT_SHORTNAME \<times> byte list \<times> byte list" where
  "convert_loop conv nm 0 = (conv, [], nm)"
| "convert_loop conv [] (Suc n) = (conv, [], [])"
| "convert_loop conv (c # nm) (Suc n) =
     (if is_illegal_char c then
        (case convert_loop FAT_SHORTNAME_SUFFIXED (dropWhile is_illegal_char nm) n of (r, out, rest) \<Rightarrow> (r, 0x5F # out, rest))
      else if islower c then
        (case convert_loop (if conv \<noteq> FAT_SHORTNAME_SUFFIXED then FAT_SHORTNAME_OK else conv) nm n of
           (r, out, rest) \<Rightarrow> (r, toupper c # out, rest))
      else (case convert_loop conv nm n of (r, out, rest) \<Rightarrow> (r, c # out, rest)))"

definition fat_convert :: "FAT_SHORTNAME \<Rightarrow> byte list \<Rightarrow> nat \<Rightarrow> FAT_SHORTNAME \<times> byte list" where
  "fat_convert conv nm outlen =
     (case convert_loop conv nm outlen of (r, out, rest) \<Rightarrow>
        (if rest \<noteq> [] then FAT_SHORTNAME_SUFFIXED else r, out @ replicate (outlen - length out) blank))"

text \<open>The search for the extension: its position and the position behind a full stop that may begin one.\<close>

fun find_ext :: "nat \<Rightarrow> byte list \<Rightarrow> nat option \<times> nat option \<Rightarrow> nat option \<times> nat option" where
  "find_ext i [] st = st"
| "find_ext i (c # nm) (ext, cand) =
     find_ext (Suc i) nm
       (if c = blank then (ext, cand)
        else if c = full_stop then (ext, if cand = None then Some (i + 1) else cand)
        else (if cand \<noteq> None then cand else ext, None))"

definition fatfs_mk_shortname :: "byte list \<Rightarrow> nat \<Rightarrow> FAT_SHORTNAME \<times> byte list" where
  "fatfs_mk_shortname nm gen =
     (if nm \<noteq> [] \<and> (hd nm = blank \<or> hd nm = full_stop) then (FAT_SHORTNAME_ERROR, replicate 11 blank)
      else
        let (ext, cand) = find_ext 0 nm (None, None);
            (conv, extension, base) =
              (case ext of
                 Some e \<Rightarrow>
                   (let extlen = (case cand of None \<Rightarrow> length nm - e | Some c \<Rightarrow> c - e);
                        (conv, out) = fat_convert FAT_SHORTNAME_SAME (take extlen (drop e nm)) 3
                    in (conv, out, take (e - 1) nm))
               | None \<Rightarrow> (FAT_SHORTNAME_SAME, replicate 3 blank,
                   rev (dropWhile (\<lambda>c. c = blank \<or> c = full_stop) (rev nm))));
            (conv, out) = (if base = [] then (conv, 0x5F # replicate 7 blank) else fat_convert conv base 8);
            shortname = out @ extension
        in if conv = FAT_SHORTNAME_SUFFIXED \<or> gen > 1 then append_generation shortname gen else (conv, shortname))"

section \<open>Reading a timestamp back\<close>

lemma fat_field:
  assumes "a < 2 ^ k" "k + w \<le> 32"
  shows "(of_nat a :: 32 word) OR (push_bit k (of_nat b) AND push_bit k (mask w)) = of_nat (a + 2 ^ k * (b mod 2 ^ w))"
proof -
  have "push_bit k (of_nat b :: 32 word) AND push_bit k (mask w) = push_bit k (of_nat (b mod 2 ^ w))"
    by (simp add: push_bit_and [symmetric] take_bit_eq_mask [symmetric] take_bit_of_nat take_bit_eq_mod [where 'a = nat])
  moreover have "\<not> bit (of_nat a :: 32 word) n" if "k \<le> n" for n
  proof -
    have "take_bit k a = a" using assms(1) by (rule take_bit_nat_eq_self)
    then have "\<not> bit a n" using that by (metis bit_take_bit_iff not_le)
    then show ?thesis by (simp add: bit_simps)
  qed
  then have "(of_nat a :: 32 word) OR push_bit k (of_nat (b mod 2 ^ w)) = of_nat a + push_bit k (of_nat (b mod 2 ^ w))"
    by (intro disjunctive_add [symmetric]) (auto simp: bit_push_bit_iff)
  ultimately show ?thesis by (simp add: push_bit_eq_mult mult.commute)
qed

definition fat_assemble :: "nat \<Rightarrow> nat \<Rightarrow> nat \<Rightarrow> nat \<Rightarrow> nat \<Rightarrow> nat \<Rightarrow> nat" where
  "fat_assemble sec2 mi ho da mo ye = sec2 + 2 ^ 5 * mi + 2 ^ 11 * ho + 2 ^ 16 * da + 2 ^ 21 * mo + 2 ^ 25 * ye"

lemma assemble_word:
  assumes "sec2 < 2 ^ 5" "mi < 2 ^ 6" "ho < 2 ^ 5" "da < 2 ^ 5" "mo < 2 ^ 4" "ye < 2 ^ 7"
  shows "unat ((of_nat sec2 AND 0x0000001F) OR (push_bit 5 (of_nat mi) AND 0x000007E0) OR
      (push_bit 11 (of_nat ho) AND 0x0000F800) OR (push_bit 16 (of_nat da) AND 0x001F0000) OR
      (push_bit 21 (of_nat mo) AND 0x01E00000) OR (push_bit 25 (of_nat ye) AND 0xFE000000) :: 32 word) =
    fat_assemble sec2 mi ho da mo ye"
proof -
  have m: "(0x1F :: 32 word) = mask 5" "(0x7E0 :: 32 word) = push_bit 5 (mask 6)" "(0xF800 :: 32 word) = push_bit 11 (mask 5)"
    "(0x1F0000 :: 32 word) = push_bit 16 (mask 5)" "(0x1E00000 :: 32 word) = push_bit 21 (mask 4)"
    "(0xFE000000 :: 32 word) = push_bit 25 (mask 7)"
    by (simp_all add: mask_eq_exp_minus_1 push_bit_eq_mult)
  have 0: "of_nat sec2 AND mask 5 = (of_nat sec2 :: 32 word)"
    using assms(1) by (simp add: take_bit_eq_mask [symmetric] take_bit_of_nat take_bit_nat_eq_self)
  have b1: "sec2 + 2 ^ 5 * mi < 2 ^ 11" "sec2 + 2 ^ 5 * mi + 2 ^ 11 * ho < 2 ^ 16" "sec2 + 2 ^ 5 * mi + 2 ^ 11 * ho + 2 ^ 16 * da < 2 ^ 21"
    "sec2 + 2 ^ 5 * mi + 2 ^ 11 * ho + 2 ^ 16 * da + 2 ^ 21 * mo < 2 ^ 25"
    "fat_assemble sec2 mi ho da mo ye < 2 ^ 32"
    using assms by (simp_all add: fat_assemble_def)
  have md: "mi mod 2 ^ 6 = mi" "ho mod 2 ^ 5 = ho" "da mod 2 ^ 5 = da" "mo mod 2 ^ 4 = mo" "ye mod 2 ^ 7 = ye"
    using assms by simp_all
  note f = fat_field [OF assms(1), of 6 mi, unfolded md] fat_field [OF b1(1), of 5 ho, unfolded md]
    fat_field [OF b1(2), of 5 da, unfolded md] fat_field [OF b1(3), of 4 mo, unfolded md] fat_field [OF b1(4), of 7 ye, unfolded md]
  have "(of_nat sec2 AND mask 5) OR (push_bit 5 (of_nat mi) AND push_bit 5 (mask 6)) OR
      (push_bit 11 (of_nat ho) AND push_bit 11 (mask 5)) OR (push_bit 16 (of_nat da) AND push_bit 16 (mask 5)) OR
      (push_bit 21 (of_nat mo) AND push_bit 21 (mask 4)) OR (push_bit 25 (of_nat ye) AND push_bit 25 (mask 7)) =
      (of_nat (fat_assemble sec2 mi ho da mo ye) :: 32 word)"
    unfolding 0 or.assoc [symmetric] fat_assemble_def using f by simp
  then show ?thesis unfolding m using b1(5) by (simp add: unat_of_nat)
qed

lemma year_loop_spec:
  "year_loop y d = (y', d') \<Longrightarrow> y \<le> y' \<and> d' < days_in_year y' \<and> d = (\<Sum>i = y..<y'. days_in_year i) + d'"
proof (induction y d rule: year_loop.induct)
  case (1 y d)
  show ?case
  proof (cases "d < days_in_year y")
    case True
    then show ?thesis using "1.prems" by (simp add: year_loop.simps)
  next
    case False
    then have "year_loop (y + 1) (d - days_in_year y) = (y', d')" using "1.prems" by (simp add: year_loop.simps [of y])
    from "1.IH" [OF False this] have ih: "y + 1 \<le> y'" "d' < days_in_year y'" "d - days_in_year y = (\<Sum>i = y + 1..<y'. days_in_year i) + d'"
      by auto
    have "(\<Sum>i = y..<y'. days_in_year i) = days_in_year y + (\<Sum>i = y + 1..<y'. days_in_year i)"
      using ih(1) by (simp add: sum.atLeast_Suc_lessThan)
    then show ?thesis using ih False by simp
  qed
qed

lemma month_loop_spec:
  "month_loop y m d = (m', d') \<Longrightarrow> 1 \<le> m \<Longrightarrow> m \<le> 13 \<Longrightarrow> d < (\<Sum>i = m..<13. days_in_month y i) \<Longrightarrow>
    m \<le> m' \<and> m' \<le> 12 \<and> d' < days_in_month y m' \<and> d = (\<Sum>i = m..<m'. days_in_month y i) + d'"
proof (induction y m d rule: month_loop.induct)
  case (1 y m d)
  have m12: "m \<le> 12"
  proof (rule ccontr)
    assume "\<not> m \<le> 12"
    then have "m = 13" using "1.prems"(3) by simp
    then show False using "1.prems"(4) by simp
  qed
  show ?case
  proof (cases "d < days_in_month y m")
    case True
    then show ?thesis using "1.prems" m12 by (simp add: month_loop.simps)
  next
    case False
    have split: "(\<Sum>i = m..<n. days_in_month y i) = days_in_month y m + (\<Sum>i = m + 1..<n. days_in_month y i)" if "m < n" for n
      using that by (simp add: sum.atLeast_Suc_lessThan)
    have c: "\<not> (m > 12 \<or> d < days_in_month y m)" using False m12 by simp
    then have "month_loop y (m + 1) (d - days_in_month y m) = (m', d')" using "1.prems"(1) by (simp add: month_loop.simps [of y m])
    from "1.IH" [OF c this] have "m + 1 \<le> m' \<and> m' \<le> 12 \<and> d' < days_in_month y m' \<and>
        d - days_in_month y m = (\<Sum>i = m + 1..<m'. days_in_month y i) + d'"
      using "1.prems"(4) m12 False split [of 13] by simp
    then show ?thesis using False split [of m'] by auto
  qed
qed

lemma sum_step: "a < b \<Longrightarrow> (\<Sum>i = a..<b. f i) = f a + (\<Sum>i = Suc a..<b. f i :: nat)"
  by (rule sum.atLeast_Suc_lessThan)

lemma months_year: "(\<Sum>i = 1..<13. days_in_month y i) = days_in_year y"
  by (simp add: sum_step days_in_month_def days_in_year_def mdays_def)

lemma years_fat: "(\<Sum>i = 1980..<2108. days_in_year i) = 46751"
  by (simp add: sum_step days_in_year_def is_leap_year_def)

text \<open>How a reader of the file system takes a timestamp apart, and the seconds since 1980 that it stands for.\<close>

definition date_days :: "nat \<Rightarrow> nat \<Rightarrow> nat \<Rightarrow> nat" where
  "date_days y m d = (\<Sum>i = 1980..<y. days_in_year i) + (\<Sum>i = 1..<m. days_in_month y i) + (d - 1)"

definition fat_date :: "nat \<Rightarrow> nat \<times> nat \<times> nat" where
  "fat_date v = (v div 2 ^ 25 + 1980, v div 2 ^ 21 mod 2 ^ 4, v div 2 ^ 16 mod 2 ^ 5)"

definition fat_time :: "nat \<Rightarrow> nat \<times> nat \<times> nat" where
  "fat_time v = (v div 2 ^ 11 mod 2 ^ 5, v div 2 ^ 5 mod 2 ^ 6, 2 * (v mod 2 ^ 5))"

text \<open>The calendar of the specification: the Gregorian leap years and months, and the seconds of a date and a
  time of day since the start of 1970.\<close>

definition gregorian_leap :: "nat \<Rightarrow> bool" where
  "gregorian_leap y \<longleftrightarrow> 400 dvd y \<or> 4 dvd y \<and> \<not> 100 dvd y"

definition month_length :: "nat \<Rightarrow> nat \<Rightarrow> nat" where
  "month_length y m =
     (if m = 2 then (if gregorian_leap y then 29 else 28) else if m \<in> {4, 6, 9, 11} then 30 else 31)"

definition calendar_days :: "nat \<Rightarrow> nat \<Rightarrow> nat \<Rightarrow> nat" where
  "calendar_days y m d = (\<Sum>i = 1970..<y. \<Sum>j = 1..<13. month_length i j) + (\<Sum>j = 1..<m. month_length y j) + (d - 1)"

lemma leap_year_gregorian: "is_leap_year y = gregorian_leap y"
proof -
  have "400 dvd y \<Longrightarrow> 4 dvd y" by (rule dvd_trans [of 4 400]) simp_all
  then show ?thesis by (auto simp: is_leap_year_def gregorian_leap_def mod_eq_0_iff_dvd)
qed

lemma days_in_month_length:
  assumes "1 \<le> m" "m \<le> 12"
  shows "days_in_month y m = month_length y m"
proof -
  have "m \<in> set [1..<13]" using assms by simp
  then show ?thesis
    by (auto simp: upt_rec days_in_month_def mdays_def month_length_def leap_year_gregorian)
qed

lemma days_in_year_length: "days_in_year y = (\<Sum>j = 1..<13. month_length y j)"
  unfolding months_year [symmetric] by (rule sum.cong) (simp_all add: days_in_month_length)

lemma calendar_date_days:
  assumes "1980 \<le> y" "1 \<le> m" "m \<le> 12"
  shows "calendar_days y m d = 3652 + date_days y m d"
proof -
  have "(\<Sum>i = 1970..<y. days_in_year i) = (\<Sum>i = 1970..<1980. days_in_year i) + (\<Sum>i = 1980..<y. days_in_year i)"
    using assms(1) by (simp add: sum.atLeastLessThan_concat)
  moreover have "(\<Sum>i = 1970..<1980. days_in_year i) = 3652"
    by (simp add: sum_step days_in_year_def is_leap_year_def)
  moreover have "(\<Sum>j = 1..<m. month_length y j) = (\<Sum>j = 1..<m. days_in_month y j)"
    using assms(3) by (intro sum.cong) (simp_all add: days_in_month_length)
  ultimately show ?thesis unfolding calendar_days_def date_days_def days_in_year_length [symmetric] by simp
qed

lemma assemble_fields:
  assumes "sec2 < 2 ^ 5" "mi < 2 ^ 6" "ho < 2 ^ 5" "da < 2 ^ 5" "mo < 2 ^ 4"
  shows "fat_date (fat_assemble sec2 mi ho da mo ye) = (ye + 1980, mo, da)" "fat_time (fat_assemble sec2 mi ho da mo ye) = (ho, mi, 2 * sec2)"
proof -
  have dig: "(l + b * h) div b = h" "(l + b * h) mod b = l" if "l < b" for l b h :: nat using that by simp_all
  let ?v = "fat_assemble sec2 mi ho da mo ye"
  have v: "?v = sec2 + 2 ^ 5 * (mi + 2 ^ 6 * (ho + 2 ^ 5 * (da + 2 ^ 5 * (mo + 2 ^ 4 * ye))))" by (simp add: fat_assemble_def algebra_simps)
  have d: "x div 2 ^ 11 = x div 2 ^ 5 div 2 ^ 6" "x div 2 ^ 16 = x div 2 ^ 5 div 2 ^ 6 div 2 ^ 5"
    "x div 2 ^ 21 = x div 2 ^ 5 div 2 ^ 6 div 2 ^ 5 div 2 ^ 5" "x div 2 ^ 25 = x div 2 ^ 5 div 2 ^ 6 div 2 ^ 5 div 2 ^ 5 div 2 ^ 4" for x :: nat
    by (simp_all add: div_mult2_eq [symmetric])
  show "fat_date ?v = (ye + 1980, mo, da)" "fat_time ?v = (ho, mi, 2 * sec2)"
    unfolding fat_date_def fat_time_def d unfolding v using assms by (simp_all only: dig)
qed

lemma convert_fields:
  fixes days secs :: nat
  assumes d: "days < 46751" and s: "secs < 86400"
  defines "v \<equiv> unat (fatfs_convert_timestamp (MSDOS_EPOCH + int (days * 86400 + secs)))"
  shows "case fat_date v of (ye, mo, da) \<Rightarrow> ye < 2108 \<and> 1 \<le> mo \<and> mo \<le> 12 \<and> 1 \<le> da \<and> da \<le> days_in_month ye mo \<and>
      date_days ye mo da = days"
    and "fat_time v = (secs div 3600, secs mod 3600 div 60, secs mod 3600 mod 60 - secs mod 2)"
proof -
  obtain ye r where y: "year_loop 1980 days = (ye, r)" by fastforce
  obtain mo q where m: "month_loop ye 1 r = (mo, q)" by fastforce
  from year_loop_spec [OF y] have ys: "1980 \<le> ye" "r < days_in_year ye" "days = (\<Sum>i = 1980..<ye. days_in_year i) + r" by auto
  from month_loop_spec [OF m] ys(2) have ms: "1 \<le> mo" "mo \<le> 12" "q < days_in_month ye mo" "r = (\<Sum>i = 1..<mo. days_in_month ye i) + q"
    using months_year [of ye] by auto
  have y08: "ye < 2108"
  proof (rule ccontr)
    assume "\<not> ye < 2108"
    then have "(\<Sum>i = 1980..<2108. days_in_year i) \<le> (\<Sum>i = 1980..<ye. days_in_year i)" by (intro sum_mono2) auto
    then show False using ys(3) d years_fat by simp
  qed
  have "mdays ! (mo - 1) \<le> 31"
    using ms(1,2) by (auto simp: mdays_def nth_Cons' split: if_splits)
  moreover have "mdays ! (2 - 1) = 28" by (simp add: mdays_def)
  ultimately have dim: "days_in_month ye mo \<le> 31" by (auto simp: days_in_month_def)
  have b: "secs mod 3600 mod 60 div 2 < 2 ^ 5" "secs mod 3600 div 60 < 2 ^ 6" "secs div 3600 < 2 ^ 5" "q + 1 < 2 ^ 5" "mo < 2 ^ 4" "ye - 1980 < 2 ^ 7"
    using s ms(2,3) dim y08 by (auto simp: div_less_iff_less_mult)
  let ?t = "days * 86400 + secs"
  have t: "int ?t \<le> MSDOS_MAX_TS" using d s by (simp add: MSDOS_MAX_TS_def)
  have spd: "SECS_PER_DAY = int 86400" "SECS_PER_HOUR = int 3600" by (simp_all add: SECS_PER_DAY_def SECS_PER_HOUR_def)
  have e: "nat (int ?t div SECS_PER_DAY) = days" "int ?t mod SECS_PER_DAY = int secs"
    "nat (int secs div SECS_PER_HOUR) = secs div 3600" "int secs mod SECS_PER_HOUR = int (secs mod 3600)"
    "nat (int (secs mod 3600) div 60) = secs mod 3600 div 60" "nat (int (secs mod 3600) mod 60) = secs mod 3600 mod 60"
    unfolding spd using s by (simp_all add: of_nat_div of_nat_mod nat_div_distrib nat_mod_distrib)
  have v: "v = fat_assemble (secs mod 3600 mod 60 div 2) (secs mod 3600 div 60) (secs div 3600) (q + 1) mo (ye - 1980)"
  proof -
    have "(if MSDOS_EPOCH + int ?t < MSDOS_EPOCH then 0 else MSDOS_EPOCH + int ?t - MSDOS_EPOCH) = int ?t" by simp
    then show ?thesis
      unfolding v_def fatfs_convert_timestamp_def Let_def using t
      by (simp only: e y m not_less [symmetric] if_False prod.case assemble_word [OF b])
  qed
  note f = assemble_fields [OF b(1-5), of "ye - 1980"]
  show "case fat_date v of (ye, mo, da) \<Rightarrow> ye < 2108 \<and> 1 \<le> mo \<and> mo \<le> 12 \<and> 1 \<le> da \<and> da \<le> days_in_month ye mo \<and>
      date_days ye mo da = days"
    unfolding v f using ys ms y08 by (simp add: date_days_def)
  have "secs mod 3600 mod 60 mod 2 = secs mod 2" using mod_mod_cancel [of 60 3600 secs] mod_mod_cancel [of 2 60 secs] by simp
  then have "2 * (secs mod 3600 mod 60 div 2) = secs mod 3600 mod 60 - secs mod 2"
    using mult_div_mod_eq [of 2 "secs mod 3600 mod 60"] by linarith
  then show "fat_time v = (secs div 3600, secs mod 3600 div 60, secs mod 3600 mod 60 - secs mod 2)" unfolding v f by simp
qed

lemma convert_timestamp_date:
  assumes "ts < 4354819200"
  defines "v \<equiv> unat (fatfs_convert_timestamp ts)"
  shows "case (fat_date v, fat_time v) of ((ye, mo, da), (h, m, s)) \<Rightarrow>
    ye < 2108 \<and> 1 \<le> mo \<and> mo \<le> 12 \<and> 1 \<le> da \<and> da \<le> days_in_month ye mo \<and> h < 24 \<and> m < 60 \<and> s < 60 \<and>
    int (((date_days ye mo da * 24 + h) * 60 + m) * 60 + s) =
      (if ts < MSDOS_EPOCH then 0 else ts - MSDOS_EPOCH - ts mod 2)"
proof -
  define t where "t = nat (if ts < MSDOS_EPOCH then 0 else ts - MSDOS_EPOCH)"
  define days secs where "days = t div 86400" and "secs = t mod 86400"
  have "t < 46751 * 86400" using assms(1) by (auto simp: t_def MSDOS_EPOCH_def)
  then have d: "days < 46751" by (simp add: days_def div_less_iff_less_mult)
  have s: "secs < 86400" by (simp add: secs_def)
  have tt: "days * 86400 + secs = t" by (simp add: days_def secs_def)
  have same: "fatfs_convert_timestamp ts = fatfs_convert_timestamp (MSDOS_EPOCH + int t)"
  proof -
    have "(if ts < MSDOS_EPOCH then 0 else ts - MSDOS_EPOCH) = (if MSDOS_EPOCH + int t < MSDOS_EPOCH then 0 else MSDOS_EPOCH + int t - MSDOS_EPOCH)"
      by (auto simp: t_def)
    then show ?thesis unfolding fatfs_convert_timestamp_def by (simp only:)
  qed
  note f = convert_fields [OF d s, unfolded tt same [symmetric], folded v_def]
  obtain ye mo da where ymd: "fat_date v = (ye, mo, da)" by (rule prod_cases3)
  have odd: "secs mod 2 = t mod 2" unfolding secs_def using mod_mod_cancel [of 2 86400 t] by simp
  have le: "secs mod 2 \<le> secs mod 3600 mod 60"
  proof -
    have "secs mod 3600 mod 60 mod 2 = secs mod 2" using mod_mod_cancel [of 60 3600 secs] mod_mod_cancel [of 2 60 secs] by simp
    then show ?thesis by (metis mod_less_eq_dividend)
  qed
  have "secs = (secs div 3600 * 60 + secs mod 3600 div 60) * 60 + secs mod 3600 mod 60"
    using div_mult_mod_eq [of secs 3600] div_mult_mod_eq [of "secs mod 3600" 60] by (simp add: algebra_simps)
  then have sum: "((days * 24 + secs div 3600) * 60 + secs mod 3600 div 60) * 60 + (secs mod 3600 mod 60 - secs mod 2) = t - t mod 2"
    using tt le odd by (simp add: algebra_simps)
  have val: "int (t - t mod 2) = (if ts < MSDOS_EPOCH then 0 else ts - MSDOS_EPOCH - ts mod 2)"
  proof (cases "ts < MSDOS_EPOCH")
    case False
    then have "int t = ts - MSDOS_EPOCH" by (simp add: t_def)
    moreover have "int (t mod 2) = ts mod 2" unfolding zmod_int calculation by (simp add: MSDOS_EPOCH_def mod_diff_eq [symmetric])
    ultimately show ?thesis using False by (simp add: of_nat_diff)
  qed (simp add: t_def)
  have "int (((days * 24 + secs div 3600) * 60 + secs mod 3600 div 60) * 60 + (secs mod 3600 mod 60 - secs mod 2))
      = (if ts < MSDOS_EPOCH then 0 else ts - MSDOS_EPOCH - ts mod 2)"
    unfolding sum by (rule val)
  moreover have "secs div 3600 < 24" using s by (simp add: div_less_iff_less_mult)
  moreover have "secs mod 3600 div 60 < 60" by (simp add: div_less_iff_less_mult)
  moreover have "secs mod 3600 mod 60 - secs mod 2 < 60" by (meson diff_le_self le_less_trans mod_less_divisor zero_less_numeral)
  ultimately show ?thesis using f ymd by simp
qed

text \<open>C29: the timestamp of a FAT directory entry is the time it was made from. For every time from 1980 to the end of
  2107 the fields are a date of the Gregorian calendar (every fourth year is a leap year, but of the full centuries
  only every fourth) and a time of day, and they are the given second since 1970, rounded down to an even one.
  Earlier times become the start of 1980, the second 315532800.\<close>

theorem fat_timestamp_correct:
  assumes "ts < 4354819200"
  defines "v \<equiv> unat (fatfs_convert_timestamp ts)"
  shows "case (fat_date v, fat_time v) of ((ye, mo, da), (h, m, s)) \<Rightarrow>
    1980 \<le> ye \<and> ye < 2108 \<and> 1 \<le> mo \<and> mo \<le> 12 \<and> 1 \<le> da \<and> da \<le> month_length ye mo \<and> h < 24 \<and> m < 60 \<and> s < 60 \<and>
    int (((calendar_days ye mo da * 24 + h) * 60 + m) * 60 + s) =
      (if ts < 315532800 then 315532800 else ts - ts mod 2)"
proof -
  obtain ye mo da h m s where e: "fat_date v = (ye, mo, da)" "fat_time v = (h, m, s)"
    by (cases "fat_date v"; cases "fat_time v")
  have y: "1980 \<le> ye" using e(1) by (auto simp: fat_date_def)
  note c = convert_timestamp_date [OF assms(1), folded v_def, unfolded e prod.case]
  then have n: "1 \<le> mo" "mo \<le> 12" by simp_all
  show ?thesis
    using c y unfolding e prod.case calendar_date_days [OF y n] days_in_month_length [OF n]
    by (auto simp: MSDOS_EPOCH_def split: if_splits)
qed

theorem fat_timestamp_correct_witness:
  "fat_date (unat (fatfs_convert_timestamp 951827755)) = (2000, 2, 29) \<and>
   fat_time (unat (fatfs_convert_timestamp 951827755)) = (12, 35, 54) \<and>
   int (((calendar_days 2000 2 29 * 24 + 12) * 60 + 35) * 60 + 54) = 951827754"
proof -
  have y: "year_loop 1980 7364 = (2000, 59)" by (simp add: year_loop.simps days_in_year_def is_leap_year_def)
  have m: "month_loop 2000 1 59 = (2, 28)"
    by (simp add: month_loop.simps days_in_month_def mdays_def is_leap_year_def)
  have "fatfs_convert_timestamp 951827755 = 677209211"
    by (simp add: fatfs_convert_timestamp_def MSDOS_EPOCH_def MSDOS_MAX_TS_def SECS_PER_DAY_def SECS_PER_HOUR_def y m [simplified])
  then show ?thesis using fat_timestamp_correct [of 951827755] by (simp add: fat_date_def fat_time_def)
qed

section \<open>The form of a short name\<close>

text \<open>The characters that FAT allows in a short name: upper case letters, digits, the sixteen special characters, and
  everything above the ASCII range.\<close>

definition short_specials :: "byte list" where
  "short_specials = [0x24, 0x25, 0x27, 0x2D, 0x5F, 0x40, 0x7E, 0x60, 0x21, 0x28, 0x29, 0x7B, 0x7D, 0x5E, 0x23, 0x26]"

definition short_char :: "byte \<Rightarrow> bool" where
  "short_char c \<longleftrightarrow> 0x41 \<le> c \<and> c \<le> 0x5A \<or> 0x30 \<le> c \<and> c \<le> 0x39 \<or> c \<in> set short_specials \<or> 0x80 \<le> c"

definition padded_field :: "nat \<Rightarrow> byte list \<Rightarrow> bool" where
  "padded_field n out \<longleftrightarrow> (\<exists>b. out = b @ replicate (n - length b) blank \<and> length b \<le> n \<and> list_all short_char b)"

lemma all_upt: "list_all P [a..<b] \<Longrightarrow> a \<le> n \<Longrightarrow> n < b \<Longrightarrow> P n"
  by (simp add: list_all_iff)

lemma short_char_legal: "short_char c \<longleftrightarrow> \<not> is_illegal_char c \<and> \<not> islower c"
proof -
  have n: "c = numeral k \<longleftrightarrow> unat c = unat (numeral k :: byte)" for k by (simp only: word_unat_eq_iff)
  show ?thesis
    unfolding short_char_def short_specials_def is_illegal_char_def illegal_def islower_def list.set insert_iff empty_iff n
      word_le_nat_alt
    by (simp, presburger)
qed

lemma toupper_short:
  assumes "islower c"
  shows "short_char (toupper c)"
proof -
  have "list_all (\<lambda>n. short_char (toupper (word_of_nat n))) [97..<123]" by code_simp
  moreover have "97 \<le> unat c" "unat c < 123" using assms by (simp_all add: islower_def word_le_nat_alt)
  ultimately have "short_char (toupper (word_of_nat (unat c)))" by (rule all_upt)
  then show ?thesis by simp
qed

lemma digit_short: "list_all short_char (digits_of 10 n)"
proof -
  have "list_all (\<lambda>d. short_char (digit_char d)) [0..<10]" by code_simp
  then have "short_char (digit_char d)" if "d < 10" for d using that by (rule all_upt [OF _ le0])
  then show ?thesis using digit_list_ok [of 10 n] unfolding digits_of_list by (simp add: list_all_iff)
qed

lemma underscore_short [simp]: "short_char 0x5F" "short_char 0x7E"
  by (simp_all add: short_char_legal is_illegal_char_def illegal_def islower_def)

lemma convert_loop_ok:
  "convert_loop conv nm n = (r, out, rest) \<Longrightarrow> length out \<le> n \<and> list_all short_char out \<and> (nm \<noteq> [] \<and> 0 < n \<longrightarrow> out \<noteq> [])"
proof (induction conv nm n arbitrary: r out rest rule: convert_loop.induct)
  case (3 conv c nm n)
  have "\<not> is_illegal_char c \<Longrightarrow> \<not> islower c \<Longrightarrow> short_char c" by (simp add: short_char_legal)
  with 3 show ?case by (auto simp: toupper_short split: if_splits prod.splits)
qed auto

lemma fat_convert_ok:
  assumes "fat_convert conv nm n = (r, out)"
  shows "padded_field n out" "nm \<noteq> [] \<Longrightarrow> 0 < n \<Longrightarrow> short_char (hd out)"
  using assms convert_loop_ok [of conv nm n]
  by (fastforce simp: fat_convert_def padded_field_def hd_append list_all_iff split: prod.splits)+

definition short_name_form :: "byte list \<Rightarrow> bool" where
  "short_name_form s \<longleftrightarrow> (\<exists>b e. s = b @ replicate (8 - length b) blank @ e \<and> padded_field 3 e \<and> b \<noteq> [] \<and> length b \<le> 8 \<and> list_all short_char b)"

lemma short_not_blank: "short_char c \<Longrightarrow> c \<noteq> blank"
  by (auto simp: short_char_legal is_illegal_char_def)

lemma generation_length:
  assumes "gen \<le> 999999"
  shows "length (digits_of 10 gen) \<le> 6" "0 < length (digits_of 10 gen)"
  using assms digit_list_length [of 10 gen 6] digit_list_ok [of 10 gen] unfolding digits_of_list by simp_all

lemma generation_index:
  assumes "b \<noteq> []" "length b \<le> 8" "list_all short_char b"
  shows "length (dropWhile (\<lambda>c. c = blank) (rev (take 7 (tl (b @ replicate (8 - length b) blank @ e))))) = length b - 1"
proof -
  have "take 7 (tl (b @ replicate (8 - length b) blank @ e)) = tl b @ replicate (8 - length b) blank"
    using assms(1,2) by (cases b) auto
  moreover have "dropWhile (\<lambda>c. c = blank) (rev (tl b)) = rev (tl b)"
  proof -
    have "\<forall>c \<in> set (rev (tl b)). c \<noteq> blank" using assms(1,3) short_not_blank by (auto simp: list_all_iff dest: list.set_sel(2))
    then show ?thesis by (metis dropWhile_eq_self_iff hd_in_set)
  qed
  ultimately show ?thesis using assms(1) by (simp add: dropWhile_append)
qed

lemma append_generation_form:
  assumes "short_name_form s" "append_generation s gen = (conv, s')" "conv \<noteq> FAT_SHORTNAME_ERROR"
  shows "short_name_form s'" "conv = FAT_SHORTNAME_SUFFIXED"
proof -
  obtain b e where s: "s = b @ replicate (8 - length b) blank @ e" "padded_field 3 e" "b \<noteq> []" "length b \<le> 8" "list_all short_char b"
    using assms(1) by (auto simp: short_name_form_def)
  define g where "g = (0x7E :: byte) # digits_of 10 gen"
  define i where "i = (if length g > 8 - (length b - 1) then 8 - length g else length b - 1)"
  have le: "gen \<le> 999999" and r: "conv = FAT_SHORTNAME_SUFFIXED" "s' = take i s @ g @ drop (i + length g) s"
    using assms(2,3) generation_index [OF s(3-5), of e]
    by (auto simp: append_generation_def Let_def i_def g_def s(1) split: if_splits)
  have gl: "length g \<le> 7" "0 < length g" and gs: "list_all short_char g"
    using generation_length [OF le] digit_short [of gen] by (simp_all add: g_def)
  have i: "i \<le> length b" "i + length g \<le> 8" "length b \<le> i + length g"
    using gl(2) s(3) Suc_leI [of 0 "length g"] Suc_leI [of 0 "length b"] gl(1) s(4) by (auto simp: i_def)
  have "s' = (take i b @ g) @ replicate (8 - length (take i b @ g)) blank @ e"
    using i s(4) by (simp add: r s(1))
  moreover have "list_all short_char (take i b @ g)" using s(5) gs by (auto simp: list_all_iff dest: in_set_takeD)
  moreover have "take i b @ g \<noteq> []" "length (take i b @ g) \<le> 8" using gl i by auto
  ultimately show "short_name_form s'" using s(2) unfolding short_name_form_def by blast
  show "conv = FAT_SHORTNAME_SUFFIXED" by (rule r)
qed

lemma blank_field: "padded_field n (replicate n blank)"
  unfolding padded_field_def by (rule exI [of _ "[]"]) simp

lemma form_append:
  assumes "padded_field 8 out" "short_char (hd out)" "padded_field 3 e"
  shows "short_name_form (out @ e)"
proof -
  obtain b where b: "out = b @ replicate (8 - length b) blank" "length b \<le> 8" "list_all short_char b"
    using assms(1) by (auto simp: padded_field_def)
  have "b \<noteq> []" using assms(2) short_not_blank b(1) by force
  then show ?thesis using b assms(3) unfolding short_name_form_def by (metis append.assoc)
qed

lemma find_ext_0:
  "find_ext (Suc i) nm (ext, cand) = (Some e, r) \<Longrightarrow> ext \<noteq> Some 0 \<Longrightarrow> cand \<noteq> Some 0 \<Longrightarrow> ext \<noteq> Some 1 \<Longrightarrow> cand \<noteq> Some 1 \<Longrightarrow> 2 \<le> e"
  by (induction "Suc i" nm "(ext, cand)" arbitrary: i ext cand rule: find_ext.induct) (auto split: if_splits)

lemma trimmed_nonempty:
  assumes "nm \<noteq> []" "\<not> P (hd nm)"
  shows "rev (dropWhile P (rev nm)) \<noteq> []"
  using assms by (metis Nil_is_rev_conv dropWhile_eq_Nil_conv hd_in_set set_rev)

lemma mk_shortname_form:
  assumes "nm \<noteq> []" "fatfs_mk_shortname nm gen = (conv, s)" "conv \<noteq> FAT_SHORTNAME_ERROR"
  shows "length s = 11 \<and> short_name_form s"
proof -
  have h: "hd nm \<noteq> blank" "hd nm \<noteq> full_stop" using assms by (auto simp: fatfs_mk_shortname_def)
  obtain ext cand where fe: "find_ext 0 nm (None, None) = (ext, cand)" by fastforce
  define st where "st = (case ext of
      Some e \<Rightarrow> (let extlen = (case cand of None \<Rightarrow> length nm - e | Some c \<Rightarrow> c - e);
          (conv, out) = fat_convert FAT_SHORTNAME_SAME (take extlen (drop e nm)) 3 in (conv, out, take (e - 1) nm))
    | None \<Rightarrow> (FAT_SHORTNAME_SAME, replicate 3 blank, rev (dropWhile (\<lambda>c. c = blank \<or> c = full_stop) (rev nm))))"
  obtain c1 ex base where st: "st = (c1, ex, base)" by (rule prod_cases3)
  have ex: "padded_field 3 ex"
    using st fat_convert_ok(1) blank_field by (auto simp: st_def Let_def split: option.splits prod.splits)
  have base: "base \<noteq> []"
  proof (cases ext)
    case None
    then show ?thesis using st trimmed_nonempty [OF assms(1), of "\<lambda>c. c = blank \<or> c = full_stop"] h by (simp add: st_def)
  next
    case (Some e)
    have "2 \<le> e" using fe assms(1) h find_ext_0 unfolding Some by (cases nm) (auto split: if_splits)
    then show ?thesis using st Some assms(1) by (auto simp: st_def Let_def split: prod.splits)
  qed
  obtain c2 out where out: "fat_convert c1 base 8 = (c2, out)" by fastforce
  have form: "short_name_form (out @ ex)"
    using form_append [OF fat_convert_ok(1) [OF out] fat_convert_ok(2) [OF out base] ex] by simp
  have "(conv, s) = (if c2 = FAT_SHORTNAME_SUFFIXED \<or> gen > 1 then append_generation (out @ ex) gen else (c2, out @ ex))"
    using assms(2) h base out st unfolding fatfs_mk_shortname_def st_def fe by (simp add: Let_def)
  then have f: "short_name_form s"
    using form append_generation_form(1) [OF form _ assms(3)] by (auto split: if_splits)
  then have "length s = 11" by (auto simp: short_name_form_def padded_field_def)
  with f show ?thesis by blast
qed

text \<open>C30: a short name that \<open>fatfs_mk_shortname\<close> returns without an error has eleven bytes: a base name of one to eight
  characters and an extension of at most three, each filled up with blanks behind it. No character of
  them is a lower case letter, a control character, a blank or a character that FAT reserves.\<close>

theorem fat_shortname_form:
  assumes "nm \<noteq> []" "fatfs_mk_shortname nm gen = (conv, s)" "conv \<noteq> FAT_SHORTNAME_ERROR"
  shows "length s = 11 \<and> short_name_form s"
  using assms by (rule mk_shortname_form)

theorem fat_shortname_form_witness:
  "length [0x41, 0x5F, 0x4E, 0x41, 0x4D, 0x7E, 0x33, 0x20, 0x48, 0x54, 0x4D :: byte] = 11 \<and>
   short_name_form [0x41, 0x5F, 0x4E, 0x41, 0x4D, 0x7E, 0x33, 0x20, 0x48, 0x54, 0x4D]"
proof -
  have e: "fat_convert FAT_SHORTNAME_SAME [0x68, 0x74, 0x6D, 0x6C] 3 = (FAT_SHORTNAME_SUFFIXED, [0x48, 0x54, 0x4D])"
    by code_simp
  have b: "fat_convert FAT_SHORTNAME_SUFFIXED [0x61, 0x20, 0x6E, 0x61, 0x6D, 0x65] 8 =
      (FAT_SHORTNAME_SUFFIXED, [0x41, 0x5F, 0x4E, 0x41, 0x4D, 0x45, 0x20, 0x20])"
    by code_simp
  have g: "append_generation [0x41, 0x5F, 0x4E, 0x41, 0x4D, 0x45, 0x20, 0x20, 0x48, 0x54, 0x4D] 3 =
      (FAT_SHORTNAME_SUFFIXED, [0x41, 0x5F, 0x4E, 0x41, 0x4D, 0x7E, 0x33, 0x20, 0x48, 0x54, 0x4D])"
    by (simp add: append_generation_def digits_of.simps)
  have "fatfs_mk_shortname [0x61, 0x20, 0x6E, 0x61, 0x6D, 0x65, 0x2E, 0x68, 0x74, 0x6D, 0x6C] 3 =
      (FAT_SHORTNAME_SUFFIXED, [0x41, 0x5F, 0x4E, 0x41, 0x4D, 0x7E, 0x33, 0x20, 0x48, 0x54, 0x4D])"
    by (simp add: fatfs_mk_shortname_def e b g)
  from fat_shortname_form [OF _ this] show ?thesis by simp
qed

section \<open>Names that need no long form\<close>

text \<open>How a short name is shown: the base name, and the extension behind a full stop if there is one.\<close>

definition strip_blanks :: "byte list \<Rightarrow> byte list" where
  "strip_blanks f = takeWhile (\<lambda>c. c \<noteq> blank) f"

definition short_display :: "byte list \<Rightarrow> byte list" where
  "short_display s =
     strip_blanks (take 8 s) @ (if strip_blanks (drop 8 s) = [] then [] else full_stop # strip_blanks (drop 8 s))"

lemma strip_padded:
  assumes "list_all short_char b"
  shows "strip_blanks (b @ replicate n blank) = b"
proof -
  have "\<forall>c \<in> set b. c \<noteq> blank" using assms short_not_blank by (auto simp: list_all_iff)
  then show ?thesis unfolding strip_blanks_def by (subst takeWhile_append2) (auto simp: takeWhile_eq_Nil_iff)
qed

lemma convert_loop_same:
  "convert_loop conv nm n = (FAT_SHORTNAME_SAME, out, rest) \<Longrightarrow> conv = FAT_SHORTNAME_SAME \<and> out @ rest = nm"
  by (induction conv nm n arbitrary: out rest rule: convert_loop.induct) (auto split: if_splits prod.splits)

lemma fat_convert_same:
  assumes "fat_convert conv nm n = (FAT_SHORTNAME_SAME, out)"
  shows "conv = FAT_SHORTNAME_SAME" "length nm \<le> n" "out = nm @ replicate (n - length nm) blank" "list_all short_char nm"
  using assms convert_loop_same [of conv nm n] convert_loop_ok [of conv nm n]
  by (auto simp: fat_convert_def split: prod.splits if_splits)

definition ext_inv :: "byte list \<Rightarrow> nat \<Rightarrow> nat option \<Rightarrow> nat option \<Rightarrow> bool" where
  "ext_inv full i ext cand \<longleftrightarrow>
     (\<forall>e. ext = Some e \<longrightarrow> 0 < e \<and> e < i \<and> full ! (e - 1) = full_stop) \<and>
     (\<forall>c. cand = Some c \<longrightarrow> 0 < c \<and> c \<le> i \<and> full ! (c - 1) = full_stop \<and> (\<forall>e. ext = Some e \<longrightarrow> e < c))"

lemma ext_inv_mono: "ext_inv full i ext cand \<Longrightarrow> ext_inv full (Suc i) ext cand"
  by (auto simp: ext_inv_def)

lemma ext_inv_stop: "ext_inv full i ext None \<Longrightarrow> full ! i = full_stop \<Longrightarrow> ext_inv full (Suc i) ext (Some (Suc i))"
  by (auto simp: ext_inv_def)

lemma ext_inv_other:
  "ext_inv full i ext (Some c) \<Longrightarrow> ext_inv full (Suc i) (Some c) None" "ext_inv full i ext None \<Longrightarrow> ext_inv full (Suc i) ext None"
  by (auto simp: ext_inv_def)

lemma find_ext_spec:
  "find_ext i nm (ext, cand) = (ext', cand') \<Longrightarrow> drop i full = nm \<Longrightarrow> i \<le> length full \<Longrightarrow> ext_inv full i ext cand \<Longrightarrow>
    ext_inv full (length full) ext' cand'"
proof (induction i nm "(ext, cand)" arbitrary: ext cand rule: find_ext.induct)
  case (2 i c nm ext cand)
  have "i < length full" using 2(3) by (cases "i < length full") auto
  then have d: "full ! i = c" "drop (Suc i) full = nm" using 2(3) by (metis Cons_nth_drop_Suc list.inject)+
  let ?st = "if c = blank then (ext, cand) else if c = full_stop then (ext, if cand = None then Some (i + 1) else cand)
    else (if cand \<noteq> None then cand else ext, None)"
  have inv: "ext_inv full (Suc i) (fst ?st) (snd ?st)"
    using 2(5) ext_inv_mono ext_inv_stop ext_inv_other d(1) by (cases cand) auto
  show ?case using 2(1) [of "fst ?st" "snd ?st"] 2(2) d(2) \<open>i < length full\<close> inv by simp
qed simp

lemma mk_shortname_same:
  assumes "nm \<noteq> []" "last nm \<noteq> blank" "last nm \<noteq> full_stop" "fatfs_mk_shortname nm gen = (FAT_SHORTNAME_SAME, s)"
  shows "short_display s = nm"
proof -
  have h: "hd nm \<noteq> blank" "hd nm \<noteq> full_stop" using assms by (auto simp: fatfs_mk_shortname_def)
  obtain ext cand where fe: "find_ext 0 nm (None, None) = (ext, cand)" by fastforce
  have inv: "ext_inv nm (length nm) ext cand" using find_ext_spec [OF fe] by (simp add: ext_inv_def)
  have gen: "(if P then append_generation x gen else (c, x)) = (FAT_SHORTNAME_SAME, y) \<longleftrightarrow> \<not> P \<and> c = FAT_SHORTNAME_SAME \<and> x = y" for P c x y
    by (auto simp: append_generation_def Let_def split: if_splits)
  show ?thesis
  proof (cases ext)
    case None
    have t: "rev (dropWhile (\<lambda>c. c = blank \<or> c = full_stop) (rev nm)) = nm"
    proof -
      have "dropWhile (\<lambda>c. c = blank \<or> c = full_stop) (rev nm) = rev nm"
        unfolding dropWhile_eq_self_iff using assms(2,3) by (simp add: hd_rev)
      then show ?thesis by simp
    qed
    obtain c2 out where 2: "fat_convert FAT_SHORTNAME_SAME nm 8 = (c2, out)" by fastforce
    have "c2 = FAT_SHORTNAME_SAME" and s: "s = out @ replicate 3 blank"
      using assms(1,4) h unfolding fatfs_mk_shortname_def fe None by (simp_all add: t 2 gen Let_def)
    note c = fat_convert_same [OF 2 [unfolded this(1)]]
    have "strip_blanks (take 8 s) = nm" "strip_blanks (drop 8 s) = []"
      using c strip_padded [OF c(4)] by (simp_all add: s strip_blanks_def)
    then show ?thesis by (simp add: short_display_def)
  next
    case (Some e)
    have e: "0 < e" "e < length nm" "nm ! (e - 1) = full_stop" using inv Some by (auto simp: ext_inv_def)
    define x where "x = take (case cand of None \<Rightarrow> length nm - e | Some c \<Rightarrow> c - e) (drop e nm)"
    have e1: "e \<noteq> 1" using e h by (metis diff_self_eq_0 hd_conv_nth assms(1))
    then have nb: "take (e - 1) nm \<noteq> []" using e assms(1) by auto
    obtain c1 ex where 1: "fat_convert FAT_SHORTNAME_SAME x 3 = (c1, ex)" by fastforce
    obtain c2 out where 2: "fat_convert c1 (take (e - 1) nm) 8 = (c2, out)" by fastforce
    have "c2 = FAT_SHORTNAME_SAME" and s: "s = out @ ex"
      using assms(1,4) h nb 2 unfolding fatfs_mk_shortname_def fe Some by (simp_all add: x_def [symmetric] 1 Let_def gen)
    note c2 = fat_convert_same [OF 2 [unfolded this(1)]]
    note c1 = fat_convert_same [OF 1 [unfolded c2(1)]]
    have "cand = None"
    proof (rule ccontr)
      assume "cand \<noteq> None"
      then obtain c where c: "cand = Some c" "e < c" "c \<le> length nm" "nm ! (c - 1) = full_stop" using inv Some by (auto simp: ext_inv_def)
      then have "x ! (c - e - 1) = full_stop" "c - e - 1 < length x" by (auto simp: x_def)
      then have "full_stop \<in> set x" by (metis nth_mem)
      moreover have "\<not> short_char full_stop" by (simp add: short_char_legal is_illegal_char_def illegal_def)
      ultimately show False using c1(4) by (auto simp: list_all_iff)
    qed
    then have x: "x = drop e nm" "x \<noteq> []" using e by (simp_all add: x_def)
    have nm: "take (e - 1) nm @ full_stop # x = nm"
      using e id_take_nth_drop [of "e - 1" nm] by (simp add: x)
    have "length out = 8" using c2(2,3) by simp
    then have "take 8 s = out" "drop 8 s = ex" by (simp_all add: s)
    then have "strip_blanks (take 8 s) = take (e - 1) nm" "strip_blanks (drop 8 s) = x"
      using strip_padded [OF c2(4)] strip_padded [OF c1(4)] by (simp_all only: c2(3) c1(3))
    then show ?thesis using x nm by (simp add: short_display_def)
  qed
qed

text \<open>A full stop at the end of a name is lost without a long form, although the name counts as unchanged.\<close>

lemma shortname_drops_full_stop:
  "fatfs_mk_shortname [0x41, 0x2E] 1 = (FAT_SHORTNAME_SAME, [0x41, 0x20, 0x20, 0x20, 0x20, 0x20, 0x20, 0x20, 0x20, 0x20, 0x20])"
proof -
  have "fat_convert FAT_SHORTNAME_SAME [0x41] 8 = (FAT_SHORTNAME_SAME, [0x41, 0x20, 0x20, 0x20, 0x20, 0x20, 0x20, 0x20])" by code_simp
  then show ?thesis by (simp add: fatfs_mk_shortname_def numeral_3_eq_3)
qed

end
