(* ===== verification/FatDir.thy ===== *)
theory FatDir
  imports FatConv Adapter VolStream Tree
begin

text \<open>
  \<open>lib/filesystem/fatfs/dirent.c\<close>: the directory entries of a FAT file system. Every child of a directory gets a short name
  that no other child has, the long name in front of it where the short one differs, and an entry with the position and
  size of its data. The properties read a directory back with an independent reader.
\<close>

section \<open>Constants and the file system's state\<close>

definition FAT_SECTOR_SIZE :: nat where "FAT_SECTOR_SIZE = 512"
definition FAT32_RESERVED_COUNT :: nat where "FAT32_RESERVED_COUNT = 32"
definition FAT32_FAT_START :: nat where "FAT32_FAT_START = FAT32_RESERVED_COUNT * FAT_SECTOR_SIZE"
definition FAT32_ENTRIES_PER_SECTOR :: nat where "FAT32_ENTRIES_PER_SECTOR = FAT_SECTOR_SIZE div 4"
definition CLUSTER_SIZE_PREFERRED :: nat where "CLUSTER_SIZE_PREFERRED = 4096"
definition MAX_DISK_SIZE :: nat where "MAX_DISK_SIZE = 1024 * 1024 * 1024 * 1024"
definition FAT32_MIN_SECTORS :: nat where "FAT32_MIN_SECTORS = 66000"
definition FAT_CHAR_PER_LONG_ENT :: nat where "FAT_CHAR_PER_LONG_ENT = 13"
definition SEQ_NUMBER_LAST_FLAG :: byte where "SEQ_NUMBER_LAST_FLAG = 0x40"
definition CLUSTER_OFFSET :: nat where "CLUSTER_OFFSET = 2"
definition DIR_ENT_DIRECTORY :: byte where "DIR_ENT_DIRECTORY = 0x10"
definition DIR_ENT_LFN :: byte where "DIR_ENT_LFN = 0x0F"

text \<open>\<open>fatfs_filesystem_t\<close>. The volume of the tree is the original volume seen through the block size adapter, which keeps
  no state of its own, so that the state of both is the one in the tree.\<close>

record 'v fatfs =
  fat_tree :: "'v fstree"
  secs_per_cluster :: nat
  secs_per_fat :: nat
  fatsize :: nat
  fs_oem :: "byte list"
  fs_label :: "byte list"

section \<open>The list of short names\<close>

text \<open>\<open>struct short_list_t\<close>: a list of nodes that hold up to ten names each.\<close>

type_synonym short_list = "byte list list list"

definition is_in_short_name_list :: "short_list \<Rightarrow> byte list \<Rightarrow> bool" where
  "is_in_short_name_list l nm \<longleftrightarrow> list_ex (\<lambda>ent. list_ex (\<lambda>x. x = nm) ent) l"

fun add_to_free_node :: "short_list \<Rightarrow> byte list \<Rightarrow> short_list option" where
  "add_to_free_node [] nm = None"
| "add_to_free_node (ent # l) nm =
     (if length ent < 10 then Some ((ent @ [nm]) # l) else map_option (\<lambda>l. ent # l) (add_to_free_node l nm))"

definition add_to_short_name_list :: "bool \<Rightarrow> short_list \<Rightarrow> byte list \<Rightarrow> short_list option" where
  "add_to_short_name_list mem l nm =
     (case add_to_free_node l nm of Some l' \<Rightarrow> Some l' | None \<Rightarrow> if mem then Some ([nm] # l) else None)"

section \<open>Entries\<close>

definition is_non_ascii :: "byte list \<Rightarrow> bool" where
  "is_non_ascii s \<longleftrightarrow> list_ex (\<lambda>c. c AND 0x80 \<noteq> 0) s"

definition short_name_checksum :: "byte list \<Rightarrow> byte" where
  "short_name_checksum shortname = fold (\<lambda>c sum. push_bit 7 (sum AND 1) + drop_bit 1 sum + c) (take 11 shortname) 0"

definition get_cluster_index :: "'v fatfs \<Rightarrow> nat \<Rightarrow> nat" where
  "get_cluster_index fs location =
     u32 (location div u32 (FAT_SECTOR_SIZE * secs_per_cluster fs) + CLUSTER_OFFSET)"

text \<open>\<open>fatfs_dir_ent_t\<close> as it is laid out in 32 bytes.\<close>

definition dir_ent_bytes :: "byte list \<Rightarrow> byte \<Rightarrow> nat \<Rightarrow> 32 word \<Rightarrow> 32 word \<Rightarrow> nat \<Rightarrow> byte list" where
  "dir_ent_bytes shortname flags location ctime mtime sz =
     take 8 shortname @ take 3 (drop 8 shortname) @ [flags] @ zeros 2 @
     le16_bytes (unat (ctime AND 0xFFFF)) @ le16_bytes (unat (drop_bit 16 ctime AND 0xFFFF)) @
     le16_bytes (unat (drop_bit 16 mtime AND 0xFFFF)) @ le16_bytes (location div 2 ^ 16 mod 2 ^ 16) @
     le16_bytes (unat (mtime AND 0xFFFF)) @ le16_bytes (unat (drop_bit 16 mtime AND 0xFFFF)) @
     le16_bytes (location mod 2 ^ 16) @ le32_bytes sz"

text \<open>The flags, first cluster and size of a node, or nothing if FAT cannot store it.\<close>

definition short_entry_data :: "'v fatfs \<Rightarrow> tree_node \<Rightarrow> (byte \<times> nat \<times> nat) option" where
  "short_entry_data fs n =
     (case n_type n of
        TREE_NODE_DIR \<Rightarrow> Some (DIR_ENT_DIRECTORY, get_cluster_index fs (dir_start n), u32 (dir_size n))
      | TREE_NODE_FILE \<Rightarrow> Some (0, u32 (u32 (start_index (n_file n)) + CLUSTER_OFFSET), u32 (f_size (n_file n)))
      | _ \<Rightarrow> None)"

definition write_short_entry :: "'v fatfs \<Rightarrow> tree_node \<Rightarrow> 'o ostream \<Rightarrow> 'o \<Rightarrow> byte list \<Rightarrow> (unit, 'o) io" where
  "write_short_entry fs n strm fp shortname =
     (case short_entry_data fs n of
        None \<Rightarrow> (None, fp)
      | Some (flags, location, sz) \<Rightarrow>
          ostream_append strm fp
            (dir_ent_bytes shortname flags location (fatfs_convert_timestamp (s64 (n_ctime n)))
               (fatfs_convert_timestamp (s64 (n_mtime n))) sz))"

text \<open>\<open>fatfs_long_dir_ent_t\<close>: thirteen characters in three groups of 16 bit numbers. A character behind the end of the
  name is all ones.\<close>

definition long_chars :: "byte list \<Rightarrow> byte list" where
  "long_chars cs = concat (map (\<lambda>c. le16_bytes (unat c)) cs) @ concat (replicate (13 - length cs) [0xFF, 0xFF])"

definition long_ent_bytes :: "byte \<Rightarrow> byte \<Rightarrow> byte list \<Rightarrow> byte list" where
  "long_ent_bytes seq_number checksum cs =
     (let w = long_chars cs
      in [seq_number] @ take 10 w @ [DIR_ENT_LFN, 0, checksum] @ take 12 (drop 10 w) @ zeros 2 @ take 4 (drop 22 w))"

text \<open>The entries from \<open>i\<close> on. The name ends with a zero byte.\<close>

function write_long_loop :: "'o ostream \<Rightarrow> 'o \<Rightarrow> byte list \<Rightarrow> byte \<Rightarrow> nat \<Rightarrow> nat \<Rightarrow> (unit, 'o) io" where
  "write_long_loop strm fp nm checksum count i =
     (if i \<ge> count then (Some (), fp)
      else let offset = (count - 1 - i) * FAT_CHAR_PER_LONG_ENT;
               avail = length nm - offset;
               avail = (if avail > FAT_CHAR_PER_LONG_ENT then FAT_CHAR_PER_LONG_ENT else avail);
               seq_number = of_nat (count - i) OR (if i = 0 then SEQ_NUMBER_LAST_FLAG else 0)
           in case ostream_append strm fp (long_ent_bytes seq_number checksum (take avail (drop offset nm))) of
                (None, fp) \<Rightarrow> (None, fp)
              | (Some _, fp) \<Rightarrow> write_long_loop strm fp nm checksum count (i + 1))"
  by pat_completeness auto
termination
  by (relation "measure (\<lambda>(strm, fp, nm, c, count, i). count - i)") auto

declare write_long_loop.simps [simp del]

definition write_long_entry :: "'o ostream \<Rightarrow> 'o \<Rightarrow> byte list \<Rightarrow> byte list \<Rightarrow> (unit, 'o) io" where
  "write_long_entry strm fp nm shortname =
     (let len = length nm + 1;
          count = len div FAT_CHAR_PER_LONG_ENT + (if len mod FAT_CHAR_PER_LONG_ENT \<noteq> 0 then 1 else 0)
      in write_long_loop strm fp (nm @ [0]) (short_name_checksum shortname) count 0)"

definition init_directory :: "'v fatfs \<Rightarrow> tree_node \<Rightarrow> 'o ostream \<Rightarrow> 'o \<Rightarrow> (unit, 'o) io" where
  "init_directory fs n strm fp =
     (case n_parent n of
        None \<Rightarrow> (Some (), fp)
      | Some p \<Rightarrow>
          (case ostream_append strm fp
                  (dir_ent_bytes (full_stop # replicate 10 blank) DIR_ENT_DIRECTORY (get_cluster_index fs (dir_start n)) 0 0 0) of
             (None, fp) \<Rightarrow> (None, fp)
           | (Some _, fp) \<Rightarrow>
               let parent = nodes (fat_tree fs) p;
                   location = (if n_parent parent = None then 0 else get_cluster_index fs (dir_start parent))
               in ostream_append strm fp (dir_ent_bytes (full_stop # full_stop # replicate 9 blank) DIR_ENT_DIRECTORY location 0 0 0)))"

section \<open>A whole directory\<close>

text \<open>The loop that looks for a short name that is still free. It ends because the generation number is bounded.\<close>

lemma mk_shortname_bound: "fatfs_mk_shortname nm gen = (conv, s) \<Longrightarrow> conv \<noteq> FAT_SHORTNAME_ERROR \<Longrightarrow> gen < 1000000"
  by (auto simp: fatfs_mk_shortname_def append_generation_def Let_def split: if_splits prod.splits)

function shortname_loop :: "short_list \<Rightarrow> byte list \<Rightarrow> nat \<Rightarrow> (FAT_SHORTNAME \<times> byte list) option" where
  "shortname_loop l nm gen =
     (case fatfs_mk_shortname nm gen of (conv, shortname) \<Rightarrow>
        if conv = FAT_SHORTNAME_ERROR then None
        else if is_in_short_name_list l shortname then shortname_loop l nm (gen + 1)
        else Some (conv, shortname))"
  by pat_completeness auto
termination
  by (relation "measure (\<lambda>(l, nm, gen). 1000000 - gen)") (auto dest!: sym [THEN mk_shortname_bound])

declare shortname_loop.simps [simp del]

fun serialize_children ::
  "bool \<Rightarrow> 'v fatfs \<Rightarrow> 'o ostream \<Rightarrow> 'o \<Rightarrow> short_list \<Rightarrow> nat list \<Rightarrow> (unit, 'o) io" where
  "serialize_children mem fs strm fp l [] = (Some (), fp)"
| "serialize_children mem fs strm fp l (m # ms) =
     (let n = nodes (fat_tree fs) m; nm = ascii (n_name n) in
      if is_non_ascii nm then (None, fp)
      else case shortname_loop l nm 1 of
          None \<Rightarrow> (None, fp)
        | Some (conv, shortname) \<Rightarrow>
            (case add_to_short_name_list mem l shortname of
               None \<Rightarrow> (None, fp)
             | Some l \<Rightarrow>
                 (case (if conv = FAT_SHORTNAME_OK \<or> conv = FAT_SHORTNAME_SUFFIXED
                        then write_long_entry strm fp nm shortname else (Some (), fp)) of
                    (None, fp) \<Rightarrow> (None, fp)
                  | (Some _, fp) \<Rightarrow>
                      (case write_short_entry fs n strm fp shortname of
                         (None, fp) \<Rightarrow> (None, fp)
                       | (Some _, fp) \<Rightarrow> serialize_children mem fs strm fp l ms))))"

definition fatfs_serialize_directory :: "bool \<Rightarrow> 'v fatfs \<Rightarrow> nat \<Rightarrow> 'o ostream \<Rightarrow> 'o \<Rightarrow> (unit, 'o) io" where
  "fatfs_serialize_directory mem fs d strm fp =
     (case init_directory fs (nodes (fat_tree fs) d) strm fp of
        (None, fp) \<Rightarrow> (None, fp)
      | (Some _, fp) \<Rightarrow> serialize_children mem fs strm fp [] (children (nodes (fat_tree fs) d)))"

end
