(* ===== verification/FatRead.thy ===== *)
theory FatRead
  imports FatDir FileData
begin

text \<open>
  Reading FAT directories back. The bytes of a directory are defined without a stream, every stream that meets the contract
  \<open>ostream_sink\<close> receives them, and a reader of the on-disk format finds the names, positions, sizes and times of
  the children in them.
\<close>

section \<open>The bytes of a directory\<close>

definition long_entry :: "byte list \<Rightarrow> byte \<Rightarrow> nat \<Rightarrow> nat \<Rightarrow> byte list" where
  "long_entry nm checksum count i =
     long_ent_bytes (of_nat (count - i) OR (if i = 0 then SEQ_NUMBER_LAST_FLAG else 0)) checksum
       (take 13 (drop ((count - 1 - i) * 13) nm))"

definition long_count :: "byte list \<Rightarrow> nat" where
  "long_count nm = div_up (length nm + 1) 13"

definition long_bytes :: "byte list \<Rightarrow> byte list \<Rightarrow> byte list" where
  "long_bytes nm shortname =
     concat (map (long_entry (nm @ [0]) (short_name_checksum shortname) (long_count nm)) [0..<long_count nm])"

definition short_bytes :: "'v fatfs \<Rightarrow> tree_node \<Rightarrow> byte list \<Rightarrow> byte list option" where
  "short_bytes fs n shortname =
     map_option (\<lambda>(flags, location, sz). dir_ent_bytes shortname flags location (fatfs_convert_timestamp (s64 (n_ctime n)))
         (fatfs_convert_timestamp (s64 (n_mtime n))) sz) (short_entry_data fs n)"

definition dot_bytes :: "'v fatfs \<Rightarrow> tree_node \<Rightarrow> byte list" where
  "dot_bytes fs n =
     (case n_parent n of
        None \<Rightarrow> []
      | Some p \<Rightarrow>
          dir_ent_bytes (full_stop # replicate 10 blank) DIR_ENT_DIRECTORY (get_cluster_index fs (dir_start n)) 0 0 0 @
          dir_ent_bytes (full_stop # full_stop # replicate 9 blank) DIR_ENT_DIRECTORY
            (let parent = nodes (fat_tree fs) p in if n_parent parent = None then 0 else get_cluster_index fs (dir_start parent)) 0 0 0)"

text \<open>The short names that the children of a directory get, with the way that they were converted.\<close>

fun short_names :: "bool \<Rightarrow> short_list \<Rightarrow> byte list list \<Rightarrow> (FAT_SHORTNAME \<times> byte list) list option" where
  "short_names mem l [] = Some []"
| "short_names mem l (nm # nms) =
     (if is_non_ascii nm then None
      else case shortname_loop l nm 1 of
          None \<Rightarrow> None
        | Some (conv, shortname) \<Rightarrow>
            (case add_to_short_name_list mem l shortname of
               None \<Rightarrow> None
             | Some l \<Rightarrow> map_option (\<lambda>r. (conv, shortname) # r) (short_names mem l nms)))"

definition child_bytes :: "'v fatfs \<Rightarrow> tree_node \<Rightarrow> FAT_SHORTNAME \<times> byte list \<Rightarrow> byte list option" where
  "child_bytes fs n = (\<lambda>(conv, shortname).
     map_option (\<lambda>b. (if conv = FAT_SHORTNAME_OK \<or> conv = FAT_SHORTNAME_SUFFIXED then long_bytes (ascii (n_name n)) shortname else []) @ b)
       (short_bytes fs n shortname))"

section \<open>Writing them to a stream\<close>

lemma div_up_count: "len div 13 + (if len mod 13 \<noteq> 0 then 1 else 0) = div_up len 13"
  by (simp add: div_up_def)

context ostream_sink
begin

lemma write_long_loop_ok:
  assumes "i \<le> count"
    "room s (length (concat (map (long_entry nm checksum count) [i..<count])) + m)"
  shows "\<exists>s'. write_long_loop strm s nm checksum count i = (Some (), s') \<and>
    view s' = upd (view s) (concat (map (long_entry nm checksum count) [i..<count])) \<and> room s' m"
  using assms
proof (induction "count - i" arbitrary: i s)
  case 0
  then show ?case by (simp add: write_long_loop.simps upd_Nil)
next
  case (Suc k)
  let ?e = "long_entry nm checksum count"
  let ?t = "concat (map ?e [Suc i..<count])"
  have i: "i < count" using Suc.hyps(2) by simp
  then have split: "concat (map ?e [i..<count]) = ?e i @ ?t" by (simp add: upt_conv_Cons)
  have "room s (length (?e i) + (length ?t + m))" using Suc.prems(2) unfolding split by (simp add: add.assoc)
  from ostream_append_ok [OF this] obtain s1 where s1: "ostream_append strm s (?e i) = (Some (), s1)"
    "view s1 = upd (view s) (?e i)" "room s1 (length ?t + m)" by blast
  have "k = count - Suc i" "Suc i \<le> count" using Suc.hyps(2) i by simp_all
  from Suc.hyps(1) [OF this s1(3)] obtain s' where s': "write_long_loop strm s1 nm checksum count (Suc i) = (Some (), s')"
    "view s' = upd (view s1) ?t" "room s' m" by blast
  have avail: "take (if length nm - q > FAT_CHAR_PER_LONG_ENT then FAT_CHAR_PER_LONG_ENT else length nm - q) (drop q nm) =
      take 13 (drop q nm)" for q by (auto simp: FAT_CHAR_PER_LONG_ENT_def)
  show ?case
    using i s1 s' by (subst write_long_loop.simps) (simp add: Let_def avail split upd_append long_entry_def FAT_CHAR_PER_LONG_ENT_def [symmetric])
qed

lemma write_long_entry_ok:
  assumes "room s (length (long_bytes nm shortname) + m)"
  shows "\<exists>s'. write_long_entry strm s nm shortname = (Some (), s') \<and> view s' = upd (view s) (long_bytes nm shortname) \<and> room s' m"
  using write_long_loop_ok [OF le0 assms [unfolded long_bytes_def]]
  by (simp add: write_long_entry_def long_bytes_def long_count_def div_up_def FAT_CHAR_PER_LONG_ENT_def)

lemma write_short_entry_ok:
  assumes "short_bytes fs n shortname = Some b" "room s (length b + m)"
  shows "\<exists>s'. write_short_entry fs n strm s shortname = (Some (), s') \<and> view s' = upd (view s) b \<and> room s' m"
  using assms(1) ostream_append_ok [OF assms(2)] by (auto simp: write_short_entry_def short_bytes_def)

lemma init_directory_ok:
  assumes "room s (length (dot_bytes fs n) + m)"
  shows "\<exists>s'. init_directory fs n strm s = (Some (), s') \<and> view s' = upd (view s) (dot_bytes fs n) \<and> room s' m"
proof (cases "n_parent n")
  case None
  then show ?thesis using assms by (simp add: init_directory_def dot_bytes_def upd_Nil)
next
  case (Some p)
  let ?a = "dir_ent_bytes (full_stop # replicate 10 blank) DIR_ENT_DIRECTORY (get_cluster_index fs (dir_start n)) 0 0 0"
  let ?b = "dir_ent_bytes (full_stop # full_stop # replicate 9 blank) DIR_ENT_DIRECTORY
    (let parent = nodes (fat_tree fs) p in if n_parent parent = None then 0 else get_cluster_index fs (dir_start parent)) 0 0 0"
  have "room s (length ?a + (length ?b + m))" using assms Some by (simp add: dot_bytes_def add.assoc)
  from ostream_append_ok [OF this] obtain s1 where s1: "ostream_append strm s ?a = (Some (), s1)" "view s1 = upd (view s) ?a"
    "room s1 (length ?b + m)" by blast
  from ostream_append_ok [OF s1(3)] s1(1,2) show ?thesis by (auto simp: init_directory_def dot_bytes_def Some upd_append Let_def)
qed

lemma child_ok:
  assumes "child_bytes fs n (conv, shortname) = Some b" "room s (length b + m)"
  shows "\<exists>s1 s'. (if conv = FAT_SHORTNAME_OK \<or> conv = FAT_SHORTNAME_SUFFIXED
      then write_long_entry strm s (ascii (n_name n)) shortname else (Some (), s)) = (Some (), s1) \<and>
    write_short_entry fs n strm s1 shortname = (Some (), s') \<and> view s' = upd (view s) b \<and> room s' m"
proof -
  let ?l = "if conv = FAT_SHORTNAME_OK \<or> conv = FAT_SHORTNAME_SUFFIXED then long_bytes (ascii (n_name n)) shortname else []"
  obtain b' where b': "short_bytes fs n shortname = Some b'" "b = ?l @ b'" using assms(1) by (auto simp: child_bytes_def)
  have r: "room s (length ?l + (length b' + m))" using assms(2) b'(2) by (simp add: add.assoc)
  have "\<exists>s1. (if conv = FAT_SHORTNAME_OK \<or> conv = FAT_SHORTNAME_SUFFIXED
      then write_long_entry strm s (ascii (n_name n)) shortname else (Some (), s)) = (Some (), s1) \<and>
      view s1 = upd (view s) ?l \<and> room s1 (length b' + m)"
    using r write_long_entry_ok [of s "ascii (n_name n)" shortname "length b' + m"] by (auto simp: upd_Nil)
  then obtain s1 where s1: "(if conv = FAT_SHORTNAME_OK \<or> conv = FAT_SHORTNAME_SUFFIXED
      then write_long_entry strm s (ascii (n_name n)) shortname else (Some (), s)) = (Some (), s1)"
      "view s1 = upd (view s) ?l" "room s1 (length b' + m)" by blast
  from write_short_entry_ok [OF b'(1) s1(3)] s1(1,2) show ?thesis unfolding b'(2) by (metis upd_append)
qed

lemma serialize_children_ok:
  assumes "short_names mem l (map (\<lambda>c. ascii (n_name (nodes (fat_tree fs) c))) ms) = Some ns"
    "map2 (\<lambda>c. child_bytes fs (nodes (fat_tree fs) c)) ms ns = map Some bs"
    "room s (length (concat bs) + m)"
  shows "\<exists>s'. serialize_children mem fs strm s l ms = (Some (), s') \<and> view s' = upd (view s) (concat bs) \<and> room s' m"
  using assms
proof (induction ms arbitrary: l ns bs s)
  case Nil
  then show ?case by (simp add: upd_Nil)
next
  case (Cons c ms)
  let ?n = "nodes (fat_tree fs) c"
  obtain conv shortname l' ns' where n: "\<not> is_non_ascii (ascii (n_name ?n))" "shortname_loop l (ascii (n_name ?n)) 1 = Some (conv, shortname)"
      "add_to_short_name_list mem l shortname = Some l'" "ns = (conv, shortname) # ns'"
      "short_names mem l' (map (\<lambda>c. ascii (n_name (nodes (fat_tree fs) c))) ms) = Some ns'"
    using Cons.prems(1) by (auto split: if_splits option.splits)
  obtain b bs' where b: "bs = b # bs'" "child_bytes fs ?n (conv, shortname) = Some b"
      "map2 (\<lambda>c. child_bytes fs (nodes (fat_tree fs) c)) ms ns' = map Some bs'"
    using Cons.prems(2) n(4) by (cases bs) auto
  have "room s (length b + (length (concat bs') + m))" using Cons.prems(3) b(1) by (simp add: add.assoc)
  from child_ok [OF b(2) this] obtain s1 s2 where s: "(if conv = FAT_SHORTNAME_OK \<or> conv = FAT_SHORTNAME_SUFFIXED
      then write_long_entry strm s (ascii (n_name ?n)) shortname else (Some (), s)) = (Some (), s1)"
    "write_short_entry fs ?n strm s1 shortname = (Some (), s2)" "view s2 = upd (view s) b" "room s2 (length (concat bs') + m)" by blast
  from Cons.IH [OF n(5) b(3) s(4)] obtain s' where s': "serialize_children mem fs strm s2 l' ms = (Some (), s')"
    "view s' = upd (view s2) (concat bs')" "room s' m" by blast
  have "view s' = upd (view s) (concat bs)" unfolding s'(2) s(3) b(1) by (simp add: upd_append)
  moreover have "serialize_children mem fs strm s l (c # ms) = (Some (), s')"
    unfolding serialize_children.simps Let_def using n(1-3) s(1,2) s'(1) by (simp only: if_False option.case prod.case)
  ultimately show ?case using s'(3) by blast
qed

end

text \<open>Whenever a directory is written to some stream, its bytes are defined.\<close>

lemma serialize_children_bytes:
  assumes "serialize_children mem fs strm s l ms = (Some (), s')"
  shows "\<exists>ns bs. short_names mem l (map (\<lambda>c. ascii (n_name (nodes (fat_tree fs) c))) ms) = Some ns \<and>
    map2 (\<lambda>c. child_bytes fs (nodes (fat_tree fs) c)) ms ns = map Some bs"
  using assms
proof (induction ms arbitrary: l s)
  case (Cons c ms)
  let ?n = "nodes (fat_tree fs) c"
  obtain conv shortname l' s1 s2 where n: "\<not> is_non_ascii (ascii (n_name ?n))" "shortname_loop l (ascii (n_name ?n)) 1 = Some (conv, shortname)"
      "add_to_short_name_list mem l shortname = Some l'" "write_short_entry fs ?n strm s1 shortname = (Some (), s2)"
      "serialize_children mem fs strm s2 l' ms = (Some (), s')"
    using Cons.prems by (auto simp: Let_def split: if_splits option.splits prod.splits)
  from Cons.IH [OF n(5)] obtain ns bs where i: "short_names mem l' (map (\<lambda>c. ascii (n_name (nodes (fat_tree fs) c))) ms) = Some ns"
    "map2 (\<lambda>c. child_bytes fs (nodes (fat_tree fs) c)) ms ns = map Some bs" by blast
  obtain b where b: "short_bytes fs ?n shortname = Some b"
    using n(4) by (auto simp: write_short_entry_def short_bytes_def split: option.splits)
  define b' where "b' = (if conv = FAT_SHORTNAME_OK \<or> conv = FAT_SHORTNAME_SUFFIXED then long_bytes (ascii (n_name ?n)) shortname else []) @ b"
  have "child_bytes fs ?n (conv, shortname) = Some b'" by (simp add: child_bytes_def b b'_def)
  then have "map2 (\<lambda>c. child_bytes fs (nodes (fat_tree fs) c)) (c # ms) ((conv, shortname) # ns) = map Some (b' # bs)"
    using i(2) by simp
  moreover have "short_names mem l (map (\<lambda>c. ascii (n_name (nodes (fat_tree fs) c))) (c # ms)) = Some ((conv, shortname) # ns)"
    using n i(1) by simp
  ultimately show ?case by blast
qed simp

section \<open>A reader of directories\<close>

text \<open>The thirteen characters of a long entry.\<close>

definition long_decode :: "byte list \<Rightarrow> nat list" where
  "long_decode e = map (\<lambda>i. le16 (drop i e)) [1, 3, 5, 7, 9, 14, 16, 18, 20, 22, 24, 28, 30]"

type_synonym dir_entry = "nat list \<times> byte \<times> nat \<times> nat \<times> nat"

definition short_decode :: "nat list \<Rightarrow> byte list \<Rightarrow> dir_entry" where
  "short_decode nm e =
     (nm, e ! 11, le16 (drop 26 e) + le16 (drop 20 e) * 2 ^ 16, le32 (drop 28 e), le16 (drop 22 e) + le16 (drop 24 e) * 2 ^ 16)"

text \<open>The checksum that ties a long name to its short name, as the format defines it: for every byte the sum so far
  is rotated to the right by one bit and the byte is added, modulo 256.\<close>

definition alias_checksum :: "byte list \<Rightarrow> nat" where
  "alias_checksum s = foldl (\<lambda>cks c. ((if odd cks then 128 else 0) + cks div 2 + unat c) mod 256) 0 s"

lemma odd_unat: "odd (unat w) \<longleftrightarrow> odd w" for w :: byte
  by transfer (auto simp: even_nat_iff)

lemma alias_checksum_step:
  "unat (push_bit 7 (cks AND 1) + drop_bit 1 cks + c) = ((if odd (unat cks) then 128 else 0) + unat cks div 2 + unat c) mod 256"
  for cks c :: byte
proof -
  have "unat (push_bit 7 (cks AND 1)) = (if odd (unat cks) then 128 else 0)"
  proof (cases "odd cks")
    case True
    then have "cks AND 1 = 1" by (simp add: and_one_eq odd_iff_mod_2_eq_one)
    then show ?thesis using True by (simp add: odd_unat)
  next
    case False
    then have "cks AND 1 = 0" by (simp add: and_one_eq even_iff_mod_2_eq_zero)
    then show ?thesis using False by (simp add: odd_unat)
  qed
  moreover have "unat (drop_bit 1 cks) = unat cks div 2" by (simp add: drop_bit_eq_div unat_div)
  ultimately show ?thesis by (simp add: unat_word_ariths mod_add_left_eq)
qed

lemma alias_checksum_name:
  assumes "length s = 11"
  shows "alias_checksum s = unat (short_name_checksum s)"
proof -
  have "foldl (\<lambda>cks c. ((if odd cks then 128 else 0) + cks div 2 + unat c) mod 256) (unat a) xs =
      unat (fold (\<lambda>c sum. push_bit 7 (sum AND 1) + drop_bit 1 sum + c) xs a)" for a :: byte and xs :: "byte list"
    by (induction xs arbitrary: a) (simp_all only: foldl.simps fold_simps alias_checksum_step [symmetric])
  from this [of 0 s] show ?thesis using assms by (simp add: alias_checksum_def short_name_checksum_def)
qed

text \<open>The name of an entry: the long name if its parts are complete and belong to the short name, else the short one.\<close>

definition entry_name :: "(nat \<times> byte \<times> nat list) option \<Rightarrow> byte list \<Rightarrow> nat list" where
  "entry_name st e =
     (case st of
        Some (k, cks, acc) \<Rightarrow> if k = 0 \<and> unat cks = alias_checksum (take 11 e) then takeWhile (\<lambda>c. c \<noteq> 0) acc
          else map unat (short_display (take 11 e))
      | None \<Rightarrow> map unat (short_display (take 11 e)))"

text \<open>The state while a long name is read: the number of the part that came last, the checksum and the characters
  so far.\<close>

definition long_step :: "(nat \<times> byte \<times> nat list) option \<Rightarrow> byte list \<Rightarrow> (nat \<times> byte \<times> nat list) option" where
  "long_step st e =
     (let sq = unat (e ! 0) in
      if sq \<ge> 64 then Some (sq - 65, e ! 13, long_decode e)
      else case st of
          Some (k, cks, acc) \<Rightarrow> if 0 < k \<and> sq = k \<and> cks = e ! 13 then Some (k - 1, cks, long_decode e @ acc) else None
        | None \<Rightarrow> None)"

function read_dir :: "(nat \<times> byte \<times> nat list) option \<Rightarrow> byte list \<Rightarrow> dir_entry list" where
  "read_dir st b =
     (if length b < 32 then []
      else let e = take 32 b in
        if e ! 0 = 0 then []
        else if e ! 11 = DIR_ENT_LFN then read_dir (long_step st e) (drop 32 b)
        else short_decode (entry_name st e) e # read_dir None (drop 32 b))"
  by pat_completeness auto
termination
  by (relation "measure (\<lambda>(st, b). length b)") auto

declare read_dir.simps [simp del]

lemma read_dir_long:
  assumes "length e = 32" "e ! 0 \<noteq> 0" "e ! 11 = DIR_ENT_LFN"
  shows "read_dir st (e @ b) = read_dir (long_step st e) b"
  using assms by (subst read_dir.simps) (simp add: Let_def)

lemma read_dir_short:
  assumes "length e = 32" "e ! 0 \<noteq> 0" "e ! 11 \<noteq> DIR_ENT_LFN"
  shows "read_dir st (e @ b) = short_decode (entry_name st e) e # read_dir None b"
  using assms by (subst read_dir.simps) (simp add: Let_def)

lemma read_dir_Nil: "read_dir st [] = []"
  by (subst read_dir.simps) simp

section \<open>What the reader finds\<close>

lemma word32_halves: "unat (w AND 0xFFFF) + unat (drop_bit 16 w AND 0xFFFF) * 2 ^ 16 = unat (w :: 32 word)"
proof -
  have m: "(0xFFFF :: 32 word) = mask 16" by (simp add: mask_eq_exp_minus_1)
  have "unat (w AND 0xFFFF) = unat w mod 2 ^ 16"
    unfolding m take_bit_eq_mask [symmetric] unsigned_take_bit_eq by (rule take_bit_eq_mod)
  moreover have "unat (drop_bit 16 w AND 0xFFFF) = unat w div 2 ^ 16"
  proof -
    have "unat w div 2 ^ 16 < 2 ^ 16" using unsigned_less [of w] by (simp add: div_less_iff_less_mult)
    then have "take_bit 16 (unat w div 2 ^ 16) = unat w div 2 ^ 16" by (rule take_bit_nat_eq_self)
    then show ?thesis
      unfolding m take_bit_eq_mask [symmetric] unsigned_take_bit_eq unat_drop_bit_eq drop_bit_eq_div [where 'a = nat] by simp
  qed
  ultimately show ?thesis by simp
qed

lemma word32_halves_bound:
  "unat (w AND 0xFFFF) < 2 ^ 16" "unat (drop_bit 16 (w :: 32 word) AND 0xFFFF) < 2 ^ 16"
proof -
  have m: "(0xFFFF :: 32 word) = mask 16" by (simp add: mask_eq_exp_minus_1)
  show "unat (w AND 0xFFFF) < 2 ^ 16" "unat (drop_bit 16 (w :: 32 word) AND 0xFFFF) < 2 ^ 16"
    unfolding m take_bit_eq_mask [symmetric] unsigned_take_bit_eq by (rule take_bit_nat_less_exp)+
qed


lemma dir_ent_facts:
  assumes "length s = 11" "location < 2 ^ 32" "sz < 2 ^ 32"
  shows "length (dir_ent_bytes s flags location ct mt sz) = 32" "dir_ent_bytes s flags location ct mt sz ! 0 = s ! 0"
    "dir_ent_bytes s flags location ct mt sz ! 11 = flags"
    "take 11 (dir_ent_bytes s flags location ct mt sz) = s"
    "short_decode nm (dir_ent_bytes s flags location ct mt sz) = (nm, flags, location, sz, unat mt)"
proof -
  let ?e = "dir_ent_bytes s flags location ct mt sz"
  let ?c1 = "unat (ct AND 0xFFFF)" and ?c2 = "unat (drop_bit 16 ct AND 0xFFFF)"
  let ?m1 = "unat (mt AND 0xFFFF)" and ?m2 = "unat (drop_bit 16 mt AND 0xFFFF)"
  have "take 3 (drop 8 s) = drop 8 s" using assms(1) by simp
  then have s: "take 8 s @ take 3 (drop 8 s) = s" by simp
  have e: "?e = s @ [flags, 0, 0] @ le16_bytes ?c1 @ le16_bytes ?c2 @ le16_bytes ?m2 @ le16_bytes (location div 2 ^ 16 mod 2 ^ 16) @
      le16_bytes ?m1 @ le16_bytes ?m2 @ le16_bytes (location mod 2 ^ 16) @ le32_bytes sz"
    unfolding dir_ent_bytes_def append_assoc [symmetric] s by (simp add: zeros_def numeral_2_eq_2)
  show "length ?e = 32" "?e ! 0 = s ! 0" "?e ! 11 = flags" "take 11 ?e = s"
    unfolding e using assms(1) by (simp_all add: nth_append)
  have "location div 2 ^ 16 < 2 ^ 16" using assms(2) by (simp add: div_less_iff_less_mult)
  then have "location div 2 ^ 16 mod 2 ^ 16 = location div 2 ^ 16" by simp
  then show "short_decode nm ?e = (nm, flags, location, sz, unat mt)"
    unfolding short_decode_def e using assms word32_halves [of mt] word32_halves_bound [of mt]
    by (simp add: nth_append le16_le16_bytes le32_le32_bytes [of _ "[]", simplified])
qed

definition long_wide :: "byte list \<Rightarrow> nat list" where
  "long_wide cs = map unat cs @ replicate (13 - length cs) 0xFFFF"

lemma long_chars_wide: "long_chars cs = concat (map le16_bytes (long_wide cs))"
proof -
  have "le16_bytes 0xFFFF = [0xFF, 0xFF]" by (simp add: le16_bytes_def)
  then show ?thesis by (simp add: long_chars_def long_wide_def comp_def)
qed

lemma thirteen:
  assumes "length xs = 13"
  shows "\<exists>a b c d e f g h i j k l m. xs = [a, b, c, d, e, f, g, h, i, j, k, l, m]"
  using assms by (auto simp: numeral_eq_Suc length_Suc_conv)

lemma long_ent_facts:
  fixes sq cks :: byte
  assumes "length cs \<le> 13"
  defines "e \<equiv> long_ent_bytes sq cks cs"
  shows "length e = 32" "e ! 0 = sq" "e ! 11 = DIR_ENT_LFN" "e ! 13 = cks" "long_decode e = long_wide cs"
proof -
  have l: "length (long_wide cs) = 13" using assms(1) by (simp add: long_wide_def)
  have bnd: "\<forall>w \<in> set (long_wide cs). w < 2 ^ 16"
  proof
    fix w assume "w \<in> set (long_wide cs)"
    then consider c where "c \<in> set cs" "w = unat c" | "w = 0xFFFF" by (auto simp: long_wide_def)
    then show "w < 2 ^ 16"
    proof cases
      case 1
      then show ?thesis using unsigned_less [of c, where ?'a = nat] by simp
    qed simp
  qed
  obtain c0 c1 c2 c3 c4 c5 c6 c7 c8 c9 ca cb cc where w: "long_wide cs = [c0, c1, c2, c3, c4, c5, c6, c7, c8, c9, ca, cb, cc]"
    using thirteen [OF l] by blast
  have e: "e = [sq] @ le16_bytes c0 @ le16_bytes c1 @ le16_bytes c2 @ le16_bytes c3 @ le16_bytes c4 @ [DIR_ENT_LFN, 0, cks] @
      le16_bytes c5 @ le16_bytes c6 @ le16_bytes c7 @ le16_bytes c8 @ le16_bytes c9 @ le16_bytes ca @ [0, 0] @ le16_bytes cb @ le16_bytes cc"
    unfolding e_def long_ent_bytes_def long_chars_wide w by (simp add: Let_def zeros_def numeral_2_eq_2)
  show "length e = 32" "e ! 0 = sq" "e ! 11 = DIR_ENT_LFN" "e ! 13 = cks"
    unfolding e by (simp_all add: nth_append)
  have b: "c0 < 2 ^ 16" "c1 < 2 ^ 16" "c2 < 2 ^ 16" "c3 < 2 ^ 16" "c4 < 2 ^ 16" "c5 < 2 ^ 16" "c6 < 2 ^ 16" "c7 < 2 ^ 16"
    "c8 < 2 ^ 16" "c9 < 2 ^ 16" "ca < 2 ^ 16" "cb < 2 ^ 16" "cc < 2 ^ 16"
    using bnd unfolding w by simp_all
  note r = b [THEN le16_le16_bytes]
  show "long_decode e = long_wide cs"
    unfolding long_decode_def w e by (simp add: r r(13) [of "[]", simplified])
qed

text \<open>The pieces of a long name, put together again.\<close>

lemma pieces:
  "length nm \<le> 13 * count \<Longrightarrow>
    concat (map (\<lambda>k. long_wide (take 13 (drop (k * 13) nm))) [0..<count]) = map unat nm @ replicate (13 * count - length nm) 0xFFFF"
proof (induction count arbitrary: nm)
  case (Suc count)
  have shift: "[0..<Suc count] = 0 # map Suc [0..<count]" by (simp add: upt_conv_Cons map_Suc_upt)
  have "concat (map (\<lambda>k. long_wide (take 13 (drop (k * 13) nm))) [0..<Suc count]) =
      long_wide (take 13 nm) @ concat (map (\<lambda>k. long_wide (take 13 (drop (k * 13) (drop 13 nm)))) [0..<count])"
    unfolding shift by (simp add: comp_def add.commute)
  also have "\<dots> = long_wide (take 13 nm) @ map unat (drop 13 nm) @ replicate (13 * count - length (drop 13 nm)) 0xFFFF"
    using Suc.prems by (subst Suc.IH) simp_all
  also have "\<dots> = map unat nm @ replicate (13 * Suc count - length nm) 0xFFFF"
  proof (cases "13 \<le> length nm")
    case True
    then have "13 * count - (length nm - 13) = 13 * Suc count - length nm" by simp
    then show ?thesis using True by (simp add: long_wide_def flip: map_append)
  next
    case False
    then have "13 - length nm + 13 * count = 13 * Suc count - length nm" by simp
    then show ?thesis using False by (simp add: long_wide_def flip: replicate_add)
  qed
  finally show ?case .
qed simp

lemma last_flag: "c < 64 \<Longrightarrow> unat ((of_nat c :: byte) OR SEQ_NUMBER_LAST_FLAG) = c + 64"
proof -
  have "list_all (\<lambda>c. unat ((of_nat c :: byte) OR SEQ_NUMBER_LAST_FLAG) = c + 64) [0..<64]" by code_simp
  then show "c < 64 \<Longrightarrow> ?thesis" by (rule all_upt [OF _ le0])
qed

lemma read_long_bytes:
  assumes "length nm \<le> 818" "0 \<notin> set nm"
  shows "read_dir st (long_bytes nm s @ b) =
    read_dir (Some (0, short_name_checksum s, map unat nm @ 0 # replicate (13 * long_count nm - length nm - 1) 0xFFFF)) b"
proof -
  define count cks where "count = long_count nm" and "cks = short_name_checksum s"
  define P where "P = (\<lambda>k. long_wide (take 13 (drop (k * 13) (nm @ [0]))))"
  let ?L = "long_entry (nm @ [0]) cks count"
  have c: "0 < count" "count \<le> 63" "length (nm @ [0]) \<le> 13 * count"
    using div_up_less [of 13 0 "length nm + 1"] div_up_le [of 13 "length nm + 1" 63] div_up_ge [of 13 "length nm + 1"] assms(1)
    by (simp_all add: count_def long_count_def mult.commute)
  have len: "length (take 13 (drop k (nm @ [0]))) \<le> 13" for k by simp
  have E: "length (?L i) = 32" "?L i ! 11 = DIR_ENT_LFN" "?L i ! 13 = cks" "long_decode (?L i) = P (count - 1 - i)"
      "?L i ! 0 = of_nat (count - i) OR (if i = 0 then SEQ_NUMBER_LAST_FLAG else 0)" for i
    unfolding long_entry_def P_def by (rule long_ent_facts [OF len])+
  have sq0: "unat (?L 0 ! 0) = count + 64" using c last_flag [of count] by (simp add: E(5))
  have sqi: "unat (?L i ! 0) = count - i" if "0 < i" for i
    using that c unat_of_nat_byte [of "count - i"] by (simp add: E(5))
  have step: "read_dir (Some (count - i, cks, concat (map P [count - i..<count]))) (concat (map ?L [i..<count]) @ b) =
      read_dir (Some (0, cks, concat (map P [0..<count]))) b" if "0 < i" "i \<le> count" for i
    using that
  proof (induction "count - i" arbitrary: i)
    case (Suc k)
    then have i: "0 < i" "i < count" "k = count - Suc i" by simp_all
    have "count - i \<noteq> 0" using i(2) by simp
    then have nz: "?L i ! 0 \<noteq> 0" using sqi [OF i(1)] by (metis unsigned_0)
    have "long_step (Some (count - i, cks, concat (map P [count - i..<count]))) (?L i) =
        Some (count - i - 1, cks, P (count - 1 - i) @ concat (map P [count - i..<count]))"
      using i(1,2) c sqi [OF i(1)] E(3,4) [of i] by (simp add: long_step_def Let_def)
    also have "P (count - 1 - i) @ concat (map P [count - i..<count]) = concat (map P [count - Suc i..<count])"
      using i(1,2) by (simp add: upt_conv_Cons [of "count - Suc i"] Suc_diff_Suc)
    finally have st: "long_step (Some (count - i, cks, concat (map P [count - i..<count]))) (?L i) =
        Some (count - Suc i, cks, concat (map P [count - Suc i..<count]))" by simp
    have "concat (map ?L [i..<count]) = ?L i @ concat (map ?L [Suc i..<count])" using i(2) by (simp add: upt_conv_Cons)
    then show ?case
      using Suc.hyps(1) [OF i(3)] i read_dir_long [OF E(1) nz E(2)] by (simp only: append_assoc st)
  qed simp
  have nz: "?L 0 ! 0 \<noteq> 0" using sq0 by (metis add_is_0 unsigned_0 zero_neq_numeral)
  have "[count - 1..<count] = [count - 1]" using c(1) upt_conv_Cons [of "count - 1" count] by simp
  then have "long_step st (?L 0) = Some (count - 1, cks, concat (map P [count - 1..<count]))"
    using sq0 c E(3,4) [of 0] by (simp add: long_step_def Let_def)
  moreover have "long_bytes nm s = ?L 0 @ concat (map ?L [1..<count])"
    unfolding long_bytes_def count_def [symmetric] cks_def [symmetric] using c by (simp add: upt_conv_Cons)
  ultimately have "read_dir st (long_bytes nm s @ b) = read_dir (Some (0, cks, concat (map P [0..<count]))) b"
    using step [of 1] c read_dir_long [OF E(1) nz E(2)] by simp
  then show ?thesis unfolding P_def pieces [OF c(3)] by (simp add: count_def cks_def)
qed

section \<open>Short names of a directory\<close>

lemma shortname_loop_ok:
  "shortname_loop l nm gen = Some (conv, s) \<Longrightarrow>
    \<not> is_in_short_name_list l s \<and> (\<exists>g. fatfs_mk_shortname nm g = (conv, s) \<and> conv \<noteq> FAT_SHORTNAME_ERROR)"
proof (induction l nm gen rule: shortname_loop.induct)
  case (1 l nm gen)
  obtain c s' where m: "fatfs_mk_shortname nm gen = (c, s')" by fastforce
  show ?case
  proof (cases "is_in_short_name_list l s'")
    case True
    then have "c \<noteq> FAT_SHORTNAME_ERROR" "shortname_loop l nm (gen + 1) = Some (conv, s)"
      using 1(2) m by (subst (asm) shortname_loop.simps; auto split: if_splits)+
    with 1(1) [OF m [symmetric]] True m show ?thesis by simp
  next
    case False
    then have "c \<noteq> FAT_SHORTNAME_ERROR" "c = conv" "s' = s"
      using 1(2) m by (subst (asm) shortname_loop.simps; auto split: if_splits)+
    then show ?thesis using False m by blast
  qed
qed

lemma add_to_free_node_set:
  "add_to_free_node l nm = Some l' \<Longrightarrow> set (concat l') = insert nm (set (concat l))"
proof (induction l arbitrary: l')
  case (Cons a l)
  show ?case
  proof (cases "length a < 10")
    case False
    then obtain z where z: "add_to_free_node l nm = Some z" "l' = a # z" using Cons.prems by auto
    then show ?thesis using Cons.IH [OF z(1)] by simp
  qed (use Cons.prems in auto)
qed simp

text \<open>The list of nodes with ten names each is a set of names.\<close>

lemma short_list_set:
  "is_in_short_name_list l nm \<longleftrightarrow> nm \<in> set (concat l)"
  "add_to_short_name_list mem l nm = Some l' \<Longrightarrow> set (concat l') = insert nm (set (concat l))"
  by (auto simp: is_in_short_name_list_def list_ex_iff add_to_short_name_list_def
      dest!: add_to_free_node_set split: option.splits if_splits)

lemma short_names_ok:
  assumes "short_names mem l nms = Some ns"
  shows "distinct (map snd ns) \<and> set (map snd ns) \<inter> set (concat l) = {} \<and> length ns = length nms \<and>
    (\<forall>(nm, conv, s) \<in> set (zip nms ns). \<exists>g. fatfs_mk_shortname nm g = (conv, s) \<and> conv \<noteq> FAT_SHORTNAME_ERROR)"
  using assms
proof (induction nms arbitrary: l ns)
  case (Cons nm nms)
  then obtain conv s l' r where r: "shortname_loop l nm 1 = Some (conv, s)" "add_to_short_name_list mem l s = Some l'"
      "short_names mem l' nms = Some r" "ns = (conv, s) # r"
    by (auto split: if_splits option.splits)
  show ?case
    using Cons.IH [OF r(3)] shortname_loop_ok [OF r(1)] short_list_set(2) [OF r(2)] unfolding r(4) short_list_set(1) by auto
qed simp

text \<open>A name that FAT can keep: it has at most the 818 characters for which there are long entries, does not end with a blank or a
  full stop, and no byte of it is zero.\<close>

definition fat_name :: "byte list \<Rightarrow> bool" where
  "fat_name nm \<longleftrightarrow> nm \<noteq> [] \<and> length nm \<le> 818 \<and> 0 \<notin> set nm \<and> last nm \<noteq> blank \<and> last nm \<noteq> full_stop"

text \<open>What a reader finds for a node.\<close>

definition node_entry :: "'v fatfs \<Rightarrow> tree_node \<Rightarrow> dir_entry" where
  "node_entry fs n =
     (case short_entry_data fs n of Some (flags, location, sz) \<Rightarrow>
        (map unat (ascii (n_name n)), flags, location, sz, unat (fatfs_convert_timestamp (s64 (n_mtime n)))))"

lemma short_entry_bounds:
  "short_entry_data fs n = Some (flags, location, sz) \<Longrightarrow> flags \<noteq> DIR_ENT_LFN \<and> location < 2 ^ 32 \<and> sz < 2 ^ 32"
  by (auto simp: short_entry_data_def get_cluster_index_def u32_def DIR_ENT_DIRECTORY_def DIR_ENT_LFN_def split: node_type.splits)

lemma read_child:
  assumes "fatfs_mk_shortname (ascii (n_name n)) g = (conv, s)" "conv \<noteq> FAT_SHORTNAME_ERROR" "fat_name (ascii (n_name n))"
    "child_bytes fs n (conv, s) = Some b"
  shows "read_dir None (b @ rest) = node_entry fs n # read_dir None rest"
proof -
  let ?nm = "ascii (n_name n)"
  have nm: "?nm \<noteq> []" "length ?nm \<le> 818" "0 \<notin> set ?nm" "last ?nm \<noteq> blank" "last ?nm \<noteq> full_stop"
    using assms(3) by (simp_all add: fat_name_def)
  have s: "length s = 11" "s ! 0 \<noteq> 0"
  proof -
    note f = mk_shortname_form [OF nm(1) assms(1,2)]
    then show "length s = 11" by blast
    have "short_char (s ! 0)" using f by (auto simp: short_name_form_def nth_append list_all_iff)
    then show "s ! 0 \<noteq> 0" by (auto simp: short_char_legal is_illegal_char_def)
  qed
  obtain flags location sz where d: "short_entry_data fs n = Some (flags, location, sz)"
    using assms(4) by (auto simp: child_bytes_def short_bytes_def)
  let ?e = "dir_ent_bytes s flags location (fatfs_convert_timestamp (s64 (n_ctime n))) (fatfs_convert_timestamp (s64 (n_mtime n))) sz"
  have bd: "flags \<noteq> DIR_ENT_LFN" "location < 2 ^ 32" "sz < 2 ^ 32" using short_entry_bounds [OF d] by simp_all
  note e = dir_ent_facts [OF s(1) bd(2,3)]
  have rd: "read_dir st (?e @ rest) = short_decode (entry_name st ?e) ?e # read_dir None rest" for st
    using s(2) bd(1) by (intro read_dir_short) (simp_all add: e)
  have ent: "node_entry fs n = short_decode (map unat ?nm) ?e" by (simp add: node_entry_def d e(5))
  show ?thesis
  proof (cases "conv = FAT_SHORTNAME_OK \<or> conv = FAT_SHORTNAME_SUFFIXED")
    case True
    then have b: "b = long_bytes ?nm s @ ?e" using assms(4) d by (simp add: child_bytes_def short_bytes_def)
    have "takeWhile (\<lambda>c. c \<noteq> 0) (map unat ?nm @ 0 # xs) = map unat ?nm" for xs
      using nm(3) by (subst takeWhile_append2) (auto simp: unat_gt_0)
    then have "entry_name (Some (0, short_name_checksum s, map unat ?nm @ 0 # xs)) ?e = map unat ?nm" for xs
      by (simp add: entry_name_def e(4) alias_checksum_name [OF s(1)])
    then show ?thesis unfolding b append_assoc read_long_bytes [OF nm(2,3)] rd ent by simp
  next
    case False
    then have same: "conv = FAT_SHORTNAME_SAME" using assms(2) by (cases conv) auto
    then have b: "b = ?e" using assms(4) d by (simp add: child_bytes_def short_bytes_def)
    have "entry_name None ?e = map unat ?nm"
      using mk_shortname_same [OF nm(1,4,5)] assms(1) by (simp add: entry_name_def e(4) same)
    then show ?thesis unfolding b rd ent by simp
  qed
qed

lemma read_children:
  assumes "\<forall>(nm, conv, s) \<in> set (zip (map (\<lambda>c. ascii (n_name (nodes (fat_tree fs) c))) ms) ns).
      \<exists>g. fatfs_mk_shortname nm g = (conv, s) \<and> conv \<noteq> FAT_SHORTNAME_ERROR"
    "map2 (\<lambda>c. child_bytes fs (nodes (fat_tree fs) c)) ms ns = map Some bs" "length ns = length ms"
    "\<forall>c \<in> set ms. fat_name (ascii (n_name (nodes (fat_tree fs) c)))"
  shows "read_dir None (concat bs) = map (\<lambda>c. node_entry fs (nodes (fat_tree fs) c)) ms"
  using assms
proof (induction ms arbitrary: ns bs)
  case (Cons c ms)
  obtain conv s ns' where ns: "ns = (conv, s) # ns'" using Cons.prems(3) by (cases ns) auto
  obtain b bs' where bs: "bs = b # bs'" using Cons.prems(2) ns by (cases bs) auto
  have "read_dir None (concat bs') = map (\<lambda>c. node_entry fs (nodes (fat_tree fs) c)) ms"
    by (rule Cons.IH [of ns']) (use Cons.prems in \<open>auto simp: ns bs\<close>)
  moreover obtain g where "fatfs_mk_shortname (ascii (n_name (nodes (fat_tree fs) c))) g = (conv, s)" "conv \<noteq> FAT_SHORTNAME_ERROR"
    using Cons.prems(1) by (auto simp: ns)
  moreover have "fat_name (ascii (n_name (nodes (fat_tree fs) c)))" "child_bytes fs (nodes (fat_tree fs) c) (conv, s) = Some b"
    using Cons.prems(2,4) by (simp_all add: ns bs)
  ultimately show ?case using read_child [of "nodes (fat_tree fs) c" g conv s fs b "concat bs'"] by (simp add: bs)
qed (simp add: read_dir_Nil)

section \<open>Size and contents of a directory\<close>

definition dot_entries :: "'v fatfs \<Rightarrow> nat \<Rightarrow> dir_entry list" where
  "dot_entries fs d =
     (case n_parent (nodes (fat_tree fs) d) of
        None \<Rightarrow> []
      | Some p \<Rightarrow>
          [([0x2E], DIR_ENT_DIRECTORY, get_cluster_index fs (dir_start (nodes (fat_tree fs) d)), 0, 0),
           ([0x2E, 0x2E], DIR_ENT_DIRECTORY,
            if n_parent (nodes (fat_tree fs) p) = None then 0 else get_cluster_index fs (dir_start (nodes (fat_tree fs) p)), 0, 0)])"

text \<open>Two states of the file system between which only positions and sizes have changed.\<close>

definition same_names :: "'v fatfs \<Rightarrow> 'v fatfs \<Rightarrow> bool" where
  "same_names fs fs' \<longleftrightarrow> (\<forall>m. let n = nodes (fat_tree fs) m; n' = nodes (fat_tree fs') m in
     n_name n' = n_name n \<and> n_type n' = n_type n \<and> n_parent n' = n_parent n \<and> children n' = children n)"

lemma get_cluster_index_bound: "get_cluster_index fs x < 2 ^ 32"
  by (simp add: get_cluster_index_def u32_def)

lemma read_dots: "read_dir None (dot_bytes fs (nodes (fat_tree fs) d) @ b) = dot_entries fs d @ read_dir None b"
proof (cases "n_parent (nodes (fat_tree fs) d)")
  case (Some p)
  let ?d = "full_stop # replicate 10 blank" and ?dd = "full_stop # full_stop # replicate 9 blank"
  have disp: "short_display ?d = [full_stop]" "short_display ?dd = [full_stop, full_stop]"
    by code_simp+
  have rd: "read_dir None (dir_ent_bytes s DIR_ENT_DIRECTORY location 0 0 0 @ r) =
      (map unat (short_display s), DIR_ENT_DIRECTORY, location, 0, 0) # read_dir None r"
    if "length s = 11" "s ! 0 = full_stop" "location < 2 ^ 32" for s location r
    using that dir_ent_facts [OF that(1,3), of 0]
    by (subst read_dir_short) (simp_all add: DIR_ENT_DIRECTORY_def DIR_ENT_LFN_def entry_name_def)
  show ?thesis
    using get_cluster_index_bound [of fs] by (simp add: dot_bytes_def dot_entries_def Some Let_def rd disp)
qed (simp add: dot_bytes_def dot_entries_def)

lemma length_dot_bytes: "length (dot_bytes fs n) = (if n_parent n = None then 0 else 64)"
  by (simp add: dot_bytes_def dir_ent_bytes_def split: option.splits)

lemma length_long_bytes: "length (long_bytes nm s) = 32 * long_count nm"
proof -
  have "length (long_entry m c k i) = 32" for m c k i
    unfolding long_entry_def by (rule long_ent_facts(1)) simp
  then show ?thesis by (simp add: long_bytes_def length_concat comp_def sum_list_triv)
qed

definition child_size :: "tree_node \<Rightarrow> FAT_SHORTNAME \<Rightarrow> nat" where
  "child_size n conv =
     (if conv = FAT_SHORTNAME_OK \<or> conv = FAT_SHORTNAME_SUFFIXED then 32 * long_count (ascii (n_name n)) else 0) + 32"

lemma child_bytes_iff:
  assumes "length s = 11"
  shows "(\<exists>b. child_bytes fs n (conv, s) = Some b) \<longleftrightarrow> n_type n = TREE_NODE_DIR \<or> n_type n = TREE_NODE_FILE"
    "child_bytes fs n (conv, s) = Some b \<Longrightarrow> length b = child_size n conv"
proof -
  show "(\<exists>b. child_bytes fs n (conv, s) = Some b) \<longleftrightarrow> n_type n = TREE_NODE_DIR \<or> n_type n = TREE_NODE_FILE"
    by (auto simp: child_bytes_def short_bytes_def short_entry_data_def split: node_type.splits)
  assume "child_bytes fs n (conv, s) = Some b"
  then show "length b = child_size n conv"
    using dir_ent_facts(1) [OF assms] short_entry_bounds [of fs n]
    by (auto simp: child_bytes_def short_bytes_def child_size_def length_long_bytes split: if_splits)
qed

lemma long_count_bound: "length nm \<le> 818 \<Longrightarrow> long_count nm \<le> 63"
  unfolding long_count_def by (rule div_up_le) simp_all

text \<open>The bytes of the children after positions have changed: they are defined and as many as before.\<close>

lemma children_resized:
  assumes "same_names fs fs'" "length ns = length ms" "\<forall>(conv, s) \<in> set ns. length s = 11"
    "map2 (\<lambda>c. child_bytes fs (nodes (fat_tree fs) c)) ms ns = map Some bs"
  shows "\<exists>bs'. map2 (\<lambda>c. child_bytes fs' (nodes (fat_tree fs') c)) ms ns = map Some bs' \<and> map length bs' = map length bs"
  using assms(2-)
proof (induction ms arbitrary: ns bs)
  case (Cons c ms)
  obtain conv s ns' where ns: "ns = (conv, s) # ns'" "length s = 11" using Cons.prems(1,2) by (cases ns) auto
  obtain b bs1 where bs: "bs = b # bs1" "child_bytes fs (nodes (fat_tree fs) c) (conv, s) = Some b" using Cons.prems(3) ns by (cases bs) auto
  have same: "n_type (nodes (fat_tree fs') c) = n_type (nodes (fat_tree fs) c)" "n_name (nodes (fat_tree fs') c) = n_name (nodes (fat_tree fs) c)"
    using assms(1) by (simp_all add: same_names_def Let_def)
  obtain b' where b': "child_bytes fs' (nodes (fat_tree fs') c) (conv, s) = Some b'"
    using child_bytes_iff(1) [OF ns(2)] bs(2) same(1) by metis
  have "length b' = length b"
    unfolding child_bytes_iff(2) [OF ns(2) b'] child_bytes_iff(2) [OF ns(2) bs(2)] by (simp add: child_size_def same(2))
  moreover obtain bs' where "map2 (\<lambda>c. child_bytes fs' (nodes (fat_tree fs') c)) ms ns' = map Some bs'" "map length bs' = map length bs1"
    using Cons.IH [of ns' bs1] Cons.prems by (auto simp: ns bs)
  ultimately have "map2 (\<lambda>c. child_bytes fs' (nodes (fat_tree fs') c)) (c # ms) ns = map Some (b' # bs') \<and> map length (b' # bs') = map length bs"
    using b' by (simp add: ns bs)
  then show ?case by blast
qed simp

lemma children_size:
  assumes "length ns = length ms" "\<forall>(conv, s) \<in> set ns. length s = 11" "\<forall>c \<in> set ms. fat_name (ascii (n_name (nodes (fat_tree fs) c)))"
    "map2 (\<lambda>c. child_bytes fs (nodes (fat_tree fs) c)) ms ns = map Some bs"
  shows "length (concat bs) \<le> 2048 * length ms"
  using assms
proof (induction ms arbitrary: ns bs)
  case (Cons c ms)
  obtain conv s ns' where ns: "ns = (conv, s) # ns'" "length s = 11" using Cons.prems(1,2) by (cases ns) auto
  obtain b bs' where bs: "bs = b # bs'" "child_bytes fs (nodes (fat_tree fs) c) (conv, s) = Some b" using Cons.prems(4) ns by (cases bs) auto
  have "length b \<le> 2048"
    using child_bytes_iff(2) [OF ns(2) bs(2)] long_count_bound [of "ascii (n_name (nodes (fat_tree fs) c))"] Cons.prems(3)
    by (simp add: child_size_def fat_name_def)
  moreover have "length (concat bs') \<le> 2048 * length ms" using Cons.IH [of ns' bs'] Cons.prems by (auto simp: ns bs)
  ultimately show ?case by (simp add: bs)
qed simp

text \<open>All bytes of a directory, for any stream with room for them.\<close>

context ostream_sink
begin

lemma serialize_directory_ok:
  assumes "short_names mem [] (map (\<lambda>c. ascii (n_name (nodes (fat_tree fs) c))) (children (nodes (fat_tree fs) d))) = Some ns"
    "map2 (\<lambda>c. child_bytes fs (nodes (fat_tree fs) c)) (children (nodes (fat_tree fs) d)) ns = map Some bs"
    "room s (length (dot_bytes fs (nodes (fat_tree fs) d) @ concat bs) + m)"
  shows "\<exists>s'. fatfs_serialize_directory mem fs d strm s = (Some (), s') \<and>
    view s' = upd (view s) (dot_bytes fs (nodes (fat_tree fs) d) @ concat bs) \<and> room s' m"
proof -
  have "room s (length (dot_bytes fs (nodes (fat_tree fs) d)) + (length (concat bs) + m))" using assms(3) by (simp add: add.assoc)
  from init_directory_ok [OF this] obtain s1 where s1: "init_directory fs (nodes (fat_tree fs) d) strm s = (Some (), s1)"
    "view s1 = upd (view s) (dot_bytes fs (nodes (fat_tree fs) d))" "room s1 (length (concat bs) + m)" by blast
  from serialize_children_ok [OF assms(1,2) s1(3)] s1(1,2) show ?thesis by (auto simp: fatfs_serialize_directory_def upd_append)
qed

end

lemma directory_bytes:
  assumes "fatfs_serialize_directory mem fs d null_ostream 0 = (Some (), sz)"
    "\<forall>c \<in> set (children (nodes (fat_tree fs) d)). fat_name (ascii (n_name (nodes (fat_tree fs) c)))"
    "length (children (nodes (fat_tree fs) d)) < 2 ^ 32"
  obtains ns bs where "short_names mem [] (map (\<lambda>c. ascii (n_name (nodes (fat_tree fs) c))) (children (nodes (fat_tree fs) d))) = Some ns"
    "map2 (\<lambda>c. child_bytes fs (nodes (fat_tree fs) c)) (children (nodes (fat_tree fs) d)) ns = map Some bs"
    "length ns = length (children (nodes (fat_tree fs) d))" "\<forall>(conv, s) \<in> set ns. length s = 11"
    "sz = length (dot_bytes fs (nodes (fat_tree fs) d)) + length (concat bs)"
proof -
  let ?ms = "children (nodes (fat_tree fs) d)" and ?nm = "\<lambda>c. ascii (n_name (nodes (fat_tree fs) c))"
  obtain s1 where "serialize_children mem fs null_ostream s1 [] ?ms = (Some (), sz)"
    using assms(1) by (auto simp: fatfs_serialize_directory_def split: prod.splits option.splits)
  from serialize_children_bytes [OF this] obtain ns bs where n: "short_names mem [] (map ?nm ?ms) = Some ns"
    "map2 (\<lambda>c. child_bytes fs (nodes (fat_tree fs) c)) ?ms ns = map Some bs" by blast
  note ok = short_names_ok [OF n(1)]
  have len: "length ns = length ?ms" using ok by simp
  have l11: "\<forall>(conv, s) \<in> set ns. length s = 11"
  proof (clarify)
    fix conv s assume "(conv, s) \<in> set ns"
    then obtain i where i: "i < length ns" "ns ! i = (conv, s)" by (auto simp: in_set_conv_nth)
    then have "(?nm (?ms ! i), conv, s) \<in> set (zip (map ?nm ?ms) ns)" using len by (force simp: in_set_zip)
    then obtain g where "fatfs_mk_shortname (?nm (?ms ! i)) g = (conv, s)" "conv \<noteq> FAT_SHORTNAME_ERROR" using ok by blast
    moreover have "?nm (?ms ! i) \<noteq> []" using assms(2) i(1) len by (simp add: fat_name_def)
    ultimately show "length s = 11" using mk_shortname_form by blast
  qed
  have "length (concat bs) \<le> 2048 * length ?ms" by (rule children_size [OF len l11 assms(2) n(2)])
  then have "null_room 0 (length (dot_bytes fs (nodes (fat_tree fs) d) @ concat bs) + 0)"
    using assms(3) by (simp add: null_room_def length_dot_bytes)
  from null_out.serialize_directory_ok [OF n this] assms(1)
  have "sz = length (dot_bytes fs (nodes (fat_tree fs) d)) + length (concat bs)" by auto
  then show ?thesis using that n len l11 by blast
qed

text \<open>C27: the null stream measures a directory, positions are then given to the directories and files, and the directory is written
  to its place on the volume. The second pass fits exactly into the size that the first one measured, changes no other byte, and
  a reader of the on-disk format finds the entries for the directory itself and its parent and, for every child in order,
  its full name, type, first cluster, size and modification time. This holds for names that FAT can keep, with no more than
  \<open>2 ^ 32\<close> of them.\<close>

theorem fat_directory_roundtrip:
  assumes "fatfs_serialize_directory mem fs d null_ostream 0 = (Some (), sz)" "same_names fs fs'"
    "\<forall>c \<in> set (children (nodes (fat_tree fs) d)). fat_name (ascii (n_name (nodes (fat_tree fs) c)))"
    "length (children (nodes (fat_tree fs) d)) < 2 ^ 32"
    "fv_inv env bs v" "off + sz \<le> max_block_count v * bs"
  shows "\<exists>s. fatfs_serialize_directory mem fs' d (vol_ostream_ops (file_volume_ops env bs)) (volume_ostream_create v off sz) = (Some (), s) \<and>
    read_dir None (peek (fbyte (fd (wrapped s))) off sz) =
      dot_entries fs' d @ map (\<lambda>c. node_entry fs' (nodes (fat_tree fs') c)) (children (nodes (fat_tree fs') d)) \<and>
    (\<forall>p. p < off \<or> off + sz \<le> p \<longrightarrow> fbyte (fd (wrapped s)) p = fbyte (fd v) p)"
proof -
  let ?ms = "children (nodes (fat_tree fs) d)"
  obtain ns cs where n: "short_names mem [] (map (\<lambda>c. ascii (n_name (nodes (fat_tree fs) c))) ?ms) = Some ns"
      "map2 (\<lambda>c. child_bytes fs (nodes (fat_tree fs) c)) ?ms ns = map Some cs" "length ns = length ?ms"
      "\<forall>(conv, s) \<in> set ns. length s = 11" "sz = length (dot_bytes fs (nodes (fat_tree fs) d)) + length (concat cs)"
    using directory_bytes [OF assms(1,3,4)] by blast
  obtain cs' where cs': "map2 (\<lambda>c. child_bytes fs' (nodes (fat_tree fs') c)) ?ms ns = map Some cs'" "map length cs' = map length cs"
    using children_resized [OF assms(2) n(3,4,2)] by blast
  have same: "children (nodes (fat_tree fs') d) = ?ms" "n_name (nodes (fat_tree fs') c) = n_name (nodes (fat_tree fs) c)"
      "n_parent (nodes (fat_tree fs') d) = n_parent (nodes (fat_tree fs) d)" for c
    using assms(2) by (simp_all add: same_names_def Let_def)
  let ?b = "dot_bytes fs' (nodes (fat_tree fs') d) @ concat cs'"
  have sz: "length ?b = sz" using cs'(2) by (simp add: n(5) length_dot_bytes same length_concat)
  have blk: "blocksize (file_volume_ops env bs) = bs" by (simp add: file_volume_ops_def)
  have "fv.vs_room env bs (volume_ostream_create v off sz) (length ?b + 0)"
    unfolding fv.vs_room_def blk sz using assms(5,6) by (simp add: volume_ostream_create_def fv_view_def)
  from fv.vs.serialize_directory_ok [of mem fs' d ns cs', unfolded same, OF n(1) cs'(1) this] obtain s where
    s: "fatfs_serialize_directory mem fs' d (vol_ostream_ops (file_volume_ops env bs)) (volume_ostream_create v off sz) = (Some (), s)"
      "fv.vs_view bs s = put_at (fv.vs_view bs (volume_ostream_create v off sz)) ?b" by blast
  then have f: "fbyte (fd (wrapped s)) = poke (fbyte (fd v)) off ?b"
    by (simp add: fv.vs_view_def put_at_def volume_ostream_create_def fv_view_def)
  have "read_dir None (concat cs') = map (\<lambda>c. node_entry fs' (nodes (fat_tree fs') c)) ?ms"
    using short_names_ok [OF n(1)] assms(3) by (intro read_children [OF _ cs'(1) n(3)]) (simp_all add: same)
  then have "read_dir None (peek (fbyte (fd (wrapped s))) off sz) = dot_entries fs' d @ map (\<lambda>c. node_entry fs' (nodes (fat_tree fs') c)) ?ms"
    unfolding f sz [symmetric] peek_poke_same read_dots by simp
  moreover have "fbyte (fd (wrapped s)) p = fbyte (fd v) p" if "p < off \<or> off + sz \<le> p" for p
    unfolding f using that sz by (intro poke_out) simp
  ultimately show ?thesis using s(1) unfolding same by blast
qed

text \<open>An example: the directory \<open>d\<close> with the file \<open>a\<close>, on a small volume.\<close>

definition fat_file :: tree_node where
  "fat_file = blank_node\<lparr>n_name := ''a'', n_type := TREE_NODE_FILE, n_parent := Some 1, n_mtime := 1000000000,
     n_file := \<lparr>f_size = 700, start_index = 2, sparse = []\<rparr>\<rparr>"

definition fat_dir :: "nat \<Rightarrow> tree_node" where
  "fat_dir start = blank_node\<lparr>n_name := ''d'', n_parent := Some 0, children := [2], dir_start := start\<rparr>"

definition fat_demo :: "nat \<Rightarrow> file_volume fatfs" where
  "fat_demo start =
     \<lparr>fat_tree = demo_tree\<lparr>nodes := (\<lambda>m. if m = 2 then fat_file else if m = 1 then fat_dir start else blank_node)\<rparr>, secs_per_cluster = 8,
      secs_per_fat = 0, fatsize = 0, fs_oem = [], fs_label = []\<rparr>"

definition fat_volume :: file_volume where
  "fat_volume =
     \<lparr>fd = \<lparr>fbytes = [], sched = [Intr, Short 10]\<rparr>, bitmap = \<lparr>words = [0, 0]\<rparr>, bytes_used = 0, min_block_count = 0, max_block_count = 4\<rparr>"

lemma fat_volume_inv: "fv_inv demo_env 512 fat_volume"
  by (simp add: fv_inv_def demo_env_def fat_volume_def benign_def bitmap_wf_def fbyte_def empty_bitmap)

lemma fat_demo_nodes:
  "nodes (fat_tree (fat_demo start)) (Suc 0) = fat_dir start" "nodes (fat_tree (fat_demo start)) 2 = fat_file"
  "nodes (fat_tree (fat_demo start)) 0 = blank_node" "children (fat_dir start) = [2]" "n_parent (fat_dir start) = Some 0"
  "n_parent blank_node = None" "ascii (n_name fat_file) = [0x61]" "n_type fat_file = TREE_NODE_FILE" "dir_start (fat_dir start) = start"
  by (simp_all add: fat_demo_def fat_file_def fat_dir_def ascii_def blank_node_def)

lemma fat_demo_short:
  "shortname_loop [] [0x61] 1 = Some (FAT_SHORTNAME_OK, 0x41 # replicate 10 blank)"
proof -
  have "fat_convert FAT_SHORTNAME_SAME [0x61] 8 = (FAT_SHORTNAME_OK, 0x41 # replicate 7 blank)" by code_simp
  then have "fatfs_mk_shortname [0x61] 1 = (FAT_SHORTNAME_OK, 0x41 # replicate 10 blank)"
    by (simp add: fatfs_mk_shortname_def flip: replicate_add)
  then show ?thesis by (subst shortname_loop.simps) (simp add: is_in_short_name_list_def)
qed

lemma fat_demo_size: "fatfs_serialize_directory True (fat_demo start) 1 null_ostream 0 = (Some (), 128)"
proof -
  let ?c = "(FAT_SHORTNAME_OK, 0x41 # replicate 10 blank)"
  have n: "short_names True [] (map (\<lambda>c. ascii (n_name (nodes (fat_tree (fat_demo start)) c))) (children (nodes (fat_tree (fat_demo start)) 1))) = Some [?c]"
    using fat_demo_short by (simp add: fat_demo_nodes is_non_ascii_def add_to_short_name_list_def)
  have l: "length (0x41 # replicate 10 blank) = 11" by simp
  obtain b where b: "child_bytes (fat_demo start) fat_file ?c = Some b"
    using child_bytes_iff(1) [OF l, of "fat_demo start" fat_file FAT_SHORTNAME_OK] fat_demo_nodes(8) by auto
  then have bl: "length b = 64"
    using child_bytes_iff(2) [OF l b] by (simp add: child_size_def fat_demo_nodes long_count_def div_up_def)
  then have "null_room 0 (length (dot_bytes (fat_demo start) (nodes (fat_tree (fat_demo start)) 1) @ concat [b]) + 0)"
    by (simp add: null_room_def length_dot_bytes fat_demo_nodes)
  from null_out.serialize_directory_ok [OF n _ this] b bl show ?thesis by (simp add: fat_demo_nodes length_dot_bytes)
qed

theorem fat_directory_roundtrip_witness:
  "\<exists>s. fatfs_serialize_directory True (fat_demo 4096) 1 (vol_ostream_ops (file_volume_ops demo_env 512)) (volume_ostream_create fat_volume 1024 128) = (Some (), s) \<and>
    read_dir None (peek (fbyte (fd (wrapped s))) 1024 128) =
      [([0x2E], 0x10, 3, 0, 0), ([0x2E, 0x2E], 0x10, 0, 0, 0), ([0x61], 0, 4, 700, unat (fatfs_convert_timestamp 1000000000))] \<and>
    (\<forall>p. p < 1024 \<or> 1152 \<le> p \<longrightarrow> fbyte (fd (wrapped s)) p = fbyte (fd fat_volume) p)"
proof -
  have same: "same_names (fat_demo 0) (fat_demo 4096)" by (simp add: same_names_def fat_demo_def fat_dir_def Let_def)
  have names: "\<forall>c \<in> set (children (nodes (fat_tree (fat_demo 0)) 1)). fat_name (ascii (n_name (nodes (fat_tree (fat_demo 0)) c)))"
    by (simp add: fat_demo_nodes fat_name_def)
  have len: "length (children (nodes (fat_tree (fat_demo 0)) 1)) < 2 ^ 32" by (simp add: fat_demo_nodes)
  have fit: "1024 + 128 \<le> max_block_count fat_volume * 512" by (simp add: fat_volume_def)
  have ent: "dot_entries (fat_demo 4096) 1 @ map (\<lambda>c. node_entry (fat_demo 4096) (nodes (fat_tree (fat_demo 4096)) c)) (children (nodes (fat_tree (fat_demo 4096)) 1)) =
      [([0x2E], 0x10, 3, 0, 0), ([0x2E, 0x2E], 0x10, 0, 0, 0), ([0x61], 0, 4, 700, unat (fatfs_convert_timestamp 1000000000))]"
    by (simp add: dot_entries_def fat_demo_nodes node_entry_def short_entry_data_def get_cluster_index_def u32_def DIR_ENT_DIRECTORY_def
        FAT_SECTOR_SIZE_def CLUSTER_OFFSET_def)
      (simp add: fat_demo_def fat_file_def s64_def)
  from fat_directory_roundtrip [OF fat_demo_size same names len fat_volume_inv fit] show ?thesis unfolding ent by simp
qed

end
