(* ===== verification/Fat.thy ===== *)
theory Fat
  imports FatRead TreeOrder
begin

text \<open>
  \<open>lib/filesystem/fatfs/fat.c\<close>: both copies of the file allocation table are written through a window that slides
  over the table while the cluster chains are added in the order of their position.
\<close>

section \<open>Definitions\<close>

definition FAT_WINDOW_SIZE :: nat where "FAT_WINDOW_SIZE = 4096"

definition dir_compare_location :: "'v fstree \<Rightarrow> nat \<Rightarrow> nat \<Rightarrow> int" where
  "dir_compare_location fs lhs rhs =
     (if dir_start (nodes fs lhs) < dir_start (nodes fs rhs) then -1
      else if dir_start (nodes fs lhs) > dir_start (nodes fs rhs) then 1 else 0)"

definition file_compare_location :: "'v fstree \<Rightarrow> nat \<Rightarrow> nat \<Rightarrow> int" where
  "file_compare_location fs lhs rhs =
     (if start_index (file_of fs lhs) < start_index (file_of fs rhs) then -1
      else if start_index (file_of fs lhs) > start_index (file_of fs rhs) then 1 else 0)"

text \<open>The result of sliding is the window, its offset in the table and the next position in the window. When the position
  lies behind the window even then, the size of \<open>memset\<close> wraps around and the program runs over its memory: there
  is no result in that case.\<close>

definition slide_window :: "'v volume \<Rightarrow> nat \<Rightarrow> 'v \<Rightarrow> byte list \<Rightarrow> nat \<Rightarrow> nat \<Rightarrow> (byte list \<times> nat \<times> nat, 'v) io" where
  "slide_window vol fsize v window window_offset next_wr_offset =
     (if fsize \<le> FAT_WINDOW_SIZE then (Some (window, window_offset, next_wr_offset), v)
      else if next_wr_offset \<le> FAT_WINDOW_SIZE div 2 then (Some (window, window_offset, next_wr_offset), v)
      else let offset = FAT32_FAT_START + window_offset;
               diff = FAT_WINDOW_SIZE div 2
           in case volume_write vol v offset (Some (take diff window)) diff of
                (None, v) \<Rightarrow> (None, v)
              | (Some _, v) \<Rightarrow>
                  (case volume_write vol v (offset + fsize) (Some (take diff window)) diff of
                     (None, v) \<Rightarrow> (None, v)
                   | (Some _, v) \<Rightarrow>
                       let next_wr_offset = next_wr_offset - diff;
                           window = take next_wr_offset (drop diff window) @ drop next_wr_offset window
                       in if next_wr_offset > FAT_WINDOW_SIZE then (None, v)
                          else (Some (take next_wr_offset window @ zeros (FAT_WINDOW_SIZE - next_wr_offset) @ drop FAT_WINDOW_SIZE window,
                                      window_offset + diff, next_wr_offset), v)))"

definition flush_window :: "'v volume \<Rightarrow> nat \<Rightarrow> 'v \<Rightarrow> byte list \<Rightarrow> nat \<Rightarrow> (unit, 'v) io" where
  "flush_window vol fsize v window window_offset =
     (let offset = FAT32_FAT_START + window_offset;
          sz = sub64 fsize window_offset;
          sz = (if sz > FAT_WINDOW_SIZE then FAT_WINDOW_SIZE else sz)
      in case volume_write vol v offset (Some (take sz window)) sz of
           (None, v) \<Rightarrow> (None, v)
         | (Some _, v) \<Rightarrow> volume_write vol v (offset + fsize) (Some (take sz window)) sz)"

text \<open>The loop of \<open>write_cluster_chain_32\<close> from \<open>i\<close> on. A position outside of the buffer is a write to foreign
  memory and has no result.\<close>

function chain_loop ::
  "'v volume \<Rightarrow> nat \<Rightarrow> 'v \<Rightarrow> byte list \<Rightarrow> nat \<Rightarrow> nat \<Rightarrow> nat \<Rightarrow> nat \<Rightarrow> nat \<Rightarrow> (byte list \<times> nat, 'v) io" where
  "chain_loop vol fsize v window window_offset fat_offset idx cnt i =
     (if i \<ge> cnt then (Some (window, window_offset), v)
      else case slide_window vol fsize v window window_offset fat_offset of
          (None, v) \<Rightarrow> (None, v)
        | (Some (window, window_offset, fat_offset), v) \<Rightarrow>
            if fat_offset + 4 > length window then (None, v)
            else let next = (if i + 1 < cnt then u32 (idx + i + 1) else 0xFFFFFFFF) mod 2 ^ 28;
                     window = take fat_offset window @ le32_bytes next @ drop (fat_offset + 4) window
                 in chain_loop vol fsize v window window_offset (fat_offset + 4) idx cnt (i + 1))"
  by pat_completeness auto
termination
  by (relation "measure (\<lambda>(vol, fsize, v, w, wo, fo, idx, cnt, i). cnt - i)") auto

declare chain_loop.simps [simp del]

definition write_cluster_chain_32 ::
  "'v volume \<Rightarrow> nat \<Rightarrow> 'v \<Rightarrow> byte list \<Rightarrow> nat \<Rightarrow> nat \<Rightarrow> nat \<Rightarrow> (byte list \<times> nat, 'v) io" where
  "write_cluster_chain_32 vol fsize v window window_offset idx cnt =
     chain_loop vol fsize v window window_offset (sub64 (idx * 4) window_offset) idx cnt 0"

fun write_chains :: "'v volume \<Rightarrow> nat \<Rightarrow> 'v \<Rightarrow> byte list \<Rightarrow> nat \<Rightarrow> (nat \<times> nat) list \<Rightarrow> (byte list \<times> nat, 'v) io" where
  "write_chains vol fsize v window window_offset [] = (Some (window, window_offset), v)"
| "write_chains vol fsize v window window_offset ((idx, cnt) # cs) =
     (case write_cluster_chain_32 vol fsize v window window_offset idx cnt of
        (None, v) \<Rightarrow> (None, v)
      | (Some (window, window_offset), v) \<Rightarrow> write_chains vol fsize v window window_offset cs)"

definition fat_clustersize :: "'v fatfs \<Rightarrow> nat" where
  "fat_clustersize fs = u32 (secs_per_cluster fs * FAT_SECTOR_SIZE)"

text \<open>First cluster and number of clusters of a directory and of a file.\<close>

definition dir_chain :: "nat \<Rightarrow> tree_node \<Rightarrow> nat \<times> nat" where
  "dir_chain clustersize n =
     (u32 (u32 (dir_start n div clustersize) + CLUSTER_OFFSET),
      u32 (u32 (dir_size n div clustersize) + (if dir_size n mod clustersize \<noteq> 0 \<or> dir_size n = 0 then 1 else 0)))"

definition file_chain :: "nat \<Rightarrow> tree_node \<Rightarrow> nat \<times> nat" where
  "file_chain clustersize n =
     (u32 (start_index (n_file n) + CLUSTER_OFFSET),
      u32 (u32 (f_size (n_file n) div clustersize) + (if f_size (n_file n) mod clustersize \<noteq> 0 then 1 else 0)))"

definition sort_dirs :: "'v fstree \<Rightarrow> 'v fstree" where
  "sort_dirs t = t\<lparr>nodes_by_type := (nodes_by_type t)
     (TREE_NODE_DIR := fstree_sort_node_list_by_type (dir_compare_location t) (nodes_by_type t TREE_NODE_DIR))\<rparr>"

definition sort_files :: "'v fstree \<Rightarrow> 'v fstree" where
  "sort_files t = t\<lparr>nodes_by_type := (nodes_by_type t)
     (TREE_NODE_FILE := fstree_sort_node_list_by_type (file_compare_location t) (nodes_by_type t TREE_NODE_FILE))\<rparr>"

definition dir_chains :: "nat \<Rightarrow> 'v fstree \<Rightarrow> (nat \<times> nat) list" where
  "dir_chains cs t = map (\<lambda>n. dir_chain cs (nodes t n)) (nodes_by_type t TREE_NODE_DIR)"

definition file_chains :: "nat \<Rightarrow> 'v fstree \<Rightarrow> (nat \<times> nat) list" where
  "file_chains cs t = map (\<lambda>n. file_chain cs (nodes t n)) (nodes_by_type t TREE_NODE_FILE)"

abbreviation set_vol :: "'v fatfs \<Rightarrow> 'v \<Rightarrow> 'v fatfs" where
  "set_vol fs v \<equiv> fs\<lparr>fat_tree := (fat_tree fs)\<lparr>fs_volume := v\<rparr>\<rparr>"

definition fatfs_build_fats :: "'v volume \<Rightarrow> bool \<Rightarrow> 'v fatfs \<Rightarrow> (unit, 'v fatfs) io" where
  "fatfs_build_fats vol mem fs =
     (let clustersize = fat_clustersize fs in
      case volume_write vol (fs_volume (fat_tree fs)) FAT32_FAT_START None (fatsize fs) of
        (None, v) \<Rightarrow> (None, set_vol fs v)
      | (Some _, v) \<Rightarrow>
          if \<not> mem then (None, set_vol fs v)
          else
            let window = [0xF0, 0xFF, 0xFF, 0x0F, 0xFF, 0xFF, 0xFF, 0x0F] @
                  zeros ((if fatsize fs < FAT_WINDOW_SIZE then FAT_WINDOW_SIZE else fatsize fs) - 8);
                fs = fs\<lparr>fat_tree := sort_dirs (fat_tree fs)\<rparr>
            in case write_chains vol (fatsize fs) v window 0 (dir_chains clustersize (fat_tree fs)) of
                 (None, v) \<Rightarrow> (None, set_vol fs v)
               | (Some (window, window_offset), v) \<Rightarrow>
                   let fs = fs\<lparr>fat_tree := sort_files (fat_tree fs)\<rparr>
                   in case write_chains vol (fatsize fs) v window window_offset (file_chains clustersize (fat_tree fs)) of
                        (None, v) \<Rightarrow> (None, set_vol fs v)
                      | (Some (window, window_offset), v) \<Rightarrow>
                          (case flush_window vol (fatsize fs) v window window_offset of (r, v) \<Rightarrow> (r, set_vol fs v)))"

section \<open>The table that is meant\<close>

definition EOC :: nat where "EOC = 0x0FFFFFFF"

definition add_chain :: "nat \<times> nat \<Rightarrow> (nat \<Rightarrow> nat) \<Rightarrow> nat \<Rightarrow> nat" where
  "add_chain = (\<lambda>(idx, cnt) t k. if idx \<le> k \<and> k < idx + cnt then (if k + 1 < idx + cnt then k + 1 else EOC) else t k)"

definition empty_table :: "nat \<Rightarrow> nat" where
  "empty_table k = (if k = 0 then 0x0FFFFFF0 else if k = 1 then EOC else 0)"

definition fat_table :: "(nat \<times> nat) list \<Rightarrow> nat \<Rightarrow> nat" where
  "fat_table cs = fold add_chain cs empty_table"

text \<open>The table as bytes.\<close>

definition table_bytes :: "(nat \<Rightarrow> nat) \<Rightarrow> nat \<Rightarrow> byte" where
  "table_bytes t p = le32_bytes (t (p div 4)) ! (p mod 4)"

lemma table_bytes_upd: "table_bytes (t(k := x)) = poke (table_bytes t) (4 * k) (le32_bytes x)"
proof
  fix p :: nat
  show "table_bytes (t(k := x)) p = poke (table_bytes t) (4 * k) (le32_bytes x) p"
  proof (cases "p div 4 = k")
    case True
    then have "4 * k \<le> p" "p < 4 * k + 4" "p - 4 * k = p mod 4" by presburger+
    then show ?thesis using True by (simp add: table_bytes_def poke_in)
  next
    case False
    then have "p < 4 * k \<or> 4 * k + 4 \<le> p" by presburger
    then show ?thesis using False by (simp add: table_bytes_def poke_out)
  qed
qed

lemma table_bytes_zero: "t (p div 4) = 0 \<Longrightarrow> table_bytes t p = 0"
proof -
  assume "t (p div 4) = 0"
  moreover have "le32_bytes 0 ! (p mod 4) = 0"
  proof -
    have "zeros 4 = [0, 0, 0, 0]" by (simp add: zeros_def eval_nat_numeral)
    then have "le32_bytes 0 = zeros 4" by (simp add: le32_bytes_def)
    then show ?thesis by simp
  qed
  ultimately show ?thesis by (simp add: table_bytes_def)
qed

lemma le32_table: "t k < 2 ^ 32 \<Longrightarrow> le32 (peek (table_bytes t) (4 * k) 4) = t k"
proof -
  have "peek (table_bytes t) (4 * k) 4 = le32_bytes (t k)"
    by (rule nth_equalityI) (auto simp: table_bytes_def)
  then show "t k < 2 ^ 32 \<Longrightarrow> ?thesis" using le32_le32_bytes [of "t k" "[]"] by simp
qed

section \<open>The window\<close>

text \<open>A volume on which both copies of a table are written up to a position.\<close>

definition fat_area :: "nat \<Rightarrow> (nat \<Rightarrow> byte) \<Rightarrow> (nat \<Rightarrow> byte) \<Rightarrow> nat \<Rightarrow> nat \<Rightarrow> byte" where
  "fat_area fsize c f n p =
     (if FAT32_FAT_START \<le> p \<and> p < FAT32_FAT_START + n then f (p - FAT32_FAT_START)
      else if FAT32_FAT_START + fsize \<le> p \<and> p < FAT32_FAT_START + fsize + n then f (p - (FAT32_FAT_START + fsize))
      else c p)"

lemma fat_area_extend:
  assumes "n + length d \<le> fsize" "\<And>j. j < length d \<Longrightarrow> d ! j = f (n + j)"
  shows "poke (poke (fat_area fsize c f n) (FAT32_FAT_START + n) d) (FAT32_FAT_START + n + fsize) d = fat_area fsize c f (n + length d)"
proof
  fix p
  let ?S = FAT32_FAT_START
  consider "p < ?S + n" | "?S + n \<le> p" "p < ?S + n + length d" | "?S + n + length d \<le> p" "p < ?S + n + fsize"
    | "?S + n + fsize \<le> p" "p < ?S + n + fsize + length d" | "?S + n + fsize + length d \<le> p" by linarith
  then show "poke (poke (fat_area fsize c f n) (?S + n) d) (?S + n + fsize) d p = fat_area fsize c f (n + length d) p"
  proof cases
    case 1
    then show ?thesis using assms(1) by (simp add: poke_out fat_area_def)
  next
    case 2
    then have "poke (poke (fat_area fsize c f n) (?S + n) d) (?S + n + fsize) d p = d ! (p - (?S + n))"
      using assms(1) by (simp add: poke_out poke_in)
    also have "\<dots> = f (n + (p - (?S + n)))" using 2 by (intro assms(2)) simp
    also have "n + (p - (?S + n)) = p - ?S" using 2 by simp
    also have "f (p - ?S) = fat_area fsize c f (n + length d) p" using 2 by (simp add: fat_area_def)
    finally show ?thesis .
  next
    case 3
    then show ?thesis using assms(1) by (auto simp: poke_out fat_area_def)
  next
    case 4
    then have "poke (poke (fat_area fsize c f n) (?S + n) d) (?S + n + fsize) d p = d ! (p - (?S + n + fsize))"
      by (simp add: poke_in)
    also have "\<dots> = f (n + (p - (?S + n + fsize)))" using 4 by (intro assms(2)) simp
    also have "n + (p - (?S + n + fsize)) = p - (?S + fsize)" using 4 by simp
    also have "f (p - (?S + fsize)) = fat_area fsize c f (n + length d) p" using 4 assms(1) by (simp add: fat_area_def)
    finally show ?thesis .
  next
    case 5
    then show ?thesis using assms(1) by (auto simp: poke_out fat_area_def)
  qed
qed

lemma fat_area_0: "fat_area fsize c f 0 = c"
  by (auto simp: fat_area_def fun_eq_iff)

lemma fat_area_peek:
  assumes "a + m \<le> fsize"
  shows "peek (fat_area fsize c f fsize) (FAT32_FAT_START + a) m = peek f a m"
    "peek (fat_area fsize c f fsize) (FAT32_FAT_START + fsize + a) m = peek f a m"
  using assms by (auto simp: peek_eq_iff fat_area_def)

lemma fat_area_cong: "(\<And>q. q < n \<Longrightarrow> f q = g q) \<Longrightarrow> fat_area fsize c f n = fat_area fsize c g n"
  by (auto simp: fat_area_def fun_eq_iff)

definition part_chain :: "nat \<Rightarrow> nat \<Rightarrow> nat \<Rightarrow> (nat \<Rightarrow> nat) \<Rightarrow> nat \<Rightarrow> nat" where
  "part_chain idx cnt i t k = (if idx \<le> k \<and> k < idx + i then (if k + 1 < idx + cnt then k + 1 else EOC) else t k)"

text \<open>Chains in the order of their position, from entry \<open>e\<close> on, with no more than 511 free entries between them. A chain without
  clusters can be anywhere.\<close>

fun chains_ok :: "nat \<Rightarrow> nat \<Rightarrow> (nat \<times> nat) list \<Rightarrow> bool" where
  "chains_ok fsize e [] \<longleftrightarrow> True"
| "chains_ok fsize e ((idx, cnt) # cs) \<longleftrightarrow>
     (if cnt = 0 then chains_ok fsize e cs
      else e \<le> idx \<and> idx \<le> e + 511 \<and> 4 * (idx + cnt) \<le> fsize \<and> chains_ok fsize (idx + cnt) cs)"

fun chains_end :: "nat \<Rightarrow> (nat \<times> nat) list \<Rightarrow> nat" where
  "chains_end e [] = e"
| "chains_end e ((idx, cnt) # cs) = chains_end (if cnt = 0 then e else idx + cnt) cs"

lemma chains_ok_append: "chains_ok fsize e (xs @ ys) \<longleftrightarrow> chains_ok fsize e xs \<and> chains_ok fsize (chains_end e xs) ys"
  by (induction fsize e xs rule: chains_ok.induct) auto

lemma add_chain_part: "part_chain idx cnt cnt t = add_chain (idx, cnt) t" "part_chain idx cnt 0 t = t" "add_chain (idx, 0) t = t"
  by (auto simp: part_chain_def add_chain_def fun_eq_iff)

lemma fold_chains_before: "chains_ok fsize e cs \<Longrightarrow> k < e \<Longrightarrow> fold add_chain cs t k = t k"
proof (induction fsize e cs arbitrary: t rule: chains_ok.induct)
  case (2 fsize e idx cnt cs)
  then show ?case by (cases "cnt = 0") (auto simp: add_chain_part add_chain_def)
qed simp

lemma chains_ok_fit: "chains_ok fsize e cs \<Longrightarrow> (idx, cnt) \<in> set cs \<Longrightarrow> 0 < cnt \<Longrightarrow> 4 * (idx + cnt) \<le> fsize"
  by (induction fsize e cs rule: chains_ok.induct) (auto split: if_splits)

lemma fold_chains_link:
  "chains_ok fsize e cs \<Longrightarrow> (idx, cnt) \<in> set cs \<Longrightarrow> idx \<le> k \<Longrightarrow> k < idx + cnt \<Longrightarrow>
    fold add_chain cs t k = (if k + 1 < idx + cnt then k + 1 else EOC)"
proof (induction fsize e cs arbitrary: t rule: chains_ok.induct)
  case (2 fsize e i c cs)
  show ?case
  proof (cases "(idx, cnt) = (i, c)")
    case True
    then have "chains_ok fsize (idx + cnt) cs" using 2 by (auto split: if_splits)
    from fold_chains_before [OF this 2(6)] True 2(5,6) show ?thesis by (simp add: add_chain_def)
  next
    case False
    then show ?thesis using 2 by (auto split: if_splits)
  qed
qed simp

lemma empty_table_bytes:
  assumes "8 \<le> m" "j < m"
  shows "([0xF0, 0xFF, 0xFF, 0x0F, 0xFF, 0xFF, 0xFF, 0x0F] @ zeros (m - 8)) ! j = table_bytes empty_table j"
proof (cases "j < 8")
  case True
  then have "j = 0 \<or> j = 1 \<or> j = 2 \<or> j = 3 \<or> j = 4 \<or> j = 5 \<or> j = 6 \<or> j = 7" by linarith
  then show ?thesis by (auto simp: table_bytes_def empty_table_def EOC_def le32_bytes_def)
next
  case False
  then have "2 \<le> j div 4" by presburger
  then have "table_bytes empty_table j = 0" by (intro table_bytes_zero) (simp add: empty_table_def)
  then show ?thesis using False assms by (simp add: nth_append)
qed

text \<open>While a table \<open>t\<close> is written whose entries from \<open>e\<close> on are free: the window holds the bytes of the table from its
  offset on, and what lies in front of it is on the volume.\<close>

context volume
begin

definition win_inv :: "nat \<Rightarrow> (nat \<Rightarrow> byte) \<Rightarrow> nat \<Rightarrow> (nat \<Rightarrow> nat) \<Rightarrow> nat \<Rightarrow> 'v \<Rightarrow> byte list \<Rightarrow> nat \<Rightarrow> bool" where
  "win_inv fsize c n t e v w wo \<longleftrightarrow>
     inv v \<and> vblocks (view v) = n \<and> FAT32_FAT_START + 2 * fsize \<le> n * bs \<and> content (view v) = fat_area fsize c (table_bytes t) wo \<and>
     length w = max FAT_WINDOW_SIZE fsize \<and> (\<forall>j < length w. w ! j = table_bytes t (wo + j)) \<and>
     wo < fsize \<and> wo \<le> 4 * e \<and> 4 * e \<le> fsize \<and> (if fsize \<le> FAT_WINDOW_SIZE then wo = 0 else 4 * e \<le> wo + FAT_WINDOW_SIZE div 2 + 4) \<and>
     (\<forall>k \<ge> e. t k = 0)"

lemma win_inv_later:
  "win_inv fsize c n t e v w wo \<Longrightarrow> e \<le> k \<Longrightarrow> 4 * k \<le> fsize \<Longrightarrow> fsize \<le> FAT_WINDOW_SIZE \<or> 4 * k \<le> wo + FAT_WINDOW_SIZE div 2 + 4 \<Longrightarrow>
    win_inv fsize c n t k v w wo"
  by (auto simp: win_inv_def)

lemma free_bytes: "(\<forall>k \<ge> e. t k = 0) \<Longrightarrow> 4 * e \<le> p \<Longrightarrow> table_bytes t p = 0"
  by (rule table_bytes_zero) simp

lemma write_both:
  assumes "inv v" "vblocks (view v) = n" "FAT32_FAT_START + 2 * fsize \<le> n * bs" "content (view v) = fat_area fsize c f wo"
    "0 < length d" "wo + length d \<le> fsize" "\<And>j. j < length d \<Longrightarrow> d ! j = f (wo + j)"
  shows "\<exists>v1 v2. volume_write vol v (FAT32_FAT_START + wo) (Some d) (length d) = (Some (), v1) \<and>
    volume_write vol v1 (FAT32_FAT_START + wo + fsize) (Some d) (length d) = (Some (), v2) \<and>
    inv v2 \<and> vblocks (view v2) = n \<and> content (view v2) = fat_area fsize c f (wo + length d)"
proof -
  obtain v1 where v1: "volume_write vol v (FAT32_FAT_START + wo) (Some d) (length d) = (Some (), v1)" "inv v1"
      "wrote bs (view v) (view v1) (FAT32_FAT_START + wo) d"
    using write_correct [OF assms(1), of "FAT32_FAT_START + wo" "length d" "Some d"] assms by auto
  have n1: "vblocks (view v1) = n" using v1(3) assms(2) wrote_blocks by blast
  obtain v2 where v2: "volume_write vol v1 (FAT32_FAT_START + wo + fsize) (Some d) (length d) = (Some (), v2)" "inv v2"
      "wrote bs (view v1) (view v2) (FAT32_FAT_START + wo + fsize) d"
    using write_correct [OF v1(2), of "FAT32_FAT_START + wo + fsize" "length d" "Some d"] n1 assms by auto
  have "content (view v2) = poke (poke (fat_area fsize c f wo) (FAT32_FAT_START + wo) d) (FAT32_FAT_START + wo + fsize) d"
    using v1(3) v2(3) assms(4) wrote_content by metis
  then show ?thesis using v1 v2 n1 fat_area_extend [OF assms(6,7)] wrote_blocks by metis
qed

lemma slide_ok:
  assumes I: "win_inv fsize c n t e v w wo" and k: "e \<le> k" "4 * k + 4 \<le> fsize" "4 * k \<le> wo + FAT_WINDOW_SIZE"
  shows "\<exists>w' wo' v'. slide_window vol fsize v w wo (4 * k - wo) = (Some (w', wo', 4 * k - wo'), v') \<and>
    win_inv fsize c n t k v' w' wo' \<and> (FAT_WINDOW_SIZE < fsize \<longrightarrow> 4 * k \<le> wo' + FAT_WINDOW_SIZE div 2)"
proof (cases "fsize \<le> FAT_WINDOW_SIZE \<or> 4 * k - wo \<le> FAT_WINDOW_SIZE div 2")
  case True
  then have "slide_window vol fsize v w wo (4 * k - wo) = (Some (w, wo, 4 * k - wo), v)" by (auto simp: slide_window_def)
  moreover have "fsize \<le> FAT_WINDOW_SIZE \<or> 4 * k \<le> wo + FAT_WINDOW_SIZE div 2 + 4" using True by linarith
  then have "win_inv fsize c n t k v w wo" using win_inv_later [OF I k(1)] k by simp
  ultimately show ?thesis using True by auto
next
  case False
  let ?h = "FAT_WINDOW_SIZE div 2"
  have W: "?h + ?h = FAT_WINDOW_SIZE" by (simp add: FAT_WINDOW_SIZE_def)
  note i = I [unfolded win_inv_def]
  have big: "FAT_WINDOW_SIZE < fsize" "?h < 4 * k - wo" "0 < ?h" "4 * k - wo \<le> ?h + ?h" using False k(3) W by (auto simp: FAT_WINDOW_SIZE_def)
  have lw: "length w = fsize" using i big by simp
  have wj: "w ! j = table_bytes t (wo + j)" if "j < fsize" for j using i that lw by simp
  have free: "\<forall>m \<ge> k. t m = 0" using i k(1) by auto
  define m where "m = 4 * k - wo - ?h"
  have m: "m \<le> ?h" "wo + ?h + m = 4 * k" using big by (simp_all add: m_def)
  let ?d = "take ?h w"
  have dl: "length ?d = ?h" using lw big W by simp
  obtain v1 v2 where v: "volume_write vol v (FAT32_FAT_START + wo) (Some ?d) ?h = (Some (), v1)"
      "volume_write vol v1 (FAT32_FAT_START + wo + fsize) (Some ?d) ?h = (Some (), v2)"
      "inv v2" "vblocks (view v2) = n" "content (view v2) = fat_area fsize c (table_bytes t) (wo + ?h)"
    using write_both [of v n fsize c "table_bytes t" wo ?d] i k(2) m(2) wj big lw unfolding dl by auto
  define w1 where "w1 = take m (drop ?h w) @ drop m w"
  define w2 where "w2 = take m w1 @ zeros (FAT_WINDOW_SIZE - m) @ drop FAT_WINDOW_SIZE w1"
  have l1: "length w1 = fsize" using lw big W m(1) by (simp add: w1_def)
  have l2: "length w2 = fsize" using l1 big W m(1) by (simp add: w2_def)
  have "w2 ! j = table_bytes t (wo + ?h + j)" if j: "j < fsize" for j
  proof -
    consider "j < m" | "m \<le> j" "j < FAT_WINDOW_SIZE" | "FAT_WINDOW_SIZE \<le> j" by linarith
    then show ?thesis
    proof cases
      case 1
      then have "w2 ! j = w ! (?h + j)" using lw big W m(1) l1 by (simp add: w2_def w1_def nth_append)
      then show ?thesis using wj [of "?h + j"] 1 m(1) big W by (simp add: add.assoc)
    next
      case 2
      then have "j - m < FAT_WINDOW_SIZE - m" by linarith
      then have "w2 ! j = 0" using 2 l1 big by (simp add: w2_def nth_append)
      then show ?thesis using free_bytes [OF free, of "wo + ?h + j"] 2 m(2) by simp
    next
      case 3
      have mj: "m \<le> FAT_WINDOW_SIZE" "m \<le> j" using 3 m(1) by linarith+
      have a: "length (take m w1 @ zeros (FAT_WINDOW_SIZE - m)) = FAT_WINDOW_SIZE" using l1 big(1) mj by simp
      have b: "length (take m (drop ?h w)) = m" using lw big(1) m(1) W by simp
      have "w2 ! j = drop FAT_WINDOW_SIZE w1 ! (j - FAT_WINDOW_SIZE)"
        unfolding w2_def append_assoc [symmetric] nth_append a using 3 by simp
      also have "\<dots> = w1 ! j" using 3 l1 big(1) by simp
      also have "\<dots> = w ! j" unfolding w1_def nth_append b using mj lw big(1) 3 by simp
      also have "\<dots> = table_bytes t (wo + j)" by (rule wj [OF j])
      also have "\<dots> = 0" using 3 m W by (intro free_bytes [OF free]) linarith
      also have "\<dots> = table_bytes t (wo + ?h + j)" using 3 m W by (intro free_bytes [OF free, symmetric]) linarith
      finally show ?thesis .
    qed
  qed
  then have "win_inv fsize c n t k v2 w2 (wo + ?h)"
    unfolding win_inv_def using i v l2 big k(2) m free by simp
  moreover have "slide_window vol fsize v w wo (4 * k - wo) = (Some (w2, wo + ?h, 4 * k - (wo + ?h)), v2)"
  proof -
    have "4 * k - (wo + ?h) = m" by (simp add: m_def)
    moreover have "\<not> m > FAT_WINDOW_SIZE" using m(1) W by linarith
    moreover have "\<not> fsize \<le> FAT_WINDOW_SIZE" "\<not> 4 * k - wo \<le> ?h" using False by auto
    ultimately show ?thesis
      unfolding slide_window_def Let_def m_def [symmetric] w1_def [symmetric] w2_def [symmetric]
      by (simp only: v(1,2) if_False option.case prod.case refl)
  qed
  ultimately show ?thesis using m by (intro exI [of _ w2] exI [of _ "wo + ?h"] exI [of _ v2]) simp
qed

lemma put_entry:
  assumes I: "win_inv fsize c n t k v w wo" and k: "4 * k + 4 \<le> fsize" "FAT_WINDOW_SIZE < fsize \<longrightarrow> 4 * k \<le> wo + FAT_WINDOW_SIZE div 2"
  shows "4 * k - wo + 4 \<le> length w"
    "win_inv fsize c n (t(k := x)) (Suc k) v (take (4 * k - wo) w @ le32_bytes x @ drop (4 * k - wo + 4) w) wo"
proof -
  note i = I [unfolded win_inv_def]
  show l: "4 * k - wo + 4 \<le> length w" using i k(1) by auto
  let ?w = "take (4 * k - wo) w @ le32_bytes x @ drop (4 * k - wo + 4) w"
  have lw: "length ?w = length w" using l by simp
  have "?w ! j = table_bytes (t(k := x)) (wo + j)" if j: "j < length w" for j
  proof -
    have "wo \<le> 4 * k" using i by simp
    consider "j < 4 * k - wo" | "4 * k - wo \<le> j" "j < 4 * k - wo + 4" | "4 * k - wo + 4 \<le> j" by linarith
    then show ?thesis
    proof cases
      case 1
      then have "wo + j < 4 * k" by simp
      then show ?thesis using 1 i j l unfolding table_bytes_upd by (simp add: nth_append poke_out)
    next
      case 2
      then have "j - (4 * k - wo) < 4" by linarith
      then have "?w ! j = le32_bytes x ! (j - (4 * k - wo))" using 2 l by (simp add: nth_append)
      moreover have "wo + j - 4 * k = j - (4 * k - wo)" using 2 \<open>wo \<le> 4 * k\<close> by simp
      ultimately show ?thesis using 2 \<open>wo \<le> 4 * k\<close> unfolding table_bytes_upd by (simp add: poke_in)
    next
      case 3
      then have "\<not> j - (4 * k - wo) < 4" by linarith
      then have w: "?w ! j = w ! j" using 3 j l by (simp add: nth_append)
      have "4 * k + 4 \<le> wo + j" using 3 by linarith
      then show ?thesis using i j unfolding w table_bytes_upd by (simp add: poke_out)
    qed
  qed
  moreover have "fat_area fsize c (table_bytes (t(k := x))) wo = fat_area fsize c (table_bytes t) wo"
    using i by (intro fat_area_cong) (simp add: table_bytes_upd poke_out)
  ultimately show "win_inv fsize c n (t(k := x)) (Suc k) v ?w wo"
    using i k unfolding win_inv_def lw by auto
qed

lemma chain_loop_ok:
  assumes "win_inv fsize c n (part_chain idx cnt i t) e v w wo" "e \<le> idx + i" "i \<le> cnt" "4 * (idx + cnt) \<le> fsize" "fsize \<le> 2 ^ 30"
    "4 * (idx + i) \<le> wo + FAT_WINDOW_SIZE \<or> i = cnt"
  shows "\<exists>w' wo' v'. chain_loop vol fsize v w wo (4 * (idx + i) - wo) idx cnt i = (Some (w', wo'), v') \<and>
    win_inv fsize c n (part_chain idx cnt cnt t) (if i < cnt then idx + cnt else e) v' w' wo'"
  using assms(1-3,6)
proof (induction "cnt - i" arbitrary: i e v w wo)
  case 0
  then show ?case by (subst chain_loop.simps) simp
next
  case (Suc d)
  have i: "i < cnt" "d = cnt - Suc i" using Suc.hyps(2) by simp_all
  let ?k = "idx + i"
  have fit: "4 * ?k + 4 \<le> fsize" using assms(4) i(1) by simp
  from slide_ok [OF Suc.prems(1,2) fit] Suc.prems(4) i(1) obtain w1 wo1 v1 where
    s: "slide_window vol fsize v w wo (4 * ?k - wo) = (Some (w1, wo1, 4 * ?k - wo1), v1)"
      "win_inv fsize c n (part_chain idx cnt i t) ?k v1 w1 wo1" "FAT_WINDOW_SIZE < fsize \<longrightarrow> 4 * ?k \<le> wo1 + FAT_WINDOW_SIZE div 2" by auto
  define x where "x = (if i + 1 < cnt then u32 (?k + 1) else 0xFFFFFFFF) mod 2 ^ 28"
  have x: "x = (if ?k + 1 < idx + cnt then ?k + 1 else EOC)"
    using assms(4,5) by (auto simp: x_def u32_def EOC_def)
  note p = put_entry(1) [OF s(2) fit s(3)] put_entry(2) [OF s(2) fit s(3), of x]
  have upd: "(part_chain idx cnt i t)(?k := x) = part_chain idx cnt (Suc i) t"
    unfolding x by (auto simp: part_chain_def fun_eq_iff)
  let ?w = "take (4 * ?k - wo1) w1 @ le32_bytes x @ drop (4 * ?k - wo1 + 4) w1"
  have wo: "wo1 \<le> 4 * ?k" "4 * (idx + Suc i) \<le> wo1 + FAT_WINDOW_SIZE \<or> Suc i = cnt"
    using s(2,3) assms(4) i(1) by (auto simp: win_inv_def FAT_WINDOW_SIZE_def split: if_splits)
  have "win_inv fsize c n (part_chain idx cnt (Suc i) t) (idx + Suc i) v1 ?w wo1" using p(2) unfolding upd by simp
  from Suc.hyps(1) [OF i(2) this order_refl _ wo(2)] i(1)
  obtain w' wo' v' where
    r: "chain_loop vol fsize v1 ?w wo1 (4 * (idx + Suc i) - wo1) idx cnt (Suc i) = (Some (w', wo'), v')"
      "win_inv fsize c n (part_chain idx cnt cnt t) (if Suc i < cnt then idx + cnt else idx + Suc i) v' w' wo'"
    using Suc_leI [OF i(1)] by blast
  have last: "(if Suc i < cnt then idx + cnt else idx + Suc i) = idx + cnt" using i(1) by simp
  have "4 * (idx + Suc i) - wo1 = 4 * ?k - wo1 + 4" using wo(1) by simp
  then have "chain_loop vol fsize v w wo (4 * ?k - wo) idx cnt i = (Some (w', wo'), v')"
    using i(1) s(1) p(1) r(1) by (subst chain_loop.simps) (simp add: Let_def x_def)
  then show ?case using r(2) i(1) unfolding last by auto
qed

lemma write_chains_ok:
  assumes "win_inv fsize c n t e v w wo" "chains_ok fsize e cs" "fsize \<le> 2 ^ 30"
  shows "\<exists>w' wo' v'. write_chains vol fsize v w wo cs = (Some (w', wo'), v') \<and>
    win_inv fsize c n (fold add_chain cs t) (chains_end e cs) v' w' wo'"
  using assms(1,2)
proof (induction cs arbitrary: t e v w wo)
  case (Cons ch cs)
  obtain idx cnt where ch: "ch = (idx, cnt)" by (cases ch)
  show ?case
  proof (cases "cnt = 0")
    case True
    then have "write_cluster_chain_32 vol fsize v w wo idx cnt = (Some (w, wo), v)"
      by (simp add: write_cluster_chain_32_def chain_loop.simps)
    then show ?thesis using Cons.IH [OF Cons.prems(1)] Cons.prems(2) True by (simp add: ch add_chain_part)
  next
    case False
    then have k: "e \<le> idx" "idx \<le> e + 511" "4 * (idx + cnt) \<le> fsize" "chains_ok fsize (idx + cnt) cs"
      using Cons.prems(2) by (simp_all add: ch)
    have wo: "wo \<le> 4 * idx" "4 * idx \<le> wo + FAT_WINDOW_SIZE"
      using Cons.prems(1) k False by (auto simp: win_inv_def FAT_WINDOW_SIZE_def split: if_splits)
    have "sub64 (idx * 4) wo = 4 * (idx + 0) - wo" using wo(1) k(3) assms(3) by (simp add: sub64_def mult.commute)
    moreover have "win_inv fsize c n (part_chain idx cnt 0 t) e v w wo" using Cons.prems(1) by (simp add: add_chain_part)
    from chain_loop_ok [OF this _ _ k(3) assms(3)] k(1) wo(2) obtain w1 wo1 v1 where
      "chain_loop vol fsize v w wo (4 * (idx + 0) - wo) idx cnt 0 = (Some (w1, wo1), v1)"
      "win_inv fsize c n (part_chain idx cnt cnt t) (if 0 < cnt then idx + cnt else e) v1 w1 wo1" by fastforce
    ultimately have "write_cluster_chain_32 vol fsize v w wo idx cnt = (Some (w1, wo1), v1)"
      "win_inv fsize c n (add_chain (idx, cnt) t) (idx + cnt) v1 w1 wo1"
      using False by (simp_all add: write_cluster_chain_32_def add_chain_part)
    then show ?thesis using Cons.IH [OF _ k(4)] False by (auto simp: ch)
  qed
qed simp

lemma flush_ok:
  assumes I: "win_inv fsize c n t e v w wo" "fsize < max64" "\<forall>q < fsize. c (FAT32_FAT_START + q) = 0 \<and> c (FAT32_FAT_START + fsize + q) = 0"
  shows "\<exists>v'. flush_window vol fsize v w wo = (Some (), v') \<and> inv v' \<and> content (view v') = fat_area fsize c (table_bytes t) fsize"
proof -
  note i = I(1) [unfolded win_inv_def]
  define sz where "sz = (if fsize - wo > FAT_WINDOW_SIZE then FAT_WINDOW_SIZE else fsize - wo)"
  let ?d = "take sz w"
  have sz: "0 < sz" "wo + sz \<le> fsize" "length ?d = sz" using i by (auto simp: sz_def FAT_WINDOW_SIZE_def)
  obtain v1 v2 where v: "volume_write vol v (FAT32_FAT_START + wo) (Some ?d) sz = (Some (), v1)"
      "volume_write vol v1 (FAT32_FAT_START + wo + fsize) (Some ?d) sz = (Some (), v2)" "inv v2"
      "content (view v2) = fat_area fsize c (table_bytes t) (wo + sz)"
    using write_both [of v n fsize c "table_bytes t" wo ?d] i sz(1,2) unfolding sz(3) by auto
  have "sub64 fsize wo = fsize - wo" using i I(2) by (simp add: sub64_def)
  then have "flush_window vol fsize v w wo = (Some (), v2)" using v(1,2) by (simp add: flush_window_def Let_def sz_def [symmetric])
  moreover have "fat_area fsize c (table_bytes t) (wo + sz) = fat_area fsize c (table_bytes t) fsize"
  proof (cases "wo + sz = fsize")
    case False
    then have "4 * e \<le> wo + sz" using i sz(2) by (auto simp: sz_def FAT_WINDOW_SIZE_def split: if_splits)
    then have z: "table_bytes t q = 0" if "wo + sz \<le> q" for q using i that by (intro free_bytes [of e]) auto
    show ?thesis
    proof
      fix p
      let ?S = FAT32_FAT_START
      have c0: "c p = 0" if "?S \<le> p" "p < ?S + 2 * fsize"
        using I(3) [rule_format, of "p - ?S"] I(3) [rule_format, of "p - (?S + fsize)"] that by (cases "p < ?S + fsize") auto
      show "fat_area fsize c (table_bytes t) (wo + sz) p = fat_area fsize c (table_bytes t) fsize p"
        using z [of "p - ?S"] z [of "p - (?S + fsize)"] c0 sz(2) by (auto simp: fat_area_def)
    qed
  qed simp
  ultimately show ?thesis using v by auto
qed

lemma build_fats_ok:
  assumes v: "inv (fs_volume (fat_tree fs))" and cap: "FAT32_FAT_START + 2 * fatsize fs \<le> capacity (fs_volume (fat_tree fs))"
    and sz: "8 \<le> fatsize fs" "fatsize fs \<le> 2 ^ 30"
    and zero: "\<forall>q < fatsize fs. content (view (fs_volume (fat_tree fs))) (FAT32_FAT_START + fatsize fs + q) = 0"
    and ok: "chains_ok (fatsize fs) 2 (dir_chains (fat_clustersize fs) (sort_dirs (fat_tree fs)) @ file_chains (fat_clustersize fs) (sort_files (fat_tree fs)))"
  shows "\<exists>v'. fatfs_build_fats vol True fs = (Some (), fs\<lparr>fat_tree := (sort_files (sort_dirs (fat_tree fs)))\<lparr>fs_volume := v'\<rparr>\<rparr>) \<and> inv v' \<and>
    content (view v') = fat_area (fatsize fs) (content (view (fs_volume (fat_tree fs))))
      (table_bytes (fat_table (dir_chains (fat_clustersize fs) (sort_dirs (fat_tree fs)) @ file_chains (fat_clustersize fs) (sort_files (fat_tree fs))))) (fatsize fs)"
proof -
  let ?v = "fs_volume (fat_tree fs)" and ?f = "fatsize fs" and ?S = FAT32_FAT_START
  let ?ds = "dir_chains (fat_clustersize fs) (sort_dirs (fat_tree fs))" and ?fs = "file_chains (fat_clustersize fs) (sort_files (fat_tree fs))"
  let ?w = "[0xF0, 0xFF, 0xFF, 0x0F, 0xFF, 0xFF, 0xFF, 0x0F] @ zeros ((if ?f < FAT_WINDOW_SIZE then FAT_WINDOW_SIZE else ?f) - 8)"
  obtain v0 where v0: "volume_write vol ?v ?S None ?f = (Some (), v0)" "inv v0" "wrote bs (view ?v) (view v0) ?S (zeros ?f)"
    using write_correct [OF v, of ?S ?f None] cap sz by auto
  define c where "c = content (view v0)"
  have c: "c = poke (content (view ?v)) ?S (zeros ?f)" "vblocks (view v0) = vblocks (view ?v)"
    using v0(3) wrote_content wrote_blocks by (auto simp: c_def)
  have m: "(if ?f < FAT_WINDOW_SIZE then FAT_WINDOW_SIZE else ?f) = max FAT_WINDOW_SIZE ?f" "8 \<le> max FAT_WINDOW_SIZE ?f"
    by (auto simp: FAT_WINDOW_SIZE_def)
  have "win_inv ?f c (vblocks (view ?v)) empty_table 2 v0 ?w 0"
    unfolding win_inv_def m(1) using v0(2) c(2) cap sz m(2) empty_table_bytes [OF m(2)]
    by (auto simp: c_def fat_area_0 empty_table_def FAT_WINDOW_SIZE_def)
  from write_chains_ok [OF this _ sz(2), of ?ds] ok obtain w1 wo1 v1 where
    1: "write_chains vol ?f v0 ?w 0 ?ds = (Some (w1, wo1), v1)"
      "win_inv ?f c (vblocks (view ?v)) (fold add_chain ?ds empty_table) (chains_end 2 ?ds) v1 w1 wo1"
    by (auto simp: chains_ok_append)
  from write_chains_ok [OF 1(2) _ sz(2), of ?fs] ok obtain w2 wo2 v2 where
    2: "write_chains vol ?f v1 w1 wo1 ?fs = (Some (w2, wo2), v2)"
      "win_inv ?f c (vblocks (view ?v)) (fat_table (?ds @ ?fs)) (chains_end (chains_end 2 ?ds) ?fs) v2 w2 wo2"
    by (auto simp: chains_ok_append fat_table_def)
  have "\<forall>q < ?f. c (?S + q) = 0 \<and> c (?S + ?f + q) = 0"
    using zero by (auto simp: c(1) poke_in poke_out)
  from flush_ok [OF 2(2) _ this] sz obtain v3 where 3: "flush_window vol ?f v2 w2 wo2 = (Some (), v3)" "inv v3"
      "content (view v3) = fat_area ?f c (table_bytes (fat_table (?ds @ ?fs))) ?f" by auto
  have "file_compare_location (sort_dirs (fat_tree fs)) = file_compare_location (fat_tree fs)"
    by (simp add: fun_eq_iff file_compare_location_def sort_dirs_def)
  then have "file_chains (fat_clustersize fs) (sort_files (sort_dirs (fat_tree fs))) = ?fs"
    unfolding file_chains_def sort_files_def by (simp add: sort_dirs_def)
  then have "fatfs_build_fats vol True fs = (Some (), fs\<lparr>fat_tree := (sort_files (sort_dirs (fat_tree fs)))\<lparr>fs_volume := v3\<rparr>\<rparr>)"
    using v0(1) 1(1) 2(1) 3(1) by (simp add: fatfs_build_fats_def Let_def)
  moreover have "fat_area ?f c g ?f = fat_area ?f (content (view ?v)) g ?f" for g
    by (auto simp: fat_area_def fun_eq_iff c(1) poke_out)
  ultimately show ?thesis using 3 by auto
qed

end

text \<open>Following a chain in a table.\<close>

fun follow :: "nat \<Rightarrow> (nat \<Rightarrow> nat) \<Rightarrow> nat \<Rightarrow> nat list" where
  "follow 0 t k = []"
| "follow (Suc n) t k = k # (if t k \<ge> 0x0FFFFFF8 then [] else follow n t (t k))"

lemma follow_chain:
  assumes "\<And>k. idx \<le> k \<Longrightarrow> k < idx + cnt \<Longrightarrow> t k = (if k + 1 < idx + cnt then k + 1 else EOC)" "idx + cnt \<le> 2 ^ 28 - 8"
  shows "i < cnt \<Longrightarrow> cnt - i \<le> n \<Longrightarrow> follow n t (idx + i) = [idx + i..<idx + cnt]"
proof (induction n arbitrary: i)
  case (Suc n)
  show ?case
  proof (cases "Suc i < cnt")
    case True
    then have "t (idx + i) = idx + Suc i" using assms(1) [of "idx + i"] by simp
    then show ?thesis using Suc.IH [of "Suc i"] Suc.prems True assms(2) by (simp add: upt_conv_Cons [of "idx + i"])
  next
    case False
    then have "cnt = Suc i" using Suc.prems(1) by simp
    then show ?thesis using assms(1) [of "idx + i"] by (simp add: EOC_def)
  qed
qed simp

lemma fat_table_bound:
  assumes "chains_ok fsize e cs" "fsize \<le> 2 ^ 30" "\<And>k. t k < 2 ^ 28"
  shows "fold add_chain cs t k < 2 ^ 28"
  using assms
proof (induction fsize e cs arbitrary: t rule: chains_ok.induct)
  case (2 fsize e idx cnt cs)
  have "add_chain (idx, cnt) t k < 2 ^ 28" if "cnt \<noteq> 0" for k
    using 2(3-5) that by (auto simp: add_chain_def EOC_def)
  then show ?case using 2 by (cases "cnt = 0") (simp_all add: add_chain_part)
qed simp

lemma sort_by_location:
  "nodes_by_type (sort_dirs t) TREE_NODE_DIR = sort_key (\<lambda>n. dir_start (nodes t n)) (nodes_by_type t TREE_NODE_DIR)"
  "nodes_by_type (sort_files t) TREE_NODE_FILE = sort_key (\<lambda>n. start_index (file_of t n)) (nodes_by_type t TREE_NODE_FILE)"
  "nodes (sort_dirs t) = nodes t" "nodes (sort_files t) = nodes t"
  by (simp_all add: sort_dirs_def sort_files_def fstree_sort_node_list_by_type_def sort_node_list_key dir_compare_location_def file_compare_location_def)

text \<open>The chains of a file system, directories first.\<close>

definition fat_chains :: "'v fatfs \<Rightarrow> (nat \<times> nat) list" where
  "fat_chains fs = dir_chains (fat_clustersize fs) (sort_dirs (fat_tree fs)) @ file_chains (fat_clustersize fs) (sort_files (fat_tree fs))"

text \<open>C28: when the chains of the directories and the files come one after the other, with gaps of at most 511 entries, and the table
  has room for them, writing the tables through the sliding window succeeds. Both copies on the volume then hold the table that has
  each chain's entries linked in order and all others free, nothing outside of the tables changes, and following the table on the
  volume from the first cluster of a chain gives exactly its clusters.\<close>

theorem fat_tables_correct:
  assumes "fv_inv env bs (fs_volume (fat_tree fs))"
    "FAT32_FAT_START + 2 * fatsize fs \<le> max_block_count (fs_volume (fat_tree fs)) * bs"
    "8 \<le> fatsize fs" "fatsize fs < 2 ^ 30 - 32" "chains_ok (fatsize fs) 2 (fat_chains fs)"
    "\<forall>q < fatsize fs. fbyte (fd (fs_volume (fat_tree fs))) (FAT32_FAT_START + fatsize fs + q) = 0"
  shows "\<exists>fs'. fatfs_build_fats (file_volume_ops env bs) True fs = (Some (), fs') \<and>
    (let f = fbyte (fd (fs_volume (fat_tree fs'))); entry = (\<lambda>k. le32 (peek f (FAT32_FAT_START + 4 * k) 4)) in
     (\<forall>k. 4 * k + 4 \<le> fatsize fs \<longrightarrow> entry k = fat_table (fat_chains fs) k \<and>
        le32 (peek f (FAT32_FAT_START + fatsize fs + 4 * k) 4) = fat_table (fat_chains fs) k) \<and>
     (\<forall>p. p < FAT32_FAT_START \<or> FAT32_FAT_START + 2 * fatsize fs \<le> p \<longrightarrow> f p = fbyte (fd (fs_volume (fat_tree fs))) p) \<and>
     (\<forall>(idx, cnt) \<in> set (fat_chains fs). 0 < cnt \<longrightarrow> follow (fatsize fs) entry idx = [idx..<idx + cnt]))"
proof -
  let ?v = "fs_volume (fat_tree fs)" and ?f = "fatsize fs" and ?S = FAT32_FAT_START and ?t = "fat_table (fat_chains fs)"
  have bs: "blocksize (file_volume_ops env bs) = bs" by (simp add: file_volume_ops_def)
  have cap: "?S + 2 * ?f \<le> vblocks (fv_view bs ?v) * blocksize (file_volume_ops env bs)"
    and zero: "\<forall>q < ?f. content (fv_view bs ?v) (?S + ?f + q) = 0"
    using assms(2,6) unfolding bs by (simp_all add: fv_view_def)
  have f30: "?f \<le> 2 ^ 30" using assms(4) by simp
  obtain v' where v': "fatfs_build_fats (file_volume_ops env bs) True fs =
      (Some (), fs\<lparr>fat_tree := (sort_files (sort_dirs (fat_tree fs)))\<lparr>fs_volume := v'\<rparr>\<rparr>)"
      "content (fv_view bs v') = fat_area ?f (content (fv_view bs ?v)) (table_bytes ?t) ?f"
    using fv.build_fats_ok [OF assms(1) cap assms(3) f30 zero assms(5) [unfolded fat_chains_def]] unfolding fat_chains_def by blast
  then have c: "fbyte (fd v') = fat_area ?f (fbyte (fd ?v)) (table_bytes ?t) ?f" by (simp add: fv_view_def)
  have "empty_table k < 2 ^ 28" for k by (simp add: empty_table_def EOC_def)
  then have "?t k < 2 ^ 28" for k unfolding fat_table_def by (rule fat_table_bound [OF assms(5) f30])
  then have bound: "?t k < 2 ^ 32" for k by (rule less_trans) simp
  define entry where "entry = (\<lambda>k. le32 (peek (fbyte (fd v')) (?S + 4 * k) 4))"
  have tab: "entry k = ?t k \<and> le32 (peek (fbyte (fd v')) (?S + ?f + 4 * k) 4) = ?t k" if "4 * k + 4 \<le> ?f" for k
    using fat_area_peek [OF that] le32_table [of ?t k, OF bound] by (simp add: entry_def c)
  have out: "fbyte (fd v') p = fbyte (fd ?v) p" if "p < ?S \<or> ?S + 2 * ?f \<le> p" for p
    using that by (auto simp: c fat_area_def)
  have foll: "follow ?f entry idx = [idx..<idx + cnt]" if "(idx, cnt) \<in> set (fat_chains fs)" "0 < cnt" for idx cnt
  proof -
    have fit: "4 * (idx + cnt) \<le> ?f" using chains_ok_fit [OF assms(5) that] .
    have "entry k = (if k + 1 < idx + cnt then k + 1 else EOC)" if "idx \<le> k" "k < idx + cnt" for k
      using tab [of k] fit that fold_chains_link [OF assms(5) \<open>(idx, cnt) \<in> set (fat_chains fs)\<close> that] by (simp add: fat_table_def)
    then have "follow ?f entry (idx + 0) = [idx + 0..<idx + cnt]"
      by (rule follow_chain) (use fit assms(4) that(2) in auto)
    then show ?thesis by simp
  qed
  show ?thesis
    by (intro exI conjI, rule v'(1)) (use tab out foll in \<open>auto simp: Let_def entry_def\<close>)
qed

text \<open>An example with one directory, a file of two clusters and an empty file.\<close>

definition fat_volume_large :: file_volume where
  "fat_volume_large =
     \<lparr>fd = \<lparr>fbytes = [], sched = [Intr, Short 10]\<rparr>, bitmap = \<lparr>words = [0, 0]\<rparr>, bytes_used = 0, min_block_count = 0, max_block_count = 40\<rparr>"

definition fat_image :: "file_volume fatfs" where
  "fat_image =
     \<lparr>fat_tree = demo_tree\<lparr>nodes := (\<lambda>m. if m = 0 then blank_node\<lparr>dir_size := 64\<rparr>
          else blank_node\<lparr>n_type := TREE_NODE_FILE, n_file := \<lparr>f_size = (if m = 1 then 5000 else 0), start_index = 1, sparse = []\<rparr>\<rparr>),
        fs_volume := fat_volume_large\<rparr>,
      secs_per_cluster = 8, secs_per_fat = 1, fatsize = 512, fs_oem = [], fs_label = []\<rparr>"

lemma fat_image_chains: "fat_chains fat_image = [(2, 1), (3, 2), (3, 0)]"
proof -
  have n: "nodes (fat_tree fat_image) 0 = blank_node\<lparr>dir_size := 64\<rparr>"
    "nodes (fat_tree fat_image) (Suc 0) = blank_node\<lparr>n_type := TREE_NODE_FILE, n_file := \<lparr>f_size = 5000, start_index = 1, sparse = []\<rparr>\<rparr>"
    "nodes (fat_tree fat_image) 2 = blank_node\<lparr>n_type := TREE_NODE_FILE, n_file := \<lparr>f_size = 0, start_index = 1, sparse = []\<rparr>\<rparr>"
    "nodes_by_type (fat_tree fat_image) TREE_NODE_DIR = [0]" "nodes_by_type (fat_tree fat_image) TREE_NODE_FILE = [Suc 0, 2]"
    "fat_clustersize fat_image = 4096"
    by (simp_all add: fat_image_def demo_tree_def fat_clustersize_def u32_def FAT_SECTOR_SIZE_def)
  have b: "dir_start blank_node = 0" by (simp add: blank_node_def)
  show ?thesis
    by (simp add: fat_chains_def dir_chains_def file_chains_def sort_by_location n b dir_chain_def file_chain_def u32_def CLUSTER_OFFSET_def)
qed

theorem fat_tables_correct_witness:
  "\<exists>fs'. fatfs_build_fats (file_volume_ops demo_env 512) True fat_image = (Some (), fs') \<and>
    (let f = fbyte (fd (fs_volume (fat_tree fs'))); entry = (\<lambda>k. le32 (peek f (FAT32_FAT_START + 4 * k) 4)) in
      entry 3 = 4 \<and> follow 512 entry 3 = [3, 4])"
proof -
  have f: "fatsize fat_image = 512" "fs_volume (fat_tree fat_image) = fat_volume_large" by (simp_all add: fat_image_def)
  have inv: "fv_inv demo_env 512 (fs_volume (fat_tree fat_image))"
    by (simp add: f fv_inv_def demo_env_def fat_volume_large_def benign_def bitmap_wf_def fbyte_def empty_bitmap)
  have cap: "FAT32_FAT_START + 2 * fatsize fat_image \<le> max_block_count (fs_volume (fat_tree fat_image)) * 512"
    and zero: "\<forall>q < fatsize fat_image. fbyte (fd (fs_volume (fat_tree fat_image))) (FAT32_FAT_START + fatsize fat_image + q) = 0"
    by (simp_all add: f fat_volume_large_def FAT32_FAT_START_def FAT32_RESERVED_COUNT_def FAT_SECTOR_SIZE_def fbyte_def)
  have ok: "chains_ok (fatsize fat_image) 2 (fat_chains fat_image)" by (simp add: f fat_image_chains)
  have tab: "fat_table (fat_chains fat_image) 3 = 4"
    by (simp add: fat_table_def fat_image_chains add_chain_def)
  have sz: "8 \<le> fatsize fat_image" "fatsize fat_image < 2 ^ 30 - 32" by (simp_all add: f)
  from fat_tables_correct [OF inv cap sz ok zero] obtain fs' where
    r: "fatfs_build_fats (file_volume_ops demo_env 512) True fat_image = (Some (), fs')" and
    l: "let f = fbyte (fd (fs_volume (fat_tree fs'))); entry = (\<lambda>k. le32 (peek f (FAT32_FAT_START + 4 * k) 4)) in
       (\<forall>k. 4 * k + 4 \<le> fatsize fat_image \<longrightarrow> entry k = fat_table (fat_chains fat_image) k \<and>
          le32 (peek f (FAT32_FAT_START + fatsize fat_image + 4 * k) 4) = fat_table (fat_chains fat_image) k) \<and>
       (\<forall>p. p < FAT32_FAT_START \<or> FAT32_FAT_START + 2 * fatsize fat_image \<le> p \<longrightarrow> f p = fbyte (fd (fs_volume (fat_tree fat_image))) p) \<and>
       (\<forall>(idx, cnt) \<in> set (fat_chains fat_image). 0 < cnt \<longrightarrow> follow (fatsize fat_image) entry idx = [idx..<idx + cnt])"
    by blast
  define entry where "entry = (\<lambda>k. le32 (peek (fbyte (fd (fs_volume (fat_tree fs')))) (FAT32_FAT_START + 4 * k) 4))"
  note l = l [unfolded Let_def f(1), folded entry_def]
  have "entry 3 = 4" using l [THEN conjunct1, rule_format, of 3] tab by (simp add: entry_def)
  moreover have "follow 512 entry 3 = [3..<3 + 2]" using l [THEN conjunct2, THEN conjunct2] unfolding fat_image_chains by simp
  moreover have "[3..<3 + 2] = [3, 4 :: nat]" by (simp add: upt_rec)
  ultimately show ?thesis using r unfolding Let_def entry_def [symmetric] by (intro exI [of _ fs']) (simp add: entry_def)
qed

end
