(* ===== verification/Fatfs.thy ===== *)
theory Fatfs
  imports Fat
begin

text \<open>
  \<open>lib/filesystem/fatfs/fatfs.c\<close>, \<open>super.c\<close> and \<open>meta.c\<close>: the parameters of a FAT file system, its boot and information
  sectors, the layout of its directories and the whole build. \<open>vol\<close> are the operations of the original volume and \<open>avol\<close>
  those of the adapter with blocks of 4096 bytes, which work on the same state.
\<close>

section \<open>Parameters\<close>

text \<open>The loop over the candidates for the number of sectors per cluster, from \<open>i\<close> on; the result is the number of sectors
  per cluster and the number of clusters.\<close>

function parameter_loop :: "nat \<Rightarrow> nat \<Rightarrow> nat \<times> nat \<Rightarrow> nat \<times> nat" where
  "parameter_loop sectors i st =
     (if i > CLUSTER_SIZE_PREFERRED div FAT_SECTOR_SIZE then st
      else let new = sectors div i
           in if new < FAT32_MIN_SECTORS then st else parameter_loop sectors (i + 1) (i, new))"
  by pat_completeness auto
termination
  by (relation "measure (\<lambda>(s, i, st). CLUSTER_SIZE_PREFERRED div FAT_SECTOR_SIZE + 1 - i)") auto

declare parameter_loop.simps [simp del]

definition compute_fs_parameters :: "nat \<Rightarrow> 'v fatfs \<Rightarrow> 'v fatfs" where
  "compute_fs_parameters disk_size fs =
     (let sectors = u32 (disk_size div FAT_SECTOR_SIZE);
          (spc, clusters) = parameter_loop sectors 1 (1, sectors);
          spf = clusters div FAT32_ENTRIES_PER_SECTOR + (if clusters mod FAT32_ENTRIES_PER_SECTOR \<noteq> 0 then 1 else 0)
      in fs\<lparr>secs_per_cluster := spc, secs_per_fat := spf, fatsize := u32 (spf * FAT_SECTOR_SIZE)\<rparr>)"

text \<open>\<open>MUL64_OV\<close> of the block size and a number of blocks, with the limit that the file system uses instead of an overflow.\<close>

definition disk_bytes :: "nat \<Rightarrow> nat \<Rightarrow> nat" where
  "disk_bytes bsz cnt = (if max64 \<le> bsz * cnt then MAX_DISK_SIZE else bsz * cnt)"

section \<open>Directories\<close>

definition upd_tree_node :: "'v fatfs \<Rightarrow> nat \<Rightarrow> (tree_node \<Rightarrow> tree_node) \<Rightarrow> 'v fatfs" where
  "upd_tree_node fs m f = fs\<lparr>fat_tree := upd_node (fat_tree fs) m f\<rparr>"

fun measure_dirs :: "bool \<Rightarrow> 'v fatfs \<Rightarrow> nat \<Rightarrow> nat list \<Rightarrow> (nat, 'v fatfs) io" where
  "measure_dirs mem fs total_clusters [] = (Some total_clusters, fs)"
| "measure_dirs mem fs total_clusters (m # ms) =
     (case fatfs_serialize_directory mem fs m null_ostream 0 of
        (None, _) \<Rightarrow> (None, fs)
      | (Some _, sz) \<Rightarrow>
          measure_dirs mem (upd_tree_node fs m (\<lambda>n. n\<lparr>dir_size := sz\<rparr>))
            (total_clusters + sz div CLUSTER_SIZE_PREFERRED + (if sz mod CLUSTER_SIZE_PREFERRED \<noteq> 0 then 1 else 0)) ms)"

definition align_cluster :: "nat \<Rightarrow> nat" where
  "align_cluster offset =
     (if offset mod CLUSTER_SIZE_PREFERRED \<noteq> 0 then offset + (CLUSTER_SIZE_PREFERRED - offset mod CLUSTER_SIZE_PREFERRED) else offset)"

fun place_dirs :: "'v fatfs \<Rightarrow> nat \<Rightarrow> nat list \<Rightarrow> 'v fatfs" where
  "place_dirs fs offset [] = fs"
| "place_dirs fs offset (m # ms) =
     (if m = root (fat_tree fs) then place_dirs fs offset ms
      else place_dirs (upd_tree_node fs m (\<lambda>n. n\<lparr>dir_start := offset\<rparr>))
             (align_cluster (offset + dir_size (nodes (fat_tree fs) m))) ms)"

definition compute_dir_sizes :: "bool \<Rightarrow> 'v fatfs \<Rightarrow> (nat, 'v fatfs) io" where
  "compute_dir_sizes mem fs =
     (let t = fat_tree fs; r = root t in
      if children (nodes t r) = [] then (Some 1, upd_tree_node fs r (\<lambda>n. n\<lparr>dir_start := 0, dir_size := 0\<rparr>))
      else if \<not> mem then (None, fs)
      else case measure_dirs mem fs 0 (nodes_by_type t TREE_NODE_DIR) of
          (None, fs) \<Rightarrow> (None, fs)
        | (Some clusters, fs) \<Rightarrow>
            let fs = upd_tree_node fs r (\<lambda>n. n\<lparr>dir_start := 0\<rparr>);
                offset = align_cluster (dir_size (nodes (fat_tree fs) r))
            in (Some (mul64 clusters CLUSTER_SIZE_PREFERRED), place_dirs fs offset (nodes_by_type t TREE_NODE_DIR)))"

fun write_directory_contents :: "'v volume \<Rightarrow> bool \<Rightarrow> 'v fatfs \<Rightarrow> nat list \<Rightarrow> (unit, 'v fatfs) io" where
  "write_directory_contents avol mem fs [] = (Some (), fs)"
| "write_directory_contents avol mem fs (m # ms) =
     (if \<not> mem then (None, fs)
      else let n = nodes (fat_tree fs) m in
        case fatfs_serialize_directory mem fs m (vol_ostream_ops avol)
               (volume_ostream_create (fs_volume (fat_tree fs)) (dir_start n) (dir_size n)) of
          (None, s) \<Rightarrow> (None, set_vol fs (wrapped s))
        | (Some _, s) \<Rightarrow> write_directory_contents avol mem (set_vol fs (wrapped s)) ms)"

definition enforce_min_size :: "'v volume \<Rightarrow> 'v fatfs \<Rightarrow> (unit, 'v fatfs) io" where
  "enforce_min_size vol fs =
     (let v = fs_volume (fat_tree fs) in
      if disk_bytes (blocksize vol) (get_block_count vol v) < FAT32_MIN_SECTORS * FAT_SECTOR_SIZE
      then (case vol_truncate vol v (FAT32_MIN_SECTORS * FAT_SECTOR_SIZE) of (r, v) \<Rightarrow> (r, set_vol fs v))
      else (Some (), fs))"

definition adjust_file_indices :: "'v fatfs \<Rightarrow> 'v fatfs" where
  "adjust_file_indices fs =
     fold (\<lambda>m fs. upd_tree_node fs m (\<lambda>n. n\<lparr>n_file := (n_file n)\<lparr>start_index :=
         u32 (start_index (n_file n) * (CLUSTER_SIZE_PREFERRED div FAT_SECTOR_SIZE)) div secs_per_cluster fs\<rparr>\<rparr>))
       (files (fat_tree fs)) fs"

section \<open>Boot and information sectors\<close>

definition pad_blank :: "nat \<Rightarrow> byte list \<Rightarrow> byte list" where
  "pad_blank n s = take n s @ replicate (n - length s) blank"

definition super_bytes :: "'v fatfs \<Rightarrow> nat \<Rightarrow> byte list" where
  "super_bytes fs sector_count =
     [0xEB, 0xFE, 0x90] @ pad_blank 8 (fs_oem fs) @
     le16_bytes FAT_SECTOR_SIZE @ [of_nat (secs_per_cluster fs)] @ le16_bytes FAT32_RESERVED_COUNT @ [2] @ zeros 4 @ [0xF8] @ zeros 2 @
     le16_bytes 1 @ le16_bytes 1 @ zeros 4 @ le32_bytes sector_count @
     le32_bytes (secs_per_fat fs) @ zeros 2 @ zeros 2 @ le32_bytes CLUSTER_OFFSET @ le16_bytes 1 @ le16_bytes 6 @ zeros 12 @
     [0x80] @ zeros 1 @ [0x29] @ le32_bytes 0xDECAFBAD @ pad_blank 11 (fs_label fs) @ ascii ''FAT32   '' @
     replicate 420 0x90 @ le16_bytes 0xAA55"

definition write_super_block_fat32 :: "'v volume \<Rightarrow> 'v fatfs \<Rightarrow> nat \<Rightarrow> (unit, 'v fatfs) io" where
  "write_super_block_fat32 vol fs sector_count =
     (case volume_write vol (fs_volume (fat_tree fs)) 0 (Some (super_bytes fs sector_count)) 512 of
        (None, v) \<Rightarrow> (None, set_vol fs v)
      | (Some _, v) \<Rightarrow>
          (case volume_write vol v (6 * FAT_SECTOR_SIZE) (Some (super_bytes fs sector_count)) 512 of (r, v) \<Rightarrow> (r, set_vol fs v)))"

definition sub32 :: "nat \<Rightarrow> nat \<Rightarrow> nat" where
  "sub32 x y = u32 (x + 2 ^ 32 - u32 y)"

definition info_bytes :: "'v fatfs \<Rightarrow> nat \<Rightarrow> byte list" where
  "info_bytes fs sector_count =
     (let cluster_count = sub32 (sub32 sector_count (FAT32_FAT_START div FAT_SECTOR_SIZE)) (secs_per_fat fs * 2) div secs_per_cluster fs;
          free_count = sub32 cluster_count (data_offset (fat_tree fs));
          next_free = u32 (data_offset (fat_tree fs))
      in le32_bytes 0x41615252 @ zeros 480 @ le32_bytes 0x61417272 @ le32_bytes free_count @
         le32_bytes (u32 (next_free + CLUSTER_OFFSET)) @ zeros 12 @ le32_bytes 0xAA550000)"

definition write_fs_info_block :: "'v volume \<Rightarrow> 'v fatfs \<Rightarrow> nat \<Rightarrow> (unit, 'v fatfs) io" where
  "write_fs_info_block vol fs sector_count =
     (case volume_write vol (fs_volume (fat_tree fs)) (1 * FAT_SECTOR_SIZE) (Some (info_bytes fs sector_count)) 512 of
        (r, v) \<Rightarrow> (r, set_vol fs v))"

definition fatfs_write_super_block :: "'v volume \<Rightarrow> 'v fatfs \<Rightarrow> (unit, 'v fatfs) io" where
  "fatfs_write_super_block vol fs =
     (let sz = disk_bytes (blocksize vol) (get_block_count vol (fs_volume (fat_tree fs)));
          sz = (if sz > MAX_DISK_SIZE then MAX_DISK_SIZE else sz);
          sector_count = u32 (sz div FAT_SECTOR_SIZE)
      in case write_super_block_fat32 vol fs sector_count of
           (None, fs) \<Rightarrow> (None, fs)
         | (Some _, fs) \<Rightarrow> write_fs_info_block vol fs sector_count)"

section \<open>Building the image\<close>

text \<open>The second half, once the directories and files have their positions: the data is moved behind the tables, and the
  sectors and tables are written in front of it.\<close>

definition build_structures :: "'v volume \<Rightarrow> 'v volume \<Rightarrow> bool \<Rightarrow> 'v fatfs \<Rightarrow> (unit, 'v fatfs) io" where
  "build_structures vol avol mem fs =
     (case volume_memmove vol (fs_volume (fat_tree fs)) (FAT32_FAT_START + 2 * fatsize fs) 0
             (mul64 (data_offset (fat_tree fs)) (blocksize avol)) of
        (None, v) \<Rightarrow> (None, set_vol fs v)
      | (Some _, v) \<Rightarrow>
     (case volume_write vol v 0 None (FAT32_FAT_START + 2 * fatsize fs) of
        (None, v) \<Rightarrow> (None, set_vol fs v)
      | (Some _, v) \<Rightarrow>
     (case fatfs_write_super_block vol (set_vol fs v) of
        (None, fs) \<Rightarrow> (None, fs)
      | (Some _, fs) \<Rightarrow> fatfs_build_fats vol mem fs)))"

definition fatfs_build_format :: "'v volume \<Rightarrow> 'v volume \<Rightarrow> bool \<Rightarrow> 'v fatfs \<Rightarrow> (unit, 'v fatfs) io" where
  "fatfs_build_format vol avol mem fs =
     (case compute_dir_sizes mem (fs\<lparr>fat_tree := fstree_sort (fat_tree fs)\<rparr>) of
        (None, fs) \<Rightarrow> (None, fs)
      | (Some dirs, fs) \<Rightarrow>
     (case fstree_add_gap avol (fat_tree fs) 0 dirs of
        (None, t) \<Rightarrow> (None, fs\<lparr>fat_tree := t\<rparr>)
      | (Some _, t) \<Rightarrow>
     (case enforce_min_size vol (fs\<lparr>fat_tree := t\<rparr>) of
        (None, fs) \<Rightarrow> (None, fs)
      | (Some _, fs) \<Rightarrow>
          let sz = disk_bytes (blocksize vol) (get_block_count vol (fs_volume (fat_tree fs)));
              fs = adjust_file_indices (compute_fs_parameters sz fs)
          in case write_directory_contents avol mem fs (nodes_by_type (fat_tree fs) TREE_NODE_DIR) of
               (None, fs) \<Rightarrow> (None, fs)
             | (Some _, fs) \<Rightarrow> build_structures vol avol mem fs)))"

definition filesystem_fatfs_create :: "bool \<Rightarrow> 'v volume \<Rightarrow> 'v \<Rightarrow> ('v volume \<times> 'v fatfs) option" where
  "filesystem_fatfs_create mem vol v =
     (if \<not> mem \<or> disk_bytes (blocksize vol) (get_max_block_count vol v) < FAT32_MIN_SECTORS * FAT_SECTOR_SIZE then None
      else Some (volume_blocksize_adapter_create vol CLUSTER_SIZE_PREFERRED 0,
        \<lparr>fat_tree = (fstree_create v)\<lparr>no_sparse := True\<rparr>, secs_per_cluster = CLUSTER_SIZE_PREFERRED div FAT_SECTOR_SIZE,
         secs_per_fat = 0, fatsize = 0, fs_oem = ascii ''Goliath'', fs_label = ascii ''NO NAME''\<rparr>))"

section \<open>Properties of the file system\<close>

definition fatfs_prop :: "property_desc list" where
  "fatfs_prop =
     [\<lparr>pd_type = PROPERTY_TYPE_STRING, pd_name = ''oem'', pd_enum = []\<rparr>,
      \<lparr>pd_type = PROPERTY_TYPE_STRING, pd_name = ''label'', pd_enum = []\<rparr>]"

definition fatfs_set_property :: "nat \<Rightarrow> 'v fatfs \<Rightarrow> property_value \<Rightarrow> 'v fatfs option" where
  "fatfs_set_property i fs value =
     (case value of
        PropString s \<Rightarrow>
          (if i = 0 then (if length s \<ge> 9 then None else Some (fs\<lparr>fs_oem := ascii s\<rparr>))
           else if i = 1 then (if length s \<ge> 12 then None else Some (fs\<lparr>fs_label := ascii s\<rparr>))
           else None)
      | _ \<Rightarrow> None)"

definition of_ascii :: "byte list \<Rightarrow> string" where
  "of_ascii bs = map (\<lambda>b. char_of (unat b)) bs"

definition fatfs_get_property :: "nat \<Rightarrow> 'v fatfs \<Rightarrow> property_value option" where
  "fatfs_get_property i fs =
     (if i = 0 then Some (PropString (of_ascii (fs_oem fs)))
      else if i = 1 then Some (PropString (of_ascii (fs_label fs)))
      else None)"

definition fatfs_meta :: "'v fatfs meta_object" where
  "fatfs_meta =
     \<lparr>meta_name = ''fatfs_filesystem_t'', meta_count = length fatfs_prop,
      meta_desc = (\<lambda>i. if i < length fatfs_prop then Some (fatfs_prop ! i) else None),
      meta_set = fatfs_set_property, meta_get = fatfs_get_property\<rparr>"

lemma of_ascii_ascii: "of_ascii (ascii s) = s"
proof -
  have "unat (of_char c :: byte) = of_char c" for c
  proof -
    have "(of_char c :: byte) = of_nat (of_char c)" by (simp add: of_nat_of_char)
    then show ?thesis using of_char_mod_256 [of c, where ?'a = nat] unat_of_nat_byte [of "of_char c"] by simp
  qed
  then show ?thesis by (simp add: of_ascii_def ascii_def comp_def)
qed

interpretation fatp: property_access fatfs_meta "\<lambda>fs. True" "\<lambda>i fs v. v"
  by unfold_locales (auto simp: fatfs_meta_def fatfs_set_property_def fatfs_get_property_def fatfs_prop_def of_ascii_ascii
      split: property_value.splits if_splits)

section \<open>The size of a cluster\<close>

lemma parameter_loop_ok:
  assumes "0 < i" "i \<le> 9" "FAT32_MIN_SECTORS \<le> sectors" "i \<le> Suc (sectors div FAT32_MIN_SECTORS)"
  shows "parameter_loop sectors i (if i = 1 then st else (i - 1, sectors div (i - 1))) =
    (let s = min 8 (sectors div FAT32_MIN_SECTORS) in (s, sectors div s))"
  using assms(1,2,4)
proof (induction "9 - i" arbitrary: i st)
  case 0
  then show ?case by (subst parameter_loop.simps) (simp add: CLUSTER_SIZE_PREFERRED_def FAT_SECTOR_SIZE_def min_def Let_def)
next
  case (Suc d)
  have i: "0 < i" "i \<le> 8" "d = 9 - Suc i" using Suc by auto
  have lt: "sectors div i < FAT32_MIN_SECTORS \<longleftrightarrow> sectors div FAT32_MIN_SECTORS < i"
    using i(1) by (simp add: div_less_iff_less_mult mult.commute FAT32_MIN_SECTORS_def)
  show ?case
  proof (cases "sectors div FAT32_MIN_SECTORS < i")
    case True
    then have "i = Suc (sectors div FAT32_MIN_SECTORS)" using Suc.prems(3) by simp
    moreover have "1 \<le> sectors div FAT32_MIN_SECTORS"
      using assms(3) div_le_mono [of FAT32_MIN_SECTORS sectors FAT32_MIN_SECTORS] by (simp add: FAT32_MIN_SECTORS_def)
    ultimately show ?thesis
      using True lt i(2) by (subst parameter_loop.simps) (simp add: CLUSTER_SIZE_PREFERRED_def FAT_SECTOR_SIZE_def Let_def min_def)
  next
    case False
    then have "parameter_loop sectors i (if i = 1 then st else (i - 1, sectors div (i - 1))) = parameter_loop sectors (Suc i) (i, sectors div i)"
      using lt i by (subst parameter_loop.simps) (simp add: CLUSTER_SIZE_PREFERRED_def FAT_SECTOR_SIZE_def Let_def)
    then show ?thesis using Suc.hyps(1) [OF i(3)] i False by simp
  qed
qed

lemma compute_fs_parameters_ok:
  assumes "disk_size div FAT_SECTOR_SIZE = n" "FAT32_MIN_SECTORS \<le> n" "n < 2 ^ 32"
  shows "secs_per_cluster (compute_fs_parameters disk_size fs) = min 8 (n div FAT32_MIN_SECTORS)"
    "secs_per_fat (compute_fs_parameters disk_size fs) = div_up (n div min 8 (n div FAT32_MIN_SECTORS)) 128"
    "fatsize (compute_fs_parameters disk_size fs) = div_up (n div min 8 (n div FAT32_MIN_SECTORS)) 128 * 512"
proof -
  have u: "u32 n = n" using assms(3) by (simp add: u32_def)
  have p: "parameter_loop n 1 (1, n) = (let s = min 8 (n div FAT32_MIN_SECTORS) in (s, n div s))"
    using parameter_loop_ok [of 1 n "(1, n)"] assms(2) by simp
  have "div_up (n div min 8 (n div FAT32_MIN_SECTORS)) 128 * 512 < 2 ^ 32"
  proof (cases "n div FAT32_MIN_SECTORS \<ge> 8")
    case True
    have "div_up (n div 8) 128 \<le> 2 ^ 22" using assms(3) by (intro div_up_le) simp_all
    then show ?thesis using True by simp
  next
    case False
    then have "n < 2 ^ 20" by (simp add: FAT32_MIN_SECTORS_def div_less_iff_less_mult not_le)
    then have "n \<le> 2 ^ 13 * 128" by simp
    then have "n div min 8 (n div FAT32_MIN_SECTORS) \<le> 2 ^ 13 * 128" by (rule le_trans [OF div_le_dividend])
    then have "div_up (n div min 8 (n div FAT32_MIN_SECTORS)) 128 \<le> 2 ^ 13" by (intro div_up_le) simp_all
    then show ?thesis by simp
  qed
  then have u2: "u32 (div_up (n div min 8 (n div FAT32_MIN_SECTORS)) 128 * 512) = div_up (n div min 8 (n div FAT32_MIN_SECTORS)) 128 * 512"
    by (simp add: u32_def)
  have c: "FAT32_ENTRIES_PER_SECTOR = 128" "FAT_SECTOR_SIZE = 512" by (simp_all add: FAT32_ENTRIES_PER_SECTOR_def FAT_SECTOR_SIZE_def)
  have "compute_fs_parameters disk_size fs = fs\<lparr>secs_per_cluster := min 8 (n div FAT32_MIN_SECTORS),
      secs_per_fat := div_up (n div min 8 (n div FAT32_MIN_SECTORS)) 128, fatsize := div_up (n div min 8 (n div FAT32_MIN_SECTORS)) 128 * 512\<rparr>"
  proof -
    have "disk_size div 512 = n" using assms(1) by (simp add: c)
    then show ?thesis
      unfolding compute_fs_parameters_def Let_def c div_up_def [symmetric] by (simp only: u p Let_def prod.case u2)
  qed
  then show "secs_per_cluster (compute_fs_parameters disk_size fs) = min 8 (n div FAT32_MIN_SECTORS)"
    "secs_per_fat (compute_fs_parameters disk_size fs) = div_up (n div min 8 (n div FAT32_MIN_SECTORS)) 128"
    "fatsize (compute_fs_parameters disk_size fs) = div_up (n div min 8 (n div FAT32_MIN_SECTORS)) 128 * 512"
    by simp_all
qed

text \<open>C31: a disk with at least 66000 sectors gets the largest cluster size of up to eight sectors for which 66000 clusters remain,
  and the table has an entry for every cluster of the data area. Directories are placed at multiples of 4096 bytes, and the first
  cluster of an entry is the position divided by the cluster size; it leads back to the position for all of them exactly if the
  number of sectors per cluster is a power of two, which the choice does not ensure.\<close>

theorem fat_cluster_placement:
  fixes fs :: "'v fatfs"
  assumes "disk_size div FAT_SECTOR_SIZE = n" "FAT32_MIN_SECTORS \<le> n" "n < 2 ^ 32"
  defines "fs' \<equiv> compute_fs_parameters disk_size fs"
  shows "secs_per_cluster fs' = min 8 (n div FAT32_MIN_SECTORS) \<and>
    4 * ((n - FAT32_RESERVED_COUNT - 2 * secs_per_fat fs') div secs_per_cluster fs' + 2) \<le> fatsize fs' \<and>
    ((\<forall>start. 4096 dvd start \<and> start < 2 ^ 40 \<longrightarrow> (get_cluster_index fs' start - CLUSTER_OFFSET) * fat_clustersize fs' = start) \<longleftrightarrow>
      secs_per_cluster fs' \<in> {1, 2, 4, 8})"
proof -
  define s where "s = min 8 (n div FAT32_MIN_SECTORS)"
  note p = compute_fs_parameters_ok [OF assms(1-3), of fs, folded s_def fs'_def]
  have s: "1 \<le> s" "s \<le> 8"
    using assms(2) div_le_mono [of FAT32_MIN_SECTORS n FAT32_MIN_SECTORS] by (auto simp: s_def FAT32_MIN_SECTORS_def)
  have "4 * ((n - FAT32_RESERVED_COUNT - 2 * secs_per_fat fs') div s + 2) \<le> 4 * (n div s)"
  proof (rule mult_le_mono2)
    have "(n - 32) div s + 2 = (n - 32 + 2 * s) div s" using s by simp
    also have "\<dots> \<le> n div s" using s assms(2) by (intro div_le_mono) (simp add: FAT32_MIN_SECTORS_def)
    finally have "(n - 32) div s + 2 \<le> n div s" .
    moreover have "(n - 32 - 2 * secs_per_fat fs') div s \<le> (n - 32) div s" by (rule div_le_mono) simp
    ultimately show "(n - FAT32_RESERVED_COUNT - 2 * secs_per_fat fs') div s + 2 \<le> n div s" unfolding FAT32_RESERVED_COUNT_def by linarith
  qed
  moreover have "4 * (n div s) \<le> fatsize fs'" using div_up_ge [of 128 "n div s"] unfolding p(3) by simp
  ultimately have tab: "4 * ((n - FAT32_RESERVED_COUNT - 2 * secs_per_fat fs') div secs_per_cluster fs' + 2) \<le> fatsize fs'"
    unfolding p(1) by (rule le_trans)
  have idx: "get_cluster_index fs' start - CLUSTER_OFFSET = start div (512 * s)" "fat_clustersize fs' = 512 * s" if "start < 2 ^ 40" for start
  proof -
    have "start div (512 * s) \<le> start div 512" using s(1) by (intro div_le_mono2) simp_all
    also have "\<dots> < 2 ^ 31" using that by (simp add: div_less_iff_less_mult)
    finally show "get_cluster_index fs' start - CLUSTER_OFFSET = start div (512 * s)"
      using s(2) by (simp add: get_cluster_index_def p(1) u32_def FAT_SECTOR_SIZE_def CLUSTER_OFFSET_def)
    show "fat_clustersize fs' = 512 * s" using s(2) by (simp add: fat_clustersize_def p(1) u32_def FAT_SECTOR_SIZE_def)
  qed
  have "(\<forall>start. 4096 dvd start \<and> start < 2 ^ 40 \<longrightarrow> (get_cluster_index fs' start - CLUSTER_OFFSET) * fat_clustersize fs' = start) \<longleftrightarrow>
      512 * s dvd 4096" (is "?all \<longleftrightarrow> ?dvd")
  proof
    assume ?all
    from spec [OF this, of 4096] have "(get_cluster_index fs' 4096 - CLUSTER_OFFSET) * fat_clustersize fs' = 4096"
      by (simp only: dvd_refl) simp
    moreover have "(4096 :: nat) < 2 ^ 40" by simp
    ultimately have "4096 div (512 * s) * (512 * s) = 4096" by (simp only: idx)
    then show ?dvd using dvd_triv_right [of "512 * s" "4096 div (512 * s)"] by (simp only:)
  next
    assume ?dvd
    show ?all
    proof (intro allI impI)
      fix start :: nat assume st: "4096 dvd start \<and> start < 2 ^ 40"
      then have "512 * s dvd start" using dvd_trans [OF \<open>?dvd\<close>] by blast
      then have "start div (512 * s) * (512 * s) = start" by (rule dvd_div_mult_self)
      then show "(get_cluster_index fs' start - CLUSTER_OFFSET) * fat_clustersize fs' = start" using st idx [of start] by simp
    qed
  qed
  moreover have "s \<in> {1, 2, 3, 4, 5, 6, 7, 8}" using s by auto
  then have "512 * s dvd 4096 \<longleftrightarrow> s \<in> {1, 2, 4, 8}" by auto
  ultimately show ?thesis using tab p(1) by (simp add: s_def)
qed

theorem fat_cluster_placement_witness:
  "\<not> (\<forall>start. 4096 dvd start \<and> start < 2 ^ 40 \<longrightarrow>
      (get_cluster_index (compute_fs_parameters 104857600 (fat_demo 0)) start - CLUSTER_OFFSET) *
        fat_clustersize (compute_fs_parameters 104857600 (fat_demo 0)) = start)"
proof -
  have "104857600 div FAT_SECTOR_SIZE = 204800" "FAT32_MIN_SECTORS \<le> 204800" "(204800 :: nat) < 2 ^ 32"
    by (simp_all add: FAT_SECTOR_SIZE_def FAT32_MIN_SECTORS_def)
  from fat_cluster_placement [OF this, of "fat_demo 0"] show ?thesis by (simp add: FAT32_MIN_SECTORS_def)
qed

end
