(* ===== verification/Cpiofs.thy ===== *)
theory Cpiofs
  imports Tar VolStream Links TreeOrder Adapter
begin

unbundle bit_operations_syntax

text \<open>
  The cpio file system: \<open>lib/filesystem/cpiofs/format.c\<close>, which writes the headers of the \<open>newc\<close> format, and
  \<open>cpiofs.c\<close>, which lays the tree out on a volume as an archive.
\<close>

section \<open>Writing a header\<close>

definition cpio_magic :: "byte list" where "cpio_magic = ascii ''070701''"
definition cpio_trailer :: "byte list" where "cpio_trailer = ascii ''TRAILER!!!''"

text \<open>The conversions \<open>%08X\<close> and \<open>%08lX\<close> of \<open>snprintf\<close>: at least eight digits.\<close>

definition hex_char :: "nat \<Rightarrow> byte" where
  "hex_char d = (if d < 10 then of_nat (0x30 + d) else of_nat (0x41 + (d - 10)))"

definition hex8 :: "nat \<Rightarrow> byte list" where
  "hex8 v = padded 8 (map hex_char (digit_list 16 v))"

text \<open>The text that \<open>snprintf\<close> puts into a buffer of 128 bytes.\<close>

definition header_text :: "nat list \<Rightarrow> byte list" where
  "header_text vs = take 127 (cpio_magic @ concat (map hex8 vs))"

text \<open>The switch over the type: mode, size and device number, or nothing for a type without a header.\<close>

definition cpio_numbers :: "tree_node \<Rightarrow> bool \<Rightarrow> (nat \<times> nat \<times> nat \<times> nat) option" where
  "cpio_numbers n hardlink =
     (case n_type n of
        TREE_NODE_DIR \<Rightarrow> Some (permissions n OR S_IFDIR, 0, 0, 0)
      | TREE_NODE_FILE \<Rightarrow> Some (permissions n OR S_IFREG, if hardlink then 0 else f_size (n_file n), 0, 0)
      | TREE_NODE_FIFO \<Rightarrow> Some (permissions n OR S_IFIFO, 0, 0, 0)
      | TREE_NODE_SOCKET \<Rightarrow> Some (permissions n OR S_IFSOCK, 0, 0, 0)
      | TREE_NODE_CHAR_DEV \<Rightarrow> Some (permissions n OR S_IFCHR, 0, major (device_number n), minor (device_number n))
      | TREE_NODE_BLOCK_DEV \<Rightarrow> Some (permissions n OR S_IFBLK, 0, major (device_number n), minor (device_number n))
      | TREE_NODE_SYMLINK \<Rightarrow> Some (permissions n OR S_IFLNK, length (link_target n) + 1, 0, 0)
      | _ \<Rightarrow> None)"

definition append_padding :: "'o ostream \<Rightarrow> 'o \<Rightarrow> nat \<Rightarrow> (unit, 'o) io" where
  "append_padding strm fp len = (if len mod 4 \<noteq> 0 then ostream_append strm fp (zeros (4 - len mod 4)) else (Some (), fp))"

definition append_target :: "'o ostream \<Rightarrow> 'o \<Rightarrow> tree_node \<Rightarrow> (unit, 'o) io" where
  "append_target strm fp n =
     (if n_type n = TREE_NODE_SYMLINK then
        (let pathlen = u32 (length (link_target n) + 1) in
         case ostream_append strm fp (take pathlen (ascii (link_target n) @ [0])) of
           (None, fp) \<Rightarrow> (None, fp)
         | (Some _, fp) \<Rightarrow> append_padding strm fp pathlen)
      else (Some (), fp))"

text \<open>\<open>n\<close> is the node to write and \<open>m\<close> the node whose parent and name it has, which differ for the copy of a node that
  stands for a hard link. \<open>mem\<close> tells whether the allocation of the path succeeds.\<close>

definition cpio_write_header :: "bool \<Rightarrow> 'v fstree \<Rightarrow> 'o ostream \<Rightarrow> 'o \<Rightarrow> tree_node \<Rightarrow> nat \<Rightarrow> bool \<Rightarrow> (unit, 'o) io" where
  "cpio_write_header mem fs strm fp n m hardlink =
     (case cpio_numbers n hardlink of
        None \<Rightarrow> (Some (), fp)
      | Some (mode, sz, dev_major, dev_minor) \<Rightarrow>
     (case fstree_get_path mem fs m of
        None \<Rightarrow> (None, fp)
      | Some path0 \<Rightarrow>
     (let path = ascii (fstree_canonicalize_path path0);
          pathlen = u32 (length path);
          hdr = header_text [inode_num n, mode, n_uid n, n_gid n, link_count n, n_mtime n, u32 sz, 3, 1, dev_major, dev_minor, u32 (pathlen + 1), 0]
      in case ostream_append strm fp hdr of
        (None, fp) \<Rightarrow> (None, fp)
      | (Some _, fp) \<Rightarrow>
     (case ostream_append strm fp (take (u32 (pathlen + 1)) (path @ [0])) of
        (None, fp) \<Rightarrow> (None, fp)
      | (Some _, fp) \<Rightarrow>
     (case append_padding strm fp (u32 (pathlen + 1 + 110)) of
        (None, fp) \<Rightarrow> (None, fp)
      | (Some _, fp) \<Rightarrow> append_target strm fp n)))))"

text \<open>The loop that fills up the trailer, one byte at a time.\<close>

function fill_record :: "'o ostream \<Rightarrow> 'o \<Rightarrow> nat \<Rightarrow> (unit, 'o) io" where
  "fill_record strm fp off =
     (if off mod 512 = 0 then (Some (), fp)
      else case ostream_append strm fp [0] of
          (None, fp) \<Rightarrow> (None, fp)
        | (Some _, fp) \<Rightarrow> fill_record strm fp (add64 off 1))"
  by pat_completeness auto
termination
proof (relation "measure (\<lambda>(strm, fp, off). (512 - off mod 512) mod 512)", goal_cases)
  case (2 strm fp off)
  have "(512 :: nat) dvd max64" by simp
  then have "add64 off 1 mod 512 = (off + 1) mod 512" unfolding add64_def by (rule mod_mod_cancel)
  also have "\<dots> = (if off mod 512 = 511 then 0 else off mod 512 + 1)" by (simp add: mod_Suc)
  finally have "add64 off 1 mod 512 = (if off mod 512 = 511 then 0 else off mod 512 + 1)" .
  moreover have "off mod 512 < 512" by simp
  ultimately have "(512 - add64 off 1 mod 512) mod 512 < (512 - off mod 512) mod 512" using 2(1) by (auto split: if_splits)
  then show ?case by (simp only: in_measure case_prod_conv)
qed simp

declare fill_record.simps [simp del]

definition cpio_write_trailer :: "nat \<Rightarrow> 'o ostream \<Rightarrow> 'o \<Rightarrow> (unit, 'o) io" where
  "cpio_write_trailer off strm fp =
     (let namelen = length cpio_trailer;
          hdr = header_text [0, 0, 0, 0, 1, 0, 0, 0, 0, 0, 0, namelen + 1, 0]
      in case ostream_append strm fp hdr of
        (None, fp) \<Rightarrow> (None, fp)
      | (Some _, fp) \<Rightarrow>
     (case ostream_append strm fp (cpio_trailer @ [0]) of
        (None, fp) \<Rightarrow> (None, fp)
      | (Some _, fp) \<Rightarrow> fill_record strm fp (add64 off (length hdr + namelen + 1))))"

section \<open>Laying out an archive\<close>

text \<open>The two loops of \<open>write_tree\<close>. A slot of the inode table is never empty and a link always resolved when they
  run; the model fails there.\<close>

fun write_inodes :: "bool \<Rightarrow> 'v fstree \<Rightarrow> 'o ostream \<Rightarrow> 'o \<Rightarrow> nat option list \<Rightarrow> (unit, 'o) io" where
  "write_inodes mem fs strm fp [] = (Some (), fp)"
| "write_inodes mem fs strm fp (None # ns) = (None, fp)"
| "write_inodes mem fs strm fp (Some n # ns) =
     (if n_type (nodes fs n) \<noteq> TREE_NODE_FILE
      then (case cpio_write_header mem fs strm fp (nodes fs n) n False of
              (None, fp) \<Rightarrow> (None, fp)
            | (Some _, fp) \<Rightarrow> write_inodes mem fs strm fp ns)
      else write_inodes mem fs strm fp ns)"

definition link_dummy :: "'v fstree \<Rightarrow> nat \<Rightarrow> nat \<Rightarrow> tree_node" where
  "link_dummy fs n tgt = (nodes fs tgt)\<lparr>n_parent := n_parent (nodes fs n), n_name := n_name (nodes fs n)\<rparr>"

fun write_hard_links :: "bool \<Rightarrow> 'v fstree \<Rightarrow> 'o ostream \<Rightarrow> 'o \<Rightarrow> nat list \<Rightarrow> (unit, 'o) io" where
  "write_hard_links mem fs strm fp [] = (Some (), fp)"
| "write_hard_links mem fs strm fp (n # ns) =
     (case link_resolved (nodes fs n) of
        None \<Rightarrow> (None, fp)
      | Some tgt \<Rightarrow>
          (if n_type (nodes fs tgt) \<noteq> TREE_NODE_FILE then (None, fp)
           else case cpio_write_header mem fs strm fp (link_dummy fs n tgt) n True of
               (None, fp) \<Rightarrow> (None, fp)
             | (Some _, fp) \<Rightarrow> write_hard_links mem fs strm fp ns))"

definition cpio_write_tree :: "bool \<Rightarrow> 'v fstree \<Rightarrow> 'o ostream \<Rightarrow> 'o \<Rightarrow> (unit, 'o) io" where
  "cpio_write_tree mem fs strm fp =
     (case write_inodes mem fs strm fp (inode_table fs) of
        (None, fp) \<Rightarrow> (None, fp)
      | (Some _, fp) \<Rightarrow> write_hard_links mem fs strm fp (nodes_by_type fs TREE_NODE_HARD_LINK))"

definition cpio_estimate_tree_size :: "bool \<Rightarrow> 'v fstree \<Rightarrow> nat option" where
  "cpio_estimate_tree_size mem fs =
     (if \<not> mem then None
      else case cpio_write_tree mem fs null_ostream 0 of
          (None, _) \<Rightarrow> None
        | (Some _, sz) \<Rightarrow> Some sz)"

definition cpio_insert_file_header :: "'v volume \<Rightarrow> bool \<Rightarrow> 'v fstree \<Rightarrow> nat \<Rightarrow> (unit, 'v fstree) io" where
  "cpio_insert_file_header vol mem fs m =
     (case cpio_write_header mem fs null_ostream 0 (nodes fs m) m False of
        (None, _) \<Rightarrow> (None, fs)
      | (Some _, bytes_written) \<Rightarrow>
          (let start = mul64 (start_index (file_of fs m)) (blocksize vol) in
           case fstree_add_gap vol fs (start_index (file_of fs m)) bytes_written of
             (None, fs) \<Rightarrow> (None, fs)
           | (Some _, fs) \<Rightarrow>
               (case cpio_write_header mem fs (vol_ostream_ops vol)
                       (volume_ostream_create (fs_volume fs) start bytes_written) (nodes fs m) m False of
                  (r, vstrm) \<Rightarrow> (r, fs\<lparr>fs_volume := wrapped vstrm\<rparr>))))"

fun cpio_insert_file_headers :: "'v volume \<Rightarrow> bool \<Rightarrow> 'v fstree \<Rightarrow> nat list \<Rightarrow> (unit, 'v fstree) io" where
  "cpio_insert_file_headers vol mem fs [] = (Some (), fs)"
| "cpio_insert_file_headers vol mem fs (m # ms) =
     (if fstree_file_physical_size (blocksize vol) (file_of fs m) = 0 then cpio_insert_file_headers vol mem fs ms
      else case cpio_insert_file_header vol mem fs m of
          (None, fs) \<Rightarrow> (None, fs)
        | (Some _, fs) \<Rightarrow> cpio_insert_file_headers vol mem fs ms)"

fun cpio_append_zero_size_files :: "bool \<Rightarrow> nat \<Rightarrow> 'v fstree \<Rightarrow> 'o ostream \<Rightarrow> 'o \<Rightarrow> nat list \<Rightarrow> (unit, 'o) io" where
  "cpio_append_zero_size_files mem bs fs strm fp [] = (Some (), fp)"
| "cpio_append_zero_size_files mem bs fs strm fp (m # ms) =
     (if fstree_file_physical_size bs (file_of fs m) \<noteq> 0 then cpio_append_zero_size_files mem bs fs strm fp ms
      else case cpio_write_header mem fs strm fp (nodes fs m) m False of
          (None, fp) \<Rightarrow> (None, fp)
        | (Some _, fp) \<Rightarrow> cpio_append_zero_size_files mem bs fs strm fp ms)"

text \<open>\<open>cpio_lay_out\<close> is the part of \<open>cpio_build_format\<close> that follows the preparation of the tree.\<close>

definition cpio_lay_out :: "'v volume \<Rightarrow> bool \<Rightarrow> 'v fstree \<Rightarrow> (unit, 'v fstree) io" where
  "cpio_lay_out vol mem fs =
     (case cpio_estimate_tree_size mem fs of
        None \<Rightarrow> (None, fs)
      | Some sz \<Rightarrow>
     (case fstree_add_gap vol fs 0 sz of
        (None, fs) \<Rightarrow> (None, fs)
      | (Some _, fs) \<Rightarrow>
     (case cpio_write_tree mem fs (vol_ostream_ops vol) (volume_ostream_create (fs_volume fs) 0 sz) of
        (None, vs) \<Rightarrow> (None, fs\<lparr>fs_volume := wrapped vs\<rparr>)
      | (Some _, vs) \<Rightarrow>
     (case cpio_insert_file_headers vol mem (fs\<lparr>fs_volume := wrapped vs\<rparr>) (files fs) of
        (None, fs) \<Rightarrow> (None, fs)
      | (Some _, fs) \<Rightarrow>
          let start = mul64 (data_offset fs) (blocksize vol) in
     (case cpio_append_zero_size_files mem (blocksize vol) fs (vol_ostream_ops vol)
             (volume_ostream_create (fs_volume fs) start 0xFFFFFFFFFFFFFFFF) (files fs) of
        (None, vs) \<Rightarrow> (None, fs\<lparr>fs_volume := wrapped vs\<rparr>)
      | (Some _, vs) \<Rightarrow>
     (case cpio_write_trailer start (vol_ostream_ops vol) vs of
        (r, vs) \<Rightarrow> (r, fs\<lparr>fs_volume := wrapped vs\<rparr>)))))))"

definition cpio_build_format :: "'v volume \<Rightarrow> bool \<Rightarrow> 'v fstree \<Rightarrow> (unit, 'v fstree) io" where
  "cpio_build_format vol mem fs =
     (case fstree_resolve_hard_links (fstree_sort fs) of
        (ret, fs) \<Rightarrow>
          if ret \<noteq> 0 then (None, fs)
          else case fstree_create_inode_table mem fs of
              (ret, fs) \<Rightarrow> if ret \<noteq> 0 then (None, fs) else cpio_lay_out vol mem fs)"

text \<open>\<open>filesystem_cpio_create\<close>: the operations of the volume that the file system uses, and the empty tree.\<close>

definition filesystem_cpio_create :: "'v volume \<Rightarrow> 'v \<Rightarrow> 'v volume \<times> 'v fstree" where
  "filesystem_cpio_create vol v = (volume_blocksize_adapter_create vol 4 0, (fstree_create v)\<lparr>no_sparse := True\<rparr>)"

end
