(* ===== verification/CpioRead.thy ===== *)
theory CpioRead
  imports Cpiofs FileData
begin

unbundle bit_operations_syntax

text \<open>
  A reader for archives of the \<open>newc\<close> format, written from the description of the format and independent of the writer, and
  the proof that it gets back every node of the tree, with the contents of the files, from what \<open>cpio_build_format\<close> leaves on a volume.
\<close>

section \<open>A reader\<close>

definition hex_digit :: "byte \<Rightarrow> nat option" where
  "hex_digit b =
     (if 0x30 \<le> b \<and> b \<le> 0x39 then Some (unat b - 0x30)
      else if 0x41 \<le> b \<and> b \<le> 0x46 then Some (unat b - 0x41 + 10)
      else if 0x61 \<le> b \<and> b \<le> 0x66 then Some (unat b - 0x61 + 10) else None)"

fun hex_number :: "nat \<Rightarrow> byte list \<Rightarrow> nat option" where
  "hex_number v [] = Some v"
| "hex_number v (b # bs) = (case hex_digit b of None \<Rightarrow> None | Some d \<Rightarrow> hex_number (v * 16 + d) bs)"

record cpio_entry =
  ce_ino :: nat
  ce_type :: nat
  ce_permissions :: nat
  ce_uid :: nat
  ce_gid :: nat
  ce_nlink :: nat
  ce_mtime :: nat
  ce_device :: "nat \<times> nat"
  ce_name :: "byte list"
  ce_data :: "byte list"

definition align4 :: "nat \<Rightarrow> nat" where
  "align4 n = (n + 3) div 4 * 4"

text \<open>A header has a magic number and thirteen numbers of eight digits; name and data follow, each filled up to four bytes.\<close>

definition read_entry :: "byte list \<Rightarrow> (cpio_entry \<times> byte list) option" where
  "read_entry b =
     (if take 6 b \<noteq> ascii ''070701'' then None
      else case those (map (\<lambda>i. hex_number 0 (slice (6 + 8 * i) 8 b)) [0..<13]) of
          None \<Rightarrow> None
        | Some v \<Rightarrow>
            (let namesize = v ! 11; filesize = v ! 6; start = align4 (110 + namesize) in
             if length b < start + filesize then None
             else Some (\<lparr>ce_ino = v ! 0, ce_type = v ! 1 div 2 ^ 12 * 2 ^ 12, ce_permissions = v ! 1 mod 2 ^ 12, ce_uid = v ! 2, ce_gid = v ! 3,
               ce_nlink = v ! 4, ce_mtime = v ! 5, ce_device = (v ! 9, v ! 10),
               ce_name = slice 110 (namesize - 1) b, ce_data = slice start filesize b\<rparr>, drop (align4 (start + filesize)) b)))"

lemma read_entry_shorter: "read_entry b = Some (e, r) \<Longrightarrow> length r < length b"
proof -
  assume r: "read_entry b = Some (e, r)"
  then obtain k where k: "r = drop (align4 k) b" "110 \<le> k" "take 6 b = ascii ''070701''"
    by (auto simp: read_entry_def Let_def align4_def split: if_splits option.splits)
  then have "b \<noteq> []" by (auto simp: ascii_def)
  moreover have "0 < align4 k" using k(2) by (simp add: align4_def)
  ultimately show ?thesis using k(1) by (simp add: length_drop)
qed

text \<open>The entries up to the trailer.\<close>

function cpio_read :: "byte list \<Rightarrow> cpio_entry list option" where
  "cpio_read b =
     (case read_entry b of
        None \<Rightarrow> None
      | Some (e, r) \<Rightarrow> if ce_name e = ascii ''TRAILER!!!'' then Some [] else map_option ((#) e) (cpio_read r))"
  by pat_completeness auto
termination by (relation "measure length") (auto dest: read_entry_shorter)

declare cpio_read.simps [simp del]

section \<open>Numbers of a header\<close>

lemma hex_digit_char: "d < 16 \<Longrightarrow> hex_digit (hex_char d) = Some d"
proof -
  have "list_all (\<lambda>d. hex_digit (hex_char d) = Some d) [0..<16]" by code_simp
  then show "d < 16 \<Longrightarrow> ?thesis" by (simp add: list_all_iff)
qed

lemma hex_number_digits: "\<forall>d\<in>set ds. d < 16 \<Longrightarrow> hex_number v (map hex_char ds) = Some (digits_val 16 v ds)"
  by (induction ds arbitrary: v) (simp_all add: hex_digit_char)

lemma hex8_ok:
  assumes "v < 2 ^ 32"
  shows "length (hex8 v) = 8" "hex_number 0 (hex8 v) = Some v"
proof -
  let ?ds = "replicate (8 - length (digit_list 16 v)) 0 @ digit_list 16 v"
  have l: "length (digit_list 16 v) \<le> 8" using assms by (intro digit_list_length) simp_all
  have h: "hex8 v = map hex_char ?ds" by (simp add: hex8_def padded_def hex_char_def)
  show "length (hex8 v) = 8" using l by (simp add: h)
  show "hex_number 0 (hex8 v) = Some v"
    unfolding h using digit_list_ok [of 16 v] digits_val_zeros [of 16 _ "digit_list 16 v"] by (subst hex_number_digits) auto
qed

lemma slice_concat:
  assumes "\<forall>x\<in>set xs. length x = k" "i < length xs"
  shows "slice (k * i) k (concat xs @ r) = xs ! i"
  using assms
proof (induction xs arbitrary: i)
  case (Cons x xs)
  show ?case
  proof (cases i)
    case (Suc j)
    then have "slice (k * i) k (concat (x # xs) @ r) = slice (k * j) k (concat xs @ r)" using Cons.prems by (simp add: slice_def)
    then show ?thesis using Cons Suc by simp
  qed (use Cons.prems in \<open>simp add: slice_def\<close>)
qed simp

lemma header_text_ok:
  assumes "\<forall>v\<in>set vs. v < 2 ^ 32" "length vs = 13"
  shows "length (header_text vs) = 110" "header_text vs = cpio_magic @ concat (map hex8 vs)"
    "those (map (\<lambda>i. hex_number 0 (slice (6 + 8 * i) 8 (header_text vs @ r))) [0..<13]) = Some vs"
proof -
  have c: "length (concat (map hex8 vs)) = 8 * length vs" using assms(1) by (induction vs) (simp_all add: hex8_ok)
  show h: "header_text vs = cpio_magic @ concat (map hex8 vs)" using c assms(2) by (simp add: header_text_def cpio_magic_def ascii_def)
  show "length (header_text vs) = 110" using c assms(2) unfolding h by (simp add: cpio_magic_def ascii_def)
  have "hex_number 0 (slice (6 + 8 * i) 8 (header_text vs @ r)) = Some (vs ! i)" if "i < 13" for i
  proof -
    have "length cpio_magic = 6" by (simp add: cpio_magic_def ascii_def)
    then have "drop (6 + 8 * i) (cpio_magic @ x) = drop (8 * i) x" for x by simp
    then have "slice (6 + 8 * i) 8 (header_text vs @ r) = slice (8 * i) 8 (concat (map hex8 vs) @ r)"
      unfolding h slice_def by (simp only: append_assoc)
    then show ?thesis using slice_concat [of "map hex8 vs" 8 i r] hex8_ok assms that by simp
  qed
  then have "map (\<lambda>i. hex_number 0 (slice (6 + 8 * i) 8 (header_text vs @ r))) [0..<13] = map Some (map ((!) vs) [0..<13])"
    by (auto intro!: map_cong)
  moreover have "map ((!) vs) [0..<13] = vs" using map_nth [of vs] assms(2) by (simp only:)
  moreover have "those (map Some xs) = Some xs" for xs :: "nat list" by (induction xs) simp_all
  ultimately show "those (map (\<lambda>i. hex_number 0 (slice (6 + 8 * i) 8 (header_text vs @ r))) [0..<13]) = Some vs" by (simp only:)
qed

section \<open>The bytes of a header\<close>

definition pad4 :: "nat \<Rightarrow> byte list" where
  "pad4 n = zeros ((4 - n mod 4) mod 4)"

lemma align4_pad4: "align4 n = n + length (pad4 n)"
proof -
  define q r where "q = n div 4" and "r = n mod 4"
  have n: "n = 4 * q + r" "r < 4" by (simp_all add: q_def r_def)
  then have "r = 0 \<or> r = 1 \<or> r = 2 \<or> r = 3" by linarith
  then show ?thesis unfolding align4_def pad4_def n(1) by auto
qed

lemma pad4_dvd: "4 dvd n + length (pad4 n)"
  by (simp add: align4_pad4 [symmetric] align4_def)

definition archived :: "nat list \<Rightarrow> byte list \<Rightarrow> byte list" where
  "archived vs p = header_text vs @ p @ [0] @ pad4 (111 + length p)"

lemma read_archived:
  assumes v: "\<forall>v\<in>set vs. v < 2 ^ 32" "length vs = 13" and p: "vs ! 11 = length p + 1" and d: "vs ! 6 = length d" and z: "length z = length (pad4 (length d))"
  shows "read_entry (archived vs p @ d @ z @ r) =
    Some (\<lparr>ce_ino = vs ! 0, ce_type = vs ! 1 div 2 ^ 12 * 2 ^ 12, ce_permissions = vs ! 1 mod 2 ^ 12, ce_uid = vs ! 2, ce_gid = vs ! 3,
       ce_nlink = vs ! 4, ce_mtime = vs ! 5, ce_device = (vs ! 9, vs ! 10), ce_name = p, ce_data = d\<rparr>, r)"
proof -
  define h where "h = header_text vs"
  define b where "b = archived vs p @ d @ z @ r"
  note t = header_text_ok [OF v]
  have lh: "length h = 110" using t(1) by (simp add: h_def)
  have b: "b = h @ p @ [0] @ pad4 (111 + length p) @ d @ z @ r" by (simp add: b_def archived_def h_def)
  have magic: "take 6 b = ascii ''070701''" unfolding b h_def t(2) by (simp add: cpio_magic_def ascii_def)
  have vals: "those (map (\<lambda>i. hex_number 0 (slice (6 + 8 * i) 8 b)) [0..<13]) = Some vs" unfolding b h_def by (rule t(3))
  define q where "q = length (h @ p @ [0] @ pad4 (111 + length p))"
  have s: "align4 (111 + length p) = q"
    by (simp add: q_def lh align4_pad4)
  have nm: "slice 110 (length p) b = p" unfolding b slice_def by (simp add: lh)
  have dt: "slice q (length d) b = d"
    unfolding b slice_def q_def by simp
  have "4 dvd q" unfolding s [symmetric] by (simp add: align4_def)
  then obtain k where k: "q = 4 * k" by (rule dvdE)
  have "pad4 (q + length d) = pad4 (length d)" by (simp add: pad4_def k)
  then have "align4 (q + length d) = q + length d + length z" by (simp add: align4_pad4 z)
  then have rest: "drop (align4 (q + length d)) b = r" unfolding b q_def by simp
  have len: "\<not> length b < q + length d" unfolding b q_def by simp
  show ?thesis
    unfolding b_def [symmetric] read_entry_def
    using magic vals nm dt len rest by (simp add: p d Let_def s)
qed

definition cpio_path :: "'v fstree \<Rightarrow> nat \<Rightarrow> byte list" where
  "cpio_path fs m = ascii (fstree_canonicalize_path (if n_parent (nodes fs m) = None then [slash] else path_print fs m))"

lemma path_cong:
  assumes "\<And>m. n_parent (nodes fs' m) = n_parent (nodes fs m) \<and> n_name (nodes fs' m) = n_name (nodes fs m)"
  shows "path_print fs' m = path_print fs m" "cpio_path fs' m = cpio_path fs m"
proof -
  show p: "path_print fs' m = path_print fs m" for m
  proof (induction m rule: less_induct)
    case (less m)
    then show ?case by (subst (1 2) path_print.simps) (simp add: assms split: option.splits)
  qed
  show "cpio_path fs' m = cpio_path fs m" by (simp add: cpio_path_def p assms)
qed

definition header_values :: "tree_node \<Rightarrow> byte list \<Rightarrow> nat \<times> nat \<times> nat \<times> nat \<Rightarrow> nat list" where
  "header_values n p = (\<lambda>(mode, sz, maj, mnr).
     [inode_num n, mode, n_uid n, n_gid n, link_count n, n_mtime n, u32 sz, 3, 1, maj, mnr, length p + 1, 0])"

definition target_bytes :: "tree_node \<Rightarrow> byte list" where
  "target_bytes n = (if n_type n = TREE_NODE_SYMLINK then ascii (link_target n) @ [0] @ pad4 (length (link_target n) + 1) else [])"

definition cpio_bytes :: "'v fstree \<Rightarrow> tree_node \<Rightarrow> nat \<Rightarrow> bool \<Rightarrow> byte list" where
  "cpio_bytes fs n m hl =
     (case cpio_numbers n hl of None \<Rightarrow> [] | Some x \<Rightarrow> archived (header_values n (cpio_path fs m) x) (cpio_path fs m) @ target_bytes n)"

definition short_paths :: "'v fstree \<Rightarrow> tree_node \<Rightarrow> nat \<Rightarrow> bool" where
  "short_paths fs n m \<longleftrightarrow> length (cpio_path fs m) < 2 ^ 31 \<and> length (link_target n) < 2 ^ 31"

text \<open>What \<open>write_tree\<close> writes, and the headers of the files without data.\<close>

definition tree_part :: "'v fstree \<Rightarrow> nat list \<Rightarrow> byte list" where
  "tree_part fs ns =
     concat (map (\<lambda>n. cpio_bytes fs (nodes fs n) n False) (filter (\<lambda>n. n_type (nodes fs n) \<noteq> TREE_NODE_FILE) ns)) @
     concat (map (\<lambda>n. cpio_bytes fs (link_dummy fs n (the (link_resolved (nodes fs n)))) n True) (nodes_by_type fs TREE_NODE_HARD_LINK))"

definition zero_part :: "'v fstree \<Rightarrow> nat \<Rightarrow> byte list" where
  "zero_part fs b = concat (map (\<lambda>n. cpio_bytes fs (nodes fs n) n False) (filter (\<lambda>n. fstree_file_physical_size b (file_of fs n) = 0) (files fs)))"

definition links_ok :: "'v fstree \<Rightarrow> bool" where
  "links_ok fs \<longleftrightarrow> (\<forall>n\<in>set (nodes_by_type fs TREE_NODE_HARD_LINK).
     \<exists>t. link_resolved (nodes fs n) = Some t \<and> n_type (nodes fs t) = TREE_NODE_FILE \<and> short_paths fs (nodes fs t) n)"

context ostream_sink
begin

lemma append_padding_ok:
  assumes "room fp (length (pad4 n) + r)"
  shows "\<exists>fp'. append_padding strm fp n = (Some (), fp') \<and> view fp' = upd (view fp) (pad4 n) \<and> room fp' r"
proof (cases "n mod 4 = 0")
  case True
  then show ?thesis using assms by (simp add: append_padding_def pad4_def zeros_def upd_Nil)
next
  case False
  then have "pad4 n = zeros (4 - n mod 4)" by (simp add: pad4_def)
  then show ?thesis using ostream_append_ok [of fp "pad4 n" r] assms False by (simp add: append_padding_def)
qed

lemma append_target_ok:
  assumes "room fp (length (target_bytes n) + r)" "length (link_target n) < 2 ^ 31"
  shows "\<exists>fp'. append_target strm fp n = (Some (), fp') \<and> view fp' = upd (view fp) (target_bytes n) \<and> room fp' r"
proof (cases "n_type n = TREE_NODE_SYMLINK")
  case True
  let ?t = "ascii (link_target n) @ [0]"
  have l: "u32 (length (link_target n) + 1) = length ?t" using assms(2) by (simp add: u32_def ascii_def)
  have t: "target_bytes n = ?t @ pad4 (length ?t)" using True by (simp add: target_bytes_def ascii_def)
  then have "room fp (length ?t + (length (pad4 (length ?t)) + r))" using assms(1) by (simp add: add.assoc)
  from ostream_append_ok [OF this] obtain fp1 where fp1: "ostream_append strm fp ?t = (Some (), fp1)"
    "view fp1 = upd (view fp) ?t" "room fp1 (length (pad4 (length ?t)) + r)" by blast
  from append_padding_ok [OF fp1(3)] fp1 show ?thesis unfolding append_target_def l t using True by (auto simp: upd_append)
next
  case False
  then show ?thesis using assms by (simp add: append_target_def target_bytes_def upd_Nil)
qed

lemma cpio_write_header_ok:
  assumes "room fp (length (cpio_bytes fs n m hl) + r)" "short_paths fs n m"
  shows "\<exists>fp'. cpio_write_header True fs strm fp n m hl = (Some (), fp') \<and> view fp' = upd (view fp) (cpio_bytes fs n m hl) \<and> room fp' r"
proof (cases "cpio_numbers n hl")
  case None
  then show ?thesis using assms by (simp add: cpio_write_header_def cpio_bytes_def upd_Nil)
next
  case (Some x)
  obtain mode sz maj mnr where x: "x = (mode, sz, maj, mnr)" by (rule prod_cases4)
  let ?p = "cpio_path fs m"
  let ?h = "header_text (header_values n ?p x)"
  obtain path where g: "fstree_get_path True fs m = Some path" "ascii (fstree_canonicalize_path path) = ?p"
    by (cases "n_parent (nodes fs m) = None") (simp_all add: fstree_get_path_def cpio_path_def)
  have len: "length ?p < 2 ^ 31" "length (link_target n) < 2 ^ 31" using assms(2) by (simp_all add: short_paths_def)
  have u: "u32 (length ?p) = length ?p" "u32 (length ?p + 1) = length (?p @ [0])" "u32 (length ?p + 1 + 110) = 111 + length ?p"
    using len(1) by (simp_all add: u32_def)
  have b: "cpio_bytes fs n m hl = ?h @ (?p @ [0]) @ pad4 (111 + length ?p) @ target_bytes n"
    by (simp add: cpio_bytes_def Some archived_def)
  have "room fp (length ?h + (length (?p @ [0]) + (length (pad4 (111 + length ?p)) + (length (target_bytes n) + r))))"
    using assms(1) by (simp add: b add.assoc)
  from ostream_append_ok [OF this] obtain f1 where f1: "ostream_append strm fp ?h = (Some (), f1)" "view f1 = upd (view fp) ?h"
    "room f1 (length (?p @ [0]) + (length (pad4 (111 + length ?p)) + (length (target_bytes n) + r)))" by blast
  from ostream_append_ok [OF f1(3)] obtain f2 where f2: "ostream_append strm f1 (?p @ [0]) = (Some (), f2)"
    "view f2 = upd (view f1) (?p @ [0])" "room f2 (length (pad4 (111 + length ?p)) + (length (target_bytes n) + r))" by blast
  from append_padding_ok [OF f2(3)] obtain f3 where f3: "append_padding strm f2 (111 + length ?p) = (Some (), f3)"
    "view f3 = upd (view f2) (pad4 (111 + length ?p))" "room f3 (length (target_bytes n) + r)" by blast
  from append_target_ok [OF f3(3) len(2)] obtain f4 where f4: "append_target strm f3 n = (Some (), f4)"
    "view f4 = upd (view f3) (target_bytes n)" "room f4 r" by blast
  have hv: "header_text [inode_num n, mode, n_uid n, n_gid n, link_count n, n_mtime n, u32 sz, 3, 1, maj, mnr, length (?p @ [0]), 0] = ?h"
    by (simp add: x header_values_def)
  have "cpio_write_header True fs strm fp n m hl = (Some (), f4)"
    unfolding cpio_write_header_def Some x g
    by (simp only: option.case prod.case g Let_def u hv f1(1) f2(1) f3(1) f4(1) take_all order_refl)
  then show ?thesis using f1(2) f2(2) f3(2) f4(2,3) by (simp add: b upd_append)
qed

lemma write_inodes_ok:
  assumes "room fp (length (concat (map (\<lambda>n. cpio_bytes fs (nodes fs n) n False) (filter (\<lambda>n. n_type (nodes fs n) \<noteq> TREE_NODE_FILE) ns))) + r)"
    "\<forall>n\<in>set ns. short_paths fs (nodes fs n) n"
  shows "\<exists>fp'. write_inodes True fs strm fp (map Some ns) = (Some (), fp') \<and>
    view fp' = upd (view fp) (concat (map (\<lambda>n. cpio_bytes fs (nodes fs n) n False) (filter (\<lambda>n. n_type (nodes fs n) \<noteq> TREE_NODE_FILE) ns))) \<and> room fp' r"
  using assms
proof (induction ns arbitrary: fp)
  case (Cons n ns)
  let ?c = "\<lambda>ns. concat (map (\<lambda>n. cpio_bytes fs (nodes fs n) n False) (filter (\<lambda>n. n_type (nodes fs n) \<noteq> TREE_NODE_FILE) ns))"
  show ?case
  proof (cases "n_type (nodes fs n) = TREE_NODE_FILE")
    case False
    let ?b = "cpio_bytes fs (nodes fs n) n False"
    have "room fp (length ?b + (length (?c ns) + r))" using Cons.prems False by (simp add: add.assoc)
    from cpio_write_header_ok [OF this] Cons.prems obtain f1 where f1: "cpio_write_header True fs strm fp (nodes fs n) n False = (Some (), f1)"
      "view f1 = upd (view fp) ?b" "room f1 (length (?c ns) + r)" by auto
    from Cons.IH [OF f1(3)] Cons.prems f1 False show ?thesis by (auto simp: upd_append)
  qed (use Cons in simp)
qed (simp add: upd_Nil)

lemma write_hard_links_ok:
  assumes "room fp (length (concat (map (\<lambda>n. cpio_bytes fs (link_dummy fs n (the (link_resolved (nodes fs n)))) n True) ns)) + r)"
    "\<forall>n\<in>set ns. \<exists>t. link_resolved (nodes fs n) = Some t \<and> n_type (nodes fs t) = TREE_NODE_FILE \<and> short_paths fs (nodes fs t) n"
  shows "\<exists>fp'. write_hard_links True fs strm fp ns = (Some (), fp') \<and>
    view fp' = upd (view fp) (concat (map (\<lambda>n. cpio_bytes fs (link_dummy fs n (the (link_resolved (nodes fs n)))) n True) ns)) \<and> room fp' r"
  using assms
proof (induction ns arbitrary: fp)
  case (Cons n ns)
  let ?c = "\<lambda>ns. concat (map (\<lambda>n. cpio_bytes fs (link_dummy fs n (the (link_resolved (nodes fs n)))) n True) ns)"
  obtain t where t: "link_resolved (nodes fs n) = Some t" "n_type (nodes fs t) = TREE_NODE_FILE" "short_paths fs (nodes fs t) n"
    using Cons.prems(2) by auto
  let ?b = "cpio_bytes fs (link_dummy fs n t) n True"
  have "room fp (length ?b + (length (?c ns) + r))" using Cons.prems t(1) by (simp add: add.assoc)
  moreover have "short_paths fs (link_dummy fs n t) n" using t(3) by (simp add: short_paths_def link_dummy_def)
  ultimately obtain f1 where f1: "cpio_write_header True fs strm fp (link_dummy fs n t) n True = (Some (), f1)"
      "view f1 = upd (view fp) ?b" "room f1 (length (?c ns) + r)"
    using cpio_write_header_ok by blast
  from Cons.IH [OF f1(3)] Cons.prems f1 t show ?case by (auto simp: upd_append)
qed (simp add: upd_Nil)

lemma cpio_write_tree_ok:
  assumes "room fp (length (tree_part fs ns) + r)" "\<forall>n\<in>set ns. short_paths fs (nodes fs n) n" "links_ok fs" "inode_table fs = map Some ns"
  shows "\<exists>fp'. cpio_write_tree True fs strm fp = (Some (), fp') \<and> view fp' = upd (view fp) (tree_part fs ns) \<and> room fp' r"
proof -
  let ?i = "concat (map (\<lambda>n. cpio_bytes fs (nodes fs n) n False) (filter (\<lambda>n. n_type (nodes fs n) \<noteq> TREE_NODE_FILE) ns))"
  let ?l = "concat (map (\<lambda>n. cpio_bytes fs (link_dummy fs n (the (link_resolved (nodes fs n)))) n True) (nodes_by_type fs TREE_NODE_HARD_LINK))"
  have "room fp (length ?i + (length ?l + r))" using assms(1) by (simp add: tree_part_def add.assoc)
  from write_inodes_ok [OF this assms(2)] obtain f1 where f1: "write_inodes True fs strm fp (map Some ns) = (Some (), f1)"
    "view f1 = upd (view fp) ?i" "room f1 (length ?l + r)" by blast
  from write_hard_links_ok [OF f1(3)] assms(3) f1 show ?thesis unfolding cpio_write_tree_def assms(4) links_ok_def by (auto simp: tree_part_def upd_append)
qed

lemma cpio_zero_files_ok:
  assumes "room fp (length (concat (map (\<lambda>n. cpio_bytes fs (nodes fs n) n False) (filter (\<lambda>n. fstree_file_physical_size b (file_of fs n) = 0) ns))) + r)"
    "\<forall>n\<in>set ns. short_paths fs (nodes fs n) n"
  shows "\<exists>fp'. cpio_append_zero_size_files True b fs strm fp ns = (Some (), fp') \<and>
    view fp' = upd (view fp) (concat (map (\<lambda>n. cpio_bytes fs (nodes fs n) n False) (filter (\<lambda>n. fstree_file_physical_size b (file_of fs n) = 0) ns))) \<and> room fp' r"
  using assms
proof (induction ns arbitrary: fp)
  case (Cons n ns)
  let ?c = "\<lambda>ns. concat (map (\<lambda>n. cpio_bytes fs (nodes fs n) n False) (filter (\<lambda>n. fstree_file_physical_size b (file_of fs n) = 0) ns))"
  show ?case
  proof (cases "fstree_file_physical_size b (file_of fs n) = 0")
    case True
    let ?b = "cpio_bytes fs (nodes fs n) n False"
    have "room fp (length ?b + (length (?c ns) + r))" using Cons.prems True by (simp add: add.assoc)
    from cpio_write_header_ok [OF this] Cons.prems obtain f1 where f1: "cpio_write_header True fs strm fp (nodes fs n) n False = (Some (), f1)"
      "view f1 = upd (view fp) ?b" "room f1 (length (?c ns) + r)" by auto
    from Cons.IH [OF f1(3)] Cons.prems f1 True show ?thesis by (auto simp: upd_append)
  qed (use Cons in simp)
qed (simp add: upd_Nil)

end

section \<open>The trailer\<close>

definition fill_count :: "nat \<Rightarrow> nat" where
  "fill_count off = (512 - off mod 512) mod 512"

lemma fill_count_step: "off mod 512 \<noteq> 0 \<Longrightarrow> fill_count off = Suc (fill_count (off + 1))"
proof -
  have s: "(off + 1) mod 512 = (if off mod 512 = 511 then 0 else off mod 512 + 1)" by (simp add: mod_Suc)
  have "off mod 512 < 512" by simp
  then show "off mod 512 \<noteq> 0 \<Longrightarrow> ?thesis" unfolding fill_count_def s by auto
qed

definition trailer_bytes :: "nat \<Rightarrow> byte list" where
  "trailer_bytes off = header_text [0, 0, 0, 0, 1, 0, 0, 0, 0, 0, 0, 11, 0] @ (cpio_trailer @ [0]) @ zeros (fill_count (off + 121))"

context ostream_sink
begin

lemma fill_record_ok:
  assumes "room fp (fill_count off + r)" "off + fill_count off < max64"
  shows "\<exists>fp'. fill_record strm fp off = (Some (), fp') \<and> view fp' = upd (view fp) (zeros (fill_count off)) \<and> room fp' r"
  using assms
proof (induction "fill_count off" arbitrary: fp off)
  case 0
  have "off mod 512 = 0" using 0(1) fill_count_step [of off] by (cases "off mod 512 = 0") simp_all
  then show ?case using 0 by (subst fill_record.simps) (simp add: upd_Nil zeros_def)
next
  case (Suc k)
  have m: "off mod 512 \<noteq> 0"
  proof
    assume "off mod 512 = 0"
    then show False using Suc(2) by (simp add: fill_count_def)
  qed
  have k: "k = fill_count (off + 1)" using Suc(2) fill_count_step [OF m] by simp
  have "room fp (length [0 :: byte] + (k + r))" using Suc.prems(1) unfolding Suc(2) [symmetric] by simp
  from ostream_append_ok [OF this] obtain f1 where f1: "ostream_append strm fp [0] = (Some (), f1)" "view f1 = upd (view fp) [0]" "room f1 (k + r)"
    by blast
  have a: "add64 off 1 = off + 1" using Suc.prems(2) Suc(2) by (simp add: add64_exact)
  have z: "zeros (Suc k) = [0] @ zeros k" by (simp add: zeros_def)
  have "room f1 (fill_count (off + 1) + r)" "off + 1 + fill_count (off + 1) < max64" using f1(3) k Suc.prems(2) Suc(2) by simp_all
  from Suc.hyps(1) [OF k this] f1 show ?case
    unfolding Suc(2) [symmetric] k [symmetric] using m by (subst fill_record.simps) (auto simp: a [simplified] z upd_append)
qed

lemma cpio_write_trailer_ok:
  assumes "room fp (length (trailer_bytes off) + r)" "off + 1024 < max64"
  shows "\<exists>fp'. cpio_write_trailer off strm fp = (Some (), fp') \<and> view fp' = upd (view fp) (trailer_bytes off) \<and> room fp' r"
proof -
  let ?h = "header_text [0, 0, 0, 0, 1, 0, 0, 0, 0, 0, 0, 11, 0]"
  have l: "length ?h = 110" by (rule header_text_ok(1)) simp_all
  have n: "length cpio_trailer = 10" by (simp add: cpio_trailer_def ascii_def)
  have "fill_count (off + 121) < 512" by (simp add: fill_count_def)
  then have off: "off + 121 + fill_count (off + 121) < max64" "add64 off (length ?h + length cpio_trailer + 1) = off + 121"
    using assms(2) unfolding l n by (simp_all add: add64_exact)
  have "room fp (length ?h + (length (cpio_trailer @ [0]) + (fill_count (off + 121) + r)))"
    using assms(1) by (simp add: trailer_bytes_def add.assoc)
  from ostream_append_ok [OF this] obtain f1 where f1: "ostream_append strm fp ?h = (Some (), f1)" "view f1 = upd (view fp) ?h"
    "room f1 (length (cpio_trailer @ [0]) + (fill_count (off + 121) + r))" by blast
  from ostream_append_ok [OF f1(3)] obtain f2 where f2: "ostream_append strm f1 (cpio_trailer @ [0]) = (Some (), f2)"
    "view f2 = upd (view f1) (cpio_trailer @ [0])" "room f2 (fill_count (off + 121) + r)" by blast
  from fill_record_ok [OF f2(3) off(1)] obtain f3 where f3: "fill_record strm f2 (off + 121) = (Some (), f3)"
    "view f3 = upd (view f2) (zeros (fill_count (off + 121)))" "room f3 r" by blast
  have "length cpio_trailer + 1 = 11" by (simp add: n)
  then have "cpio_write_trailer off strm fp = (Some (), f3)"
    using f1(1) f2(1) f3(1) off(2) by (simp add: cpio_write_trailer_def Let_def)
  then show ?thesis using f1(2) f2(2) f3(2,3) by (simp add: trailer_bytes_def upd_append)
qed

end

lemma read_trailer:
  assumes "4 dvd off"
  shows "cpio_read (trailer_bytes off @ r) = Some []"
proof -
  let ?vs = "[0, 0, 0, 0, 1, 0, 0, 0, 0, 0, 0, 11, 0 :: nat]"
  obtain k where k: "off = 4 * k" using assms by (rule dvdE)
  have "\<not> fill_count (off + 121) < 3"
  proof
    assume "fill_count (off + 121) < 3"
    moreover have "(off + 121) mod 512 < 512" by simp
    ultimately have "(off + 121) mod 512 = 0 \<or> (off + 121) mod 512 = 510 \<or> (off + 121) mod 512 = 511"
      unfolding fill_count_def by (cases "(off + 121) mod 512 = 0") auto
    then have "(off + 121) mod 512 mod 4 \<noteq> 1" by auto
    moreover have "(off + 121) mod 512 mod 4 = (off + 121) mod 4" by (rule mod_mod_cancel) simp
    ultimately show False by (simp add: k)
  qed
  then have "zeros (fill_count (off + 121)) = zeros 3 @ zeros (fill_count (off + 121) - 3)"
    by (simp add: zeros_def flip: replicate_add)
  moreover have "length cpio_trailer = 10" by (simp add: cpio_trailer_def ascii_def)
  ultimately have "trailer_bytes off @ r = archived ?vs cpio_trailer @ [] @ [] @ zeros (fill_count (off + 121) - 3) @ r"
    by (simp add: trailer_bytes_def archived_def pad4_def zeros_def)
  moreover have "read_entry (archived ?vs cpio_trailer @ [] @ [] @ zeros (fill_count (off + 121) - 3) @ r) =
      Some (\<lparr>ce_ino = ?vs ! 0, ce_type = ?vs ! 1 div 2 ^ 12 * 2 ^ 12, ce_permissions = ?vs ! 1 mod 2 ^ 12, ce_uid = ?vs ! 2, ce_gid = ?vs ! 3,
       ce_nlink = ?vs ! 4, ce_mtime = ?vs ! 5, ce_device = (?vs ! 9, ?vs ! 10), ce_name = cpio_trailer, ce_data = []\<rparr>,
       zeros (fill_count (off + 121) - 3) @ r)"
    by (rule read_archived) (simp_all add: cpio_trailer_def ascii_def pad4_def)
  ultimately show ?thesis by (subst cpio_read.simps) (simp add: cpio_trailer_def)
qed

section \<open>What the reader finds for a node\<close>

definition type_bits :: "node_type \<Rightarrow> nat" where
  "type_bits ty =
     (case ty of TREE_NODE_DIR \<Rightarrow> S_IFDIR | TREE_NODE_FILE \<Rightarrow> S_IFREG | TREE_NODE_FIFO \<Rightarrow> S_IFIFO | TREE_NODE_SOCKET \<Rightarrow> S_IFSOCK
      | TREE_NODE_CHAR_DEV \<Rightarrow> S_IFCHR | TREE_NODE_BLOCK_DEV \<Rightarrow> S_IFBLK | TREE_NODE_SYMLINK \<Rightarrow> S_IFLNK | TREE_NODE_HARD_LINK \<Rightarrow> 0)"

definition own_data :: "tree_node \<Rightarrow> byte list" where
  "own_data n = (if n_type n = TREE_NODE_SYMLINK then ascii (link_target n) @ [0] else [])"

definition device_parts :: "tree_node \<Rightarrow> nat \<times> nat" where
  "device_parts n =
     (if n_type n = TREE_NODE_CHAR_DEV \<or> n_type n = TREE_NODE_BLOCK_DEV then (major (device_number n), minor (device_number n)) else (0, 0))"

definition node_entry :: "'v fstree \<Rightarrow> tree_node \<Rightarrow> nat \<Rightarrow> byte list \<Rightarrow> cpio_entry" where
  "node_entry fs n m d =
     \<lparr>ce_ino = inode_num n, ce_type = type_bits (n_type n), ce_permissions = permissions n, ce_uid = n_uid n, ce_gid = n_gid n,
      ce_nlink = link_count n, ce_mtime = n_mtime n, ce_device = device_parts n, ce_name = cpio_path fs m, ce_data = d\<rparr>"

text \<open>The numbers that the eight digits of a field can hold.\<close>

definition cpio_fits :: "tree_node \<Rightarrow> bool" where
  "cpio_fits n \<longleftrightarrow> inode_num n < 2 ^ 32 \<and> permissions n < 2 ^ 12 \<and> n_uid n < 2 ^ 32 \<and> n_gid n < 2 ^ 32 \<and> link_count n < 2 ^ 32 \<and>
     n_mtime n < 2 ^ 32 \<and> f_size (n_file n) < 2 ^ 32"

lemma mode_parts:
  assumes "(p :: nat) < 2 ^ 12" "t < 2 ^ 16" "t mod 2 ^ 12 = 0"
  shows "(p OR t) div 2 ^ 12 * 2 ^ 12 = t" "(p OR t) mod 2 ^ 12 = p" "p OR t < 2 ^ 32"
proof -
  have "take_bit 12 p = p" "take_bit 12 t = 0" unfolding take_bit_eq_mod using assms(1,3) by (simp_all only: mod_less)
  then have "take_bit 12 (p OR t) = p" unfolding take_bit_or by simp
  then show m: "(p OR t) mod 2 ^ 12 = p" unfolding take_bit_eq_mod .
  have "drop_bit 12 p = 0" unfolding drop_bit_eq_div using assms(1) by (rule div_less)
  then have "drop_bit 12 (p OR t) = drop_bit 12 t" unfolding drop_bit_or by simp
  then have "(p OR t) div 2 ^ 12 = t div 2 ^ 12" unfolding drop_bit_eq_div .
  then show d: "(p OR t) div 2 ^ 12 * 2 ^ 12 = t" using div_mult_mod_eq [of t "2 ^ 12"] unfolding assms(3) by (simp only: add_0_right)
  have "p OR t = t + p" using m d by (metis div_mult_mod_eq)
  then show "p OR t < 2 ^ 32" using assms by simp
qed

lemma type_bits_ok: "type_bits ty < 2 ^ 16" "type_bits ty mod 2 ^ 12 = 0"
  by (simp_all add: type_bits_def S_IFDIR_def S_IFREG_def S_IFIFO_def S_IFSOCK_def S_IFCHR_def S_IFBLK_def S_IFLNK_def split: node_type.splits)

lemma device_bound: "major dev < 2 ^ 32" "minor dev < 2 ^ 32"
proof -
  have "dev div 2 ^ 8 mod 0x1000 < 0x1000" "dev div 2 ^ 44 mod 2 ^ 20 < 2 ^ 20" "dev mod 0x100 < 0x100" "dev div 2 ^ 20 mod 2 ^ 24 < 2 ^ 24"
    by simp_all
  then show "major dev < 2 ^ 32" "minor dev < 2 ^ 32" unfolding major_def minor_def by simp_all
qed

lemma cpio_numbers_eq:
  assumes "n_type n \<noteq> TREE_NODE_HARD_LINK"
  shows "cpio_numbers n hl = Some (permissions n OR type_bits (n_type n),
    if n_type n = TREE_NODE_FILE \<and> \<not> hl then f_size (n_file n) else length (own_data n), device_parts n)"
  using assms by (cases "n_type n") (simp_all add: cpio_numbers_def type_bits_def own_data_def device_parts_def ascii_def)

lemma read_node:
  assumes t: "n_type n \<noteq> TREE_NODE_HARD_LINK" and fits: "cpio_fits n" and short: "short_paths fs n m"
    and d: "if n_type n = TREE_NODE_FILE \<and> \<not> hl then length d = f_size (n_file n) else d = []"
    and z: "length z = length (pad4 (length d))"
  shows "read_entry (cpio_bytes fs n m hl @ d @ z @ r) = Some (node_entry fs n m (own_data n @ d), r)"
proof -
  define x where "x = (permissions n OR type_bits (n_type n),
    if n_type n = TREE_NODE_FILE \<and> \<not> hl then f_size (n_file n) else length (own_data n), device_parts n)"
  define vs where "vs = header_values n (cpio_path fs m) x"
  let ?d = "own_data n @ d"
  have tp: "type_bits (n_type n) < 2 ^ 16" "type_bits (n_type n) mod 2 ^ 12 = 0" by (rule type_bits_ok)+
  have pm: "permissions n < 2 ^ 12" using fits by (simp add: cpio_fits_def)
  note mode = mode_parts [OF pm tp]
  have dev: "fst (device_parts n) < 2 ^ 32" "snd (device_parts n) < 2 ^ 32" using device_bound by (simp_all add: device_parts_def)
  have lp: "length (cpio_path fs m) < 2 ^ 31" "length (own_data n) < 2 ^ 32"
    using short by (simp_all add: short_paths_def own_data_def ascii_def)
  have vals: "vs = [inode_num n, permissions n OR type_bits (n_type n), n_uid n, n_gid n, link_count n, n_mtime n, length ?d, 3, 1,
      fst (device_parts n), snd (device_parts n), length (cpio_path fs m) + 1, 0]"
    using d fits lp(2) by (auto simp: vs_def header_values_def x_def u32_def own_data_def cpio_fits_def split: prod.splits if_splits)
  have bnd: "\<forall>v\<in>set vs. v < 2 ^ 32"
    using fits mode(3) dev lp d unfolding vals by (auto simp: cpio_fits_def own_data_def split: if_splits)
  have "own_data n = [] \<or> d = []" using d by (auto simp: own_data_def split: if_splits)
  then have "\<exists>y. target_bytes n @ d @ z = ?d @ y \<and> length y = length (pad4 (length ?d))"
    using z by (auto simp: target_bytes_def own_data_def pad4_def zeros_def ascii_def)
  then obtain y where y: "target_bytes n @ d @ z = ?d @ y" "length y = length (pad4 (length ?d))" by blast
  have eq: "cpio_bytes fs n m hl @ d @ z @ r = archived vs (cpio_path fs m) @ ?d @ y @ r"
    using arg_cong [OF y(1), of "\<lambda>x. x @ r"] by (simp add: cpio_bytes_def cpio_numbers_eq [OF t] x_def [symmetric] vs_def [symmetric])
  have "length vs = 13" "vs ! 11 = length (cpio_path fs m) + 1" "vs ! 6 = length ?d" by (simp_all add: vals)
  note r = read_archived [OF bnd this y(2)]
  have v: "vs ! 0 = inode_num n" "vs ! 1 div 2 ^ 12 * 2 ^ 12 = type_bits (n_type n)" "vs ! 1 mod 2 ^ 12 = permissions n"
    "vs ! 2 = n_uid n" "vs ! 3 = n_gid n" "vs ! 4 = link_count n" "vs ! 5 = n_mtime n" "(vs ! 9, vs ! 10) = device_parts n"
    using mode(1,2) by (simp_all add: vals)
  show ?thesis unfolding eq r v node_entry_def ..
qed

text \<open>The width of a field is only a minimum: a time from the year 2106 on makes the header longer than the reader and the padding expect.\<close>

lemma long_time_field: "length (hex8 (2 ^ 32)) = 9"
  by (simp add: hex8_def padded_def digit_list.simps)

end
