(* ===== verification/CpioRound.thy ===== *)
theory CpioRound
  imports CpioRead
begin

text \<open>
  Laying out an archive: the gaps that \<open>fstree_add_gap\<close> makes for the headers, the volume as one list of bytes while they
  are filled, and the round trip of a whole archive through \<open>cpio_build_format\<close> and the reader of \<open>CpioRead\<close>.
\<close>

section \<open>Streams into the used area of a volume\<close>

context volume
begin

text \<open>What could be read stays readable, but for the rest of the block in which the stream is.\<close>

definition vs_kept :: "nat \<Rightarrow> nat \<Rightarrow> 'v vol_ostream \<Rightarrow> nat \<Rightarrow> bool" where
  "vs_kept N R s n \<longleftrightarrow> vs_room s n \<and> vblocks (view (wrapped s)) = N \<and>
     (\<forall>p<R. readable (view (wrapped s)) p \<or> vs_offset s + written s \<le> p \<and> p < div_up (vs_offset s + written s) bs * bs)"

lemma vol_ostream_append_kept:
  assumes k: "vs_kept N R s (n + m)" and buf: "valid_buf data n" and s': "vol_ostream_append vol s data n = (Some (), s')"
  shows "vblocks (view (wrapped s')) = N \<and> (\<forall>p<R. readable (view (wrapped s')) p \<or> vs_offset s' + written s' \<le> p \<and> p < div_up (vs_offset s' + written s') bs * bs)"
proof (cases "n = 0")
  case True
  then show ?thesis using k s' by (auto simp: vol_ostream_append_def vs_kept_def)
next
  case False
  define q where "q = vs_offset s + written s"
  have inv: "inv (wrapped s)" and cap: "q + (n + m) \<le> capacity (wrapped s)" and mx: "written s + (n + m) \<le> max_size s"
    using k unfolding vs_kept_def vs_room_def q_def by blast+
  have old: "readable (view (wrapped s)) p \<or> q \<le> p \<and> p < div_up q bs * bs" if "p < R" for p
    using k that by (simp add: vs_kept_def q_def)
  have c63: "capacity (wrapped s) \<le> 2 ^ 63" using max_bound [OF inv] .
  then have add: "add64 (vs_offset s) (written s) = q" "add64 (written s) n = written s + n"
    using cap by (simp_all add: add64_def q_def)
  obtain v where v: "volume_write vol (wrapped s) q data n = (Some (), v)" "inv v" "wrote bs (view (wrapped s)) (view v) q (buf_bytes data n)"
    using write_correct [OF inv _ _ buf, of q] False cap by auto
  have e: "wrapped s' = v" "vs_offset s' + written s' = q + n"
    using s' False mx v(1) add by (auto simp: vol_ostream_append_def q_def split: if_splits)
  have mono: "div_up q bs * bs \<le> div_up (q + n) bs * bs" by (intro mult_le_mono1 div_up_mono bs_pos [OF inv]) simp
  have "readable (view v) p \<or> q + n \<le> p \<and> p < div_up (q + n) bs * bs" if "p < R" for p
  proof (cases "p < q + n")
    case True
    show ?thesis
    proof (cases "q div bs * bs \<le> p")
      case False
      then have "\<not> q \<le> p" using div_times_less_eq_dividend [of q bs] by linarith
      then show ?thesis using old [OF that] wrote_keeps_readable [OF v(3)] False by auto
    qed (use wrote_readable [OF v(3)] True length_buf_bytes [OF buf] in auto)
  next
    case False
    then show ?thesis
      using old [OF that] mono wrote_keeps_readable [OF v(3), of p] length_buf_bytes [OF buf] by (cases "p < div_up (q + n) bs * bs") auto
  qed
  moreover have "vblocks (view v) = N" using wrote_blocks [OF v(3)] k by (simp add: vs_kept_def)
  ultimately show ?thesis unfolding e by blast
qed

lemma vol_ostream_append_kept_ok:
  assumes "vs_kept N R s (n + m)" "valid_buf data n"
  shows "\<exists>s'. vol_ostream_append vol s data n = (Some (), s') \<and> vs_view s' = put_at (vs_view s) (buf_bytes data n) \<and> vs_kept N R s' m"
  using vol_ostream_append_ok [of s n m data] vol_ostream_append_kept [OF assms] assms by (auto simp: vs_kept_def)

end

sublocale volume \<subseteq> vk: ostream_sink "vol_ostream_ops vol" vs_view put_at "vs_kept N R" for N R
proof
  fix s :: "'v vol_ostream" and d :: "byte list" and m :: nat
  assume "vs_kept N R s (length d + m)"
  then show "\<exists>s'. append (vol_ostream_ops vol) s d = (Some (), s') \<and> vs_view s' = put_at (vs_view s) d \<and> vs_kept N R s' m"
    using vol_ostream_append_kept_ok [of N R s "length d" m "Some d"] by (simp add: vol_ostream_ops_def)
next
  fix f :: "'v vol_ostream \<Rightarrow> nat \<Rightarrow> (unit, 'v vol_ostream) io" and s n m
  assume "append_sparse (vol_ostream_ops vol) = Some f" "vs_kept N R s (n + m)"
  then show "\<exists>s'. f s n = (Some (), s') \<and> vs_view s' = put_at (vs_view s) (zeros n) \<and> vs_kept N R s' m"
    using vol_ostream_append_kept_ok [of N R s n m None] by (auto simp: vol_ostream_ops_def vol_ostream_append_sparse_def)
qed (simp_all add: put_at_laws)

section \<open>The used area as a list of bytes\<close>

lemma peek_poke_mid:
  assumes "peek c 0 (length (A @ Z @ B)) = A @ Z @ B" "length d = length Z"
  shows "peek (poke c (length A) d) 0 (length (A @ d @ B)) = A @ d @ B"
proof (rule nth_equalityI)
  fix i assume i: "i < length (peek (poke c (length A) d) 0 (length (A @ d @ B)))"
  then have "i < length (A @ Z @ B)" using assms(2) by simp
  then have c: "c i = (A @ Z @ B) ! i" using arg_cong [OF assms(1), of "\<lambda>x. x ! i"] by simp
  show "peek (poke c (length A) d) 0 (length (A @ d @ B)) ! i = (A @ d @ B) ! i"
    using i assms(2) by (auto simp: poke_def c nth_append)
qed simp

lemma peek_poke_end:
  assumes "peek c 0 (length A) = A"
  shows "peek (poke c (length A) d) 0 (length (A @ d)) = A @ d"
  using peek_append [of "poke c (length A) d" 0 "length A" "length d"] peek_poke_other [of 0 "length A" "length A" d c] assms by simp

text \<open>The files behind a gap move.\<close>

definition gap_map :: "nat \<Rightarrow> nat \<Rightarrow> nat set \<Rightarrow> (nat \<Rightarrow> tree_node) \<Rightarrow> nat \<Rightarrow> tree_node" where
  "gap_map i c ms f m = (let d = n_file (f m) in
     if m \<in> ms \<and> i \<le> start_index d then (f m)\<lparr>n_file := d\<lparr>start_index := add64 (start_index d) c\<rparr>\<rparr> else f m)"

definition gap_nodes :: "nat \<Rightarrow> nat \<Rightarrow> nat set \<Rightarrow> 'v fstree \<Rightarrow> 'v fstree" where
  "gap_nodes i c ms fs = fs\<lparr>nodes := gap_map i c ms (nodes fs)\<rparr>"

lemma gap_fold:
  "distinct ms \<Longrightarrow> fold (\<lambda>m fs. if i \<le> start_index (file_of fs m)
      then set_file fs m ((file_of fs m)\<lparr>start_index := add64 (start_index (file_of fs m)) c\<rparr>) else fs) ms fs = gap_nodes i c (set ms) fs"
proof (induction ms arbitrary: fs)
  case (Cons m ms)
  have "(if i \<le> start_index (file_of fs m) then set_file fs m ((file_of fs m)\<lparr>start_index := add64 (start_index (file_of fs m)) c\<rparr>) else fs) =
      gap_nodes i c {m} fs"
  proof -
    have "gap_map i c {m} (nodes fs) = (if i \<le> start_index (file_of fs m)
        then (nodes fs)(m := (nodes fs m)\<lparr>n_file := (file_of fs m)\<lparr>start_index := add64 (start_index (file_of fs m)) c\<rparr>\<rparr>) else nodes fs)"
      by (auto simp: gap_map_def fun_eq_iff Let_def)
    then show ?thesis by (simp add: gap_nodes_def set_file_def)
  qed
  moreover have "gap_map i c (set ms) (gap_map i c {m} f) = gap_map i c (set (m # ms)) f" for f
    using Cons.prems by (auto simp: gap_map_def fun_eq_iff Let_def)
  then have "gap_nodes i c (set ms) (gap_nodes i c {m} fs) = gap_nodes i c (set (m # ms)) fs" by (simp add: gap_nodes_def)
  ultimately show ?case using Cons by simp
next
  case Nil
  have "gap_map i c {} (nodes fs) = nodes fs" by (auto simp: gap_map_def Let_def)
  then show ?case by (simp add: gap_nodes_def)
qed

context volume
begin

definition flat :: "'v fstree \<Rightarrow> byte list \<Rightarrow> bool" where
  "flat fs b \<longleftrightarrow> inv (fs_volume fs) \<and> data_offset fs \<le> vblocks (view (fs_volume fs)) \<and> length b = data_offset fs * bs \<and>
     peek (content (view (fs_volume fs))) 0 (length b) = b \<and> (\<forall>p<length b. readable (view (fs_volume fs)) p)"

lemma flatD:
  assumes "flat fs b"
  shows "inv (fs_volume fs)" "data_offset fs \<le> vblocks (view (fs_volume fs))" "length b = data_offset fs * bs"
    "peek (content (view (fs_volume fs))) 0 (length b) = b" "p < length b \<Longrightarrow> readable (view (fs_volume fs)) p"
  using assms unfolding flat_def by blast+

text \<open>A stream over a part of the used area that is as long as what is written to it.\<close>

lemma stream_start:
  assumes f: "flat fs (A @ Z @ B)"
  shows "vs_kept (vblocks (view (fs_volume fs))) (length (A @ Z @ B)) (volume_ostream_create (fs_volume fs) (length A) (length Z)) (length Z + 0)"
proof -
  have "length (A @ Z @ B) \<le> capacity (fs_volume fs)" unfolding flatD(3) [OF f] using flatD(2) [OF f] by (rule mult_le_mono1)
  then show ?thesis using flatD(1,5) [OF f] by (simp add: vs_kept_def vs_room_def volume_ostream_create_def)
qed

lemma stream_end:
  assumes f: "flat fs (A @ Z @ B)" and v: "vs_view s = put_at (vs_view (volume_ostream_create (fs_volume fs) (length A) (length Z))) d"
    and d: "length d = length Z" "length (A @ Z) mod bs = 0" and k: "vs_kept (vblocks (view (fs_volume fs))) (length (A @ Z @ B)) s 0"
  shows "flat (fs\<lparr>fs_volume := wrapped s\<rparr>) (A @ d @ B)"
proof -
  have c: "content (view (wrapped s)) = poke (content (view (fs_volume fs))) (length A) d" "vs_offset s + written s = length (A @ Z)"
    using v d by (simp_all add: vs_view_def volume_ostream_create_def put_at_def)
  have i: "inv (wrapped s)" and b: "vblocks (view (wrapped s)) = vblocks (view (fs_volume fs))"
    using k by (simp_all add: vs_kept_def vs_room_def)
  have "div_up (length (A @ Z)) bs * bs = length (A @ Z)" using d(2) bs_pos [OF i] by (metis div_mult_mod_eq add_0_right div_up_mult)
  then have "readable (view (wrapped s)) p" if "p < length (A @ d @ B)" for p
    using that k d(1) unfolding vs_kept_def c by (metis length_append not_le)
  moreover have "length (A @ d @ B) = length (A @ Z @ B)" using d(1) by simp
  ultimately show ?thesis
    using flatD(2,3) [OF f] i b peek_poke_mid [OF flatD(4) [OF f] d(1)] unfolding flat_def by (simp add: c)
qed

end

context volume
begin

text \<open>The blocks behind \<open>i\<close> move up by \<open>c\<close> blocks and what they leave behind is cleared.\<close>

lemma open_gap:
  assumes inv: "inv v" and D: "i \<le> D" "D + c \<le> vblocks (view v)" "0 < c" and A: "length A = i * bs" and B: "length B = (D - i) * bs"
    and pk: "peek (content (view v)) 0 (length (A @ B)) = A @ B" and rd: "\<And>p. p < length (A @ B) \<Longrightarrow> readable (view v) p"
  shows "\<exists>v1 v2. (if i < D then volume_memmove vol v ((i + c) * bs) (i * bs) ((D - i) * bs) = (Some (), v1) else v1 = v) \<and>
    discard_blocks vol v1 i c = (Some (), v2) \<and> inv v2 \<and> vblocks (view v2) = vblocks (view v) \<and>
    peek (content (view v2)) 0 (length (A @ zeros (c * bs) @ B)) = A @ zeros (c * bs) @ B \<and>
    (\<forall>p<length (A @ zeros (c * bs) @ B). readable (view v2) p)"
proof -
  let ?c = "content (view v)"
  have bs: "0 < bs" using bs_pos [OF inv] .
  define v1 where "v1 = (if i < D then snd (volume_memmove vol v ((i + c) * bs) (i * bs) ((D - i) * bs)) else v)"
  have v1: "(i < D \<longrightarrow> volume_memmove vol v ((i + c) * bs) (i * bs) ((D - i) * bs) = (Some (), v1)) \<and> inv v1 \<and>
      moved (view v) (view v1) ((i + c) * bs) (i * bs) ((D - i) * bs)"
  proof (cases "i < D")
    case True
    have "readable (view v) (i * bs + k)" if "k < (D - i) * bs" for k
      using rd [of "i * bs + k"] that A B by simp
    then show ?thesis using memmove_aligned [OF inv, of "i + c" "D - i" i] True D by (auto simp: v1_def)
  qed (use inv in \<open>simp add: v1_def moved_refl\<close>)
  then have m: "moved (view v) (view v1) ((i + c) * bs) (i * bs) ((D - i) * bs)" and b1: "vblocks (view v1) = vblocks (view v)"
    by (auto simp: moved_def)
  have "i + c \<le> vblocks (view v1)" using b1 D by simp
  with discard [of v1 i c] v1 D(3) obtain v2 where v2: "discard_blocks vol v1 i c = (Some (), v2)" "inv v2"
      "wrote bs (view v1) (view v2) (i * bs) (zeros (c * bs))" by auto
  have cont: "content (view v2) = poke (poke ?c ((i + c) * bs) B) (i * bs) (zeros (c * bs))"
  proof -
    have "peek ?c (i * bs) ((D - i) * bs) = B"
    proof (rule nth_equalityI)
      fix k assume "k < length (peek ?c (i * bs) ((D - i) * bs))"
      then have "i * bs + k < length (A @ B)" using A B by simp
      then show "peek ?c (i * bs) ((D - i) * bs) ! k = B ! k"
        using arg_cong [OF pk, of "\<lambda>x. x ! (i * bs + k)"] A B by (simp add: nth_append)
    qed (simp add: B)
    then show ?thesis using wrote_content [OF v2(3)] m by (simp add: moved_def)
  qed
  have new: "peek (content (view v2)) 0 (length (A @ zeros (c * bs) @ B)) = A @ zeros (c * bs) @ B"
  proof (rule nth_equalityI)
    fix k assume k: "k < length (peek (content (view v2)) 0 (length (A @ zeros (c * bs) @ B)))"
    then have "k < length A \<Longrightarrow> ?c k = A ! k" using arg_cong [OF pk, of "\<lambda>x. x ! k"] by (simp add: nth_append)
    with k show "peek (content (view v2)) 0 (length (A @ zeros (c * bs) @ B)) ! k = (A @ zeros (c * bs) @ B) ! k"
      by (auto simp: cont poke_def nth_append A add_mult_distrib)
  qed simp
  have rd2: "readable (view v2) p" if p: "p < length (A @ zeros (c * bs) @ B)" for p
  proof -
    have d: "div_up ((i + c) * bs) bs * bs = (i + c) * bs" using div_up_mult [OF bs, of "i + c"] by simp
    consider "p < i * bs" | "i * bs \<le> p" "p < (i + c) * bs" | "(i + c) * bs \<le> p" by linarith
    then show ?thesis
    proof cases
      case 1
      then have "readable (view v1) p" using m rd [of p] A by (auto simp: moved_def add_mult_distrib)
      then show ?thesis using wrote_keeps_readable [OF v2(3)] 1 bs by simp
    next
      case 2
      then show ?thesis using wrote_readable [OF v2(3)] bs by (simp add: add_mult_distrib)
    next
      case 3
      define k where "k = p - (i + c) * bs"
      have k: "p = (i + c) * bs + k" "k < (D - i) * bs" using p 3 A B by (simp_all add: k_def add_mult_distrib)
      have "\<forall>k<(D - i) * bs. readable (view v1) ((i + c) * bs + k)" using m unfolding moved_def by blast
      then have "readable (view v1) p" using k by simp
      then show ?thesis using wrote_keeps_readable [OF v2(3), of p] d 3 by (simp add: add_mult_distrib)
    qed
  qed
  show ?thesis using v1 v2(1,2) b1 wrote_blocks [OF v2(3)] new rd2 by (intro exI [of _ v1] exI [of _ v2]) (auto simp: v1_def)
qed

lemma add_gap_flat:
  assumes f: "flat fs (A @ B)" and A: "length A = i * bs" and room: "data_offset fs + c \<le> vblocks (view (fs_volume fs))" and dist: "distinct (files fs)"
  shows "\<exists>v. fstree_add_gap vol fs i (c * bs) =
      (Some (), (if 0 < c \<and> B \<noteq> [] then gap_nodes i c (set (files fs)) fs else fs)\<lparr>fs_volume := v, data_offset := data_offset fs + c\<rparr>) \<and>
    flat (fs\<lparr>fs_volume := v, data_offset := data_offset fs + c\<rparr>) (A @ zeros (c * bs) @ B) \<and> vblocks (view v) = vblocks (view (fs_volume fs))"
proof (cases "c = 0")
  case True
  then have "flat (fs\<lparr>fs_volume := fs_volume fs, data_offset := data_offset fs + c\<rparr>) (A @ zeros (c * bs) @ B)" using f by (simp add: zeros_def)
  then show ?thesis using True by (intro exI [of _ "fs_volume fs"]) (simp add: fstree_add_gap_def)
next
  case False
  let ?v = "fs_volume fs" and ?D = "data_offset fs"
  note inv = flatD(1) [OF f]
  have bs: "0 < bs" using bs_pos [OF inv] .
  have B: "length B = (?D - i) * bs" "i \<le> ?D" "B = [] \<longleftrightarrow> ?D = i"
  proof -
    have l: "i * bs + length B = ?D * bs" using flatD(3) [OF f] A by simp
    then show "i \<le> ?D" using bs by (metis le_add1 mult_le_cancel2)
    then show "length B = (?D - i) * bs" using l by (simp add: diff_mult_distrib)
    then show "B = [] \<longleftrightarrow> ?D = i" using bs \<open>i \<le> ?D\<close> by auto
  qed
  have lt: "k * bs < max64" if "k \<le> ?D + c" for k using block_addr_less [OF inv, of k] that room by simp
  have k64: "k < max64" if "k \<le> ?D + c" for k using lt [OF that] bs by (metis One_nat_def Suc_leI le_less_trans mult.right_neutral mult_le_mono2)
  have sz: "(if c * bs mod bs \<noteq> 0 then add64 (c * bs) (bs - c * bs mod bs) else c * bs) = c * bs" by simp
  have ar: "mul64 i bs = i * bs" "add64 (i * bs) (c * bs) = (i + c) * bs" "mul64 (?D - i) bs = (?D - i) * bs" "add64 i c = i + c" "add64 ?D c = ?D + c"
    using lt [of i] lt [of "i + c"] lt [of "?D - i"] k64 [of "i + c"] k64 [of "?D + c"] B(2)
    by (simp_all add: mul64_def add64_def add_mult_distrib)
  from open_gap [OF inv B(2) room _ A B(1) flatD(4,5) [OF f]] False obtain v1 v2 where
    v: "if i < ?D then volume_memmove vol ?v ((i + c) * bs) (i * bs) ((?D - i) * bs) = (Some (), v1) else v1 = ?v"
      "discard_blocks vol v1 i c = (Some (), v2)" "inv v2" "vblocks (view v2) = vblocks (view ?v)"
      "peek (content (view v2)) 0 (length (A @ zeros (c * bs) @ B)) = A @ zeros (c * bs) @ B" "\<forall>p<length (A @ zeros (c * bs) @ B). readable (view v2) p"
    by auto
  have cb: "c * bs div bs = c" using bs by simp
  have gap: "fstree_add_gap vol fs i (c * bs) =
      (Some (), (if 0 < c \<and> B \<noteq> [] then gap_nodes i c (set (files fs)) fs else fs)\<lparr>fs_volume := v2, data_offset := ?D + c\<rparr>)"
  proof (cases "i < ?D")
    case True
    have g: "gap_nodes i c (set (files fs)) (fs\<lparr>fs_volume := v1\<rparr>) = (gap_nodes i c (set (files fs)) fs)\<lparr>fs_volume := v1\<rparr>"
      by (simp add: gap_nodes_def)
    have fl: "files (fs\<lparr>fs_volume := v1\<rparr>) = files fs" by simp
    note fold = gap_fold [of "files (fs\<lparr>fs_volume := v1\<rparr>)" i c "fs\<lparr>fs_volume := v1\<rparr>", unfolded fl, OF dist, unfolded g]
    show ?thesis
      unfolding fstree_add_gap_def Let_def sz cb ar using True False bs v(1,2) B by (simp add: fold)
  next
    case F: False
    then have "i = ?D" using B(2) by simp
    then show ?thesis unfolding fstree_add_gap_def Let_def sz cb ar using False F bs v(1,2) B by simp
  qed
  show ?thesis
  proof (intro exI conjI)
    have "length (A @ zeros (c * bs) @ B) = (?D + c) * bs" using flatD(3) [OF f] by (simp add: add_mult_distrib)
    then show "flat (fs\<lparr>fs_volume := v2, data_offset := ?D + c\<rparr>) (A @ zeros (c * bs) @ B)"
      using v(3-6) room unfolding flat_def by simp
  qed (use gap v(4) in simp_all)
qed

end

section \<open>Trees that differ in where the data of the files lies\<close>

definition same_tree :: "'v fstree \<Rightarrow> 'v fstree \<Rightarrow> bool" where
  "same_tree fs fs' \<longleftrightarrow> nodes_by_type fs' = nodes_by_type fs \<and> inode_table fs' = inode_table fs \<and>
     (\<forall>m. \<exists>s. nodes fs' m = (nodes fs m)\<lparr>n_file := (file_of fs m)\<lparr>start_index := s\<rparr>\<rparr>)"

lemma same_treeD:
  assumes "same_tree fs fs'"
  shows "nodes_by_type fs' = nodes_by_type fs" "inode_table fs' = inode_table fs"
    "\<exists>s. nodes fs' m = (nodes fs m)\<lparr>n_file := (file_of fs m)\<lparr>start_index := s\<rparr>\<rparr>"
    "n_parent (nodes fs' m) = n_parent (nodes fs m)" "n_name (nodes fs' m) = n_name (nodes fs m)" "n_type (nodes fs' m) = n_type (nodes fs m)"
    "link_target (nodes fs' m) = link_target (nodes fs m)" "link_resolved (nodes fs' m) = link_resolved (nodes fs m)"
    "f_size (file_of fs' m) = f_size (file_of fs m)" "sparse (file_of fs' m) = sparse (file_of fs m)"
proof -
  show "nodes_by_type fs' = nodes_by_type fs" "inode_table fs' = inode_table fs" using assms unfolding same_tree_def by blast+
  show ex: "\<exists>s. nodes fs' m = (nodes fs m)\<lparr>n_file := (file_of fs m)\<lparr>start_index := s\<rparr>\<rparr>" using assms unfolding same_tree_def by blast
  then obtain s where s: "nodes fs' m = (nodes fs m)\<lparr>n_file := (file_of fs m)\<lparr>start_index := s\<rparr>\<rparr>" ..
  show "n_parent (nodes fs' m) = n_parent (nodes fs m)" "n_name (nodes fs' m) = n_name (nodes fs m)" "n_type (nodes fs' m) = n_type (nodes fs m)"
    "link_target (nodes fs' m) = link_target (nodes fs m)" "link_resolved (nodes fs' m) = link_resolved (nodes fs m)"
    "f_size (file_of fs' m) = f_size (file_of fs m)" "sparse (file_of fs' m) = sparse (file_of fs m)"
    by (simp_all add: s)
qed


lemma same_tree_refl: "same_tree fs fs"
proof -
  have "\<exists>s. nodes fs m = (nodes fs m)\<lparr>n_file := (file_of fs m)\<lparr>start_index := s\<rparr>\<rparr>" for m
    by (rule exI [of _ "start_index (file_of fs m)"]) simp
  then show ?thesis by (simp add: same_tree_def)
qed

lemma same_tree_trans: "same_tree fs fs1 \<Longrightarrow> same_tree fs1 fs2 \<Longrightarrow> same_tree fs fs2"
proof -
  assume a: "same_tree fs fs1" "same_tree fs1 fs2"
  have "\<exists>s. nodes fs2 m = (nodes fs m)\<lparr>n_file := (file_of fs m)\<lparr>start_index := s\<rparr>\<rparr>" for m
  proof -
    obtain s where "nodes fs1 m = (nodes fs m)\<lparr>n_file := (file_of fs m)\<lparr>start_index := s\<rparr>\<rparr>" using same_treeD(3) [OF a(1)] by blast
    moreover obtain t where "nodes fs2 m = (nodes fs1 m)\<lparr>n_file := (file_of fs1 m)\<lparr>start_index := t\<rparr>\<rparr>" using same_treeD(3) [OF a(2)] by blast
    ultimately show ?thesis by (intro exI [of _ t]) simp
  qed
  then show ?thesis using same_treeD(1,2) [OF a(1)] same_treeD(1,2) [OF a(2)] by (simp add: same_tree_def)
qed

lemma same_tree_volume: "same_tree fs (fs'\<lparr>fs_volume := v, data_offset := d\<rparr>) = same_tree fs fs'" "same_tree fs (fs'\<lparr>fs_volume := v\<rparr>) = same_tree fs fs'"
  by (simp_all add: same_tree_def)

lemma same_tree_gap: "same_tree fs (gap_nodes i c ms fs)"
proof -
  have "\<exists>s. gap_map i c ms f m = (f m)\<lparr>n_file := (n_file (f m))\<lparr>start_index := s\<rparr>\<rparr>" for f m
  proof (cases "m \<in> ms \<and> i \<le> start_index (n_file (f m))")
    case True
    then show ?thesis unfolding gap_map_def Let_def by (simp only: if_True simp_thms) blast
  next
    case False
    then have "gap_map i c ms f m = f m" unfolding gap_map_def Let_def by (simp only: if_False)
    then show ?thesis by (intro exI [of _ "start_index (n_file (f m))"]) simp
  qed
  then show ?thesis unfolding same_tree_def gap_nodes_def by simp
qed

lemma same_tree_path:
  assumes "same_tree fs fs'"
  shows "path_print fs' m = path_print fs m" "cpio_path fs' m = cpio_path fs m"
  by (rule path_cong; simp add: same_treeD(4,5) [OF assms])+

lemma same_tree_bytes:
  assumes s: "same_tree fs fs'"
  shows "cpio_bytes fs' (nodes fs' m) m hl = cpio_bytes fs (nodes fs m) m hl" "cpio_bytes fs' (link_dummy fs' n t) m hl = cpio_bytes fs (link_dummy fs n t) m hl"
    "short_paths fs' (nodes fs' n) m = short_paths fs (nodes fs n) m" "cpio_fits (nodes fs' m) = cpio_fits (nodes fs m)"
    "fstree_file_physical_size b (file_of fs' m) = fstree_file_physical_size b (file_of fs m)"
proof -
  have eq: "cpio_bytes fs' (x\<lparr>n_file := f\<rparr>) m hl = cpio_bytes fs x m hl" if "f_size f = f_size (n_file x)" for x f m
    unfolding cpio_bytes_def cpio_numbers_def header_values_def target_bytes_def using that by (simp add: same_tree_path [OF s] split: node_type.splits)
  obtain k where "nodes fs' m = (nodes fs m)\<lparr>n_file := (file_of fs m)\<lparr>start_index := k\<rparr>\<rparr>" using same_treeD(3) [OF s] by blast
  then show "cpio_bytes fs' (nodes fs' m) m hl = cpio_bytes fs (nodes fs m) m hl" "cpio_fits (nodes fs' m) = cpio_fits (nodes fs m)"
    by (simp_all add: eq cpio_fits_def)
  obtain k where k: "nodes fs' t = (nodes fs t)\<lparr>n_file := (file_of fs t)\<lparr>start_index := k\<rparr>\<rparr>" using same_treeD(3) [OF s] by blast
  have "link_dummy fs' n t = (link_dummy fs n t)\<lparr>n_file := (file_of fs t)\<lparr>start_index := k\<rparr>\<rparr>"
    by (simp add: link_dummy_def k same_treeD(4,5) [OF s])
  then show "cpio_bytes fs' (link_dummy fs' n t) m hl = cpio_bytes fs (link_dummy fs n t) m hl" by (simp add: eq link_dummy_def)
  show "short_paths fs' (nodes fs' n) m = short_paths fs (nodes fs n) m"
    by (simp add: short_paths_def same_tree_path [OF s] same_treeD(7) [OF s])
  show "fstree_file_physical_size b (file_of fs' m) = fstree_file_physical_size b (file_of fs m)"
    by (rule physical_size_cong) (simp_all add: same_treeD [OF s])
qed

section \<open>Headers in front of the files\<close>

lemma cpio_bytes_dvd:
  assumes "cpio_fits n" "short_paths fs n m"
  shows "4 dvd length (cpio_bytes fs n m hl)"
proof (cases "n_type n = TREE_NODE_HARD_LINK")
  case True
  then show ?thesis by (simp add: cpio_bytes_def cpio_numbers_def)
next
  case False
  let ?p = "cpio_path fs m"
  define x where "x = (permissions n OR type_bits (n_type n),
    if n_type n = TREE_NODE_FILE \<and> \<not> hl then f_size (n_file n) else length (own_data n), device_parts n)"
  have "permissions n < 2 ^ 12" using assms(1) by (simp add: cpio_fits_def)
  note mode = mode_parts(3) [OF this type_bits_ok]
  obtain maj mnr where dp: "device_parts n = (maj, mnr)" by fastforce
  then have dev: "maj < 2 ^ 32" "mnr < 2 ^ 32" using device_bound by (auto simp: device_parts_def split: if_splits)
  have "length ?p + 1 < 2 ^ 32" using assms(2) by (simp add: short_paths_def)
  moreover have "u32 k < 2 ^ 32" for k by (simp add: u32_def)
  ultimately have "\<forall>v\<in>set (header_values n ?p x). v < 2 ^ 32" "length (header_values n ?p x) = 13"
    using assms(1) mode dev by (auto simp: header_values_def x_def dp cpio_fits_def)
  note h = header_text_ok(1) [OF this]
  have b: "cpio_bytes fs n m hl = archived (header_values n ?p x) ?p @ target_bytes n"
    by (simp add: cpio_bytes_def cpio_numbers_eq [OF False] x_def)
  have "4 dvd length (archived (header_values n ?p x) ?p)"
    using pad4_dvd [of "111 + length ?p"] by (simp add: archived_def h add.assoc)
  moreover have "4 dvd length (target_bytes n)"
    using pad4_dvd [of "length (link_target n) + 1"] by (simp add: target_bytes_def ascii_def)
  ultimately show ?thesis unfolding b length_append by (rule dvd_add)
qed

context volume
begin

lemma flat_cong: "fs_volume fs' = fs_volume fs \<Longrightarrow> data_offset fs' = data_offset fs \<Longrightarrow> flat fs' b = flat fs b"
  by (simp only: flat_def)

text \<open>The header of one file, into a gap that is as long as the null stream has counted.\<close>

lemma insert_file_header_ok:
  assumes bs4: "bs = 4" and f: "flat fs (A @ B)" and start: "start_index (file_of fs m) * bs = length A" and B: "B \<noteq> []" and dist: "distinct (files fs)"
    and H: "H = cpio_bytes fs (nodes fs m) m False" and short: "short_paths fs (nodes fs m) m" and fits: "cpio_fits (nodes fs m)"
    and room: "length (A @ B) + length H \<le> capacity (fs_volume fs)"
  shows "\<exists>v. cpio_insert_file_header vol True fs m =
      (Some (), (if H \<noteq> [] then gap_nodes (start_index (file_of fs m)) (length H div bs) (set (files fs)) fs else fs)
         \<lparr>fs_volume := v, data_offset := data_offset fs + length H div bs\<rparr>) \<and>
    flat (fs\<lparr>fs_volume := v, data_offset := data_offset fs + length H div bs\<rparr>) (A @ H @ B) \<and> vblocks (view v) = vblocks (view (fs_volume fs))"
proof -
  define c where "c = length H div bs"
  define i where "i = start_index (file_of fs m)"
  define g where "g = (if H \<noteq> [] then gap_nodes i c (set (files fs)) fs else fs)"
  have "4 dvd length H" unfolding H by (rule cpio_bytes_dvd [OF fits short])
  then have cb: "c * bs = length H" by (simp add: c_def bs4)
  have c0: "0 < c \<longleftrightarrow> H \<noteq> []" unfolding length_greater_0_conv [symmetric] cb [symmetric] using bs4 by simp
  have cap: "capacity (fs_volume fs) \<le> 2 ^ 63" by (rule max_bound [OF flatD(1) [OF f]])
  have "null_room 0 (length H + 0)" using room cap by (simp add: null_room_def)
  from null_out.cpio_write_header_ok [OF this [unfolded H] short] have null: "cpio_write_header True fs null_ostream 0 (nodes fs m) m False = (Some (), length H)"
    by (auto simp: H)
  have "data_offset fs * bs + c * bs \<le> capacity (fs_volume fs)" using room flatD(3) [OF f] cb by simp
  then have "data_offset fs + c \<le> vblocks (view (fs_volume fs))" using bs4 by simp
  from add_gap_flat [OF f start [symmetric] this dist, folded i_def] obtain v where v:
      "fstree_add_gap vol fs i (length H) = (Some (), g\<lparr>fs_volume := v, data_offset := data_offset fs + c\<rparr>)"
      "flat (fs\<lparr>fs_volume := v, data_offset := data_offset fs + c\<rparr>) (A @ zeros (length H) @ B)" "vblocks (view v) = vblocks (view (fs_volume fs))"
    unfolding cb c0 g_def using B by auto
  let ?g = "g\<lparr>fs_volume := v, data_offset := data_offset fs + c\<rparr>"
  have fl: "flat ?g (A @ zeros (length H) @ B)" using v(2) flat_cong [of ?g "fs\<lparr>fs_volume := v, data_offset := data_offset fs + c\<rparr>"] by simp
  have st: "same_tree fs ?g" by (simp add: same_tree_volume g_def same_tree_gap same_tree_refl)
  have Hg: "cpio_bytes ?g (nodes ?g m) m False = H" "short_paths ?g (nodes ?g m) m"
    using same_tree_bytes(1,3) [OF st, where m = m] short by (simp_all add: H)
  have al: "length (A @ zeros (length H)) mod bs = 0"
    using flatD(3) [OF f] start cb by (metis length_append length_zeros mod_mult_self2_is_0 add_mult_distrib)
  have mu: "mul64 i bs = length A" using start room cap by (simp add: mul64_def i_def)
  note rm = stream_start [OF fl, unfolded length_zeros]
  from vk.cpio_write_header_ok [of _ _ _ ?g "nodes ?g m" m False, unfolded Hg(1), OF rm Hg(2)] obtain s where s:
      "cpio_write_header True ?g (vol_ostream_ops vol) (volume_ostream_create v (length A) (length H)) (nodes ?g m) m False = (Some (), s)"
      "vs_view s = put_at (vs_view (volume_ostream_create v (length A) (length H))) H" "vs_kept (vblocks (view v)) (length (A @ zeros (length H) @ B)) s 0"
    by auto
  have "flat (?g\<lparr>fs_volume := wrapped s\<rparr>) (A @ H @ B)"
    by (rule stream_end [OF fl]) (use s al in simp_all)
  then have "flat (fs\<lparr>fs_volume := wrapped s, data_offset := data_offset fs + c\<rparr>) (A @ H @ B)"
    using flat_cong [of "?g\<lparr>fs_volume := wrapped s\<rparr>" "fs\<lparr>fs_volume := wrapped s, data_offset := data_offset fs + c\<rparr>"] by simp
  moreover have "cpio_insert_file_header vol True fs m = (Some (), g\<lparr>fs_volume := wrapped s, data_offset := data_offset fs + c\<rparr>)"
    using v(1) s(1) unfolding cpio_insert_file_header_def null i_def [symmetric] Let_def by (simp add: mu)
  moreover have "vblocks (view (wrapped s)) = vblocks (view (fs_volume fs))" using s(3) v(3) by (simp add: vs_kept_def)
  ultimately show ?thesis unfolding g_def i_def c_def by blast
qed

end

text \<open>The files in the order of their data, each behind its header: \<open>st\<close> are the start indices in blocks of \<open>k\<close> bytes, \<open>hdr\<close> the headers
  and \<open>dat\<close> the data.\<close>

definition segments :: "(nat \<Rightarrow> byte list) \<Rightarrow> (nat \<Rightarrow> byte list) \<Rightarrow> nat list \<Rightarrow> byte list" where
  "segments hdr dat ms = concat (map (\<lambda>m. hdr m @ dat m) ms)"

lemma segments_simps [simp]:
  "segments hdr dat [] = []" "segments hdr dat (m # ms) = hdr m @ dat m @ segments hdr dat ms"
  "segments hdr dat (xs @ ys) = segments hdr dat xs @ segments hdr dat ys"
  by (simp_all add: segments_def)

lemma segments_cong: "(\<And>m. m \<in> set ms \<Longrightarrow> hdr m = hdr' m) \<Longrightarrow> segments hdr dat ms = segments hdr' dat ms"
  unfolding segments_def by (metis (mono_tags, lifting) map_cong)

fun placed :: "(nat \<Rightarrow> nat) \<Rightarrow> nat \<Rightarrow> (nat \<Rightarrow> byte list) \<Rightarrow> (nat \<Rightarrow> byte list) \<Rightarrow> nat \<Rightarrow> nat list \<Rightarrow> bool" where
  "placed st k hdr dat p [] \<longleftrightarrow> True"
| "placed st k hdr dat p (m # ms) \<longleftrightarrow> st m * k = p + length (hdr m) \<and> placed st k hdr dat (p + length (hdr m) + length (dat m)) ms"

lemma placed_append:
  "placed st k hdr dat p (xs @ ys) \<longleftrightarrow> placed st k hdr dat p xs \<and> placed st k hdr dat (p + length (segments hdr dat xs)) ys"
  by (induction xs arbitrary: p) (simp_all add: add.assoc)

lemma placed_bounds:
  "placed st k hdr dat p ms \<Longrightarrow> x \<in> set ms \<Longrightarrow> p \<le> st x * k \<and> st x * k + length (dat x) \<le> p + length (segments hdr dat ms)"
  by (induction ms arbitrary: p) fastforce+

lemma placed_shift:
  "placed st k hdr dat p ms \<Longrightarrow> (\<And>x. x \<in> set ms \<Longrightarrow> st' x = st x + c \<and> hdr' x = hdr x) \<Longrightarrow> placed st' k hdr' dat (p + c * k) ms"
proof (induction ms arbitrary: p)
  case (Cons m ms)
  have "placed st' k hdr' dat (p + length (hdr m) + length (dat m) + c * k) ms" using Cons.prems by (intro Cons.IH) auto
  then show ?case using Cons.prems(1) Cons.prems(2) [of m] by (simp add: add_ac add_mult_distrib)
qed simp

lemma placed_insert:
  assumes p: "placed st k hdr dat p (as @ m # bs)" and m: "hdr m = []" "m \<notin> set as" "m \<notin> set bs" and H: "length H = c * k" and k: "0 < k"
    and dat: "\<forall>x\<in>set (as @ m # bs). dat x \<noteq> []"
  shows "placed (\<lambda>x. if st m \<le> st x then st x + c else st x) k (hdr(m := H)) dat p (as @ m # bs)"
proof -
  let ?st = "\<lambda>x. if st m \<le> st x then st x + c else st x" and ?q = "p + length (segments hdr dat as)"
  have q: "placed st k hdr dat p as" "st m * k = ?q" "placed st k hdr dat (?q + length (dat m)) bs"
    using p m(1) by (simp_all add: placed_append)
  have "?st x = st x + 0 \<and> (hdr(m := H)) x = hdr x" if x: "x \<in> set as" for x
  proof -
    have "0 < length (dat x)" using dat x by simp
    then have "st x * k < st m * k" using placed_bounds [OF q(1) x] unfolding q(2) by linarith
    then show ?thesis using x m(2) k by auto
  qed
  then have "placed ?st k (hdr(m := H)) dat (p + 0 * k) as" by (rule placed_shift [OF q(1)])
  then have 1: "placed ?st k (hdr(m := H)) dat p as" by (simp only: mult_0 add_0_right)
  have "?st x = st x + c \<and> (hdr(m := H)) x = hdr x" if x: "x \<in> set bs" for x
  proof -
    have "st m * k \<le> st x * k" using placed_bounds [OF q(3) x] unfolding q(2) by simp
    then show ?thesis using x m(3) k by auto
  qed
  then have 2: "placed ?st k (hdr(m := H)) dat (?q + length (dat m) + c * k) bs" by (rule placed_shift [OF q(3)])
  have "segments (hdr(m := H)) dat as = segments hdr dat as" using m(2) by (intro segments_cong) auto
  then show ?thesis using 1 2 q(2) H by (simp add: placed_append add_mult_distrib add_ac)
qed

context volume
begin

definition laid_out :: "'v fstree \<Rightarrow> nat list \<Rightarrow> byte list \<Rightarrow> (nat \<Rightarrow> byte list) \<Rightarrow> (nat \<Rightarrow> byte list) \<Rightarrow> 'v fstree \<Rightarrow> bool" where
  "laid_out fs0 ord T hdr dat fs \<longleftrightarrow> flat fs (T @ segments hdr dat ord) \<and>
     placed (\<lambda>m. start_index (file_of fs m)) bs hdr dat (length T) ord \<and> same_tree fs0 fs \<and> vblocks (view (fs_volume fs)) = vblocks (view (fs_volume fs0))"

lemma insert_header_laid_out:
  assumes bs4: "bs = 4" and l: "laid_out fs0 ord T hdr dat fs" and m: "m \<in> set ord" "hdr m = []" "set ord \<subseteq> set (files fs0)" "distinct ord" "distinct (files fs0)"
    and dat: "\<forall>x\<in>set ord. dat x \<noteq> []" and H: "H = cpio_bytes fs0 (nodes fs0 m) m False"
    and ok: "short_paths fs0 (nodes fs0 m) m" "cpio_fits (nodes fs0 m)"
    and room: "length (T @ segments hdr dat ord) + length H \<le> vblocks (view (fs_volume fs0)) * bs"
  shows "\<exists>fs'. cpio_insert_file_header vol True fs m = (Some (), fs') \<and> laid_out fs0 ord T (hdr(m := H)) dat fs'"
proof -
  obtain xs ys where ord: "ord = xs @ m # ys" using m(1) by (auto simp: in_set_conv_decomp)
  define A where "A = T @ segments hdr dat xs"
  define B where "B = dat m @ segments hdr dat ys"
  define c where "c = length H div bs"
  note l' = l [unfolded laid_out_def]
  have f: "flat fs (A @ B)" and pl: "placed (\<lambda>m. start_index (file_of fs m)) bs hdr dat (length T) ord" and st: "same_tree fs0 fs"
    and vb: "vblocks (view (fs_volume fs)) = vblocks (view (fs_volume fs0))"
    using l' by (simp_all add: A_def B_def ord m(2))
  have start: "start_index (file_of fs m) * bs = length A" using pl by (simp add: ord placed_append A_def m(2))
  have B: "B \<noteq> []" using dat m(1) by (simp add: B_def)
  have fl: "files fs = files fs0" using same_treeD(1) [OF st] by simp
  have hb: "H = cpio_bytes fs (nodes fs m) m False" "short_paths fs (nodes fs m) m" "cpio_fits (nodes fs m)"
    using same_tree_bytes [OF st] ok by (simp_all add: H)
  have "length (A @ B) + length H \<le> capacity (fs_volume fs)" using room vb by (simp add: A_def B_def ord m(2))
  from insert_file_header_ok [OF bs4 f start B _ hb this] m(5) obtain v where v: "cpio_insert_file_header vol True fs m =
      (Some (), (if H \<noteq> [] then gap_nodes (start_index (file_of fs m)) c (set (files fs)) fs else fs)\<lparr>fs_volume := v, data_offset := data_offset fs + c\<rparr>)"
      "flat (fs\<lparr>fs_volume := v, data_offset := data_offset fs + c\<rparr>) (A @ H @ B)" "vblocks (view v) = vblocks (view (fs_volume fs))"
    unfolding fl c_def by blast
  let ?g = "(if H \<noteq> [] then gap_nodes (start_index (file_of fs m)) c (set (files fs)) fs else fs)\<lparr>fs_volume := v, data_offset := data_offset fs + c\<rparr>"
  have dist: "m \<notin> set xs" "m \<notin> set ys" using m(4) by (auto simp: ord)
  have "4 dvd length H" using cpio_bytes_dvd [OF ok(2,1)] by (simp add: H)
  then have cb: "length H = c * bs" by (simp add: c_def bs4)
  have cs: "segments (hdr(m := H)) dat xs = segments hdr dat xs" "segments (hdr(m := H)) dat ys = segments hdr dat ys"
    using dist by (intro segments_cong; auto)+
  have 1: "flat ?g (T @ segments (hdr(m := H)) dat ord)"
    using v(2) flat_cong [of ?g "fs\<lparr>fs_volume := v, data_offset := data_offset fs + c\<rparr>"] by (simp add: ord cs A_def B_def)
  have 2: "placed (\<lambda>x. start_index (file_of ?g x)) bs (hdr(m := H)) dat (length T) ord"
  proof -
    have "start_index (file_of ?g x) = (if start_index (file_of fs m) \<le> start_index (file_of fs x) then start_index (file_of fs x) + c else start_index (file_of fs x)) + 0 \<and>
        (hdr(m := H)) x = (hdr(m := H)) x" if x: "x \<in> set ord" for x
    proof -
      have "length (T @ segments hdr dat ord) = data_offset fs * bs" using flatD(3) [OF f] by (simp add: A_def B_def ord m(2))
      moreover have "start_index (file_of fs x) * bs \<le> length (T @ segments hdr dat ord)" using placed_bounds [OF pl x] by simp
      moreover have "vblocks (view (fs_volume fs0)) * bs \<le> 2 ^ 63" using max_bound [OF flatD(1) [OF f]] vb by simp
      ultimately have "start_index (file_of fs x) + c < max64" using room cb bs4 by simp
      moreover have "c = 0 \<longleftrightarrow> H = []" using cb bs4 by (metis length_0_conv mult_0 mult_is_0 zero_neq_numeral)
      ultimately show ?thesis using x m(3) fl by (auto simp: gap_nodes_def gap_map_def Let_def add64_exact)
    qed
    from placed_shift [OF placed_insert [OF pl [unfolded ord] m(2) dist cb _ dat [unfolded ord]], of "\<lambda>x. start_index (file_of ?g x)" 0 "hdr(m := H)", folded ord, OF _ this]
    show ?thesis using bs4 by simp
  qed
  have "same_tree fs ?g" by (simp add: same_tree_volume same_tree_gap same_tree_refl)
  then have "same_tree fs0 ?g" by (rule same_tree_trans [OF st])
  then show ?thesis using v(1,3) 1 2 vb unfolding laid_out_def by simp
qed

end

context volume
begin

lemma insert_headers_laid_out:
  assumes bs4: "bs = 4" and ord: "set ord \<subseteq> set (files fs0)" "distinct ord" "distinct (files fs0)" "\<forall>x\<in>set ord. dat x \<noteq> []"
    and H: "\<And>m. H m = cpio_bytes fs0 (nodes fs0 m) m False"
  shows "\<lbrakk>laid_out fs0 ord T hdr dat fs; distinct ms; \<forall>m\<in>set ms. hdr m = [] \<and> short_paths fs0 (nodes fs0 m) m \<and> cpio_fits (nodes fs0 m) \<and>
        (m \<in> set ord \<longleftrightarrow> fstree_file_physical_size bs (file_of fs0 m) \<noteq> 0);
      length (T @ segments hdr dat ord) + sum_list (map (\<lambda>m. length (H m)) (filter (\<lambda>m. m \<in> set ord) ms)) \<le> vblocks (view (fs_volume fs0)) * bs\<rbrakk> \<Longrightarrow>
    \<exists>fs'. cpio_insert_file_headers vol True fs ms = (Some (), fs') \<and> laid_out fs0 ord T (\<lambda>m. if m \<in> set ms \<inter> set ord then H m else hdr m) dat fs'"
proof (induction ms arbitrary: hdr fs)
  case (Cons m ms)
  have st: "same_tree fs0 fs" using Cons.prems(1) by (simp add: laid_out_def)
  have ph: "fstree_file_physical_size bs (file_of fs m) = fstree_file_physical_size bs (file_of fs0 m)" by (rule same_tree_bytes(5) [OF st])
  show ?case
  proof (cases "m \<in> set ord")
    case False
    then have "fstree_file_physical_size bs (file_of fs m) = 0" using Cons.prems(3) ph by simp
    moreover have "(\<lambda>x. if x \<in> set (m # ms) \<inter> set ord then H x else hdr x) = (\<lambda>x. if x \<in> set ms \<inter> set ord then H x else hdr x)" using False by auto
    ultimately show ?thesis using Cons.IH [OF Cons.prems(1)] Cons.prems(2-4) False by simp
  next
    case True
    then have ne: "fstree_file_physical_size bs (file_of fs m) \<noteq> 0" using Cons.prems(3) ph by simp
    have "length (T @ segments hdr dat ord) + length (H m) \<le> vblocks (view (fs_volume fs0)) * bs" using Cons.prems(4) True by simp
    with insert_header_laid_out [OF bs4 Cons.prems(1) True _ ord(1-3) ord(4) H] Cons.prems(3) obtain fs1 where
      fs1: "cpio_insert_file_header vol True fs m = (Some (), fs1)" "laid_out fs0 ord T (hdr(m := H m)) dat fs1" by auto
    have len: "length (segments (hdr(m := H m)) dat ord) = length (segments hdr dat ord) + length (H m)"
    proof -
      obtain xs ys where o: "ord = xs @ m # ys" using True by (auto simp: in_set_conv_decomp)
      then have "segments (hdr(m := H m)) dat xs = segments hdr dat xs" "segments (hdr(m := H m)) dat ys = segments hdr dat ys"
        using ord(2) by (intro segments_cong; auto)+
      then show ?thesis using Cons.prems(3) by (simp add: o)
    qed
    have nd: "m \<notin> set ms" "distinct ms" using Cons.prems(2) by simp_all
    have 3: "\<forall>x\<in>set ms. (hdr(m := H m)) x = [] \<and> short_paths fs0 (nodes fs0 x) x \<and> cpio_fits (nodes fs0 x) \<and>
        (x \<in> set ord \<longleftrightarrow> fstree_file_physical_size bs (file_of fs0 x) \<noteq> 0)" using Cons.prems(3) nd by auto
    have 4: "length (T @ segments (hdr(m := H m)) dat ord) + sum_list (map (\<lambda>m. length (H m)) (filter (\<lambda>m. m \<in> set ord) ms)) \<le> vblocks (view (fs_volume fs0)) * bs"
      using Cons.prems(4) True by (simp add: len)
    have "(\<lambda>x. if x \<in> set (m # ms) \<inter> set ord then H x else hdr x) = (\<lambda>x. if x \<in> set ms \<inter> set ord then H x else (hdr(m := H m)) x)"
      using True nd by auto
    then show ?thesis using Cons.IH [OF fs1(2) nd(2) 3 4] fs1(1) ne by simp
  qed
qed (simp)

end

section \<open>The whole archive\<close>

lemma same_tree_parts:
  assumes s: "same_tree fs fs'"
  shows "tree_part fs' ns = tree_part fs ns" "zero_part fs' b = zero_part fs b" "links_ok fs' = links_ok fs"
  unfolding tree_part_def zero_part_def links_ok_def
  by (simp_all add: same_tree_bytes [OF s] same_treeD(1,2,6,8) [OF s])

lemma concat_dvd: "\<forall>x\<in>set xs. (k :: nat) dvd length (f x) \<Longrightarrow> k dvd length (concat (map f xs))"
  by (induction xs) simp_all

lemma parts_dvd:
  assumes ok: "\<forall>n\<in>set ns \<union> set (files fs). short_paths fs (nodes fs n) n \<and> cpio_fits (nodes fs n)" and l: "links_ok fs"
    and t: "\<forall>n\<in>set (nodes_by_type fs TREE_NODE_HARD_LINK). cpio_fits (nodes fs (the (link_resolved (nodes fs n))))"
  shows "4 dvd length (tree_part fs ns)" "4 dvd length (zero_part fs b)"
proof -
  have "4 dvd length (cpio_bytes fs (link_dummy fs n (the (link_resolved (nodes fs n)))) n True)" if n: "n \<in> set (nodes_by_type fs TREE_NODE_HARD_LINK)" for n
    using l t n by (auto simp: links_ok_def short_paths_def cpio_fits_def link_dummy_def intro!: cpio_bytes_dvd)
  then have 1: "4 dvd length (concat (map (\<lambda>n. cpio_bytes fs (link_dummy fs n (the (link_resolved (nodes fs n)))) n True) (nodes_by_type fs TREE_NODE_HARD_LINK)))"
    by (intro concat_dvd) blast
  have 2: "4 dvd length (concat (map (\<lambda>n. cpio_bytes fs (nodes fs n) n False) xs))" if "set xs \<subseteq> set ns \<union> set (files fs)" for xs
    using that ok by (intro concat_dvd) (auto intro!: cpio_bytes_dvd)
  show "4 dvd length (tree_part fs ns)" unfolding tree_part_def length_append by (rule dvd_add [OF 2 1]) auto
  show "4 dvd length (zero_part fs b)" unfolding zero_part_def by (rule 2) auto
qed

context volume
begin

text \<open>The gap for the tree, and the tree written into it.\<close>

lemma tree_laid_out:
  fixes fs :: "'v fstree"
  assumes bs4: "bs = 4" and f: "flat fs (segments (\<lambda>_. []) dat ord)" and pl: "placed (\<lambda>m. start_index (file_of fs m)) bs (\<lambda>_. []) dat 0 ord"
    and ord: "set ord \<subseteq> set (files fs)" "distinct (files fs)" "\<forall>x\<in>set ord. dat x \<noteq> []"
    and tab: "inode_table fs = map Some ns" and lk: "links_ok fs" and sh: "\<forall>n\<in>set ns. short_paths fs (nodes fs n) n"
    and T: "T = tree_part fs ns" "4 dvd length T" and room: "length T + length (segments (\<lambda>_. []) dat ord) \<le> capacity (fs_volume fs)"
  shows "\<exists>fs1 s. cpio_estimate_tree_size True fs = Some (length T) \<and> fstree_add_gap vol fs 0 (length T) = (Some (), fs1) \<and> files fs1 = files fs \<and>
    cpio_write_tree True fs1 (vol_ostream_ops vol) (volume_ostream_create (fs_volume fs1) 0 (length T)) = (Some (), s) \<and>
    laid_out fs ord T (\<lambda>_. []) dat (fs1\<lparr>fs_volume := wrapped s\<rparr>)"
proof -
  define c where "c = length T div bs"
  let ?D = "segments (\<lambda>_. []) dat ord" and ?N = "vblocks (view (fs_volume fs))"
  have cap: "capacity (fs_volume fs) \<le> 2 ^ 63" by (rule max_bound [OF flatD(1) [OF f]])
  have cT: "c * bs = length T" using T(2) by (simp add: c_def bs4)
  have "null_room 0 (length T + 0)" using room cap by (simp add: null_room_def)
  from null_out.cpio_write_tree_ok [OF this [unfolded T(1)] sh lk tab] have est: "cpio_estimate_tree_size True fs = Some (length T)"
    by (auto simp: cpio_estimate_tree_size_def T(1))
  have "data_offset fs * bs + c * bs \<le> ?N * bs" using room flatD(3) [OF f] cT by simp
  then have rm: "data_offset fs + c \<le> ?N" using bs4 by simp
  have f0: "flat fs ([] @ ?D)" "length [] = 0 * bs" using f by simp_all
  from add_gap_flat [OF f0 rm ord(2)] obtain v1 where v1: "fstree_add_gap vol fs 0 (length T) =
      (Some (), (if 0 < c \<and> ?D \<noteq> [] then gap_nodes 0 c (set (files fs)) fs else fs)\<lparr>fs_volume := v1, data_offset := data_offset fs + c\<rparr>)"
      "flat (fs\<lparr>fs_volume := v1, data_offset := data_offset fs + c\<rparr>) (zeros (length T) @ ?D)" "vblocks (view v1) = ?N"
    unfolding cT by auto
  define fs1 where "fs1 = (if 0 < c \<and> ?D \<noteq> [] then gap_nodes 0 c (set (files fs)) fs else fs)\<lparr>fs_volume := v1, data_offset := data_offset fs + c\<rparr>"
  have st1: "same_tree fs fs1" by (simp add: fs1_def same_tree_volume same_tree_gap same_tree_refl)
  have fl1: "flat fs1 ([] @ zeros (length T) @ ?D)"
    using v1(2) flat_cong [of fs1 "fs\<lparr>fs_volume := v1, data_offset := data_offset fs + c\<rparr>"] by (simp add: fs1_def)
  have fv1: "fs_volume fs1 = v1" by (simp add: fs1_def)
  note p1 = same_tree_parts [OF st1]
  have sh1: "\<forall>n\<in>set ns. short_paths fs1 (nodes fs1 n) n" using sh by (simp add: same_tree_bytes [OF st1])
  have tab1: "inode_table fs1 = map Some ns" using tab same_treeD(2) [OF st1] by simp
  from vk.cpio_write_tree_ok [OF stream_start [OF fl1, unfolded length_zeros list.size, unfolded T(1), folded p1(1) [of ns]] sh1 _ tab1]
  obtain s where s: "cpio_write_tree True fs1 (vol_ostream_ops vol) (volume_ostream_create v1 0 (length T)) = (Some (), s)"
      "vs_view s = put_at (vs_view (volume_ostream_create v1 0 (length T))) T" "vs_kept ?N (length ([] @ zeros (length T) @ ?D)) s 0"
    using lk p1(1) [of ns] p1(3) by (auto simp: fv1 v1(3) T(1))
  define fs2 where "fs2 = fs1\<lparr>fs_volume := wrapped s\<rparr>"
  have fl2: "flat fs2 (T @ ?D)"
    unfolding fs2_def using stream_end [OF fl1, of s T] s(2,3) cT by (simp add: fv1 v1(3)) (metis mod_mult_self2_is_0)
  have vb2: "vblocks (view (fs_volume fs2)) = ?N" using s(3) by (simp add: vs_kept_def fs2_def)
  have pl2: "placed (\<lambda>m. start_index (file_of fs2 m)) bs (\<lambda>_. []) dat (0 + c * bs) ord"
  proof (rule placed_shift [OF pl])
    fix x assume x: "x \<in> set ord"
    then have D: "?D \<noteq> []" using ord(3) by (auto simp: segments_def)
    have "start_index (file_of fs x) * bs \<le> length ?D" using placed_bounds [OF pl x] by simp
    then have "start_index (file_of fs x) + c < max64" using room cap cT bs4 by simp
    then show "start_index (file_of fs2 x) = start_index (file_of fs x) + c \<and> [] = []"
      using D x ord(1) by (auto simp: fs2_def fs1_def gap_nodes_def gap_map_def Let_def add64_exact)
  qed
  have "laid_out fs ord T (\<lambda>_. []) dat fs2"
    unfolding laid_out_def using fl2 pl2 st1 vb2 by (simp add: cT fs2_def same_tree_volume)
  then show ?thesis
    using est v1(1) s(1) same_treeD(1) [OF st1] unfolding fs1_def [symmetric] fs2_def fv1 by (intro exI [of _ fs1] exI [of _ s]) (simp add: fv1)
qed

text \<open>The empty files and the trailer behind everything else.\<close>

lemma tail_laid_out:
  assumes f: "flat fs3 X" and st: "same_tree fs fs3" and sh: "\<forall>n\<in>set (files fs). short_paths fs (nodes fs n) n"
    and room: "length (X @ zero_part fs bs @ trailer_bytes (length X)) \<le> capacity (fs_volume fs3)"
  shows "\<exists>s1 s2. mul64 (data_offset fs3) bs = length X \<and>
    cpio_append_zero_size_files True bs fs3 (vol_ostream_ops vol) (volume_ostream_create (fs_volume fs3) (length X) 0xFFFFFFFFFFFFFFFF) (files fs) = (Some (), s1) \<and>
    cpio_write_trailer (length X) (vol_ostream_ops vol) s1 = (Some (), s2) \<and> inv (wrapped s2) \<and>
    peek (content (view (wrapped s2))) 0 (length (X @ zero_part fs bs @ trailer_bytes (length X))) = X @ zero_part fs bs @ trailer_bytes (length X)"
proof -
  let ?Z = "zero_part fs bs" and ?R = "trailer_bytes (length X)"
  let ?s0 = "volume_ostream_create (fs_volume fs3) (length X) 0xFFFFFFFFFFFFFFFF"
  have cap: "capacity (fs_volume fs3) \<le> 2 ^ 63" by (rule max_bound [OF flatD(1) [OF f]])
  have start: "mul64 (data_offset fs3) bs = length X" using flatD(3) [OF f] room cap by (simp add: mul64_def)
  have files3: "files fs3 = files fs" using same_treeD(1) [OF st] by simp
  have "vs_room ?s0 (length ?Z + (length ?R + 0))"
    using flatD(1) [OF f] room cap by (simp add: vs_room_def volume_ostream_create_def)
  moreover have "\<forall>n\<in>set (files fs). short_paths fs3 (nodes fs3 n) n" using sh by (simp add: same_tree_bytes [OF st])
  ultimately obtain s1 where s1: "cpio_append_zero_size_files True bs fs3 (vol_ostream_ops vol) ?s0 (files fs) = (Some (), s1)"
      "vs_view s1 = put_at (vs_view ?s0) ?Z" "vs_room s1 (length ?R + 0)"
    using vs.cpio_zero_files_ok [of ?s0 fs3 bs "files fs" "length ?R + 0", folded files3(1), folded zero_part_def, unfolded files3 same_tree_parts [OF st]] by blast
  have "length X + 1024 < max64" using room cap by simp
  from vs.cpio_write_trailer_ok [OF s1(3) this] obtain s2 where s2: "cpio_write_trailer (length X) (vol_ostream_ops vol) s1 = (Some (), s2)"
      "vs_view s2 = put_at (vs_view s1) ?R" "vs_room s2 0" by blast
  have "vs_view s2 = put_at (vs_view ?s0) (?Z @ ?R)" using s1(2) s2(2) by (simp add: put_at_laws)
  then have "content (view (wrapped s2)) = poke (content (view (fs_volume fs3))) (length X) (?Z @ ?R)"
    by (simp add: vs_view_def put_at_def volume_ostream_create_def)
  then have "peek (content (view (wrapped s2))) 0 (length (X @ ?Z @ ?R)) = X @ ?Z @ ?R" using peek_poke_end [OF flatD(4) [OF f]] by (simp only:)
  then show ?thesis using start s1(1) s2(1,3) unfolding vs_room_def by blast
qed

lemma lay_out_ok:
  fixes fs :: "'v fstree"
  assumes bs4: "bs = 4" and f: "flat fs (segments (\<lambda>_. []) dat ord)" and pl: "placed (\<lambda>m. start_index (file_of fs m)) bs (\<lambda>_. []) dat 0 ord"
    and ord: "set ord = {m \<in> set (files fs). fstree_file_physical_size bs (file_of fs m) \<noteq> 0}" "distinct ord" "distinct (files fs)" "\<forall>x\<in>set ord. dat x \<noteq> []"
    and tab: "inode_table fs = map Some ns" and lk: "links_ok fs"
    and ok: "\<forall>n\<in>set ns \<union> set (files fs). short_paths fs (nodes fs n) n \<and> cpio_fits (nodes fs n)"
      "\<forall>n\<in>set (nodes_by_type fs TREE_NODE_HARD_LINK). cpio_fits (nodes fs (the (link_resolved (nodes fs n))))"
    and H: "H = (\<lambda>m. cpio_bytes fs (nodes fs m) m False)"
    and X: "X = tree_part fs ns @ segments H dat ord" and Y: "Y = X @ zero_part fs bs @ trailer_bytes (length X)"
    and room: "length Y \<le> capacity (fs_volume fs)"
  shows "\<exists>fs'. cpio_lay_out vol True fs = (Some (), fs') \<and> inv (fs_volume fs') \<and> peek (content (view (fs_volume fs'))) 0 (length Y) = Y \<and> 4 dvd length X"
proof -
  define T where "T = tree_part fs ns"
  let ?D = "segments (\<lambda>_. []) dat ord" and ?N = "vblocks (view (fs_volume fs))"
  have sub: "set ord \<subseteq> set (files fs)" using ord(1) by auto
  have segs: "length (segments H dat ord) = length ?D + sum_list (map (\<lambda>m. length (H m)) ord)" for H :: "nat \<Rightarrow> byte list"
    by (induction ord) simp_all
  have lenX: "length X = length T + length ?D + sum_list (map (\<lambda>m. length (H m)) ord)" unfolding X by (simp add: segs [of H] T_def)
  have lX: "length X \<le> capacity (fs_volume fs)" using room by (simp add: Y)
  have sh: "\<forall>n\<in>set ns. short_paths fs (nodes fs n) n" "\<forall>n\<in>set (files fs). short_paths fs (nodes fs n) n" using ok(1) by blast+
  have dT: "4 dvd length T" unfolding T_def by (rule parts_dvd(1) [OF ok(1) lk ok(2)])
  have "length T + length ?D \<le> capacity (fs_volume fs)" using lX lenX by simp
  from tree_laid_out [OF bs4 f pl sub ord(3,4) tab lk sh(1) T_def dT this] obtain fs1 s where
    t: "cpio_estimate_tree_size True fs = Some (length T)" "fstree_add_gap vol fs 0 (length T) = (Some (), fs1)" "files fs1 = files fs"
      "cpio_write_tree True fs1 (vol_ostream_ops vol) (volume_ostream_create (fs_volume fs1) 0 (length T)) = (Some (), s)"
      "laid_out fs ord T (\<lambda>_. []) dat (fs1\<lparr>fs_volume := wrapped s\<rparr>)" by blast
  have "set (filter (\<lambda>m. m \<in> set ord) (files fs)) = set ord" using sub by auto
  then have sm: "sum_list (map (\<lambda>m. length (H m)) (filter (\<lambda>m. m \<in> set ord) (files fs))) = sum_list (map (\<lambda>m. length (H m)) ord)"
    using sum_list_distinct_conv_sum_set [OF ord(2)] sum_list_distinct_conv_sum_set [OF distinct_filter [OF ord(3)]] by metis
  have okf: "\<forall>m\<in>set (files fs). [] = [] \<and> short_paths fs (nodes fs m) m \<and> cpio_fits (nodes fs m) \<and>
      (m \<in> set ord \<longleftrightarrow> fstree_file_physical_size bs (file_of fs m) \<noteq> 0)" using ok(1) unfolding ord(1) by blast
  have rmf: "length (T @ ?D) + sum_list (map (\<lambda>m. length (H m)) (filter (\<lambda>m. m \<in> set ord) (files fs))) \<le> ?N * bs"
    unfolding sm using lX lenX by simp
  have Hm: "H m = cpio_bytes fs (nodes fs m) m False" for m by (simp add: H)
  from insert_headers_laid_out [OF bs4 sub ord(2,3,4) Hm t(5) ord(3) okf rmf] obtain fs3 where
    fs3: "cpio_insert_file_headers vol True (fs1\<lparr>fs_volume := wrapped s\<rparr>) (files fs) = (Some (), fs3)"
      "laid_out fs ord T (\<lambda>m. if m \<in> set (files fs) \<inter> set ord then H m else []) dat fs3" by auto
  have "segments (\<lambda>m. if m \<in> set (files fs) \<inter> set ord then H m else []) dat ord = segments H dat ord"
    using sub by (intro segments_cong) auto
  then have fl3: "flat fs3 X" and st3: "same_tree fs fs3" and vb3: "vblocks (view (fs_volume fs3)) = ?N"
    using fs3(2) by (simp_all add: laid_out_def X T_def)
  have "files fs3 = files fs" using same_treeD(1) [OF st3] by simp
  moreover have "length (X @ zero_part fs bs @ trailer_bytes (length X)) \<le> capacity (fs_volume fs3)" using room vb3 by (simp add: Y)
  from tail_laid_out [OF fl3 st3 sh(2) this] obtain s1 s2 where
    e: "mul64 (data_offset fs3) bs = length X"
      "cpio_append_zero_size_files True bs fs3 (vol_ostream_ops vol) (volume_ostream_create (fs_volume fs3) (length X) 0xFFFFFFFFFFFFFFFF) (files fs) = (Some (), s1)"
      "cpio_write_trailer (length X) (vol_ostream_ops vol) s1 = (Some (), s2)" "inv (wrapped s2)" "peek (content (view (wrapped s2))) 0 (length Y) = Y"
    unfolding Y by blast
  ultimately have "cpio_lay_out vol True fs = (Some (), fs3\<lparr>fs_volume := wrapped s2\<rparr>)"
    using t(1-4) fs3(1) by (simp add: cpio_lay_out_def Let_def)
  moreover have "4 dvd length X" using flatD(3) [OF fl3] bs4 by simp
  ultimately show ?thesis using e(4,5) by auto
qed

end

end
