(* ===== verification/CpioArchive.thy ===== *)
theory CpioArchive
  imports CpioRound
begin

text \<open>
  The round trip of a whole archive: what \<open>cpio_build_format\<close> leaves on a volume is read back as the nodes of the tree it was given, with
  the contents of the files.
\<close>

section \<open>Reading the parts of an archive\<close>

lemma cpio_read_node:
  assumes "n_type n \<noteq> TREE_NODE_HARD_LINK" "cpio_fits n" "short_paths fs n m" "cpio_path fs m \<noteq> cpio_trailer"
    "if n_type n = TREE_NODE_FILE \<and> \<not> hl then length d = f_size (n_file n) else d = []" "length z = length (pad4 (length d))"
  shows "cpio_read (cpio_bytes fs n m hl @ d @ z @ r) = map_option ((#) (node_entry fs n m (own_data n @ d))) (cpio_read r)"
proof -
  have "ce_name (node_entry fs n m (own_data n @ d)) \<noteq> ascii ''TRAILER!!!''" using assms(4) by (simp add: node_entry_def cpio_trailer_def)
  then show ?thesis by (subst cpio_read.simps) (simp add: read_node [OF assms(1-3,5,6)])
qed

lemma cpio_read_list:
  assumes "\<And>n r. n \<in> set ns \<Longrightarrow> cpio_read (f n @ r) = map_option ((#) (e n)) (cpio_read r)"
  shows "cpio_read (concat (map f ns) @ r) = map_option ((@) (map e ns)) (cpio_read r)"
  using assms
proof (induction ns)
  case (Cons n ns)
  have "cpio_read (concat (map f ns) @ r) = map_option ((@) (map e ns)) (cpio_read r)" using Cons by auto
  then show ?case using Cons.prems [of n "concat (map f ns) @ r"] by (simp add: option.map_comp comp_def)
next
  case Nil
  have "(@) [] = (\<lambda>x :: cpio_entry list. x)" by auto
  then show ?case by (simp add: option.map_ident)
qed

section \<open>Files that fill the used area\<close>

text \<open>The files of a list follow each other without gaps up to the end of the used area, and none of them has holes.\<close>

fun packed :: "'v fstree \<Rightarrow> nat \<Rightarrow> nat list \<Rightarrow> bool" where
  "packed fs p [] \<longleftrightarrow> p = data_offset fs"
| "packed fs p (m # ms) \<longleftrightarrow> start_index (file_of fs m) = p \<and> packed fs (p + div_up (f_size (file_of fs m)) 4) ms"

definition file_area :: "(nat \<Rightarrow> byte) \<Rightarrow> 'v fstree \<Rightarrow> nat \<Rightarrow> byte list" where
  "file_area c fs m = peek c (start_index (file_of fs m) * 4) (div_up (f_size (file_of fs m)) 4 * 4)"

lemma packed_areas:
  "packed fs p ms \<Longrightarrow> p \<le> data_offset fs \<and> segments (\<lambda>_. []) (file_area c fs) ms = peek c (p * 4) ((data_offset fs - p) * 4) \<and>
     placed (\<lambda>m. start_index (file_of fs m)) 4 (\<lambda>_. []) (file_area c fs) (p * 4) ms"
proof (induction ms arbitrary: p)
  case (Cons m ms)
  define k where "k = div_up (f_size (file_of fs m)) 4"
  have p: "start_index (file_of fs m) = p" "packed fs (p + k) ms" using Cons.prems by (simp_all add: k_def)
  note IH = Cons.IH [OF p(2)]
  have a: "file_area c fs m = peek c (p * 4) (k * 4)" by (simp add: file_area_def p(1) k_def)
  have "peek c (p * 4) (k * 4) @ peek c ((p + k) * 4) ((data_offset fs - (p + k)) * 4) = peek c (p * 4) ((data_offset fs - p) * 4)"
  proof -
    have "k * 4 + (data_offset fs - (p + k)) * 4 = (data_offset fs - p) * 4" using IH by linarith
    then show ?thesis using peek_append [of c "p * 4" "k * 4" "(data_offset fs - (p + k)) * 4"] by (simp only: add_mult_distrib)
  qed
  then show ?case using IH a p(1) by (simp add: add_mult_distrib)
qed simp

lemma file_area_content:
  assumes "sparse (file_of fs m) = []" "f_size (file_of fs m) < 2 ^ 64"
  shows "take (f_size (file_of fs m)) (file_area (content w) fs m) = file_content 4 w (file_of fs m)"
    "fstree_file_physical_size 4 (file_of fs m) = f_size (file_of fs m)"
    "length (drop (f_size (file_of fs m)) (file_area (content w) fs m)) = length (pad4 (f_size (file_of fs m)))"
    "f_size (file_of fs m) \<le> length (file_area (content w) fs m)"
proof -
  let ?f = "file_of fs m"
  have sb: "stored_before {} b = b" for b by (simp add: stored_before_def)
  have le: "f_size ?f \<le> div_up (f_size ?f) 4 * 4" by (rule div_up_ge) simp
  then show "f_size ?f \<le> length (file_area (content w) fs m)" by (simp add: file_area_def)
  have "file_byte 4 w ?f p = content w (start_index ?f * 4 + p)" if "p < f_size ?f" for p
    using that assms by (simp add: file_byte_def file_addr_def hole_blocks_def sb add_mult_distrib add.commute)
  then show "take (f_size ?f) (file_area (content w) fs m) = file_content 4 w ?f"
    using le by (intro nth_equalityI) (simp_all add: file_area_def file_content_def)
  show "fstree_file_physical_size 4 ?f = f_size ?f"
    using assms by (simp add: fstree_file_physical_size_def fstree_file_sparse_bytes_def)
  have "div_up n 4 * 4 = align4 n" for n
  proof -
    define q r where "q = n div 4" and "r = n mod 4"
    have n: "n = 4 * q + r" "r < 4" by (simp_all add: q_def r_def)
    then have "r = 0 \<or> r = 1 \<or> r = 2 \<or> r = 3" by linarith
    then show ?thesis unfolding align4_def div_up_def n(1) by auto
  qed
  then show "length (drop (f_size ?f) (file_area (content w) fs m)) = length (pad4 (f_size ?f))"
    by (simp add: file_area_def align4_pad4)
qed

section \<open>Reading an archive\<close>

definition arch_entry :: "'v fstree \<Rightarrow> view \<Rightarrow> nat \<Rightarrow> cpio_entry" where
  "arch_entry fs w n =
     (if n_type (nodes fs n) = TREE_NODE_HARD_LINK then node_entry fs (nodes fs (the (link_resolved (nodes fs n)))) n []
      else node_entry fs (nodes fs n) n (if n_type (nodes fs n) = TREE_NODE_FILE then file_content 4 w (file_of fs n) else own_data (nodes fs n)))"

definition arch_order :: "'v fstree \<Rightarrow> nat list \<Rightarrow> nat list \<Rightarrow> nat list" where
  "arch_order fs ns ord = filter (\<lambda>n. n_type (nodes fs n) \<noteq> TREE_NODE_FILE) ns @ nodes_by_type fs TREE_NODE_HARD_LINK @ ord @
     filter (\<lambda>n. fstree_file_physical_size 4 (file_of fs n) = 0) (files fs)"

text \<open>What the writer relies on: the numbers and paths fit, no path looks like the trailer, files have no holes and links lead to files.\<close>

definition arch_ok :: "'v fstree \<Rightarrow> bool" where
  "arch_ok fs \<longleftrightarrow> (\<forall>n<node_count fs. length (cpio_path fs n) < 2 ^ 31 \<and> length (link_target (nodes fs n)) < 2 ^ 31 \<and> cpio_path fs n \<noteq> cpio_trailer \<and>
     (n_type (nodes fs n) \<noteq> TREE_NODE_HARD_LINK \<longrightarrow> cpio_fits (nodes fs n)) \<and> sparse (file_of fs n) = []) \<and>
     (\<forall>n<node_count fs. n_type (nodes fs n) = TREE_NODE_HARD_LINK \<longrightarrow>
        (\<exists>t<node_count fs. link_resolved (nodes fs n) = Some t \<and> n_type (nodes fs t) = TREE_NODE_FILE))"

lemma read_archive:
  assumes wf: "tree_wf fs" and ok: "arch_ok fs" and ns: "set ns = {n. n < node_count fs \<and> n_type (nodes fs n) \<noteq> TREE_NODE_HARD_LINK}"
    and ord: "set ord = {m \<in> set (files fs). fstree_file_physical_size 4 (file_of fs m) \<noteq> 0}"
    and X: "X = tree_part fs ns @ segments (\<lambda>m. cpio_bytes fs (nodes fs m) m False) (file_area (content w) fs) ord"
    and al: "4 dvd length X"
  shows "cpio_read ((X @ zero_part fs 4 @ trailer_bytes (length X)) @ r) = Some (map (arch_entry fs w) (arch_order fs ns ord))"
proof -
  let ?H = "\<lambda>m. cpio_bytes fs (nodes fs m) m False"
  have lt: "n < node_count fs \<and> n_type (nodes fs n) = t" if "n \<in> set (nodes_by_type fs t)" for n t
    using tree_wfD(10) [OF wf, of t] that by simp
  have nd: "short_paths fs (nodes fs n) m" "cpio_path fs m \<noteq> cpio_trailer" "cpio_fits (nodes fs n)" "sparse (file_of fs n) = []"
    if "n < node_count fs" "n_type (nodes fs n) \<noteq> TREE_NODE_HARD_LINK" "m < node_count fs" for n m
    using ok that by (simp_all add: arch_ok_def short_paths_def)
  have tree: "cpio_read (?H n @ r) = map_option ((#) (arch_entry fs w n)) (cpio_read r)"
    if "n \<in> set (filter (\<lambda>n. n_type (nodes fs n) \<noteq> TREE_NODE_FILE) ns)" for n r
  proof -
    have n: "n < node_count fs" "n_type (nodes fs n) \<noteq> TREE_NODE_HARD_LINK" "n_type (nodes fs n) \<noteq> TREE_NODE_FILE" using that ns by auto
    show ?thesis
      using cpio_read_node [OF n(2) nd(3,1,2) [OF n(1,2) n(1)], of False "[]" "[]" r] n by (simp add: arch_entry_def pad4_def zeros_def)
  qed
  have link: "cpio_read (cpio_bytes fs (link_dummy fs n (the (link_resolved (nodes fs n)))) n True @ r) = map_option ((#) (arch_entry fs w n)) (cpio_read r)"
    if "n \<in> set (nodes_by_type fs TREE_NODE_HARD_LINK)" for n r
  proof -
    note n = lt [OF that]
    obtain t where t: "t < node_count fs" "link_resolved (nodes fs n) = Some t" "n_type (nodes fs t) = TREE_NODE_FILE" using ok n unfolding arch_ok_def by blast
    let ?d = "link_dummy fs n t"
    have d: "n_type ?d = TREE_NODE_FILE" "cpio_fits ?d" "short_paths fs ?d n" "node_entry fs ?d n x = node_entry fs (nodes fs t) n x" for x
      using t nd [of t n] n by (simp_all add: link_dummy_def cpio_fits_def short_paths_def node_entry_def device_parts_def)
    show ?thesis
      using cpio_read_node [OF _ d(2,3) nd(2) [OF t(1)], of True "[]" "[]" r] d n t by (simp add: arch_entry_def pad4_def zeros_def own_data_def)
  qed
  have stored: "cpio_read ((?H n @ file_area (content w) fs n) @ r) = map_option ((#) (arch_entry fs w n)) (cpio_read r)" if "n \<in> set (files fs)" for n r
  proof -
    note n = lt [OF that]
    have sz: "f_size (file_of fs n) < 2 ^ 64" using nd(3) [of n n] n by (simp add: cpio_fits_def)
    let ?d = "take (f_size (file_of fs n)) (file_area (content w) fs n)" and ?z = "drop (f_size (file_of fs n)) (file_area (content w) fs n)"
    have n1: "n < node_count fs" "n_type (nodes fs n) \<noteq> TREE_NODE_HARD_LINK" using n by simp_all
    note a = file_area_content [OF nd(4) [OF n1 n1(1)] sz]
    have "length ?d = f_size (file_of fs n)" using a(4) [of w] by simp
    then have "cpio_read (?H n @ ?d @ ?z @ r) = map_option ((#) (arch_entry fs w n)) (cpio_read r)"
      using cpio_read_node [OF _ nd(3,1,2) [OF n1 n1(1)], of False ?d ?z r] n a(1,3) [of w] by (simp add: arch_entry_def own_data_def)
    then show ?thesis unfolding append_assoc using append_take_drop_id by (metis append_assoc)
  qed
  have zero: "cpio_read (?H n @ r) = map_option ((#) (arch_entry fs w n)) (cpio_read r)"
    if "n \<in> set (filter (\<lambda>n. fstree_file_physical_size 4 (file_of fs n) = 0) (files fs))" for n r
  proof -
    have n: "n \<in> set (files fs)" "n < node_count fs" "n_type (nodes fs n) \<noteq> TREE_NODE_HARD_LINK"
      using that lt [of n TREE_NODE_FILE] by auto
    have "f_size (file_of fs n) < 2 ^ 64" using nd(3) [OF n(2,3) n(2)] by (simp add: cpio_fits_def)
    then have "f_size (file_of fs n) = 0" using that file_area_content(2) [OF nd(4) [OF n(2,3) n(2)]] by simp
    then have "file_area (content w) fs n = []" by (simp add: file_area_def)
    then show ?thesis using stored [OF n(1), of r] by simp
  qed
  have files: "cpio_read (segments ?H (file_area (content w) fs) ord @ r) = map_option ((@) (map (arch_entry fs w) ord)) (cpio_read r)" for r
    unfolding segments_def by (rule cpio_read_list) (use stored ord in auto)
  define k where "k = length X"
  have "cpio_read ((X @ zero_part fs 4 @ trailer_bytes k) @ r) = Some (map (arch_entry fs w) (arch_order fs ns ord))"
    unfolding X tree_part_def zero_part_def append_assoc arch_order_def
    apply (subst cpio_read_list [where e = "arch_entry fs w"], rule tree, assumption)
    apply (subst cpio_read_list [where e = "arch_entry fs w"], rule link, assumption)
    apply (subst files)
    apply (subst cpio_read_list [where e = "arch_entry fs w"], rule zero, assumption)
    using read_trailer [OF al, folded k_def, of r] by simp
  then show ?thesis by (simp only: k_def)
qed

section \<open>The size of an archive\<close>

definition arch_size :: "'v fstree \<Rightarrow> nat \<Rightarrow> nat" where
  "arch_size fs n = 144 + length (cpio_path fs n) + length (link_target (nodes fs n)) + f_size (file_of fs n)"

lemma pad4_length: "length (pad4 n) \<le> 3"
proof -
  have "(4 - n mod 4) mod 4 < 4" by simp
  then show ?thesis by (simp add: pad4_def)
qed

lemma cpio_bytes_length:
  "length (cpio_bytes fs n m hl) \<le> 131 + length (cpio_path fs m) + (if n_type n = TREE_NODE_SYMLINK then length (link_target n) + 4 else 0)"
proof -
  have "length (archived vs p) \<le> 131 + length p" for vs p
  proof -
    have "length (header_text vs) \<le> 127" by (simp add: header_text_def)
    then show ?thesis unfolding archived_def length_append using pad4_length [of "111 + length p"] by simp
  qed
  moreover have "length (target_bytes n) \<le> (if n_type n = TREE_NODE_SYMLINK then length (link_target n) + 4 else 0)"
    using pad4_length [of "length (link_target n) + 1"] by (simp add: target_bytes_def ascii_def)
  ultimately show ?thesis unfolding cpio_bytes_def by (cases "cpio_numbers n hl") (simp_all only: option.case length_append list.size add_mono le0)
qed

lemma concat_length_le: "(\<And>x. x \<in> set xs \<Longrightarrow> length (f x) \<le> g x) \<Longrightarrow> length (concat (map f xs)) \<le> sum_list (map g xs)"
  by (induction xs) (simp_all add: add_mono)

lemma arch_order_nodes:
  assumes wf: "tree_wf fs" and ns: "set ns = {n. n < node_count fs \<and> n_type (nodes fs n) \<noteq> TREE_NODE_HARD_LINK}" "distinct ns"
    and ord: "set ord = {m \<in> set (files fs). fstree_file_physical_size 4 (file_of fs m) \<noteq> 0}" "distinct ord"
  shows "distinct (arch_order fs ns ord)" "set (arch_order fs ns ord) = {..<node_count fs}"
  using tree_wfD(9,10) [OF wf] ns ord unfolding arch_order_def by (auto simp: distinct_filter)

lemma archive_length:
  assumes wf: "tree_wf fs" and ok: "arch_ok fs" and ns: "set ns = {n. n < node_count fs \<and> n_type (nodes fs n) \<noteq> TREE_NODE_HARD_LINK}" "distinct ns"
    and ord: "set ord = {m \<in> set (files fs). fstree_file_physical_size 4 (file_of fs m) \<noteq> 0}" "distinct ord"
    and X: "X = tree_part fs ns @ segments (\<lambda>m. cpio_bytes fs (nodes fs m) m False) (file_area c fs) ord"
  shows "length (X @ zero_part fs 4 @ trailer_bytes k) \<le> (\<Sum>n<node_count fs. arch_size fs n) + 1024"
proof -
  let ?H = "\<lambda>m. cpio_bytes fs (nodes fs m) m False" and ?s = "arch_size fs"
  have lt: "n < node_count fs \<and> n_type (nodes fs n) = t" if "n \<in> set (nodes_by_type fs t)" for n t
    using tree_wfD(10) [OF wf, of t] that by simp
  have h: "length (?H n) \<le> ?s n" for n using cpio_bytes_length [of fs "nodes fs n" n False] by (auto simp: arch_size_def split: if_splits)
  have l: "length (cpio_bytes fs (link_dummy fs n (the (link_resolved (nodes fs n)))) n True) \<le> ?s n" if "n \<in> set (nodes_by_type fs TREE_NODE_HARD_LINK)" for n
  proof -
    note n = lt [OF that]
    obtain t where t: "link_resolved (nodes fs n) = Some t" "n_type (nodes fs t) = TREE_NODE_FILE" using n ok unfolding arch_ok_def by blast
    then show ?thesis using cpio_bytes_length [of fs "link_dummy fs n t" n True] by (simp add: arch_size_def link_dummy_def)
  qed
  have d: "length (?H n @ file_area c fs n) \<le> ?s n" if "n \<in> set ord" for n
  proof -
    have "n_type (nodes fs n) = TREE_NODE_FILE" using that ord(1) lt by blast
    moreover have "div_up (f_size (file_of fs n)) 4 * 4 \<le> f_size (file_of fs n) + 4"
    proof -
      have "f_size (file_of fs n) div 4 * 4 \<le> f_size (file_of fs n)" by (rule div_times_less_eq_dividend)
      moreover have "div_up (f_size (file_of fs n)) 4 \<le> f_size (file_of fs n) div 4 + 1" by (simp add: div_up_def)
      ultimately show ?thesis by linarith
    qed
    ultimately show ?thesis using cpio_bytes_length [of fs "nodes fs n" n False] by (simp add: arch_size_def file_area_def)
  qed
  have t: "length (trailer_bytes k) \<le> 1024"
  proof -
    have "fill_count (k + 121) < 512" by (simp add: fill_count_def)
    moreover have "length (header_text [0, 0, 0, 0, 1, 0, 0, 0, 0, 0, 0, 11, 0]) = 110" by (rule header_text_ok(1)) simp_all
    moreover have "length cpio_trailer = 10" by (simp add: cpio_trailer_def ascii_def)
    ultimately show ?thesis unfolding trailer_bytes_def length_append by simp
  qed
  have "length X + length (zero_part fs 4) \<le> sum_list (map ?s (arch_order fs ns ord))"
    unfolding X tree_part_def zero_part_def segments_def arch_order_def length_append map_append sum_list_append
    using concat_length_le [of "filter (\<lambda>n. n_type (nodes fs n) \<noteq> TREE_NODE_FILE) ns" ?H ?s, OF h]
      concat_length_le [of "nodes_by_type fs TREE_NODE_HARD_LINK" "\<lambda>n. cpio_bytes fs (link_dummy fs n (the (link_resolved (nodes fs n)))) n True" ?s, OF l]
      concat_length_le [of ord "\<lambda>n. ?H n @ file_area c fs n" ?s, OF d]
      concat_length_le [of "filter (\<lambda>n. fstree_file_physical_size 4 (file_of fs n) = 0) (files fs)" ?H ?s, OF h] by linarith
  also have "\<dots> = (\<Sum>n<node_count fs. ?s n)"
    using sum_list_distinct_conv_sum_set [OF arch_order_nodes(1) [OF wf ns ord], of ?s] arch_order_nodes(2) [OF wf ns ord] by simp
  finally show ?thesis using t by simp
qed

context volume
begin

lemma lay_out_read:
  fixes fs :: "'v fstree"
  assumes bs4: "bs = 4" and inv: "inv (fs_volume fs)" and fw: "fs_wf 4 (view (fs_volume fs)) fs" and wf: "tree_wf fs" and ok: "arch_ok fs"
    and ns: "inode_table fs = map Some ns" "set ns = {n. n < node_count fs \<and> n_type (nodes fs n) \<noteq> TREE_NODE_HARD_LINK}" "distinct ns"
    and ord: "packed fs 0 ord" "set ord = {m \<in> set (files fs). f_size (file_of fs m) \<noteq> 0}" "distinct ord"
    and room: "(\<Sum>n<node_count fs. arch_size fs n) + 1024 \<le> capacity (fs_volume fs)"
  shows "\<exists>fs'. cpio_lay_out vol True fs = (Some (), fs') \<and> inv (fs_volume fs') \<and>
    cpio_read (peek (content (view (fs_volume fs'))) 0 (capacity (fs_volume fs))) = Some (map (arch_entry fs (view (fs_volume fs))) (arch_order fs ns ord))"
proof -
  let ?w = "view (fs_volume fs)"
  let ?c = "content ?w" and ?H = "\<lambda>m. cpio_bytes fs (nodes fs m) m False"
  define X where "X = tree_part fs ns @ segments ?H (file_area ?c fs) ord"
  define Y where "Y = X @ zero_part fs bs @ trailer_bytes (length X)"
  have lt: "n < node_count fs \<and> n_type (nodes fs n) = t" if "n \<in> set (nodes_by_type fs t)" for n t
    using tree_wfD(10) [OF wf, of t] that by simp
  have nd: "short_paths fs (nodes fs n) m" "cpio_fits (nodes fs n)" "sparse (file_of fs n) = []" "f_size (file_of fs n) < 2 ^ 64"
    if "n < node_count fs" "n_type (nodes fs n) \<noteq> TREE_NODE_HARD_LINK" "m < node_count fs" for n m
    using ok that by (auto simp: arch_ok_def short_paths_def cpio_fits_def)
  have ph: "fstree_file_physical_size 4 (file_of fs m) = f_size (file_of fs m)" if "m \<in> set (files fs)" for m
    using file_area_content(2) [OF nd(3,4), of m m m] lt [OF that] by simp
  have ord2: "set ord = {m \<in> set (files fs). fstree_file_physical_size 4 (file_of fs m) \<noteq> 0}" using ord(2) ph by auto
  note pk = packed_areas [OF ord(1), of ?c]
  have f: "flat fs (segments (\<lambda>_. []) (file_area ?c fs) ord)"
    using pk inv fs_wfD(2,3) [OF fw] unfolding flat_def by (simp add: bs4)
  have pl: "placed (\<lambda>m. start_index (file_of fs m)) bs (\<lambda>_. []) (file_area ?c fs) 0 ord" using pk by (simp add: bs4)
  have ne: "\<forall>x\<in>set ord. file_area ?c fs x \<noteq> []"
  proof
    fix x assume "x \<in> set ord"
    then have x: "0 < f_size (file_of fs x)" "x < node_count fs" "n_type (nodes fs x) \<noteq> TREE_NODE_HARD_LINK"
      using ord(2) lt [of x TREE_NODE_FILE] by auto
    note x file_area_content(4) [OF nd(3,4) [OF x(2,3) x(2)], of ?w]
    then show "file_area ?c fs x \<noteq> []" by auto
  qed
  have lk: "links_ok fs"
  proof -
    have "\<exists>t. link_resolved (nodes fs n) = Some t \<and> n_type (nodes fs t) = TREE_NODE_FILE \<and> short_paths fs (nodes fs t) n"
      if "n \<in> set (nodes_by_type fs TREE_NODE_HARD_LINK)" for n
    proof -
      note n = lt [OF that]
      then obtain t where "t < node_count fs" "link_resolved (nodes fs n) = Some t" "n_type (nodes fs t) = TREE_NODE_FILE" using ok unfolding arch_ok_def by blast
      then show ?thesis using nd(1) [of t n] n by auto
    qed
    then show ?thesis by (simp add: links_ok_def)
  qed
  have lf: "\<forall>n\<in>set (nodes_by_type fs TREE_NODE_HARD_LINK). cpio_fits (nodes fs (the (link_resolved (nodes fs n))))"
  proof
    fix n assume "n \<in> set (nodes_by_type fs TREE_NODE_HARD_LINK)"
    note n = lt [OF this]
    then obtain t where "t < node_count fs" "link_resolved (nodes fs n) = Some t" "n_type (nodes fs t) = TREE_NODE_FILE"
      using ok unfolding arch_ok_def by blast
    then show "cpio_fits (nodes fs (the (link_resolved (nodes fs n))))" using nd(2) [of t t] by simp
  qed
  have okn: "\<forall>n\<in>set ns \<union> set (files fs). short_paths fs (nodes fs n) n \<and> cpio_fits (nodes fs n)"
  proof
    fix n assume "n \<in> set ns \<union> set (files fs)"
    then have "n \<in> set ns \<or> n_type (nodes fs n) = TREE_NODE_FILE \<and> n < node_count fs" using lt [of n TREE_NODE_FILE] by blast
    then have n: "n < node_count fs" "n_type (nodes fs n) \<noteq> TREE_NODE_HARD_LINK" unfolding ns(2) by auto
    show "short_paths fs (nodes fs n) n \<and> cpio_fits (nodes fs n)" using nd(1,2) [OF n n(1)] by blast
  qed
  have len: "length Y \<le> capacity (fs_volume fs)"
    using archive_length [OF wf ok ns(2,3) ord2 ord(3) X_def, of "length X"] room by (simp add: Y_def bs4)
  from lay_out_ok [OF bs4 f pl _ ord(3) _ ne ns(1) lk okn lf refl X_def Y_def len] ord2 tree_wfD(9) [OF wf] obtain fs' where
    fs': "cpio_lay_out vol True fs = (Some (), fs')" "inv (fs_volume fs')" "peek (content (view (fs_volume fs'))) 0 (length Y) = Y" "4 dvd length X"
    by (auto simp: bs4)
  obtain k where k: "capacity (fs_volume fs) = length Y + k" using len by (rule le_Suc_ex [THEN exE])
  have "peek (content (view (fs_volume fs'))) 0 (capacity (fs_volume fs)) = Y @ peek (content (view (fs_volume fs'))) (length Y) k"
    using peek_append [of "content (view (fs_volume fs'))" 0 "length Y" k] fs'(3) unfolding k by simp
  then show ?thesis using fs'(1,2) read_archive [OF wf ok ns(2) ord2 X_def fs'(4)] unfolding Y_def bs4 by auto
qed

end

section \<open>Preparing the tree\<close>

text \<open>Sorting changes nothing but the order of children and lists.\<close>

definition only_children :: "'v fstree \<Rightarrow> 'v fstree \<Rightarrow> bool" where
  "only_children fs fs' \<longleftrightarrow> fs_volume fs' = fs_volume fs \<and> data_offset fs' = data_offset fs \<and> (\<forall>m. \<exists>ch. nodes fs' m = (nodes fs m)\<lparr>children := ch\<rparr>)"

lemma only_children_refl: "only_children fs fs"
proof -
  have "\<exists>ch. nodes fs m = (nodes fs m)\<lparr>children := ch\<rparr>" for m by (rule exI [of _ "children (nodes fs m)"]) simp
  then show ?thesis by (simp add: only_children_def)
qed

lemma only_children_trans: "only_children fs fs1 \<Longrightarrow> only_children fs1 fs2 \<Longrightarrow> only_children fs fs2"
proof -
  assume a: "only_children fs fs1" "only_children fs1 fs2"
  have "\<exists>ch. nodes fs2 m = (nodes fs m)\<lparr>children := ch\<rparr>" for m
  proof -
    obtain x where "nodes fs1 m = (nodes fs m)\<lparr>children := x\<rparr>" using a(1) unfolding only_children_def by blast
    moreover obtain y where "nodes fs2 m = (nodes fs1 m)\<lparr>children := y\<rparr>" using a(2) unfolding only_children_def by blast
    ultimately show ?thesis by (intro exI [of _ y]) simp
  qed
  then show ?thesis using a by (simp add: only_children_def)
qed

lemma sort_recursive_only: "only_children fs (fstree_sort_node_recursive k fs n)"
proof (induction k arbitrary: fs n)
  case (Suc k)
  have fold: "only_children fs (fold (\<lambda>c fs. fstree_sort_node_recursive k fs c) list fs)" for list and fs :: "'a fstree"
    by (induction list arbitrary: fs) (auto simp: only_children_refl intro: only_children_trans Suc.IH)
  have "only_children fs (upd_node fs n (\<lambda>x. x\<lparr>children := l\<rparr>))" for l
  proof -
    have "\<exists>ch. nodes (upd_node fs n (\<lambda>x. x\<lparr>children := l\<rparr>)) m = (nodes fs m)\<lparr>children := ch\<rparr>" for m
      by (cases "m = n") (auto simp: upd_node_def intro: exI [of _ l] exI [of _ "children (nodes fs m)"])
    then show ?thesis by (simp add: only_children_def upd_node_def)
  qed
  then show ?case by (auto simp: Let_def only_children_refl intro: only_children_trans [OF _ fold])
qed (simp add: only_children_refl)

lemma sort_only: "only_children fs (fstree_sort fs)"
  using sort_recursive_only [of fs "node_count fs" "root fs"] by (simp add: fstree_sort_def Let_def only_children_def)

lemma tree_wf_cong:
  assumes "root fs' = root fs" "node_count fs' = node_count fs" "nodes_by_type fs' = nodes_by_type fs"
    "\<And>m. n_type (nodes fs' m) = n_type (nodes fs m) \<and> n_parent (nodes fs' m) = n_parent (nodes fs m) \<and> n_name (nodes fs' m) = n_name (nodes fs m) \<and>
      children (nodes fs' m) = children (nodes fs m)"
  shows "tree_wf fs' = tree_wf fs"
  unfolding tree_wf_def by (simp add: assms)

lemma packed_cong:
  assumes "\<And>m. file_of fs' m = file_of fs m" "data_offset fs' = data_offset fs"
  shows "packed fs' p ms = packed fs p ms"
  by (induction ms arbitrary: p) (simp_all add: assms)

lemma fs_wf_cong:
  assumes "set (files fs') = set (files fs)" "distinct (files fs')" "\<And>m. file_of fs' m = file_of fs m" "data_offset fs' = data_offset fs" "fs_wf b w fs"
  shows "fs_wf b w fs'"
  using assms(2,5) unfolding fs_wf_def by (simp add: assms(1,3,4))

text \<open>The tree as it is laid out: \<open>fs2\<close> is what \<open>fstree_resolve_hard_links\<close> leaves, \<open>ns\<close> the inode table.\<close>

lemma prepared_tree:
  assumes wf: "tree_wf fs" and small: "node_count fs \<le> 2 ^ 32" "\<forall>m. link_count (nodes fs m) < 2 ^ 32"
    and res: "fstree_resolve_hard_links (fstree_sort fs) = (0, fs2)"
  shows "\<exists>fs3 ns. fstree_create_inode_table True fs2 = (0, fs3) \<and> tree_wf fs3 \<and> node_count fs3 = node_count fs \<and>
    fs_volume fs3 = fs_volume fs \<and> data_offset fs3 = data_offset fs \<and>
    inode_table fs3 = map Some ns \<and> distinct ns \<and> set ns = {n. n < node_count fs \<and> n_type (nodes fs n) \<noteq> TREE_NODE_HARD_LINK} \<and>
    (\<forall>i<length ns. inode_num (nodes fs3 (ns ! i)) = i) \<and>
    (\<forall>m. link_count (nodes fs2 m) < 2 ^ 32 \<and> (\<exists>ch k. nodes fs3 m =
       (nodes fs m)\<lparr>children := ch, link_resolved := link_resolved (nodes fs2 m), link_count := link_count (nodes fs2 m), inode_num := k\<rparr>))"
proof -
  let ?s = "fstree_sort fs"
  note so = sort_only [of fs, unfolded only_children_def]
  have swf: "tree_wf ?s" "node_count ?s = node_count fs" using sorted_tree [OF wf] by auto
  have lc: "\<forall>m. link_count (nodes ?s m) < 2 ^ 32"
  proof
    fix m
    obtain ch where "nodes ?s m = (nodes fs m)\<lparr>children := ch\<rparr>" using so by blast
    then show "link_count (nodes ?s m) < 2 ^ 32" using small(2) by simp
  qed
  obtain p c where fs2: "fs2 = ?s\<lparr>nodes := (\<lambda>m. (nodes ?s m)\<lparr>link_resolved := p m, link_count := c m\<rparr>)\<rparr>" "\<And>m. c m < 2 ^ 32"
  proof -
    have cond: "(\<forall>n\<in>links ?s. find_target ?s n \<noteq> None) \<and> acyclic (link_rel ?s)"
    proof (rule ccontr)
      assume n: "\<not> ((\<forall>n\<in>links ?s. find_target ?s n \<noteq> None) \<and> acyclic (link_rel ?s))"
      from resolved_tree [OF swf(1) lc, unfolded if_not_P [OF n]] res show False by simp
    qed
    from resolved_tree [OF swf(1) lc, unfolded if_P [OF cond]] obtain p c where
      "fstree_resolve_hard_links ?s = (0, ?s\<lparr>nodes := (\<lambda>m. (nodes ?s m)\<lparr>link_resolved := p m, link_count := c m\<rparr>)\<rparr>)"
      "\<forall>m. c m = u32 (link_count (nodes ?s m) + card {n \<in> links ?s. p n = Some m})" by blast
    then show ?thesis using that [of c p] res by (simp add: u32_def)
  qed
  have wf2: "tree_wf fs2" using swf(1) tree_wf_cong [of fs2 ?s] by (simp add: fs2)
  have nc: "node_count fs2 = node_count fs" using swf(2) by (simp add: fs2)
  from numbered_tree [OF wf2] small(1) nc obtain fs3 where fs3: "fstree_create_inode_table True fs2 = (0, fs3)" "distinct (inode_table fs3)"
      "set (inode_table fs3) = Some ` {n. n < node_count fs2 \<and> n_type (nodes fs2 n) \<noteq> TREE_NODE_HARD_LINK}"
      "\<forall>i n. i < length (inode_table fs3) \<and> inode_table fs3 ! i = Some n \<longrightarrow> inode_num (nodes fs3 n) = i"
      "\<forall>n. \<exists>k. nodes fs3 n = (nodes fs2 n)\<lparr>inode_num := k\<rparr>" "\<exists>t. fs3 = fs2\<lparr>nodes := nodes fs3, inode_table := t\<rparr>"
    by auto
  obtain t where t: "fs3 = fs2\<lparr>nodes := nodes fs3, inode_table := t\<rparr>" using fs3(6) by blast
  have f3: "root fs3 = root fs2" "node_count fs3 = node_count fs2" "nodes_by_type fs3 = nodes_by_type fs2" "fs_volume fs3 = fs_volume fs2" "data_offset fs3 = data_offset fs2"
    by (subst t, simp)+
  have n3: "\<exists>ch k. nodes fs3 m = (nodes fs m)\<lparr>children := ch, link_resolved := link_resolved (nodes fs2 m), link_count := link_count (nodes fs2 m), inode_num := k\<rparr>" for m
  proof -
    obtain k where "nodes fs3 m = (nodes fs2 m)\<lparr>inode_num := k\<rparr>" using fs3(5) by blast
    moreover obtain ch where "nodes ?s m = (nodes fs m)\<lparr>children := ch\<rparr>" using so by blast
    ultimately show ?thesis by (intro exI [of _ ch] exI [of _ k]) (simp add: fs2)
  qed
  have sh: "n_type (nodes fs3 m) = n_type (nodes fs2 m) \<and> n_parent (nodes fs3 m) = n_parent (nodes fs2 m) \<and> n_name (nodes fs3 m) = n_name (nodes fs2 m) \<and>
      children (nodes fs3 m) = children (nodes fs2 m)" for m
  proof -
    obtain k where "nodes fs3 m = (nodes fs2 m)\<lparr>inode_num := k\<rparr>" using fs3(5) by blast
    then show ?thesis by simp
  qed
  have ty: "n_type (nodes fs2 m) = n_type (nodes fs m)" for m
  proof -
    obtain ch where "nodes ?s m = (nodes fs m)\<lparr>children := ch\<rparr>" using so by blast
    then show ?thesis by (simp add: fs2)
  qed
  define ns where "ns = map the (inode_table fs3)"
  have "\<forall>x\<in>set (inode_table fs3). x \<noteq> None" using fs3(3) by auto
  then have tab: "inode_table fs3 = map Some ns" by (simp add: ns_def comp_def map_idI)
  show ?thesis
  proof (intro exI conjI)
    show "tree_wf fs3" using wf2 tree_wf_cong [OF f3(1-3) sh] by simp
    show "distinct ns" using fs3(2) by (simp add: tab distinct_map)
    show "set ns = {n. n < node_count fs \<and> n_type (nodes fs n) \<noteq> TREE_NODE_HARD_LINK}" using fs3(3) by (simp add: tab nc ty inj_image_eq_iff)
    show "\<forall>i<length ns. inode_num (nodes fs3 (ns ! i)) = i" using fs3(4) by (simp add: tab)
    show "\<forall>m. link_count (nodes fs2 m) < 2 ^ 32 \<and> (\<exists>ch k. nodes fs3 m =
       (nodes fs m)\<lparr>children := ch, link_resolved := link_resolved (nodes fs2 m), link_count := link_count (nodes fs2 m), inode_num := k\<rparr>)"
      using n3 fs2(2) by (simp add: fs2(1))
  qed (use fs3(1) f3 nc tab so in \<open>simp_all add: fs2(1)\<close>)
qed

section \<open>The round trip\<close>

text \<open>What a tree has to satisfy to be stored: paths, owners, times and sizes fit into the fields of a header, and no path is the name
  of the trailer.\<close>

definition cpio_ready :: "'v fstree \<Rightarrow> bool" where
  "cpio_ready fs \<longleftrightarrow> node_count fs \<le> 2 ^ 32 \<and> (\<forall>m. link_count (nodes fs m) < 2 ^ 32) \<and>
     (\<forall>n<node_count fs. length (cpio_path fs n) < 2 ^ 31 \<and> length (link_target (nodes fs n)) < 2 ^ 31 \<and> cpio_path fs n \<noteq> cpio_trailer \<and>
        permissions (nodes fs n) < 2 ^ 12 \<and> n_uid (nodes fs n) < 2 ^ 32 \<and> n_gid (nodes fs n) < 2 ^ 32 \<and> n_mtime (nodes fs n) < 2 ^ 32 \<and>
        f_size (file_of fs n) < 2 ^ 32 \<and> sparse (file_of fs n) = [])"

text \<open>The node an entry is about, given the tree \<open>fs2\<close> with resolved links, and the entry itself.\<close>

definition entry_node :: "'v fstree \<Rightarrow> 'v fstree \<Rightarrow> nat \<Rightarrow> nat" where
  "entry_node fs fs2 n = (if n_type (nodes fs n) = TREE_NODE_HARD_LINK then the (link_resolved (nodes fs2 n)) else n)"

definition archive_entry :: "'v fstree \<Rightarrow> 'v fstree \<Rightarrow> view \<Rightarrow> (nat \<Rightarrow> nat) \<Rightarrow> nat \<Rightarrow> cpio_entry" where
  "archive_entry fs fs2 w ino n =
     (let t = entry_node fs fs2 n; x = nodes fs t in
      \<lparr>ce_ino = ino t, ce_type = type_bits (n_type x), ce_permissions = permissions x, ce_uid = n_uid x, ce_gid = n_gid x,
       ce_nlink = link_count (nodes fs2 t), ce_mtime = n_mtime x, ce_device = device_parts x, ce_name = cpio_path fs n,
       ce_data = (if t \<noteq> n then [] else if n_type x = TREE_NODE_FILE then file_content 4 w (file_of fs n) else own_data x)\<rparr>)"

context volume
begin

lemma build_format_read:
  fixes fs :: "'v fstree"
  assumes bs4: "bs = 4" and inv: "inv (fs_volume fs)" and fw: "fs_wf 4 (view (fs_volume fs)) fs" and wf: "tree_wf fs" and ok: "cpio_ready fs"
    and res: "fstree_resolve_hard_links (fstree_sort fs) = (0, fs2)"
    and lk: "\<forall>n<node_count fs. n_type (nodes fs n) = TREE_NODE_HARD_LINK \<longrightarrow>
      (\<exists>t<node_count fs. link_resolved (nodes fs2 n) = Some t \<and> n_type (nodes fs t) = TREE_NODE_FILE)"
    and ord: "packed fs 0 ord" "set ord = {m. m < node_count fs \<and> n_type (nodes fs m) = TREE_NODE_FILE \<and> f_size (file_of fs m) \<noteq> 0}" "distinct ord"
    and room: "(\<Sum>n<node_count fs. arch_size fs n) + 1024 \<le> capacity (fs_volume fs)"
  shows "\<exists>fs' ns ino. cpio_build_format vol True fs = (Some (), fs') \<and> distinct ns \<and> set ns = {..<node_count fs} \<and>
    inj_on ino {n. n < node_count fs \<and> n_type (nodes fs n) \<noteq> TREE_NODE_HARD_LINK} \<and>
    cpio_read (peek (content (view (fs_volume fs'))) 0 (capacity (fs_volume fs))) = Some (map (archive_entry fs fs2 (view (fs_volume fs)) ino) ns)"
proof -
  let ?w = "view (fs_volume fs)"
  have small: "node_count fs \<le> 2 ^ 32" "\<forall>m. link_count (nodes fs m) < 2 ^ 32" using ok by (simp_all add: cpio_ready_def)
  from prepared_tree [OF wf small res] obtain fs3 ns where
    t3: "fstree_create_inode_table True fs2 = (0, fs3)" "tree_wf fs3" "node_count fs3 = node_count fs" "fs_volume fs3 = fs_volume fs" "data_offset fs3 = data_offset fs"
      "inode_table fs3 = map Some ns" "distinct ns" "set ns = {n. n < node_count fs \<and> n_type (nodes fs n) \<noteq> TREE_NODE_HARD_LINK}"
      "\<forall>i<length ns. inode_num (nodes fs3 (ns ! i)) = i" and
    nd: "\<forall>m. link_count (nodes fs2 m) < 2 ^ 32 \<and> (\<exists>ch k. nodes fs3 m =
       (nodes fs m)\<lparr>children := ch, link_resolved := link_resolved (nodes fs2 m), link_count := link_count (nodes fs2 m), inode_num := k\<rparr>)"
    by blast
  have n3: "n_type (nodes fs3 m) = n_type (nodes fs m) \<and> n_parent (nodes fs3 m) = n_parent (nodes fs m) \<and> n_name (nodes fs3 m) = n_name (nodes fs m) \<and>
      permissions (nodes fs3 m) = permissions (nodes fs m) \<and> n_uid (nodes fs3 m) = n_uid (nodes fs m) \<and> n_gid (nodes fs3 m) = n_gid (nodes fs m) \<and>
      n_mtime (nodes fs3 m) = n_mtime (nodes fs m) \<and> file_of fs3 m = file_of fs m \<and> link_target (nodes fs3 m) = link_target (nodes fs m) \<and>
      device_number (nodes fs3 m) = device_number (nodes fs m) \<and> link_resolved (nodes fs3 m) = link_resolved (nodes fs2 m) \<and>
      link_count (nodes fs3 m) = link_count (nodes fs2 m)" for m
  proof -
    obtain ch k where "nodes fs3 m = (nodes fs m)\<lparr>children := ch, link_resolved := link_resolved (nodes fs2 m), link_count := link_count (nodes fs2 m), inode_num := k\<rparr>"
      using nd by blast
    then show ?thesis by simp
  qed
  have path: "cpio_path fs3 m = cpio_path fs m" for m by (rule path_cong) (simp add: n3)
  have fl: "set (files fs3) = set (files fs)" "distinct (files fs3)" using tree_wfD(9,10) [OF t3(2)] tree_wfD(10) [OF wf] by (simp_all add: n3 t3(3))
  have fw3: "fs_wf 4 (view (fs_volume fs3)) fs3" using fs_wf_cong [OF fl _ t3(5) fw] n3 t3(4) by simp
  have idx: "inode_num (nodes fs3 n) < length ns" "ns ! inode_num (nodes fs3 n) = n" if "n \<in> set ns" for n
    using that t3(9) by (auto simp: in_set_conv_nth)
  have "length ns \<le> node_count fs"
  proof -
    have "card (set ns) \<le> card {..<node_count fs}" by (rule card_mono) (auto simp: t3(8))
    then show ?thesis using distinct_card [OF t3(7)] by simp
  qed
  then have inum: "inode_num (nodes fs3 n) < 2 ^ 32" if "n \<in> set ns" for n using idx(1) [OF that] small(1) by linarith
  have ok3: "arch_ok fs3"
    unfolding arch_ok_def
  proof (intro conjI allI impI, goal_cases)
    case (4 n)
    then have "n \<in> set ns" unfolding t3(8) by (simp add: n3 t3(3))
    then show ?case using 4 ok nd inum [of n] unfolding cpio_fits_def cpio_ready_def by (simp add: n3 t3(3))
  next
    case (6 n)
    then show ?case using lk by (simp add: n3 t3(3))
  qed (use ok in \<open>simp_all add: cpio_ready_def path n3 t3(3)\<close>)
  have ns3: "set ns = {n. n < node_count fs3 \<and> n_type (nodes fs3 n) \<noteq> TREE_NODE_HARD_LINK}" using t3(8) by (simp add: n3 t3(3))
  have "packed fs3 0 ord" using ord(1) packed_cong [of fs3 fs] n3 t3(5) by simp
  moreover have "set ord = {m \<in> set (files fs3). f_size (file_of fs3 m) \<noteq> 0}" using ord(2) tree_wfD(10) [OF t3(2)] by (auto simp: n3 t3(3))
  moreover have "(\<Sum>n<node_count fs3. arch_size fs3 n) + 1024 \<le> capacity (fs_volume fs3)" using room by (simp add: arch_size_def path n3 t3(3,4))
  ultimately obtain fs' where fs': "cpio_lay_out vol True fs3 = (Some (), fs')"
      "cpio_read (peek (content (view (fs_volume fs'))) 0 (capacity (fs_volume fs))) = Some (map (arch_entry fs3 ?w) (arch_order fs3 ns ord))"
    using lay_out_read [OF bs4 _ fw3 t3(2) ok3 t3(6) ns3 t3(7) _ _ ord(3)] inv unfolding t3(4) by blast
  have ph: "set ord = {m \<in> set (files fs3). fstree_file_physical_size 4 (file_of fs3 m) \<noteq> 0}"
  proof -
    have "fstree_file_physical_size 4 (file_of fs m) = f_size (file_of fs m)" if "m < node_count fs" for m
      using that ok by (intro file_area_content(2)) (auto simp: cpio_ready_def)
    then show ?thesis using ord(2) tree_wfD(10) [OF t3(2)] by (auto simp: n3 t3(3))
  qed
  note order = arch_order_nodes [OF t3(2) ns3 t3(7) ph ord(3)]
  let ?ino = "\<lambda>n. inode_num (nodes fs3 n)"
  have ent: "arch_entry fs3 ?w n = archive_entry fs fs2 ?w ?ino n" if n: "n < node_count fs" for n
  proof (cases "n_type (nodes fs n) = TREE_NODE_HARD_LINK")
    case True
    then obtain t where t: "link_resolved (nodes fs2 n) = Some t" "n_type (nodes fs t) = TREE_NODE_FILE" using lk n by blast
    then have "t \<noteq> n" using True by auto
    then show ?thesis using True t
      by (simp add: arch_entry_def archive_entry_def entry_node_def node_entry_def device_parts_def n3 path Let_def)
  next
    case False
    then show ?thesis by (simp add: arch_entry_def archive_entry_def entry_node_def node_entry_def device_parts_def own_data_def n3 path Let_def)
  qed
  have "inj_on ?ino {n. n < node_count fs \<and> n_type (nodes fs n) \<noteq> TREE_NODE_HARD_LINK}"
    unfolding t3(8) [symmetric] by (rule inj_onI) (metis idx(2))
  moreover have "cpio_build_format vol True fs = (Some (), fs')" using res t3(1) fs'(1) by (simp add: cpio_build_format_def)
  moreover have "map (arch_entry fs3 ?w) (arch_order fs3 ns ord) = map (archive_entry fs fs2 ?w ?ino) (arch_order fs3 ns ord)"
    using order(2) ent t3(3) by (intro map_cong) auto
  ultimately show ?thesis using fs'(2) order t3(3) by (intro exI [of _ fs'] exI [of _ "arch_order fs3 ns ord"] exI [of _ ?ino]) auto
qed

end

text \<open>C3: an archive holds the tree it was built from. If the numbers and paths of the nodes fit into a header, hard links lead to files and the data of
  the files lies packed on a volume with enough room, \<open>cpio_build_format\<close> succeeds, and a reader finds exactly one entry for every
  node before the trailer: with its path, type, permissions, owner, time, device number and link target, with the contents that a file
  had, and with the inode number and the attributes of the file it refers to for a hard link.\<close>

theorem cpio_archive_roundtrip:
  fixes fs :: "file_volume fstree"
  assumes "fv_inv env 4 (fs_volume fs)" "fs_wf 4 (fv_view 4 (fs_volume fs)) fs" "tree_wf fs" "cpio_ready fs"
    "fstree_resolve_hard_links (fstree_sort fs) = (0, fs2)"
    "\<forall>n<node_count fs. n_type (nodes fs n) = TREE_NODE_HARD_LINK \<longrightarrow>
      (\<exists>t<node_count fs. link_resolved (nodes fs2 n) = Some t \<and> n_type (nodes fs t) = TREE_NODE_FILE)"
    "packed fs 0 ord" "set ord = {m. m < node_count fs \<and> n_type (nodes fs m) = TREE_NODE_FILE \<and> f_size (file_of fs m) \<noteq> 0}" "distinct ord"
    "(\<Sum>n<node_count fs. arch_size fs n) + 1024 \<le> max_block_count (fs_volume fs) * 4"
  shows "\<exists>fs' ns ino. cpio_build_format (file_volume_ops env 4) True fs = (Some (), fs') \<and> distinct ns \<and> set ns = {..<node_count fs} \<and>
    inj_on ino {n. n < node_count fs \<and> n_type (nodes fs n) \<noteq> TREE_NODE_HARD_LINK} \<and>
    cpio_read (peek (fbyte (fd (fs_volume fs'))) 0 (max_block_count (fs_volume fs) * 4)) =
      Some (map (archive_entry fs fs2 (fv_view 4 (fs_volume fs)) ino) ns)"
proof -
  have bs: "blocksize (file_volume_ops env 4) = 4" by (simp add: file_volume_ops_def)
  show ?thesis using fv.build_format_read [of env 4 fs, unfolded bs fv_view_simps, OF refl assms] .
qed

text \<open>A directory with one file of three bytes.\<close>

definition cpio_volume :: file_volume where
  "cpio_volume = \<lparr>fd = \<lparr>fbytes = [97, 98, 99, 0], sched = []\<rparr>, bitmap = \<lparr>words = [1, 0]\<rparr>, bytes_used = 4, min_block_count = 0, max_block_count = 400\<rparr>"

definition cpio_file :: tree_node where
  "cpio_file = calloc_node\<lparr>n_parent := Some 0, n_name := ''a'', n_type := TREE_NODE_FILE, permissions := 420, n_mtime := 1700000000,
     n_file := \<lparr>f_size = 3, start_index = 0, sparse = []\<rparr>\<rparr>"

definition cpio_demo :: "file_volume fstree" where
  "cpio_demo = (fstree_create cpio_volume)\<lparr>nodes := (\<lambda>m. if m = 0 then calloc_node\<lparr>children := [1]\<rparr> else if m = 1 then cpio_file else calloc_node),
     node_count := 2, nodes_by_type := (\<lambda>t. if t = TREE_NODE_FILE then [1] else if t = TREE_NODE_DIR then [0] else []), data_offset := 1\<rparr>"

lemma first_block_bitmap: "bitmap_is_set \<lparr>words = [1, 0]\<rparr> i \<longleftrightarrow> i = 0"
proof -
  have "i = i div 64 * 64 + i mod 64" by simp
  then show ?thesis by (cases "i div 64" rule: nat.exhaust) (auto simp: bitmap_is_set_iff bit_1_iff less_Suc_eq)
qed

lemma cpio_volume_inv: "fv_inv demo_env 4 cpio_volume"
proof -
  have "fbyte \<lparr>fbytes = [97, 98, 99, 0], sched = []\<rparr> p = 0" if "3 \<le> p" for p
    using that by (auto simp: fbyte_def less_Suc_eq numeral_eq_Suc)
  then show ?thesis by (simp add: fv_inv_def demo_env_def cpio_volume_def benign_def bitmap_wf_def first_block_bitmap)
qed

lemma cpio_demo_simps [simp]:
  "nodes cpio_demo 0 = calloc_node\<lparr>children := [1]\<rparr>" "nodes cpio_demo (Suc 0) = cpio_file" "node_count cpio_demo = 2" "data_offset cpio_demo = 1"
  "files cpio_demo = [1]" "fs_volume cpio_demo = cpio_volume" "root cpio_demo = 0"
  by (simp_all add: cpio_demo_def fstree_create_def)

lemma cpio_demo_paths: "cpio_path cpio_demo 0 = []" "cpio_path cpio_demo (Suc 0) = ascii ''a''"
proof -
  note canon = fstree_canonicalize_path_def normalize_slashes_def drop_dots.simps squeeze.simps slash_def dot_def
  have "fstree_canonicalize_path [slash] = []" by (simp add: canon)
  then show "cpio_path cpio_demo 0 = []" by (simp add: cpio_path_def calloc_node_def ascii_def)
  have "path_print cpio_demo 0 = []" by (subst path_print.simps) (simp add: calloc_node_def)
  then have "path_print cpio_demo (Suc 0) = ''/a''" by (subst path_print.simps) (simp add: cpio_file_def slash_def)
  then show "cpio_path cpio_demo (Suc 0) = ascii ''a''" by (simp add: cpio_path_def cpio_file_def canon)
qed

lemma cpio_demo_wf: "tree_wf cpio_demo"
  by (auto simp: tree_wf_def less_2_cases_iff cpio_demo_def fstree_create_def calloc_node_def cpio_file_def slash_def)

lemma cpio_demo_fs_wf: "fs_wf 4 (fv_view 4 cpio_volume) cpio_demo"
proof -
  have "div_up 3 4 = 1" by (simp add: div_up_def)
  then show ?thesis
    by (auto simp: fs_wf_def cpio_file_def file_wf_def file_blocks_def stored_before_def file_addr_def cpio_volume_def first_block_bitmap)
qed

lemma cpio_demo_ready: "cpio_ready cpio_demo"
proof -
  have "link_count (nodes cpio_demo m) < 2 ^ 32" for m by (simp add: cpio_demo_def cpio_file_def calloc_node_def)
  moreover have "\<forall>n<2. length (cpio_path cpio_demo n) < 2 ^ 31 \<and> cpio_path cpio_demo n \<noteq> cpio_trailer"
    by (auto simp: less_2_cases_iff cpio_demo_paths cpio_trailer_def ascii_def)
  ultimately show ?thesis unfolding cpio_ready_def by (auto simp: less_2_cases_iff cpio_file_def calloc_node_def)
qed

lemma cpio_demo_links: "\<exists>fs2. fstree_resolve_hard_links (fstree_sort cpio_demo) = (0, fs2)"
proof -
  let ?s = "fstree_sort cpio_demo"
  have s: "tree_wf ?s" "node_count ?s = 2" "\<forall>n<2. n_type (nodes ?s n) = n_type (nodes cpio_demo n)" using sorted_tree [OF cpio_demo_wf] by auto
  have lc: "\<forall>m. link_count (nodes ?s m) < 2 ^ 32"
  proof
    fix m
    obtain ch where "nodes ?s m = (nodes cpio_demo m)\<lparr>children := ch\<rparr>" using sort_only [of cpio_demo] unfolding only_children_def by blast
    then show "link_count (nodes ?s m) < 2 ^ 32" using cpio_demo_ready by (simp add: cpio_ready_def)
  qed
  have "n_type (nodes cpio_demo 0) \<noteq> TREE_NODE_HARD_LINK" "n_type (nodes cpio_demo 1) \<noteq> TREE_NODE_HARD_LINK" by (simp_all add: cpio_file_def calloc_node_def)
  then have no: "n_type (nodes ?s n) \<noteq> TREE_NODE_HARD_LINK" if "n < 2" for n using less_2_cases [OF that] s(3) that by auto
  have "links ?s = {}" unfolding s(2) using no by blast
  moreover have "link_rel ?s = {}" unfolding link_rel_def s(2) using no by blast
  moreover have "acyclic ({} :: (nat \<times> nat) set)" by (simp add: acyclic_def)
  ultimately have "(\<forall>n\<in>links ?s. find_target ?s n \<noteq> None) \<and> acyclic (link_rel ?s)" by (metis empty_iff)
  from resolved_tree [OF s(1) lc, unfolded if_P [OF this]] show ?thesis by blast
qed

theorem cpio_archive_roundtrip_witness:
  "\<exists>fs2 fs' ns ino. fstree_resolve_hard_links (fstree_sort cpio_demo) = (0, fs2) \<and>
    cpio_build_format (file_volume_ops demo_env 4) True cpio_demo = (Some (), fs') \<and> distinct ns \<and> set ns = {..<2} \<and> ino 0 \<noteq> ino (1 :: nat) \<and>
    cpio_read (peek (fbyte (fd (fs_volume fs'))) 0 1600) = Some (map (archive_entry cpio_demo fs2 (fv_view 4 cpio_volume) ino) ns)"
proof -
  obtain fs2 where res: "fstree_resolve_hard_links (fstree_sort cpio_demo) = (0, fs2)" using cpio_demo_links by blast
  have cap: "max_block_count (fs_volume cpio_demo) * 4 = 1600" by (simp add: cpio_volume_def)
  have "{..<2} = {0, Suc 0}" by auto
  then have sz: "(\<Sum>n<2. arch_size cpio_demo n) + 1024 \<le> 1600"
    by (simp add: arch_size_def cpio_demo_paths ascii_def calloc_node_def cpio_file_def)
  have pk: "packed cpio_demo 0 [1]" by (simp add: cpio_file_def div_up_def)
  have ty: "n_type (nodes cpio_demo 0) = TREE_NODE_DIR" "n_type (nodes cpio_demo 1) = TREE_NODE_FILE" "f_size (file_of cpio_demo 1) = 3"
    by (simp_all add: calloc_node_def cpio_file_def)
  have ord: "set [1] = {m. m < 2 \<and> n_type (nodes cpio_demo m) = TREE_NODE_FILE \<and> f_size (file_of cpio_demo m) \<noteq> 0}"
    using ty by (auto simp: less_2_cases_iff)
  have lk: "\<forall>n<2. n_type (nodes cpio_demo n) = TREE_NODE_HARD_LINK \<longrightarrow>
      (\<exists>t<2. link_resolved (nodes fs2 n) = Some t \<and> n_type (nodes cpio_demo t) = TREE_NODE_FILE)"
    using ty by (auto simp: less_2_cases_iff)
  have nl: "0 \<in> {n. n < 2 \<and> n_type (nodes cpio_demo n) \<noteq> TREE_NODE_HARD_LINK}" "1 \<in> {n. n < 2 \<and> n_type (nodes cpio_demo n) \<noteq> TREE_NODE_HARD_LINK}"
    using ty by auto
  have d: "distinct [1 :: nat]" by simp
  from cpio_archive_roundtrip [of demo_env cpio_demo fs2 "[1]", unfolded cpio_demo_simps cap [unfolded cpio_demo_simps],
      OF cpio_volume_inv cpio_demo_fs_wf cpio_demo_wf cpio_demo_ready res lk pk ord d sz]
  obtain fs' ns ino where w: "cpio_build_format (file_volume_ops demo_env 4) True cpio_demo = (Some (), fs')" "distinct ns" "set ns = {..<2}"
      "inj_on ino {n. n < 2 \<and> n_type (nodes cpio_demo n) \<noteq> TREE_NODE_HARD_LINK}"
      "cpio_read (peek (fbyte (fd (fs_volume fs'))) 0 1600) = Some (map (archive_entry cpio_demo fs2 (fv_view 4 cpio_volume) ino) ns)"
    by blast
  have "ino 0 \<noteq> ino 1" using inj_onD [OF w(4) _ nl] by auto
  then show ?thesis using res w(1-3,5) by blast
qed

end
