(* ===== verification/DepTracker.thy ===== *)
theory DepTracker
  imports Prelude
begin

text \<open>
  \<open>lib/imgtool/fsdeptracker.c\<close>: the graph of volumes, partitions, partition tables and file systems that are built on each other,
  and the order in which they are finished. The operations of the objects are a parameter.
\<close>

section \<open>Definitions\<close>

datatype FS_DEP_NODE_TYPE = FS_DEPENDENCY_VOLUME | FS_DEPENDENCY_FILESYSTEM | FS_DEPENDENCY_PARTITION | FS_DEPENDENCY_PART_MGR

text \<open>A node is identified by its type and its object, which the code compares as pointers.\<close>

type_synonym 'k dep_key = "FS_DEP_NODE_TYPE \<times> 'k"

record 'k dep_node =
  dep_key :: "'k dep_key"
  dep_count :: nat
  dep_name :: string

record 'k dep_tracker =
  dep_edges :: "('k dep_key \<times> 'k dep_key) list"
  dep_nodes :: "'k dep_node list"

definition fs_dep_tracker_create :: "'k dep_tracker" where
  "fs_dep_tracker_create = \<lparr>dep_edges = [], dep_nodes = []\<rparr>"

text \<open>The node of an object, which is added if there is none. \<open>mem\<close> tells whether an allocation succeeds.\<close>

definition get_by_ptr :: "bool \<Rightarrow> 'k dep_tracker \<Rightarrow> 'k \<Rightarrow> FS_DEP_NODE_TYPE \<Rightarrow> string \<Rightarrow> ('k dep_key, 'k dep_tracker) io" where
  "get_by_ptr mem dep obj ty nm =
     (if list_ex (\<lambda>n. dep_key n = (ty, obj)) (dep_nodes dep) then (Some (ty, obj), dep)
      else if \<not> mem then (None, dep)
      else (Some (ty, obj), dep\<lparr>dep_nodes := \<lparr>dep_key = (ty, obj), dep_count = 0, dep_name = nm\<rparr> # dep_nodes dep\<rparr>))"

definition find_edge :: "bool \<Rightarrow> 'k dep_tracker \<Rightarrow> 'k dep_key \<Rightarrow> 'k dep_key \<Rightarrow> (unit, 'k dep_tracker) io" where
  "find_edge mem dep node depends_on =
     (if list_ex (\<lambda>e. e = (node, depends_on)) (dep_edges dep) then (Some (), dep)
      else if \<not> mem then (None, dep)
      else (Some (), dep\<lparr>dep_edges := (node, depends_on) # dep_edges dep\<rparr>))"

definition add_dependency ::
  "bool \<times> bool \<times> bool \<Rightarrow> 'k dep_tracker \<Rightarrow> 'k \<Rightarrow> FS_DEP_NODE_TYPE \<Rightarrow> string \<Rightarrow> 'k option \<Rightarrow> FS_DEP_NODE_TYPE \<Rightarrow> string \<Rightarrow>
     (unit, 'k dep_tracker) io" where
  "add_dependency mem dep child child_type child_name parent parent_type parent_name =
     (case mem of (mem1, mem2, mem3) \<Rightarrow>
      case get_by_ptr mem1 dep child child_type child_name of
        (None, dep) \<Rightarrow> (None, dep)
      | (Some cit, dep) \<Rightarrow>
          (case parent of
             None \<Rightarrow> (Some (), dep)
           | Some p \<Rightarrow>
               (case get_by_ptr mem2 dep p parent_type parent_name of
                  (None, dep) \<Rightarrow> (None, dep)
                | (Some pit, dep) \<Rightarrow> find_edge mem3 dep cit pit)))"

definition dep_tracker_add_volume where
  "dep_tracker_add_volume mem dep volume parent =
     add_dependency mem dep volume FS_DEPENDENCY_VOLUME [] parent FS_DEPENDENCY_VOLUME []"

definition add_partition where
  "add_partition mem dep volume parent =
     add_dependency mem dep volume FS_DEPENDENCY_PARTITION [] parent FS_DEPENDENCY_PART_MGR []"

definition add_partition_mgr where
  "add_partition_mgr mem dep mgr parent =
     add_dependency mem dep mgr FS_DEPENDENCY_PART_MGR [] parent FS_DEPENDENCY_VOLUME []"

definition dep_tracker_add_volume_file where
  "dep_tracker_add_volume_file mem dep volume parent =
     add_dependency mem dep volume FS_DEPENDENCY_VOLUME [] parent FS_DEPENDENCY_FILESYSTEM []"

definition dep_tracker_add_fs where
  "dep_tracker_add_fs mem dep fs parent nm =
     add_dependency mem dep fs FS_DEPENDENCY_FILESYSTEM nm parent FS_DEPENDENCY_VOLUME []"

definition dep_tracker_get_fs_by_name :: "'k dep_tracker \<Rightarrow> string \<Rightarrow> 'k option" where
  "dep_tracker_get_fs_by_name dep nm =
     map_option (\<lambda>n. snd (dep_key n)) (find (\<lambda>n. fst (dep_key n) = FS_DEPENDENCY_FILESYSTEM \<and> dep_name n = nm) (dep_nodes dep))"

text \<open>The operations of the objects, on a state of their own.\<close>

record ('k, 's) dep_ops =
  op_commit :: "'k \<Rightarrow> 's \<Rightarrow> (unit, 's) io"
  op_build_format :: "'k \<Rightarrow> 's \<Rightarrow> (unit, 's) io"
  op_commit_fs_volume :: "'k \<Rightarrow> 's \<Rightarrow> (unit, 's) io"
  op_commit_mgr :: "'k \<Rightarrow> 's \<Rightarrow> (unit, 's) io"

definition resolve_node :: "('k, 's) dep_ops \<Rightarrow> 'k dep_key \<Rightarrow> 's \<Rightarrow> (unit, 's) io" where
  "resolve_node ops = (\<lambda>(ty, obj) s.
     case ty of
       FS_DEPENDENCY_VOLUME \<Rightarrow> op_commit ops obj s
     | FS_DEPENDENCY_PARTITION \<Rightarrow> op_commit ops obj s
     | FS_DEPENDENCY_FILESYSTEM \<Rightarrow>
         (case op_build_format ops obj s of
            (None, s) \<Rightarrow> (None, s)
          | (Some _, s) \<Rightarrow> op_commit_fs_volume ops obj s)
     | FS_DEPENDENCY_PART_MGR \<Rightarrow> op_commit_mgr ops obj s)"

definition change_count :: "'k dep_key \<Rightarrow> (nat \<Rightarrow> nat) \<Rightarrow> 'k dep_node list \<Rightarrow> 'k dep_node list" where
  "change_count k f = map (\<lambda>n. if dep_key n = k then n\<lparr>dep_count := f (dep_count n)\<rparr> else n)"

definition count_dependencies :: "'k dep_tracker \<Rightarrow> 'k dep_tracker" where
  "count_dependencies dep =
     dep\<lparr>dep_nodes := fold (\<lambda>(node, depends_on). change_count depends_on (\<lambda>c. c + 1)) (dep_edges dep)
       (map (\<lambda>n. n\<lparr>dep_count := 0\<rparr>) (dep_nodes dep))\<rparr>"

text \<open>The loop that removes the outgoing edges of a node.\<close>

fun remove_edges :: "'k dep_key \<Rightarrow> ('k dep_key \<times> 'k dep_key) list \<Rightarrow> 'k dep_node list \<Rightarrow> ('k dep_key \<times> 'k dep_key) list \<times> 'k dep_node list" where
  "remove_edges k [] ns = ([], ns)"
| "remove_edges k ((node, depends_on) # es) ns =
     (if node = k then remove_edges k es (change_count depends_on (\<lambda>c. c - 1) ns)
      else (case remove_edges k es ns of (es, ns) \<Rightarrow> ((node, depends_on) # es, ns)))"

definition remove_node :: "'k dep_key \<Rightarrow> 'k dep_tracker \<Rightarrow> 'k dep_tracker" where
  "remove_node k dep =
     (case remove_edges k (dep_edges dep) (dep_nodes dep) of (es, ns) \<Rightarrow>
        dep\<lparr>dep_edges := es, dep_nodes := filter (\<lambda>n. dep_key n \<noteq> k) ns\<rparr>)"

lemma remove_edges_keys: "remove_edges k es ns = (es', ns') \<Longrightarrow> map dep_key ns' = map dep_key ns"
proof (induction k es ns arbitrary: es' ns' rule: remove_edges.induct)
  case (2 k node depends_on es ns)
  have "map dep_key (change_count depends_on f ns) = map dep_key ns" for f by (simp add: change_count_def)
  with 2 show ?case by (auto split: if_splits prod.splits)
qed simp

lemma remove_node_keys: "map dep_key (dep_nodes (remove_node k dep)) = filter (\<lambda>x. x \<noteq> k) (map dep_key (dep_nodes dep))"
proof -
  obtain es ns where r: "remove_edges k (dep_edges dep) (dep_nodes dep) = (es, ns)" by fastforce
  have "map dep_key (filter (\<lambda>n. dep_key n \<noteq> k) ns) = filter (\<lambda>x. x \<noteq> k) (map dep_key ns)" by (simp add: filter_map comp_def)
  then show ?thesis by (simp add: remove_node_def r remove_edges_keys [OF r])
qed

function commit_loop :: "('k, 's) dep_ops \<Rightarrow> 'k dep_tracker \<Rightarrow> 's \<Rightarrow> unit option \<times> 'k dep_tracker \<times> 's" where
  "commit_loop ops dep s =
     (if dep_nodes dep = [] then (Some (), dep, s)
      else case find (\<lambda>n. dep_count n = 0) (dep_nodes dep) of
          None \<Rightarrow> (None, dep, s)
        | Some n \<Rightarrow>
            (case resolve_node ops (dep_key n) s of
               (None, s) \<Rightarrow> (None, dep, s)
             | (Some _, s) \<Rightarrow> commit_loop ops (remove_node (dep_key n) dep) s))"
  by pat_completeness auto
termination
proof (relation "measure (\<lambda>(ops, dep, s). length (dep_nodes dep))", goal_cases)
  case (2 ops dep s n)
  then have "dep_key n \<in> set (map dep_key (dep_nodes dep))" by (auto simp: find_Some_iff)
  then have "length (filter (\<lambda>x. x \<noteq> dep_key n) (map dep_key (dep_nodes dep))) < length (map dep_key (dep_nodes dep))"
    by (rule length_filter_less) simp
  then show ?case using remove_node_keys [of "dep_key n" dep] by (metis in_measure length_map case_prod_conv)
qed simp

declare commit_loop.simps [simp del]

definition dep_tracker_commit :: "('k, 's) dep_ops \<Rightarrow> 'k dep_tracker \<Rightarrow> 's \<Rightarrow> unit option \<times> 'k dep_tracker \<times> 's" where
  "dep_tracker_commit ops dep s = commit_loop ops (count_dependencies dep) s"

section \<open>The invariant of the graph\<close>

abbreviation dep_keys :: "'k dep_tracker \<Rightarrow> 'k dep_key list" where
  "dep_keys dep \<equiv> map dep_key (dep_nodes dep)"

text \<open>No object has two nodes and no dependency two edges, and edges connect nodes of the graph.\<close>

definition graph_inv :: "'k dep_tracker \<Rightarrow> bool" where
  "graph_inv dep \<longleftrightarrow> distinct (dep_keys dep) \<and> distinct (dep_edges dep) \<and> set (dep_edges dep) \<subseteq> set (dep_keys dep) \<times> set (dep_keys dep)"

text \<open>The states that a tracker can be in before it is committed.\<close>

inductive tracked :: "'k dep_tracker \<Rightarrow> bool" where
  tracked_create: "tracked fs_dep_tracker_create"
| tracked_add: "tracked dep \<Longrightarrow> add_dependency mem dep child cty cn parent pty pn = (r, dep') \<Longrightarrow> tracked dep'"

lemma get_by_ptr_inv:
  assumes "graph_inv dep" "get_by_ptr mem dep obj ty nm = (r, dep')"
  shows "graph_inv dep'" "set (dep_keys dep) \<subseteq> set (dep_keys dep')" "r = Some k \<Longrightarrow> k = (ty, obj) \<and> k \<in> set (dep_keys dep')"
proof -
  have l: "list_ex (\<lambda>n. dep_key n = (ty, obj)) (dep_nodes dep) \<longleftrightarrow> (ty, obj) \<in> set (dep_keys dep)" by (force simp: list_ex_iff)
  show "graph_inv dep'" "set (dep_keys dep) \<subseteq> set (dep_keys dep')" "r = Some k \<Longrightarrow> k = (ty, obj) \<and> k \<in> set (dep_keys dep')"
    using assms unfolding get_by_ptr_def l graph_inv_def by (auto split: if_splits)
qed

lemma find_edge_inv:
  assumes "graph_inv dep" "find_edge mem dep a b = (r, dep')" "a \<in> set (dep_keys dep)" "b \<in> set (dep_keys dep)"
  shows "graph_inv dep'"
  using assms by (auto simp: find_edge_def graph_inv_def list_ex_iff split: if_splits)

lemma add_dependency_inv:
  assumes "graph_inv dep" "add_dependency mem dep child cty cn parent pty pn = (r, dep')"
  shows "graph_inv dep'"
proof -
  obtain m1 m2 m3 where m: "mem = (m1, m2, m3)" by (rule prod_cases3)
  obtain c d1 where 1: "get_by_ptr m1 dep child cty cn = (c, d1)" by fastforce
  note i1 = get_by_ptr_inv [OF assms(1) 1]
  show ?thesis
  proof (cases c)
    case None
    then show ?thesis using assms(2) i1(1) by (simp add: add_dependency_def m 1)
  next
    case (Some cit)
    show ?thesis
    proof (cases parent)
      case None
      then show ?thesis using assms(2) i1(1) Some by (simp add: add_dependency_def m 1)
    next
      case (Some p)
      obtain q d2 where 2: "get_by_ptr m2 d1 p pty pn = (q, d2)" by fastforce
      note i2 = get_by_ptr_inv [OF i1(1) 2]
      show ?thesis
      proof (cases q)
        case None
        then show ?thesis using assms(2) i2(1) Some \<open>c = Some cit\<close> by (simp add: add_dependency_def m 1 2)
      next
        case (Some pit)
        then have "find_edge m3 d2 cit pit = (r, dep')"
          using assms(2) \<open>parent = Some p\<close> \<open>c = Some cit\<close> by (simp add: add_dependency_def m 1 2)
        then show ?thesis using find_edge_inv [OF i2(1)] i1(3) i2(2,3) \<open>c = Some cit\<close> Some by blast
      qed
    qed
  qed
qed

lemma tracked_inv: "tracked dep \<Longrightarrow> graph_inv dep"
proof (induction rule: tracked.induct)
  case tracked_create
  then show ?case by (simp add: graph_inv_def fs_dep_tracker_create_def)
qed (rule add_dependency_inv)

section \<open>Counting dependencies\<close>

definition in_degree :: "('k dep_key \<times> 'k dep_key) list \<Rightarrow> 'k dep_key \<Rightarrow> nat" where
  "in_degree es k = length (filter (\<lambda>e. snd e = k) es)"

lemma change_count_keys [simp]: "map dep_key (change_count k f ns) = map dep_key ns"
  by (simp add: change_count_def)

text \<open>The counts of a list of nodes as a function of the edges.\<close>

definition counts_ok :: "('k dep_key \<Rightarrow> nat) \<Rightarrow> 'k dep_node list \<Rightarrow> bool" where
  "counts_ok c ns \<longleftrightarrow> (\<forall>n \<in> set ns. dep_count n = c (dep_key n))"

lemma counts_change: "counts_ok c ns \<Longrightarrow> counts_ok (c(k := f (c k))) (change_count k f ns)"
  by (auto simp: counts_ok_def change_count_def)

lemma count_dependencies_ok:
  "dep_keys (count_dependencies dep) = dep_keys dep" "dep_edges (count_dependencies dep) = dep_edges dep"
  "counts_ok (in_degree (dep_edges dep)) (dep_nodes (count_dependencies dep))"
proof -
  have k: "map dep_key (fold (\<lambda>(node, p). change_count p Suc) es ns) = map dep_key ns" for es :: "('a dep_key \<times> 'a dep_key) list" and ns
    by (induction es arbitrary: ns) (auto split: prod.splits)
  have c: "counts_ok c ns \<Longrightarrow> counts_ok (\<lambda>k. c k + in_degree es k) (fold (\<lambda>(node, p). change_count p Suc) es ns)"
    for es :: "('a dep_key \<times> 'a dep_key) list" and ns c
  proof (induction es arbitrary: ns c)
    case Nil
    then show ?case by (simp add: in_degree_def)
  next
    case (Cons e es)
    obtain a b where e: "e = (a, b)" by (cases e)
    from Cons.IH [OF counts_change [OF Cons.prems, of b Suc]]
    have "counts_ok (\<lambda>k. (c(b := Suc (c b))) k + in_degree es k) (fold (\<lambda>(node, p). change_count p Suc) (e # es) ns)" by (simp add: e)
    moreover have "(\<lambda>k. (c(b := Suc (c b))) k + in_degree es k) = (\<lambda>k. c k + in_degree (e # es) k)" by (auto simp: in_degree_def e)
    ultimately show ?case by simp
  qed
  show "dep_keys (count_dependencies dep) = dep_keys dep" by (simp add: count_dependencies_def k comp_def)
  show "dep_edges (count_dependencies dep) = dep_edges dep" by (simp add: count_dependencies_def)
  have "counts_ok (\<lambda>k. 0) (map (\<lambda>n. n\<lparr>dep_count := 0\<rparr>) (dep_nodes dep))" by (simp add: counts_ok_def)
  from c [OF this] show "counts_ok (in_degree (dep_edges dep)) (dep_nodes (count_dependencies dep))"
    by (simp add: count_dependencies_def)
qed

lemma remove_edges_ok:
  "remove_edges k es ns = (es', ns') \<Longrightarrow> counts_ok (\<lambda>x. c x + in_degree es x) ns \<Longrightarrow>
    es' = filter (\<lambda>e. fst e \<noteq> k) es \<and> counts_ok (\<lambda>x. c x + in_degree es' x) ns'"
proof (induction k es ns arbitrary: c es' ns' rule: remove_edges.induct)
  case (2 k node p es ns)
  have d: "in_degree ((node, p) # zs) x = (if x = p then 1 else 0) + in_degree zs x" for zs x by (simp add: in_degree_def)
  show ?case
  proof (cases "node = k")
    case True
    have "(\<lambda>x. c x + in_degree ((node, p) # es) x)(p := c p + in_degree ((node, p) # es) p - 1) = (\<lambda>x. c x + in_degree es x)"
      by (auto simp: d)
    with counts_change [OF 2(4), of p "\<lambda>c. c - 1"] have "counts_ok (\<lambda>x. c x + in_degree es x) (change_count p (\<lambda>c. c - 1) ns)" by simp
    from 2(1) [OF True _ this] 2(3) True show ?thesis by auto
  next
    case False
    obtain es1 ns1 where r: "remove_edges k es ns = (es1, ns1)" by fastforce
    then have e: "es' = (node, p) # es1" "ns' = ns1" using 2(3) False by auto
    have "counts_ok (\<lambda>x. (c x + (if x = p then 1 else 0)) + in_degree es x) ns" using 2(4) by (simp add: d add.assoc)
    from 2(2) [OF False r this] show ?thesis using False by (auto simp: e d add.assoc)
  qed
qed simp

section \<open>The order of commits\<close>

text \<open>Finishing objects one after the other, up to the first that fails.\<close>

fun resolve_all :: "('k, 's) dep_ops \<Rightarrow> 'k dep_key list \<Rightarrow> 's \<Rightarrow> (unit, 's) io" where
  "resolve_all ops [] s = (Some (), s)"
| "resolve_all ops (k # ks) s = (case resolve_node ops k s of (None, s) \<Rightarrow> (None, s) | (Some _, s) \<Rightarrow> resolve_all ops ks s)"

text \<open>A sequence in which everything comes behind all that depends on it.\<close>

definition in_order :: "('k dep_key \<times> 'k dep_key) set \<Rightarrow> 'k dep_key list \<Rightarrow> bool" where
  "in_order es ks \<longleftrightarrow> (\<forall>(c, p) \<in> es. \<forall>xs ys. ks = xs @ p # ys \<longrightarrow> c \<in> set xs)"

lemma in_degree_0: "in_degree es k = 0 \<longleftrightarrow> (\<forall>c. (c, k) \<notin> set es)"
  by (force simp: in_degree_def filter_empty_conv)

lemma in_order_Cons:
  assumes "\<forall>c. (c, k) \<notin> es" "in_order {e \<in> es. fst e \<noteq> k} ks"
  shows "in_order es (k # ks)"
  unfolding in_order_def
proof clarify
  fix a b c d xs ys assume e: "((a, b), (c, d)) \<in> es" and ks: "k # ks = xs @ (c, d) # ys"
  have "(c, d) \<noteq> k" using assms(1) e by auto
  then obtain xs' where xs: "xs = k # xs'" "ks = xs' @ (c, d) # ys" using ks by (cases xs) auto
  show "(a, b) \<in> set xs"
  proof (cases "(a, b) = k")
    case False
    then show ?thesis using assms(2) e xs by (auto simp: in_order_def)
  qed (simp add: xs)
qed

lemma acyclic_source:
  assumes "\<forall>c. (c, k) \<notin> es"
  shows "acyclic es \<longleftrightarrow> acyclic {e \<in> es. fst e \<noteq> k}"
proof
  assume a: "acyclic {e \<in> es. fst e \<noteq> k}"
  have "(x, y) \<in> es\<^sup>+ \<Longrightarrow> y \<noteq> k \<and> (x \<noteq> k \<longrightarrow> (x, y) \<in> {e \<in> es. fst e \<noteq> k}\<^sup>+)" for x y
  proof (induction rule: trancl_induct)
    case (base y)
    then show ?case using assms by (auto intro: r_into_trancl)
  next
    case (step y z)
    then have "(y, z) \<in> {e \<in> es. fst e \<noteq> k}" by simp
    then show ?case using step assms by (auto intro: trancl_into_trancl)
  qed
  then show "acyclic es" using a by (auto simp: acyclic_def)
qed (auto intro: acyclic_subset)

lemma no_source_cyclic:
  assumes "graph_inv dep" "dep_nodes dep \<noteq> []" "counts_ok (in_degree (dep_edges dep)) (dep_nodes dep)"
    "find (\<lambda>n. dep_count n = 0) (dep_nodes dep) = None"
  shows "\<not> acyclic (set (dep_edges dep))"
proof
  assume "acyclic (set (dep_edges dep))"
  then have "wf (set (dep_edges dep))" by (intro finite_acyclic_wf) simp_all
  moreover have "dep_key (hd (dep_nodes dep)) \<in> set (dep_keys dep)" using assms(2) by simp
  ultimately obtain z where z: "z \<in> set (dep_keys dep)" "\<And>y. (y, z) \<in> set (dep_edges dep) \<Longrightarrow> y \<notin> set (dep_keys dep)"
    by (rule wfE_min) blast
  moreover have "set (dep_edges dep) \<subseteq> set (dep_keys dep) \<times> set (dep_keys dep)" using assms(1) by (simp add: graph_inv_def)
  ultimately have "in_degree (dep_edges dep) z = 0" unfolding in_degree_0 by blast
  moreover obtain n where "n \<in> set (dep_nodes dep)" "dep_key n = z" using z(1) by auto
  ultimately show False using assms(3,4) by (auto simp: counts_ok_def find_None_iff)
qed

lemma remove_source:
  assumes "graph_inv dep" "counts_ok (in_degree (dep_edges dep)) (dep_nodes dep)" "\<forall>c. (c, k) \<notin> set (dep_edges dep)"
  defines "dep' \<equiv> remove_node k dep"
  shows "graph_inv dep'" "counts_ok (in_degree (dep_edges dep')) (dep_nodes dep')"
    "set (dep_edges dep') = {e \<in> set (dep_edges dep). fst e \<noteq> k}" "set (dep_keys dep') = set (dep_keys dep) - {k}"
proof -
  obtain es ns where r: "remove_edges k (dep_edges dep) (dep_nodes dep) = (es, ns)" by fastforce
  have "counts_ok (\<lambda>x. 0 + in_degree (dep_edges dep) x) (dep_nodes dep)" using assms(2) by simp
  from remove_edges_ok [OF r this] have es: "es = filter (\<lambda>e. fst e \<noteq> k) (dep_edges dep)" "counts_ok (in_degree es) ns" by auto
  have d: "dep' = dep\<lparr>dep_edges := es, dep_nodes := filter (\<lambda>n. dep_key n \<noteq> k) ns\<rparr>" by (simp add: dep'_def remove_node_def r)
  show "counts_ok (in_degree (dep_edges dep')) (dep_nodes dep')" using es(2) by (auto simp: d counts_ok_def)
  show e: "set (dep_edges dep') = {e \<in> set (dep_edges dep). fst e \<noteq> k}" by (auto simp: d es(1))
  have keys: "dep_keys dep' = filter (\<lambda>x. x \<noteq> k) (dep_keys dep)" unfolding dep'_def by (rule remove_node_keys)
  then show ks: "set (dep_keys dep') = set (dep_keys dep) - {k}" by (simp only: set_filter) blast
  show "graph_inv dep'"
    unfolding graph_inv_def ks e using assms(1,3) keys by (auto simp: graph_inv_def d es(1))
qed

lemma commit_loop_order:
  "graph_inv dep \<Longrightarrow> counts_ok (in_degree (dep_edges dep)) (dep_nodes dep) \<Longrightarrow>
    \<exists>ks q dep' s'. commit_loop ops dep s = (if q = Some () \<and> acyclic (set (dep_edges dep)) then Some () else None, dep', s') \<and>
      resolve_all ops ks s = (q, s') \<and> distinct ks \<and> set ks \<subseteq> set (dep_keys dep) \<and> in_order (set (dep_edges dep)) ks \<and>
      (q = Some () \<and> acyclic (set (dep_edges dep)) \<longrightarrow> set ks = set (dep_keys dep))"
proof (induction ops dep s rule: commit_loop.induct)
  case (1 ops dep s)
  show ?case
  proof (cases "find (\<lambda>n. dep_count n = 0) (dep_nodes dep)")
    case None
    show ?thesis
    proof (cases "dep_nodes dep = []")
      case True
      then have "dep_edges dep = []" using 1(2) by (simp add: graph_inv_def)
      then show ?thesis using True
        by (intro exI [of _ "[]"] exI [of _ "Some ()"] exI [of _ dep] exI [of _ s]) (simp add: commit_loop.simps in_order_def acyclic_def)
    next
      case False
      then have "\<not> acyclic (set (dep_edges dep))" using no_source_cyclic [OF 1(2) False 1(3) None] by simp
      then show ?thesis using False None
        by (intro exI [of _ "[]"] exI [of _ "Some ()"] exI [of _ dep] exI [of _ s]) (simp add: commit_loop.simps in_order_def)
    qed
  next
    case (Some n)
    define k where "k = dep_key n"
    have n: "n \<in> set (dep_nodes dep)" "dep_count n = 0" "dep_nodes dep \<noteq> []" using Some by (auto simp: find_Some_iff)
    have "in_degree (dep_edges dep) k = 0" using n 1(3) by (simp add: k_def counts_ok_def)
    then have k: "k \<in> set (dep_keys dep)" "\<forall>c. (c, k) \<notin> set (dep_edges dep)"
      using n(1) unfolding in_degree_0 by (simp_all add: k_def)
    obtain q1 s1 where r: "resolve_node ops k s = (q1, s1)" by fastforce
    show ?thesis
    proof (cases q1)
      case None
      have "in_order (set (dep_edges dep)) [k]" using k(2) by (intro in_order_Cons) (auto simp: in_order_def)
      then show ?thesis using None r n(3) Some k(1)
        by (intro exI [of _ "[k]"] exI [of _ "None"] exI [of _ dep] exI [of _ s1]) (simp add: commit_loop.simps k_def)
    next
      case (Some u)
      note i = remove_source [OF 1(2,3) k(2)]
      have step: "commit_loop ops dep s = commit_loop ops (remove_node k dep) s1"
        using \<open>find _ _ = Some n\<close> n(3) r Some by (subst commit_loop.simps) (simp add: k_def)
      have "resolve_node ops (dep_key n) s = (Some u, s1)" using r Some by (simp add: k_def)
      from 1(1) [OF n(3) \<open>find _ _ = Some n\<close> this [symmetric] refl, folded k_def, OF i(1,2)]
      obtain ks q dep' s' where h: "commit_loop ops (remove_node k dep) s1 =
            (if q = Some () \<and> acyclic (set (dep_edges dep)) then Some () else None, dep', s')"
          "resolve_all ops ks s1 = (q, s')" "distinct ks" "set ks \<subseteq> set (dep_keys dep) - {k}"
          "in_order {e \<in> set (dep_edges dep). fst e \<noteq> k} ks"
          "q = Some () \<and> acyclic (set (dep_edges dep)) \<longrightarrow> set ks = set (dep_keys dep) - {k}"
        unfolding i(3,4) acyclic_source [OF k(2), symmetric] by blast
      have "resolve_all ops (k # ks) s = (q, s')" using r Some h(2) by simp
      moreover have "distinct (k # ks)" "set (k # ks) \<subseteq> set (dep_keys dep)" using h(3,4) k(1) by auto
      moreover have "in_order (set (dep_edges dep)) (k # ks)" by (rule in_order_Cons [OF k(2) h(5)])
      moreover have "q = Some () \<and> acyclic (set (dep_edges dep)) \<longrightarrow> set (k # ks) = set (dep_keys dep)" using h(6) k(1) by auto
      ultimately show ?thesis unfolding step h(1) by blast
    qed
  qed
qed

text \<open>C32: committing a tracker finishes its objects one after the other, each of them at most once and behind everything that
  depends on it. If no object fails and the dependencies have no cycle, all of them are finished and the commit succeeds; with a
  cycle it fails. What the objects do is arbitrary.\<close>

theorem commit_in_order:
  assumes "tracked dep"
  shows "\<exists>ks q dep' s'. dep_tracker_commit ops dep s = (if q = Some () \<and> acyclic (set (dep_edges dep)) then Some () else None, dep', s') \<and>
    resolve_all ops ks s = (q, s') \<and> distinct ks \<and> set ks \<subseteq> set (dep_keys dep) \<and> in_order (set (dep_edges dep)) ks \<and>
    (q = Some () \<and> acyclic (set (dep_edges dep)) \<longrightarrow> set ks = set (dep_keys dep))"
proof -
  note c = count_dependencies_ok [of dep]
  have "graph_inv (count_dependencies dep)" using tracked_inv [OF assms] by (simp add: graph_inv_def c)
  from commit_loop_order [OF this, unfolded c, OF c(3)] show ?thesis by (simp only: dep_tracker_commit_def)
qed

text \<open>An example: a volume, a file system on it and a volume in a file of that.\<close>

definition log_ops :: "(nat, string list) dep_ops" where
  "log_ops =
     \<lparr>op_commit = (\<lambda>k s. (Some (), s @ [''commit''])), op_build_format = (\<lambda>k s. (Some (), s @ [''build''])),
      op_commit_fs_volume = (\<lambda>k s. (Some (), s @ [''commit fs''])), op_commit_mgr = (\<lambda>k s. (Some (), s @ [''commit mgr'']))\<rparr>"

definition stacked :: "nat dep_tracker" where
  "stacked =
     snd (dep_tracker_add_volume_file (True, True, True)
       (snd (dep_tracker_add_fs (True, True, True) fs_dep_tracker_create 1 (Some 0) ''root'')) 2 (Some 1))"

lemma stacked_tracked: "tracked stacked"
  unfolding stacked_def dep_tracker_add_volume_file_def dep_tracker_add_fs_def
  by (rule tracked_add [OF tracked_add [OF tracked_create prod.collapse [symmetric]] prod.collapse [symmetric]])

theorem commit_in_order_witness:
  "\<exists>ks q dep' s'. dep_tracker_commit log_ops stacked [] = (if q = Some () \<and> acyclic (set (dep_edges stacked)) then Some () else None, dep', s') \<and>
    resolve_all log_ops ks [] = (q, s') \<and> distinct ks \<and> set ks \<subseteq> set (dep_keys stacked) \<and> in_order (set (dep_edges stacked)) ks \<and>
    (q = Some () \<and> acyclic (set (dep_edges stacked)) \<longrightarrow> set ks = set (dep_keys stacked))"
  by (rule commit_in_order [OF stacked_tracked])

lemma stacked_commit:
  "case dep_tracker_commit log_ops stacked [] of (r, dep', s') \<Rightarrow> r = Some () \<and> s' = [''commit'', ''build'', ''commit fs'', ''commit'']"
  by code_simp

end
