(* ===== verification/FileSource.thy ===== *)
theory FileSource
  imports Prelude
begin

text \<open>
  Sources of files: the records of \<open>include/filesource.h\<close> and the two sources that are built from others,
  \<open>lib/imgtool/filesource/aggregate.c\<close> and \<open>filter.c\<close>. A source is a tree of such nodes over basic sources, whose
  \<open>get_next_record\<close> is a parameter; so is \<open>fnmatch\<close>. A source that is nested belongs to one other source only. A stream that comes with a
  record may share the state of its basic source, as for a tar archive, which is locked until the stream is dropped; what dropping it does to the
  basic source is the parameter \<open>drp\<close>.
\<close>

section \<open>Records and sources\<close>

datatype FILE_SOURCE_TYPE = FILE_SOURCE_DIR | FILE_SOURCE_FILE | FILE_SOURCE_FIFO | FILE_SOURCE_SOCKET
  | FILE_SOURCE_CHAR_DEV | FILE_SOURCE_BLOCK_DEV | FILE_SOURCE_SYMLINK | FILE_SOURCE_HARD_LINK

record file_source_record =
  r_type :: FILE_SOURCE_TYPE
  r_permissions :: nat
  r_uid :: nat
  r_gid :: nat
  r_devno :: nat
  r_ctime :: nat
  r_mtime :: nat
  r_size :: nat
  full_path :: string
  r_link_target :: "string option"

text \<open>The results of \<open>get_next_record\<close>: a record with its stream, 1 at the end, and -1 on failure.\<close>

datatype 'i next_record = NextRecord file_source_record "'i option" | NoRecord | Failed

datatype FILE_SOURCE_FILTER = FILE_SOURCE_FILTER_ALLOW | FILE_SOURCE_FILTER_DISCARD

type_synonym rule = "string \<times> FILE_SOURCE_FILTER"

text \<open>In an aggregate, the number is the position of \<open>it\<close> in the list, which is the length of the list if \<open>it\<close> is null. In a filter, the flag is
  \<open>wrapped_is_aggregate\<close>.\<close>

datatype 'b source = Basic 'b | Aggregate "'b source list" nat | Filter "'b source option" bool "rule list"

definition file_source_aggregate_create :: "bool \<Rightarrow> 'b source option" where
  "file_source_aggregate_create mem = (if mem then Some (Aggregate [] 0) else None)"

definition file_source_filter_create :: "bool \<Rightarrow> 'b source option" where
  "file_source_filter_create mem = (if mem then Some (Filter None False []) else None)"

definition aggregate_add_nested :: "bool \<Rightarrow> 'b source list \<Rightarrow> nat \<Rightarrow> 'b source \<Rightarrow> (unit, 'b source) io" where
  "aggregate_add_nested mem list it sub = (if mem then (Some (), Aggregate (list @ [sub]) 0) else (None, Aggregate list it))"

text \<open>\<open>mem\<close>: the aggregate, its first and its second entry can be allocated.\<close>

definition filter_add_nested :: "bool \<times> bool \<times> bool \<Rightarrow> 'b source option \<Rightarrow> bool \<Rightarrow> rule list \<Rightarrow> 'b source \<Rightarrow> (unit, 'b source) io" where
  "filter_add_nested mem wrapped agg rules nested =
     (case mem of (m1, m2, m3) \<Rightarrow>
      case wrapped of
        None \<Rightarrow> (Some (), Filter (Some nested) agg rules)
      | Some w \<Rightarrow>
          (case (if agg then (case w of Aggregate list it \<Rightarrow> Some (list, it) | _ \<Rightarrow> None)
                 else if \<not> m1 then None
                 else case aggregate_add_nested m2 [] 0 w of
                     (Some _, Aggregate list it) \<Rightarrow> Some (list, it)
                   | _ \<Rightarrow> None) of
             None \<Rightarrow> (None, Filter wrapped agg rules)
           | Some (list, it) \<Rightarrow>
               (case aggregate_add_nested m3 list it nested of (r, a) \<Rightarrow> (r, Filter (Some a) True rules))))"

definition filter_add_glob_rule :: "bool \<Rightarrow> rule list \<Rightarrow> string \<Rightarrow> FILE_SOURCE_FILTER \<Rightarrow> (unit, rule list) io" where
  "filter_add_glob_rule mem rules pattern target = (if mem then (Some (), rules @ [(pattern, target)]) else (None, rules))"

text \<open>The loop over the rules: the first one that matches decides.\<close>

definition rule_allows :: "(string \<Rightarrow> string \<Rightarrow> bool) \<Rightarrow> rule list \<Rightarrow> string \<Rightarrow> bool" where
  "rule_allows fnmatch rules path =
     (case find (\<lambda>(pattern, target). fnmatch pattern path) rules of
        None \<Rightarrow> False
      | Some (pattern, target) \<Rightarrow> target = FILE_SOURCE_FILTER_ALLOW)"

text \<open>Dropping the stream of the last record. It came from the basic source that is current, so this is where it ends up.\<close>

fun drop_stream :: "('b \<Rightarrow> 'b) \<Rightarrow> 'b source \<Rightarrow> 'b source" where
  "drop_stream drp (Basic b) = Basic (drp b)"
| "drop_stream drp (Aggregate list it) = Aggregate (list[it := map (drop_stream drp) list ! it]) it"
| "drop_stream drp (Filter wrapped agg rules) = Filter (map_option (drop_stream drp) wrapped) agg rules"

text \<open>The state after \<open>object_drop\<close> of a stream that may be null.\<close>

definition object_drop :: "('s \<Rightarrow> 's) \<Rightarrow> 'i option \<Rightarrow> 's \<Rightarrow> 's" where
  "object_drop drp strm s = (if strm = None then s else drp s)"

text \<open>What the loop of a filter does with the result of the wrapped source: it returns (\<open>Inl\<close>) or goes on (\<open>Inr\<close>), having dropped the stream.\<close>

definition filter_step ::
  "('b \<Rightarrow> 'b) \<Rightarrow> (string \<Rightarrow> string \<Rightarrow> bool) \<Rightarrow> rule list \<Rightarrow> 'i next_record \<Rightarrow> 'b source \<Rightarrow> ('i next_record \<times> 'b source) + 'b source" where
  "filter_step drp fnmatch rules r s =
     (case r of
        NextRecord rec strm \<Rightarrow>
          (if rule_allows fnmatch rules (full_path rec) then Inl (r, s) else Inr (object_drop (drop_stream drp) strm s))
      | _ \<Rightarrow> Inl (r, s))"

text \<open>\<open>get_next_record\<close> of all kinds of sources. A filter drops the stream of a record that is not allowed and goes on until a record is allowed, which may be never.\<close>

partial_function (option) get_next_record ::
  "('b \<Rightarrow> 'i next_record \<times> 'b) \<Rightarrow> ('b \<Rightarrow> 'b) \<Rightarrow> (string \<Rightarrow> string \<Rightarrow> bool) \<Rightarrow> 'b source \<Rightarrow> ('i next_record \<times> 'b source) option" where
  "get_next_record basic drp fnmatch source =
     (case source of
        Basic b \<Rightarrow> (case basic b of (r, b) \<Rightarrow> Some (r, Basic b))
      | Aggregate list it \<Rightarrow>
          (if length list \<le> it then Some (NoRecord, Aggregate list it)
           else Option.bind (get_next_record basic drp fnmatch (list ! it)) (\<lambda>(r, s).
             case r of
               NoRecord \<Rightarrow> get_next_record basic drp fnmatch (Aggregate (list[it := s]) (it + 1))
             | _ \<Rightarrow> Some (r, Aggregate (list[it := s]) it)))
      | Filter wrapped agg rules \<Rightarrow>
          (case wrapped of
             None \<Rightarrow> Some (NoRecord, Filter None agg rules)
           | Some w \<Rightarrow>
               Option.bind (get_next_record basic drp fnmatch w) (\<lambda>(r, s).
                 case filter_step drp fnmatch rules r s of
                   Inl (r, s) \<Rightarrow> Some (r, Filter (Some s) agg rules)
                 | Inr s \<Rightarrow> get_next_record basic drp fnmatch (Filter (Some s) agg rules))))"

section \<open>What a source delivers\<close>

text \<open>Reading a source to its end, where every stream is dropped before the next record is asked for, gives a list of records, and whether it
  ended without a failure.\<close>

inductive delivers :: "('s \<Rightarrow> ('i next_record \<times> 's) option) \<Rightarrow> ('s \<Rightarrow> 's) \<Rightarrow> 's \<Rightarrow> (file_source_record \<times> 'i option) list \<Rightarrow> bool \<Rightarrow> bool" for nxt drp where
  delivers_done: "nxt s = Some (NoRecord, s') \<Longrightarrow> delivers nxt drp s [] True"
| delivers_failed: "nxt s = Some (Failed, s') \<Longrightarrow> delivers nxt drp s [] False"
| delivers_next: "nxt s = Some (NextRecord rec strm, s') \<Longrightarrow> delivers nxt drp (object_drop drp strm s') xs ok \<Longrightarrow>
    delivers nxt drp s ((rec, strm) # xs) ok"

text \<open>The specification: an aggregate is the concatenation of its sources up to the first failure, a filter keeps what its rules allow.
  \<open>f\<close> gives the records of the basic sources.\<close>

fun chained :: "('a list \<times> bool) list \<Rightarrow> 'a list \<times> bool" where
  "chained [] = ([], True)"
| "chained ((xs, ok) # ys) = (if ok then (xs @ fst (chained ys), snd (chained ys)) else (xs, False))"

fun records :: "('b \<Rightarrow> (file_source_record \<times> 'i option) list \<times> bool) \<Rightarrow> (string \<Rightarrow> string \<Rightarrow> bool) \<Rightarrow> 'b source \<Rightarrow>
    (file_source_record \<times> 'i option) list \<times> bool" where
  "records f fnmatch (Basic b) = f b"
| "records f fnmatch (Aggregate list it) = chained (drop it (map (records f fnmatch) list))"
| "records f fnmatch (Filter wrapped agg rules) =
     (case wrapped of None \<Rightarrow> ([], True)
      | Some w \<Rightarrow> (case records f fnmatch w of (xs, ok) \<Rightarrow> (filter (\<lambda>(rec, strm). rule_allows fnmatch rules (full_path rec)) xs, ok)))"

text \<open>The basic sources of a source.\<close>

fun basics :: "'b source \<Rightarrow> 'b set" where
  "basics (Basic b) = {b}"
| "basics (Aggregate list it) = \<Union> (set (map basics list))"
| "basics (Filter wrapped agg rules) = (case wrapped of None \<Rightarrow> {} | Some w \<Rightarrow> basics w)"

lemma object_drop_same [simp]: "object_drop (\<lambda>s. s) strm s = s"
  by (simp add: object_drop_def)

lemma drop_stream_current:
  "object_drop (drop_stream drp) strm (Basic b) = Basic (object_drop drp strm b)"
  "object_drop (drop_stream drp) strm (Filter (Some s) agg rules) = Filter (Some (object_drop (drop_stream drp) strm s)) agg rules"
  "it < length list \<Longrightarrow> object_drop (drop_stream drp) strm (Aggregate (list[it := s]) it) =
     Aggregate (list[it := object_drop (drop_stream drp) strm s]) it"
  by (simp_all add: object_drop_def)

lemma delivers_basic:
  assumes "delivers (\<lambda>b. Some (basic b)) drp b xs ok"
  shows "delivers (get_next_record basic drp fnmatch) (drop_stream drp) (Basic b) xs ok"
  using assms
proof (induction rule: delivers.induct)
  case (delivers_done s s')
  then show ?case by (intro delivers.delivers_done [of _ _ "Basic s'"]) (subst get_next_record.simps, simp)
next
  case (delivers_failed s s')
  then show ?case by (intro delivers.delivers_failed [of _ _ "Basic s'"]) (subst get_next_record.simps, simp)
next
  case (delivers_next s rec strm s' xs ok)
  then show ?case
    by (intro delivers.delivers_next [of _ _ rec strm "Basic s'"]) (subst get_next_record.simps, simp, simp add: drop_stream_current)
qed

lemma delivers_cong:
  assumes "delivers nxt drp s xs ok" "nxt s' = nxt s"
  shows "delivers nxt drp s' xs ok"
  using assms(1)
proof cases
  case (delivers_done t)
  then show ?thesis using assms(2) delivers.delivers_done [of nxt s' t drp] by simp
next
  case (delivers_failed t)
  then show ?thesis using assms(2) delivers.delivers_failed [of nxt s' t drp] by simp
next
  case (delivers_next rec strm t xs)
  then show ?thesis using assms(2) delivers.delivers_next [of nxt s' rec strm t drp] by simp
qed

lemma delivers_filter:
  assumes "delivers (get_next_record basic drp fnmatch) (drop_stream drp) w xs ok"
  shows "delivers (get_next_record basic drp fnmatch) (drop_stream drp) (Filter (Some w) agg rules) (filter (\<lambda>(rec, strm). rule_allows fnmatch rules (full_path rec)) xs) ok"
  using assms
proof (induction rule: delivers.induct)
  case (delivers_done s s')
  then have "get_next_record basic drp fnmatch (Filter (Some s) agg rules) = Some (NoRecord, Filter (Some s') agg rules)"
    by (subst get_next_record.simps) (simp add: filter_step_def)
  then show ?case by (auto intro: delivers.delivers_done)
next
  case (delivers_failed s s')
  then have "get_next_record basic drp fnmatch (Filter (Some s) agg rules) = Some (Failed, Filter (Some s') agg rules)"
    by (subst get_next_record.simps) (simp add: filter_step_def)
  then show ?case by (auto intro: delivers.delivers_failed)
next
  case (delivers_next s rec strm s' xs ok)
  let ?n = "get_next_record basic drp fnmatch"
  show ?case
  proof (cases "rule_allows fnmatch rules (full_path rec)")
    case True
    then have "?n (Filter (Some s) agg rules) = Some (NextRecord rec strm, Filter (Some s') agg rules)"
      using delivers_next.hyps(1) by (subst get_next_record.simps) (simp add: filter_step_def)
    then show ?thesis using True delivers_next.IH by (auto simp: drop_stream_current intro: delivers.delivers_next)
  next
    case False
    then have "?n (Filter (Some s) agg rules) = ?n (Filter (Some (object_drop (drop_stream drp) strm s')) agg rules)"
      using delivers_next.hyps(1) by (subst get_next_record.simps) (simp add: filter_step_def)
    with delivers_next.IH show ?thesis using False by (auto intro: delivers_cong)
  qed
qed

lemma delivers_aggregate_step:
  assumes "delivers (get_next_record basic drp fnmatch) (drop_stream drp) s xs ok" "it < length list" "list ! it = s"
    and rest: "\<And>list'. length list' = length list \<Longrightarrow> drop (Suc it) list' = drop (Suc it) list \<Longrightarrow>
      delivers (get_next_record basic drp fnmatch) (drop_stream drp) (Aggregate list' (it + 1)) ys ok'"
  shows "delivers (get_next_record basic drp fnmatch) (drop_stream drp) (Aggregate list it) (if ok then xs @ ys else xs) (ok \<and> ok')"
  using assms
proof (induction arbitrary: list rule: delivers.induct)
  case (delivers_done s s')
  have "get_next_record basic drp fnmatch (Aggregate list it) = get_next_record basic drp fnmatch (Aggregate (list[it := s']) (it + 1))"
    using delivers_done.hyps delivers_done.prems(1,2) by (subst get_next_record.simps) simp
  moreover have "delivers (get_next_record basic drp fnmatch) (drop_stream drp) (Aggregate (list[it := s']) (it + 1)) ys ok'"
    by (rule delivers_done.prems(3)) simp_all
  ultimately show ?case by (auto intro: delivers_cong)
next
  case (delivers_failed s s')
  have "get_next_record basic drp fnmatch (Aggregate list it) = Some (Failed, Aggregate (list[it := s']) it)"
    using delivers_failed.hyps delivers_failed.prems(1,2) by (subst get_next_record.simps) simp
  then show ?case by (auto intro: delivers.delivers_failed)
next
  case (delivers_next s rec strm s' xs ok)
  have "get_next_record basic drp fnmatch (Aggregate list it) = Some (NextRecord rec strm, Aggregate (list[it := s']) it)"
    using delivers_next.hyps(1) delivers_next.prems(1,2) by (subst get_next_record.simps) simp
  moreover have "delivers (get_next_record basic drp fnmatch) (drop_stream drp) (Aggregate (list[it := object_drop (drop_stream drp) strm s']) it)
      (if ok then xs @ ys else xs) (ok \<and> ok')"
    by (rule delivers_next.IH) (use delivers_next.prems in simp_all)
  ultimately show ?case using delivers_next.prems(1) by (auto simp: drop_stream_current intro: delivers.delivers_next split: if_splits)
qed

lemma delivers_aggregate:
  assumes "\<And>s. s \<in> set (drop it list) \<Longrightarrow> delivers (get_next_record basic drp fnmatch) (drop_stream drp) s (fst (g s)) (snd (g s))"
  shows "delivers (get_next_record basic drp fnmatch) (drop_stream drp) (Aggregate list it) (fst (chained (drop it (map g list)))) (snd (chained (drop it (map g list))))"
  using assms
proof (induction "length list - it" arbitrary: list it)
  case 0
  then have "get_next_record basic drp fnmatch (Aggregate list it) = Some (NoRecord, Aggregate list it)" by (subst get_next_record.simps) simp
  then show ?case using 0(1) by (auto intro: delivers.delivers_done)
next
  case (Suc k)
  then have it: "it < length list" "k = length list - (it + 1)" by simp_all
  have s: "delivers (get_next_record basic drp fnmatch) (drop_stream drp) (list ! it) (fst (g (list ! it))) (snd (g (list ! it)))"
    using it(1) by (intro Suc.prems) (simp add: Cons_nth_drop_Suc [symmetric])
  obtain xs ok where g: "g (list ! it) = (xs, ok)" by fastforce
  let ?r = "chained (drop (it + 1) (map g list))"
  have d: "drop it (map g list) = (xs, ok) # drop (it + 1) (map g list)" using it(1) g by (simp add: Cons_nth_drop_Suc [symmetric])
  have "delivers (get_next_record basic drp fnmatch) (drop_stream drp) (Aggregate list it) (if ok then xs @ fst ?r else xs) (ok \<and> snd ?r)"
  proof (rule delivers_aggregate_step [OF s [unfolded g fst_conv snd_conv] it(1) refl])
    fix list' :: "'a source list"
    assume l: "length list' = length list" "drop (Suc it) list' = drop (Suc it) list"
    have "k = length list' - (it + 1)" using it(2) l(1) by simp
    moreover have "s \<in> set (drop it list)" if "s \<in> set (drop (it + 1) list')" for s
      using that l(2) set_drop_subset_set_drop [of it "it + 1" list] by auto
    ultimately have "delivers (get_next_record basic drp fnmatch) (drop_stream drp) (Aggregate list' (it + 1)) (fst (chained (drop (it + 1) (map g list')))) (snd (chained (drop (it + 1) (map g list'))))"
      using Suc.hyps(1) Suc.prems by blast
    then show "delivers (get_next_record basic drp fnmatch) (drop_stream drp) (Aggregate list' (it + 1)) (fst ?r) (snd ?r)" using l(2) by (simp add: drop_map)
  qed
  then show ?case unfolding d by (cases ok) simp_all
qed

text \<open>Nesting another source adds its records behind those of the sources before it.\<close>

definition restarted :: "'b source \<Rightarrow> bool" where
  "restarted s \<longleftrightarrow> (case s of Aggregate list it \<Rightarrow> it = 0 | _ \<Rightarrow> True)"

lemma chained_append: "chained (xs @ ys) = (if snd (chained xs) then (fst (chained xs) @ fst (chained ys), snd (chained ys)) else chained xs)"
  by (induction xs rule: chained.induct) auto

lemma chained_single: "chained [x] = x"
  by (cases x) simp

lemma aggregate_add_nested_records:
  assumes "aggregate_add_nested mem list 0 sub = (Some (), a)"
  shows "records f fnmatch a = chained (records f fnmatch (Aggregate list 0) # [records f fnmatch sub])"
  using assms chained_append [of "map (records f fnmatch) list" "[records f fnmatch sub]"]
  by (cases "chained (map (records f fnmatch) list)") (auto simp: aggregate_add_nested_def chained_single split: if_splits)

lemma filter_add_nested_records:
  assumes "filter_add_nested mem (Some w) agg rules nested = (Some (), s)" "agg \<longrightarrow> restarted w"
  shows "records f fnmatch s = records f fnmatch (Filter (Some (Aggregate [w, nested] 0)) True rules)"
proof -
  obtain m1 m2 m3 where mem: "mem = (m1, m2, m3)" by (rule prod_cases3)
  have one: "records f fnmatch (Aggregate [w] 0) = records f fnmatch w" for w by (simp add: chained_single)
  have "\<exists>list. aggregate_add_nested m3 list 0 nested = (Some (), Aggregate (list @ [nested]) 0) \<and> s = Filter (Some (Aggregate (list @ [nested]) 0)) True rules \<and>
      records f fnmatch (Aggregate list 0) = records f fnmatch w"
    using assms one [of w]
    by (auto simp: filter_add_nested_def mem aggregate_add_nested_def restarted_def split: if_splits source.splits option.splits prod.splits)
  then obtain list where l: "aggregate_add_nested m3 list 0 nested = (Some (), Aggregate (list @ [nested]) 0)" "s = Filter (Some (Aggregate (list @ [nested]) 0)) True rules"
      "records f fnmatch (Aggregate list 0) = records f fnmatch w" by blast
  from aggregate_add_nested_records [OF l(1), of f fnmatch] show ?thesis
    unfolding l(2,3) by (simp add: chained_single)
qed

text \<open>C37: reading a source that is put together from filters and aggregates returns after finitely many records if its basic sources do, and
  delivers exactly the records of the basic sources one after the other, each stream being dropped before the next record is asked for, in order and up to the first failure, without those that the
  first matching rule of a filter discards or for which no rule matches.\<close>

theorem source_delivers:
  assumes "\<forall>b\<in>basics src. delivers (\<lambda>b. Some (basic b)) drp b (fst (f b)) (snd (f b))"
  shows "delivers (get_next_record basic drp fnmatch) (drop_stream drp) src (fst (records f fnmatch src)) (snd (records f fnmatch src))"
  using assms
proof (induction src)
  case (Basic b)
  then show ?case by (simp add: delivers_basic)
next
  case (Aggregate list it)
  have "delivers (get_next_record basic drp fnmatch) (drop_stream drp) s (fst (records f fnmatch s)) (snd (records f fnmatch s))" if "s \<in> set (drop it list)" for s
    using that Aggregate by (auto dest: in_set_dropD)
  then show ?case by (simp add: delivers_aggregate)
next
  case (Filter wrapped agg rules)
  show ?case
  proof (cases wrapped)
    case None
    then have "get_next_record basic drp fnmatch (Filter wrapped agg rules) = Some (NoRecord, Filter None agg rules)" by (subst get_next_record.simps) simp
    then show ?thesis using None by (auto intro: delivers_done)
  next
    case (Some w)
    then have "delivers (get_next_record basic drp fnmatch) (drop_stream drp) w (fst (records f fnmatch w)) (snd (records f fnmatch w))" using Filter by auto
    from delivers_filter [OF this, of agg rules] show ?thesis using Some by (cases "records f fnmatch w") simp
  qed
qed

text \<open>An example: lists of records, every one with a stream, as basic sources. As in a tar archive, asking for another record fails until the
  stream has been dropped. The patterns match themselves only.\<close>

definition demo_record :: "string \<Rightarrow> file_source_record" where
  "demo_record p = \<lparr>r_type = FILE_SOURCE_DIR, r_permissions = 493, r_uid = 0, r_gid = 0, r_devno = 0, r_ctime = 0, r_mtime = 0, r_size = 0,
     full_path = p, r_link_target = None\<rparr>"

fun locked_next :: "file_source_record list \<times> bool \<Rightarrow> unit next_record \<times> file_source_record list \<times> bool" where
  "locked_next (rs, True) = (Failed, rs, True)"
| "locked_next ([], False) = (NoRecord, [], False)"
| "locked_next (r # rs, False) = (NextRecord r (Some ()), rs, True)"

definition unlock :: "file_source_record list \<times> bool \<Rightarrow> file_source_record list \<times> bool" where
  "unlock b = (fst b, False)"

lemma locked_delivers: "delivers (\<lambda>b. Some (locked_next b)) unlock (rs, False) (map (\<lambda>r. (r, Some ())) rs) True"
proof (induction rs)
  case (Cons r rs)
  have "object_drop unlock (Some ()) (rs, True) = (rs, False)" by (simp add: object_drop_def unlock_def)
  with Cons have "delivers (\<lambda>b. Some (locked_next b)) unlock (object_drop unlock (Some ()) (rs, True)) (map (\<lambda>r. (r, Some ())) rs) True"
    by (simp only:)
  then show ?case by (auto intro: delivers_next)
qed (auto intro: delivers_done)

theorem source_delivers_witness:
  "delivers (get_next_record locked_next unlock (=)) (drop_stream unlock)
     (Filter (Some (Aggregate [Basic ([demo_record ''a'', demo_record ''b''], False), Basic ([demo_record ''c''], False)] 0)) True
      [(''b'', FILE_SOURCE_FILTER_DISCARD), (''b'', FILE_SOURCE_FILTER_ALLOW), (''c'', FILE_SOURCE_FILTER_ALLOW)])
    [(demo_record ''c'', Some ())] True"
proof -
  let ?s = "Filter (Some (Aggregate [Basic ([demo_record ''a'', demo_record ''b''], False), Basic ([demo_record ''c''], False)] 0)) True
      [(''b'', FILE_SOURCE_FILTER_DISCARD), (''b'', FILE_SOURCE_FILTER_ALLOW), (''c'', FILE_SOURCE_FILTER_ALLOW)]"
  let ?f = "\<lambda>b. (map (\<lambda>r. (r, Some ())) (fst b), True)"
  have "\<forall>b\<in>basics ?s. delivers (\<lambda>b. Some (locked_next b)) unlock b (fst (?f b)) (snd (?f b))"
    using locked_delivers [of "[demo_record ''a'', demo_record ''b'']"] locked_delivers [of "[demo_record ''c'']"] by simp
  from source_delivers [OF this, of "(=)"] show ?thesis by (simp add: rule_allows_def demo_record_def)
qed

end
