(* ===== verification/Listing.thy ===== *)
theory Listing
  imports FileSource Paths Tar "HOL-Library.Multiset"
begin

text \<open>
  \<open>lib/imgtool/filesource/listing.c\<close>: a source that is filled line by line, keeps its entries in a compact binary form in
  buffers of 1024 bytes, and decodes them again when it is read. Opening a file below the directory of the listing is a
  parameter.
\<close>

section \<open>The binary form of an entry\<close>

definition POOL_SIZE :: nat where "POOL_SIZE = 1024"

text \<open>The pools, each as the part of its buffer that is in use, and the position of the reader.\<close>

record listing =
  l_offset :: nat
  pool_list :: "byte list list"

definition file_source_listing_create :: listing where
  "file_source_listing_create = \<lparr>l_offset = 0, pool_list = []\<rparr>"

text \<open>The index of the first pool with room, or of a new one behind them. A new pool is used even if it is too small.\<close>

fun get_pool :: "bool \<Rightarrow> byte list list \<Rightarrow> nat \<Rightarrow> (nat \<times> byte list list) option" where
  "get_pool mem [] sz = (if mem then Some (0, [[]]) else None)"
| "get_pool mem (p # ps) sz =
     (if sz \<le> POOL_SIZE - length p then Some (0, p # ps)
      else case get_pool mem ps sz of None \<Rightarrow> None | Some (i, qs) \<Rightarrow> Some (Suc i, p # qs))"

definition store_u32 :: "nat \<Rightarrow> nat \<Rightarrow> byte list" where
  "store_u32 v len =
     (if len = 3 then [of_nat (v div 2 ^ 24), of_nat (v div 2 ^ 16), of_nat (v div 2 ^ 8), of_nat v]
      else if len = 2 then [of_nat (v div 2 ^ 8), of_nat v] else [of_nat v])"

text \<open>Reading from a buffer gives the value and what follows, or nothing behind the end of the buffer.\<close>

fun load_u32 :: "byte list \<Rightarrow> nat \<Rightarrow> (nat \<times> byte list) option" where
  "load_u32 b len =
     (if len = 3 then (case b of b0 # b1 # b2 # b3 # r \<Rightarrow> Some (unat b0 * 2 ^ 24 + unat b1 * 2 ^ 16 + unat b2 * 2 ^ 8 + unat b3, r) | _ \<Rightarrow> None)
      else if len = 2 then (case b of b0 # b1 # r \<Rightarrow> Some (unat b0 * 2 ^ 8 + unat b1, r) | _ \<Rightarrow> None)
      else (case b of b0 # r \<Rightarrow> Some (unat b0, r) | _ \<Rightarrow> None))"

definition type_code :: "FILE_SOURCE_TYPE \<Rightarrow> nat" where
  "type_code t =
     (case t of FILE_SOURCE_DIR \<Rightarrow> 0 | FILE_SOURCE_FILE \<Rightarrow> 1 | FILE_SOURCE_FIFO \<Rightarrow> 2 | FILE_SOURCE_SOCKET \<Rightarrow> 3
      | FILE_SOURCE_CHAR_DEV \<Rightarrow> 4 | FILE_SOURCE_BLOCK_DEV \<Rightarrow> 5 | FILE_SOURCE_SYMLINK \<Rightarrow> 6 | FILE_SOURCE_HARD_LINK \<Rightarrow> 7)"

definition code_type :: "nat \<Rightarrow> FILE_SOURCE_TYPE" where
  "code_type n =
     (if n = 0 then FILE_SOURCE_DIR else if n = 1 then FILE_SOURCE_FILE else if n = 2 then FILE_SOURCE_FIFO else if n = 3 then FILE_SOURCE_SOCKET
      else if n = 4 then FILE_SOURCE_CHAR_DEV else if n = 5 then FILE_SOURCE_BLOCK_DEV else if n = 6 then FILE_SOURCE_SYMLINK else FILE_SOURCE_HARD_LINK)"

definition is_lnk :: "FILE_SOURCE_TYPE \<Rightarrow> bool" where
  "is_lnk t \<longleftrightarrow> t = FILE_SOURCE_SYMLINK \<or> t = FILE_SOURCE_HARD_LINK"

definition is_dev :: "FILE_SOURCE_TYPE \<Rightarrow> bool" where
  "is_dev t \<longleftrightarrow> t = FILE_SOURCE_CHAR_DEV \<or> t = FILE_SOURCE_BLOCK_DEV"

record entry =
  e_type :: FILE_SOURCE_TYPE
  e_uid :: nat
  e_gid :: nat
  e_mode :: nat
  e_name :: string
  e_target :: "string option"
  e_devno :: nat

definition id_size :: "nat \<Rightarrow> nat" where
  "id_size n = (if n \<le> 0xFF then 1 else if n \<le> 0xFFFF then 2 else 4)"

definition target_len :: "entry \<Rightarrow> nat" where
  "target_len e = (case e_target e of None \<Rightarrow> 0 | Some t \<Rightarrow> length t)"

definition get_encoded_size :: "entry \<Rightarrow> nat" where
  "get_encoded_size e =
     (let namelen = length (e_name e) in
      2 + (if namelen > 31 then 1 else 0) + namelen +
      (if is_lnk (e_type e) then 0 else 1) +
      (if e_type e \<noteq> FILE_SOURCE_HARD_LINK then (if e_uid e \<le> 0xF \<and> e_gid e \<le> 0xF then 1 else id_size (e_uid e) + id_size (e_gid e)) else 0) +
      (if is_dev (e_type e) then 4
       else if is_lnk (e_type e) then 1 + target_len e
       else if e_type e = FILE_SOURCE_FILE then target_len e + 1 else 0))"

definition id_len :: "nat \<Rightarrow> nat" where
  "id_len n = (if n \<le> 0xF then 0 else if n \<le> 0xFF then 1 else if n \<le> 0xFFFF then 2 else 3)"

definition encode_ids :: "nat \<Rightarrow> nat \<Rightarrow> byte list" where
  "encode_ids uid gid =
     (if id_len uid = 0 \<and> id_len gid = 0 then [of_nat (uid * 16 + gid)] else store_u32 uid (id_len uid) @ store_u32 gid (id_len gid))"

definition encode_extra :: "entry \<Rightarrow> byte list" where
  "encode_extra e =
     (let target = (case e_target e of None \<Rightarrow> [] | Some t \<Rightarrow> ascii t) in
      if is_dev (e_type e) then store_u32 (e_devno e) 3
      else if is_lnk (e_type e) then of_int (int (length target) - 1) # target
      else if e_type e = FILE_SOURCE_FILE then of_nat (length target) # target
      else [])"

definition encode_entry :: "entry \<Rightarrow> byte list" where
  "encode_entry e =
     (let namelen = length (e_name e);
          ul = id_len (e_uid e);
          gl = id_len (e_gid e)
      in [of_nat (type_code (e_type e) + (if namelen \<le> 31 then namelen * 8 else 0)),
          of_nat (ul * 64 + gl * 16 + e_mode e div 256 mod 16)] @
         (if is_lnk (e_type e) then [] else [of_nat (e_mode e)]) @
         (if e_type e \<noteq> FILE_SOURCE_HARD_LINK then encode_ids (e_uid e) (e_gid e) else []) @
         (if namelen > 31 then [of_nat (namelen - 32)] else []) @
         ascii (e_name e) @ encode_extra e)"

section \<open>Reading an entry\<close>

text \<open>\<open>strndup_buf\<close> from a buffer, and what lies behind the characters.\<close>

definition strndup_buf :: "nat \<Rightarrow> byte list \<Rightarrow> string" where
  "strndup_buf n b = map (\<lambda>c. char_of (unat c)) (takeWhile (\<lambda>c. c \<noteq> 0) (take n b))"

definition load_string :: "byte list \<Rightarrow> nat \<Rightarrow> (string \<times> byte list) option" where
  "load_string b n = (if n \<le> length b then Some (strndup_buf n b, drop n b) else None)"

definition load_ids :: "byte list \<Rightarrow> nat \<Rightarrow> nat \<Rightarrow> ((nat \<times> nat) \<times> byte list) option" where
  "load_ids b ul gl =
     (if ul = 0 \<and> gl = 0 then (case b of [] \<Rightarrow> None | c # b \<Rightarrow> Some ((unat c div 16, unat c mod 16), b))
      else Option.bind (load_u32 b ul) (\<lambda>(uid, b). Option.bind (load_u32 b gl) (\<lambda>(gid, b). Some ((uid, gid), b))))"

definition load_name :: "byte list \<Rightarrow> nat \<Rightarrow> (string \<times> byte list) option" where
  "load_name b n =
     (if n = 0 then (case b of [] \<Rightarrow> None | c # b \<Rightarrow> load_string b (32 + unat c)) else load_string b n)"

text \<open>The device number and the target: for a file, an empty target is none.\<close>

definition load_extra :: "FILE_SOURCE_TYPE \<Rightarrow> byte list \<Rightarrow> ((nat \<times> string option) \<times> byte list) option" where
  "load_extra t b =
     (if is_dev t then Option.bind (load_u32 b 3) (\<lambda>(devno, b). Some ((devno, None), b))
      else if is_lnk t then (case b of [] \<Rightarrow> None | c # b \<Rightarrow> Option.bind (load_string b (unat c + 1)) (\<lambda>(s, b). Some ((0, Some s), b)))
      else if t = FILE_SOURCE_FILE then
        (case b of [] \<Rightarrow> None
         | c # b \<Rightarrow> Option.bind (load_string b (unat c)) (\<lambda>(s, b). Some ((0, if c = 0 then None else Some s), b)))
      else Some ((0, None), b))"

definition decode_entry :: "byte list \<Rightarrow> (entry \<times> byte list) option" where
  "decode_entry b =
     (case b of
        c0 # c1 # b \<Rightarrow>
          (let t = code_type (unat c0 mod 8);
               namelen = unat c0 div 8;
               ul = unat c1 div 64;
               gl = unat c1 div 16 mod 4
           in Option.bind
                (if t = FILE_SOURCE_HARD_LINK then Some (511, b)
                 else if t = FILE_SOURCE_SYMLINK then Some (511 + unat c1 mod 16 div 2 * 2 * 256, b)
                 else (case b of [] \<Rightarrow> None | c2 # b \<Rightarrow> Some (unat c1 mod 16 * 256 + unat c2, b))) (\<lambda>(mode, b).
              Option.bind (if t \<noteq> FILE_SOURCE_HARD_LINK then load_ids b ul gl else Some ((0, 0), b)) (\<lambda>((uid, gid), b).
              Option.bind (load_name b namelen) (\<lambda>(nm, b).
              Option.bind (load_extra t b) (\<lambda>((devno, target), b).
                Some (\<lparr>e_type = t, e_uid = uid, e_gid = gid, e_mode = mode, e_name = nm, e_target = target, e_devno = devno\<rparr>, b))))))
      | _ \<Rightarrow> None)"

text \<open>The pool that holds a position and the position in it.\<close>

fun find_pool :: "byte list list \<Rightarrow> nat \<Rightarrow> (byte list \<times> nat) option" where
  "find_pool [] off = None"
| "find_pool (p # ps) off = (if off < length p then Some (p, off) else find_pool ps (off - length p))"

text \<open>The record of an entry. \<open>open_file\<close> is \<open>openat\<close>, \<open>fstat\<close> and \<open>istream_open_fd\<close> below the directory of the listing: a stream and a
  size. \<open>want\<close> tells whether the caller asks for streams.\<close>

definition entry_record :: "entry \<Rightarrow> nat \<Rightarrow> string option \<Rightarrow> file_source_record" where
  "entry_record e sz target =
     \<lparr>r_type = e_type e, r_permissions = e_mode e, r_uid = e_uid e, r_gid = e_gid e, r_devno = e_devno e, r_ctime = 0, r_mtime = 0,
      r_size = sz, full_path = e_name e, r_link_target = target\<rparr>"

definition open_entry :: "(string \<Rightarrow> ('i \<times> nat) option) \<Rightarrow> bool \<Rightarrow> entry \<Rightarrow> 'i next_record" where
  "open_entry open_file want e =
     (if e_type e = FILE_SOURCE_FILE \<and> want
      then (case open_file (case e_target e of None \<Rightarrow> e_name e | Some t \<Rightarrow> t) of
              None \<Rightarrow> Failed
            | Some (strm, sz) \<Rightarrow> NextRecord (entry_record e sz (e_target e)) (Some strm))
      else NextRecord (entry_record e 0 (if e_type e = FILE_SOURCE_FILE then None else e_target e)) None)"

text \<open>The buffer of a pool is filled up with zeros. A read behind it has no defined result; the model fails there, and so it does when
  there is no memory.\<close>

definition listing_next :: "(string \<Rightarrow> ('i \<times> nat) option) \<Rightarrow> bool \<Rightarrow> bool \<Rightarrow> listing \<Rightarrow> 'i next_record \<times> listing" where
  "listing_next open_file mem want l =
     (case find_pool (pool_list l) (l_offset l) of
        None \<Rightarrow> (NoRecord, l)
      | Some (p, off) \<Rightarrow>
          (if \<not> mem then (Failed, l)
           else let b = drop off (p @ zeros (POOL_SIZE - length p)) in
             case decode_entry b of
               None \<Rightarrow> (Failed, l)
             | Some (e, r) \<Rightarrow>
                 (case open_entry open_file want e of
                    NextRecord rec strm \<Rightarrow> (NextRecord rec strm, l\<lparr>l_offset := l_offset l + (length b - length r)\<rparr>)
                  | x \<Rightarrow> (x, l))))"

section \<open>Adding a line\<close>

text \<open>The ways to fail, named after the labels of the source. \<open>overflow\<close>: the entry is larger than the buffer of a pool, which is then written
  past its end, with no defined result.\<close>

datatype line_error = fail_kw | fail_name | fail_mode | fail_uidgid | fail_extra | fail_devtype | fail_devno | fail_target | fail_quote
  | fail_errno | overflow

definition isspace_chr :: "char \<Rightarrow> bool" where
  "isspace_chr c \<longleftrightarrow> isspace (of_char c)"

definition isdigit_chr :: "char \<Rightarrow> bool" where
  "isdigit_chr c \<longleftrightarrow> isdigit (of_char c)"

definition keyword_table :: "(string \<times> FILE_SOURCE_TYPE) list" where
  "keyword_table =
     [(''dir'', FILE_SOURCE_DIR), (''file'', FILE_SOURCE_FILE), (''pipe'', FILE_SOURCE_FIFO), (''sock'', FILE_SOURCE_SOCKET),
      (''nod'', FILE_SOURCE_CHAR_DEV), (''slink'', FILE_SOURCE_SYMLINK), (''link'', FILE_SOURCE_HARD_LINK)]"

fun read_keyword :: "(string \<times> FILE_SOURCE_TYPE) list \<Rightarrow> string \<Rightarrow> (FILE_SOURCE_TYPE \<times> string) option" where
  "read_keyword [] line = None"
| "read_keyword ((str, t) # kws) line =
     (let r = drop (length str) line in
      if take (length str) line = str \<and> r \<noteq> [] \<and> isspace_chr (hd r) then Some (t, dropWhile isspace_chr r)
      else read_keyword kws line)"

definition skip_space :: "string \<Rightarrow> string option" where
  "skip_space line = (if line = [] \<or> \<not> isspace_chr (hd line) then None else Some (dropWhile isspace_chr line))"

fun number_loop :: "nat \<Rightarrow> nat \<Rightarrow> nat \<Rightarrow> string \<Rightarrow> (nat \<times> string) option" where
  "number_loop limit base out [] = Some (out, [])"
| "number_loop limit base out (c # line) =
     (if \<not> isdigit_chr c then Some (out, c # line)
      else let x = of_char c - 48 in
        if base \<le> x \<or> (0xFFFFFFFF - x) div base < out \<or> limit < out * base + x then None
        else number_loop limit base (out * base + x) line)"

definition line_number :: "string \<Rightarrow> nat \<Rightarrow> nat \<Rightarrow> (nat \<times> string) option" where
  "line_number line limit base = (if line = [] \<or> \<not> isdigit_chr (hd line) then None else number_loop limit base 0 line)"

definition quote :: char where "quote = CHR 0x22"

definition backslash :: char where "backslash = CHR 0x5C"

text \<open>The rest of a quoted name behind the opening quote: its length with the closing quote, and what follows.\<close>

fun scan_quoted :: "string \<Rightarrow> (nat \<times> string) option" where
  "scan_quoted [] = None"
| "scan_quoted [c] = (if c = quote then Some (1, []) else None)"
| "scan_quoted (c # d # line) =
     (if c = quote then Some (1, d # line)
      else if c = backslash then map_option (\<lambda>(n, r). (n + 2, r)) (scan_quoted line)
      else map_option (\<lambda>(n, r). (n + 1, r)) (scan_quoted (d # line)))"

definition read_name :: "string \<Rightarrow> line_error + string \<times> string" where
  "read_name line =
     (if line \<noteq> [] \<and> hd line = quote
      then (case scan_quoted (tl line) of None \<Rightarrow> Inl fail_quote | Some (n, r) \<Rightarrow> Inr (take n line, r))
      else let nm = takeWhile (\<lambda>c. \<not> isspace_chr c) line in if nm = [] then Inl fail_name else Inr (nm, drop (length nm) line))"

fun unescape_loop :: "string \<Rightarrow> string" where
  "unescape_loop [] = []"
| "unescape_loop [c] = (if c = quote \<or> c = backslash then [] else [c])"
| "unescape_loop (c # d # s) =
     (if c = quote then []
      else if c = backslash then (if d = backslash \<or> d = quote then d # unescape_loop s else unescape_loop (d # s))
      else c # unescape_loop (d # s))"

definition unescape :: "string \<Rightarrow> string" where
  "unescape str = (if str \<noteq> [] \<and> hd str = quote then unescape_loop (tl str) else str)"

definition orelse :: "'e \<Rightarrow> 'a option \<Rightarrow> 'e + 'a" where
  "orelse e x = (case x of None \<Rightarrow> Inl e | Some a \<Rightarrow> Inr a)"

definition and_then :: "'e + 'a \<Rightarrow> ('a \<Rightarrow> 'e + 'b) \<Rightarrow> 'e + 'b" where
  "and_then x f = (case x of Inl e \<Rightarrow> Inl e | Inr a \<Rightarrow> f a)"

text \<open>Permissions, user and group. The line behind them is null if there is no space.\<close>

definition read_attributes :: "string \<Rightarrow> line_error + (nat \<times> nat \<times> nat) \<times> string option" where
  "read_attributes line =
     and_then (orelse fail_mode (skip_space line)) (\<lambda>line.
     and_then (orelse fail_mode (line_number line 0xFFF 8)) (\<lambda>(mode, line).
     and_then (orelse fail_uidgid (skip_space line)) (\<lambda>line.
     and_then (orelse fail_uidgid (line_number line 0xFFFFFFFF 10)) (\<lambda>(uid, line).
     and_then (orelse fail_uidgid (skip_space line)) (\<lambda>line.
     and_then (orelse fail_uidgid (line_number line 0xFFFFFFFF 10)) (\<lambda>(gid, line).
     Inr ((mode, uid, gid), skip_space line)))))))"

text \<open>What follows for devices, files and links: the type, the device number, the target and the rest of the line.\<close>

definition read_device :: "string \<Rightarrow> line_error + FILE_SOURCE_TYPE \<times> nat \<times> string option \<times> string option" where
  "read_device line =
     and_then (if line \<noteq> [] \<and> (hd line = CHR ''b'' \<or> hd line = CHR ''B'') then Inr FILE_SOURCE_BLOCK_DEV
               else if line = [] \<or> (hd line \<noteq> CHR ''c'' \<and> hd line \<noteq> CHR ''C'') then Inl fail_devtype
               else Inr FILE_SOURCE_CHAR_DEV) (\<lambda>t.
     and_then (orelse fail_devno (skip_space (tl line))) (\<lambda>line.
     and_then (orelse fail_devno (line_number line 0xFFFFFFFF 10)) (\<lambda>(dev_major, line).
     and_then (orelse fail_devno (skip_space line)) (\<lambda>line.
     and_then (orelse fail_devno (line_number line 0xFFFFFFFF 10)) (\<lambda>(dev_minor, line).
     Inr (t, makedev dev_major dev_minor, None, skip_space line))))))"

definition read_extra :: "FILE_SOURCE_TYPE \<Rightarrow> string option \<Rightarrow> line_error + FILE_SOURCE_TYPE \<times> nat \<times> string option \<times> string option" where
  "read_extra t line =
     (if t = FILE_SOURCE_CHAR_DEV then and_then (orelse fail_devno line) read_device
      else if t = FILE_SOURCE_FILE \<and> (line = None \<or> line = Some []) then Inr (t, makedev 0 0, None, line)
      else if t = FILE_SOURCE_FILE \<or> is_lnk t then
        (case line of
           None \<Rightarrow> Inl fail_target
         | Some l \<Rightarrow>
             (let target = takeWhile (\<lambda>c. \<not> isspace_chr c) l in
              if target = [] then Inl fail_target else Inr (t, makedev 0 0, Some target, skip_space (drop (length target) l))))
      else Inr (t, makedev 0 0, None, line))"

text \<open>\<open>m1\<close> and \<open>m2\<close>: the copies of the name and of the target can be allocated.\<close>

definition finish_target :: "bool \<Rightarrow> FILE_SOURCE_TYPE \<Rightarrow> string option \<Rightarrow> line_error + string option" where
  "finish_target m2 t target =
     (case target of
        None \<Rightarrow> Inr None
      | Some s \<Rightarrow>
          (if \<not> m2 then Inl fail_errno
           else if t = FILE_SOURCE_HARD_LINK \<or> t = FILE_SOURCE_FILE then
             (let s = fstree_canonicalize_path s in if s = [] then Inl fail_target else Inr (Some s))
           else Inr (Some s)))"

definition parse_line :: "bool \<times> bool \<Rightarrow> string \<Rightarrow> line_error + entry" where
  "parse_line mem line =
     (case mem of (m1, m2) \<Rightarrow>
      and_then (orelse fail_kw (read_keyword keyword_table line)) (\<lambda>(t, line).
      and_then (read_name line) (\<lambda>(nm, line).
      and_then (read_attributes line) (\<lambda>((mode, uid, gid), line).
      and_then (read_extra t line) (\<lambda>(t, devno, target, line).
      if line \<noteq> None \<and> line \<noteq> Some [] then Inl fail_extra
      else if \<not> m1 then Inl fail_errno
      else and_then (finish_target m2 t target) (\<lambda>target.
        Inr \<lparr>e_type = t, e_uid = uid, e_gid = gid, e_mode = mode, e_name = fstree_canonicalize_path (unescape nm), e_target = target, e_devno = devno\<rparr>))))))"

definition insert_entry :: "bool \<Rightarrow> entry \<Rightarrow> byte list list \<Rightarrow> line_error + byte list list" where
  "insert_entry mem e ps =
     (case get_pool mem ps (get_encoded_size e) of
        None \<Rightarrow> Inl fail_errno
      | Some (i, qs) \<Rightarrow>
          (if POOL_SIZE < length (qs ! i) + get_encoded_size e then Inl overflow
           else Inr (qs[i := qs ! i @ encode_entry e])))"

definition add_line :: "bool \<times> bool \<times> bool \<Rightarrow> string \<Rightarrow> listing \<Rightarrow> line_error + listing" where
  "add_line mem line l =
     (case mem of (m1, m2, m3) \<Rightarrow>
      and_then (parse_line (m1, m2) line) (\<lambda>e.
      and_then (insert_entry m3 e (pool_list l)) (\<lambda>ps. Inr (l\<lparr>pool_list := ps\<rparr>))))"

fun add_lines :: "string list \<Rightarrow> listing \<Rightarrow> line_error + listing" where
  "add_lines [] l = Inr l"
| "add_lines (line # lines) l = and_then (add_line (True, True, True) line l) (add_lines lines)"

section \<open>What is read is what was added\<close>

text \<open>What an entry keeps: the attributes of a link are replaced, but for the upper permission bits of a symbolic link.\<close>

definition stored :: "entry \<Rightarrow> entry" where
  "stored e =
     (if e_type e = FILE_SOURCE_HARD_LINK then e\<lparr>e_mode := 511, e_uid := 0, e_gid := 0\<rparr>
      else if e_type e = FILE_SOURCE_SYMLINK then e\<lparr>e_mode := 511 + e_mode e div 512 mod 8 * 512\<rparr>
      else e)"

definition no_nul :: "string \<Rightarrow> bool" where
  "no_nul s \<longleftrightarrow> CHR 0x00 \<notin> set s"

text \<open>The limits of the binary form.\<close>

definition fits :: "entry \<Rightarrow> bool" where
  "fits e \<longleftrightarrow>
     0 < length (e_name e) \<and> length (e_name e) < 288 \<and> no_nul (e_name e) \<and>
     (case e_target e of None \<Rightarrow> True | Some t \<Rightarrow> length t < 256 \<and> no_nul t) \<and>
     e_devno e < 2 ^ 32 \<and> get_encoded_size e \<le> POOL_SIZE"

text \<open>What the parser guarantees of an entry.\<close>

definition parsed :: "entry \<Rightarrow> bool" where
  "parsed e \<longleftrightarrow>
     e_mode e < 4096 \<and> e_uid e < 2 ^ 32 \<and> e_gid e < 2 ^ 32 \<and>
     (if is_lnk (e_type e) then e_target e \<noteq> None \<and> e_target e \<noteq> Some []
      else if e_type e = FILE_SOURCE_FILE then e_target e \<noteq> Some []
      else e_target e = None) \<and>
     (\<not> is_dev (e_type e) \<longrightarrow> e_devno e = 0)"


lemma unat_of_char: "unat (of_char c :: byte) = of_char c"
  using of_char_mod_256 [of c, where ?'a = nat] unat_of_nat_byte [of "of_char c"] by (simp add: of_nat_of_char)

lemma load_store_u32:
  assumes "v < (if len = 3 then 2 ^ 32 else if len = 2 then 2 ^ 16 else 2 ^ 8)"
  shows "load_u32 (store_u32 v len @ r) len = Some (v, r)"
proof -
  have two: "w div 256 mod 256 * 256 + w mod 256 = w" if "w < 65536" for w :: nat using that mod_mult2_eq [of w 256 256] by simp
  have "v div 16777216 mod 256 * 16777216 + v div 65536 mod 256 * 65536 + v div 256 mod 256 * 256 + v mod 256 = v" if "v < 4294967296"
  proof -
    let ?h = "v div 65536" and ?l = "v mod 65536"
    have "?h < 65536" using that by (simp add: less_mult_imp_div_less)
    then have "v div 16777216 mod 256 * 256 + v div 65536 mod 256 = ?h" using two [of ?h] by (simp add: div_mult2_eq [symmetric])
    moreover have "?l = 256 * (v div 256 mod 256) + v mod 256" using mod_mult2_eq [of v 256 256] by simp
    moreover have "v = ?h * 65536 + ?l" by simp
    ultimately show ?thesis by linarith
  qed
  moreover note two [of v]
  ultimately show ?thesis using assms by (auto simp: store_u32_def unat_of_nat_byte split: if_splits)
qed

lemma load_encode_ids:
  assumes "uid < 2 ^ 32" "gid < 2 ^ 32"
  shows "load_ids (encode_ids uid gid @ r) (id_len uid) (id_len gid) = Some ((uid, gid), r)"
proof (cases "id_len uid = 0 \<and> id_len gid = 0")
  case True
  then have "uid < 16" "gid < 16" by (auto simp: id_len_def split: if_splits)
  then have "(uid * 16 + gid) mod 256 = uid * 16 + gid" by simp
  moreover have "(uid * 16 + gid) div 16 = uid" "(uid * 16 + gid) mod 16 = gid" using \<open>gid < 16\<close> by presburger+
  ultimately show ?thesis using True by (simp add: load_ids_def encode_ids_def unat_of_nat_byte del: of_nat_add of_nat_mult)
next
  case False
  have "load_u32 (store_u32 v (id_len v) @ r) (id_len v) = Some (v, r)" if "v < 2 ^ 32" for v r
    using that by (intro load_store_u32) (auto simp: id_len_def)
  from this [OF assms(1)] this [OF assms(2)] show ?thesis using False by (auto simp: load_ids_def encode_ids_def simp del: load_u32.simps)
qed

lemma load_string_ascii:
  assumes "no_nul s"
  shows "load_string (ascii s @ r) (length s) = Some (s, r)"
proof -
  have nz: "(of_char c :: byte) \<noteq> 0" if "c \<in> set s" for c
  proof
    assume "(of_char c :: byte) = 0"
    then have "unat (of_char c :: byte) = 0" by simp
    then have "(of_char c :: nat) = of_char (CHR 0x00)" by (simp add: unat_of_char)
    then have "c = CHR 0x00" by (simp only: of_char_eq_iff)
    then show False using that assms by (simp add: no_nul_def)
  qed
  have tw: "takeWhile (\<lambda>c. c \<noteq> (0 :: byte)) (ascii s) = ascii s" using nz by (auto simp: ascii_def takeWhile_eq_all_conv)
  have mp: "map (\<lambda>c. char_of (unat c)) (ascii s) = s" by (simp add: ascii_def comp_def unat_of_char map_idI)
  have len: "length (ascii s) = length s" by (simp add: ascii_def)
  show ?thesis unfolding load_string_def strndup_buf_def len [symmetric] by (simp add: tw mp)
qed

lemma load_name_encoded:
  assumes "0 < length s" "length s < 288" "no_nul s"
  shows "load_name ((if length s > 31 then [of_nat (length s - 32)] else []) @ ascii s @ r) (if length s \<le> 31 then length s else 0) = Some (s, r)"
proof -
  have "(length s - 32) mod 256 = length s - 32" if "31 < length s" using assms(2) that by simp
  then have "32 + unat (of_nat (length s - 32) :: byte) = length s" if "31 < length s" using that by (simp only: unat_of_nat_byte)
  then show ?thesis using assms load_string_ascii [OF assms(3), of r] by (auto simp: load_name_def simp del: of_nat_diff)
qed

lemma load_extra_encoded:
  assumes "parsed e" "fits e"
  shows "load_extra (e_type e) (encode_extra e @ r) = Some ((e_devno e, e_target e), r)"
proof -
  have dev: "load_u32 (store_u32 (e_devno e) 3 @ r) 3 = Some (e_devno e, r)" if "is_dev (e_type e)"
    using assms(2) by (intro load_store_u32) (simp add: fits_def)
  have lnk: "load_string (ascii t @ r) (unat (of_int (int (length t) - 1) :: byte) + 1) = Some (t, r)" if "e_target e = Some t" "t \<noteq> []" for t
  proof -
    have "of_int (int (length t) - 1) = (of_nat (length t - 1) :: byte)" using that(2) by (cases t) simp_all
    then show ?thesis using assms(2) that load_string_ascii [of t r] by (cases t) (simp_all add: fits_def unat_of_nat_byte del: of_int_diff)
  qed
  have fl: "load_string (ascii t @ r) (unat (of_nat (length t) :: byte)) = Some (t, r)" if "e_target e = Some t" for t
    using assms(2) that load_string_ascii [of t r] by (simp add: fits_def unat_of_nat_byte)
  have nz: "(of_nat (length t) :: byte) \<noteq> 0" if "e_target e = Some t" "t \<noteq> []" for t
    using assms(2) that unat_of_nat_byte [of "length t"] by (auto simp: fits_def)
  consider (d) "is_dev (e_type e)" "\<not> is_lnk (e_type e)" | (l) "is_lnk (e_type e)" "\<not> is_dev (e_type e)" | (f) "e_type e = FILE_SOURCE_FILE" "\<not> is_lnk (e_type e)" "\<not> is_dev (e_type e)"
    | (x) "e_type e \<noteq> FILE_SOURCE_FILE" "\<not> is_lnk (e_type e)" "\<not> is_dev (e_type e)"
    by (cases "e_type e") (auto simp: is_dev_def is_lnk_def)
  then show ?thesis
  proof cases
    case d
    then show ?thesis using dev assms(1) by (auto simp: load_extra_def encode_extra_def parsed_def is_dev_def simp del: load_u32.simps)
  next
    case l
    then obtain t where t: "e_target e = Some t" "t \<noteq> []" using assms(1) by (auto simp: parsed_def)
    have len: "length (ascii t) = length t" by (simp add: ascii_def)
    show ?thesis using l lnk [OF t] assms(1) by (simp add: load_extra_def encode_extra_def t len parsed_def del: of_int_diff)
  next
    case f
    have len: "length (ascii t) = length t" for t by (simp add: ascii_def)
    show ?thesis using f fl nz assms(1)
      by (cases "e_target e") (simp_all add: load_extra_def encode_extra_def len parsed_def load_string_def)
  next
    case x
    then show ?thesis using assms(1) by (simp add: load_extra_def encode_extra_def parsed_def)
  qed
qed

lemma code_type_code [simp]: "code_type (type_code t) = t"
  by (cases t) (simp_all add: code_type_def type_code_def)

lemma type_code_less: "type_code t < 8"
  by (cases t) (simp_all add: type_code_def)

lemma id_len_less: "id_len n < 4"
  by (simp add: id_len_def)

text \<open>The two bytes at the start of an entry.\<close>

lemma first_byte:
  assumes "n \<le> 31"
  shows "unat (of_nat (type_code t + n * 8) :: byte) mod 8 = type_code t" "unat (of_nat (type_code t + n * 8) :: byte) div 8 = n"
  using assms type_code_less [of t] by (simp_all add: unat_of_nat_byte del: of_nat_add of_nat_mult)

lemma second_byte:
  assumes "u < 4" "g < 4" "m < 16"
  shows "unat (of_nat (u * 64 + g * 16 + m) :: byte) div 64 = u" "unat (of_nat (u * 64 + g * 16 + m) :: byte) div 16 mod 4 = g"
    "unat (of_nat (u * 64 + g * 16 + m) :: byte) mod 16 = m"
proof -
  have eq: "unat (of_nat (u * 64 + g * 16 + m) :: byte) = u * 64 + g * 16 + m"
    using assms by (simp add: unat_of_nat_byte del: of_nat_add of_nat_mult)
  show "unat (of_nat (u * 64 + g * 16 + m) :: byte) div 64 = u" "unat (of_nat (u * 64 + g * 16 + m) :: byte) div 16 mod 4 = g"
    "unat (of_nat (u * 64 + g * 16 + m) :: byte) mod 16 = m"
    unfolding eq using div_mult_self3 [of 64 u "g * 16 + m"] div_mult_self3 [of 16 "u * 4 + g" m] mod_mult_self3 [of "u * 4 + g" 16 m] assms
    by (simp_all add: algebra_simps)
qed

lemma decode_encode_entry:
  assumes "parsed e" "fits e"
  shows "decode_entry (encode_entry e @ r) = Some (stored e, r)"
proof -
  define n where "n = (if length (e_name e) \<le> 31 then length (e_name e) else 0)"
  define nm where "nm = (if length (e_name e) > 31 then [of_nat (length (e_name e) - 32)] else []) @ ascii (e_name e)"
  let ?m = "e_mode e div 256 mod 16"
  have n: "n \<le> 31" by (simp add: n_def)
  have mode: "e_mode e < 4096" and ids: "e_uid e < 2 ^ 32" "e_gid e < 2 ^ 32" using assms(1) by (simp_all add: parsed_def)
  have name: "load_name (nm @ q) n = Some (e_name e, q)" for q
    using assms(2) load_name_encoded [of "e_name e" q] unfolding n_def nm_def fits_def by simp
  have m: "?m * 256 + unat (of_nat (e_mode e) :: byte) = e_mode e"
    using mode mod_mult2_eq [of "e_mode e" 256 16] by (simp add: unat_of_nat_byte)
  have s: "512 * (?m div 2) = e_mode e div 512 mod 8 * 512"     using mode div_mult2_eq [of "e_mode e" 256 2] by (simp add: less_mult_imp_div_less)
  have enc: "encode_entry e = of_nat (type_code (e_type e) + n * 8) # of_nat (id_len (e_uid e) * 64 + id_len (e_gid e) * 16 + ?m) #
      (if is_lnk (e_type e) then [] else [of_nat (e_mode e)]) @ (if e_type e \<noteq> FILE_SOURCE_HARD_LINK then encode_ids (e_uid e) (e_gid e) else []) @ nm @ encode_extra e"
    by (simp add: encode_entry_def n_def nm_def Let_def)
  have m16: "?m < 16" by simp
  note bytes = first_byte [OF n, of "e_type e"] second_byte [OF id_len_less [of "e_uid e"] id_len_less [of "e_gid e"] m16]
  note load = load_encode_ids [OF ids] name load_extra_encoded [OF assms]
  have links: "load_extra t (encode_extra e @ r) = Some ((e_devno e, e_target e), r)" if "e_type e = t" for t
    using load_extra_encoded [OF assms, of r] that by simp
  show ?thesis unfolding enc decode_entry_def
    by (simp add: bytes load links Let_def stored_def is_lnk_def m s del: of_nat_add of_nat_mult)
qed

lemma length_encode_entry:
  assumes "parsed e"
  shows "length (encode_entry e) = get_encoded_size e"
proof -
  have ids: "length (encode_ids u g) = (if u \<le> 0xF \<and> g \<le> 0xF then 1 else id_size u + id_size g)" for u g
    by (simp add: encode_ids_def store_u32_def id_len_def id_size_def)
  have extra: "length (encode_extra e) = (if is_dev (e_type e) then 4 else if is_lnk (e_type e) then 1 + target_len e
       else if e_type e = FILE_SOURCE_FILE then target_len e + 1 else 0)"
    by (cases "e_target e") (simp_all add: encode_extra_def store_u32_def target_len_def ascii_def Let_def)
  show ?thesis by (simp add: encode_entry_def get_encoded_size_def ids extra Let_def ascii_def)
qed

text \<open>The parser.\<close>

lemma orelse_Inr [simp]: "orelse e x = Inr a \<longleftrightarrow> x = Some a"
  by (cases x) (simp_all add: orelse_def)

lemma and_then_Inr [simp]: "and_then x f = Inr b \<longleftrightarrow> (\<exists>a. x = Inr a \<and> f a = Inr b)"
  by (cases x) (simp_all add: and_then_def)

lemma number_loop_le: "number_loop limit base out line = Some (n, r) \<Longrightarrow> out \<le> limit \<Longrightarrow> n \<le> limit"
  by (induction limit base out line rule: number_loop.induct) (auto simp: Let_def split: if_splits)

lemma line_number_le: "line_number line limit base = Some (n, r) \<Longrightarrow> n \<le> limit"
  by (auto simp: line_number_def number_loop_le split: if_splits)

lemma read_attributes_bounds:
  assumes "read_attributes line = Inr ((mode, uid, gid), r)"
  shows "mode < 4096" "uid < 2 ^ 32" "gid < 2 ^ 32"
  using assms by (auto simp: read_attributes_def dest!: line_number_le)

lemma makedev_0: "makedev 0 0 = 0"
  by (simp add: makedev_def u32_def)

lemma read_extra_shape:
  assumes "read_extra t line = Inr (t', devno, target, r)"
  shows "if is_lnk t' then target \<noteq> None \<and> target \<noteq> Some [] else if t' = FILE_SOURCE_FILE then target \<noteq> Some [] else target = None"
    "\<not> is_dev t' \<longrightarrow> t' = t \<and> devno = 0"
  using assms by (auto simp: read_extra_def read_device_def is_lnk_def is_dev_def makedev_0 Let_def split: if_splits option.splits)

lemma finish_target_shape:
  assumes "finish_target m t target = Inr target'"
  shows "target' = None \<longleftrightarrow> target = None" "target \<noteq> Some [] \<Longrightarrow> target' \<noteq> Some []"
  using assms by (auto simp: finish_target_def Let_def split: option.splits if_splits)

lemma parse_line_parsed:
  assumes "parse_line mem line = Inr e"
  shows "parsed e"
proof -
  obtain m1 m2 where mem: "mem = (m1, m2)" by fastforce
  obtain l1 mode uid gid l2 t t' devno target target' l3 where
    p: "read_attributes l1 = Inr ((mode, uid, gid), l2)" "read_extra t l2 = Inr (t', devno, target, l3)" "finish_target m2 t' target = Inr target'"
    and e: "e_type e = t'" "e_uid e = uid" "e_gid e = gid" "e_mode e = mode" "e_target e = target'" "e_devno e = devno"
    using assms by (auto simp: parse_line_def mem split: if_splits prod.splits)
  show ?thesis using read_attributes_bounds [OF p(1)] read_extra_shape [OF p(2)] finish_target_shape [OF p(3)]
    by (auto simp: parsed_def e split: if_splits)
qed

text \<open>The pools and the entries in them.\<close>

definition enc :: "entry list \<Rightarrow> byte list" where
  "enc es = concat (map encode_entry es)"

lemma enc_simps [simp]: "enc [] = []" "enc (e # es) = encode_entry e @ enc es" "enc (es @ es') = enc es @ enc es'"
  by (simp_all add: enc_def)

definition pools_of :: "byte list list \<Rightarrow> entry list list \<Rightarrow> bool" where
  "pools_of ps ess \<longleftrightarrow> ps = map enc ess \<and> (\<forall>p\<in>set ps. length p \<le> POOL_SIZE) \<and> (\<forall>e\<in>set (concat ess). parsed e \<and> fits e)"

lemma get_pool_cases:
  assumes "get_pool mem ps n = Some (i, qs)"
  shows "i < length qs" "qs = ps \<and> n \<le> POOL_SIZE - length (ps ! i) \<or> qs = ps @ [[]] \<and> i = length ps"
proof -
  have "i < length qs \<and> (qs = ps \<and> n \<le> POOL_SIZE - length (ps ! i) \<or> qs = ps @ [[]] \<and> i = length ps)"
    using assms by (induction mem ps n arbitrary: i qs rule: get_pool.induct) (auto split: if_splits option.splits)
  then show "i < length qs" "qs = ps \<and> n \<le> POOL_SIZE - length (ps ! i) \<or> qs = ps @ [[]] \<and> i = length ps" by blast+
qed

lemma get_pool_total: "\<exists>i qs. get_pool True ps n = Some (i, qs)"
  by (induction ps) (auto split: option.splits)

lemma mset_concat_snoc: "i < length xss \<Longrightarrow> mset (concat (xss[i := xss ! i @ [x]])) = add_mset x (mset (concat xss))"
  by (induction xss arbitrary: i) (simp_all split: nat.split)

lemma insert_entry_adds:
  assumes "pools_of ps ess" "parsed e" "fits e"
  shows "\<exists>qs ess'. insert_entry True e ps = Inr qs \<and> pools_of qs ess' \<and> mset (concat ess') = add_mset e (mset (concat ess))"
proof -
  obtain i qs where g: "get_pool True ps (get_encoded_size e) = Some (i, qs)" using get_pool_total by blast
  from get_pool_cases [OF g] obtain ess1 where ess1: "qs = map enc ess1" "concat ess1 = concat ess" "i < length ess1"
      and len: "length (qs ! i) + get_encoded_size e \<le> POOL_SIZE" and le: "\<forall>p\<in>set qs. length p \<le> POOL_SIZE"
  proof (elim disjE conjE)
    assume a: "i < length qs" "qs = ps" "get_encoded_size e \<le> POOL_SIZE - length (ps ! i)"
    have "length (ps ! i) \<le> POOL_SIZE" using assms(1) a(1,2) by (auto simp: pools_of_def)
    then have "length (ps ! i) + get_encoded_size e \<le> POOL_SIZE" using a(3) by simp
    then show thesis using assms(1) a(1,2) that [of ess] by (simp add: pools_of_def)
  next
    assume a: "i < length qs" "qs = ps @ [[]]" "i = length ps"
    have sz: "get_encoded_size e \<le> POOL_SIZE" using assms(3) by (simp add: fits_def)
    have ps: "ps = map enc ess" "\<forall>p\<in>set ps. length p \<le> POOL_SIZE" using assms(1) by (simp_all add: pools_of_def)
    show thesis by (rule that [of "ess @ [[]]"]) (use a sz ps in \<open>simp_all add: nth_append\<close>)
  qed
  let ?ess = "ess1[i := ess1 ! i @ [e]]" and ?qs = "qs[i := qs ! i @ encode_entry e]"
  have "?qs = map enc ?ess" using ess1(1,3) by (simp add: map_update)
  moreover have "\<forall>p\<in>set ?qs. length p \<le> POOL_SIZE"
    using le len by (auto simp: length_encode_entry [OF assms(2)] dest!: set_update_subset_insert [THEN subsetD])
  moreover have m: "mset (concat ?ess) = add_mset e (mset (concat ess))" using mset_concat_snoc [OF ess1(3), of e] ess1(2) by simp
  moreover have "set (concat ?ess) = insert e (set (concat ess))" using arg_cong [OF m, of set_mset] by simp
  ultimately have "pools_of ?qs ?ess" using assms by (simp add: pools_of_def)
  moreover have "insert_entry True e ps = Inr ?qs" using g len by (simp add: insert_entry_def)
  ultimately show ?thesis using m by blast
qed

lemma add_lines_adds:
  assumes "list_all2 (\<lambda>line e. parse_line (True, True) line = Inr e) lines es" "\<forall>e\<in>set es. fits e" "pools_of (pool_list l) ess"
  shows "\<exists>l' ess'. add_lines lines l = Inr l' \<and> l_offset l' = l_offset l \<and> pools_of (pool_list l') ess' \<and>
    mset (concat ess') = mset es + mset (concat ess)"
  using assms
proof (induction lines es arbitrary: l ess rule: list_all2_induct)
  case (Cons line lines e es)
  obtain qs ess1 where q: "insert_entry True e (pool_list l) = Inr qs" "pools_of qs ess1" "mset (concat ess1) = add_mset e (mset (concat ess))"
    using insert_entry_adds [OF Cons.prems(2) parse_line_parsed [OF Cons.hyps(1)]] Cons.prems(1) by auto
  have step: "add_lines (line # lines) l = add_lines lines (l\<lparr>pool_list := qs\<rparr>)"
    using Cons.hyps(1) q(1) by (simp add: add_line_def and_then_def)
  have "\<exists>l' ess'. add_lines lines (l\<lparr>pool_list := qs\<rparr>) = Inr l' \<and> l_offset l' = l_offset (l\<lparr>pool_list := qs\<rparr>) \<and> pools_of (pool_list l') ess' \<and>
      mset (concat ess') = mset es + mset (concat ess1)"
    by (rule Cons.IH) (use Cons.prems(1) q(2) in simp_all)
  then show ?case unfolding step q(3) by simp
qed auto

lemma length_encode_pos: "0 < length (encode_entry e)"
  by (simp only: encode_entry_def Let_def append_Cons list.size zero_less_Suc)

lemma find_pool_entry:
  assumes "concat ess = xs @ e # ys"
  shows "\<exists>pre r. find_pool (map enc ess) (length (enc xs)) = Some (pre @ encode_entry e @ r, length pre)"
  using assms
proof (induction ess arbitrary: xs)
  case (Cons es ess)
  show ?case
  proof (cases "length es \<le> length xs")
    case True
    then obtain zs where zs: "xs = es @ zs" "concat ess = zs @ e # ys"
      using Cons.prems by (auto simp: append_eq_append_conv2 dest: arg_cong [of _ _ length])
    then show ?thesis using Cons.IH [of zs] by simp
  next
    case False
    then obtain zs where zs: "es = xs @ e # zs"
      using Cons.prems by (auto simp: append_eq_append_conv2 append_eq_Cons_conv)
    then show ?thesis using length_encode_pos [of e] by auto
  qed
qed simp

lemma find_pool_end: "find_pool (map enc ess) (length (enc (concat ess))) = None"
  by (induction ess) simp_all

text \<open>The record and the stream for an entry that was added.\<close>

definition delivered :: "(string \<Rightarrow> ('i \<times> nat) option) \<Rightarrow> bool \<Rightarrow> entry \<Rightarrow> file_source_record \<times> 'i option" where
  "delivered open_file want e =
     (case open_entry open_file want (stored e) of NextRecord rec strm \<Rightarrow> (rec, strm) | _ \<Rightarrow> (entry_record e 0 None, None))"

definition can_open :: "(string \<Rightarrow> ('i \<times> nat) option) \<Rightarrow> entry \<Rightarrow> bool" where
  "can_open open_file e \<longleftrightarrow>
     (e_type e = FILE_SOURCE_FILE \<longrightarrow> open_file (case e_target e of None \<Rightarrow> e_name e | Some t \<Rightarrow> t) \<noteq> None)"

lemma open_entry_delivered:
  assumes "can_open open_file e"
  shows "open_entry open_file want (stored e) = NextRecord (fst (delivered open_file want e)) (snd (delivered open_file want e))"
  using assms by (cases "e_type e") (auto simp: delivered_def open_entry_def can_open_def stored_def split: option.splits)

lemma listing_delivers:
  assumes "pools_of ps ess" "concat ess = xs @ ys" "\<forall>e\<in>set ys. can_open open_file e"
  shows "delivers (\<lambda>l. Some (listing_next open_file True want l)) (\<lambda>l. l) \<lparr>l_offset = length (enc xs), pool_list = ps\<rparr> (map (delivered open_file want) ys) True"
  using assms(2,3)
proof (induction ys arbitrary: xs)
  case Nil
  have "listing_next open_file True want \<lparr>l_offset = length (enc xs), pool_list = ps\<rparr> = (NoRecord, \<lparr>l_offset = length (enc xs), pool_list = ps\<rparr>)"
    using Nil.prems(1) assms(1) find_pool_end [of ess] by (simp add: listing_next_def pools_of_def)
  then show ?case by (auto intro: delivers.delivers_done)
next
  case (Cons e ys)
  obtain pre r where f: "find_pool ps (length (enc xs)) = Some (pre @ encode_entry e @ r, length pre)"
    using find_pool_entry [OF Cons.prems(1)] assms(1) by (auto simp: pools_of_def)
  have "e \<in> set (concat ess)" unfolding Cons.prems(1) by simp
  then have dec: "decode_entry (encode_entry e @ q) = Some (stored e, q)" for q
    using assms(1) by (intro decode_encode_entry) (simp_all add: pools_of_def del: set_concat)
  let ?d = "delivered open_file want e" and ?l = "\<lparr>l_offset = length (enc (xs @ [e])), pool_list = ps\<rparr>"
  have "listing_next open_file True want \<lparr>l_offset = length (enc xs), pool_list = ps\<rparr> = (NextRecord (fst ?d) (snd ?d), ?l)"
    using Cons.prems(2) open_entry_delivered [of open_file e want] by (simp add: listing_next_def f dec Let_def)
  moreover have "delivers (\<lambda>l. Some (listing_next open_file True want l)) (\<lambda>l. l) ?l (map (delivered open_file want) ys) True"
    by (rule Cons.IH) (use Cons.prems in simp_all)
  ultimately have "delivers (\<lambda>l. Some (listing_next open_file True want l)) (\<lambda>l. l) \<lparr>l_offset = length (enc xs), pool_list = ps\<rparr>
      ((fst ?d, snd ?d) # map (delivered open_file want) ys) True" by (intro delivers.delivers_next) simp_all
  then show ?case by simp
qed

text \<open>C33: if every line can be parsed, and every entry is within the limits of the binary form and its file can be opened, then all lines are
  added without running over a buffer, and reading the listing ends and gives exactly the entries that were added, once each, with all
  attributes but those that a link does not keep. The order may be another one, since an entry goes to the first buffer with room. The
  streams of a listing are files of their own, so that dropping one does not change the listing.\<close>

theorem listing_roundtrip:
  assumes "list_all2 (\<lambda>line e. parse_line (True, True) line = Inr e) lines es" "\<forall>e\<in>set es. fits e \<and> can_open open_file e"
  shows "\<exists>l rs. add_lines lines file_source_listing_create = Inr l \<and>
    delivers (\<lambda>l. Some (listing_next open_file True want l)) (\<lambda>l. l) l rs True \<and> mset rs = mset (map (delivered open_file want) es)"
proof -
  have e: "pools_of (pool_list file_source_listing_create) []" by (simp add: file_source_listing_create_def pools_of_def)
  obtain l ess where l: "add_lines lines file_source_listing_create = Inr l" "l_offset l = 0" "pools_of (pool_list l) ess"
    and m: "mset (concat ess) = mset es"
    using add_lines_adds [OF assms(1) _ e] assms(2) by (auto simp: file_source_listing_create_def)
  have "set (concat ess) = set es" using arg_cong [OF m, of set_mset] by simp
  then have "\<forall>e\<in>set (concat ess). can_open open_file e" using assms(2) by simp
  from listing_delivers [OF l(3), of "[]", OF _ this, of want]
  have "delivers (\<lambda>l. Some (listing_next open_file True want l)) (\<lambda>l. l) \<lparr>l_offset = 0, pool_list = pool_list l\<rparr> (map (delivered open_file want) (concat ess)) True"
    by simp
  moreover have "\<lparr>l_offset = 0, pool_list = pool_list l\<rparr> = l" using l(2) by simp
  ultimately have "delivers (\<lambda>l. Some (listing_next open_file True want l)) (\<lambda>l. l) l (map (delivered open_file want) (concat ess)) True" by simp
  moreover have "mset (map (delivered open_file want) (concat ess)) = mset (map (delivered open_file want) es)" using m by (simp del: mset_concat)
  ultimately show ?thesis using l(1) by blast
qed

text \<open>An example: a directory with a quoted name and a device.\<close>

definition demo_lines :: "string list" where
  "demo_lines = [''dir '' @ [quote] @ ''/a b'' @ [quote] @ '' 0755 0 1000'', ''nod dev/null 0666 0 0 c 1 3'', ''file f 0644 1 2 x//y'']"

definition demo_entries :: "entry list" where
  "demo_entries =
     [\<lparr>e_type = FILE_SOURCE_DIR, e_uid = 0, e_gid = 1000, e_mode = 493, e_name = ''a b'', e_target = None, e_devno = 0\<rparr>,
      \<lparr>e_type = FILE_SOURCE_CHAR_DEV, e_uid = 0, e_gid = 0, e_mode = 438, e_name = ''dev/null'', e_target = None, e_devno = 259\<rparr>,
      \<lparr>e_type = FILE_SOURCE_FILE, e_uid = 1, e_gid = 2, e_mode = 420, e_name = ''f'', e_target = Some ''x/y'', e_devno = 0\<rparr>]"

lemmas parse_eval = parse_line_def keyword_table_def read_name_def read_attributes_def read_extra_def read_device_def finish_target_def
  line_number_def skip_space_def isspace_chr_def isdigit_chr_def isspace_def isdigit_def and_then_def orelse_def unescape_def quote_def backslash_def
  fstree_canonicalize_path_def normalize_slashes_def slash_def dot_def is_lnk_def makedev_def u32_def

lemma demo_parsed: "list_all2 (\<lambda>line e. parse_line (True, True) line = Inr e) demo_lines demo_entries"
  by (simp add: demo_lines_def demo_entries_def parse_eval)

theorem listing_roundtrip_witness:
  "\<exists>l rs. add_lines demo_lines file_source_listing_create = Inr l \<and>
    delivers (\<lambda>l. Some (listing_next (\<lambda>p. if p = ''x/y'' then Some (7 :: nat, 12) else None) True True l)) (\<lambda>l. l) l rs True \<and>
    mset rs = mset (map (delivered (\<lambda>p. if p = ''x/y'' then Some (7, 12) else None) True) demo_entries)"
proof (rule listing_roundtrip [OF demo_parsed])
  show "\<forall>e\<in>set demo_entries. fits e \<and> can_open (\<lambda>p. if p = ''x/y'' then Some (7, 12) else None) e"
    by (simp add: demo_entries_def fits_def can_open_def no_nul_def get_encoded_size_def POOL_SIZE_def is_lnk_def is_dev_def id_size_def target_len_def)
qed

end
