(* ===== verification/ListingLine.thy ===== *)
theory ListingLine
  imports Listing TarfsRound
begin

text \<open>
  The text form of an entry of \<open>lib/imgtool/filesource/listing.c\<close>: every entry with a canonical name can be written as a line, with the name in
  quotes, and the parser gives the entry back.
\<close>

section \<open>Writing an entry as a line\<close>

definition digit_chr :: "nat \<Rightarrow> char" where
  "digit_chr d = char_of (48 + d)"

definition number :: "nat \<Rightarrow> nat \<Rightarrow> string" where
  "number base n = map digit_chr (digit_list base n)"

definition escape :: "string \<Rightarrow> string" where
  "escape s = concat (map (\<lambda>c. if c = quote \<or> c = backslash then [backslash, c] else [c]) s)"

definition keyword_text :: "FILE_SOURCE_TYPE \<Rightarrow> string" where
  "keyword_text t =
     (case t of FILE_SOURCE_DIR \<Rightarrow> ''dir'' | FILE_SOURCE_FILE \<Rightarrow> ''file'' | FILE_SOURCE_FIFO \<Rightarrow> ''pipe'' | FILE_SOURCE_SOCKET \<Rightarrow> ''sock''
      | FILE_SOURCE_CHAR_DEV \<Rightarrow> ''nod'' | FILE_SOURCE_BLOCK_DEV \<Rightarrow> ''nod'' | FILE_SOURCE_SYMLINK \<Rightarrow> ''slink'' | FILE_SOURCE_HARD_LINK \<Rightarrow> ''link'')"

definition device_text :: "entry \<Rightarrow> string" where
  "device_text e =
     (if e_type e = FILE_SOURCE_BLOCK_DEV then ''b '' else ''c '') @ number 10 (major (e_devno e)) @ '' '' @ number 10 (minor (e_devno e))"

definition extra_text :: "entry \<Rightarrow> string" where
  "extra_text e =
     (if is_dev (e_type e) then '' '' @ device_text e else case e_target e of None \<Rightarrow> [] | Some t \<Rightarrow> '' '' @ t)"

definition print_line :: "entry \<Rightarrow> string" where
  "print_line e =
     keyword_text (e_type e) @ '' '' @ quote # escape (e_name e) @ quote # '' '' @ number 8 (e_mode e) @ '' '' @
     number 10 (e_uid e) @ '' '' @ number 10 (e_gid e) @ extra_text e"

text \<open>A target is not quoted and has no spaces.\<close>

definition printable :: "entry \<Rightarrow> bool" where
  "printable e \<longleftrightarrow>
     parsed e \<and> fstree_canonicalize_path (e_name e) = e_name e \<and> e_devno e < max64 \<and>
     (case e_target e of
        None \<Rightarrow> True
      | Some t \<Rightarrow> (\<forall>c\<in>set t. \<not> isspace_chr c) \<and> (e_type e \<noteq> FILE_SOURCE_SYMLINK \<longrightarrow> fstree_canonicalize_path t = t))"

section \<open>Numbers\<close>

lemma digit_space_code:
  "isdigit_chr c \<longleftrightarrow> (48 :: nat) \<le> of_char c \<and> of_char c \<le> (57 :: nat)"
  "isspace_chr c \<longleftrightarrow> of_char c = (32 :: nat) \<or> (9 :: nat) \<le> of_char c \<and> of_char c \<le> (13 :: nat)"
  by (simp_all add: isdigit_chr_def isdigit_def isspace_chr_def isspace_def word_le_nat_alt word_unat_eq_iff unat_of_char)

lemma digit_props:
  assumes "d < 10"
  shows "isdigit_chr (digit_chr d)" "\<not> isspace_chr (digit_chr d)" "of_char (digit_chr d) = (48 + d :: nat)"
proof -
  show d: "of_char (digit_chr d) = (48 + d :: nat)" using assms by (simp add: digit_chr_def)
  show "isdigit_chr (digit_chr d)" "\<not> isspace_chr (digit_chr d)" unfolding digit_space_code d using assms by simp_all
qed

definition stops :: "string \<Rightarrow> bool" where
  "stops r \<longleftrightarrow> r = [] \<or> isspace_chr (hd r)"

lemma stops_not_digit: "stops (c # r) \<Longrightarrow> \<not> isdigit_chr c"
  by (auto simp: stops_def isspace_chr_def isdigit_chr_def isspace_def isdigit_def word_le_nat_alt)

lemma number_loop_digits:
  assumes "\<forall>d\<in>set ds. d < base" "1 \<le> base" "base \<le> 10" "digits_val base out ds \<le> limit" "limit \<le> 0xFFFFFFFF" "stops r"
  shows "number_loop limit base out (map digit_chr ds @ r) = Some (digits_val base out ds, r)"
  using assms(1,4)
proof (induction ds arbitrary: out)
  case Nil
  then show ?case using assms(6) by (cases r) (auto dest: stops_not_digit)
next
  case (Cons d ds)
  let ?o = "out * base + d"
  have d: "d < base" "d < 10" using Cons.prems assms(3) by simp_all
  have "?o \<le> limit" using Cons.prems(2) digits_val_ge [of base ?o ds] assms(2) by simp
  then have "out * base \<le> 0xFFFFFFFF - d" using assms(5) by linarith
  then have "out \<le> (0xFFFFFFFF - d) div base" using assms(2) by (simp add: less_eq_div_iff_mult_less_eq)
  then show ?case using Cons.IH [of ?o] Cons.prems d \<open>?o \<le> limit\<close> by (simp add: digit_props Let_def)
qed

lemma line_number_number:
  assumes "2 \<le> base" "base \<le> 10" "n \<le> limit" "limit \<le> 0xFFFFFFFF" "stops r"
  shows "line_number (number base n @ r) limit base = Some (n, r)"
proof -
  have ds: "digits_val base 0 (digit_list base n) = n" "\<forall>d\<in>set (digit_list base n). d < base" "digit_list base n \<noteq> []"
    using digit_list_ok [OF assms(1), of n] by simp_all
  have "number_loop limit base 0 (number base n @ r) = Some (n, r)"
    using number_loop_digits [of "digit_list base n" base 0 limit r] ds assms by (simp add: number_def)
  moreover have "isdigit_chr (hd (number base n @ r))"
    using ds(2,3) assms(2) digit_props(1) by (cases "digit_list base n") (auto simp: number_def)
  ultimately show ?thesis using ds(3) by (simp add: line_number_def number_def)
qed

lemma skip_space_one:
  assumes "s \<noteq> [] \<Longrightarrow> \<not> isspace_chr (hd s)"
  shows "skip_space (CHR '' '' # s) = Some s"
proof -
  have "isspace_chr (CHR '' '')" by (simp add: isspace_chr_def isspace_def)
  moreover have "dropWhile isspace_chr s = s" using assms by (cases s) auto
  ultimately show ?thesis by (simp add: skip_space_def)
qed

lemma skip_space_number:
  assumes "2 \<le> base" "base \<le> 10"
  shows "skip_space (CHR '' '' # number base n @ r) = Some (number base n @ r)"
proof (rule skip_space_one)
  have "\<forall>d\<in>set (digit_list base n). d < 10" "digit_list base n \<noteq> []" using digit_list_ok [OF assms(1), of n] assms(2) by auto
  then show "\<not> isspace_chr (hd (number base n @ r))" by (cases "digit_list base n") (simp_all add: number_def digit_props)
qed

section \<open>Names\<close>

lemma special_chars: "quote \<noteq> backslash" "backslash \<noteq> quote"
  by (simp_all add: quote_def backslash_def)

lemma scan_quoted_plain: "c \<noteq> quote \<Longrightarrow> c \<noteq> backslash \<Longrightarrow> scan_quoted (c # s) = map_option (\<lambda>(n, r). (n + 1, r)) (scan_quoted s)"
  by (cases s) simp_all

lemma scan_quoted_escape: "scan_quoted (escape s @ quote # r) = Some (length (escape s) + 1, r)"
proof (induction s)
  case Nil
  show ?case by (cases r) (simp_all add: escape_def)
next
  case (Cons c s)
  then show ?case by (cases "c = quote \<or> c = backslash") (auto simp: escape_def special_chars scan_quoted_plain)
qed

lemma unescape_loop_plain: "c \<noteq> quote \<Longrightarrow> c \<noteq> backslash \<Longrightarrow> unescape_loop (c # s) = c # unescape_loop s"
  by (cases s) simp_all

lemma unescape_escape: "unescape_loop (escape s) = s"
proof (induction s)
  case (Cons c s)
  then show ?case by (cases "c = quote \<or> c = backslash") (auto simp: escape_def special_chars unescape_loop_plain)
qed (simp add: escape_def)

lemma read_name_quoted:
  "read_name (quote # escape s @ quote # r) = Inr (quote # escape s, r)" "unescape (quote # escape s) = s"
  by (simp_all add: read_name_def scan_quoted_escape unescape_def unescape_escape)

lemma not_space_quote: "\<not> isspace_chr quote"
  by (simp add: isspace_chr_def isspace_def quote_def)

lemma space_char: "isspace_chr (CHR '' '')"
  by (simp add: isspace_chr_def isspace_def)

lemma read_keyword_keyword:
  "read_keyword keyword_table (keyword_text t @ CHR '' '' # quote # r) =
     Some (if t = FILE_SOURCE_BLOCK_DEV then FILE_SOURCE_CHAR_DEV else t, quote # r)"
  by (cases t) (simp_all add: keyword_text_def keyword_table_def space_char not_space_quote)

section \<open>Attributes\<close>

lemma stops_simps [simp]: "stops []" "stops (CHR '' '' # r)"
  by (simp_all add: stops_def space_char)

lemma read_attributes_printed:
  assumes "mode < 4096" "uid < 2 ^ 32" "gid < 2 ^ 32" "stops r"
  shows "read_attributes (CHR '' '' # number 8 mode @ CHR '' '' # number 10 uid @ CHR '' '' # number 10 gid @ r) = Inr ((mode, uid, gid), skip_space r)"
  using assms by (simp add: read_attributes_def and_then_def orelse_def skip_space_number line_number_number)

lemma read_device_printed:
  assumes "is_dev (e_type e)" "e_devno e < max64"
  shows "read_device (device_text e) = Inr (e_type e, e_devno e, None, None)"
proof -
  note mm = makedev_major_minor [OF assms(2)]
  have "\<exists>c. device_text e = c # CHR '' '' # number 10 (major (e_devno e)) @ CHR '' '' # number 10 (minor (e_devno e)) \<and>
      (if e_type e = FILE_SOURCE_BLOCK_DEV then c = CHR ''b'' else c = CHR ''c'')"
    by (simp add: device_text_def)
  then obtain c where c: "device_text e = c # CHR '' '' # number 10 (major (e_devno e)) @ CHR '' '' # number 10 (minor (e_devno e))"
      "if e_type e = FILE_SOURCE_BLOCK_DEV then c = CHR ''b'' else c = CHR ''c''" by blast
  have last: "skip_space (CHR '' '' # number 10 n) = Some (number 10 n)" "line_number (number 10 n) 0xFFFFFFFF 10 = Some (n, [])" if "n < 2 ^ 32" for n
    using skip_space_number [where base = 10 and n = n and r = "[]"] line_number_number [where base = 10 and n = n and limit = "0xFFFFFFFF" and r = "[]"] that
    by simp_all
  show ?thesis using c(2) assms(1) mm
    by (auto simp: read_device_def c(1) and_then_def orelse_def skip_space_number line_number_number last is_dev_def skip_space_def [of "[]"] split: if_splits)
qed

lemma printed_extra:
  assumes "printable e"
  defines "t \<equiv> if e_type e = FILE_SOURCE_BLOCK_DEV then FILE_SOURCE_CHAR_DEV else e_type e"
  shows "read_extra t (skip_space (extra_text e)) = Inr (e_type e, e_devno e, e_target e, None)" "stops (extra_text e)"
proof -
  have p: "parsed e" "e_devno e < max64" "\<And>tg. e_target e = Some tg \<Longrightarrow> \<forall>c\<in>set tg. \<not> isspace_chr c"
    using assms(1) by (auto simp: printable_def)
  show "stops (extra_text e)" by (simp add: extra_text_def split: option.split)
  show "read_extra t (skip_space (extra_text e)) = Inr (e_type e, e_devno e, e_target e, None)"
  proof (cases "is_dev (e_type e)")
    case True
    have "skip_space (CHR '' '' # device_text e) = Some (device_text e)"
      by (rule skip_space_one) (simp add: device_text_def isspace_chr_def isspace_def)
    then show ?thesis using True p(1) read_device_printed [OF True p(2)]
      by (auto simp: read_extra_def extra_text_def t_def is_dev_def parsed_def is_lnk_def orelse_def and_then_def)
  next
    case False
    note shape = p(1)[unfolded parsed_def]
    show ?thesis
    proof (cases "e_target e")
      case None
      then show ?thesis using False shape by (auto simp: read_extra_def extra_text_def t_def is_dev_def makedev_0 skip_space_def)
    next
      case (Some tg)
      have tg: "tg \<noteq> []" "e_type e = FILE_SOURCE_FILE \<or> is_lnk (e_type e)" using Some shape by (auto split: if_splits)
      have ns: "takeWhile (\<lambda>c. \<not> isspace_chr c) tg = tg" using p(3) [OF Some] by (simp add: takeWhile_eq_all_conv)
      have "skip_space (CHR '' '' # tg) = Some tg" using p(3) [OF Some] tg(1) by (intro skip_space_one) simp
      moreover have "skip_space [] = None" by (simp add: skip_space_def)
      ultimately show ?thesis using Some False shape tg
        by (auto simp: ns read_extra_def extra_text_def t_def is_dev_def makedev_0 is_lnk_def Let_def simp del: takeWhile_eq_all_conv)
    qed
  qed
qed

text \<open>C34: an entry with a canonical name, and a target without spaces that is canonical unless it is that of a symbolic link, can be
  written as a line, whatever other characters the name has, and parsing the line gives the entry.\<close>

theorem parse_print_line:
  assumes "printable e"
  shows "parse_line (True, True) (print_line e) = Inr e"
proof -
  have p: "e_mode e < 4096" "e_uid e < 2 ^ 32" "e_gid e < 2 ^ 32" "fstree_canonicalize_path (e_name e) = e_name e"
    using assms by (simp_all add: printable_def parsed_def)
  have "finish_target True (e_type e) (e_target e) = Inr (e_target e)"
    using assms by (auto simp: printable_def finish_target_def parsed_def is_lnk_def split: option.splits if_splits)
  then show ?thesis using read_attributes_printed [OF p(1-3) printed_extra(2) [OF assms]] printed_extra(1) [OF assms] p(4)
    by (simp add: parse_line_def print_line_def read_keyword_keyword read_name_quoted orelse_def [of _ "Some _"] and_then_def)
qed

theorem parse_print_line_witness:
  "parse_line (True, True) (print_line \<lparr>e_type = FILE_SOURCE_SYMLINK, e_uid = 0, e_gid = 70000, e_mode = 511, e_name = ''a b'' @ [quote],
     e_target = Some ''../c'', e_devno = 0\<rparr>) =
   Inr \<lparr>e_type = FILE_SOURCE_SYMLINK, e_uid = 0, e_gid = 70000, e_mode = 511, e_name = ''a b'' @ [quote], e_target = Some ''../c'', e_devno = 0\<rparr>"
  by (rule parse_print_line)
    (simp add: printable_def parsed_def is_lnk_def is_dev_def isspace_chr_def isspace_def quote_def fstree_canonicalize_path_def normalize_slashes_def
      slash_def dot_def)

end
