(* ===== verification/FileSink.thy ===== *)
theory FileSink
  imports FileSource Tree "HOL-Library.Sublist"
begin

text \<open>
  \<open>lib/imgtool/filesink.c\<close>: the table of file systems bound to paths, the choice of a file system for a record, and the loop that adds all records of a
  source to the trees.

  The file systems are numbered, since one may be bound to several paths. A source is given by two operations on its state: \<open>nxt\<close> is
  \<open>get_next_record\<close>, and \<open>rd\<close> is \<open>istream_read\<close> on the stream of the last record; a stream may share the state of its source. Dropping the
  stream is the operation \<open>drp\<close>.

  Paths are shown to be handled by components: the bind point of a path is the one with the longest prefix of components.
\<close>

section \<open>Bind points\<close>

record file_sink_bind =
  b_prefix :: string
  b_target :: nat

definition file_sink_create :: "bool \<Rightarrow> file_sink_bind list option" where
  "file_sink_create mem = (if mem then Some [] else None)"

fun replace_bind :: "file_sink_bind list \<Rightarrow> string \<Rightarrow> nat \<Rightarrow> file_sink_bind list option" where
  "replace_bind [] p target = None"
| "replace_bind (it # binds) p target =
     (if b_prefix it = p then Some (it\<lparr>b_target := target\<rparr> # binds)
      else map_option ((#) it) (replace_bind binds p target))"

definition bind_path :: "bool \<Rightarrow> file_sink_bind list \<Rightarrow> string \<Rightarrow> nat \<Rightarrow> (unit, file_sink_bind list) io" where
  "bind_path mem binds path target =
     (if \<not> mem then (None, binds)
      else let p = fstree_canonicalize_path path in
        (Some (), case replace_bind binds p target of
                    Some bs \<Rightarrow> bs
                  | None \<Rightarrow> \<lparr>b_prefix = p, b_target = target\<rparr> # binds))"

text \<open>The test of the loop of \<open>bind_point_from_path\<close>, and the loop.\<close>

definition under_prefix :: "string \<Rightarrow> string \<Rightarrow> bool" where
  "under_prefix p path \<longleftrightarrow> length p < length path \<and> take (length p) path = p \<and> (p = [] \<or> path ! length p = slash)"

fun bind_loop :: "string \<Rightarrow> file_sink_bind list \<Rightarrow> file_sink_bind option \<Rightarrow> file_sink_bind option" where
  "bind_loop path [] match = match"
| "bind_loop path (it # binds) match =
     (if \<not> under_prefix (b_prefix it) path then bind_loop path binds match
      else if match = None \<or> length (b_prefix (the match)) < length (b_prefix it) then bind_loop path binds (Some it)
      else bind_loop path binds match)"

definition bind_point_from_path :: "file_sink_bind list \<Rightarrow> string \<Rightarrow> file_sink_bind option" where
  "bind_point_from_path binds path = bind_loop path binds None"

definition retarget_path :: "file_sink_bind \<Rightarrow> string \<Rightarrow> string" where
  "retarget_path it path =
     (let plen = length (b_prefix it) in
      if length path \<le> plen \<or> take plen path \<noteq> b_prefix it then path
      else if plen = 0 \<or> path ! plen \<noteq> slash then path
      else drop (plen + 1) path)"

section \<open>Adding the records of a source\<close>

partial_function (option) append_file_data ::
  "'v volume \<Rightarrow> ('s \<Rightarrow> nat \<Rightarrow> (byte list, 's) io) \<Rightarrow> 'v fstree \<Rightarrow> nat \<Rightarrow> 's \<Rightarrow> (unit option \<times> 'v fstree \<times> 's) option" where
  "append_file_data vol rd fs n s =
     (case rd s 256 of
        (None, s) \<Rightarrow> Some (None, fs, s)
      | (Some d, s) \<Rightarrow>
          (if d = [] then Some (Some (), fs, s)
           else case fstree_file_append vol True fs n (Some d) (length d) of
               (None, fs) \<Rightarrow> Some (None, fs, s)
             | (Some _, fs) \<Rightarrow> append_file_data vol rd fs n s))"

definition make_node :: "(nat \<Rightarrow> bool) \<Rightarrow> 'v fstree \<Rightarrow> file_source_record \<Rightarrow> string \<Rightarrow> string option \<Rightarrow> (errno + nat) \<times> 'v fstree" where
  "make_node mem fs rec nm target =
     (case r_type rec of
        FILE_SOURCE_DIR \<Rightarrow> fstree_add_directory mem fs nm
      | FILE_SOURCE_FILE \<Rightarrow> fstree_add_file mem fs nm
      | FILE_SOURCE_FIFO \<Rightarrow> fstree_add_fifo mem fs nm
      | FILE_SOURCE_SOCKET \<Rightarrow> fstree_add_socket mem fs nm
      | FILE_SOURCE_CHAR_DEV \<Rightarrow> fstree_add_character_device mem fs nm (r_devno rec)
      | FILE_SOURCE_BLOCK_DEV \<Rightarrow> fstree_add_block_device mem fs nm (r_devno rec)
      | FILE_SOURCE_SYMLINK \<Rightarrow>
          (if target = None \<or> target = Some [] then (Inl EINVAL, fs) else fstree_add_symlink mem fs nm (the target))
      | FILE_SOURCE_HARD_LINK \<Rightarrow>
          (if target = None \<or> target = Some [] then (Inl EINVAL, fs) else fstree_add_hard_link mem fs nm (the target)))"

definition set_attributes :: "file_source_record \<Rightarrow> tree_node \<Rightarrow> tree_node" where
  "set_attributes rec n =
     n\<lparr>n_uid := r_uid rec, n_gid := r_gid rec, n_mtime := r_mtime rec, n_ctime := r_ctime rec,
       permissions := if r_type rec = FILE_SOURCE_SYMLINK \<or> r_type rec = FILE_SOURCE_HARD_LINK then 511 else r_permissions rec\<rparr>"

definition create_node :: "(nat \<Rightarrow> bool) \<Rightarrow> 'v fstree \<Rightarrow> file_source_record \<Rightarrow> string \<Rightarrow> string option \<Rightarrow> (errno + nat) \<times> 'v fstree" where
  "create_node mem fs rec nm target =
     (case make_node mem fs rec nm target of
        (Inl e, fs) \<Rightarrow> (Inl e, fs)
      | (Inr n, fs) \<Rightarrow> (Inr n, upd_node fs n (set_attributes rec)))"

text \<open>What the loop of \<open>file_sink_add_data\<close> does with one record. \<open>fss\<close> are the trees of the file systems. A file comes with a stream.\<close>

definition sink_record ::
  "(nat \<Rightarrow> 'v volume) \<Rightarrow> (nat \<Rightarrow> bool) \<Rightarrow> ('s \<Rightarrow> nat \<Rightarrow> (byte list, 's) io) \<Rightarrow> file_sink_bind list \<Rightarrow> (nat \<Rightarrow> 'v fstree) \<Rightarrow>
   file_source_record \<Rightarrow> 's \<Rightarrow> (bool \<times> (nat \<Rightarrow> 'v fstree) \<times> 's) option" where
  "sink_record vol mem rd binds fss rec s =
     (case bind_point_from_path binds (full_path rec) of
        None \<Rightarrow> Some (True, fss, s)
      | Some m \<Rightarrow>
          (let nm = retarget_path m (full_path rec);
               target = (if r_type rec = FILE_SOURCE_HARD_LINK then map_option (retarget_path m) (r_link_target rec) else r_link_target rec);
               i = b_target m
           in if nm = [] then Some (True, fss, s)
              else case create_node mem (fss i) rec nm target of
                  (Inl e, fs) \<Rightarrow> Some (False, fss(i := fs), s)
                | (Inr n, fs) \<Rightarrow>
                    (if r_type rec = FILE_SOURCE_FILE
                     then Option.bind (append_file_data (vol i) rd fs n s) (\<lambda>(r, fs, s). Some (r = Some (), fss(i := fs), s))
                     else Some (True, fss(i := fs), s))))"

partial_function (option) file_sink_add_data ::
  "(nat \<Rightarrow> 'v volume) \<Rightarrow> (nat \<Rightarrow> bool) \<Rightarrow> ('s \<Rightarrow> 'i next_record \<times> 's) \<Rightarrow> ('s \<Rightarrow> nat \<Rightarrow> (byte list, 's) io) \<Rightarrow> ('s \<Rightarrow> 's) \<Rightarrow>
   file_sink_bind list \<Rightarrow> (nat \<Rightarrow> 'v fstree) \<Rightarrow> 's \<Rightarrow> (bool \<times> (nat \<Rightarrow> 'v fstree) \<times> 's) option" where
  "file_sink_add_data vol mem nxt rd drp binds fss s =
     (case nxt s of
        (NoRecord, s) \<Rightarrow> Some (True, fss, s)
      | (Failed, s) \<Rightarrow> Some (False, fss, s)
      | (NextRecord rec strm, s) \<Rightarrow>
          Option.bind (sink_record vol mem rd binds fss rec s) (\<lambda>(ok, fss, s).
            let s = object_drop drp strm s in
            if ok then file_sink_add_data vol mem nxt rd drp binds fss s else Some (False, fss, s)))"

section \<open>Paths by components\<close>

definition canon :: "string list \<Rightarrow> bool" where
  "canon xs \<longleftrightarrow> (\<forall>x\<in>set xs. slash \<notin> set x \<and> proper x)"

definition parts :: "string \<Rightarrow> string list" where
  "parts p = filter proper (names p)"

lemma canon_parts: "canon (parts p)"
  using names_props [of _ p] by (auto simp: canon_def parts_def)

lemma canonicalize_parts: "fstree_canonicalize_path p = join (parts p)"
proof -
  have "names (drop_dots (join (names p))) = parts p" unfolding parts_def using names_props by (intro drop_dots_names) blast
  then show ?thesis by (simp add: fstree_canonicalize_path_def normalize_slashes_spec)
qed

lemma names_canon:
  assumes "canon xs"
  shows "names (join xs) = xs"
  using assms by (intro names_join) (auto simp: canon_def proper_def)

lemma join_inj: "canon xs \<Longrightarrow> canon ys \<Longrightarrow> join xs = join ys \<longleftrightarrow> xs = ys"
  using names_canon by metis

lemma join_append: "xs \<noteq> [] \<Longrightarrow> ys \<noteq> [] \<Longrightarrow> join (xs @ ys) = join xs @ slash # join ys"
proof (induction xs rule: join.induct)
  case (2 x)
  then show ?case by (cases ys) simp_all
qed simp_all

lemma join_Nil_iff: "canon xs \<Longrightarrow> join xs = [] \<longleftrightarrow> xs = []"
  using join_inj [of xs "[]"] by (simp add: canon_def)

lemma under_prefix_join:
  assumes "canon ps" "canon xs"
  shows "under_prefix (join ps) (join xs) \<longleftrightarrow> strict_prefix ps xs"
proof
  assume b: "under_prefix (join ps) (join xs)"
  show "strict_prefix ps xs"
  proof (cases "ps = []")
    case True
    then show ?thesis using b by (cases xs) (auto simp: under_prefix_def)
  next
    case False
    then have "join ps \<noteq> []" using join_Nil_iff [OF assms(1)] by simp
    then obtain r where r: "join xs = join ps @ slash # r"
      using b id_take_nth_drop [of "length (join ps)" "join xs"] by (auto simp: under_prefix_def)
    then have "xs = ps @ names r" using names_append_slash [of "join ps" r] names_canon [OF assms(1)] names_canon [OF assms(2)] by simp
    moreover have "xs \<noteq> ps" using r by auto
    ultimately show ?thesis by (auto simp: strict_prefix_def)
  qed
next
  assume "strict_prefix ps xs"
  then obtain z zs where xs: "xs = ps @ z # zs" by (auto elim: strict_prefixE')
  show "under_prefix (join ps) (join xs)"
  proof (cases "ps = []")
    case True
    then show ?thesis using xs join_Nil_iff [OF assms(2)] by (auto simp: under_prefix_def)
  next
    case False
    then show ?thesis using join_append [of ps "z # zs"] xs by (simp add: under_prefix_def)
  qed
qed

lemma retarget_join:
  assumes "canon ps" "strict_prefix ps xs" "b_prefix it = join ps"
  shows "retarget_path it (join xs) = join (drop (length ps) xs)"
proof -
  obtain z zs where xs: "xs = ps @ z # zs" using assms(2) by (auto elim: strict_prefixE')
  show ?thesis
  proof (cases "ps = []")
    case True
    then show ?thesis using assms(3) xs by (simp add: retarget_path_def)
  next
    case False
    then have "join ps \<noteq> []" using join_Nil_iff [OF assms(1)] by simp
    then show ?thesis using join_append [of ps "z # zs"] xs False assms(3) by (simp add: retarget_path_def)
  qed
qed

section \<open>The table of bind points\<close>

text \<open>The table as a function from lists of components to file systems.\<close>

definition table :: "file_sink_bind list \<Rightarrow> string list \<Rightarrow> nat option" where
  "table binds = map_of (map (\<lambda>b. (parts (b_prefix b), b_target b)) binds)"

definition binds_ok :: "file_sink_bind list \<Rightarrow> bool" where
  "binds_ok binds \<longleftrightarrow> (\<forall>b\<in>set binds. \<exists>ps. canon ps \<and> b_prefix b = join ps) \<and> distinct (map b_prefix binds)"

lemma parts_join: "canon ps \<Longrightarrow> parts (join ps) = ps"
  by (simp add: parts_def names_canon filter_id_conv canon_def)

lemma replace_bind_None: "replace_bind binds p t = None \<longleftrightarrow> p \<notin> b_prefix ` set binds"
  by (induction binds) auto

lemma replace_bind_Some:
  assumes "replace_bind binds p t = Some bs" "binds_ok binds" "canon (parts p)" "p = join (parts p)"
  shows "map b_prefix bs = map b_prefix binds" "table bs = (table binds)(parts p \<mapsto> t)"
proof -
  show "map b_prefix bs = map b_prefix binds" using assms(1) by (induction binds arbitrary: bs) (auto split: if_splits)
  show "table bs = (table binds)(parts p \<mapsto> t)"
    using assms(1,2)
  proof (induction binds arbitrary: bs)
    case (Cons it binds)
    have ok: "binds_ok binds" and it: "\<exists>ps. canon ps \<and> b_prefix it = join ps" using Cons.prems(2) by (auto simp: binds_ok_def)
    show ?case
    proof (cases "b_prefix it = p")
      case True
      then show ?thesis using Cons.prems(1) by (auto simp: table_def)
    next
      case False
      then obtain bs' where bs: "bs = it # bs'" "replace_bind binds p t = Some bs'" using Cons.prems(1) by auto
      have "parts (b_prefix it) \<noteq> parts p" using it False assms(4) by (auto simp: parts_join)
      then show ?thesis using Cons.IH [OF bs(2) ok] by (auto simp: bs(1) table_def fun_eq_iff)
    qed
  qed simp
qed

lemma bind_path_ok:
  assumes "binds_ok binds"
  shows "\<exists>bs. bind_path True binds path t = (Some (), bs) \<and> binds_ok bs \<and> table bs = (table binds)(parts path \<mapsto> t)"
proof -
  let ?p = "join (parts path)"
  have c: "canon (parts path)" by (rule canon_parts)
  have pp: "parts ?p = parts path" by (rule parts_join [OF c])
  show ?thesis
  proof (cases "replace_bind binds ?p t")
    case None
    then have "?p \<notin> b_prefix ` set binds" by (simp add: replace_bind_None)
    then show ?thesis using None assms c pp by (auto simp: bind_path_def canonicalize_parts binds_ok_def table_def)
  next
    case (Some bs)
    have r: "map b_prefix bs = map b_prefix binds" "table bs = (table binds)(parts path \<mapsto> t)"
      using replace_bind_Some [OF Some assms] c pp by simp_all
    have "binds_ok bs" using assms r(1) unfolding binds_ok_def by (metis (mono_tags, opaque_lifting) image_iff image_set)
    then show ?thesis using Some r(2) by (auto simp: bind_path_def canonicalize_parts)
  qed
qed

text \<open>The loop finds the longest prefix.\<close>

lemma bind_loop_None:
  "bind_loop path binds match = None \<longleftrightarrow> match = None \<and> (\<forall>b\<in>set binds. \<not> under_prefix (b_prefix b) path)"
  by (induction path binds match rule: bind_loop.induct) auto

lemma bind_loop_longest:
  assumes "bind_loop path binds match = Some b" "match \<noteq> None \<Longrightarrow> under_prefix (b_prefix (the match)) path"
  shows "under_prefix (b_prefix b) path" "b \<in> set binds \<or> match = Some b"
    "\<And>c. c \<in> set binds \<or> match = Some c \<Longrightarrow> under_prefix (b_prefix c) path \<Longrightarrow> length (b_prefix c) \<le> length (b_prefix b)"
proof -
  have "under_prefix (b_prefix b) path \<and> (b \<in> set binds \<or> match = Some b) \<and>
      (\<forall>c. (c \<in> set binds \<or> match = Some c) \<and> under_prefix (b_prefix c) path \<longrightarrow> length (b_prefix c) \<le> length (b_prefix b))"
    using assms
  proof (induction path binds match rule: bind_loop.induct)
    case (2 path it binds match)
    then show ?case by (auto split: if_splits)
  qed auto
  then show "under_prefix (b_prefix b) path" "b \<in> set binds \<or> match = Some b"
    "\<And>c. c \<in> set binds \<or> match = Some c \<Longrightarrow> under_prefix (b_prefix c) path \<Longrightarrow> length (b_prefix c) \<le> length (b_prefix b)" by blast+
qed

text \<open>The table that a sequence of bindings describes: the last binding of a path counts.\<close>

definition bound :: "(string \<times> nat) list \<Rightarrow> string list \<Rightarrow> nat option" where
  "bound ops = map_of (rev (map (\<lambda>(p, t). (parts p, t)) ops))"

definition bind_all :: "(string \<times> nat) list \<Rightarrow> file_sink_bind list" where
  "bind_all ops = foldl (\<lambda>binds (p, t). snd (bind_path True binds p t)) [] ops"

lemma bind_all_ok: "binds_ok (bind_all ops) \<and> table (bind_all ops) = bound ops"
proof (induction ops rule: rev_induct)
  case Nil
  show ?case by (simp add: bind_all_def binds_ok_def table_def bound_def)
next
  case (snoc x ops)
  obtain p t where x: "x = (p, t)" by fastforce
  have e: "bind_all (ops @ [x]) = snd (bind_path True (bind_all ops) p t)" by (simp add: bind_all_def x)
  obtain bs where "bind_path True (bind_all ops) p t = (Some (), bs)" "binds_ok bs" "table bs = (table (bind_all ops))(parts p \<mapsto> t)"
    using bind_path_ok [of "bind_all ops" p t] snoc.IH by blast
  then show ?case using snoc.IH unfolding e by (auto simp: x bound_def fun_eq_iff)
qed

lemma table_bind:
  assumes "binds_ok binds" "b \<in> set binds"
  shows "table binds (parts (b_prefix b)) = Some (b_target b)"
proof -
  have inj: "inj_on parts (set (map b_prefix binds))"
    using assms(1) by (auto simp: binds_ok_def inj_on_def parts_join) (metis parts_join)
  have "distinct (map parts (map b_prefix binds))"
    using assms(1) inj unfolding binds_ok_def by (subst distinct_map) simp
  then have "distinct (map fst (map (\<lambda>b. (parts (b_prefix b), b_target b)) binds))" by (simp add: comp_def)
  then show ?thesis using assms(2) unfolding table_def by (intro map_of_is_SomeI) auto
qed

text \<open>C35: after any sequence of bindings, the file system chosen for a path is the one that was last bound to the longest proper prefix of its
  components to which anything was bound, the path is skipped if there is none, and the rest of the components is the name in that file
  system.\<close>

theorem bind_point_longest:
  assumes "canon xs"
  shows "case bind_point_from_path (bind_all ops) (join xs) of
      None \<Rightarrow> (\<forall>ps. strict_prefix ps xs \<longrightarrow> bound ops ps = None)
    | Some b \<Rightarrow> (\<exists>ps. strict_prefix ps xs \<and> bound ops ps = Some (b_target b) \<and>
        (\<forall>qs. strict_prefix qs xs \<and> length ps < length qs \<longrightarrow> bound ops qs = None) \<and>
        retarget_path b (join xs) = join (drop (length ps) xs))"
proof -
  let ?binds = "bind_all ops"
  have ok: "binds_ok ?binds" and tb: "table ?binds = bound ops" using bind_all_ok by auto
  have from_table: "\<exists>b\<in>set ?binds. canon ps \<and> b_prefix b = join ps" if t: "table ?binds ps = Some t" for ps t
  proof -
    obtain b where b: "b \<in> set ?binds" "ps = parts (b_prefix b)" using t by (auto simp: table_def dest!: map_of_SomeD)
    obtain qs where "canon qs" "b_prefix b = join qs" using ok b(1) by (auto simp: binds_ok_def)
    then show ?thesis using b by (auto simp: parts_join)
  qed
  have bl: "under_prefix (b_prefix b) (join xs) \<longleftrightarrow> strict_prefix (parts (b_prefix b)) xs" if b: "b \<in> set ?binds" for b
    using ok b under_prefix_join [OF _ assms] by (auto simp: binds_ok_def parts_join)
  show ?thesis
  proof (cases "bind_point_from_path ?binds (join xs)")
    case None
    then have no: "\<not> strict_prefix (parts (b_prefix b)) xs" if "b \<in> set ?binds" for b
      using bl that by (simp add: bind_point_from_path_def bind_loop_None)
    have "table ?binds ps = None" if p: "strict_prefix ps xs" for ps
    proof (rule ccontr)
      assume "table ?binds ps \<noteq> None"
      then obtain b where b: "b \<in> set ?binds" "canon ps" "b_prefix b = join ps" using from_table by blast
      then show False using no [OF b(1)] p by (simp add: parts_join)
    qed
    then show ?thesis using None tb by simp
  next
    case (Some b)
    note L = bind_loop_longest [OF Some [unfolded bind_point_from_path_def], simplified]
    let ?ps = "parts (b_prefix b)"
    have b: "b \<in> set ?binds" using L(2) by simp
    have ps: "strict_prefix ?ps xs" "canon ?ps" "b_prefix b = join ?ps"
      using bl [OF b] L(1) ok b by (auto simp: binds_ok_def parts_join)
    have "table ?binds qs = None" if q: "strict_prefix qs xs" "length ?ps < length qs" for qs
    proof (rule ccontr)
      assume "table ?binds qs \<noteq> None"
      then obtain c where c: "c \<in> set ?binds" "canon qs" "b_prefix c = join qs" using from_table by blast
      have "strict_prefix ?ps qs" using q ps(1) by (metis prefix_length_prefix less_imp_le strict_prefix_def order_less_irrefl)
      then have "length (join ?ps) < length (join qs)" using under_prefix_join [OF ps(2) c(2)] by (simp add: under_prefix_def)
      moreover have "length (b_prefix c) \<le> length (b_prefix b)" using L(3) [OF c(1)] under_prefix_join [OF c(2) assms] q(1) c(3) by simp
      ultimately show False using ps(3) c(3) by simp
    qed
    moreover have "retarget_path b (join xs) = join (drop (length ?ps) xs)" by (rule retarget_join [OF ps(2,1,3)])
    moreover have "table ?binds ?ps = Some (b_target b)" by (rule table_bind [OF ok b])
    ultimately show ?thesis using Some ps(1) by (auto simp: tb intro: exI [of _ ?ps])
  qed
qed

theorem bind_point_longest_witness:
  "\<exists>ps. strict_prefix ps [''usr'', ''lib'', ''a''] \<and> bound [(''/'', 0), (''/usr/./lib/'', 1), (''usr'', 2)] ps = Some 1 \<and>
    retarget_path \<lparr>b_prefix = ''usr/lib'', b_target = 1\<rparr> ''usr/lib/a'' = join (drop (length ps) [''usr'', ''lib'', ''a''])"
proof -
  let ?ops = "[(''/'', 0), (''/usr/./lib/'', 1), (''usr'', 2)]" and ?xs = "[''usr'', ''lib'', ''a'']"
  have c: "canon ?xs" by (simp add: canon_def proper_def slash_def dot_def)
  have j: "join ?xs = ''usr/lib/a''" by (simp add: slash_def)
  have "bind_point_from_path (bind_all ?ops) ''usr/lib/a'' = Some \<lparr>b_prefix = ''usr/lib'', b_target = 1\<rparr>"
    by (simp add: bind_all_def bind_path_def bind_point_from_path_def under_prefix_def fstree_canonicalize_path_def normalize_slashes_def slash_def dot_def)
  then show ?thesis using bind_point_longest [OF c, of ?ops] unfolding j by auto
qed

section \<open>The trees\<close>

text \<open>Writing file data changes nothing in the tree but the file data.\<close>

definition same_nodes :: "'v fstree \<Rightarrow> 'v fstree \<Rightarrow> bool" where
  "same_nodes fs fs' \<longleftrightarrow>
     root fs' = root fs \<and> node_count fs' = node_count fs \<and> nodes_by_type fs' = nodes_by_type fs \<and>
     (\<forall>m. \<exists>f. nodes fs' m = (nodes fs m)\<lparr>n_file := f\<rparr>)"

lemma same_file: "\<exists>f. (x :: tree_node) = x\<lparr>n_file := f\<rparr>"
  by (intro exI [of _ "n_file x"]) simp

lemma same_nodes_refl [simp]: "same_nodes fs fs"
  by (simp add: same_nodes_def same_file)

lemma same_nodes_trans:
  assumes "same_nodes a b" "same_nodes b c"
  shows "same_nodes a c"
proof -
  have "\<exists>f. nodes c m = (nodes a m)\<lparr>n_file := f\<rparr>" for m
  proof -
    obtain f g where "nodes b m = (nodes a m)\<lparr>n_file := f\<rparr>" "nodes c m = (nodes b m)\<lparr>n_file := g\<rparr>" using assms unfolding same_nodes_def by meson
    then show ?thesis by (intro exI [of _ g]) simp
  qed
  then show ?thesis using assms by (simp add: same_nodes_def)
qed

lemma same_nodes_upd:
  "same_nodes fs (fs'\<lparr>fs_volume := v\<rparr>) \<longleftrightarrow> same_nodes fs fs'" "same_nodes fs (fs'\<lparr>data_offset := d\<rparr>) \<longleftrightarrow> same_nodes fs fs'"
  by (simp_all add: same_nodes_def)

lemma same_nodes_set_file:
  assumes "same_nodes fs fs'"
  shows "same_nodes fs (set_file fs' n f)"
proof -
  have "\<exists>g. nodes (set_file fs' n f) m = (nodes fs' m)\<lparr>n_file := g\<rparr>" for m
    using same_file [of "nodes fs' m"] by (cases "m = n") (auto simp: set_file_def)
  then have "same_nodes fs' (set_file fs' n f)" by (simp add: same_nodes_def set_file_def)
  with assms show ?thesis by (rule same_nodes_trans)
qed

lemmas same_nodes_simps = same_nodes_upd same_nodes_set_file

lemma same_nodes_shift:
  assumes "same_nodes fs fs'"
  shows "same_nodes fs (shift_starts bs P g ns fs')"
  using assms unfolding shift_starts_def by (induction ns arbitrary: fs') (simp_all add: same_nodes_simps)

lemma same_nodes_move_to_end: "fstree_file_move_to_end vol fs n = (r, fs') \<Longrightarrow> same_nodes fs fs'"
  by (auto simp: fstree_file_move_to_end_def Let_def same_nodes_simps same_nodes_shift split: if_splits prod.splits option.splits)

lemma same_nodes_tail: "append_to_tail vol fs n i t data sz = (r, fs') \<Longrightarrow> same_nodes fs fs'"
  by (auto simp: append_to_tail_def Let_def same_nodes_simps split: if_splits prod.splits option.splits list.splits dest!: same_nodes_move_to_end)

lemma same_nodes_block: "append_block vol fs n data sz = (r, fs') \<Longrightarrow> same_nodes fs fs'"
  by (auto simp: append_block_def same_nodes_simps split: if_splits prod.splits option.splits dest!: same_nodes_move_to_end)

lemma same_nodes_chunk: "append_chunk vol mem fs n i t data d = (r, fs') \<Longrightarrow> same_nodes fs fs'"
  by (auto simp: append_chunk_def same_nodes_simps split: if_splits prod.splits dest: same_nodes_tail same_nodes_block)

lemma same_nodes_loop: "append_loop vol mem fs n i t data sz = (r, fs') \<Longrightarrow> same_nodes fs fs'"
proof (induction vol mem fs n i t data sz arbitrary: r fs' rule: append_loop.induct)
  case (1 vol mem fs n i t data sz)
  let ?d = "if sz < blocksize vol - t then sz else blocksize vol - t"
  show ?case
  proof (cases "sz = 0 \<or> ?d = 0")
    case True
    then show ?thesis using 1(2) by (subst (asm) append_loop.simps) (auto simp: Let_def split: if_splits)
  next
    case False
    obtain q fs1 where c: "append_chunk vol mem fs n i t data ?d = (q, fs1)" by fastforce
    note s = same_nodes_chunk [OF c]
    show ?thesis
    proof (cases q)
      case None
      then show ?thesis using 1(2) False c s by (subst (asm) append_loop.simps) (simp add: Let_def split: if_splits)
    next
      case (Some u)
      let ?fs2 = "set_file fs1 n ((file_of fs1 n)\<lparr>f_size := add64 (f_size (file_of fs1 n)) ?d\<rparr>)"
      have "append_loop vol mem ?fs2 n (i + 1) 0 (map_option (drop ?d) data) (sz - ?d) = (r, fs')"
        using 1(2) False c Some by (subst (asm) append_loop.simps) (simp add: Let_def split: if_splits)
      then have "same_nodes ?fs2 fs'" using 1(1) False c Some by (auto simp: Let_def split: if_splits)
      then show ?thesis using same_nodes_trans [OF same_nodes_set_file [OF s]] by blast
    qed
  qed
qed

lemma same_nodes_append: "fstree_file_append vol mem fs n data sz = (r, fs') \<Longrightarrow> same_nodes fs fs'"
  by (auto simp: fstree_file_append_def dest: same_nodes_loop)

lemma same_nodesD:
  assumes "same_nodes fs fs'"
  shows "n_name (nodes fs' m) = n_name (nodes fs m)" "n_type (nodes fs' m) = n_type (nodes fs m)" "n_parent (nodes fs' m) = n_parent (nodes fs m)"
    "children (nodes fs' m) = children (nodes fs m)" "n_uid (nodes fs' m) = n_uid (nodes fs m)" "n_gid (nodes fs' m) = n_gid (nodes fs m)"
    "n_mtime (nodes fs' m) = n_mtime (nodes fs m)" "n_ctime (nodes fs' m) = n_ctime (nodes fs m)" "permissions (nodes fs' m) = permissions (nodes fs m)"
    "device_number (nodes fs' m) = device_number (nodes fs m)" "link_target (nodes fs' m) = link_target (nodes fs m)"
proof -
  obtain f where f: "nodes fs' m = (nodes fs m)\<lparr>n_file := f\<rparr>" using assms unfolding same_nodes_def by blast
  show "n_name (nodes fs' m) = n_name (nodes fs m)" "n_type (nodes fs' m) = n_type (nodes fs m)" "n_parent (nodes fs' m) = n_parent (nodes fs m)"
    "children (nodes fs' m) = children (nodes fs m)" "n_uid (nodes fs' m) = n_uid (nodes fs m)" "n_gid (nodes fs' m) = n_gid (nodes fs m)"
    "n_mtime (nodes fs' m) = n_mtime (nodes fs m)" "n_ctime (nodes fs' m) = n_ctime (nodes fs m)" "permissions (nodes fs' m) = permissions (nodes fs m)"
    "device_number (nodes fs' m) = device_number (nodes fs m)" "link_target (nodes fs' m) = link_target (nodes fs m)"
    by (simp_all add: f)
qed

lemma same_nodes_wf:
  assumes "same_nodes fs fs'"
  shows "tree_wf fs' = tree_wf fs" "extends fs fs'"
proof -
  have c: "root fs' = root fs" "node_count fs' = node_count fs" "nodes_by_type fs' = nodes_by_type fs" using assms by (simp_all add: same_nodes_def)
  show "tree_wf fs' = tree_wf fs" unfolding tree_wf_def by (simp add: c same_nodesD [OF assms])
  show "extends fs fs'" unfolding extends_def by (simp add: c same_nodesD [OF assms])
qed

section \<open>Adding a record\<close>

definition node_type_of :: "FILE_SOURCE_TYPE \<Rightarrow> node_type" where
  "node_type_of t =
     (case t of FILE_SOURCE_DIR \<Rightarrow> TREE_NODE_DIR | FILE_SOURCE_FILE \<Rightarrow> TREE_NODE_FILE | FILE_SOURCE_FIFO \<Rightarrow> TREE_NODE_FIFO
      | FILE_SOURCE_SOCKET \<Rightarrow> TREE_NODE_SOCKET | FILE_SOURCE_CHAR_DEV \<Rightarrow> TREE_NODE_CHAR_DEV | FILE_SOURCE_BLOCK_DEV \<Rightarrow> TREE_NODE_BLOCK_DEV
      | FILE_SOURCE_SYMLINK \<Rightarrow> TREE_NODE_SYMLINK | FILE_SOURCE_HARD_LINK \<Rightarrow> TREE_NODE_HARD_LINK)"

text \<open>Where a node is in the tree.\<close>

definition placed :: "'v fstree \<Rightarrow> string \<Rightarrow> nat \<Rightarrow> bool" where
  "placed fs nm n \<longleftrightarrow>
     n < node_count fs \<and>
     (\<forall>mem create. \<exists>p<node_count fs. walk_steps mem create fs 0 (names (take (prefix_len nm) nm)) = (Inr p, fs) \<and>
        n_type (nodes fs p) = TREE_NODE_DIR \<and> child_by_name fs p (path_suffix nm) = Some n)"

text \<open>The tree is kept well formed, every node keeps its place, and a node that is returned is new at its place.\<close>

definition node_added :: "'v fstree \<Rightarrow> 'v fstree \<Rightarrow> string \<Rightarrow> node_type \<Rightarrow> errno + nat \<Rightarrow> bool" where
  "node_added fs fs' nm ty r \<longleftrightarrow>
     tree_wf fs' \<and> extends fs fs' \<and> (\<forall>n. r = Inr n \<longrightarrow> placed fs' nm n \<and> n_type (nodes fs' n) = ty)"

lemma mknode_at_added:
  assumes "tree_wf fs" "mknode_at mem fs nm ty extra = (r, fs')"
  shows "node_added fs fs' nm ty r"
  using mknode_at_ok [OF assms] by (simp add: node_added_def placed_def)

lemma walk_same_place:
  assumes "tree_wf fs" "extends fs fs'" "tree_wf fs'" "placed fs nm n" "\<And>m. child_by_name fs' m (path_suffix nm) = child_by_name fs m (path_suffix nm)"
  shows "placed fs' nm n"
proof -
  let ?pre = "names (take (prefix_len nm) nm)"
  have sl: "\<forall>x\<in>set ?pre. slash \<notin> set x" using names_props by blast
  have "\<exists>p<node_count fs'. walk_steps mem create fs' 0 ?pre = (Inr p, fs') \<and> n_type (nodes fs' p) = TREE_NODE_DIR \<and>
      child_by_name fs' p (path_suffix nm) = Some n" for mem create
  proof -
    obtain p where p: "p < node_count fs" "walk_steps mem create fs 0 ?pre = (Inr p, fs)" "n_type (nodes fs p) = TREE_NODE_DIR"
        "child_by_name fs p (path_suffix nm) = Some n" using assms(4) unfolding placed_def by meson
    have "walk_steps mem create fs' 0 ?pre = (Inr p, fs')"
      using walk_steps_again [OF assms(1) tree_wfD(2) [OF assms(1)] sl p(2) assms(2,3)] by simp
    then show ?thesis using p extendsD [OF assms(2)] assms(5) by (intro exI [of _ p]) auto
  qed
  moreover have "n < node_count fs'" using assms(4) extendsD(1) [OF assms(2)] by (simp add: placed_def)
  ultimately show ?thesis by (simp add: placed_def)
qed

lemma upd_node_added:
  assumes "node_added fs fs' nm ty (Inr n)" "\<And>x. n_name (g x) = n_name x" "\<And>x. n_type (g x) = n_type x" "\<And>x. n_parent (g x) = n_parent x"
    "\<And>x. children (g x) = children x"
  shows "node_added fs (upd_node fs' n g) nm ty (Inr n)"
proof -
  have a: "tree_wf fs'" "extends fs fs'" "placed fs' nm n" "n_type (nodes fs' n) = ty" using assms(1) by (simp_all add: node_added_def)
  note U = upd_node_wf [OF a(1), of g n, OF assms(2-)]
  have "placed (upd_node fs' n g) nm n" by (rule walk_same_place [OF a(1) U(2,1) a(3) U(5)])
  then show ?thesis using U(1,4) extends_trans [OF a(2) U(2)] a(4) by (simp add: node_added_def)
qed

lemma mknode_then_added:
  assumes "tree_wf fs" "mknode_then mem fs nm ty extra g = (r, fs')" "\<And>x. n_name (g x) = n_name x" "\<And>x. n_type (g x) = n_type x"
    "\<And>x. n_parent (g x) = n_parent x" "\<And>x. children (g x) = children x"
  shows "node_added fs fs' nm ty r"
proof -
  obtain q fs1 where m: "mknode_at mem fs nm ty extra = (q, fs1)" by fastforce
  note a = mknode_at_added [OF assms(1) m]
  show ?thesis
  proof (cases q)
    case (Inl e)
    then show ?thesis using a assms(2) m by (simp add: mknode_then_def)
  next
    case (Inr n)
    then have "node_added fs (upd_node fs1 n g) nm ty (Inr n)" using a by (intro upd_node_added assms(3-)) simp
    then show ?thesis using assms(2) m Inr by (auto simp: mknode_then_def)
  qed
qed

lemma make_node_added:
  assumes "tree_wf fs" "make_node mem fs rec nm target = (r, fs')"
  shows "node_added fs fs' nm (node_type_of (r_type rec)) r"
proof -
  have e: "node_added fs fs nm ty (Inl e)" for ty e using assms(1) by (simp add: node_added_def)
  note added = mknode_then_added [OF assms(1), of mem nm _ _ "\<lambda>n. n\<lparr>permissions := permissions n AND 438\<rparr>", simplified]
    mknode_then_added [OF assms(1), of mem nm _ _ "\<lambda>n. n\<lparr>permissions := permissions n AND 438, device_number := r_devno rec\<rparr>", simplified]
    mknode_then_added [OF assms(1), of mem nm _ _ "\<lambda>n. n\<lparr>permissions := 511\<rparr>", simplified] mknode_at_added [OF assms(1)]
  note defs = make_node_def fstree_add_directory_def fstree_add_file_def fstree_add_fifo_def fstree_add_socket_def
    fstree_add_character_device_def fstree_add_block_device_def fstree_add_symlink_def fstree_add_hard_link_def
  show ?thesis
    using assms(2) e by (cases "r_type rec") (auto simp: defs node_type_of_def added split: if_splits)
qed

lemma create_node_added:
  assumes "tree_wf fs" "create_node mem fs rec nm target = (r, fs')"
  shows "node_added fs fs' nm (node_type_of (r_type rec)) r" "r = Inr n \<Longrightarrow> nodes fs' n = set_attributes rec (nodes fs' n)"
proof -
  obtain q fs1 where m: "make_node mem fs rec nm target = (q, fs1)" by fastforce
  note a = make_node_added [OF assms(1) m]
  have "node_added fs fs' nm (node_type_of (r_type rec)) r \<and> (\<forall>n. r = Inr n \<longrightarrow> nodes fs' n = set_attributes rec (nodes fs' n))"
  proof (cases q)
    case (Inl e)
    then show ?thesis using a assms(2) m by (auto simp: create_node_def)
  next
    case (Inr n)
    have "node_added fs (upd_node fs1 n (set_attributes rec)) nm (node_type_of (r_type rec)) (Inr n)"
      by (rule upd_node_added) (use a Inr in \<open>simp_all add: set_attributes_def\<close>)
    moreover have "set_attributes rec (set_attributes rec x) = set_attributes rec x" for x by (simp add: set_attributes_def)
    ultimately show ?thesis using assms(2) m Inr by (auto simp: create_node_def upd_node_def)
  qed
  then show "node_added fs fs' nm (node_type_of (r_type rec)) r" "r = Inr n \<Longrightarrow> nodes fs' n = set_attributes rec (nodes fs' n)" by blast+
qed

section \<open>When a record can be added\<close>

text \<open>The path \<open>xs\<close> from the directory \<open>n\<close> leads through directories as far as it exists, and behind it there is nothing of the name
  \<open>nm\<close>, except that a directory may take the place of one that was created implicitly.\<close>

fun free_place :: "'v fstree \<Rightarrow> nat \<Rightarrow> string list \<Rightarrow> string \<Rightarrow> bool \<Rightarrow> bool" where
  "free_place fs n [] nm dir \<longleftrightarrow> n_type (nodes fs n) = TREE_NODE_DIR \<and>
     (case child_by_name fs n nm of
        None \<Rightarrow> True
      | Some k \<Rightarrow> dir \<and> n_type (nodes fs k) = TREE_NODE_DIR \<and> created_implicitly (nodes fs k))"
| "free_place fs n (x # xs) nm dir \<longleftrightarrow> n_type (nodes fs n) = TREE_NODE_DIR \<and>
     (case child_by_name fs n x of None \<Rightarrow> True | Some m \<Rightarrow> free_place fs m xs nm dir)"

definition parents :: "string \<Rightarrow> string list" where
  "parents nm = names (take (prefix_len nm) nm)"

definition dotless :: "string \<Rightarrow> bool" where
  "dotless nm \<longleftrightarrow> [dot] \<notin> set (parents nm) \<and> [dot, dot] \<notin> set (parents nm)"

text \<open>The name is free, and a link has a target.\<close>

definition addable :: "'v fstree \<Rightarrow> file_source_record \<Rightarrow> string \<Rightarrow> string option \<Rightarrow> bool" where
  "addable fs rec nm target \<longleftrightarrow>
     (r_type rec = FILE_SOURCE_SYMLINK \<or> r_type rec = FILE_SOURCE_HARD_LINK \<longrightarrow> target \<noteq> None \<and> target \<noteq> Some []) \<and>
     free_place fs 0 (parents nm) (path_suffix nm) (r_type rec = FILE_SOURCE_DIR)"

lemma fresh_directory:
  assumes "n < node_count fs" "link_node fs n TREE_NODE_DIR x (calloc_node\<lparr>created_implicitly := True\<rparr>) = (m, fs1)"
  shows "free_place fs1 m xs nm dir"
proof -
  have "n_type (nodes fs1 m) = TREE_NODE_DIR" "children (nodes fs1 m) = []"
    using assms by (auto simp: link_node_def upd_node_def Let_def)
  then show ?thesis by (cases xs) (simp_all add: child_by_name_def)
qed

lemma walk_free:
  assumes "tree_wf fs" "n < node_count fs" "\<forall>x\<in>set xs. slash \<notin> set x" "[dot] \<notin> set xs" "[dot, dot] \<notin> set xs"
  shows "(\<forall>p fs'. walk_steps mem True fs n xs = (Inr p, fs') \<longrightarrow> free_place fs' p [] nm dir = free_place fs n xs nm dir) \<and>
    ((\<forall>k. mem k) \<and> free_place fs n xs nm dir \<longrightarrow> (\<exists>p fs'. walk_steps mem True fs n xs = (Inr p, fs')))"
  using assms
proof (induction xs arbitrary: fs n)
  case (Cons x xs)
  show ?case
  proof (cases "n_type (nodes fs n) = TREE_NODE_DIR")
    case False
    then show ?thesis by (simp add: walk_step_def)
  next
    case dir: True
    show ?thesis
    proof (cases "child_by_name fs n x")
      case (Some m)
      have "m < node_count fs" using tree_wfD(8) [OF Cons.prems(1,2)] child_by_name_Some [OF Some] by blast
      then show ?thesis using Cons.IH [of fs m] Cons.prems dir Some by (auto simp: walk_step_def)
    next
      case None
      obtain m fs1 where l: "link_node fs n TREE_NODE_DIR x (calloc_node\<lparr>created_implicitly := True\<rparr>) = (m, fs1)" by fastforce
      have "slash \<notin> set x" using Cons.prems(3) by simp
      note L = link_node_ok [OF Cons.prems(1,2) dir this None _ l]
      have "tree_wf fs1" "m < node_count fs1" using L by simp_all
      then show ?thesis
        using Cons.IH [of fs1 m] Cons.prems(3-5) dir None l fresh_directory [OF Cons.prems(2) l, of xs nm dir]
        by (auto simp: walk_step_def)
    qed
  qed
qed simp

lemma mknode_free:
  assumes "tree_wf fs" "dotless nm" "\<not> ((ty = TREE_NODE_SYMLINK \<or> ty = TREE_NODE_HARD_LINK) \<and> extra = None)"
    and "mknode_at mem fs nm ty extra = (r, fs')"
  shows "(\<exists>n. r = Inr n) \<longrightarrow> free_place fs 0 (parents nm) (path_suffix nm) (ty = TREE_NODE_DIR)"
    and "(\<forall>k. mem k) \<and> free_place fs 0 (parents nm) (path_suffix nm) (ty = TREE_NODE_DIR) \<longrightarrow> (\<exists>n. r = Inr n)"
proof -
  let ?free = "free_place fs 0 (parents nm) (path_suffix nm) (ty = TREE_NODE_DIR)"
  have sl: "\<forall>x\<in>set (parents nm). slash \<notin> set x" using names_props unfolding parents_def by blast
  have no: "[dot] \<notin> set (parents nm)" "[dot, dot] \<notin> set (parents nm)" using assms(2) by (simp_all add: dotless_def)
  note W = walk_free [OF assms(1) tree_wfD(2) [OF assms(1)] sl no, of mem "path_suffix nm" "ty = TREE_NODE_DIR"]
  obtain q fs1 where w: "walk_steps mem True fs 0 (parents nm) = (q, fs1)" by fastforce
  then have nfp: "fstree_node_from_path mem fs None nm (prefix_len nm) True = (q, fs1)"
    using tree_wfD(1) [OF assms(1)] by (simp add: fstree_node_from_path_def walk_steps parents_def)
  have "((\<exists>n. r = Inr n) \<longrightarrow> ?free) \<and> ((\<forall>k. mem k) \<and> ?free \<longrightarrow> (\<exists>n. r = Inr n))"
  proof (cases q)
    case (Inl e)
    then show ?thesis using W w assms(3,4) unfolding mknode_at_def nfp by auto
  next
    case (Inr p)
    then have "free_place fs1 p [] (path_suffix nm) (ty = TREE_NODE_DIR) = ?free" using W w by simp
    then show ?thesis
      using assms(3,4) Inr unfolding mknode_at_def nfp by (auto simp: Let_def split: if_splits option.splits prod.splits)
  qed
  then show "(\<exists>n. r = Inr n) \<longrightarrow> ?free" "(\<forall>k. mem k) \<and> ?free \<longrightarrow> (\<exists>n. r = Inr n)" by blast+
qed

lemma mknode_then_Inr:
  "mknode_then mem fs nm ty extra g = (r, fs') \<Longrightarrow> \<exists>q fs1. mknode_at mem fs nm ty extra = (q, fs1) \<and> ((\<exists>n. r = Inr n) \<longleftrightarrow> (\<exists>n. q = Inr n))"
  by (auto simp: mknode_then_def split: prod.splits sum.splits)

lemmas add_defs = fstree_add_directory_def fstree_add_file_def fstree_add_fifo_def fstree_add_socket_def
  fstree_add_character_device_def fstree_add_block_device_def fstree_add_symlink_def fstree_add_hard_link_def

lemma make_node_at:
  assumes "make_node mem fs rec nm target = (r, fs')"
  shows "(r_type rec = FILE_SOURCE_SYMLINK \<or> r_type rec = FILE_SOURCE_HARD_LINK) \<and> (target = None \<or> target = Some []) \<and> r = Inl EINVAL \<or>
    \<not> ((r_type rec = FILE_SOURCE_SYMLINK \<or> r_type rec = FILE_SOURCE_HARD_LINK) \<and> (target = None \<or> target = Some [])) \<and>
    (\<exists>q fs1. mknode_at mem fs nm (node_type_of (r_type rec))
        (if r_type rec = FILE_SOURCE_SYMLINK \<or> r_type rec = FILE_SOURCE_HARD_LINK then target else None) = (q, fs1) \<and>
       ((\<exists>n. r = Inr n) \<longleftrightarrow> (\<exists>n. q = Inr n)))"
  using assms
  by (cases "r_type rec") (auto simp: make_node_def add_defs node_type_of_def split: if_splits dest!: mknode_then_Inr)

text \<open>A node is made exactly if the record can be added, provided that there is memory.\<close>

lemma make_node_addable:
  assumes "tree_wf fs" "dotless nm" "make_node mem fs rec nm target = (r, fs')"
  shows "(\<exists>n. r = Inr n) \<longrightarrow> addable fs rec nm target" "(\<forall>k. mem k) \<and> addable fs rec nm target \<longrightarrow> (\<exists>n. r = Inr n)"
proof -
  have dir: "node_type_of (r_type rec) = TREE_NODE_DIR \<longleftrightarrow> r_type rec = FILE_SOURCE_DIR"
    "node_type_of (r_type rec) = TREE_NODE_SYMLINK \<longleftrightarrow> r_type rec = FILE_SOURCE_SYMLINK"
    "node_type_of (r_type rec) = TREE_NODE_HARD_LINK \<longleftrightarrow> r_type rec = FILE_SOURCE_HARD_LINK"
    by (cases "r_type rec"; simp add: node_type_of_def)+
  have "((\<exists>n. r = Inr n) \<longrightarrow> addable fs rec nm target) \<and> ((\<forall>k. mem k) \<and> addable fs rec nm target \<longrightarrow> (\<exists>n. r = Inr n))"
    using make_node_at [OF assms(3)]
  proof (elim disjE conjE exE)
    fix q fs1
    assume l: "\<not> ((r_type rec = FILE_SOURCE_SYMLINK \<or> r_type rec = FILE_SOURCE_HARD_LINK) \<and> (target = None \<or> target = Some []))"
      and m: "mknode_at mem fs nm (node_type_of (r_type rec))
        (if r_type rec = FILE_SOURCE_SYMLINK \<or> r_type rec = FILE_SOURCE_HARD_LINK then target else None) = (q, fs1)"
      and r: "(\<exists>n. r = Inr n) = (\<exists>n. q = Inr n)"
    have e: "\<not> ((r_type rec = FILE_SOURCE_SYMLINK \<or> r_type rec = FILE_SOURCE_HARD_LINK) \<and>
        (if r_type rec = FILE_SOURCE_SYMLINK \<or> r_type rec = FILE_SOURCE_HARD_LINK then target else None) = None)" using l by auto
    have "(\<exists>n. q = Inr n) \<longrightarrow> free_place fs 0 (parents nm) (path_suffix nm) (r_type rec = FILE_SOURCE_DIR)"
      "(\<forall>k. mem k) \<and> free_place fs 0 (parents nm) (path_suffix nm) (r_type rec = FILE_SOURCE_DIR) \<longrightarrow> (\<exists>n. q = Inr n)"
      using mknode_free [OF assms(1,2) _ m, unfolded dir, OF e] by blast+
    then show ?thesis unfolding r addable_def using l
      by (cases "r_type rec = FILE_SOURCE_SYMLINK \<or> r_type rec = FILE_SOURCE_HARD_LINK") auto
  qed (auto simp: addable_def)
  then show "(\<exists>n. r = Inr n) \<longrightarrow> addable fs rec nm target" "(\<forall>k. mem k) \<and> addable fs rec nm target \<longrightarrow> (\<exists>n. r = Inr n)" by blast+
qed

text \<open>What the new node holds besides its attributes.\<close>

definition holds_of :: "file_source_record \<Rightarrow> string option \<Rightarrow> tree_node \<Rightarrow> bool" where
  "holds_of rec target x \<longleftrightarrow>
     (r_type rec = FILE_SOURCE_CHAR_DEV \<or> r_type rec = FILE_SOURCE_BLOCK_DEV \<longrightarrow> device_number x = r_devno rec) \<and>
     (r_type rec = FILE_SOURCE_SYMLINK \<longrightarrow> target = Some (link_target x)) \<and>
     (r_type rec = FILE_SOURCE_HARD_LINK \<longrightarrow> link_target x = fstree_canonicalize_path (the target))"

definition no_data :: file_data where
  "no_data = \<lparr>f_size = 0, start_index = 0, sparse = []\<rparr>"

lemma mknode_at_holds:
  assumes "mknode_at mem fs nm ty extra = (Inr n, fs')" "ty \<noteq> TREE_NODE_DIR"
  shows "n_file (nodes fs' n) = no_data" "ty = TREE_NODE_SYMLINK \<Longrightarrow> link_target (nodes fs' n) = the extra"
    "ty = TREE_NODE_HARD_LINK \<Longrightarrow> link_target (nodes fs' n) = fstree_canonicalize_path (the extra)"
  using assms
  by (auto simp: mknode_at_def link_node_def upd_node_def Let_def calloc_node_def no_data_def split: if_splits option.splits prod.splits sum.splits)

lemma mknode_then_holds:
  assumes "mknode_then mem fs nm ty extra g = (Inr n, fs')"
  shows "\<exists>fs1. mknode_at mem fs nm ty extra = (Inr n, fs1) \<and> nodes fs' n = g (nodes fs1 n)"
  using assms by (auto simp: mknode_then_def upd_node_def split: prod.splits sum.splits)

lemma make_node_holds:
  assumes "make_node mem fs rec nm target = (Inr n, fs')"
  shows "holds_of rec target (nodes fs' n)" "r_type rec = FILE_SOURCE_FILE \<Longrightarrow> n_file (nodes fs' n) = no_data"
proof -
  have "holds_of rec target (nodes fs' n) \<and> (r_type rec = FILE_SOURCE_FILE \<longrightarrow> n_file (nodes fs' n) = no_data)"
    using assms
    by (cases "r_type rec") (auto simp: make_node_def add_defs holds_of_def split: if_splits dest!: mknode_then_holds dest: mknode_at_holds)
  then show "holds_of rec target (nodes fs' n)" "r_type rec = FILE_SOURCE_FILE \<Longrightarrow> n_file (nodes fs' n) = no_data" by blast+
qed

text \<open>The attributes are set on the node that was made.\<close>

lemma create_node_split:
  assumes "create_node mem fs rec nm target = (r, fs')"
  shows "\<exists>q fs1. make_node mem fs rec nm target = (q, fs1) \<and> ((\<exists>n. r = Inr n) \<longleftrightarrow> (\<exists>n. q = Inr n)) \<and>
    (\<forall>n. r = Inr n \<longrightarrow> q = Inr n \<and> nodes fs' n = set_attributes rec (nodes fs1 n))"
  using assms by (auto simp: create_node_def upd_node_def split: prod.splits sum.splits)

lemma create_node_addable:
  assumes "tree_wf fs" "dotless nm" "create_node mem fs rec nm target = (r, fs')"
  shows "(\<exists>n. r = Inr n) \<longrightarrow> addable fs rec nm target" "(\<forall>k. mem k) \<and> addable fs rec nm target \<longrightarrow> (\<exists>n. r = Inr n)"
  using create_node_split [OF assms(3)] make_node_addable [OF assms(1,2)] by metis+

lemma create_node_holds:
  assumes "create_node mem fs rec nm target = (Inr n, fs')"
  shows "holds_of rec target (nodes fs' n)" "r_type rec = FILE_SOURCE_FILE \<Longrightarrow> n_file (nodes fs' n) = no_data"
proof -
  obtain fs1 where "make_node mem fs rec nm target = (Inr n, fs1)" "nodes fs' n = set_attributes rec (nodes fs1 n)"
    using create_node_split [OF assms] by auto
  then show "holds_of rec target (nodes fs' n)" "r_type rec = FILE_SOURCE_FILE \<Longrightarrow> n_file (nodes fs' n) = no_data"
    using make_node_holds [of mem fs rec nm target n fs1] by (simp_all add: set_attributes_def holds_of_def)
qed

section \<open>Adding all records\<close>

text \<open>A source that ends: every record and every piece of data brings it closer to its end. \<open>R\<close> relates what is left to what was left before.\<close>

definition finite_source :: "('s \<times> 's) set \<Rightarrow> ('s \<Rightarrow> 'i next_record \<times> 's) \<Rightarrow> ('s \<Rightarrow> nat \<Rightarrow> (byte list, 's) io) \<Rightarrow> ('s \<Rightarrow> 's) \<Rightarrow> bool" where
  "finite_source R nxt rd drp \<longleftrightarrow>
     wf R \<and> trans R \<and>
     (\<forall>s rec strm s'. nxt s = (NextRecord rec strm, s') \<longrightarrow> (s', s) \<in> R) \<and>
     (\<forall>s n d s'. rd s n = (Some d, s') \<and> d \<noteq> [] \<longrightarrow> (s', s) \<in> R) \<and>
     (\<forall>s n x s'. rd s n = (x, s') \<longrightarrow> s' = s \<or> (s', s) \<in> R) \<and>
     (\<forall>s. drp s = s \<or> (drp s, s) \<in> R)"

text \<open>The data of a file: pieces are read from the stream and appended to the file \<open>n\<close> until the stream has ended, or reading or appending has
  failed.\<close>

inductive file_data :: "'v volume \<Rightarrow> ('s \<Rightarrow> nat \<Rightarrow> (byte list, 's) io) \<Rightarrow> nat \<Rightarrow> 'v fstree \<Rightarrow> 's \<Rightarrow> bool \<Rightarrow> 'v fstree \<Rightarrow> 's \<Rightarrow> bool"
  for vol rd n where
  data_end: "rd s 256 = (Some [], s') \<Longrightarrow> file_data vol rd n fs s True fs s'"
| data_read: "rd s 256 = (None, s') \<Longrightarrow> file_data vol rd n fs s False fs s'"
| data_append: "rd s 256 = (Some d, s') \<Longrightarrow> d \<noteq> [] \<Longrightarrow> fstree_file_append vol True fs n (Some d) (length d) = (None, fs') \<Longrightarrow>
    file_data vol rd n fs s False fs' s'"
| data_next: "rd s 256 = (Some d, s1) \<Longrightarrow> d \<noteq> [] \<Longrightarrow> fstree_file_append vol True fs n (Some d) (length d) = (Some (), fs1) \<Longrightarrow>
    file_data vol rd n fs1 s1 ok fs' s' \<Longrightarrow> file_data vol rd n fs s ok fs' s'"

lemma append_file_data_ends:
  assumes "finite_source R nxt rd drp"
  shows "\<exists>r fs' s'. append_file_data vol rd fs n s = Some (r, fs', s') \<and> same_nodes fs fs' \<and> (s' = s \<or> (s', s) \<in> R) \<and>
    file_data vol rd n fs s (r = Some ()) fs' s'"
proof -
  have R: "wf R" "trans R" "\<And>s n d s'. rd s n = (Some d, s') \<Longrightarrow> d \<noteq> [] \<Longrightarrow> (s', s) \<in> R" "\<And>s n x s'. rd s n = (x, s') \<Longrightarrow> s' = s \<or> (s', s) \<in> R"
    using assms unfolding finite_source_def by blast+
  show ?thesis
    using R(1)
  proof (induction s arbitrary: fs rule: wf_induct_rule)
    case (less s)
    obtain d s1 where d: "rd s 256 = (d, s1)" by fastforce
    show ?case
    proof (cases "d = None \<or> d = Some []")
      case True
      then show ?thesis using d R(4) [OF d] data_end [of rd s s1] data_read [of rd s s1] by (subst append_file_data.simps) auto
    next
      case False
      then obtain x where x: "d = Some x" "x \<noteq> []" by auto
      have s1: "(s1, s) \<in> R" using R(3) [of s 256 x s1] d x by simp
      obtain q fs1 where q: "fstree_file_append vol True fs n (Some x) (length x) = (q, fs1)" by fastforce
      note sn = same_nodes_append [OF q]
      show ?thesis
      proof (cases q)
        case None
        then show ?thesis using d x q sn s1 data_append [of rd s x s1 vol fs n fs1] by (subst append_file_data.simps) auto
      next
        case (Some u)
        then have eq: "append_file_data vol rd fs n s = append_file_data vol rd fs1 n s1" using d x q by (subst append_file_data.simps) simp
        obtain r fs' s' where i: "append_file_data vol rd fs1 n s1 = Some (r, fs', s')" "same_nodes fs1 fs'" "s' = s1 \<or> (s', s1) \<in> R"
            "file_data vol rd n fs1 s1 (r = Some ()) fs' s'"
          using less.IH [OF s1] by blast
        have "file_data vol rd n fs s (r = Some ()) fs' s'" by (rule data_next [of rd, OF _ x(2) _ i(4)]) (use d x q Some in simp_all)
        then show ?thesis unfolding eq using i same_nodes_trans [OF sn] s1 transD [OF R(2)] by blast
      qed
    qed
  qed
qed

text \<open>What a record that was added looks like in the tree of its file system.\<close>

definition recorded :: "'v fstree \<Rightarrow> file_source_record \<Rightarrow> string \<Rightarrow> string option \<Rightarrow> bool" where
  "recorded fs rec nm target \<longleftrightarrow>
     (\<exists>n. placed fs nm n \<and> n_type (nodes fs n) = node_type_of (r_type rec) \<and> n_uid (nodes fs n) = r_uid rec \<and> n_gid (nodes fs n) = r_gid rec \<and>
        n_mtime (nodes fs n) = r_mtime rec \<and> n_ctime (nodes fs n) = r_ctime rec \<and>
        permissions (nodes fs n) = (if r_type rec = FILE_SOURCE_SYMLINK \<or> r_type rec = FILE_SOURCE_HARD_LINK then 511 else r_permissions rec) \<and>
        holds_of rec target (nodes fs n))"

lemma same_nodes_added:
  assumes "node_added fs fs1 nm ty (Inr n)" "same_nodes fs1 fs2"
  shows "node_added fs fs2 nm ty (Inr n)"
proof -
  have a: "tree_wf fs1" "extends fs fs1" "placed fs1 nm n" "n_type (nodes fs1 n) = ty" using assms(1) by (simp_all add: node_added_def)
  note w = same_nodes_wf [OF assms(2)] same_nodesD [OF assms(2)]
  have "placed fs2 nm n" by (rule walk_same_place [OF a(1) w(2) _ a(3)]) (simp_all add: w(1) a(1) child_by_name_def w)
  then show ?thesis using a w extends_trans [OF a(2) w(2)] by (simp add: node_added_def)
qed

lemma recorded_node:
  assumes "tree_wf fs" "create_node mem fs rec nm target = (Inr n, fs1)" "same_nodes fs1 fs2"
  shows "recorded fs2 rec nm target"
proof -
  note c = create_node_added [OF assms(1,2)] create_node_holds(1) [OF assms(2)]
  have "placed fs2 nm n" "n_type (nodes fs2 n) = node_type_of (r_type rec)" using same_nodes_added [OF c(1) assms(3)] by (simp_all add: node_added_def)
  moreover have "n_uid (nodes fs1 n) = r_uid rec" "n_gid (nodes fs1 n) = r_gid rec" "n_mtime (nodes fs1 n) = r_mtime rec" "n_ctime (nodes fs1 n) = r_ctime rec"
      "permissions (nodes fs1 n) = (if r_type rec = FILE_SOURCE_SYMLINK \<or> r_type rec = FILE_SOURCE_HARD_LINK then 511 else r_permissions rec)"
    by (subst c(2) [OF refl], simp add: set_attributes_def)+
  moreover have "holds_of rec target (nodes fs2 n)" using c(3) by (simp add: holds_of_def same_nodesD [OF assms(3)])
  ultimately show ?thesis unfolding recorded_def by (intro exI [of _ n]) (simp add: same_nodesD [OF assms(3)])
qed

text \<open>With a file comes its data, which goes to the new and empty file at the place of its name; other records do not touch the stream.\<close>

definition data_step ::
  "'v volume \<Rightarrow> ('s \<Rightarrow> nat \<Rightarrow> (byte list, 's) io) \<Rightarrow> file_source_record \<Rightarrow> string \<Rightarrow> 's \<Rightarrow> bool \<Rightarrow> 'v fstree \<Rightarrow> 's \<Rightarrow> bool" where
  "data_step vol rd rec nm s ok fs' s' \<longleftrightarrow>
     (if r_type rec = FILE_SOURCE_FILE
      then \<exists>fs1 n. placed fs1 nm n \<and> n_file (nodes fs1 n) = no_data \<and> file_data vol rd n fs1 s ok fs' s'
      else ok \<and> s' = s)"

definition link_of :: "file_sink_bind \<Rightarrow> file_source_record \<Rightarrow> string option" where
  "link_of m rec =
     (if r_type rec = FILE_SOURCE_HARD_LINK then map_option (retarget_path m) (r_link_target rec) else r_link_target rec)"

text \<open>The record is skipped if it has no bind point or is the bind point itself. Otherwise it is added to the file system of its bind point. That
  fails only for lack of memory, if the name is taken or leads through something that is no directory, if a link has no target, or if the data of a
  file cannot be read or written.\<close>

definition sink_step ::
  "(nat \<Rightarrow> 'v volume) \<Rightarrow> (nat \<Rightarrow> bool) \<Rightarrow> ('s \<Rightarrow> nat \<Rightarrow> (byte list, 's) io) \<Rightarrow> file_sink_bind list \<Rightarrow> file_source_record \<Rightarrow>
   (nat \<Rightarrow> 'v fstree) \<Rightarrow> 's \<Rightarrow> bool \<Rightarrow> (nat \<Rightarrow> 'v fstree) \<Rightarrow> 's \<Rightarrow> bool" where
  "sink_step vol mem rd binds rec fss s ok fss' s' \<longleftrightarrow>
     (\<forall>i. tree_wf (fss' i) \<and> extends (fss i) (fss' i)) \<and>
     (case bind_point_from_path binds (full_path rec) of
        None \<Rightarrow> ok \<and> fss' = fss \<and> s' = s
      | Some m \<Rightarrow>
          (let i = b_target m; nm = retarget_path m (full_path rec); target = link_of m rec in
           (\<forall>j. j \<noteq> i \<longrightarrow> fss' j = fss j) \<and>
           (if nm = [] then ok \<and> fss' = fss \<and> s' = s
            else if ok then recorded (fss' i) rec nm target \<and> (dotless nm \<longrightarrow> addable (fss i) rec nm target) \<and>
              data_step (vol i) rd rec nm s True (fss' i) s'
            else (\<exists>k. \<not> mem k) \<or> \<not> dotless nm \<or> \<not> addable (fss i) rec nm target \<or> data_step (vol i) rd rec nm s False (fss' i) s')))"

lemma sink_step_added:
  assumes wf: "\<forall>i. tree_wf (fss i)" and m: "bind_point_from_path binds (full_path rec) = Some m" and nm: "retarget_path m (full_path rec) \<noteq> []"
    and c: "create_node mem (fss (b_target m)) rec (retarget_path m (full_path rec)) (link_of m rec) = (Inr n, fs1)"
    and s: "same_nodes fs1 fs2" and d: "data_step (vol (b_target m)) rd rec (retarget_path m (full_path rec)) s ok fs2 s'"
  shows "sink_step vol mem rd binds rec fss s ok (fss(b_target m := fs2)) s'"
proof -
  have w: "tree_wf (fss (b_target m))" using wf by simp
  note a = create_node_added [OF w c] recorded_node [OF w c s]
  have "tree_wf fs2" "extends (fss (b_target m)) fs2"
    using a(1) same_nodes_wf [OF s] extends_trans [of "fss (b_target m)" fs1 fs2] by (simp_all add: node_added_def)
  moreover have "addable (fss (b_target m)) rec (retarget_path m (full_path rec)) (link_of m rec)" if "dotless (retarget_path m (full_path rec))"
    using create_node_addable(1) [OF w that c] by blast
  ultimately show ?thesis using m wf nm a(3) d by (cases ok) (auto simp: sink_step_def Let_def)
qed

lemma sink_step_refused:
  assumes wf: "\<forall>i. tree_wf (fss i)" and m: "bind_point_from_path binds (full_path rec) = Some m" and nm: "retarget_path m (full_path rec) \<noteq> []"
    and c: "create_node mem (fss (b_target m)) rec (retarget_path m (full_path rec)) (link_of m rec) = (Inl e, fs1)"
  shows "sink_step vol mem rd binds rec fss s False (fss(b_target m := fs1)) s'"
proof -
  have w: "tree_wf (fss (b_target m))" using wf by simp
  have "tree_wf fs1" "extends (fss (b_target m)) fs1" using create_node_added(1) [OF w c] by (simp_all add: node_added_def)
  moreover have "(\<exists>k. \<not> mem k) \<or> \<not> addable (fss (b_target m)) rec (retarget_path m (full_path rec)) (link_of m rec)"
    if "dotless (retarget_path m (full_path rec))"
    using create_node_addable(2) [OF w that c] by blast
  ultimately show ?thesis using m wf nm by (auto simp: sink_step_def Let_def)
qed

lemma sink_record_ok:
  assumes "finite_source R nxt rd drp" "\<forall>i. tree_wf (fss i)"
  shows "\<exists>ok fss' s'. sink_record vol mem rd binds fss rec s = Some (ok, fss', s') \<and> sink_step vol mem rd binds rec fss s ok fss' s' \<and>
    (s' = s \<or> (s', s) \<in> R)"
proof (cases "bind_point_from_path binds (full_path rec)")
  case None
  then have "sink_step vol mem rd binds rec fss s True fss s" using assms(2) by (simp add: sink_step_def)
  then show ?thesis using None by (auto simp: sink_record_def)
next
  case (Some m)
  let ?nm = "retarget_path m (full_path rec)" and ?i = "b_target m"
  obtain r fs1 where c: "create_node mem (fss ?i) rec ?nm (link_of m rec) = (r, fs1)" by fastforce
  have rec_def: "sink_record vol mem rd binds fss rec s =
      (if ?nm = [] then Some (True, fss, s)
       else case create_node mem (fss ?i) rec ?nm (link_of m rec) of
           (Inl e, fs) \<Rightarrow> Some (False, fss(?i := fs), s)
         | (Inr n, fs) \<Rightarrow>
             (if r_type rec = FILE_SOURCE_FILE
              then Option.bind (append_file_data (vol ?i) rd fs n s) (\<lambda>(r, fs, s). Some (r = Some (), fss(?i := fs), s))
              else Some (True, fss(?i := fs), s)))"
    unfolding sink_record_def link_of_def Some by (simp add: Let_def)
  consider (skip) "?nm = []" | (fail) e where "?nm \<noteq> []" "r = Inl e" | (node) n where "?nm \<noteq> []" "r = Inr n" by (cases r) auto
  then show ?thesis
  proof cases
    case skip
    then have "sink_step vol mem rd binds rec fss s True fss s" using Some assms(2) by (simp add: sink_step_def)
    then show ?thesis using Some skip by (auto simp: rec_def)
  next
    case fail
    have "sink_step vol mem rd binds rec fss s False (fss(?i := fs1)) s" by (rule sink_step_refused [OF assms(2) Some fail(1) c [unfolded fail(2)]])
    then show ?thesis using Some c fail by (auto simp: rec_def Let_def)
  next
    case node
    note step = sink_step_added [OF assms(2) Some node(1) c [unfolded node(2)]]
    have w: "tree_wf (fss ?i)" using assms(2) by simp
    obtain q fs2 s' where d: "append_file_data (vol ?i) rd fs1 n s = Some (q, fs2, s')" "same_nodes fs1 fs2" "s' = s \<or> (s', s) \<in> R"
        "file_data (vol ?i) rd n fs1 s (q = Some ()) fs2 s'"
      using append_file_data_ends [OF assms(1)] by blast
    show ?thesis
    proof (cases "r_type rec = FILE_SOURCE_FILE")
      case True
      have "placed fs1 ?nm n" using create_node_added(1) [OF w c] node(2) by (simp add: node_added_def)
      moreover have "n_file (nodes fs1 n) = no_data" using create_node_holds(2) [OF c [unfolded node(2)] True] .
      ultimately have "data_step (vol ?i) rd rec ?nm s (q = Some ()) fs2 s'" using True d(4) by (auto simp: data_step_def)
      from step [of fs2 vol rd s "q = Some ()" s', OF d(2) this] show ?thesis using Some c node d True by (auto simp: rec_def Let_def)
    next
      case False
      then have "data_step (vol ?i) rd rec ?nm s True fs1 s" by (simp add: data_step_def)
      from step [of fs1 vol rd s True s, OF same_nodes_refl this] show ?thesis using Some c node False by (auto simp: rec_def Let_def)
    qed
  qed
qed

text \<open>The loop as a sequence of such steps over the records that the source delivers.\<close>

inductive sunk ::
  "(nat \<Rightarrow> 'v volume) \<Rightarrow> (nat \<Rightarrow> bool) \<Rightarrow> ('s \<Rightarrow> 'i next_record \<times> 's) \<Rightarrow> ('s \<Rightarrow> nat \<Rightarrow> (byte list, 's) io) \<Rightarrow> ('s \<Rightarrow> 's) \<Rightarrow> file_sink_bind list \<Rightarrow>
   's \<Rightarrow> (nat \<Rightarrow> 'v fstree) \<Rightarrow> bool \<Rightarrow> (nat \<Rightarrow> 'v fstree) \<Rightarrow> bool" for vol mem nxt rd drp binds where
  sunk_end: "nxt s = (NoRecord, s') \<Longrightarrow> sunk vol mem nxt rd drp binds s fss True fss"
| sunk_source: "nxt s = (Failed, s') \<Longrightarrow> sunk vol mem nxt rd drp binds s fss False fss"
| sunk_fail: "nxt s = (NextRecord rec strm, s1) \<Longrightarrow> sink_step vol mem rd binds rec fss s1 False fss' s2 \<Longrightarrow>
    sunk vol mem nxt rd drp binds s fss False fss'"
| sunk_next: "nxt s = (NextRecord rec strm, s1) \<Longrightarrow> sink_step vol mem rd binds rec fss s1 True fss1 s2 \<Longrightarrow>
    sunk vol mem nxt rd drp binds (object_drop drp strm s2) fss1 ok fss' \<Longrightarrow> sunk vol mem nxt rd drp binds s fss ok fss'"

inductive_cases sunk_cases: "sunk vol mem nxt rd drp binds s fss ok fss'"

lemma sunk_keeps:
  "sunk vol mem nxt rd drp binds s fss ok fss' \<Longrightarrow> \<forall>i. tree_wf (fss i) \<Longrightarrow> \<forall>i. tree_wf (fss' i) \<and> extends (fss i) (fss' i)"
proof (induction rule: sunk.induct)
  case (sunk_next s rec strm s1 fss fss1 s2 ok fss')
  then have "\<forall>i. tree_wf (fss1 i) \<and> extends (fss i) (fss1 i)" by (simp add: sink_step_def)
  then show ?case using sunk_next.IH extends_trans by blast
qed (auto simp: sink_step_def)

lemma add_data_steps:
  assumes "finite_source R nxt rd drp" "\<forall>i. tree_wf (fss i)"
  shows "\<exists>ok fss' s'. file_sink_add_data vol mem nxt rd drp binds fss s = Some (ok, fss', s') \<and> sunk vol mem nxt rd drp binds s fss ok fss'"
proof -
  have R: "wf R" "trans R" "\<And>s rec strm s'. nxt s = (NextRecord rec strm, s') \<Longrightarrow> (s', s) \<in> R" "\<And>s. drp s = s \<or> (drp s, s) \<in> R"
    using assms(1) unfolding finite_source_def by blast+
  show ?thesis
    using R(1) assms(2)
  proof (induction s arbitrary: fss rule: wf_induct_rule)
    case (less s)
    obtain x s1 where x: "nxt s = (x, s1)" by fastforce
    show ?case
    proof (cases x)
      case (NextRecord rec strm)
      obtain ok fss1 s2 where r: "sink_record vol mem rd binds fss rec s1 = Some (ok, fss1, s2)" "sink_step vol mem rd binds rec fss s1 ok fss1 s2"
          "s2 = s1 \<or> (s2, s1) \<in> R"
        using sink_record_ok [OF assms(1) less.prems] by blast
      let ?s3 = "object_drop drp strm s2"
      have "(s1, s) \<in> R" using R(3) x NextRecord by blast
      then have "(?s3, s) \<in> R" using r(3) R(4) [of s2] transD [OF R(2)] unfolding object_drop_def by (smt (verit))
      note IH = less.IH [OF this, of fss1]
      show ?thesis
      proof (cases ok)
        case True
        then have "\<forall>i. tree_wf (fss1 i)" using r(2) by (simp add: sink_step_def)
        then obtain ok' fss' s' where a: "file_sink_add_data vol mem nxt rd drp binds fss1 ?s3 = Some (ok', fss', s')"
            "sunk vol mem nxt rd drp binds ?s3 fss1 ok' fss'"
          using IH by blast
        have "sunk vol mem nxt rd drp binds s fss ok' fss'" by (rule sunk_next [of nxt, OF x [unfolded NextRecord] _ a(2)]) (use r(2) True in simp)
        then show ?thesis using x NextRecord r(1) True a(1) by (subst file_sink_add_data.simps) (auto simp: Let_def)
      next
        case False
        then have "sunk vol mem nxt rd drp binds s fss False fss1" using sunk_fail [of nxt, OF x [unfolded NextRecord]] r(2) by simp
        then show ?thesis using x NextRecord r(1) False by (subst file_sink_add_data.simps) (auto simp: Let_def)
      qed
    qed (use x in \<open>subst file_sink_add_data.simps; auto intro: sunk_end sunk_source\<close>)+
  qed
qed

text \<open>C36: for a source that ends, \<open>file_sink_add_data\<close> returns. Record by record, and up to the first failure, it has added each record to the
  tree of the file system at its bind point only, at the place of its name, with its type, owner, times, permissions, link target and device
  number, and has appended the data of the stream of a file to the new file; records without a bind point are skipped. It fails at a record
  only if the source fails, memory runs out, the name is taken or leads through something that is no directory (or through \<open>.\<close> or \<open>..\<close>), a link has no
  target, or the data cannot be read or appended. All trees stay well formed, and nothing that was in them has moved.\<close>

theorem file_sink_adds:
  assumes "finite_source R nxt rd drp" "\<forall>i. tree_wf (fss i)"
  shows "\<exists>ok fss' s'. file_sink_add_data vol mem nxt rd drp binds fss s = Some (ok, fss', s') \<and> sunk vol mem nxt rd drp binds s fss ok fss' \<and>
    (\<forall>i. tree_wf (fss' i) \<and> extends (fss i) (fss' i))"
proof -
  obtain ok fss' s' where a: "file_sink_add_data vol mem nxt rd drp binds fss s = Some (ok, fss', s')" "sunk vol mem nxt rd drp binds s fss ok fss'"
    using add_data_steps [OF assms] by blast
  show ?thesis using a sunk_keeps [OF a(2) assms(2)] by blast
qed

text \<open>An example: a list of records, without streams.\<close>

fun list_next :: "file_source_record list \<Rightarrow> unit next_record \<times> file_source_record list" where
  "list_next [] = (NoRecord, [])"
| "list_next (r # rs) = (NextRecord r None, rs)"

fun demo_read :: "file_source_record list \<Rightarrow> nat \<Rightarrow> (byte list, file_source_record list) io" where
  "demo_read rs n = (Some [], rs)"

theorem file_sink_adds_witness:
  "\<forall>vol. \<exists>fss' s' n. file_sink_add_data (\<lambda>_. vol) (\<lambda>_. True) list_next demo_read (\<lambda>rs. rs) (bind_all [(''/'', 0)]) (\<lambda>_. fstree_create ())
      [demo_record ''a''] = Some (True, fss', s') \<and>
    child_by_name (fss' 0) 0 ''a'' = Some n \<and> n_type (nodes (fss' 0) n) = TREE_NODE_DIR \<and> permissions (nodes (fss' 0) n) = 493 \<and> fss' 1 = fstree_create ()"
proof
  fix vol :: "unit volume"
  let ?fss = "\<lambda>_ :: nat. fstree_create ()" and ?rec = "demo_record ''a''"
  have m: "bind_point_from_path (bind_all [(''/'', 0)]) (full_path ?rec) = Some \<lparr>b_prefix = [], b_target = 0\<rparr>"
    by (simp add: bind_all_def bind_path_def bind_point_from_path_def under_prefix_def fstree_canonicalize_path_def normalize_slashes_def
        slash_def dot_def demo_record_def)
  have nm: "retarget_path \<lparr>b_prefix = [], b_target = 0\<rparr> (full_path ?rec) = ''a''" by (simp add: retarget_path_def demo_record_def)
  have t: "r_type ?rec = FILE_SOURCE_DIR" by (simp add: demo_record_def)
  have p: "parents ''a'' = []" "path_suffix ''a'' = ''a''" by (simp_all add: parents_def prefix_len_def path_suffix_def slash_def)
  have free: "dotless ''a''" "addable (fstree_create ()) ?rec ''a'' t" for t
    by (simp_all add: dotless_def addable_def p demo_record_def fstree_create_def child_by_name_def calloc_node_def)
  have "finite_source (measure length) list_next demo_read (\<lambda>rs. rs)"
    by (auto simp: finite_source_def trans_def elim!: list_next.elims)
  from file_sink_adds [OF this, of ?fss "\<lambda>_. vol" "\<lambda>_. True" "bind_all [(''/'', 0)]" "[?rec]"] obtain ok fss' s' where
    a: "file_sink_add_data (\<lambda>_. vol) (\<lambda>_. True) list_next demo_read (\<lambda>rs. rs) (bind_all [(''/'', 0)]) ?fss [?rec] = Some (ok, fss', s')"
      "sunk (\<lambda>_. vol) (\<lambda>_. True) list_next demo_read (\<lambda>rs. rs) (bind_all [(''/'', 0)]) [?rec] ?fss ok fss'"
    by (auto simp: fstree_create_wf)
  have no: "\<not> sink_step (\<lambda>_. vol) (\<lambda>_. True) demo_read (bind_all [(''/'', 0)]) ?rec ?fss [] False f s" for f s
    using free by (auto simp: sink_step_def m nm Let_def data_step_def t)
  have "ok \<and> sink_step (\<lambda>_. vol) (\<lambda>_. True) demo_read (bind_all [(''/'', 0)]) ?rec ?fss [] True fss' []"
    using a(2)
  proof (cases rule: sunk.cases)
    case (sunk_next rec strm s1 fss1 s2)
    then have "s1 = []" "rec = ?rec" "strm = None" by simp_all
    note e = this
    have "s2 = []" using sunk_next(2) unfolding e by (simp add: sink_step_def m nm Let_def data_step_def t)
    then have "sunk (\<lambda>_. vol) (\<lambda>_. True) list_next demo_read (\<lambda>rs. rs) (bind_all [(''/'', 0)]) [] fss1 ok fss'" using sunk_next(3) by simp
    then have "ok" "fss' = fss1" by (auto elim: sunk_cases)
    then show ?thesis using sunk_next(2) \<open>s2 = []\<close> unfolding e by simp
  qed (use no in simp_all)
  then have "ok" "recorded (fss' 0) ?rec ''a'' (link_of \<lparr>b_prefix = [], b_target = 0\<rparr> ?rec)" "fss' 1 = fstree_create ()"
    by (auto simp: sink_step_def m nm Let_def)
  then show "\<exists>fss' s' n. file_sink_add_data (\<lambda>_. vol) (\<lambda>_. True) list_next demo_read (\<lambda>rs. rs) (bind_all [(''/'', 0)]) ?fss [?rec] = Some (True, fss', s') \<and>
      child_by_name (fss' 0) 0 ''a'' = Some n \<and> n_type (nodes (fss' 0) n) = TREE_NODE_DIR \<and> permissions (nodes (fss' 0) n) = 493 \<and> fss' 1 = fstree_create ()"
    using a(1) p unfolding recorded_def placed_def parents_def by (auto simp: demo_record_def node_type_of_def)
qed

end
