(* ===== verification/TarSource.thy ===== *)
theory TarSource
  imports FileSource TarReader Paths
begin

unbundle bit_operations_syntax

text \<open>
  \<open>lib/imgtool/filesource/tar.c\<close>: an archive as a source of files. The stream of a regular file shares the state of the source, reads its data
  from the stream of the archive and fills the holes of a sparse file with zeros.

  The loop that fills the buffer of such a stream need not end, and is a partial function. It is shown that it ends if no hole has 4 GiB or
  more, and that the stream then keeps the contract of an input stream for the contents of the file as a reference definition gives them.
\<close>

section \<open>The stream of a file\<close>

record 's tar_source =
  tar_stream :: "'s istream"
  apparent_file_size :: nat
  file_bytes_left :: nat
  locked_by_file :: bool

text \<open>The buffer is that of the \<open>istream_t\<close>; \<open>ts_tar\<close> is the source that the stream belongs to.\<close>

record 's tar_istream =
  ts_sparse :: "sparse_map list"
  ts_offset :: nat
  ts_tar :: "'s tar_source"

definition TS_BUFFER :: nat where "TS_BUFFER = 1024"

text \<open>What one round of the loop of \<open>tar_istream_precache\<close> does: stop with a full buffer or at the end of the file, add zeros, leave an entry of the
  sparse map, or read. The size of a hole is cut_map to a signed 32 bit number; a negative one is larger than the room as a \<open>size_t\<close>.\<close>

datatype fill_round = Full | AtEnd | Hole nat | Leave | Data nat

definition fill_action :: "'s tar_istream \<Rightarrow> nat \<Rightarrow> fill_round" where
  "fill_action ts used =
     (if TS_BUFFER \<le> used then Full
      else let diff = min (TS_BUFFER - used) (apparent_file_size (ts_tar ts)) in
        if diff = 0 then AtEnd
        else case ts_sparse ts of
            [] \<Rightarrow> Data diff
          | m # ms \<Rightarrow>
              (if ts_offset ts < sp_offset m then
                 (let ret = u32 (sp_offset m - ts_offset ts) in Hole (if 2 ^ 31 \<le> ret \<or> diff < ret then diff else ret))
               else let available = ts_offset ts - sp_offset m in
                 if available < sp_count m then Data (min diff (sp_count m - available)) else Leave))"

definition skip_hole :: "nat \<Rightarrow> 's tar_istream \<Rightarrow> 's tar_istream" where
  "skip_hole n ts =
     ts\<lparr>ts_offset := add64 (ts_offset ts) n, ts_tar := (ts_tar ts)\<lparr>apparent_file_size := sub64 (apparent_file_size (ts_tar ts)) n\<rparr>\<rparr>"

definition set_stream :: "'s istream \<Rightarrow> 's tar_istream \<Rightarrow> 's tar_istream" where
  "set_stream fp ts = ts\<lparr>ts_tar := (ts_tar ts)\<lparr>tar_stream := fp\<rparr>\<rparr>"

definition take_data :: "nat \<Rightarrow> 's tar_istream \<Rightarrow> 's tar_istream" where
  "take_data n ts =
     ts\<lparr>ts_offset := add64 (ts_offset ts) n,
        ts_tar := (ts_tar ts)\<lparr>apparent_file_size := sub64 (apparent_file_size (ts_tar ts)) n,
                              file_bytes_left := sub64 (file_bytes_left (ts_tar ts)) n\<rparr>\<rparr>"

partial_function (option) fill_loop :: "'s precache \<Rightarrow> 's tar_istream \<Rightarrow> byte list \<Rightarrow> (bool \<times> byte list \<times> bool \<times> 's tar_istream) option" where
  "fill_loop pc ts buf =
     (case fill_action ts (length buf) of
        Full \<Rightarrow> Some (True, buf, False, ts)
      | AtEnd \<Rightarrow> Some (True, buf, True, ts)
      | Hole n \<Rightarrow> fill_loop pc (skip_hole n ts) (buf @ zeros n)
      | Leave \<Rightarrow> fill_loop pc (ts\<lparr>ts_sparse := tl (ts_sparse ts)\<rparr>) buf
      | Data n \<Rightarrow>
          (case istream_read pc (tar_stream (ts_tar ts)) n of
             (None, fp) \<Rightarrow> Some (False, buf, False, set_stream fp ts)
           | (Some d, fp) \<Rightarrow>
               (if d = [] then Some (True, buf, True, set_stream fp ts)
                else fill_loop pc (take_data (length d) (set_stream fp ts)) (buf @ d))))"

text \<open>The callback drops what the buffer holds, also bytes that were not read yet. Where the loop does not end, the callback of the model fails.\<close>

definition tar_istream_precache :: "'s precache \<Rightarrow> 's tar_istream precache" where
  "tar_istream_precache pc ts buf =
     (case fill_loop pc ts [] of Some r \<Rightarrow> r | None \<Rightarrow> (False, [], False, ts))"

definition tar_istream_create :: "bool \<Rightarrow> 's tar_source \<Rightarrow> sparse_map list \<Rightarrow> 's tar_istream istream option" where
  "tar_istream_create mem tar sparse =
     (if mem then Some \<lparr>buffer = [], buffer_offset = 0, eof = False, src = \<lparr>ts_sparse = sparse, ts_offset = 0, ts_tar = tar\<rparr>\<rparr> else None)"

definition tar_istream_destroy :: "'s tar_istream istream \<Rightarrow> 's tar_source" where
  "tar_istream_destroy strm = (ts_tar (src strm))\<lparr>locked_by_file := False\<rparr>"

section \<open>Records\<close>

text \<open>The test of the sparse map: whether its entries are in order and how much data they have, up to the first one out of order.\<close>

fun sparse_check :: "sparse_map list \<Rightarrow> nat \<Rightarrow> nat \<Rightarrow> bool \<times> nat" where
  "sparse_check [] offset cnt = (True, cnt)"
| "sparse_check (it # ms) offset cnt =
     (if sp_offset it < offset then (False, cnt) else sparse_check ms (add64 (sp_offset it) (sp_count it)) (add64 cnt (sp_count it)))"

definition path_string :: "byte list \<Rightarrow> string" where
  "path_string = map (\<lambda>c. char_of (unat c))"

definition skip_record :: "tar_header_decoded \<Rightarrow> string option \<Rightarrow> bool" where
  "skip_record hdr nm \<longleftrightarrow>
     nm = None \<or> nm = Some [] \<or> unknown_record hdr \<or>
     (d_sparse hdr \<noteq> [] \<and>
      (case sparse_check (d_sparse hdr) (sp_offset (hd (d_sparse hdr))) 0 of (ordered, cnt) \<Rightarrow> \<not> ordered \<or> cnt \<noteq> record_size hdr))"

definition record_type :: "tar_header_decoded \<Rightarrow> FILE_SOURCE_TYPE option" where
  "record_type hdr =
     (if is_hard_link hdr then Some FILE_SOURCE_HARD_LINK
      else let fmt = st_mode hdr AND S_IFMT in
        if fmt = S_IFBLK then Some FILE_SOURCE_BLOCK_DEV
        else if fmt = S_IFCHR then Some FILE_SOURCE_CHAR_DEV
        else if fmt = S_IFREG then Some FILE_SOURCE_FILE
        else if fmt = S_IFLNK then Some FILE_SOURCE_SYMLINK
        else if fmt = S_IFDIR then Some FILE_SOURCE_DIR
        else if fmt = S_IFIFO then Some FILE_SOURCE_FIFO
        else if fmt = S_IFSOCK then Some FILE_SOURCE_SOCKET
        else None)"

definition tar_record :: "tar_header_decoded \<Rightarrow> FILE_SOURCE_TYPE \<Rightarrow> string \<Rightarrow> file_source_record" where
  "tar_record hdr t nm =
     \<lparr>r_type = t, r_permissions = st_mode hdr mod 0x1000, r_uid = st_uid hdr, r_gid = st_gid hdr, r_devno = u32 (st_rdev hdr),
      r_ctime = nat (d_mtime hdr mod 2 ^ 64), r_mtime = nat (d_mtime hdr mod 2 ^ 64), r_size = actual_size hdr, full_path = nm,
      r_link_target = map_option path_string (d_link_target hdr)\<rparr>"

definition padded_size :: "nat \<Rightarrow> nat" where
  "padded_size n = (if n mod 512 \<noteq> 0 then add64 n (512 - n mod 512) else n)"

text \<open>The end of \<open>get_next_record\<close>: \<open>m1\<close> and \<open>m2\<close> tell whether the record and the stream can be allocated, \<open>want\<close> whether the caller takes streams. The
  stream is returned with the source in it.\<close>

definition start_record ::
  "bool \<Rightarrow> bool \<Rightarrow> 's tar_source \<Rightarrow> tar_header_decoded \<Rightarrow> FILE_SOURCE_TYPE \<Rightarrow> string \<Rightarrow> 's tar_istream istream next_record \<times> 's tar_source" where
  "start_record m2 want tar hdr t nm =
     (let tar = tar\<lparr>apparent_file_size := actual_size hdr, file_bytes_left := padded_size (record_size hdr)\<rparr> in
      if want \<and> st_mode hdr AND S_IFMT = S_IFREG then
        (let tar = tar\<lparr>locked_by_file := True\<rparr> in
         case tar_istream_create m2 tar (d_sparse hdr) of
           None \<Rightarrow> (Failed, tar)
         | Some strm \<Rightarrow> (NextRecord (tar_record hdr t nm) (Some strm), tar))
      else (NextRecord (tar_record hdr t nm) None, tar))"

text \<open>The retry loop.\<close>

partial_function (option) tar_retry ::
  "(nat \<Rightarrow> bool) \<Rightarrow> bool \<Rightarrow> bool \<Rightarrow> 's precache \<Rightarrow> bool \<Rightarrow> 's tar_source \<Rightarrow> ('s tar_istream istream next_record \<times> 's tar_source) option" where
  "tar_retry mem m1 m2 pc want tar =
     (case read_header mem pc (tar_stream tar) of
        None \<Rightarrow> None
      | Some (r, fp) \<Rightarrow>
          (case r of
             HdrFail \<Rightarrow> Some (Failed, tar\<lparr>tar_stream := fp\<rparr>)
           | HdrEof \<Rightarrow> Some (NoRecord, tar\<lparr>tar_stream := fp\<rparr>)
           | Hdr hdr \<Rightarrow>
               (let nm = map_option (\<lambda>b. fstree_canonicalize_path (path_string b)) (d_name hdr) in
                if skip_record hdr nm then
                  (case skip_entry pc fp (record_size hdr) of
                     (None, fp) \<Rightarrow> Some (Failed, tar\<lparr>tar_stream := fp\<rparr>)
                   | (Some _, fp) \<Rightarrow> tar_retry mem m1 m2 pc want (tar\<lparr>tar_stream := fp\<rparr>))
                else if \<not> m1 then Some (Failed, tar\<lparr>tar_stream := fp\<rparr>)
                else case record_type hdr of
                    None \<Rightarrow> tar_retry mem m1 m2 pc want (tar\<lparr>tar_stream := fp\<rparr>)
                  | Some t \<Rightarrow> Some (start_record m2 want (tar\<lparr>tar_stream := fp\<rparr>) hdr t (the nm)))))"

definition tar_get_next_record ::
  "(nat \<Rightarrow> bool) \<Rightarrow> bool \<Rightarrow> bool \<Rightarrow> 's precache \<Rightarrow> bool \<Rightarrow> 's tar_source \<Rightarrow> ('s tar_istream istream next_record \<times> 's tar_source) option" where
  "tar_get_next_record mem m1 m2 pc want tar =
     (if locked_by_file tar then Some (Failed, tar)
      else if 0 < file_bytes_left tar then
        (case istream_skip pc (tar_stream tar) (file_bytes_left tar) of
           (None, fp) \<Rightarrow> Some (Failed, tar\<lparr>tar_stream := fp\<rparr>)
         | (Some _, fp) \<Rightarrow> tar_retry mem m1 m2 pc want (tar\<lparr>tar_stream := fp, file_bytes_left := 0\<rparr>))
      else tar_retry mem m1 m2 pc want tar)"

section \<open>Opening an archive\<close>

datatype compressor = MAGIC_COMPRESSOR_GZIP | MAGIC_COMPRESSOR_XZ | MAGIC_COMPRESSOR_ZSTD | MAGIC_COMPRESSOR_BZIP2

definition compress_magic :: "(compressor \<times> byte list) list" where
  "compress_magic =
     [(MAGIC_COMPRESSOR_GZIP, [0x1F, 0x8B, 0x08]), (MAGIC_COMPRESSOR_XZ, 0xFD # ascii ''7zXZ''),
      (MAGIC_COMPRESSOR_ZSTD, [0x28, 0xB5, 0x2F, 0xFD]), (MAGIC_COMPRESSOR_BZIP2, ascii ''BZh'')]"

definition tar_probe :: "byte list \<Rightarrow> bool" where
  "tar_probe data \<longleftrightarrow> 512 \<le> length data \<and> take 5 (drop 257 data) = ascii ''ustar''"

definition find_the_magic :: "byte list \<Rightarrow> compressor option" where
  "find_the_magic buf =
     (if tar_probe buf then None
      else map_option fst (find (\<lambda>(c, value). length value \<le> length buf \<and> take (length value) buf = value) compress_magic))"

text \<open>\<open>opened\<close> is the result of \<open>istream_open_file\<close>; \<open>wrap\<close> creates a decompressor and the stream that reads through it, and is a parameter.\<close>

definition file_source_tar_create ::
  "bool \<Rightarrow> 's precache \<Rightarrow> (compressor \<Rightarrow> 's istream \<Rightarrow> 's istream option) \<Rightarrow> 's istream option \<Rightarrow> 's tar_source option" where
  "file_source_tar_create mem pc wrap opened =
     (if \<not> mem then None
      else Option.bind opened (\<lambda>strm.
        case (if buffer strm = []
              then (case istream_precache pc strm of (r, strm) \<Rightarrow> (map_option (\<lambda>_. find_the_magic (buffer strm)) r, strm))
              else (Some None, strm)) of
          (None, strm) \<Rightarrow> None
        | (Some magic, strm) \<Rightarrow>
            map_option (\<lambda>strm. \<lparr>tar_stream = strm, apparent_file_size = 0, file_bytes_left = 0, locked_by_file = False\<rparr>)
              (case magic of None \<Rightarrow> Some strm | Some c \<Rightarrow> wrap c strm)))"

section \<open>The contents of a file\<close>

text \<open>The reference definition: the contents from a position on, given the rest of the sparse map and the data that follow in the archive, and
  the number of data bytes among the next \<open>n\<close> bytes.\<close>

fun expand :: "nat \<Rightarrow> sparse_map list \<Rightarrow> byte list \<Rightarrow> byte list" where
  "expand off [] d = d"
| "expand off (m # ms) d =
     zeros (sp_offset m - off) @ take (sp_count m) d @ expand (sp_offset m + sp_count m) ms (drop (sp_count m) d)"

fun need :: "nat \<Rightarrow> sparse_map list \<Rightarrow> nat \<Rightarrow> nat" where
  "need off [] n = n"
| "need off (m # ms) n =
     min (n - (sp_offset m - off)) (sp_count m) + need (sp_offset m + sp_count m) ms (n - (sp_offset m - off) - sp_count m)"

text \<open>The rest of the first entry behind a position, and a map in order without holes of 4 GiB or more.\<close>

fun cut_map :: "nat \<Rightarrow> sparse_map list \<Rightarrow> sparse_map list" where
  "cut_map off [] = []"
| "cut_map off (m # ms) =
     (if sp_offset m < off then \<lparr>sp_offset = off, sp_count = sp_count m - (off - sp_offset m)\<rparr> else m) # ms"

fun in_order :: "nat \<Rightarrow> sparse_map list \<Rightarrow> bool" where
  "in_order off [] \<longleftrightarrow> True"
| "in_order off (m # ms) \<longleftrightarrow> off \<le> sp_offset m \<and> sp_offset m - off < 2 ^ 32 \<and> in_order (sp_offset m + sp_count m) ms"

text \<open>A position in the map: not behind the end of the first entry.\<close>

fun in_first :: "nat \<Rightarrow> sparse_map list \<Rightarrow> bool" where
  "in_first off [] \<longleftrightarrow> True"
| "in_first off (m # ms) \<longleftrightarrow> (sp_offset m < off \<longrightarrow> off \<le> sp_offset m + sp_count m)"

lemma cut_in_order: "in_order off ms \<Longrightarrow> cut_map off ms = ms \<and> in_first off ms"
  by (cases ms) auto

lemma need_0 [simp]: "need off ms 0 = 0"
  by (induction ms arbitrary: off) auto

lemma expand_cut_hole:
  assumes "off + k \<le> sp_offset m"
  shows "expand off (cut_map off (m # ms)) d = zeros k @ expand (off + k) (cut_map (off + k) (m # ms)) d"
    "k \<le> n \<Longrightarrow> need (off + k) (cut_map (off + k) (m # ms)) (n - k) = need off (cut_map off (m # ms)) n"
    "in_order off (cut_map off (m # ms)) \<Longrightarrow> in_order (off + k) (cut_map (off + k) (m # ms))" "in_first (off + k) (m # ms)"
proof -
  have "zeros (sp_offset m - off) = zeros k @ zeros (sp_offset m - (off + k))"
    using assms by (simp add: zeros_def replicate_add [symmetric])
  then show "expand off (cut_map off (m # ms)) d = zeros k @ expand (off + k) (cut_map (off + k) (m # ms)) d" using assms by simp
  show "need (off + k) (cut_map (off + k) (m # ms)) (n - k) = need off (cut_map off (m # ms)) n" if "k \<le> n"
  proof -
    have "n - k - (sp_offset m - (off + k)) = n - (sp_offset m - off)" using assms that by simp
    then show ?thesis using assms by simp
  qed
qed (use assms in auto)

lemma expand_cut_leave:
  assumes "sp_offset m \<le> off" "sp_count m \<le> off - sp_offset m" "in_first off (m # ms)" "in_order off (cut_map off (m # ms))"
  shows "expand off (cut_map off (m # ms)) d = expand off (cut_map off ms) d" "need off (cut_map off (m # ms)) n = need off (cut_map off ms) n"
    "in_order off (cut_map off ms)" "in_first off ms"
proof -
  have "sp_offset m + sp_count m = off" using assms(1-3) by (cases "sp_offset m < off") auto
  then have c: "cut_map off (m # ms) = \<lparr>sp_offset = off, sp_count = 0\<rparr> # ms \<or> cut_map off (m # ms) = m # ms \<and> sp_offset m = off \<and> sp_count m = 0"
    using assms(1) by (cases "sp_offset m < off") auto
  then have "in_order off ms" using assms(4) by auto
  then show "in_order off (cut_map off ms)" "in_first off ms" using cut_in_order by auto
  show "expand off (cut_map off (m # ms)) d = expand off (cut_map off ms) d" "need off (cut_map off (m # ms)) n = need off (cut_map off ms) n"
    using c cut_in_order [OF \<open>in_order off ms\<close>] by (auto simp: zeros_def)
qed

lemma expand_cut_data:
  assumes "sp_offset m \<le> off" "off - sp_offset m < sp_count m" "k \<le> sp_count m - (off - sp_offset m)" "k \<le> length d"
  shows "expand off (cut_map off (m # ms)) d = take k d @ expand (off + k) (cut_map (off + k) (m # ms)) (drop k d)"
    "k \<le> n \<Longrightarrow> need off (cut_map off (m # ms)) n = k + need (off + k) (cut_map (off + k) (m # ms)) (n - k)"
    "in_order off (cut_map off (m # ms)) \<Longrightarrow> in_order (off + k) (cut_map (off + k) (m # ms))" "in_first (off + k) (m # ms)"
proof -
  define c where "c = sp_count m - (off - sp_offset m)"
  have e: "sp_offset m + sp_count m = off + c" using assms(1,2) by (simp add: c_def)
  have k: "k \<le> c" using assms(3) by (simp add: c_def)
  have cut0: "cut_map off (m # ms) = (if sp_offset m < off then \<lparr>sp_offset = off, sp_count = c\<rparr> else m) # ms" by (simp add: c_def)
  have c0: "expand off (cut_map off (m # ms)) d = take c d @ expand (off + c) ms (drop c d)" for d
    unfolding cut0 using assms(1) e by (cases "sp_offset m < off") (auto simp: zeros_def c_def)
  have n0: "need off (cut_map off (m # ms)) n = min n c + need (off + c) ms (n - c)" for n
    unfolding cut0 using assms(1) e by (cases "sp_offset m < off") (auto simp: c_def)
  have "\<exists>x. cut_map (off + k) (m # ms) = x # ms \<and> sp_offset x = off + k \<and> sp_count x = c - k"
  proof (cases "sp_offset m < off + k")
    case True
    then have "sp_count m - (off + k - sp_offset m) = c - k" using assms(1) by (simp add: c_def)
    then show ?thesis using True by simp
  next
    case False
    then have "k = 0" "sp_offset m = off" using assms(1) by simp_all
    then show ?thesis by (simp add: c_def)
  qed
  then obtain x where x: "cut_map (off + k) (m # ms) = x # ms" "sp_offset x = off + k" "sp_count x = c - k" by blast
  have ck: "expand (off + k) (cut_map (off + k) (m # ms)) d = take (c - k) d @ expand (off + c) ms (drop (c - k) d)"
      "need (off + k) (cut_map (off + k) (m # ms)) n = min n (c - k) + need (off + c) ms (n - (c - k))"
      "in_order (off + k) (cut_map (off + k) (m # ms)) \<longleftrightarrow> in_order (off + c) ms" for d n
    unfolding x(1) using x(2,3) k by (simp_all add: zeros_def)
  have "take c d = take k d @ take (c - k) (drop k d)" using k by (metis take_add le_add_diff_inverse)
  moreover have "drop c d = drop (c - k) (drop k d)" using k by simp
  ultimately show "expand off (cut_map off (m # ms)) d = take k d @ expand (off + k) (cut_map (off + k) (m # ms)) (drop k d)"
    unfolding c0 ck by simp
  show "need off (cut_map off (m # ms)) n = k + need (off + k) (cut_map (off + k) (m # ms)) (n - k)" if "k \<le> n"
  proof -
    have "min n c = k + min (n - k) (c - k)" "n - c = n - k - (c - k)" using k that by simp_all
    then show ?thesis unfolding n0 ck by simp
  qed
  show "in_order (off + k) (cut_map (off + k) (m # ms))" if "in_order off (cut_map off (m # ms))"
    unfolding ck using that e assms(1) by (cases "sp_offset m < off") (auto simp: c_def)
  show "in_first (off + k) (m # ms)" using assms(1-3) by auto
qed

section \<open>The contract of the stream\<close>

context istream_source
begin

abbreviation data :: "'s tar_istream \<Rightarrow> byte list" where
  "data ts \<equiv> pending (tar_stream (ts_tar ts))"

definition tar_remaining :: "'s tar_istream \<Rightarrow> byte list" where
  "tar_remaining ts = take (apparent_file_size (ts_tar ts)) (expand (ts_offset ts) (cut_map (ts_offset ts) (ts_sparse ts)) (data ts))"

text \<open>The archive has the data of the file, and \<open>X\<close> is what follows the padding behind them.\<close>

definition tar_good :: "byte list \<Rightarrow> 's tar_istream \<Rightarrow> bool" where
  "tar_good X ts \<longleftrightarrow>
     (let n = apparent_file_size (ts_tar ts); off = ts_offset ts; ms = ts_sparse ts in
      good_stream (tar_stream (ts_tar ts)) \<and> in_order off (cut_map off ms) \<and> in_first off ms \<and> off + n < 2 ^ 64 \<and>
      need off (cut_map off ms) n \<le> length (data ts) \<and> need off (cut_map off ms) n \<le> file_bytes_left (ts_tar ts) \<and>
      file_bytes_left (ts_tar ts) < 2 ^ 64 \<and> drop (file_bytes_left (ts_tar ts)) (data ts) = X)"

lemma tar_hole_ok:
  assumes "tar_good X ts" "fill_action ts used = Hole k"
  shows "0 < k \<and> used + k \<le> TS_BUFFER \<and> tar_good X (skip_hole k ts) \<and> tar_remaining ts = zeros k @ tar_remaining (skip_hole k ts)"
proof -
  let ?n = "apparent_file_size (ts_tar ts)" and ?off = "ts_offset ts"
  obtain m ms where ms: "ts_sparse ts = m # ms" "?off < sp_offset m" and used: "used < TS_BUFFER" and n: "0 < ?n"
    and k: "k = (let diff = min (TS_BUFFER - used) ?n; ret = u32 (sp_offset m - ?off) in if 2 ^ 31 \<le> ret \<or> diff < ret then diff else ret)"
    using assms(2) by (auto simp: fill_action_def Let_def split: if_splits list.splits)
  have h: "u32 (sp_offset m - ?off) = sp_offset m - ?off"
    using assms(1) ms by (simp add: tar_good_def Let_def u32_def)
  have le: "0 < k" "k \<le> ?n" "used + k \<le> TS_BUFFER" "?off + k \<le> sp_offset m"
    using used n ms(2) unfolding k h by (auto simp: Let_def TS_BUFFER_def)
  have lt: "?off + ?n < 2 ^ 64" using assms(1) by (simp add: tar_good_def Let_def)
  have s: "ts_offset (skip_hole k ts) = ?off + k" "apparent_file_size (ts_tar (skip_hole k ts)) = ?n - k" "ts_sparse (skip_hole k ts) = m # ms"
      "tar_stream (ts_tar (skip_hole k ts)) = tar_stream (ts_tar ts)" "file_bytes_left (ts_tar (skip_hole k ts)) = file_bytes_left (ts_tar ts)"
    using lt le ms(1) by (simp_all add: skip_hole_def add64_exact sub64_exact)
  note E = expand_cut_hole [OF le(4)]
  have "tar_good X (skip_hole k ts)" using assms(1) E(2) [OF le(2)] E(3,4) le(2) unfolding tar_good_def Let_def s ms(1)
    by (simp del: cut_map.simps need.simps in_order.simps in_first.simps)
  moreover have "tar_remaining ts = zeros k @ tar_remaining (skip_hole k ts)"
    unfolding tar_remaining_def s ms(1) E(1) using le(2) by (simp add: zeros_def)
  ultimately show ?thesis using le by simp
qed

lemma tar_leave_ok:
  assumes "tar_good X ts" "fill_action ts used = Leave"
  defines "ts' \<equiv> ts\<lparr>ts_sparse := tl (ts_sparse ts)\<rparr>"
  shows "tar_good X ts' \<and> tar_remaining ts = tar_remaining ts' \<and> length (ts_sparse ts') < length (ts_sparse ts)"
proof -
  obtain m ms where ms: "ts_sparse ts = m # ms" "sp_offset m \<le> ts_offset ts" "sp_count m \<le> ts_offset ts - sp_offset m"
    using assms(2) by (auto simp: fill_action_def Let_def not_less split: if_splits list.splits)
  have g: "in_first (ts_offset ts) (m # ms)" "in_order (ts_offset ts) (cut_map (ts_offset ts) (m # ms))"
    using assms(1) ms(1) by (simp_all add: tar_good_def Let_def)
  note E = expand_cut_leave [OF ms(2,3) g]
  show ?thesis using assms(1) E unfolding tar_good_def tar_remaining_def Let_def ts'_def ms(1) by simp
qed

lemma tar_data_ok:
  assumes "tar_good X ts" "fill_action ts used = Data k"
  shows "\<exists>fp d. istream_read pc (tar_stream (ts_tar ts)) k = (Some d, fp) \<and> length d = k \<and> 0 < k \<and> used + k \<le> TS_BUFFER \<and>
    tar_good X (take_data k (set_stream fp ts)) \<and> tar_remaining ts = d @ tar_remaining (take_data k (set_stream fp ts))"
proof -
  let ?n = "apparent_file_size (ts_tar ts)" and ?off = "ts_offset ts" and ?ms = "ts_sparse ts" and ?b = "file_bytes_left (ts_tar ts)"
  have g: "good_stream (tar_stream (ts_tar ts))" "in_order ?off (cut_map ?off ?ms)" "?off + ?n < 2 ^ 64" "need ?off (cut_map ?off ?ms) ?n \<le> length (data ts)"
      "need ?off (cut_map ?off ?ms) ?n \<le> ?b" "?b < 2 ^ 64" "drop ?b (data ts) = X" "in_first ?off ?ms"
    using assms(1) by (simp_all add: tar_good_def Let_def)
  have k: "0 < k" "k \<le> ?n" "used + k \<le> TS_BUFFER" "k \<le> 0x7FFFFFFF"
    using assms(2) by (auto simp: fill_action_def Let_def TS_BUFFER_def split: if_splits list.splits)
  have step: "need ?off (cut_map ?off ?ms) ?n = k + need (?off + k) (cut_map (?off + k) ?ms) (?n - k)"
      "k \<le> length d \<Longrightarrow> expand ?off (cut_map ?off ?ms) d = take k d @ expand (?off + k) (cut_map (?off + k) ?ms) (drop k d)"
      "in_order (?off + k) (cut_map (?off + k) ?ms)" "in_first (?off + k) ?ms" for d
  proof -
    have "need ?off (cut_map ?off ?ms) ?n = k + need (?off + k) (cut_map (?off + k) ?ms) (?n - k) \<and>
        (k \<le> length d \<longrightarrow> expand ?off (cut_map ?off ?ms) d = take k d @ expand (?off + k) (cut_map (?off + k) ?ms) (drop k d)) \<and>
        in_order (?off + k) (cut_map (?off + k) ?ms) \<and> in_first (?off + k) ?ms" for d
    proof (cases ?ms)
      case Nil
      then show ?thesis using k by simp
    next
      case (Cons m ms)
      have c: "sp_offset m \<le> ?off" "?off - sp_offset m < sp_count m" "k \<le> sp_count m - (?off - sp_offset m)"
        using assms(2) Cons by (auto simp: fill_action_def Let_def split: if_splits)
      have ff: "in_order ?off (cut_map ?off (m # ms))" using g(2) Cons by simp
      have "need ?off (cut_map ?off (m # ms)) ?n = k + need (?off + k) (cut_map (?off + k) (m # ms)) (?n - k)"
        using expand_cut_data(2) [OF c, of "replicate k 0" ?n ms] k(2) by simp
      moreover have "in_order (?off + k) (cut_map (?off + k) (m # ms)) \<and> in_first (?off + k) (m # ms)"
        using expand_cut_data(3,4) [OF c, of "replicate k 0" ms] ff by simp
      ultimately show ?thesis unfolding Cons using expand_cut_data(1) [OF c, of d ms] by blast
    qed
    then show "need ?off (cut_map ?off ?ms) ?n = k + need (?off + k) (cut_map (?off + k) ?ms) (?n - k)"
      "k \<le> length d \<Longrightarrow> expand ?off (cut_map ?off ?ms) d = take k d @ expand (?off + k) (cut_map (?off + k) ?ms) (drop k d)"
      "in_order (?off + k) (cut_map (?off + k) ?ms)" "in_first (?off + k) ?ms" for d by blast+
  qed
  have kd: "k \<le> length (data ts)" "k \<le> ?b" using g(4,5) step(1) by simp_all
  obtain fp where fp: "istream_read pc (tar_stream (ts_tar ts)) k = (Some (take k (data ts)), fp)" "good_stream fp" "pending fp = drop k (data ts)"
    using istream_read_ok [OF g(1) k(4)] by blast
  let ?t = "take_data k (set_stream fp ts)"
  have s: "ts_offset ?t = ?off + k" "apparent_file_size (ts_tar ?t) = ?n - k" "ts_sparse ?t = ?ms" "tar_stream (ts_tar ?t) = fp"
      "file_bytes_left (ts_tar ?t) = ?b - k"
    using g(3,6) k kd by (simp_all add: take_data_def set_stream_def add64_exact sub64_exact)
  have "need (?off + k) (cut_map (?off + k) ?ms) (?n - k) \<le> length (data ts) - k" "need (?off + k) (cut_map (?off + k) ?ms) (?n - k) \<le> ?b - k"
    using g(4,5) step(1) by linarith+
  then have "tar_good X ?t" unfolding tar_good_def Let_def s fp(3)
    using g(3,6,7) kd k fp(2) step(3,4) by simp
  moreover have "tar_remaining ts = take k (data ts) @ tar_remaining ?t"
    unfolding tar_remaining_def s fp(3) step(2) [OF kd(1)] using kd(1) k(2) by simp
  ultimately show ?thesis using fp(1) kd(1) k by (intro exI conjI) auto
qed

lemma fill_loop_ok:
  assumes "tar_good X ts" "length buf \<le> TS_BUFFER"
  shows "\<exists>b e ts'. fill_loop pc ts buf = Some (True, buf @ b, e, ts') \<and> tar_good X ts' \<and> tar_remaining ts = b @ tar_remaining ts' \<and>
    (e \<longrightarrow> tar_remaining ts' = []) \<and> (e \<or> TS_BUFFER \<le> length (buf @ b))"
  using assms
proof (induction "TS_BUFFER - length buf + length (ts_sparse ts)" arbitrary: ts buf rule: less_induct)
  case less
  have step: "\<exists>b e ts'. fill_loop pc ts buf = Some (True, buf @ b, e, ts') \<and> tar_good X ts' \<and> tar_remaining ts = b @ tar_remaining ts' \<and>
      (e \<longrightarrow> tar_remaining ts' = []) \<and> (e \<or> TS_BUFFER \<le> length (buf @ b))"
    if eq: "fill_loop pc ts buf = fill_loop pc ts1 (buf @ d)" and g: "tar_good X ts1" and r: "tar_remaining ts = d @ tar_remaining ts1"
      and le: "length (buf @ d) \<le> TS_BUFFER" and lt: "TS_BUFFER - length (buf @ d) + length (ts_sparse ts1) < TS_BUFFER - length buf + length (ts_sparse ts)"
    for ts1 d
  proof -
    obtain b e ts' where "fill_loop pc ts1 (buf @ d) = Some (True, (buf @ d) @ b, e, ts')" "tar_good X ts'" "tar_remaining ts1 = b @ tar_remaining ts'"
        "e \<longrightarrow> tar_remaining ts' = []" "e \<or> TS_BUFFER \<le> length ((buf @ d) @ b)"
      using less.hyps [OF lt g le] by blast
    then show ?thesis using eq r by (intro exI [of _ "d @ b"] exI [of _ e] exI [of _ ts']) simp
  qed
  show ?case
  proof (cases "fill_action ts (length buf)")
    case Full
    then have "TS_BUFFER \<le> length buf" by (auto simp: fill_action_def Let_def split: if_splits list.splits)
    then show ?thesis using Full less.prems by (intro exI [of _ "[]"] exI [of _ False] exI [of _ ts]) (subst fill_loop.simps, simp)
  next
    case AtEnd
    then have "apparent_file_size (ts_tar ts) = 0" by (auto simp: fill_action_def Let_def split: if_splits list.splits)
    then show ?thesis using AtEnd less.prems
      by (intro exI [of _ "[]"] exI [of _ True] exI [of _ ts]) (subst fill_loop.simps, simp add: tar_remaining_def)
  next
    case (Hole k)
    have "ts_sparse (skip_hole k ts) = ts_sparse ts" by (simp add: skip_hole_def)
    moreover note h = tar_hole_ok [OF less.prems(1) Hole]
    moreover have "TS_BUFFER - length (buf @ zeros k) < TS_BUFFER - length buf" using h unfolding length_append length_zeros by linarith
    ultimately show ?thesis
      by (intro step [of "skip_hole k ts" "zeros k"]) (subst fill_loop.simps, simp_all add: Hole)
  next
    case Leave
    note h = tar_leave_ok [OF less.prems(1) Leave]
    have "TS_BUFFER - length (buf @ []) + length (tl (ts_sparse ts)) < TS_BUFFER - length buf + length (ts_sparse ts)"
      using h by (cases "ts_sparse ts") simp_all
    then show ?thesis using h less.prems(2)
      by (intro step [of "ts\<lparr>ts_sparse := tl (ts_sparse ts)\<rparr>" "[]"]) (subst fill_loop.simps, simp_all add: Leave)
  next
    case (Data k)
    from tar_data_ok [OF less.prems(1) Data] obtain fp d where d: "istream_read pc (tar_stream (ts_tar ts)) k = (Some d, fp)" "length d = k" "0 < k"
        "length buf + k \<le> TS_BUFFER" "tar_good X (take_data k (set_stream fp ts))" "tar_remaining ts = d @ tar_remaining (take_data k (set_stream fp ts))"
      by blast
    have "ts_sparse (take_data k (set_stream fp ts)) = ts_sparse ts" by (simp add: take_data_def set_stream_def)
    then show ?thesis using d
      by (intro step [of "take_data k (set_stream fp ts)" d]) (subst fill_loop.simps, auto simp: Data)
  qed
qed

lemma tar_precache_contract:
  assumes "tar_good X ts" "tar_istream_precache pc ts [] = (ok, b, e, ts')"
  shows "ok \<and> tar_good X ts' \<and> tar_remaining ts = b @ tar_remaining ts' \<and> (b = [] \<longrightarrow> tar_remaining ts' = []) \<and> (e \<longrightarrow> tar_remaining ts' = [])"
proof -
  obtain c f t where c: "fill_loop pc ts [] = Some (True, c, f, t)" "tar_good X t" "tar_remaining ts = c @ tar_remaining t"
      "f \<longrightarrow> tar_remaining t = []" "f \<or> TS_BUFFER \<le> length c"
    using fill_loop_ok [OF assms(1), of "[]"] by auto
  then have "ok" "b = c" "e = f" "ts' = t" using assms(2) by (simp_all add: tar_istream_precache_def)
  then show ?thesis using c by (auto simp: TS_BUFFER_def)
qed

text \<open>The next record is always found, or the end of the archive or an error: every header that is skipped was read from the stream.\<close>

lemma tar_retry_ends:
  assumes "good_stream (tar_stream tar)"
  shows "\<exists>r tar'. tar_retry mem m1 m2 pc want tar = Some (r, tar') \<and> good_stream (tar_stream tar')"
  using assms
proof (induction "length (pending (tar_stream tar))" arbitrary: tar rule: less_induct)
  case less
  obtain r fp where r: "read_header mem pc (tar_stream tar) = Some (r, fp)" "good_stream fp"
      "\<forall>h. r = Hdr h \<longrightarrow> length (pending fp) < length (pending (tar_stream tar))"
    using read_header_ends [OF less.prems] by blast
  show ?case
  proof (cases r)
    case (Hdr hdr)
    have lt: "length (pending fp) < length (pending (tar_stream tar))" using r(3) Hdr by simp
    let ?nm = "map_option (\<lambda>b. fstree_canonicalize_path (path_string b)) (d_name hdr)"
    obtain s f2 where s: "skip_entry pc fp (record_size hdr) = (s, f2)" "advances fp f2" using skip_advances(2) [OF r(2)] by blast
    have f2: "good_stream f2" "length (pending f2) < length (pending (tar_stream tar))"
      using advances_good [OF s(2)] advances_length [OF s(2)] lt by simp_all
    note again = less.hyps [of "tar\<lparr>tar_stream := f2\<rparr>", simplified, OF f2(2,1)] less.hyps [of "tar\<lparr>tar_stream := fp\<rparr>", simplified, OF lt r(2)]
    show ?thesis
    proof (cases "skip_record hdr ?nm")
      case True
      then show ?thesis using r(1) Hdr s(1) f2(1) again(1) by (cases s; subst tar_retry.simps) (simp_all add: Let_def)
    next
      case False
      have "\<exists>r tar'. start_record m2 want (tar\<lparr>tar_stream := fp\<rparr>) hdr t nm = (r, tar') \<and> good_stream (tar_stream tar')" for t nm
        using r(2) by (simp add: start_record_def tar_istream_create_def Let_def)
      then show ?thesis using False r(1,2) Hdr again(2)
        by (cases "record_type hdr"; subst tar_retry.simps) (auto simp: Let_def split: prod.splits)
    qed
  qed (use r in \<open>subst tar_retry.simps; simp\<close>)+
qed

lemma tar_get_next_record_ends:
  assumes "good_stream (tar_stream tar)"
  shows "\<exists>r tar'. tar_get_next_record mem m1 m2 pc want tar = Some (r, tar') \<and> good_stream (tar_stream tar')"
proof -
  obtain s f2 where s: "istream_skip pc (tar_stream tar) (file_bytes_left tar) = (s, f2)" "good_stream f2"
    using istream_skip_advances [OF assms] advances_good by blast
  show ?thesis
    using s assms tar_retry_ends [OF assms] tar_retry_ends [of "tar\<lparr>tar_stream := f2, file_bytes_left := 0\<rparr>"]
    by (cases s) (auto simp: tar_get_next_record_def)
qed

lemma read_pieces_concat:
  "good_stream strm \<Longrightarrow> \<forall>n\<in>set ns. n \<le> 0x7FFFFFFF \<Longrightarrow>
     \<exists>ds strm'. read_pieces pc strm ns = (Some ds, strm') \<and> good_stream strm' \<and> concat ds = take (sum_list ns) (pending strm)"
proof (induction ns arbitrary: strm)
  case (Cons n ns)
  obtain s1 where s1: "istream_read pc strm n = (Some (take n (pending strm)), s1)" "good_stream s1" "pending s1 = drop n (pending strm)"
    using istream_read_ok [OF Cons.prems(1), of n] Cons.prems(2) by auto
  then show ?case using Cons.IH [OF s1(2)] Cons.prems(2) by (auto simp: take_add)
qed simp

end

text \<open>The stream of a file in an archive that is itself a file.\<close>

interpretation tar_in: istream_source "tar_istream_precache file_precache" "file_in.tar_remaining" "file_in.tar_good X" for X
  by unfold_locales (rule file_in.tar_precache_contract)

lemma tar_in_open:
  assumes "in_order 0 ms" "need 0 ms n \<le> record" "record + 512 < 2 ^ 64" "n < 2 ^ 64" "file_in.good_stream fp" "record \<le> length (file_in.pending fp)"
  defines "ts \<equiv> \<lparr>ts_sparse = ms, ts_offset = 0, ts_tar = \<lparr>tar_stream = fp, apparent_file_size = n, file_bytes_left = padded_size record, locked_by_file = True\<rparr>\<rparr>"
  shows "file_in.tar_good (drop (padded_size record) (file_in.pending fp)) ts" "file_in.tar_remaining ts = take n (expand 0 ms (file_in.pending fp))"
proof -
  have c: "cut_map 0 ms = ms" "in_first 0 ms" using cut_in_order [OF assms(1)] by simp_all
  have "record + (512 - record mod 512) < 2 ^ 64" using assms(3) by linarith
  moreover have "record \<le> record + (512 - record mod 512)" by simp
  ultimately have "record \<le> padded_size record" "padded_size record < 2 ^ 64"
    using assms(3) unfolding padded_size_def by (simp_all only: add64_exact split: if_split) simp_all
  then show "file_in.tar_good (drop (padded_size record) (file_in.pending fp)) ts"
    using assms c by (simp add: file_in.tar_good_def ts_def)
  show "file_in.tar_remaining ts = take n (expand 0 ms (file_in.pending fp))" by (simp add: file_in.tar_remaining_def ts_def c)
qed

text \<open>C38: the stream that comes with a regular file of an archive delivers the contents of the file: its data, with zeros in the holes of the sparse
  map, whatever sizes are read and whatever \<open>read\<close> calls on the archive are short or interrupted. However much was read, skipping what
  the source takes to be left leads to the end of the record with its padding, where the next header is, and once the stream is dropped, asking for the
  next record returns. The entries of the map are in order, the
  holes are smaller than 4 GiB, the record has all data that are needed, and the archive has the record.\<close>

theorem tar_file_contents:
  assumes "file_in.good_stream (tar_stream tar)" "start_record True True tar hdr t nm = (NextRecord rec (Some strm), tar')"
    and "in_order 0 (d_sparse hdr)" "need 0 (d_sparse hdr) (actual_size hdr) \<le> record_size hdr" "record_size hdr + 512 < 2 ^ 64" "actual_size hdr < 2 ^ 64"
    and "record_size hdr \<le> length (file_in.pending (tar_stream tar))" "\<forall>n\<in>set ns. n \<le> 0x7FFFFFFF"
  shows "\<exists>ds strm'. read_pieces (tar_istream_precache file_precache) strm ns = (Some ds, strm') \<and>
    concat ds = take (sum_list ns) (take (actual_size hdr) (expand 0 (d_sparse hdr) (file_in.pending (tar_stream tar)))) \<and>
    drop (file_bytes_left (tar_istream_destroy strm')) (file_in.pending (tar_stream (tar_istream_destroy strm'))) =
      drop (padded_size (record_size hdr)) (file_in.pending (tar_stream tar)) \<and>
    (\<exists>r tar2. tar_get_next_record mem m1 m2 file_precache want (tar_istream_destroy strm') = Some (r, tar2))"
proof -
  let ?X = "drop (padded_size (record_size hdr)) (file_in.pending (tar_stream tar))"
  let ?ts = "\<lparr>ts_sparse = d_sparse hdr, ts_offset = 0, ts_tar = \<lparr>tar_stream = tar_stream tar, apparent_file_size = actual_size hdr,
      file_bytes_left = padded_size (record_size hdr), locked_by_file = True\<rparr>\<rparr>"
  have s: "strm = \<lparr>buffer = [], buffer_offset = 0, eof = False, src = ?ts\<rparr>"
    using assms(2) by (auto simp: start_record_def tar_istream_create_def Let_def split: if_splits)
  note O = tar_in_open [OF assms(3-6,1,7)]
  have g: "tar_in.good_stream ?X strm" using O(1) by (simp add: s tar_in.good_stream_def)
  have p: "tar_in.pending strm = take (actual_size hdr) (expand 0 (d_sparse hdr) (file_in.pending (tar_stream tar)))"
    using O(2) by (simp add: s tar_in.pending_def)
  obtain ds strm' where d: "read_pieces (tar_istream_precache file_precache) strm ns = (Some ds, strm')" "tar_in.good_stream ?X strm'"
      "concat ds = take (sum_list ns) (tar_in.pending strm)" using tar_in.read_pieces_concat [OF g assms(8)] by blast
  have "drop (file_bytes_left (ts_tar (src strm'))) (file_in.pending (tar_stream (ts_tar (src strm')))) = ?X"
    and g2: "file_in.good_stream (tar_stream (tar_istream_destroy strm'))"
    using d(2) by (simp_all add: tar_in.good_stream_def file_in.tar_good_def tar_istream_destroy_def Let_def)
  then show ?thesis using d(1,3) p file_in.tar_get_next_record_ends [OF g2, of mem m1 m2 want] by (auto simp: tar_istream_destroy_def)
qed

text \<open>An example: a file of six bytes with a hole at each end.\<close>

definition demo_archive :: "file_istream istream" where
  "demo_archive = istream_open_fd \<lparr>fbytes = [1, 2, 3] @ zeros 509, sched = [Intr, Short 1]\<rparr>"

definition demo_header :: tar_header_decoded where
  "demo_header = no_header\<lparr>st_mode := 0x8000, record_size := 3, actual_size := 6,
     d_sparse := [\<lparr>sp_offset = 2, sp_count = 3\<rparr>, \<lparr>sp_offset = 6, sp_count = 0\<rparr>]\<rparr>"

theorem tar_file_contents_witness:
  "\<exists>strm tar' ds strm'. start_record True True \<lparr>tar_stream = demo_archive, apparent_file_size = 0, file_bytes_left = 0, locked_by_file = False\<rparr>
      demo_header FILE_SOURCE_FILE ''a'' = (NextRecord (tar_record demo_header FILE_SOURCE_FILE ''a'') (Some strm), tar') \<and>
    read_pieces (tar_istream_precache file_precache) strm [4, 1000] = (Some ds, strm') \<and> concat ds = [0, 0, 1, 2, 3, 0] \<and>
    drop (file_bytes_left (tar_istream_destroy strm')) (file_in.pending (tar_stream (tar_istream_destroy strm'))) = []"
proof -
  let ?tar = "\<lparr>tar_stream = demo_archive, apparent_file_size = 0, file_bytes_left = 0, locked_by_file = False\<rparr>"
  have "\<exists>strm tar'. start_record True True ?tar demo_header FILE_SOURCE_FILE ''a'' = (NextRecord (tar_record demo_header FILE_SOURCE_FILE ''a'') (Some strm), tar')"
    by (simp add: start_record_def tar_istream_create_def demo_header_def S_IFMT_def S_IFREG_def Let_def)
  then obtain strm tar' where s: "start_record True True ?tar demo_header FILE_SOURCE_FILE ''a'' = (NextRecord (tar_record demo_header FILE_SOURCE_FILE ''a'') (Some strm), tar')"
    by blast
  let ?fd = "\<lparr>fbytes = [1, 2, 3] @ zeros 509, sched = [Intr, Short 1]\<rparr> :: osfile"
  have fd: "benign ?fd" "length (fbytes ?fd) < 2 ^ 63" by (simp_all add: benign_def)
  have o: "file_in.good_stream demo_archive" "file_in.pending demo_archive = fbytes ?fd"
    using istream_open_fd_ok [OF fd] by (simp_all add: demo_archive_def file_in.fits_def)
  have d: "d_sparse demo_header = [\<lparr>sp_offset = 2, sp_count = 3\<rparr>, \<lparr>sp_offset = 6, sp_count = 0\<rparr>]" "actual_size demo_header = 6" "record_size demo_header = 3"
    by (simp_all add: demo_header_def)
  have p: "padded_size 3 = 512" by (simp add: padded_size_def add64_exact)
  have e: "take 6 (expand 0 (d_sparse demo_header) (fbytes ?fd)) = [0, 0, 1, 2, 3, 0]" by (simp add: d zeros_def numeral_eq_Suc)
  have "\<exists>ds strm'. read_pieces (tar_istream_precache file_precache) strm [4, 1000] = (Some ds, strm') \<and>
      concat ds = take (sum_list [4, 1000]) (take (actual_size demo_header) (expand 0 (d_sparse demo_header) (file_in.pending (tar_stream ?tar)))) \<and>
      drop (file_bytes_left (tar_istream_destroy strm')) (file_in.pending (tar_stream (tar_istream_destroy strm'))) =
        drop (padded_size (record_size demo_header)) (file_in.pending (tar_stream ?tar)) \<and>
      (\<exists>r tar2. tar_get_next_record (\<lambda>_. True) True True file_precache True (tar_istream_destroy strm') = Some (r, tar2))"
    by (rule tar_file_contents [OF _ s]) (simp_all add: o d)
  moreover have "drop (padded_size (record_size demo_header)) (file_in.pending (tar_stream ?tar)) = []" by (simp add: o d p)
  moreover have "take (sum_list [4, 1000]) (take (actual_size demo_header) (expand 0 (d_sparse demo_header) (file_in.pending (tar_stream ?tar)))) = [0, 0, 1, 2, 3, 0]"
    using e by (simp add: o d(2) del: expand.simps)
  ultimately show ?thesis using s by (metis (no_types, lifting))
qed

section \<open>A hole of 4 GiB\<close>

text \<open>At a position that has a multiple of 4 GiB to go to the end of a hole, the size of the hole is cut to 0, and the loop goes on without any
  progress.\<close>

lemma fill_loop_stuck:
  assumes "fill_loop pc ts buf = Some y" "ts_offset ts < max64" "apparent_file_size (ts_tar ts) < max64"
  shows "fill_action ts (length buf) \<noteq> Hole 0"
proof -
  have "ts_offset ts < max64 \<longrightarrow> apparent_file_size (ts_tar ts) < max64 \<longrightarrow> fill_action ts (length buf) \<noteq> Hole 0"
    using assms(1)
  proof (rule fill_loop.raw_induct [where P = "\<lambda>pc ts buf y. ts_offset ts < max64 \<longrightarrow> apparent_file_size (ts_tar ts) < max64 \<longrightarrow>
        fill_action ts (length buf) \<noteq> Hole 0", rotated])
    fix fill :: "'a precache \<Rightarrow> 'a tar_istream \<Rightarrow> byte list \<Rightarrow> (bool \<times> byte list \<times> bool \<times> 'a tar_istream) option"
      and pc :: "'a precache" and ts :: "'a tar_istream" and buf y
    assume IH: "\<And>pc ts buf y. fill pc ts buf = Some y \<Longrightarrow>
        ts_offset ts < max64 \<longrightarrow> apparent_file_size (ts_tar ts) < max64 \<longrightarrow> fill_action ts (length buf) \<noteq> Hole 0"
    have same: "skip_hole 0 ts = ts" if "ts_offset ts < max64" "apparent_file_size (ts_tar ts) < max64"
      using that by (simp add: skip_hole_def add64_def sub64_exact)
    assume "(case fill_action ts (length buf) of
        Full \<Rightarrow> Some (True, buf, False, ts)
      | AtEnd \<Rightarrow> Some (True, buf, True, ts)
      | Hole n \<Rightarrow> fill pc (skip_hole n ts) (buf @ zeros n)
      | Leave \<Rightarrow> fill pc (ts\<lparr>ts_sparse := tl (ts_sparse ts)\<rparr>) buf
      | Data n \<Rightarrow>
          (case istream_read pc (tar_stream (ts_tar ts)) n of
             (None, fp) \<Rightarrow> Some (False, buf, False, set_stream fp ts)
           | (Some d, fp) \<Rightarrow>
               (if d = [] then Some (True, buf, True, set_stream fp ts)
                else fill pc (take_data (length d) (set_stream fp ts)) (buf @ d)))) = Some y"
    then show "ts_offset ts < max64 \<longrightarrow> apparent_file_size (ts_tar ts) < max64 \<longrightarrow> fill_action ts (length buf) \<noteq> Hole 0"
      using IH [of pc ts buf y] same by (auto simp: zeros_def)
  qed
  with assms(2,3) show ?thesis by blast
qed

text \<open>C39: reading a file that starts with a hole of 4 GiB never returns, whatever the archive holds.\<close>

theorem hole_4g_never_ends:
  "fill_loop pc \<lparr>ts_sparse = [\<lparr>sp_offset = 2 ^ 32, sp_count = 1\<rparr>], ts_offset = 0,
     ts_tar = \<lparr>tar_stream = fp, apparent_file_size = 2 ^ 32 + 1, file_bytes_left = 512, locked_by_file = True\<rparr>\<rparr> [] = None"
proof -
  let ?ts = "\<lparr>ts_sparse = [\<lparr>sp_offset = 2 ^ 32, sp_count = 1\<rparr>], ts_offset = 0,
     ts_tar = \<lparr>tar_stream = fp, apparent_file_size = 2 ^ 32 + 1, file_bytes_left = 512, locked_by_file = True\<rparr>\<rparr>"
  have "fill_action ?ts (length []) = Hole 0" by (simp add: fill_action_def TS_BUFFER_def u32_def)
  then show ?thesis using fill_loop_stuck [of pc ?ts "[]"] by (cases "fill_loop pc ?ts []") auto
qed



end
