(* ===== verification/Spec2Isabelle.thy ===== *)
theory Spec2Isabelle
  imports FileData Adapter TreeOrder Links GcfgFile TarReader TarfsRound MbrDisk Fatfs CpioArchive DepTracker ListingLine FileSink TarSource
begin

text \<open>
  imagetool: a verification development.

  imagetool builds disk and file system images from a configuration file. Its core are \<^emph>\<open>volumes\<close>, block addressed
  media that are stacked on each other (\<open>lib/image\<close>), the \<^emph>\<open>file system tree\<close> that keeps the nodes of a file
  system and places the data of its files on a volume (\<open>lib/filesystem/fstree\<close>), and the \<^emph>\<open>configuration reader\<close>
  that creates and configures these objects through reflection (\<open>lib/gcfg\<close>, \<open>lib/util/reflect.c\<close>). The file
  systems, partition tables and sources of files build on these.

  \<^bold>\<open>Theories.\<close>
  \<^item> \<open>Prelude\<close>: 64 and 32 bit arithmetic with its wrap-around, results of functions that may fail, byte addressed memory.
  \<^item> \<open>Util\<close>: \<open>lib/util/is_memory_zero.c\<close>, \<open>read_retry.c\<close>, \<open>write_retry.c\<close>, over a model of a Unix file whose system calls
    follow a schedule of interrupted, short and failing calls.
  \<^item> \<open>Bitmap\<close>: \<open>lib/util/bitmap.c\<close>, the growing bitmap, refined against a set of numbers.
  \<^item> \<open>Reflect\<close>: \<open>lib/util/reflect.c\<close>, property access through chains of meta objects; the locale \<open>property_access\<close> is
    the contract of a meta object.
  \<^item> \<open>Volume\<close>: the structure \<open>volume_t\<close> as a record of operations, and the byte oriented helpers \<open>volume_read.c\<close>,
    \<open>volume_write.c\<close>, \<open>volume_memmove.c\<close> and \<open>volume_ostream.c\<close>. The locale \<open>volume\<close> is the contract of a volume against
    a \<open>view\<close>, the bytes it holds; the helpers are proved correct once, inside it.
  \<^item> \<open>FileVolume\<close>: \<open>lib/image/basic/file_volume.c\<close>, all operations and the properties; interpretation of \<open>volume\<close> and
    \<open>property_access\<close>.
  \<^item> \<open>Adapter\<close>: \<open>lib/image/basic/blocksize_adapter.c\<close> and \<open>lib/filesystem/fstree/file_volume.c\<close>, volumes on top of a
    volume and of a file.
  \<^item> \<open>Sparse\<close>: the list of holes of a file, as a set of block numbers: marking, unmarking, cutting, counting.
  \<^item> \<open>FsTree\<close>, \<open>FileData\<close>: the operations on file data and what they do to the contents of the files, in the locale
    \<open>volume\<close> and hence for every volume that satisfies the contract.
  \<^item> \<open>Paths\<close>, \<open>Tree\<close>, \<open>TreeOrder\<close>, \<open>Links\<close>: canonical paths; creating, finding and naming nodes; sorting and the inode
    table; hard links.
  \<^item> \<open>Gcfg\<close>, \<open>GcfgFile\<close>: the parsers for values and the parser for files.
  \<^item> \<open>Streams\<close>, \<open>VolStream\<close>: \<open>lib/fstream\<close>, buffered input and output streams. The locales \<open>istream_source\<close>,
    \<open>filling_source\<close> and \<open>ostream_sink\<close> are the contracts of a source and a sink; files, the null stream and volumes
    are interpretations.
  \<^item> \<open>TarNumber\<close>, \<open>Tar\<close>, \<open>TarReader\<close>: \<open>lib/tar\<close>, numbers and encodings, the reader of headers and that it always returns.
  \<^item> \<open>Tarfs\<close>, \<open>TarfsRound\<close>: \<open>lib/filesystem/tarfs\<close>, the writer, and that the reader gets back what it writes.

  \<^item> \<open>Mbr\<close>, \<open>MbrDisk\<close>: \<open>lib/image/partition\<close>, a disk with a partition table, whose partitions are volumes that grow;
    refined against a list of separate files.
  \<^item> \<open>FatConv\<close>, \<open>FatDir\<close>, \<open>FatRead\<close>, \<open>Fat\<close>, \<open>Fatfs\<close>: \<open>lib/filesystem/fatfs\<close>, timestamps and short names, directories and
    an independent reader for them, the allocation tables, and the file system as a whole.
  \<^item> \<open>Cpiofs\<close>, \<open>CpioRead\<close>, \<open>CpioRound\<close>, \<open>CpioArchive\<close>: \<open>lib/filesystem/cpiofs\<close>, the writer of cpio archives, an
    independent reader, the layout of headers and file data on the volume, and the round trip of a whole archive.
  \<^item> \<open>DepTracker\<close>: \<open>lib/imgtool/fsdeptracker.c\<close>, the order in which stacked objects are finished.
  \<^item> \<open>FileSource\<close>: \<open>include/filesource.h\<close> and, in \<open>lib/imgtool/filesource\<close>, \<open>aggregate.c\<close> and \<open>filter.c\<close>: sources of files that are built from
    others; what nested sources deliver.
  \<^item> \<open>Listing\<close>, \<open>ListingLine\<close>: \<open>lib/imgtool/filesource/listing.c\<close>, the parser for lines, the binary form of the entries, and the round trips through both.
  \<^item> \<open>TarSource\<close>: \<open>lib/imgtool/filesource/tar.c\<close>, an archive as a source; the stream of a file is an interpretation of \<open>istream_source\<close>.
  \<^item> \<open>FileSink\<close>: \<open>lib/imgtool/filesink.c\<close>, file systems bound to paths, and adding the records of a source to their trees.

  \<^bold>\<open>Correspondence.\<close> A structure is a record and a function a definition of the same name; where two files have a static
  function of the same name, the model's names carry a prefix (\<open>fv_\<close>, \<open>adapter_\<close>, \<open>fsvol_\<close>, \<open>ft_\<close>). A function that
  changes an object returns the changed object beside its result, also when it fails. Pointers between nodes are node
  numbers, and a chain of pointers is a list. Failing allocations are parameters.

  \<^bold>\<open>What is shown.\<close> Volumes hold what was written to them and nothing else changes, through every layer; appending to a
  file keeps all other files, whichever way blocks move; the tree stays a tree under every operation, and lookup,
  printing, sorting, numbering and link resolution do what their names say, including when they fail; the parsers accept
  exactly what they should, terminate, and stay inside their buffers; streams deliver and keep every byte in order; what the
  tar writer, the cpio writer, the partition table and the FAT writer put on a volume is found there by a reader; sources deliver what they were
  given, and the sink puts each record at its place in the tree of the right file system, or fails for a reason that is named. Where the code does
  not do what it means to, a theorem shows the behaviour.

  \<^bold>\<open>Conditions.\<close> What the theorems exclude is what the code gets wrong. Appending is shown for files whose partial tail block, if there is one,
  does not lie in a hole or directly behind one; in the latter case the tail is corrupted (\<open>append_behind_hole_corrupts\<close>). The disk with a partition table is
  shown on a file volume with blocks of 512 bytes and for creating, reading and writing whole blocks: a regular file has blocks of 4096 bytes, and the
  block size adapter then moves partitions by \<open>move_block_partial\<close>, which leaves unused destination blocks reading as zeros
  (\<open>move_block_partial_unmarked\<close>); and giving back unused space of a partition shifts the ones behind it without their data
  (\<open>mbr_shrink_loses_data\<close>). Lines of text are the documented ones unless a carriage return ends exactly at the end of the buffer. Tar headers are read back
  exactly but for sizes and times from \<open>2 ^ 32\<close> up to \<open>2 ^ 36\<close>, which the writer cuts to 32 bits.

  The statements use specifications of their own where the code has tables: the Gregorian calendar, the powers of 1024 of the size suffixes, the characters
  that FAT allows, the checksum of short names, and the lines of a text.

  \<^bold>\<open>Bounds and fuel.\<close> Loops are recursive functions with a termination proof. The recursion over the tree carries
  the number of nodes as fuel, enough since a node has a smaller number than its children, and the parser of
  configuration files one more than the number of lines; both are proved to be enough. The loops of the tar reader that
  read from a stream, those that read sources and the one that fills the buffer of a file in an archive are partial functions; reading from a file or
  from a source that ends is proved to return, and so is filling the buffer if no hole has 4 GiB or more.

  \<^bold>\<open>Not modelled.\<close> Reference counting and freeing of memory; messages to the user; compression filters
  (\<open>lib/xfrm\<close>) which only call libraries; conversion of numbers to floating point; the source that walks a directory of the host
  (\<open>directory.c\<close>), which consists of system calls; the tables of callbacks that connect the configuration file with the objects, the list of
  plugins and the main program (\<open>lib/imgtool/state.c\<close>, \<open>gcfg_file.c\<close>, \<open>plugin.c\<close>, \<open>bin/imagebuild\<close>), which create the modelled objects and print
  messages; test helpers (\<open>lib/test\<close>).
\<close>

end
